(* ===== verification/Prelude.thy ===== *)
theory Prelude
  imports Main "HOL-Library.Word"
begin

text \<open>
  Shared vocabulary of the development: C strings and byte strings, the \<open>Error\<close>
  out-parameter as a value, machine sizes with their wrap-around, \<open>memchr\<close> and the
  decimal conversion of \<open>printf\<close>, and the list lemmas that the byte scanners share.
  Component proofs collect their rewrite rules in \<open>mua_defs\<close> (definitions that are
  unfolded together) and \<open>scan_simps\<close> (facts about splitting a byte string).
\<close>

named_theorems mua_defs
named_theorems scan_simps

unbundle bit_operations_syntax

section \<open>Types\<close>

type_synonym byte = "8 word"
type_synonym u64 = "64 word"

text \<open>
  \<open>String\<close> of \<open>api/private/defs.h\<close>: a data pointer and a size. \<open>None\<close> is the NULL
  pointer (its size is 0 everywhere in the program), \<open>Some s\<close> a block holding the bytes
  \<open>s\<close>; the code distinguishes the two (\<open>name.data == NULL\<close> tests).
\<close>

type_synonym mstring = "string option"

definition str_bytes :: "mstring \<Rightarrow> string" where
  "str_bytes s = (case s of None \<Rightarrow> [] | Some bs \<Rightarrow> bs)"

definition str_size :: "mstring \<Rightarrow> nat" where
  "str_size s = length (str_bytes s)"

lemma str_bytes_simps [simp]: "str_bytes None = []" "str_bytes (Some bs) = bs"
  by (simp_all add: str_bytes_def)

lemma str_size_simps [simp]: "str_size None = 0" "str_size (Some bs) = length bs"
  by (simp_all add: str_size_def)

text \<open>
  \<open>ErrorType\<close> and \<open>Error\<close>: \<open>kErrorTypeNone\<close> is the absence of an error, so a fallible
  function returns \<open>error option\<close> beside its results, or a sum.
\<close>

datatype error_type = kErrorTypeException | kErrorTypeValidation

type_synonym error = "error_type \<times> string"

section \<open>Characters and C strings\<close>

abbreviation NUL :: char where "NUL \<equiv> CHR 0x00"
abbreviation LF :: char where "LF \<equiv> CHR 0x0A"
abbreviation CR :: char where "CR \<equiv> CHR 0x0D"
abbreviation QUOTE :: char where "QUOTE \<equiv> CHR 0x27"

text \<open>The C string that starts at a block: the bytes before the first NUL.\<close>

definition cstr :: "string \<Rightarrow> string" where
  "cstr s = takeWhile (\<lambda>c. c \<noteq> NUL) s"

lemma cstr_no_nul [simp]: "NUL \<notin> set (cstr s)"
  by (auto simp: cstr_def dest: set_takeWhileD)

lemma cstr_id [simp]: "NUL \<notin> set s \<Longrightarrow> cstr s = s"
  by (auto simp: cstr_def takeWhile_eq_all_conv)

lemma cstr_length: "length (cstr s) \<le> length s"
  by (simp add: cstr_def length_takeWhile_le)

text \<open>\<open>%d\<close> and \<open>%zu\<close> of \<open>printf\<close>.\<close>

fun show_nat :: "nat \<Rightarrow> string" where
  "show_nat n = (if n < 10 then [char_of (48 + n)]
                 else show_nat (n div 10) @ [char_of (48 + n mod 10)])"

declare show_nat.simps [simp del]

definition show_int :: "int \<Rightarrow> string" where
  "show_int i = (if i < 0 then CHR ''-'' # show_nat (nat (- i)) else show_nat (nat i))"

definition is_c_digit :: "char \<Rightarrow> bool" where
  "is_c_digit c \<longleftrightarrow> of_char c \<ge> (48 :: nat) \<and> of_char c \<le> (57 :: nat)"

text \<open>\<open>memchr\<close>: the index of the first occurrence of a byte.\<close>

fun memchr :: "char \<Rightarrow> string \<Rightarrow> nat option" where
  "memchr c [] = None"
| "memchr c (x # xs) = (if x = c then Some 0 else map_option Suc (memchr c xs))"

lemma memchr_None [simp]: "memchr c xs = None \<longleftrightarrow> c \<notin> set xs"
  by (induction xs) auto

lemma memchr_absent [simp]: "c \<notin> set xs \<Longrightarrow> memchr c xs = None"
  by simp

lemma memchr_Some: "memchr c xs = Some n \<longleftrightarrow> c \<in> set xs \<and> n = length (takeWhile (\<lambda>x. x \<noteq> c) xs)"
  by (induction xs arbitrary: n) auto

lemma memchr_less: "memchr c xs = Some n \<Longrightarrow> n < length xs"
  by (induction xs arbitrary: n) (auto split: if_splits)

section \<open>Machine sizes\<close>

text \<open>Subtraction of \<open>size_t\<close> values, with the wrap-around of 64-bit unsigned arithmetic.\<close>

definition size_sub :: "nat \<Rightarrow> nat \<Rightarrow> nat" where
  "size_sub a b = (a + 2 ^ 64 - b) mod 2 ^ 64"

lemma wrap_sub_eq: "b \<le> a \<Longrightarrow> a < n \<Longrightarrow> (a + n - b) mod n = a - (b :: nat)"
  by (metis Nat.add_diff_assoc2 less_imp_diff_less mod_add_self2 mod_less)

lemma size_sub_eq: "b \<le> a \<Longrightarrow> a < 2 ^ 64 \<Longrightarrow> size_sub a b = a - b"
  unfolding size_sub_def by (rule wrap_sub_eq)

section \<open>Splitting byte strings\<close>

lemma take_length_takeWhile [scan_simps]:
  "take (length (takeWhile P xs)) xs = takeWhile P xs"
  by (rule takeWhile_eq_take [symmetric])

lemma drop_length_takeWhile [scan_simps]:
  "drop (length (takeWhile P xs)) xs = dropWhile P xs"
  by (rule dropWhile_eq_drop [symmetric])

lemma dropWhile_shorter: "length (dropWhile P xs) \<le> length xs"
  by (rule length_dropWhile_le)

lemma takeWhile_dropWhile_cases:
  obtains (all) "takeWhile P xs = xs" "dropWhile P xs = []" "\<forall>x \<in> set xs. P x"
  | (stop) y ys where "xs = takeWhile P xs @ y # ys" "dropWhile P xs = y # ys" "\<not> P y"
      "\<forall>x \<in> set (takeWhile P xs). P x"
proof (cases "dropWhile P xs")
  case Nil
  then have "\<forall>x \<in> set xs. P x" by (simp add: dropWhile_eq_Nil_conv)
  then show ?thesis using all Nil by (simp add: takeWhile_eq_all_conv)
next
  case (Cons y ys)
  then have "xs = takeWhile P xs @ y # ys" "\<not> P y"
    by (simp_all add: dropWhile_eq_Cons_conv)
  then show ?thesis using stop Cons by (blast dest: set_takeWhileD)
qed

lemma drop_Suc_length_takeWhile:
  "drop (Suc (length (takeWhile P xs))) xs = drop 1 (dropWhile P xs)"
  by (induction xs) auto

lemma memchr_splits:
  "(case memchr c xs of Some i \<Rightarrow> take i xs | None \<Rightarrow> xs) = takeWhile (\<lambda>x. x \<noteq> c) xs"
  "(case memchr c xs of Some i \<Rightarrow> drop (i + 1) xs | None \<Rightarrow> []) = drop 1 (dropWhile (\<lambda>x. x \<noteq> c) xs)"
proof -
  show "(case memchr c xs of Some i \<Rightarrow> take i xs | None \<Rightarrow> xs) = takeWhile (\<lambda>x. x \<noteq> c) xs"
  proof (cases "memchr c xs")
    case None
    then have "takeWhile (\<lambda>x. x \<noteq> c) xs = xs" by (auto simp: takeWhile_eq_all_conv)
    then show ?thesis unfolding None option.case by (rule sym)
  next
    case (Some i)
    then have i: "i = length (takeWhile (\<lambda>x. x \<noteq> c) xs)" by (simp only: memchr_Some)
    show ?thesis unfolding Some option.case i by (rule take_length_takeWhile)
  qed
  show "(case memchr c xs of Some i \<Rightarrow> drop (i + 1) xs | None \<Rightarrow> []) = drop 1 (dropWhile (\<lambda>x. x \<noteq> c) xs)"
  proof (cases "memchr c xs")
    case None
    then have "dropWhile (\<lambda>x. x \<noteq> c) xs = []" by auto
    then show ?thesis unfolding None option.case by (simp only: drop_Nil)
  next
    case (Some i)
    then have i: "i = length (takeWhile (\<lambda>x. x \<noteq> c) xs)" by (simp only: memchr_Some)
    show ?thesis unfolding Some option.case i Suc_eq_plus1 [symmetric] by (rule drop_Suc_length_takeWhile)
  qed
qed

lemma butlast_append_single [simp]: "butlast (xs @ [x]) = xs"
  by simp

section \<open>Incremental consumers\<close>

text \<open>
  Several components consume a stream in pieces whose boundaries carry no meaning
  (network chunks, \<open>read\<close> results, pipe reads). The interface: one operation \<open>feed\<close>
  on a state satisfying an invariant, seen through a \<open>view\<close> of the state, such that the
  view after a piece is the left fold of a one-element step over that piece. The law
  gives independence of the chunking once and for all.
\<close>

locale chunked_consumer =
  fixes ok :: "'s \<Rightarrow> bool"
    and view :: "'s \<Rightarrow> 'v"
    and step :: "'v \<Rightarrow> 'b \<Rightarrow> 'v"
    and feed :: "'s \<Rightarrow> 'b list \<Rightarrow> 's"
  assumes feed_ok: "ok s \<Longrightarrow> ok (feed s bs)"
    and feed_view: "ok s \<Longrightarrow> view (feed s bs) = foldl step (view s) bs"
begin

lemma feeds_ok: "ok s \<Longrightarrow> ok (foldl feed s css)"
  by (induction css arbitrary: s) (auto simp: feed_ok)

lemma feeds_view: "ok s \<Longrightarrow> view (foldl feed s css) = foldl step (view s) (concat css)"
  by (induction css arbitrary: s) (auto simp: feed_ok feed_view)

lemma feeds_concat: "ok s \<Longrightarrow> view (foldl feed s css) = view (feed s (concat css))"
  by (simp add: feeds_view feed_view)

lemma feeds_rechunk:
  "ok s \<Longrightarrow> concat css = concat dss \<Longrightarrow> view (foldl feed s css) = view (foldl feed s dss)"
  by (simp add: feeds_view)

end

end
