(* ===== verification/Memory.thy ===== *)
theory Memory
  imports Prelude
begin

text \<open>
  \<open>src/mua/memory.c\<close>: the capped growable byte buffer \<open>Buf\<close> that every accumulator of
  the program uses, the arena allocator, and the string-copy helpers. A \<open>Buf\<close> is modelled
  by its live bytes, its capacity and its cap; the arena by the sizes of its blocks
  (current one first) and the offset in the current block. The interface \<open>bounded_buffer\<close>
  states what the clients rely on and is interpreted on \<open>buf_append\<close> below.
\<close>

section \<open>String copies\<close>

definition xstrndup :: "string \<Rightarrow> nat \<Rightarrow> string" where
  "xstrndup str n = cstr (take n str)"

definition xstrdup :: "string \<Rightarrow> string" where
  "xstrdup str = cstr str"

section \<open>The capped buffer\<close>

record buf =
  buf_data :: string
  buf_cap :: nat
  buf_max :: nat

definition buf_size :: "buf \<Rightarrow> nat" where
  "buf_size b = length (buf_data b)"

definition buf_init :: "nat \<Rightarrow> buf" where
  "buf_init m = \<lparr>buf_data = [], buf_cap = 0, buf_max = m\<rparr>"

text \<open>
  The doubling loop of \<open>buf_append\<close>. \<open>None\<close> is a loop that does not return;
  \<open>buf_grow_returns\<close> shows that it returns for every call the code makes.
\<close>

partial_function (option) buf_grow :: "nat \<Rightarrow> nat \<Rightarrow> nat \<Rightarrow> nat option" where
  "buf_grow new_cap needed m =
     (if new_cap < needed
      then (if new_cap > m div 2 then buf_grow m needed m else buf_grow (new_cap * 2) needed m)
      else Some new_cap)"

definition buf_append :: "buf \<Rightarrow> string \<Rightarrow> buf option" where
  "buf_append b bytes =
     (if length bytes = 0 then Some b
      else if length bytes > size_sub (buf_max b) (buf_size b) then None
      else
        let needed = buf_size b + length bytes in
        if needed > buf_cap b then
          (case buf_grow (if buf_cap b \<noteq> 0 then buf_cap b else 64) needed (buf_max b) of
             None \<Rightarrow> None
           | Some new_cap \<Rightarrow> Some (b\<lparr>buf_data := buf_data b @ bytes, buf_cap := new_cap\<rparr>))
        else Some (b\<lparr>buf_data := buf_data b @ bytes\<rparr>))"

definition buf_reset :: "buf \<Rightarrow> buf" where
  "buf_reset b = b\<lparr>buf_data := []\<rparr>"

definition buf_free :: "buf \<Rightarrow> buf" where
  "buf_free b = buf_init (buf_max b)"

text \<open>The invariant: the live bytes fit the capacity and the cap, which is a \<open>size_t\<close>.\<close>

definition buf_ok :: "buf \<Rightarrow> bool" where
  "buf_ok b \<longleftrightarrow> buf_size b \<le> buf_cap b \<and> buf_size b \<le> buf_max b \<and> buf_max b < 2 ^ 64
     \<and> buf_cap b \<le> max 64 (buf_max b)"

lemma buf_grow_returns:
  assumes "0 < c" "needed \<le> m"
  shows "\<exists>c'. buf_grow c needed m = Some c' \<and> needed \<le> c' \<and> c \<le> c' \<and> c' \<le> max c m"
  using assms
proof (induction "needed - c" arbitrary: c rule: less_induct)
  case less
  consider "needed \<le> c" | "c < needed" "c > m div 2" | "c < needed" "c \<le> m div 2"
    by linarith
  then show ?case
  proof cases
    case 1
    then show ?thesis by (subst buf_grow.simps) simp
  next
    case 2
    have "buf_grow m needed m = Some m"
      using less.prems by (subst buf_grow.simps) simp
    with 2 show ?thesis using less.prems by (subst buf_grow.simps) simp
  next
    case 3
    then have "needed - c * 2 < needed - c" using less.prems by linarith
    from less.hyps [OF this] obtain c' where
      c': "buf_grow (c * 2) needed m = Some c'" "needed \<le> c'" "c * 2 \<le> c'" "c' \<le> max (c * 2) m"
      using less.prems by auto
    have "c * 2 \<le> m" using 3 by linarith
    with c' 3 show ?thesis by (subst buf_grow.simps) auto
  qed
qed

lemma buf_init_ok: "m < 2 ^ 64 \<Longrightarrow> buf_ok (buf_init m)"
  by (simp add: buf_ok_def buf_init_def buf_size_def)

lemma buf_reset_ok: "buf_ok b \<Longrightarrow> buf_ok (buf_reset b)"
  by (auto simp: buf_ok_def buf_reset_def buf_size_def)

lemma buf_append_refuses:
  assumes "buf_ok b" "buf_max b < buf_size b + length s"
  shows "buf_append b s = None"
  using assms by (auto simp: buf_append_def buf_ok_def size_sub_eq)

lemma buf_append_fits:
  assumes ok: "buf_ok b" and fits: "buf_size b + length s \<le> buf_max b"
  shows "\<exists>c. buf_append b s = Some (b\<lparr>buf_data := buf_data b @ s, buf_cap := c\<rparr>)
    \<and> buf_ok (b\<lparr>buf_data := buf_data b @ s, buf_cap := c\<rparr>)"
proof -
  let ?n = "buf_size b + length s"
  let ?c = "if buf_cap b \<noteq> 0 then buf_cap b else 64"
  obtain c where c: "buf_grow ?c ?n (buf_max b) = Some c" "?n \<le> c" "?c \<le> c" "c \<le> max ?c (buf_max b)"
    using buf_grow_returns [of ?c ?n "buf_max b", OF _ fits] by (cases "buf_cap b = 0") auto
  have room: "\<not> length s > size_sub (buf_max b) (buf_size b)"
    using ok fits by (auto simp: buf_ok_def size_sub_eq)
  consider "s = []" | "s \<noteq> []" "?n > buf_cap b" | "s \<noteq> []" "?n \<le> buf_cap b"
    by linarith
  then show ?thesis
  proof cases
    case 1
    then show ?thesis using ok
      by (intro exI [of _ "buf_cap b"]) (simp add: buf_append_def)
  next
    case 2
    then have "buf_append b s = Some (b\<lparr>buf_data := buf_data b @ s, buf_cap := c\<rparr>)"
      using c room by (simp add: buf_append_def Let_def)
    moreover have "c \<le> max 64 (buf_max b)"
      using c(4) ok by (auto simp: buf_ok_def split: if_splits)
    ultimately show ?thesis
      using ok fits c(2) by (intro exI [of _ c]) (simp add: buf_ok_def buf_size_def)
  next
    case 3
    then have "buf_append b s = Some (b\<lparr>buf_data := buf_data b @ s\<rparr>)"
      using room by (simp add: buf_append_def Let_def)
    then show ?thesis using ok fits 3
      by (intro exI [of _ "buf_cap b"]) (simp add: buf_ok_def buf_size_def)
  qed
qed

section \<open>The interface of the accumulators\<close>

fun append_all :: "('b \<Rightarrow> string \<Rightarrow> 'b option) \<Rightarrow> 'b \<Rightarrow> string list \<Rightarrow> 'b option" where
  "append_all app b [] = Some b"
| "append_all app b (s # ss) = (case app b s of None \<Rightarrow> None | Some b' \<Rightarrow> append_all app b' ss)"

locale bounded_buffer =
  fixes ok :: "'b \<Rightarrow> bool"
    and content :: "'b \<Rightarrow> string"
    and bound :: "'b \<Rightarrow> nat"
    and append :: "'b \<Rightarrow> string \<Rightarrow> 'b option"
    and reset :: "'b \<Rightarrow> 'b"
  assumes fits: "ok b \<Longrightarrow> length (content b) + length s \<le> bound b \<Longrightarrow>
      \<exists>b'. append b s = Some b' \<and> ok b' \<and> content b' = content b @ s \<and> bound b' = bound b"
    and refuses: "ok b \<Longrightarrow> bound b < length (content b) + length s \<Longrightarrow> append b s = None"
    and within: "ok b \<Longrightarrow> length (content b) \<le> bound b"
    and reset_ok: "ok b \<Longrightarrow> ok (reset b)"
    and reset_content: "content (reset b) = []"
    and reset_bound: "bound (reset b) = bound b"
begin

lemma appendE:
  assumes "ok b" "append b s = Some b'"
  obtains "ok b'" "content b' = content b @ s" "bound b' = bound b"
    "length (content b) + length s \<le> bound b"
proof -
  have le: "length (content b) + length s \<le> bound b"
    using assms refuses [of b s] by (cases "bound b < length (content b) + length s") auto
  from fits [OF assms(1) this] assms(2) le that show ?thesis by auto
qed

lemma append_None_iff: "ok b \<Longrightarrow> append b s = None \<longleftrightarrow> bound b < length (content b) + length s"
  using fits [of b s] refuses [of b s] by (cases "bound b < length (content b) + length s") auto

lemma append_all_None_iff:
  "ok b \<Longrightarrow> append_all append b ss = None \<longleftrightarrow> bound b < length (content b) + length (concat ss)"
proof (induction ss arbitrary: b)
  case Nil
  then show ?case using within by (simp add: leD)
next
  case (Cons s ss)
  show ?case
  proof (cases "append b s")
    case None
    then show ?thesis using append_None_iff [OF Cons.prems, of s] by simp
  next
    case (Some b')
    then obtain "ok b'" "content b' = content b @ s" "bound b' = bound b"
      using Cons.prems by (blast elim: appendE)
    with Some show ?thesis by (simp add: Cons.IH add.assoc)
  qed
qed

lemma append_all_Some:
  "ok b \<Longrightarrow> append_all append b ss = Some b' \<Longrightarrow>
     ok b' \<and> content b' = content b @ concat ss \<and> bound b' = bound b"
proof (induction ss arbitrary: b)
  case Nil
  then show ?case by simp
next
  case (Cons s ss)
  from Cons.prems(2) obtain b1 where b1: "append b s = Some b1" "append_all append b1 ss = Some b'"
    by (auto split: option.splits)
  from Cons.prems(1) b1(1) obtain "ok b1" "content b1 = content b @ s" "bound b1 = bound b"
    by (rule appendE)
  with Cons.IH [of b1] b1(2) show ?case by simp
qed

end

interpretation buf: bounded_buffer buf_ok buf_data buf_max buf_append buf_reset
proof
  fix b and s :: string assume "buf_ok b" "length (buf_data b) + length s \<le> buf_max b"
  then show "\<exists>b'. buf_append b s = Some b' \<and> buf_ok b' \<and> buf_data b' = buf_data b @ s
      \<and> buf_max b' = buf_max b"
    using buf_append_fits [of b s] by (auto simp: buf_size_def)
next
  fix b and s :: string assume "buf_ok b" "buf_max b < length (buf_data b) + length s"
  then show "buf_append b s = None" by (simp add: buf_append_refuses buf_size_def)
qed (auto simp: buf_ok_def buf_reset_def buf_size_def)

section \<open>The arena\<close>

text \<open>
  \<open>size_t\<close> values of the arena are 64-bit words. An allocation is a block (numbered from
  the oldest) and an offset in its data; \<open>None\<close> is \<open>oom_abort\<close>.
\<close>

record arena =
  ar_blocks :: "u64 list"
  ar_offset :: u64

definition arena_init :: arena where
  "arena_init = \<lparr>ar_blocks = [], ar_offset = 0\<rparr>"

definition arena_align_up :: "u64 \<Rightarrow> u64" where
  "arena_align_up sz = (sz + 15) AND NOT 15"

definition arena_alloc :: "arena \<Rightarrow> u64 \<Rightarrow> ((nat \<times> u64) \<times> arena) option" where
  "arena_alloc ar sz =
     (let aligned = arena_align_up sz in
      if aligned < sz then None
      else
        let ar' = (case ar_blocks ar of
              [] \<Rightarrow> \<lparr>ar_blocks = [if aligned > 4096 then aligned else 4096], ar_offset = 0\<rparr>
            | cur # rest \<Rightarrow>
                if aligned > cur - ar_offset ar
                then \<lparr>ar_blocks = (if aligned > 4096 then aligned else 4096) # cur # rest, ar_offset = 0\<rparr>
                else ar)
        in Some ((length (ar_blocks ar') - 1, ar_offset ar'),
                 ar'\<lparr>ar_offset := ar_offset ar' + aligned\<rparr>))"

definition arena_finish :: "arena \<Rightarrow> arena" where
  "arena_finish ar = \<lparr>ar_blocks = [], ar_offset = 0\<rparr>"

end
