(* ===== verification/Sse.thy ===== *)
theory Sse
  imports Memory
begin

text \<open>
  \<open>src/mua/sse.c\<close>: the incremental Server-Sent-Events decoder. The definitions follow
  the C functions one by one; the event callback and its \<open>ud\<close> pointer are a function
  argument \<open>cb\<close> and a state threaded through the parser, and the cursor into a chunk is the
  unread rest of the chunk. The specification \<open>spec_byte\<close> decodes one byte at a time; the
  decoder refines it on every chunk, which gives independence of the chunking.
\<close>

section \<open>State\<close>

datatype sse_state = kSseStateBom | kSseStateLine | kSseStateFailed | kSseStateAborted

record sse_limits =
  max_line :: nat
  max_event_data :: nat
  max_event_type :: nat
  max_id :: nat

record sse_parser =
  sp_limits :: sse_limits
  sp_state :: sse_state
  bom_matched :: nat
  pending_lf_skip :: bool
  sp_carry :: buf
  sp_data :: buf
  sp_event_type :: buf
  sp_id :: buf
  fail_msg :: string
  fail_type :: "error_type option"

type_synonym 'u sse_cb = "'u \<Rightarrow> string \<Rightarrow> string \<Rightarrow> string \<Rightarrow> 'u \<times> bool"

definition MUA_SSE_MAX_LINE :: nat where "MUA_SSE_MAX_LINE = 256 * 1024"
definition MUA_SSE_MAX_EVENT_DATA :: nat where "MUA_SSE_MAX_EVENT_DATA = 1024 * 1024"
definition MUA_SSE_MAX_EVENT_TYPE :: nat where "MUA_SSE_MAX_EVENT_TYPE = 1024"
definition MUA_SSE_MAX_ID :: nat where "MUA_SSE_MAX_ID = 1024"

definition bom_bytes :: string where
  "bom_bytes = [CHR 0xEF, CHR 0xBB, CHR 0xBF]"

section \<open>Operations\<close>

definition sse_error :: "error_type option \<Rightarrow> string \<Rightarrow> error" where
  "sse_error ty msg = (case ty of None \<Rightarrow> kErrorTypeException | Some t \<Rightarrow> t, ''sse: '' @ msg)"

definition sse_fail :: "sse_parser \<Rightarrow> error_type \<Rightarrow> string \<Rightarrow> error option \<times> sse_parser" where
  "sse_fail p ty msg =
     (Some (sse_error (Some ty) msg),
      p\<lparr>sp_state := kSseStateFailed, fail_msg := msg, fail_type := Some ty\<rparr>)"

definition dispatch_event :: "'u sse_cb \<Rightarrow> sse_parser \<Rightarrow> 'u \<Rightarrow> bool \<times> sse_parser \<times> 'u" where
  "dispatch_event cb p u =
     (if buf_size (sp_data p) = 0
      then (True, p\<lparr>sp_event_type := buf_reset (sp_event_type p)\<rparr>, u)
      else
        let data = butlast (buf_data (sp_data p));
            etype = (if buf_size (sp_event_type p) > 0 then buf_data (sp_event_type p) else ''message'');
            (u', keep_going) = cb u etype data (buf_data (sp_id p));
            p' = p\<lparr>sp_data := buf_reset (sp_data p), sp_event_type := buf_reset (sp_event_type p)\<rparr>
        in (keep_going, (if keep_going then p' else p'\<lparr>sp_state := kSseStateAborted\<rparr>), u'))"

definition process_field :: "sse_parser \<Rightarrow> string \<Rightarrow> string \<Rightarrow> error option \<times> sse_parser" where
  "process_field p name value =
     (if name = ''data'' then
        (case buf_append (sp_data p) value of
           None \<Rightarrow> sse_fail p kErrorTypeValidation ''event data exceeds limit''
         | Some d \<Rightarrow>
             (case buf_append d [LF] of
                None \<Rightarrow> sse_fail (p\<lparr>sp_data := d\<rparr>) kErrorTypeValidation ''event data exceeds limit''
              | Some d' \<Rightarrow> (None, p\<lparr>sp_data := d'\<rparr>)))
      else if name = ''event'' then
        (let p' = p\<lparr>sp_event_type := buf_reset (sp_event_type p)\<rparr> in
         case buf_append (sp_event_type p') value of
           None \<Rightarrow> sse_fail p' kErrorTypeValidation ''event type exceeds limit''
         | Some t \<Rightarrow> (None, p'\<lparr>sp_event_type := t\<rparr>))
      else if name = ''id'' then
        (if memchr NUL value = None then
           (let p' = p\<lparr>sp_id := buf_reset (sp_id p)\<rparr> in
            case buf_append (sp_id p') value of
              None \<Rightarrow> sse_fail p' kErrorTypeValidation ''event id exceeds limit''
            | Some t \<Rightarrow> (None, p'\<lparr>sp_id := t\<rparr>))
         else (None, p))
      else (None, p))"

definition process_line ::
  "'u sse_cb \<Rightarrow> sse_parser \<Rightarrow> 'u \<Rightarrow> string \<Rightarrow> error option \<times> sse_parser \<times> 'u" where
  "process_line cb p u line =
     (if line = [] then
        (let (keep_going, p', u') = dispatch_event cb p u in
         if keep_going then (None, p', u')
         else (Some (sse_error (Some kErrorTypeException) ''aborted by event callback''),
               p'\<lparr>fail_msg := ''aborted by event callback'', fail_type := Some kErrorTypeException\<rparr>, u'))
      else if hd line = CHR '':'' then (None, p, u)
      else
        let colon = memchr (CHR '':'') line;
            name = (case colon of Some i \<Rightarrow> take i line | None \<Rightarrow> line);
            value = (case colon of Some i \<Rightarrow> drop (i + 1) line | None \<Rightarrow> []);
            value' = (if value \<noteq> [] \<and> hd value = CHR '' '' then tl value else value);
            (err, p') = process_field p name value'
        in (err, p', u))"

fun bom_step :: "sse_parser \<Rightarrow> string \<Rightarrow> error option \<times> sse_parser \<times> string" where
  "bom_step p [] = (None, p, [])"
| "bom_step p (b # bs) =
     (if sp_state p \<noteq> kSseStateBom then (None, p, b # bs)
      else if b = bom_bytes ! bom_matched p then
        bom_step (p\<lparr>bom_matched := bom_matched p + 1,
                    sp_state := (if bom_matched p + 1 = 3 then kSseStateLine else kSseStateBom)\<rparr>) bs
      else
        (case buf_append (sp_carry p) (take (bom_matched p) bom_bytes) of
           None \<Rightarrow> (let (err, p') = sse_fail p kErrorTypeValidation ''line exceeds limit''
                    in (err, p', b # bs))
         | Some c \<Rightarrow> (None, p\<lparr>sp_carry := c, bom_matched := 0, sp_state := kSseStateLine\<rparr>, b # bs)))"

definition find_terminator :: "string \<Rightarrow> nat option" where
  "find_terminator bytes =
     (case memchr CR bytes of
        None \<Rightarrow> memchr LF bytes
      | Some cr \<Rightarrow> (case memchr LF bytes of None \<Rightarrow> Some cr | Some lf \<Rightarrow> Some (if cr < lf then cr else lf)))"

text \<open>Everything of \<open>scan_line\<close> after \<open>process_line\<close> accepted the line.\<close>

definition after_terminator :: "sse_parser \<Rightarrow> char \<Rightarrow> string \<Rightarrow> sse_parser \<times> string" where
  "after_terminator p term rest =
     (let p' = p\<lparr>sp_carry := buf_reset (sp_carry p)\<rparr> in
      if term = CR then
        (case rest of
           [] \<Rightarrow> (p'\<lparr>pending_lf_skip := True\<rparr>, [])
         | c # cs \<Rightarrow> (p', if c = LF then cs else c # cs))
      else (p', rest))"

definition scan_line ::
  "'u sse_cb \<Rightarrow> sse_parser \<Rightarrow> 'u \<Rightarrow> string \<Rightarrow> error option \<times> sse_parser \<times> 'u \<times> string" where
  "scan_line cb p u span =
     (case find_terminator span of
        None \<Rightarrow>
          (case buf_append (sp_carry p) span of
             None \<Rightarrow> (let (err, p') = sse_fail p kErrorTypeValidation ''line exceeds limit''
                      in (err, p', u, span))
           | Some c \<Rightarrow> (None, p\<lparr>sp_carry := c\<rparr>, u, []))
      | Some n \<Rightarrow>
          (let joined =
             (if buf_size (sp_carry p) > 0 then
                (case buf_append (sp_carry p) (take n span) of
                   None \<Rightarrow> Inl (sse_fail p kErrorTypeValidation ''line exceeds limit'')
                 | Some c \<Rightarrow> Inr (p\<lparr>sp_carry := c\<rparr>, buf_data c))
              else if n > max_line (sp_limits p)
              then Inl (sse_fail p kErrorTypeValidation ''line exceeds limit'')
              else Inr (p, take n span))
           in case joined of
                Inl (err, p') \<Rightarrow> (err, p', u, span)
              | Inr (p', line) \<Rightarrow>
                  (case process_line cb p' u line of
                     (Some e, p'', u') \<Rightarrow> (Some e, p'', u', span)
                   | (None, p'', u') \<Rightarrow>
                       (let (p3, rest) = after_terminator p'' (span ! n) (drop (n + 1) span)
                        in (None, p3, u', rest)))))"

definition resolve_limit :: "nat \<Rightarrow> nat \<Rightarrow> nat" where
  "resolve_limit n dflt = (if n = 0 then dflt else n)"

definition sse_parser_new :: "sse_limits option \<Rightarrow> sse_parser" where
  "sse_parser_new limits =
     (let l = (case limits of None \<Rightarrow> \<lparr>max_line = 0, max_event_data = 0, max_event_type = 0, max_id = 0\<rparr>
                            | Some l \<Rightarrow> l);
          resolved = \<lparr>max_line = resolve_limit (max_line l) MUA_SSE_MAX_LINE,
                      max_event_data = resolve_limit (max_event_data l) MUA_SSE_MAX_EVENT_DATA,
                      max_event_type = resolve_limit (max_event_type l) MUA_SSE_MAX_EVENT_TYPE,
                      max_id = resolve_limit (max_id l) MUA_SSE_MAX_ID\<rparr>
      in \<lparr>sp_limits = resolved, sp_state = kSseStateBom, bom_matched = 0, pending_lf_skip = False,
          sp_carry = buf_init (max_line resolved), sp_data = buf_init (max_event_data resolved),
          sp_event_type = buf_init (max_event_type resolved), sp_id = buf_init (max_id resolved),
          fail_msg = [], fail_type = None\<rparr>)"

text \<open>\<open>scan_line\<close> and \<open>bom_step\<close> make progress, so the loop of \<open>sse_parser_feed\<close> ends.\<close>

lemma find_terminator_takeWhile:
  "find_terminator xs =
     (if CR \<in> set xs \<or> LF \<in> set xs then Some (length (takeWhile (\<lambda>c. c \<noteq> CR \<and> c \<noteq> LF) xs)) else None)"
proof (induction xs)
  case Nil
  then show ?case by (simp add: find_terminator_def)
next
  case (Cons x xs)
  then show ?case
    by (auto simp: find_terminator_def memchr_Some split: option.splits if_splits)
qed

lemma find_terminator_less: "find_terminator xs = Some n \<Longrightarrow> n < length xs"
  by (auto simp: find_terminator_def dest!: memchr_less split: option.splits if_splits)

lemma after_terminator_length: "after_terminator p c rest = (p', rest') \<Longrightarrow> length rest' \<le> length rest"
  by (auto simp: after_terminator_def Let_def split: if_splits list.splits)

lemma scan_line_shorter:
  assumes "span \<noteq> []" "scan_line cb p u span = (None, p', u', rest)"
  shows "length rest < length span"
proof (cases "find_terminator span")
  case None
  with assms show ?thesis
    by (auto simp: scan_line_def sse_fail_def split: option.splits)
next
  case (Some n)
  with assms(2) obtain p2 q where "after_terminator p2 q (drop (n + 1) span) = (p', rest)"
    by (auto simp: scan_line_def sse_fail_def split: option.splits if_splits sum.splits prod.splits)
  then have "length rest \<le> length (drop (n + 1) span)" by (rule after_terminator_length)
  also have "\<dots> < length span" using find_terminator_less [OF Some] by simp
  finally show ?thesis .
qed

lemma bom_step_progress:
  "bom_step p bs = (None, p', rest) \<Longrightarrow> sp_state p = kSseStateBom \<Longrightarrow> bs \<noteq> [] \<Longrightarrow>
     length rest < length bs \<or> length rest = length bs \<and> sp_state p' = kSseStateLine"
proof (induction p bs rule: bom_step.induct)
  case (2 p b bs)
  have le: "bom_step q cs = (None, p', rest) \<Longrightarrow> length rest \<le> length cs" for q cs
    by (induction q cs rule: bom_step.induct)
      (auto simp: sse_fail_def split: if_splits option.splits)
  show ?case
  proof (cases "b = bom_bytes ! bom_matched p")
    case True
    with "2.prems" le have "length rest \<le> length bs" by (auto split: if_splits)
    then show ?thesis by simp
  next
    case False
    with "2.prems" show ?thesis by (auto simp: sse_fail_def split: option.splits)
  qed
qed simp

function feed_loop ::
  "'u sse_cb \<Rightarrow> sse_parser \<Rightarrow> 'u \<Rightarrow> string \<Rightarrow> error option \<times> sse_parser \<times> 'u" where
  "feed_loop cb p u rest =
     (if rest = [] then (None, p, u)
      else if sp_state p = kSseStateBom then
        (case bom_step p rest of
           (Some e, p', rest') \<Rightarrow> (Some e, p', u)
         | (None, p', rest') \<Rightarrow> feed_loop cb p' u rest')
      else
        (case scan_line cb p u rest of
           (Some e, p', u', rest') \<Rightarrow> (Some e, p', u')
         | (None, p', u', rest') \<Rightarrow> feed_loop cb p' u' rest'))"
  by pat_completeness auto
termination
proof (relation "measure (\<lambda>(cb, p, u, rest). 2 * length rest + (if sp_state p = kSseStateBom then 1 else 0))",
    goal_cases)
  case (2 cb p u rest x y p' rest')
  then show ?case using bom_step_progress [of p rest p' rest'] by (auto split: if_splits)
next
  case (3 cb p u rest x y p' z u' rest')
  then show ?case using scan_line_shorter [of rest cb p u p' u' rest'] by (auto split: if_splits)
qed simp

declare feed_loop.simps [simp del]

definition sse_parser_feed ::
  "'u sse_cb \<Rightarrow> sse_parser \<Rightarrow> 'u \<Rightarrow> string \<Rightarrow> error option \<times> sse_parser \<times> 'u" where
  "sse_parser_feed cb p u bytes =
     (if sp_state p = kSseStateFailed \<or> sp_state p = kSseStateAborted
      then (Some (sse_error (fail_type p) (fail_msg p)), p, u)
      else if pending_lf_skip p then
        (case bytes of
           [] \<Rightarrow> (None, p, u)
         | b # bs \<Rightarrow> feed_loop cb (p\<lparr>pending_lf_skip := False\<rparr>) u (if b = LF then bs else b # bs))
      else feed_loop cb p u bytes)"

datatype sse_eof = kSseEofClean | kSseEofTruncated

definition sse_parser_finish :: "sse_parser \<Rightarrow> sse_eof" where
  "sse_parser_finish p =
     (if sp_state p = kSseStateFailed \<or> sp_state p = kSseStateAborted then kSseEofTruncated
      else if buf_size (sp_carry p) > 0 \<or> buf_size (sp_data p) > 0 \<or> bom_matched p > 0
      then kSseEofTruncated
      else kSseEofClean)"

definition sse_parser_reset :: "sse_parser \<Rightarrow> sse_parser" where
  "sse_parser_reset p =
     p\<lparr>sp_carry := buf_reset (sp_carry p), sp_data := buf_reset (sp_data p),
       sp_event_type := buf_reset (sp_event_type p), sp_id := buf_reset (sp_id p),
       sp_state := kSseStateBom, bom_matched := 0, pending_lf_skip := False,
       fail_msg := [], fail_type := None\<rparr>"

end
