(* ===== verification/SseRefine.thy ===== *)
theory SseRefine
  imports Sse
begin

text \<open>
  What \<open>sse.c\<close> promises: a decoder that reads one byte at a time (\<open>spec_byte\<close>, over plain
  strings instead of capped buffers), the refinement of it by \<open>sse_parser_feed\<close> on every
  chunk, and the consequences: the events do not depend on how the stream was chunked, the
  buffers stay within their caps, and a failed parser stays failed and silent.
\<close>

section \<open>The byte-at-a-time decoder\<close>

record sse_live =
  lv_limits :: sse_limits
  lv_in_bom :: bool
  lv_bom :: nat
  lv_skip :: bool
  lv_line :: string
  lv_data :: string
  lv_type :: string
  lv_id :: string

datatype sse_view = Dead sse_state string "error_type option" | Live sse_live

definition dead :: "string \<Rightarrow> sse_view" where
  "dead msg = Dead kSseStateFailed msg (Some kErrorTypeValidation)"

definition spec_field :: "sse_live \<Rightarrow> string \<Rightarrow> string \<Rightarrow> sse_view" where
  "spec_field lv name value =
     (if name = ''data'' then
        (if length (lv_data lv) + length value + 1 > max_event_data (lv_limits lv)
         then dead ''event data exceeds limit''
         else Live (lv\<lparr>lv_data := lv_data lv @ value @ [LF]\<rparr>))
      else if name = ''event'' then
        (if length value > max_event_type (lv_limits lv) then dead ''event type exceeds limit''
         else Live (lv\<lparr>lv_type := value\<rparr>))
      else if name = ''id'' \<and> NUL \<notin> set value then
        (if length value > max_id (lv_limits lv) then dead ''event id exceeds limit''
         else Live (lv\<lparr>lv_id := value\<rparr>))
      else Live lv)"

definition spec_dispatch :: "'u sse_cb \<Rightarrow> sse_live \<Rightarrow> 'u \<Rightarrow> sse_view \<times> 'u" where
  "spec_dispatch cb lv u =
     (if lv_data lv = [] then (Live (lv\<lparr>lv_type := []\<rparr>), u)
      else
        let (u', go) = cb u (if lv_type lv = [] then ''message'' else lv_type lv)
                            (butlast (lv_data lv)) (lv_id lv)
        in (if go then Live (lv\<lparr>lv_data := [], lv_type := []\<rparr>)
            else Dead kSseStateAborted ''aborted by event callback'' (Some kErrorTypeException), u'))"

definition strip_space :: "string \<Rightarrow> string" where
  "strip_space v = (case v of [] \<Rightarrow> [] | c # cs \<Rightarrow> if c = CHR '' '' then cs else v)"

definition spec_line :: "'u sse_cb \<Rightarrow> sse_live \<Rightarrow> 'u \<Rightarrow> string \<Rightarrow> sse_view \<times> 'u" where
  "spec_line cb lv u line =
     (case line of
        [] \<Rightarrow> spec_dispatch cb lv u
      | c # cs \<Rightarrow>
          if c = CHR '':'' then (Live lv, u)
          else (spec_field lv (takeWhile (\<lambda>c. c \<noteq> CHR '':'') line)
                  (strip_space (drop 1 (dropWhile (\<lambda>c. c \<noteq> CHR '':'') line))), u))"

definition spec_content :: "sse_live \<Rightarrow> string \<Rightarrow> sse_view" where
  "spec_content lv s =
     (if length (lv_line lv) + length s > max_line (lv_limits lv) then dead ''line exceeds limit''
      else Live (lv\<lparr>lv_line := lv_line lv @ s\<rparr>))"

definition spec_char :: "'u sse_cb \<Rightarrow> sse_live \<Rightarrow> 'u \<Rightarrow> char \<Rightarrow> sse_view \<times> 'u" where
  "spec_char cb lv u b =
     (if lv_skip lv \<and> b = LF then (Live (lv\<lparr>lv_skip := False\<rparr>), u)
      else if b = CR \<or> b = LF
      then spec_line cb (lv\<lparr>lv_line := [], lv_skip := (b = CR)\<rparr>) u (lv_line lv)
      else (spec_content (lv\<lparr>lv_skip := False\<rparr>) [b], u))"

definition spec_byte :: "'u sse_cb \<Rightarrow> sse_view \<times> 'u \<Rightarrow> char \<Rightarrow> sse_view \<times> 'u" where
  "spec_byte cb vu b =
     (case vu of
        (Dead st msg ty, u) \<Rightarrow> vu
      | (Live lv, u) \<Rightarrow>
          if lv_in_bom lv then
            if b = bom_bytes ! lv_bom lv
            then (Live (lv\<lparr>lv_bom := lv_bom lv + 1, lv_in_bom := (lv_bom lv + 1 \<noteq> 3)\<rparr>), u)
            else (case spec_content (lv\<lparr>lv_in_bom := False, lv_bom := 0\<rparr>) (take (lv_bom lv) bom_bytes) of
                    Dead st msg ty \<Rightarrow> (Dead st msg ty, u)
                  | Live lv' \<Rightarrow> spec_char cb lv' u b)
          else spec_char cb lv u b)"

section \<open>The abstraction\<close>

definition live_of :: "sse_parser \<Rightarrow> sse_live" where
  "live_of p = \<lparr>lv_limits = sp_limits p, lv_in_bom = (sp_state p = kSseStateBom), lv_bom = bom_matched p,
     lv_skip = pending_lf_skip p, lv_line = buf_data (sp_carry p), lv_data = buf_data (sp_data p),
     lv_type = buf_data (sp_event_type p), lv_id = buf_data (sp_id p)\<rparr>"

definition view_of :: "sse_parser \<Rightarrow> sse_view" where
  "view_of p = (if sp_state p = kSseStateFailed \<or> sp_state p = kSseStateAborted
                then Dead (sp_state p) (fail_msg p) (fail_type p) else Live (live_of p))"

definition view_error :: "sse_view \<Rightarrow> error option" where
  "view_error v = (case v of Dead st msg ty \<Rightarrow> Some (sse_error ty msg) | Live lv \<Rightarrow> None)"

definition sse_ok :: "sse_parser \<Rightarrow> bool" where
  "sse_ok p \<longleftrightarrow>
     buf_ok (sp_carry p) \<and> buf_ok (sp_data p) \<and> buf_ok (sp_event_type p) \<and> buf_ok (sp_id p)
     \<and> buf_max (sp_carry p) = max_line (sp_limits p)
     \<and> buf_max (sp_data p) = max_event_data (sp_limits p)
     \<and> buf_max (sp_event_type p) = max_event_type (sp_limits p)
     \<and> buf_max (sp_id p) = max_id (sp_limits p)
     \<and> (sp_state p = kSseStateBom \<longrightarrow>
          bom_matched p < 3 \<and> \<not> pending_lf_skip p \<and> buf_data (sp_carry p) = [])"

lemma buf_append_cases:
  assumes "buf_ok b"
  obtains (refused) "buf_append b s = None" "buf_max b < length (buf_data b) + length s"
  | (fits) b' where "buf_append b s = Some b'" "buf_ok b'" "buf_data b' = buf_data b @ s"
      "buf_max b' = buf_max b" "length (buf_data b) + length s \<le> buf_max b"
proof (cases "buf_append b s")
  case None
  then show ?thesis using refused buf.append_None_iff [OF assms] by blast
next
  case (Some b')
  from buf.appendE [OF assms Some] Some show ?thesis using fits by metis
qed

lemma buf_reset_simps [simp]:
  "buf_data (buf_reset b) = []" "buf_max (buf_reset b) = buf_max b" "buf_ok b \<Longrightarrow> buf_ok (buf_reset b)"
  by (simp_all add: buf.reset_content buf.reset_bound buf.reset_ok)

lemma buf_size_0 [simp]: "buf_size b = 0 \<longleftrightarrow> buf_data b = []"
  by (simp add: buf_size_def)

section \<open>Refinement of the steps\<close>

lemma process_field_refines:
  assumes ok: "sse_ok p" and st: "sp_state p = kSseStateLine"
    and run: "process_field p name value = (err, p')"
  shows "sse_ok p' \<and> sp_limits p' = sp_limits p \<and> sp_carry p' = sp_carry p
    \<and> pending_lf_skip p' = pending_lf_skip p \<and> err = view_error (view_of p')
    \<and> spec_field ((live_of p)\<lparr>lv_line := l, lv_skip := s\<rparr>) name value =
        (case view_of p' of Dead st m t \<Rightarrow> Dead st m t
                          | Live lv \<Rightarrow> Live (lv\<lparr>lv_line := l, lv_skip := s\<rparr>))"
proof -
  consider (data) "name = ''data''" | (etype) "name = ''event''" | (id) "name = ''id''" "NUL \<notin> set value"
    | (other) "name \<noteq> ''data''" "name \<noteq> ''event''" "name = ''id'' \<longrightarrow> NUL \<in> set value"
    by blast
  then show ?thesis
  proof cases
    case data
    have okd: "buf_ok (sp_data p)" using ok by (simp add: sse_ok_def)
    show ?thesis
    proof (cases rule: buf_append_cases [OF okd, of "value"])
      case 1
      with data run ok st show ?thesis
        by (auto simp: process_field_def sse_fail_def sse_ok_def spec_field_def view_of_def live_of_def
            dead_def view_error_def)
    next
      case (2 d)
      show ?thesis
      proof (cases rule: buf_append_cases [OF 2(2), of "[LF]"])
        case 1
        with 2 data run ok st show ?thesis
          by (auto simp: process_field_def sse_fail_def sse_ok_def spec_field_def view_of_def live_of_def
              dead_def view_error_def)
      next
        case (2 d')
        with \<open>buf_append (sp_data p) value = Some d\<close> \<open>buf_data d = buf_data (sp_data p) @ value\<close>
          \<open>buf_max d = buf_max (sp_data p)\<close> data run ok st show ?thesis
          by (auto simp: process_field_def sse_ok_def spec_field_def view_of_def live_of_def
              dead_def view_error_def)
      qed
    qed
  next
    case etype
    have okd: "buf_ok (buf_reset (sp_event_type p))" using ok by (simp add: sse_ok_def)
    show ?thesis
      by (cases rule: buf_append_cases [OF okd, of "value"])
        (use etype run ok st in \<open>auto simp: process_field_def sse_fail_def sse_ok_def spec_field_def
            view_of_def live_of_def dead_def view_error_def Let_def\<close>)
  next
    case id
    have okd: "buf_ok (buf_reset (sp_id p))" using ok by (simp add: sse_ok_def)
    show ?thesis
      by (cases rule: buf_append_cases [OF okd, of "value"])
        (use id run ok st in \<open>auto simp: process_field_def sse_fail_def sse_ok_def spec_field_def
            view_of_def live_of_def dead_def view_error_def Let_def\<close>)
  next
    case other
    with run ok st show ?thesis
      by (auto simp: process_field_def spec_field_def view_of_def live_of_def view_error_def
          split: if_splits)
  qed
qed

lemma dispatch_event_refines:
  assumes ok: "sse_ok p" and st: "sp_state p = kSseStateLine"
    and run: "process_line cb p u [] = (err, p', u')"
  shows "sse_ok p' \<and> sp_limits p' = sp_limits p \<and> sp_carry p' = sp_carry p
    \<and> pending_lf_skip p' = pending_lf_skip p \<and> err = view_error (view_of p')
    \<and> spec_dispatch cb ((live_of p)\<lparr>lv_line := l, lv_skip := s\<rparr>) u =
        (case view_of p' of Dead st m t \<Rightarrow> Dead st m t
                          | Live lv \<Rightarrow> Live (lv\<lparr>lv_line := l, lv_skip := s\<rparr>), u')"
proof (cases "buf_data (sp_data p) = []")
  case True
  with run ok st show ?thesis
    by (auto simp: process_line_def dispatch_event_def sse_ok_def spec_dispatch_def view_of_def
        live_of_def view_error_def)
next
  case False
  obtain v go where cb: "cb u (if buf_data (sp_event_type p) = [] then ''message''
      else buf_data (sp_event_type p)) (butlast (buf_data (sp_data p))) (buf_data (sp_id p)) = (v, go)"
    by fastforce
  with False run ok st show ?thesis
    by (cases go; cases "buf_data (sp_event_type p) = []")
      (auto simp: process_line_def dispatch_event_def sse_ok_def spec_dispatch_def view_of_def
        live_of_def view_error_def sse_error_def buf_size_def)
qed

lemma process_line_refines:
  assumes ok: "sse_ok p" and st: "sp_state p = kSseStateLine"
    and run: "process_line cb p u line = (err, p', u')"
  shows "sse_ok p' \<and> sp_limits p' = sp_limits p \<and> sp_carry p' = sp_carry p
    \<and> pending_lf_skip p' = pending_lf_skip p \<and> err = view_error (view_of p')
    \<and> spec_line cb ((live_of p)\<lparr>lv_line := l, lv_skip := s\<rparr>) u line =
        (case view_of p' of Dead st m t \<Rightarrow> Dead st m t
                          | Live lv \<Rightarrow> Live (lv\<lparr>lv_line := l, lv_skip := s\<rparr>), u')"
proof (cases line)
  case Nil
  with dispatch_event_refines [OF ok st] run show ?thesis by (simp add: spec_line_def)
next
  case (Cons c cs)
  show ?thesis
  proof (cases "c = CHR '':''")
    case True
    with Cons run ok st show ?thesis
      by (auto simp: process_line_def spec_line_def view_of_def live_of_def view_error_def)
  next
    case False
    let ?name = "takeWhile (\<lambda>c. c \<noteq> CHR '':'') line"
    let ?val = "strip_space (drop 1 (dropWhile (\<lambda>c. c \<noteq> CHR '':'') line))"
    have strip: "(if v \<noteq> [] \<and> hd v = CHR '' '' then tl v else v) = strip_space v" for v
      by (cases v) (auto simp: strip_space_def)
    from run Cons False have "process_field p ?name ?val = (err, p') \<and> u' = u"
      unfolding process_line_def Let_def memchr_splits strip by (auto split: prod.splits)
    with process_field_refines [OF ok st, of ?name ?val err p'] Cons False
    show ?thesis by (auto simp: spec_line_def)
  qed
qed

section \<open>Refinement of the scanners\<close>

lemma spec_byte_dead [simp]: "spec_byte cb (Dead st m t, u) b = (Dead st m t, u)"
  by (simp add: spec_byte_def)

lemma feed_loop_Nil [simp]: "feed_loop cb p u [] = (None, p, u)"
  by (subst feed_loop.simps) simp

lemma foldl_spec_dead [simp]:
  "foldl (spec_byte cb) (Dead st m t, u) bs = (Dead st m t, u)"
  by (induction bs) (auto simp: spec_byte_def)

lemma foldl_spec_content:
  assumes "\<forall>c \<in> set xs. c \<noteq> CR \<and> c \<noteq> LF" "\<not> lv_in_bom lv" "\<not> lv_skip lv"
    "length (lv_line lv) \<le> max_line (lv_limits lv)"
  shows "foldl (spec_byte cb) (Live lv, u) xs = (spec_content lv xs, u)"
  using assms
proof (induction xs arbitrary: lv)
  case Nil
  then show ?case by (simp add: spec_content_def)
next
  case (Cons x xs)
  have same: "lv\<lparr>lv_skip := False\<rparr> = lv" using Cons.prems(3) by (cases lv) auto
  have "spec_byte cb (Live lv, u) x = (spec_content (lv\<lparr>lv_skip := False\<rparr>) [x], u)"
    using Cons.prems by (simp add: spec_byte_def spec_char_def)
  then have step: "spec_byte cb (Live lv, u) x = (spec_content lv [x], u)"
    unfolding same .
  show ?case
  proof (cases "length (lv_line lv) + 1 > max_line (lv_limits lv)")
    case True
    then show ?thesis using step by (simp add: spec_content_def dead_def)
  next
    case False
    let ?lv = "lv\<lparr>lv_line := lv_line lv @ [x]\<rparr>"
    have "foldl (spec_byte cb) (Live ?lv, u) xs = (spec_content ?lv xs, u)"
      using Cons.prems False by (intro Cons.IH) auto
    then show ?thesis using step False by (auto simp: spec_content_def)
  qed
qed

lemma foldl_spec_skip:
  assumes "\<not> lv_in_bom lv"
  shows "foldl (spec_byte cb) (Live (lv\<lparr>lv_skip := True\<rparr>), u) (c # cs) =
    foldl (spec_byte cb) (Live (lv\<lparr>lv_skip := False\<rparr>), u) (if c = LF then cs else c # cs)"
  using assms by (auto simp: spec_byte_def spec_char_def)

lemma bom_step_refines:
  assumes "sse_ok p" "sp_state p = kSseStateBom" "bom_step p bs = (err, p', rest)"
  shows "sse_ok p' \<and> sp_limits p' = sp_limits p \<and> \<not> pending_lf_skip p' \<and> err = view_error (view_of p')
    \<and> foldl (spec_byte cb) (view_of p, u) bs = foldl (spec_byte cb) (view_of p', u) (if err = None then rest else [])"
  using assms
proof (induction p bs rule: bom_step.induct)
  case (1 p)
  then show ?case by (auto simp: view_of_def view_error_def sse_ok_def)
next
  case (2 p b bs)
  have m: "bom_matched p < 3" "\<not> pending_lf_skip p" "buf_data (sp_carry p) = []"
    and okc: "buf_ok (sp_carry p)" and mx: "buf_max (sp_carry p) = max_line (sp_limits p)"
    using "2.prems" by (auto simp: sse_ok_def)
  have live: "view_of p = Live (live_of p)" using "2.prems"(2) by (simp add: view_of_def)
  show ?case
  proof (cases "b = bom_bytes ! bom_matched p")
    case True
    let ?p = "p\<lparr>bom_matched := bom_matched p + 1,
       sp_state := (if bom_matched p + 1 = 3 then kSseStateLine else kSseStateBom)\<rparr>"
    have okp: "sse_ok ?p" using "2.prems"(1) m by (auto simp: sse_ok_def)
    have step: "spec_byte cb (view_of p, u) b = (view_of ?p, u)"
      using live True "2.prems"(2) by (auto simp: spec_byte_def view_of_def live_of_def)
    have run: "bom_step ?p bs = (err, p', rest)" using "2.prems"(2,3) True by simp
    show ?thesis
    proof (cases "sp_state ?p = kSseStateBom")
      case True': True
      with "2.IH" [OF _ True okp] run "2.prems"(2) step show ?thesis by simp
    next
      case False
      then have "p' = ?p \<and> rest = bs \<and> err = None" using run by (cases bs) auto
      with okp step m False show ?thesis
        by (auto simp: view_of_def view_error_def split: if_splits)
    qed
  next
    case False
    show ?thesis
    proof (cases rule: buf_append_cases [OF okc, of "take (bom_matched p) bom_bytes"])
      case 1
      let ?msg = "''line exceeds limit''"
      have "spec_byte cb (view_of p, u) b = (Dead kSseStateFailed ?msg (Some kErrorTypeValidation), u)"
        using 1 False m mx live "2.prems"(2)
        by (simp add: spec_byte_def spec_content_def live_of_def dead_def)
      with 1 "2.prems" False m mx show ?thesis
        by (auto simp: sse_fail_def sse_ok_def view_of_def view_error_def)
    next
      case (2 c)
      have len: "length (take (bom_matched p) bom_bytes) = bom_matched p"
        using m(1) by (simp add: bom_bytes_def)
      from 2 "2.prems" False m mx live len show ?thesis
        by (auto simp: sse_ok_def view_of_def view_error_def spec_byte_def spec_content_def live_of_def)
    qed
  qed
qed

text \<open>
  The line that ends at position \<open>n\<close>: the specification has read \<open>n\<close> content bytes and the
  terminator, and continues behind the terminator.
\<close>

lemma after_terminator_refines:
  assumes ok: "sse_ok p" and st: "sp_state p = kSseStateLine" and skip: "\<not> pending_lf_skip p"
    and run: "after_terminator p b rest = (p', rest')" and b: "b = CR \<or> b = LF"
  shows "sse_ok p' \<and> sp_limits p' = sp_limits p \<and> sp_state p' = kSseStateLine
    \<and> (pending_lf_skip p' \<longrightarrow> rest' = [])
    \<and> foldl (spec_byte cb) (Live ((live_of p)\<lparr>lv_line := [], lv_skip := (b = CR)\<rparr>), u) rest
      = foldl (spec_byte cb) (view_of p', u) rest'"
proof -
  let ?q = "p\<lparr>sp_carry := buf_reset (sp_carry p)\<rparr>"
  have okq: "sse_ok ?q" using ok st by (simp add: sse_ok_def)
  have lq: "view_of ?q = Live ((live_of p)\<lparr>lv_line := [], lv_skip := False\<rparr>)"
    using st skip by (simp add: view_of_def live_of_def)
  show ?thesis
  proof (cases "b = CR \<and> rest \<noteq> []")
    case True
    then obtain c cs where rest: "rest = c # cs" by (cases rest) auto
    have "p' = ?q" "rest' = (if c = LF then cs else c # cs)"
      using run True rest by (auto simp: after_terminator_def)
    with okq lq st skip True rest show ?thesis
      using foldl_spec_skip [of "(live_of p)\<lparr>lv_line := []\<rparr>" cb u c cs]
      by (auto simp: live_of_def)
  next
    case False
    with run b okq lq st skip show ?thesis
      by (cases "b = CR") (auto simp: after_terminator_def sse_ok_def view_of_def live_of_def)
  qed
qed

lemma line_end_refines:
  assumes ok: "sse_ok p" and st: "sp_state p = kSseStateLine" and skip: "\<not> pending_lf_skip p"
    and b: "b = CR \<or> b = LF"
    and run: "process_line cb p u line = (err, p1, u')"
  shows "err = view_error (view_of p1) \<and> sse_ok p1 \<and> sp_limits p1 = sp_limits p \<and>
    (case err of
       Some e \<Rightarrow> foldl (spec_byte cb) (Live ((live_of p)\<lparr>lv_line := line\<rparr>), u) (b # rest) = (view_of p1, u')
     | None \<Rightarrow> (case after_terminator p1 b rest of (p', rest') \<Rightarrow>
           sse_ok p' \<and> sp_limits p' = sp_limits p \<and> sp_state p' = kSseStateLine
           \<and> (pending_lf_skip p' \<longrightarrow> rest' = [])
           \<and> foldl (spec_byte cb) (Live ((live_of p)\<lparr>lv_line := line\<rparr>), u) (b # rest)
             = foldl (spec_byte cb) (view_of p', u') rest'))"
proof -
  note R = process_line_refines [OF ok st run, where l = "[]" and s = "b = CR"]
  have byte: "spec_byte cb (Live ((live_of p)\<lparr>lv_line := line\<rparr>), u) b
      = spec_line cb ((live_of p)\<lparr>lv_line := [], lv_skip := (b = CR)\<rparr>) u line"
    using st skip b by (simp add: spec_byte_def spec_char_def live_of_def)
  show ?thesis
  proof (cases "view_of p1")
    case (Dead s m t)
    with R byte show ?thesis by (auto simp: view_error_def)
  next
    case (Live lv)
    then have lv: "lv = live_of p1" and st1: "sp_state p1 = kSseStateLine \<or> sp_state p1 = kSseStateBom"
      by (cases "sp_state p1"; auto simp: view_of_def split: if_splits)+
    have st1: "sp_state p1 = kSseStateLine"
    proof (rule ccontr)
      assume "sp_state p1 \<noteq> kSseStateLine"
      with st1 have "lv_in_bom lv" by (simp add: lv live_of_def)
      moreover have "\<not> lv_in_bom lv"
        using R Live byte st
        by (auto simp: spec_line_def spec_dispatch_def spec_field_def live_of_def dead_def
            split: list.splits if_splits prod.splits dest!: arg_cong [where f = lv_in_bom])
      ultimately show False by simp
    qed
    obtain p' rest' where at: "after_terminator p1 b rest = (p', rest')" by fastforce
    have "\<not> pending_lf_skip p1" using R skip by simp
    with after_terminator_refines [OF _ st1 _ at b, of cb u'] R Live lv byte at
    show ?thesis by (auto simp: view_error_def)
  qed
qed

lemma scan_line_refines:
  assumes ok: "sse_ok p" and st: "sp_state p = kSseStateLine" and skip: "\<not> pending_lf_skip p"
    and run: "scan_line cb p u span = (err, p', u', rest)"
  shows "sse_ok p' \<and> sp_limits p' = sp_limits p \<and> err = view_error (view_of p')
    \<and> (err = None \<longrightarrow> (pending_lf_skip p' \<longrightarrow> rest = []))
    \<and> foldl (spec_byte cb) (view_of p, u) span
      = foldl (spec_byte cb) (view_of p', u') (if err = None then rest else [])"
proof -
  have okc: "buf_ok (sp_carry p)" and mx: "buf_max (sp_carry p) = max_line (sp_limits p)"
    using ok by (auto simp: sse_ok_def)
  have len: "length (lv_line (live_of p)) \<le> max_line (lv_limits (live_of p))"
    using buf.within [OF okc] mx by (simp add: live_of_def)
  have live: "view_of p = Live (live_of p)" using st by (simp add: view_of_def)
  note content = foldl_spec_content [of _ "live_of p" cb u, OF _ _ _ len]
  let ?isT = "\<lambda>c. c \<noteq> CR \<and> c \<noteq> LF"
  let ?failed = "p\<lparr>sp_state := kSseStateFailed, fail_msg := ''line exceeds limit'',
      fail_type := Some kErrorTypeValidation\<rparr>"
  have okf: "sse_ok ?failed" using ok by (simp add: sse_ok_def)
  have viewf: "view_of ?failed = dead ''line exceeds limit''" by (simp add: view_of_def dead_def)
  show ?thesis
  proof (cases "find_terminator span")
    case None
    then have "\<forall>c \<in> set span. ?isT c" by (auto simp: find_terminator_takeWhile split: if_splits)
    then have spec: "foldl (spec_byte cb) (view_of p, u) span = (spec_content (live_of p) span, u)"
      using content st skip live by (simp add: live_of_def)
    show ?thesis
    proof (cases rule: buf_append_cases [OF okc, of span])
      case 1
      then have "err = Some (sse_error (Some kErrorTypeValidation) ''line exceeds limit'')" "p' = ?failed" "u' = u"
        using run None by (auto simp: scan_line_def sse_fail_def)
      with 1 spec okf viewf mx show ?thesis
        by (simp add: view_error_def spec_content_def live_of_def dead_def)
    next
      case (2 c)
      with run None spec ok st skip mx show ?thesis
        by (auto simp: scan_line_def view_error_def view_of_def sse_ok_def spec_content_def live_of_def)
    qed
  next
    case (Some n)
    define pre where "pre = takeWhile ?isT span"
    obtain b post where span: "span = pre @ b # post" and b: "b = CR \<or> b = LF"
      and pre: "\<forall>c \<in> set pre. ?isT c" and n: "n = length pre"
    proof (cases rule: takeWhile_dropWhile_cases [of ?isT span])
      case all
      then show ?thesis using Some by (auto simp: find_terminator_takeWhile split: if_splits)
    next
      case (stop b post)
      have split: "span = pre @ b # post" using stop(1) unfolding pre_def .
      have "\<forall>c \<in> set pre. ?isT c" using stop(4) unfolding pre_def .
      moreover have "n = length pre"
        using Some by (simp add: find_terminator_takeWhile pre_def split: if_splits)
      moreover have "b = CR \<or> b = LF" using stop(3) by blast
      ultimately show ?thesis using that [OF split] by blast
    qed
    have parts: "take n span = pre" "span ! n = b" "drop (n + 1) span = post"
      "drop (Suc n) span = post"
      by (simp_all add: span n)
    have spec: "foldl (spec_byte cb) (view_of p, u) span
        = foldl (spec_byte cb) (spec_content (live_of p) pre, u) (b # post)"
      using content [OF pre] st skip live by (simp add: span live_of_def)
    show ?thesis
    proof (cases "length (buf_data (sp_carry p)) + length pre > max_line (sp_limits p)")
      case True
      then have refused: "buf_append (sp_carry p) pre = None"
        using buf.append_None_iff [OF okc] mx by simp
      have "err = Some (sse_error (Some kErrorTypeValidation) ''line exceeds limit'')" "p' = ?failed" "u' = u"
        using run Some refused True parts n
        by (auto simp: scan_line_def sse_fail_def buf_size_def Let_def split: if_splits)
      with spec True okf viewf show ?thesis
        by (simp add: view_error_def spec_content_def live_of_def dead_def)
    next
      case False
      obtain q where q: "sse_ok q" "sp_state q = kSseStateLine" "\<not> pending_lf_skip q"
          "sp_limits q = sp_limits p"
        and view: "spec_content (live_of p) pre = Live ((live_of q)\<lparr>lv_line := buf_data (sp_carry p) @ pre\<rparr>)"
        and scan: "scan_line cb p u span =
            (case process_line cb q u (buf_data (sp_carry p) @ pre) of
               (Some e, p'', u') \<Rightarrow> (Some e, p'', u', span)
             | (None, p'', u') \<Rightarrow>
                 (let (p3, rest) = after_terminator p'' b post in (None, p3, u', rest)))"
      proof (cases "buf_data (sp_carry p) = []")
        case True
        show ?thesis
        proof (rule that [of p])
          show "scan_line cb p u span =
            (case process_line cb p u (buf_data (sp_carry p) @ pre) of
               (Some e, p'', u') \<Rightarrow> (Some e, p'', u', span)
             | (None, p'', u') \<Rightarrow>
                 (let (p3, rest) = after_terminator p'' b post in (None, p3, u', rest)))"
            unfolding scan_line_def Some option.case parts using True False n
            by (simp add: buf_size_def)
        qed (use False ok st skip in \<open>auto simp: spec_content_def live_of_def\<close>)
      next
        case nonempty: False
        obtain c where "buf_append (sp_carry p) pre = Some c" "buf_ok c"
          "buf_data c = buf_data (sp_carry p) @ pre" "buf_max c = buf_max (sp_carry p)"
          using buf.fits [OF okc, of pre] False mx by auto
        note c = this
        show ?thesis
        proof (rule that [of "p\<lparr>sp_carry := c\<rparr>"])
          show "scan_line cb p u span =
            (case process_line cb (p\<lparr>sp_carry := c\<rparr>) u (buf_data (sp_carry p) @ pre) of
               (Some e, p'', u') \<Rightarrow> (Some e, p'', u', span)
             | (None, p'', u') \<Rightarrow>
                 (let (p3, rest) = after_terminator p'' b post in (None, p3, u', rest)))"
            unfolding scan_line_def Some option.case parts c(1) using nonempty c(3)
            by (simp add: buf_size_def)
        qed (use c False ok st skip in \<open>auto simp: spec_content_def live_of_def sse_ok_def\<close>)
      qed
      obtain err1 p1 u1 where pl: "process_line cb q u (buf_data (sp_carry p) @ pre) = (err1, p1, u1)"
        by (cases "process_line cb q u (buf_data (sp_carry p) @ pre)") auto
      note L = line_end_refines [OF q(1,2,3) b pl, of post]
      show ?thesis
      proof (cases err1)
        case (Some e)
        then have E: "err = Some e" "p' = p1" "u' = u1" using run scan pl by simp_all
        have "view_error (view_of p1) = Some e" using L Some by simp
        moreover from L [unfolded Some option.case, THEN conjunct2]
        have "sse_ok p1 \<and> sp_limits p1 = sp_limits p \<and>
          foldl (spec_byte cb) (view_of p, u) span = (view_of p1, u1)"
          using spec view q(4) by simp
        ultimately show ?thesis unfolding E by simp
      next
        case None
        obtain p3 r3 where at: "after_terminator p1 b post = (p3, r3)" by fastforce
        with None have E: "err = None" "p' = p3" "u' = u1" "rest = r3" using run scan pl by simp_all
        from L [unfolded None option.case at prod.case]
        have L': "sse_ok p3" "sp_limits p3 = sp_limits p" "sp_state p3 = kSseStateLine"
            "pending_lf_skip p3 \<longrightarrow> r3 = []"
            "foldl (spec_byte cb) (view_of p, u) span = foldl (spec_byte cb) (view_of p3, u1) r3"
          using spec view q(4) by simp_all
        moreover have "view_error (view_of p3) = None"
          using L'(3) by (simp add: view_error_def view_of_def)
        ultimately show ?thesis unfolding E by simp
      qed
    qed
  qed
qed

section \<open>Refinement of a chunk\<close>

lemma feed_loop_refines:
  assumes "sse_ok p" "view_of p = Live (live_of p)" "pending_lf_skip p \<longrightarrow> rest = []"
    "feed_loop cb p u rest = (err, p', u')"
  shows "sse_ok p' \<and> sp_limits p' = sp_limits p \<and> err = view_error (view_of p')
    \<and> (view_of p', u') = foldl (spec_byte cb) (view_of p, u) rest"
  using assms
proof (induction cb p u rest arbitrary: err p' u' rule: feed_loop.induct)
  case (1 cb p u rest)
  show ?case
  proof (cases "rest = []")
    case True
    with "1.prems" show ?thesis by (auto simp: feed_loop.simps [of cb p u "[]"] view_error_def)
  next
    case False
    then have skip: "\<not> pending_lf_skip p" using "1.prems"(3) by simp
    have live_next: "view_of q = Live (live_of q)" if "view_error (view_of q) = None" for q
      using that by (auto simp: view_error_def view_of_def split: sse_view.splits if_splits)
    show ?thesis
    proof (cases "sp_state p = kSseStateBom")
      case True
      obtain e1 p1 r1 where b: "bom_step p rest = (e1, p1, r1)" by (cases "bom_step p rest") auto
      note R = bom_step_refines [OF "1.prems"(1) True b, of cb u]
      show ?thesis
      proof (cases e1)
        case (Some e)
        then have "err = e1 \<and> p' = p1 \<and> u' = u"
          using b False True "1.prems"(4) by (simp add: feed_loop.simps [of cb p u rest])
        with R Some show ?thesis by simp
      next
        case None
        have "feed_loop cb p1 u r1 = (err, p', u')"
          using b None False True "1.prems"(4) by (simp add: feed_loop.simps [of cb p u rest])
        with "1.IH"(1) [OF False True b [symmetric] None refl, of err p' u'] R None live_next [of p1]
        show ?thesis by auto
      qed
    next
      case nb: False
      with "1.prems"(2) have st: "sp_state p = kSseStateLine"
        by (cases "sp_state p") (auto simp: view_of_def)
      obtain e1 p1 u1 r1 where b: "scan_line cb p u rest = (e1, p1, u1, r1)"
        by (cases "scan_line cb p u rest") auto
      note R = scan_line_refines [OF "1.prems"(1) st skip b]
      show ?thesis
      proof (cases e1)
        case (Some e)
        then have "err = e1 \<and> p' = p1 \<and> u' = u1"
          using b False nb "1.prems"(4) by (simp add: feed_loop.simps [of cb p u rest])
        with R Some show ?thesis by simp
      next
        case None
        have "feed_loop cb p1 u1 r1 = (err, p', u')"
          using b None False nb "1.prems"(4) by (simp add: feed_loop.simps [of cb p u rest])
        with "1.IH"(2) [OF False nb b [symmetric] None refl refl, of err p' u'] R None live_next [of p1]
        show ?thesis by auto
      qed
    qed
  qed
qed

lemma sse_parser_feed_refines:
  assumes ok: "sse_ok p" and run: "sse_parser_feed cb p u bytes = (err, p', u')"
  shows "sse_ok p' \<and> sp_limits p' = sp_limits p \<and> err = view_error (view_of p')
    \<and> (view_of p', u') = foldl (spec_byte cb) (view_of p, u) bytes"
proof (cases "view_of p")
  case (Dead s m t)
  then have "sp_state p = kSseStateFailed \<or> sp_state p = kSseStateAborted"
    "m = fail_msg p" "t = fail_type p"
    by (auto simp: view_of_def split: if_splits)
  with Dead ok run show ?thesis by (auto simp: sse_parser_feed_def view_error_def)
next
  case (Live lv)
  then have live: "view_of p = Live (live_of p)"
    and st: "\<not> (sp_state p = kSseStateFailed \<or> sp_state p = kSseStateAborted)"
    by (auto simp: view_of_def split: if_splits)
  show ?thesis
  proof (cases "pending_lf_skip p \<and> bytes \<noteq> []")
    case False
    then have "feed_loop cb p u bytes = (err, p', u')"
      using run st by (cases "pending_lf_skip p") (auto simp: sse_parser_feed_def)
    from feed_loop_refines [OF ok live _ this] False show ?thesis by simp
  next
    case True
    then obtain b bs where bytes: "bytes = b # bs" by (cases bytes) auto
    let ?q = "p\<lparr>pending_lf_skip := False\<rparr>"
    let ?rest = "if b = LF then bs else b # bs"
    have nb: "sp_state p \<noteq> kSseStateBom" using ok True by (auto simp: sse_ok_def)
    have okq: "sse_ok ?q" using ok nb by (simp add: sse_ok_def)
    have liveq: "view_of ?q = Live (live_of ?q)" using st by (simp add: view_of_def)
    have "feed_loop cb ?q u ?rest = (err, p', u')"
      using run st True bytes by (simp add: sse_parser_feed_def)
    from feed_loop_refines [OF okq liveq _ this]
    have R: "sse_ok p' \<and> sp_limits p' = sp_limits p \<and> err = view_error (view_of p')
        \<and> (view_of p', u') = foldl (spec_byte cb) (view_of ?q, u) ?rest" by simp
    have "Live (live_of p) = Live ((live_of p)\<lparr>lv_skip := True\<rparr>)"
      "Live (live_of ?q) = Live ((live_of p)\<lparr>lv_skip := False\<rparr>)"
      using True by (simp_all add: live_of_def)
    then have "foldl (spec_byte cb) (view_of p, u) (b # bs) = foldl (spec_byte cb) (view_of ?q, u) ?rest"
      unfolding live liveq using foldl_spec_skip [of "live_of p" cb u b bs] nb
      by (simp add: live_of_def)
    with R bytes show ?thesis by simp
  qed
qed

section \<open>The decoder as an incremental consumer\<close>

definition feed_state :: "'u sse_cb \<Rightarrow> sse_parser \<times> 'u \<Rightarrow> string \<Rightarrow> sse_parser \<times> 'u" where
  "feed_state cb s bytes = snd (sse_parser_feed cb (fst s) (snd s) bytes)"

interpretation sse: chunked_consumer "\<lambda>s. sse_ok (fst s)" "\<lambda>s. (view_of (fst s), snd s)"
  "spec_byte cb" "feed_state cb" for cb :: "'u sse_cb"
proof
  fix s :: "sse_parser \<times> 'u" and bs :: string
  assume ok: "sse_ok (fst s)"
  obtain err p' u' where run: "sse_parser_feed cb (fst s) (snd s) bs = (err, p', u')"
    by (cases "sse_parser_feed cb (fst s) (snd s) bs") auto
  from sse_parser_feed_refines [OF ok run] run
  show "sse_ok (fst (feed_state cb s bs))"
    and "(view_of (fst (feed_state cb s bs)), snd (feed_state cb s bs))
      = foldl (spec_byte cb) (view_of (fst s), snd s) bs"
    by (simp_all add: feed_state_def)
qed

lemma limits_fit: "sse_ok p \<Longrightarrow> max_line (sp_limits p) < 2 ^ 64"
  by (metis buf_ok_def sse_ok_def)

lemma sse_parser_new_ok:
  assumes "\<And>l. limits = Some l \<Longrightarrow> max_line l < 2 ^ 64 \<and> max_event_data l < 2 ^ 64
      \<and> max_event_type l < 2 ^ 64 \<and> max_id l < 2 ^ 64"
  shows "sse_ok (sse_parser_new limits)"
  using assms
  by (cases limits)
    (auto simp: sse_ok_def sse_parser_new_def Let_def resolve_limit_def buf_ok_def buf_init_def buf_size_def
      MUA_SSE_MAX_LINE_def MUA_SSE_MAX_EVENT_DATA_def MUA_SSE_MAX_EVENT_TYPE_def MUA_SSE_MAX_ID_def)

lemma sse_parser_reset_ok: "sse_ok p \<Longrightarrow> sse_ok (sse_parser_reset p)"
  by (auto simp: sse_ok_def sse_parser_reset_def)

lemma sse_parser_finish_view:
  "sse_parser_finish p =
     (case view_of p of
        Dead s m t \<Rightarrow> kSseEofTruncated
      | Live lv \<Rightarrow> if lv_line lv = [] \<and> lv_data lv = [] \<and> lv_bom lv = 0 then kSseEofClean else kSseEofTruncated)"
  by (auto simp: sse_parser_finish_def view_of_def live_of_def buf_size_def)

section \<open>Whole lines and whole events\<close>

lemma foldl_spec_one_line:
  assumes line: "\<forall>c \<in> set xs. c \<noteq> CR \<and> c \<noteq> LF" and live: "\<not> lv_in_bom lv" "\<not> lv_skip lv" "lv_line lv = []"
    and len: "length xs \<le> max_line (lv_limits lv)"
  shows "foldl (spec_byte cb) (Live lv, u) (xs @ [LF]) = spec_line cb lv u xs"
proof -
  have "foldl (spec_byte cb) (Live lv, u) xs = (Live (lv\<lparr>lv_line := xs\<rparr>), u)"
    using foldl_spec_content [OF line live(1,2)] live(3) len by (simp add: spec_content_def)
  moreover have same: "lv\<lparr>lv_line := [], lv_skip := False\<rparr> = lv" using live by (cases lv) simp
  have "spec_byte cb (Live (lv\<lparr>lv_line := xs\<rparr>), u) LF = spec_line cb (lv\<lparr>lv_line := [], lv_skip := False\<rparr>) u xs"
    using live by (simp add: spec_byte_def spec_char_def)
  ultimately show ?thesis unfolding same by simp
qed

definition field_line :: "string \<Rightarrow> string \<Rightarrow> string" where
  "field_line name val = name @ '': '' @ val"

lemma field_line_length: "length (field_line name val) = length name + length val + 2"
  by (simp add: field_line_def)

lemma spec_line_field:
  assumes "name \<noteq> []" "CHR '':'' \<notin> set name"
  shows "spec_line cb lv u (field_line name val) = (spec_field lv name val, u)"
proof -
  obtain c cs where name: "name = c # cs" using assms(1) by (cases name) auto
  have "takeWhile (\<lambda>c. c \<noteq> CHR '':'') (field_line name val) = name"
    "dropWhile (\<lambda>c. c \<noteq> CHR '':'') (field_line name val) = '': '' @ val"
    using assms(2) by (induction name) (auto simp: field_line_def)
  note parts = this
  have "spec_line cb lv u (field_line name val) =
      (spec_field lv (takeWhile (\<lambda>c. c \<noteq> CHR '':'') (field_line name val))
        (strip_space (drop 1 (dropWhile (\<lambda>c. c \<noteq> CHR '':'') (field_line name val)))), u)"
    unfolding spec_line_def using assms(2) name
    by (auto simp: field_line_def simp del: takeWhile.simps dropWhile.simps)
  then show ?thesis unfolding parts by (simp add: strip_space_def)
qed

text \<open>An event on the wire: an event-name line, one line per data line, a blank line.\<close>

definition event_wire :: "string \<Rightarrow> string list \<Rightarrow> string" where
  "event_wire t ds = field_line ''event'' t @ [LF] @ concat (map (\<lambda>d. field_line ''data'' d @ [LF]) ds) @ [LF]"

lemma foldl_spec_data_lines:
  assumes "\<forall>d \<in> set ds. (\<forall>c \<in> set d. c \<noteq> CR \<and> c \<noteq> LF) \<and> length d + 6 \<le> max_line (lv_limits lv)"
    "\<not> lv_in_bom lv" "\<not> lv_skip lv" "lv_line lv = []"
    "length (lv_data lv) + length (concat (map (\<lambda>d. d @ [LF]) ds)) \<le> max_event_data (lv_limits lv)"
  shows "foldl (spec_byte cb) (Live lv, u) (concat (map (\<lambda>d. field_line ''data'' d @ [LF]) ds)) =
    (Live (lv\<lparr>lv_data := lv_data lv @ concat (map (\<lambda>d. d @ [LF]) ds)\<rparr>), u)"
  using assms
proof (induction ds arbitrary: lv)
  case Nil
  then show ?case by simp
next
  case (Cons d ds)
  let ?lv = "lv\<lparr>lv_data := lv_data lv @ d @ [LF]\<rparr>"
  have "\<forall>c \<in> set (field_line ''data'' d). c \<noteq> CR \<and> c \<noteq> LF"
    using Cons.prems(1) by (auto simp: field_line_def)
  moreover have "length (field_line ''data'' d) \<le> max_line (lv_limits lv)"
    using Cons.prems(1) by (simp add: field_line_length)
  ultimately have "foldl (spec_byte cb) (Live lv, u) (field_line ''data'' d @ [LF])
      = spec_line cb lv u (field_line ''data'' d)"
    using Cons.prems by (intro foldl_spec_one_line) auto
  also have "\<dots> = (spec_field lv ''data'' d, u)" by (intro spec_line_field) auto
  also have "\<dots> = (Live ?lv, u)" using Cons.prems(5) by (simp add: spec_field_def)
  finally have "foldl (spec_byte cb) (Live lv, u) (field_line ''data'' d @ [LF]) = (Live ?lv, u)" .
  moreover have "foldl (spec_byte cb) (Live ?lv, u) (concat (map (\<lambda>d. field_line ''data'' d @ [LF]) ds)) =
      (Live (?lv\<lparr>lv_data := lv_data ?lv @ concat (map (\<lambda>d. d @ [LF]) ds)\<rparr>), u)"
    using Cons.prems by (intro Cons.IH) auto
  ultimately show ?case by (simp add: foldl_append)
qed

lemma foldl_spec_event:
  assumes chars: "\<forall>c \<in> set t. c \<noteq> CR \<and> c \<noteq> LF" "\<forall>d \<in> set ds. \<forall>c \<in> set d. c \<noteq> CR \<and> c \<noteq> LF"
    and fits: "length t + 7 \<le> max_line (lv_limits lv)" "length t \<le> max_event_type (lv_limits lv)"
      "\<forall>d \<in> set ds. length d + 6 \<le> max_line (lv_limits lv)"
      "length (concat (map (\<lambda>d. d @ [LF]) ds)) \<le> max_event_data (lv_limits lv)"
    and live: "\<not> lv_in_bom lv" "\<not> lv_skip lv" "lv_line lv = []" "lv_data lv = []"
    and nonempty: "ds \<noteq> []" "t \<noteq> []"
  shows "foldl (spec_byte cb) (Live lv, u) (event_wire t ds) =
    (let (u', go) = cb u t (butlast (concat (map (\<lambda>d. d @ [LF]) ds))) (lv_id lv)
     in (if go then Live (lv\<lparr>lv_type := []\<rparr>)
         else Dead kSseStateAborted ''aborted by event callback'' (Some kErrorTypeException), u'))"
proof -
  let ?lv = "lv\<lparr>lv_type := t\<rparr>"
  let ?data = "concat (map (\<lambda>d. d @ [LF]) ds)"
  have "foldl (spec_byte cb) (Live lv, u) (field_line ''event'' t @ [LF]) = spec_line cb lv u (field_line ''event'' t)"
    using chars(1) fits(1) live by (intro foldl_spec_one_line) (auto simp: field_line_def)
  also have "\<dots> = (spec_field lv ''event'' t, u)" by (intro spec_line_field) auto
  also have "\<dots> = (Live ?lv, u)" using fits(2) by (simp add: spec_field_def)
  finally have 1: "foldl (spec_byte cb) (Live lv, u) (field_line ''event'' t @ [LF]) = (Live ?lv, u)" .
  have 2: "foldl (spec_byte cb) (Live ?lv, u) (concat (map (\<lambda>d. field_line ''data'' d @ [LF]) ds)) =
      (Live (?lv\<lparr>lv_data := lv_data ?lv @ ?data\<rparr>), u)"
    using chars(2) fits live by (intro foldl_spec_data_lines) auto
  let ?full = "?lv\<lparr>lv_data := ?data\<rparr>"
  have 3: "foldl (spec_byte cb) (Live ?full, u) ([] @ [LF]) = spec_line cb ?full u []"
    using live by (intro foldl_spec_one_line) auto
  have full: "?lv\<lparr>lv_data := lv_data ?lv @ ?data\<rparr> = ?full" using live by simp
  have "foldl (spec_byte cb) (Live lv, u) ((field_line ''event'' t @ [LF])
      @ concat (map (\<lambda>d. field_line ''data'' d @ [LF]) ds) @ ([] @ [LF])) = spec_line cb ?full u []"
    by (subst foldl_append, subst 1, subst foldl_append, subst 2, subst full, rule 3)
  then have "foldl (spec_byte cb) (Live lv, u) (event_wire t ds) = spec_line cb ?full u []"
    by (simp add: event_wire_def)
  then have "foldl (spec_byte cb) (Live lv, u) (event_wire t ds) = spec_dispatch cb ?full u"
    by (simp add: spec_line_def)
  moreover have "?data \<noteq> []" using nonempty(1) by auto
  ultimately show ?thesis
    using nonempty(2) live by (cases lv) (auto simp: spec_dispatch_def Let_def split: prod.splits)
qed

definition bom_done :: "sse_view \<Rightarrow> bool" where
  "bom_done v = (case v of Dead s m t \<Rightarrow> True | Live lv \<Rightarrow> \<not> lv_in_bom lv \<and> lv_bom lv = 3)"

lemma bom_done_simps [simp]:
  "bom_done (Dead st m t)" "bom_done (Live lv) \<longleftrightarrow> \<not> lv_in_bom lv \<and> lv_bom lv = 3"
  by (simp_all add: bom_done_def)

lemma spec_field_bom_done: "bom_done (Live lv) \<Longrightarrow> bom_done (spec_field lv n v)"
  by (simp add: spec_field_def dead_def)

lemma spec_content_bom_done: "bom_done (Live lv) \<Longrightarrow> bom_done (spec_content lv s)"
  by (simp add: spec_content_def dead_def)

lemma spec_line_bom_done: "bom_done (Live lv) \<Longrightarrow> bom_done (fst (spec_line cb lv u line))"
  by (cases line) (auto simp: spec_line_def spec_dispatch_def spec_field_bom_done split: prod.splits)

lemma spec_byte_bom_done: "bom_done (fst vu) \<Longrightarrow> bom_done (fst (spec_byte cb vu b))"
  by (cases vu; cases "fst vu")
    (auto simp: spec_byte_def spec_char_def spec_line_bom_done spec_content_bom_done)

lemma foldl_bom_done: "bom_done (fst vu) \<Longrightarrow> bom_done (fst (foldl (spec_byte cb) vu bs))"
  by (induction bs arbitrary: vu) (auto simp: spec_byte_bom_done)

section \<open>Properties\<close>

text \<open>
  C1. Chunk independence of the event decoder: for every parser within its caps, every callback
  and every way of cutting a byte stream into chunks, feeding the chunks one after the other
  leaves the decoder (as seen through its view: latched error, or unfinished line, event data,
  event type, last id) and the callback's state exactly as feeding the whole stream at once,
  and the end-of-stream verdict is the same.
\<close>

theorem sse_chunking_irrelevant:
  assumes "sse_ok p"
  shows "let s = foldl (feed_state cb) (p, u) css; t = feed_state cb (p, u) (concat css) in
    view_of (fst s) = view_of (fst t) \<and> snd s = snd t
    \<and> sse_parser_finish (fst s) = sse_parser_finish (fst t) \<and> sse_ok (fst s)"
proof -
  have "(view_of (fst (foldl (feed_state cb) (p, u) css)), snd (foldl (feed_state cb) (p, u) css))
      = (view_of (fst (feed_state cb (p, u) (concat css))), snd (feed_state cb (p, u) (concat css)))"
    using sse.feeds_concat [of "(p, u)" cb css] assms by simp
  moreover have "sse_ok (fst (foldl (feed_state cb) (p, u) css))"
    using sse.feeds_ok [of "(p, u)" cb css] assms by simp
  ultimately show ?thesis by (simp add: Let_def sse_parser_finish_view)
qed

definition log_event :: "(string \<times> string \<times> string) list sse_cb" where
  "log_event es t d i = (es @ [(t, d, i)], True)"

text \<open>The witness cuts a stream inside a CR LF pair and inside a field name.\<close>

theorem sse_chunking_irrelevant_witness:
  "snd (foldl (feed_state log_event) (sse_parser_new None, [])
      [''id: 7'' @ [CR], [LF] @ ''da'', ''ta: x'' @ [CR, LF], [CR, LF]]) = [(''message'', ''x'', ''7'')]"
proof -
  let ?p = "sse_parser_new None"
  let ?css = "[''id: 7'' @ [CR], [LF] @ ''da'', ''ta: x'' @ [CR, LF], [CR, LF]]"
  have ok: "sse_ok ?p" by (rule sse_parser_new_ok) simp
  from sse_chunking_irrelevant [OF this, of log_event "[]" ?css]
  have "snd (foldl (feed_state log_event) (?p, []) ?css) = snd (feed_state log_event (?p, []) (concat ?css))"
    by (simp only: Let_def)
  also have "\<dots> = snd (foldl (spec_byte log_event) (view_of ?p, []) (concat ?css))"
    using sse.feed_view [of "(?p, [])" log_event "concat ?css"] ok by (metis fst_conv snd_conv)
  also have "\<dots> = [(''message'', ''x'', ''7'')]"
    by (simp add: view_of_def live_of_def sse_parser_new_def Let_def buf_init_def resolve_limit_def
        spec_byte_def spec_char_def spec_content_def bom_bytes_def spec_line_def spec_field_def
        strip_space_def spec_dispatch_def log_event_def MUA_SSE_MAX_LINE_def MUA_SSE_MAX_EVENT_DATA_def
        MUA_SSE_MAX_ID_def)
  finally show ?thesis .
qed

text \<open>
  C17. The decoder implements the byte-at-a-time decoder: one call of sse_parser_feed moves the
  view and the callback's state by the left fold of spec_byte over the chunk, reports an error
  exactly when the parser is latched afterwards (with the latched message), and keeps the
  invariant that every buffer is within its cap.
\<close>

theorem sse_feed_refines_byte_decoder:
  assumes "sse_ok p"
  shows "case sse_parser_feed cb p u bytes of (err, p', u') \<Rightarrow>
    (view_of p', u') = foldl (spec_byte cb) (view_of p, u) bytes
    \<and> err = view_error (view_of p') \<and> sse_ok p' \<and> sp_limits p' = sp_limits p"
proof -
  obtain err p' u' where run: "sse_parser_feed cb p u bytes = (err, p', u')"
    by (cases "sse_parser_feed cb p u bytes") auto
  with sse_parser_feed_refines [OF assms run] show ?thesis by simp
qed

theorem sse_feed_refines_byte_decoder_witness:
  "case sse_parser_feed log_event (sse_parser_new None) [] (''data: hi'' @ [LF, LF]) of (err, p', u') \<Rightarrow>
    (view_of p', u') = foldl (spec_byte log_event) (view_of (sse_parser_new None), []) (''data: hi'' @ [LF, LF])
    \<and> err = view_error (view_of p') \<and> sse_ok p' \<and> sp_limits p' = sp_limits (sse_parser_new None)"
proof -
  have "sse_ok (sse_parser_new None)" by (rule sse_parser_new_ok) simp
  then show ?thesis by (rule sse_feed_refines_byte_decoder)
qed

text \<open>
  A well-formed event is delivered: from a parser between lines with no pending event, an
  event-name line, any positive number of data lines and a blank line (texts without CR and LF,
  within the caps) make exactly one callback, with that event name, the data lines joined by LF
  and the last id; afterwards the parser is between events again, or aborted when the callback
  asked to stop.
\<close>

theorem sse_event_delivered:
  assumes "sse_ok p" "sp_state p = kSseStateLine" "\<not> pending_lf_skip p"
    and "buf_data (sp_carry p) = []" "buf_data (sp_data p) = []"
    and "\<forall>c \<in> set t. c \<noteq> CR \<and> c \<noteq> LF" "\<forall>d \<in> set ds. \<forall>c \<in> set d. c \<noteq> CR \<and> c \<noteq> LF"
    and "length t + 7 \<le> max_line (sp_limits p)" "length t \<le> max_event_type (sp_limits p)"
    and "\<forall>d \<in> set ds. length d + 6 \<le> max_line (sp_limits p)"
    and "length (concat (map (\<lambda>d. d @ [LF]) ds)) \<le> max_event_data (sp_limits p)"
    and "ds \<noteq> []" "t \<noteq> []"
  shows "case sse_parser_feed cb p u (event_wire t ds) of (err, p', u') \<Rightarrow>
    (case cb u t (butlast (concat (map (\<lambda>d. d @ [LF]) ds))) (buf_data (sp_id p)) of (v, go) \<Rightarrow>
      u' = v \<and> view_of p' =
       (if go then Live ((live_of p)\<lparr>lv_type := []\<rparr>)
        else Dead kSseStateAborted ''aborted by event callback'' (Some kErrorTypeException)))"
proof -
  obtain err p' u' where run: "sse_parser_feed cb p u (event_wire t ds) = (err, p', u')"
    by (cases "sse_parser_feed cb p u (event_wire t ds)") auto
  have "(view_of p', u') = foldl (spec_byte cb) (Live (live_of p), u) (event_wire t ds)"
    using sse_parser_feed_refines [OF assms(1) run] assms(2) by (simp add: view_of_def)
  then show ?thesis
    using foldl_spec_event [of t ds "live_of p" cb u] assms run
    by (auto simp: live_of_def Let_def split: prod.splits)
qed

theorem sse_event_delivered_witness:
  "\<exists>p. sse_ok p \<and> snd (snd (sse_parser_feed log_event p [] (event_wire ''ping'' [''a'', ''b''])))
     = [(''ping'', ''a'' @ [LF] @ ''b'', [])]"
proof -
  define p where "p = (sse_parser_new None)\<lparr>sp_state := kSseStateLine\<rparr>"
  have ok: "sse_ok p"
    using sse_parser_new_ok [of None] by (simp add: sse_ok_def p_def)
  have p: "sp_state p = kSseStateLine" "\<not> pending_lf_skip p" "buf_data (sp_carry p) = []"
    "buf_data (sp_data p) = []" "buf_data (sp_id p) = []" "max_line (sp_limits p) = 262144"
    "max_event_type (sp_limits p) = 1024" "max_event_data (sp_limits p) = 1048576"
    by (simp_all add: p_def sse_parser_new_def Let_def buf_init_def resolve_limit_def MUA_SSE_MAX_LINE_def
        MUA_SSE_MAX_EVENT_DATA_def MUA_SSE_MAX_EVENT_TYPE_def)
  have "case sse_parser_feed log_event p [] (event_wire ''ping'' [''a'', ''b'']) of (err, p', u') \<Rightarrow>
    (case log_event [] ''ping'' (butlast (concat (map (\<lambda>d. d @ [LF]) [''a'', ''b'']))) (buf_data (sp_id p)) of (v, go) \<Rightarrow>
      u' = v \<and> view_of p' =
       (if go then Live ((live_of p)\<lparr>lv_type := []\<rparr>)
        else Dead kSseStateAborted ''aborted by event callback'' (Some kErrorTypeException)))"
    by (rule sse_event_delivered [OF ok p(1-4)]) (simp_all add: p(6-8))
  then have "snd (snd (sse_parser_feed log_event p [] (event_wire ''ping'' [''a'', ''b''])))
     = [(''ping'', ''a'' @ [LF] @ ''b'', [])]"
    by (cases "sse_parser_feed log_event p [] (event_wire ''ping'' [''a'', ''b''])")
      (auto simp: log_event_def p(5))
  with ok show ?thesis by blast
qed

text \<open>
  A latched parser is dead: once a feed has failed (a cap overflow or an abort by the
  callback), every later feed returns the same error without calling the callback, leaves the
  parser as it is, and the end of the stream counts as truncated.
\<close>

theorem sse_failure_latches:
  assumes "sse_ok p" "sse_parser_feed cb p u bytes = (Some e, p', u')"
  shows "sse_parser_feed cb' p' v later = (Some e, p', v) \<and> sse_parser_finish p' = kSseEofTruncated"
proof -
  from sse_parser_feed_refines [OF assms] have "Some e = view_error (view_of p')" by simp
  then have "sp_state p' = kSseStateFailed \<or> sp_state p' = kSseStateAborted"
    "e = sse_error (fail_type p') (fail_msg p')"
    by (auto simp: view_error_def view_of_def split: if_splits)
  then show ?thesis by (auto simp: sse_parser_feed_def sse_parser_finish_def)
qed

theorem sse_failure_latches_witness:
  "\<exists>p' e. sse_parser_feed log_event p' [] ''more'' = (Some e, p', []) \<and> sse_parser_finish p' = kSseEofTruncated"
proof -
  let ?cb = "\<lambda>u t d i. (u, False) :: (string \<times> string \<times> string) list \<times> bool"
  let ?p = "sse_parser_new None"
  have ok: "sse_ok ?p" by (rule sse_parser_new_ok) simp
  obtain err p' u' where run: "sse_parser_feed ?cb ?p [] (''data: x'' @ [LF, LF]) = (err, p', u')"
    by (cases "sse_parser_feed ?cb ?p [] (''data: x'' @ [LF, LF])") auto
  have "view_of p' = Dead kSseStateAborted ''aborted by event callback'' (Some kErrorTypeException)"
    using sse_parser_feed_refines [OF ok run]
    by (simp add: view_of_def live_of_def sse_parser_new_def Let_def buf_init_def resolve_limit_def
        spec_byte_def spec_char_def spec_content_def bom_bytes_def spec_line_def spec_field_def
        strip_space_def spec_dispatch_def MUA_SSE_MAX_LINE_def MUA_SSE_MAX_EVENT_DATA_def)
  then obtain e where "err = Some e"
    using sse_parser_feed_refines [OF ok run] by (auto simp: view_error_def)
  with run have "sse_parser_feed ?cb ?p [] (''data: x'' @ [LF, LF]) = (Some e, p', u')" by simp
  from sse_failure_latches [OF ok this, of log_event "[]" "''more''"] show ?thesis by blast
qed

text \<open>
  C40. A stream that begins with a complete UTF-8 byte order mark is never reported as cleanly
  ended, whatever follows: the matched-BOM counter stays at 3 and the end-of-stream verdict
  reads it as an unfinished BOM.
\<close>

theorem sse_bom_stream_never_clean:
  "sse_parser_finish (fst (feed_state cb (sse_parser_new None, u) (bom_bytes @ s))) = kSseEofTruncated"
proof -
  let ?p = "sse_parser_new None"
  have ok: "sse_ok ?p" by (rule sse_parser_new_ok) simp
  have "bom_done (fst (foldl (spec_byte cb) (view_of ?p, u) bom_bytes))"
    by (simp add: bom_bytes_def spec_byte_def view_of_def live_of_def sse_parser_new_def Let_def bom_done_def)
  then have "bom_done (fst (foldl (spec_byte cb) (view_of ?p, u) (bom_bytes @ s)))"
    unfolding foldl_append by (rule foldl_bom_done)
  then have "bom_done (view_of (fst (feed_state cb (?p, u) (bom_bytes @ s))))"
    using sse.feed_view [of "(?p, u)" cb "bom_bytes @ s"] ok by (metis fst_conv snd_conv)
  then show ?thesis
    by (auto simp: sse_parser_finish_view bom_done_def split: sse_view.splits)
qed

end
