(* ===== verification/Double.thy ===== *)
theory Double
  imports Prelude
begin

text \<open>
  The C type \<open>double\<close> as the program uses it: IEEE 754 binary64 bit patterns (64-bit words),
  moved around by \<open>memcpy\<close>, compared with integers, and converted from and to \<open>int64_t\<close>
  (\<open>bridge.c\<close>, \<open>json.c\<close>, \<open>msgpack.c\<close>). A conversion from an integer rounds to
  nearest, ties to even.
\<close>

type_synonym dbl = u64

definition dbl_sign :: "dbl \<Rightarrow> bool" where "dbl_sign d = bit d 63"
definition dbl_exp :: "dbl \<Rightarrow> nat" where "dbl_exp d = unat d div 2 ^ 52 mod 2 ^ 11"
definition dbl_man :: "dbl \<Rightarrow> nat" where "dbl_man d = unat d mod 2 ^ 52"

definition dbl_pack :: "bool \<Rightarrow> nat \<Rightarrow> nat \<Rightarrow> dbl" where
  "dbl_pack s e m = of_nat ((if s then 2 ^ 63 else 0) + e * 2 ^ 52 + m)"

text \<open>The integer value of a finite double, when it has one.\<close>

definition dbl_integer :: "dbl \<Rightarrow> int option" where
  "dbl_integer d =
     (let e = dbl_exp d; m = dbl_man d;
          sig = (if e = 0 then m else 2 ^ 52 + m);
          mag = (if e = 2047 then None
                 else if e \<ge> 1075 then Some (sig * 2 ^ (e - 1075))
                 else let k = 1075 - max e 1 in
                      if sig mod 2 ^ k = 0 then Some (sig div 2 ^ k) else None)
      in map_option (\<lambda>n. if dbl_sign d then - int n else int n) mag)"

text \<open>
  The cast \<open>(int64_t)d\<close> truncates. Out of range (and for a NaN) the C standard leaves it
  undefined; the value here is the one the x86-64 conversion instruction produces.
\<close>

definition INT64_MIN :: int where "INT64_MIN = - (2 ^ 63)"

definition dbl_trunc :: "dbl \<Rightarrow> int" where
  "dbl_trunc d =
     (let e = dbl_exp d; m = dbl_man d; sig = (if e = 0 then m else 2 ^ 52 + m);
          mag = (if e \<ge> 1075 then sig * 2 ^ (e - 1075) else sig div 2 ^ (1075 - max e 1))
      in if dbl_sign d then - int mag else int mag)"

definition dbl_to_int64 :: "dbl \<Rightarrow> int" where
  "dbl_to_int64 d =
     (let n = dbl_trunc d in
      if dbl_exp d = 2047 \<or> n < - (2 ^ 63) \<or> 2 ^ 63 \<le> n then INT64_MIN else n)"

definition EXACT_INT_MAX :: int where "EXACT_INT_MAX = 2 ^ 53"

text \<open>
  The test \<open>num >= -MUA_EXACT_INT_MAX && num <= MUA_EXACT_INT_MAX &&
  num == (double)(Integer)num\<close> with the integer it yields.
\<close>

definition dbl_exact_int :: "dbl \<Rightarrow> int option" where
  "dbl_exact_int d =
     (case dbl_integer d of
        None \<Rightarrow> None
      | Some n \<Rightarrow> if - EXACT_INT_MAX \<le> n \<and> n \<le> EXACT_INT_MAX then Some n else None)"

fun nbits :: "nat \<Rightarrow> nat" where
  "nbits n = (if n = 0 then 0 else Suc (nbits (n div 2)))"

declare nbits.simps [simp del]

definition round_even :: "nat \<Rightarrow> nat \<Rightarrow> nat" where
  "round_even a sh =
     (let q = a div 2 ^ sh; r = a mod 2 ^ sh; half = 2 ^ (sh - 1)
      in if r > half \<or> (r = half \<and> odd q) then q + 1 else q)"

definition dbl_of_int :: "int \<Rightarrow> dbl" where
  "dbl_of_int n =
     (let a = nat \<bar>n\<bar>; k = nbits a in
      if a = 0 then dbl_pack False 0 0
      else if k \<le> 53 then dbl_pack (n < 0) (k + 1022) (a * 2 ^ (53 - k) - 2 ^ 52)
      else let q = round_even a (k - 53) in
           if q = 2 ^ 53 then dbl_pack (n < 0) (k + 1023) 0
           else dbl_pack (n < 0) (k + 1022) (q - 2 ^ 52))"

text \<open>\<open>(double)f\<close> for the \<open>float\<close> with the given bits; a NaN becomes quiet.\<close>

definition dbl_of_float :: "32 word \<Rightarrow> dbl" where
  "dbl_of_float f =
     (let s = bit f 31; e = unat f div 2 ^ 23 mod 2 ^ 8; m = unat f mod 2 ^ 23; k = nbits m in
      if e = 255 then dbl_pack s 2047 (if m = 0 then 0 else (m * 2 ^ 29) mod 2 ^ 51 + 2 ^ 51)
      else if e \<noteq> 0 then dbl_pack s (e + 896) (m * 2 ^ 29)
      else if m = 0 then dbl_pack s 0 0
      else dbl_pack s (k + 873) (m * 2 ^ (53 - k) - 2 ^ 52))"

section \<open>Round trip of the exact integers\<close>

lemma nbits_bounds: "0 < n \<Longrightarrow> 2 ^ (nbits n - 1) \<le> n \<and> n < 2 ^ nbits n \<and> 0 < nbits n"
proof (induction n rule: nbits.induct)
  case (1 n)
  show ?case
  proof (cases "n div 2 = 0")
    case True
    with 1 have "n = 1" by auto
    then show ?thesis by (simp add: nbits.simps [of "Suc 0"] nbits.simps [of 0])
  next
    case False
    with 1 have IH: "2 ^ (nbits (n div 2) - 1) \<le> n div 2" "n div 2 < 2 ^ nbits (n div 2)"
      "0 < nbits (n div 2)" by auto
    have k: "nbits n = Suc (nbits (n div 2))" using "1.prems" by (simp add: nbits.simps [of n])
    have "(2::nat) ^ nbits (n div 2) = 2 * 2 ^ (nbits (n div 2) - 1)"
      using IH(3) by (metis Suc_diff_1 power_Suc)
    with IH have "2 ^ nbits (n div 2) \<le> n" by linarith
    moreover have "n < 2 * 2 ^ nbits (n div 2)" using IH(2) by linarith
    ultimately show ?thesis by (simp add: k)
  qed
qed

lemma nbits_le: "0 < n \<Longrightarrow> n < 2 ^ k \<Longrightarrow> nbits n \<le> k"
proof -
  assume n: "0 < n" "n < 2 ^ k"
  then have "(2::nat) ^ (nbits n - 1) < 2 ^ k" using nbits_bounds [of n] by linarith
  then have "nbits n - 1 < k" by (rule power_less_imp_less_exp [rotated]) simp
  then show ?thesis by simp
qed

lemma word_of_nat_fits: "n < 2 ^ 64 \<Longrightarrow> unat (of_nat n :: u64) = n"
  by (simp add: unat_of_nat take_bit_nat_eq_self del: of_nat_less_numeral_iff)

lemma dbl_pack_fields:
  assumes "e < 2 ^ 11" "m < 2 ^ 52"
  shows "dbl_sign (dbl_pack s e m) = s" "dbl_exp (dbl_pack s e m) = e" "dbl_man (dbl_pack s e m) = m"
proof -
  define n where "n = (if s then 2 ^ 63 else 0) + e * 2 ^ 52 + m"
  have lt: "n < 2 ^ 64" using assms by (simp add: n_def)
  have u: "unat (dbl_pack s e m) = n"
    unfolding dbl_pack_def n_def [symmetric] by (rule word_of_nat_fits [OF lt])
  have n: "n = m + ((if s then 2 ^ 11 else 0) + e) * 2 ^ 52" by (simp add: n_def)
  have man: "n mod 2 ^ 52 = m" unfolding n mod_mult_self1 using assms(2) by simp
  have "n div 2 ^ 52 = (if s then 2 ^ 11 else 0) + e" unfolding n using assms(2) by simp
  then show "dbl_exp (dbl_pack s e m) = e" "dbl_man (dbl_pack s e m) = m"
    using assms(1) man by (simp_all add: dbl_exp_def dbl_man_def u)
  have "bit (dbl_pack s e m) 63 \<longleftrightarrow> bit (unat (dbl_pack s e m)) 63"
    by (simp add: bit_unsigned_iff)
  also have "\<dots> \<longleftrightarrow> odd (n div 2 ^ 63)" unfolding u by (rule bit_iff_odd)
  also have "n div 2 ^ 63 = (if s then 1 else 0)" using assms by (cases s) (simp_all add: n_def)
  finally show "dbl_sign (dbl_pack s e m) = s" by (simp add: dbl_sign_def)
qed

lemma dbl_of_int_exact:
  assumes "\<bar>n\<bar> \<le> EXACT_INT_MAX"
  shows "dbl_exact_int (dbl_of_int n) = Some n"
proof -
  define a where "a = nat \<bar>n\<bar>"
  define k where "k = nbits a"
  have a: "a \<le> 2 ^ 53" using assms by (simp add: a_def EXACT_INT_MAX_def)
  have "dbl_integer (dbl_of_int n) = Some n"
  proof (cases "a = 0")
    case True
    then show ?thesis
      using dbl_pack_fields [of 0 0 False]
      by (simp add: dbl_of_int_def dbl_integer_def a_def Let_def)
  next
    case False
    then have k: "2 ^ (k - 1) \<le> a" "a < 2 ^ k" "0 < k" using nbits_bounds [of a] by (simp_all add: k_def)
    show ?thesis
    proof (cases "k \<le> 53")
      case True
      define m where "m = a * 2 ^ (53 - k) - 2 ^ 52"
      have p1: "(2::nat) ^ 52 = 2 ^ (k - 1) * 2 ^ (53 - k)" using True k(3) by (simp flip: power_add)
      have p2: "(2::nat) ^ 53 = 2 ^ k * 2 ^ (53 - k)" using True by (simp flip: power_add)
      have "2 ^ 52 \<le> a * 2 ^ (53 - k)" unfolding p1 using k(1) by simp
      moreover have "a * 2 ^ (53 - k) < 2 ^ 53" unfolding p2 using k(2) by simp
      ultimately have m: "2 ^ 52 + m = a * 2 ^ (53 - k)" "m < 2 ^ 52" by (simp_all add: m_def)
      have d: "dbl_of_int n = dbl_pack (n < 0) (k + 1022) m"
        using False True by (simp add: dbl_of_int_def a_def [symmetric] k_def m_def Let_def)
      have f: "dbl_sign (dbl_of_int n) = (n < 0)" "dbl_exp (dbl_of_int n) = k + 1022"
        "dbl_man (dbl_of_int n) = m"
        unfolding d using dbl_pack_fields [of "k + 1022" m "n < 0"] True m(2) by simp_all
      have "dbl_integer (dbl_of_int n) = Some (if n < 0 then - int a else int a)"
        using True k(3) by (auto simp: dbl_integer_def f m(1) [simplified] Let_def max_def)
      then show ?thesis by (simp add: a_def)
    next
      case False2: False
      with k(1) have "2 ^ 53 \<le> a"
        by (metis (mono_tags, lifting) One_nat_def Suc_diff_1 k(3) le_trans not_less_eq_eq one_le_numeral
            power_increasing not_le less_Suc_eq_le)
      with a have a53: "a = 2 ^ 53" by simp
      have k54: "k = 54"
      proof -
        have "k \<le> 54" using nbits_le [of a 54] a53 by (simp add: k_def)
        with False2 show ?thesis by simp
      qed
      have q: "round_even a 1 = 2 ^ 52" by (simp add: a53 round_even_def Let_def)
      have d: "dbl_of_int n = dbl_pack (n < 0) 1076 0"
        using False k54 q by (simp add: dbl_of_int_def a_def [symmetric] k_def [symmetric] Let_def)
      have f: "dbl_sign (dbl_of_int n) = (n < 0)" "dbl_exp (dbl_of_int n) = 1076"
        "dbl_man (dbl_of_int n) = 0"
        unfolding d using dbl_pack_fields [of 1076 0 "n < 0"] by simp_all
      have "dbl_integer (dbl_of_int n) = Some (if n < 0 then - int a else int a)"
        by (auto simp: dbl_integer_def f Let_def a53)
      then show ?thesis by (simp add: a_def)
    qed
  qed
  then show ?thesis using assms by (simp add: dbl_exact_int_def abs_le_iff)
qed

lemma dbl_trunc_integer: "dbl_integer d = Some n \<Longrightarrow> dbl_exp d \<noteq> 2047 \<and> dbl_trunc d = n"
  unfolding dbl_integer_def dbl_trunc_def Let_def by (auto split: if_splits)

lemma dbl_to_int64_exact: "dbl_exact_int d = Some n \<Longrightarrow> dbl_to_int64 d = n"
  using dbl_trunc_integer [of d n]
  by (auto simp: dbl_exact_int_def EXACT_INT_MAX_def dbl_to_int64_def Let_def split: option.splits if_splits)

end
