(* ===== verification/Walk.thy ===== *)
theory Walk
  imports Prelude
begin

text \<open>
  The interface of the tree walks. The program never recurses over input-shaped data: each
  walk (\<open>api_copy_object\<close>, \<open>api_free_object\<close>, \<open>cjson_to_object\<close>,
  \<open>object_to_cjson\<close>, \<open>msgpack_encode\<close>) is a loop over an explicit stack of at most
  \<open>kMarshalDepthCap\<close> frames. A walk is given by what its loop does with the top frame:
  it is popped when no child is left (\<open>nxt f = None\<close>), a leaf child is finished in place
  (\<open>Some (None, f')\<close>), a container child is pushed (\<open>Some (Some g, f')\<close>) and its
  finished value stored in the parent by \<open>put\<close>. \<open>emit\<close> and \<open>exit_f\<close> are the
  effects on an accumulator (the output buffer, the released blocks). The recursive functions
  \<open>fin\<close> and \<open>outp\<close> are what the walk computes; \<open>fdepth\<close> is the nesting depth that
  is left in a frame. The laws give the whole behaviour of the loop, the refusal at the cap
  included.
\<close>

locale stack_walk =
  fixes run :: "'f list \<Rightarrow> 'a \<Rightarrow> 'r"
    and ret :: "'v \<Rightarrow> 'a \<Rightarrow> 'r"
    and bad :: 'r
    and cap :: nat
    and nxt :: "'f \<Rightarrow> ('f option \<times> 'f) option"
    and put :: "'f \<Rightarrow> 'v \<Rightarrow> 'f"
    and close :: "'f \<Rightarrow> 'v"
    and emit :: "'f \<Rightarrow> 'a \<Rightarrow> 'a"
    and exit_f :: "'f \<Rightarrow> 'a \<Rightarrow> 'a"
    and inv :: "'f \<Rightarrow> bool"
    and fin :: "'f \<Rightarrow> 'v"
    and outp :: "'f \<Rightarrow> 'a \<Rightarrow> 'a"
    and fdepth :: "'f \<Rightarrow> nat"
    and weight :: "'f \<Rightarrow> nat"
  assumes run_pop: "inv f \<Longrightarrow> nxt f = None \<Longrightarrow>
      run (f # fs) a = (case fs of [] \<Rightarrow> ret (close f) (exit_f f a)
                                 | g # gs \<Rightarrow> run (put g (close f) # gs) (exit_f f a))"
    and run_leaf: "inv f \<Longrightarrow> nxt f = Some (None, f') \<Longrightarrow> run (f # fs) a = run (f' # fs) (emit f a)"
    and run_open: "inv f \<Longrightarrow> nxt f = Some (Some g, f') \<Longrightarrow>
      run (f # fs) a = (if Suc (length fs) < cap then run (g # f' # fs) (emit f a) else bad)"
    and inv_leaf: "inv f \<Longrightarrow> nxt f = Some (None, f') \<Longrightarrow> inv f'"
    and inv_open: "inv f \<Longrightarrow> nxt f = Some (Some g, f') \<Longrightarrow> inv g \<and> inv (put f' v)"
    and fin_pop: "inv f \<Longrightarrow> nxt f = None \<Longrightarrow> fin f = close f"
    and fin_leaf: "inv f \<Longrightarrow> nxt f = Some (None, f') \<Longrightarrow> fin f = fin f'"
    and fin_open: "inv f \<Longrightarrow> nxt f = Some (Some g, f') \<Longrightarrow> fin f = fin (put f' (fin g))"
    and outp_pop: "inv f \<Longrightarrow> nxt f = None \<Longrightarrow> outp f a = exit_f f a"
    and outp_leaf: "inv f \<Longrightarrow> nxt f = Some (None, f') \<Longrightarrow> outp f a = outp f' (emit f a)"
    and outp_open: "inv f \<Longrightarrow> nxt f = Some (Some g, f') \<Longrightarrow>
      outp f a = outp (put f' (fin g)) (outp g (emit f a))"
    and fdepth_pop: "inv f \<Longrightarrow> nxt f = None \<Longrightarrow> fdepth f = 1"
    and fdepth_leaf: "inv f \<Longrightarrow> nxt f = Some (None, f') \<Longrightarrow> fdepth f = fdepth f'"
    and fdepth_open: "inv f \<Longrightarrow> nxt f = Some (Some g, f') \<Longrightarrow>
      fdepth f = max (Suc (fdepth g)) (fdepth (put f' v))"
    and weight_leaf: "inv f \<Longrightarrow> nxt f = Some (None, f') \<Longrightarrow> weight f' < weight f"
    and weight_open: "inv f \<Longrightarrow> nxt f = Some (Some g, f') \<Longrightarrow>
      weight g < weight f \<and> weight (put f' v) < weight f"
begin

lemma nxt_cases:
  obtains (pop) "nxt f = None" | (leaf) f' where "nxt f = Some (None, f')"
  | (opn) g f' where "nxt f = Some (Some g, f')"
  by (cases "nxt f") (auto, metis not_None_eq)

lemma fdepth_pos: "inv f \<Longrightarrow> 0 < fdepth f"
proof (induction "weight f" arbitrary: f rule: less_induct)
  case less
  show ?case
  proof (cases f rule: nxt_cases)
    case pop
    then show ?thesis using less.prems by (simp add: fdepth_pop)
  next
    case (leaf f')
    then show ?thesis
      using less.hyps [of f'] less.prems weight_leaf inv_leaf fdepth_leaf by simp
  next
    case (opn g f')
    show ?thesis unfolding fdepth_open [OF less.prems opn, of undefined] by (simp add: max_def)
  qed
qed

lemma run_eq:
  "inv f \<Longrightarrow> length fs < cap \<Longrightarrow>
   run (f # fs) a =
     (if fdepth f + length fs \<le> cap
      then (case fs of [] \<Rightarrow> ret (fin f) (outp f a) | g # gs \<Rightarrow> run (put g (fin f) # gs) (outp f a))
      else bad)"
proof (induction "weight f" arbitrary: f fs a rule: less_induct)
  case less
  note f = less.prems(1)
  show ?case
  proof (cases f rule: nxt_cases)
    case pop
    then show ?thesis
      using less.prems by (auto simp: run_pop fin_pop outp_pop fdepth_pop split: list.splits)
  next
    case (leaf f')
    have "run (f' # fs) (emit f a) = (if fdepth f' + length fs \<le> cap
      then (case fs of [] \<Rightarrow> ret (fin f') (outp f' (emit f a))
            | g # gs \<Rightarrow> run (put g (fin f') # gs) (outp f' (emit f a))) else bad)"
      by (rule less.hyps [OF weight_leaf [OF f leaf] inv_leaf [OF f leaf] less.prems(2)])
    then show ?thesis
      by (simp only: run_leaf [OF f leaf] fin_leaf [OF f leaf] outp_leaf [OF f leaf] fdepth_leaf [OF f leaf])
  next
    case (opn g f')
    let ?p = "put f' (fin g)"
    note w = weight_open [OF f opn, of "fin g"] and i = inv_open [OF f opn, of "fin g"]
    note d = fdepth_open [OF f opn, of "fin g"]
    show ?thesis
    proof (cases "Suc (length fs) < cap")
      case False
      then have "\<not> fdepth f + length fs \<le> cap" using d fdepth_pos [of g] i by simp
      then show ?thesis using False by (simp add: run_open [OF f opn])
    next
      case True
      have g: "run (g # f' # fs) (emit f a) = (if fdepth g + Suc (length fs) \<le> cap
        then run (?p # fs) (outp g (emit f a)) else bad)"
        using less.hyps [of g "f' # fs" "emit f a"] w i True by simp
      have p: "run (?p # fs) b = (if fdepth ?p + length fs \<le> cap
        then (case fs of [] \<Rightarrow> ret (fin ?p) (outp ?p b) | h # gs \<Rightarrow> run (put h (fin ?p) # gs) (outp ?p b))
        else bad)" for b
        using less.hyps [of ?p fs b] w i less.prems(2) by blast
      have c: "fdepth f + length fs \<le> cap \<longleftrightarrow>
          fdepth g + Suc (length fs) \<le> cap \<and> fdepth ?p + length fs \<le> cap"
        by (auto simp: d max_def)
      show ?thesis
        by (simp only: run_open [OF f opn] True if_True g p c fin_open [OF f opn] outp_open [OF f opn]) simp
    qed
  qed
qed

lemma run_root:
  "inv f \<Longrightarrow> 0 < cap \<Longrightarrow> run [f] a = (if fdepth f \<le> cap then ret (fin f) (outp f a) else bad)"
  using run_eq [of f "[]" a] by simp

end

end
