(* ===== verification/Objects.thy ===== *)
theory Objects
  imports Double Walk
begin

text \<open>
  The API value vocabulary: \<open>Object\<close> of \<open>api/private/defs.h\<close> with the deep copy and the
  release of \<open>api/private/helpers.c\<close>. Both walk an explicit stack; a frame holds what
  its C counterpart points at (the container, its copy under construction, the next child
  index), and a finished child container is stored through the parent frame when it is popped,
  which is where the C pointer \<open>dst\<close> stops being written. An assertion that fails is the
  value \<open>None\<close>. Allocation does not fail (\<open>xmalloc\<close> aborts the process).
\<close>

section \<open>Objects\<close>

datatype object =
    ONil
  | OBoolean bool
  | OInteger u64
  | OFloat dbl
  | OString mstring
  | OArray "object list"
  | ODict "(mstring \<times> object) list"
  | OSession u64

definition kMarshalDepthCap :: nat where "kMarshalDepthCap = 32"

fun is_container :: "object \<Rightarrow> bool" where
  "is_container (OArray xs) = True"
| "is_container (ODict kvs) = True"
| "is_container _ = False"

fun obj_children :: "object \<Rightarrow> object list" where
  "obj_children (OArray xs) = xs"
| "obj_children (ODict kvs) = map snd kvs"
| "obj_children _ = []"

text \<open>Writing child \<open>i\<close>'s value, and the key of pair \<open>i\<close>.\<close>

fun obj_set :: "object \<Rightarrow> nat \<Rightarrow> object \<Rightarrow> object" where
  "obj_set (OArray xs) i v = OArray (xs[i := v])"
| "obj_set (ODict kvs) i v = ODict (kvs[i := (fst (kvs ! i), v)])"
| "obj_set x i v = x"

fun obj_set_key :: "object \<Rightarrow> nat \<Rightarrow> mstring \<Rightarrow> object" where
  "obj_set_key (ODict kvs) i k = ODict (kvs[i := (k, snd (kvs ! i))])"
| "obj_set_key x i k = x"

fun obj_key :: "object \<Rightarrow> nat \<Rightarrow> mstring" where
  "obj_key (ODict kvs) i = fst (kvs ! i)"
| "obj_key x i = None"

lemma update_same_snd: "(map snd kvs)[i := snd (kvs ! i)] = map snd kvs"
  by (cases "i < length kvs") (simp_all add: list_update_same_conv list_update_beyond not_less)

lemma obj_children_set [simp]:
  "obj_children (obj_set c i v) = (obj_children c)[i := v]"
  "obj_children (obj_set_key c i k) = obj_children c"
  by (cases c; simp add: map_update update_same_snd)+

lemma is_container_set [simp]:
  "is_container (obj_set c i v) = is_container c" "is_container (obj_set_key c i k) = is_container c"
  by (cases c; simp)+

text \<open>Nesting depth and number of nodes.\<close>

fun obj_depth :: "object \<Rightarrow> nat" where
  "obj_depth (OArray xs) = Suc (foldr (\<lambda>x. max (obj_depth x)) xs 0)"
| "obj_depth (ODict kvs) = Suc (foldr (\<lambda>kv. max (obj_depth (snd kv))) kvs 0)"
| "obj_depth _ = 0"

fun obj_nodes :: "object \<Rightarrow> nat" where
  "obj_nodes (OArray xs) = Suc (foldr (\<lambda>x. (+) (obj_nodes x)) xs 0)"
| "obj_nodes (ODict kvs) = Suc (foldr (\<lambda>kv. (+) (obj_nodes (snd kv))) kvs 0)"
| "obj_nodes _ = 1"

definition kids_depth :: "object list \<Rightarrow> nat" where
  "kids_depth xs = foldr (\<lambda>x. max (obj_depth x)) xs 0"

definition kids_nodes :: "object list \<Rightarrow> nat" where
  "kids_nodes xs = foldr (\<lambda>x. (+) (obj_nodes x)) xs 0"

lemma kids_simps [simp]:
  "kids_depth [] = 0" "kids_depth (x # xs) = max (obj_depth x) (kids_depth xs)"
  "kids_nodes [] = 0" "kids_nodes (x # xs) = obj_nodes x + kids_nodes xs"
  by (simp_all add: kids_depth_def kids_nodes_def)

lemma foldr_map_snd: "foldr (\<lambda>kv. g (h (snd kv))) kvs b = foldr (\<lambda>x. g (h x)) (map snd kvs) b"
  by (induction kvs) auto

lemma obj_depth_container:
  "is_container x \<Longrightarrow> obj_depth x = Suc (kids_depth (obj_children x))"
  "\<not> is_container x \<Longrightarrow> obj_depth x = 0"
  by (cases x; simp add: kids_depth_def foldr_map_snd)+

lemma obj_nodes_container:
  "is_container x \<Longrightarrow> obj_nodes x = Suc (kids_nodes (obj_children x))"
  "\<not> is_container x \<Longrightarrow> obj_nodes x = 1"
  by (cases x; simp add: kids_nodes_def foldr_map_snd)+

lemma obj_nodes_pos [simp]: "0 < obj_nodes x"
  by (cases x) auto

lemma kids_depth_update: "kids_depth (xs[i := v]) \<le> max (kids_depth xs) (obj_depth v)"
  by (induction xs arbitrary: i) (auto split: nat.splits simp: max_def, (meson le_trans nat_le_linear)+)

section \<open>Strings and errors\<close>

definition cstr_to_string :: "string option \<Rightarrow> mstring" where
  "cstr_to_string str = (case str of None \<Rightarrow> None | Some bs \<Rightarrow> Some (cstr bs))"

definition api_string_dup :: "mstring \<Rightarrow> mstring" where
  "api_string_dup s = (case s of None \<Rightarrow> None | Some bs \<Rightarrow> Some (take (str_size s) bs))"

lemma api_string_dup_id [simp]: "api_string_dup s = s"
  by (cases s) (simp_all add: api_string_dup_def)

section \<open>\<open>api_copy_object\<close>\<close>

fun copy_init :: "object \<Rightarrow> object" where
  "copy_init (OString s) = OString (api_string_dup s)"
| "copy_init (OArray xs) = OArray (replicate (length xs) ONil)"
| "copy_init (ODict kvs) = ODict (replicate (length kvs) (None, ONil))"
| "copy_init x = x"

record copy_frame =
  cf_src :: object
  cf_dst :: object
  cf_i :: nat

partial_function (option) copy_loop :: "copy_frame list \<Rightarrow> object option" where
  "copy_loop stack =
     (case stack of
        [] \<Rightarrow> None
      | f # fs \<Rightarrow>
          if length (obj_children (cf_src f)) \<le> cf_i f
          then (case fs of
                  [] \<Rightarrow> Some (cf_dst f)
                | g # gs \<Rightarrow>
                    copy_loop (g\<lparr>cf_dst := obj_set (cf_dst g) (cf_i g - 1) (cf_dst f)\<rparr> # gs))
          else
            let idx = cf_i f;
                dst = obj_set_key (cf_dst f) idx (api_string_dup (obj_key (cf_src f) idx));
                csrc = obj_children (cf_src f) ! idx;
                cdst = copy_init csrc
            in if is_container cdst
               then if length stack < kMarshalDepthCap
                    then copy_loop (\<lparr>cf_src = csrc, cf_dst = cdst, cf_i = 0\<rparr>
                                    # f\<lparr>cf_dst := dst, cf_i := idx + 1\<rparr> # fs)
                    else None
               else copy_loop (f\<lparr>cf_dst := obj_set dst idx cdst, cf_i := idx + 1\<rparr> # fs))"

definition api_copy_object :: "object option \<Rightarrow> object option" where
  "api_copy_object src =
     (case src of
        None \<Rightarrow> Some ONil
      | Some s \<Rightarrow>
          let root = copy_init s
          in if \<not> is_container root then Some root
             else copy_loop [\<lparr>cf_src = s, cf_dst = root, cf_i = 0\<rparr>])"

section \<open>\<open>api_free_object\<close>\<close>

text \<open>
  The heap blocks an object owns, named by where they hang: the data of the string at a path
  of child indices, the key of pair \<open>i\<close> of the container at a path, and the backing array
  of a container. A NULL pointer is no block; \<open>xfree\<close> of it releases nothing.
\<close>

datatype block = StrBlock "nat list" | KeyBlock "nat list" nat | ItemsBlock "nat list"

definition free_string :: "block \<Rightarrow> mstring \<Rightarrow> block list" where
  "free_string b s = (case s of None \<Rightarrow> [] | Some _ \<Rightarrow> [b])"

record free_frame =
  ff_node :: object
  ff_path :: "nat list"
  ff_i :: nat

partial_function (option) free_loop :: "free_frame list \<Rightarrow> block list \<Rightarrow> block list option" where
  "free_loop stack out =
     (case stack of
        [] \<Rightarrow> Some out
      | f # fs \<Rightarrow>
          let n = length (obj_children (ff_node f)) in
          if ff_i f < n
          then
            let idx = ff_i f;
                out = out @ free_string (KeyBlock (ff_path f) idx) (obj_key (ff_node f) idx);
                child = obj_children (ff_node f) ! idx;
                f' = f\<lparr>ff_i := idx + 1\<rparr>
            in (case child of
                  OString s \<Rightarrow> free_loop (f' # fs) (out @ free_string (StrBlock (ff_path f @ [idx])) s)
                | _ \<Rightarrow>
                    if is_container child
                    then if length stack < kMarshalDepthCap
                         then free_loop (\<lparr>ff_node = child, ff_path = ff_path f @ [idx], ff_i = 0\<rparr>
                                         # f' # fs) out
                         else None
                    else free_loop (f' # fs) out)
          else free_loop fs (out @ (if n = 0 then [] else [ItemsBlock (ff_path f)])))"

text \<open>The blocks released, in order; \<open>*obj\<close> is Nil afterwards.\<close>

definition api_free_object :: "object option \<Rightarrow> (block list \<times> object) option" where
  "api_free_object obj =
     (case obj of
        None \<Rightarrow> Some ([], ONil)
      | Some x \<Rightarrow>
          (case x of
             OString s \<Rightarrow> Some (free_string (StrBlock []) s, ONil)
           | _ \<Rightarrow>
               if \<not> is_container x then Some ([], ONil)
               else (case free_loop [\<lparr>ff_node = x, ff_path = [], ff_i = 0\<rparr>] [] of
                       None \<Rightarrow> None
                     | Some out \<Rightarrow> Some (out, ONil))))"

section \<open>The copy as a walk\<close>

lemma kids_drop:
  "i < length xs \<Longrightarrow> kids_depth (drop i xs) = max (obj_depth (xs ! i)) (kids_depth (drop (Suc i) xs))"
  "i < length xs \<Longrightarrow> kids_nodes (drop i xs) = obj_nodes (xs ! i) + kids_nodes (drop (Suc i) xs)"
  by (simp_all add: Cons_nth_drop_Suc [symmetric])

lemma is_container_copy_init [simp]: "is_container (copy_init x) = is_container x"
  by (cases x) auto

lemma copy_init_leaf: "\<not> is_container x \<Longrightarrow> copy_init x = x"
  by (cases x) auto

text \<open>One iteration of the loop on the top frame.\<close>

definition copy_nxt :: "copy_frame \<Rightarrow> (copy_frame option \<times> copy_frame) option" where
  "copy_nxt f =
     (if length (obj_children (cf_src f)) \<le> cf_i f then None
      else
        let idx = cf_i f;
            dst = obj_set_key (cf_dst f) idx (obj_key (cf_src f) idx);
            csrc = obj_children (cf_src f) ! idx;
            cdst = copy_init csrc
        in if is_container csrc
           then Some (Some \<lparr>cf_src = csrc, cf_dst = cdst, cf_i = 0\<rparr>, f\<lparr>cf_dst := dst, cf_i := idx + 1\<rparr>)
           else Some (None, f\<lparr>cf_dst := obj_set dst idx cdst, cf_i := idx + 1\<rparr>))"

definition copy_put :: "copy_frame \<Rightarrow> object \<Rightarrow> copy_frame" where
  "copy_put g v = g\<lparr>cf_dst := obj_set (cf_dst g) (cf_i g - 1) v\<rparr>"

text \<open>The destination has the source's shape, and its first \<open>i\<close> children are done.\<close>

fun same_shape :: "object \<Rightarrow> object \<Rightarrow> bool" where
  "same_shape (OArray xs) (OArray ys) = (length xs = length ys)"
| "same_shape (ODict xs) (ODict ys) = (length xs = length ys)"
| "same_shape _ _ = False"

fun copy_rest :: "object \<Rightarrow> object \<Rightarrow> nat \<Rightarrow> object" where
  "copy_rest (OArray xs) (OArray ys) i = OArray (take i ys @ drop i xs)"
| "copy_rest (ODict xs) (ODict ys) i = ODict (take i ys @ drop i xs)"
| "copy_rest _ y _ = y"

lemma same_shape_copy_init: "is_container x \<Longrightarrow> same_shape x (copy_init x)"
  by (cases x) auto

lemma same_shape_set [simp]:
  "same_shape x (obj_set y i v) = same_shape x y"
  "same_shape x (obj_set_key y i k) = same_shape x y"
  by (cases x; cases y; simp)+

lemma copy_rest_0: "is_container x \<Longrightarrow> copy_rest x (copy_init x) 0 = x"
  by (cases x) auto

lemma copy_rest_done: "same_shape x y \<Longrightarrow> length (obj_children x) \<le> i \<Longrightarrow> copy_rest x y i = y"
  by (cases x; cases y; simp)

lemma take_update_Suc:
  "i < length ys \<Longrightarrow> take (Suc i) (ys[i := v]) = take i ys @ [v]"
  by (simp add: take_Suc_conv_app_nth take_update_cancel)

lemma copy_rest_step:
  assumes "same_shape x y" "i < length (obj_children x)"
  shows "copy_rest x (obj_set (obj_set_key y i (obj_key x i)) i (obj_children x ! i)) (Suc i) = copy_rest x y i"
  using assms
  by (cases x; cases y) (auto simp: take_update_Suc Cons_nth_drop_Suc nth_Cons_Suc simp del: take_Suc_conv_app_nth)

lemma copy_put_step:
  "copy_put (f\<lparr>cf_dst := d, cf_i := Suc i\<rparr>) v = f\<lparr>cf_dst := obj_set d i v, cf_i := Suc i\<rparr>"
  by (simp add: copy_put_def)

interpretation copy: stack_walk "\<lambda>fs (_ :: unit). copy_loop fs" "\<lambda>v _. Some v" None kMarshalDepthCap
  copy_nxt copy_put cf_dst "\<lambda>_ a. a" "\<lambda>_ a. a"
  "\<lambda>f. same_shape (cf_src f) (cf_dst f)" "\<lambda>f. copy_rest (cf_src f) (cf_dst f) (cf_i f)" "\<lambda>_ a. a"
  "\<lambda>f. Suc (kids_depth (drop (cf_i f) (obj_children (cf_src f))))"
  "\<lambda>f. kids_nodes (drop (cf_i f) (obj_children (cf_src f)))"
proof unfold_locales
  fix f :: copy_frame and fs a
  assume "copy_nxt f = None"
  then show "copy_loop (f # fs) = (case fs of [] \<Rightarrow> Some (cf_dst f)
      | g # gs \<Rightarrow> copy_loop (copy_put g (cf_dst f) # gs))"
    by (subst copy_loop.simps)
      (simp add: copy_nxt_def copy_put_def Let_def split: if_splits list.split)
next
  fix f f' :: copy_frame and fs a
  assume "copy_nxt f = Some (None, f')"
  then show "copy_loop (f # fs) = copy_loop (f' # fs)"
    by (subst copy_loop.simps) (auto simp: copy_nxt_def Let_def split: if_splits)
next
  fix f g f' :: copy_frame and fs a
  assume "copy_nxt f = Some (Some g, f')"
  then show "copy_loop (f # fs) = (if Suc (length fs) < kMarshalDepthCap then copy_loop (g # f' # fs) else None)"
    by (subst copy_loop.simps) (auto simp: copy_nxt_def Let_def split: if_splits)
qed (auto simp: copy_nxt_def Let_def copy_put_step same_shape_copy_init copy_rest_done copy_rest_step
      copy_rest_0 copy_init_leaf kids_drop obj_depth_container obj_nodes_container not_le
      split: if_splits)

lemma api_copy_object_eq:
  "api_copy_object (Some x) = (if obj_depth x \<le> kMarshalDepthCap then Some x else None)"
proof (cases "is_container x")
  case True
  have "copy_loop [\<lparr>cf_src = x, cf_dst = copy_init x, cf_i = 0\<rparr>] =
      (if obj_depth x \<le> kMarshalDepthCap then Some x else None)"
    using copy.run_root [of "\<lparr>cf_src = x, cf_dst = copy_init x, cf_i = 0\<rparr>"] True
    by (simp add: same_shape_copy_init copy_rest_0 obj_depth_container kMarshalDepthCap_def)
  then show ?thesis using True by (simp add: api_copy_object_def Let_def)
next
  case False
  then show ?thesis by (simp add: api_copy_object_def Let_def copy_init_leaf obj_depth_container)
qed

section \<open>The release as a walk\<close>

text \<open>The blocks an object at a path owns, children before the backing array.\<close>

fun owned :: "nat list \<Rightarrow> object \<Rightarrow> block list"
  and owned_items :: "nat list \<Rightarrow> nat \<Rightarrow> object list \<Rightarrow> block list"
  and owned_pairs :: "nat list \<Rightarrow> nat \<Rightarrow> (mstring \<times> object) list \<Rightarrow> block list" where
  "owned p (OString s) = free_string (StrBlock p) s"
| "owned p (OArray xs) = owned_items p 0 xs @ (if xs = [] then [] else [ItemsBlock p])"
| "owned p (ODict kvs) = owned_pairs p 0 kvs @ (if kvs = [] then [] else [ItemsBlock p])"
| "owned p _ = []"
| "owned_items p i [] = []"
| "owned_items p i (x # xs) = owned (p @ [i]) x @ owned_items p (Suc i) xs"
| "owned_pairs p i [] = []"
| "owned_pairs p i (kv # kvs) =
     free_string (KeyBlock p i) (fst kv) @ owned (p @ [i]) (snd kv) @ owned_pairs p (Suc i) kvs"

fun owned_from :: "nat list \<Rightarrow> nat \<Rightarrow> object \<Rightarrow> block list" where
  "owned_from p i (OArray xs) = owned_items p i (drop i xs) @ (if xs = [] then [] else [ItemsBlock p])"
| "owned_from p i (ODict kvs) = owned_pairs p i (drop i kvs) @ (if kvs = [] then [] else [ItemsBlock p])"
| "owned_from p i _ = []"

lemma owned_from_0: "is_container x \<Longrightarrow> owned_from p 0 x = owned p x"
  by (cases x) auto

lemma owned_leaf: "\<not> is_container x \<Longrightarrow> owned p x = (case x of OString s \<Rightarrow> free_string (StrBlock p) s | _ \<Rightarrow> [])"
  by (cases x) auto

lemma owned_from_done:
  "is_container x \<Longrightarrow> length (obj_children x) \<le> i \<Longrightarrow>
   owned_from p i x = (if obj_children x = [] then [] else [ItemsBlock p])"
  by (cases x) auto

lemma owned_from_step:
  "is_container x \<Longrightarrow> i < length (obj_children x) \<Longrightarrow>
   owned_from p i x = free_string (KeyBlock p i) (obj_key x i) @ owned (p @ [i]) (obj_children x ! i)
                      @ owned_from p (Suc i) x"
  by (cases x) (auto simp: Cons_nth_drop_Suc [symmetric] free_string_def)

definition free_nxt :: "free_frame \<Rightarrow> (free_frame option \<times> free_frame) option" where
  "free_nxt f =
     (if length (obj_children (ff_node f)) \<le> ff_i f then None
      else
        let child = obj_children (ff_node f) ! ff_i f; f' = f\<lparr>ff_i := ff_i f + 1\<rparr>
        in Some (if is_container child
                 then Some \<lparr>ff_node = child, ff_path = ff_path f @ [ff_i f], ff_i = 0\<rparr> else None, f'))"

definition free_emit :: "free_frame \<Rightarrow> block list \<Rightarrow> block list" where
  "free_emit f out =
     out @ free_string (KeyBlock (ff_path f) (ff_i f)) (obj_key (ff_node f) (ff_i f))
         @ (case obj_children (ff_node f) ! ff_i f of
              OString s \<Rightarrow> free_string (StrBlock (ff_path f @ [ff_i f])) s | _ \<Rightarrow> [])"

definition free_exit :: "free_frame \<Rightarrow> block list \<Rightarrow> block list" where
  "free_exit f out = out @ (if obj_children (ff_node f) = [] then [] else [ItemsBlock (ff_path f)])"

lemma free_loop_pop:
  "free_nxt f = None \<Longrightarrow> free_loop (f # fs) out = free_loop fs (free_exit f out)"
  by (subst free_loop.simps) (simp add: free_nxt_def free_exit_def Let_def split: if_splits)

lemma free_loop_leaf:
  "free_nxt f = Some (None, f') \<Longrightarrow> free_loop (f # fs) out = free_loop (f' # fs) (free_emit f out)"
  by (subst free_loop.simps)
    (auto simp: free_nxt_def free_emit_def Let_def split: if_splits object.splits)

lemma free_loop_open:
  "free_nxt f = Some (Some g, f') \<Longrightarrow>
   free_loop (f # fs) out =
     (if Suc (length fs) < kMarshalDepthCap then free_loop (g # f' # fs) (free_emit f out) else None)"
  by (subst free_loop.simps)
    (cases "obj_children (ff_node f) ! ff_i f"; auto simp: free_nxt_def free_emit_def Let_def split: if_splits)

lemma container_no_string: "is_container x \<Longrightarrow> (case x of OString s \<Rightarrow> g s | _ \<Rightarrow> []) = []"
  by (cases x) auto

interpretation release: stack_walk free_loop "\<lambda>(_ :: unit) out. Some out" None kMarshalDepthCap
  free_nxt "\<lambda>g _. g" "\<lambda>_. ()" free_emit free_exit
  "\<lambda>f. is_container (ff_node f)" "\<lambda>_. ()"
  "\<lambda>f out. out @ owned_from (ff_path f) (ff_i f) (ff_node f)"
  "\<lambda>f. Suc (kids_depth (drop (ff_i f) (obj_children (ff_node f))))"
  "\<lambda>f. kids_nodes (drop (ff_i f) (obj_children (ff_node f)))"
proof unfold_locales
  fix f fs out
  assume "free_nxt f = None"
  then have "free_loop (f # fs) out = free_loop fs (free_exit f out)" by (rule free_loop_pop)
  then show "free_loop (f # fs) out = (case fs of [] \<Rightarrow> Some (free_exit f out)
      | g # gs \<Rightarrow> free_loop (g # gs) (free_exit f out))"
    by (cases fs) (simp_all add: free_loop.simps [of "[]"])
qed (auto simp: free_loop_leaf free_loop_open free_nxt_def free_emit_def free_exit_def Let_def
      owned_from_done owned_from_step owned_from_0 owned_leaf kids_drop obj_depth_container
      obj_nodes_container not_le container_no_string split: if_splits)

lemma api_free_object_eq:
  "api_free_object (Some x) = (if obj_depth x \<le> kMarshalDepthCap then Some (owned [] x, ONil) else None)"
proof (cases "is_container x")
  case True
  have "free_loop [\<lparr>ff_node = x, ff_path = [], ff_i = 0\<rparr>] [] =
      (if obj_depth x \<le> kMarshalDepthCap then Some (owned [] x) else None)"
    using release.run_root [of "\<lparr>ff_node = x, ff_path = [], ff_i = 0\<rparr>" "[]"] True
    by (simp add: owned_from_0 obj_depth_container kMarshalDepthCap_def)
  then show ?thesis using True by (cases x) (simp_all add: api_free_object_def)
next
  case False
  then show ?thesis by (cases x) (simp_all add: api_free_object_def kMarshalDepthCap_def)
qed

text \<open>What hangs where in an object.\<close>

fun obj_at :: "object \<Rightarrow> nat list \<Rightarrow> object option" where
  "obj_at x [] = Some x"
| "obj_at x (i # p) = (if i < length (obj_children x) then obj_at (obj_children x ! i) p else None)"

fun block_path :: "block \<Rightarrow> nat list" where
  "block_path (StrBlock p) = p"
| "block_path (KeyBlock p i) = p"
| "block_path (ItemsBlock p) = p"

definition hangs :: "object \<Rightarrow> block \<Rightarrow> nat list \<Rightarrow> bool" where
  "hangs x b q =
     (case obj_at x q of
        None \<Rightarrow> False
      | Some y \<Rightarrow>
          (case b of
             StrBlock _ \<Rightarrow> (case y of OString s \<Rightarrow> s \<noteq> None | _ \<Rightarrow> False)
           | KeyBlock _ i \<Rightarrow> i < length (obj_children y) \<and> obj_key y i \<noteq> None
           | ItemsBlock _ \<Rightarrow> obj_children y \<noteq> []))"

lemma hangs_Cons [simp]:
  "hangs x b (i # q) \<longleftrightarrow> i < length (obj_children x) \<and> hangs (obj_children x ! i) b q"
  by (simp add: hangs_def)

lemma set_free_string [simp]: "set (free_string b s) = (if s = None then {} else {b})"
  by (cases s) (simp_all add: free_string_def)

lemma distinct_free_string [simp]: "distinct (free_string b s)"
  by (cases s) (simp_all add: free_string_def)

lemma path_cases: "(\<exists>q. Q q) \<longleftrightarrow> Q [] \<or> (\<exists>i q. Q (i # q))"
  by (metis list.exhaust)

lemma less_Suc_ex: "(\<exists>j < Suc n. Q j) \<longleftrightarrow> Q 0 \<or> (\<exists>j < n. Q (Suc j))"
  by (metis Suc_less_eq gr0_conv_Suc zero_less_Suc less_Suc_eq_0_disj)

lemma owned_mem:
  "b \<in> set (owned p x) \<longleftrightarrow> (\<exists>q. block_path b = p @ q \<and> hangs x b q)"
  "b \<in> set (owned_items p i xs) \<longleftrightarrow>
     (\<exists>j < length xs. \<exists>q. block_path b = p @ (i + j) # q \<and> hangs (xs ! j) b q)"
  "b \<in> set (owned_pairs p i kvs) \<longleftrightarrow>
     (\<exists>j < length kvs. b = KeyBlock p (i + j) \<and> fst (kvs ! j) \<noteq> None) \<or>
     (\<exists>j < length kvs. \<exists>q. block_path b = p @ (i + j) # q \<and> hangs (snd (kvs ! j)) b q)"
proof (induction p x and p i xs and p i kvs rule: owned_owned_items_owned_pairs.induct)
  case (2 p xs)
  then show ?case
    by (subst path_cases) (cases b; auto simp: hangs_def [of "OArray xs" _ "[]"])
next
  case (3 p kvs)
  then show ?case
    by (subst path_cases) (cases b; auto simp: hangs_def [of "ODict kvs" _ "[]"])
next
  case (6 p i x xs)
  then show ?case by (simp add: less_Suc_ex)
next
  case (8 p i kv kvs)
  then show ?case by (auto simp: less_Suc_ex)
qed (subst path_cases; cases b; auto simp: hangs_def)+

lemma owned_distinct:
  "distinct (owned p x)" "distinct (owned_items p i xs)" "distinct (owned_pairs p i kvs)"
proof (induction p x and p i xs and p i kvs rule: owned_owned_items_owned_pairs.induct)
  case (2 p xs)
  then show ?case by (auto simp: owned_mem)
next
  case (3 p kvs)
  then show ?case by (auto simp: owned_mem)
next
  case (6 p i x xs)
  then show ?case by (auto simp: owned_mem)
next
  case (8 p i kv kvs)
  then show ?case by (auto simp: owned_mem)
qed auto

section \<open>Properties\<close>

text \<open>\<open>api_copy_object\<close> returns a value equal to its argument for every object
  nested at most \<open>kMarshalDepthCap\<close> deep, and its depth assertion fails for exactly the
  deeper ones.\<close>

theorem api_copy_object_copies:
  "api_copy_object (Some x) = (if obj_depth x \<le> kMarshalDepthCap then Some x else None)"
  by (rule api_copy_object_eq)

text \<open>\<open>api_free_object\<close> releases every heap block an object owns, each exactly once
  and nothing else, and leaves Nil, for every object the producers' depth cap admits.\<close>

theorem api_free_object_releases:
  assumes "obj_depth x \<le> kMarshalDepthCap"
  shows "\<exists>out. api_free_object (Some x) = Some (out, ONil) \<and> distinct out
               \<and> (\<forall>b. b \<in> set out \<longleftrightarrow> hangs x b (block_path b))"
proof (intro exI conjI allI)
  show "api_free_object (Some x) = Some (owned [] x, ONil)" using assms by (simp add: api_free_object_eq)
  show "distinct (owned [] x)" by (rule owned_distinct)
  show "b \<in> set (owned [] x) \<longleftrightarrow> hangs x b (block_path b)" for b by (auto simp: owned_mem)
qed

definition sample_object :: object where
  "sample_object = ODict [(Some ''k'', OArray [OString (Some ''v''), ONil]), (Some ''n'', OInteger 7)]"

theorem api_free_object_releases_witness:
  "\<exists>out. api_free_object (Some sample_object) = Some (out, ONil) \<and> distinct out
         \<and> (\<forall>b. b \<in> set out \<longleftrightarrow> hangs sample_object b (block_path b))"
  by (rule api_free_object_releases) (simp add: sample_object_def kMarshalDepthCap_def)

end
