(* ===== verification/Json.thy ===== *)
theory Json
  imports Objects Memory
begin

text \<open>
  \<open>json.c\<close>: the boundary between cJSON trees and the API's Objects. The trees are a
  datatype (strings and keys are C strings, a number its \<open>valuedouble\<close>); the text parser
  and printer of the bundled cJSON library are parameters of the operations that call them.
  The two converters are walks over explicit stacks and interpret \<open>stack_walk\<close>.
\<close>

section \<open>Trees and getters\<close>

datatype cjson =
    CNull
  | CBool bool
  | CNumber dbl
  | CString string
  | CArray "cjson list"
  | CObject "(string \<times> cjson) list"

fun cj_children :: "cjson \<Rightarrow> cjson list" where
  "cj_children (CArray xs) = xs"
| "cj_children (CObject kvs) = map snd kvs"
| "cj_children _ = []"

fun cj_container :: "cjson \<Rightarrow> bool" where
  "cj_container (CArray xs) = True"
| "cj_container (CObject kvs) = True"
| "cj_container _ = False"

text \<open>
  \<open>cJSON_GetObjectItemCaseSensitive\<close>: the first member of that name. The children of an
  array have no name, which stops the search at once.
\<close>

fun cj_get :: "cjson \<Rightarrow> string \<Rightarrow> cjson option" where
  "cj_get (CObject kvs) key = map_of kvs key"
| "cj_get _ key = None"

definition json_get_cstr :: "cjson \<Rightarrow> string \<Rightarrow> string option" where
  "json_get_cstr obj key = (case cj_get obj key of Some (CString s) \<Rightarrow> Some s | _ \<Rightarrow> None)"

definition json_get_int :: "cjson \<Rightarrow> string \<Rightarrow> int option" where
  "json_get_int obj key = (case cj_get obj key of Some (CNumber d) \<Rightarrow> Some (dbl_to_int64 d) | _ \<Rightarrow> None)"

definition json_get_bool :: "cjson \<Rightarrow> string \<Rightarrow> bool option" where
  "json_get_bool obj key = (case cj_get obj key of Some (CBool b) \<Rightarrow> Some b | _ \<Rightarrow> None)"

definition json_get_obj :: "cjson \<Rightarrow> string \<Rightarrow> cjson option" where
  "json_get_obj obj key = (case cj_get obj key of Some (CObject kvs) \<Rightarrow> Some (CObject kvs) | _ \<Rightarrow> None)"

definition json_get_arr :: "cjson \<Rightarrow> string \<Rightarrow> cjson list option" where
  "json_get_arr obj key = (case cj_get obj key of Some (CArray xs) \<Rightarrow> Some xs | _ \<Rightarrow> None)"

section \<open>Builders\<close>

definition json_new_obj :: cjson where "json_new_obj = CObject []"

fun json_add :: "cjson \<Rightarrow> string \<Rightarrow> cjson \<Rightarrow> cjson" where
  "json_add (CObject kvs) key v = CObject (kvs @ [(key, v)])"
| "json_add x key v = x"

definition json_add_str :: "cjson \<Rightarrow> string \<Rightarrow> mstring \<Rightarrow> cjson" where
  "json_add_str obj key s = json_add obj key (CString (xstrndup (str_bytes s) (str_size s)))"

definition json_add_cstr :: "cjson \<Rightarrow> string \<Rightarrow> string \<Rightarrow> cjson" where
  "json_add_cstr obj key s = json_add obj key (CString (cstr s))"

definition json_add_int :: "cjson \<Rightarrow> string \<Rightarrow> int \<Rightarrow> cjson" where
  "json_add_int obj key v = json_add obj key (CNumber (dbl_of_int v))"

definition json_add_bool :: "cjson \<Rightarrow> string \<Rightarrow> bool \<Rightarrow> cjson" where
  "json_add_bool obj key v = json_add obj key (CBool v)"

section \<open>Parsing a document\<close>

text \<open>
  The parser parameter gives the node and the offset after it, or the offset of the failure.
\<close>

type_synonym json_parser = "string \<Rightarrow> nat + (cjson \<times> nat)"

definition is_json_space :: "char \<Rightarrow> bool" where
  "is_json_space c \<longleftrightarrow> c = CHR '' '' \<or> c = CHR 0x09 \<or> c = CR \<or> c = LF"

definition json_parse :: "json_parser \<Rightarrow> mstring \<Rightarrow> nat \<Rightarrow> error + cjson" where
  "json_parse cparse doc max_size =
     (case doc of
        None \<Rightarrow> Inl (kErrorTypeValidation, ''json: empty document'')
      | Some text \<Rightarrow>
          if str_size doc > max_size
          then Inl (kErrorTypeValidation, ''json: document of '' @ show_nat (str_size doc)
                    @ '' bytes exceeds cap of '' @ show_nat max_size)
          else (case cparse text of
                  Inl offset \<Rightarrow> Inl (kErrorTypeValidation, ''json: parse failed near byte '' @ show_nat offset)
                | Inr (node, parse_end) \<Rightarrow>
                    let rest = dropWhile is_json_space (drop parse_end text) in
                    case rest of
                      [] \<Rightarrow> Inr node
                    | c # _ \<Rightarrow>
                        if c \<noteq> NUL
                        then Inl (kErrorTypeValidation, ''json: trailing bytes after document at offset ''
                                  @ show_nat (length text - length rest))
                        else Inr node))"

definition json_print :: "(cjson \<Rightarrow> string) \<Rightarrow> cjson \<Rightarrow> mstring" where
  "json_print cprint node = Some (cstr (cprint node))"

section \<open>\<open>cjson_to_object\<close>\<close>

definition obj_of_number :: "dbl \<Rightarrow> object" where
  "obj_of_number d = (case dbl_exact_int d of Some n \<Rightarrow> OInteger (of_int n) | None \<Rightarrow> OFloat d)"

fun cjson_node_init :: "cjson \<Rightarrow> object" where
  "cjson_node_init (CString s) = OString (cstr_to_string (Some s))"
| "cjson_node_init (CNumber d) = obj_of_number d"
| "cjson_node_init (CBool b) = OBoolean b"
| "cjson_node_init (CArray xs) = OArray (replicate (length xs) ONil)"
| "cjson_node_init (CObject kvs) = ODict (map (\<lambda>kv. (cstr_to_string (Some (fst kv)), ONil)) kvs)"
| "cjson_node_init CNull = ONil"

record cjson_frame =
  jf_dst :: object
  jf_cur :: "cjson list"
  jf_i :: nat

definition nesting_error :: error where
  "nesting_error = (kErrorTypeValidation, ''json nesting exceeds '' @ show_nat kMarshalDepthCap)"

text \<open>The fuel-free loop; \<open>None\<close> would be a loop that does not return.\<close>

partial_function (option) cjson_loop :: "cjson_frame list \<Rightarrow> (error + object) option" where
  "cjson_loop stack =
     (case stack of
        [] \<Rightarrow> None
      | f # fs \<Rightarrow>
          if length (obj_children (jf_dst f)) \<le> jf_i f
          then (case fs of
                  [] \<Rightarrow> Some (Inr (jf_dst f))
                | g # gs \<Rightarrow> cjson_loop (g\<lparr>jf_dst := obj_set (jf_dst g) (jf_i g - 1) (jf_dst f)\<rparr> # gs))
          else (case jf_cur f of
                  [] \<Rightarrow> None
                | cs # cur \<Rightarrow>
                    let f' = f\<lparr>jf_cur := cur, jf_i := jf_i f + 1\<rparr> in
                    if cj_container cs \<and> kMarshalDepthCap \<le> length stack
                    then Some (Inl nesting_error)
                    else
                      let slot = cjson_node_init cs in
                      if is_container slot
                      then cjson_loop (\<lparr>jf_dst = slot, jf_cur = cj_children cs, jf_i = 0\<rparr> # f' # fs)
                      else cjson_loop (f'\<lparr>jf_dst := obj_set (jf_dst f) (jf_i f) slot\<rparr> # fs)))"

definition cjson_to_object :: "cjson \<Rightarrow> (error + object) option" where
  "cjson_to_object node =
     (let root = cjson_node_init node in
      if \<not> is_container root then Some (Inr root)
      else cjson_loop [\<lparr>jf_dst = root, jf_cur = cj_children node, jf_i = 0\<rparr>])"

section \<open>\<open>object_to_cjson\<close>\<close>

fun object_make_node :: "object \<Rightarrow> cjson" where
  "object_make_node (OBoolean b) = CBool b"
| "object_make_node (OInteger i) = CNumber (dbl_of_int (sint i))"
| "object_make_node (OFloat d) = CNumber d"
| "object_make_node (OString s) = CString (xstrndup (str_bytes s) (str_size s))"
| "object_make_node (OArray xs) = CArray []"
| "object_make_node (ODict kvs) = CObject []"
| "object_make_node _ = CNull"

text \<open>Appending a child; the child is still being filled when it is a container, and is
  stored again, as the last child, when its frame is popped.\<close>

fun cj_append :: "cjson \<Rightarrow> string \<Rightarrow> cjson \<Rightarrow> cjson" where
  "cj_append (CArray xs) k v = CArray (xs @ [v])"
| "cj_append (CObject kvs) k v = CObject (kvs @ [(k, v)])"
| "cj_append x k v = x"

fun cj_set_last :: "cjson \<Rightarrow> cjson \<Rightarrow> cjson" where
  "cj_set_last (CArray xs) v = CArray (butlast xs @ [v])"
| "cj_set_last (CObject kvs) v = CObject (butlast kvs @ [(fst (last kvs), v)])"
| "cj_set_last x v = x"

record obj_frame =
  of_src :: object
  of_dst :: cjson
  of_i :: nat

partial_function (option) obj_loop :: "obj_frame list \<Rightarrow> cjson option" where
  "obj_loop stack =
     (case stack of
        [] \<Rightarrow> None
      | f # fs \<Rightarrow>
          if length (obj_children (of_src f)) \<le> of_i f
          then (case fs of
                  [] \<Rightarrow> Some (of_dst f)
                | g # gs \<Rightarrow> obj_loop (g\<lparr>of_dst := cj_set_last (of_dst g) (of_dst f)\<rparr> # gs))
          else
            let idx = of_i f;
                csrc = obj_children (of_src f) ! idx;
                child = object_make_node csrc;
                key = obj_key (of_src f) idx;
                f' = f\<lparr>of_dst := cj_append (of_dst f) (xstrndup (str_bytes key) (str_size key)) child,
                       of_i := idx + 1\<rparr>
            in if is_container csrc
               then if length stack < kMarshalDepthCap
                    then obj_loop (\<lparr>of_src = csrc, of_dst = child, of_i = 0\<rparr> # f' # fs)
                    else None
               else obj_loop (f' # fs))"

definition object_to_cjson :: "object option \<Rightarrow> cjson option" where
  "object_to_cjson obj =
     (case obj of
        None \<Rightarrow> Some CNull
      | Some x \<Rightarrow>
          let root = object_make_node x in
          if \<not> is_container x then Some root
          else obj_loop [\<lparr>of_src = x, of_dst = root, of_i = 0\<rparr>])"

section \<open>Depth and size of a tree\<close>

fun cj_depth :: "cjson \<Rightarrow> nat" where
  "cj_depth (CArray xs) = Suc (foldr (\<lambda>x. max (cj_depth x)) xs 0)"
| "cj_depth (CObject kvs) = Suc (foldr (\<lambda>kv. max (cj_depth (snd kv))) kvs 0)"
| "cj_depth _ = 0"

fun cj_nodes :: "cjson \<Rightarrow> nat" where
  "cj_nodes (CArray xs) = Suc (foldr (\<lambda>x. (+) (cj_nodes x)) xs 0)"
| "cj_nodes (CObject kvs) = Suc (foldr (\<lambda>kv. (+) (cj_nodes (snd kv))) kvs 0)"
| "cj_nodes _ = 1"

definition cjs_depth :: "cjson list \<Rightarrow> nat" where
  "cjs_depth xs = foldr (\<lambda>x. max (cj_depth x)) xs 0"

definition cjs_nodes :: "cjson list \<Rightarrow> nat" where
  "cjs_nodes xs = foldr (\<lambda>x. (+) (cj_nodes x)) xs 0"

lemma cjs_simps [simp]:
  "cjs_depth [] = 0" "cjs_depth (x # xs) = max (cj_depth x) (cjs_depth xs)"
  "cjs_nodes [] = 0" "cjs_nodes (x # xs) = cj_nodes x + cjs_nodes xs"
  by (simp_all add: cjs_depth_def cjs_nodes_def)

lemma cj_depth_container:
  "cj_container x \<Longrightarrow> cj_depth x = Suc (cjs_depth (cj_children x))"
  "\<not> cj_container x \<Longrightarrow> cj_depth x = 0"
  by (cases x; simp add: cjs_depth_def foldr_map_snd)+

lemma cj_nodes_container:
  "cj_container x \<Longrightarrow> cj_nodes x = Suc (cjs_nodes (cj_children x))"
  "\<not> cj_container x \<Longrightarrow> cj_nodes x = 1"
  by (cases x; simp add: cjs_nodes_def foldr_map_snd)+

section \<open>The reference conversions\<close>

fun obj_of_cjson :: "cjson \<Rightarrow> object" where
  "obj_of_cjson (CArray xs) = OArray (map obj_of_cjson xs)"
| "obj_of_cjson (CObject kvs) = ODict (map (\<lambda>kv. (Some (cstr (fst kv)), obj_of_cjson (snd kv))) kvs)"
| "obj_of_cjson (CString s) = OString (Some (cstr s))"
| "obj_of_cjson (CNumber d) = obj_of_number d"
| "obj_of_cjson (CBool b) = OBoolean b"
| "obj_of_cjson CNull = ONil"

definition key_text :: "mstring \<Rightarrow> string" where
  "key_text k = cstr (str_bytes k)"

fun cjson_of_obj :: "object \<Rightarrow> cjson" where
  "cjson_of_obj (OArray xs) = CArray (map cjson_of_obj xs)"
| "cjson_of_obj (ODict kvs) = CObject (map (\<lambda>kv. (key_text (fst kv), cjson_of_obj (snd kv))) kvs)"
| "cjson_of_obj x = object_make_node x"

lemma is_container_number [simp]: "\<not> is_container (obj_of_number d)"
  by (simp add: obj_of_number_def split: option.split)

lemma is_container_node_init [simp]: "is_container (cjson_node_init x) = cj_container x"
  by (cases x) simp_all

lemma is_container_obj_of_cjson [simp]: "is_container (obj_of_cjson x) = cj_container x"
  by (cases x) simp_all

lemma cjson_node_init_leaf: "\<not> cj_container x \<Longrightarrow> cjson_node_init x = obj_of_cjson x"
  by (cases x) (simp_all add: cstr_to_string_def)

lemma xstrndup_key [simp]: "xstrndup (str_bytes k) (str_size k) = key_text k"
  by (simp add: xstrndup_def key_text_def str_size_def)

section \<open>The conversions as walks\<close>

definition cjson_nxt :: "cjson_frame \<Rightarrow> (cjson_frame option \<times> cjson_frame) option" where
  "cjson_nxt f =
     (case jf_cur f of
        [] \<Rightarrow> None
      | cs # cur \<Rightarrow>
          let f' = f\<lparr>jf_cur := cur, jf_i := jf_i f + 1\<rparr>; slot = cjson_node_init cs in
          Some (if cj_container cs
                then (Some \<lparr>jf_dst = slot, jf_cur = cj_children cs, jf_i = 0\<rparr>, f')
                else (None, f'\<lparr>jf_dst := obj_set (jf_dst f) (jf_i f) slot\<rparr>)))"

definition cjson_inv :: "cjson_frame \<Rightarrow> bool" where
  "cjson_inv f \<longleftrightarrow> is_container (jf_dst f) \<and> length (obj_children (jf_dst f)) = jf_i f + length (jf_cur f)"

definition cjson_put :: "cjson_frame \<Rightarrow> object \<Rightarrow> cjson_frame" where
  "cjson_put g v = g\<lparr>jf_dst := obj_set (jf_dst g) (jf_i g - 1) v\<rparr>"

definition cjson_fin :: "cjson_frame \<Rightarrow> object" where
  "cjson_fin f =
     (case jf_dst f of
        OArray ys \<Rightarrow> OArray (take (jf_i f) ys @ map obj_of_cjson (jf_cur f))
      | ODict kvs \<Rightarrow> ODict (take (jf_i f) kvs @ zip (map fst (drop (jf_i f) kvs)) (map obj_of_cjson (jf_cur f)))
      | x \<Rightarrow> x)"

lemma cjson_fin_step:
  assumes "cjson_inv f" "jf_cur f = cs # cur"
  shows "cjson_fin (f\<lparr>jf_cur := cur, jf_i := Suc (jf_i f),
            jf_dst := obj_set (jf_dst f) (jf_i f) (obj_of_cjson cs)\<rparr>) = cjson_fin f"
  using assms
  by (cases "jf_dst f")
    (auto simp: cjson_fin_def cjson_inv_def take_update_Suc Cons_nth_drop_Suc [symmetric]
      simp del: take_Suc_conv_app_nth)

lemma cjson_inv_init: "cj_container x \<Longrightarrow> cjson_inv \<lparr>jf_dst = cjson_node_init x, jf_cur = cj_children x, jf_i = 0\<rparr>"
  by (cases x) (simp_all add: cjson_inv_def)

lemma cjson_fin_init:
  "cj_container x \<Longrightarrow> cjson_fin \<lparr>jf_dst = cjson_node_init x, jf_cur = cj_children x, jf_i = 0\<rparr> = obj_of_cjson x"
proof (cases x)
  case (CObject kvs)
  have "zip (map (\<lambda>kv. cstr_to_string (Some (fst kv))) kvs) (map (\<lambda>kv. obj_of_cjson (snd kv)) kvs)
      = map (\<lambda>kv. (Some (cstr (fst kv)), obj_of_cjson (snd kv))) kvs"
    by (induction kvs) (simp_all add: cstr_to_string_def)
  then show ?thesis by (simp add: CObject cjson_fin_def comp_def)
qed (simp_all add: cjson_fin_def)

lemma cjson_loop_top:
  assumes "cjson_inv f"
  shows "cjson_loop (f # fs) =
    (case jf_cur f of
       [] \<Rightarrow> (case fs of [] \<Rightarrow> Some (Inr (jf_dst f)) | g # gs \<Rightarrow> cjson_loop (cjson_put g (jf_dst f) # gs))
     | cs # cur \<Rightarrow>
         let f' = f\<lparr>jf_cur := cur, jf_i := jf_i f + 1\<rparr> in
         if cj_container cs
         then if kMarshalDepthCap \<le> Suc (length fs) then Some (Inl nesting_error)
              else cjson_loop (\<lparr>jf_dst = cjson_node_init cs, jf_cur = cj_children cs, jf_i = 0\<rparr> # f' # fs)
         else cjson_loop (f'\<lparr>jf_dst := obj_set (jf_dst f) (jf_i f) (cjson_node_init cs)\<rparr> # fs))"
  using assms
  by (subst cjson_loop.simps) (auto simp: cjson_inv_def cjson_put_def Let_def split: list.split)

lemma cjson_put_props [simp]:
  "jf_cur (cjson_put g v) = jf_cur g" "jf_i (cjson_put g v) = jf_i g"
  "jf_dst (cjson_put g v) = obj_set (jf_dst g) (jf_i g - 1) v"
  by (simp_all add: cjson_put_def)

lemma cjson_nxtE:
  assumes "cjson_nxt f = Some (c, f')"
  obtains cs cur where "jf_cur f = cs # cur"
    "(cj_container cs \<and> c = Some \<lparr>jf_dst = cjson_node_init cs, jf_cur = cj_children cs, jf_i = 0\<rparr>
       \<and> f' = f\<lparr>jf_cur := cur, jf_i := Suc (jf_i f)\<rparr>)
     \<or> (\<not> cj_container cs \<and> c = None
       \<and> f' = f\<lparr>jf_cur := cur, jf_i := Suc (jf_i f), jf_dst := obj_set (jf_dst f) (jf_i f) (cjson_node_init cs)\<rparr>)"
  using assms that by (auto simp: cjson_nxt_def Let_def split: list.splits if_splits)

lemma cjson_nxt_None: "cjson_nxt f = None \<longleftrightarrow> jf_cur f = []"
  by (auto simp: cjson_nxt_def Let_def split: list.splits)

interpretation to_object: stack_walk "\<lambda>fs (_ :: unit). cjson_loop fs" "\<lambda>v _. Some (Inr v)"
  "Some (Inl nesting_error)" kMarshalDepthCap cjson_nxt cjson_put jf_dst "\<lambda>_ a. a" "\<lambda>_ a. a" cjson_inv
  cjson_fin "\<lambda>_ a. a" "\<lambda>f. Suc (cjs_depth (jf_cur f))" "\<lambda>f. cjs_nodes (jf_cur f)"
proof unfold_locales
  fix f f' :: cjson_frame and fs a
  assume a: "cjson_inv f" "cjson_nxt f = Some (None, f')"
  from a(2) show "cjson_loop (f # fs) = cjson_loop (f' # fs)"
    by (elim cjson_nxtE) (auto simp: cjson_loop_top [OF a(1)])
next
  fix f g f' :: cjson_frame and fs a
  assume a: "cjson_inv f" "cjson_nxt f = Some (Some g, f')"
  from a(2) show "cjson_loop (f # fs) =
      (if Suc (length fs) < kMarshalDepthCap then cjson_loop (g # f' # fs) else Some (Inl nesting_error))"
    by (elim cjson_nxtE) (auto simp: cjson_loop_top [OF a(1)])
next
  fix f f' :: cjson_frame
  assume a: "cjson_inv f" "cjson_nxt f = Some (None, f')"
  from a(2) show "cjson_fin f = cjson_fin f'"
    by (elim cjson_nxtE) (auto simp: cjson_fin_step [OF a(1)] cjson_node_init_leaf)
next
  fix f g f' :: cjson_frame
  assume a: "cjson_inv f" "cjson_nxt f = Some (Some g, f')"
  from a(2) show "cjson_fin f = cjson_fin (cjson_put f' (cjson_fin g))"
    by (elim cjson_nxtE) (auto simp: cjson_fin_step [OF a(1)] cjson_fin_init cjson_put_def)
next
  fix f :: cjson_frame
  assume "cjson_inv f" "cjson_nxt f = None"
  then show "cjson_fin f = jf_dst f"
    by (cases "jf_dst f") (auto simp: cjson_fin_def cjson_inv_def cjson_nxt_None)
qed (auto elim!: cjson_nxtE simp: cjson_loop_top cjson_nxt_None cjson_inv_init cjson_inv_def [of "_\<lparr>jf_dst := _\<rparr>"]
      cj_depth_container cj_nodes_container,
     auto simp: cjson_inv_def)

lemma cjson_to_object_eq:
  "cjson_to_object x = Some (if cj_depth x \<le> kMarshalDepthCap then Inr (obj_of_cjson x) else Inl nesting_error)"
proof (cases "cj_container x")
  case True
  then show ?thesis
    using to_object.run_root [of "\<lparr>jf_dst = cjson_node_init x, jf_cur = cj_children x, jf_i = 0\<rparr>"]
    by (simp add: cjson_to_object_def Let_def cjson_inv_init cjson_fin_init cj_depth_container kMarshalDepthCap_def)
next
  case False
  then show ?thesis by (simp add: cjson_to_object_def Let_def cjson_node_init_leaf cj_depth_container)
qed

fun same_kind :: "object \<Rightarrow> cjson \<Rightarrow> bool" where
  "same_kind (OArray xs) (CArray ys) = True"
| "same_kind (ODict xs) (CObject ys) = True"
| "same_kind _ _ = False"

fun obj_fin :: "object \<Rightarrow> nat \<Rightarrow> cjson \<Rightarrow> cjson" where
  "obj_fin (OArray xs) i (CArray ys) = CArray (ys @ map cjson_of_obj (drop i xs))"
| "obj_fin (ODict kvs) i (CObject ys) =
     CObject (ys @ map (\<lambda>kv. (key_text (fst kv), cjson_of_obj (snd kv))) (drop i kvs))"
| "obj_fin _ _ y = y"

definition obj_nxt :: "obj_frame \<Rightarrow> (obj_frame option \<times> obj_frame) option" where
  "obj_nxt f =
     (if length (obj_children (of_src f)) \<le> of_i f then None
      else
        let csrc = obj_children (of_src f) ! of_i f;
            child = object_make_node csrc;
            f' = f\<lparr>of_dst := cj_append (of_dst f) (key_text (obj_key (of_src f) (of_i f))) child,
                   of_i := of_i f + 1\<rparr>
        in Some (if is_container csrc then Some \<lparr>of_src = csrc, of_dst = child, of_i = 0\<rparr> else None, f'))"

definition obj_put :: "obj_frame \<Rightarrow> cjson \<Rightarrow> obj_frame" where
  "obj_put g v = g\<lparr>of_dst := cj_set_last (of_dst g) v\<rparr>"

lemma cj_set_last_append [simp]: "cj_set_last (cj_append d k c) v = cj_append d k v"
  by (cases d) simp_all

lemma same_kind_set [simp]:
  "same_kind x (cj_append d k c) = same_kind x d" "same_kind x (cj_set_last d v) = same_kind x d"
  by (cases x; cases d; simp)+

lemma same_kind_make: "is_container x \<Longrightarrow> same_kind x (object_make_node x)"
  by (cases x) simp_all

lemma obj_fin_make: "is_container x \<Longrightarrow> obj_fin x 0 (object_make_node x) = cjson_of_obj x"
  by (cases x) simp_all

lemma cjson_of_obj_leaf: "\<not> is_container x \<Longrightarrow> object_make_node x = cjson_of_obj x"
  by (cases x) simp_all

lemma obj_fin_done: "same_kind x d \<Longrightarrow> length (obj_children x) \<le> i \<Longrightarrow> obj_fin x i d = d"
  by (cases x; cases d) simp_all

lemma obj_fin_step:
  assumes "same_kind x d" "i < length (obj_children x)"
  shows "obj_fin x (Suc i) (cj_append d (key_text (obj_key x i)) (cjson_of_obj (obj_children x ! i))) = obj_fin x i d"
  using assms by (cases x; cases d) (simp_all add: Cons_nth_drop_Suc [symmetric])

interpretation to_cjson: stack_walk "\<lambda>fs (_ :: unit). obj_loop fs" "\<lambda>v _. Some v" None kMarshalDepthCap
  obj_nxt obj_put of_dst "\<lambda>_ a. a" "\<lambda>_ a. a" "\<lambda>f. same_kind (of_src f) (of_dst f)"
  "\<lambda>f. obj_fin (of_src f) (of_i f) (of_dst f)" "\<lambda>_ a. a"
  "\<lambda>f. Suc (kids_depth (drop (of_i f) (obj_children (of_src f))))"
  "\<lambda>f. kids_nodes (drop (of_i f) (obj_children (of_src f)))"
proof unfold_locales
  fix f :: obj_frame and fs a
  assume "obj_nxt f = None"
  then show "obj_loop (f # fs) = (case fs of [] \<Rightarrow> Some (of_dst f) | g # gs \<Rightarrow> obj_loop (obj_put g (of_dst f) # gs))"
    by (subst obj_loop.simps) (simp add: obj_nxt_def obj_put_def Let_def split: if_splits list.split)
next
  fix f f' :: obj_frame and fs a
  assume "obj_nxt f = Some (None, f')"
  then show "obj_loop (f # fs) = obj_loop (f' # fs)"
    by (subst obj_loop.simps) (auto simp: obj_nxt_def Let_def split: if_splits)
next
  fix f g f' :: obj_frame and fs a
  assume "obj_nxt f = Some (Some g, f')"
  then show "obj_loop (f # fs) = (if Suc (length fs) < kMarshalDepthCap then obj_loop (g # f' # fs) else None)"
    by (subst obj_loop.simps) (auto simp: obj_nxt_def Let_def split: if_splits)
qed (auto simp: obj_nxt_def Let_def obj_put_def same_kind_make obj_fin_make obj_fin_done obj_fin_step
      cjson_of_obj_leaf kids_drop obj_depth_container obj_nodes_container not_le split: if_splits)

lemma object_to_cjson_eq:
  "object_to_cjson (Some x) = (if obj_depth x \<le> kMarshalDepthCap then Some (cjson_of_obj x) else None)"
proof (cases "is_container x")
  case True
  then show ?thesis
    using to_cjson.run_root [of "\<lparr>of_src = x, of_dst = object_make_node x, of_i = 0\<rparr>"]
    by (simp add: object_to_cjson_def Let_def same_kind_make obj_fin_make obj_depth_container kMarshalDepthCap_def)
next
  case False
  then show ?thesis
    by (simp add: object_to_cjson_def Let_def cjson_of_obj_leaf obj_depth_container kMarshalDepthCap_def)
qed

section \<open>Properties\<close>

text \<open>The Objects that JSON carries exactly: strings without NUL bytes that are not NULL,
  integers a double represents, floats that are not such integers, no Session.\<close>

definition text_exact :: "mstring \<Rightarrow> bool" where
  "text_exact s = (case s of None \<Rightarrow> False | Some bs \<Rightarrow> NUL \<notin> set bs)"

fun json_exact :: "object \<Rightarrow> bool" where
  "json_exact (OString s) = text_exact s"
| "json_exact (OInteger i) = (\<bar>sint i\<bar> \<le> EXACT_INT_MAX)"
| "json_exact (OFloat d) = (dbl_exact_int d = None)"
| "json_exact (OArray xs) = list_all json_exact xs"
| "json_exact (ODict kvs) = list_all (\<lambda>kv. text_exact (fst kv) \<and> json_exact (snd kv)) kvs"
| "json_exact (OSession s) = False"
| "json_exact _ = True"

lemma text_exact_key: "text_exact s \<Longrightarrow> Some (cstr (key_text s)) = s"
  by (cases s) (simp_all add: text_exact_def key_text_def)

lemma obj_of_cjson_of_obj: "json_exact x \<Longrightarrow> obj_of_cjson (cjson_of_obj x) = x"
proof (induction x rule: json_exact.induct)
  case (2 i)
  then show ?case using dbl_of_int_exact [of "sint i"] by (simp add: obj_of_number_def)
next
  case (4 xs)
  then show ?case by (simp add: list_all_iff map_idI)
next
  case (5 kvs)
  have "map (\<lambda>kv. (Some (cstr (key_text (fst kv))), obj_of_cjson (cjson_of_obj (snd kv)))) kvs = kvs"
    using 5 by (intro map_idI) (auto simp: list_all_iff text_exact_key)
  then show ?case by (simp add: comp_def)
qed (simp_all add: text_exact_key obj_of_number_def)

lemma cj_depth_of_obj: "cj_depth (cjson_of_obj x) = obj_depth x"
proof (induction x rule: json_exact.induct)
  case (4 xs)
  then show ?case by (simp add: foldr_map comp_def cong: foldr_cong)
next
  case (5 kvs)
  then have "foldr (\<lambda>kv. max (cj_depth (cjson_of_obj (snd kv)))) kvs 0 = foldr (\<lambda>kv. max (obj_depth (snd kv))) kvs 0"
    by (intro foldr_cong) simp_all
  then show ?case by (simp add: foldr_map comp_def)
qed simp_all

text \<open>\<open>cjson_to_object\<close> always returns: the value the recursive conversion gives when
  the tree is nested at most \<open>kMarshalDepthCap\<close> deep, and the nesting error otherwise.\<close>

theorem cjson_to_object_converts:
  "cjson_to_object x =
     Some (if cj_depth x \<le> kMarshalDepthCap then Inr (obj_of_cjson x)
           else Inl (kErrorTypeValidation, ''json nesting exceeds 32''))"
proof -
  have "show_nat 32 = ''32''" by code_simp
  then show ?thesis by (simp add: cjson_to_object_eq nesting_error_def kMarshalDepthCap_def)
qed

text \<open>Round trip across the JSON boundary: an Object within the depth cap whose strings
  and numbers JSON can carry comes back unchanged from \<open>object_to_cjson\<close> followed by
  \<open>cjson_to_object\<close>; integers up to \<open>2^53\<close> survive the conversion to a double.\<close>

theorem json_object_roundtrip:
  assumes "json_exact x" "obj_depth x \<le> kMarshalDepthCap"
  shows "\<exists>node. object_to_cjson (Some x) = Some node \<and> cjson_to_object node = Some (Inr x)"
  using assms by (simp add: object_to_cjson_eq cjson_to_object_eq cj_depth_of_obj obj_of_cjson_of_obj)

definition sample_json :: object where
  "sample_json = OArray [OInteger (- 9007199254740992), ODict [(Some ''k'', OString (Some ''v''))], ONil]"

theorem json_object_roundtrip_witness:
  "\<exists>node. object_to_cjson (Some sample_json) = Some node \<and> cjson_to_object node = Some (Inr sample_json)"
  by (rule json_object_roundtrip)
    (simp_all add: sample_json_def text_exact_def EXACT_INT_MAX_def kMarshalDepthCap_def)

end
