(* ===== verification/Paths.thy ===== *)
theory Paths
  imports Memory
begin

text \<open>
  \<open>paths.c\<close>: the XDG directories, path joining, and the creation of a directory with its
  parents. The environment variables and the outcomes of the file system calls are parameters.
\<close>

datatype errno = EINTR | EEXIST | ENOTDIR | Errno string

fun strerror :: "errno \<Rightarrow> string" where
  "strerror EINTR = ''Interrupted system call''"
| "strerror EEXIST = ''File exists''"
| "strerror ENOTDIR = ''Not a directory''"
| "strerror (Errno s) = s"

text \<open>The outcome of one \<open>read(2)\<close>: bytes (none at end of file) or an error.\<close>

datatype read_outcome = Got string | ReadFailed errno

record os_env =
  os_getenv :: "string \<Rightarrow> string option"
  os_mkdir :: "string \<Rightarrow> errno option"
  os_stat :: "string \<Rightarrow> errno + bool"

abbreviation SLASH :: char where "SLASH \<equiv> CHR ''/''"

section \<open>Joining\<close>

text \<open>The loop that drops trailing separators, but never the last byte.\<close>

fun trim_seps :: "string \<Rightarrow> nat \<Rightarrow> nat" where
  "trim_seps a 0 = 0"
| "trim_seps a (Suc n) = (if 0 < n \<and> a ! n = SLASH then trim_seps a n else Suc n)"

definition paths_join :: "string \<Rightarrow> string \<Rightarrow> string" where
  "paths_join a b =
     (let len_a = trim_seps a (length a);
          need_sep = (\<not> (len_a > 0 \<and> a ! (len_a - 1) = SLASH))
      in take len_a a @ (if need_sep then [SLASH] else []) @ b)"

section \<open>Directories\<close>

definition nonempty_getenv :: "os_env \<Rightarrow> string \<Rightarrow> string option" where
  "nonempty_getenv env name =
     (case os_getenv env name of Some v \<Rightarrow> if v \<noteq> [] then Some v else None | None \<Rightarrow> None)"

definition xdg_dir :: "os_env \<Rightarrow> string \<Rightarrow> string \<Rightarrow> string \<Rightarrow> string option" where
  "xdg_dir env override_var xdg_var home_suffix =
     (case nonempty_getenv env override_var of
        Some v \<Rightarrow> Some (xstrdup v)
      | None \<Rightarrow>
          (case nonempty_getenv env xdg_var of
             Some xdg \<Rightarrow> Some (paths_join xdg ''mua'')
           | None \<Rightarrow>
               (case nonempty_getenv env ''HOME'' of
                  None \<Rightarrow> None
                | Some home \<Rightarrow> Some (paths_join home home_suffix))))"

definition paths_config_dir :: "os_env \<Rightarrow> string option" where
  "paths_config_dir env = xdg_dir env ''MUA_CONFIG_DIR'' ''XDG_CONFIG_HOME'' ''.config/mua''"

definition paths_state_dir :: "os_env \<Rightarrow> string option" where
  "paths_state_dir env = xdg_dir env ''MUA_STATE_DIR'' ''XDG_STATE_HOME'' ''.local/state/mua''"

text \<open>The compile-time default is a parameter.\<close>

definition paths_runtime_dir :: "os_env \<Rightarrow> string \<Rightarrow> string" where
  "paths_runtime_dir env runtime_path =
     (case nonempty_getenv env ''MUA_RUNTIME'' of Some v \<Rightarrow> xstrdup v | None \<Rightarrow> xstrdup runtime_path)"

definition mkdir_one :: "os_env \<Rightarrow> string \<Rightarrow> error option" where
  "mkdir_one env prefix =
     (case os_mkdir env prefix of
        None \<Rightarrow> None
      | Some EEXIST \<Rightarrow> None
      | Some ENOTDIR \<Rightarrow>
          Some (kErrorTypeValidation, ''paths: a component of '' @ prefix @ '' is not a directory'')
      | Some e \<Rightarrow> Some (kErrorTypeException, ''paths: mkdir '' @ prefix @ '': '' @ strerror e))"

text \<open>The prefixes that end before a separator, from index \<open>i\<close> on.\<close>

fun ensure_prefixes :: "os_env \<Rightarrow> string \<Rightarrow> nat list \<Rightarrow> error option" where
  "ensure_prefixes env p [] = None"
| "ensure_prefixes env p (i # is) =
     (if p ! i \<noteq> SLASH then ensure_prefixes env p is
      else (case mkdir_one env (take i p) of
              Some e \<Rightarrow> Some e
            | None \<Rightarrow> ensure_prefixes env p is))"

definition paths_ensure_dir :: "os_env \<Rightarrow> string option \<Rightarrow> error option" where
  "paths_ensure_dir env path =
     (case path of
        None \<Rightarrow> Some (kErrorTypeValidation, ''paths: empty directory path'')
      | Some p \<Rightarrow>
          if p = [] then Some (kErrorTypeValidation, ''paths: empty directory path'')
          else (case ensure_prefixes env p [1..<length p] of
                  Some e \<Rightarrow> Some e
                | None \<Rightarrow>
                    (case mkdir_one env p of
                       Some e \<Rightarrow> Some e
                     | None \<Rightarrow>
                         (case os_stat env p of
                            Inl e \<Rightarrow> Some (kErrorTypeException, ''paths: stat '' @ p @ '': '' @ strerror e)
                          | Inr is_dir \<Rightarrow>
                              if \<not> is_dir
                              then Some (kErrorTypeValidation, ''paths: '' @ p @ '' exists and is not a directory'')
                              else None))))"

section \<open>Properties of joining\<close>

lemma trim_seps_bounds: "trim_seps a n \<le> n \<and> (0 < n \<longrightarrow> 0 < trim_seps a n)"
  by (induction n) auto

lemma trim_seps_last: "1 < trim_seps a n \<Longrightarrow> a ! (trim_seps a n - 1) \<noteq> SLASH"
  by (induction n) (auto split: if_splits)

lemma trim_seps_rest: "trim_seps a n \<le> i \<Longrightarrow> i < n \<Longrightarrow> a ! i = SLASH"
  by (induction n) (auto split: if_splits simp: less_Suc_eq)

end
