(* ===== verification/Session.thy ===== *)
theory Session
  imports Json Paths "HOL-Library.Char_ord"
begin

text \<open>
  \<open>session.c\<close>: the append-only JSONL session store. The state record carries beside the
  fields of \<open>SessionState\<close> the bytes of the open file (\<open>ss_file\<close>), which only
  \<open>write_line\<close> extends. The operating system is a parameter: the outcomes of the
  \<open>write\<close>, \<open>read\<close> and \<open>open\<close> calls in the order they are made. The JSON
  parser and printer are parameters as in theory \<open>Json\<close>.
\<close>

section \<open>State and constants\<close>

record session_state =
  ss_id :: string
  ss_path :: string
  ss_file :: string
  ss_messages :: "cjson list"
  ss_count :: nat
  ss_poisoned :: bool
  ss_needs_heal :: bool

definition kSessionIdLen :: nat where "kSessionIdLen = 18"
definition kSessionNameLen :: nat where "kSessionNameLen = 24"
definition kSessionScanMax :: nat where "kSessionScanMax = 65536"
definition kSessionIdAttempts :: nat where "kSessionIdAttempts = 100"
definition kSessionEintrMax :: nat where "kSessionEintrMax = 100"
definition kSessionReadChunk :: nat where "kSessionReadChunk = 64 * 1024"
definition MUA_SESSION_MAX_LINE :: nat where "MUA_SESSION_MAX_LINE = 8 * 1048576"
definition MUA_SESSION_MAX_MESSAGES :: nat where "MUA_SESSION_MAX_MESSAGES = 4096"

definition state_alloc :: session_state where
  "state_alloc = \<lparr>ss_id = [], ss_path = [], ss_file = [], ss_messages = [], ss_count = 0,
                  ss_poisoned = False, ss_needs_heal = False\<rparr>"

section \<open>Writing\<close>

text \<open>
  The outcome of one \<open>write(2)\<close>: the number of bytes that reached the file, or an error.
  An oracle gives it for each attempt and requested size.
\<close>

datatype write_outcome = Wrote nat | WriteFailed errno

text \<open>The retry loop: \<open>n\<close> calls are left, \<open>i\<close> were made, \<open>acc\<close> is the last result.\<close>

type_synonym write_oracle = "nat \<Rightarrow> nat \<Rightarrow> write_outcome"

fun write_tries :: "write_oracle \<Rightarrow> nat \<Rightarrow> nat \<Rightarrow> nat \<Rightarrow> write_outcome \<Rightarrow> write_outcome" where
  "write_tries os nbytes i 0 res = res"
| "write_tries os nbytes i (Suc n) res =
     (case os i nbytes of
        WriteFailed EINTR \<Rightarrow> write_tries os nbytes (i + 1) n (WriteFailed EINTR)
      | r \<Rightarrow> r)"

definition write_line ::
  "write_oracle \<Rightarrow> session_state \<Rightarrow> string \<Rightarrow> error option \<times> session_state" where
  "write_line os sess line =
     (let buf = (if ss_needs_heal sess then [LF] else []) @ line @ [LF];
          nbytes = length line + 1 + (if ss_needs_heal sess then 1 else 0);
          written = write_tries os nbytes 0 kSessionEintrMax (WriteFailed EINTR);
          sess = (case written of Wrote n \<Rightarrow> sess\<lparr>ss_file := ss_file sess @ take n buf\<rparr> | WriteFailed _ \<Rightarrow> sess)
      in if (case written of Wrote n \<Rightarrow> n \<noteq> nbytes | WriteFailed _ \<Rightarrow> True)
         then (Some (kErrorTypeException, ''session: write '' @ ss_path sess @ '': ''
                     @ (case written of WriteFailed e \<Rightarrow> strerror e | Wrote _ \<Rightarrow> ''short write'')),
               sess\<lparr>ss_poisoned := True\<rparr>)
         else (None, sess\<lparr>ss_needs_heal := False\<rparr>))"

definition session_header :: "string \<Rightarrow> int \<Rightarrow> cjson" where
  "session_header sid created =
     json_add_int (json_add_cstr (json_add_int (json_add_cstr json_new_obj ''type'' ''session'')
       ''version'' 1) ''id'' sid) ''created'' created"

definition write_header ::
  "(cjson \<Rightarrow> string) \<Rightarrow> write_oracle \<Rightarrow> session_state \<Rightarrow> int \<Rightarrow> error option \<times> session_state" where
  "write_header cprint os sess created =
     write_line os sess (str_bytes (json_print cprint (session_header (ss_id sess) created)))"

definition session_append ::
  "(cjson \<Rightarrow> string) \<Rightarrow> write_oracle \<Rightarrow> session_state \<Rightarrow> cjson option \<Rightarrow>
   error option \<times> session_state" where
  "session_append cprint os sess msg =
     (case msg of
        None \<Rightarrow> (Some (kErrorTypeValidation, ''session: a message is an object with a string \"role\"''), sess)
      | Some m \<Rightarrow>
          if (case m of CObject _ \<Rightarrow> json_get_cstr m ''role'' = None | _ \<Rightarrow> True)
          then (Some (kErrorTypeValidation, ''session: a message is an object with a string \"role\"''), sess)
          else if ss_poisoned sess
          then (Some (kErrorTypeException, ''session: '' @ ss_path sess @ '': poisoned by an earlier failed write''),
                sess)
          else if ss_count sess \<ge> MUA_SESSION_MAX_MESSAGES
          then (Some (kErrorTypeValidation, ''session: '' @ ss_path sess @ '': more than ''
                      @ show_nat MUA_SESSION_MAX_MESSAGES @ '' messages''), sess)
          else
            let line = str_bytes (json_print cprint m) in
            if length line > MUA_SESSION_MAX_LINE
            then (Some (kErrorTypeValidation, ''session: message of '' @ show_nat (length line) @ '' bytes exceeds ''
                        @ show_nat MUA_SESSION_MAX_LINE @ '' bytes''), sess)
            else (case write_line os sess line of
                    (Some e, sess) \<Rightarrow> (Some e, sess)
                  | (None, sess) \<Rightarrow>
                      (None, sess\<lparr>ss_messages := ss_messages sess @ [m], ss_count := ss_count sess + 1\<rparr>)))"

definition session_message_count :: "session_state \<Rightarrow> nat" where
  "session_message_count sess = ss_count sess"

definition session_message_get :: "session_state \<Rightarrow> nat \<Rightarrow> cjson option" where
  "session_message_get sess idx = (if idx \<ge> ss_count sess then None else Some (ss_messages sess ! idx))"

definition session_messages :: "session_state \<Rightarrow> cjson" where
  "session_messages sess = CArray (ss_messages sess)"

section \<open>Loading\<close>

record load_scan_state =
  ls_sess :: session_state
  ls_line_no :: nat
  ls_staged_line :: nat

definition consume_header :: "load_scan_state \<Rightarrow> cjson \<Rightarrow> error + load_scan_state" where
  "consume_header ls node =
     (case (json_get_cstr node ''type'', json_get_int node ''version'', json_get_cstr node ''id'') of
        (Some t, Some version, Some sid) \<Rightarrow>
          if t = ''session'' \<and> sid \<noteq> [] \<and> length sid \<le> kSessionIdLen
          then if version \<noteq> 1
               then Inl (kErrorTypeValidation, ''session: '' @ ss_path (ls_sess ls) @ '': unsupported version ''
                         @ show_int version)
               else Inr (ls\<lparr>ls_sess := (ls_sess ls)\<lparr>ss_id := sid\<rparr>\<rparr>)
          else Inl (kErrorTypeValidation, ''session: '' @ ss_path (ls_sess ls)
                    @ '': line 1 is not a session header'')
      | _ \<Rightarrow> Inl (kErrorTypeValidation, ''session: '' @ ss_path (ls_sess ls)
                   @ '': line 1 is not a session header''))"

definition consume_line :: "json_parser \<Rightarrow> load_scan_state \<Rightarrow> string \<Rightarrow> error + load_scan_state" where
  "consume_line cparse ls line =
     (let ls = ls\<lparr>ls_line_no := ls_line_no ls + 1\<rparr> in
      if line = [] then Inr ls
      else if ls_staged_line ls \<noteq> 0
      then Inl (kErrorTypeValidation, ''session: '' @ ss_path (ls_sess ls) @ '': corrupt line ''
                @ show_nat (ls_staged_line ls))
      else
        let node = json_parse cparse (Some line) MUA_SESSION_MAX_LINE in
        if ls_line_no ls = 1
        then (case node of
                Inl _ \<Rightarrow> Inl (kErrorTypeValidation, ''session: '' @ ss_path (ls_sess ls)
                              @ '': line 1 is not a session header'')
              | Inr n \<Rightarrow> consume_header ls n)
        else
          let staged = ls\<lparr>ls_staged_line := ls_line_no ls\<rparr> in
          (case node of
             Inr (CObject kvs) \<Rightarrow>
               if json_get_cstr (CObject kvs) ''role'' \<noteq> None
               then if ss_count (ls_sess ls) \<ge> MUA_SESSION_MAX_MESSAGES
                    then Inl (kErrorTypeValidation, ''session: '' @ ss_path (ls_sess ls) @ '': more than ''
                              @ show_nat MUA_SESSION_MAX_MESSAGES @ '' messages'')
                    else Inr (ls\<lparr>ls_sess := (ls_sess ls)\<lparr>ss_messages := ss_messages (ls_sess ls) @ [CObject kvs],
                                                        ss_count := ss_count (ls_sess ls) + 1\<rparr>\<rparr>)
               else if json_get_cstr (CObject kvs) ''type'' \<noteq> None then Inr ls
               else Inr staged
           | _ \<Rightarrow> Inr staged))"

text \<open>The inner loop of \<open>load_scan\<close> over the bytes of one \<open>read\<close>.\<close>

function scan_chunk ::
  "json_parser \<Rightarrow> load_scan_state \<Rightarrow> buf \<Rightarrow> string \<Rightarrow> error + (load_scan_state \<times> buf)" where
  "scan_chunk cparse ls line cursor =
     (if cursor = [] then Inr (ls, line)
      else
        let nl = memchr LF cursor;
            seg = (case nl of Some n \<Rightarrow> n | None \<Rightarrow> length cursor)
        in (case buf_append line (take seg cursor) of
              None \<Rightarrow> Inl (kErrorTypeValidation, ''session: '' @ ss_path (ls_sess ls) @ '': line ''
                           @ show_nat (ls_line_no ls + 1) @ '' exceeds '' @ show_nat MUA_SESSION_MAX_LINE @ '' bytes'')
            | Some line \<Rightarrow>
                (case nl of
                   None \<Rightarrow> Inr (ls, line)
                 | Some n \<Rightarrow>
                     (case consume_line cparse ls (buf_data line) of
                        Inl e \<Rightarrow> Inl e
                      | Inr ls \<Rightarrow> scan_chunk cparse ls (buf_reset line) (drop (n + 1) cursor)))))"
  by auto
termination by (relation "measure (\<lambda>(_, _, _, cursor). length cursor)") auto

declare scan_chunk.simps [simp del]

text \<open>The outcomes of the \<open>read\<close> calls are given in order; no outcome left is end of file.\<close>

fun load_scan ::
  "json_parser \<Rightarrow> read_outcome list \<Rightarrow> nat \<Rightarrow> nat \<Rightarrow> load_scan_state \<Rightarrow> buf \<Rightarrow> error + (load_scan_state \<times> buf)" where
  "load_scan cparse [] remaining eintr ls line = Inr (ls, line)"
| "load_scan cparse (r # rs) remaining eintr ls line =
     (if remaining = 0 then Inr (ls, line)
      else
        let want = (if remaining < kSessionReadChunk then remaining else kSessionReadChunk) in
        case r of
          ReadFailed e \<Rightarrow>
            if e = EINTR \<and> eintr + 1 \<le> kSessionEintrMax then load_scan cparse rs remaining (eintr + 1) ls line
            else Inl (kErrorTypeException, ''session: read '' @ ss_path (ls_sess ls) @ '': '' @ strerror e)
        | Got bytes \<Rightarrow>
            let chunk = take want bytes in
            if chunk = [] then Inr (ls, line)
            else (case scan_chunk cparse ls line chunk of
                    Inl e \<Rightarrow> Inl e
                  | Inr (ls, line) \<Rightarrow> load_scan cparse rs (remaining - length chunk) 0 ls line))"

text \<open>What \<open>open\<close> and \<open>fstat\<close> answer about the file at a path.\<close>

record file_env =
  fe_open :: "errno option"
  fe_stat :: "errno option"
  fe_regular :: bool
  fe_size :: nat
  fe_reads :: "read_outcome list"
  fe_bytes :: string

text \<open>After the scan: what is left in the line buffer is the unterminated tail.\<close>

definition load_tail :: "json_parser \<Rightarrow> error + (load_scan_state \<times> buf) \<Rightarrow> error + session_state" where
  "load_tail cparse scanned =
     (case scanned of
        Inl e \<Rightarrow> Inl e
      | Inr (ls, line) \<Rightarrow>
          if buf_size line > 0
          then (case consume_line cparse
                       (ls\<lparr>ls_sess := (ls_sess ls)\<lparr>ss_needs_heal := True\<rparr>\<rparr>) (buf_data line) of
                  Inl e \<Rightarrow> Inl e
                | Inr ls \<Rightarrow> Inr (ls_sess ls))
          else Inr (ls_sess ls))"

definition session_load :: "json_parser \<Rightarrow> file_env \<Rightarrow> string option \<Rightarrow> error + session_state" where
  "session_load cparse env path =
     (case path of
        None \<Rightarrow> Inl (kErrorTypeValidation, ''session: empty session path'')
      | Some p \<Rightarrow>
          if p = [] then Inl (kErrorTypeValidation, ''session: empty session path'')
          else (case fe_open env of
            Some e \<Rightarrow> Inl (kErrorTypeException, ''session: open '' @ p @ '': '' @ strerror e)
          | None \<Rightarrow>
              (case fe_stat env of
                 Some e \<Rightarrow> Inl (kErrorTypeException, ''session: stat '' @ p @ '': '' @ strerror e)
               | None \<Rightarrow>
                   if \<not> fe_regular env then Inl (kErrorTypeValidation, ''session: '' @ p @ '' is not a regular file'')
                   else if fe_size env = 0
                   then Inl (kErrorTypeValidation, ''session: '' @ p @ '': empty file (missing header)'')
                   else
                     let sess = state_alloc\<lparr>ss_path := p, ss_file := fe_bytes env\<rparr>;
                         ls = \<lparr>ls_sess = sess, ls_line_no = 0, ls_staged_line = 0\<rparr> in
                     load_tail cparse
                       (load_scan cparse (fe_reads env) (fe_size env) 0 ls (buf_init MUA_SESSION_MAX_LINE)))))"

section \<open>Creating and discovering\<close>

definition is_digit :: "char \<Rightarrow> bool" where
  "is_digit c \<longleftrightarrow> CHR ''0'' \<le> c \<and> c \<le> CHR ''9''"

definition all_digits :: "string \<Rightarrow> nat \<Rightarrow> nat \<Rightarrow> bool" where
  "all_digits s a b = list_all is_digit (take (b - a) (drop a s))"

definition session_name_ok :: "string \<Rightarrow> bool" where
  "session_name_ok name \<longleftrightarrow>
     length name = kSessionNameLen \<and> all_digits name 0 8 \<and> name ! 8 = CHR ''T'' \<and> all_digits name 9 15
     \<and> name ! 15 = CHR ''_'' \<and> all_digits name 16 kSessionIdLen \<and> drop kSessionIdLen name = ''.jsonl''"

definition show_nat2 :: "nat \<Rightarrow> string" where
  "show_nat2 n = (if n < 10 then ''0'' else []) @ show_nat n"

text \<open>The outcome of \<open>open(O_CREAT | O_EXCL)\<close> for a name: success or an error.\<close>

fun open_fresh_from ::
  "(string \<Rightarrow> errno option) \<Rightarrow> string \<Rightarrow> string \<Rightarrow> nat \<Rightarrow> nat \<Rightarrow> error + string" where
  "open_fresh_from os dir stamp nn 0 =
     Inl (kErrorTypeException, ''session: all '' @ show_nat kSessionIdAttempts @ '' session ids taken this second'')"
| "open_fresh_from os dir stamp nn (Suc n) =
     (let name = stamp @ ''_'' @ show_nat2 nn @ ''.jsonl'' in
      if length name \<noteq> kSessionNameLen
      then Inl (kErrorTypeException, ''session: bad id stamp '' @ stamp)
      else (case os name of
              None \<Rightarrow> Inr name
            | Some e \<Rightarrow>
                if e \<noteq> EEXIST
                then Inl (kErrorTypeException, ''session: create '' @ dir @ ''/'' @ name @ '': '' @ strerror e)
                else open_fresh_from os dir stamp (nn + 1) n))"

definition open_fresh :: "(string \<Rightarrow> errno option) \<Rightarrow> string \<Rightarrow> string \<Rightarrow> error + string" where
  "open_fresh os dir stamp = open_fresh_from os dir stamp 0 kSessionIdAttempts"

definition sessions_dir :: "os_env \<Rightarrow> error + string" where
  "sessions_dir env =
     (case paths_state_dir env of
        None \<Rightarrow> Inl (kErrorTypeException, ''session: state dir unresolvable (HOME unset?)'')
      | Some state \<Rightarrow>
          let dir = paths_join state ''sessions'' in
          (case paths_ensure_dir env (Some dir) of Some e \<Rightarrow> Inl e | None \<Rightarrow> Inr dir))"

text \<open>The formatted UTC stamp and the clock are given; \<open>None\<close> is a failed conversion.\<close>

definition session_new ::
  "(cjson \<Rightarrow> string) \<Rightarrow> os_env \<Rightarrow> (string \<times> int) option \<Rightarrow>
   (string \<Rightarrow> errno option) \<Rightarrow> write_oracle \<Rightarrow> error + session_state" where
  "session_new cprint env now opens writes =
     (case sessions_dir env of
        Inl e \<Rightarrow> Inl e
      | Inr dir \<Rightarrow>
          (case now of
             None \<Rightarrow> Inl (kErrorTypeException, ''session: cannot format a UTC timestamp'')
           | Some (stamp, created) \<Rightarrow>
               (case open_fresh opens dir stamp of
                  Inl e \<Rightarrow> Inl e
                | Inr name \<Rightarrow>
                    let sess = state_alloc\<lparr>ss_id := take kSessionIdLen name, ss_path := paths_join dir name\<rparr> in
                    (case write_header cprint writes sess created of
                       (Some e, _) \<Rightarrow> Inl e
                     | (None, sess) \<Rightarrow> Inr sess))))"

text \<open>\<open>strcmp(a, b) > 0\<close>, by unsigned bytes.\<close>

fun str_greater :: "string \<Rightarrow> string \<Rightarrow> bool" where
  "str_greater [] _ = False"
| "str_greater (a # as) [] = True"
| "str_greater (a # as) (b # bs) = (if a = b then str_greater as bs else b < a)"

text \<open>The \<open>readdir\<close> loop over the entry names.\<close>

fun scan_names :: "string list \<Rightarrow> nat \<Rightarrow> string \<Rightarrow> string \<times> nat" where
  "scan_names [] n best = (best, 0)"
| "scan_names (name # names) 0 best = (best, 0)"
| "scan_names (name # names) (Suc n) best =
     (case scan_names names n (if session_name_ok name \<and> str_greater name best then name else best) of
        (best, k) \<Rightarrow> (best, k + 1))"

definition session_load_latest ::
  "json_parser \<Rightarrow> os_env \<Rightarrow> errno + (string list \<times> errno option) \<Rightarrow>
   (string \<Rightarrow> file_env) \<Rightarrow> error + session_state" where
  "session_load_latest cparse env entries files =
     (case sessions_dir env of
        Inl e \<Rightarrow> Inl e
      | Inr dir \<Rightarrow>
          (case entries of
             Inl e \<Rightarrow> Inl (kErrorTypeException, ''session: opendir '' @ dir @ '': '' @ strerror e)
           | Inr (names, failed) \<Rightarrow>
               (case scan_names names kSessionScanMax [] of
                  (best, scanned) \<Rightarrow>
                    if scanned < kSessionScanMax \<and> failed \<noteq> None
                    then Inl (kErrorTypeException, ''session: readdir '' @ dir @ '': '' @ strerror (the failed))
                    else if best = [] then Inl (kErrorTypeValidation, ''session: no sessions to resume'')
                    else session_load cparse (files (paths_join dir best)) (Some (paths_join dir best)))))"

end
