(* ===== verification/SessionProps.thy ===== *)
theory SessionProps
  imports Session
begin

text \<open>
  Correctness of the session store: the loader's result does not depend on how \<open>read\<close> cuts
  the file (through \<open>chunked_consumer\<close>), what a run of appends leaves on disk whatever the
  outcomes of its writes, and that loading it gives back every acknowledged message.
\<close>

section \<open>The scan, one byte at a time\<close>

definition line_error :: "load_scan_state \<Rightarrow> error" where
  "line_error ls = (kErrorTypeValidation, ''session: '' @ ss_path (ls_sess ls) @ '': line ''
     @ show_nat (ls_line_no ls + 1) @ '' exceeds '' @ show_nat MUA_SESSION_MAX_LINE @ '' bytes'')"

type_synonym scan_view = "error + (load_scan_state \<times> string)"

definition scan_byte :: "json_parser \<Rightarrow> scan_view \<Rightarrow> char \<Rightarrow> scan_view" where
  "scan_byte cparse v c =
     (case v of
        Inl e \<Rightarrow> Inl e
      | Inr (ls, line) \<Rightarrow>
          if c = LF
          then (case consume_line cparse ls line of Inl e \<Rightarrow> Inl e | Inr ls \<Rightarrow> Inr (ls, []))
          else if MUA_SESSION_MAX_LINE < length line + 1 then Inl (line_error ls)
          else Inr (ls, line @ [c]))"

definition scan_view_of :: "error + (load_scan_state \<times> buf) \<Rightarrow> scan_view" where
  "scan_view_of s = (case s of Inl e \<Rightarrow> Inl e | Inr (ls, line) \<Rightarrow> Inr (ls, buf_data line))"

definition scan_ok :: "error + (load_scan_state \<times> buf) \<Rightarrow> bool" where
  "scan_ok s = (case s of Inl _ \<Rightarrow> True | Inr (ls, line) \<Rightarrow> buf_ok line \<and> buf_max line = MUA_SESSION_MAX_LINE)"

definition scan_feed ::
  "json_parser \<Rightarrow> error + (load_scan_state \<times> buf) \<Rightarrow> string \<Rightarrow> error + (load_scan_state \<times> buf)" where
  "scan_feed cparse s chunk = (case s of Inl e \<Rightarrow> Inl e | Inr (ls, line) \<Rightarrow> scan_chunk cparse ls line chunk)"

lemma foldl_scan_Inl [simp]: "foldl (scan_byte cparse) (Inl e) bs = Inl e"
  by (induction bs) (simp_all add: scan_byte_def)

lemma scan_byte_Inr:
  "scan_byte cparse (Inr (ls, line)) c =
     (if c = LF then (case consume_line cparse ls line of Inl e \<Rightarrow> Inl e | Inr ls \<Rightarrow> Inr (ls, []))
      else if MUA_SESSION_MAX_LINE < length line + 1 then Inl (line_error ls) else Inr (ls, line @ [c]))"
  by (simp add: scan_byte_def)

lemma foldl_scan_segment:
  "LF \<notin> set seg \<Longrightarrow> length line \<le> MUA_SESSION_MAX_LINE \<Longrightarrow>
   foldl (scan_byte cparse) (Inr (ls, line)) seg =
     (if MUA_SESSION_MAX_LINE < length line + length seg then Inl (line_error ls) else Inr (ls, line @ seg))"
proof (induction seg arbitrary: line)
  case (Cons c seg)
  then show ?case by (auto simp: scan_byte_Inr)
qed simp

lemma scan_chunk_view:
  "buf_ok line \<Longrightarrow> buf_max line = MUA_SESSION_MAX_LINE \<Longrightarrow>
   scan_ok (scan_chunk cparse ls line cursor) \<and>
   scan_view_of (scan_chunk cparse ls line cursor) =
     foldl (scan_byte cparse) (Inr (ls, buf_data line)) cursor"
proof (induction cparse ls line cursor rule: scan_chunk.induct)
  case (1 cparse ls line cursor)
  note unf = scan_chunk.simps [of cparse ls line cursor]
  show ?case
  proof (cases "cursor = []")
    case True
    then show ?thesis
      using "1.prems" by (simp add: scan_chunk.simps [of cparse ls line "[]"] scan_ok_def scan_view_of_def)
  next
    case False
    let ?seg = "takeWhile (\<lambda>x. x \<noteq> LF) cursor"
    have no_lf: "LF \<notin> set ?seg" by (auto dest: set_takeWhileD)
    have within: "length (buf_data line) \<le> MUA_SESSION_MAX_LINE" using buf.within [OF "1.prems"(1)] "1.prems"(2) by simp
    note fold = foldl_scan_segment [OF no_lf within, of cparse ls]
    show ?thesis
    proof (cases "memchr LF cursor")
      case None
      then have seg: "?seg = cursor" and lf: "LF \<notin> set cursor" by (auto simp: takeWhile_eq_all_conv)
      show ?thesis
      proof (cases "buf_append line cursor")
        case n: None
        then have "MUA_SESSION_MAX_LINE < length (buf_data line) + length cursor"
          using buf.append_None_iff [OF "1.prems"(1)] "1.prems"(2) by simp
        then show ?thesis
          using fold False n lf by (simp add: unf Let_def seg scan_ok_def scan_view_of_def line_error_def)
      next
        case (Some line')
        from "1.prems"(1) Some obtain "buf_ok line'" "buf_data line' = buf_data line @ cursor"
          "buf_max line' = buf_max line" "length (buf_data line) + length cursor \<le> buf_max line"
          by (rule buf.appendE)
        then show ?thesis
          using fold False lf Some "1.prems"(2) by (simp add: unf Let_def seg scan_ok_def scan_view_of_def)
      qed
    next
      case m: (Some n)
      then have n: "n = length ?seg" "LF \<in> set cursor" by (simp_all add: memchr_Some)
      have split: "cursor = ?seg @ LF # drop (n + 1) cursor"
      proof (cases cursor rule: takeWhile_dropWhile_cases [of "\<lambda>x. x \<noteq> LF"])
        case all
        then show ?thesis using n(2) by auto
      next
        case (stop y ys)
        then have "drop (n + 1) cursor = ys" unfolding n(1) using drop_Suc_length_takeWhile [of "\<lambda>x. x \<noteq> LF" cursor] by simp
        then show ?thesis using stop by simp
      qed
      have take: "take n cursor = ?seg" unfolding n(1) by (rule take_length_takeWhile)
      have all: "foldl (scan_byte cparse) (Inr (ls, buf_data line)) cursor =
          foldl (scan_byte cparse) (scan_byte cparse (foldl (scan_byte cparse) (Inr (ls, buf_data line)) ?seg) LF)
            (drop (n + 1) cursor)"
        by (subst split) (simp only: foldl_append foldl_Cons)
      show ?thesis
      proof (cases "buf_append line ?seg")
        case b: None
        then have "MUA_SESSION_MAX_LINE < length (buf_data line) + length ?seg"
          using buf.append_None_iff [OF "1.prems"(1)] "1.prems"(2) by simp
        then show ?thesis
          unfolding all fold using False b m take
          by (simp add: unf Let_def scan_ok_def scan_view_of_def line_error_def scan_byte_def)
      next
        case b: (Some line')
        from "1.prems"(1) b obtain l: "buf_ok line'" "buf_data line' = buf_data line @ ?seg"
          "buf_max line' = buf_max line" "length (buf_data line) + length ?seg \<le> buf_max line"
          by (rule buf.appendE)
        have fold': "foldl (scan_byte cparse) (Inr (ls, buf_data line)) ?seg = Inr (ls, buf_data line')"
          using fold l "1.prems"(2) by simp
        show ?thesis
        proof (cases "consume_line cparse ls (buf_data line')")
          case (Inl e)
          then show ?thesis
            unfolding all fold' using False b m take by (simp add: unf Let_def scan_ok_def scan_view_of_def scan_byte_def)
        next
          case (Inr ls')
          have step: "scan_chunk cparse ls line cursor = scan_chunk cparse ls' (buf_reset line') (drop (n + 1) cursor)"
            using False b m take Inr by (simp add: unf Let_def)
          have "scan_byte cparse (Inr (ls, buf_data line')) LF = Inr (ls', buf_data (buf_reset line'))"
            using Inr by (simp add: scan_byte_def buf.reset_content)
          then show ?thesis
            unfolding all fold' step
            using "1.IH" [OF False refl refl _ m Inr] b m take buf.reset_ok [OF l(1)] buf.reset_bound [of line'] l(3)
              "1.prems"(2)
            by simp
        qed
      qed
    qed
  qed
qed

interpretation scan: chunked_consumer scan_ok scan_view_of "scan_byte cparse" "scan_feed cparse" for cparse
proof
  fix s bs
  assume ok: "scan_ok s"
  show "scan_ok (scan_feed cparse s bs)" "scan_view_of (scan_feed cparse s bs) = foldl (scan_byte cparse) (scan_view_of s) bs"
    using ok scan_chunk_view
    by (auto simp: scan_feed_def scan_ok_def [of s] scan_view_of_def [of s] scan_ok_def [of "Inl _"]
        scan_view_of_def [of "Inl _"] split: sum.splits)
qed

section \<open>The reads\<close>

text \<open>The bytes the \<open>read\<close> loop obtains; \<open>None\<close> when it gives up on an error.\<close>

fun delivered :: "read_outcome list \<Rightarrow> nat \<Rightarrow> nat \<Rightarrow> string option" where
  "delivered [] remaining eintr = Some []"
| "delivered (r # rs) remaining eintr =
     (if remaining = 0 then Some []
      else (case r of
              ReadFailed e \<Rightarrow>
                if e = EINTR \<and> eintr < kSessionEintrMax then delivered rs remaining (eintr + 1) else None
            | Got bytes \<Rightarrow>
                let chunk = take (min remaining kSessionReadChunk) bytes in
                if chunk = [] then Some []
                else map_option ((@) chunk) (delivered rs (remaining - length chunk) 0)))"

lemma want_min: "(if r < (c :: nat) then r else c) = min r c"
  by (simp add: min_def)

lemma load_scan_view:
  "delivered rs remaining eintr = Some bytes \<Longrightarrow> scan_ok (Inr (ls, line)) \<Longrightarrow>
   scan_view_of (load_scan cparse rs remaining eintr ls line) =
     foldl (scan_byte cparse) (Inr (ls, buf_data line)) bytes"
proof (induction cparse rs remaining eintr ls line arbitrary: bytes rule: load_scan.induct)
  case (1 cparse remaining eintr ls line)
  then show ?case by (simp add: scan_view_of_def)
next
  case (2 cparse r rs remaining eintr ls line)
  show ?case
  proof (cases "remaining = 0")
    case True
    then show ?thesis using 2 by (simp add: scan_view_of_def)
  next
    case False
    show ?thesis
    proof (cases r)
      case (ReadFailed e)
      then have "e = EINTR \<and> eintr + 1 \<le> kSessionEintrMax"
        using "2.prems"(1) False by (auto split: if_splits)
      then show ?thesis using 2 False ReadFailed by (simp add: Let_def)
    next
      case (Got b)
      let ?chunk = "take (min remaining kSessionReadChunk) b"
      show ?thesis
      proof (cases "?chunk = []")
        case True
        then show ?thesis using 2 False Got by (simp add: Let_def want_min scan_view_of_def)
      next
        case c: False
        then have "map_option ((@) ?chunk) (delivered rs (remaining - length ?chunk) 0) = Some bytes"
          using "2.prems"(1) False Got by (simp add: Let_def del: take_eq_Nil length_take)
        then obtain rest where rest: "delivered rs (remaining - length ?chunk) 0 = Some rest" "bytes = ?chunk @ rest"
          by auto
        have view: "scan_ok (scan_chunk cparse ls line ?chunk)"
          "scan_view_of (scan_chunk cparse ls line ?chunk) =
             foldl (scan_byte cparse) (Inr (ls, buf_data line)) ?chunk"
          using scan.feed_ok [OF "2.prems"(2), of cparse ?chunk] scan.feed_view [OF "2.prems"(2), of cparse ?chunk]
          by (simp_all add: scan_feed_def scan_view_of_def [of "Inr (ls, line)"])
        show ?thesis
        proof (cases "scan_chunk cparse ls line ?chunk")
          case (Inl e)
          then have "foldl (scan_byte cparse) (Inr (ls, buf_data line)) ?chunk = Inl e"
            using view by (simp add: scan_view_of_def)
          then show ?thesis
            using False Got c Inl rest by (simp add: Let_def want_min scan_view_of_def)
        next
          case (Inr s)
          obtain ls' line' where s: "s = (ls', line')" by (cases s)
          have v: "foldl (scan_byte cparse) (Inr (ls, buf_data line)) ?chunk = Inr (ls', buf_data line')"
            "scan_ok (Inr (ls', line'))"
            using view Inr s by (simp_all add: scan_view_of_def)
          have "scan_view_of (load_scan cparse rs (remaining - length ?chunk) 0 ls' line') =
              foldl (scan_byte cparse) (Inr (ls', buf_data line')) rest"
            using "2.IH"(1) [OF False refl Got refl] c Inr s rest(1) v(2) by (simp add: want_min)
          then show ?thesis
            using False Got c Inr s rest(2) v(1) by (simp add: Let_def want_min del: take_eq_Nil length_take)
        qed
      qed
    qed
  qed
qed

section \<open>Whole files\<close>

definition consume_all :: "json_parser \<Rightarrow> load_scan_state \<Rightarrow> string list \<Rightarrow> error + load_scan_state" where
  "consume_all cparse ls lines =
     foldl (\<lambda>r line. case r of Inl e \<Rightarrow> Inl e | Inr ls \<Rightarrow> consume_line cparse ls line) (Inr ls) lines"

definition lines_text :: "string list \<Rightarrow> string" where
  "lines_text lines = concat (map (\<lambda>l. l @ [LF]) lines)"

definition line_fits :: "string \<Rightarrow> bool" where
  "line_fits l \<longleftrightarrow> LF \<notin> set l \<and> length l \<le> MUA_SESSION_MAX_LINE"

lemma consume_all_Nil [simp]: "consume_all cparse ls [] = Inr ls"
  by (simp add: consume_all_def)

lemma consume_all_Cons:
  "consume_line cparse ls l = Inr ls' \<Longrightarrow> consume_all cparse ls (l # lines) = consume_all cparse ls' lines"
  by (simp add: consume_all_def)

lemma foldl_scan_lines:
  "list_all line_fits lines \<Longrightarrow> consume_all cparse ls lines = Inr ls' \<Longrightarrow>
   foldl (scan_byte cparse) (Inr (ls, [])) (lines_text lines) = Inr (ls', [])"
proof (induction lines arbitrary: ls)
  case Nil
  then show ?case by (simp add: lines_text_def)
next
  case (Cons l lines)
  obtain ls1 where l: "consume_line cparse ls l = Inr ls1"
  proof (cases "consume_line cparse ls l")
    case (Inl e)
    have "foldl (\<lambda>r line. case r of Inl e \<Rightarrow> Inl e | Inr ls \<Rightarrow> consume_line cparse ls line) (Inl e) lines = Inl e"
      by (induction lines) simp_all
    then show thesis using Cons.prems(2) Inl by (simp add: consume_all_def)
  qed
  have "foldl (scan_byte cparse) (Inr (ls, [])) l = Inr (ls, l)"
    using Cons.prems(1) foldl_scan_segment [of l "[]" cparse ls] by (simp add: line_fits_def)
  then have "foldl (scan_byte cparse) (Inr (ls, [])) (l @ [LF]) = Inr (ls1, [])"
    using l by (simp add: scan_byte_Inr)
  then show ?case
    using Cons.IH [of ls1] Cons.prems l by (simp add: lines_text_def consume_all_Cons)
qed

text \<open>What the theorems need of the printer and parser on a value: the printed text is a
  non-empty line that parses back to the value, and none of its strict prefixes parses.\<close>

definition text_ok :: "json_parser \<Rightarrow> (cjson \<Rightarrow> string) \<Rightarrow> cjson \<Rightarrow> bool" where
  "text_ok cparse cprint v \<longleftrightarrow>
     cprint v \<noteq> [] \<and> NUL \<notin> set (cprint v) \<and> LF \<notin> set (cprint v)
     \<and> cparse (cprint v) = Inr (v, length (cprint v))
     \<and> (\<forall>n < length (cprint v). case cparse (take n (cprint v)) of Inl _ \<Rightarrow> True | Inr _ \<Rightarrow> False)"

definition is_message :: "cjson \<Rightarrow> bool" where
  "is_message m = (case m of CObject _ \<Rightarrow> json_get_cstr m ''role'' \<noteq> None | _ \<Rightarrow> False)"

definition adopt :: "load_scan_state \<Rightarrow> cjson list \<Rightarrow> load_scan_state" where
  "adopt ls msgs = ls\<lparr>ls_line_no := ls_line_no ls + length msgs,
     ls_sess := (ls_sess ls)\<lparr>ss_messages := ss_messages (ls_sess ls) @ msgs, ss_count := ss_count (ls_sess ls) + length msgs\<rparr>\<rparr>"

lemma json_parse_printed:
  "text_ok cparse cprint v \<Longrightarrow> length (cprint v) \<le> lim \<Longrightarrow> json_parse cparse (Some (cprint v)) lim = Inr v"
  by (simp add: text_ok_def json_parse_def)

lemma consume_message:
  assumes "text_ok cparse cprint m" "is_message m" "length (cprint m) \<le> MUA_SESSION_MAX_LINE"
    "0 < ls_line_no ls" "ls_staged_line ls = 0" "ss_count (ls_sess ls) < MUA_SESSION_MAX_MESSAGES"
  shows "consume_line cparse ls (cprint m) = Inr (adopt ls [m])"
proof -
  obtain kvs where m: "m = CObject kvs" "json_get_cstr (CObject kvs) ''role'' \<noteq> None"
    using assms(2) by (cases m) (auto simp: is_message_def)
  have "cprint m \<noteq> []" using assms(1) by (simp add: text_ok_def)
  then show ?thesis
    using json_parse_printed [OF assms(1,3)] assms(4-6) m
    by (simp add: consume_line_def Let_def adopt_def)
qed

lemma consume_messages:
  "(\<forall>m \<in> set msgs. text_ok cparse cprint m \<and> is_message m \<and> length (cprint m) \<le> MUA_SESSION_MAX_LINE) \<Longrightarrow>
   0 < ls_line_no ls \<Longrightarrow> ls_staged_line ls = 0 \<Longrightarrow>
   ss_count (ls_sess ls) + length msgs \<le> MUA_SESSION_MAX_MESSAGES \<Longrightarrow>
   consume_all cparse ls (map cprint msgs) = Inr (adopt ls msgs)"
proof (induction msgs arbitrary: ls)
  case Nil
  then show ?case by (simp add: adopt_def)
next
  case (Cons m msgs)
  have m: "consume_line cparse ls (cprint m) = Inr (adopt ls [m])"
    using Cons.prems by (intro consume_message) simp_all
  have "consume_all cparse (adopt ls [m]) (map cprint msgs) = Inr (adopt (adopt ls [m]) msgs)"
    using Cons.prems by (intro Cons.IH) (simp_all add: adopt_def)
  then show ?case using m by (simp add: consume_all_Cons adopt_def)
qed

section \<open>What a run of appends leaves\<close>

fun session_run :: "(cjson \<Rightarrow> string) \<Rightarrow> session_state \<Rightarrow> (write_oracle \<times> cjson) list \<Rightarrow> session_state" where
  "session_run cprint s [] = s"
| "session_run cprint s ((os, m) # ops) = session_run cprint (snd (session_append cprint os s (Some m))) ops"

text \<open>The file is the header and the messages in memory, one line each, followed by nothing,
  or, once a write failed, by a part of the line that was being written.\<close>

definition store_inv ::
  "(cjson \<Rightarrow> string) \<Rightarrow> (cjson \<Rightarrow> bool) \<Rightarrow> string \<Rightarrow> session_state \<Rightarrow> bool" where
  "store_inv cprint Q hdr s \<longleftrightarrow>
     ss_count s = length (ss_messages s) \<and> ss_count s \<le> MUA_SESSION_MAX_MESSAGES \<and> \<not> ss_needs_heal s
     \<and> (\<forall>m \<in> set (ss_messages s). is_message m \<and> length (cprint m) \<le> MUA_SESSION_MAX_LINE \<and> Q m)
     \<and> (if ss_poisoned s
        then \<exists>m n. is_message m \<and> length (cprint m) \<le> MUA_SESSION_MAX_LINE \<and> Q m
               \<and> ss_count s < MUA_SESSION_MAX_MESSAGES
               \<and> ss_file s = lines_text (hdr # map cprint (ss_messages s)) @ take n (cprint m @ [LF])
        else ss_file s = lines_text (hdr # map cprint (ss_messages s)))"

lemma write_line_cases:
  assumes "\<not> ss_needs_heal s" "write_line os s line = (r, s')"
  obtains (written) "r = None" "s' = s\<lparr>ss_file := ss_file s @ line @ [LF]\<rparr>"
  | (failed) e n where "r = Some e" "s' = s\<lparr>ss_file := ss_file s @ take n (line @ [LF]), ss_poisoned := True\<rparr>"
proof (cases "write_tries os (length line + 1) 0 kSessionEintrMax (WriteFailed EINTR)")
  case (Wrote n)
  show ?thesis
  proof (cases "n = length line + 1")
    case True
    have same: "s\<lparr>ss_file := f, ss_needs_heal := False\<rparr> = s\<lparr>ss_file := f\<rparr>" for f
      using assms(1) by (cases s) simp
    then show ?thesis
      using True assms Wrote written by (simp add: write_line_def Let_def same)
  next
    case False
    then show ?thesis
      using assms Wrote failed [of _ n] by (auto simp: write_line_def Let_def)
  qed
next
  case (WriteFailed e)
  have "s\<lparr>ss_poisoned := True\<rparr> = s\<lparr>ss_file := ss_file s @ take 0 (line @ [LF]), ss_poisoned := True\<rparr>" by simp
  then show ?thesis
    using assms WriteFailed failed [of _ 0] by (auto simp: write_line_def Let_def)
qed

lemma json_print_text: "NUL \<notin> set (cprint m) \<Longrightarrow> str_bytes (json_print cprint m) = cprint m"
  by (simp add: json_print_def)

lemma session_append_cases:
  assumes "\<not> ss_needs_heal s" "NUL \<notin> set (cprint m)" "session_append cprint os s (Some m) = (r, s')"
  obtains (refused) e where "r = Some e" "s' = s"
  | (appended) "r = None" "is_message m" "length (cprint m) \<le> MUA_SESSION_MAX_LINE" "\<not> ss_poisoned s"
      "ss_count s < MUA_SESSION_MAX_MESSAGES"
      "s' = s\<lparr>ss_file := ss_file s @ cprint m @ [LF], ss_messages := ss_messages s @ [m], ss_count := ss_count s + 1\<rparr>"
  | (failed) e n where "r = Some e" "is_message m" "length (cprint m) \<le> MUA_SESSION_MAX_LINE" "\<not> ss_poisoned s"
      "ss_count s < MUA_SESSION_MAX_MESSAGES"
      "s' = s\<lparr>ss_file := ss_file s @ take n (cprint m @ [LF]), ss_poisoned := True\<rparr>"
proof (cases "is_message m \<and> \<not> ss_poisoned s \<and> ss_count s < MUA_SESSION_MAX_MESSAGES
      \<and> length (cprint m) \<le> MUA_SESSION_MAX_LINE")
  case False
  then have "\<exists>e. session_append cprint os s (Some m) = (Some e, s)"
    using assms(2)
    by (auto simp: session_append_def is_message_def json_print_text Let_def not_le not_less split: cjson.splits if_splits)
  then show ?thesis using assms(3) refused by auto
next
  case True
  then have a: "session_append cprint os s (Some m) =
      (case write_line os s (cprint m) of
         (Some e, sess) \<Rightarrow> (Some e, sess)
       | (None, sess) \<Rightarrow> (None, sess\<lparr>ss_messages := ss_messages sess @ [m], ss_count := ss_count sess + 1\<rparr>))"
    using assms(2)
    by (cases m) (auto simp: session_append_def is_message_def json_print_text Let_def not_le
        split: prod.splits option.splits)
  obtain r1 s1 where w: "write_line os s (cprint m) = (r1, s1)" by (cases "write_line os s (cprint m)")
  show ?thesis
  proof (rule write_line_cases [OF assms(1) w])
    assume "r1 = None" "s1 = s\<lparr>ss_file := ss_file s @ cprint m @ [LF]\<rparr>"
    then show ?thesis using True a w assms(3) by (intro appended) auto
  next
    fix e n
    assume "r1 = Some e" "s1 = s\<lparr>ss_file := ss_file s @ take n (cprint m @ [LF]), ss_poisoned := True\<rparr>"
    then show ?thesis using True a w assms(3) by (intro failed) auto
  qed
qed

lemma store_inv_append:
  assumes "store_inv cprint Q hdr s" "Q m" "NUL \<notin> set (cprint m)"
  shows "store_inv cprint Q hdr (snd (session_append cprint os s (Some m)))"
proof -
  obtain r s' where r: "session_append cprint os s (Some m) = (r, s')" by (cases "session_append cprint os s (Some m)")
  have heal: "\<not> ss_needs_heal s" using assms(1) by (simp add: store_inv_def)
  show ?thesis
  proof (rule session_append_cases [OF heal assms(3) r])
    fix e assume "s' = s"
    then show ?thesis using assms(1) r by simp
  next
    assume "is_message m" "length (cprint m) \<le> MUA_SESSION_MAX_LINE" "\<not> ss_poisoned s"
      "ss_count s < MUA_SESSION_MAX_MESSAGES"
      "s' = s\<lparr>ss_file := ss_file s @ cprint m @ [LF], ss_messages := ss_messages s @ [m], ss_count := ss_count s + 1\<rparr>"
    then show ?thesis using assms r by (simp add: store_inv_def lines_text_def)
  next
    fix e n
    assume "is_message m" "length (cprint m) \<le> MUA_SESSION_MAX_LINE" "\<not> ss_poisoned s"
      "ss_count s < MUA_SESSION_MAX_MESSAGES"
      "s' = s\<lparr>ss_file := ss_file s @ take n (cprint m @ [LF]), ss_poisoned := True\<rparr>"
    then show ?thesis using assms r by (auto simp: store_inv_def)
  qed
qed

lemma store_inv_run:
  "store_inv cprint Q hdr s \<Longrightarrow> (\<forall>(os, m) \<in> set ops. Q m \<and> NUL \<notin> set (cprint m)) \<Longrightarrow>
   store_inv cprint Q hdr (session_run cprint s ops)"
  by (induction cprint s ops rule: session_run.induct) (simp_all add: store_inv_append)

text \<open>A poisoned session refuses every append and leaves the file alone.\<close>

lemma session_append_poisoned:
  "ss_poisoned s \<Longrightarrow> \<exists>e. session_append cprint os s m = (Some e, s)"
  by (simp add: session_append_def split: option.split)

section \<open>Loading what a run left\<close>

lemma version_one: "dbl_to_int64 (dbl_of_int 1) = 1"
  using dbl_to_int64_exact [OF dbl_of_int_exact [of 1]] by (simp add: EXACT_INT_MAX_def)

lemma json_get_header:
  "json_get_cstr (session_header sid c) ''type'' = Some ''session''"
  "json_get_int (session_header sid c) ''version'' = Some 1"
  "json_get_cstr (session_header sid c) ''id'' = Some (cstr sid)"
  by (simp_all add: session_header_def json_get_cstr_def json_get_int_def json_add_cstr_def json_add_int_def
      json_new_obj_def version_one cstr_def)

lemma consume_header_line:
  assumes "text_ok cparse cprint (session_header sid created)" "NUL \<notin> set sid" "sid \<noteq> []"
    "length sid \<le> kSessionIdLen" "length (cprint (session_header sid created)) \<le> MUA_SESSION_MAX_LINE"
    "ls_line_no ls = 0" "ls_staged_line ls = 0"
  shows "consume_line cparse ls (cprint (session_header sid created))
    = Inr (ls\<lparr>ls_line_no := 1, ls_sess := (ls_sess ls)\<lparr>ss_id := sid\<rparr>\<rparr>)"
proof -
  have "cprint (session_header sid created) \<noteq> []" using assms(1) by (simp add: text_ok_def)
  then show ?thesis
    using json_parse_printed [OF assms(1,5)] assms(2-4,6,7)
    by (simp add: consume_line_def consume_header_def json_get_header Let_def)
qed

lemma consume_torn:
  assumes "text_ok cparse cprint m" "n < length (cprint m)" "0 < n" "0 < ls_line_no ls" "ls_staged_line ls = 0"
    "length (cprint m) \<le> MUA_SESSION_MAX_LINE"
  shows "\<exists>k. consume_line cparse ls (take n (cprint m)) = Inr (ls\<lparr>ls_line_no := k, ls_staged_line := k\<rparr>)"
proof -
  have "\<exists>e. json_parse cparse (Some (take n (cprint m))) MUA_SESSION_MAX_LINE = Inl e"
  proof -
    have "case cparse (take n (cprint m)) of Inl _ \<Rightarrow> True | Inr _ \<Rightarrow> False"
      using assms(1,2) by (simp add: text_ok_def)
    then obtain k where "cparse (take n (cprint m)) = Inl k" by (cases "cparse (take n (cprint m))") auto
    then show ?thesis using assms(6) by (simp add: json_parse_def)
  qed
  moreover have "take n (cprint m) \<noteq> []" using assms(2,3) by auto
  ultimately show ?thesis using assms(4,5) by (auto simp: consume_line_def Let_def)
qed

definition file_of :: "read_outcome list \<Rightarrow> string \<Rightarrow> file_env" where
  "file_of rs bytes = \<lparr>fe_open = None, fe_stat = None, fe_regular = True, fe_size = length bytes,
                       fe_reads = rs, fe_bytes = bytes\<rparr>"

definition loaded :: "string \<Rightarrow> string \<Rightarrow> string \<Rightarrow> bool \<Rightarrow> cjson list \<Rightarrow> session_state" where
  "loaded path bytes sid heal msgs =
     state_alloc\<lparr>ss_path := path, ss_file := bytes, ss_id := sid, ss_needs_heal := heal, ss_messages := msgs,
                 ss_count := length msgs\<rparr>"

lemma session_load_scan:
  assumes "path \<noteq> []" "bytes \<noteq> []" "delivered rs (length bytes) 0 = Some bytes"
    "foldl (scan_byte cparse)
       (Inr (\<lparr>ls_sess = state_alloc\<lparr>ss_path := path, ss_file := bytes\<rparr>, ls_line_no = 0, ls_staged_line = 0\<rparr>, []))
       bytes = Inr (ls, tail_bytes)"
  shows "session_load cparse (file_of rs bytes) (Some path) =
    (if tail_bytes = [] then Inr (ls_sess ls)
     else case consume_line cparse (ls\<lparr>ls_sess := (ls_sess ls)\<lparr>ss_needs_heal := True\<rparr>\<rparr>) tail_bytes of
            Inl e \<Rightarrow> Inl e | Inr ls \<Rightarrow> Inr (ls_sess ls))"
proof -
  let ?ls = "\<lparr>ls_sess = state_alloc\<lparr>ss_path := path, ss_file := bytes\<rparr>, ls_line_no = 0, ls_staged_line = 0\<rparr>"
  let ?r = "load_scan cparse rs (length bytes) 0 ?ls (buf_init MUA_SESSION_MAX_LINE)"
  have "scan_ok (Inr (?ls, buf_init MUA_SESSION_MAX_LINE))"
    using buf_init_ok [of MUA_SESSION_MAX_LINE] by (simp add: scan_ok_def MUA_SESSION_MAX_LINE_def buf_init_def)
  from load_scan_view [OF assms(3) this, of cparse] assms(4)
  have "scan_view_of ?r = Inr (ls, tail_bytes)" by (simp add: buf_init_def)
  then obtain line where r: "?r = Inr (ls, line)" "buf_data line = tail_bytes"
    by (auto simp: scan_view_of_def split: sum.splits prod.splits)
  show ?thesis
    using assms(1,2) r by (simp add: session_load_def load_tail_def file_of_def Let_def buf_size_def)
qed

lemma scan_whole_lines:
  assumes "text_ok cparse cprint (session_header sid created)" "NUL \<notin> set sid" "sid \<noteq> []"
    "length sid \<le> kSessionIdLen" "length (cprint (session_header sid created)) \<le> MUA_SESSION_MAX_LINE"
    "\<forall>m \<in> set msgs. text_ok cparse cprint m \<and> is_message m \<and> length (cprint m) \<le> MUA_SESSION_MAX_LINE"
    "length msgs \<le> MUA_SESSION_MAX_MESSAGES"
  shows "foldl (scan_byte cparse)
       (Inr (\<lparr>ls_sess = state_alloc\<lparr>ss_path := path, ss_file := bytes\<rparr>, ls_line_no = 0, ls_staged_line = 0\<rparr>, []))
       (lines_text (cprint (session_header sid created) # map cprint msgs))
     = Inr (\<lparr>ls_sess = loaded path bytes sid False msgs, ls_line_no = Suc (length msgs), ls_staged_line = 0\<rparr>, [])"
proof (rule foldl_scan_lines)
  show "list_all line_fits (cprint (session_header sid created) # map cprint msgs)"
    using assms(1,5,6) by (auto simp: line_fits_def text_ok_def list_all_iff)
  let ?ls = "\<lparr>ls_sess = state_alloc\<lparr>ss_path := path, ss_file := bytes\<rparr>, ls_line_no = 0, ls_staged_line = 0\<rparr>"
  let ?ls1 = "?ls\<lparr>ls_line_no := 1, ls_sess := (ls_sess ?ls)\<lparr>ss_id := sid\<rparr>\<rparr>"
  have "consume_line cparse ?ls (cprint (session_header sid created)) = Inr ?ls1"
    by (rule consume_header_line [OF assms(1-5)]) simp_all
  moreover have "consume_all cparse ?ls1 (map cprint msgs) = Inr (adopt ?ls1 msgs)"
    using assms(6,7) by (intro consume_messages) (simp_all add: state_alloc_def)
  moreover have "adopt ?ls1 msgs =
      \<lparr>ls_sess = loaded path bytes sid False msgs, ls_line_no = Suc (length msgs), ls_staged_line = 0\<rparr>"
    by (simp add: adopt_def loaded_def state_alloc_def)
  ultimately show "consume_all cparse ?ls (cprint (session_header sid created) # map cprint msgs) =
      Inr \<lparr>ls_sess = loaded path bytes sid False msgs, ls_line_no = Suc (length msgs), ls_staged_line = 0\<rparr>"
    by (simp add: consume_all_Cons)
qed

definition run_ok :: "json_parser \<Rightarrow> (cjson \<Rightarrow> string) \<Rightarrow> cjson \<Rightarrow> string \<Rightarrow> (write_oracle \<times> cjson) list \<Rightarrow> bool" where
  "run_ok cparse cprint hdr sid ops \<longleftrightarrow>
     text_ok cparse cprint hdr \<and> length (cprint hdr) \<le> MUA_SESSION_MAX_LINE
     \<and> NUL \<notin> set sid \<and> sid \<noteq> [] \<and> length sid \<le> kSessionIdLen
     \<and> (\<forall>(os, m) \<in> set ops. text_ok cparse cprint m)"

lemma reload_poisoned:
  assumes scan: "\<And>bytes. foldl (scan_byte cparse)
       (Inr (\<lparr>ls_sess = state_alloc\<lparr>ss_path := path, ss_file := bytes\<rparr>, ls_line_no = 0, ls_staged_line = 0\<rparr>, []))
       (lines_text (hl # map cprint msgs))
     = Inr (\<lparr>ls_sess = loaded path bytes sid False msgs, ls_line_no = Suc (length msgs), ls_staged_line = 0\<rparr>, [])"
    and m: "text_ok cparse cprint m" "is_message m" "length (cprint m) \<le> MUA_SESSION_MAX_LINE"
    and count: "length msgs < MUA_SESSION_MAX_MESSAGES"
    and bytes: "bytes = lines_text (hl # map cprint msgs) @ take n (cprint m @ [LF])" "path \<noteq> []"
    and reads: "delivered rs (length bytes) 0 = Some bytes"
  shows "\<exists>heal xs. session_load cparse (file_of rs bytes) (Some path) = Inr (loaded path bytes sid heal (msgs @ xs))
    \<and> (xs = [] \<or> xs = [m])"
proof -
  let ?ls = "\<lparr>ls_sess = loaded path bytes sid False msgs, ls_line_no = Suc (length msgs), ls_staged_line = 0\<rparr>"
  have "bytes \<noteq> []" using bytes(1) by (simp add: lines_text_def)
  note load = session_load_scan [OF bytes(2) this reads, of cparse]
  have lf: "LF \<notin> set (cprint m)" using m(1) by (simp add: text_ok_def)
  have seg: "foldl (scan_byte cparse) (Inr (?ls, [])) (take k (cprint m)) = Inr (?ls, take k (cprint m))" for k
    using foldl_scan_segment [of "take k (cprint m)" "[]" cparse ?ls] lf m(3) by (auto dest: in_set_takeD)
  have ad: "consume_line cparse (?ls\<lparr>ls_sess := (ls_sess ?ls)\<lparr>ss_needs_heal := h\<rparr>\<rparr>) (cprint m) =
      Inr (adopt (?ls\<lparr>ls_sess := (ls_sess ?ls)\<lparr>ss_needs_heal := h\<rparr>\<rparr>) [m])" for h
    using m count by (intro consume_message) (simp_all add: loaded_def)
  have heal_same: "?ls\<lparr>ls_sess := (ls_sess ?ls)\<lparr>ss_needs_heal := False\<rparr>\<rparr> = ?ls" by (simp add: loaded_def)
  have sess: "ls_sess (adopt (?ls\<lparr>ls_sess := (ls_sess ?ls)\<lparr>ss_needs_heal := h\<rparr>\<rparr>) [m]) = loaded path bytes sid h (msgs @ [m])" for h
    by (simp add: adopt_def loaded_def)
  consider (none) "n = 0" | (torn) "0 < n" "n < length (cprint m)" | (full) "n = length (cprint m)" "0 < n"
    | (line) "length (cprint m) < n" by linarith
  then show ?thesis
  proof cases
    case none
    then have "foldl (scan_byte cparse)
       (Inr (\<lparr>ls_sess = state_alloc\<lparr>ss_path := path, ss_file := bytes\<rparr>, ls_line_no = 0, ls_staged_line = 0\<rparr>, []))
       bytes = Inr (?ls, [])" using scan [of bytes] bytes(1) by simp
    from load [OF this] have "session_load cparse (file_of rs bytes) (Some path) = Inr (loaded path bytes sid False (msgs @ []))"
      by simp
    then show ?thesis by blast
  next
    case torn
    then have "foldl (scan_byte cparse)
       (Inr (\<lparr>ls_sess = state_alloc\<lparr>ss_path := path, ss_file := bytes\<rparr>, ls_line_no = 0, ls_staged_line = 0\<rparr>, []))
       bytes = Inr (?ls, take n (cprint m))" using scan [of bytes] bytes(1) seg by simp
    note l = load [OF this]
    obtain k where "consume_line cparse (?ls\<lparr>ls_sess := (ls_sess ?ls)\<lparr>ss_needs_heal := True\<rparr>\<rparr>) (take n (cprint m))
        = Inr (?ls\<lparr>ls_sess := (ls_sess ?ls)\<lparr>ss_needs_heal := True\<rparr>, ls_line_no := k, ls_staged_line := k\<rparr>)"
      using consume_torn [OF m(1) torn(2,1), of "?ls\<lparr>ls_sess := (ls_sess ?ls)\<lparr>ss_needs_heal := True\<rparr>\<rparr>"] m(3) by auto
    moreover have "take n (cprint m) \<noteq> []" using torn by auto
    ultimately have "session_load cparse (file_of rs bytes) (Some path) = Inr (loaded path bytes sid True (msgs @ []))"
      using l by (simp add: loaded_def)
    then show ?thesis by blast
  next
    case full
    then have "foldl (scan_byte cparse)
       (Inr (\<lparr>ls_sess = state_alloc\<lparr>ss_path := path, ss_file := bytes\<rparr>, ls_line_no = 0, ls_staged_line = 0\<rparr>, []))
       bytes = Inr (?ls, cprint m)" using scan [of bytes] bytes(1) seg [of n] by simp
    from load [OF this] full ad [of True] sess [of True]
    have "session_load cparse (file_of rs bytes) (Some path) = Inr (loaded path bytes sid True (msgs @ [m]))"
      by auto
    then show ?thesis by blast
  next
    case line
    have "scan_byte cparse (Inr (?ls, cprint m)) LF = Inr (adopt ?ls [m], [])"
      using ad [of False] heal_same by (simp only: scan_byte_Inr) simp
    then have "foldl (scan_byte cparse)
       (Inr (\<lparr>ls_sess = state_alloc\<lparr>ss_path := path, ss_file := bytes\<rparr>, ls_line_no = 0, ls_staged_line = 0\<rparr>, []))
       bytes = Inr (adopt ?ls [m], [])" using scan [of bytes] bytes(1) seg [of "length (cprint m)"] line by simp
    from load [OF this] sess [of False]
    have "session_load cparse (file_of rs bytes) (Some path) = Inr (loaded path bytes sid False (msgs @ [m]))"
      by (simp add: loaded_def adopt_def)
    then show ?thesis by blast
  qed
qed

lemma reload_run:
  assumes inv: "store_inv cprint (text_ok cparse cprint) (cprint hdr) s"
    and hdr: "hdr = session_header sid created" "run_ok cparse cprint hdr sid []"
    and reads: "delivered rs (length (ss_file s)) 0 = Some (ss_file s)" and path: "path \<noteq> []"
  shows "\<exists>heal xs. session_load cparse (file_of rs (ss_file s)) (Some path)
      = Inr (loaded path (ss_file s) sid heal (ss_messages s @ xs))
    \<and> length xs \<le> 1 \<and> (ss_poisoned s \<or> (xs = [] \<and> \<not> heal))"
proof -
  let ?msgs = "ss_messages s"
  have msgs: "\<forall>m \<in> set ?msgs. text_ok cparse cprint m \<and> is_message m \<and> length (cprint m) \<le> MUA_SESSION_MAX_LINE"
    "length ?msgs \<le> MUA_SESSION_MAX_MESSAGES" using inv by (simp_all add: store_inv_def)
  have scan: "foldl (scan_byte cparse)
       (Inr (\<lparr>ls_sess = state_alloc\<lparr>ss_path := path, ss_file := bytes\<rparr>, ls_line_no = 0, ls_staged_line = 0\<rparr>, []))
       (lines_text (cprint hdr # map cprint ?msgs))
     = Inr (\<lparr>ls_sess = loaded path bytes sid False ?msgs, ls_line_no = Suc (length ?msgs), ls_staged_line = 0\<rparr>, [])" for bytes
    unfolding hdr(1) using hdr msgs by (intro scan_whole_lines) (simp_all add: run_ok_def)
  show ?thesis
  proof (cases "ss_poisoned s")
    case True
    then obtain m n where m: "is_message m" "length (cprint m) \<le> MUA_SESSION_MAX_LINE" "text_ok cparse cprint m"
      "length ?msgs < MUA_SESSION_MAX_MESSAGES"
      "ss_file s = lines_text (cprint hdr # map cprint ?msgs) @ take n (cprint m @ [LF])"
      using inv by (auto simp: store_inv_def)
    show ?thesis
      using reload_poisoned [OF scan m(3,1,2,4,5) path reads] True by fastforce
  next
    case False
    then have f: "ss_file s = lines_text (cprint hdr # map cprint ?msgs)" using inv by (simp add: store_inv_def)
    then have "ss_file s \<noteq> []" by (simp add: lines_text_def)
    from session_load_scan [OF path this reads, of cparse, OF scan [of "ss_file s", folded f]]
    have "session_load cparse (file_of rs (ss_file s)) (Some path) = Inr (loaded path (ss_file s) sid False (?msgs @ []))"
      by simp
    then show ?thesis by fastforce
  qed
qed

lemma load_tail_view: "scan_view_of r1 = scan_view_of r2 \<Longrightarrow> load_tail cparse r1 = load_tail cparse r2"
  by (auto simp: load_tail_def scan_view_of_def buf_size_def split: sum.splits)

section \<open>Discovery\<close>

lemma str_greater_trans: "str_greater a b \<Longrightarrow> str_greater b c \<Longrightarrow> str_greater a c"
  by (induction a b arbitrary: c rule: str_greater.induct; case_tac c) (auto split: if_splits)

lemma str_greater_total: "a \<noteq> b \<Longrightarrow> str_greater a b \<or> str_greater b a"
proof (induction a b rule: str_greater.induct)
  case (1 b)
  then show ?case by (cases b) simp_all
next
  case (3 a as b bs)
  then show ?case by (auto simp: not_less_iff_gr_or_eq)
qed simp

lemma str_greater_Nil [simp]: "str_greater [] b = False" "str_greater a [] \<longleftrightarrow> a \<noteq> []"
  by (cases a; simp)+

definition latest_of :: "string list \<Rightarrow> string \<Rightarrow> string \<Rightarrow> bool" where
  "latest_of names best0 best \<longleftrightarrow>
     (best = best0 \<or> (best \<in> set names \<and> session_name_ok best \<and> str_greater best best0))
     \<and> (\<forall>n \<in> set names. session_name_ok n \<longrightarrow> n = best \<or> str_greater best n)"

lemma scan_names_latest:
  "scan_names names n best0 = (best, k) \<Longrightarrow> length names \<le> n \<Longrightarrow> k = length names \<and> latest_of names best0 best"
proof (induction names n best0 arbitrary: k rule: scan_names.induct)
  case (3 name names n best0)
  let ?b = "if session_name_ok name \<and> str_greater name best0 then name else best0"
  obtain j where j: "scan_names names n ?b = (best, j)" "k = Suc j"
    using "3.prems"(1) by (auto split: prod.splits)
  then have *: "j = length names" "latest_of names ?b best" using "3.IH" "3.prems"(2) by auto
  have tr: "str_greater best x" if "str_greater ?b x" for x
    using *(2) that str_greater_trans by (auto simp: latest_of_def)
  have "session_name_ok name \<Longrightarrow> name = best \<or> str_greater best name"
    using *(2) tr str_greater_total [of name best0] by (auto simp: latest_of_def split: if_splits)
  then show ?case using * j(2) str_greater_trans
    by (auto simp: latest_of_def split: if_splits)
qed (auto simp: latest_of_def)

section \<open>Properties\<close>

text \<open>Acknowledged messages survive: after \<open>session_new\<close> and any run of
  \<open>session_append\<close> calls, whatever their writes did (interrupted, short, failed), loading the
  file that is left, however \<open>read\<close> delivers it, succeeds and yields the session's id and
  every message the appends acknowledged, in order, plus at most the one whose write was cut
  after its last byte of text; without a failed write it yields exactly them, nothing to heal.\<close>

theorem session_reload_keeps_acknowledged:
  assumes "session_new cprint env (Some (stamp, created)) opens writes = Inr s0"
    and "run_ok cparse cprint (session_header (ss_id s0) created) (ss_id s0) ops"
    and "session_run cprint s0 ops = s"
    and "delivered rs (length (ss_file s)) 0 = Some (ss_file s)" "path \<noteq> []"
  shows "\<exists>s' xs. session_load cparse (file_of rs (ss_file s)) (Some path) = Inr s'
    \<and> ss_id s' = ss_id s0 \<and> ss_messages s' = ss_messages s @ xs \<and> length xs \<le> 1
    \<and> (ss_poisoned s \<or> (xs = [] \<and> \<not> ss_needs_heal s'))"
proof -
  let ?hdr = "session_header (ss_id s0) created"
  obtain i p where wh: "write_header cprint writes (state_alloc\<lparr>ss_id := i, ss_path := p\<rparr>) created = (None, s0)"
    using assms(1) by (auto simp: session_new_def Let_def split: sum.splits option.splits prod.splits)
  let ?sess = "state_alloc\<lparr>ss_id := i, ss_path := p\<rparr>"
  have heal: "\<not> ss_needs_heal ?sess" by (simp add: state_alloc_def)
  have s0: "s0 = ?sess\<lparr>ss_file := ss_file ?sess @ str_bytes (json_print cprint (session_header i created)) @ [LF]\<rparr>"
    by (rule write_line_cases [OF heal, of writes "str_bytes (json_print cprint (session_header i created))" None s0])
      (use wh in \<open>simp_all add: write_header_def\<close>)
  then have i: "i = ss_id s0" by simp
  have nul: "NUL \<notin> set (cprint ?hdr)" using assms(2) by (simp add: run_ok_def text_ok_def)
  have "store_inv cprint (text_ok cparse cprint) (cprint ?hdr) s0"
    using s0 json_print_text [of cprint ?hdr] nul unfolding i [symmetric]
    by (simp add: store_inv_def state_alloc_def lines_text_def)
  moreover have "\<forall>(os, m) \<in> set ops. text_ok cparse cprint m \<and> NUL \<notin> set (cprint m)"
    using assms(2) by (auto simp: run_ok_def text_ok_def)
  ultimately have inv: "store_inv cprint (text_ok cparse cprint) (cprint ?hdr) s"
    using store_inv_run assms(3) by blast
  have "run_ok cparse cprint ?hdr (ss_id s0) []" using assms(2) by (simp add: run_ok_def)
  from reload_run [OF inv refl this assms(4,5)] show ?thesis by (force simp: loaded_def)
qed

text \<open>A concrete printer and parser for the witness: two documents by name.\<close>

definition toy_message :: cjson where
  "toy_message = CObject [(''role'', CString ''user'')]"

definition toy_print :: "cjson \<Rightarrow> string" where
  "toy_print v = (if v = toy_message then ''msg'' else ''header'')"

definition toy_parse :: "cjson \<Rightarrow> json_parser" where
  "toy_parse hdr s = (if s = ''msg'' then Inr (toy_message, 3) else if s = ''header'' then Inr (hdr, 6) else Inl 0)"

definition toy_env :: os_env where
  "toy_env = \<lparr>os_getenv = (\<lambda>_. Some ''d''), os_mkdir = (\<lambda>_. None), os_stat = (\<lambda>_. Inr True)\<rparr>"

definition toy_state :: session_state where
  "toy_state = state_alloc\<lparr>ss_id := ''20250101T000000_00'', ss_path := ''d/sessions/20250101T000000_00.jsonl'',
                           ss_file := ''header'' @ [LF]\<rparr>"

definition good_disk :: write_oracle where "good_disk i n = Wrote n"
definition full_disk :: write_oracle where "full_disk i n = Wrote 2"

lemma toy_new:
  "session_new toy_print toy_env (Some (''20250101T000000'', 7)) (\<lambda>_. None) good_disk = Inr toy_state"
proof -
  have n: "show_nat 0 = ''0''" by code_simp
  have tries: "write_tries good_disk n 0 kSessionEintrMax r = Wrote n" for n r
    by (simp add: kSessionEintrMax_def good_disk_def numeral_eq_Suc)
  have ops: "open_fresh (\<lambda>_. None) dir ''20250101T000000'' = Inr ''20250101T000000_00.jsonl''" for dir
    by (simp add: open_fresh_def kSessionIdAttempts_def numeral_eq_Suc show_nat2_def n kSessionNameLen_def)
  have dir: "sessions_dir toy_env = Inr ''d/sessions''"
    by (simp add: sessions_dir_def paths_state_dir_def xdg_dir_def nonempty_getenv_def toy_env_def paths_join_def
        paths_ensure_dir_def mkdir_one_def xstrdup_def cstr_def Let_def upt_rec numeral_eq_Suc)
  have j: "paths_join ''d/sessions'' ''20250101T000000_00.jsonl'' = ''d/sessions/20250101T000000_00.jsonl''"
    by (simp add: paths_join_def Let_def)
  have pr: "toy_print (session_header i c) = ''header''" for i c
    by (simp add: toy_print_def toy_message_def session_header_def json_add_cstr_def json_add_int_def json_new_obj_def)
  show ?thesis
    by (simp add: session_new_def dir ops j Let_def write_header_def json_print_def pr cstr_def write_line_def tries
        kSessionIdLen_def toy_state_def state_alloc_def)
qed

lemma toy_text_ok:
  "text_ok (toy_parse hdr) toy_print toy_message"
  "hdr \<noteq> toy_message \<Longrightarrow> text_ok (toy_parse hdr) toy_print hdr"
  by (auto simp: text_ok_def toy_parse_def toy_print_def numeral_eq_Suc less_Suc_eq)

definition toy_ops :: "(write_oracle \<times> cjson) list" where
  "toy_ops = [(good_disk, toy_message), (full_disk, toy_message)]"

definition toy_reads :: "read_outcome list" where
  "toy_reads = [Got (''header'' @ [LF, CHR ''m'']), ReadFailed EINTR, Got (''sg'' @ [LF] @ ''ms'')]"

lemma toy_run:
  "session_run toy_print toy_state toy_ops =
     toy_state\<lparr>ss_file := ''header'' @ [LF] @ ''msg'' @ [LF] @ ''ms'', ss_messages := [toy_message], ss_count := 1,
               ss_poisoned := True\<rparr>"
proof -
  have tries: "write_tries good_disk n 0 kSessionEintrMax r = Wrote n" "write_tries full_disk n 0 kSessionEintrMax r = Wrote 2"
    for n r by (simp_all add: kSessionEintrMax_def good_disk_def full_disk_def numeral_eq_Suc)
  have pr: "toy_print (CObject [(''role'', CString ''user'')]) = ''msg''" by (simp add: toy_print_def toy_message_def)
  show ?thesis
    by (simp add: toy_ops_def session_append_def toy_message_def json_get_cstr_def toy_state_def state_alloc_def
        MUA_SESSION_MAX_MESSAGES_def MUA_SESSION_MAX_LINE_def json_print_def pr cstr_def write_line_def tries Let_def)
qed

theorem session_reload_keeps_acknowledged_witness:
  "\<exists>s' xs. session_load (toy_parse (session_header ''20250101T000000_00'' 7))
       (file_of toy_reads (''header'' @ [LF] @ ''msg'' @ [LF] @ ''ms'')) (Some ''p'') = Inr s'
    \<and> ss_messages s' = [toy_message] @ xs \<and> length xs \<le> 1"
proof -
  let ?hdr = "session_header ''20250101T000000_00'' 7"
  have hdr: "?hdr \<noteq> toy_message"
    by (simp add: toy_message_def session_header_def json_add_cstr_def json_add_int_def json_new_obj_def)
  have tid: "ss_id toy_state = ''20250101T000000_00''" by (simp add: toy_state_def)
  have ok: "run_ok (toy_parse ?hdr) toy_print (session_header (ss_id toy_state) 7) (ss_id toy_state) toy_ops"
    unfolding tid using toy_text_ok(1) [of ?hdr] toy_text_ok(2) [OF hdr] hdr
    by (simp add: run_ok_def toy_ops_def toy_print_def MUA_SESSION_MAX_LINE_def kSessionIdLen_def)
  have "delivered toy_reads 13 0 = Some (''header'' @ [LF] @ ''msg'' @ [LF] @ ''ms'')"
    by (simp add: toy_reads_def kSessionReadChunk_def kSessionEintrMax_def Let_def)
  moreover have "length (ss_file (session_run toy_print toy_state toy_ops)) = 13" by (simp add: toy_run)
  ultimately have rd: "delivered toy_reads (length (ss_file (session_run toy_print toy_state toy_ops))) 0 =
      Some (ss_file (session_run toy_print toy_state toy_ops))" by (simp only:) (simp add: toy_run)
  from session_reload_keeps_acknowledged [OF toy_new ok refl rd, of "''p''"] show ?thesis
    unfolding toy_run by auto
qed

text \<open>Loading does not depend on how the kernel cuts the file into reads: two scripts of
  \<open>read\<close> outcomes (interrupted calls included) that deliver the same bytes give the same
  result of \<open>session_load\<close>, the same session or the same error.\<close>

theorem session_load_rechunk:
  assumes "delivered rs1 (fe_size env) 0 = Some bytes" "delivered rs2 (fe_size env) 0 = Some bytes"
  shows "session_load cparse (env\<lparr>fe_reads := rs1\<rparr>) path = session_load cparse (env\<lparr>fe_reads := rs2\<rparr>) path"
proof -
  have ok: "scan_ok (Inr (ls, buf_init MUA_SESSION_MAX_LINE))" for ls
    using buf_init_ok [of MUA_SESSION_MAX_LINE] by (simp add: scan_ok_def MUA_SESSION_MAX_LINE_def buf_init_def)
  have "scan_view_of (load_scan cparse rs1 (fe_size env) 0 ls (buf_init MUA_SESSION_MAX_LINE))
      = scan_view_of (load_scan cparse rs2 (fe_size env) 0 ls (buf_init MUA_SESSION_MAX_LINE))" for ls
    unfolding load_scan_view [OF assms(1) ok] load_scan_view [OF assms(2) ok] by (rule refl)
  then have "load_tail cparse (load_scan cparse rs1 (fe_size env) 0 ls (buf_init MUA_SESSION_MAX_LINE))
      = load_tail cparse (load_scan cparse rs2 (fe_size env) 0 ls (buf_init MUA_SESSION_MAX_LINE))" for ls
    by (rule load_tail_view)
  then show ?thesis by (simp add: session_load_def Let_def split: option.split)
qed

theorem session_load_rechunk_witness:
  "session_load (toy_parse toy_message) (file_of [Got (''ab'' @ [LF])] (''ab'' @ [LF])) (Some ''p'') =
   session_load (toy_parse toy_message) (file_of [Got ''a'', ReadFailed EINTR, Got (''b'' @ [LF])] (''ab'' @ [LF])) (Some ''p'')"
  using session_load_rechunk [of "[Got (''ab'' @ [LF])]" "file_of [] (''ab'' @ [LF])" "''ab'' @ [LF]"
      "[Got ''a'', ReadFailed EINTR, Got (''b'' @ [LF])]" "toy_parse toy_message" "Some ''p''"]
  by (simp add: file_of_def kSessionReadChunk_def kSessionEintrMax_def Let_def)

text \<open>\<open>session_load_latest\<close>'s scan of the directory (up to its entry bound) ends with a
  well-formed session name that every other well-formed name compares smaller than, or with
  none exactly when the directory has none; foreign names never win.\<close>

theorem session_latest_is_greatest:
  assumes "scan_names names kSessionScanMax [] = (best, scanned)" "length names \<le> kSessionScanMax"
  shows "scanned = length names \<and> (best = [] \<or> (best \<in> set names \<and> session_name_ok best))
    \<and> (\<forall>n \<in> set names. \<not> session_name_ok n \<or> n = best \<or> str_greater best n)"
  using scan_names_latest [OF assms] by (auto simp: latest_of_def)

theorem session_latest_is_greatest_witness:
  "scan_names [''20250101T000000_00.jsonl'', ''zz'', ''20250101T000000_01.jsonl''] kSessionScanMax [] =
     (''20250101T000000_01.jsonl'', 3)
   \<and> str_greater ''20250101T000000_01.jsonl'' ''20250101T000000_00.jsonl''"
proof -
  obtain m where e: "kSessionScanMax = Suc (Suc (Suc m))"
    using that [of 65533] by (simp add: kSessionScanMax_def)
  have r: "scan_names [''20250101T000000_00.jsonl'', ''zz'', ''20250101T000000_01.jsonl''] kSessionScanMax [] =
     (''20250101T000000_01.jsonl'', 3)"
    unfolding e
    by (simp add: session_name_ok_def all_digits_def is_digit_def kSessionNameLen_def kSessionIdLen_def
        less_eq_char_def less_char_def)
  from session_latest_is_greatest [OF r] have "session_name_ok ''20250101T000000_00.jsonl'' \<Longrightarrow>
      str_greater ''20250101T000000_01.jsonl'' ''20250101T000000_00.jsonl''"
    by (auto simp: kSessionScanMax_def)
  moreover have "session_name_ok ''20250101T000000_00.jsonl''"
    by (simp add: session_name_ok_def all_digits_def is_digit_def kSessionNameLen_def kSessionIdLen_def
        less_eq_char_def)
  ultimately show ?thesis using r by blast
qed

end
