(* ===== verification/Tools.thy ===== *)
theory Tools
  imports Json Paths
begin

text \<open>
  \<open>tools.c\<close>: the synchronous tools (read, write, edit), the tool registry and the tools
  registered from Lua. A tool's \<open>done\<close> callback receives a \<open>ToolResult\<close>; a synchronous
  tool fires it inline exactly once, so its model is a function to the result. The operating
  system calls are given by their outcomes in order; the file a tool rewrites is given by its
  bytes before and after. The asynchronous bash tool is in theory \<open>Bash\<close>.
\<close>

section \<open>Results and arguments\<close>

record tool_result =
  tr_content :: string
  tr_is_error :: bool

definition fail :: "string \<Rightarrow> tool_result" where
  "fail msg = \<lparr>tr_content = cstr msg, tr_is_error = True\<rparr>"

definition okf :: "string \<Rightarrow> tool_result" where
  "okf msg = \<lparr>tr_content = cstr msg, tr_is_error = False\<rparr>"

definition succeed :: "string \<Rightarrow> tool_result" where
  "succeed content = \<lparr>tr_content = content, tr_is_error = False\<rparr>"

definition kToolReadReturnCap :: nat where "kToolReadReturnCap = 256 * 1024"
definition kToolReadScanCap :: nat where "kToolReadScanCap = 8 * 1024 * 1024"
definition kToolReadChunk :: nat where "kToolReadChunk = 64 * 1024"
definition kToolEditFileCap :: nat where "kToolEditFileCap = 4 * 1024 * 1024"
definition kToolEditCountCap :: nat where "kToolEditCountCap = 100"
definition kToolSchemaCap :: nat where "kToolSchemaCap = 16 * 1024"
definition kToolEintrMax :: nat where "kToolEintrMax = 100"
definition INT64_MAX :: int where "INT64_MAX = 2 ^ 63 - 1"

definition opt_pos_int :: "cjson \<Rightarrow> string \<Rightarrow> int \<Rightarrow> int option" where
  "opt_pos_int args key fallback =
     (case cj_get args key of
        None \<Rightarrow> Some fallback
      | Some (CNumber d) \<Rightarrow> (let v = dbl_to_int64 d in if v < 1 then None else Some v)
      | Some _ \<Rightarrow> None)"

section \<open>The read tool\<close>

record read_scan =
  rs_offset :: int
  rs_limit :: int
  rs_current_line :: int
  rs_lines_taken :: int
  rs_scanned :: nat
  rs_window :: buf
  rs_window_full :: bool
  rs_finished :: bool

text \<open>One segment of a chunk, up to and including its newline when it has one.\<close>

definition read_segment :: "read_scan \<Rightarrow> string \<Rightarrow> bool \<Rightarrow> read_scan option" where
  "read_segment scan seg nl =
     (if rs_current_line scan \<ge> rs_offset scan
      then (case buf_append (rs_window scan) seg of
              None \<Rightarrow> None
            | Some w \<Rightarrow>
                let scan = scan\<lparr>rs_window := w\<rparr>;
                    scan = (if nl
                            then (let n = rs_lines_taken scan + 1 in
                                  scan\<lparr>rs_lines_taken := n,
                                       rs_finished := (if n \<ge> rs_limit scan then True else rs_finished scan)\<rparr>)
                            else scan)
                in Some (if nl then scan\<lparr>rs_current_line := rs_current_line scan + 1\<rparr> else scan))
      else Some (if nl then scan\<lparr>rs_current_line := rs_current_line scan + 1\<rparr> else scan))"

definition read_overflow :: "read_scan \<Rightarrow> string \<Rightarrow> read_scan" where
  "read_overflow scan seg =
     (let room = size_sub (buf_max (rs_window scan)) (buf_size (rs_window scan));
          w = (if room > 0
               then (case buf_append (rs_window scan) (take room seg) of Some w \<Rightarrow> w | None \<Rightarrow> rs_window scan)
               else rs_window scan)
      in scan\<lparr>rs_window := w, rs_window_full := True, rs_finished := True\<rparr>)"

function read_scan_chunk :: "read_scan \<Rightarrow> string \<Rightarrow> read_scan" where
  "read_scan_chunk scan chunk =
     (if chunk = [] \<or> rs_finished scan then scan
      else
        let nl = memchr LF chunk;
            seg_len = (case nl of Some i \<Rightarrow> i + 1 | None \<Rightarrow> length chunk)
        in (case read_segment scan (take seg_len chunk) (nl \<noteq> None) of
              None \<Rightarrow> read_overflow scan (take seg_len chunk)
            | Some scan \<Rightarrow> read_scan_chunk scan (drop seg_len chunk)))"
  by auto
termination by (relation "measure (\<lambda>(_, chunk). length chunk)") (auto split: option.splits)

declare read_scan_chunk.simps [simp del]

datatype read_status = kReadOk | kReadCapped | kReadBinary | kReadIoError errno

text \<open>The \<open>read\<close> loop over the outcomes of the calls; none left is end of file.\<close>

fun read_scan_file :: "read_outcome list \<Rightarrow> nat \<Rightarrow> read_scan \<Rightarrow> read_status \<times> read_scan" where
  "read_scan_file os eintr scan =
     (if rs_finished scan then (kReadOk, scan)
      else if rs_scanned scan \<ge> kToolReadScanCap then (kReadCapped, scan)
      else
        let want = min kToolReadChunk (kToolReadScanCap - rs_scanned scan) in
        case os of
          [] \<Rightarrow> (kReadOk, scan)
        | ReadFailed e # os \<Rightarrow>
            if e = EINTR \<and> eintr + 1 \<le> kToolEintrMax then read_scan_file os (eintr + 1) scan
            else (kReadIoError e, scan)
        | Got bytes # os \<Rightarrow>
            let chunk = take want bytes in
            if chunk = [] then (kReadOk, scan)
            else
              let scan = scan\<lparr>rs_scanned := rs_scanned scan + length chunk\<rparr> in
              if NUL \<in> set chunk then (kReadBinary, scan)
              else read_scan_file os 0 (read_scan_chunk scan chunk))"

definition read_assemble_content :: "read_scan \<Rightarrow> read_status \<Rightarrow> string" where
  "read_assemble_content scan status =
     (let win = buf_data (rs_window scan);
          note = (if rs_window_full scan then ''[read: truncated at 256 KiB]''
                  else if status = kReadCapped then ''[read: stopped at the 8 MiB scan bound]''
                  else if win = [] \<and> rs_scanned scan > 0 then ''[read: offset past end of file]''
                  else [])
      in win @ (if win \<noteq> [] \<and> note \<noteq> [] then [LF] else []) @ note)"

text \<open>What the system answers about a path: \<open>open\<close>, \<open>fstat\<close>, the file's kind and
  size, the reads, and for a rewrite \<open>ftruncate\<close>, \<open>lseek\<close>, the writes and \<open>close\<close>.\<close>

datatype write_step = WroteSome nat | WriteErr errno

record tool_env =
  te_os :: os_env
  te_open :: "errno option"
  te_stat :: "errno option"
  te_regular :: bool
  te_size :: nat
  te_reads :: "read_outcome list"
  te_truncate :: "errno option"
  te_seek :: "errno option"
  te_writes :: "write_step list"
  te_close :: "errno option"

definition scan_init :: "int \<Rightarrow> int \<Rightarrow> read_scan" where
  "scan_init offset limit =
     \<lparr>rs_offset = offset, rs_limit = limit, rs_current_line = 1, rs_lines_taken = 0, rs_scanned = 0,
      rs_window = buf_init kToolReadReturnCap, rs_window_full = False, rs_finished = False\<rparr>"

definition read_execute :: "tool_env \<Rightarrow> cjson \<Rightarrow> tool_result" where
  "read_execute env args =
     (case json_get_cstr args ''path'' of
        None \<Rightarrow> fail ''read: path is required''
      | Some path \<Rightarrow>
          if path = [] then fail ''read: path is required''
          else (case (opt_pos_int args ''offset'' 1, opt_pos_int args ''limit'' INT64_MAX) of
            (Some offset, Some limit) \<Rightarrow>
              (case te_open env of
                 Some e \<Rightarrow> fail (''read: cannot open '' @ path @ '': '' @ strerror e)
               | None \<Rightarrow>
                   (case te_stat env of
                      Some e \<Rightarrow> fail (''read: stat '' @ path @ '': '' @ strerror e)
                    | None \<Rightarrow>
                        if \<not> te_regular env then fail (''read: '' @ path @ '' is not a regular file'')
                        else (case read_scan_file (te_reads env) 0 (scan_init offset limit) of
                                (kReadBinary, _) \<Rightarrow> fail (''read: '' @ path @ '' is binary'')
                              | (kReadIoError e, _) \<Rightarrow> fail (''read: read '' @ path @ '': '' @ strerror e)
                              | (status, scan) \<Rightarrow> succeed (read_assemble_content scan status))))
          | _ \<Rightarrow> fail ''read: offset and limit must be integers >= 1''))"

section \<open>Writing\<close>

text \<open>The bytes that reached the file, and the error. No outcome left is a call that makes no
  progress.\<close>

definition EIO :: errno where "EIO = Errno ''Input/output error''"

fun write_all :: "write_step list \<Rightarrow> nat \<Rightarrow> string \<Rightarrow> string \<times> errno option" where
  "write_all os eintr data =
     (if data = [] then ([], None)
      else (case os of
              [] \<Rightarrow> ([], Some EIO)
            | WriteErr e # os \<Rightarrow>
                if e = EINTR \<and> eintr + 1 \<le> kToolEintrMax then write_all os (eintr + 1) data
                else ([], Some e)
            | WroteSome n # os \<Rightarrow>
                if n = 0 then ([], Some EIO)
                else (case write_all os 0 (drop n data) of (w, e) \<Rightarrow> (take n data @ w, e))))"

text \<open>\<open>strrchr(path, '/')\<close>.\<close>

definition last_slash :: "string \<Rightarrow> nat option" where
  "last_slash path =
     (case find (\<lambda>i. path ! i = SLASH) (rev [0..<length path]) of Some i \<Rightarrow> Some i | None \<Rightarrow> None)"

text \<open>The result with the file's bytes afterwards; \<open>None\<close> when the file was not opened.\<close>

definition write_execute :: "tool_env \<Rightarrow> cjson \<Rightarrow> tool_result \<times> string option" where
  "write_execute env args =
     (case json_get_cstr args ''path'' of
        None \<Rightarrow> (fail ''write: path is required'', None)
      | Some path \<Rightarrow>
          if path = [] then (fail ''write: path is required'', None)
          else (case json_get_cstr args ''content'' of
            None \<Rightarrow> (fail ''write: content is required'', None)
          | Some content \<Rightarrow>
              (case (case last_slash path of
                       None \<Rightarrow> None
                     | Some i \<Rightarrow> paths_ensure_dir (te_os env)
                                   (Some (if i = 0 then ''/'' else xstrndup path i))) of
                 Some (_, msg) \<Rightarrow> (fail (''write: '' @ msg), None)
               | None \<Rightarrow>
                   (case te_open env of
                      Some e \<Rightarrow> (fail (''write: cannot open '' @ path @ '': '' @ strerror e), None)
                    | None \<Rightarrow>
                        (case write_all (te_writes env) 0 content of
                           (w, Some e) \<Rightarrow> (fail (''write: write '' @ path @ '': '' @ strerror e), Some w)
                         | (w, None) \<Rightarrow>
                             (case te_close env of
                                Some e \<Rightarrow> (fail (''write: close '' @ path @ '': '' @ strerror e), Some w)
                              | None \<Rightarrow>
                                  (okf (''write: wrote '' @ show_nat (length content) @ '' bytes to '' @ path),
                                   Some w)))))))"

section \<open>The edit tool\<close>

text \<open>The loop over the haystack from \<open>pos\<close> on, \<open>cursor\<close> being the rest: a byte search
  for the needle's first byte among the positions where it still fits, then a comparison.\<close>

function occ_from :: "string \<Rightarrow> nat \<Rightarrow> string \<Rightarrow> nat \<Rightarrow> nat \<Rightarrow> nat \<times> nat" where
  "occ_from needle pos cursor n first =
     (if needle = [] \<or> length cursor < length needle then (n, first)
      else (case memchr (hd needle) (take (length cursor - length needle + 1) cursor) of
              None \<Rightarrow> (n, first)
            | Some i \<Rightarrow>
                let hit = drop i cursor; pos = pos + i in
                if take (length needle) hit = needle
                then
                  let first = (if n = 0 then pos else first) in
                  if n + 1 \<ge> kToolEditCountCap then (n + 1, first)
                  else occ_from needle (pos + 1) (drop 1 hit) (n + 1) first
                else occ_from needle (pos + 1) (drop 1 hit) n first))"
  by auto
termination
  by (relation "measure (\<lambda>(_, _, cursor, _). length cursor)")
    (auto simp flip: length_greater_0_conv dest: memchr_less)

declare occ_from.simps [simp del]

definition count_occurrences :: "string \<Rightarrow> string \<Rightarrow> nat \<times> nat" where
  "count_occurrences hay needle =
     (if needle = [] \<or> length needle > length hay then (0, 0) else occ_from needle 0 hay 0 0)"

fun edit_read :: "read_outcome list \<Rightarrow> nat \<Rightarrow> nat \<Rightarrow> errno + string" where
  "edit_read os eintr left =
     (if left = 0 then Inr []
      else (case os of
              [] \<Rightarrow> Inr []
            | ReadFailed e # os \<Rightarrow>
                if e = EINTR \<and> eintr + 1 \<le> kToolEintrMax then edit_read os (eintr + 1) left else Inl e
            | Got bytes # os \<Rightarrow>
                let got = take left bytes in
                if got = [] then Inr []
                else (case edit_read os 0 (left - length got) of Inl e \<Rightarrow> Inl e | Inr rest \<Rightarrow> Inr (got @ rest))))"

definition edit_open_and_read :: "tool_env \<Rightarrow> string \<Rightarrow> tool_result + string" where
  "edit_open_and_read env path =
     (case te_open env of
        Some e \<Rightarrow> Inl (fail (''edit: cannot open '' @ path @ '': '' @ strerror e))
      | None \<Rightarrow>
          (case te_stat env of
             Some e \<Rightarrow> Inl (fail (''edit: stat '' @ path @ '': '' @ strerror e))
           | None \<Rightarrow>
               if \<not> te_regular env then Inl (fail (''edit: '' @ path @ '' is not a regular file''))
               else if te_size env > kToolEditFileCap
               then Inl (fail (''edit: '' @ path @ '' exceeds the 4 MiB edit cap''))
               else (case edit_read (te_reads env) 0 (te_size env) of
                       Inl e \<Rightarrow> Inl (fail (''edit: read '' @ path @ '': '' @ strerror e))
                     | Inr data \<Rightarrow> Inr data)))"

text \<open>The failure, if any, and the file's bytes afterwards (\<open>None\<close>: as before).\<close>

definition edit_rewrite :: "tool_env \<Rightarrow> string \<Rightarrow> string \<Rightarrow> tool_result option \<times> string option" where
  "edit_rewrite env path data =
     (case te_truncate env of
        Some e \<Rightarrow> (Some (fail (''edit: truncate '' @ path @ '': '' @ strerror e)), None)
      | None \<Rightarrow>
          (case te_seek env of
             Some e \<Rightarrow> (Some (fail (''edit: seek '' @ path @ '': '' @ strerror e)), Some [])
           | None \<Rightarrow>
               (case write_all (te_writes env) 0 data of
                  (w, Some e) \<Rightarrow> (Some (fail (''edit: write '' @ path @ '': '' @ strerror e)), Some w)
                | (w, None) \<Rightarrow>
                    (case te_close env of
                       Some e \<Rightarrow> (Some (fail (''edit: close '' @ path @ '': '' @ strerror e)), Some w)
                     | None \<Rightarrow> (None, Some w)))))"

definition edit_execute :: "tool_env \<Rightarrow> cjson \<Rightarrow> tool_result \<times> string option" where
  "edit_execute env args =
     (case json_get_cstr args ''path'' of
        None \<Rightarrow> (fail ''edit: path is required'', None)
      | Some path \<Rightarrow>
          if path = [] then (fail ''edit: path is required'', None)
          else (case (json_get_cstr args ''old_string'', json_get_cstr args ''new_string'') of
            (Some old_str, Some new_str) \<Rightarrow>
              if old_str = [] then (fail ''edit: old_string is empty'', None)
              else if old_str = new_str then (fail ''edit: old_string and new_string are identical'', None)
              else (case edit_open_and_read env path of
                Inl r \<Rightarrow> (r, None)
              | Inr file_data \<Rightarrow>
                  (case count_occurrences file_data old_str of
                     (n, first) \<Rightarrow>
                       if n \<noteq> 1
                       then (if n = 0 then fail (''edit: old_string not found in '' @ path)
                             else fail (''edit: old_string occurs '' @ show_nat n
                                        @ (if n \<ge> kToolEditCountCap then ''+'' else []) @ '' times in '' @ path
                                        @ '' (must be unique)''), None)
                       else
                         let data = take first file_data @ new_str @ drop (first + length old_str) file_data in
                         (case edit_rewrite env path data of
                            (Some r, file) \<Rightarrow> (r, file)
                          | (None, file) \<Rightarrow> (okf (''edit: replaced 1 occurrence in '' @ path), file))))
          | _ \<Rightarrow> (fail ''edit: old_string and new_string are required'', None)))"

declare read_scan_file.simps [simp del] write_all.simps [simp del] edit_read.simps [simp del]

end
