(* ===== verification/ToolsProps.thy ===== *)
theory ToolsProps
  imports Tools
begin

text \<open>
  Properties of the file tools. The read scanner consumes chunks whose boundaries carry no
  meaning: it interprets the chunked-consumer interface with the byte step \<open>read_byte\<close>, and
  the window it selects is characterised on the lines of the whole file. The occurrence search
  of the edit tool is compared with the set of positions where the needle stands.
\<close>

section \<open>The read window as a function of the bytes\<close>

type_synonym read_pos = "int \<times> int \<times> string \<times> bool \<times> bool"

definition read_byte :: "int \<Rightarrow> int \<Rightarrow> read_pos \<Rightarrow> char \<Rightarrow> read_pos" where
  "read_byte off lim v c =
     (case v of (cur, taken, w, full, fin) \<Rightarrow>
        if fin then v
        else if cur < off then (if c = LF then cur + 1 else cur, taken, w, full, fin)
        else if length w \<ge> kToolReadReturnCap then (cur, taken, w, True, True)
        else if c = LF then (cur + 1, taken + 1, w @ [c], full, taken + 1 \<ge> lim)
        else (cur, taken, w @ [c], full, fin))"

definition read_view :: "read_scan \<Rightarrow> read_pos" where
  "read_view s = (rs_current_line s, rs_lines_taken s, buf_data (rs_window s), rs_window_full s, rs_finished s)"

definition read_ok :: "int \<Rightarrow> int \<Rightarrow> read_scan \<Rightarrow> bool" where
  "read_ok off lim s \<longleftrightarrow> buf_ok (rs_window s) \<and> buf_max (rs_window s) = kToolReadReturnCap
     \<and> rs_offset s = off \<and> rs_limit s = lim"

lemma read_byte_tuple:
  "read_byte off lim (cur, taken, w, full, fin) c =
     (if fin then (cur, taken, w, full, fin)
      else if cur < off then (if c = LF then cur + 1 else cur, taken, w, full, fin)
      else if length w \<ge> kToolReadReturnCap then (cur, taken, w, True, True)
      else if c = LF then (cur + 1, taken + 1, w @ [c], full, taken + 1 \<ge> lim)
      else (cur, taken, w @ [c], full, fin))"
  by (simp add: read_byte_def)

lemma read_byte_finished [simp]: "foldl (read_byte off lim) (cur, taken, w, full, True) s = (cur, taken, w, full, True)"
  by (induction s) (auto simp: read_byte_tuple)

lemma read_bytes_skip:
  "LF \<notin> set s \<Longrightarrow> cur < off \<Longrightarrow>
   foldl (read_byte off lim) (cur, taken, w, full, False) s = (cur, taken, w, full, False)"
  by (induction s) (auto simp: read_byte_tuple)

lemma read_bytes_line:
  "LF \<notin> set s \<Longrightarrow> off \<le> cur \<Longrightarrow> length w \<le> kToolReadReturnCap \<Longrightarrow>
   foldl (read_byte off lim) (cur, taken, w, full, False) s =
     (if length w + length s \<le> kToolReadReturnCap then (cur, taken, w @ s, full, False)
      else (cur, taken, take kToolReadReturnCap (w @ s), True, True))"
proof (induction s arbitrary: w)
  case (Cons c s)
  show ?case
  proof (cases "length w < kToolReadReturnCap")
    case True
    then show ?thesis using Cons by (auto simp: read_byte_tuple)
  next
    case False
    then have "length w = kToolReadReturnCap" using Cons.prems(3) by simp
    then show ?thesis using Cons.prems by (simp add: read_byte_tuple)
  qed
qed simp

text \<open>One segment: a line piece \<open>body\<close>, with its newline when \<open>nl\<close>.\<close>

lemma read_segment_view:
  assumes ok: "read_ok off lim scan" and fin: "\<not> rs_finished scan" and body: "LF \<notin> set body"
  shows "case read_segment scan (body @ (if nl then [LF] else [])) nl of
      None \<Rightarrow> read_ok off lim (read_overflow scan (body @ (if nl then [LF] else [])))
        \<and> read_view (read_overflow scan (body @ (if nl then [LF] else [])))
           = foldl (read_byte off lim) (read_view scan) (body @ (if nl then [LF] else []))
        \<and> rs_finished (read_overflow scan (body @ (if nl then [LF] else [])))
    | Some scan' \<Rightarrow> read_ok off lim scan'
        \<and> read_view scan' = foldl (read_byte off lim) (read_view scan) (body @ (if nl then [LF] else []))"
proof (cases "rs_current_line scan < off")
  case True
  then show ?thesis
    using assms by (auto simp: read_segment_def read_ok_def read_view_def read_bytes_skip read_byte_tuple Let_def)
next
  case False
  let ?w = "rs_window scan" and ?seg = "body @ (if nl then [LF] else [])"
  have w: "buf_ok ?w" "buf_max ?w = kToolReadReturnCap" using ok by (auto simp: read_ok_def)
  have within: "length (buf_data ?w) \<le> kToolReadReturnCap" using buf.within [OF w(1)] w(2) by simp
  have line: "foldl (read_byte off lim) (read_view scan) body =
      (if length (buf_data ?w) + length body \<le> kToolReadReturnCap
       then (rs_current_line scan, rs_lines_taken scan, buf_data ?w @ body, rs_window_full scan, False)
       else (rs_current_line scan, rs_lines_taken scan, take kToolReadReturnCap (buf_data ?w @ body), True, True))"
    using read_bytes_line [OF body _ within] False fin by (simp add: read_view_def)
  show ?thesis
  proof (cases "buf_append ?w ?seg")
    case None
    then have big: "kToolReadReturnCap < length (buf_data ?w) + length ?seg"
      using buf.append_None_iff [OF w(1)] w(2) by simp
    let ?room = "kToolReadReturnCap - length (buf_data ?w)"
    have room: "size_sub (buf_max ?w) (buf_size ?w) = ?room"
      using w(2) within by (simp add: size_sub_eq buf_size_def kToolReadReturnCap_def)
    define seg where "seg = ?seg"
    have room_fits: "buf_size ?w + length (take ?room seg) \<le> buf_max ?w"
      using within w(2) by (cases "length seg \<le> ?room") (simp_all add: buf_size_def)
    obtain c where fit: "buf_append ?w (take ?room seg) = Some (?w\<lparr>buf_data := buf_data ?w @ take ?room seg, buf_cap := c\<rparr>)"
      using buf_append_fits [OF w(1) room_fits] by blast
    from w(1) fit obtain ok': "buf_ok (?w\<lparr>buf_data := buf_data ?w @ take ?room seg, buf_cap := c\<rparr>)"
      by (rule buf.appendE) simp
    have view: "read_view (read_overflow scan seg) =
        (rs_current_line scan, rs_lines_taken scan, buf_data ?w @ take ?room seg, True, True)
        \<and> read_ok off lim (read_overflow scan seg)"
      using fit ok' w ok by (simp add: read_overflow_def room [unfolded w(2)] read_view_def Let_def read_ok_def)
    have "foldl (read_byte off lim) (read_view scan) ?seg =
        (rs_current_line scan, rs_lines_taken scan, buf_data ?w @ take ?room seg, True, True)"
      unfolding seg_def using big line within False by (cases nl) (auto simp: read_byte_tuple)
    moreover have "rs_finished (read_overflow scan ?seg)" by (simp add: read_overflow_def Let_def)
    ultimately show ?thesis
      using None False view ok by (simp add: read_segment_def read_ok_def seg_def)
  next
    case (Some w')
    from w(1) Some obtain w': "buf_ok w'" "buf_data w' = buf_data ?w @ ?seg" "buf_max w' = buf_max ?w"
      "length (buf_data ?w) + length ?seg \<le> buf_max ?w"
      by (rule buf.appendE)
    then show ?thesis
      using Some False line ok fin w(2)
      by (auto simp: read_segment_def read_ok_def read_view_def Let_def read_byte_tuple)
  qed
qed

lemma read_scan_chunk_view:
  "read_ok off lim scan \<Longrightarrow>
   read_ok off lim (read_scan_chunk scan chunk)
   \<and> read_view (read_scan_chunk scan chunk) = foldl (read_byte off lim) (read_view scan) chunk"
proof (induction scan chunk rule: read_scan_chunk.induct)
  case (1 scan chunk)
  note unf = read_scan_chunk.simps [of scan chunk]
  show ?case
  proof (cases "chunk = [] \<or> rs_finished scan")
    case True
    then show ?thesis using "1.prems" by (auto simp: unf read_view_def)
  next
    case False
    define body where "body = takeWhile (\<lambda>x. x \<noteq> LF) chunk"
    have body: "LF \<notin> set body" by (auto simp: body_def dest: set_takeWhileD)
    define nl where "nl = (memchr LF chunk \<noteq> None)"
    define len where "len = (case memchr LF chunk of Some i \<Rightarrow> i + 1 | None \<Rightarrow> length chunk)"
    have seg: "take len chunk = body @ (if nl then [LF] else [])"
    proof (cases chunk rule: takeWhile_dropWhile_cases [of "\<lambda>x. x \<noteq> LF"])
      case all
      then have m: "memchr LF chunk = None" by auto
      show ?thesis unfolding len_def nl_def body_def m option.case by (simp add: all(1))
    next
      case (stop y ys)
      then have "memchr LF chunk = Some (length body)"
        by (subst memchr_Some) (auto simp: body_def in_set_conv_decomp)
      then show ?thesis using stop by (simp add: len_def nl_def body_def) (metis append_Cons append_Nil append_assoc append_eq_conv_conj length_append_singleton)
    qed
    have chunk: "foldl (read_byte off lim) v chunk =
        foldl (read_byte off lim) (foldl (read_byte off lim) v (take len chunk)) (drop len chunk)" for v
      by (metis append_take_drop_id foldl_append)
    note step = read_segment_view [OF "1.prems" _ body, of nl, folded seg]
    show ?thesis
    proof (cases "read_segment scan (take len chunk) nl")
      case None
      obtain a b c d where fin: "read_view (read_overflow scan (take len chunk)) = (a, b, c, d, True)"
        using step None False by (simp add: read_view_def)
      have s: "foldl (read_byte off lim) (read_view scan) (take len chunk) = (a, b, c, d, True)"
        using step None fin False by simp
      have r: "read_scan_chunk scan chunk = read_overflow scan (take len chunk)"
        unfolding unf Let_def nl_def [symmetric] len_def [symmetric] using None False by simp
      show ?thesis
        using step None fin False unfolding chunk s r by simp
    next
      case (Some scan')
      then show ?thesis
        using step False "1.IH" [of "memchr LF chunk" len scan', folded nl_def] unfolding chunk
        by (simp add: unf Let_def len_def nl_def del: memchr_None not_None_eq)
    qed
  qed
qed

interpretation window: chunked_consumer "read_ok off lim" read_view "read_byte off lim" read_scan_chunk
  for off lim
  by unfold_locales (simp_all add: read_scan_chunk_view)

section \<open>The window on the lines of the file\<close>

fun lines_of :: "string \<Rightarrow> string list" where
  "lines_of [] = []"
| "lines_of (c # s) =
     (if c = LF then [LF] # lines_of s
      else (case lines_of s of [] \<Rightarrow> [[c]] | l # ls \<Rightarrow> (c # l) # ls))"

text \<open>Lines \<open>off\<close>, ..., \<open>off + lim - 1\<close>, counted from 1, with their newlines.\<close>

definition line_window :: "int \<Rightarrow> int \<Rightarrow> string \<Rightarrow> string" where
  "line_window off lim s = concat (take (nat lim) (drop (nat (off - 1)) (lines_of s)))"

lemma read_bytes_window:
  assumes "taken < lim" "length w \<le> kToolReadReturnCap"
  shows "\<exists>cur' taken' fin.
    foldl (read_byte off lim) (cur, taken, w, False, False) s =
      (cur', taken',
       take kToolReadReturnCap (w @ concat (take (nat (lim - taken)) (drop (nat (off - cur)) (lines_of s)))),
       kToolReadReturnCap < length (w @ concat (take (nat (lim - taken)) (drop (nat (off - cur)) (lines_of s)))),
       fin)"
  using assms
proof (induction s arbitrary: cur taken w)
  case (Cons c s)
  obtain n where n: "nat (lim - taken) = Suc n" using Cons.prems(1) by (metis Suc_pred' zero_less_nat_eq zero_less_diff diff_gt_0_iff_gt)
  show ?case
  proof (cases "cur < off")
    case True
    obtain k where k: "nat (off - cur) = Suc k" using True by (metis Suc_pred' zero_less_nat_eq diff_gt_0_iff_gt)
    then have "nat (off - (cur + 1)) = k" by linarith
    then show ?thesis
      using Cons.IH [OF Cons.prems, of "cur + 1"] Cons.IH [OF Cons.prems, of cur] True k
      by (auto simp: read_byte_tuple split: list.splits)
  next
    case False
    then have k: "nat (off - cur) = 0" "nat (off - (cur + 1)) = 0" by simp_all
    show ?thesis
    proof (cases "length w < kToolReadReturnCap")
      case True
      have m: "nat (lim - (taken + 1)) = n" using n by linarith
      show ?thesis
      proof (cases "c = LF \<and> lim \<le> taken + 1")
        case True
        then have "n = 0" using m by simp
        then show ?thesis using True False n k \<open>length w < _\<close> by (auto simp: read_byte_tuple)
      next
        case go: False
        then show ?thesis
          using Cons.IH [of "taken + 1" "w @ [c]" "cur + 1"] Cons.IH [of taken "w @ [c]" cur] True False n k m Cons.prems
          by (auto simp: read_byte_tuple split: list.splits)
      qed
    next
      case big: False
      then have "length w = kToolReadReturnCap" using Cons.prems(2) by simp
      then show ?thesis using False n k by (auto simp: read_byte_tuple split: list.splits)
    qed
  qed
qed auto

section \<open>The whole read\<close>

text \<open>The bytes the calls deliver, and calls that end in end of file: no empty and no oversized
  read, no error but runs of at most \<open>kToolEintrMax\<close> interrupted calls.\<close>

fun delivered :: "read_outcome list \<Rightarrow> string" where
  "delivered [] = []"
| "delivered (Got bs # os) = bs @ delivered os"
| "delivered (ReadFailed e # os) = delivered os"

fun reads_clean :: "read_outcome list \<Rightarrow> nat \<Rightarrow> bool" where
  "reads_clean [] n = True"
| "reads_clean (Got bs # os) n = (bs \<noteq> [] \<and> length bs \<le> kToolReadChunk \<and> reads_clean os 0)"
| "reads_clean (ReadFailed e # os) n = (e = EINTR \<and> n + 1 \<le> kToolEintrMax \<and> reads_clean os (n + 1))"

lemma read_view_scanned [simp]: "read_view (scan\<lparr>rs_scanned := n\<rparr>) = read_view scan"
  by (simp add: read_view_def)

lemma read_ok_scanned [simp]: "read_ok off lim (scan\<lparr>rs_scanned := n\<rparr>) = read_ok off lim scan"
  by (simp add: read_ok_def)

lemma rs_scanned_chunk [simp]: "rs_scanned (read_scan_chunk scan chunk) = rs_scanned scan"
proof (induction scan chunk rule: read_scan_chunk.induct)
  case (1 scan chunk)
  have seg: "read_segment scan seg nl = Some scan' \<Longrightarrow> rs_scanned scan' = rs_scanned scan" for seg nl scan'
    by (auto simp: read_segment_def Let_def split: if_splits option.splits)
  have "rs_scanned (read_overflow scan seg) = rs_scanned scan" for seg
    by (simp add: read_overflow_def Let_def)
  then show ?case
    using seg 1 by (subst read_scan_chunk.simps)
      (auto simp: Let_def simp del: memchr_None not_None_eq split: option.split)
qed

lemma read_scan_file_view:
  assumes "read_ok off lim scan" "reads_clean os eintr" "rs_scanned scan + length (delivered os) < kToolReadScanCap"
    "NUL \<notin> set (delivered os)"
  shows "\<exists>scan'. read_scan_file os eintr scan = (kReadOk, scan')
    \<and> read_view scan' = foldl (read_byte off lim) (read_view scan) (delivered os)
    \<and> (rs_scanned scan' = 0 \<longleftrightarrow> rs_scanned scan = 0 \<and> (rs_finished scan \<or> delivered os = []))"
  using assms
proof (induction os eintr scan rule: read_scan_file.induct)
  case (1 os eintr scan)
  show ?case
  proof (cases "rs_finished scan")
    case True
    obtain a b c d where "read_view scan = (a, b, c, d, True)" using True by (simp add: read_view_def)
    then show ?thesis using True by (simp add: read_scan_file.simps)
  next
    case False
    show ?thesis
    proof (cases os)
      case Nil
      then show ?thesis using False "1.prems" by (simp add: read_scan_file.simps)
    next
      case (Cons r os')
      show ?thesis
      proof (cases r)
        case (Got bs)
        let ?want = "min kToolReadChunk (kToolReadScanCap - rs_scanned scan)"
        let ?scan = "scan\<lparr>rs_scanned := rs_scanned scan + length bs\<rparr>"
        have bs: "bs \<noteq> []" "take ?want bs = bs" "NUL \<notin> set bs"
          using "1.prems" Cons Got by auto
        have v: "read_ok off lim (read_scan_chunk ?scan bs)"
          "read_view (read_scan_chunk ?scan bs) = foldl (read_byte off lim) (read_view scan) bs"
          using read_scan_chunk_view [of off lim ?scan bs] "1.prems"(1) by simp_all
        show ?thesis
          using "1.IH"(1) [OF False _ refl Cons Got refl] "1.prems" bs v False Cons Got
          by (subst read_scan_file.simps) (simp add: Let_def del: take_eq_Nil)
      next
        case (ReadFailed e)
        then show ?thesis
          using "1.IH"(2) [OF False _ refl Cons ReadFailed] "1.prems" False Cons ReadFailed
          by (subst read_scan_file.simps) simp
      qed
    qed
  qed
qed

lemma read_scan_file_window:
  assumes "1 \<le> lim" "reads_clean os 0" "length (delivered os) < kToolReadScanCap" "NUL \<notin> set (delivered os)"
  shows "\<exists>scan. read_scan_file os 0 (scan_init off lim) = (kReadOk, scan)
    \<and> buf_data (rs_window scan) = take kToolReadReturnCap (line_window off lim (delivered os))
    \<and> rs_window_full scan = (kToolReadReturnCap < length (line_window off lim (delivered os)))
    \<and> (rs_scanned scan = 0 \<longleftrightarrow> delivered os = [])"
proof -
  have ok: "read_ok off lim (scan_init off lim)"
    by (simp add: read_ok_def scan_init_def buf_init_ok kToolReadReturnCap_def) (simp add: buf_init_def)
  have v: "read_view (scan_init off lim) = (1, 0, [], False, False)" "rs_scanned (scan_init off lim) = 0"
    "\<not> rs_finished (scan_init off lim)"
    by (simp_all add: read_view_def scan_init_def buf_init_def)
  obtain scan where r: "read_scan_file os 0 (scan_init off lim) = (kReadOk, scan)"
    "read_view scan = foldl (read_byte off lim) (1, 0, [], False, False) (delivered os)"
    "rs_scanned scan = 0 \<longleftrightarrow> delivered os = []"
    using read_scan_file_view [OF ok assms(2) _ assms(4)] assms(3) v by auto
  obtain a b c where "read_view scan =
      (a, b, take kToolReadReturnCap (line_window off lim (delivered os)),
       kToolReadReturnCap < length (line_window off lim (delivered os)), c)"
    using r(2) read_bytes_window [of 0 lim "[]" off 1 "delivered os"] assms(1) by (auto simp: line_window_def)
  then show ?thesis using r by (auto simp: read_view_def)
qed

section \<open>Occurrences\<close>

lemma memchr_first:
  "memchr c xs = Some i \<Longrightarrow> i < length xs"
  "memchr c xs = Some i \<Longrightarrow> xs ! i = c"
  "memchr c xs = Some i \<Longrightarrow> \<forall>j < i. xs ! j \<noteq> c"
  by (induction xs arbitrary: i) (auto split: if_splits simp: nth_Cons split: nat.splits)

definition occurs_at :: "string \<Rightarrow> string \<Rightarrow> nat \<Rightarrow> bool" where
  "occurs_at hay needle i \<longleftrightarrow> i + length needle \<le> length hay \<and> take (length needle) (drop i hay) = needle"

definition occurrences :: "string \<Rightarrow> string \<Rightarrow> nat list" where
  "occurrences hay needle = filter (occurs_at hay needle) [0..<length hay]"

lemma occurs_at_drop: "j \<le> length hay \<Longrightarrow> occurs_at (drop j hay) needle i \<longleftrightarrow> occurs_at hay needle (i + j)"
  by (auto simp: occurs_at_def add.commute)

lemma occurrences_skip:
  assumes "i \<le> length hay" "\<forall>j < i. \<not> occurs_at hay needle j"
  shows "occurrences hay needle = map (\<lambda>j. j + i) (occurrences (drop i hay) needle)"
proof -
  have "[0..<length hay] = [0..<i] @ map (\<lambda>j. j + i) [0..<length hay - i]"
    using assms(1) by (metis add_0 le_add_diff_inverse2 map_add_upt upt_add_eq_append zero_order(1) add.commute)
  moreover have "occurs_at (drop i hay) needle = (\<lambda>j. occurs_at hay needle (j + i))"
    using occurs_at_drop [OF assms(1)] by (simp add: fun_eq_iff)
  ultimately show ?thesis
    using assms by (simp add: occurrences_def filter_map o_def)
qed

lemma occurrences_Cons:
  "occurrences (c # s) needle = (if occurs_at (c # s) needle 0 then [0] else []) @ map Suc (occurrences s needle)"
proof -
  have "[0..<length (c # s)] = 0 # map Suc [0..<length s]" by (simp add: upt_conv_Cons map_Suc_upt del: upt_Suc)
  moreover have "occurs_at (c # s) needle (Suc j) = occurs_at s needle j" for j by (simp add: occurs_at_def)
  ultimately show ?thesis by (simp add: occurrences_def filter_map o_def)
qed

lemma occurs_at_hd: "needle \<noteq> [] \<Longrightarrow> occurs_at hay needle i \<Longrightarrow> hay ! i = hd needle"
  by (metis occurs_at_def add_leD1 hd_drop_conv_nth hd_take le_neq_implies_less length_greater_0_conv
      less_add_same_cancel1 nless_le order_less_le_trans)

lemma occ_from_eq:
  "needle \<noteq> [] \<Longrightarrow> n < kToolEditCountCap \<Longrightarrow>
   occ_from needle pos cursor n first =
     (min kToolEditCountCap (n + length (occurrences cursor needle)),
      if n = 0 \<and> occurrences cursor needle \<noteq> [] then pos + hd (occurrences cursor needle) else first)"
proof (induction needle pos cursor n first rule: occ_from.induct)
  case (1 needle pos cursor n first)
  let ?pre = "take (length cursor - length needle + 1) cursor"
  show ?case
  proof (cases "length cursor < length needle")
    case True
    then have "occurrences cursor needle = []" by (auto simp: occurrences_def occurs_at_def filter_empty_conv)
    then show ?thesis using True "1.prems" by (subst occ_from.simps) simp
  next
    case False
    show ?thesis
    proof (cases "memchr (hd needle) ?pre")
      case None
      have "\<not> occurs_at cursor needle i" for i
      proof
        assume o: "occurs_at cursor needle i"
        then have "i < length cursor - length needle + 1" "cursor ! i = hd needle"
          using occurs_at_hd "1.prems"(1) by (auto simp: occurs_at_def)
        moreover have "i < length cursor" using o "1.prems"(1) by (cases needle) (auto simp: occurs_at_def)
        ultimately have "hd needle \<in> set ?pre" using o
          by (auto simp: occurs_at_def in_set_conv_nth intro!: exI [of _ i])
        then show False using None by simp
      qed
      then have "occurrences cursor needle = []" by (simp add: occurrences_def)
      then show ?thesis using None False "1.prems" by (subst occ_from.simps) simp
    next
      case (Some i)
      note i = memchr_first [OF Some]
      have skip: "\<forall>j < i. \<not> occurs_at cursor needle j"
        using i occurs_at_hd [OF "1.prems"(1)] by fastforce
      have i': "i < length cursor" using i(1) by simp
      obtain c rest where c: "drop i cursor = c # rest" using i' by (metis Cons_nth_drop_Suc)
      have here: "occurs_at (c # rest) needle 0 = (take (length needle) (drop i cursor) = needle)"
        using i(1) False by (auto simp: occurs_at_def c [symmetric])
      have occ: "occurrences cursor needle =
          (if take (length needle) (drop i cursor) = needle then [i] else [])
          @ map (\<lambda>j. j + (i + 1)) (occurrences rest needle)"
        using occurrences_skip [OF less_imp_le [OF i'] skip] by (simp add: c occurrences_Cons here o_def)
      show ?thesis
        using "1.IH" [of i "drop i cursor" "pos + i"] Some False "1.prems" occ c
        by (subst occ_from.simps) (auto simp: Let_def hd_map min_def)
    qed
  qed
qed

lemma count_occurrences_counts_eq:
  "needle \<noteq> [] \<Longrightarrow> count_occurrences hay needle =
     (min kToolEditCountCap (length (occurrences hay needle)),
      if occurrences hay needle = [] then 0 else hd (occurrences hay needle))"
proof -
  assume n: "needle \<noteq> []"
  show ?thesis
  proof (cases "length needle > length hay")
    case True
    then have "occurrences hay needle = []" by (auto simp: occurrences_def occurs_at_def filter_empty_conv)
    then show ?thesis using True by (simp add: count_occurrences_def)
  next
    case False
    then show ?thesis using n by (simp add: count_occurrences_def occ_from_eq kToolEditCountCap_def)
  qed
qed

text \<open>The occurrence counter of the edit tool: overlapping occurrences, counted up to
  \<open>kToolEditCountCap\<close>, with the position of the first one.\<close>

theorem count_occurrences_counts:
  "needle \<noteq> [] \<Longrightarrow> count_occurrences hay needle =
     (min kToolEditCountCap (length (occurrences hay needle)),
      if occurrences hay needle = [] then 0 else hd (occurrences hay needle))"
  by (rule count_occurrences_counts_eq)

theorem count_occurrences_counts_witness:
  "count_occurrences ''aaa'' ''aa'' = (2, 0)"
  using count_occurrences_counts [of "''aa''" "''aaa''"]
  by (simp add: occurrences_def occurs_at_def kToolEditCountCap_def upt_rec)

text \<open>C18. The read tool returns the requested lines: when the file opens, is regular, has no NUL
  byte and fewer bytes than the scan bound, the result is lines \<open>offset\<close> to
  \<open>offset + limit - 1\<close> verbatim, however the system splits the reads, cut at 256 KiB with a
  note, and a note when the offset is past the end of the file.\<close>

theorem read_returns_line_window:
  assumes "json_get_cstr args ''path'' = Some path" "path \<noteq> []"
    and "opt_pos_int args ''offset'' 1 = Some off" "opt_pos_int args ''limit'' INT64_MAX = Some lim"
    and "te_open env = None" "te_stat env = None" "te_regular env"
    and "reads_clean (te_reads env) 0" "delivered (te_reads env) = content"
    and "length content < kToolReadScanCap" "NUL \<notin> set content"
  shows "read_execute env args =
    succeed (let win = line_window off lim content in
      if kToolReadReturnCap < length win
      then take kToolReadReturnCap win @ LF # ''[read: truncated at 256 KiB]''
      else if win = [] \<and> content \<noteq> [] then ''[read: offset past end of file]'' else win)"
proof -
  have "1 \<le> lim" using assms(4) by (auto simp: opt_pos_int_def INT64_MAX_def Let_def split: option.splits cjson.splits if_splits)
  then obtain scan where r: "read_scan_file (te_reads env) 0 (scan_init off lim) = (kReadOk, scan)"
    "buf_data (rs_window scan) = take kToolReadReturnCap (line_window off lim content)"
    "rs_window_full scan = (kToolReadReturnCap < length (line_window off lim content))"
    "rs_scanned scan = 0 \<longleftrightarrow> content = []"
    using read_scan_file_window [of lim "te_reads env" off] assms by auto
  have cap: "kToolReadReturnCap \<noteq> 0" by (simp add: kToolReadReturnCap_def)
  have "read_assemble_content scan kReadOk =
      (let win = line_window off lim content in
       if kToolReadReturnCap < length win
       then take kToolReadReturnCap win @ LF # ''[read: truncated at 256 KiB]''
       else if win = [] \<and> content \<noteq> [] then ''[read: offset past end of file]'' else win)"
    using r(2-4) cap by (auto simp: read_assemble_content_def Let_def)
  then show ?thesis using assms r(1) by (simp add: read_execute_def)
qed

definition sample_read_env :: tool_env where
  "sample_read_env =
     \<lparr>te_os = undefined, te_open = None, te_stat = None, te_regular = True, te_size = 7,
      te_reads = [Got ''a'', ReadFailed EINTR, Got (LF # ''bc'' @ [LF]), Got ''d''],
      te_truncate = None, te_seek = None, te_writes = [], te_close = None\<rparr>"

theorem read_returns_line_window_witness:
  "read_execute sample_read_env (CObject [(''path'', CString ''f''), (''offset'', CNumber (dbl_of_int 2)),
      (''limit'', CNumber (dbl_of_int 1))]) = succeed (''bc'' @ [LF])"
proof -
  let ?args = "CObject [(''path'', CString ''f''), (''offset'', CNumber (dbl_of_int 2)), (''limit'', CNumber (dbl_of_int 1))]"
  have ints: "dbl_to_int64 (dbl_of_int 2) = 2" "dbl_to_int64 (dbl_of_int 1) = 1"
    by (rule dbl_to_int64_exact [OF dbl_of_int_exact], simp add: EXACT_INT_MAX_def)+
  have "read_execute sample_read_env ?args =
    succeed (let win = line_window 2 1 (''a'' @ LF # ''bc'' @ LF # ''d'') in
      if kToolReadReturnCap < length win
      then take kToolReadReturnCap win @ LF # ''[read: truncated at 256 KiB]''
      else if win = [] \<and> (''a'' @ LF # ''bc'' @ LF # ''d'') \<noteq> [] then ''[read: offset past end of file]'' else win)"
    by (rule read_returns_line_window [of ?args "''f''" 2 1 sample_read_env])
      (simp_all add: json_get_cstr_def opt_pos_int_def ints sample_read_env_def kToolReadChunk_def
        kToolReadScanCap_def kToolEintrMax_def)
  then show ?thesis by (simp add: line_window_def kToolReadReturnCap_def)
qed

lemma occurs_at_split:
  "occurs_at hay needle i \<longleftrightarrow> (\<exists>pre post. hay = pre @ needle @ post \<and> length pre = i)"
proof
  assume o: "occurs_at hay needle i"
  then have "hay = take i hay @ needle @ drop (i + length needle) hay"
    by (metis occurs_at_def add.commute append_take_drop_id drop_drop)
  moreover have "length (take i hay) = i" using o by (auto simp: occurs_at_def)
  ultimately show "\<exists>pre post. hay = pre @ needle @ post \<and> length pre = i" by blast
qed (auto simp: occurs_at_def)

lemma edit_failures: "edit_open_and_read env path = Inl r \<Longrightarrow> tr_is_error r"
  by (auto simp: edit_open_and_read_def fail_def split: option.splits if_splits sum.splits)

lemma edit_rewrite_failures: "edit_rewrite env path data = (Some r, file) \<Longrightarrow> tr_is_error r"
  by (auto simp: edit_rewrite_def fail_def split: option.splits prod.splits)

lemma write_all_complete: "write_all os eintr data = (w, None) \<Longrightarrow> w = data"
proof (induction os eintr data arbitrary: w rule: write_all.induct)
  case (1 os eintr data)
  from "1.prems" show ?case
    by (subst (asm) write_all.simps)
      (auto split: if_splits list.splits write_step.splits prod.splits dest: "1.IH")
qed

lemma edit_rewrite_complete: "edit_rewrite env path data = (None, file) \<Longrightarrow> file = Some data"
  by (auto simp: edit_rewrite_def split: option.splits prod.splits dest: write_all_complete)

text \<open>C11. A successful edit replaced the one occurrence of \<open>old_string\<close>: the bytes read have the
  form \<open>pre @ old @ post\<close> in exactly one way, and the file's bytes afterwards are
  \<open>pre @ new @ post\<close>, all of them written. An edit that refuses before the rewrite leaves the
  file alone.\<close>

theorem edit_replaces_unique_occurrence:
  assumes "edit_execute env args = (r, file)" "\<not> tr_is_error r"
  shows "\<exists>path old new pre post.
    json_get_cstr args ''path'' = Some path \<and> json_get_cstr args ''old_string'' = Some old
    \<and> json_get_cstr args ''new_string'' = Some new \<and> old \<noteq> [] \<and> old \<noteq> new
    \<and> edit_open_and_read env path = Inr (pre @ old @ post)
    \<and> (\<forall>pre' post'. pre' @ old @ post' = pre @ old @ post \<longrightarrow> pre' = pre)
    \<and> file = Some (pre @ new @ post)"
proof -
  obtain path old new content n first where a: "json_get_cstr args ''path'' = Some path"
    "json_get_cstr args ''old_string'' = Some old" "json_get_cstr args ''new_string'' = Some new"
    "old \<noteq> []" "old \<noteq> new" "edit_open_and_read env path = Inr content"
    "count_occurrences content old = (n, first)"
    and n: "n = 1"
    and w: "edit_rewrite env path (take first content @ new @ drop (first + length old) content) = (None, file)"
    using assms edit_failures [of env] edit_rewrite_failures [of env]
    by (auto simp: edit_execute_def fail_def Let_def split: option.splits if_splits sum.splits prod.splits)
  have len: "length (occurrences content old) = 1" and hd: "first = hd (occurrences content old)"
    using a(7) n unfolding count_occurrences_counts_eq [OF a(4)]
    by (auto simp: kToolEditCountCap_def min_def split: if_splits)
  then have occ: "occurrences content old = [first]" by (cases "occurrences content old") auto
  have only: "occurs_at content old i \<longleftrightarrow> i = first" for i
  proof -
    have "i < length content" if "occurs_at content old i" using that a(4) by (cases old) (auto simp: occurs_at_def)
    then show ?thesis using arg_cong [OF occ, of set] by (auto simp: occurrences_def set_eq_iff)
  qed
  then obtain pre post where c: "content = pre @ old @ post" "length pre = first"
    using occurs_at_split [of content old first] by auto
  have "pre' = pre" if "pre' @ old @ post' = pre @ old @ post" for pre' post'
  proof -
    have "occurs_at content old (length pre')" unfolding occurs_at_split c(1) that [symmetric] by blast
    then have "length pre' = length pre" using only c(2) by simp
    then show ?thesis using that by simp
  qed
  moreover have "file = Some (pre @ new @ post)"
    using edit_rewrite_complete [OF w] c by simp
  ultimately show ?thesis using a c(1) by blast
qed

definition sample_edit_env :: tool_env where
  "sample_edit_env = sample_read_env\<lparr>te_reads := [Got ''let x = '', Got ''1''], te_size := 9,
     te_writes := [WriteErr EINTR, WroteSome 4, WroteSome 6]\<rparr>"

theorem edit_replaces_unique_occurrence_witness:
  "\<exists>pre post. edit_open_and_read sample_edit_env ''f'' = Inr (pre @ ''x'' @ post)
     \<and> snd (edit_execute sample_edit_env (CObject [(''path'', CString ''f''), (''old_string'', CString ''x''),
         (''new_string'', CString ''yy'')])) = Some (pre @ ''yy'' @ post)"
proof -
  let ?args = "CObject [(''path'', CString ''f''), (''old_string'', CString ''x''), (''new_string'', CString ''yy'')]"
  have run: "edit_execute sample_edit_env ?args = (okf (''edit: replaced 1 occurrence in f''), Some ''let yy = 1'')"
    by (simp add: edit_execute_def json_get_cstr_def edit_open_and_read_def sample_edit_env_def sample_read_env_def
      edit_read.simps write_all.simps kToolEditFileCap_def kToolEintrMax_def count_occurrences_def occ_from.simps
      kToolEditCountCap_def Let_def edit_rewrite_def)
  show ?thesis
    using edit_replaces_unique_occurrence [OF run] by (auto simp: run okf_def json_get_cstr_def)
qed

end
