(* ===== verification/Bash.thy ===== *)
theory Bash
  imports Tools
begin

text \<open>
  The asynchronous bash tool of \<open>tools.c\<close>: the \<open>ToolExec\<close> with its three loop handles
  (process, output pipe, timer), the setup in \<open>bash_execute\<close>, every callback, and
  \<open>tools_cancel\<close>. The world of a run holds beside the struct what libuv knows of the handles,
  the pipe's file descriptors, and the results handed to \<open>done\<close>. libuv is a parameter by its
  documented behaviour: it calls a callback only on a handle that is open (a close callback once,
  after \<open>uv_close\<close>), and \<open>uv_close\<close> on a handle that is not open aborts the process, which
  is the flag \<open>bw_abort\<close>. The order of the events is free.
\<close>

section \<open>State\<close>

definition kToolBashOutputCap :: nat where "kToolBashOutputCap = 64 * 1024"
definition kToolBashScratch :: nat where "kToolBashScratch = 8 * 1024"
definition kToolBashDefaultTimeoutMs :: int where "kToolBashDefaultTimeoutMs = 30000"
definition kToolBashMaxTimeoutMs :: int where "kToolBashMaxTimeoutMs = 120000"
definition kToolBashGraceMs :: int where "kToolBashGraceMs = 500"

record tool_exec =
  te_output :: buf
  te_dropped :: nat
  te_nuls :: nat
  te_timeout_ms :: int
  te_exit_status :: int
  te_term_signal :: int
  te_exited :: bool
  te_pipe_done :: bool
  te_timed_out :: bool
  te_canceled :: bool
  te_done_fired :: bool
  te_timer_closing :: bool
  te_grace_armed :: bool
  te_grace_forced :: bool
  te_closes_done :: nat
  te_closes_expected :: nat

datatype handle = HProc | HOut | HTimer
datatype handle_state = Unregistered | Open | Closing | Closed
datatype timer_role = RunTimeout | Grace

record bash_world =
  bw_exec :: tool_exec
  bw_handles :: "handle \<Rightarrow> handle_state"
  bw_timer :: "timer_role option"
  bw_reading :: bool
  bw_running :: bool
  bw_fds :: "nat list"
  bw_pipe_owns :: bool
  bw_results :: "tool_result list"
  bw_freed :: bool
  bw_abort :: bool

definition bash_done :: "tool_result \<Rightarrow> bash_world \<Rightarrow> bash_world" where
  "bash_done r w = w\<lparr>bw_results := bw_results w @ [r]\<rparr>"

text \<open>\<open>close\<close> of one of the two descriptors of the pipe.\<close>

definition fd_close :: "nat \<Rightarrow> bash_world \<Rightarrow> bash_world" where
  "fd_close fd w = (if fd \<in> set (bw_fds w) then w\<lparr>bw_fds := removeAll fd (bw_fds w)\<rparr> else w\<lparr>bw_abort := True\<rparr>)"

text \<open>\<open>uv_close\<close>: stops the handle's activity; a pipe closes the descriptor it owns.\<close>

definition uv_close :: "handle \<Rightarrow> bash_world \<Rightarrow> bash_world" where
  "uv_close h w =
     (if bw_handles w h \<noteq> Open then w\<lparr>bw_abort := True\<rparr>
      else
        let w = w\<lparr>bw_handles := (bw_handles w)(h := Closing)\<rparr> in
        case h of
          HProc \<Rightarrow> w
        | HTimer \<Rightarrow> w\<lparr>bw_timer := None\<rparr>
        | HOut \<Rightarrow> (let w = w\<lparr>bw_reading := False\<rparr> in if bw_pipe_owns w then fd_close 0 w else w))"

definition set_exec :: "(tool_exec \<Rightarrow> tool_exec) \<Rightarrow> bash_world \<Rightarrow> bash_world" where
  "set_exec f w = w\<lparr>bw_exec := f (bw_exec w)\<rparr>"

section \<open>The result\<close>

definition bash_notes :: "tool_exec \<Rightarrow> string list" where
  "bash_notes exec =
     (if te_timed_out exec
      then [''[bash: timed out after '' @ show_int (te_timeout_ms exec) @ '' ms (SIGKILL)]'']
      else if te_canceled exec then [''[bash: canceled]'']
      else if te_term_signal exec \<noteq> 0 then [''[bash: killed by signal '' @ show_int (te_term_signal exec) @ '']'']
      else if te_exit_status exec \<noteq> 0 then [''[bash: exit code '' @ show_int (te_exit_status exec) @ '']'']
      else [])
     @ (if te_dropped exec > 0 then [''[bash: output truncated at 64 KiB]''] else [])
     @ (if te_grace_forced exec
        then [''[bash: stopped reading 500 ms after exit; a background process still holds the output pipe]'']
        else [])
     @ (if te_nuls exec > 0 then [''[bash: '' @ show_nat (te_nuls exec) @ '' NUL bytes removed]''] else [])"

fun append_notes :: "string \<Rightarrow> string list \<Rightarrow> string" where
  "append_notes content [] = content"
| "append_notes content (n # ns) = append_notes (content @ (if content \<noteq> [] then [LF] else []) @ n) ns"

definition bash_content :: "tool_exec \<Rightarrow> string" where
  "bash_content exec = append_notes (buf_data (te_output exec)) (bash_notes exec)"

definition bash_is_error :: "tool_exec \<Rightarrow> bool" where
  "bash_is_error exec \<longleftrightarrow>
     te_timed_out exec \<or> te_canceled exec \<or> te_term_signal exec \<noteq> 0 \<or> te_exit_status exec \<noteq> 0"

section \<open>Callbacks\<close>

definition bash_close_cb :: "bash_world \<Rightarrow> bash_world" where
  "bash_close_cb w =
     (let w = set_exec (\<lambda>e. e\<lparr>te_closes_done := te_closes_done e + 1\<rparr>) w;
          exec = bw_exec w
      in if te_closes_done exec < te_closes_expected exec then w
         else
           let w = (if \<not> te_done_fired exec
                    then let w = set_exec (\<lambda>e. e\<lparr>te_done_fired := True\<rparr>) w
                         in bash_done \<lparr>tr_content = bash_content exec, tr_is_error = bash_is_error exec\<rparr> w
                    else w)
           in w\<lparr>bw_freed := True\<rparr>)"

text \<open>\<open>start_ok\<close>: whether \<open>uv_timer_start\<close> succeeds for the grace wait.\<close>

definition bash_maybe_finish :: "bool \<Rightarrow> bash_world \<Rightarrow> bash_world" where
  "bash_maybe_finish start_ok w =
     (let exec = bw_exec w in
      if \<not> te_exited exec then w
      else if te_pipe_done exec
      then (if \<not> te_timer_closing exec
            then let w = set_exec (\<lambda>e. e\<lparr>te_timer_closing := True\<rparr>) w; w = w\<lparr>bw_timer := None\<rparr>
                 in uv_close HTimer w
            else w)
      else if \<not> te_grace_armed exec
      then
        let w = set_exec (\<lambda>e. e\<lparr>te_grace_armed := True\<rparr>) w; w = w\<lparr>bw_timer := None\<rparr>
        in if start_ok then w\<lparr>bw_timer := Some Grace\<rparr>
           else
             let w = set_exec (\<lambda>e. e\<lparr>te_grace_forced := True, te_pipe_done := True\<rparr>) w;
                 w = uv_close HOut w;
                 w = set_exec (\<lambda>e. e\<lparr>te_timer_closing := True\<rparr>) w
             in uv_close HTimer w
      else w)"

definition bash_force_pipe_close :: "bool \<Rightarrow> bash_world \<Rightarrow> bash_world" where
  "bash_force_pipe_close start_ok w =
     (if te_pipe_done (bw_exec w) then w
      else
        let w = set_exec (\<lambda>e. e\<lparr>te_pipe_done := True\<rparr>) w; w = uv_close HOut w
        in bash_maybe_finish start_ok w)"

definition bash_grace_cb :: "bool \<Rightarrow> bash_world \<Rightarrow> bash_world" where
  "bash_grace_cb start_ok w = bash_force_pipe_close start_ok (set_exec (\<lambda>e. e\<lparr>te_grace_forced := True\<rparr>) w)"

definition bash_append_segment :: "tool_exec \<Rightarrow> string \<Rightarrow> tool_exec" where
  "bash_append_segment exec seg =
     (if seg = [] then exec
      else
        let out = te_output exec;
            room = (if buf_size out < buf_max out then size_sub (buf_max out) (buf_size out) else 0);
            n = min (length seg) room;
            out = (if n > 0 then (case buf_append out (take n seg) of Some b \<Rightarrow> b | None \<Rightarrow> out) else out)
        in exec\<lparr>te_output := out, te_dropped := te_dropped exec + (length seg - n)\<rparr>)"

function bash_append_output :: "tool_exec \<Rightarrow> string \<Rightarrow> tool_exec" where
  "bash_append_output exec bytes =
     (if bytes = [] then exec
      else (case memchr NUL bytes of
              Some i \<Rightarrow>
                let exec = bash_append_segment exec (take i bytes)
                in bash_append_output (exec\<lparr>te_nuls := te_nuls exec + 1\<rparr>) (drop (i + 1) bytes)
            | None \<Rightarrow> bash_append_segment exec bytes))"
  by auto
termination by (relation "measure (\<lambda>(_, bytes). length bytes)") auto

declare bash_append_output.simps [simp del]

text \<open>What the read callback gets: bytes, nothing, or the end of the stream (or an error).\<close>

datatype read_event = Bytes string | Spurious | ReadEnd

fun bash_read_cb :: "bool \<Rightarrow> read_event \<Rightarrow> bash_world \<Rightarrow> bash_world" where
  "bash_read_cb start_ok (Bytes bs) w =
     (if bs = [] then w else set_exec (\<lambda>e. bash_append_output e (take kToolBashScratch bs)) w)"
| "bash_read_cb start_ok Spurious w = w"
| "bash_read_cb start_ok ReadEnd w = bash_force_pipe_close start_ok w"

definition bash_exit_cb :: "bool \<Rightarrow> int \<Rightarrow> int \<Rightarrow> bash_world \<Rightarrow> bash_world" where
  "bash_exit_cb start_ok exit_status term_signal w =
     (let w = set_exec (\<lambda>e. e\<lparr>te_exited := True, te_exit_status := exit_status, te_term_signal := term_signal\<rparr>) w;
          w = uv_close HProc w
      in bash_maybe_finish start_ok w)"

definition bash_timeout_cb :: "bash_world \<Rightarrow> bash_world" where
  "bash_timeout_cb w =
     (if te_exited (bw_exec w) then w else set_exec (\<lambda>e. e\<lparr>te_timed_out := True\<rparr>) w)"

definition tools_cancel :: "bool \<Rightarrow> bash_world \<Rightarrow> bash_world" where
  "tools_cancel start_ok w =
     (let w = set_exec (\<lambda>e. e\<lparr>te_canceled := True\<rparr>) w in
      if \<not> te_exited (bw_exec w) then w else bash_force_pipe_close start_ok w)"

section \<open>Setup\<close>

definition bash_parse_args :: "cjson \<Rightarrow> tool_result + (string \<times> int)" where
  "bash_parse_args args =
     (case json_get_cstr args ''command'' of
        None \<Rightarrow> Inl (fail ''bash: command is required'')
      | Some command \<Rightarrow>
          if command = [] then Inl (fail ''bash: command is required'')
          else (case cj_get args ''timeout_ms'' of
                  None \<Rightarrow> Inr (command, kToolBashDefaultTimeoutMs)
                | Some (CNumber d) \<Rightarrow>
                    let t = dbl_to_int64 d;
                        t = (if t < 1 then 1 else t);
                        t = (if t > kToolBashMaxTimeoutMs then kToolBashMaxTimeoutMs else t)
                    in Inr (command, t)
                | Some _ \<Rightarrow> Inl (fail ''bash: timeout_ms must be a number'')))"

text \<open>The outcomes of the setup calls; a string is \<open>uv_strerror\<close> of the failure.\<close>

record bash_setup =
  su_pipe :: "errno option"
  su_fcntl :: "errno option"
  su_pipe_init :: bool
  su_pipe_open :: bool
  su_timer_init :: bool
  su_spawn :: "string option"
  su_read_start :: "string option"
  su_timer_start :: "string option"

definition exec_init :: "int \<Rightarrow> tool_exec" where
  "exec_init timeout_ms =
     \<lparr>te_output = buf_init kToolBashOutputCap, te_dropped = 0, te_nuls = 0, te_timeout_ms = timeout_ms,
      te_exit_status = 0, te_term_signal = 0, te_exited = False, te_pipe_done = False, te_timed_out = False,
      te_canceled = False, te_done_fired = False, te_timer_closing = False, te_grace_armed = False,
      te_grace_forced = False, te_closes_done = 0, te_closes_expected = 0\<rparr>"

definition world_init :: "int \<Rightarrow> bash_world" where
  "world_init timeout_ms =
     \<lparr>bw_exec = exec_init timeout_ms, bw_handles = (\<lambda>_. Unregistered), bw_timer = None, bw_reading = False,
      bw_running = False, bw_fds = [0, 1], bw_pipe_owns = False, bw_results = [], bw_freed = False,
      bw_abort = False\<rparr>"

text \<open>The world when \<open>done\<close> fired before any struct existed.\<close>

definition no_exec :: "tool_result \<Rightarrow> bash_world" where
  "no_exec r = (world_init 0)\<lparr>bw_fds := [], bw_results := [r], bw_freed := True\<rparr>"

definition bash_make_pipe :: "bash_setup \<Rightarrow> tool_result option" where
  "bash_make_pipe su =
     (case su_pipe su of
        Some e \<Rightarrow> Some (fail (''bash: pipe: '' @ strerror e))
      | None \<Rightarrow> (case su_fcntl su of Some e \<Rightarrow> Some (fail (''bash: fcntl: '' @ strerror e)) | None \<Rightarrow> None))"

definition bash_fail :: "string \<Rightarrow> bash_world \<Rightarrow> bash_world" where
  "bash_fail msg w = bash_done (fail msg) (set_exec (\<lambda>e. e\<lparr>te_done_fired := True\<rparr>) w)"

text \<open>The flag: whether a handle is returned to the caller.\<close>

definition bash_arm :: "bash_setup \<Rightarrow> bash_world \<Rightarrow> bool \<times> bash_world" where
  "bash_arm su w =
     (case su_read_start su of
        Some msg \<Rightarrow>
          let w = bash_fail (''bash: read start: '' @ msg) w;
              w = set_exec (\<lambda>e. e\<lparr>te_pipe_done := True\<rparr>) w
          in (False, uv_close HOut w)
      | None \<Rightarrow>
          let w = w\<lparr>bw_reading := True\<rparr> in
          (case su_timer_start su of
             Some msg \<Rightarrow> (False, bash_fail (''bash: timer start: '' @ msg) w)
           | None \<Rightarrow> (True, w\<lparr>bw_timer := Some RunTimeout\<rparr>)))"

definition set_handle :: "handle \<Rightarrow> nat \<Rightarrow> bash_world \<Rightarrow> bash_world" where
  "set_handle h closes w =
     set_exec (\<lambda>e. e\<lparr>te_closes_expected := closes\<rparr>) (w\<lparr>bw_handles := (bw_handles w)(h := Open)\<rparr>)"

definition bash_execute :: "bash_setup \<Rightarrow> cjson \<Rightarrow> bool \<times> bash_world" where
  "bash_execute su args =
     (case bash_parse_args args of
        Inl r \<Rightarrow> (False, no_exec r)
      | Inr (command, timeout_ms) \<Rightarrow>
          (case bash_make_pipe su of
             Some r \<Rightarrow> (False, no_exec r)
           | None \<Rightarrow>
               let w = world_init timeout_ms in
               if \<not> su_pipe_init su
               then
                 let w = bash_done (fail ''bash: pipe handle init failed'') w;
                     w = fd_close 1 (fd_close 0 w)
                 in (False, w\<lparr>bw_freed := True\<rparr>)
               else
                 let w = set_handle HOut 1 w in
                 if \<not> su_pipe_open su
                 then
                   let w = fd_close 1 (fd_close 0 w);
                       w = bash_fail ''bash: pipe open failed'' w
                   in (False, uv_close HOut w)
                 else
                   let w = w\<lparr>bw_pipe_owns := True\<rparr> in
                   if \<not> su_timer_init su
                   then
                     let w = fd_close 1 w; w = bash_fail ''bash: timer init failed'' w
                     in (False, uv_close HOut w)
                   else
                     let w = set_handle HTimer 2 w;
                         w = (set_handle HProc 3 w)\<lparr>bw_running := su_spawn su = None\<rparr>;
                         w = fd_close 1 w
                     in (case su_spawn su of
                           Some msg \<Rightarrow>
                             let w = bash_fail (''bash: spawn: '' @ msg) w;
                                 w = uv_close HOut (uv_close HProc w);
                                 w = set_exec (\<lambda>e. e\<lparr>te_timer_closing := True\<rparr>) w
                             in (False, uv_close HTimer w)
                         | None \<Rightarrow> bash_arm su w)))"

section \<open>Events\<close>

text \<open>One turn of the loop, or the owner's cancel. \<open>None\<close>: libuv does not deliver that event
  in that state. Every event carries whether a timer start in it would succeed.\<close>

datatype bash_event = EvRead read_event | EvExit int int | EvTimer | EvClosed handle | EvCancel

fun bash_step :: "bash_world \<Rightarrow> bool \<times> bash_event \<Rightarrow> bash_world option" where
  "bash_step w (ok, EvRead r) = (if bw_reading w then Some (bash_read_cb ok r w) else None)"
| "bash_step w (ok, EvExit st sg) =
     (if bw_running w then Some (bash_exit_cb ok st sg (w\<lparr>bw_running := False\<rparr>)) else None)"
| "bash_step w (ok, EvTimer) =
     (case bw_timer w of
        None \<Rightarrow> None
      | Some RunTimeout \<Rightarrow> Some (bash_timeout_cb (w\<lparr>bw_timer := None\<rparr>))
      | Some Grace \<Rightarrow> Some (bash_grace_cb ok (w\<lparr>bw_timer := None\<rparr>)))"
| "bash_step w (ok, EvClosed h) =
     (if bw_handles w h = Closing
      then Some (bash_close_cb (w\<lparr>bw_handles := (bw_handles w)(h := Closed)\<rparr>)) else None)"
| "bash_step w (ok, EvCancel) =
     (if \<not> bw_freed w \<and> \<not> te_done_fired (bw_exec w) then Some (tools_cancel ok w) else None)"

fun bash_run :: "bash_world \<Rightarrow> (bool \<times> bash_event) list \<Rightarrow> bash_world option" where
  "bash_run w [] = Some w"
| "bash_run w (e # es) = (case bash_step w e of None \<Rightarrow> None | Some w' \<Rightarrow> bash_run w' es)"

end
