(* ===== verification/Callbacks.thy ===== *)
theory Callbacks
  imports Main
begin

text \<open>
  The callback contract that the event-driven components share: an object makes callbacks until
  it makes its final one, and none after it. \<open>outs\<close> is the list of all callbacks made so far.
\<close>

locale one_shot =
  fixes ok :: "'s \<Rightarrow> bool"
    and step :: "'s \<Rightarrow> 'e \<Rightarrow> 's option"
    and outs :: "'s \<Rightarrow> 'o list"
    and final :: "'o \<Rightarrow> bool"
  assumes step_ok: "ok s \<Longrightarrow> step s e = Some s' \<Longrightarrow> ok s'"
    and outs_grow: "ok s \<Longrightarrow> step s e = Some s' \<Longrightarrow> \<exists>new. outs s' = outs s @ new"
    and outs_shape: "ok s \<Longrightarrow> \<exists>ts. list_all (\<lambda>x. \<not> final x) ts \<and> (outs s = ts \<or> (\<exists>t. final t \<and> outs s = ts @ [t]))"
begin

definition closed :: "'s \<Rightarrow> bool" where
  "closed s \<longleftrightarrow> (\<exists>x \<in> set (outs s). final x)"

definition fresh_outs :: "'s \<Rightarrow> 's \<Rightarrow> 'o list" where
  "fresh_outs s s' = drop (length (outs s)) (outs s')"

lemma shape_cases:
  assumes "ok s"
  obtains (live) "list_all (\<lambda>x. \<not> final x) (outs s)" "\<not> closed s"
    | (ended) ts t where "list_all (\<lambda>x. \<not> final x) ts" "final t" "outs s = ts @ [t]" "closed s"
  using outs_shape [OF assms] by (auto simp: closed_def list_all_iff)

text \<open>The callbacks of one step of a live object: non-final ones, then the final one if it closes.\<close>

lemma fresh_cases:
  assumes "ok s" "\<not> closed s" "step s e = Some s'"
  obtains (live) "list_all (\<lambda>x. \<not> final x) (fresh_outs s s')" "\<not> closed s'"
    | (ended) ts t where "list_all (\<lambda>x. \<not> final x) ts" "final t" "fresh_outs s s' = ts @ [t]" "closed s'"
proof -
  obtain new where new: "outs s' = outs s @ new" using outs_grow [OF assms(1,3)] by blast
  then have fresh: "fresh_outs s s' = new" by (simp add: fresh_outs_def)
  have s: "list_all (\<lambda>x. \<not> final x) (outs s)" using assms(2) by (auto simp: closed_def list_all_iff)
  show thesis
  proof (rule shape_cases [OF step_ok [OF assms(1,3)]])
    assume "list_all (\<lambda>x. \<not> final x) (outs s')" "\<not> closed s'"
    then show thesis using live new fresh by simp
  next
    fix ts t assume t: "list_all (\<lambda>x. \<not> final x) ts" "final t" "outs s' = ts @ [t]" "closed s'"
    have "new \<noteq> []"
    proof
      assume "new = []"
      then have "outs s = ts @ [t]" using new t(3) by simp
      then show False using s t(2) by simp
    qed
    then have "butlast (outs s') = outs s @ butlast new" "last new = t"
      using new t(3) by (auto simp: butlast_append) (metis last_appendR last_snoc)
    then have "list_all (\<lambda>x. \<not> final x) (butlast new)" "new = butlast new @ [t]"
      using t(1,3) \<open>new \<noteq> []\<close> append_butlast_last_id [of new] by simp_all
    then show thesis using ended [OF _ t(2) _ t(4)] fresh by simp
  qed
qed

lemma closed_silent:
  assumes "ok s" "closed s" "step s e = Some s'"
  shows "fresh_outs s s' = [] \<and> closed s'"
proof -
  obtain ts t where s: "list_all (\<lambda>x. \<not> final x) ts" "final t" "outs s = ts @ [t]"
    using shape_cases [OF assms(1)] assms(2) by metis
  obtain new where new: "outs s' = outs s @ new" using outs_grow [OF assms(1,3)] by blast
  have "new = []"
  proof (rule shape_cases [OF step_ok [OF assms(1,3)]])
    assume "list_all (\<lambda>x. \<not> final x) (outs s')"
    then show ?thesis using new s(2,3) by simp
  next
    fix us u assume u: "list_all (\<lambda>x. \<not> final x) us" "outs s' = us @ [u]"
    show ?thesis
    proof (rule ccontr)
      assume "new \<noteq> []"
      then have "us = outs s @ butlast new" using new u(2) by (metis butlast_append butlast_snoc)
      then show False using u(1) s(2,3) by simp
    qed
  qed
  then show ?thesis using new assms(2) by (simp add: fresh_outs_def closed_def)
qed

end

end
