(* ===== verification/BashProps.thy ===== *)
theory BashProps
  imports Bash Callbacks
begin

text \<open>
  Properties of the bash tool's event machine: an invariant of the world that every setup outcome
  establishes and every event keeps, a measure that every event but a read of bytes and a cancel
  decreases, the once-only result, and the contents of the captured output.
\<close>

section \<open>The captured output\<close>

definition out_ok :: "tool_exec \<Rightarrow> bool" where
  "out_ok e \<longleftrightarrow> buf_ok (te_output e) \<and> buf_max (te_output e) = kToolBashOutputCap"

text \<open>Output, bytes dropped, NUL bytes seen: one byte at a time.\<close>

definition out_byte :: "string \<times> nat \<times> nat \<Rightarrow> char \<Rightarrow> string \<times> nat \<times> nat" where
  "out_byte v c = (case v of (out, dropped, nuls) \<Rightarrow>
     if c = NUL then (out, dropped, nuls + 1)
     else if length out < kToolBashOutputCap then (out @ [c], dropped, nuls)
     else (out, dropped + 1, nuls))"

definition out_view :: "tool_exec \<Rightarrow> string \<times> nat \<times> nat" where
  "out_view e = (buf_data (te_output e), te_dropped e, te_nuls e)"

lemma foldl_out_segment:
  "NUL \<notin> set s \<Longrightarrow> length out \<le> kToolBashOutputCap \<Longrightarrow>
   foldl out_byte (out, d, n) s =
     (out @ take (kToolBashOutputCap - length out) s, d + (length s - (kToolBashOutputCap - length out)), n)"
  by (induction s arbitrary: out d) (auto simp: out_byte_def take_Cons' Suc_diff_le Suc_diff_Suc)

lemma out_byte_spec:
  "foldl out_byte ([], 0, 0) s =
     (take kToolBashOutputCap (filter (\<lambda>c. c \<noteq> NUL) s),
      length (filter (\<lambda>c. c \<noteq> NUL) s) - kToolBashOutputCap, length (filter (\<lambda>c. c = NUL) s))"
  by (induction s rule: rev_induct) (auto simp: out_byte_def)

lemma bash_append_segment_view:
  assumes "out_ok e" "NUL \<notin> set s"
  shows "out_ok (bash_append_segment e s) \<and> out_view (bash_append_segment e s) = foldl out_byte (out_view e) s"
proof (cases "s = []")
  case False
  let ?b = "te_output e"
  have b: "buf_ok ?b" "buf_max ?b = kToolBashOutputCap" using assms(1) by (auto simp: out_ok_def)
  have within: "length (buf_data ?b) \<le> kToolBashOutputCap" using buf.within [OF b(1)] b(2) by simp
  define room where "room = kToolBashOutputCap - length (buf_data ?b)"
  have r: "(if buf_size ?b < buf_max ?b then size_sub (buf_max ?b) (buf_size ?b) else 0) = room"
    using within b(2) by (auto simp: room_def size_sub_eq buf_size_def kToolBashOutputCap_def)
  have "buf_size ?b + length (take (min (length s) room) s) \<le> buf_max ?b"
    using within b(2) by (cases "length s \<le> room") (simp_all add: buf_size_def room_def)
  from buf_append_fits [OF b(1) this] obtain c where
    a: "buf_append ?b (take (min (length s) room) s) =
      Some (?b\<lparr>buf_data := buf_data ?b @ take (min (length s) room) s, buf_cap := c\<rparr>)" by blast
  from b(1) a have ok: "buf_ok (?b\<lparr>buf_data := buf_data ?b @ take (min (length s) room) s, buf_cap := c\<rparr>)"
    by (rule buf.appendE) simp
  have t: "take (min (length s) room) s = take room s" by (simp add: min_def)
  have "bash_append_segment e s = e\<lparr>te_output := (if min (length s) room > 0
      then ?b\<lparr>buf_data := buf_data ?b @ take (min (length s) room) s, buf_cap := c\<rparr> else ?b),
      te_dropped := te_dropped e + (length s - min (length s) room)\<rparr>"
    using False a by (simp add: bash_append_segment_def Let_def r)
  then show ?thesis
    using ok b foldl_out_segment [OF assms(2) within, of "te_dropped e" "te_nuls e"] False
    unfolding t by (auto simp: out_ok_def out_view_def room_def)
qed (simp add: bash_append_segment_def assms)

lemma bash_append_output_view:
  "out_ok e \<Longrightarrow> out_ok (bash_append_output e bs) \<and> out_view (bash_append_output e bs) = foldl out_byte (out_view e) bs"
proof (induction e bs rule: bash_append_output.induct)
  case (1 e bs)
  show ?case
  proof (cases bs rule: takeWhile_dropWhile_cases [of "\<lambda>c. c \<noteq> NUL"])
    case all
    then have "memchr NUL bs = None" "NUL \<notin> set bs" by auto
    then show ?thesis using bash_append_segment_view [OF "1.prems"] "1.prems"
      by (subst (1 2) bash_append_output.simps) (simp del: memchr_None)
  next
    case (stop y ys)
    let ?seg = "takeWhile (\<lambda>c. c \<noteq> NUL) bs"
    let ?e = "bash_append_segment e ?seg"
    have m: "memchr NUL bs = Some (length ?seg)" using stop by (subst memchr_Some) (auto simp: in_set_conv_decomp)
    have s: "take (length ?seg) bs = ?seg" "drop (length ?seg + 1) bs = ys"
      using stop drop_Suc_length_takeWhile [of "\<lambda>c. c \<noteq> NUL" bs] take_length_takeWhile [of "\<lambda>c. c \<noteq> NUL" bs] by auto
    have e: "out_ok ?e" "out_view ?e = foldl out_byte (out_view e) ?seg"
      using bash_append_segment_view [OF "1.prems", of ?seg] stop(4) by auto
    have e': "out_ok (?e\<lparr>te_nuls := te_nuls ?e + 1\<rparr>)"
      "out_view (?e\<lparr>te_nuls := te_nuls ?e + 1\<rparr>) = out_byte (out_view ?e) NUL"
      using e(1) by (auto simp: out_ok_def out_view_def out_byte_def)
    have ne: "bs \<noteq> []" using stop(2) by auto
    have run: "bash_append_output e bs = bash_append_output (?e\<lparr>te_nuls := te_nuls ?e + 1\<rparr>) ys"
      using ne by (subst bash_append_output.simps) (simp add: m s(2) [simplified] s(1) Let_def)
    have split: "foldl out_byte v bs = foldl out_byte (out_byte (foldl out_byte v ?seg) NUL) ys" for v
      using stop by (metis foldl_Cons foldl_append)
    show ?thesis
      using "1.IH" [OF ne m refl] e' e(2) stop(1) unfolding run split s by auto
  qed
qed

interpretation bash_out: chunked_consumer out_ok out_view out_byte bash_append_output
  by unfold_locales (simp_all add: bash_append_output_view)

section \<open>The invariant\<close>

definition closed_count :: "(handle \<Rightarrow> handle_state) \<Rightarrow> nat" where
  "closed_count hs = length (filter (\<lambda>h. hs h = Closed) [HProc, HOut, HTimer])"

definition registered :: "(handle \<Rightarrow> handle_state) \<Rightarrow> nat" where
  "registered hs = length (filter (\<lambda>h. hs h \<noteq> Unregistered) [HProc, HOut, HTimer])"

lemma handle_counts:
  "hs h = Closing \<Longrightarrow> closed_count (hs(h := Closed)) = closed_count hs + 1"
  "hs h = Closing \<Longrightarrow> registered (hs(h := Closed)) = registered hs"
  "hs h = Open \<Longrightarrow> closed_count (hs(h := Closing)) = closed_count hs"
  "hs h = Open \<Longrightarrow> registered (hs(h := Closing)) = registered hs"
  by (cases h; simp add: closed_count_def registered_def)+

lemma closed_count_all:
  "closed_count hs = 3 \<longleftrightarrow> (\<forall>h. hs h = Closed)" "closed_count hs \<le> 3" "closed_count hs \<le> registered hs"
proof -
  show "closed_count hs = 3 \<longleftrightarrow> (\<forall>h. hs h = Closed)"
  proof
    assume "closed_count hs = 3"
    then have "hs HProc = Closed \<and> hs HOut = Closed \<and> hs HTimer = Closed"
      by (auto simp: closed_count_def split: if_splits)
    then show "\<forall>h. hs h = Closed" by (metis handle.exhaust)
  qed (simp add: closed_count_def)
qed (auto simp: closed_count_def registered_def)

text \<open>A spawned child: the flags of the struct mirror the handles, and an exited child whose
  pipe is still open always has the grace timer armed.\<close>

definition bash_live :: "bash_world \<Rightarrow> bool" where
  "bash_live w \<longleftrightarrow> (let e = bw_exec w; hs = bw_handles w in
     (bw_running w \<longleftrightarrow> \<not> te_exited e) \<and> (hs HProc = Open \<longleftrightarrow> \<not> te_exited e)
     \<and> (hs HOut = Open \<longleftrightarrow> \<not> te_pipe_done e) \<and> (hs HTimer = Open \<longleftrightarrow> \<not> te_timer_closing e)
     \<and> (te_timer_closing e \<longleftrightarrow> te_exited e \<and> te_pipe_done e)
     \<and> (te_grace_armed e \<longrightarrow> te_exited e)
     \<and> (bw_timer w = Some Grace \<longleftrightarrow> te_exited e \<and> \<not> te_pipe_done e)
     \<and> (bw_timer w = Some RunTimeout \<longrightarrow> \<not> te_exited e)
     \<and> (bw_reading w \<longrightarrow> \<not> te_pipe_done e) \<and> bw_pipe_owns w
     \<and> bw_fds w = (if te_pipe_done e then [] else [0])
     \<and> te_closes_expected e = 3 \<and> registered hs = 3)"

text \<open>A failed setup: \<open>done\<close> has fired, every registered handle is closing.\<close>

definition bash_unwinding :: "bash_world \<Rightarrow> bool" where
  "bash_unwinding w \<longleftrightarrow> \<not> bw_running w \<and> bw_timer w = None \<and> \<not> bw_reading w \<and> bw_fds w = []
     \<and> (\<forall>h. bw_handles w h \<noteq> Open) \<and> te_closes_expected (bw_exec w) = registered (bw_handles w)
     \<and> (te_done_fired (bw_exec w) \<or> bw_freed w)"

definition bash_ok :: "bash_world \<Rightarrow> bool" where
  "bash_ok w \<longleftrightarrow> (bash_live w \<or> bash_unwinding w) \<and> \<not> bw_abort w
     \<and> te_closes_done (bw_exec w) = closed_count (bw_handles w)
     \<and> (bw_freed w \<longleftrightarrow> te_closes_done (bw_exec w) = te_closes_expected (bw_exec w))
     \<and> length (bw_results w) = (if te_done_fired (bw_exec w) \<or> bw_freed w then 1 else 0)
     \<and> out_ok (bw_exec w)"

lemmas bash_world_defs = set_exec_def bash_done_def bash_fail_def fd_close_def uv_close_def Let_def

lemma out_ok_update [simp]:
  "out_ok (e\<lparr>te_nuls := n\<rparr>) = out_ok e" "out_ok (e\<lparr>te_exited := b\<rparr>) = out_ok e"
  "out_ok (e\<lparr>te_exit_status := i\<rparr>) = out_ok e" "out_ok (e\<lparr>te_term_signal := i\<rparr>) = out_ok e"
  "out_ok (e\<lparr>te_pipe_done := b\<rparr>) = out_ok e" "out_ok (e\<lparr>te_timed_out := b\<rparr>) = out_ok e"
  "out_ok (e\<lparr>te_canceled := b\<rparr>) = out_ok e" "out_ok (e\<lparr>te_done_fired := b\<rparr>) = out_ok e"
  "out_ok (e\<lparr>te_timer_closing := b\<rparr>) = out_ok e" "out_ok (e\<lparr>te_grace_armed := b\<rparr>) = out_ok e"
  "out_ok (e\<lparr>te_grace_forced := b\<rparr>) = out_ok e" "out_ok (e\<lparr>te_closes_done := n\<rparr>) = out_ok e"
  "out_ok (e\<lparr>te_closes_expected := n\<rparr>) = out_ok e"
  by (simp_all add: out_ok_def)

lemma out_ok_init: "out_ok (exec_init t)"
proof -
  have "buf_max (buf_init kToolBashOutputCap) = kToolBashOutputCap" by (simp add: buf_init_def)
  moreover have "buf_ok (buf_init kToolBashOutputCap)" by (rule buf_init_ok) (simp add: kToolBashOutputCap_def)
  ultimately show ?thesis by (simp add: out_ok_def exec_init_def)
qed

lemma exec_init_simps [simp]:
  "\<not> te_exited (exec_init t)" "\<not> te_pipe_done (exec_init t)" "\<not> te_done_fired (exec_init t)"
  "\<not> te_timer_closing (exec_init t)" "\<not> te_grace_armed (exec_init t)" "te_closes_done (exec_init t) = 0"
  "te_closes_expected (exec_init t) = 0" "out_ok (exec_init t)"
  by (simp_all add: out_ok_init) (simp_all add: exec_init_def)

lemma all_handles: "(\<forall>h. P h) \<longleftrightarrow> P HProc \<and> P HOut \<and> P HTimer"
  by (metis handle.exhaust)

lemmas bash_ok_defs = bash_ok_def bash_live_def bash_unwinding_def closed_count_def registered_def all_handles

lemma bash_setup_ok:
  "bash_ok (no_exec r)" "bw_freed (no_exec r)"
  by (simp_all add: bash_ok_defs no_exec_def world_init_def Let_def)

lemma bash_arm_ok:
  assumes "w = (let w = (set_handle HProc 3 (set_handle HTimer 2 ((set_handle HOut 1 (world_init t))\<lparr>bw_pipe_owns := True\<rparr>)))
      \<lparr>bw_running := True\<rparr> in fd_close 1 w)" "bash_arm su w = (h, w')"
  shows "bash_ok w' \<and> (h \<longleftrightarrow> \<not> te_done_fired (bw_exec w') \<and> \<not> bw_freed w')"
proof (cases "su_read_start su")
  case None
  show ?thesis
  proof (cases "su_timer_start su")
    case None
    show ?thesis
      using assms \<open>su_read_start su = None\<close> None
      by (clarsimp simp: bash_arm_def bash_world_defs set_handle_def world_init_def) (simp add: bash_ok_defs Let_def)
  next
    case (Some m)
    then show ?thesis
      using assms \<open>su_read_start su = None\<close>
      by (clarsimp simp: bash_arm_def bash_world_defs set_handle_def world_init_def) (simp add: bash_ok_defs Let_def)
  qed
next
  case (Some m)
  then show ?thesis
    using assms
    by (clarsimp simp: bash_arm_def bash_world_defs set_handle_def world_init_def) (simp add: bash_ok_defs Let_def)
qed

text \<open>Updates the invariant does not look at.\<close>

lemma bash_frame [simp]:
  "bash_live (w\<lparr>bw_exec := (bw_exec w)\<lparr>te_output := b, te_dropped := d, te_nuls := n\<rparr>\<rparr>) = bash_live w"
  "bash_unwinding (w\<lparr>bw_exec := (bw_exec w)\<lparr>te_output := b, te_dropped := d, te_nuls := n\<rparr>\<rparr>) = bash_unwinding w"
  "bash_live (w\<lparr>bw_exec := (bw_exec w)\<lparr>te_canceled := c\<rparr>\<rparr>) = bash_live w"
  "bash_live (w\<lparr>bw_exec := (bw_exec w)\<lparr>te_closes_done := n\<rparr>\<rparr>) = bash_live w"
  "bash_unwinding (w\<lparr>bw_exec := (bw_exec w)\<lparr>te_closes_done := n\<rparr>\<rparr>) = bash_unwinding w"
  by (simp_all add: bash_live_def bash_unwinding_def Let_def)

lemma bash_execute_ok:
  assumes "bash_execute su args = (h, w)"
  shows "bash_ok w \<and> (h \<longleftrightarrow> \<not> te_done_fired (bw_exec w) \<and> \<not> bw_freed w)"
proof (cases "bash_parse_args args")
  case (Inl r)
  then show ?thesis using assms bash_setup_ok by (auto simp: bash_execute_def)
next
  case (Inr ct)
  obtain command t where ct: "ct = (command, t)" by fastforce
  note go = Inr [unfolded ct]
  show ?thesis
  proof (cases "bash_make_pipe su")
    case (Some r)
    then show ?thesis using assms go bash_setup_ok by (auto simp: bash_execute_def)
  next
    case None
    note go = go None
    consider "\<not> su_pipe_init su" | "su_pipe_init su" "\<not> su_pipe_open su"
      | "su_pipe_init su" "su_pipe_open su" "\<not> su_timer_init su"
      | m where "su_pipe_init su" "su_pipe_open su" "su_timer_init su" "su_spawn su = Some m"
      | "su_pipe_init su" "su_pipe_open su" "su_timer_init su" "su_spawn su = None"
      by (cases "su_spawn su") auto
    then show ?thesis
    proof cases
      case 5
      have "bash_arm su (fd_close 1 ((set_handle HProc 3 (set_handle HTimer 2
          ((set_handle HOut 1 (world_init t))\<lparr>bw_pipe_owns := True\<rparr>)))\<lparr>bw_running := True\<rparr>)) = (h, w)"
        using assms go 5 by (simp add: bash_execute_def Let_def)
      then show ?thesis by (rule bash_arm_ok [rotated]) (simp add: Let_def)
    qed (use assms go in \<open>clarsimp simp: bash_execute_def bash_world_defs set_handle_def world_init_def,
          simp add: bash_ok_defs Let_def\<close>)+
  qed
qed

section \<open>Every event keeps the invariant\<close>

lemma bash_live_uv:
  "bash_live w \<Longrightarrow> \<not> te_exited (bw_exec w) \<Longrightarrow> bw_handles w HProc = Open"
  "bash_live w \<Longrightarrow> \<not> te_pipe_done (bw_exec w) \<Longrightarrow> bw_handles w HOut = Open"
  "bash_live w \<Longrightarrow> \<not> te_timer_closing (bw_exec w) \<Longrightarrow> bw_handles w HTimer = Open"
  by (auto simp: bash_live_def Let_def)

lemma bash_append_segment_frame:
  "bash_append_segment e s = e\<lparr>te_output := te_output (bash_append_segment e s), te_dropped := te_dropped (bash_append_segment e s)\<rparr>"
  by (simp add: bash_append_segment_def Let_def)

lemma bash_append_output_frame:
  "\<exists>b d n. bash_append_output e bs = e\<lparr>te_output := b, te_dropped := d, te_nuls := n\<rparr>"
proof (induction e bs rule: bash_append_output.induct)
  case (1 e bs)
  define b where "b s = te_output (bash_append_segment e s)" for s
  define d where "d s = te_dropped (bash_append_segment e s)" for s
  have seg: "bash_append_segment e s = e\<lparr>te_output := b s, te_dropped := d s\<rparr>" for s
    unfolding b_def d_def by (rule bash_append_segment_frame)
  show ?case
  proof (cases "bs = [] \<or> memchr NUL bs = None")
    case True
    then have "bash_append_output e bs = e \<or> bash_append_output e bs = bash_append_segment e bs"
      by (subst (1 2) bash_append_output.simps) (auto simp del: memchr_None)
    moreover have "e = e\<lparr>te_output := te_output e, te_dropped := te_dropped e, te_nuls := te_nuls e\<rparr>"
      "bash_append_segment e bs = e\<lparr>te_output := b bs, te_dropped := d bs, te_nuls := te_nuls e\<rparr>"
      using seg [of bs] by simp_all
    ultimately show ?thesis by metis
  next
    case False
    then obtain i where i: "bs \<noteq> []" "memchr NUL bs = Some i" by blast
    then show ?thesis
      using "1.IH" [OF i refl] seg [of "take i bs"] by (subst bash_append_output.simps) auto
  qed
qed

lemma bash_read_bytes_ok:
  assumes "bash_ok w"
  shows "bash_ok (set_exec (\<lambda>e. bash_append_output e bs) w)"
proof -
  obtain b d n where f: "bash_append_output (bw_exec w) bs = (bw_exec w)\<lparr>te_output := b, te_dropped := d, te_nuls := n\<rparr>"
    using bash_append_output_frame by blast
  have "out_ok (bash_append_output (bw_exec w) bs)" using assms by (simp add: bash_append_output_view bash_ok_def)
  then show ?thesis
    using assms by (simp add: bash_ok_def set_exec_def f)
qed

lemma bash_force_pipe_close_ok:
  assumes "bash_ok w" "bash_live w" "bw_timer w = Some Grace \<or> \<not> te_exited (bw_exec w)
      \<or> \<not> te_pipe_done (bw_exec w)"
  shows "bash_ok (bash_force_pipe_close start_ok w)"
  using assms
  by (auto simp: bash_force_pipe_close_def bash_maybe_finish_def bash_world_defs bash_ok_def bash_live_def handle_counts)

lemma bash_exit_ok:
  assumes "bash_ok w" "bw_running w"
  shows "bash_ok (bash_exit_cb ok st sg (w\<lparr>bw_running := False\<rparr>))"
proof -
  have "bash_live w" using assms by (auto simp: bash_ok_def bash_unwinding_def)
  then show ?thesis
    using assms
    by (auto simp: bash_exit_cb_def bash_maybe_finish_def bash_world_defs bash_ok_def bash_live_def handle_counts)
qed

lemma bash_timer_ok:
  assumes "bash_ok w"
  shows "bw_timer w = Some RunTimeout \<Longrightarrow> bash_ok (bash_timeout_cb (w\<lparr>bw_timer := None\<rparr>))"
    and "bw_timer w = Some Grace \<Longrightarrow> bash_ok (bash_grace_cb ok (w\<lparr>bw_timer := None\<rparr>))"
proof -
  have live: "bash_live w" if "bw_timer w \<noteq> None" using assms that by (auto simp: bash_ok_def bash_unwinding_def)
  show "bash_ok (bash_timeout_cb (w\<lparr>bw_timer := None\<rparr>))" if "bw_timer w = Some RunTimeout"
    using assms that live
    by (simp add: bash_timeout_cb_def set_exec_def bash_ok_def) (auto simp: bash_live_def Let_def)
  show "bash_ok (bash_grace_cb ok (w\<lparr>bw_timer := None\<rparr>))" if "bw_timer w = Some Grace"
  proof -
    have e: "te_exited (bw_exec w)" "\<not> te_pipe_done (bw_exec w)" "\<not> te_timer_closing (bw_exec w)"
      using live that by (auto simp: bash_live_def Let_def)
    show ?thesis
      using assms live that e
      by (simp add: bash_grace_cb_def bash_force_pipe_close_def bash_maybe_finish_def bash_world_defs bash_ok_def
          bash_live_uv [OF live] handle_counts) (simp add: bash_live_def Let_def handle_counts)
  qed
qed

lemma bash_closed_handle:
  assumes "bash_ok w" "bw_handles w h = Closing"
  defines "w1 \<equiv> w\<lparr>bw_handles := (bw_handles w)(h := Closed)\<rparr>"
  shows "bash_live w1 \<or> bash_unwinding w1" "closed_count (bw_handles w1) = te_closes_done (bw_exec w) + 1"
    "te_closes_done (bw_exec w) < te_closes_expected (bw_exec w)" "bash_live w1 \<Longrightarrow> \<not> bw_freed w"
proof -
  let ?hs = "(bw_handles w)(h := Closed)"
  have less: "closed_count (bw_handles w) < registered (bw_handles w)"
    using closed_count_all(3) [of ?hs] handle_counts(1,2) [of "bw_handles w" h] assms(2) by simp
  have hs: "?hs g = Open \<longleftrightarrow> bw_handles w g = Open" for g using assms(2) by auto
  have exp: "te_closes_expected (bw_exec w) = registered (bw_handles w)"
    using assms(1) by (auto simp: bash_ok_def bash_live_def bash_unwinding_def Let_def)
  show "bash_live w1 \<or> bash_unwinding w1"
  proof -
    note reg = handle_counts(2) [of "bw_handles w" h, OF assms(2)]
    have "bash_live w \<Longrightarrow> bash_live w1"
      by (simp add: bash_live_def w1_def hs Let_def reg del: fun_upd_apply)
    moreover have "bash_unwinding w \<Longrightarrow> bash_unwinding w1"
      by (simp add: bash_unwinding_def w1_def hs reg del: fun_upd_apply)
    ultimately show ?thesis using assms(1) by (auto simp: bash_ok_def)
  qed
  show "closed_count (bw_handles w1) = te_closes_done (bw_exec w) + 1"
    using assms(1) handle_counts(1) [of "bw_handles w" h, OF assms(2)] by (simp add: bash_ok_def w1_def)
  show "te_closes_done (bw_exec w) < te_closes_expected (bw_exec w)" "\<not> bw_freed w"
    using less exp assms(1) by (auto simp: bash_ok_def)
qed

lemma bash_closed_ok:
  assumes "bash_ok w" "bw_handles w h = Closing"
  shows "bash_ok (bash_close_cb (w\<lparr>bw_handles := (bw_handles w)(h := Closed)\<rparr>))"
proof -
  let ?w1 = "w\<lparr>bw_handles := (bw_handles w)(h := Closed)\<rparr>"
  have frame: "bash_live (v\<lparr>bw_exec := (bw_exec v)\<lparr>te_closes_done := n, te_done_fired := d\<rparr>, bw_results := r, bw_freed := f\<rparr>)
      \<or> bash_unwinding (v\<lparr>bw_exec := (bw_exec v)\<lparr>te_closes_done := n, te_done_fired := d\<rparr>, bw_results := r, bw_freed := f\<rparr>)"
    if "bash_live v \<or> bash_unwinding v" "te_done_fired (bw_exec v) \<longrightarrow> d" "bw_freed v \<longrightarrow> f" for v n d r f
    using that(1)
  proof
    assume "bash_live v"
    then show ?thesis by (intro disjI1) (simp add: bash_live_def Let_def)
  next
    assume "bash_unwinding v"
    then show ?thesis using that(2,3) by (intro disjI2) (auto simp: bash_unwinding_def)
  qed
  have frame2: "bash_live (v\<lparr>bw_exec := (bw_exec v)\<lparr>te_closes_done := n\<rparr>, bw_freed := True\<rparr>)
      \<or> bash_unwinding (v\<lparr>bw_exec := (bw_exec v)\<lparr>te_closes_done := n\<rparr>, bw_freed := True\<rparr>)"
    if "bash_live v \<or> bash_unwinding v" for v n
    using that by (elim disjE) (simp_all add: bash_live_def bash_unwinding_def Let_def)
  have frame1: "bash_live (v\<lparr>bw_exec := (bw_exec v)\<lparr>te_closes_done := n\<rparr>\<rparr>)
      \<or> bash_unwinding (v\<lparr>bw_exec := (bw_exec v)\<lparr>te_closes_done := n\<rparr>\<rparr>)"
    if "bash_live v \<or> bash_unwinding v" for v n
    using that by (elim disjE) (simp_all add: bash_live_def bash_unwinding_def Let_def)
  note c = bash_closed_handle [OF assms]
  have free: "\<not> bw_freed w" using c(3) assms(1) by (auto simp: bash_ok_def)
  have res: "length (bw_results w) = (if te_done_fired (bw_exec w) then 1 else 0)" "\<not> bw_abort w" "out_ok (bw_exec w)"
    using assms(1) free by (auto simp: bash_ok_def)
  show ?thesis
  proof (cases "te_closes_done (bw_exec w) + 1 < te_closes_expected (bw_exec w)")
    case True
    then show ?thesis
      using frame1 [OF c(1), where n = "te_closes_done (bw_exec w) + 1"]
        c(2) res free by (simp add: bash_close_cb_def bash_world_defs bash_ok_def)
  next
    case False
    then have e: "te_closes_expected (bw_exec w) = te_closes_done (bw_exec w) + 1" using c(3) by simp
    show ?thesis
    proof (cases "te_done_fired (bw_exec w)")
      case True
      then show ?thesis
        using frame2 [OF c(1), where n = "te_closes_done (bw_exec w) + 1"]
          c(2) res free e by (simp add: bash_close_cb_def bash_world_defs bash_ok_def)
    next
      case False
      then show ?thesis
        using frame [OF c(1), where d = True and f = True
          and n = "te_closes_done (bw_exec w) + 1"]
          c(2) res free e by (simp add: bash_close_cb_def bash_world_defs bash_ok_def)
    qed
  qed
qed

lemma bash_step_ok:
  assumes "bash_ok w" "bash_step w (ok, e) = Some w'"
  shows "bash_ok w'"
proof (cases e)
  case (EvRead r)
  then have live: "bash_live w" "bw_reading w" "\<not> te_pipe_done (bw_exec w)"
    using assms by (auto simp: bash_ok_def bash_unwinding_def bash_live_def Let_def split: if_splits)
  show ?thesis
  proof (cases r)
    case (Bytes bs)
    then show ?thesis
      using assms EvRead live(2) bash_read_bytes_ok [OF assms(1), of "take kToolBashScratch bs"] by (auto split: if_splits)
  qed (use assms EvRead live bash_force_pipe_close_ok in auto)
next
  case (EvExit st sg)
  then show ?thesis using assms bash_exit_ok by (auto split: if_splits)
next
  case EvTimer
  then show ?thesis using assms bash_timer_ok by (auto split: option.splits timer_role.splits)
next
  case (EvClosed h)
  then show ?thesis using assms bash_closed_ok by (auto split: if_splits)
next
  case EvCancel
  then have live: "bash_live w" "w' = tools_cancel ok w"
    using assms by (auto simp: bash_ok_def bash_unwinding_def split: if_splits)
  have "bash_ok (set_exec (\<lambda>e. e\<lparr>te_canceled := True\<rparr>) w)" "bash_live (set_exec (\<lambda>e. e\<lparr>te_canceled := True\<rparr>) w)"
    using assms(1) live(1) by (auto simp: bash_ok_def bash_live_def bash_unwinding_def set_exec_def Let_def)
  then show ?thesis
    using bash_force_pipe_close_ok [of "set_exec (\<lambda>e. e\<lparr>te_canceled := True\<rparr>) w" ok] unfolding live(2)
    by (auto simp: tools_cancel_def Let_def bash_force_pipe_close_def)
qed

section \<open>Runs\<close>

inductive bash_reach :: "bash_world \<Rightarrow> (bool \<times> bash_event) list \<Rightarrow> bash_world \<Rightarrow> bool" where
  reach_start: "bash_reach w [] w"
| reach_step: "bash_reach w es w' \<Longrightarrow> bash_step w' e = Some w'' \<Longrightarrow> bash_reach w (es @ [e]) w''"

inductive_cases bash_reach_snocE: "bash_reach w (es @ [e]) w'"

lemma bash_run_snoc: "bash_run w (es @ [e]) = (case bash_run w es of None \<Rightarrow> None | Some w' \<Rightarrow> bash_step w' e)"
  by (induction es arbitrary: w) (auto split: option.splits)

lemma bash_run_reach: "bash_run w es = Some w' \<Longrightarrow> bash_reach w es w'"
  by (induction es arbitrary: w' rule: rev_induct)
    (auto simp: bash_run_snoc intro: bash_reach.intros split: option.splits)

lemma bash_reach_ok: "bash_reach w es w' \<Longrightarrow> bash_ok w \<Longrightarrow> bash_ok w'"
  by (induction rule: bash_reach.induct) (auto dest: bash_step_ok)

text \<open>Once the struct is freed, no callback and no cancel can touch it.\<close>

lemma bash_freed_closed:
  assumes "bash_ok w" "bw_freed w"
  shows "\<forall>h. bw_handles w h \<noteq> Open \<and> bw_handles w h \<noteq> Closing" "bw_fds w = []" "\<not> bw_reading w" "\<not> bw_running w"
    "bw_timer w = None"
proof -
  have "closed_count (bw_handles w) = registered (bw_handles w)"
    using assms by (auto simp: bash_ok_def bash_live_def bash_unwinding_def Let_def)
  then show all: "\<forall>h. bw_handles w h \<noteq> Open \<and> bw_handles w h \<noteq> Closing"
    by (auto simp: closed_count_def registered_def all_handles split: if_splits)
  have "bw_fds w = [] \<and> \<not> bw_reading w \<and> \<not> bw_running w \<and> bw_timer w = None"
  proof (cases "bash_live w")
    case True
    then have "te_exited (bw_exec w)" "te_pipe_done (bw_exec w)"
      using all by (simp_all add: bash_live_def Let_def)
    then show ?thesis using True by (cases "bw_timer w"; cases "the (bw_timer w)") (simp_all add: bash_live_def Let_def)
  next
    case False
    then show ?thesis using assms(1) by (simp add: bash_ok_def bash_unwinding_def)
  qed
  then show "bw_fds w = []" "\<not> bw_reading w" "\<not> bw_running w" "bw_timer w = None" by simp_all
qed

lemma bash_freed_final: "bash_ok w \<Longrightarrow> bw_freed w \<Longrightarrow> bash_step w (ok, e) = None"
  using bash_freed_closed [of w] by (cases e) auto

text \<open>What a step does to the flags the caller sees.\<close>

lemma bash_callback_frames:
  "te_done_fired (bw_exec (uv_close h w)) = te_done_fired (bw_exec w)" "bw_freed (uv_close h w) = bw_freed w"
  "bw_results (uv_close h w) = bw_results w"
  by (auto simp: uv_close_def fd_close_def Let_def split: handle.splits)

lemma bash_finish_frames:
  "te_done_fired (bw_exec (bash_maybe_finish ok w)) = te_done_fired (bw_exec w)"
  "bw_freed (bash_maybe_finish ok w) = bw_freed w" "bw_results (bash_maybe_finish ok w) = bw_results w"
  by (auto simp: bash_maybe_finish_def set_exec_def Let_def bash_callback_frames)

lemma bash_force_frames:
  "te_done_fired (bw_exec (bash_force_pipe_close ok w)) = te_done_fired (bw_exec w)"
  "bw_freed (bash_force_pipe_close ok w) = bw_freed w" "bw_results (bash_force_pipe_close ok w) = bw_results w"
  by (auto simp: bash_force_pipe_close_def set_exec_def Let_def bash_callback_frames bash_finish_frames)

lemma bash_output_frames:
  "te_done_fired (bash_append_output e bs) = te_done_fired e"
proof -
  obtain b d n where "bash_append_output e bs = e\<lparr>te_output := b, te_dropped := d, te_nuls := n\<rparr>"
    using bash_append_output_frame by blast
  then show ?thesis by simp
qed

lemma bash_step_frames:
  assumes "bash_step w (ok, e) = Some w'" "\<not> bw_freed w'"
  shows "te_done_fired (bw_exec w') = te_done_fired (bw_exec w)"
proof (cases e)
  case (EvRead r)
  then show ?thesis using assms
    by (cases r) (auto simp: set_exec_def bash_output_frames bash_force_frames split: if_splits)
qed (use assms in \<open>auto simp: bash_exit_cb_def bash_timeout_cb_def bash_grace_cb_def bash_close_cb_def tools_cancel_def
      set_exec_def Let_def bash_callback_frames bash_finish_frames bash_force_frames bash_done_def
      split: if_splits option.splits timer_role.splits\<close>)

lemma bash_reach_unfinished:
  "bash_reach w es w' \<Longrightarrow> bash_ok w \<Longrightarrow> \<not> bw_freed w' \<Longrightarrow>
   \<not> bw_freed w \<and> te_done_fired (bw_exec w') = te_done_fired (bw_exec w)"
proof (induction rule: bash_reach.induct)
  case (reach_step w es w' e w'')
  obtain ok ev where e: "e = (ok, ev)" by fastforce
  have "\<not> bw_freed w'" using bash_freed_final [OF bash_reach_ok [OF reach_step(1,4)]] reach_step(2) e by auto
  then show ?case using reach_step bash_step_frames e by auto
qed simp

text \<open>A running tool makes one callback, its result, and is freed with it.\<close>

definition bash_running :: "bash_world \<Rightarrow> bool" where
  "bash_running w \<longleftrightarrow> bash_ok w \<and> (bw_freed w \<or> \<not> te_done_fired (bw_exec w))"

lemma bash_running_results: "bash_running w \<Longrightarrow> bw_results w = [] \<longleftrightarrow> \<not> bw_freed w"
  by (cases "bw_results w") (auto simp: bash_running_def bash_ok_def split: if_splits)

lemma bash_running_step:
  assumes "bash_running w" "bash_step w e = Some w'"
  shows "bash_running w' \<and> bw_results w = []"
proof -
  obtain ok ev where e: "e = (ok, ev)" by fastforce
  have w: "bash_ok w" "\<not> bw_freed w" "\<not> te_done_fired (bw_exec w)"
    using assms bash_freed_final [of w ok ev] by (auto simp: bash_running_def e)
  have "bash_ok w'" using bash_step_ok [OF w(1)] assms(2) e by simp
  moreover have "bw_freed w' \<or> \<not> te_done_fired (bw_exec w')"
    using bash_step_frames [of w ok ev w'] assms(2) e w(3) by auto
  ultimately show ?thesis using w bash_running_results [OF assms(1)] by (simp add: bash_running_def)
qed

interpretation bash_calls: one_shot bash_running bash_step bw_results "\<lambda>_. True"
proof (unfold_locales, goal_cases)
  case (1 s e s')
  then show ?case using bash_running_step by blast
next
  case (2 s e s')
  then show ?case using bash_running_step by fastforce
next
  case (3 s)
  then have "length (bw_results s) \<le> 1" by (auto simp: bash_running_def bash_ok_def split: if_splits)
  then show ?case by (intro exI [of _ "[]"], cases "bw_results s") auto
qed

lemma bash_closed: "bash_running w \<Longrightarrow> bash_calls.closed w = bw_freed w"
  using bash_running_results [of w] by (cases "bw_results w") (auto simp: bash_calls.closed_def)

text \<open>C34. Whatever the setup calls answer and in whatever order libuv delivers the events, the
  \<open>done\<close> callback of one \<open>bash_execute\<close> fires at most once, and exactly once when the call
  returned no handle or the struct has been freed; no handle is closed twice and no file
  descriptor is closed twice (the run never aborts), and once freed every registered handle is
  closed, both descriptors are closed, and no event can reach the struct any more.\<close>

theorem bash_done_exactly_once:
  assumes "bash_execute su args = (h, w0)" "bash_run w0 es = Some w"
  shows "length (bw_results w) = (if \<not> h \<or> bw_freed w then 1 else 0) \<and> \<not> bw_abort w
    \<and> (bw_freed w \<longrightarrow> (\<forall>g. bw_handles w g = Closed \<or> bw_handles w g = Unregistered) \<and> bw_fds w = []
        \<and> (\<forall>e. bash_step w e = None))"
proof -
  have w0: "bash_ok w0" "h \<longleftrightarrow> \<not> te_done_fired (bw_exec w0) \<and> \<not> bw_freed w0"
    using bash_execute_ok [OF assms(1)] by auto
  note r = bash_run_reach [OF assms(2)]
  have ok: "bash_ok w" by (rule bash_reach_ok [OF r w0(1)])
  have "te_done_fired (bw_exec w) \<or> bw_freed w \<longleftrightarrow> \<not> h \<or> bw_freed w"
    using bash_reach_unfinished [OF r w0(1)] w0(2) by auto
  then have "length (bw_results w) = (if \<not> h \<or> bw_freed w then 1 else 0)" "\<not> bw_abort w"
    using ok by (auto simp: bash_ok_def)
  moreover have "\<forall>g. bw_handles w g = Closed \<or> bw_handles w g = Unregistered" if "bw_freed w"
    using bash_freed_closed(1) [OF ok that] by (metis handle_state.exhaust)
  ultimately show ?thesis
    using bash_freed_closed(2) [OF ok] bash_freed_final [OF ok] by auto
qed

definition sample_setup :: bash_setup where
  "sample_setup = \<lparr>su_pipe = None, su_fcntl = None, su_pipe_init = True, su_pipe_open = True, su_timer_init = True,
     su_spawn = None, su_read_start = None, su_timer_start = None\<rparr>"

definition sample_command :: cjson where
  "sample_command = CObject [(''command'', CString ''ls'')]"

definition sample_bash_events :: "(bool \<times> bash_event) list" where
  "sample_bash_events = [(True, EvExit 0 0), (True, EvClosed HProc), (True, EvTimer),
     (True, EvClosed HTimer), (True, EvClosed HOut)]"

lemma sample_execute:
  "\<exists>w0. bash_execute sample_setup sample_command = (True, w0) \<and> bw_running w0
     \<and> \<not> te_pipe_done (bw_exec w0) \<and> \<not> te_timer_closing (bw_exec w0) \<and> \<not> te_grace_armed (bw_exec w0)
     \<and> (\<forall>h. bw_handles w0 h = Open) \<and> te_closes_done (bw_exec w0) = 0 \<and> te_closes_expected (bw_exec w0) = 3
     \<and> \<not> te_done_fired (bw_exec w0) \<and> bw_pipe_owns w0 \<and> bw_fds w0 = [0] \<and> bw_reading w0"
  by (simp add: bash_execute_def sample_setup_def sample_command_def bash_parse_args_def json_get_cstr_def
      bash_make_pipe_def bash_arm_def bash_world_defs set_handle_def world_init_def all_handles)

lemma sample_run:
  assumes "bw_running w0" "\<not> te_pipe_done (bw_exec w0)" "\<not> te_timer_closing (bw_exec w0)" "\<not> te_grace_armed (bw_exec w0)"
    "\<forall>h. bw_handles w0 h = Open" "te_closes_done (bw_exec w0) = 0" "te_closes_expected (bw_exec w0) = 3"
    "\<not> te_done_fired (bw_exec w0)" "bw_pipe_owns w0" "bw_fds w0 = [0]"
  shows "\<exists>w. bash_run w0 sample_bash_events = Some w \<and> bw_freed w"
  using assms
  by (simp add: sample_bash_events_def bash_exit_cb_def bash_maybe_finish_def bash_grace_cb_def
      bash_force_pipe_close_def bash_close_cb_def bash_world_defs)

theorem bash_done_exactly_once_witness:
  "case bash_execute sample_setup sample_command of (h, w0) \<Rightarrow>
     (case bash_run w0 sample_bash_events of None \<Rightarrow> False
      | Some w \<Rightarrow> bw_freed w \<and> length (bw_results w) = 1 \<and> bw_fds w = [])"
proof -
  obtain w0 w where x: "bash_execute sample_setup sample_command = (True, w0)"
    and r: "bash_run w0 sample_bash_events = Some w" "bw_freed w"
    using sample_execute sample_run by blast
  show ?thesis using bash_done_exactly_once [OF x r(1)] x r by simp
qed

section \<open>Progress\<close>

fun handle_fuel :: "handle_state \<Rightarrow> nat" where
  "handle_fuel Open = 2"
| "handle_fuel Closing = 1"
| "handle_fuel _ = 0"

definition bash_fuel :: "bash_world \<Rightarrow> nat" where
  "bash_fuel w = (if bw_running w then 3 else 0) + (if bw_timer w = None then 0 else 1)
     + sum_list (map (\<lambda>h. handle_fuel (bw_handles w h)) [HProc, HOut, HTimer])"

text \<open>The events that are not in the hands of the child's output or of the owner.\<close>

fun owed :: "bash_event \<Rightarrow> bool" where
  "owed (EvRead ReadEnd) = True"
| "owed (EvRead _) = False"
| "owed EvCancel = False"
| "owed _ = True"

lemma bash_fuel_exec [simp]: "bash_fuel (set_exec f w) = bash_fuel w"
  "bash_fuel (w\<lparr>bw_results := r\<rparr>) = bash_fuel w" "bash_fuel (w\<lparr>bw_freed := b\<rparr>) = bash_fuel w"
  "bash_fuel (w\<lparr>bw_timer := None\<rparr>) = bash_fuel w - (if bw_timer w = None then 0 else 1)"
  by (simp_all add: bash_fuel_def set_exec_def)

lemma set_exec_handles [simp]: "bw_handles (set_exec f w) = bw_handles w"
  by (simp add: set_exec_def)

lemma bash_fuel_timer:
  "bash_fuel (w\<lparr>bw_timer := None\<rparr>) \<le> bash_fuel w" "bash_fuel (w\<lparr>bw_timer := Some r\<rparr>) \<le> bash_fuel (w\<lparr>bw_timer := None\<rparr>) + 1"
  by (simp_all add: bash_fuel_def)

lemma bash_fuel_uv_close: "bash_fuel (uv_close h w) + (if bw_handles w h = Open then 1 else 0) \<le> bash_fuel w"
  by (cases h) (auto simp: bash_fuel_def uv_close_def fd_close_def Let_def)

lemma bash_fuel_uv_close_le: "bash_fuel (uv_close h w) \<le> bash_fuel w"
  using bash_fuel_uv_close [of h w] by simp

lemma bash_fuel_maybe_finish:
  "bash_fuel (bash_maybe_finish ok w) \<le> bash_fuel w + (if te_pipe_done (bw_exec w) then 0 else 1)"
proof -
  have close: "bash_fuel v \<le> bash_fuel w \<Longrightarrow> bash_fuel (uv_close HTimer v) \<le> bash_fuel w"
    "bash_fuel v \<le> bash_fuel w \<Longrightarrow> bash_fuel (uv_close HTimer v) \<le> Suc (bash_fuel w)" for v
    using bash_fuel_uv_close_le [of HTimer v] by linarith+
  have two: "bash_fuel (set_exec f (uv_close HOut (set_exec g (set_exec f' w\<lparr>bw_timer := None\<rparr>)))) \<le> bash_fuel w" for f g f'
    using bash_fuel_uv_close_le [of HOut "set_exec g (set_exec f' w\<lparr>bw_timer := None\<rparr>)"] by simp
  have start: "bash_fuel (set_exec f w\<lparr>bw_timer := None, bw_timer := Some Grace\<rparr>) \<le> bash_fuel w + 1" for f
    by (simp add: bash_fuel_def set_exec_def)
  show ?thesis
    unfolding bash_maybe_finish_def Let_def using two start by (auto intro!: close)
qed

lemma bash_fuel_force:
  "bash_fuel (bash_force_pipe_close ok w)
     + (if \<not> te_pipe_done (bw_exec w) \<and> bw_handles w HOut = Open then 1 else 0) \<le> bash_fuel w"
proof (cases "te_pipe_done (bw_exec w)")
  case False
  let ?v = "uv_close HOut (set_exec (\<lambda>e. e\<lparr>te_pipe_done := True\<rparr>) w)"
  have "te_pipe_done (bw_exec ?v)" by (auto simp: uv_close_def fd_close_def set_exec_def Let_def)
  then show ?thesis
    using False bash_fuel_maybe_finish [of ok ?v] bash_fuel_uv_close [of HOut "set_exec (\<lambda>e. e\<lparr>te_pipe_done := True\<rparr>) w"]
    by (auto simp: bash_force_pipe_close_def Let_def split: if_splits)
qed (simp add: bash_force_pipe_close_def)

lemma bash_fuel_step:
  assumes "bash_ok w" "bash_step w (ok, e) = Some w'"
  shows "bash_fuel w' + (if owed e then 1 else 0) \<le> bash_fuel w"
proof (cases e)
  case (EvRead r)
  then have "bash_live w" "\<not> te_pipe_done (bw_exec w)"
    using assms by (auto simp: bash_ok_def bash_unwinding_def bash_live_def Let_def split: if_splits)
  then have "bw_handles w HOut = Open" "\<not> te_pipe_done (bw_exec w)" using bash_live_uv by auto
  then show ?thesis
    using assms(2) EvRead bash_fuel_force [of ok w] by (cases r) (auto split: if_splits)
next
  case (EvExit st sg)
  let ?v = "uv_close HProc (set_exec (\<lambda>e. e\<lparr>te_exited := True, te_exit_status := st, te_term_signal := sg\<rparr>)
      (w\<lparr>bw_running := False\<rparr>))"
  have "bash_fuel (w\<lparr>bw_running := False\<rparr>) + 3 \<le> bash_fuel w"
    using assms(2) EvExit by (simp add: bash_fuel_def split: if_splits)
  moreover have "bash_fuel (bash_maybe_finish ok ?v) \<le> bash_fuel ?v + 1"
    using bash_fuel_maybe_finish [of ok ?v] by (simp split: if_splits)
  moreover have "bash_fuel ?v \<le> bash_fuel (w\<lparr>bw_running := False\<rparr>)"
    using bash_fuel_uv_close_le by (metis bash_fuel_exec(1))
  ultimately show ?thesis
    using assms(2) EvExit by (auto simp: bash_exit_cb_def Let_def split: if_splits)
next
  case EvTimer
  let ?v = "set_exec (\<lambda>e. e\<lparr>te_grace_forced := True\<rparr>) (w\<lparr>bw_timer := None\<rparr>)"
  have t: "bw_timer w \<noteq> None \<Longrightarrow> bash_fuel (w\<lparr>bw_timer := None\<rparr>) + 1 \<le> bash_fuel w" by (auto simp: bash_fuel_def)
  have "bash_fuel (bash_force_pipe_close ok ?v) \<le> bash_fuel (w\<lparr>bw_timer := None\<rparr>)"
    using bash_fuel_force [of ok ?v] by (simp split: if_splits)
  then show ?thesis
    using assms(2) EvTimer t
    by (auto simp: bash_timeout_cb_def bash_grace_cb_def simp del: bash_fuel_exec(4) split: option.splits timer_role.splits if_splits)
next
  case (EvClosed h)
  have "bw_handles w h = Closing \<Longrightarrow> bash_fuel (w\<lparr>bw_handles := (bw_handles w)(h := Closed)\<rparr>) + 1 \<le> bash_fuel w"
    by (cases h) (auto simp: bash_fuel_def)
  then show ?thesis
    using assms(2) EvClosed by (auto simp: bash_close_cb_def bash_done_def Let_def split: if_splits)
next
  case EvCancel
  have "bash_fuel (bash_force_pipe_close ok v) \<le> bash_fuel v" for v
    using bash_fuel_force [of ok v] by (simp split: if_splits)
  then show ?thesis
    using assms(2) EvCancel by (auto simp: tools_cancel_def Let_def split: if_splits) (metis bash_fuel_exec(1))
qed

lemma bash_fuel_reach:
  "bash_reach w es w' \<Longrightarrow> bash_ok w \<Longrightarrow> bash_fuel w' + length (filter (\<lambda>e. owed (snd e)) es) \<le> bash_fuel w"
proof (induction rule: bash_reach.induct)
  case (reach_step w es w' e w'')
  have "bash_ok w'" by (rule bash_reach_ok [OF reach_step(1,4)])
  then show ?case using reach_step bash_fuel_step [of w' "fst e" "snd e" w''] by (auto split: if_splits)
qed simp

lemma bash_fuel_bound: "bash_fuel w \<le> 10"
proof -
  have "handle_fuel s \<le> 2" for s by (cases s) auto
  then have "handle_fuel (bw_handles w HProc) + handle_fuel (bw_handles w HOut) + handle_fuel (bw_handles w HTimer) \<le> 2 + 2 + 2"
    by (intro add_mono)
  then show ?thesis by (simp add: bash_fuel_def)
qed

lemma bash_not_stuck:
  assumes "bash_ok w" "\<not> bw_freed w" "\<not> bw_running w"
  shows "bw_timer w = Some Grace \<or> (\<exists>h. bw_handles w h = Closing)"
proof (rule ccontr)
  assume no: "\<not> (bw_timer w = Some Grace \<or> (\<exists>h. bw_handles w h = Closing))"
  then have "\<forall>h. bw_handles w h \<noteq> Open"
    using assms(1,3) by (auto simp: bash_ok_def bash_live_def bash_unwinding_def Let_def all_handles)
  then have "\<forall>h. bw_handles w h = Closed \<or> bw_handles w h = Unregistered"
    using no by (metis handle_state.exhaust)
  then have "closed_count (bw_handles w) = registered (bw_handles w)"
    by (auto simp: closed_count_def registered_def all_handles)
  then show False
    using assms(1,2) by (auto simp: bash_ok_def bash_live_def bash_unwinding_def Let_def)
qed

text \<open>C37. A bash run cannot hang or go on for ever: a returned handle has its timeout armed, at 1
  to 120000 ms; the owner's cancel and the bytes read aside, at most ten events can happen; and
  as long as the struct is not freed libuv owes one of them: the child is still running and will
  exit, or the grace timer is armed, or a closed handle awaits its callback.\<close>

theorem bash_run_completes:
  assumes "bash_execute su args = (h, w0)" "bash_run w0 es = Some w"
  shows "(h \<longrightarrow> bw_timer w0 = Some RunTimeout \<and> te_timeout_ms (bw_exec w0) \<in> {1..kToolBashMaxTimeoutMs})
    \<and> length (filter (\<lambda>e. owed (snd e)) es) \<le> 10
    \<and> (\<not> bw_freed w \<longrightarrow> (\<forall>ok st sg. bash_step w (ok, EvExit st sg) \<noteq> None)
         \<or> (\<exists>e. owed e \<and> (\<forall>ok. bash_step w (ok, e) \<noteq> None)))"
proof (intro conjI impI)
  note r = bash_run_reach [OF assms(2)]
  have w0: "bash_ok w0" using bash_execute_ok [OF assms(1)] by simp
  show "length (filter (\<lambda>e. owed (snd e)) es) \<le> 10"
    using bash_fuel_reach [OF r w0] bash_fuel_bound [of w0] by linarith
  show "bw_timer w0 = Some RunTimeout" "te_timeout_ms (bw_exec w0) \<in> {1..kToolBashMaxTimeoutMs}" if h
    using assms(1) that
    by (auto simp: bash_execute_def bash_arm_def bash_parse_args_def kToolBashDefaultTimeoutMs_def kToolBashMaxTimeoutMs_def
        bash_world_defs set_handle_def world_init_def exec_init_def split: option.splits sum.splits if_splits cjson.splits)
  show "(\<forall>ok st sg. bash_step w (ok, EvExit st sg) \<noteq> None) \<or> (\<exists>e. owed e \<and> (\<forall>ok. bash_step w (ok, e) \<noteq> None))"
    if f: "\<not> bw_freed w"
  proof (cases "bw_running w")
    case False
    then consider "bw_timer w = Some Grace" | h where "bw_handles w h = Closing"
      using bash_not_stuck [OF bash_reach_ok [OF r w0] f] by blast
    then show ?thesis
    proof cases
      case 1
      then show ?thesis by (intro disjI2 exI [of _ EvTimer]) simp
    next
      case (2 h)
      then show ?thesis by (intro disjI2 exI [of _ "EvClosed h"]) simp
    qed
  qed simp
qed

theorem bash_run_completes_witness:
  "\<exists>w0. bash_execute sample_setup sample_command = (True, w0) \<and> bw_timer w0 = Some RunTimeout
     \<and> (\<exists>w. bash_run w0 sample_bash_events = Some w)"
proof -
  obtain w0 w where x: "bash_execute sample_setup sample_command = (True, w0)"
    and r: "bash_run w0 sample_bash_events = Some w"
    using sample_execute sample_run by blast
  show ?thesis using bash_run_completes [OF x r] x r by blast
qed

section \<open>The result of a run\<close>

text \<open>The bytes the reads of a run deliver, at most a scratch buffer at a time.\<close>

fun bash_bytes :: "(bool \<times> bash_event) list \<Rightarrow> string" where
  "bash_bytes [] = []"
| "bash_bytes ((ok, EvRead (Bytes bs)) # es) = take kToolBashScratch bs @ bash_bytes es"
| "bash_bytes (_ # es) = bash_bytes es"

lemma bash_bytes_append: "bash_bytes (es @ fs) = bash_bytes es @ bash_bytes fs"
  by (induction es rule: bash_bytes.induct) auto

lemma out_view_frames [simp]:
  "out_view (bw_exec (uv_close h w)) = out_view (bw_exec w)"
  "out_view (bw_exec (bash_maybe_finish ok w)) = out_view (bw_exec w)"
  "out_view (bw_exec (bash_force_pipe_close ok w)) = out_view (bw_exec w)"
  "out_view (bw_exec (bash_close_cb w)) = out_view (bw_exec w)"
  by (auto simp: out_view_def uv_close_def fd_close_def bash_maybe_finish_def bash_force_pipe_close_def bash_close_cb_def
      set_exec_def bash_done_def Let_def split: handle.splits)

lemma bash_step_output:
  assumes "bash_ok w" "bash_step w (ok, e) = Some w'"
  shows "out_view (bw_exec w') = foldl out_byte (out_view (bw_exec w)) (bash_bytes [(ok, e)])"
proof (cases e)
  case (EvRead r)
  have "out_ok (bw_exec w)" using assms(1) by (simp add: bash_ok_def)
  note view = bash_append_output_view [OF this, THEN conjunct2]
  show ?thesis
  proof (cases r)
    case (Bytes bs)
    then show ?thesis
      using assms(2) EvRead view [of "take kToolBashScratch bs"] by (auto simp: set_exec_def split: if_splits)
  qed (use assms(2) EvRead in \<open>auto split: if_splits\<close>)
next
  case (EvExit st sg)
  then show ?thesis
    using assms(2) by (auto simp: bash_exit_cb_def Let_def split: if_splits) (simp add: set_exec_def out_view_def)
next
  case EvTimer
  then show ?thesis using assms(2)
    by (auto simp: bash_timeout_cb_def bash_grace_cb_def Let_def split: if_splits option.splits timer_role.splits)
      (simp_all add: set_exec_def out_view_def)
next
  case (EvClosed h)
  then show ?thesis using assms(2) by (auto split: if_splits)
next
  case EvCancel
  then show ?thesis using assms(2)
    by (auto simp: tools_cancel_def Let_def split: if_splits) (simp_all add: set_exec_def out_view_def)
qed

lemma bash_reach_output:
  "bash_reach w es w' \<Longrightarrow> bash_ok w \<Longrightarrow>
   out_view (bw_exec w') = foldl out_byte (out_view (bw_exec w)) (bash_bytes es)"
proof (induction rule: bash_reach.induct)
  case (reach_step w es w' e w'')
  obtain ok ev where e: "e = (ok, ev)" by fastforce
  have "bash_ok w'" by (rule bash_reach_ok [OF reach_step(1,4)])
  then show ?case
    using bash_step_output [of w' ok ev w''] reach_step e by (simp add: bash_bytes_append)
qed simp

text \<open>The step that frees the struct of a returned handle hands over the struct's result.\<close>

lemma bash_step_result:
  assumes "bash_ok w" "\<not> bw_freed w" "\<not> te_done_fired (bw_exec w)" "bash_step w (ok, e) = Some w'" "bw_freed w'"
  shows "bw_results w' = [\<lparr>tr_content = bash_content (bw_exec w'), tr_is_error = bash_is_error (bw_exec w')\<rparr>]"
proof -
  have none: "bw_results w = []" using assms(1-3) by (simp add: bash_ok_def)
  obtain h where h: "e = EvClosed h" "w' = bash_close_cb (w\<lparr>bw_handles := (bw_handles w)(h := Closed)\<rparr>)"
  proof (cases e)
    case (EvRead r)
    then show ?thesis using assms by (cases r) (auto simp: set_exec_def bash_force_frames split: if_splits)
  qed (use assms that in \<open>auto simp: bash_exit_cb_def bash_timeout_cb_def bash_grace_cb_def tools_cancel_def
      set_exec_def Let_def bash_callback_frames bash_finish_frames bash_force_frames
      split: if_splits option.splits timer_role.splits\<close>)
  show ?thesis
    using assms(2,3,5) none unfolding h(2)
    by (auto simp: bash_close_cb_def set_exec_def bash_done_def bash_content_def bash_notes_def bash_is_error_def Let_def
        split: if_splits)
qed

lemma bash_reach_result:
  "bash_reach w es w' \<Longrightarrow> bash_ok w \<Longrightarrow> \<not> bw_freed w \<Longrightarrow> \<not> te_done_fired (bw_exec w) \<Longrightarrow> bw_freed w' \<Longrightarrow>
   bw_results w' = [\<lparr>tr_content = bash_content (bw_exec w'), tr_is_error = bash_is_error (bw_exec w')\<rparr>]"
proof (induction rule: bash_reach.induct)
  case (reach_step w es w' e w'')
  obtain ok ev where e: "e = (ok, ev)" by fastforce
  have ok': "bash_ok w'" by (rule bash_reach_ok [OF reach_step(1,4)])
  have "\<not> bw_freed w'" using bash_freed_final [OF ok'] reach_step(2) e by auto
  then show ?case
    using bash_step_result [OF ok', of ok ev w''] bash_reach_unfinished [OF reach_step(1,4)] reach_step e by auto
qed simp

text \<open>The result of a completed bash run: its content is the first 64 KiB of what the pipe
  delivered with the NUL bytes removed, then the notes on separate lines; the truncation note is
  there exactly when bytes were dropped, the NUL note when NULs were removed, and the outcome
  (timeout, cancel, signal, exit code) decides the error flag.\<close>

theorem bash_result_of_run:
  assumes "bash_execute su args = (True, w0)" "bash_run w0 es = Some w" "bw_freed w"
  shows "let exec = bw_exec w; clean = filter (\<lambda>c. c \<noteq> NUL) (bash_bytes es) in
    bw_results w = [\<lparr>tr_content = append_notes (take kToolBashOutputCap clean) (bash_notes exec),
                     tr_is_error = te_timed_out exec \<or> te_canceled exec \<or> te_term_signal exec \<noteq> 0
                       \<or> te_exit_status exec \<noteq> 0\<rparr>]
    \<and> te_dropped exec = length clean - kToolBashOutputCap
    \<and> te_nuls exec = length (filter (\<lambda>c. c = NUL) (bash_bytes es))"
proof -
  note r = bash_run_reach [OF assms(2)]
  have w0: "bash_ok w0" "\<not> te_done_fired (bw_exec w0)" "\<not> bw_freed w0" using bash_execute_ok [OF assms(1)] by auto
  have "out_view (bw_exec w0) = ([], 0, 0)"
    using assms(1)
    by (auto simp: bash_execute_def bash_arm_def bash_world_defs set_handle_def world_init_def exec_init_def
        out_view_def buf_init_def split: option.splits sum.splits if_splits)
  then have "out_view (bw_exec w) = foldl out_byte ([], 0, 0) (bash_bytes es)"
    using bash_reach_output [OF r w0(1)] by simp
  then have o: "buf_data (te_output (bw_exec w)) = take kToolBashOutputCap (filter (\<lambda>c. c \<noteq> NUL) (bash_bytes es))"
    "te_dropped (bw_exec w) = length (filter (\<lambda>c. c \<noteq> NUL) (bash_bytes es)) - kToolBashOutputCap"
    "te_nuls (bw_exec w) = length (filter (\<lambda>c. c = NUL) (bash_bytes es))"
    unfolding out_byte_spec by (simp_all add: out_view_def)
  show ?thesis
    using bash_reach_result [OF r w0(1,3,2) assms(3)] o by (simp add: Let_def bash_content_def bash_is_error_def)
qed

definition sample_output_events :: "(bool \<times> bash_event) list" where
  "sample_output_events = (True, EvRead (Bytes [CHR ''o'', NUL, CHR ''k''])) # sample_bash_events"

theorem bash_result_of_run_witness:
  "\<exists>w0 w. bash_execute sample_setup sample_command = (True, w0) \<and> bash_run w0 sample_output_events = Some w
     \<and> te_nuls (bw_exec w) = 1 \<and> (\<exists>notes. map tr_content (bw_results w) = [append_notes ''ok'' notes])"
proof -
  obtain w0 where x: "bash_execute sample_setup sample_command = (True, w0)" and f: "bw_running w0"
    "\<not> te_pipe_done (bw_exec w0)" "\<not> te_timer_closing (bw_exec w0)" "\<not> te_grace_armed (bw_exec w0)"
    "\<forall>h. bw_handles w0 h = Open" "te_closes_done (bw_exec w0) = 0" "te_closes_expected (bw_exec w0) = 3"
    "\<not> te_done_fired (bw_exec w0)" "bw_pipe_owns w0" "bw_fds w0 = [0]" "bw_reading w0"
    using sample_execute by blast
  let ?bs = "[CHR ''o'', NUL, CHR ''k'']"
  obtain b d n where a: "bash_append_output (bw_exec w0) ?bs = (bw_exec w0)\<lparr>te_output := b, te_dropped := d, te_nuls := n\<rparr>"
    using bash_append_output_frame by blast
  define w1 where "w1 = set_exec (\<lambda>e. bash_append_output e ?bs) w0"
  have "bash_step w0 (True, EvRead (Bytes ?bs)) = Some w1"
    using f(11) by (simp add: w1_def kToolBashScratch_def)
  moreover obtain w where w: "bash_run w1 sample_bash_events = Some w" "bw_freed w"
    using sample_run [of w1] f unfolding w1_def set_exec_def a by auto
  ultimately have r: "bash_run w0 sample_output_events = Some w"
    unfolding sample_output_events_def bash_run.simps by simp
  have b: "bash_bytes sample_output_events = ?bs"
    by (simp add: sample_output_events_def sample_bash_events_def kToolBashScratch_def)
  have c: "map tr_content (bw_results w) = [append_notes ''ok'' (bash_notes (bw_exec w))]" "te_nuls (bw_exec w) = 1"
    using bash_result_of_run [OF x r w(2)] b by (simp_all add: Let_def kToolBashOutputCap_def)
  show ?thesis
    by (rule exI [of _ w0], rule exI [of _ w], intro conjI x r c(2), rule exI, rule c(1))
qed

end
