(* ===== verification/Provider.thy ===== *)
theory Provider
  imports Sse Json Paths
begin

text \<open>
  \<open>provider/openrouter.c\<close>: one streamed chat completion over the HTTP client. The state
  that \<open>openrouter_handle_event\<close> works on (accumulators, latches) is the user state of the
  event-stream parser; \<open>or_stream\<close> adds the attempt, the retry timer and the request. The
  user's callbacks are recorded in the order they are called (all three are given). The HTTP
  client, libuv's timer and the clock that seeds the generator are parameters: their calls are
  given by outcomes and their callbacks are the events of \<open>or_step\<close>.
\<close>

section \<open>State\<close>

definition kOrEventJsonCap :: nat where "kOrEventJsonCap = MUA_SSE_MAX_EVENT_DATA"
definition kOrErrorBodyCap :: nat where "kOrErrorBodyCap = 64 * 1024"
definition kOrFinishReasonCap :: nat where "kOrFinishReasonCap = 32"
definition kOrBackoffBaseMs :: int where "kOrBackoffBaseMs = 500"
definition kOrBackoffCapMs :: int where "kOrBackoffCapMs = 30000"
definition kOrRetryAfterCapS :: int where "kOrRetryAfterCapS = 60"
definition kOrToolIdCap :: nat where "kOrToolIdCap = 64"
definition kOrToolNameCap :: nat where "kOrToolNameCap = 128"
definition kOrToolArgsCap :: nat where "kOrToolArgsCap = 256 * 1024"
definition kOrContentCap :: nat where "kOrContentCap = 1024 * 1024"
definition kOrToolItemsPerEvent :: nat where "kOrToolItemsPerEvent = 64"
definition MUA_HTTP_MAX_ATTEMPTS :: nat where "MUA_HTTP_MAX_ATTEMPTS = 5"
definition MUA_MAX_TOOL_CALLS :: nat where "MUA_MAX_TOOL_CALLS = 16"
definition MUA_DEFAULT_MODEL :: string where "MUA_DEFAULT_MODEL = ''anthropic/claude-sonnet-4.6''"
definition MUA_OPENROUTER_BASE_URL :: string where "MUA_OPENROUTER_BASE_URL = ''https://openrouter.ai/api/v1''"

datatype or_mode = kOrModeUndecided | kOrModeSse | kOrModeErrorBody

record or_tool_call =
  oc_present :: bool
  oc_id :: string
  oc_name :: string
  oc_args :: buf

record usage =
  prompt_tokens :: int
  completion_tokens :: int
  total_tokens :: int

datatype or_output = OnText string | OnDone cjson string usage | OnError error

record or_state =
  or_finished :: bool
  or_delivered :: bool
  or_finish_reason :: string
  or_usage :: usage
  or_content :: buf
  or_calls :: "or_tool_call list"
  or_hwm :: nat
  or_out :: "or_output list"

definition accumulators_init :: "or_state \<Rightarrow> or_state" where
  "accumulators_init st =
     st\<lparr>or_content := buf_init kOrContentCap,
        or_calls := replicate MUA_MAX_TOOL_CALLS
          \<lparr>oc_present = False, oc_id = [], oc_name = [], oc_args = buf_init kOrToolArgsCap\<rparr>\<rparr>"

definition emit :: "or_output \<Rightarrow> or_state \<Rightarrow> or_state" where
  "emit out st = st\<lparr>or_out := or_out st @ [out]\<rparr>"

definition fire_error_msg :: "error_type \<Rightarrow> string \<Rightarrow> or_state \<Rightarrow> or_state" where
  "fire_error_msg ty msg st =
     (if or_finished st then st else emit (OnError (ty, msg)) (st\<lparr>or_finished := True\<rparr>))"

section \<open>The finished message\<close>

definition tool_call_entry :: "or_tool_call \<Rightarrow> cjson" where
  "tool_call_entry call =
     (let entry = CObject [];
          entry = json_add_cstr entry ''id'' (oc_id call);
          entry = json_add_cstr entry ''type'' ''function'';
          f = json_new_obj;
          f = json_add_cstr f ''name'' (oc_name call);
          f = json_add_str f ''arguments'' (Some (buf_data (oc_args call)))
      in json_add entry ''function'' f)"

definition assemble_message :: "or_state \<Rightarrow> cjson" where
  "assemble_message st =
     (let msg = json_add_cstr json_new_obj ''role'' ''assistant'';
          msg = (if buf_size (or_content st) > 0
                 then json_add_str msg ''content'' (Some (buf_data (or_content st)))
                 else json_add msg ''content'' CNull);
          calls = filter oc_present (take (or_hwm st) (or_calls st))
      in if calls = [] then msg
         else json_add msg ''tool_calls'' (CArray (map tool_call_entry calls)))"

definition fire_done :: "or_state \<Rightarrow> or_state" where
  "fire_done st =
     (if or_finished st then st
      else if \<exists>call \<in> set (take (or_hwm st) (or_calls st)). oc_present call \<and> (oc_id call = [] \<or> oc_name call = [])
      then fire_error_msg kErrorTypeException ''incomplete tool call in stream'' st
      else emit (OnDone (assemble_message st) (or_finish_reason st) (or_usage st)) (st\<lparr>or_finished := True\<rparr>))"

section \<open>One event\<close>

text \<open>A latched name: the first non-empty fragment, refused when it does not fit.\<close>

definition latch :: "nat \<Rightarrow> string option \<Rightarrow> string \<Rightarrow> string option" where
  "latch cap fragment old =
     (case fragment of
        None \<Rightarrow> Some old
      | Some s \<Rightarrow> if s \<noteq> [] \<and> old = [] then (if length s \<ge> cap then None else Some s) else Some old)"

definition fold_tool_call :: "or_state \<Rightarrow> nat \<Rightarrow> cjson \<Rightarrow> or_state \<times> bool" where
  "fold_tool_call st i item =
     (let call = or_calls st ! i;
          call = call\<lparr>oc_present := True\<rparr>;
          st = st\<lparr>or_calls := (or_calls st)[i := call],
                  or_hwm := (if i + 1 > or_hwm st then i + 1 else or_hwm st), or_delivered := True\<rparr>
      in case latch kOrToolIdCap (json_get_cstr item ''id'') (oc_id call) of
           None \<Rightarrow> (fire_error_msg kErrorTypeException ''tool_call id exceeds cap'' st, False)
         | Some cid \<Rightarrow>
             let call = call\<lparr>oc_id := cid\<rparr>; st = st\<lparr>or_calls := (or_calls st)[i := call]\<rparr> in
             (case json_get_obj item ''function'' of
                None \<Rightarrow> (st, True)
              | Some f \<Rightarrow>
                  (case latch kOrToolNameCap (json_get_cstr f ''name'') (oc_name call) of
                     None \<Rightarrow> (fire_error_msg kErrorTypeException ''tool_call name exceeds cap'' st, False)
                   | Some name \<Rightarrow>
                       let call = call\<lparr>oc_name := name\<rparr>; st = st\<lparr>or_calls := (or_calls st)[i := call]\<rparr> in
                       (case json_get_cstr f ''arguments'' of
                          None \<Rightarrow> (st, True)
                        | Some args \<Rightarrow>
                            if args = [] then (st, True)
                            else (case buf_append (oc_args call) args of
                                    None \<Rightarrow> (fire_error_msg kErrorTypeException ''tool_call arguments exceed cap'' st, False)
                                  | Some b \<Rightarrow> (st\<lparr>or_calls := (or_calls st)[i := call\<lparr>oc_args := b\<rparr>]\<rparr>, True))))))"

fun accumulate_tool_calls :: "or_state \<Rightarrow> nat \<Rightarrow> cjson list \<Rightarrow> or_state \<times> bool" where
  "accumulate_tool_calls st count [] = (st, True)"
| "accumulate_tool_calls st count (item # items) =
     (if count + 1 > kOrToolItemsPerEvent
      then (fire_error_msg kErrorTypeException ''too many tool_call items in one event'' st, False)
      else (case json_get_int item ''index'' of
              None \<Rightarrow> (fire_error_msg kErrorTypeException ''tool_call index missing or out of range'' st, False)
            | Some index \<Rightarrow>
                if index < 0 \<or> index \<ge> int MUA_MAX_TOOL_CALLS
                then (fire_error_msg kErrorTypeException ''tool_call index missing or out of range'' st, False)
                else (case fold_tool_call st (nat index) item of
                        (st, False) \<Rightarrow> (st, False)
                      | (st, True) \<Rightarrow> accumulate_tool_calls st (count + 1) items)))"

definition latch_usage :: "cjson option \<Rightarrow> usage \<Rightarrow> usage" where
  "latch_usage obj u =
     (case obj of
        None \<Rightarrow> u
      | Some o1 \<Rightarrow>
          u\<lparr>prompt_tokens := (case json_get_int o1 ''prompt_tokens'' of Some n \<Rightarrow> n | None \<Rightarrow> prompt_tokens u),
            completion_tokens := (case json_get_int o1 ''completion_tokens'' of Some n \<Rightarrow> n | None \<Rightarrow> completion_tokens u),
            total_tokens := (case json_get_int o1 ''total_tokens'' of Some n \<Rightarrow> n | None \<Rightarrow> total_tokens u)\<rparr>)"

text \<open>The first choice: the delta's text, its tool calls, the finish reason.\<close>

definition handle_choice :: "or_state \<Rightarrow> cjson \<Rightarrow> or_state \<times> bool" where
  "handle_choice st choice =
     (let delta = json_get_obj choice ''delta'';
          content = (case delta of None \<Rightarrow> None | Some d \<Rightarrow> json_get_cstr d ''content'');
          texted = (case content of
                      None \<Rightarrow> Some st
                    | Some s \<Rightarrow>
                        if s = [] then Some st
                        else (case buf_append (or_content st) s of
                                None \<Rightarrow> None
                              | Some b \<Rightarrow> Some (emit (OnText s) (st\<lparr>or_content := b, or_delivered := True\<rparr>))))
      in case texted of
           None \<Rightarrow> (fire_error_msg kErrorTypeException ''assistant content exceeds cap'' st, False)
         | Some st \<Rightarrow>
             (case (case delta of None \<Rightarrow> None | Some d \<Rightarrow> json_get_arr d ''tool_calls'') of
                None \<Rightarrow> (st, True)
              | Some items \<Rightarrow> accumulate_tool_calls st 0 items))"

definition latch_finish :: "or_state \<Rightarrow> cjson \<Rightarrow> or_state" where
  "latch_finish st choice =
     (case json_get_cstr choice ''finish_reason'' of
        None \<Rightarrow> st
      | Some s \<Rightarrow> st\<lparr>or_finish_reason := take (kOrFinishReasonCap - 1) s\<rparr>)"

text \<open>The flag: whether the transfer goes on.\<close>

definition openrouter_handle_event :: "json_parser \<Rightarrow> or_state \<Rightarrow> string \<Rightarrow> or_state \<times> bool" where
  "openrouter_handle_event cparse st data =
     (if or_finished st then (st, False)
      else if data = ''[DONE]'' then (fire_done st, False)
      else (case json_parse cparse (Some data) kOrEventJsonCap of
              Inl (_, msg) \<Rightarrow> (fire_error_msg kErrorTypeException msg st, False)
            | Inr doc \<Rightarrow>
                (case json_get_obj doc ''error'' of
                   Some error_obj \<Rightarrow>
                     (emit (OnError (kErrorTypeException, ''api error: '' @
                        (case json_get_cstr error_obj ''message'' of Some m \<Rightarrow> m | None \<Rightarrow> ''(no message)'')))
                        (st\<lparr>or_finished := True\<rparr>), False)
                 | None \<Rightarrow>
                     (case (case json_get_arr doc ''choices'' of Some (choice # _) \<Rightarrow> Some choice | _ \<Rightarrow> None) of
                        None \<Rightarrow> (st\<lparr>or_usage := latch_usage (json_get_obj doc ''usage'') (or_usage st)\<rparr>, True)
                      | Some choice \<Rightarrow>
                          (case handle_choice st choice of
                             (st, False) \<Rightarrow> (st, False)
                           | (st, True) \<Rightarrow>
                               let st = latch_finish st choice in
                               (st\<lparr>or_usage := latch_usage (json_get_obj doc ''usage'') (or_usage st)\<rparr>, True))))))"

definition or_on_event :: "json_parser \<Rightarrow> or_state sse_cb" where
  "or_on_event cparse st event_type data eid = openrouter_handle_event cparse st data"

section \<open>The stream and its attempts\<close>

datatype curl_code =
    CURLE_OK
  | CURLE_COULDNT_RESOLVE_HOST
  | CURLE_COULDNT_CONNECT
  | CURLE_SSL_CONNECT_ERROR
  | CURLE_SEND_ERROR
  | CURLE_RECV_ERROR
  | CURLE_OPERATION_TIMEDOUT
  | CURLE_GOT_NOTHING
  | CURLE_HTTP2
  | CURLE_HTTP2_STREAM
  | CURLE_ABORTED_BY_CALLBACK
  | CURLE_WRITE_ERROR
  | CURLE_OTHER nat

text \<open>The retry timer: not initialised, initialised and stopped, running, closing.\<close>

datatype or_timer = TimerNone | TimerIdle | TimerArmed int | TimerClosing

record http_post =
  hp_url :: string
  hp_headers :: "string list"
  hp_body :: string

record or_stream =
  os_state :: or_state
  os_sse :: sse_parser
  os_url :: string
  os_auth_header :: string
  os_body :: string
  os_error_body :: buf
  os_error_body_truncated :: bool
  os_timer :: or_timer
  os_req :: bool
  os_attempt :: nat
  os_mode :: or_mode
  os_wrong_ctype :: bool
  os_http_status :: int
  os_cancel_requested :: bool
  os_prng :: u64
  os_sent :: "http_post list"
  os_destroys :: nat
  os_freed :: bool

definition on_state :: "(or_state \<Rightarrow> or_state) \<Rightarrow> or_stream \<Rightarrow> or_stream" where
  "on_state f s = s\<lparr>os_state := f (os_state s)\<rparr>"

definition or_on_status :: "int \<Rightarrow> string option \<Rightarrow> or_stream \<Rightarrow> or_stream" where
  "or_on_status status content_type s =
     (let s = s\<lparr>os_http_status := status\<rparr> in
      if status = 200
      then (if (case content_type of None \<Rightarrow> False | Some c \<Rightarrow> take 17 c = ''text/event-stream'')
            then s\<lparr>os_mode := kOrModeSse\<rparr>
            else s\<lparr>os_mode := kOrModeErrorBody, os_wrong_ctype := True\<rparr>)
      else s\<lparr>os_mode := kOrModeErrorBody\<rparr>)"

definition or_on_chunk :: "json_parser \<Rightarrow> string \<Rightarrow> or_stream \<Rightarrow> or_stream \<times> bool" where
  "or_on_chunk cparse bytes s =
     (if os_mode s = kOrModeSse
      then (case sse_parser_feed (or_on_event cparse) (os_sse s) (os_state s) bytes of
              (err, sse, st) \<Rightarrow>
                let s = s\<lparr>os_sse := sse, os_state := st\<rparr> in
                (case err of
                   None \<Rightarrow> (s, True)
                 | Some (_, msg) \<Rightarrow> (on_state (fire_error_msg kErrorTypeException msg) s, False)))
      else (case buf_append (os_error_body s) bytes of
              None \<Rightarrow> (s\<lparr>os_error_body_truncated := True\<rparr>, True)
            | Some b \<Rightarrow> (s\<lparr>os_error_body := b\<rparr>, True)))"

definition prng_next :: "u64 \<Rightarrow> u64" where
  "prng_next x =
     (let x = x XOR push_bit 13 x; x = x XOR drop_bit 7 x in x XOR push_bit 17 x)"

definition status_is_retryable :: "int \<Rightarrow> bool" where
  "status_is_retryable status \<longleftrightarrow>
     status = 408 \<or> status = 429 \<or> status = 500 \<or> status = 502 \<or> status = 503 \<or> status = 504"

definition curl_code_is_retryable :: "curl_code \<Rightarrow> bool" where
  "curl_code_is_retryable code \<longleftrightarrow>
     code \<in> {CURLE_COULDNT_RESOLVE_HOST, CURLE_COULDNT_CONNECT, CURLE_SSL_CONNECT_ERROR, CURLE_SEND_ERROR,
             CURLE_RECV_ERROR, CURLE_OPERATION_TIMEDOUT, CURLE_GOT_NOTHING, CURLE_HTTP2, CURLE_HTTP2_STREAM}"

text \<open>The close callback of the timer: the key is wiped and everything is freed.\<close>

definition retry_timer_closed :: "or_stream \<Rightarrow> or_stream" where
  "retry_timer_closed s =
     s\<lparr>os_auth_header := replicate (length (os_auth_header s)) NUL, os_freed := True\<rparr>"

definition stream_destroy :: "or_stream \<Rightarrow> or_stream" where
  "stream_destroy s =
     (let s = s\<lparr>os_destroys := os_destroys s + 1\<rparr> in
      if os_timer s \<noteq> TimerNone then s\<lparr>os_timer := TimerClosing\<rparr> else retry_timer_closed s)"

definition backoff_ms :: "nat \<Rightarrow> u64 \<Rightarrow> int \<Rightarrow> int" where
  "backoff_ms attempt x retry_after_s =
     (let shift = (if attempt < 6 then attempt else 6);
          delay_ms = kOrBackoffBaseMs * 2 ^ shift;
          delay_ms = (if delay_ms > kOrBackoffCapMs then kOrBackoffCapMs else delay_ms);
          delay_ms = delay_ms div 2 + uint x mod (delay_ms div 2 + 1)
      in if retry_after_s \<ge> 0
         then let ra_ms = (if retry_after_s < kOrRetryAfterCapS then retry_after_s else kOrRetryAfterCapS) * 1000
              in if ra_ms > delay_ms then ra_ms else delay_ms
         else delay_ms)"

text \<open>\<open>start_ok\<close>: whether \<open>uv_timer_start\<close> succeeds.\<close>

definition schedule_retry :: "bool \<Rightarrow> int \<Rightarrow> or_stream \<Rightarrow> or_stream" where
  "schedule_retry start_ok retry_after_s s =
     (let s = s\<lparr>os_prng := prng_next (os_prng s)\<rparr>;
          delay_ms = backoff_ms (os_attempt s) (os_prng s) retry_after_s
      in if start_ok then s\<lparr>os_timer := TimerArmed delay_ms\<rparr>
         else stream_destroy (on_state (fire_error_msg kErrorTypeException ''failed to schedule a retry'') s))"

definition report_http_failure :: "json_parser \<Rightarrow> or_stream \<Rightarrow> or_stream" where
  "report_http_failure cparse s =
     (if os_wrong_ctype s
      then on_state (fire_error_msg kErrorTypeException ''unexpected content-type on HTTP 200 response'') s
      else
        let body = buf_data (os_error_body s);
            doc = (if body \<noteq> [] then (case json_parse cparse (Some body) kOrErrorBodyCap of Inr d \<Rightarrow> Some d | Inl _ \<Rightarrow> None)
                   else None);
            message = (case doc of
                         None \<Rightarrow> None
                       | Some d \<Rightarrow> (case json_get_obj d ''error'' of None \<Rightarrow> None | Some e \<Rightarrow> json_get_cstr e ''message''));
            head = ''api error (HTTP '' @ show_int (os_http_status s) @ '')'';
            msg = (case message of
                     Some m \<Rightarrow> head @ '': '' @ m @ (if os_error_body_truncated s then '' [truncated]'' else [])
                   | None \<Rightarrow> head)
        in if \<not> or_finished (os_state s)
           then on_state (\<lambda>st. emit (OnError (kErrorTypeException, msg)) (st\<lparr>or_finished := True\<rparr>)) s
           else s)"

definition or_on_complete ::
    "json_parser \<Rightarrow> (curl_code \<Rightarrow> string) \<Rightarrow> bool \<Rightarrow> curl_code \<Rightarrow> int \<Rightarrow> string option \<Rightarrow> int \<Rightarrow> or_stream \<Rightarrow> or_stream" where
  "or_on_complete cparse curl_strerror start_ok result http_status errmsg retry_after_s s =
     (let s = s\<lparr>os_req := False\<rparr> in
      if or_finished (os_state s) then stream_destroy s
      else if os_cancel_requested s
      then stream_destroy (on_state (fire_error_msg kErrorTypeException ''canceled'') s)
      else if os_mode s = kOrModeSse \<and> result = CURLE_OK
      then (if or_finish_reason (os_state s) \<noteq> [] \<and> sse_parser_finish (os_sse s) = kSseEofClean
            then stream_destroy (on_state fire_done s)
            else stream_destroy (on_state (fire_error_msg kErrorTypeException ''stream ended before completion'') s))
      else
        let retryable = (if os_mode s = kOrModeErrorBody \<or> os_mode s = kOrModeUndecided
                         then status_is_retryable (if http_status \<noteq> 0 then http_status else os_http_status s)
                         else False);
            retryable = (if result \<noteq> CURLE_OK then retryable \<or> curl_code_is_retryable result else retryable)
        in if retryable \<and> \<not> or_delivered (os_state s) \<and> os_attempt s < MUA_HTTP_MAX_ATTEMPTS
           then schedule_retry start_ok retry_after_s s
           else if os_mode s = kOrModeErrorBody then stream_destroy (report_http_failure cparse s)
           else
             let msg = ''request failed: '' @ (case errmsg of Some m \<Rightarrow> m | None \<Rightarrow> curl_strerror result)
             in stream_destroy
                  (on_state (\<lambda>st. emit (OnError (kErrorTypeException, msg)) (st\<lparr>or_finished := True\<rparr>)) s))"

definition reset_call :: "or_tool_call \<Rightarrow> or_tool_call" where
  "reset_call c = c\<lparr>oc_present := False, oc_id := [], oc_name := [], oc_args := buf_reset (oc_args c)\<rparr>"

definition reset_state :: "or_state \<Rightarrow> or_state" where
  "reset_state st =
     st\<lparr>or_finish_reason := [], or_usage := \<lparr>prompt_tokens = 0, completion_tokens = 0, total_tokens = 0\<rparr>,
        or_content := buf_reset (or_content st), or_calls := map reset_call (or_calls st), or_hwm := 0\<rparr>"

text \<open>\<open>req\<close>: the error of \<open>http_request\<close>, none when it returns a request.\<close>

definition start_attempt :: "error option \<Rightarrow> or_stream \<Rightarrow> or_stream" where
  "start_attempt req s =
     (let s = s\<lparr>os_sse := sse_parser_reset (os_sse s), os_error_body := buf_reset (os_error_body s),
                os_error_body_truncated := False, os_mode := kOrModeUndecided, os_wrong_ctype := False,
                os_http_status := 0, os_state := reset_state (os_state s), os_attempt := os_attempt s + 1\<rparr>;
          post = \<lparr>hp_url = os_url s,
                  hp_headers = [os_auth_header s, ''Content-Type: application/json'', ''Accept: text/event-stream''],
                  hp_body = os_body s\<rparr>
      in case req of
           None \<Rightarrow> s\<lparr>os_req := True, os_sent := os_sent s @ [post]\<rparr>
         | Some (_, msg) \<Rightarrow> stream_destroy (on_state (fire_error_msg kErrorTypeException msg) s))"

section \<open>Opening and cancelling\<close>

record openrouter_opts =
  op_model :: "string option"
  op_max_tokens :: int
  op_messages :: cjson
  op_tools :: "cjson option"
  op_api_key :: "string option"
  op_base_url :: "string option"

text \<open>The object that \<open>build_body\<close> prints.\<close>

definition body_object :: "openrouter_opts \<Rightarrow> cjson" where
  "body_object opts =
     (let body = json_new_obj;
          body = json_add_cstr body ''model'' (case op_model opts of Some m \<Rightarrow> m | None \<Rightarrow> MUA_DEFAULT_MODEL);
          body = json_add_bool body ''stream'' True;
          body = (if op_max_tokens opts > 0 then json_add_int body ''max_tokens'' (op_max_tokens opts) else body);
          body = json_add body ''messages'' (CArray (cj_children (op_messages opts)))
      in case op_tools opts of
           None \<Rightarrow> body
         | Some t \<Rightarrow> if cj_children t \<noteq> [] then json_add body ''tools'' (CArray (cj_children t)) else body)"

definition build_body :: "(cjson \<Rightarrow> string) \<Rightarrow> openrouter_opts \<Rightarrow> string" where
  "build_body cprint opts = str_bytes (json_print cprint (body_object opts))"

definition nonempty :: "string option \<Rightarrow> bool" where
  "nonempty s \<longleftrightarrow> (case s of None \<Rightarrow> False | Some t \<Rightarrow> t \<noteq> [])"

fun trim_slashes :: "string \<Rightarrow> nat \<Rightarrow> nat" where
  "trim_slashes base 0 = 0"
| "trim_slashes base (Suc n) = (if base ! n = SLASH then trim_slashes base n else Suc n)"

definition build_url :: "(string \<Rightarrow> string option) \<Rightarrow> openrouter_opts \<Rightarrow> string" where
  "build_url getenv opts =
     (let base = op_base_url opts;
          base = (if \<not> nonempty base then getenv ''OPENROUTER_BASE_URL'' else base);
          base = (if \<not> nonempty base then Some MUA_OPENROUTER_BASE_URL else base);
          base = (case base of Some b \<Rightarrow> b | None \<Rightarrow> [])
      in take (trim_slashes base (length base)) base @ ''/chat/completions'')"

definition state_init :: or_state where
  "state_init = accumulators_init
     \<lparr>or_finished = False, or_delivered = False, or_finish_reason = [],
      or_usage = \<lparr>prompt_tokens = 0, completion_tokens = 0, total_tokens = 0\<rparr>,
      or_content = buf_init 0, or_calls = [], or_hwm = 0, or_out = []\<rparr>"

text \<open>What the first calls answer: the clock, \<open>uv_timer_init\<close>, \<open>http_request\<close>.\<close>

definition openrouter_stream ::
    "(cjson \<Rightarrow> string) \<Rightarrow> (string \<Rightarrow> string option) \<Rightarrow> u64 \<Rightarrow> bool \<Rightarrow> error option \<Rightarrow> openrouter_opts \<Rightarrow>
     error + or_stream" where
  "openrouter_stream cprint getenv hrtime timer_ok req opts =
     (if \<not> nonempty (op_api_key opts)
      then Inl (kErrorTypeValidation, ''openrouter: api key is required'')
      else if (case op_messages opts of CArray (m # ms) \<Rightarrow> False | _ \<Rightarrow> True)
      then Inl (kErrorTypeValidation, ''openrouter: messages must be a non-empty array'')
      else if (case op_tools opts of None \<Rightarrow> False | Some (CArray _) \<Rightarrow> False | Some _ \<Rightarrow> True)
      then Inl (kErrorTypeValidation, ''openrouter: tools must be an array'')
      else
        let s = \<lparr>os_state = state_init, os_sse = sse_parser_new None, os_url = build_url getenv opts,
                 os_auth_header = ''Authorization: Bearer '' @ the (op_api_key opts),
                 os_body = build_body cprint opts, os_error_body = buf_init kOrErrorBodyCap,
                 os_error_body_truncated = False, os_timer = TimerNone, os_req = False, os_attempt = 0,
                 os_mode = kOrModeUndecided, os_wrong_ctype = False, os_http_status = 0,
                 os_cancel_requested = False, os_prng = hrtime OR 1, os_sent = [], os_destroys = 0,
                 os_freed = False\<rparr>
        in if \<not> timer_ok then Inl (kErrorTypeException, ''openrouter: timer init failed'')
           else Inr (start_attempt req (s\<lparr>os_timer := TimerIdle\<rparr>)))"

definition openrouter_cancel :: "or_stream \<Rightarrow> or_stream" where
  "openrouter_cancel s =
     (if or_finished (os_state s) \<or> os_cancel_requested s then s
      else
        let s = s\<lparr>os_cancel_requested := True\<rparr> in
        if os_req s then s
        else
          let s = s\<lparr>os_timer := TimerIdle\<rparr> in
          stream_destroy (on_state (fire_error_msg kErrorTypeException ''canceled'') s))"

section \<open>Events\<close>

text \<open>
  What the HTTP client, the timer and the owner can do next. The client calls back only for a live
  request; the timer fires only when armed; the owner cancels only before the terminal callback.
\<close>

datatype or_event =
    EvStatus int "string option"
  | EvChunk string
  | EvComplete bool curl_code int "string option" int
  | EvRetry "error option"
  | EvTimerClosed
  | EvStreamCancel

fun or_step :: "json_parser \<Rightarrow> (curl_code \<Rightarrow> string) \<Rightarrow> or_stream \<Rightarrow> or_event \<Rightarrow> or_stream option" where
  "or_step cparse ce s (EvStatus st ct) = (if os_req s then Some (or_on_status st ct s) else None)"
| "or_step cparse ce s (EvChunk bs) = (if os_req s then Some (fst (or_on_chunk cparse bs s)) else None)"
| "or_step cparse ce s (EvComplete ok res st msg ra) =
     (if os_req s then Some (or_on_complete cparse ce ok res st msg ra s) else None)"
| "or_step cparse ce s (EvRetry req) =
     (case os_timer s of TimerArmed _ \<Rightarrow> Some (start_attempt req (s\<lparr>os_timer := TimerIdle\<rparr>)) | _ \<Rightarrow> None)"
| "or_step cparse ce s EvTimerClosed =
     (if os_timer s = TimerClosing \<and> \<not> os_freed s then Some (retry_timer_closed s) else None)"
| "or_step cparse ce s EvStreamCancel =
     (if os_freed s \<or> or_finished (os_state s) then None else Some (openrouter_cancel s))"

inductive or_reach :: "json_parser \<Rightarrow> (curl_code \<Rightarrow> string) \<Rightarrow> or_stream \<Rightarrow> or_stream \<Rightarrow> bool"
  for cparse ce s0 where
  reach_open: "or_reach cparse ce s0 s0"
| reach_event: "or_reach cparse ce s0 s \<Longrightarrow> or_step cparse ce s e = Some s' \<Longrightarrow> or_reach cparse ce s0 s'"

end
