(* ===== verification/ProviderProps.thy ===== *)
theory ProviderProps
  imports Provider SseRefine Callbacks
begin

text \<open>
  Properties of the provider: the shape of the callback sequence, the retry policy, the backoff
  bounds and the assembled message. Everything rests on one invariant of the state under the
  event callback, lifted through the event-stream parser, and one of the stream under its events.
\<close>

section \<open>The state under the event callback\<close>

fun is_text :: "or_output \<Rightarrow> bool" where
  "is_text (OnText s) = True"
| "is_text _ = False"

fun out_texts :: "or_output list \<Rightarrow> string" where
  "out_texts [] = []"
| "out_texts (OnText s # os) = s @ out_texts os"
| "out_texts (_ # os) = out_texts os"

lemma out_texts_append [simp]: "out_texts (xs @ ys) = out_texts xs @ out_texts ys"
  by (induction xs rule: out_texts.induct) auto

lemma out_texts_terminal [simp]: "\<not> is_text x \<Longrightarrow> out_texts [x] = []"
  by (cases x) auto

text \<open>The message a consumer gets: the streamed text, and complete tool calls.\<close>

definition call_complete :: "cjson \<Rightarrow> bool" where
  "call_complete entry \<longleftrightarrow> (\<exists>cid f name. json_get_cstr entry ''id'' = Some cid \<and> cid \<noteq> []
     \<and> json_get_obj entry ''function'' = Some f \<and> json_get_cstr f ''name'' = Some name \<and> name \<noteq> []
     \<and> json_get_cstr f ''arguments'' \<noteq> None)"

definition message_ok :: "string \<Rightarrow> cjson \<Rightarrow> bool" where
  "message_ok text msg \<longleftrightarrow> json_get_cstr msg ''role'' = Some ''assistant''
     \<and> cj_get msg ''content'' = Some (if text = [] then CNull else CString (cstr text))
     \<and> (case json_get_arr msg ''tool_calls'' of None \<Rightarrow> True
        | Some calls \<Rightarrow> calls \<noteq> [] \<and> length calls \<le> MUA_MAX_TOOL_CALLS \<and> list_all call_complete calls)"

fun output_ok :: "string \<Rightarrow> or_output \<Rightarrow> bool" where
  "output_ok text (OnDone msg reason u) = message_ok text msg"
| "output_ok text _ = True"

text \<open>NUL-free names: what a C string member of a parsed document is.\<close>

definition calls_ok :: "or_state \<Rightarrow> bool" where
  "calls_ok st \<longleftrightarrow> length (or_calls st) = MUA_MAX_TOOL_CALLS
     \<and> (\<forall>c \<in> set (or_calls st). cstr (oc_id c) = oc_id c \<and> cstr (oc_name c) = oc_name c)"

definition state_ok :: "or_state \<Rightarrow> bool" where
  "state_ok st \<longleftrightarrow> calls_ok st \<and> buf_ok (or_content st) \<and> buf_max (or_content st) = kOrContentCap
     \<and> (\<exists>ts. list_all is_text ts \<and> (or_delivered st \<or> ts = [])
          \<and> (if or_finished st
             then \<exists>t. or_out st = ts @ [t] \<and> \<not> is_text t \<and> output_ok (out_texts ts) t
             else or_out st = ts \<and> buf_data (or_content st) = out_texts ts))"

text \<open>C strings of a document carry no NUL byte: the documented behaviour of the JSON library.\<close>

fun nul_free :: "cjson \<Rightarrow> bool" where
  "nul_free (CString s) = (NUL \<notin> set s)"
| "nul_free (CArray xs) = list_all nul_free xs"
| "nul_free (CObject kvs) = list_all (\<lambda>kv. nul_free (snd kv)) kvs"
| "nul_free _ = True"

definition parser_ok :: "json_parser \<Rightarrow> bool" where
  "parser_ok cparse \<longleftrightarrow> (\<forall>s node n. cparse s = Inr (node, n) \<longrightarrow> nul_free node)"

lemma parser_okD: "parser_ok cparse \<Longrightarrow> cparse s = Inr (node, n) \<Longrightarrow> nul_free node"
  by (auto simp: parser_ok_def)

lemma nul_free_get: "nul_free x \<Longrightarrow> cj_get x k = Some y \<Longrightarrow> nul_free y"
proof (induction x k rule: cj_get.induct)
  case (1 kvs key)
  then show ?case by (auto simp: list_all_iff dest!: map_of_SomeD)
qed auto

lemma nul_free_cstr: "nul_free x \<Longrightarrow> json_get_cstr x k = Some s \<Longrightarrow> NUL \<notin> set s"
  using nul_free_get [of x k "CString s"] by (auto simp: json_get_cstr_def split: option.splits cjson.splits)

lemma nul_free_obj: "nul_free x \<Longrightarrow> json_get_obj x k = Some y \<Longrightarrow> nul_free y"
  using nul_free_get by (auto simp: json_get_obj_def split: option.splits cjson.splits)

lemma nul_free_arr: "nul_free x \<Longrightarrow> json_get_arr x k = Some ys \<Longrightarrow> list_all nul_free ys"
  using nul_free_get [of x k] by (auto simp: json_get_arr_def split: option.splits cjson.splits)

lemma nul_free_parse: "parser_ok cparse \<Longrightarrow> json_parse cparse doc n = Inr x \<Longrightarrow> nul_free x"
  by (auto simp: json_parse_def Let_def dest: parser_okD split: option.splits sum.splits list.splits if_splits)

text \<open>Firing the terminal callback keeps the invariant.\<close>

lemma state_ok_finish:
  assumes "state_ok st" "\<not> or_finished st" "\<not> is_text t" "output_ok (buf_data (or_content st)) t"
  shows "state_ok (emit t (st\<lparr>or_finished := True\<rparr>))"
  using assms by (auto simp: state_ok_def emit_def calls_ok_def)

lemma state_ok_error: "state_ok st \<Longrightarrow> state_ok (fire_error_msg ty msg st) \<and> or_finished (fire_error_msg ty msg st)"
  using state_ok_finish [of st "OnError (ty, msg)"] by (auto simp: fire_error_msg_def emit_def)

lemma json_add_get:
  "cj_get (json_add (CObject kvs) k v) k' = (case map_of kvs k' of Some x \<Rightarrow> Some x | None \<Rightarrow> if k' = k then Some v else None)"
  by (auto simp: map_add_def split: option.splits)

lemma call_complete_entry:
  "cstr (oc_id c) = oc_id c \<Longrightarrow> cstr (oc_name c) = oc_name c \<Longrightarrow> oc_id c \<noteq> [] \<Longrightarrow> oc_name c \<noteq> [] \<Longrightarrow>
   call_complete (tool_call_entry c)"
  by (simp add: call_complete_def tool_call_entry_def Let_def json_add_cstr_def json_add_str_def json_new_obj_def
      json_get_cstr_def json_get_obj_def)

lemma assemble_message_ok:
  assumes "calls_ok st" "\<forall>c \<in> set (take (or_hwm st) (or_calls st)). oc_present c \<longrightarrow> oc_id c \<noteq> [] \<and> oc_name c \<noteq> []"
  shows "message_ok (buf_data (or_content st)) (assemble_message st)"
proof -
  let ?calls = "filter oc_present (take (or_hwm st) (or_calls st))"
  have "length ?calls \<le> MUA_MAX_TOOL_CALLS"
    using assms(1) by (metis calls_ok_def length_filter_le length_take min.cobounded1 order_trans)
  moreover have "list_all call_complete (map tool_call_entry ?calls)"
    using assms by (auto simp: list_all_iff calls_ok_def dest: in_set_takeD intro!: call_complete_entry)
  ultimately show ?thesis
    by (auto simp: message_ok_def assemble_message_def Let_def json_add_cstr_def json_add_str_def json_new_obj_def
        json_get_cstr_def json_get_arr_def xstrndup_def buf_size_def cstr_def)
qed

lemma state_ok_done: "state_ok st \<Longrightarrow> state_ok (fire_done st) \<and> or_finished (fire_done st)"
  using state_ok_finish [of st "OnDone (assemble_message st) (or_finish_reason st) (or_usage st)"]
    state_ok_error assemble_message_ok [of st]
  by (auto simp: fire_done_def emit_def state_ok_def [of st])

section \<open>Handling an event\<close>

lemma latch_ok:
  "latch cap fragment old = Some new \<Longrightarrow> (\<And>s. fragment = Some s \<Longrightarrow> NUL \<notin> set s) \<Longrightarrow> cstr old = old \<Longrightarrow> cstr new = new"
  by (auto simp: latch_def split: option.splits if_splits)

text \<open>Updates of the accumulators below the terminal callback.\<close>

lemma state_ok_call:
  assumes "state_ok st" "i < MUA_MAX_TOOL_CALLS" "cstr (oc_id c) = oc_id c" "cstr (oc_name c) = oc_name c"
  shows "state_ok (st\<lparr>or_calls := (or_calls st)[i := c]\<rparr>)"
    and "state_ok (st\<lparr>or_calls := (or_calls st)[i := c], or_hwm := h, or_delivered := True\<rparr>)"
    and "state_ok (st\<lparr>or_hwm := h, or_delivered := True, or_calls := (or_calls st)[i := c]\<rparr>)"
  using assms by (auto simp: state_ok_def calls_ok_def dest!: set_update_subset_insert [THEN subsetD])

lemma state_ok_latches [simp]:
  "state_ok (st\<lparr>or_usage := u\<rparr>) = state_ok st" "state_ok (st\<lparr>or_finish_reason := r\<rparr>) = state_ok st"
  by (simp_all add: state_ok_def calls_ok_def)

lemma fold_tool_call_ok:
  assumes "state_ok st" "i < MUA_MAX_TOOL_CALLS" "nul_free item" "fold_tool_call st i item = (st', go)"
  shows "state_ok st' \<and> (go \<or> or_finished st')"
proof -
  let ?c = "(or_calls st ! i)\<lparr>oc_present := True\<rparr>"
  have len: "i < length (or_calls st)" using assms(1,2) by (simp add: state_ok_def calls_ok_def)
  then have mem: "or_calls st ! i \<in> set (or_calls st)" by simp
  then have c: "cstr (oc_id ?c) = oc_id ?c" "cstr (oc_name ?c) = oc_name ?c"
    using assms(1) by (auto simp: state_ok_def calls_ok_def)
  let ?st = "st\<lparr>or_calls := (or_calls st)[i := ?c], or_hwm := (if i + 1 > or_hwm st then i + 1 else or_hwm st),
      or_delivered := True\<rparr>"
  have s1: "state_ok ?st" by (rule state_ok_call(2) [OF assms(1,2) c])
  show ?thesis
  proof (cases "latch kOrToolIdCap (json_get_cstr item ''id'') (oc_id ?c)")
    case None
    then show ?thesis using assms(4) state_ok_error [OF s1] by (auto simp: fold_tool_call_def Let_def)
  next
    case (Some cid)
    have cid: "cstr cid = cid" by (rule latch_ok [OF Some nul_free_cstr [OF assms(3)] c(1)])
    let ?c2 = "?c\<lparr>oc_id := cid\<rparr>"
    have s2: "state_ok (?st\<lparr>or_calls := (or_calls ?st)[i := ?c2]\<rparr>)"
      using state_ok_call(1) [OF s1 assms(2), of ?c2] cid c(2) by simp
    show ?thesis
    proof (cases "json_get_obj item ''function''")
      case None
      then show ?thesis using assms(4) s2 Some by (auto simp: fold_tool_call_def Let_def)
    next
      case f: (Some f)
      have nf: "nul_free f" by (rule nul_free_obj [OF assms(3) f])
      show ?thesis
      proof (cases "latch kOrToolNameCap (json_get_cstr f ''name'') (oc_name ?c2)")
        case None
        then show ?thesis using assms(4) state_ok_error [OF s2] Some f by (auto simp: fold_tool_call_def Let_def)
      next
        case n: (Some name)
        have name: "cstr name = name" using latch_ok [OF n nul_free_cstr [OF nf]] c(2) by simp
        let ?c3 = "?c2\<lparr>oc_name := name\<rparr>"
        have s3: "state_ok (st\<lparr>or_hwm := h, or_delivered := True, or_calls := (or_calls st)[i := ?c3]\<rparr>)" for h
          by (rule state_ok_call(3) [OF assms(1,2)]) (use cid name in auto)
        have s4: "state_ok (st\<lparr>or_hwm := h, or_delivered := True, or_calls := (or_calls st)[i := ?c3\<lparr>oc_args := b\<rparr>]\<rparr>)"
          for h b by (rule state_ok_call(3) [OF assms(1,2)]) (use cid name in auto)
        show ?thesis
          using assms(4) Some f n s3 s4 s3 [of "or_hwm st"] s4 [where h = "or_hwm st"] state_ok_error [OF s3]
            state_ok_error [OF s3 [of "or_hwm st"]]
          by (auto simp: fold_tool_call_def Let_def split: option.splits if_splits)
      qed
    qed
  qed
qed

lemma accumulate_ok:
  "state_ok st \<Longrightarrow> list_all nul_free items \<Longrightarrow> accumulate_tool_calls st n items = (st', go) \<Longrightarrow>
   state_ok st' \<and> (go \<or> or_finished st')"
proof (induction st n items rule: accumulate_tool_calls.induct)
  case (2 st n item items)
  show ?case
  proof (cases "n + 1 > kOrToolItemsPerEvent")
    case True
    then show ?thesis using 2 state_ok_error by auto
  next
    case False
    show ?thesis
    proof (cases "json_get_int item ''index''")
      case None
      then show ?thesis using 2 False state_ok_error by auto
    next
      case (Some index)
      show ?thesis
      proof (cases "index < 0 \<or> index \<ge> int MUA_MAX_TOOL_CALLS")
        case True
        then show ?thesis using 2 False Some state_ok_error by auto
      next
        case ok: False
        obtain st1 go1 where f: "fold_tool_call st (nat index) item = (st1, go1)" by fastforce
        have s1: "state_ok st1 \<and> (go1 \<or> or_finished st1)"
          using fold_tool_call_ok [OF "2.prems"(1) _ _ f] ok "2.prems"(2) by auto
        show ?thesis
          using s1 f 2 False Some ok by (cases go1) auto
      qed
    qed
  qed
qed auto

lemma handle_choice_ok:
  assumes "state_ok st" "\<not> or_finished st" "nul_free choice" "handle_choice st choice = (st', go)"
  shows "state_ok st' \<and> (go \<or> or_finished st')"
proof -
  let ?delta = "json_get_obj choice ''delta''"
  define texted where "texted = (case (case ?delta of None \<Rightarrow> None | Some d \<Rightarrow> json_get_cstr d ''content'') of
      None \<Rightarrow> Some st
    | Some s \<Rightarrow> if s = [] then Some st
        else (case buf_append (or_content st) s of None \<Rightarrow> None
              | Some b \<Rightarrow> Some (emit (OnText s) (st\<lparr>or_content := b, or_delivered := True\<rparr>))))"
  have t: "state_ok st1" if "texted = Some st1" for st1
  proof -
    have emit: "state_ok (emit (OnText s) (st\<lparr>or_content := b, or_delivered := True\<rparr>))"
      if b: "buf_append (or_content st) s = Some b" for s b
    proof -
      have "buf_ok (or_content st)" using assms(1) by (simp add: state_ok_def)
      from this b obtain "buf_ok b" "buf_data b = buf_data (or_content st) @ s" "buf_max b = buf_max (or_content st)"
        by (rule buf.appendE)
      moreover obtain ts where "list_all is_text ts" "or_out st = ts" "buf_data (or_content st) = out_texts ts"
        using assms(1,2) by (auto simp: state_ok_def)
      ultimately show ?thesis
        using assms(1,2) by (auto simp: state_ok_def calls_ok_def emit_def intro!: exI [of _ "ts @ [OnText s]"])
    qed
    show ?thesis using that assms(1) emit by (auto simp: texted_def split: option.splits if_splits)
  qed
  have run: "handle_choice st choice = (case texted of
      None \<Rightarrow> (fire_error_msg kErrorTypeException ''assistant content exceeds cap'' st, False)
    | Some st \<Rightarrow> (case (case ?delta of None \<Rightarrow> None | Some d \<Rightarrow> json_get_arr d ''tool_calls'') of
          None \<Rightarrow> (st, True) | Some items \<Rightarrow> accumulate_tool_calls st 0 items))"
    by (simp add: handle_choice_def Let_def texted_def)
  have items: "list_all nul_free items" if "?delta = Some d" "json_get_arr d ''tool_calls'' = Some items" for d items
    using nul_free_arr [OF nul_free_obj [OF assms(3) that(1)] that(2)] .
  show ?thesis
  proof (cases texted)
    case None
    then show ?thesis using assms(1,4) state_ok_error unfolding run by auto
  next
    case (Some st1)
    then show ?thesis
      using assms(4) t [OF Some] accumulate_ok [OF t [OF Some] items] unfolding run
      by (auto split: option.splits)
  qed
qed

lemma handle_event_ok:
  assumes "parser_ok cparse" "state_ok st" "openrouter_handle_event cparse st data = (st', go)"
  shows "state_ok st' \<and> (go \<or> or_finished st')"
proof (cases "or_finished st \<or> data = ''[DONE]''")
  case True
  then show ?thesis
    using assms state_ok_done by (cases "or_finished st") (auto simp: openrouter_handle_event_def split: if_splits)
next
  case False
  show ?thesis
  proof (cases "json_parse cparse (Some data) kOrEventJsonCap")
    case (Inl e)
    then show ?thesis using assms False state_ok_error by (cases e) (auto simp: openrouter_handle_event_def)
  next
    case (Inr doc)
    have doc: "nul_free doc" by (rule nul_free_parse [OF assms(1) Inr])
    show ?thesis
    proof (cases "json_get_obj doc ''error''")
      case (Some e)
      then show ?thesis
        using assms False Inr state_ok_finish [OF assms(2)] by (auto simp: openrouter_handle_event_def emit_def)
    next
      case None
      let ?choice = "case json_get_arr doc ''choices'' of Some (choice # _) \<Rightarrow> Some choice | _ \<Rightarrow> None"
      show ?thesis
      proof (cases ?choice)
        case n: None
        then show ?thesis using assms False Inr None by (auto simp: openrouter_handle_event_def)
      next
        case c: (Some choice)
        then obtain cs where "json_get_arr doc ''choices'' = Some (choice # cs)" by (auto split: option.splits list.splits)
        then have nf: "nul_free choice" using nul_free_arr [OF doc] by fastforce
        obtain st1 go1 where h: "handle_choice st choice = (st1, go1)" by fastforce
        have "state_ok st1 \<and> (go1 \<or> or_finished st1)" using handle_choice_ok [OF assms(2) _ nf h] False by simp
        then show ?thesis
          using assms(3) False Inr None c h
          by (cases go1) (auto simp: openrouter_handle_event_def latch_finish_def Let_def split: option.splits)
      qed
    qed
  qed
qed

section \<open>Through the event-stream parser\<close>

text \<open>What every call of the callback keeps, a feed keeps.\<close>

definition cb_keeps :: "('u \<Rightarrow> bool) \<Rightarrow> 'u sse_cb \<Rightarrow> bool" where
  "cb_keeps P cb \<longleftrightarrow> (\<forall>u t d i v go. P u \<longrightarrow> cb u t d i = (v, go) \<longrightarrow> P v)"

lemma cb_keepsD: "cb_keeps P cb \<Longrightarrow> cb u t d i = (v, go) \<Longrightarrow> P u \<Longrightarrow> P v"
  unfolding cb_keeps_def by blast

lemma process_line_keeps:
  "cb_keeps P cb \<Longrightarrow> process_line cb p u l = (err, p', u') \<Longrightarrow> P u \<Longrightarrow> P u'"
  by (auto simp: process_line_def dispatch_event_def Let_def dest: cb_keepsD split: prod.splits if_splits)

lemma scan_line_keeps:
  "cb_keeps P cb \<Longrightarrow> scan_line cb p u s = (err, p', u', rest) \<Longrightarrow> P u \<Longrightarrow> P u'"
  by (auto simp: scan_line_def sse_fail_def Let_def dest: process_line_keeps
      split: option.splits sum.splits prod.splits if_splits)

lemma feed_loop_keeps:
  "feed_loop cb p u r = (err, p', u') \<Longrightarrow> cb_keeps P cb \<Longrightarrow> P u \<Longrightarrow> P u'"
proof (induction cb p u r rule: feed_loop.induct)
  case (1 cb p u r)
  from "1.prems" show ?case
    by (subst (asm) feed_loop.simps)
      (auto split: if_splits prod.splits option.splits dest: scan_line_keeps "1.IH")
qed

lemma sse_feed_keeps:
  "sse_parser_feed cb p u bytes = (err, p', u') \<Longrightarrow> cb_keeps P cb \<Longrightarrow> P u \<Longrightarrow> P u'"
  by (auto simp: sse_parser_feed_def dest: feed_loop_keeps split: list.splits if_splits)

lemma or_on_event_keeps: "parser_ok cparse \<Longrightarrow> cb_keeps state_ok (or_on_event cparse)"
  using handle_event_ok by (auto simp: cb_keeps_def or_on_event_def)

section \<open>The stream\<close>

definition the_post :: "or_stream \<Rightarrow> http_post" where
  "the_post s = \<lparr>hp_url = os_url s,
     hp_headers = [os_auth_header s, ''Content-Type: application/json'', ''Accept: text/event-stream''],
     hp_body = os_body s\<rparr>"

definition stream_ok :: "or_stream \<Rightarrow> bool" where
  "stream_ok s \<longleftrightarrow> state_ok (os_state s)
     \<and> os_destroys s = (if or_finished (os_state s) \<and> \<not> os_req s then 1 else 0)
     \<and> (os_freed s \<longrightarrow> os_destroys s = 1) \<and> (os_timer s = TimerClosing \<longleftrightarrow> os_destroys s = 1)
     \<and> (os_req s \<longrightarrow> os_timer s = TimerIdle)
     \<and> (\<not> os_req s \<and> \<not> or_finished (os_state s) \<longrightarrow> (\<exists>d. os_timer s = TimerArmed d))
     \<and> (\<forall>d. os_timer s = TimerArmed d \<longrightarrow> \<not> os_req s \<and> \<not> or_delivered (os_state s)
          \<and> os_attempt s < MUA_HTTP_MAX_ATTEMPTS \<and> d \<in> {500..60000})
     \<and> os_attempt s \<in> {1..MUA_HTTP_MAX_ATTEMPTS} \<and> length (os_sent s) \<le> os_attempt s
     \<and> (\<not> os_freed s \<longrightarrow> (\<forall>post \<in> set (os_sent s). post = the_post s))
     \<and> (\<exists>post. set (os_sent s) \<subseteq> {post})"

lemma backoff_bounds: "1 \<le> attempt \<Longrightarrow> backoff_ms attempt x ra \<in> {500..60000}"
proof -
  assume a: "1 \<le> attempt"
  define delay :: int where "delay = (let d = kOrBackoffBaseMs * 2 ^ (if attempt < 6 then attempt else 6)
    in if d > kOrBackoffCapMs then kOrBackoffCapMs else d)"
  have "(2 :: int) ^ 1 \<le> 2 ^ (if attempt < 6 then attempt else 6)" using a by (intro power_increasing) auto
  then have d: "1000 \<le> delay" "delay \<le> 30000"
    by (auto simp: delay_def Let_def kOrBackoffBaseMs_def kOrBackoffCapMs_def)
  have m: "0 \<le> uint x mod (delay div 2 + 1)" "uint x mod (delay div 2 + 1) \<le> delay div 2"
    using d pos_mod_bound [of "delay div 2 + 1" "uint x"] by (auto simp: pos_mod_sign)
  have h: "500 \<le> delay div 2" "delay div 2 \<le> 15000" using d by (auto simp: zdiv_mono1)
  have j: "500 \<le> delay div 2 + uint x mod (delay div 2 + 1)" "delay div 2 + uint x mod (delay div 2 + 1) \<le> 30000"
    using m h d by linarith+
  show ?thesis
    using j unfolding backoff_ms_def Let_def delay_def [unfolded Let_def, symmetric]
    by (auto simp: kOrRetryAfterCapS_def)
qed

lemma state_ok_reset:
  assumes "state_ok st" "\<not> or_finished st" "\<not> or_delivered st"
  shows "state_ok (reset_state st)"
proof -
  have "buf_data (buf_reset b) = []" "buf_max (buf_reset b) = buf_max b" for b by (simp_all add: buf_reset_def)
  then show ?thesis
    using assms by (auto simp: state_ok_def calls_ok_def reset_state_def reset_call_def buf_reset_ok)
qed

lemma state_ok_init: "state_ok state_init"
proof -
  have "buf_ok (buf_init kOrContentCap)" by (rule buf_init_ok) (simp add: kOrContentCap_def)
  then show ?thesis
    by (simp add: state_ok_def calls_ok_def state_init_def accumulators_init_def MUA_MAX_TOOL_CALLS_def)
      (simp add: buf_init_def)
qed

lemma on_state_sel [simp]:
  "os_state (on_state f s) = f (os_state s)" "os_destroys (on_state f s) = os_destroys s"
  "os_timer (on_state f s) = os_timer s" "os_req (on_state f s) = os_req s" "os_freed (on_state f s) = os_freed s"
  "os_attempt (on_state f s) = os_attempt s" "os_sent (on_state f s) = os_sent s" "the_post (on_state f s) = the_post s"
  "os_url (on_state f s) = os_url s" "os_auth_header (on_state f s) = os_auth_header s" "os_body (on_state f s) = os_body s"
  by (simp_all add: on_state_def the_post_def)

text \<open>Destroying a stream whose terminal callback has just fired.\<close>

lemma stream_ok_destroy:
  assumes "state_ok (os_state s)" "or_finished (os_state s)" "\<not> os_req s" "os_destroys s = 0" "os_timer s \<noteq> TimerNone"
    and "\<not> os_freed s" "os_attempt s \<in> {1..MUA_HTTP_MAX_ATTEMPTS}" "length (os_sent s) \<le> os_attempt s"
    and "\<forall>post \<in> set (os_sent s). post = the_post s"
  shows "stream_ok (stream_destroy s)"
  using assms by (auto simp: stream_ok_def stream_destroy_def Let_def the_post_def)

lemma start_attempt_ok:
  assumes "state_ok (os_state s)" "\<not> or_finished (os_state s)" "\<not> or_delivered (os_state s)" "os_destroys s = 0"
    and "os_timer s = TimerIdle" "\<not> os_req s" "\<not> os_freed s" "os_attempt s < MUA_HTTP_MAX_ATTEMPTS"
    and "length (os_sent s) \<le> os_attempt s" "\<forall>post \<in> set (os_sent s). post = the_post s"
  shows "stream_ok (start_attempt req s)"
proof -
  let ?st = "reset_state (os_state s)"
  have r: "state_ok ?st" "\<not> or_finished ?st" "\<not> or_delivered ?st"
    using state_ok_reset [OF assms(1-3)] assms(2,3) by (simp_all add: reset_state_def)
  show ?thesis
  proof (cases req)
    case None
    then show ?thesis
      using assms r by (auto simp: start_attempt_def Let_def stream_ok_def the_post_def)
  next
    case (Some e)
    obtain ty msg where e: "e = (ty, msg)" by fastforce
    show ?thesis
      unfolding start_attempt_def Let_def Some e option.case prod.case
      by (rule stream_ok_destroy) (use assms r state_ok_error [OF r(1)] in \<open>auto simp: the_post_def\<close>)
  qed
qed

lemma stream_open_ok:
  assumes "openrouter_stream cprint getenv hrtime timer_ok req opts = Inr s"
  shows "stream_ok s"
proof -
  obtain s0 where s: "s = start_attempt req s0" and s0: "os_state s0 = state_init" "os_destroys s0 = 0"
      "os_timer s0 = TimerIdle" "\<not> os_req s0" "\<not> os_freed s0" "os_attempt s0 = 0" "os_sent s0 = []"
    using assms by (auto simp: openrouter_stream_def Let_def split: if_splits)
  have "\<not> or_finished state_init" "\<not> or_delivered state_init"
    by (simp_all add: state_init_def accumulators_init_def)
  then show ?thesis
    unfolding s by (intro start_attempt_ok) (use s0 state_ok_init in \<open>auto simp: MUA_HTTP_MAX_ATTEMPTS_def\<close>)
qed

lemma schedule_retry_ok:
  assumes "stream_ok s" "os_req s" "\<not> or_finished (os_state s)" "\<not> or_delivered (os_state s)"
    and "os_attempt s < MUA_HTTP_MAX_ATTEMPTS"
  shows "stream_ok (schedule_retry ok ra (s\<lparr>os_req := False\<rparr>))"
proof (cases ok)
  case True
  have "backoff_ms (os_attempt s) x ra \<in> {500..60000}" for x
    using assms(1) by (intro backoff_bounds) (simp add: stream_ok_def)
  then show ?thesis using assms True by (auto simp: schedule_retry_def Let_def stream_ok_def the_post_def)
next
  case False
  have "state_ok (os_state s)" using assms(1) by (simp add: stream_ok_def)
  note err = state_ok_error [OF this, of kErrorTypeException "''failed to schedule a retry''"]
  have "stream_ok (stream_destroy (on_state (fire_error_msg kErrorTypeException ''failed to schedule a retry'')
      (s\<lparr>os_req := False, os_prng := prng_next (os_prng s)\<rparr>)))"
    by (rule stream_ok_destroy) (use assms err in \<open>auto simp: stream_ok_def the_post_def\<close>)
  then show ?thesis using False by (simp add: schedule_retry_def Let_def)
qed

text \<open>Firing a terminal error on a live stream and destroying it.\<close>

lemma stream_ok_end:
  assumes "stream_ok s" "\<not> os_freed s" "os_destroys s = 0" "os_timer s \<noteq> TimerNone"
    and "state_ok (f (os_state s))" "or_finished (f (os_state s))"
    and "os_state t = os_state s" "os_destroys t = os_destroys s" "os_timer t \<noteq> TimerNone" "\<not> os_req t" "\<not> os_freed t"
    and "os_attempt t = os_attempt s" "os_sent t = os_sent s" "the_post t = the_post s"
  shows "stream_ok (stream_destroy (on_state f t))"
  by (rule stream_ok_destroy) (use assms in \<open>auto simp: stream_ok_def\<close>)

lemma on_complete_ok:
  assumes "stream_ok s" "os_req s"
  shows "stream_ok (or_on_complete cparse ce ok res st msg ra s)"
proof -
  let ?t = "s\<lparr>os_req := False\<rparr>"
  have live: "\<not> os_freed s" "os_destroys s = 0" "os_timer s = TimerIdle" "state_ok (os_state s)"
    using assms by (auto simp: stream_ok_def)
  have fin: "stream_ok (stream_destroy ?t)" if "or_finished (os_state s)"
    by (rule stream_ok_destroy) (use assms live that in \<open>auto simp: stream_ok_def the_post_def\<close>)
  have endf: "stream_ok (stream_destroy (on_state f ?t))" if "state_ok (f (os_state s))" "or_finished (f (os_state s))" for f
    by (rule stream_ok_end [OF assms(1)]) (use live that in \<open>auto simp: the_post_def\<close>)
  note err = state_ok_error [OF live(4)]
  have ferr: "stream_ok (stream_destroy (on_state (fire_error_msg ty msg) ?t))" for ty msg
    by (rule endf) (use err in simp_all)
  have fdone: "stream_ok (stream_destroy (on_state fire_done ?t))"
    by (rule endf) (use state_ok_done [OF live(4)] in simp_all)
  have fail: "stream_ok (stream_destroy (on_state (\<lambda>st. emit (OnError e) (st\<lparr>or_finished := True\<rparr>)) ?t))"
    if "\<not> or_finished (os_state s)" for e
    by (rule endf) (use state_ok_finish [OF live(4) that, of "OnError e"] in \<open>auto simp: emit_def\<close>)
  show ?thesis
  proof (cases "or_finished (os_state s) \<or> os_cancel_requested s \<or> os_mode s = kOrModeSse \<and> res = CURLE_OK")
    case True
    then show ?thesis
      using fin ferr fdone by (auto simp: or_on_complete_def Let_def)
  next
    case False
    then have f: "\<not> or_finished (os_state s)" by simp
    have report: "stream_ok (stream_destroy (report_http_failure cparse ?t))"
      using ferr fail [OF f] f
      by (simp add: report_http_failure_def Let_def)
    show ?thesis
      unfolding or_on_complete_def Let_def
      using False report fail [OF f] fdone ferr schedule_retry_ok [OF assms f]
      by (simp split del: if_split) (simp split: if_split)
  qed
qed

lemma on_chunk_ok:
  assumes "parser_ok cparse" "stream_ok s" "os_req s"
  shows "stream_ok (fst (or_on_chunk cparse bs s))"
proof (cases "os_mode s = kOrModeSse")
  case True
  obtain err sse st where r: "sse_parser_feed (or_on_event cparse) (os_sse s) (os_state s) bs = (err, sse, st)"
    by (metis prod_cases3)
  have "state_ok st"
    using sse_feed_keeps [OF r or_on_event_keeps [OF assms(1)]] assms(2) by (simp add: stream_ok_def)
  then have "stream_ok (s\<lparr>os_sse := sse, os_state := st\<rparr>)"
    "stream_ok (on_state (fire_error_msg ty msg) (s\<lparr>os_sse := sse, os_state := st\<rparr>))" for ty msg
    using assms(2,3) state_ok_error [of st] by (auto simp: stream_ok_def the_post_def)
  then show ?thesis using True r by (auto simp: or_on_chunk_def Let_def split: option.splits)
next
  case False
  then show ?thesis
    using assms by (auto simp: or_on_chunk_def stream_ok_def the_post_def split: option.splits)
qed

lemma cancel_ok:
  assumes "stream_ok s" "\<not> os_freed s" "\<not> or_finished (os_state s)"
  shows "stream_ok (openrouter_cancel s)"
proof (cases "os_cancel_requested s \<or> os_req s")
  case True
  then show ?thesis using assms by (auto simp: openrouter_cancel_def Let_def stream_ok_def the_post_def)
next
  case False
  have "state_ok (os_state s)" "os_destroys s = 0" using assms by (auto simp: stream_ok_def)
  note err = state_ok_error [OF this(1)]
  have "stream_ok (stream_destroy (on_state (fire_error_msg kErrorTypeException ''canceled'')
      (s\<lparr>os_cancel_requested := True, os_timer := TimerIdle\<rparr>)))"
    by (rule stream_ok_destroy) (use assms False err in \<open>auto simp: stream_ok_def the_post_def\<close>)
  then show ?thesis using False assms(3) by (simp add: openrouter_cancel_def Let_def)
qed

lemma stream_ok_status [simp]:
  "stream_ok (s\<lparr>os_http_status := st, os_mode := m\<rparr>) = stream_ok s"
  "stream_ok (s\<lparr>os_http_status := st, os_mode := m, os_wrong_ctype := b\<rparr>) = stream_ok s"
  "stream_ok (s\<lparr>os_mode := m, os_wrong_ctype := b, os_http_status := st\<rparr>) = stream_ok s"
  "stream_ok (s\<lparr>os_mode := m, os_http_status := st\<rparr>) = stream_ok s"
  by (simp_all add: stream_ok_def the_post_def)

lemma stream_ok_closed:
  "stream_ok s \<Longrightarrow> os_timer s = TimerClosing \<Longrightarrow> stream_ok (retry_timer_closed s)"
  unfolding stream_ok_def retry_timer_closed_def by simp blast

lemma or_step_ok:
  assumes "parser_ok cparse" "stream_ok s" "or_step cparse ce s e = Some s'"
  shows "stream_ok s'"
proof (cases e)
  case (EvStatus st ct)
  then show ?thesis
    using assms(2,3) by (auto simp: or_on_status_def Let_def split: if_splits)
next
  case (EvChunk bs)
  then show ?thesis using assms on_chunk_ok by (auto split: if_splits)
next
  case (EvComplete ok res st msg ra)
  then show ?thesis using assms on_complete_ok by (auto split: if_splits)
next
  case (EvRetry req)
  then obtain d where d: "os_timer s = TimerArmed d" "s' = start_attempt req (s\<lparr>os_timer := TimerIdle\<rparr>)"
    using assms(3) by (auto split: or_timer.splits)
  show ?thesis
    unfolding d(2) by (rule start_attempt_ok) (use assms(2) d(1) in \<open>auto simp: stream_ok_def the_post_def split: if_splits\<close>)
next
  case EvTimerClosed
  then show ?thesis
    using assms(2,3) stream_ok_closed by (auto split: if_splits)
next
  case EvStreamCancel
  then show ?thesis using assms cancel_ok by (auto split: if_splits)
qed

lemma or_reach_ok: "or_reach cparse ce s0 s \<Longrightarrow> parser_ok cparse \<Longrightarrow> stream_ok s0 \<Longrightarrow> stream_ok s"
  by (induction rule: or_reach.induct) (auto dest: or_step_ok)

section \<open>The callback contract\<close>

definition grows :: "or_output list \<Rightarrow> or_state \<Rightarrow> bool" where
  "grows base st \<longleftrightarrow> (\<exists>new. or_out st = base @ new)"

lemma grows_refl: "grows (or_out st) st" by (simp add: grows_def)

lemma grows_frame [simp]:
  "grows base (st\<lparr>or_finished := b\<rparr>) = grows base st" "grows base (st\<lparr>or_finish_reason := r\<rparr>) = grows base st"
  "grows base (st\<lparr>or_usage := u\<rparr>) = grows base st" "grows base (st\<lparr>or_calls := cs\<rparr>) = grows base st"
  "grows base (st\<lparr>or_content := c\<rparr>) = grows base st" "grows base (st\<lparr>or_delivered := b\<rparr>) = grows base st"
  "grows base (st\<lparr>or_hwm := n\<rparr>) = grows base st"
  "grows base (latch_finish st choice) = grows base st" "grows base (reset_state st) = grows base st"
  by (simp_all add: grows_def latch_finish_def reset_state_def split: option.split)

lemma grows_emit [simp]: "grows base st \<Longrightarrow> grows base (emit x st)"
  by (auto simp: grows_def emit_def)

lemma grows_error [simp]: "grows base st \<Longrightarrow> grows base (fire_error_msg ty msg st)"
  by (simp add: fire_error_msg_def)

lemma grows_done [simp]: "grows base st \<Longrightarrow> grows base (fire_done st)"
  by (simp add: fire_done_def)

lemma grows_fold: "grows base st \<Longrightarrow> grows base (fst (fold_tool_call st i item))"
  by (simp add: fold_tool_call_def Let_def split: option.split)

lemma grows_accumulate: "grows base st \<Longrightarrow> grows base (fst (accumulate_tool_calls st n items))"
proof (induction st n items rule: accumulate_tool_calls.induct)
  case (2 st n item items)
  then show ?case using grows_fold [of base st] by (auto split: option.split prod.split bool.split) (metis fst_conv)+
qed simp

lemma grows_choice: "grows base st \<Longrightarrow> grows base (fst (handle_choice st choice))"
  by (auto simp: handle_choice_def Let_def grows_accumulate split: option.split)

lemma grows_event: "grows base st \<Longrightarrow> grows base (fst (openrouter_handle_event cparse st data))"
  using grows_choice [of base st]
  by (auto simp: openrouter_handle_event_def Let_def split: option.split sum.split prod.split bool.split list.split)
   (metis fst_conv)+

lemma grows_stream_frame [simp]:
  "os_state (stream_destroy s) = os_state s" "os_state (on_state f s) = f (os_state s)"
  "os_state (retry_timer_closed s) = os_state s"
  by (simp_all add: stream_destroy_def retry_timer_closed_def on_state_def Let_def)

lemma grows_chunk: "grows base (os_state s) \<Longrightarrow> grows base (os_state (fst (or_on_chunk cparse bs s)))"
proof -
  have "cb_keeps (grows base) (or_on_event cparse)"
    using grows_event by (auto simp: cb_keeps_def or_on_event_def) (metis fst_conv)
  then show "grows base (os_state s) \<Longrightarrow> ?thesis"
    by (auto simp: or_on_chunk_def Let_def dest: sse_feed_keeps split: option.split prod.split)
qed

lemma grows_complete:
  "grows base (os_state s) \<Longrightarrow> grows base (os_state (or_on_complete cparse ce ok res st msg ra s))"
  by (simp add: or_on_complete_def schedule_retry_def report_http_failure_def Let_def)

lemma or_step_grows: "or_step cparse ce s e = Some s' \<Longrightarrow> grows (or_out (os_state s)) (os_state s')"
  using grows_refl [of "os_state s"]
  by (cases e)
    (auto simp: or_on_status_def openrouter_cancel_def start_attempt_def Let_def grows_chunk grows_complete
      split: if_splits or_timer.splits option.splits)

interpretation stream_calls: one_shot "\<lambda>s. parser_ok cparse \<and> stream_ok s" "or_step cparse ce"
  "\<lambda>s. or_out (os_state s)" "\<lambda>x. \<not> is_text x" for cparse ce
proof (unfold_locales, goal_cases)
  case (1 s e s')
  then show ?case using or_step_ok by blast
next
  case (2 s e s')
  then show ?case using or_step_grows by (auto simp: grows_def)
next
  case (3 s)
  then have "state_ok (os_state s)" by (simp add: stream_ok_def)
  then show ?case unfolding state_ok_def by (auto split: if_splits)
qed

lemma stream_closed: "stream_ok s \<Longrightarrow> stream_calls.closed s = or_finished (os_state s)"
  unfolding stream_calls.closed_def stream_ok_def state_ok_def by (auto simp: list_all_iff split: if_splits)

section \<open>Properties\<close>

text \<open>C20. The callback contract of a stream: in every reachable state the callbacks made are text
  deltas, followed by exactly one terminal callback (done or error) once the stream has finished
  and by none before; the stream is destroyed at most once, exactly when it has finished and no
  request is live, and until it has finished a request is live or the retry timer is armed, so
  the owner always gets its terminal callback.\<close>

theorem provider_one_terminal_callback:
  assumes "parser_ok cparse" "openrouter_stream cprint getenv hrtime timer_ok req opts = Inr s0"
    and "or_reach cparse ce s0 s"
  shows "(\<exists>ts. list_all is_text ts
      \<and> (if or_finished (os_state s) then \<exists>t. or_out (os_state s) = ts @ [t] \<and> \<not> is_text t
         else or_out (os_state s) = ts))
    \<and> os_destroys s = (if or_finished (os_state s) \<and> \<not> os_req s then 1 else 0)
    \<and> (\<not> or_finished (os_state s) \<longrightarrow> \<not> os_freed s \<and> (os_req s \<or> (\<exists>d. os_timer s = TimerArmed d)))"
proof -
  have ok: "stream_ok s" by (rule or_reach_ok [OF assms(3,1) stream_open_ok [OF assms(2)]])
  then have "state_ok (os_state s)" by (simp add: stream_ok_def)
  then obtain ts where ts: "list_all is_text ts" "if or_finished (os_state s)
      then \<exists>t. or_out (os_state s) = ts @ [t] \<and> \<not> is_text t \<and> output_ok (out_texts ts) t
      else or_out (os_state s) = ts \<and> buf_data (or_content (os_state s)) = out_texts ts"
    unfolding state_ok_def by blast
  have "\<exists>ts. list_all is_text ts
      \<and> (if or_finished (os_state s) then \<exists>t. or_out (os_state s) = ts @ [t] \<and> \<not> is_text t
         else or_out (os_state s) = ts)"
    using ts by (intro exI [of _ ts]) (auto split: if_splits)
  then show ?thesis using ok by (auto simp: stream_ok_def split: if_splits)
qed

text \<open>C36. Retries are bounded and invisible: at most five attempts are made, every attempt sends
  the same request, and a retry is pending only before any text or tool call was delivered, with
  a delay between 500 ms and 60 s whatever the server's Retry-After says.\<close>

theorem provider_retry_policy:
  assumes "parser_ok cparse" "openrouter_stream cprint getenv hrtime timer_ok req opts = Inr s0"
    and "or_reach cparse ce s0 s"
  shows "os_attempt s \<le> MUA_HTTP_MAX_ATTEMPTS \<and> length (os_sent s) \<le> MUA_HTTP_MAX_ATTEMPTS
    \<and> (\<exists>post. set (os_sent s) \<subseteq> {post})
    \<and> (\<forall>d. os_timer s = TimerArmed d \<longrightarrow> or_out (os_state s) = [] \<and> \<not> or_delivered (os_state s)
         \<and> os_attempt s < MUA_HTTP_MAX_ATTEMPTS \<and> d \<in> {500..60000})"
proof -
  have ok: "stream_ok s" by (rule or_reach_ok [OF assms(3,1) stream_open_ok [OF assms(2)]])
  then have st: "state_ok (os_state s)" by (simp add: stream_ok_def)
  have "or_out (os_state s) = []" if "os_timer s = TimerArmed d" for d
  proof -
    have "\<not> or_finished (os_state s)" "\<not> or_delivered (os_state s)"
      using ok that by (auto simp: stream_ok_def split: if_splits)
    then show ?thesis using st by (auto simp: state_ok_def)
  qed
  then show ?thesis using ok by (auto simp: stream_ok_def)
qed

text \<open>C39. The message handed to \<open>on_done\<close> is what the user saw: an assistant message whose content
  is the concatenation of all text deltas of the stream (null when there were none), with at most
  16 tool calls, each with a non-empty id and function name.\<close>

theorem provider_done_message:
  assumes "parser_ok cparse" "openrouter_stream cprint getenv hrtime timer_ok req opts = Inr s0"
    and "or_reach cparse ce s0 s" "OnDone msg reason u \<in> set (or_out (os_state s))"
  shows "message_ok (out_texts (or_out (os_state s))) msg"
proof -
  have "stream_ok s" by (rule or_reach_ok [OF assms(3,1) stream_open_ok [OF assms(2)]])
  then have "state_ok (os_state s)" by (simp add: stream_ok_def)
  then obtain ts where ts: "list_all is_text ts" "if or_finished (os_state s)
      then \<exists>t. or_out (os_state s) = ts @ [t] \<and> \<not> is_text t \<and> output_ok (out_texts ts) t
      else or_out (os_state s) = ts \<and> buf_data (or_content (os_state s)) = out_texts ts"
    unfolding state_ok_def by blast
  have notin: "OnDone msg reason u \<notin> set ts" using ts(1) by (auto simp: list_all_iff)
  then obtain t where "or_out (os_state s) = ts @ [t]" "output_ok (out_texts ts) t" "t = OnDone msg reason u"
    using ts(2) assms(4) by (auto split: if_splits)
  then show ?thesis by simp
qed

section \<open>Witnesses\<close>

text \<open>A stream opened with one message, and a parser that knows one event.\<close>

definition toy_event :: cjson where
  "toy_event = CObject [(''choices'', CArray [CObject
     [(''delta'', CObject [(''content'', CString ''hi'')]), (''finish_reason'', CString ''stop'')]])]"

definition toy_events :: json_parser where
  "toy_events s = (if s = ''x'' then Inr (toy_event, 1) else Inl 0)"

definition toy_request :: openrouter_opts where
  "toy_request = \<lparr>op_model = None, op_max_tokens = 0, op_messages = CArray [CObject []], op_tools = None,
     op_api_key = Some ''k'', op_base_url = None\<rparr>"

definition toy_stream :: or_stream where
  "toy_stream = projr (openrouter_stream (\<lambda>_. ''{}'') (\<lambda>_. None) 1 True None toy_request)"

lemma toy_stream_open: "openrouter_stream (\<lambda>_. ''{}'') (\<lambda>_. None) 1 True None toy_request = Inr toy_stream"
  by (simp add: toy_stream_def openrouter_stream_def toy_request_def nonempty_def Let_def)

lemma toy_parser_ok: "parser_ok toy_events"
  by (simp add: parser_ok_def toy_events_def toy_event_def)

lemma toy_live: "os_req toy_stream" "os_attempt toy_stream = 1" "\<not> or_finished (os_state toy_stream)"
  "\<not> or_delivered (os_state toy_stream)" "\<not> os_cancel_requested toy_stream" "os_mode toy_stream = kOrModeUndecided"
  by (simp_all add: toy_stream_def openrouter_stream_def toy_request_def nonempty_def Let_def start_attempt_def
      reset_state_def state_init_def accumulators_init_def)

definition toy_chunk :: string where
  "toy_chunk = ''data: x'' @ [LF, LF] @ ''data: [DONE]'' @ [LF, LF]"

definition toy_streaming :: or_stream where
  "toy_streaming = or_on_status 200 (Some ''text/event-stream'') toy_stream"

definition toy_done :: or_stream where
  "toy_done = fst (or_on_chunk toy_events toy_chunk toy_streaming)"

definition toy_unavailable :: or_stream where
  "toy_unavailable = or_on_complete toy_events (\<lambda>_. []) True CURLE_OK 503 None (-1) toy_stream"

lemma toy_reach: "or_reach toy_events (\<lambda>_. []) toy_stream toy_done"
  "or_reach toy_events (\<lambda>_. []) toy_stream toy_unavailable"
proof -
  have "or_reach toy_events (\<lambda>_. []) toy_stream toy_streaming"
    by (rule reach_event [OF reach_open, of _ _ _ "EvStatus 200 (Some ''text/event-stream'')"])
      (simp add: toy_streaming_def toy_live)
  then show "or_reach toy_events (\<lambda>_. []) toy_stream toy_done"
    by (rule reach_event [of _ _ _ _ "EvChunk toy_chunk"])
      (simp add: toy_done_def toy_streaming_def or_on_status_def toy_live)
  show "or_reach toy_events (\<lambda>_. []) toy_stream toy_unavailable"
    by (rule reach_event [OF reach_open, of _ _ _ "EvComplete True CURLE_OK 503 None (-1)"])
      (simp add: toy_unavailable_def toy_live)
qed

lemma toy_unavailable_armed: "\<exists>d. os_timer toy_unavailable = TimerArmed d"
  by (simp add: toy_unavailable_def or_on_complete_def toy_live Let_def status_is_retryable_def schedule_retry_def
      MUA_HTTP_MAX_ATTEMPTS_def)

lemma toy_state: "os_state toy_streaming = reset_state state_init" "os_sse toy_streaming = sse_parser_reset (sse_parser_new None)"
  "os_mode toy_streaming = kOrModeSse"
  by (simp_all add: toy_streaming_def or_on_status_def toy_stream_def openrouter_stream_def toy_request_def nonempty_def
      Let_def start_attempt_def)

lemma toy_feed:
  assumes "cb st ''message'' ''x'' [] = (st1, True)" "cb st1 ''message'' ''[DONE]'' [] = (st2, False)"
  shows "snd (snd (sse_parser_feed cb (sse_parser_reset (sse_parser_new None)) st toy_chunk)) = st2"
proof -
  obtain err p' st' where run: "sse_parser_feed cb (sse_parser_reset (sse_parser_new None)) st toy_chunk = (err, p', st')"
    by (metis prod_cases3)
  have fresh: "sse_parser_reset (sse_parser_new None) = sse_parser_new None"
    by (simp add: sse_parser_reset_def sse_parser_new_def Let_def buf_reset_def buf_init_def)
  have "sse_ok (sse_parser_reset (sse_parser_new None))" using sse_parser_new_ok [of None] by (simp add: fresh)
  then have "st' = snd (foldl (spec_byte cb) (view_of (sse_parser_new None), st) toy_chunk)"
    using sse_parser_feed_refines [OF _ run] by (metis fresh snd_conv)
  then have "st' = st2"
    by (simp add: view_of_def live_of_def sse_parser_new_def Let_def buf_init_def buf_reset_def
        resolve_limit_def toy_chunk_def spec_byte_def spec_char_def spec_content_def bom_bytes_def spec_line_def
        spec_field_def strip_space_def spec_dispatch_def MUA_SSE_MAX_LINE_def MUA_SSE_MAX_EVENT_DATA_def
        MUA_SSE_MAX_ID_def assms)
  then show ?thesis by (simp only: run snd_conv)
qed

lemma toy_first_event:
  assumes "\<not> or_finished st" "or_content st = buf_reset (buf_init kOrContentCap)"
  shows "\<exists>b u. buf_size b > 0 \<and> openrouter_handle_event toy_events st ''x''
    = (emit (OnText ''hi'') (st\<lparr>or_content := b, or_delivered := True, or_finish_reason := ''stop'', or_usage := u\<rparr>), True)"
proof -
  obtain c where "buf_append (buf_reset (buf_init kOrContentCap)) ''hi''
      = Some (buf_reset (buf_init kOrContentCap)\<lparr>buf_data := ''hi'', buf_cap := c\<rparr>)"
    using buf_append_fits [of "buf_reset (buf_init kOrContentCap)" "''hi''"]
    by (auto simp: buf_ok_def buf_reset_def buf_init_def kOrContentCap_def buf_size_def)
  then show ?thesis
    using assms
    by (intro exI [of _ "buf_reset (buf_init kOrContentCap)\<lparr>buf_data := ''hi'', buf_cap := c\<rparr>"]
        exI [of _ "or_usage st"])
      (simp add: openrouter_handle_event_def json_parse_def toy_events_def toy_event_def json_get_obj_def
        json_get_arr_def json_get_cstr_def handle_choice_def emit_def latch_finish_def latch_usage_def
        kOrFinishReasonCap_def kOrEventJsonCap_def Let_def buf_size_def MUA_SSE_MAX_EVENT_DATA_def str_size_def)
qed

lemma toy_done_out:
  "\<exists>msg u. or_out (os_state toy_done) = [OnText ''hi'', OnDone msg ''stop'' u]"
proof -
  let ?st = "reset_state state_init"
  have st: "\<not> or_finished ?st" "or_content ?st = buf_reset (buf_init kOrContentCap)" "or_hwm ?st = 0" "or_out ?st = []"
    by (simp_all add: reset_state_def state_init_def accumulators_init_def)
  obtain b u where ev: "openrouter_handle_event toy_events ?st ''x''
      = (emit (OnText ''hi'') (?st\<lparr>or_content := b, or_delivered := True, or_finish_reason := ''stop'', or_usage := u\<rparr>), True)"
      (is "_ = (?st1, True)")
    using toy_first_event [OF st(1,2)] by blast
  have "openrouter_handle_event toy_events ?st1 ''[DONE]'' = (fire_done ?st1, False)"
    using st by (simp add: openrouter_handle_event_def emit_def)
  then have feed: "snd (snd (sse_parser_feed (or_on_event toy_events) (sse_parser_reset (sse_parser_new None)) ?st toy_chunk))
      = fire_done ?st1"
    using ev by (intro toy_feed) (simp_all only: or_on_event_def)
  have fin: "or_finished (fire_done ?st1)" and out: "or_out (fire_done ?st1)
      = [OnText ''hi'', OnDone (assemble_message ?st1) ''stop'' u]"
    using st by (simp_all add: fire_done_def emit_def)
  have "os_state toy_done = fire_done ?st1"
    using feed fin by (auto simp: toy_done_def or_on_chunk_def toy_state Let_def on_state_def fire_error_msg_def
        split: option.splits prod.splits)
  then show ?thesis using out by simp
qed

theorem provider_one_terminal_callback_witness:
  "or_finished (os_state toy_done) \<and> os_req toy_done \<and> os_destroys toy_done = 0"
proof -
  obtain msg u where out: "or_out (os_state toy_done) = [OnText ''hi'', OnDone msg ''stop'' u]" using toy_done_out by blast
  have req: "os_req toy_done"
    by (auto simp: toy_done_def or_on_chunk_def toy_state Let_def on_state_def toy_streaming_def or_on_status_def toy_live
        split: option.splits prod.splits)
  from provider_one_terminal_callback [OF toy_parser_ok toy_stream_open toy_reach(1)] out req
  show ?thesis by (auto simp: Cons_eq_append_conv split: if_splits)
qed

theorem provider_retry_policy_witness:
  "or_out (os_state toy_unavailable) = [] \<and> os_attempt toy_unavailable < 5"
  using provider_retry_policy [OF toy_parser_ok toy_stream_open toy_reach(2)] toy_unavailable_armed
  by (auto simp: MUA_HTTP_MAX_ATTEMPTS_def)

theorem provider_done_message_witness:
  "\<exists>msg u. or_out (os_state toy_done) = [OnText ''hi'', OnDone msg ''stop'' u] \<and> message_ok ''hi'' msg"
proof -
  obtain msg u where out: "or_out (os_state toy_done) = [OnText ''hi'', OnDone msg ''stop'' u]" using toy_done_out by blast
  have "OnDone msg ''stop'' u \<in> set (or_out (os_state toy_done))" by (simp add: out)
  from provider_done_message [OF toy_parser_ok toy_stream_open toy_reach(1) this] show ?thesis by (auto simp: out)
qed
end
