(* ===== verification/Store.thy ===== *)
theory Store
  imports Objects
begin

text \<open>
  The interface of the process-wide key-value stores (\<open>options.c\<close>, \<open>variables.c\<close>) as
  the API functions use it: a write that is accepted is what a later read of that key returns,
  and does not disturb any other key; a refused write is no write. The client lemma is the
  meaning of a whole run of writes: every key reads as its last accepted write.
\<close>

locale kv_store =
  fixes ok :: "'s \<Rightarrow> bool"
    and key_ok :: "'k \<Rightarrow> bool"
    and get :: "'s \<Rightarrow> 'k \<Rightarrow> 'v"
    and put :: "'s \<Rightarrow> 'k \<Rightarrow> 'v \<Rightarrow> 's option"
  assumes put_ok: "ok s \<Longrightarrow> key_ok k \<Longrightarrow> put s k v = Some s' \<Longrightarrow> ok s'"
    and get_same: "ok s \<Longrightarrow> key_ok k \<Longrightarrow> put s k v = Some s' \<Longrightarrow> get s' k = v"
    and get_other: "ok s \<Longrightarrow> key_ok k \<Longrightarrow> key_ok k' \<Longrightarrow> k' \<noteq> k \<Longrightarrow> put s k v = Some s' \<Longrightarrow> get s' k' = get s k'"
begin

text \<open>A run of writes, refused ones ignored, with the log of the accepted ones.\<close>

fun writes :: "'s \<Rightarrow> ('k \<times> 'v) list \<Rightarrow> 's \<times> ('k \<times> 'v) list" where
  "writes s [] = (s, [])"
| "writes s ((k, v) # ws) =
     (case put s k v of
        None \<Rightarrow> writes s ws
      | Some s' \<Rightarrow> (case writes s' ws of (s'', acc) \<Rightarrow> (s'', (k, v) # acc)))"

lemma writes_ok: "ok s \<Longrightarrow> (\<forall>(k, v) \<in> set ws. key_ok k) \<Longrightarrow> ok (fst (writes s ws))"
  by (induction ws arbitrary: s) (auto split: option.split prod.split dest: put_ok, metis fst_conv put_ok)

lemma writes_last:
  "ok s \<Longrightarrow> key_ok k \<Longrightarrow> (\<forall>(k, v) \<in> set ws. key_ok k) \<Longrightarrow> writes s ws = (s', acc) \<Longrightarrow>
   get s' k = (case map_of (rev acc) k of Some v \<Rightarrow> v | None \<Rightarrow> get s k)"
proof (induction ws arbitrary: s acc)
  case (Cons w ws)
  obtain kw vw where w: "w = (kw, vw)" by (cases w)
  show ?case
  proof (cases "put s kw vw")
    case None
    then show ?thesis using Cons.IH [of s acc] Cons.prems w by simp
  next
    case (Some s1)
    then obtain accs where d: "writes s1 ws = (s', accs)" "acc = (kw, vw) # accs"
      using Cons.prems(4) w by (auto split: prod.splits)
    have ok1: "ok s1" using put_ok Cons.prems w Some by auto
    have "get s1 k = (if k = kw then vw else get s k)"
      using get_same [OF Cons.prems(1) _ Some] get_other [OF Cons.prems(1) _ Cons.prems(2) _ Some] Cons.prems(3) w
      by auto
    then show ?thesis
      using Cons.IH [OF ok1 Cons.prems(2) _ d(1)] Cons.prems(3) d(2)
      by (auto simp: map_add_def split: option.split)
  qed
qed simp

end

end
