(* ===== verification/Options.thy ===== *)
theory Options
  imports Store
begin

text \<open>
  \<open>options.c\<close>: the agent's option table. The state \<open>g_options\<close> is one slot per
  declared option, unset or holding a value; the table of declarations is the constant
  \<open>option_defs\<close>.
\<close>

section \<open>Declarations\<close>

datatype object_type =
    kObjectTypeNil | kObjectTypeBoolean | kObjectTypeInteger | kObjectTypeFloat
  | kObjectTypeString | kObjectTypeArray | kObjectTypeDict | kObjectTypeSession

fun type_of :: "object \<Rightarrow> object_type" where
  "type_of ONil = kObjectTypeNil"
| "type_of (OBoolean _) = kObjectTypeBoolean"
| "type_of (OInteger _) = kObjectTypeInteger"
| "type_of (OFloat _) = kObjectTypeFloat"
| "type_of (OString _) = kObjectTypeString"
| "type_of (OArray _) = kObjectTypeArray"
| "type_of (ODict _) = kObjectTypeDict"
| "type_of (OSession _) = kObjectTypeSession"

definition MUA_DEFAULT_SYSTEM_PROMPT :: string where
  "MUA_DEFAULT_SYSTEM_PROMPT =
     ''You are mua, a minimal coding agent. Use the provided tools to read, '' @
     ''write, and edit files and to run shell commands in the current working '' @
     ''directory. Keep responses brief.''"

record option_def =
  od_name :: string
  od_str_default :: "string option"
  od_int_default :: int
  od_int_min :: int
  od_int_max :: int
  od_type :: object_type
  od_bool_default :: bool

definition str_option :: "string \<Rightarrow> string option \<Rightarrow> option_def" where
  "str_option n d = \<lparr>od_name = n, od_str_default = d, od_int_default = 0, od_int_min = 0, od_int_max = 0,
                     od_type = kObjectTypeString, od_bool_default = False\<rparr>"

definition int_option :: "string \<Rightarrow> int \<Rightarrow> int \<Rightarrow> int \<Rightarrow> option_def" where
  "int_option n d lo hi = \<lparr>od_name = n, od_str_default = None, od_int_default = d, od_int_min = lo,
                           od_int_max = hi, od_type = kObjectTypeInteger, od_bool_default = False\<rparr>"

definition bool_option :: "string \<Rightarrow> bool \<Rightarrow> option_def" where
  "bool_option n d = \<lparr>od_name = n, od_str_default = None, od_int_default = 0, od_int_min = 0,
                      od_int_max = 0, od_type = kObjectTypeBoolean, od_bool_default = d\<rparr>"

definition MUA_STEP_CAP_MIN :: int where "MUA_STEP_CAP_MIN = 1"
definition MUA_STEP_CAP_MAX :: int where "MUA_STEP_CAP_MAX = 50"

definition option_defs :: "option_def list" where
  "option_defs =
     [str_option ''system_prompt'' (Some MUA_DEFAULT_SYSTEM_PROMPT),
      str_option ''model'' None,
      int_option ''step_cap'' MUA_STEP_CAP_MAX MUA_STEP_CAP_MIN MUA_STEP_CAP_MAX,
      bool_option ''markdown'' False,
      int_option ''context_pct'' 90 1 100,
      int_option ''context_warn_pct'' 75 0 100]"

definition kOptionCount :: nat where "kOptionCount = 6"

definition kOptSystemPrompt :: nat where "kOptSystemPrompt = 0"
definition kOptModel :: nat where "kOptModel = 1"
definition kOptStepCap :: nat where "kOptStepCap = 2"
definition kOptMarkdown :: nat where "kOptMarkdown = 3"
definition kOptContextPct :: nat where "kOptContextPct = 4"
definition kOptContextWarnPct :: nat where "kOptContextWarnPct = 5"

section \<open>Operations\<close>

type_synonym options = "object option list"

definition g_options_init :: options where
  "g_options_init = replicate kOptionCount None"

fun type_name :: "object_type \<Rightarrow> string" where
  "type_name kObjectTypeString = ''a string''"
| "type_name kObjectTypeInteger = ''an integer''"
| "type_name kObjectTypeBoolean = ''a boolean''"
| "type_name kObjectTypeFloat = ''a number''"
| "type_name _ = ''a value''"

fun option_index_from :: "option_def list \<Rightarrow> nat \<Rightarrow> mstring \<Rightarrow> nat option" where
  "option_index_from [] i name = None"
| "option_index_from (d # ds) i name = (if name = Some (od_name d) then Some i else option_index_from ds (i + 1) name)"

definition option_index :: "mstring \<Rightarrow> nat option" where
  "option_index name = option_index_from option_defs 0 name"

definition clear_slot :: "options \<Rightarrow> nat \<Rightarrow> options" where
  "clear_slot opts idx = opts[idx := None]"

definition default_object :: "option_def \<Rightarrow> object" where
  "default_object d =
     (if od_type d = kObjectTypeString \<and> od_str_default d \<noteq> None then OString (cstr_to_string (od_str_default d))
      else if od_type d = kObjectTypeInteger then OInteger (of_int (od_int_default d))
      else if od_type d = kObjectTypeBoolean then OBoolean (od_bool_default d)
      else ONil)"

definition unknown_option :: "mstring \<Rightarrow> error" where
  "unknown_option name =
     (kErrorTypeValidation, ''unknown option '' @ [QUOTE] @ cstr (str_bytes name) @ [QUOTE])"

text \<open>\<open>None\<close>: an assertion failed inside the deep copy.\<close>

definition options_set :: "options \<Rightarrow> mstring \<Rightarrow> object \<Rightarrow> (error option \<times> options) option" where
  "options_set opts name v =
     (case option_index name of
        None \<Rightarrow> Some (Some (unknown_option name), opts)
      | Some idx \<Rightarrow>
          let d = option_defs ! idx in
          if type_of v \<noteq> od_type d
          then Some (Some (kErrorTypeValidation, ''option '' @ [QUOTE] @ od_name d @ [QUOTE] @ '' expects ''
                           @ type_name (od_type d)), opts)
          else if od_type d = kObjectTypeInteger
                  \<and> (case v of OInteger i \<Rightarrow> sint i < od_int_min d \<or> sint i > od_int_max d | _ \<Rightarrow> False)
          then Some (Some (kErrorTypeValidation, ''option '' @ [QUOTE] @ od_name d @ [QUOTE] @ '' out of range [''
                           @ show_int (od_int_min d) @ '', '' @ show_int (od_int_max d) @ '']''), opts)
          else (case api_copy_object (Some v) of
                  None \<Rightarrow> None
                | Some copy \<Rightarrow> Some (None, (clear_slot opts idx)[idx := Some copy])))"

definition options_get :: "options \<Rightarrow> mstring \<Rightarrow> (error option \<times> object) option" where
  "options_get opts name =
     (case option_index name of
        None \<Rightarrow> Some (Some (unknown_option name), ONil)
      | Some idx \<Rightarrow>
          (case opts ! idx of
             Some v \<Rightarrow> map_option (Pair None) (api_copy_object (Some v))
           | None \<Rightarrow> Some (None, default_object (option_defs ! idx))))"

text \<open>The typed getters read the slot's union member without a tag test: \<open>slot_*\<close> gives
  the member of the type the option is declared with.\<close>

definition slot_str :: "object \<Rightarrow> mstring" where
  "slot_str v = (case v of OString s \<Rightarrow> s | _ \<Rightarrow> None)"

definition slot_int :: "object \<Rightarrow> int" where
  "slot_int v = (case v of OInteger i \<Rightarrow> sint i | _ \<Rightarrow> 0)"

definition slot_bool :: "object \<Rightarrow> bool" where
  "slot_bool v = (case v of OBoolean b \<Rightarrow> b | _ \<Rightarrow> False)"

definition options_system_prompt :: "options \<Rightarrow> mstring" where
  "options_system_prompt opts =
     (case opts ! kOptSystemPrompt of Some v \<Rightarrow> slot_str v | None \<Rightarrow> od_str_default (option_defs ! kOptSystemPrompt))"

definition options_model_borrow :: "options \<Rightarrow> mstring" where
  "options_model_borrow opts = (case opts ! kOptModel of Some v \<Rightarrow> slot_str v | None \<Rightarrow> None)"

definition options_step_cap :: "options \<Rightarrow> int" where
  "options_step_cap opts =
     (case opts ! kOptStepCap of Some v \<Rightarrow> slot_int v | None \<Rightarrow> od_int_default (option_defs ! kOptStepCap))"

definition options_markdown :: "options \<Rightarrow> bool" where
  "options_markdown opts =
     (case opts ! kOptMarkdown of Some v \<Rightarrow> slot_bool v | None \<Rightarrow> od_bool_default (option_defs ! kOptMarkdown))"

definition options_context_pct :: "options \<Rightarrow> int" where
  "options_context_pct opts =
     (case opts ! kOptContextPct of Some v \<Rightarrow> slot_int v | None \<Rightarrow> od_int_default (option_defs ! kOptContextPct))"

definition options_context_warn_pct :: "options \<Rightarrow> int" where
  "options_context_warn_pct opts =
     (case opts ! kOptContextWarnPct of
        Some v \<Rightarrow> slot_int v | None \<Rightarrow> od_int_default (option_defs ! kOptContextWarnPct))"

definition options_free :: "options \<Rightarrow> options" where
  "options_free opts = foldl clear_slot opts [0..<kOptionCount]"

section \<open>Invariant\<close>

text \<open>Every set slot holds a value of its declaration's type, in its range.\<close>

definition slot_ok :: "option_def \<Rightarrow> object option \<Rightarrow> bool" where
  "slot_ok d slot =
     (case slot of
        None \<Rightarrow> True
      | Some v \<Rightarrow> type_of v = od_type d
          \<and> (case v of OInteger i \<Rightarrow> od_int_min d \<le> sint i \<and> sint i \<le> od_int_max d | _ \<Rightarrow> True))"

definition options_ok :: "options \<Rightarrow> bool" where
  "options_ok opts \<longleftrightarrow> list_all2 slot_ok option_defs opts"

lemma option_index_from_Some:
  "option_index_from ds i name = Some j \<Longrightarrow>
   i \<le> j \<and> j < i + length ds \<and> name = Some (od_name (ds ! (j - i)))"
  by (induction ds arbitrary: i) (force split: if_splits simp: nth_Cons')+

lemma option_defs_length [simp]: "length option_defs = kOptionCount"
  by (simp add: option_defs_def kOptionCount_def)

lemma option_defs_mem [simp]: "idx < kOptionCount \<Longrightarrow> option_defs ! idx \<in> set option_defs"
  by (rule nth_mem) simp

lemma option_index_Some:
  "option_index name = Some j \<Longrightarrow> j < kOptionCount \<and> name = Some (od_name (option_defs ! j))"
  using option_index_from_Some [of option_defs 0 name j] by (simp add: option_index_def)

lemma type_copies:
  "type_of v = od_type d \<Longrightarrow> d \<in> set option_defs \<Longrightarrow> api_copy_object (Some v) = Some v"
  by (cases v) (auto simp: api_copy_object_eq option_defs_def str_option_def int_option_def bool_option_def)

lemma options_set_cases:
  assumes "options_ok opts" "options_set opts name v = r"
  obtains (accept) idx where "option_index name = Some idx" "slot_ok (option_defs ! idx) (Some v)"
      "r = Some (None, opts[idx := Some v])"
  | (refuse) e where "r = Some (Some e, opts)"
proof (cases "option_index name")
  case None
  then have "r = Some (Some (unknown_option name), opts)" using assms(2) by (simp add: options_set_def)
  then show ?thesis by (rule refuse)
next
  case (Some idx)
  have mem: "option_defs ! idx \<in> set option_defs" using option_index_Some [OF Some] by simp
  show ?thesis
  proof (cases "slot_ok (option_defs ! idx) (Some v)")
    case True
    then have "r = Some (None, opts[idx := Some v])"
      using assms(2) Some type_copies [OF _ mem, of v]
      by (cases v) (auto simp: options_set_def slot_ok_def clear_slot_def Let_def)
    then show ?thesis using accept Some True by blast
  next
    case False
    then have "\<exists>e. r = Some (Some e, opts)"
      using assms(2) Some by (cases v) (auto simp: options_set_def slot_ok_def Let_def)
    then show ?thesis using refuse by blast
  qed
qed

lemma options_ok_update:
  "options_ok opts \<Longrightarrow> slot_ok (option_defs ! idx) s \<Longrightarrow> options_ok (opts[idx := s])"
  unfolding options_ok_def list_all2_conv_all_nth
  by (metis length_list_update nth_list_update_eq nth_list_update_neq)

lemma options_init_ok: "options_ok g_options_init"
  by (simp add: options_ok_def g_options_init_def list_all2_conv_all_nth slot_ok_def)

lemma options_ok_length: "options_ok opts \<Longrightarrow> length opts = kOptionCount"
  by (auto simp: options_ok_def list_all2_conv_all_nth)

lemma options_ok_slot:
  "options_ok opts \<Longrightarrow> i < kOptionCount \<Longrightarrow> slot_ok (option_defs ! i) (opts ! i)"
  by (simp add: options_ok_def list_all2_conv_all_nth)

section \<open>The store interface\<close>

definition options_put :: "options \<Rightarrow> mstring \<Rightarrow> object \<Rightarrow> options option" where
  "options_put opts name v = (case options_set opts name v of Some (None, opts') \<Rightarrow> Some opts' | _ \<Rightarrow> None)"

definition options_read :: "options \<Rightarrow> mstring \<Rightarrow> object" where
  "options_read opts name = (case options_get opts name of Some (_, v) \<Rightarrow> v | None \<Rightarrow> ONil)"

definition option_known :: "mstring \<Rightarrow> bool" where
  "option_known name = (option_index name \<noteq> None)"

lemma options_putE:
  assumes "options_ok opts" "options_put opts name v = Some opts'"
  obtains idx where "option_index name = Some idx" "idx < kOptionCount" "name = Some (od_name (option_defs ! idx))"
    "slot_ok (option_defs ! idx) (Some v)" "opts' = opts[idx := Some v]"
proof (rule options_set_cases [OF assms(1) refl, of name v])
  fix idx
  assume a: "option_index name = Some idx" "slot_ok (option_defs ! idx) (Some v)"
    "options_set opts name v = Some (None, opts[idx := Some v])"
  show thesis
    using that [OF a(1) _ _ a(2)] option_index_Some [OF a(1)] assms(2) a(3) by (simp add: options_put_def)
next
  fix e
  assume "options_set opts name v = Some (Some e, opts)"
  then show thesis using assms(2) by (simp add: options_put_def)
qed

lemma options_read_slot:
  assumes "options_ok opts" "option_index name = Some idx"
  shows "options_read opts name = (case opts ! idx of Some v \<Rightarrow> v | None \<Rightarrow> default_object (option_defs ! idx))"
proof (cases "opts ! idx")
  case (Some v)
  have idx: "idx < kOptionCount" using option_index_Some [OF assms(2)] by simp
  then have "type_of v = od_type (option_defs ! idx)"
    using options_ok_slot [OF assms(1) idx] Some by (simp add: slot_ok_def)
  then have "api_copy_object (Some v) = Some v" using idx by (rule type_copies [OF _ option_defs_mem])
  then show ?thesis using Some assms(2) by (simp add: options_read_def options_get_def)
qed (simp add: options_read_def options_get_def assms(2))

interpretation opts: kv_store options_ok option_known options_read options_put
proof unfold_locales
  fix s s' k v
  assume a: "options_ok s" "options_put s k v = Some s'"
  then show ok': "options_ok s'" by (elim options_putE) (auto intro: options_ok_update [OF a(1)])
  from a show "options_read s' k = v"
    using options_ok_length [OF a(1)] options_read_slot [OF ok', of k]
    by (elim options_putE) (auto split: option.split)
  fix k'
  assume k: "option_known k'" "k' \<noteq> k"
  then obtain j where j: "option_index k' = Some j" by (auto simp: option_known_def)
  from a show "options_read s' k' = options_read s k'"
  proof (rule options_putE)
    fix idx
    assume i: "option_index k = Some idx" "k = Some (od_name (option_defs ! idx))" "s' = s[idx := Some v]"
    then have "j \<noteq> idx" using k(2) option_index_Some [OF j] by auto
    then show ?thesis using i options_read_slot [OF a(1) j] options_read_slot [OF ok' j] by simp
  qed
qed

section \<open>Properties\<close>

text \<open>Any number of \<open>options_set\<close> calls on the initial table.\<close>

fun options_run :: "options \<Rightarrow> (mstring \<times> object) list \<Rightarrow> options option" where
  "options_run opts [] = Some opts"
| "options_run opts ((name, v) # ws) =
     (case options_set opts name v of None \<Rightarrow> None | Some (_, opts') \<Rightarrow> options_run opts' ws)"

lemma options_run_ok: "options_ok opts \<Longrightarrow> \<exists>opts'. options_run opts ws = Some opts' \<and> options_ok opts'"
proof (induction ws arbitrary: opts)
  case (Cons w ws)
  obtain name v where w: "w = (name, v)" by (cases w)
  show ?case
  proof (rule options_set_cases [OF Cons.prems refl, of name v])
    fix idx
    assume a: "slot_ok (option_defs ! idx) (Some v)" "options_set opts name v = Some (None, opts[idx := Some v])"
    show ?thesis using Cons.IH [OF options_ok_update [OF Cons.prems a(1)]] w a(2) by simp
  next
    fix e
    assume "options_set opts name v = Some (Some e, opts)"
    then show ?thesis using Cons.IH [OF Cons.prems] w by simp
  qed
qed simp

lemma option_defs_nth:
  "option_defs ! 2 = int_option ''step_cap'' MUA_STEP_CAP_MAX MUA_STEP_CAP_MIN MUA_STEP_CAP_MAX"
  "option_defs ! 4 = int_option ''context_pct'' 90 1 100"
  "option_defs ! 5 = int_option ''context_warn_pct'' 75 0 100"
  by (simp_all add: option_defs_def)

lemma slot_int_range:
  assumes "slot_ok d s" "od_type d = kObjectTypeInteger" "od_int_min d \<le> od_int_default d"
    "od_int_default d \<le> od_int_max d"
  shows "od_int_min d \<le> (case s of Some v \<Rightarrow> slot_int v | None \<Rightarrow> od_int_default d)
       \<and> (case s of Some v \<Rightarrow> slot_int v | None \<Rightarrow> od_int_default d) \<le> od_int_max d"
proof (cases s)
  case (Some v)
  with assms show ?thesis by (cases v) (simp_all add: slot_ok_def slot_int_def)
qed (simp add: assms)

lemma options_ok_ranges:
  assumes "options_ok opts"
  shows "options_step_cap opts \<in> {1..50}" "options_context_pct opts \<in> {1..100}"
    "options_context_warn_pct opts \<in> {0..100}"
proof -
  have s: "slot_ok (option_defs ! i) (opts ! i)" if "i < 6" for i
    using options_ok_slot [OF assms] that by (simp add: kOptionCount_def)
  note ranges = option_defs_nth int_option_def MUA_STEP_CAP_MIN_def MUA_STEP_CAP_MAX_def
  show "options_step_cap opts \<in> {1..50}"
    unfolding options_step_cap_def kOptStepCap_def using slot_int_range [OF s [of 2]] by (simp add: ranges)
  show "options_context_pct opts \<in> {1..100}"
    unfolding options_context_pct_def kOptContextPct_def using slot_int_range [OF s [of 4]] by (simp add: ranges)
  show "options_context_warn_pct opts \<in> {0..100}"
    unfolding options_context_warn_pct_def kOptContextWarnPct_def
    using slot_int_range [OF s [of 5]] by (simp add: ranges)
qed

text \<open>Whatever writes are attempted on the option table, valid or not, none fails an
  assertion, and the bounded getters the agent reads stay in their declared ranges:
  \<open>options_step_cap\<close> in 1..50, \<open>options_context_pct\<close> in 1..100,
  \<open>options_context_warn_pct\<close> in 0..100.\<close>

theorem options_getters_in_range:
  "\<exists>opts. options_run g_options_init ws = Some opts
     \<and> options_step_cap opts \<in> {1..50} \<and> options_context_pct opts \<in> {1..100}
     \<and> options_context_warn_pct opts \<in> {0..100}"
  using options_run_ok [OF options_init_ok] options_ok_ranges by blast

text \<open>Last write wins: after any run of writes on the table, \<open>options_get\<close> of a known
  option returns the value of its last accepted \<open>options_set\<close>, or its earlier value when
  none was accepted; rejected writes and writes to other options do not show.\<close>

theorem options_last_write:
  assumes "option_known name" "\<forall>(k, v) \<in> set ws. option_known k"
    "opts.writes g_options_init ws = (opts, acc)"
  shows "options_get opts name =
    Some (None, case map_of (rev acc) name of Some v \<Rightarrow> v | None \<Rightarrow> options_read g_options_init name)"
proof -
  obtain idx where idx: "option_index name = Some idx" using assms(1) by (auto simp: option_known_def)
  have ok: "options_ok opts"
    using opts.writes_ok [OF options_init_ok assms(2)] assms(3) by simp
  have get: "options_get opts name = Some (None, options_read opts name)"
  proof (cases "opts ! idx")
    case (Some v)
    have i: "idx < kOptionCount" using option_index_Some [OF idx] by simp
    then have "type_of v = od_type (option_defs ! idx)"
      using options_ok_slot [OF ok i] Some by (simp add: slot_ok_def)
    then have "api_copy_object (Some v) = Some v" using i by (rule type_copies [OF _ option_defs_mem])
    then show ?thesis using Some idx by (simp add: options_read_def options_get_def)
  qed (simp add: options_read_def options_get_def idx)
  show ?thesis
    unfolding get using opts.writes_last [OF options_init_ok assms(1,2,3)] by simp
qed

lemma option_index_samples:
  "option_index (Some ''step_cap'') = Some 2" "option_index (Some ''markdown'') = Some 3"
  by code_simp+

lemma sample_puts:
  "options_put s (Some ''step_cap'') (OInteger 7) = Some (s[2 := Some (OInteger 7)])"
  "options_put s (Some ''step_cap'') (OInteger 51) = None"
  "options_put s (Some ''markdown'') (OBoolean True) = Some (s[3 := Some (OBoolean True)])"
  by (simp_all add: options_put_def options_set_def option_index_samples option_defs_def int_option_def
      bool_option_def MUA_STEP_CAP_MIN_def MUA_STEP_CAP_MAX_def clear_slot_def api_copy_object_eq Let_def)

theorem options_last_write_witness:
  "options_get (fst (opts.writes g_options_init
       [(Some ''step_cap'', OInteger 7), (Some ''step_cap'', OInteger 51), (Some ''markdown'', OBoolean True)]))
     (Some ''step_cap'') = Some (None, OInteger 7)"
proof -
  let ?ws = "[(Some ''step_cap'', OInteger 7), (Some ''step_cap'', OInteger 51), (Some ''markdown'', OBoolean True)]"
  let ?acc = "[(Some ''step_cap'', OInteger 7), (Some ''markdown'', OBoolean True)]"
  have w: "opts.writes g_options_init ?ws = (fst (opts.writes g_options_init ?ws), ?acc)"
    by (simp add: sample_puts)
  have "options_get (fst (opts.writes g_options_init ?ws)) (Some ''step_cap'') =
    Some (None, case map_of (rev ?acc) (Some ''step_cap'') of
                  Some v \<Rightarrow> v | None \<Rightarrow> options_read g_options_init (Some ''step_cap''))"
    by (rule options_last_write [OF _ _ w]) (simp_all add: option_known_def option_index_samples)
  then show ?thesis by simp
qed

end
