(* ===== verification/Autocmd.thy ===== *)
theory Autocmd
  imports Objects
begin

text \<open>
  \<open>autocmd.c\<close>: the capped array of Lua callbacks registered for the agent's lifecycle
  events. A \<open>LuaRef\<close> is an integer; releasing one (\<open>mua_lua_unref\<close>, the Lua side) is
  modelled by the list of released references the clearing operation returns.
\<close>

datatype autocmd_event =
    kAutocmdSessionStart | kAutocmdSessionEnd | kAutocmdToolPre | kAutocmdToolPost
  | kAutocmdStreamDelta | kAutocmdUserPromptPre

type_synonym lua_ref = int

record autocmd_entry =
  ac_id :: int
  ac_event :: autocmd_event
  ac_callback :: lua_ref

record autocmds =
  g_autocmds :: "autocmd_entry list"
  g_next_id :: int

definition kMaxAutocmds :: nat where "kMaxAutocmds = 256"

definition autocmds_init :: autocmds where
  "autocmds_init = \<lparr>g_autocmds = [], g_next_id = 1\<rparr>"

definition event_names :: "(string \<times> autocmd_event) list" where
  "event_names =
     [(''SessionStart'', kAutocmdSessionStart), (''SessionEnd'', kAutocmdSessionEnd),
      (''ToolPre'', kAutocmdToolPre), (''ToolPost'', kAutocmdToolPost),
      (''StreamDelta'', kAutocmdStreamDelta), (''UserPromptPre'', kAutocmdUserPromptPre)]"

definition autocmd_event_from_name :: "mstring \<Rightarrow> autocmd_event option" where
  "autocmd_event_from_name name = (case name of None \<Rightarrow> None | Some n \<Rightarrow> map_of event_names n)"

definition autocmd_create :: "autocmds \<Rightarrow> autocmd_event \<Rightarrow> lua_ref \<Rightarrow> error option \<times> int \<times> autocmds" where
  "autocmd_create s ev cb =
     (if length (g_autocmds s) \<ge> kMaxAutocmds
      then (Some (kErrorTypeValidation, ''too many autocmds (max '' @ show_nat kMaxAutocmds @ '')''), 0, s)
      else
        let i = g_next_id s in
        (None, i, s\<lparr>g_autocmds := g_autocmds s @ [\<lparr>ac_id = i, ac_event = ev, ac_callback = cb\<rparr>],
                    g_next_id := i + 1\<rparr>))"

fun count_from :: "autocmd_entry list \<Rightarrow> autocmd_event \<Rightarrow> nat \<Rightarrow> nat" where
  "count_from [] ev n = n"
| "count_from (e # es) ev n = count_from es ev (if ac_event e = ev then n + 1 else n)"

definition autocmd_count :: "autocmds \<Rightarrow> autocmd_event \<Rightarrow> nat" where
  "autocmd_count s ev = count_from (g_autocmds s) ev 0"

fun ref_from :: "autocmd_entry list \<Rightarrow> autocmd_event \<Rightarrow> nat \<Rightarrow> nat \<Rightarrow> lua_ref" where
  "ref_from [] ev idx n = - 1"
| "ref_from (e # es) ev idx n =
     (if ac_event e = ev then if n = idx then ac_callback e else ref_from es ev idx (n + 1)
      else ref_from es ev idx n)"

definition autocmd_ref_at :: "autocmds \<Rightarrow> autocmd_event \<Rightarrow> nat \<Rightarrow> lua_ref" where
  "autocmd_ref_at s ev idx = ref_from (g_autocmds s) ev idx 0"

definition autocmd_clear :: "autocmds \<Rightarrow> lua_ref list \<times> autocmds" where
  "autocmd_clear s = (map ac_callback (g_autocmds s), s\<lparr>g_autocmds := []\<rparr>)"

section \<open>What a dispatch sees\<close>

definition hooks_for :: "autocmds \<Rightarrow> autocmd_event \<Rightarrow> lua_ref list" where
  "hooks_for s ev = map ac_callback (filter (\<lambda>e. ac_event e = ev) (g_autocmds s))"

text \<open>The references a loop \<open>for i < autocmd_count(event)\<close> visits.\<close>

definition dispatch_refs :: "autocmds \<Rightarrow> autocmd_event \<Rightarrow> lua_ref list" where
  "dispatch_refs s ev = map (autocmd_ref_at s ev) [0..<autocmd_count s ev]"

lemma count_from_filter: "count_from es ev n = n + length (filter (\<lambda>e. ac_event e = ev) es)"
  by (induction es arbitrary: n) simp_all

lemma ref_from_nth:
  "n \<le> idx \<Longrightarrow> idx - n < length (filter (\<lambda>e. ac_event e = ev) es) \<Longrightarrow>
   ref_from es ev idx n = ac_callback (filter (\<lambda>e. ac_event e = ev) es ! (idx - n))"
  by (induction es arbitrary: n) (auto simp: nth_Cons')

lemma dispatch_refs_hooks: "dispatch_refs s ev = hooks_for s ev"
  by (rule nth_equalityI)
    (simp_all add: dispatch_refs_def hooks_for_def autocmd_count_def count_from_filter autocmd_ref_at_def ref_from_nth)

section \<open>Runs of operations\<close>

datatype autocmd_op = Create autocmd_event lua_ref | Clear

text \<open>The accepted registrations (id and reference), the references given up, the store.\<close>

fun autocmd_run :: "autocmds \<Rightarrow> autocmd_op list \<Rightarrow> (int \<times> lua_ref) list \<times> lua_ref list \<times> autocmds" where
  "autocmd_run s [] = ([], [], s)"
| "autocmd_run s (Create ev cb # ops) =
     (case autocmd_create s ev cb of
        (None, i, s') \<Rightarrow> (case autocmd_run s' ops of (regs, rel, s'') \<Rightarrow> ((i, cb) # regs, rel, s''))
      | (Some e, _, s') \<Rightarrow> autocmd_run s' ops)"
| "autocmd_run s (Clear # ops) =
     (case autocmd_clear s of
        (refs, s') \<Rightarrow> (case autocmd_run s' ops of (regs, rel, s'') \<Rightarrow> (regs, refs @ rel, s'')))"

definition held :: "autocmds \<Rightarrow> lua_ref list" where
  "held s = map ac_callback (g_autocmds s)"

lemma autocmd_run_ids:
  "autocmd_run s ops = (regs, rel, s') \<Longrightarrow> length (g_autocmds s) \<le> kMaxAutocmds \<Longrightarrow>
   (\<forall>k < length regs. fst (regs ! k) = g_next_id s + int k)
   \<and> length (g_autocmds s') \<le> kMaxAutocmds \<and> rel @ held s' = held s @ map snd regs"
proof (induction s ops arbitrary: regs rel rule: autocmd_run.induct)
  case (2 s ev cb ops)
  show ?case
  proof (cases "length (g_autocmds s) \<ge> kMaxAutocmds")
    case True
    then show ?thesis using 2 by (simp add: autocmd_create_def)
  next
    case False
    obtain regs' where r: "autocmd_run (snd (snd (autocmd_create s ev cb))) ops = (regs', rel, s')"
      "regs = (g_next_id s, cb) # regs'"
      using 2(3) False by (auto simp: autocmd_create_def Let_def split: prod.splits)
    have "(\<forall>k < length regs'. fst (regs' ! k) = g_next_id s + 1 + int k)
        \<and> length (g_autocmds s') \<le> kMaxAutocmds \<and> rel @ held s' = held s @ cb # map snd regs'"
      using 2(1) r(1) False by (simp add: autocmd_create_def Let_def held_def)
    then show ?thesis using r by (auto simp: nth_Cons')
  qed
next
  case (3 s ops)
  obtain rel' where r: "autocmd_run (s\<lparr>g_autocmds := []\<rparr>) ops = (regs, rel', s')" "rel = held s @ rel'"
    using 3(2) by (auto simp: autocmd_clear_def held_def split: prod.splits)
  then show ?case using 3(1) by (simp add: autocmd_clear_def held_def)
qed (simp add: held_def)

section \<open>Properties\<close>

text \<open>A dispatch over an event (indices 0 up to \<open>autocmd_count\<close>) visits exactly the
  callbacks registered for that event, in the order of their registration, and never the
  out-of-range answer of \<open>autocmd_ref_at\<close>.\<close>

theorem autocmd_dispatch_order:
  "map (autocmd_ref_at s ev) [0..<autocmd_count s ev]
     = map ac_callback (filter (\<lambda>e. ac_event e = ev) (g_autocmds s))"
  using dispatch_refs_hooks [of s ev] by (simp add: dispatch_refs_def hooks_for_def)

text \<open>In every run of registrations and clearings the ids handed out are 1, 2, 3, ... with
  no reuse after a clear, the store never holds more than \<open>kMaxAutocmds\<close> entries, and the
  references released so far followed by those still held are exactly the references accepted,
  in order: none is leaked and none is released twice.\<close>

theorem autocmd_ids_and_refs:
  "case autocmd_run autocmds_init ops of (regs, released, s) \<Rightarrow>
     map fst regs = map int [1..<length regs + 1] \<and> length (g_autocmds s) \<le> kMaxAutocmds
     \<and> released @ map ac_callback (g_autocmds s) = map snd regs"
proof -
  obtain regs rel s where r: "autocmd_run autocmds_init ops = (regs, rel, s)" by (metis prod_cases3)
  have p: "(\<forall>k < length regs. fst (regs ! k) = 1 + int k) \<and> length (g_autocmds s) \<le> kMaxAutocmds
      \<and> rel @ held s = map snd regs"
    using autocmd_run_ids [OF r] by (simp add: autocmds_init_def held_def)
  then have "map fst regs = map int [1..<length regs + 1]" by (intro nth_equalityI) (simp_all del: upt_Suc)
  with p show ?thesis by (simp add: r held_def)
qed

end
