(* ===== verification/Registry.thy ===== *)
theory Registry
  imports Tools Autocmd
begin

text \<open>
  The tool table of \<open>tools.c\<close>: the four built-in tools with their JSON schemas, the capped
  array of the tools registered from Lua, lookup, registration, teardown, the \<open>tools\<close> array
  sent to the provider, and the \<open>execute\<close> shared by the registered tools.
\<close>

section \<open>The built-in tools\<close>

datatype tool_execute = ReadTool | WriteTool | EditTool | BashTool | RegisteredTool

record tool_def =
  td_name :: string
  td_description :: string
  td_params_schema :: "string option"
  td_schema_json :: "cjson option"
  td_execute :: tool_execute
  td_mutating :: bool
  td_callback :: lua_ref

definition READ_SCHEMA :: string where
  \<open>READ_SCHEMA =
     ''{"type":"object","properties":{"path":{"type":"string","description":"File path ''
     @ ''to read"},"offset":{"type":"integer","description":"1-based line to start from (''
     @ ''default 1)"},"limit":{"type":"integer","description":"Maximum number of lines to''
     @ '' return"}},"required":["path"]}''\<close>

definition WRITE_SCHEMA :: string where
  \<open>WRITE_SCHEMA =
     ''{"type":"object","properties":{"path":{"type":"string","description":"File path ''
     @ ''to write"},"content":{"type":"string","description":"Full file contents to write''
     @ ''"}},"required":["path","content"]}''\<close>

definition EDIT_SCHEMA :: string where
  \<open>EDIT_SCHEMA =
     ''{"type":"object","properties":{"path":{"type":"string","description":"File path ''
     @ ''to edit"},"old_string":{"type":"string","description":"Exact text to replace; mu''
     @ ''st occur exactly once"},"new_string":{"type":"string","description":"Replacement''
     @ '' text"}},"required":["path","old_string","new_string"]}''\<close>

definition BASH_SCHEMA :: string where
  \<open>BASH_SCHEMA =
     ''{"type":"object","properties":{"command":{"type":"string","description":"Shell c''
     @ ''ommand run via /bin/sh -c"},"timeout_ms":{"type":"integer","description":"Kill t''
     @ ''he command after this many milliseconds (default 30000, max 120000)"}},"required''
     @ ''":["command"]}''\<close>

definition builtin_tool :: "string \<Rightarrow> string \<Rightarrow> string \<Rightarrow> tool_execute \<Rightarrow> bool \<Rightarrow> tool_def" where
  "builtin_tool name descr schema execute mutating =
     \<lparr>td_name = name, td_description = descr, td_params_schema = Some schema, td_schema_json = None,
      td_execute = execute, td_mutating = mutating, td_callback = 0\<rparr>"

definition tool_defs :: "tool_def list" where
  "tool_defs =
  [builtin_tool ''read''
     (''Read a file from disk. Returns the raw contents of the requested line window, wi''
      @ ''thout line-number prefixes.'')
     READ_SCHEMA ReadTool False,
   builtin_tool ''write''
     (''Write content to a file, creating it and any missing parent directories; replace''
      @ ''s any existing contents entirely.'')
     WRITE_SCHEMA WriteTool True,
   builtin_tool ''edit''
     (''Replace one exact occurrence of old_string with new_string in a file. Fails unle''
      @ ''ss old_string occurs exactly once; include enough surrounding context to make it''
      @ '' unique.'')
     EDIT_SCHEMA EditTool True,
   builtin_tool ''bash''
     (''Run a shell command with stdout and stderr merged into one stream. Output is cap''
      @ ''ped at 64 KiB; the command is killed after timeout_ms (default 30 s, max 120 s).''
      @ '' stdin is /dev/null.'')
     BASH_SCHEMA BashTool True]"

section \<open>Registered tools\<close>

definition kMaxRegisteredTools :: nat where "kMaxRegisteredTools = 256"

text \<open>\<open>g_registered\<close>, up to \<open>g_registered_count\<close>.\<close>

type_synonym tool_table = "tool_def list"

definition tools_lookup :: "tool_table \<Rightarrow> string option \<Rightarrow> tool_def option" where
  "tools_lookup g_registered name =
     (case name of
        None \<Rightarrow> None
      | Some n \<Rightarrow>
          (case find (\<lambda>d. td_name d = n) tool_defs of
             Some d \<Rightarrow> Some d
           | None \<Rightarrow> find (\<lambda>d. td_name d = n) g_registered))"

definition tools_register ::
    "tool_table \<Rightarrow> mstring \<Rightarrow> mstring \<Rightarrow> cjson \<Rightarrow> bool \<Rightarrow> lua_ref \<Rightarrow> error option \<times> tool_table" where
  "tools_register g_registered name description schema mutating callback =
     (if name = None \<or> str_size name = 0
      then (Some (kErrorTypeValidation, ''tool name is required''), g_registered)
      else
        let name_z = xstrndup (str_bytes name) (str_size name) in
        if tools_lookup g_registered (Some name_z) \<noteq> None
        then (Some (kErrorTypeValidation, ''tool '' @ [QUOTE] @ name_z @ [QUOTE] @ '' is already registered''),
              g_registered)
        else if length g_registered \<ge> kMaxRegisteredTools
        then (Some (kErrorTypeValidation,
                    ''too many registered tools (max '' @ show_nat kMaxRegisteredTools @ '')''), g_registered)
        else (None, g_registered @
                [\<lparr>td_name = name_z,
                  td_description = (if description \<noteq> None
                                    then xstrndup (str_bytes description) (str_size description) else []),
                  td_params_schema = None, td_schema_json = Some schema, td_execute = RegisteredTool,
                  td_mutating = mutating, td_callback = callback\<rparr>]))"

text \<open>The released references, in order, and the emptied table.\<close>

definition tools_teardown :: "tool_table \<Rightarrow> lua_ref list \<times> tool_table" where
  "tools_teardown g_registered = (map td_callback g_registered, [])"

section \<open>The provider's \<open>tools\<close> array\<close>

definition build_tool_entry :: "string \<Rightarrow> string \<Rightarrow> cjson \<Rightarrow> cjson" where
  "build_tool_entry name description params =
     (let f = json_new_obj;
          f = json_add_cstr f ''name'' name;
          f = json_add_cstr f ''description'' description;
          f = json_add f ''parameters'' params;
          entry = json_new_obj;
          entry = json_add_cstr entry ''type'' ''function''
      in json_add entry ''function'' f)"

fun builtin_entries :: "json_parser \<Rightarrow> tool_def list \<Rightarrow> error + cjson list" where
  "builtin_entries cparse [] = Inr []"
| "builtin_entries cparse (d # ds) =
     (case json_parse cparse (cstr_to_string (td_params_schema d)) kToolSchemaCap of
        Inl perr \<Rightarrow> Inl (kErrorTypeException, ''tools: '' @ td_name d @ '' has an invalid schema: '' @ snd perr)
      | Inr params \<Rightarrow>
          (case builtin_entries cparse ds of
             Inl e \<Rightarrow> Inl e
           | Inr es \<Rightarrow> Inr (build_tool_entry (td_name d) (td_description d) params # es)))"

definition tools_build_openai_array :: "json_parser \<Rightarrow> tool_table \<Rightarrow> error + cjson" where
  "tools_build_openai_array cparse g_registered =
     (case builtin_entries cparse tool_defs of
        Inl e \<Rightarrow> Inl e
      | Inr es \<Rightarrow>
          Inr (CArray (es @ map (\<lambda>d. build_tool_entry (td_name d) (td_description d)
                                       (case td_schema_json d of Some s \<Rightarrow> s | None \<Rightarrow> CNull)) g_registered)))"

section \<open>Running a registered tool\<close>

text \<open>
  \<open>invoke\<close> is the bridge's \<open>mua_lua_tool_invoke\<close>: the returned Object and whether the
  callback failed. \<open>None\<close> is a conversion that would leave its frame stack.
\<close>

definition registered_tool_execute ::
    "(lua_ref \<Rightarrow> object \<Rightarrow> object \<times> bool) \<Rightarrow> (cjson \<Rightarrow> string) \<Rightarrow> tool_def \<Rightarrow> cjson \<Rightarrow> tool_result option" where
  "registered_tool_execute invoke cprint def args =
     (case cjson_to_object args of
        None \<Rightarrow> None
      | Some (Inl err) \<Rightarrow> Some (fail (td_name def @ '': '' @ snd err))
      | Some (Inr args_obj) \<Rightarrow>
          (case invoke (td_callback def) args_obj of
             (OString str, is_error) \<Rightarrow>
               Some \<lparr>tr_content = xstrndup (str_bytes str) (str_size str), tr_is_error = is_error\<rparr>
           | (result, is_error) \<Rightarrow>
               (case object_to_cjson (Some result) of
                  None \<Rightarrow> None
                | Some node \<Rightarrow>
                    Some \<lparr>tr_content = (case json_print cprint node of Some s \<Rightarrow> s | None \<Rightarrow> ''null''),
                          tr_is_error = is_error\<rparr>)))"

section \<open>Properties of the table\<close>

definition registry_ok :: "tool_table \<Rightarrow> bool" where
  "registry_ok g \<longleftrightarrow> distinct (map td_name (tool_defs @ g)) \<and> length g \<le> kMaxRegisteredTools
     \<and> (\<forall>d \<in> set g. td_execute d = RegisteredTool)"

lemma find_name_None: "find (\<lambda>d. td_name d = n) ds = None \<longleftrightarrow> n \<notin> td_name ` set ds"
  by (auto simp: find_None_iff)

lemma find_append: "find P (xs @ ys) = (case find P xs of Some x \<Rightarrow> Some x | None \<Rightarrow> find P ys)"
  by (induction xs) auto

lemma tools_lookup_find: "tools_lookup g (Some n) = find (\<lambda>d. td_name d = n) (tool_defs @ g)"
  by (simp add: tools_lookup_def find_append split: option.split)

lemma tools_lookup_None: "tools_lookup g (Some n) = None \<longleftrightarrow> n \<notin> td_name ` set (tool_defs @ g)"
  by (simp only: tools_lookup_find find_name_None)

lemma builtin_names: "map td_name tool_defs = [''read'', ''write'', ''edit'', ''bash'']"
  by (simp add: tool_defs_def builtin_tool_def)

lemma registry_ok_empty: "registry_ok []"
  by (simp add: registry_ok_def builtin_names)

text \<open>A registration is refused, or it appends one entry under a name that is new.\<close>

lemma tools_registerE:
  assumes "tools_register g name descr schema mut cb = (err, g')"
  obtains (refused) e where "err = Some e" "g' = g"
  | (added) d n where "err = None" "g' = g @ [d]" "name = Some n" "n \<noteq> []" "td_name d = cstr n"
      "td_callback d = cb" "td_schema_json d = Some schema" "td_mutating d = mut" "td_execute d = RegisteredTool"
      "tools_lookup g (Some (cstr n)) = None" "length g < kMaxRegisteredTools"
  using assms
  by (cases name) (auto simp: tools_register_def Let_def xstrndup_def split: if_splits)

lemma tools_register_ok:
  assumes "tools_register g name descr schema mut cb = (err, g')" "registry_ok g"
  shows "registry_ok g'"
  using assms(1) by (rule tools_registerE) (use assms(2) in \<open>auto simp: registry_ok_def tools_lookup_None\<close>)

datatype registry_op = Register mstring mstring cjson bool lua_ref | Teardown

text \<open>A run: the accepted references, the released ones, and the table.\<close>

fun registry_run :: "tool_table \<Rightarrow> registry_op list \<Rightarrow> lua_ref list \<times> lua_ref list \<times> tool_table" where
  "registry_run g [] = ([], [], g)"
| "registry_run g (Register name descr schema mut cb # ops) =
     (case tools_register g name descr schema mut cb of (err, g') \<Rightarrow>
        (case registry_run g' ops of (acc, rel, g'') \<Rightarrow> ((if err = None then [cb] else []) @ acc, rel, g'')))"
| "registry_run g (Teardown # ops) =
     (case tools_teardown g of (rs, g') \<Rightarrow> (case registry_run g' ops of (acc, rel, g'') \<Rightarrow> (acc, rs @ rel, g'')))"

lemma registry_run_keeps:
  "registry_ok g \<Longrightarrow> registry_run g ops = (acc, rel, g') \<Longrightarrow>
   registry_ok g' \<and> rel @ map td_callback g' = map td_callback g @ acc"
proof (induction g ops arbitrary: acc rel g' rule: registry_run.induct)
  case (2 g name descr schema mut cb ops)
  obtain err g1 where r: "tools_register g name descr schema mut cb = (err, g1)" by fastforce
  obtain acc' rel' g2 where t: "registry_run g1 ops = (acc', rel', g2)" by (metis prod_cases3)
  have e: "acc = (if err = None then [cb] else []) @ acc'" "rel = rel'" "g' = g2"
    using "2.prems"(2) r t by auto
  have h: "registry_ok g' \<and> rel @ map td_callback g' = map td_callback g1 @ acc'"
    using "2.IH" [OF r [symmetric] tools_register_ok [OF r "2.prems"(1)] t] e by simp
  from r show ?case by (cases rule: tools_registerE) (use h e in auto)
next
  case (3 g ops)
  obtain acc' rel' g2 where t: "registry_run [] ops = (acc', rel', g2)" by (metis prod_cases3)
  then show ?case
    using "3.IH" [of "map td_callback g" "[]"] "3.prems" registry_ok_empty by (auto simp: tools_teardown_def)
qed simp

text \<open>Registration keeps the table a partial function that never shadows a built-in tool:
  a successful call makes the new name answer with the new entry and changes the answer for no
  other name, built-in names included; a refused call changes nothing, and an empty name, a name
  that already answers and a full table are refused.\<close>

theorem tools_register_lookup:
  "case tools_register g name descr schema mut cb of (err, g') \<Rightarrow>
     (err = None \<longleftrightarrow> (case name of None \<Rightarrow> False
        | Some n \<Rightarrow> n \<noteq> [] \<and> tools_lookup g (Some (cstr n)) = None \<and> length g < kMaxRegisteredTools))
     \<and> (\<forall>m. tools_lookup g' (Some m) =
          (if err = None \<and> m = cstr (str_bytes name) then Some (last g') else tools_lookup g (Some m)))"
proof -
  obtain err g' where r: "tools_register g name descr schema mut cb = (err, g')" by fastforce
  have "err = None \<longleftrightarrow> (case name of None \<Rightarrow> False
        | Some n \<Rightarrow> n \<noteq> [] \<and> tools_lookup g (Some (cstr n)) = None \<and> length g < kMaxRegisteredTools)"
    using r by (auto simp: tools_register_def Let_def xstrndup_def split: if_splits option.splits)
  moreover from r have "\<forall>m. tools_lookup g' (Some m) =
          (if err = None \<and> m = cstr (str_bytes name) then Some (last g') else tools_lookup g (Some m))"
  proof (cases rule: tools_registerE)
    case (added d n)
    then show ?thesis
      by (auto simp: tools_lookup_find find_append simp flip: append_assoc split: option.splits)
  qed simp
  ultimately show ?thesis by (simp add: r)
qed

text \<open>In every run of registrations and teardowns the tool names are distinct, built-in names
  included, at most \<open>kMaxRegisteredTools\<close> tools are registered, and the Lua references released
  followed by those still held are exactly the accepted ones: none leaked, none released twice.\<close>

theorem registry_names_and_refs:
  "case registry_run [] ops of (acc, rel, g) \<Rightarrow>
     distinct (map td_name (tool_defs @ g)) \<and> length g \<le> kMaxRegisteredTools \<and> rel @ map td_callback g = acc"
proof -
  obtain acc rel g where r: "registry_run [] ops = (acc, rel, g)" by (metis prod_cases3)
  show ?thesis
    using registry_run_keeps [OF registry_ok_empty r] r by (simp add: registry_ok_def)
qed

end
