(* ===== verification/Agent.thy ===== *)
theory Agent
  imports Session Options Registry Bash Provider "HOL-Library.Signed_Division"
begin

text \<open>
  \<open>agent.c\<close>: one turn of the agent. The turn owns the provider's stream and the running
  tool, so the states of both are part of its own: an event of the provider or of the bash tool
  steps that component and hands what it delivers to the turn's callbacks. The session is the
  store of theory \<open>Session\<close>, the tools are those of \<open>Tools\<close>, \<open>Bash\<close> and \<open>Registry\<close>. The user's
  callbacks and the warnings of the log are recorded in the order they are made; what the system
  answers during an event is an \<open>agent_env\<close>.
\<close>

section \<open>State\<close>

definition kAgentArgsCap :: nat where "kAgentArgsCap = 1024 * 1024"
definition kAgentGateLine :: nat where "kAgentGateLine = 64"
definition kAgentGateDrainMax :: nat where "kAgentGateDrainMax = 8192"
definition kAgentGatePreview :: nat where "kAgentGatePreview = 160"
definition MUA_CONTEXT_PCT_MIN :: int where "MUA_CONTEXT_PCT_MIN = 1"
definition MUA_CONTEXT_PCT_MAX :: int where "MUA_CONTEXT_PCT_MAX = 100"
definition MUA_CONTEXT_WARN_PCT_MIN :: int where "MUA_CONTEXT_WARN_PCT_MIN = 0"
definition MUA_CONTEXT_WARN_PCT_MAX :: int where "MUA_CONTEXT_WARN_PCT_MAX = 100"

datatype turn_outcome =
  kTurnDone | kTurnFailed | kTurnInterrupted | kTurnStepCap | kTurnContextLimit

datatype gate_decision = kGateApprove | kGateRefuse

datatype agent_output =
    AText string
  | AToolStart string cjson
  | AToolResult string tool_result
  | ANotice string
  | AFinish turn_outcome "error option"
  | AWarn string

text \<open>Which of the optional callbacks are set.\<close>

record agent_callbacks =
  cb_on_text :: bool
  cb_on_tool_start :: bool
  cb_on_tool_result :: bool
  cb_on_notice :: bool
  cb_gate :: bool
  cb_on_finish :: bool

record agent_opts =
  ao_http :: bool
  ao_model :: "string option"
  ao_api_key :: "string option"
  ao_context_length :: int

datatype step_timer = StepIdle | StepArmed | StepClosing

record agent_turn =
  at_opts :: agent_opts
  at_cb :: agent_callbacks
  at_session :: session_state
  at_system_prompt :: "string option"
  at_step :: int
  at_step_cap :: int
  at_context_pct :: int
  at_context_warn_pct :: int
  at_last_total_tokens :: int
  at_context_warned :: bool
  at_stream :: "or_stream option"
  at_exec :: "bash_world option"
  at_timer :: step_timer
  at_calls :: "cjson list"
  at_tool_index :: nat
  at_tool_count :: nat
  at_in_driver :: bool
  at_cancel_requested :: bool
  at_canceling :: bool
  at_failing :: bool
  at_fail_err :: "error option"
  at_finished :: bool
  at_freed :: bool
  at_interrupt :: bool
  at_out :: "agent_output list"
  at_requests :: "openrouter_opts list"
  at_aborted :: bool

text \<open>
  The world of a turn: the JSON library, the environment, \<open>curl_easy_strerror\<close>. During one event:
  the tool table, the gate (its decision, rewritten arguments and refusal, and whether the turn
  was canceled from inside it), the file system, \<open>/bin/sh\<close> and Lua calls of the call with a given
  index, and the outcomes of the writes to the session (by the number of its messages).
\<close>

record agent_lib =
  al_cparse :: json_parser
  al_cprint :: "cjson \<Rightarrow> string"
  al_getenv :: "string \<Rightarrow> string option"
  al_strerror :: "curl_code \<Rightarrow> string"

record agent_env =
  ae_tools :: tool_table
  ae_gate :: "nat \<Rightarrow> tool_def \<Rightarrow> cjson \<Rightarrow> gate_decision \<times> cjson option \<times> string option \<times> bool"
  ae_files :: "nat \<Rightarrow> tool_env"
  ae_bash :: "nat \<Rightarrow> bash_setup"
  ae_invoke :: "nat \<Rightarrow> lua_ref \<Rightarrow> object \<Rightarrow> object \<times> bool"
  ae_writes :: "nat \<Rightarrow> write_oracle"
  ae_timer_start :: bool
  ae_hrtime :: u64
  ae_stream_timer :: bool
  ae_http_request :: "error option"

definition call_back :: "(agent_callbacks \<Rightarrow> bool) \<Rightarrow> agent_output \<Rightarrow> agent_turn \<Rightarrow> agent_turn" where
  "call_back is_set out t = (if is_set (at_cb t) then t\<lparr>at_out := at_out t @ [out]\<rparr> else t)"

definition log_warn :: "string \<Rightarrow> agent_turn \<Rightarrow> agent_turn" where
  "log_warn msg t = t\<lparr>at_out := at_out t @ [AWarn msg]\<rparr>"

section \<open>Configuration\<close>

text \<open>\<open>strtol\<close> in base ten, saturating: the number and the unread rest, none when nothing was read.\<close>

definition is_c_space :: "char \<Rightarrow> bool" where
  "is_c_space c \<longleftrightarrow> c \<in> {CHR '' '', CHR 0x09, CHR 0x0A, CHR 0x0B, CHR 0x0C, CHR 0x0D}"

definition digits_value :: "string \<Rightarrow> int" where
  "digits_value ds = foldl (\<lambda>n c. 10 * n + (of_char c - 48)) 0 ds"

definition strtol :: "string \<Rightarrow> (int \<times> string) option" where
  "strtol text =
     (let text = dropWhile is_c_space text;
          negative = (case text of c # _ \<Rightarrow> c = CHR ''-'' | [] \<Rightarrow> False);
          text = (case text of c # cs \<Rightarrow> if c = CHR ''-'' \<or> c = CHR ''+'' then cs else text | [] \<Rightarrow> []);
          ds = takeWhile is_c_digit text;
          v = (if negative then - digits_value ds else digits_value ds)
      in if ds = [] then None
         else Some (max (- (2 ^ 63)) (min (2 ^ 63 - 1) v), dropWhile is_c_digit text))"

text \<open>The outer \<open>None\<close>: the prompt option holds a \<open>NULL\<close> pointer, which is dereferenced.\<close>

definition resolve_system_prompt :: "(string \<Rightarrow> string option) \<Rightarrow> options \<Rightarrow> string option option" where
  "resolve_system_prompt getenv opts =
     (case getenv ''MUA_SYSTEM_PROMPT'' of
        Some env \<Rightarrow> Some (if env \<noteq> [] then Some env else None)
      | None \<Rightarrow>
          (case options_system_prompt opts of
             None \<Rightarrow> None
           | Some prompt \<Rightarrow> Some (if cstr prompt \<noteq> [] then Some (cstr prompt) else None)))"

definition resolve_step_cap :: "(string \<Rightarrow> string option) \<Rightarrow> options \<Rightarrow> int" where
  "resolve_step_cap getenv opts =
     (case getenv ''MUA_STEP_CAP'' of
        Some env \<Rightarrow>
          (case strtol env of
             Some (v, []) \<Rightarrow> if v \<ge> MUA_STEP_CAP_MIN \<and> v \<le> MUA_STEP_CAP_MAX then v else options_step_cap opts
           | _ \<Rightarrow> options_step_cap opts)
      | None \<Rightarrow> options_step_cap opts)"

definition resolve_pct_env :: "(string \<Rightarrow> string option) \<Rightarrow> string \<Rightarrow> int \<Rightarrow> int \<Rightarrow> int \<Rightarrow> int" where
  "resolve_pct_env getenv name env_min env_max fallback =
     (case getenv name of
        Some env \<Rightarrow>
          (case strtol env of
             Some (v, []) \<Rightarrow> if v \<ge> env_min \<and> v \<le> env_max then v else fallback
           | _ \<Rightarrow> fallback)
      | None \<Rightarrow> fallback)"

definition resolve_context_pct :: "(string \<Rightarrow> string option) \<Rightarrow> options \<Rightarrow> int" where
  "resolve_context_pct getenv opts =
     resolve_pct_env getenv ''MUA_CONTEXT_PCT'' MUA_CONTEXT_PCT_MIN MUA_CONTEXT_PCT_MAX (options_context_pct opts)"

definition resolve_context_warn_pct :: "(string \<Rightarrow> string option) \<Rightarrow> options \<Rightarrow> int" where
  "resolve_context_warn_pct getenv opts =
     resolve_pct_env getenv ''MUA_CONTEXT_WARN_PCT'' MUA_CONTEXT_WARN_PCT_MIN MUA_CONTEXT_WARN_PCT_MAX
       (options_context_warn_pct opts)"

text \<open>\<open>int64_t\<close> products, wrapped, and the C quotient.\<close>

definition mul64 :: "int \<Rightarrow> int \<Rightarrow> int" where
  "mul64 a b = sint (word_of_int (a * b) :: 64 word)"

definition int32 :: "int \<Rightarrow> int" where
  "int32 a = sint (word_of_int a :: 32 word)"

section \<open>Tool rounds\<close>

definition finish_turn :: "turn_outcome \<Rightarrow> error option \<Rightarrow> agent_turn \<Rightarrow> agent_turn" where
  "finish_turn outcome err t =
     (if at_finished t then t
      else t\<lparr>at_finished := True, at_interrupt := False, at_out := at_out t @ [AFinish outcome err],
             at_timer := StepClosing\<rparr>)"

definition call_at :: "agent_turn \<Rightarrow> nat \<Rightarrow> cjson option" where
  "call_at t idx = (if idx < length (at_calls t) then Some (at_calls t ! idx) else None)"

definition call_name :: "agent_turn \<Rightarrow> nat \<Rightarrow> string" where
  "call_name t idx =
     (case Option.bind (call_at t idx) (\<lambda>call. Option.bind (json_get_obj call ''function'') (\<lambda>f. json_get_cstr f ''name'')) of
        Some name \<Rightarrow> name | None \<Rightarrow> ''(unnamed)'')"

definition tool_message :: "cjson \<Rightarrow> string \<Rightarrow> cjson" where
  "tool_message call content =
     (let msg = json_add_cstr json_new_obj ''role'' ''tool'';
          msg = json_add_cstr msg ''tool_call_id'' (case json_get_cstr call ''id'' of Some s \<Rightarrow> s | None \<Rightarrow> [])
      in json_add_cstr msg ''content'' content)"

definition append_message ::
    "agent_lib \<Rightarrow> agent_env \<Rightarrow> cjson \<Rightarrow> agent_turn \<Rightarrow> error option \<times> agent_turn" where
  "append_message lib env msg t =
     (case session_append (al_cprint lib) (ae_writes env (ss_count (at_session t))) (at_session t) (Some msg) of
        (err, sess) \<Rightarrow> (err, t\<lparr>at_session := sess\<rparr>))"

definition append_tool_message ::
    "agent_lib \<Rightarrow> agent_env \<Rightarrow> nat \<Rightarrow> string \<Rightarrow> agent_turn \<Rightarrow> error option \<times> agent_turn" where
  "append_tool_message lib env idx content t =
     append_message lib env (tool_message (case call_at t idx of Some call \<Rightarrow> call | None \<Rightarrow> CNull) content) t"

definition tool_completed :: "agent_lib \<Rightarrow> agent_env \<Rightarrow> tool_result \<Rightarrow> agent_turn \<Rightarrow> agent_turn" where
  "tool_completed lib env result t =
     (let idx = at_tool_index t in
      case append_tool_message lib env idx (tr_content result) t of
        (Some err, t) \<Rightarrow> t\<lparr>at_failing := True, at_fail_err := Some err\<rparr>
      | (None, t) \<Rightarrow>
          let t = call_back cb_on_tool_result (AToolResult (call_name t idx) result) t
          in t\<lparr>at_tool_index := at_tool_index t + 1\<rparr>)"

text \<open>\<open>agent_tool_done\<close> up to the point where it may re-enter the driver.\<close>

definition tool_done :: "agent_lib \<Rightarrow> agent_env \<Rightarrow> tool_result \<Rightarrow> agent_turn \<Rightarrow> agent_turn" where
  "tool_done lib env result t =
     (let t = t\<lparr>at_exec := None\<rparr> in
      if at_finished t then t else tool_completed lib env result t)"

definition synthetic_result :: "agent_lib \<Rightarrow> agent_env \<Rightarrow> string \<Rightarrow> agent_turn \<Rightarrow> agent_turn" where
  "synthetic_result lib env content t = tool_completed lib env \<lparr>tr_content = content, tr_is_error = True\<rparr> t"

text \<open>
  \<open>def->execute\<close>: the result it delivers inline, or the running tool. \<open>None\<close>: an assertion fails
  while a Lua value is converted.
\<close>

definition tool_execute_call ::
    "agent_lib \<Rightarrow> agent_env \<Rightarrow> nat \<Rightarrow> tool_def \<Rightarrow> cjson \<Rightarrow> (tool_result + bash_world) option" where
  "tool_execute_call lib env idx def args =
     (case td_execute def of
        ReadTool \<Rightarrow> Some (Inl (read_execute (ae_files env idx) args))
      | WriteTool \<Rightarrow> Some (Inl (fst (write_execute (ae_files env idx) args)))
      | EditTool \<Rightarrow> Some (Inl (fst (edit_execute (ae_files env idx) args)))
      | BashTool \<Rightarrow>
          (case bash_execute (ae_bash env idx) args of
             (True, w) \<Rightarrow> Some (Inr w)
           | (False, w) \<Rightarrow> Some (Inl (hd (bw_results w))))
      | RegisteredTool \<Rightarrow>
          map_option Inl (registered_tool_execute (ae_invoke env idx) (al_cprint lib) def args))"

definition gate_call ::
    "agent_env \<Rightarrow> nat \<Rightarrow> tool_def \<Rightarrow> cjson \<Rightarrow> agent_turn \<Rightarrow> (string + cjson) \<times> agent_turn" where
  "gate_call env idx def args t =
     (if cb_gate (at_cb t)
      then (case ae_gate env idx def args of
              (decision, rewrite, refusal, cancel) \<Rightarrow>
                let t = (if cancel then t\<lparr>at_canceling := True\<rparr> else t) in
                if decision = kGateRefuse
                then (Inl (case refusal of Some r \<Rightarrow> r | None \<Rightarrow> ''refused by the tool gate''), t)
                else (Inr (case rewrite of Some a \<Rightarrow> a | None \<Rightarrow> args), t))
      else (Inr args, t))"

text \<open>The running tool, when the call is asynchronous.\<close>

definition start_tool ::
    "agent_lib \<Rightarrow> agent_env \<Rightarrow> nat \<Rightarrow> agent_turn \<Rightarrow> bash_world option \<times> agent_turn" where
  "start_tool lib env idx t =
     (let f = Option.bind (call_at t idx) (\<lambda>call. json_get_obj call ''function'');
          name = Option.bind f (\<lambda>f. json_get_cstr f ''name'');
          args_text = Option.bind f (\<lambda>f. json_get_cstr f ''arguments'')
      in case tools_lookup (ae_tools env) name of
           None \<Rightarrow>
             (None, synthetic_result lib env
                      (''unknown tool: '' @ (case name of Some n \<Rightarrow> n | None \<Rightarrow> ''(unnamed)'')) t)
         | Some def \<Rightarrow>
             let args_text = (case args_text of None \<Rightarrow> ''{}'' | Some a \<Rightarrow> if a = [] then ''{}'' else a) in
             (case json_parse (al_cparse lib) (Some args_text) kAgentArgsCap of
                Inl perr \<Rightarrow>
                  (None, synthetic_result lib env (td_name def @ '': arguments are not valid JSON'') t)
              | Inr args \<Rightarrow>
                  (case gate_call env idx def args t of
                     (Inl content, t) \<Rightarrow> (None, synthetic_result lib env content t)
                   | (Inr args, t) \<Rightarrow>
                       let t = call_back cb_on_tool_start (AToolStart (td_name def) args) t in
                       (case tool_execute_call lib env idx def args of
                          None \<Rightarrow> (None, t\<lparr>at_aborted := True\<rparr>)
                        | Some (Inl result) \<Rightarrow> (None, tool_done lib env result t)
                        | Some (Inr w) \<Rightarrow> (Some w, t)))))"

fun answer_rest :: "agent_lib \<Rightarrow> agent_env \<Rightarrow> nat \<Rightarrow> agent_turn \<Rightarrow> agent_turn" where
  "answer_rest lib env 0 t = t"
| "answer_rest lib env (Suc n) t =
     (case append_tool_message lib env (at_tool_index t) ''[interrupted]'' t of
        (Some err, t) \<Rightarrow> log_warn (''agent: interrupted-result append failed: '' @ snd err) t
      | (None, t) \<Rightarrow> answer_rest lib env n (t\<lparr>at_tool_index := at_tool_index t + 1\<rparr>))"

definition finish_with_synthetics :: "agent_lib \<Rightarrow> agent_env \<Rightarrow> agent_turn \<Rightarrow> agent_turn" where
  "finish_with_synthetics lib env t =
     finish_turn kTurnInterrupted None (answer_rest lib env (at_tool_count t - at_tool_index t) t)"

definition next_step :: "agent_env \<Rightarrow> agent_turn \<Rightarrow> agent_turn" where
  "next_step env t =
     (let t = t\<lparr>at_step := at_step t + 1\<rparr> in
      if at_step t \<ge> at_step_cap t then finish_turn kTurnStepCap None t
      else
        let context_length = ao_context_length (at_opts t) in
        if context_length > 0 \<and> at_last_total_tokens t > 0
           \<and> at_last_total_tokens t \<ge> mul64 context_length (at_context_pct t) sdiv 100
        then finish_turn kTurnContextLimit None t
        else if ae_timer_start env then t\<lparr>at_timer := StepArmed\<rparr>
        else finish_turn kTurnFailed (Some (kErrorTypeException, ''agent: step timer failed'')) t)"

lemma append_tool_message_frame:
  "append_tool_message lib env idx content t = (err, t') \<Longrightarrow> \<exists>sess. t' = t\<lparr>at_session := sess\<rparr>"
  by (auto simp: append_tool_message_def append_message_def split: prod.splits)

lemma tool_completed_progress:
  "(at_failing (tool_completed lib env result t) \<or> at_tool_index (tool_completed lib env result t) = at_tool_index t + 1)
   \<and> at_tool_count (tool_completed lib env result t) = at_tool_count t"
  by (auto simp: tool_completed_def call_back_def Let_def dest!: append_tool_message_frame split: prod.splits option.splits)

lemma gate_call_frame:
  "gate_call env idx def args t = (r, t') \<Longrightarrow> \<exists>b. t' = t\<lparr>at_canceling := b\<rparr>"
  by (cases "ae_gate env idx def args")
    (auto simp: gate_call_def Let_def split: if_splits intro: exI [of _ "at_canceling t"])

text \<open>How the call of a tool ends: answered, aborted, or left running.\<close>

definition is_start :: "agent_output \<Rightarrow> bool" where
  "is_start x \<longleftrightarrow> (case x of AToolStart _ _ \<Rightarrow> True | _ \<Rightarrow> False)"

lemma start_tool_cases:
  assumes "start_tool lib env idx t = (w, t')" "\<not> at_finished t" "at_exec t = None"
  obtains (answered) r b outs where "w = None" "list_all is_start outs"
      "t' = tool_completed lib env r (t\<lparr>at_canceling := b, at_out := at_out t @ outs\<rparr>)"
    | (aborted) b outs where "w = None" "list_all is_start outs"
      "t' = t\<lparr>at_canceling := b, at_out := at_out t @ outs, at_aborted := True\<rparr>"
    | (running) b outs su args w0 where "w = Some w0" "bash_execute su args = (True, w0)" "list_all is_start outs"
      "t' = t\<lparr>at_canceling := b, at_out := at_out t @ outs\<rparr>"
proof -
  define f where "f = Option.bind (call_at t idx) (\<lambda>call. json_get_obj call ''function'')"
  define name where "name = Option.bind f (\<lambda>f. json_get_cstr f ''name'')"
  define atext where "atext = (case Option.bind f (\<lambda>f. json_get_cstr f ''arguments'') of
    None \<Rightarrow> ''{}'' | Some a \<Rightarrow> if a = [] then ''{}'' else a)"
  have exec_none: "t\<lparr>at_canceling := b, at_out := o1, at_exec := None\<rparr> = t\<lparr>at_canceling := b, at_out := o1\<rparr>" for b o1
    using assms(3) by (cases t) simp
  have plain: thesis if "w = None" "t' = tool_completed lib env r (t\<lparr>at_canceling := b\<rparr>)" for r b
    by (rule answered [of "[]" r b]) (use that in simp_all)
  have plain0: thesis if "w = None \<and> t' = tool_completed lib env r t" for r
    by (rule plain [of r "at_canceling t"]) (use that in simp_all)
  show thesis
  proof (cases "tools_lookup (ae_tools env) name")
    case None
    then show ?thesis
      using assms(1)
      by (intro plain0) (auto simp: start_tool_def synthetic_result_def Let_def simp flip: f_def name_def)
  next
    case (Some def)
    note def = Some
    show ?thesis
    proof (cases "json_parse (al_cparse lib) (Some atext) kAgentArgsCap")
      case (Inl e)
      then show ?thesis
        using assms(1) def
        by (intro plain0) (auto simp: start_tool_def synthetic_result_def Let_def simp flip: f_def name_def atext_def)
    next
      case (Inr args)
      obtain r t1 where g: "gate_call env idx def args t = (r, t1)" by fastforce
      then obtain b where t1: "t1 = t\<lparr>at_canceling := b\<rparr>" using gate_call_frame by blast
      show ?thesis
      proof (cases r)
        case (Inl content)
        then show ?thesis
          using assms(1) def Inr g t1
          by (intro plain) (auto simp: start_tool_def synthetic_result_def Let_def simp flip: f_def name_def atext_def)
      next
        case (Inr args2)
        let ?t2 = "call_back cb_on_tool_start (AToolStart (td_name def) args2) t1"
        obtain outs where outs: "?t2 = t\<lparr>at_canceling := b, at_out := at_out t @ outs\<rparr>" "list_all is_start outs"
        proof (cases "cb_on_tool_start (at_cb t)")
          case True
          then show ?thesis
            using that [of "[AToolStart (td_name def) args2]"] by (simp add: call_back_def t1 is_start_def)
        qed (use that [of "[]"] in \<open>simp add: call_back_def t1\<close>)
        have run: "(w, t') = (case tool_execute_call lib env idx def args2 of
            None \<Rightarrow> (None, ?t2\<lparr>at_aborted := True\<rparr>)
          | Some (Inl result) \<Rightarrow> (None, tool_done lib env result ?t2)
          | Some (Inr w0) \<Rightarrow> (Some w0, ?t2))"
          using assms(1) def \<open>json_parse _ _ _ = Inr args\<close> g Inr
          by (simp add: start_tool_def Let_def flip: f_def name_def atext_def)
        consider "tool_execute_call lib env idx def args2 = None"
          | r2 where "tool_execute_call lib env idx def args2 = Some (Inl r2)"
          | w0 where "tool_execute_call lib env idx def args2 = Some (Inr w0)"
          by (metis option.exhaust sum.exhaust)
        then show ?thesis
        proof cases
          case 1
          then have "w = None" "t' = t\<lparr>at_canceling := b, at_out := at_out t @ outs, at_aborted := True\<rparr>"
            using run outs(1) by simp_all
          then show ?thesis using outs(2) aborted by blast
        next
          case (2 r2)
          then have "w = None" "t' = tool_completed lib env r2 (t\<lparr>at_canceling := b, at_out := at_out t @ outs\<rparr>)"
            using run outs(1) assms(2) exec_none by (simp_all add: tool_done_def)
          then show ?thesis using outs(2) answered by blast
        next
          case (3 w0)
          then obtain su where "bash_execute su args2 = (True, w0)"
            by (cases "td_execute def"; cases "bash_execute (ae_bash env idx) args2")
              (auto simp: tool_execute_call_def map_option_case split: bool.splits option.splits)
          moreover have "w = Some w0" "t' = t\<lparr>at_canceling := b, at_out := at_out t @ outs\<rparr>"
            using run 3 outs(1) by simp_all
          ultimately show ?thesis using outs(2) running by blast
        qed
      qed
    qed
  qed
qed


text \<open>
  The driver's loop. The turn is unfinished while it runs; the test of \<open>at_finished\<close> stands for
  the recursion's termination only.
\<close>

definition drive_over :: "agent_turn \<Rightarrow> bool" where
  "drive_over t \<longleftrightarrow> \<not> (at_tool_index t < at_tool_count t \<and> \<not> at_canceling t \<and> \<not> at_failing t)"

definition drive_end :: "agent_lib \<Rightarrow> agent_env \<Rightarrow> agent_turn \<Rightarrow> agent_turn" where
  "drive_end lib env t =
     (let t = t\<lparr>at_in_driver := False\<rparr> in
      if at_failing t then finish_turn kTurnFailed (at_fail_err t) t
      else if at_canceling t then finish_with_synthetics lib env t
      else next_step env t)"

lemma start_tool_progress:
  assumes "start_tool lib env idx t = (None, t')" "\<not> at_finished t" "at_exec t = None"
  shows "at_aborted t' \<or> at_failing t' \<or> (at_tool_index t' = at_tool_index t + 1 \<and> at_tool_count t' = at_tool_count t)"
  using assms(1)
proof (rule start_tool_cases [OF _ assms(2,3)])
  fix r b outs
  assume "t' = tool_completed lib env r (t\<lparr>at_canceling := b, at_out := at_out t @ outs\<rparr>)"
  then show ?thesis using tool_completed_progress by force
qed simp_all

function drive_loop :: "agent_lib \<Rightarrow> agent_env \<Rightarrow> agent_turn \<Rightarrow> agent_turn" where
  "drive_loop lib env t =
     (if at_aborted t \<or> at_finished t \<or> at_exec t \<noteq> None then t
      else if drive_over t then drive_end lib env t
      else (case start_tool lib env (at_tool_index t) t of
              (Some w, t) \<Rightarrow> t\<lparr>at_exec := Some w, at_in_driver := False\<rparr>
            | (None, t) \<Rightarrow> drive_loop lib env t))"
  by auto

termination
proof (relation "measure (\<lambda>(lib, env, t). if at_aborted t \<or> drive_over t then 0 else at_tool_count t - at_tool_index t)", goal_cases)
  case (2 lib env t p t')
  then have "at_tool_index t < at_tool_count t" by (simp add: drive_over_def)
  then show ?case using start_tool_progress [of lib env "at_tool_index t" t t'] 2 by (auto simp: drive_over_def)
qed simp

declare drive_loop.simps [simp del]

definition drive_tools :: "agent_lib \<Rightarrow> agent_env \<Rightarrow> agent_turn \<Rightarrow> agent_turn" where
  "drive_tools lib env t = drive_loop lib env (t\<lparr>at_in_driver := True\<rparr>)"

definition agent_tool_done :: "agent_lib \<Rightarrow> agent_env \<Rightarrow> tool_result \<Rightarrow> agent_turn \<Rightarrow> agent_turn" where
  "agent_tool_done lib env result t =
     (let ended = at_finished t; t = tool_done lib env result t in
      if \<not> ended \<and> \<not> at_in_driver t then drive_tools lib env t else t)"

section \<open>The provider's callbacks\<close>

definition provider_on_text :: "string \<Rightarrow> agent_turn \<Rightarrow> agent_turn" where
  "provider_on_text s t = call_back cb_on_text (AText s) t"

definition provider_on_error :: "error \<Rightarrow> agent_turn \<Rightarrow> agent_turn" where
  "provider_on_error perr t =
     (let t = t\<lparr>at_stream := None\<rparr> in
      if at_cancel_requested t then finish_turn kTurnInterrupted None t
      else finish_turn kTurnFailed (Some perr) t)"

definition maybe_warn_context :: "agent_turn \<Rightarrow> agent_turn" where
  "maybe_warn_context t =
     (let context_length = ao_context_length (at_opts t); tokens = at_last_total_tokens t in
      if context_length \<le> 0 \<or> at_context_warned t \<or> at_context_warn_pct t \<le> 0 \<or> \<not> cb_on_notice (at_cb t)
         \<or> tokens \<le> 0 then t
      else if tokens < mul64 context_length (at_context_warn_pct t) sdiv 100 then t
      else
        let pct = int32 (mul64 tokens 100 sdiv context_length);
            msg = ''context window '' @ show_int pct @ ''% full ('' @ show_int tokens @ ''/''
                  @ show_int context_length @ '' tokens)''
        in call_back cb_on_notice (ANotice (take 127 msg)) (t\<lparr>at_context_warned := True\<rparr>))"

definition provider_on_done :: "agent_lib \<Rightarrow> agent_env \<Rightarrow> cjson \<Rightarrow> usage \<Rightarrow> agent_turn \<Rightarrow> agent_turn" where
  "provider_on_done lib env message u t =
     (let t = t\<lparr>at_stream := None\<rparr>;
          t = (if total_tokens u > 0 then t\<lparr>at_last_total_tokens := total_tokens u\<rparr> else t);
          t = maybe_warn_context t
      in case append_message lib env message t of
           (Some err, t) \<Rightarrow> finish_turn kTurnFailed (Some err) t
         | (None, t) \<Rightarrow>
             let assistant = session_message_get (at_session t) (session_message_count (at_session t) - 1);
                 calls = (case Option.bind assistant (\<lambda>m. json_get_arr m ''tool_calls'') of Some cs \<Rightarrow> cs | None \<Rightarrow> [])
             in if calls = [] then finish_turn kTurnDone None t
                else
                  let t = t\<lparr>at_calls := calls, at_tool_count := length calls, at_tool_index := 0\<rparr> in
                  if at_cancel_requested t
                  then finish_with_synthetics lib env (t\<lparr>at_canceling := True\<rparr>)
                  else drive_tools lib env t)"

text \<open>What the provider has delivered since the turn last looked.\<close>

fun provider_deliver :: "agent_lib \<Rightarrow> agent_env \<Rightarrow> or_output list \<Rightarrow> agent_turn \<Rightarrow> agent_turn" where
  "provider_deliver lib env [] t = t"
| "provider_deliver lib env (OnText s # os) t = provider_deliver lib env os (provider_on_text s t)"
| "provider_deliver lib env (OnDone msg reason u # os) t =
     provider_deliver lib env os (provider_on_done lib env msg u t)"
| "provider_deliver lib env (OnError e # os) t = provider_deliver lib env os (provider_on_error e t)"

section \<open>Requests\<close>

definition request_messages :: "agent_turn \<Rightarrow> cjson" where
  "request_messages t =
     (let messages = session_messages (at_session t) in
      case at_system_prompt t of
        None \<Rightarrow> messages
      | Some prompt \<Rightarrow>
          CArray (json_add_cstr (json_add_cstr json_new_obj ''role'' ''system'') ''content'' prompt
                  # cj_children messages))"

text \<open>The error, none when the stream was opened. A stream whose first request fails inside
  \<open>openrouter_stream\<close> has delivered its error before it is returned.\<close>

definition issue_request :: "agent_lib \<Rightarrow> agent_env \<Rightarrow> agent_turn \<Rightarrow> error option \<times> agent_turn" where
  "issue_request lib env t =
     (case tools_build_openai_array (al_cparse lib) (ae_tools env) of
        Inl e \<Rightarrow> (Some e, t)
      | Inr tools \<Rightarrow>
          let opts = \<lparr>op_model = ao_model (at_opts t), op_max_tokens = 0, op_messages = request_messages t,
                      op_tools = Some tools, op_api_key = ao_api_key (at_opts t), op_base_url = None\<rparr>;
              t = t\<lparr>at_requests := at_requests t @ [opts]\<rparr>
          in case openrouter_stream (al_cprint lib) (al_getenv lib) (ae_hrtime env) (ae_stream_timer env)
                    (ae_http_request env) opts of
               Inl e \<Rightarrow> (Some e, t\<lparr>at_stream := None\<rparr>)
             | Inr s \<Rightarrow> (None, (provider_deliver lib env (or_out (os_state s)) t)\<lparr>at_stream := Some s\<rparr>))"

definition step_timer_cb :: "agent_lib \<Rightarrow> agent_env \<Rightarrow> agent_turn \<Rightarrow> agent_turn" where
  "step_timer_cb lib env t =
     (if at_canceling t \<or> at_cancel_requested t then finish_turn kTurnInterrupted None t
      else (case issue_request lib env t of
              (Some err, t) \<Rightarrow> finish_turn kTurnFailed (Some err) t
            | (None, t) \<Rightarrow> t))"

text \<open>\<open>start_ok\<close>: whether a timer that the bash tool starts while it is canceled starts.\<close>

definition agent_turn_cancel :: "agent_lib \<Rightarrow> agent_env \<Rightarrow> bool \<Rightarrow> agent_turn \<Rightarrow> agent_turn" where
  "agent_turn_cancel lib env start_ok t =
     (if at_finished t then t
      else (case at_stream t of
              Some s \<Rightarrow>
                let s' = openrouter_cancel s;
                    t = t\<lparr>at_cancel_requested := True, at_stream := Some s'\<rparr>
                in provider_deliver lib env (drop (length (or_out (os_state s))) (or_out (os_state s'))) t
            | None \<Rightarrow>
                let t = t\<lparr>at_canceling := True\<rparr> in
                (case at_exec t of
                   Some w \<Rightarrow> t\<lparr>at_exec := Some (tools_cancel start_ok w)\<rparr>
                 | None \<Rightarrow> t)))"

text \<open>
  The outer \<open>None\<close>: the \<open>NULL\<close> system prompt. \<open>timers\<close>: whether \<open>uv_timer_init\<close> and
  \<open>uv_timer_start\<close> succeed. The session is returned as the call leaves it.
\<close>

definition agent_turn_start ::
    "agent_lib \<Rightarrow> options \<Rightarrow> write_oracle \<Rightarrow> bool \<times> bool \<Rightarrow> agent_opts option \<Rightarrow> session_state option \<Rightarrow>
     agent_callbacks option \<Rightarrow> mstring \<Rightarrow> ((error + agent_turn) \<times> session_state option) option" where
  "agent_turn_start lib mua_o os timers opts session cb user_text =
     (case (opts, session, cb) of
        (Some opts, Some sess, Some cb) \<Rightarrow>
          if \<not> ao_http opts \<or> \<not> cb_on_finish cb
          then Some (Inl (kErrorTypeValidation, ''agent: http, session, and on_finish are required''), session)
          else if user_text = None \<or> str_size user_text = 0
          then Some (Inl (kErrorTypeValidation, ''agent: user text is empty''), session)
          else
            let user = json_add_cstr json_new_obj ''role'' ''user'';
                user = json_add_str user ''content'' user_text
            in (case session_append (al_cprint lib) os sess (Some user) of
                  (Some e, sess) \<Rightarrow> Some (Inl e, Some sess)
                | (None, sess) \<Rightarrow>
                    (case resolve_system_prompt (al_getenv lib) mua_o of
                       None \<Rightarrow> None
                     | Some prompt \<Rightarrow>
                         let t = \<lparr>at_opts = opts, at_cb = cb, at_session = sess, at_system_prompt = prompt,
                                  at_step = 0, at_step_cap = resolve_step_cap (al_getenv lib) mua_o,
                                  at_context_pct = resolve_context_pct (al_getenv lib) mua_o,
                                  at_context_warn_pct = resolve_context_warn_pct (al_getenv lib) mua_o,
                                  at_last_total_tokens = 0, at_context_warned = False, at_stream = None,
                                  at_exec = None, at_timer = StepIdle, at_calls = [], at_tool_index = 0,
                                  at_tool_count = 0, at_in_driver = False, at_cancel_requested = False,
                                  at_canceling = False, at_failing = False, at_fail_err = None,
                                  at_finished = False, at_freed = False, at_interrupt = True, at_out = [],
                                  at_requests = [], at_aborted = False\<rparr>
                         in if \<not> fst timers
                            then Some (Inl (kErrorTypeException, ''agent: step timer init failed''), Some sess)
                            else if \<not> snd timers
                            then Some (Inl (kErrorTypeException, ''agent: step timer start failed''), Some sess)
                            else Some (Inr (t\<lparr>at_timer := StepArmed\<rparr>), Some sess)))
      | _ \<Rightarrow> Some (Inl (kErrorTypeValidation, ''agent: http, session, and on_finish are required''), session))"

section \<open>Events\<close>

text \<open>
  One turn of the loop for the turn: its timer, an event of its stream or of its running tool, a
  cancel (ctrl-C or the owner), the close callback of its timer. \<open>None\<close>: the event cannot happen.
\<close>

datatype agent_event =
    AEvTimer
  | AEvStream or_event
  | AEvExec "bool \<times> bash_event"
  | AEvCancel bool
  | AEvTimerClosed

fun agent_step :: "agent_lib \<Rightarrow> agent_turn \<Rightarrow> agent_env \<times> agent_event \<Rightarrow> agent_turn option" where
  "agent_step lib t (env, AEvTimer) =
     (if at_timer t = StepArmed then Some (step_timer_cb lib env (t\<lparr>at_timer := StepIdle\<rparr>)) else None)"
| "agent_step lib t (env, AEvStream e) =
     (case at_stream t of
        None \<Rightarrow> None
      | Some s \<Rightarrow>
          if e = EvStreamCancel then None
          else (case or_step (al_cparse lib) (al_strerror lib) s e of
                  None \<Rightarrow> None
                | Some s' \<Rightarrow>
                    Some (provider_deliver lib env (drop (length (or_out (os_state s))) (or_out (os_state s')))
                            (t\<lparr>at_stream := Some s'\<rparr>))))"
| "agent_step lib t (env, AEvExec e) =
     (case at_exec t of
        None \<Rightarrow> None
      | Some w \<Rightarrow>
          if snd e = EvCancel then None
          else (case bash_step w e of
                  None \<Rightarrow> None
                | Some w' \<Rightarrow>
                    (case drop (length (bw_results w)) (bw_results w') of
                       [] \<Rightarrow> Some (t\<lparr>at_exec := Some w'\<rparr>)
                     | result # _ \<Rightarrow> Some (agent_tool_done lib env result (t\<lparr>at_exec := Some w'\<rparr>)))))"
| "agent_step lib t (env, AEvCancel ok) =
     (if at_freed t then None else Some (agent_turn_cancel lib env ok t))"
| "agent_step lib t (env, AEvTimerClosed) =
     (if at_timer t = StepClosing \<and> \<not> at_freed t then Some (t\<lparr>at_freed := True\<rparr>) else None)"

inductive agent_reach :: "agent_lib \<Rightarrow> agent_turn \<Rightarrow> agent_turn \<Rightarrow> bool" for lib t0 where
  turn_started: "agent_reach lib t0 t0"
| turn_event: "agent_reach lib t0 t \<Longrightarrow> \<not> at_aborted t \<Longrightarrow> agent_step lib t e = Some t' \<Longrightarrow> agent_reach lib t0 t'"

inductive_cases agent_reachE: "agent_reach lib t0 t"

section \<open>Repair of a resumed session\<close>

fun last_tool_call_round :: "cjson list \<Rightarrow> nat \<Rightarrow> (nat \<times> cjson list) option" where
  "last_tool_call_round ms 0 = None"
| "last_tool_call_round ms (Suc i) =
     (if json_get_cstr (ms ! i) ''role'' \<noteq> Some ''assistant'' then last_tool_call_round ms i
      else (case json_get_arr (ms ! i) ''tool_calls'' of
              None \<Rightarrow> last_tool_call_round ms i
            | Some calls \<Rightarrow> if calls \<noteq> [] then Some (i, calls) else last_tool_call_round ms i))"

definition call_answered :: "cjson list \<Rightarrow> nat \<Rightarrow> string option \<Rightarrow> bool" where
  "call_answered ms start_at cid =
     list_ex (\<lambda>msg. json_get_cstr msg ''role'' = Some ''tool'' \<and> cid \<noteq> None
                  \<and> json_get_cstr msg ''tool_call_id'' = cid) (drop start_at ms)"

fun repair_calls ::
    "agent_lib \<Rightarrow> (nat \<Rightarrow> write_oracle) \<Rightarrow> nat \<Rightarrow> cjson list \<Rightarrow> session_state \<Rightarrow> error option \<times> session_state" where
  "repair_calls lib os round [] sess = (None, sess)"
| "repair_calls lib os round (call # calls) sess =
     (if call_answered (ss_messages sess) (round + 1) (json_get_cstr call ''id'')
      then repair_calls lib os round calls sess
      else (case session_append (al_cprint lib) (os (ss_count sess)) sess (Some (tool_message call ''[interrupted]'')) of
              (Some e, sess) \<Rightarrow> (Some e, sess)
            | (None, sess) \<Rightarrow> repair_calls lib os round calls sess))"

definition agent_repair_session ::
    "agent_lib \<Rightarrow> (nat \<Rightarrow> write_oracle) \<Rightarrow> session_state \<Rightarrow> error option \<times> session_state" where
  "agent_repair_session lib os sess =
     (case last_tool_call_round (ss_messages sess) (session_message_count sess) of
        None \<Rightarrow> (None, sess)
      | Some (round, calls) \<Rightarrow> repair_calls lib os round calls sess)"

section \<open>The gate policies\<close>

definition agent_gate_approve_all :: "tool_def \<Rightarrow> cjson \<Rightarrow> gate_decision \<times> string option" where
  "agent_gate_approve_all tool args = (kGateApprove, None)"

definition agent_gate_auto_refuse :: "tool_def \<Rightarrow> cjson \<Rightarrow> gate_decision \<times> string option" where
  "agent_gate_auto_refuse tool args =
     (if \<not> td_mutating tool then (kGateApprove, None)
      else (kGateRefuse, Some (td_name tool @ '' requires approval; re-run with --yes'')))"

text \<open>\<open>getchar\<close> and \<open>fgets\<close> on the bytes of standard input that are left.\<close>

fun gate_drain :: "nat \<Rightarrow> string \<Rightarrow> string" where
  "gate_drain 0 input = input"
| "gate_drain (Suc n) [] = []"
| "gate_drain (Suc n) (c # cs) = (if c = LF then cs else gate_drain n cs)"

definition gate_drain_line :: "string \<Rightarrow> string" where
  "gate_drain_line input = gate_drain kAgentGateDrainMax input"

definition fgets :: "nat \<Rightarrow> string \<Rightarrow> (string \<times> string) option" where
  "fgets cap input =
     (if input = [] then None
      else let line = (case memchr LF input of Some i \<Rightarrow> i + 1 | None \<Rightarrow> length input);
               n = min line (cap - 1)
           in Some (take n input, drop n input))"

text \<open>
  The decision, the refusal, the prompt on standard error and what is left of standard input.
  \<open>interrupted\<close>: the read was interrupted by a signal.
\<close>

definition agent_gate_interactive ::
    "(cjson \<Rightarrow> string) \<Rightarrow> bool \<Rightarrow> string \<Rightarrow> tool_def \<Rightarrow> cjson \<Rightarrow> gate_decision \<times> string option \<times> string \<times> string" where
  "agent_gate_interactive cprint interrupted input tool args =
     (if \<not> td_mutating tool then (kGateApprove, None, [], input)
      else
        let preview = str_bytes (json_print cprint args);
            prompt = ''mua: allow '' @ td_name tool @ '' '' @ take kAgentGatePreview preview
                     @ (if length preview > kAgentGatePreview then ''...'' else []) @ ''? [y/N] '';
            declined = Some (td_name tool @ '' declined at the approval prompt'')
        in case (if interrupted then None else fgets kAgentGateLine input) of
             None \<Rightarrow> (kGateRefuse, declined, prompt, input)
           | Some (line, input) \<Rightarrow>
               let input = (if LF \<notin> set (cstr line) then gate_drain_line input else input) in
               if line \<noteq> [] \<and> (hd line = CHR ''y'' \<or> hd line = CHR ''Y'')
               then (kGateApprove, None, prompt, input)
               else (kGateRefuse, declined, prompt, input))"

end
