(* ===== verification/AgentProps.thy ===== *)
theory AgentProps
  imports Agent SessionProps ToolsProps ProviderProps BashProps
begin

text \<open>
  Properties of the agent's turn: an invariant over the turn together with its stream, its running
  tool and its session, kept by every event; the exactly-once \<open>on_finish\<close>; the shape of the
  conversation that every request carries; the step and token budgets; the repair of a resumed
  session; the gate policies.
\<close>

section \<open>The conversation\<close>

definition calls_of :: "cjson \<Rightarrow> cjson list" where
  "calls_of m = (case json_get_arr m ''tool_calls'' of Some cs \<Rightarrow> cs | None \<Rightarrow> [])"

definition call_id :: "cjson \<Rightarrow> string" where
  "call_id call = (case json_get_cstr call ''id'' of Some s \<Rightarrow> cstr s | None \<Rightarrow> [])"

definition answers :: "cjson \<Rightarrow> cjson \<Rightarrow> bool" where
  "answers call m \<longleftrightarrow> json_get_cstr m ''role'' = Some ''tool'' \<and> json_get_cstr m ''tool_call_id'' = Some (call_id call)"

text \<open>Rounds: an assistant message and, in order, one answer to each of its tool calls.\<close>

inductive answered :: "cjson list \<Rightarrow> bool" where
  no_round: "answered []"
| round: "answered ms \<Longrightarrow> json_get_cstr a ''role'' = Some ''assistant'' \<Longrightarrow> list_all2 answers (calls_of a) rs \<Longrightarrow>
    answered (ms @ a # rs)"

lemma answers_tool_message: "answers call (tool_message call content)"
  by (simp add: answers_def tool_message_def call_id_def Let_def json_add_cstr_def json_new_obj_def json_get_cstr_def
      split: option.split)

section \<open>Appending\<close>

lemma write_line_frame:
  "write_line os sess line = (e, s') \<Longrightarrow> ss_messages s' = ss_messages sess \<and> ss_count s' = ss_count sess"
  by (auto simp: write_line_def Let_def split: write_outcome.splits if_splits)

lemma session_append_messages:
  assumes "session_append cprint os sess (Some m) = (e, s')"
  shows "ss_messages s' = (if e = None then ss_messages sess @ [m] else ss_messages sess)
    \<and> ss_count s' = (if e = None then ss_count sess + 1 else ss_count sess)"
  using assms
  by (auto simp: session_append_def Let_def dest!: write_line_frame split: if_splits prod.splits option.splits cjson.splits)

lemma append_message_cases:
  assumes "append_message lib env m t = (e, t')"
  obtains sess where "t' = t\<lparr>at_session := sess\<rparr>"
    "ss_messages sess = (if e = None then ss_messages (at_session t) @ [m] else ss_messages (at_session t))"
    "ss_count sess = (if e = None then ss_count (at_session t) + 1 else ss_count (at_session t))"
  using assms session_append_messages by (auto simp: append_message_def split: prod.splits)

section \<open>The invariant\<close>

definition is_finish :: "agent_output \<Rightarrow> bool" where
  "is_finish x \<longleftrightarrow> (case x of AFinish _ _ \<Rightarrow> True | _ \<Rightarrow> False)"

abbreviation no_finish :: "agent_output list \<Rightarrow> bool" where
  "no_finish xs \<equiv> list_all (\<lambda>x. \<not> is_finish x) xs"

definition is_warn :: "agent_output \<Rightarrow> bool" where
  "is_warn x \<longleftrightarrow> (case x of AWarn _ \<Rightarrow> True | _ \<Rightarrow> False)"

text \<open>The messages after \<open>base\<close>: whole rounds, or rounds and a round under way.\<close>

definition between_rounds :: "cjson list \<Rightarrow> agent_turn \<Rightarrow> bool" where
  "between_rounds base t \<longleftrightarrow> (\<exists>ms. ss_messages (at_session t) = base @ ms \<and> answered ms)"

definition in_round :: "cjson list \<Rightarrow> agent_turn \<Rightarrow> bool" where
  "in_round base t \<longleftrightarrow> (\<exists>ms a rs. ss_messages (at_session t) = base @ ms @ a # rs \<and> answered ms
     \<and> json_get_cstr a ''role'' = Some ''assistant'' \<and> at_calls t = calls_of a
     \<and> at_tool_count t = length (at_calls t) \<and> at_tool_index t = length rs \<and> at_tool_index t \<le> at_tool_count t
     \<and> list_all2 answers (take (length rs) (at_calls t)) rs)"

definition system_messages :: "agent_turn \<Rightarrow> cjson list" where
  "system_messages t =
     (case at_system_prompt t of
        None \<Rightarrow> []
      | Some prompt \<Rightarrow> [json_add_cstr (json_add_cstr json_new_obj ''role'' ''system'') ''content'' prompt])"

definition request_ok :: "cjson list \<Rightarrow> agent_turn \<Rightarrow> openrouter_opts \<Rightarrow> bool" where
  "request_ok base t r \<longleftrightarrow> (\<exists>ms. op_messages r = CArray (system_messages t @ base @ ms) \<and> answered ms)"

text \<open>What never changes during a turn.\<close>

definition config :: "agent_turn \<Rightarrow> agent_opts \<times> agent_callbacks \<times> string option \<times> int \<times> int \<times> int" where
  "config t = (at_opts t, at_cb t, at_system_prompt t, at_step_cap t, at_context_pct t, at_context_warn_pct t)"

definition within_budget :: "agent_turn \<Rightarrow> bool" where
  "within_budget t \<longleftrightarrow> ao_context_length (at_opts t) \<le> 0 \<or> at_last_total_tokens t \<le> 0
     \<or> at_last_total_tokens t < mul64 (ao_context_length (at_opts t)) (at_context_pct t) sdiv 100"

definition turn_ok :: "agent_turn \<Rightarrow> cjson list \<Rightarrow> agent_turn \<Rightarrow> bool" where
  "turn_ok c base t \<longleftrightarrow> config t = config c \<and> ss_count (at_session t) = length (ss_messages (at_session t))
     \<and> (\<forall>r \<in> set (at_requests t). request_ok base t r) \<and> 0 \<le> at_step t"

text \<open>Inside an event, between the stream's end and the next request.\<close>

definition turn_busy :: "agent_turn \<Rightarrow> cjson list \<Rightarrow> agent_turn \<Rightarrow> bool" where
  "turn_busy c base t \<longleftrightarrow> turn_ok c base t \<and> \<not> at_finished t \<and> \<not> at_aborted t \<and> at_interrupt t \<and> no_finish (at_out t)
     \<and> at_timer t = StepIdle \<and> at_stream t = None \<and> at_exec t = None
     \<and> int (length (at_requests t)) \<le> at_step t + 1 \<and> at_step t < at_step_cap t"

definition turn_waiting :: "cjson list \<Rightarrow> agent_turn \<Rightarrow> bool" where
  "turn_waiting base t \<longleftrightarrow> \<not> at_finished t \<and> \<not> at_aborted t \<and> at_interrupt t \<and> no_finish (at_out t)
     \<and> at_timer t = StepArmed \<and> at_stream t = None \<and> at_exec t = None \<and> between_rounds base t
     \<and> int (length (at_requests t)) \<le> at_step t \<and> at_step t < at_step_cap t \<and> within_budget t"

definition turn_streaming :: "cjson list \<Rightarrow> agent_turn \<Rightarrow> bool" where
  "turn_streaming base t \<longleftrightarrow> \<not> at_finished t \<and> \<not> at_aborted t \<and> at_interrupt t \<and> no_finish (at_out t)
     \<and> at_timer t = StepIdle \<and> at_exec t = None \<and> between_rounds base t
     \<and> (\<exists>s. at_stream t = Some s \<and> stream_ok s \<and> \<not> or_finished (os_state s))
     \<and> int (length (at_requests t)) \<le> at_step t + 1 \<and> at_step t < at_step_cap t"

definition turn_running :: "cjson list \<Rightarrow> agent_turn \<Rightarrow> bool" where
  "turn_running base t \<longleftrightarrow> \<not> at_finished t \<and> \<not> at_aborted t \<and> at_interrupt t \<and> no_finish (at_out t)
     \<and> at_timer t = StepIdle \<and> at_stream t = None \<and> \<not> at_in_driver t \<and> in_round base t
     \<and> at_tool_index t < at_tool_count t
     \<and> (\<exists>w. at_exec t = Some w \<and> bash_running w \<and> \<not> bw_freed w)
     \<and> int (length (at_requests t)) \<le> at_step t + 1 \<and> at_step t < at_step_cap t"

definition turn_ended :: "cjson list \<Rightarrow> agent_turn \<Rightarrow> bool" where
  "turn_ended base t \<longleftrightarrow> at_finished t \<and> \<not> at_aborted t \<and> \<not> at_interrupt t \<and> at_timer t = StepClosing
     \<and> at_exec t = None
     \<and> (\<forall>s. at_stream t = Some s \<longrightarrow> stream_ok s \<and> or_finished (os_state s))
     \<and> int (length (at_requests t)) \<le> at_step_cap t
     \<and> (\<exists>os oc err. at_out t = os @ [AFinish oc err] \<and> no_finish os
          \<and> (oc = kTurnFailed \<or> (oc = kTurnInterrupted \<and> list_ex is_warn os) \<or> between_rounds base t))"

definition turn_aborted :: "agent_turn \<Rightarrow> bool" where
  "turn_aborted t \<longleftrightarrow> at_aborted t \<and> at_timer t = StepIdle \<and> \<not> at_finished t \<and> at_interrupt t \<and> no_finish (at_out t)
     \<and> int (length (at_requests t)) \<le> at_step_cap t"

definition agent_ok :: "agent_turn \<Rightarrow> cjson list \<Rightarrow> agent_turn \<Rightarrow> bool" where
  "agent_ok c base t \<longleftrightarrow> turn_ok c base t \<and>
     (turn_waiting base t \<or> turn_streaming base t \<or> turn_running base t \<or> turn_ended base t \<or> turn_aborted t)"

lemmas agent_phase_defs = turn_waiting_def turn_streaming_def turn_running_def turn_ended_def turn_aborted_def

lemma turn_ok_frame [simp]:
  "turn_ok c base (t\<lparr>at_out := os\<rparr>) = turn_ok c base t" "turn_ok c base (t\<lparr>at_stream := s\<rparr>) = turn_ok c base t"
  "turn_ok c base (t\<lparr>at_exec := w\<rparr>) = turn_ok c base t" "turn_ok c base (t\<lparr>at_timer := tm\<rparr>) = turn_ok c base t"
  "turn_ok c base (t\<lparr>at_calls := cs\<rparr>) = turn_ok c base t" "turn_ok c base (t\<lparr>at_tool_index := n\<rparr>) = turn_ok c base t"
  "turn_ok c base (t\<lparr>at_tool_count := n\<rparr>) = turn_ok c base t" "turn_ok c base (t\<lparr>at_in_driver := b\<rparr>) = turn_ok c base t"
  "turn_ok c base (t\<lparr>at_cancel_requested := b\<rparr>) = turn_ok c base t"
  "turn_ok c base (t\<lparr>at_canceling := b\<rparr>) = turn_ok c base t" "turn_ok c base (t\<lparr>at_failing := b\<rparr>) = turn_ok c base t"
  "turn_ok c base (t\<lparr>at_fail_err := e\<rparr>) = turn_ok c base t" "turn_ok c base (t\<lparr>at_finished := b\<rparr>) = turn_ok c base t"
  "turn_ok c base (t\<lparr>at_freed := b\<rparr>) = turn_ok c base t" "turn_ok c base (t\<lparr>at_interrupt := b\<rparr>) = turn_ok c base t"
  "turn_ok c base (t\<lparr>at_aborted := b\<rparr>) = turn_ok c base t" "turn_ok c base (t\<lparr>at_context_warned := b\<rparr>) = turn_ok c base t"
  "turn_ok c base (t\<lparr>at_last_total_tokens := i\<rparr>) = turn_ok c base t"
  by (simp_all add: turn_ok_def config_def request_ok_def system_messages_def)

lemma rounds_frame [simp]:
  "between_rounds base (t\<lparr>at_out := os\<rparr>) = between_rounds base t" "in_round base (t\<lparr>at_out := os\<rparr>) = in_round base t"
  "between_rounds base (t\<lparr>at_stream := s\<rparr>) = between_rounds base t" "in_round base (t\<lparr>at_stream := s\<rparr>) = in_round base t"
  "between_rounds base (t\<lparr>at_exec := w\<rparr>) = between_rounds base t" "in_round base (t\<lparr>at_exec := w\<rparr>) = in_round base t"
  "between_rounds base (t\<lparr>at_timer := tm\<rparr>) = between_rounds base t" "in_round base (t\<lparr>at_timer := tm\<rparr>) = in_round base t"
  "between_rounds base (t\<lparr>at_in_driver := b\<rparr>) = between_rounds base t"
  "in_round base (t\<lparr>at_in_driver := b\<rparr>) = in_round base t"
  "between_rounds base (t\<lparr>at_cancel_requested := b\<rparr>) = between_rounds base t"
  "between_rounds base (t\<lparr>at_canceling := b\<rparr>) = between_rounds base t"
  "in_round base (t\<lparr>at_canceling := b\<rparr>) = in_round base t" "in_round base (t\<lparr>at_failing := b\<rparr>) = in_round base t"
  "in_round base (t\<lparr>at_fail_err := e\<rparr>) = in_round base t" "in_round base (t\<lparr>at_aborted := b\<rparr>) = in_round base t"
  "between_rounds base (t\<lparr>at_finished := b\<rparr>) = between_rounds base t"
  "between_rounds base (t\<lparr>at_interrupt := b\<rparr>) = between_rounds base t"
  "between_rounds base (t\<lparr>at_freed := b\<rparr>) = between_rounds base t"
  "between_rounds base (t\<lparr>at_requests := rs\<rparr>) = between_rounds base t"
  "between_rounds base (t\<lparr>at_step := i\<rparr>) = between_rounds base t"
  "between_rounds base (t\<lparr>at_last_total_tokens := i\<rparr>) = between_rounds base t"
  "between_rounds base (t\<lparr>at_context_warned := b\<rparr>) = between_rounds base t"
  by (simp_all add: between_rounds_def in_round_def)

lemma output_kinds [simp]:
  "\<not> is_finish (AText s)" "\<not> is_finish (AToolStart n a)" "\<not> is_finish (AToolResult n r)" "\<not> is_finish (ANotice s)"
  "\<not> is_finish (AWarn s)" "is_finish (AFinish oc e)" "is_warn (AWarn s)"
  by (simp_all add: is_finish_def is_warn_def)

lemma no_finish_starts: "list_all is_start xs \<Longrightarrow> no_finish xs"
  by (auto simp: list_all_iff is_start_def is_finish_def split: agent_output.splits)

lemma in_round_complete: "in_round base t \<Longrightarrow> at_tool_index t = at_tool_count t \<Longrightarrow> between_rounds base t"
  unfolding in_round_def between_rounds_def by (metis answered.round length_take min.idem take_all_iff le_refl)


section \<open>Preservation\<close>

lemma turn_busy_frame [simp]:
  "turn_busy c base (t\<lparr>at_canceling := b\<rparr>) = turn_busy c base t" "turn_busy c base (t\<lparr>at_in_driver := b\<rparr>) = turn_busy c base t"
  "turn_busy c base (t\<lparr>at_failing := b\<rparr>) = turn_busy c base t" "turn_busy c base (t\<lparr>at_fail_err := e\<rparr>) = turn_busy c base t"
  "turn_busy c base (t\<lparr>at_tool_index := n\<rparr>) = turn_busy c base t" "turn_busy c base (t\<lparr>at_calls := cs\<rparr>) = turn_busy c base t"
  "turn_busy c base (t\<lparr>at_tool_count := n\<rparr>) = turn_busy c base t"
  "turn_busy c base (t\<lparr>at_cancel_requested := b\<rparr>) = turn_busy c base t"
  "turn_busy c base (t\<lparr>at_last_total_tokens := i\<rparr>) = turn_busy c base t"
  "turn_busy c base (t\<lparr>at_context_warned := b\<rparr>) = turn_busy c base t"
  by (simp_all add: turn_busy_def)

lemma turn_busy_out:
  "turn_busy c base t \<Longrightarrow> no_finish xs \<Longrightarrow> turn_busy c base (t\<lparr>at_out := at_out t @ xs\<rparr>)"
  by (simp add: turn_busy_def)

lemma turn_busy_call_back:
  "turn_busy c base t \<Longrightarrow> \<not> is_finish x \<Longrightarrow> turn_busy c base (call_back f x t)"
  by (simp add: call_back_def turn_busy_out)

lemma turn_busy_session:
  "turn_busy c base t \<Longrightarrow> ss_count sess = length (ss_messages sess) \<Longrightarrow> turn_busy c base (t\<lparr>at_session := sess\<rparr>)"
  by (auto simp: turn_busy_def turn_ok_def config_def request_ok_def system_messages_def)

lemma finish_ok:
  assumes "turn_busy c base t" "oc = kTurnFailed \<or> (oc = kTurnInterrupted \<and> list_ex is_warn (at_out t)) \<or> between_rounds base t"
  shows "agent_ok c base (finish_turn oc err t)"
  using assms by (auto simp: finish_turn_def agent_ok_def turn_ended_def turn_busy_def)

lemma next_step_ok:
  assumes "turn_busy c base t" "between_rounds base t"
  shows "agent_ok c base (next_step env t)"
proof -
  let ?t = "t\<lparr>at_step := at_step t + 1\<rparr>"
  show ?thesis
  proof (cases "at_step_cap t \<le> at_step t + 1")
    case True
    then have "next_step env t = (finish_turn kTurnStepCap None t)\<lparr>at_step := at_step t + 1\<rparr>"
      using assms(1) by (simp add: next_step_def Let_def finish_turn_def turn_busy_def)
    moreover have "agent_ok c base ((finish_turn kTurnStepCap None t)\<lparr>at_step := at_step t + 1\<rparr>)"
      using assms by (auto simp: finish_turn_def agent_ok_def turn_ended_def turn_busy_def turn_ok_def config_def
          request_ok_def system_messages_def)
    ultimately show ?thesis by simp
  next
    case False
    then have busy: "turn_busy c base ?t"
      using assms(1) by (auto simp: turn_busy_def turn_ok_def config_def request_ok_def system_messages_def)
    have waiting: "agent_ok c base (?t\<lparr>at_timer := StepArmed\<rparr>)" if "within_budget ?t"
    proof -
      have "turn_waiting base (?t\<lparr>at_timer := StepArmed\<rparr>)"
        using assms that busy by (simp add: turn_waiting_def turn_busy_def within_budget_def)
      moreover have "turn_ok c base ?t" using busy by (simp add: turn_busy_def)
      ultimately show ?thesis by (simp add: agent_ok_def)
    qed
    have "agent_ok c base (finish_turn oc err ?t)" for oc err
      using finish_ok [OF busy] assms(2) by simp
    then show ?thesis
      using False waiting by (auto simp: next_step_def Let_def within_budget_def not_le not_less)
  qed
qed

lemma append_tool_ok:
  assumes "turn_busy c base t" "in_round base t" "at_tool_index t < at_tool_count t"
    and "append_tool_message lib env (at_tool_index t) content t = (e, t')"
  shows "\<exists>sess. t' = t\<lparr>at_session := sess\<rparr> \<and> turn_busy c base t'
    \<and> in_round base (if e = None then t'\<lparr>at_tool_index := at_tool_index t + 1\<rparr> else t')"
proof -
  have n: "at_tool_index t < length (at_calls t)" using assms(2,3) by (auto simp: in_round_def)
  let ?call = "at_calls t ! at_tool_index t"
  have app: "append_message lib env (tool_message ?call content) t = (e, t')"
    using assms(4) n by (simp add: append_tool_message_def call_at_def)
  obtain sess where t': "t' = t\<lparr>at_session := sess\<rparr>"
    and msgs: "ss_messages sess = (if e = None then ss_messages (at_session t) @ [tool_message ?call content] else ss_messages (at_session t))"
    and count: "ss_count sess = (if e = None then ss_count (at_session t) + 1 else ss_count (at_session t))"
    using append_message_cases [OF app] by metis
  have "ss_count sess = length (ss_messages sess)"
    using assms(1) msgs count by (auto simp: turn_busy_def turn_ok_def)
  then have busy: "turn_busy c base t'" unfolding t' by (rule turn_busy_session [OF assms(1)])
  have "in_round base (if e = None then t'\<lparr>at_tool_index := at_tool_index t + 1\<rparr> else t')"
  proof (cases e)
    case None
    obtain ms a rs where r: "ss_messages (at_session t) = base @ ms @ a # rs" "answered ms"
        "json_get_cstr a ''role'' = Some ''assistant''" "at_calls t = calls_of a" "at_tool_count t = length (at_calls t)"
        "at_tool_index t = length rs" "list_all2 answers (take (length rs) (at_calls t)) rs"
      using assms(2) unfolding in_round_def by blast
    have "take (length rs + 1) (at_calls t) = take (length rs) (at_calls t) @ [?call]"
      using n r(6) by (simp add: take_Suc_conv_app_nth)
    then have "list_all2 answers (take (length rs + 1) (at_calls t)) (rs @ [tool_message ?call content])"
      using r(7) answers_tool_message by (simp add: list_all2_appendI)
    then show ?thesis
      using r msgs None assms(3) unfolding in_round_def t'
      by (intro exI [of _ ms] exI [of _ a] exI [of _ "rs @ [tool_message ?call content]"]) simp
  next
    case (Some err)
    then show ?thesis using assms(2) msgs by (simp add: in_round_def t')
  qed
  then show ?thesis using t' busy by blast
qed

lemma tool_completed_ok:
  assumes "turn_busy c base t" "in_round base t" "at_tool_index t < at_tool_count t"
  shows "turn_busy c base (tool_completed lib env r t) \<and> in_round base (tool_completed lib env r t)"
proof -
  obtain e t' where a: "append_tool_message lib env (at_tool_index t) (tr_content r) t = (e, t')" by fastforce
  then obtain sess where t': "t' = t\<lparr>at_session := sess\<rparr>" and busy: "turn_busy c base t'"
    and round: "in_round base (if e = None then t'\<lparr>at_tool_index := at_tool_index t + 1\<rparr> else t')"
    using append_tool_ok [OF assms] by blast
  show ?thesis
  proof (cases e)
    case None
    let ?x = "AToolResult (call_name t' (at_tool_index t)) r"
    have "tool_completed lib env r t = (call_back cb_on_tool_result ?x t')\<lparr>at_tool_index := at_tool_index t + 1\<rparr>"
      using a None by (simp add: tool_completed_def Let_def t' call_back_def)
    moreover have "turn_busy c base (call_back cb_on_tool_result ?x t')" by (rule turn_busy_call_back [OF busy]) simp
    moreover have "in_round base ((call_back cb_on_tool_result ?x t')\<lparr>at_tool_index := at_tool_index t + 1\<rparr>)"
      using round None by (simp add: call_back_def in_round_def)
    ultimately show ?thesis by simp
  next
    case (Some err)
    then show ?thesis using a busy round by (simp add: tool_completed_def Let_def)
  qed
qed

lemma answer_rest_ok:
  assumes "turn_busy c base t" "in_round base t" "n = at_tool_count t - at_tool_index t"
  shows "turn_busy c base (answer_rest lib env n t)
    \<and> (list_ex is_warn (at_out (answer_rest lib env n t)) \<or> between_rounds base (answer_rest lib env n t))"
  using assms
proof (induction n arbitrary: t)
  case 0
  then have "at_tool_index t = at_tool_count t" by (auto simp: in_round_def)
  then show ?case using 0 in_round_complete by simp
next
  case (Suc n)
  obtain e t' where a: "append_tool_message lib env (at_tool_index t) ''[interrupted]'' t = (e, t')" by fastforce
  have "at_tool_index t < at_tool_count t" using Suc.prems(3) by simp
  then obtain sess where t': "t' = t\<lparr>at_session := sess\<rparr>" and busy: "turn_busy c base t'"
    and round: "in_round base (if e = None then t'\<lparr>at_tool_index := at_tool_index t + 1\<rparr> else t')"
    using append_tool_ok [OF Suc.prems(1,2) _ a] by blast
  show ?case
  proof (cases e)
    case None
    have "n = at_tool_count (t'\<lparr>at_tool_index := at_tool_index t + 1\<rparr>) - at_tool_index (t'\<lparr>at_tool_index := at_tool_index t + 1\<rparr>)"
      using Suc.prems(3) by (simp add: t')
    from Suc.IH [OF _ _ this] show ?thesis using a busy round None by (simp add: t')
  next
    case (Some err)
    then show ?thesis using a turn_busy_out [OF busy, of "[AWarn (''agent: interrupted-result append failed: '' @ snd err)]"]
      by (simp add: log_warn_def)
  qed
qed

lemma synthetics_ok:
  assumes "turn_busy c base t" "in_round base t"
  shows "agent_ok c base (finish_with_synthetics lib env t)"
  using answer_rest_ok [OF assms refl, of lib env] unfolding finish_with_synthetics_def by (auto intro: finish_ok)

lemma drive_end_ok:
  assumes "turn_busy c base t" "in_round base t" "drive_over t"
  shows "agent_ok c base (drive_end lib env t)"
proof -
  let ?t = "t\<lparr>at_in_driver := False\<rparr>"
  have busy: "turn_busy c base ?t" using assms(1) by simp
  have "between_rounds base ?t" if "\<not> at_canceling t" "\<not> at_failing t"
  proof -
    have "at_tool_index t = at_tool_count t" using assms(2,3) that by (auto simp: drive_over_def in_round_def)
    then show ?thesis using in_round_complete assms(2) by simp
  qed
  moreover have "agent_ok c base (finish_with_synthetics lib env ?t)"
    by (rule synthetics_ok [OF busy]) (use assms(2) in simp)
  ultimately show ?thesis
    using finish_ok [OF busy, of kTurnFailed] next_step_ok [OF busy] by (simp add: drive_end_def Let_def)
qed

lemma drive_loop_ok:
  assumes "turn_busy c base t" "in_round base t"
  shows "agent_ok c base (drive_loop lib env t)"
  using assms
proof (induction lib env t rule: drive_loop.induct)
  case (1 lib env t)
  have go: "\<not> (at_aborted t \<or> at_finished t \<or> at_exec t \<noteq> None)" using "1.prems"(1) by (auto simp: turn_busy_def)
  then have flags: "\<not> at_finished t" "at_exec t = None" by auto
  show ?case
  proof (cases "drive_over t")
    case True
    then show ?thesis using drive_end_ok [OF "1.prems"] go by (subst drive_loop.simps) simp
  next
    case False
    then have lt: "at_tool_index t < at_tool_count t" by (simp add: drive_over_def)
    obtain w t' where st: "start_tool lib env (at_tool_index t) t = (w, t')" by fastforce
    have run: "drive_loop lib env t = (case w of Some w \<Rightarrow> t'\<lparr>at_exec := Some w, at_in_driver := False\<rparr>
        | None \<Rightarrow> drive_loop lib env t')"
      using go False st by (subst drive_loop.simps) (simp split: option.split)
    from st show ?thesis
    proof (rule start_tool_cases [OF _ flags])
      fix r b outs
      assume w: "w = None" "list_all is_start outs"
        and t': "t' = tool_completed lib env r (t\<lparr>at_canceling := b, at_out := at_out t @ outs\<rparr>)"
      let ?u = "t\<lparr>at_canceling := b, at_out := at_out t @ outs\<rparr>"
      have "turn_busy c base ?u"
        using turn_busy_out [of c base "t\<lparr>at_canceling := b\<rparr>" outs] "1.prems"(1) no_finish_starts [OF w(2)] by simp
      then have "turn_busy c base t' \<and> in_round base t'"
        unfolding t' by (rule tool_completed_ok) (use "1.prems"(2) lt in simp_all)
      then show ?thesis using "1.IH" [OF go False st [symmetric]] w(1) run by simp
    next
      fix b outs
      assume w: "w = None" "list_all is_start outs" and t': "t' = t\<lparr>at_canceling := b, at_out := at_out t @ outs, at_aborted := True\<rparr>"
      have "drive_loop lib env t = t'" using run w(1) by (subst (asm) (2) drive_loop.simps) (simp add: t')
      moreover have "agent_ok c base t'"
        using "1.prems"(1) no_finish_starts [OF w(2)] by (simp add: t' agent_ok_def turn_aborted_def turn_busy_def)
      ultimately show ?thesis by simp
    next
      fix b outs su args w0
      assume w: "w = Some w0" "bash_execute su args = (True, w0)" "list_all is_start outs"
        and t': "t' = t\<lparr>at_canceling := b, at_out := at_out t @ outs\<rparr>"
      have "bash_running w0 \<and> \<not> bw_freed w0" using bash_execute_ok [OF w(2)] by (simp add: bash_running_def)
      then have "turn_running base (t'\<lparr>at_exec := Some w0, at_in_driver := False\<rparr>)"
        using "1.prems" no_finish_starts [OF w(3)] lt by (simp add: t' turn_running_def turn_busy_def)
      moreover have "turn_ok c base t'" using "1.prems"(1) by (simp add: t' turn_busy_def)
      ultimately show ?thesis using run w(1) by (simp add: agent_ok_def)
    qed
  qed
qed

lemma drive_tools_ok: "turn_busy c base t \<Longrightarrow> in_round base t \<Longrightarrow> agent_ok c base (drive_tools lib env t)"
  by (simp add: drive_tools_def drive_loop_ok)

text \<open>The provider's terminal callbacks.\<close>

definition turn_delivering :: "agent_turn \<Rightarrow> cjson list \<Rightarrow> agent_turn \<Rightarrow> bool" where
  "turn_delivering c base t \<longleftrightarrow> turn_busy c base (t\<lparr>at_stream := None\<rparr>) \<and> between_rounds base t"

lemma provider_on_error_ok:
  assumes "turn_delivering c base t"
  shows "agent_ok c base (provider_on_error e t) \<and> at_finished (provider_on_error e t)"
proof -
  have "turn_busy c base (t\<lparr>at_stream := None\<rparr>)" "between_rounds base t" using assms by (simp_all add: turn_delivering_def)
  then show ?thesis using finish_ok [of c base "t\<lparr>at_stream := None\<rparr>"]
    by (simp add: provider_on_error_def Let_def finish_turn_def)
qed

lemma maybe_warn_context_ok:
  "turn_busy c base t \<Longrightarrow> turn_busy c base (maybe_warn_context t)"
  by (auto simp: maybe_warn_context_def Let_def intro!: turn_busy_call_back)

lemma maybe_warn_context_frame [simp]:
  "at_session (maybe_warn_context t) = at_session t" "at_cancel_requested (maybe_warn_context t) = at_cancel_requested t"
  by (simp_all add: maybe_warn_context_def call_back_def Let_def)

lemma provider_on_done_ok:
  assumes "turn_delivering c base t" "json_get_cstr message ''role'' = Some ''assistant''"
  shows "agent_ok c base (provider_on_done lib env message u t)"
proof -
  define t1 where "t1 = (if total_tokens u > 0 then t\<lparr>at_stream := None, at_last_total_tokens := total_tokens u\<rparr>
    else t\<lparr>at_stream := None\<rparr>)"
  have "turn_busy c base (t\<lparr>at_stream := None\<rparr>)" using assms(1) by (simp add: turn_delivering_def)
  then have "turn_busy c base t1" by (simp add: t1_def)
  then have busy1: "turn_busy c base (maybe_warn_context t1)" by (rule maybe_warn_context_ok)
  obtain ms where ms: "ss_messages (at_session t) = base @ ms" "answered ms"
    using assms(1) by (auto simp: turn_delivering_def between_rounds_def)
  obtain e t2 where app: "append_message lib env message (maybe_warn_context t1) = (e, t2)" by fastforce
  have same: "at_session (maybe_warn_context t1) = at_session t" by (simp add: t1_def)
  obtain sess where t2: "t2 = (maybe_warn_context t1)\<lparr>at_session := sess\<rparr>"
    and msgs: "ss_messages sess = (if e = None then base @ ms @ [message] else base @ ms)"
    and count: "ss_count sess = (if e = None then ss_count (at_session t) + 1 else ss_count (at_session t))"
    using append_message_cases [OF app] unfolding same ms(1) append_assoc by metis
  have len: "ss_count sess = length (ss_messages sess)"
    using assms(1) msgs count ms(1) by (simp add: turn_delivering_def turn_busy_def turn_ok_def)
  have busy2: "turn_busy c base t2" unfolding t2 by (rule turn_busy_session [OF busy1 len])
  show ?thesis
  proof (cases e)
    case (Some err)
    then show ?thesis
      using app finish_ok [OF busy2, of kTurnFailed] by (simp add: provider_on_done_def Let_def flip: t1_def)
  next
    case None
    have got: "session_message_get sess (session_message_count sess - 1) = Some message"
      using msgs len None by (simp add: session_message_get_def session_message_count_def nth_append)
    show ?thesis
    proof (cases "calls_of message = []")
      case True
      have "answered (ms @ [message])" using answered.round [OF ms(2) assms(2)] True by simp
      then have "between_rounds base t2" using msgs None by (auto simp: between_rounds_def t2)
      from finish_ok [OF busy2, of kTurnDone] this show ?thesis
        using app None got True
        by (simp add: provider_on_done_def Let_def t2 calls_of_def flip: t1_def)
    next
      case False
      let ?t3 = "t2\<lparr>at_calls := calls_of message, at_tool_count := length (calls_of message), at_tool_index := 0\<rparr>"
      have round: "in_round base ?t3"
        unfolding in_round_def using msgs None ms(2) assms(2)
        by (intro exI [of _ ms] exI [of _ message] exI [of _ "[]"]) (simp add: t2)
      have busy3: "turn_busy c base ?t3" using busy2 by simp
      have "provider_on_done lib env message u t = (if at_cancel_requested ?t3
          then finish_with_synthetics lib env (?t3\<lparr>at_canceling := True\<rparr>) else drive_tools lib env ?t3)"
        using app None got False
        by (simp add: provider_on_done_def Let_def t2 flip: t1_def calls_of_def)
      then show ?thesis
        using drive_tools_ok [OF busy3 round] synthetics_ok [of c base "?t3\<lparr>at_canceling := True\<rparr>"] busy3 round by simp
    qed
  qed
qed

text \<open>What a step of the stream delivers.\<close>

lemma deliver_texts:
  "list_all is_text os \<Longrightarrow> \<exists>xs. no_finish xs \<and>
     provider_deliver lib env (os @ rest) t = provider_deliver lib env rest (t\<lparr>at_out := at_out t @ xs\<rparr>)"
proof (induction os arbitrary: t)
  case Nil
  then show ?case by (intro exI [of _ "[]"]) simp
next
  case (Cons x os)
  obtain s where x: "x = OnText s" using Cons.prems by (cases x) auto
  let ?x = "if cb_on_text (at_cb t) then [AText s] else []"
  have one: "provider_on_text s t = t\<lparr>at_out := at_out t @ ?x\<rparr>" by (simp add: provider_on_text_def call_back_def)
  obtain xs where "no_finish xs" "provider_deliver lib env (os @ rest) (t\<lparr>at_out := at_out t @ ?x\<rparr>)
      = provider_deliver lib env rest (t\<lparr>at_out := at_out t @ ?x @ xs\<rparr>)"
    using Cons.IH [of "t\<lparr>at_out := at_out t @ ?x\<rparr>"] Cons.prems by auto
  then show ?case by (intro exI [of _ "?x @ xs"]) (simp add: x one)
qed

lemma turn_delivering_out:
  assumes "turn_delivering c base t" "no_finish xs"
  shows "turn_delivering c base (t\<lparr>at_out := at_out t @ xs\<rparr>)"
  using assms by (simp add: turn_delivering_def turn_busy_def)

lemma turn_delivering_streaming:
  "turn_delivering c base t \<Longrightarrow> at_stream t = Some s \<Longrightarrow> stream_ok s \<Longrightarrow> \<not> or_finished (os_state s) \<Longrightarrow>
   agent_ok c base t"
  by (simp add: turn_delivering_def turn_busy_def agent_ok_def turn_streaming_def)

lemma stream_done_role:
  assumes "stream_ok s" "OnDone msg r u \<in> set (or_out (os_state s))"
  shows "json_get_cstr msg ''role'' = Some ''assistant''"
proof -
  have "state_ok (os_state s)" using assms(1) by (simp add: stream_ok_def)
  then show ?thesis
    using assms(2) unfolding state_ok_def by (fastforce simp: list_all_iff message_ok_def split: if_splits)
qed

lemma deliver_final_ok:
  assumes "turn_delivering c base t" "list_all is_text ts" "\<not> is_text x"
    and "\<And>msg r u. x = OnDone msg r u \<Longrightarrow> json_get_cstr msg ''role'' = Some ''assistant''"
  shows "agent_ok c base (provider_deliver lib env (ts @ [x]) t)"
proof -
  obtain xs where xs: "no_finish xs" "provider_deliver lib env (ts @ [x]) t
      = provider_deliver lib env [x] (t\<lparr>at_out := at_out t @ xs\<rparr>)"
    using deliver_texts [OF assms(2)] by blast
  have d: "turn_delivering c base (t\<lparr>at_out := at_out t @ xs\<rparr>)" by (rule turn_delivering_out [OF assms(1) xs(1)])
  show ?thesis
    unfolding xs(2) using assms(3,4) provider_on_done_ok [OF d] provider_on_error_ok [OF d] by (cases x) auto
qed

lemma stream_event_ok:
  assumes "parser_ok cparse" "turn_delivering c base (t\<lparr>at_stream := Some s'\<rparr>)" "stream_ok s" "\<not> or_finished (os_state s)"
    and "or_step cparse ce s e = Some s'"
  shows "agent_ok c base (provider_deliver lib env (drop (length (or_out (os_state s))) (or_out (os_state s')))
    (t\<lparr>at_stream := Some s'\<rparr>))"
proof -
  have ok: "parser_ok cparse \<and> stream_ok s" "\<not> stream_calls.closed s" using assms(1,3,4) stream_closed by auto
  have s': "stream_ok s'" by (rule or_step_ok [OF assms(1,3,5)])
  show ?thesis unfolding stream_calls.fresh_outs_def [symmetric]
  proof (rule stream_calls.fresh_cases [OF ok assms(5)])
    assume live: "list_all (\<lambda>x. \<not> \<not> is_text x) (stream_calls.fresh_outs s s')" "\<not> stream_calls.closed s'"
    let ?t = "t\<lparr>at_stream := Some s'\<rparr>"
    obtain xs where xs: "no_finish xs" "provider_deliver lib env (stream_calls.fresh_outs s s' @ []) ?t
        = provider_deliver lib env [] (?t\<lparr>at_out := at_out ?t @ xs\<rparr>)"
      using deliver_texts [of "stream_calls.fresh_outs s s'" lib env "[]" ?t] live(1) by auto
    have "agent_ok c base (?t\<lparr>at_out := at_out ?t @ xs\<rparr>)"
      by (rule turn_delivering_streaming [OF turn_delivering_out [OF assms(2) xs(1)]])
        (use live(2) s' stream_closed in auto)
    then show "agent_ok c base (provider_deliver lib env (stream_calls.fresh_outs s s') ?t)" using xs(2) by simp
  next
    fix ts x assume f: "list_all (\<lambda>x. \<not> \<not> is_text x) ts" "\<not> is_text x" "stream_calls.fresh_outs s s' = ts @ [x]"
    have "x \<in> set (or_out (os_state s'))"
      using f(3) set_drop_subset [of "length (or_out (os_state s))" "or_out (os_state s')"]
      by (auto simp: stream_calls.fresh_outs_def)
    then show "agent_ok c base (provider_deliver lib env (stream_calls.fresh_outs s s') (t\<lparr>at_stream := Some s'\<rparr>))"
      unfolding f(3) using f(1,2) stream_done_role [OF s'] by (intro deliver_final_ok [OF assms(2)]) auto
  qed
qed

text \<open>The events, one by one.\<close>

lemma stream_not_freed: "stream_ok s \<Longrightarrow> \<not> or_finished (os_state s) \<Longrightarrow> \<not> os_freed s"
  by (auto simp: stream_ok_def)

lemma stream_opens:
  assumes "openrouter_stream cprint getenv hrtime timer_ok req opts = Inr s"
  shows "stream_ok s \<and> ((or_out (os_state s) = [] \<and> \<not> or_finished (os_state s))
    \<or> (\<exists>e. or_out (os_state s) = [OnError e] \<and> or_finished (os_state s)))"
proof -
  have "or_out (os_state s) = [] \<and> \<not> or_finished (os_state s)
    \<or> (\<exists>e. or_out (os_state s) = [OnError e] \<and> or_finished (os_state s))"
    using assms
    by (auto simp: openrouter_stream_def start_attempt_def reset_state_def state_init_def accumulators_init_def
        fire_error_msg_def emit_def Let_def split: if_splits option.splits)
  then show ?thesis using stream_open_ok [OF assms] by blast
qed

lemma turn_delivering_request:
  assumes "turn_waiting base t" "turn_ok c base t" "op_messages opts = request_messages t"
  shows "turn_delivering c base (t\<lparr>at_timer := StepIdle, at_requests := at_requests t @ [opts], at_stream := s\<rparr>)"
proof -
  obtain ms where "ss_messages (at_session t) = base @ ms" "answered ms"
    using assms(1) by (auto simp: turn_waiting_def between_rounds_def)
  then have "request_ok base t opts"
    unfolding request_ok_def using assms(3)
    by (intro exI [of _ ms])
      (simp add: request_messages_def session_messages_def system_messages_def split: option.split)
  then have "turn_ok c base (t\<lparr>at_timer := StepIdle, at_requests := at_requests t @ [opts]\<rparr>)"
    using assms(2) by (auto simp: turn_ok_def config_def request_ok_def system_messages_def)
  then show ?thesis
    using assms(1) by (simp add: turn_delivering_def turn_waiting_def turn_busy_def)
qed

lemma step_timer_ok:
  assumes "turn_waiting base t" "turn_ok c base t"
  shows "agent_ok c base (step_timer_cb lib env (t\<lparr>at_timer := StepIdle\<rparr>))"
proof -
  let ?t = "t\<lparr>at_timer := StepIdle\<rparr>"
  have busy: "turn_busy c base ?t" "between_rounds base ?t" using assms by (simp_all add: turn_waiting_def turn_busy_def)
  show ?thesis
  proof (cases "at_canceling t \<or> at_cancel_requested t")
    case True
    then show ?thesis using finish_ok [OF busy(1)] busy(2) by (simp add: step_timer_cb_def)
  next
    case False
    note live = False
    show ?thesis
    proof (cases "tools_build_openai_array (al_cparse lib) (ae_tools env)")
      case (Inl e)
      then show ?thesis using False finish_ok [OF busy(1)] busy(2) by (simp add: step_timer_cb_def issue_request_def)
    next
      case (Inr tools)
      define opts where "opts = \<lparr>op_model = ao_model (at_opts t), op_max_tokens = 0, op_messages = request_messages t,
        op_tools = Some tools, op_api_key = ao_api_key (at_opts t), op_base_url = None\<rparr>"
      let ?u = "?t\<lparr>at_requests := at_requests t @ [opts]\<rparr>"
      let ?open = "openrouter_stream (al_cprint lib) (al_getenv lib) (ae_hrtime env) (ae_stream_timer env) (ae_http_request env) opts"
      have req: "turn_delivering c base (?u\<lparr>at_stream := s\<rparr>)" for s
        by (rule turn_delivering_request [OF assms]) (simp add: opts_def)
      have msgs: "request_messages ?t = request_messages t" by (simp add: request_messages_def)
      have run: "step_timer_cb lib env ?t = (case ?open of
          Inl e \<Rightarrow> finish_turn kTurnFailed (Some e) (?u\<lparr>at_stream := None\<rparr>)
        | Inr s \<Rightarrow> (provider_deliver lib env (or_out (os_state s)) ?u)\<lparr>at_stream := Some s\<rparr>)"
        using False Inr by (simp add: step_timer_cb_def issue_request_def Let_def opts_def msgs split: sum.split)
      show ?thesis
      proof (cases ?open)
        case (Inl e)
        then show ?thesis
          using finish_ok [of c base "?u\<lparr>at_stream := None\<rparr>" kTurnFailed] req [of None] run
          by (simp add: turn_delivering_def)
      next
        case (Inr s)
        have s: "stream_ok s" using stream_opens [OF Inr] by blast
        have none: "?u\<lparr>at_stream := None\<rparr> = ?u" using assms(1) by (cases t) (simp add: turn_waiting_def)
        from stream_opens [OF Inr] consider "or_out (os_state s) = []" "\<not> or_finished (os_state s)"
          | e where "or_out (os_state s) = [OnError e]" "or_finished (os_state s)" by blast
        then show ?thesis
        proof cases
          case 1
          then show ?thesis using run Inr turn_delivering_streaming [OF req [of "Some s"] _ s] by simp
        next
          case (2 e)
          have "turn_delivering c base ?u" using req [of None] none by simp
          note ended = provider_on_error_ok [OF this, of e]
          then have "turn_ended base (provider_on_error e ?u)"
            by (auto simp: agent_ok_def agent_phase_defs)
          then have "turn_ended base ((provider_on_error e ?u)\<lparr>at_stream := Some s\<rparr>)"
            using s 2(2) by (simp add: turn_ended_def)
          then show ?thesis using run Inr 2 ended by (simp add: agent_ok_def)
        qed
      qed
    qed
  qed
qed

lemma tool_completed_driver [simp]: "at_in_driver (tool_completed lib env r t) = at_in_driver t"
  by (auto simp: tool_completed_def call_back_def Let_def dest!: append_tool_message_frame split: prod.splits option.splits)

lemma exec_event_ok:
  assumes "turn_running base t" "turn_ok c base t" "at_exec t = Some w" "bash_step w e = Some w'"
  shows "case drop (length (bw_results w)) (bw_results w') of
      [] \<Rightarrow> agent_ok c base (t\<lparr>at_exec := Some w'\<rparr>)
    | result # _ \<Rightarrow> agent_ok c base (agent_tool_done lib env result (t\<lparr>at_exec := Some w'\<rparr>))"
proof -
  have "bash_running w" using assms(1,3) by (auto simp: turn_running_def)
  then have w': "bash_running w'" "bw_results w = []" using bash_running_step assms(4) by blast+
  show ?thesis
  proof (cases "bw_results w'")
    case Nil
    then have "\<not> bw_freed w'" using bash_running_results [OF w'(1)] by simp
    then have "turn_running base (t\<lparr>at_exec := Some w'\<rparr>)" using assms(1) w'(1) by (simp add: turn_running_def)
    then show ?thesis using assms(2) Nil by (simp add: agent_ok_def)
  next
    case (Cons result rest)
    let ?t = "t\<lparr>at_exec := None\<rparr>"
    have t: "turn_busy c base ?t" "in_round base ?t" "at_tool_index ?t < at_tool_count ?t"
      using assms(1,2) by (auto simp: turn_running_def turn_busy_def)
    have "agent_tool_done lib env result (t\<lparr>at_exec := Some w'\<rparr>) = drive_tools lib env (tool_completed lib env result ?t)"
      using assms(1) by (simp add: agent_tool_done_def tool_done_def turn_running_def Let_def)
    then show ?thesis
      using drive_tools_ok [of c base "tool_completed lib env result ?t"] tool_completed_ok [OF t] Cons w'(2) by simp
  qed
qed

lemma cancel_event_ok:
  assumes "parser_ok (al_cparse lib)" "agent_ok c base t" "\<not> at_aborted t"
  shows "agent_ok c base (agent_turn_cancel lib env ok t)"
proof -
  have ok: "turn_ok c base t" using assms(2) by (simp add: agent_ok_def)
  consider "turn_waiting base t" | "turn_streaming base t" | "turn_running base t" | "turn_ended base t"
    using assms(2,3) by (auto simp: agent_ok_def turn_aborted_def)
  then show ?thesis
  proof cases
    case 1
    then have "turn_waiting base (t\<lparr>at_canceling := True\<rparr>)" by (simp add: turn_waiting_def within_budget_def)
    then show ?thesis using 1 ok by (simp add: agent_turn_cancel_def Let_def agent_ok_def turn_waiting_def)
  next
    case 2
    then obtain s where s: "at_stream t = Some s" "stream_ok s" "\<not> or_finished (os_state s)"
      by (auto simp: turn_streaming_def)
    let ?t = "t\<lparr>at_cancel_requested := True\<rparr>"
    have step: "or_step (al_cparse lib) (al_strerror lib) s EvStreamCancel = Some (openrouter_cancel s)"
      using s stream_not_freed by simp
    have "turn_delivering c base (?t\<lparr>at_stream := Some (openrouter_cancel s)\<rparr>)"
      using 2 ok by (simp add: turn_delivering_def turn_busy_def turn_streaming_def)
    from stream_event_ok [OF assms(1) this s(2,3) step] show ?thesis
      using s(1) 2 by (simp add: agent_turn_cancel_def Let_def turn_streaming_def)
  next
    case 3
    then obtain w where w: "at_exec t = Some w" "bash_running w" "\<not> bw_freed w" by (auto simp: turn_running_def)
    have "bash_step w (ok, EvCancel) = Some (tools_cancel ok w)" using w by (simp add: bash_running_def)
    then have w': "bash_running (tools_cancel ok w)" using bash_running_step w(2) by blast
    have "bw_results (tools_cancel ok w) = []"
      using bash_running_results [OF w(2)] w(3) bash_force_frames(3) by (simp add: tools_cancel_def Let_def set_exec_def)
    then have "\<not> bw_freed (tools_cancel ok w)" using bash_running_results [OF w'] by simp
    then have "turn_running base (t\<lparr>at_canceling := True, at_exec := Some (tools_cancel ok w)\<rparr>)"
      using 3 w' by (simp add: turn_running_def)
    then show ?thesis using 3 ok w(1) by (simp add: agent_turn_cancel_def Let_def agent_ok_def turn_running_def)
  next
    case 4
    then show ?thesis using assms(2) by (simp add: agent_turn_cancel_def turn_ended_def)
  qed
qed

lemma agent_step_ok:
  assumes "parser_ok (al_cparse lib)" "agent_ok c base t" "\<not> at_aborted t" "agent_step lib t e = Some t'"
  shows "agent_ok c base t'"
proof -
  obtain env ev where e: "e = (env, ev)" by fastforce
  have ok: "turn_ok c base t" using assms(2) by (simp add: agent_ok_def)
  note phase = assms(2) [unfolded agent_ok_def]
  show ?thesis
  proof (cases ev)
    case AEvTimer
    then have "at_timer t = StepArmed" "t' = step_timer_cb lib env (t\<lparr>at_timer := StepIdle\<rparr>)"
      using assms(4) e by (auto split: if_splits)
    moreover from this have "turn_waiting base t" using phase assms(3) by (auto simp: agent_phase_defs)
    ultimately show ?thesis using step_timer_ok [OF _ ok] by simp
  next
    case (AEvStream x)
    then obtain s s' where s: "at_stream t = Some s" "or_step (al_cparse lib) (al_strerror lib) s x = Some s'"
      and t': "t' = provider_deliver lib env (drop (length (or_out (os_state s))) (or_out (os_state s')))
        (t\<lparr>at_stream := Some s'\<rparr>)"
      using assms(4) e by (auto split: option.splits if_splits)
    from phase s(1) assms(3) consider "turn_streaming base t" | "turn_ended base t" by (auto simp: agent_phase_defs)
    then show ?thesis
    proof cases
      case 1
      then have "turn_delivering c base (t\<lparr>at_stream := Some s'\<rparr>)"
        using ok by (simp add: turn_delivering_def turn_busy_def turn_streaming_def)
      then show ?thesis unfolding t'
        by (rule stream_event_ok [OF assms(1) _ _ _ s(2)]) (use 1 s(1) in \<open>auto simp: turn_streaming_def\<close>)
    next
      case 2
      then have old: "stream_ok s" "or_finished (os_state s)" using s(1) by (auto simp: turn_ended_def)
      have new: "stream_ok s'" by (rule or_step_ok [OF assms(1) old(1) s(2)])
      have "stream_calls.fresh_outs s s' = [] \<and> stream_calls.closed s'"
        by (rule stream_calls.closed_silent [OF _ _ s(2)]) (use assms(1) old stream_closed in auto)
      then have "t' = t\<lparr>at_stream := Some s'\<rparr>" "or_finished (os_state s')"
        using t' stream_closed [OF new] by (auto simp: stream_calls.fresh_outs_def)
      then show ?thesis using 2 ok new by (simp add: agent_ok_def turn_ended_def)
    qed
  next
    case (AEvExec x)
    then obtain w w' where w: "at_exec t = Some w" "bash_step w x = Some w'"
      and t': "t' = (case drop (length (bw_results w)) (bw_results w') of [] \<Rightarrow> t\<lparr>at_exec := Some w'\<rparr>
        | result # _ \<Rightarrow> agent_tool_done lib env result (t\<lparr>at_exec := Some w'\<rparr>))"
      using assms(4) e by (auto split: option.splits if_splits list.splits)
    have "turn_running base t" using phase w(1) assms(3) by (auto simp: agent_phase_defs)
    from exec_event_ok [OF this ok w, of lib env] show ?thesis by (auto simp: t' split: list.splits)
  next
    case (AEvCancel b)
    then show ?thesis using cancel_event_ok [OF assms(1-3)] assms(4) e by (auto split: if_splits)
  next
    case AEvTimerClosed
    then have "t' = t\<lparr>at_freed := True\<rparr>" "at_timer t = StepClosing" using assms(4) e by (auto split: if_splits)
    then show ?thesis using phase assms(3) ok by (auto simp: agent_ok_def agent_phase_defs)
  qed
qed

lemma agent_reach_ok:
  "agent_reach lib t0 t \<Longrightarrow> parser_ok (al_cparse lib) \<Longrightarrow> agent_ok c base t0 \<Longrightarrow> agent_ok c base t"
  by (induction rule: agent_reach.induct) (auto dest: agent_step_ok)

lemma resolve_step_cap_range: "options_ok mua_o \<Longrightarrow> resolve_step_cap getenv mua_o \<in> {1..50}"
  using options_ok_ranges(1) [of mua_o]
  by (auto simp: resolve_step_cap_def MUA_STEP_CAP_MIN_def MUA_STEP_CAP_MAX_def split: option.split list.split)

lemma resolve_context_pct_range: "options_ok mua_o \<Longrightarrow> resolve_context_pct getenv mua_o \<in> {1..100}"
  using options_ok_ranges(2) [of mua_o]
  by (auto simp: resolve_context_pct_def resolve_pct_env_def MUA_CONTEXT_PCT_MIN_def MUA_CONTEXT_PCT_MAX_def
      split: option.split list.split)

lemma mul64_exact: "- (2 ^ 63) \<le> a * b \<Longrightarrow> a * b < 2 ^ 63 \<Longrightarrow> mul64 a b = a * b"
  unfolding mul64_def sint_sbintrunc' by (rule signed_take_bit_int_eq_self) simp_all

lemma sdiv_nonneg: "0 \<le> (a :: int) \<Longrightarrow> a sdiv 100 = a div 100"
  by (cases "a = 0") (simp_all add: signed_divide_int_def)

definition user_message :: "mstring \<Rightarrow> cjson" where
  "user_message s = json_add_str (json_add_cstr json_new_obj ''role'' ''user'') ''content'' s"

lemma agent_start_ok:
  assumes "agent_turn_start lib mua_o os timers opts (Some sess0) cb user = Some (Inr t, s)"
    and "ss_count sess0 = length (ss_messages sess0)" "options_ok mua_o"
  shows "agent_ok t (ss_messages sess0 @ [user_message user]) t
    \<and> ss_messages (at_session t) = ss_messages sess0 @ [user_message user] \<and> at_step_cap t \<in> {1..50}
    \<and> at_context_pct t \<in> {1..100}"
proof -
  from assms(1) obtain sess where app: "session_append (al_cprint lib) os sess0 (Some (user_message user)) = (None, sess)"
    and t: "at_session t = sess" "at_step t = 0" "at_step_cap t = resolve_step_cap (al_getenv lib) mua_o"
      "at_last_total_tokens t = 0" "at_stream t = None" "at_exec t = None" "at_timer t = StepArmed" "\<not> at_finished t"
      "at_interrupt t" "at_out t = []" "at_requests t = []" "\<not> at_aborted t"
      "at_context_pct t = resolve_context_pct (al_getenv lib) mua_o"
    by (auto simp: agent_turn_start_def user_message_def Let_def split: option.splits prod.splits if_splits)
  have "ss_messages sess = ss_messages sess0 @ [user_message user]" "ss_count sess = ss_count sess0 + 1"
    using session_append_messages [OF app] by simp_all
  moreover have "0 < at_step_cap t" "at_step_cap t \<in> {1..50}"
    using resolve_step_cap_range [OF assms(3), of "al_getenv lib"] t(3) by auto
  moreover have "between_rounds (ss_messages sess0 @ [user_message user]) t"
    using calculation(1) t(1) no_round by (auto simp: between_rounds_def)
  ultimately show ?thesis
    using t assms(2) resolve_context_pct_range [OF assms(3)]
    by (simp add: agent_ok_def turn_ok_def turn_waiting_def within_budget_def)
qed

lemma turn_reach_ok:
  assumes "parser_ok (al_cparse lib)" "options_ok mua_o" "ss_count sess0 = length (ss_messages sess0)"
    and "agent_turn_start lib mua_o os timers opts (Some sess0) cb user = Some (Inr t0, s0)" "agent_reach lib t0 t"
  shows "agent_ok t0 (ss_messages sess0 @ [user_message user]) t"
  using agent_reach_ok [OF assms(5,1)] agent_start_ok [OF assms(4,3,2)] by blast

section \<open>Properties of a turn\<close>

text \<open>An unfinished turn is never stuck.\<close>

lemma turn_pending:
  assumes "parser_ok (al_cparse lib)" "options_ok mua_o" "ss_count sess0 = length (ss_messages sess0)"
    and "agent_turn_start lib mua_o os timers opts (Some sess0) cb user = Some (Inr t0, s0)" "agent_reach lib t0 t"
    and "\<not> at_finished t" "\<not> at_aborted t"
  shows "\<exists>e. (\<forall>ok. e \<noteq> AEvCancel ok) \<and> (\<forall>env. agent_step lib t (env, e) \<noteq> None)"
proof -
  note ok = turn_reach_ok [OF assms(1-5), unfolded agent_ok_def]
  consider "turn_waiting (ss_messages sess0 @ [user_message user]) t"
    | "turn_streaming (ss_messages sess0 @ [user_message user]) t" | "turn_running (ss_messages sess0 @ [user_message user]) t"
    using ok assms(6,7) by (auto simp: turn_ended_def turn_aborted_def)
  then show "\<exists>e. (\<forall>ok. e \<noteq> AEvCancel ok) \<and> (\<forall>env. agent_step lib t (env, e) \<noteq> None)"
  proof cases
    case 1
    then show ?thesis by (intro exI [of _ AEvTimer]) (simp add: turn_waiting_def)
  next
    case 2
    then obtain s where s: "at_stream t = Some s" "os_req s \<or> (\<exists>d. os_timer s = TimerArmed d)"
      by (auto simp: turn_streaming_def stream_ok_def)
    then show ?thesis
    proof (cases "os_req s")
      case True
      with s(1) show ?thesis by (intro exI [of _ "AEvStream (EvComplete True CURLE_OK 200 None 0)"]) simp
    next
      case False
      with s show ?thesis by (intro exI [of _ "AEvStream (EvRetry None)"]) auto
    qed
  next
    case 3
    then obtain w where w: "at_exec t = Some w" "bash_ok w" "\<not> bw_freed w"
      by (auto simp: turn_running_def bash_running_def)
    consider "bw_running w" | "bw_timer w = Some Grace" | h where "bw_handles w h = Closing"
      using bash_not_stuck [OF w(2,3)] by blast
    then show ?thesis
    proof cases
      case 1
      with w(1) show ?thesis by (intro exI [of _ "AEvExec (True, EvExit 0 0)"]) (simp split: list.split)
    next
      case 2
      with w(1) show ?thesis by (intro exI [of _ "AEvExec (True, EvTimer)"]) (simp split: list.split)
    next
      case (3 h)
      with w(1) show ?thesis by (intro exI [of _ "AEvExec (True, EvClosed h)"]) (simp split: list.split)
    qed
  qed
qed

text \<open>C5. The end of a turn: in every reachable state of a started turn \<open>on_finish\<close> has been called
  once if the turn has finished, as its last callback, and not at all before; ctrl-C is routed to
  the turn exactly until then; and an unfinished turn is never stuck: its timer, its stream or
  its running tool has an event to deliver, whatever the system answers.\<close>

theorem agent_finishes_once:
  assumes "parser_ok (al_cparse lib)" "options_ok mua_o" "ss_count sess0 = length (ss_messages sess0)"
    and "agent_turn_start lib mua_o os timers opts (Some sess0) cb user = Some (Inr t0, s0)" "agent_reach lib t0 t"
  shows "(if at_finished t then \<exists>outs oc err. at_out t = outs @ [AFinish oc err] \<and> no_finish outs else no_finish (at_out t))
    \<and> (at_interrupt t \<longleftrightarrow> \<not> at_finished t)
    \<and> (\<not> at_finished t \<and> \<not> at_aborted t \<longrightarrow>
         (\<exists>e. (\<forall>ok. e \<noteq> AEvCancel ok) \<and> (\<forall>env. agent_step lib t (env, e) \<noteq> None)))"
proof (intro conjI impI)
  note ok = turn_reach_ok [OF assms, unfolded agent_ok_def]
  show "if at_finished t then \<exists>outs oc err. at_out t = outs @ [AFinish oc err] \<and> no_finish outs else no_finish (at_out t)"
    using ok by (auto simp: agent_phase_defs)
  show "at_interrupt t \<longleftrightarrow> \<not> at_finished t" using ok by (auto simp: agent_phase_defs)
  assume "\<not> at_finished t \<and> \<not> at_aborted t"
  then show "\<exists>e. (\<forall>ok. e \<noteq> AEvCancel ok) \<and> (\<forall>env. agent_step lib t (env, e) \<noteq> None)"
    using turn_pending [OF assms] by blast
qed

text \<open>C4. No dangling tool call: every request of a turn carries the conversation it resumed, the
  user's message and complete rounds, each an assistant message followed by one answer per tool
  call in order; and when the turn ends the session holds such a conversation again, unless the
  turn failed or answering an interrupted round could not be recorded (which is logged).\<close>

theorem agent_conversation_answered:
  assumes "parser_ok (al_cparse lib)" "options_ok mua_o" "ss_count sess0 = length (ss_messages sess0)"
    and "agent_turn_start lib mua_o os timers opts (Some sess0) cb user = Some (Inr t0, s0)" "agent_reach lib t0 t"
  shows "(\<forall>r \<in> set (at_requests t). \<exists>ms. answered ms
        \<and> op_messages r = CArray (system_messages t0 @ ss_messages sess0 @ [user_message user] @ ms))
    \<and> (\<forall>outs oc err. at_out t = outs @ [AFinish oc err] \<and> oc \<noteq> kTurnFailed \<and> \<not> list_ex is_warn outs \<longrightarrow>
         (\<exists>ms. answered ms \<and> ss_messages (at_session t) = ss_messages sess0 @ [user_message user] @ ms))"
proof (intro conjI ballI allI impI)
  note ok = turn_reach_ok [OF assms, unfolded agent_ok_def]
  have same: "system_messages t = system_messages t0" using ok by (simp add: turn_ok_def config_def system_messages_def)
  fix r assume "r \<in> set (at_requests t)"
  then have "request_ok (ss_messages sess0 @ [user_message user]) t r" using ok by (simp add: turn_ok_def)
  then show "\<exists>ms. answered ms \<and> op_messages r = CArray (system_messages t0 @ ss_messages sess0 @ [user_message user] @ ms)"
    by (auto simp: request_ok_def same)
next
  note ok = turn_reach_ok [OF assms, unfolded agent_ok_def]
  fix outs oc err
  assume f: "at_out t = outs @ [AFinish oc err] \<and> oc \<noteq> kTurnFailed \<and> \<not> list_ex is_warn outs"
  then have "turn_ended (ss_messages sess0 @ [user_message user]) t"
    using ok by (auto simp: agent_phase_defs)
  then have "between_rounds (ss_messages sess0 @ [user_message user]) t" using f by (auto simp: turn_ended_def)
  then show "\<exists>ms. answered ms \<and> ss_messages (at_session t) = ss_messages sess0 @ [user_message user] @ ms"
    by (auto simp: between_rounds_def)
qed

text \<open>C19. The budgets: a turn issues at most \<open>step_cap\<close> requests, which is at most 50, and a further
  request is pending only while the tokens reported so far are below the configured share of the
  model's context window (for windows below 2^56 tokens, where the product does not overflow).\<close>

theorem agent_budgets:
  assumes "parser_ok (al_cparse lib)" "options_ok mua_o" "ss_count sess0 = length (ss_messages sess0)"
    and "agent_turn_start lib mua_o os timers opts (Some sess0) cb user = Some (Inr t0, s0)" "agent_reach lib t0 t"
  shows "int (length (at_requests t)) \<le> at_step_cap t0 \<and> at_step_cap t0 \<in> {1..50}
    \<and> (at_timer t = StepArmed \<and> 0 < ao_context_length (at_opts t0) \<and> ao_context_length (at_opts t0) < 2 ^ 56
         \<longrightarrow> at_last_total_tokens t < ao_context_length (at_opts t0) * at_context_pct t0 div 100 \<or> at_last_total_tokens t \<le> 0)"
proof (intro conjI impI)
  note ok = turn_reach_ok [OF assms, unfolded agent_ok_def]
  note start = agent_start_ok [OF assms(4,3,2)]
  have c: "config t = config t0" using ok by (simp add: turn_ok_def)
  then have cap: "at_step_cap t = at_step_cap t0" by (simp add: config_def)
  show "int (length (at_requests t)) \<le> at_step_cap t0" using ok cap by (auto simp: agent_phase_defs)
  show "at_step_cap t0 \<in> {1..50}" using start by simp
  let ?n = "ao_context_length (at_opts t0)" and ?p = "at_context_pct t0"
  assume a: "at_timer t = StepArmed \<and> 0 < ?n \<and> ?n < 2 ^ 56"
  then have "within_budget t" using ok by (auto simp: agent_phase_defs)
  moreover have "0 \<le> ?n * ?p \<and> ?n * ?p < 2 ^ 63"
  proof -
    have p: "1 \<le> ?p" "?p \<le> 100" using start by simp_all
    then have "?n * ?p \<le> 2 ^ 56 * 100" using a by (intro mult_mono) auto
    then show ?thesis using a p by simp
  qed
  ultimately show "at_last_total_tokens t < ?n * ?p div 100 \<or> at_last_total_tokens t \<le> 0"
    using a c by (auto simp: within_budget_def config_def mul64_exact sdiv_nonneg)
qed

section \<open>Witnesses\<close>

text \<open>A turn on an empty session, with a JSON parser that reads every document as an empty object.\<close>

definition sample_lib :: agent_lib where
  "sample_lib = \<lparr>al_cparse = (\<lambda>s. Inr (CObject [], length s)), al_cprint = (\<lambda>_. ''{}''), al_getenv = (\<lambda>_. None),
     al_strerror = (\<lambda>_. [])\<rparr>"

definition sample_env :: "bool \<Rightarrow> agent_env" where
  "sample_env connects = \<lparr>ae_tools = [], ae_gate = (\<lambda>_ _ _. (kGateApprove, None, None, False)), ae_files = (\<lambda>_. sample_edit_env),
     ae_bash = (\<lambda>_. sample_setup), ae_invoke = (\<lambda>_ _ _. (ONil, False)), ae_writes = (\<lambda>_ _ n. Wrote n), ae_timer_start = True,
     ae_hrtime = 1, ae_stream_timer = True,
     ae_http_request = (if connects then None else Some (kErrorTypeException, ''no route''))\<rparr>"

definition sample_session :: session_state where
  "sample_session = \<lparr>ss_id = [], ss_path = [], ss_file = [], ss_messages = [], ss_count = 0, ss_poisoned = False,
     ss_needs_heal = False\<rparr>"

definition sample_opts :: agent_opts where
  "sample_opts = \<lparr>ao_http = True, ao_model = None, ao_api_key = Some ''k'', ao_context_length = 200000\<rparr>"

definition sample_cb :: agent_callbacks where
  "sample_cb = \<lparr>cb_on_text = True, cb_on_tool_start = True, cb_on_tool_result = True, cb_on_notice = True, cb_gate = True,
     cb_on_finish = True\<rparr>"

definition sample_start :: "((error + agent_turn) \<times> session_state option) option" where
  "sample_start = agent_turn_start sample_lib g_options_init (\<lambda>_ n. Wrote n) (True, True) (Some sample_opts)
     (Some sample_session) (Some sample_cb) (Some ''hi'')"

lemma sample_append:
  "session_append (\<lambda>_. ''{}'') (\<lambda>_ n. Wrote n) sample_session (Some (user_message (Some ''hi''))) =
   (None, sample_session\<lparr>ss_file := ''{}'' @ [LF], ss_messages := [user_message (Some ''hi'')], ss_count := 1\<rparr>)"
proof -
  have tries: "0 < n \<Longrightarrow> write_tries (\<lambda>_ n. Wrote n) nbytes i n res = Wrote nbytes" for n nbytes i res
    by (cases n) auto
  show ?thesis
    by (simp add: session_append_def user_message_def json_add_cstr_def json_add_str_def json_new_obj_def json_get_cstr_def
        Let_def MUA_SESSION_MAX_MESSAGES_def MUA_SESSION_MAX_LINE_def json_print_def write_line_def tries
        kSessionEintrMax_def sample_session_def)
qed

lemma sample_started:
  "\<exists>t0 s0. sample_start = Some (Inr t0, s0) \<and> at_timer t0 = StepArmed \<and> \<not> at_finished t0 \<and> \<not> at_aborted t0
     \<and> \<not> at_canceling t0 \<and> \<not> at_cancel_requested t0 \<and> at_requests t0 = [] \<and> at_opts t0 = sample_opts
     \<and> ss_messages (at_session t0) = [user_message (Some ''hi'')] \<and> at_out t0 = [] \<and> at_stream t0 = None
     \<and> \<not> at_freed t0"
  unfolding sample_start_def agent_turn_start_def
  by (simp add: Let_def sample_lib_def sample_opts_def sample_cb_def sample_append flip: user_message_def)
   (simp add: resolve_system_prompt_def options_system_prompt_def g_options_init_def kOptSystemPrompt_def kOptionCount_def
     option_defs_def str_option_def MUA_DEFAULT_SYSTEM_PROMPT_def)

lemma sample_parser_ok: "parser_ok (al_cparse sample_lib)"
  by (auto simp: parser_ok_def sample_lib_def)

lemma sample_session_ok: "ss_count sample_session = length (ss_messages sample_session)"
  by (simp add: sample_session_def)

text \<open>The first request is issued and the stream is live.\<close>

lemma sample_request:
  assumes "at_timer t0 = StepArmed" "\<not> at_canceling t0" "\<not> at_cancel_requested t0" "at_requests t0 = []"
    "at_opts t0 = sample_opts" "ss_messages (at_session t0) = [user_message (Some ''hi'')]"
  shows "\<exists>t1 r. agent_step sample_lib t0 (sample_env True, AEvTimer) = Some t1 \<and> at_requests t1 = [r]"
proof -
  have tools: "\<exists>es. tools_build_openai_array (al_cparse sample_lib) [] = Inr (CArray es)"
    by (simp add: tools_build_openai_array_def sample_lib_def tool_defs_def builtin_tool_def json_parse_def cstr_to_string_def
        str_size_def kToolSchemaCap_def READ_SCHEMA_def WRITE_SCHEMA_def EDIT_SCHEMA_def BASH_SCHEMA_def Let_def)
  then obtain es where es: "tools_build_openai_array (al_cparse sample_lib) [] = Inr (CArray es)" by blast
  have msgs: "\<exists>m ms. request_messages (t0\<lparr>at_timer := StepIdle\<rparr>) = CArray (m # ms)"
    using assms(6) by (simp add: request_messages_def session_messages_def Let_def split: option.split)
  then obtain m ms where ms: "request_messages (t0\<lparr>at_timer := StepIdle\<rparr>) = CArray (m # ms)" by blast
  define opts where "opts = \<lparr>op_model = ao_model sample_opts, op_max_tokens = 0, op_messages = CArray (m # ms),
    op_tools = Some (CArray es), op_api_key = ao_api_key sample_opts, op_base_url = None\<rparr>"
  obtain s where s: "openrouter_stream (al_cprint sample_lib) (al_getenv sample_lib) 1 True None opts = Inr s"
    by (simp add: openrouter_stream_def opts_def sample_opts_def nonempty_def Let_def)
  then have "or_out (os_state s) = []"
    by (auto simp: openrouter_stream_def start_attempt_def reset_state_def state_init_def accumulators_init_def Let_def
        split: if_splits)
  then show ?thesis
    using assms(1-5) s es ms
    by (simp add: step_timer_cb_def issue_request_def sample_env_def Let_def flip: opts_def)
qed

theorem agent_finishes_once_witness:
  "\<exists>t0 s0 t. sample_start = Some (Inr t0, s0) \<and> agent_reach sample_lib t0 t \<and> at_finished t \<and> \<not> at_interrupt t"
proof -
  obtain t0 s0 where t0: "sample_start = Some (Inr t0, s0)" "at_timer t0 = StepArmed" "\<not> at_finished t0" "\<not> at_aborted t0"
      "at_stream t0 = None" "\<not> at_freed t0"
    using sample_started by blast
  let ?t1 = "t0\<lparr>at_canceling := True\<rparr>"
  have "agent_turn_cancel sample_lib (sample_env True) True t0
      = (case at_exec t0 of Some w \<Rightarrow> ?t1\<lparr>at_exec := Some (tools_cancel True w)\<rparr> | None \<Rightarrow> ?t1)"
    using t0 by (simp add: agent_turn_cancel_def Let_def)
  then obtain w where c: "agent_turn_cancel sample_lib (sample_env True) True t0 = ?t1\<lparr>at_exec := w\<rparr>"
    by (cases "at_exec t0") (auto intro: that [of "at_exec t0"])
  let ?t2 = "step_timer_cb sample_lib (sample_env True) (?t1\<lparr>at_exec := w, at_timer := StepIdle\<rparr>)"
  have fin: "at_finished ?t2" using t0 by (simp add: step_timer_cb_def finish_turn_def)
  have "agent_reach sample_lib t0 (?t1\<lparr>at_exec := w\<rparr>)"
    by (rule turn_event [OF turn_started t0(4), of _ "(sample_env True, AEvCancel True)"]) (use t0(6) c in simp)
  then have reach: "agent_reach sample_lib t0 ?t2"
    by (rule turn_event [of _ _ _ "(sample_env True, AEvTimer)"]) (use t0 in simp_all)
  from agent_finishes_once [OF sample_parser_ok options_init_ok sample_session_ok
      t0(1) [unfolded sample_start_def] reach] t0(1) reach fin
  show ?thesis by blast
qed

theorem agent_conversation_answered_witness:
  "\<exists>t0 s0 t r ms. sample_start = Some (Inr t0, s0) \<and> agent_reach sample_lib t0 t \<and> r \<in> set (at_requests t) \<and> answered ms
     \<and> op_messages r = CArray (system_messages t0 @ [user_message (Some ''hi'')] @ ms)"
proof -
  obtain t0 s0 where t0: "sample_start = Some (Inr t0, s0)" "at_timer t0 = StepArmed" "\<not> at_aborted t0"
      "\<not> at_canceling t0" "\<not> at_cancel_requested t0" "at_requests t0 = []" "at_opts t0 = sample_opts"
      "ss_messages (at_session t0) = [user_message (Some ''hi'')]"
    using sample_started by blast
  obtain t1 r where t1: "agent_step sample_lib t0 (sample_env True, AEvTimer) = Some t1" "at_requests t1 = [r]"
    using sample_request [OF t0(2,4-8)] by blast
  have reach: "agent_reach sample_lib t0 t1" by (rule turn_event [OF turn_started t0(3) t1(1)])
  have "r \<in> set (at_requests t1)" using t1(2) by simp
  with agent_conversation_answered [OF sample_parser_ok options_init_ok sample_session_ok
      t0(1) [unfolded sample_start_def] reach] t0(1) reach
  show ?thesis by (simp add: sample_session_def) blast
qed

theorem agent_budgets_witness:
  "\<exists>t0 s0. sample_start = Some (Inr t0, s0) \<and> at_step_cap t0 \<in> {1..50} \<and> at_timer t0 = StepArmed"
proof -
  obtain t0 s0 where t0: "sample_start = Some (Inr t0, s0)" "at_timer t0 = StepArmed" using sample_started by blast
  with agent_budgets [OF sample_parser_ok options_init_ok sample_session_ok t0(1) [unfolded sample_start_def] turn_started]
  show ?thesis by blast
qed
end
