(* ===== verification/RepairProps.thy ===== *)
theory RepairProps
  imports AgentProps
begin

text \<open>
  Properties of the parts of \<open>agent.c\<close> outside the turn: \<open>agent_repair_session\<close>, which answers the
  calls an interrupted run left open, and the gate policies.
\<close>

section \<open>Repair\<close>

definition is_round :: "cjson \<Rightarrow> bool" where
  "is_round m \<longleftrightarrow> json_get_cstr m ''role'' = Some ''assistant'' \<and> calls_of m \<noteq> []"

lemma last_round_Suc:
  "last_tool_call_round ms (Suc k) =
     (if is_round (ms ! k) then Some (k, calls_of (ms ! k)) else last_tool_call_round ms k)"
  by (auto simp: is_round_def calls_of_def split: option.splits)

declare last_tool_call_round.simps(2) [simp del]

lemma last_round_Some:
  "last_tool_call_round ms n = Some (i, calls) \<longleftrightarrow>
   i < n \<and> is_round (ms ! i) \<and> calls = calls_of (ms ! i) \<and> (\<forall>j. i < j \<and> j < n \<longrightarrow> \<not> is_round (ms ! j))"
  by (induction n) (auto simp: last_round_Suc less_Suc_eq)

lemma last_round_None: "last_tool_call_round ms n = None \<longleftrightarrow> (\<forall>i < n. \<not> is_round (ms ! i))"
  by (induction n) (auto simp: last_round_Suc less_Suc_eq)

lemma call_answered_append: "call_answered ms n cid \<Longrightarrow> call_answered (ms @ added) n cid"
  by (auto simp: call_answered_def list_ex_iff)

lemma call_answered_new:
  assumes "json_get_cstr call ''id'' = Some i" "NUL \<notin> set i" "n \<le> length ms"
  shows "call_answered (ms @ [tool_message call content]) n (Some i)"
proof -
  have "cstr i = i" using assms(2) by (auto simp: cstr_def takeWhile_eq_all_conv)
  then show ?thesis
    using assms answers_tool_message [of call content] by (simp add: call_answered_def answers_def call_id_def)
qed

definition has_id :: "cjson \<Rightarrow> bool" where
  "has_id call \<longleftrightarrow> (\<exists>i. json_get_cstr call ''id'' = Some i \<and> NUL \<notin> set i)"

lemma repair_calls_ok:
  assumes "repair_calls lib os round calls sess = (None, sess')" "list_all has_id calls" "round < length (ss_messages sess)"
    and "ss_count sess = length (ss_messages sess)"
  shows "\<exists>added. ss_messages sess' = ss_messages sess @ added \<and> ss_count sess' = length (ss_messages sess')
    \<and> (\<forall>m \<in> set added. \<exists>call \<in> set calls. m = tool_message call ''[interrupted]''
         \<and> \<not> call_answered (ss_messages sess) (round + 1) (json_get_cstr call ''id''))
    \<and> (\<forall>call \<in> set calls. call_answered (ss_messages sess') (round + 1) (json_get_cstr call ''id''))"
  using assms
proof (induction lib os round calls sess arbitrary: sess' rule: repair_calls.induct)
  case (2 lib os round call calls sess)
  show ?case
  proof (cases "call_answered (ss_messages sess) (round + 1) (json_get_cstr call ''id'')")
    case True
    then show ?thesis using 2 call_answered_append by fastforce
  next
    case False
    obtain e s1 where app: "session_append (al_cprint lib) (os (ss_count sess)) sess (Some (tool_message call ''[interrupted]'')) = (e, s1)"
      by fastforce
    then have e: "e = None" and rec: "repair_calls lib os round calls s1 = (None, sess')"
      using 2(3) False by (auto split: option.splits)
    have s1: "ss_messages s1 = ss_messages sess @ [tool_message call ''[interrupted]'']" "ss_count s1 = length (ss_messages s1)"
      using session_append_messages [OF app] e 2(6) by simp_all
    obtain i where i: "json_get_cstr call ''id'' = Some i" "NUL \<notin> set i" using 2(4) by (auto simp: has_id_def)
    obtain added where "ss_messages sess' = ss_messages s1 @ added" "ss_count sess' = length (ss_messages sess')"
      and new: "\<forall>m \<in> set added. \<exists>call \<in> set calls. m = tool_message call ''[interrupted]''
         \<and> \<not> call_answered (ss_messages s1) (round + 1) (json_get_cstr call ''id'')"
      and rest: "\<forall>call \<in> set calls. call_answered (ss_messages sess') (round + 1) (json_get_cstr call ''id'')"
      using "2.IH"(2) [OF False app [unfolded e, symmetric] refl rec] 2(4,5) s1 by auto
    moreover have "\<forall>m \<in> set added. \<exists>call \<in> set calls. m = tool_message call ''[interrupted]''
         \<and> \<not> call_answered (ss_messages sess) (round + 1) (json_get_cstr call ''id'')"
      using new s1(1) call_answered_append by metis
    moreover have "call_answered (ss_messages s1 @ added) (round + 1) (Some i)"
      unfolding s1(1) by (intro call_answered_append call_answered_new [OF i]) (use 2(5) in simp)
    ultimately show ?thesis
      using s1(1) i(1) False by (intro exI [of _ "tool_message call ''[interrupted]'' # added"]) auto
  qed
qed auto

lemma repair_calls_noop:
  "\<forall>call \<in> set calls. call_answered (ss_messages sess) (round + 1) (json_get_cstr call ''id'') \<Longrightarrow>
   repair_calls lib os round calls sess = (None, sess)"
  by (induction calls) auto
text \<open>The last message with tool calls, and an answer of one of them: a tool message with its id.\<close>

definition last_round :: "cjson list \<Rightarrow> nat \<Rightarrow> bool" where
  "last_round ms i \<longleftrightarrow> i < length ms \<and> is_round (ms ! i) \<and> (\<forall>j. i < j \<and> j < length ms \<longrightarrow> \<not> is_round (ms ! j))"

definition tool_answer :: "cjson \<Rightarrow> cjson \<Rightarrow> bool" where
  "tool_answer m call \<longleftrightarrow> json_get_cstr m ''role'' = Some ''tool''
     \<and> (\<exists>i. json_get_cstr call ''id'' = Some i \<and> json_get_cstr m ''tool_call_id'' = Some i)"

lemma call_answered_iff:
  "call_answered ms (i + 1) (json_get_cstr call ''id'') \<longleftrightarrow> (\<exists>k. i < k \<and> k < length ms \<and> tool_answer (ms ! k) call)"
proof -
  have "call_answered ms (i + 1) (json_get_cstr call ''id'') \<longleftrightarrow> (\<exists>m \<in> set (drop (i + 1) ms). tool_answer m call)"
    by (cases "json_get_cstr call ''id''") (auto simp: call_answered_def list_ex_iff tool_answer_def)
  also have "\<dots> \<longleftrightarrow> (\<exists>k. i < k \<and> k < length ms \<and> tool_answer (ms ! k) call)"
  proof
    assume "\<exists>m \<in> set (drop (i + 1) ms). tool_answer m call"
    then obtain n where "n < length (drop (i + 1) ms)" "tool_answer (drop (i + 1) ms ! n) call"
      unfolding Bex_def in_set_conv_nth by blast
    then show "\<exists>k. i < k \<and> k < length ms \<and> tool_answer (ms ! k) call" by (intro exI [of _ "i + 1 + n"]) auto
  next
    assume "\<exists>k. i < k \<and> k < length ms \<and> tool_answer (ms ! k) call"
    then obtain k where k: "i < k" "k < length ms" "tool_answer (ms ! k) call" by blast
    then have "ms ! k \<in> set (drop (i + 1) ms)"
      unfolding in_set_conv_nth by (intro exI [of _ "k - (i + 1)"]) auto
    then show "\<exists>m \<in> set (drop (i + 1) ms). tool_answer m call" using k(3) by blast
  qed
  finally show ?thesis .
qed

lemma synthetic_answer:
  "has_id call \<Longrightarrow> tool_answer (tool_message call ''[interrupted]'') call
     \<and> json_get_cstr (tool_message call ''[interrupted]'') ''content'' = Some ''[interrupted]''"
proof -
  assume "has_id call"
  then obtain i where i: "json_get_cstr call ''id'' = Some i" "cstr i = i"
    by (auto simp: has_id_def cstr_def takeWhile_eq_all_conv)
  then show ?thesis
    by (simp add: tool_answer_def tool_message_def json_get_cstr_def json_add_cstr_def json_new_obj_def Let_def cstr_def)
qed

lemma last_round_unique: "last_round ms i \<Longrightarrow> last_round ms k \<Longrightarrow> k = i"
  unfolding last_round_def by (metis linorder_neqE_nat)

lemma last_round_found: "last_tool_call_round ms (length ms) = Some (i, calls) \<longleftrightarrow> last_round ms i \<and> calls = calls_of (ms ! i)"
  by (auto simp: last_round_Some last_round_def)

lemma last_round_append:
  "last_round ms i \<Longrightarrow> \<forall>m \<in> set added. \<not> is_round m \<Longrightarrow>
   last_tool_call_round (ms @ added) (length (ms @ added)) = Some (i, calls_of (ms ! i))"
  by (auto simp: last_round_Some last_round_def nth_append)

text \<open>C38. The repair of a resumed session in which every tool call has an id. When it succeeds, every call
  of the last round has an answer after it, a tool message with the id of the call; the only messages
  added are such answers, whose content is \<open>[interrupted]\<close>, at the end of the session, of calls that had none;
  and a second repair adds nothing.\<close>

theorem agent_repair_heals:
  assumes "agent_repair_session lib os sess = (None, sess')" "ss_count sess = length (ss_messages sess)"
    and "\<forall>m \<in> set (ss_messages sess). list_all has_id (calls_of m)"
  shows "(\<exists>added. ss_messages sess' = ss_messages sess @ added
        \<and> (\<forall>m \<in> set added. \<exists>i call. last_round (ss_messages sess) i \<and> call \<in> set (calls_of (ss_messages sess ! i))
             \<and> tool_answer m call \<and> json_get_cstr m ''content'' = Some ''[interrupted]''
             \<and> \<not> (\<exists>k. i < k \<and> k < length (ss_messages sess) \<and> tool_answer (ss_messages sess ! k) call)))
    \<and> (\<forall>i. last_round (ss_messages sess) i \<longrightarrow>
         (\<forall>call \<in> set (calls_of (ss_messages sess ! i)).
            \<exists>k. i < k \<and> k < length (ss_messages sess') \<and> tool_answer (ss_messages sess' ! k) call))
    \<and> agent_repair_session lib os2 sess' = (None, sess')"
proof (cases "last_tool_call_round (ss_messages sess) (ss_count sess)")
  case None
  then have same: "sess' = sess" "agent_repair_session lib os2 sess = (None, sess)"
    using assms(1) by (simp_all add: agent_repair_session_def session_message_count_def)
  moreover have "\<forall>i < length (ss_messages sess). \<not> is_round (ss_messages sess ! i)"
    using None assms(2) by (simp add: last_round_None)
  ultimately show ?thesis by (auto simp: last_round_def)
next
  case (Some r)
  obtain i calls where r: "r = (i, calls)" by fastforce
  have last: "last_round (ss_messages sess) i" "calls = calls_of (ss_messages sess ! i)"
    using Some r assms(2) by (simp_all add: last_round_found)
  have ids: "list_all has_id calls" using last assms(3) by (simp add: last_round_def)
  have run: "repair_calls lib os i calls sess = (None, sess')"
    using assms(1) Some r by (simp add: agent_repair_session_def session_message_count_def)
  obtain added where added: "ss_messages sess' = ss_messages sess @ added" "ss_count sess' = length (ss_messages sess')"
      "\<forall>m \<in> set added. \<exists>call \<in> set calls. m = tool_message call ''[interrupted]''
         \<and> \<not> call_answered (ss_messages sess) (i + 1) (json_get_cstr call ''id'')"
      "\<forall>call \<in> set calls. call_answered (ss_messages sess') (i + 1) (json_get_cstr call ''id'')"
    using repair_calls_ok [OF run ids _ assms(2)] last by (auto simp: last_round_def)
  have new: "\<exists>call \<in> set calls. tool_answer m call \<and> json_get_cstr m ''content'' = Some ''[interrupted]''
      \<and> \<not> (\<exists>k. i < k \<and> k < length (ss_messages sess) \<and> tool_answer (ss_messages sess ! k) call)" if "m \<in> set added" for m
    using added(3) that ids synthetic_answer unfolding call_answered_iff list_all_iff by metis
  have "\<not> is_round m" if "m \<in> set added" for m using new [OF that] by (auto simp: tool_answer_def is_round_def)
  then have "last_tool_call_round (ss_messages sess') (ss_count sess') = Some (i, calls)"
    using last_round_append [OF last(1)] added(1,2) last(2) by simp
  then have again: "agent_repair_session lib os2 sess' = (None, sess')"
    using repair_calls_noop [OF added(4)] by (simp add: agent_repair_session_def session_message_count_def)
  show ?thesis
  proof (intro conjI exI [of _ added] ballI allI impI)
    fix m assume "m \<in> set added"
    from new [OF this] show "\<exists>i call. last_round (ss_messages sess) i \<and> call \<in> set (calls_of (ss_messages sess ! i))
        \<and> tool_answer m call \<and> json_get_cstr m ''content'' = Some ''[interrupted]''
        \<and> \<not> (\<exists>k. i < k \<and> k < length (ss_messages sess) \<and> tool_answer (ss_messages sess ! k) call)"
      using last by blast
  next
    fix k call assume "last_round (ss_messages sess) k" "call \<in> set (calls_of (ss_messages sess ! k))"
    then show "\<exists>n. k < n \<and> n < length (ss_messages sess') \<and> tool_answer (ss_messages sess' ! n) call"
      using last_round_unique [OF last(1)] last(2) added(4) unfolding call_answered_iff by blast
  qed (rule added(1), rule again)
qed

text \<open>A session cut off after an assistant message with one call.\<close>

definition sample_call :: cjson where
  "sample_call = CObject [(''id'', CString ''c1'')]"

definition sample_cut :: session_state where
  "sample_cut = sample_session\<lparr>ss_messages := [CObject [(''role'', CString ''assistant''), (''tool_calls'', CArray [sample_call])]],
     ss_count := 1\<rparr>"

theorem agent_repair_heals_witness:
  "\<exists>sess' k. agent_repair_session sample_lib (\<lambda>_ _ n. Wrote n) sample_cut = (None, sess')
     \<and> 0 < k \<and> k < length (ss_messages sess') \<and> tool_answer (ss_messages sess' ! k) sample_call"
proof -
  let ?os = "\<lambda>_ _ n. Wrote n"
  have tries: "0 < n \<Longrightarrow> write_tries (\<lambda>_ n. Wrote n) nbytes i n res = Wrote nbytes" for n nbytes i res
    by (cases n) auto
  obtain sess' where run: "agent_repair_session sample_lib ?os sample_cut = (None, sess')"
    by (simp add: agent_repair_session_def session_message_count_def sample_cut_def sample_session_def last_round_Suc is_round_def
        calls_of_def json_get_cstr_def json_get_arr_def sample_call_def call_answered_def session_append_def tool_message_def
        Let_def json_add_cstr_def json_new_obj_def MUA_SESSION_MAX_MESSAGES_def MUA_SESSION_MAX_LINE_def json_print_def
        sample_lib_def write_line_def tries kSessionEintrMax_def)
  have cut: "last_round (ss_messages sample_cut) 0" "calls_of (ss_messages sample_cut ! 0) = [sample_call]"
      "ss_count sample_cut = length (ss_messages sample_cut)" "\<forall>m \<in> set (ss_messages sample_cut). list_all has_id (calls_of m)"
    by (auto simp: sample_cut_def last_round_def is_round_def calls_of_def json_get_cstr_def json_get_arr_def sample_call_def
        has_id_def)
  have "\<forall>i. last_round (ss_messages sample_cut) i \<longrightarrow> (\<forall>call \<in> set (calls_of (ss_messages sample_cut ! i)).
      \<exists>k. i < k \<and> k < length (ss_messages sess') \<and> tool_answer (ss_messages sess' ! k) call)"
    by (rule agent_repair_heals [OF run cut(3,4), THEN conjunct2, THEN conjunct1])
  then have "\<exists>k. 0 < k \<and> k < length (ss_messages sess') \<and> tool_answer (ss_messages sess' ! k) sample_call"
    using cut(1,2) by simp
  then show ?thesis using run by blast
qed

section \<open>Gates\<close>

lemma gate_drain_line_break:
  "LF \<notin> set l \<Longrightarrow> length l < n \<Longrightarrow> gate_drain n (l @ LF # rest) = rest"
proof (induction n arbitrary: l)
  case (Suc n)
  then show ?case by (cases l) auto
qed simp

text \<open>Only a line that begins with y or Y lets a mutating tool through, and the next prompt reads the
  next line of the input, however long the answer was (up to the drain bound).\<close>

lemma gate_interactive_answer:
  assumes "td_mutating tool" "LF \<notin> set l" "NUL \<notin> set l" "length l < kAgentGateDrainMax"
  shows "\<exists>refusal prompt. agent_gate_interactive cprint False (l @ LF # rest) tool args =
    (if l \<noteq> [] \<and> (hd l = CHR ''y'' \<or> hd l = CHR ''Y'') then kGateApprove else kGateRefuse, refusal, prompt, rest)"
proof -
  have line: "memchr LF (l @ LF # rest) = Some (length l)"
    using assms(2) by (induction l) auto
  show ?thesis
  proof (cases "length l + 1 \<le> kAgentGateLine - 1")
    case True
    have nul: "cstr (l @ [LF]) = l @ [LF]" using assms(3) by (auto simp: cstr_def takeWhile_eq_all_conv)
    have "fgets kAgentGateLine (l @ LF # rest) = Some (l @ [LF], rest)"
      using True line by (simp add: fgets_def Let_def min_absorb1)
    then show ?thesis using assms(1) nul by (cases l) (auto simp: agent_gate_interactive_def Let_def)
  next
    case False
    let ?n = "kAgentGateLine - 1"
    have n: "?n \<le> length l" "0 < ?n" using False by (simp_all add: kAgentGateLine_def)
    have "fgets kAgentGateLine (l @ LF # rest) = Some (take ?n l, drop ?n l @ LF # rest)"
      using n line by (simp add: fgets_def Let_def min_absorb2)
    moreover have "cstr (take ?n l) = take ?n l"
      using assms(3) by (auto simp: cstr_def takeWhile_eq_all_conv dest: in_set_takeD)
    moreover have "gate_drain_line (drop ?n l @ LF # rest) = rest"
      unfolding gate_drain_line_def
      by (rule gate_drain_line_break) (use assms(2,4) in \<open>auto dest: in_set_dropD\<close>)
    moreover have "LF \<notin> set (take ?n l)" "take ?n l \<noteq> []" "hd (take ?n l) = hd l" "l \<noteq> []"
      using assms(2) n by (auto dest: in_set_takeD)
    ultimately show ?thesis using assms(1) by (simp add: agent_gate_interactive_def Let_def)
  qed
qed

end
