(* ===== verification/Variables.thy ===== *)
theory Variables
  imports Store
begin

text \<open>
  \<open>variables.c\<close>: the global variables behind \<open>mua.g\<close>, a dense array of entries with
  linear lookup. The array is the list of its live entries. \<open>None\<close> results are failed
  assertions of the deep copy.
\<close>

type_synonym vars = "(mstring \<times> object) list"

definition MUA_VAR_MAX :: nat where "MUA_VAR_MAX = 1024"

section \<open>Operations\<close>

fun var_index_from :: "vars \<Rightarrow> nat \<Rightarrow> mstring \<Rightarrow> nat option" where
  "var_index_from [] i name = None"
| "var_index_from ((k, v) # vs) i name =
     (if str_size k = str_size name \<and> name \<noteq> None \<and> str_bytes k = str_bytes name then Some i
      else var_index_from vs (i + 1) name)"

definition var_index :: "vars \<Rightarrow> mstring \<Rightarrow> nat option" where
  "var_index vs name = var_index_from vs 0 name"

definition remove_entry :: "vars \<Rightarrow> nat \<Rightarrow> vars" where
  "remove_entry vs idx =
     (let last_i = length vs - 1;
          vs = (if idx \<noteq> last_i then vs[idx := vs ! last_i] else vs)
      in take last_i vs)"

definition variables_set :: "vars \<Rightarrow> mstring \<Rightarrow> object \<Rightarrow> (error option \<times> vars) option" where
  "variables_set vs name v =
     (if v = ONil
      then (case var_index vs name of
              Some idx \<Rightarrow> Some (None, remove_entry vs idx)
            | None \<Rightarrow> Some (None, vs))
      else (case var_index vs name of
              Some idx \<Rightarrow>
                (case api_copy_object (Some v) of
                   None \<Rightarrow> None
                 | Some copy \<Rightarrow> Some (None, vs[idx := (fst (vs ! idx), copy)]))
            | None \<Rightarrow>
                if length vs = MUA_VAR_MAX
                then Some (Some (kErrorTypeValidation, ''too many variables (max '' @ show_nat MUA_VAR_MAX @ '')''), vs)
                else (case api_copy_object (Some v) of
                        None \<Rightarrow> None
                      | Some copy \<Rightarrow> Some (None, vs @ [(api_string_dup name, copy)]))))"

definition variables_get :: "vars \<Rightarrow> mstring \<Rightarrow> object option" where
  "variables_get vs name =
     (case var_index vs name of
        None \<Rightarrow> Some ONil
      | Some idx \<Rightarrow> api_copy_object (Some (snd (vs ! idx))))"

function variables_free :: "vars \<Rightarrow> vars" where
  "variables_free vs = (if vs = [] then [] else variables_free (remove_entry vs (length vs - 1)))"
  by auto
termination by (relation "measure length") (auto simp: remove_entry_def Let_def)

declare variables_free.simps [simp del]

section \<open>Invariant\<close>

text \<open>Keys are distinct strings, no value is Nil or too deep, the array is within bounds.\<close>

definition vars_ok :: "vars \<Rightarrow> bool" where
  "vars_ok vs \<longleftrightarrow> distinct (map fst vs) \<and> None \<notin> set (map fst vs) \<and> length vs \<le> MUA_VAR_MAX
     \<and> (\<forall>(k, v) \<in> set vs. v \<noteq> ONil \<and> obj_depth v \<le> kMarshalDepthCap)"

lemma vars_empty_ok: "vars_ok []"
  by (simp add: vars_ok_def)

lemma mstring_eq: "name \<noteq> None \<Longrightarrow> k \<noteq> None \<Longrightarrow> str_bytes k = str_bytes name \<longleftrightarrow> k = name"
  by auto

lemma var_index_from_Some:
  "var_index_from vs i name = Some j \<Longrightarrow>
   i \<le> j \<and> j < i + length vs \<and> name \<noteq> None \<and> str_bytes (fst (vs ! (j - i))) = str_bytes name"
  by (induction vs i name rule: var_index_from.induct) (force split: if_splits simp: nth_Cons')+

lemma var_index_from_None:
  "name \<noteq> None \<Longrightarrow> var_index_from vs i name = None \<longleftrightarrow> (\<forall>(k, v) \<in> set vs. str_bytes k \<noteq> str_bytes name)"
  by (induction vs i name rule: var_index_from.induct) (auto simp: str_size_def)

lemma var_index_Some:
  assumes "vars_ok vs" "var_index vs name = Some j"
  shows "j < length vs" "fst (vs ! j) = name"
proof -
  have j: "j < length vs" "name \<noteq> None" "str_bytes (fst (vs ! j)) = str_bytes name"
    using var_index_from_Some [of vs 0 name j] assms(2) by (simp_all add: var_index_def)
  then show "j < length vs" by simp
  have "fst (vs ! j) \<in> set (map fst vs)" using j(1) by simp
  then have "fst (vs ! j) \<noteq> None" using assms(1) unfolding vars_ok_def by metis
  then show "fst (vs ! j) = name" using j mstring_eq by blast
qed

lemma var_index_None:
  assumes "vars_ok vs" "name \<noteq> None"
  shows "var_index vs name = None \<longleftrightarrow> name \<notin> fst ` set vs"
proof -
  have "str_bytes k = str_bytes name \<longleftrightarrow> k = name" if "(k, v) \<in> set vs" for k v
  proof (rule mstring_eq [OF assms(2)])
    from that have "k \<in> set (map fst vs)" by force
    then show "k \<noteq> None" using assms(1) unfolding vars_ok_def by metis
  qed
  then have "(\<forall>(k, v) \<in> set vs. str_bytes k \<noteq> str_bytes name) \<longleftrightarrow> name \<notin> fst ` set vs" by force
  then show ?thesis using var_index_from_None [OF assms(2)] by (simp add: var_index_def)
qed

section \<open>What the store holds\<close>

definition vars_map :: "vars \<Rightarrow> mstring \<Rightarrow> object" where
  "vars_map vs name = (case map_of vs name of Some v \<Rightarrow> v | None \<Rightarrow> ONil)"

lemma variables_get_map:
  assumes "vars_ok vs" "name \<noteq> None"
  shows "variables_get vs name = Some (vars_map vs name)"
proof (cases "var_index vs name")
  case None
  then have "map_of vs name = None" using var_index_None [OF assms] by (simp add: map_of_eq_None_iff)
  then show ?thesis using None by (simp add: variables_get_def vars_map_def)
next
  case (Some j)
  note j = var_index_Some [OF assms(1) Some]
  have "(name, snd (vs ! j)) \<in> set vs" using nth_mem [OF j(1)] j(2) by (metis prod.collapse)
  then have "map_of vs name = Some (snd (vs ! j))" using assms(1) by (simp add: vars_ok_def)
  moreover have "obj_depth (snd (vs ! j)) \<le> kMarshalDepthCap"
    using assms(1) nth_mem [OF j(1)] by (auto simp: vars_ok_def)
  ultimately show ?thesis using Some by (simp add: variables_get_def vars_map_def api_copy_object_eq)
qed

lemma remove_entry_props:
  assumes "j < length vs" "distinct (map fst vs)"
  shows "set (remove_entry vs j) = set vs - {vs ! j}" "distinct (map fst (remove_entry vs j))"
    "length (remove_entry vs j) = length vs - 1"
proof -
  obtain ys y where vs: "vs = ys @ [y]" using assms(1) by (cases vs rule: rev_cases) auto
  have r: "remove_entry vs j = (if j = length ys then ys else ys[j := y])"
    using assms(1) by (simp add: remove_entry_def vs Let_def list_update_append)
  have d: "distinct (map fst ys)" "fst y \<notin> fst ` set ys" using assms(2) by (simp_all add: vs)
  then have dy: "distinct ys" "y \<notin> set ys" by (auto simp: distinct_map)
  have up: "set (ys[j := y]) = insert y (set ys - {ys ! j})" if "j < length ys"
    using that dy by (simp add: set_update_distinct)
  show "set (remove_entry vs j) = set vs - {vs ! j}"
  proof (cases "j = length ys")
    case True
    then show ?thesis unfolding r using dy by (simp add: vs)
  next
    case False
    then have j: "j < length ys" using assms(1) by (simp add: vs)
    then have "ys ! j \<noteq> y" using dy by (metis nth_mem)
    then show ?thesis unfolding r if_not_P [OF False] up [OF j] using j dy by (auto simp: vs nth_append)
  qed
  show "length (remove_entry vs j) = length vs - 1" unfolding r by (simp add: vs)
  have "distinct (map fst (ys[j := y]))"
    unfolding map_update by (rule distinct_list_update) (use d in auto)
  then show "distinct (map fst (remove_entry vs j))" using d by (simp add: r)
qed

lemma map_of_charI:
  assumes "distinct (map fst xs)" "\<And>k w. (k, w) \<in> set xs \<longleftrightarrow> m k = Some w"
  shows "map_of xs = m"
proof
  fix k
  show "map_of xs k = m k" using map_of_eq_Some_iff [OF assms(1)] assms(2) by (cases "m k") (metis not_Some_eq)+
qed

definition variables_put :: "vars \<Rightarrow> mstring \<Rightarrow> object \<Rightarrow> vars option" where
  "variables_put vs name v = (case variables_set vs name v of Some (None, vs') \<Rightarrow> Some vs' | _ \<Rightarrow> None)"

lemma api_copy_Some: "api_copy_object (Some v) = Some c \<longleftrightarrow> obj_depth v \<le> kMarshalDepthCap \<and> c = v"
  by (auto simp: api_copy_object_eq)

lemma variables_putE:
  assumes "variables_put vs name v = Some vs'"
  obtains (remove) j where "v = ONil" "var_index vs name = Some j" "vs' = remove_entry vs j"
  | (absent) "v = ONil" "var_index vs name = None" "vs' = vs"
  | (update) j where "v \<noteq> ONil" "var_index vs name = Some j" "vs' = vs[j := (fst (vs ! j), v)]"
      "obj_depth v \<le> kMarshalDepthCap"
  | (insert) "v \<noteq> ONil" "var_index vs name = None" "vs' = vs @ [(name, v)]" "length vs \<noteq> MUA_VAR_MAX"
      "obj_depth v \<le> kMarshalDepthCap"
proof (cases "v = ONil")
  case True
  then have *: "vs' = (case var_index vs name of None \<Rightarrow> vs | Some j \<Rightarrow> remove_entry vs j)"
    using assms by (cases "var_index vs name") (simp_all add: variables_put_def variables_set_def)
  show thesis
  proof (cases "var_index vs name")
    case None
    then show thesis using absent [OF True None] * by simp
  next
    case (Some j)
    then show thesis using remove [OF True Some] * by simp
  qed
next
  case False
  with assms have *: "(case var_index vs name of
      Some j \<Rightarrow> obj_depth v \<le> kMarshalDepthCap \<and> vs' = vs[j := (fst (vs ! j), v)]
    | None \<Rightarrow> length vs \<noteq> MUA_VAR_MAX \<and> obj_depth v \<le> kMarshalDepthCap \<and> vs' = vs @ [(name, v)])"
    by (auto simp: variables_put_def variables_set_def api_copy_object_eq split: option.splits if_splits)
  show thesis
  proof (cases "var_index vs name")
    case None
    then show thesis using * False insert by simp
  next
    case (Some j)
    then show thesis using * False update by simp
  qed
qed

lemma distinct_update_same_key: "map fst (vs[j := (fst (vs ! j), v)]) = map fst vs"
  by (cases "j < length vs") (simp_all add: map_update list_update_same_conv list_update_beyond not_less)

lemma variables_put_spec:
  assumes "vars_ok vs" "name \<noteq> None" "variables_put vs name v = Some vs'"
  shows "vars_ok vs' \<and> vars_map vs' = (vars_map vs)(name := v)"
  using assms(3)
proof (cases rule: variables_putE)
  case (remove j)
  note j = var_index_Some [OF assms(1) remove(2)]
  note r = remove_entry_props [OF j(1)]
  have d: "distinct (map fst vs)" using assms(1) by (simp add: vars_ok_def)
  obtain w0 where w0: "vs ! j = (name, w0)" using j(2) by (metis prod.collapse)
  then have mem: "(name, w0) \<in> set vs" using nth_mem [OF j(1)] by simp
  have "map_of vs' = (map_of vs)(name := None)"
  proof (rule map_of_charI)
    show "distinct (map fst vs')" using r(2) [OF d] remove(3) by simp
    fix k w
    have "(k, w) \<in> set vs \<and> (k, w) \<noteq> vs ! j \<longleftrightarrow> (k, w) \<in> set vs \<and> k \<noteq> name"
      using eq_key_imp_eq_value [OF d mem] by (auto simp: w0)
    then show "(k, w) \<in> set vs' \<longleftrightarrow> ((map_of vs)(name := None)) k = Some w"
      using r(1) [OF d] remove(3) map_of_eq_Some_iff [OF d, of k w] by auto
  qed
  moreover have "vars_ok vs'"
    using assms(1) r(1,2) [OF d] r(3) [OF d] remove(3) by (auto simp: vars_ok_def)
  ultimately show ?thesis using remove(1) by (auto simp: vars_map_def)
next
  case absent
  have "map_of vs name = None" using absent(2) var_index_None [OF assms(1,2)] by (simp add: map_of_eq_None_iff)
  then show ?thesis using absent assms(1) by (auto simp: vars_map_def)
next
  case (update j)
  note j = var_index_Some [OF assms(1) update(2)]
  have d: "distinct (map fst vs)" using assms(1) by (simp add: vars_ok_def)
  have vs': "vs' = vs[j := (name, v)]" using update(3) j(2) by simp
  have dist: "distinct vs" using d by (simp add: distinct_map)
  have keys: "map fst vs' = map fst vs" using update(3) distinct_update_same_key by simp
  obtain w0 where w0: "vs ! j = (name, w0)" using j(2) by (metis prod.collapse)
  then have mem: "(name, w0) \<in> set vs" using nth_mem [OF j(1)] by simp
  have sets: "set vs' = insert (name, v) (set vs - {vs ! j})"
    unfolding vs' by (rule set_update_distinct [OF dist j(1)])
  have m: "map_of vs' = (map_of vs)(name \<mapsto> v)"
  proof (rule map_of_charI)
    show "distinct (map fst vs')" using d keys by simp
    fix k w
    have "(k, w) \<in> set vs \<and> (k, w) \<noteq> vs ! j \<longleftrightarrow> (k, w) \<in> set vs \<and> k \<noteq> name"
      using eq_key_imp_eq_value [OF d mem] by (auto simp: w0)
    then show "(k, w) \<in> set vs' \<longleftrightarrow> ((map_of vs)(name \<mapsto> v)) k = Some w"
      using map_of_eq_Some_iff [OF d, of k w] by (auto simp: sets)
  qed
  have "vars_ok vs'"
    using assms(1) update(1,4) keys sets by (auto simp: vars_ok_def dest: map_eq_imp_length_eq)
  then show ?thesis using m by (auto simp: vars_map_def)
next
  case insert
  have n: "name \<notin> fst ` set vs" using insert(2) var_index_None [OF assms(1,2)] by simp
  have d: "distinct (map fst vs)" using assms(1) by (simp add: vars_ok_def)
  have "map_of vs' = (map_of vs)(name \<mapsto> v)"
  proof (rule map_of_charI)
    show "distinct (map fst vs')" using d n insert(3) by simp
    fix k w
    have "(k, w) \<in> set vs \<longrightarrow> k \<noteq> name" using n by force
    then show "(k, w) \<in> set vs' \<longleftrightarrow> ((map_of vs)(name \<mapsto> v)) k = Some w"
      using map_of_eq_Some_iff [OF d, of k w] insert(3) by auto
  qed
  moreover have "vars_ok vs'" using assms insert n by (auto simp: vars_ok_def)
  ultimately show ?thesis by (auto simp: vars_map_def)
qed

interpretation vars: kv_store vars_ok "\<lambda>name. name \<noteq> None" vars_map variables_put
proof unfold_locales
  fix s s' k v
  assume a: "vars_ok s" "k \<noteq> None" "variables_put s k v = Some s'"
  note * = variables_put_spec [OF a]
  show "vars_ok s'" "vars_map s' k = v" using * by simp_all
  fix k' assume "k' \<noteq> k"
  then show "vars_map s' k' = vars_map s k'" using * by simp
qed

section \<open>Properties\<close>

text \<open>The variables behave as a map for every name that is not a NULL pointer: after any
  run of \<open>variables_set\<close> calls from the empty store, \<open>variables_get\<close> returns the value of
  the last accepted call for that name (Nil after a deletion or when there was none), and the
  store keeps distinct keys, at most \<open>MUA_VAR_MAX\<close> entries and no Nil entry.\<close>

theorem variables_last_write:
  assumes "name \<noteq> None" "\<forall>(k, v) \<in> set ws. k \<noteq> None" "vars.writes [] ws = (vs, acc)"
  shows "variables_get vs name = Some (case map_of (rev acc) name of Some v \<Rightarrow> v | None \<Rightarrow> ONil)
    \<and> vars_ok vs"
proof -
  have ok: "vars_ok vs" using vars.writes_ok [OF vars_empty_ok assms(2)] assms(3) by simp
  have "vars_map vs name = (case map_of (rev acc) name of Some v \<Rightarrow> v | None \<Rightarrow> vars_map [] name)"
    by (rule vars.writes_last [OF vars_empty_ok assms])
  moreover have "vars_map [] name = ONil" by (simp add: vars_map_def)
  ultimately show ?thesis using variables_get_map [OF ok assms(1)] ok by (simp split: option.split)
qed

definition sample_writes :: "(mstring \<times> object) list" where
  "sample_writes = [(Some ''a'', OInteger 1), (Some ''b'', OBoolean True), (Some ''a'', OInteger 2), (Some ''b'', ONil)]"

lemma sample_writes_run:
  "vars.writes [] sample_writes = ([(Some ''a'', OInteger 2)], sample_writes)"
  by (simp add: sample_writes_def variables_put_def variables_set_def var_index_def remove_entry_def
      MUA_VAR_MAX_def api_copy_object_eq Let_def)

theorem variables_last_write_witness:
  "variables_get [(Some ''a'', OInteger 2)] (Some ''b'') = Some ONil \<and> vars_ok [(Some ''a'', OInteger 2)]"
  using variables_last_write [of "Some ''b''" sample_writes, OF _ _ sample_writes_run]
  by (simp add: sample_writes_def)

text \<open>A name whose data pointer is NULL (the empty string as the RPC decoder delivers it)
  is never found again: each accepted \<open>variables_set\<close> under it appends one more entry and
  \<open>variables_get\<close> still answers Nil.\<close>

theorem variables_null_name_lost:
  assumes "variables_set vs None v = Some (None, vs')" "v \<noteq> ONil"
  shows "length vs' = length vs + 1 \<and> variables_get vs' None = Some ONil"
proof -
  have idx: "var_index us None = None" for us
    using var_index_from_Some [of us 0 None] by (cases "var_index us None") (auto simp: var_index_def)
  show ?thesis
    using assms by (auto simp: variables_set_def variables_get_def idx split: if_splits option.splits)
qed

theorem variables_null_name_lost_witness:
  "\<exists>vs. variables_set [(None, OInteger 1)] None (OInteger 2) = Some (None, vs)
     \<and> length vs = 2 \<and> variables_get vs None = Some ONil"
proof -
  let ?vs = "[(None, OInteger 1), (None, OInteger 2)] :: vars"
  have "variables_set [(None, OInteger 1)] None (OInteger 2) = Some (None, ?vs)"
    by (simp add: variables_set_def var_index_def MUA_VAR_MAX_def api_copy_object_eq)
  from variables_null_name_lost [OF this] this show ?thesis by auto
qed

end
