(* ===== verification/Api.thy ===== *)
theory Api
  imports Options Variables Autocmd Registry Session
begin

text \<open>
  The public API (\<open>api/global.c\<close>, \<open>api/session.c\<close>), its dispatch table (\<open>api/dispatch.c\<close>) and the
  registry of the current session at the end of \<open>session.c\<close>. The stores behind it are those of the
  theories \<open>Options\<close>, \<open>Variables\<close>, \<open>Registry\<close>, \<open>Autocmd\<close> and \<open>Session\<close>, gathered in one record of
  the process's global state. An outer \<open>None\<close> is a failed assertion.
\<close>

record mua_state =
  ms_options :: options
  ms_vars :: vars
  ms_tools :: tool_table
  ms_autocmds :: autocmds
  ms_session :: "session_state option"

section \<open>The current session\<close>

definition session_set_current :: "session_state option \<Rightarrow> mua_state \<Rightarrow> mua_state" where
  "session_set_current sess m = m\<lparr>ms_session := sess\<rparr>"

text \<open>A \<open>Session\<close> handle is a 32-bit integer.\<close>

definition session_resolve :: "mua_state \<Rightarrow> int \<Rightarrow> error + session_state" where
  "session_resolve m handle =
     (if handle \<noteq> 0 then Inl (kErrorTypeValidation, ''unknown session handle: '' @ show_int handle)
      else (case ms_session m of
              None \<Rightarrow> Inl (kErrorTypeValidation, ''no current session'')
            | Some s \<Rightarrow> Inr s))"

section \<open>API functions\<close>

definition mua_set_option :: "mstring \<Rightarrow> object \<Rightarrow> mua_state \<Rightarrow> (error option \<times> mua_state) option" where
  "mua_set_option name v m =
     map_option (\<lambda>(err, opts). (err, m\<lparr>ms_options := opts\<rparr>)) (options_set (ms_options m) name v)"

definition mua_get_option :: "mstring \<Rightarrow> mua_state \<Rightarrow> (error option \<times> object) option" where
  "mua_get_option name m = options_get (ms_options m) name"

definition mua_set_var :: "mstring \<Rightarrow> object \<Rightarrow> mua_state \<Rightarrow> (error option \<times> mua_state) option" where
  "mua_set_var name v m =
     map_option (\<lambda>(err, vs). (err, m\<lparr>ms_vars := vs\<rparr>)) (variables_set (ms_vars m) name v)"

definition mua_get_var :: "mstring \<Rightarrow> mua_state \<Rightarrow> object option" where
  "mua_get_var name m = variables_get (ms_vars m) name"

definition mua_register_tool ::
    "mstring \<Rightarrow> mstring \<Rightarrow> object \<Rightarrow> bool \<Rightarrow> lua_ref \<Rightarrow> mua_state \<Rightarrow> (error option \<times> mua_state) option" where
  "mua_register_tool name description schema mutating callback m =
     (let schema_json =
            (case schema of
               ONil \<Rightarrow> Some (Some (json_add (json_add_cstr json_new_obj ''type'' ''object'') ''properties'' json_new_obj))
             | ODict kvs \<Rightarrow> map_option Some (object_to_cjson (Some schema))
             | _ \<Rightarrow> Some None)
      in case schema_json of
           None \<Rightarrow> None
         | Some None \<Rightarrow> Some (Some (kErrorTypeValidation, ''tool schema must be a table''), m)
         | Some (Some node) \<Rightarrow>
             (case tools_register (ms_tools m) name description node mutating callback of
                (err, tools) \<Rightarrow> Some (err, m\<lparr>ms_tools := tools\<rparr>)))"

definition mua_create_autocmd :: "mstring \<Rightarrow> lua_ref \<Rightarrow> mua_state \<Rightarrow> error option \<times> int \<times> mua_state" where
  "mua_create_autocmd event callback m =
     (case autocmd_event_from_name event of
        None \<Rightarrow> (Some (kErrorTypeValidation, ''unknown autocmd event: '' @ cstr (str_bytes event)), 0, m)
      | Some ev \<Rightarrow>
          (case autocmd_create (ms_autocmds m) ev callback of
             (err, i, acs) \<Rightarrow> (err, i, m\<lparr>ms_autocmds := acs\<rparr>)))"

definition mua_clear_autocmds :: "mua_state \<Rightarrow> lua_ref list \<times> mua_state" where
  "mua_clear_autocmds m =
     (case autocmd_clear (ms_autocmds m) of (released, acs) \<Rightarrow> (released, m\<lparr>ms_autocmds := acs\<rparr>))"

definition mua_sess_get_messages :: "int \<Rightarrow> mua_state \<Rightarrow> (error + object list) option" where
  "mua_sess_get_messages handle m =
     (case session_resolve m handle of
        Inl e \<Rightarrow> Some (Inl e)
      | Inr state \<Rightarrow>
          (case cjson_to_object (session_messages state) of
             None \<Rightarrow> None
           | Some (Inl e) \<Rightarrow> Some (Inl e)
           | Some (Inr (OArray items)) \<Rightarrow> Some (Inr items)
           | Some (Inr _) \<Rightarrow> None))"

definition mua_sess_get_id :: "int \<Rightarrow> mua_state \<Rightarrow> error + mstring" where
  "mua_sess_get_id handle m =
     (case session_resolve m handle of
        Inl e \<Rightarrow> Inl e
      | Inr state \<Rightarrow> Inr (cstr_to_string (Some (ss_id state))))"

section \<open>Dispatch\<close>

text \<open>A wrapper gives the error, the result (\<open>NIL\<close> on error) and the new state.\<close>

type_synonym api_fn = "object list \<Rightarrow> mua_state \<Rightarrow> (error option \<times> object \<times> mua_state) option"

definition usage_error :: "string \<Rightarrow> mua_state \<Rightarrow> (error option \<times> object \<times> mua_state) option" where
  "usage_error msg m = Some (Some (kErrorTypeValidation, msg), ONil, m)"

definition dispatch_set_option :: api_fn where
  "dispatch_set_option args m =
     (case args of
        [OString name, v] \<Rightarrow> map_option (\<lambda>(err, m). (err, ONil, m)) (mua_set_option name v m)
      | _ \<Rightarrow> usage_error ''mua_set_option expects (string name, value)'' m)"

definition dispatch_get_option :: api_fn where
  "dispatch_get_option args m =
     (case args of
        [OString name] \<Rightarrow> map_option (\<lambda>(err, v). (err, v, m)) (mua_get_option name m)
      | _ \<Rightarrow> usage_error ''mua_get_option expects (string name)'' m)"

definition dispatch_set_var :: api_fn where
  "dispatch_set_var args m =
     (case args of
        [OString name, v] \<Rightarrow> map_option (\<lambda>(err, m). (err, ONil, m)) (mua_set_var name v m)
      | _ \<Rightarrow> usage_error ''mua_set_var expects (string name, value)'' m)"

definition dispatch_get_var :: api_fn where
  "dispatch_get_var args m =
     (case args of
        [OString name] \<Rightarrow> map_option (\<lambda>v. (None, v, m)) (mua_get_var name m)
      | _ \<Rightarrow> usage_error ''mua_get_var expects (string name)'' m)"

text \<open>The cast to \<open>Session\<close> keeps the low 32 bits.\<close>

definition sess_handle :: "object list \<Rightarrow> error + int" where
  "sess_handle args =
     (case args of
        [] \<Rightarrow> Inr 0
      | [OInteger i] \<Rightarrow> Inr (sint (ucast i :: 32 word))
      | _ \<Rightarrow> Inl (kErrorTypeValidation, ''expects an optional integer session handle''))"

definition dispatch_sess_get_messages :: api_fn where
  "dispatch_sess_get_messages args m =
     (case sess_handle args of
        Inl e \<Rightarrow> Some (Some e, ONil, m)
      | Inr handle \<Rightarrow>
          (case mua_sess_get_messages handle m of
             None \<Rightarrow> None
           | Some (Inl e) \<Rightarrow> Some (Some e, ONil, m)
           | Some (Inr messages) \<Rightarrow> Some (None, OArray messages, m)))"

definition dispatch_sess_get_id :: api_fn where
  "dispatch_sess_get_id args m =
     (case sess_handle args of
        Inl e \<Rightarrow> Some (Some e, ONil, m)
      | Inr handle \<Rightarrow>
          (case mua_sess_get_id handle m of
             Inl e \<Rightarrow> Some (Some e, ONil, m)
           | Inr s \<Rightarrow> Some (None, OString s, m)))"

definition g_api_table :: "(string \<times> api_fn) list" where
  "g_api_table =
     [(''mua_set_option'', dispatch_set_option), (''mua_get_option'', dispatch_get_option),
      (''mua_set_var'', dispatch_set_var), (''mua_get_var'', dispatch_get_var),
      (''mua_sess_get_messages'', dispatch_sess_get_messages), (''mua_sess_get_id'', dispatch_sess_get_id)]"

definition api_dispatch_find :: "mstring \<Rightarrow> api_fn option" where
  "api_dispatch_find name = map_of g_api_table (str_bytes name)"

end
