(* ===== verification/Msgpack.thy ===== *)
theory Msgpack
  imports Objects
begin

text \<open>
  \<open>msgpack.c\<close>: the wire form of Objects. The encoder appends to a growable buffer through
  the stack walk; the decoder reads one value from a byte buffer that may end early. The
  decoder's position in the buffer is represented by the suffix that is still unread
  (\<open>len - *pos\<close> is its length, \<open>buf[*pos + k]\<close> its \<open>k\<close>-th byte), and \<open>consumed\<close>
  is the difference of the lengths.
\<close>

section \<open>Bytes\<close>

definition byte_of_char :: "char \<Rightarrow> byte" where
  "byte_of_char c = of_nat (of_char c)"

definition char_of_byte :: "byte \<Rightarrow> char" where
  "char_of_byte b = char_of (unat b)"

lemma char_of_byte_of_char [simp]: "char_of_byte (byte_of_char c) = c"
  by (simp add: char_of_byte_def byte_of_char_def unat_of_nat)

lemma map_char_of_byte [simp]: "map char_of_byte (map byte_of_char s) = s"
  by (simp add: comp_def)

section \<open>The encode buffer\<close>

record mp_buffer =
  mb_data :: "byte list"
  mb_cap :: nat

definition MSGPACK_BUFFER_INIT :: mp_buffer where
  "MSGPACK_BUFFER_INIT = \<lparr>mb_data = [], mb_cap = 0\<rparr>"

definition msgpack_buffer_free :: "mp_buffer \<Rightarrow> mp_buffer" where
  "msgpack_buffer_free buf = MSGPACK_BUFFER_INIT"

text \<open>The doubling loop; its argument is at least 1 at the call.\<close>

function mp_double :: "nat \<Rightarrow> nat \<Rightarrow> nat" where
  "mp_double cap need = (if 0 < cap \<and> cap < need then mp_double (cap * 2) need else cap)"
  by auto
termination by (relation "measure (\<lambda>(cap, need). need - cap)") auto

declare mp_double.simps [simp del]

definition mp_reserve :: "mp_buffer \<Rightarrow> nat \<Rightarrow> mp_buffer" where
  "mp_reserve buf extra =
     (if length (mb_data buf) + extra \<le> mb_cap buf then buf
      else buf\<lparr>mb_cap := mp_double (if mb_cap buf \<noteq> 0 then mb_cap buf else 64)
                                   (length (mb_data buf) + extra)\<rparr>)"

definition mp_put :: "mp_buffer \<Rightarrow> byte \<Rightarrow> mp_buffer" where
  "mp_put buf b = (let buf = mp_reserve buf 1 in buf\<lparr>mb_data := mb_data buf @ [b]\<rparr>)"

definition mp_put_bytes :: "mp_buffer \<Rightarrow> byte list \<Rightarrow> mp_buffer" where
  "mp_put_bytes buf src = (let buf = mp_reserve buf (length src) in buf\<lparr>mb_data := mb_data buf @ src\<rparr>)"

text \<open>The low \<open>n\<close> bytes of \<open>v\<close>, most significant first.\<close>

fun mp_put_be :: "mp_buffer \<Rightarrow> u64 \<Rightarrow> nat \<Rightarrow> mp_buffer" where
  "mp_put_be buf v 0 = buf"
| "mp_put_be buf v (Suc i) = mp_put_be (mp_put buf (ucast (drop_bit (8 * i) v))) v i"

section \<open>Encoding\<close>

definition mp_emit_int :: "mp_buffer \<Rightarrow> u64 \<Rightarrow> mp_buffer" where
  "mp_emit_int buf v =
     (let i = sint v in
      if - 32 \<le> i \<and> i \<le> 0x7f then mp_put buf (ucast v)
      else if 0 \<le> i then
        if i \<le> 0xff then mp_put (mp_put buf 0xcc) (ucast v)
        else if i \<le> 0xffff then mp_put_be (mp_put buf 0xcd) v 2
        else if i \<le> 0xffffffff then mp_put_be (mp_put buf 0xce) v 4
        else mp_put_be (mp_put buf 0xcf) v 8
      else if - 128 \<le> i then mp_put (mp_put buf 0xd0) (ucast v)
      else if - 32768 \<le> i then mp_put_be (mp_put buf 0xd1) v 2
      else if - 2147483648 \<le> i then mp_put_be (mp_put buf 0xd2) v 4
      else mp_put_be (mp_put buf 0xd3) v 8)"

text \<open>\<open>None\<close>: the assertion that a count fits 32 bits failed.\<close>

definition mp_emit_count :: "mp_buffer \<Rightarrow> nat \<Rightarrow> byte \<Rightarrow> byte \<Rightarrow> byte \<Rightarrow> mp_buffer option" where
  "mp_emit_count buf n fix f16 f32 =
     (if n > 0xffffffff then None
      else let fixmax = (if fix = 0xa0 then 0x1f else 0x0f) in
           Some (if n \<le> fixmax then mp_put buf (fix OR of_nat n)
                 else if n \<le> 0xffff then mp_put_be (mp_put buf f16) (of_nat n) 2
                 else mp_put_be (mp_put buf f32) (of_nat n) 4))"

definition mp_emit_str :: "mp_buffer \<Rightarrow> mstring \<Rightarrow> mp_buffer option" where
  "mp_emit_str buf s =
     map_option (\<lambda>buf. mp_put_bytes buf (map byte_of_char (str_bytes s)))
       (mp_emit_count buf (str_size s) 0xa0 0xda 0xdb)"

definition msgpack_encode_array_header :: "mp_buffer \<Rightarrow> nat \<Rightarrow> mp_buffer option" where
  "msgpack_encode_array_header buf n = mp_emit_count buf n 0x90 0xdc 0xdd"

fun mp_emit_node :: "mp_buffer \<Rightarrow> object \<Rightarrow> mp_buffer option" where
  "mp_emit_node buf ONil = Some (mp_put buf 0xc0)"
| "mp_emit_node buf (OSession s) = Some (mp_put buf 0xc0)"
| "mp_emit_node buf (OBoolean b) = Some (mp_put buf (if b then 0xc3 else 0xc2))"
| "mp_emit_node buf (OInteger v) = Some (mp_emit_int buf v)"
| "mp_emit_node buf (OFloat d) = Some (mp_put_be (mp_put buf 0xcb) d 8)"
| "mp_emit_node buf (OString s) = mp_emit_str buf s"
| "mp_emit_node buf (OArray xs) = msgpack_encode_array_header buf (length xs)"
| "mp_emit_node buf (ODict kvs) = mp_emit_count buf (length kvs) 0x80 0xde 0xdf"

record mp_enc_frame =
  me_container :: object
  me_is_map :: bool
  me_n :: nat
  me_next :: nat

definition mp_enc_frame_of :: "object \<Rightarrow> mp_enc_frame" where
  "mp_enc_frame_of obj =
     \<lparr>me_container = obj, me_is_map = (case obj of ODict _ \<Rightarrow> True | _ \<Rightarrow> False),
      me_n = length (obj_children obj), me_next = 0\<rparr>"

partial_function (option) enc_loop :: "mp_enc_frame list \<Rightarrow> mp_buffer \<Rightarrow> mp_buffer option" where
  "enc_loop stack buf =
     (case stack of
        [] \<Rightarrow> Some buf
      | f # fs \<Rightarrow>
          if me_n f \<le> me_next f then enc_loop fs buf
          else
            let i = me_next f; f' = f\<lparr>me_next := i + 1\<rparr>; child = obj_children (me_container f) ! i in
            case (if me_is_map f then mp_emit_str buf (obj_key (me_container f) i) else Some buf) of
              None \<Rightarrow> None
            | Some buf \<Rightarrow>
                (case mp_emit_node buf child of
                   None \<Rightarrow> None
                 | Some buf \<Rightarrow>
                     if is_container child
                     then if length stack < kMarshalDepthCap
                          then enc_loop (mp_enc_frame_of child # f' # fs) buf else None
                     else enc_loop (f' # fs) buf))"

definition msgpack_encode :: "mp_buffer \<Rightarrow> object \<Rightarrow> mp_buffer option" where
  "msgpack_encode buf obj =
     (case mp_emit_node buf obj of
        None \<Rightarrow> None
      | Some buf \<Rightarrow> if is_container obj then enc_loop [mp_enc_frame_of obj] buf else Some buf)"

section \<open>Decoding\<close>

datatype 'a mp_result = MpOk 'a | MpIncomplete | MpError error

definition mp_be :: "byte list \<Rightarrow> nat \<Rightarrow> u64" where
  "mp_be p n = foldl (\<lambda>v b. push_bit 8 v OR ucast b) 0 (take n p)"

definition mp_take_uint :: "byte list \<Rightarrow> nat \<Rightarrow> (u64 \<times> byte list) mp_result" where
  "mp_take_uint inp nbytes =
     (if length inp < nbytes + 1 then MpIncomplete
      else MpOk (mp_be (drop 1 inp) nbytes, drop (nbytes + 1) inp))"

definition mp_take_str :: "byte list \<Rightarrow> nat \<Rightarrow> nat \<Rightarrow> (mstring \<times> byte list) mp_result" where
  "mp_take_str inp hdr payload =
     (if length inp < hdr \<or> length inp - hdr < payload then MpIncomplete
      else MpOk (if payload > 0 then Some (map char_of_byte (take payload (drop hdr inp))) else None,
                 drop (hdr + payload) inp))"

record mp_dec_frame =
  md_container :: object
  md_remaining :: nat
  md_idx :: nat
  md_is_map :: bool
  md_awaiting_value :: bool

text \<open>A slot's value, the frame pushed for it when it is a container, and the unread bytes.\<close>

type_synonym mp_slot = "(object \<times> mp_dec_frame option \<times> byte list) mp_result"

definition mp_open :: "byte list \<Rightarrow> nat \<Rightarrow> nat \<Rightarrow> bool \<Rightarrow> nat \<Rightarrow> mp_slot" where
  "mp_open inp hdr count is_map depth =
     (if count > length inp - hdr then MpIncomplete
      else if depth \<ge> kMarshalDepthCap
      then MpError (kErrorTypeValidation, ''msgpack nesting exceeds '' @ show_nat kMarshalDepthCap)
      else
        let slot = (if is_map then ODict (replicate count (None, ONil)) else OArray (replicate count ONil))
        in MpOk (slot, Some \<lparr>md_container = slot, md_remaining = count, md_idx = 0, md_is_map = is_map,
                             md_awaiting_value = False\<rparr>, drop hdr inp))"

definition mp_scalar :: "('a \<Rightarrow> object) \<Rightarrow> ('a \<times> byte list) mp_result \<Rightarrow> mp_slot" where
  "mp_scalar mk r = (case r of MpOk (v, rest) \<Rightarrow> MpOk (mk v, None, rest)
                             | MpIncomplete \<Rightarrow> MpIncomplete | MpError e \<Rightarrow> MpError e)"

definition mp_read_number :: "byte \<Rightarrow> byte list \<Rightarrow> mp_slot" where
  "mp_read_number b inp =
     (if b = 0xca then mp_scalar (\<lambda>u. OFloat (dbl_of_float (ucast u))) (mp_take_uint inp 4)
      else if b = 0xcb then mp_scalar (\<lambda>u. OFloat u) (mp_take_uint inp 8)
      else if b = 0xcc then mp_scalar (\<lambda>u. OInteger (ucast (ucast u :: 8 word))) (mp_take_uint inp 1)
      else if b = 0xcd then mp_scalar (\<lambda>u. OInteger (ucast (ucast u :: 16 word))) (mp_take_uint inp 2)
      else if b = 0xce then mp_scalar (\<lambda>u. OInteger (ucast (ucast u :: 32 word))) (mp_take_uint inp 4)
      else if b = 0xcf then
        mp_scalar (\<lambda>u. if u \<le> 0x7fffffffffffffff then OInteger u else OFloat (dbl_of_int (uint u)))
          (mp_take_uint inp 8)
      else if b = 0xd0 then mp_scalar (\<lambda>u. OInteger (scast (ucast u :: 8 word))) (mp_take_uint inp 1)
      else if b = 0xd1 then mp_scalar (\<lambda>u. OInteger (scast (ucast u :: 16 word))) (mp_take_uint inp 2)
      else if b = 0xd2 then mp_scalar (\<lambda>u. OInteger (scast (ucast u :: 32 word))) (mp_take_uint inp 4)
      else mp_scalar OInteger (mp_take_uint inp 8))"

text \<open>A length field of \<open>w\<close> bytes after the format byte; \<open>buf[*pos + 1]\<close> is the case 1.\<close>

definition mp_with_len :: "byte list \<Rightarrow> nat \<Rightarrow> (nat \<Rightarrow> nat \<Rightarrow> 'a mp_result) \<Rightarrow> 'a mp_result" where
  "mp_with_len inp w k =
     (if length inp < w + 1 then MpIncomplete else k (w + 1) (unat (mp_be (drop 1 inp) w)))"

definition hex2 :: "byte \<Rightarrow> string" where
  "hex2 b = (let digit = (\<lambda>n. ''0123456789abcdef'' ! n) in [digit (unat b div 16), digit (unat b mod 16)])"

definition mp_read_ext :: "byte \<Rightarrow> byte list \<Rightarrow> nat \<Rightarrow> mp_slot" where
  "mp_read_ext b inp depth =
     (if 0xca \<le> b \<and> b \<le> 0xd3 then mp_read_number b inp
      else if b = 0xc4 then mp_with_len inp 1 (\<lambda>h n. mp_scalar OString (mp_take_str inp h n))
      else if b = 0xc5 then mp_with_len inp 2 (\<lambda>h n. mp_scalar OString (mp_take_str inp h n))
      else if b = 0xc6 then mp_with_len inp 4 (\<lambda>h n. mp_scalar OString (mp_take_str inp h n))
      else if b = 0xd9 then mp_with_len inp 1 (\<lambda>h n. mp_scalar OString (mp_take_str inp h n))
      else if b = 0xda then mp_with_len inp 2 (\<lambda>h n. mp_scalar OString (mp_take_str inp h n))
      else if b = 0xdb then mp_with_len inp 4 (\<lambda>h n. mp_scalar OString (mp_take_str inp h n))
      else if b = 0xdc then mp_with_len inp 2 (\<lambda>h n. mp_open inp h n False depth)
      else if b = 0xdd then mp_with_len inp 4 (\<lambda>h n. mp_open inp h n False depth)
      else if b = 0xde then mp_with_len inp 2 (\<lambda>h n. mp_open inp h n True depth)
      else if b = 0xdf then mp_with_len inp 4 (\<lambda>h n. mp_open inp h n True depth)
      else MpError (kErrorTypeValidation, ''msgpack: unsupported type 0x'' @ hex2 b))"

definition mp_read_into :: "byte list \<Rightarrow> nat \<Rightarrow> mp_slot" where
  "mp_read_into inp depth =
     (case inp of
        [] \<Rightarrow> MpIncomplete
      | b # rest \<Rightarrow>
          if b \<le> 0x7f then MpOk (OInteger (ucast b), None, rest)
          else if b \<ge> 0xe0 then MpOk (OInteger (scast b), None, rest)
          else if 0x80 \<le> b \<and> b \<le> 0x8f then mp_open inp 1 (unat (b AND 0x0f)) True depth
          else if 0x90 \<le> b \<and> b \<le> 0x9f then mp_open inp 1 (unat (b AND 0x0f)) False depth
          else if 0xa0 \<le> b \<and> b \<le> 0xbf then mp_scalar OString (mp_take_str inp 1 (unat (b AND 0x1f)))
          else if b = 0xc0 then MpOk (ONil, None, rest)
          else if b = 0xc2 \<or> b = 0xc3 then MpOk (OBoolean (b = 0xc3), None, rest)
          else mp_read_ext b inp depth)"

definition mp_read_key :: "byte list \<Rightarrow> (mstring \<times> byte list) mp_result" where
  "mp_read_key inp =
     (case inp of
        [] \<Rightarrow> MpIncomplete
      | b # _ \<Rightarrow>
          if 0xa0 \<le> b \<and> b \<le> 0xbf then mp_take_str inp 1 (unat (b AND 0x1f))
          else if b = 0xd9 then mp_with_len inp 1 (\<lambda>h n. mp_take_str inp h n)
          else if b = 0xda then mp_with_len inp 2 (\<lambda>h n. mp_take_str inp h n)
          else if b = 0xdb then mp_with_len inp 4 (\<lambda>h n. mp_take_str inp h n)
          else MpError (kErrorTypeValidation, ''msgpack: map key must be a string''))"

lemma mp_take_uint_shorter: "mp_take_uint inp n = MpOk (u, rest) \<Longrightarrow> length rest < length inp"
  by (auto simp: mp_take_uint_def split: if_splits)

lemma mp_take_str_shorter: "mp_take_str inp h n = MpOk (s, rest) \<Longrightarrow> 0 < h \<Longrightarrow> length rest < length inp"
  by (auto simp: mp_take_str_def split: if_splits)

lemma mp_scalar_MpOk:
  "mp_scalar mk r = MpOk (v, fr, rest) \<longleftrightarrow> (\<exists>x. r = MpOk (x, rest) \<and> v = mk x \<and> fr = None)"
  by (cases r) (auto simp: mp_scalar_def)

lemma mp_with_len_MpOk:
  "mp_with_len inp w k = MpOk v \<longleftrightarrow>
   w < length inp \<and> k (w + 1) (unat (mp_be (drop 1 inp) w)) = MpOk v"
  by (auto simp: mp_with_len_def)

lemma mp_open_shorter:
  "mp_open inp h n m d = MpOk (v, fr, rest) \<Longrightarrow> 0 < h \<Longrightarrow> h \<le> length inp \<Longrightarrow> length rest < length inp"
  by (auto simp: mp_open_def Let_def split: if_splits)

lemma mp_read_into_shorter:
  "mp_read_into inp d = MpOk (v, fr, rest) \<Longrightarrow> length rest < length inp"
  by (cases inp)
    (auto simp: mp_read_into_def mp_read_ext_def mp_read_number_def mp_scalar_MpOk mp_with_len_MpOk
      dest: mp_take_uint_shorter mp_take_str_shorter mp_open_shorter split: if_splits)

lemma mp_read_key_shorter: "mp_read_key inp = MpOk (k, rest) \<Longrightarrow> length rest < length inp"
  by (cases inp)
    (auto simp: mp_read_key_def mp_with_len_MpOk dest: mp_take_str_shorter split: if_splits)

text \<open>
  The loop of \<open>msgpack_to_object\<close>. A popped frame's container is stored through the slot
  it was opened at: pair or element \<open>idx - 1\<close> of the frame below, or the result.
\<close>

definition mp_store :: "mp_dec_frame \<Rightarrow> object \<Rightarrow> mp_dec_frame" where
  "mp_store g v = g\<lparr>md_container := obj_set (md_container g) (md_idx g - 1) v\<rparr>"

function dec_loop :: "mp_dec_frame list \<Rightarrow> byte list \<Rightarrow> (object \<times> byte list) mp_result" where
  "dec_loop stack inp =
     (case stack of
        [] \<Rightarrow> MpIncomplete
      | f # fs \<Rightarrow>
          if md_remaining f \<le> md_idx f
          then (case fs of
                  [] \<Rightarrow> MpOk (md_container f, inp)
                | g # gs \<Rightarrow> dec_loop (mp_store g (md_container f) # gs) inp)
          else if md_is_map f \<and> \<not> md_awaiting_value f
          then (case mp_read_key inp of
                  MpOk (k, rest) \<Rightarrow>
                    dec_loop (f\<lparr>md_container := obj_set_key (md_container f) (md_idx f) k,
                                md_awaiting_value := True\<rparr> # fs) rest
                | MpIncomplete \<Rightarrow> MpIncomplete
                | MpError e \<Rightarrow> MpError e)
          else
            let f' = f\<lparr>md_idx := md_idx f + 1, md_awaiting_value := False\<rparr> in
            case mp_read_into inp (length stack) of
              MpOk (v, Some g, rest) \<Rightarrow> dec_loop (g # f' # fs) rest
            | MpOk (v, None, rest) \<Rightarrow> dec_loop (mp_store f' v # fs) rest
            | MpIncomplete \<Rightarrow> MpIncomplete
            | MpError e \<Rightarrow> MpError e)"
  by auto
termination
  by (relation "measure (\<lambda>(stack, inp). 2 * length inp + length stack)")
    (auto dest: mp_read_into_shorter mp_read_key_shorter)

declare dec_loop.simps [simp del]

text \<open>The value and the unread rest; \<open>*consumed\<close> is \<open>len\<close> minus its length.\<close>

definition msgpack_to_object :: "byte list \<Rightarrow> (object \<times> byte list) mp_result" where
  "msgpack_to_object inp =
     (case mp_read_into inp 0 of
        MpOk (v, Some f, rest) \<Rightarrow> dec_loop [f] rest
      | MpOk (v, None, rest) \<Rightarrow> MpOk (v, rest)
      | MpIncomplete \<Rightarrow> MpIncomplete
      | MpError e \<Rightarrow> MpError e)"

end
