(* ===== verification/MsgpackProps.thy ===== *)
theory MsgpackProps
  imports Msgpack
begin

text \<open>
  Correctness of the msgpack codec: what the encoder appends (a recursive reference encoding),
  that the decoder inverts it up to the values that have no wire form, how the decoder treats
  truncated and extended input, and its bounds.
\<close>

section \<open>The buffer\<close>

definition mb_ok :: "mp_buffer \<Rightarrow> bool" where
  "mb_ok b \<longleftrightarrow> length (mb_data b) \<le> mb_cap b"

lemma mp_double_ge: "0 < cap \<Longrightarrow> need \<le> mp_double cap need \<and> cap \<le> mp_double cap need"
proof (induction cap need rule: mp_double.induct)
  case (1 cap need)
  then show ?case
    by (cases "cap < need") (auto simp: mp_double.simps [of cap need])
qed

lemma mp_reserve_room: "length (mb_data b) + n \<le> mb_cap (mp_reserve b n)"
  using mp_double_ge [of "if mb_cap b \<noteq> 0 then mb_cap b else 64" "length (mb_data b) + n"]
  by (simp add: mp_reserve_def)

lemma mp_reserve_data [simp]: "mb_data (mp_reserve b n) = mb_data b"
  by (simp add: mp_reserve_def)

lemma mp_put_data [simp]: "mb_data (mp_put b x) = mb_data b @ [x]"
  by (simp add: mp_put_def Let_def)

lemma mp_put_bytes_data [simp]: "mb_data (mp_put_bytes b xs) = mb_data b @ xs"
  by (simp add: mp_put_bytes_def Let_def)

lemma mp_put_ok [simp]: "mb_ok (mp_put b x)"
  using mp_reserve_room [of b 1] by (simp add: mb_ok_def mp_put_def Let_def)

lemma mp_put_bytes_ok [simp]: "mb_ok (mp_put_bytes b xs)"
  using mp_reserve_room [of b "length xs"] by (simp add: mb_ok_def mp_put_bytes_def Let_def)

fun be_bytes :: "u64 \<Rightarrow> nat \<Rightarrow> byte list" where
  "be_bytes v 0 = []"
| "be_bytes v (Suc i) = ucast (drop_bit (8 * i) v) # be_bytes v i"

lemma length_be_bytes [simp]: "length (be_bytes v n) = n"
  by (induction n) auto

lemma mp_put_be_data [simp]: "mb_data (mp_put_be b v n) = mb_data b @ be_bytes v n"
  by (induction n arbitrary: b) auto

lemma mp_put_be_ok: "mb_ok b \<Longrightarrow> mb_ok (mp_put_be b v n)"
  by (induction n arbitrary: b) auto

section \<open>Big-endian integers\<close>

lemma foldl_be_bytes:
  "foldl (\<lambda>v b. push_bit 8 v OR ucast b) acc (be_bytes v n)
     = push_bit (8 * n) acc OR take_bit (8 * n) (v :: u64)"
proof (induction n arbitrary: acc)
  case 0
  then show ?case by simp
next
  case (Suc n)
  have *: "push_bit (8 * n) (push_bit 8 acc OR ucast (ucast (drop_bit (8 * n) v) :: byte)) OR take_bit (8 * n) v
      = push_bit (8 + 8 * n) acc OR take_bit (8 + 8 * n) v"
    by (rule bit_eqI) (auto simp: bit_simps add.commute)
  show ?case by (simp only: be_bytes.simps foldl_Cons Suc.IH mult_Suc_right *)
qed

lemma mp_be_be_bytes [simp]: "mp_be (be_bytes v n @ rest) n = take_bit (8 * n) v"
  by (simp add: mp_be_def foldl_be_bytes)

lemma mp_take_uint_be [simp]: "mp_take_uint (b # be_bytes v n @ rest) n = MpOk (take_bit (8 * n) v, rest)"
  by (simp add: mp_take_uint_def)

lemma signed_take_bit_nonneg:
  "0 \<le> signed_take_bit n (v :: int) \<Longrightarrow> take_bit (Suc n) v = signed_take_bit n v"
  by (simp add: signed_take_bit_eq_if_positive take_bit_Suc_from_most)

lemma uint_sint: "0 \<le> sint (v :: u64) \<Longrightarrow> uint v = sint v"
  using signed_take_bit_nonneg [of 63] by transfer simp

lemma take_bit_fits: "sint (v :: u64) \<ge> 0 \<Longrightarrow> sint v < 2 ^ n \<Longrightarrow> take_bit n v = v"
  by (metis uint_sint take_bit_int_eq_self_iff uint_ge_0 unsigned_take_bit_eq word_uint_eqI)

lemma ucast_fits:
  "0 \<le> sint (v :: u64) \<Longrightarrow> sint v < 2 ^ LENGTH('n) \<Longrightarrow> ucast (ucast v :: 'n::len word) = v"
  by (rule word_uint_eqI)
    (simp add: unsigned_ucast_eq uint_sint [symmetric] take_bit_int_eq_self unsigned_take_bit_eq)

lemma sint_of_uint: "sint (v :: u64) = signed_take_bit 63 (uint v)"
  by (simp add: sint_uint)

lemma scast_fits:
  assumes "LENGTH('n) \<le> 64" "- (2 ^ (LENGTH('n) - 1)) \<le> sint (v :: u64)" "sint v < 2 ^ (LENGTH('n) - 1)"
  shows "scast (ucast v :: 'n::len word) = v"
proof -
  let ?n = "LENGTH('n) - Suc 0"
  have n: "?n \<le> 63" using assms(1) by simp
  have "sint (ucast v :: 'n word) = signed_take_bit ?n (uint v)" by (rule signed_ucast_eq)
  also have "\<dots> = signed_take_bit ?n (sint v)"
    using n by (simp add: sint_of_uint signed_take_bit_signed_take_bit min_def)
  also have "\<dots> = sint v" using assms by (intro signed_take_bit_int_eq_self) simp_all
  finally show ?thesis by (simp add: scast_eq)
qed

lemma uint_low_byte: "uint (ucast (v :: u64) :: byte) = sint v mod 256"
proof -
  have "uint (ucast v :: byte) = take_bit 8 (uint v)" by (simp add: unsigned_ucast_eq)
  also have "\<dots> = take_bit 8 (sint v)" by (simp add: sint_of_uint take_bit_signed_take_bit)
  finally show ?thesis by (simp add: take_bit_eq_mod)
qed

section \<open>Scalars and headers\<close>

lemma uint_fixint:
  "0 \<le> sint (v :: u64) \<Longrightarrow> sint v \<le> 0x7f \<Longrightarrow> uint (ucast v :: byte) = sint v"
  "- 32 \<le> sint (v :: u64) \<Longrightarrow> sint v < 0 \<Longrightarrow> uint (ucast v :: byte) = 256 + sint v"
proof -
  show "0 \<le> sint v \<Longrightarrow> sint v \<le> 0x7f \<Longrightarrow> uint (ucast v :: byte) = sint v"
    by (simp add: uint_low_byte)
  assume a: "- 32 \<le> sint v" "sint v < 0"
  have "sint v mod 256 = (256 + sint v) mod 256" by simp
  also have "\<dots> = 256 + sint v" using a by (intro mod_pos_pos_trivial) simp_all
  finally show "uint (ucast v :: byte) = 256 + sint v" by (simp only: uint_low_byte)
qed

lemma mp_read_fixint:
  assumes "- 32 \<le> sint v" "sint v \<le> 0x7f"
  shows "mp_read_into ((ucast v :: byte) # rest) d = MpOk (OInteger v, None, rest)"
proof (cases "0 \<le> sint v")
  case True
  with assms have "(ucast v :: byte) \<le> 0x7f" by (simp add: word_le_def uint_fixint)
  then show ?thesis using True assms ucast_fits [of v, where 'n = 8] by (simp add: mp_read_into_def)
next
  case False
  with assms have "(0xe0 :: byte) \<le> ucast v" "\<not> (ucast v :: byte) \<le> 0x7f"
    by (simp_all add: word_le_def uint_fixint)
  then show ?thesis using False assms scast_fits [of v, where 'n = 8] by (simp add: mp_read_into_def)
qed

lemma mp_take_uint_1 [simp]: "mp_take_uint (b # c # rest) 1 = MpOk (ucast c, rest)"
  by (simp add: mp_take_uint_def mp_be_def)

lemma ucast_take_bit:
  "LENGTH('n) \<le> n \<Longrightarrow> ucast (take_bit n (v :: u64)) = (ucast v :: 'n::len word)"
  by (rule bit_word_eqI) (auto simp: bit_simps)

lemma mp_read_number_tags:
  "mp_read_into (0xca # r) d = mp_scalar (\<lambda>u. OFloat (dbl_of_float (ucast u))) (mp_take_uint (0xca # r) 4)"
  "mp_read_into (0xcb # r) d = mp_scalar (\<lambda>u. OFloat u) (mp_take_uint (0xcb # r) 8)"
  "mp_read_into (0xcc # r) d = mp_scalar (\<lambda>u. OInteger (ucast (ucast u :: 8 word))) (mp_take_uint (0xcc # r) 1)"
  "mp_read_into (0xcd # r) d = mp_scalar (\<lambda>u. OInteger (ucast (ucast u :: 16 word))) (mp_take_uint (0xcd # r) 2)"
  "mp_read_into (0xce # r) d = mp_scalar (\<lambda>u. OInteger (ucast (ucast u :: 32 word))) (mp_take_uint (0xce # r) 4)"
  "mp_read_into (0xcf # r) d =
     mp_scalar (\<lambda>u. if u \<le> 0x7fffffffffffffff then OInteger u else OFloat (dbl_of_int (uint u)))
       (mp_take_uint (0xcf # r) 8)"
  "mp_read_into (0xd0 # r) d = mp_scalar (\<lambda>u. OInteger (scast (ucast u :: 8 word))) (mp_take_uint (0xd0 # r) 1)"
  "mp_read_into (0xd1 # r) d = mp_scalar (\<lambda>u. OInteger (scast (ucast u :: 16 word))) (mp_take_uint (0xd1 # r) 2)"
  "mp_read_into (0xd2 # r) d = mp_scalar (\<lambda>u. OInteger (scast (ucast u :: 32 word))) (mp_take_uint (0xd2 # r) 4)"
  "mp_read_into (0xd3 # r) d = mp_scalar OInteger (mp_take_uint (0xd3 # r) 8)"
  by (simp_all add: mp_read_into_def mp_read_ext_def mp_read_number_def)

lemma take_bit_64 [simp]: "take_bit 64 (v :: u64) = v"
  by (rule bit_word_eqI) (auto simp: bit_simps)

lemma nonneg_le: "0 \<le> sint (v :: u64) \<Longrightarrow> v \<le> 0x7fffffffffffffff"
  using sint_lt [of v] by (simp add: word_le_def uint_sint)

lemma mp_read_int:
  "mp_read_into (mb_data (mp_emit_int MSGPACK_BUFFER_INIT v) @ rest) d = MpOk (OInteger v, None, rest)"
proof -
  note tags = mp_read_number_tags mp_scalar_def mp_emit_int_def MSGPACK_BUFFER_INIT_def Let_def
    mp_take_uint_1 [unfolded One_nat_def] ucast_take_bit
  consider "- 32 \<le> sint v" "sint v \<le> 0x7f" | "0x7f < sint v" "sint v \<le> 0xff"
    | "0xff < sint v" "sint v \<le> 0xffff" | "0xffff < sint v" "sint v \<le> 0xffffffff"
    | "0xffffffff < sint v" | "- 128 \<le> sint v" "sint v < - 32" | "- 32768 \<le> sint v" "sint v < - 128"
    | "- 2147483648 \<le> sint v" "sint v < - 32768" | "sint v < - 2147483648"
    by linarith
  then show ?thesis
  proof cases
    case 1
    then show ?thesis using mp_read_fixint [of v rest d] by (simp add: mp_emit_int_def MSGPACK_BUFFER_INIT_def)
  next
    case 2
    then show ?thesis using ucast_fits [of v, where 'n = 8] by (simp add: tags)
  next
    case 3
    then show ?thesis using ucast_fits [of v, where 'n = 16] mp_take_uint_be [of "0xcd" v 2 rest]
      by (simp add: tags del: be_bytes.simps mp_take_uint_be)
  next
    case 4
    then show ?thesis using ucast_fits [of v, where 'n = 32] mp_take_uint_be [of "0xce" v 4 rest]
      by (simp add: tags)
  next
    case 5
    then show ?thesis using nonneg_le [of v] mp_take_uint_be [of "0xcf" v 8 rest] by (simp add: tags)
  next
    case 6
    then have "scast (ucast v :: byte) = v" using scast_fits [of v, where 'n = 8] by simp
    moreover have "ucast (ucast (ucast v :: byte) :: u64) = (ucast v :: byte)"
      by (rule bit_word_eqI) (simp add: bit_simps)
    ultimately show ?thesis using 6 by (simp add: tags)
  next
    case 7
    then show ?thesis using scast_fits [of v, where 'n = 16] mp_take_uint_be [of "0xd1" v 2 rest]
      by (simp add: tags)
  next
    case 8
    then show ?thesis using scast_fits [of v, where 'n = 32] mp_take_uint_be [of "0xd2" v 4 rest]
      by (simp add: tags)
  next
    case 9
    then show ?thesis using mp_take_uint_be [of "0xd3" v 8 rest] by (simp add: tags)
  qed
qed

lemma fix_count_16:
  "n \<le> 0x0f \<Longrightarrow> (0x80 :: byte) \<le> 0x80 OR of_nat n \<and> (0x80 :: byte) OR of_nat n \<le> 0x8f
      \<and> unat (((0x80 :: byte) OR of_nat n) AND 0x0f) = n"
  "n \<le> 0x0f \<Longrightarrow> (0x90 :: byte) \<le> 0x90 OR of_nat n \<and> (0x90 :: byte) OR of_nat n \<le> 0x9f
      \<and> unat (((0x90 :: byte) OR of_nat n) AND 0x0f) = n"
proof -
  have *: "\<forall>n \<in> set [0..<16]. (0x80 :: byte) \<le> 0x80 OR of_nat n \<and> (0x80 :: byte) OR of_nat n \<le> 0x8f
      \<and> unat (((0x80 :: byte) OR of_nat n) AND 0x0f) = n" by code_simp
  have **: "\<forall>n \<in> set [0..<16]. (0x90 :: byte) \<le> 0x90 OR of_nat n \<and> (0x90 :: byte) OR of_nat n \<le> 0x9f
      \<and> unat (((0x90 :: byte) OR of_nat n) AND 0x0f) = n" by code_simp
  assume "n \<le> 0x0f"
  then have n: "n \<in> set [0..<16]" by simp
  show "(0x80 :: byte) \<le> 0x80 OR of_nat n \<and> (0x80 :: byte) OR of_nat n \<le> 0x8f
      \<and> unat (((0x80 :: byte) OR of_nat n) AND 0x0f) = n" by (rule bspec [OF * n])
  show "(0x90 :: byte) \<le> 0x90 OR of_nat n \<and> (0x90 :: byte) OR of_nat n \<le> 0x9f
      \<and> unat (((0x90 :: byte) OR of_nat n) AND 0x0f) = n" by (rule bspec [OF ** n])
qed

lemma fix_count_32:
  assumes "n \<le> 0x1f"
  shows "(0xa0 :: byte) \<le> 0xa0 OR of_nat n \<and> (0xa0 :: byte) OR of_nat n \<le> 0xbf
      \<and> unat (((0xa0 :: byte) OR of_nat n) AND 0x1f) = n"
proof -
  have *: "\<forall>n \<in> set [0..<32]. (0xa0 :: byte) \<le> 0xa0 OR of_nat n \<and> (0xa0 :: byte) OR of_nat n \<le> 0xbf
      \<and> unat (((0xa0 :: byte) OR of_nat n) AND 0x1f) = n" by code_simp
  have "n \<in> set [0..<32]" using assms by simp
  then show ?thesis by (rule bspec [OF *])
qed

section \<open>The reference encoding\<close>

definition enc_count :: "nat \<Rightarrow> byte \<Rightarrow> byte \<Rightarrow> byte \<Rightarrow> byte list" where
  "enc_count n fix f16 f32 =
     (if n \<le> (if fix = 0xa0 then 0x1f else 0x0f) then [fix OR of_nat n]
      else if n \<le> 0xffff then f16 # be_bytes (of_nat n) 2
      else f32 # be_bytes (of_nat n) 4)"

definition enc_str :: "mstring \<Rightarrow> byte list" where
  "enc_str s = enc_count (str_size s) 0xa0 0xda 0xdb @ map byte_of_char (str_bytes s)"

fun enc_obj :: "object \<Rightarrow> byte list" where
  "enc_obj ONil = [0xc0]"
| "enc_obj (OSession s) = [0xc0]"
| "enc_obj (OBoolean b) = [if b then 0xc3 else 0xc2]"
| "enc_obj (OInteger v) = mb_data (mp_emit_int MSGPACK_BUFFER_INIT v)"
| "enc_obj (OFloat d) = 0xcb # be_bytes d 8"
| "enc_obj (OString s) = enc_str s"
| "enc_obj (OArray xs) = enc_count (length xs) 0x90 0xdc 0xdd @ concat (map enc_obj xs)"
| "enc_obj (ODict kvs) =
     enc_count (length kvs) 0x80 0xde 0xdf @ concat (map (\<lambda>kv. enc_str (fst kv) @ enc_obj (snd kv)) kvs)"

text \<open>Every count fits the 32-bit length forms.\<close>

fun wire_ok :: "object \<Rightarrow> bool" where
  "wire_ok (OString s) = (str_size s \<le> 0xffffffff)"
| "wire_ok (OArray xs) = (length xs \<le> 0xffffffff \<and> list_all wire_ok xs)"
| "wire_ok (ODict kvs) =
     (length kvs \<le> 0xffffffff \<and> list_all (\<lambda>kv. str_size (fst kv) \<le> 0xffffffff \<and> wire_ok (snd kv)) kvs)"
| "wire_ok _ = True"

lemma mp_emit_int_data: "mb_data (mp_emit_int buf v) = mb_data buf @ mb_data (mp_emit_int MSGPACK_BUFFER_INIT v)"
  by (simp add: mp_emit_int_def MSGPACK_BUFFER_INIT_def Let_def)

lemma mp_emit_count_data:
  "map_option mb_data (mp_emit_count buf n fix f16 f32) =
   (if n \<le> 0xffffffff then Some (mb_data buf @ enc_count n fix f16 f32) else None)"
  by (simp add: mp_emit_count_def enc_count_def Let_def)

lemma mp_emit_count_None: "mp_emit_count buf n fix f16 f32 = None \<longleftrightarrow> 0xffffffff < n"
  by (simp add: mp_emit_count_def)

lemma mp_emit_count_Some:
  "mp_emit_count buf n fix f16 f32 = Some b \<Longrightarrow> n \<le> 0xffffffff \<and> mb_data b = mb_data buf @ enc_count n fix f16 f32"
  using mp_emit_count_data [of buf n "fix" f16 f32] by (simp split: if_splits)

lemma mp_emit_str_data:
  "map_option mb_data (mp_emit_str buf s) =
   (if str_size s \<le> 0xffffffff then Some (mb_data buf @ enc_str s) else None)"
  by (cases "mp_emit_count buf (str_size s) 0xa0 0xda 0xdb")
    (auto simp: mp_emit_str_def enc_str_def mp_emit_count_None dest: mp_emit_count_Some)

fun put_obj :: "object \<Rightarrow> mp_buffer option \<Rightarrow> mp_buffer option"
  and put_items :: "object list \<Rightarrow> mp_buffer option \<Rightarrow> mp_buffer option"
  and put_pairs :: "(mstring \<times> object) list \<Rightarrow> mp_buffer option \<Rightarrow> mp_buffer option" where
  "put_obj (OArray xs) b = put_items xs (Option.bind b (\<lambda>b. mp_emit_node b (OArray xs)))"
| "put_obj (ODict kvs) b = put_pairs kvs (Option.bind b (\<lambda>b. mp_emit_node b (ODict kvs)))"
| "put_obj x b = Option.bind b (\<lambda>b. mp_emit_node b x)"
| "put_items [] b = b"
| "put_items (x # xs) b = put_items xs (put_obj x b)"
| "put_pairs [] b = b"
| "put_pairs (kv # kvs) b = put_pairs kvs (put_obj (snd kv) (Option.bind b (\<lambda>b. mp_emit_str b (fst kv))))"

lemma bind_data:
  "(\<And>b. map_option mb_data (f b) = (if P then Some (mb_data b @ e) else None)) \<Longrightarrow>
   map_option mb_data (Option.bind b f) = (if P then map_option (\<lambda>d. d @ e) (map_option mb_data b) else None)"
  by (cases b) auto

lemmas put_obj_induct = put_obj_put_items_put_pairs.induct
  [case_names arr dict nil boolean integer float str session items_nil item pairs_nil pair]

lemma put_obj_data:
  "map_option mb_data (put_obj x b) =
     (if wire_ok x then map_option (\<lambda>d. d @ enc_obj x) (map_option mb_data b) else None)"
  "map_option mb_data (put_items xs b) =
     (if list_all wire_ok xs then map_option (\<lambda>d. d @ concat (map enc_obj xs)) (map_option mb_data b) else None)"
  "map_option mb_data (put_pairs kvs b) =
     (if list_all (\<lambda>kv. str_size (fst kv) \<le> 0xffffffff \<and> wire_ok (snd kv)) kvs
      then map_option (\<lambda>d. d @ concat (map (\<lambda>kv. enc_str (fst kv) @ enc_obj (snd kv)) kvs)) (map_option mb_data b)
      else None)"
proof (induction x b and xs b and kvs b rule: put_obj_induct)
  case (arr xs b)
  have "map_option mb_data (Option.bind b (\<lambda>b. mp_emit_node b (OArray xs))) =
    (if length xs \<le> 0xffffffff then map_option (\<lambda>d. d @ enc_count (length xs) 0x90 0xdc 0xdd) (map_option mb_data b)
     else None)"
    by (rule bind_data) (simp add: msgpack_encode_array_header_def mp_emit_count_data)
  then show ?case using arr by (simp add: option.map_comp comp_def)
next
  case (dict kvs b)
  have "map_option mb_data (Option.bind b (\<lambda>b. mp_emit_node b (ODict kvs))) =
    (if length kvs \<le> 0xffffffff then map_option (\<lambda>d. d @ enc_count (length kvs) 0x80 0xde 0xdf) (map_option mb_data b)
     else None)"
    by (rule bind_data) (simp add: mp_emit_count_data)
  then show ?case using dict by (simp add: option.map_comp comp_def)
next
  case (str s b)
  then show ?case using bind_data [of "\<lambda>b. mp_emit_str b s", OF mp_emit_str_data] by simp
next
  case (pair kv kvs b)
  show ?case
    using pair bind_data [of "\<lambda>b. mp_emit_str b (fst kv)", OF mp_emit_str_data, of b]
    by (simp add: option.map_comp comp_def)
next
  case (integer v b)
  then show ?case by (cases b) (simp_all, rule mp_emit_int_data)
next
  case (item x xs b)
  then show ?case by (simp add: option.map_comp comp_def)
qed (case_tac b; simp)+

section \<open>The encoder as a walk\<close>

definition enc_nxt :: "mp_enc_frame \<Rightarrow> (mp_enc_frame option \<times> mp_enc_frame) option" where
  "enc_nxt f =
     (if me_n f \<le> me_next f then None
      else let child = obj_children (me_container f) ! me_next f; f' = f\<lparr>me_next := me_next f + 1\<rparr>
           in Some (if is_container child then Some (mp_enc_frame_of child) else None, f'))"

definition enc_emit :: "mp_enc_frame \<Rightarrow> mp_buffer option \<Rightarrow> mp_buffer option" where
  "enc_emit f b =
     Option.bind
       (if me_is_map f then Option.bind b (\<lambda>b. mp_emit_str b (obj_key (me_container f) (me_next f))) else b)
       (\<lambda>b. mp_emit_node b (obj_children (me_container f) ! me_next f))"

definition enc_inv :: "mp_enc_frame \<Rightarrow> bool" where
  "enc_inv f \<longleftrightarrow> is_container (me_container f) \<and> me_n f = length (obj_children (me_container f))
     \<and> me_is_map f = (case me_container f of ODict _ \<Rightarrow> True | _ \<Rightarrow> False)"

definition put_rest :: "mp_enc_frame \<Rightarrow> mp_buffer option \<Rightarrow> mp_buffer option" where
  "put_rest f b =
     (case me_container f of
        OArray xs \<Rightarrow> put_items (drop (me_next f) xs) b
      | ODict kvs \<Rightarrow> put_pairs (drop (me_next f) kvs) b
      | _ \<Rightarrow> b)"

definition enc_run :: "mp_enc_frame list \<Rightarrow> mp_buffer option \<Rightarrow> mp_buffer option" where
  "enc_run fs b = Option.bind b (enc_loop fs)"

lemma mp_enc_frame_of_simps [simp]:
  "me_container (mp_enc_frame_of x) = x" "me_next (mp_enc_frame_of x) = 0"
  by (simp_all add: mp_enc_frame_of_def)

lemma enc_inv_of [simp]: "is_container x \<Longrightarrow> enc_inv (mp_enc_frame_of x)"
  by (simp add: enc_inv_def mp_enc_frame_of_def)

lemma enc_run_pop: "enc_nxt f = None \<Longrightarrow> enc_run (f # fs) b = enc_run fs b"
  by (cases b; simp add: enc_run_def; subst enc_loop.simps) (simp add: enc_nxt_def Let_def split: if_splits)

lemma enc_run_leaf:
  "enc_nxt f = Some (None, f') \<Longrightarrow> enc_run (f # fs) b = enc_run (f' # fs) (enc_emit f b)"
  by (cases b; cases "me_is_map f")
    (auto simp: enc_run_def enc_emit_def enc_loop.simps [of "f # fs"] enc_nxt_def Let_def
      split: if_splits option.splits)

lemma enc_run_open:
  "enc_nxt f = Some (Some g, f') \<Longrightarrow> enc_run (f # fs) b =
     (if Suc (length fs) < kMarshalDepthCap then enc_run (g # f' # fs) (enc_emit f b) else None)"
  by (cases b; cases "me_is_map f")
    (auto simp: enc_run_def enc_emit_def enc_loop.simps [of "f # fs"] enc_nxt_def Let_def
      split: if_splits option.splits)

lemma put_obj_container:
  "is_container x \<Longrightarrow> put_obj x b = put_rest (mp_enc_frame_of x) (Option.bind b (\<lambda>b. mp_emit_node b x))"
  by (cases x) (auto simp: put_rest_def mp_enc_frame_of_def)

lemma put_obj_leaf: "\<not> is_container x \<Longrightarrow> put_obj x b = Option.bind b (\<lambda>b. mp_emit_node b x)"
  by (cases x) auto

lemma put_rest_step:
  assumes "enc_inv f" "me_next f < me_n f"
  shows "put_rest f b = put_rest (f\<lparr>me_next := Suc (me_next f)\<rparr>)
    (put_obj (obj_children (me_container f) ! me_next f)
      (if me_is_map f then Option.bind b (\<lambda>b. mp_emit_str b (obj_key (me_container f) (me_next f))) else b))"
  using assms
  by (cases "me_container f") (auto simp: put_rest_def enc_inv_def Cons_nth_drop_Suc [symmetric])

lemma enc_nxtE:
  assumes "enc_nxt f = Some (c, f')"
  shows "me_next f < me_n f" "f' = f\<lparr>me_next := Suc (me_next f)\<rparr>"
    "c = (let child = obj_children (me_container f) ! me_next f
          in if is_container child then Some (mp_enc_frame_of child) else None)"
  using assms by (auto simp: enc_nxt_def Let_def split: if_splits)

interpretation enc: stack_walk enc_run "\<lambda>(_ :: unit) b. b" None kMarshalDepthCap
  enc_nxt "\<lambda>g _. g" "\<lambda>_. ()" enc_emit "\<lambda>_ b. b" enc_inv "\<lambda>_. ()" put_rest
  "\<lambda>f. Suc (kids_depth (drop (me_next f) (obj_children (me_container f))))"
  "\<lambda>f. kids_nodes (drop (me_next f) (obj_children (me_container f)))"
proof unfold_locales
  fix f fs b
  assume "enc_nxt f = None"
  then have "enc_run (f # fs) b = enc_run fs b" by (rule enc_run_pop)
  then show "enc_run (f # fs) b = (case fs of [] \<Rightarrow> b | g # gs \<Rightarrow> enc_run (g # gs) b)"
    by (cases fs) (cases b; simp add: enc_run_def enc_loop.simps [of "[]"])+
next
  fix f b
  assume "enc_inv f" "enc_nxt f = None"
  then show "put_rest f b = b"
    by (cases "me_container f") (auto simp: put_rest_def enc_inv_def enc_nxt_def Let_def split: if_splits)
next
  fix f f' b
  assume a: "enc_inv f" "enc_nxt f = Some (None, f')"
  note c = enc_nxtE [OF a(2)]
  from c(3) have "\<not> is_container (obj_children (me_container f) ! me_next f)"
    by (auto simp: Let_def split: if_splits)
  then show "put_rest f b = put_rest f' (enc_emit f b)"
    using put_rest_step [OF a(1) c(1)] by (simp add: c(2) put_obj_leaf enc_emit_def)
next
  fix f g f' b
  assume a: "enc_inv f" "enc_nxt f = Some (Some g, f')"
  note c = enc_nxtE [OF a(2)]
  from c(3) have "is_container (obj_children (me_container f) ! me_next f)"
    "g = mp_enc_frame_of (obj_children (me_container f) ! me_next f)"
    by (auto simp: Let_def split: if_splits)
  then show "put_rest f b = put_rest f' (put_rest g (enc_emit f b))"
    using put_rest_step [OF a(1) c(1)] by (simp add: c(2) put_obj_container enc_emit_def)
qed (auto simp: enc_run_leaf enc_run_open enc_nxt_def Let_def enc_inv_def [of "_\<lparr>me_next := _\<rparr>"]
      enc_inv_def [of f for f] mp_enc_frame_of_def kids_drop obj_depth_container obj_nodes_container not_le
      split: if_splits)

lemma msgpack_encode_eq:
  "msgpack_encode b x = (if obj_depth x \<le> kMarshalDepthCap then put_obj x (Some b) else None)"
proof (cases "is_container x")
  case True
  have "enc_run [mp_enc_frame_of x] (mp_emit_node b x) =
      (if obj_depth x \<le> kMarshalDepthCap then put_rest (mp_enc_frame_of x) (mp_emit_node b x) else None)"
    using enc.run_root [of "mp_enc_frame_of x" "mp_emit_node b x"] True
    by (simp add: obj_depth_container kMarshalDepthCap_def)
  then show ?thesis
    using True by (cases "mp_emit_node b x") (auto simp: msgpack_encode_def enc_run_def put_obj_container split: if_splits)
next
  case False
  then show ?thesis
    by (simp add: msgpack_encode_def put_obj_leaf obj_depth_container split: option.split)
qed

lemma msgpack_encode_data:
  "map_option mb_data (msgpack_encode b x) =
   (if obj_depth x \<le> kMarshalDepthCap \<and> wire_ok x then Some (mb_data b @ enc_obj x) else None)"
  using put_obj_data(1) [of x "Some b"] by (auto simp: msgpack_encode_eq split: if_splits)

section \<open>Decoding what was encoded\<close>

text \<open>The value that comes back: the empty string has a NULL pointer, a Session is Nil.\<close>

definition wire_str :: "mstring \<Rightarrow> mstring" where
  "wire_str s = (if str_bytes s = [] then None else s)"

fun wire_value :: "object \<Rightarrow> object" where
  "wire_value (OString s) = OString (wire_str s)"
| "wire_value (OSession s) = ONil"
| "wire_value (OArray xs) = OArray (map wire_value xs)"
| "wire_value (ODict kvs) = ODict (map (\<lambda>kv. (wire_str (fst kv), wire_value (snd kv))) kvs)"
| "wire_value x = x"

lemma is_container_wire [simp]: "is_container (wire_value x) = is_container x"
  by (cases x) auto

lemma unat_count:
  "n \<le> 0xff \<Longrightarrow> unat (take_bit 8 (of_nat n :: u64)) = n"
  "n \<le> 0xffff \<Longrightarrow> unat (take_bit 16 (of_nat n :: u64)) = n"
  "n \<le> 0xffffffff \<Longrightarrow> unat (take_bit 32 (of_nat n :: u64)) = n"
  by (simp_all add: take_bit_of_nat unat_of_nat take_bit_nat_eq_self)

lemma mp_with_len_be:
  "n \<le> 0xffff \<Longrightarrow> mp_with_len (b # be_bytes (of_nat n) 2 @ rest) 2 k = k 3 n"
  "n \<le> 0xffffffff \<Longrightarrow> mp_with_len (b # be_bytes (of_nat n) 4 @ rest) 4 k = k 5 n"
  using unat_count by (simp_all add: mp_with_len_def)

lemma mp_take_str_payload:
  assumes "length pre = h" "length s = n"
  shows "mp_take_str (pre @ map byte_of_char s @ rest) h n = MpOk (wire_str (Some s), rest)"
  using assms by (auto simp: mp_take_str_def wire_str_def comp_def)

lemma wire_str_bytes: "wire_str (Some (str_bytes s)) = wire_str s"
  by (cases s) (simp_all add: wire_str_def)

lemma mp_take_str_enc:
  "str_size s = n \<Longrightarrow> length pre = h \<Longrightarrow>
   mp_take_str (pre @ map byte_of_char (str_bytes s) @ rest) h n = MpOk (wire_str s, rest)"
  using mp_take_str_payload [of pre h "str_bytes s" n rest] by (simp add: str_size_def wire_str_bytes)

lemma mp_read_key_str:
  assumes "str_size s \<le> 0xffffffff"
  shows "mp_read_key (enc_str s @ rest) = MpOk (wire_str s, rest)"
proof -
  let ?n = "str_size s"
  consider "?n \<le> 0x1f" | "0x1f < ?n" "?n \<le> 0xffff" | "0xffff < ?n" by linarith
  then show ?thesis
  proof cases
    case 1
    have "mp_take_str ([0xa0 OR of_nat ?n] @ map byte_of_char (str_bytes s) @ rest) 1 ?n = MpOk (wire_str s, rest)"
      by (rule mp_take_str_enc) simp_all
    then show ?thesis using 1 fix_count_32 [of ?n] by (simp add: enc_str_def enc_count_def mp_read_key_def)
  next
    case 2
    have "mp_take_str ((0xda # be_bytes (of_nat ?n) 2) @ map byte_of_char (str_bytes s) @ rest) 3 ?n
        = MpOk (wire_str s, rest)"
      by (rule mp_take_str_enc) simp_all
    then show ?thesis
      using 2 by (simp add: enc_str_def enc_count_def mp_read_key_def mp_with_len_be)
  next
    case 3
    have "mp_take_str ((0xdb # be_bytes (of_nat ?n) 4) @ map byte_of_char (str_bytes s) @ rest) 5 ?n
        = MpOk (wire_str s, rest)"
      by (rule mp_take_str_enc) simp_all
    then show ?thesis
      using 3 assms by (simp add: enc_str_def enc_count_def mp_read_key_def mp_with_len_be)
  qed
qed

lemma byte_range_excl:
  "(0xa0 :: byte) \<le> b \<Longrightarrow> b \<le> 0xbf \<Longrightarrow> \<not> b \<le> 0x7f \<and> \<not> 0xe0 \<le> b \<and> \<not> b \<le> 0x8f \<and> \<not> b \<le> 0x9f"
  "(0x80 :: byte) \<le> b \<Longrightarrow> b \<le> 0x8f \<Longrightarrow> \<not> b \<le> 0x7f \<and> \<not> 0xe0 \<le> b"
  "(0x90 :: byte) \<le> b \<Longrightarrow> b \<le> 0x9f \<Longrightarrow> \<not> b \<le> 0x7f \<and> \<not> 0xe0 \<le> b \<and> \<not> b \<le> 0x8f"
  by (simp_all add: word_le_def)

lemma mp_read_into_str:
  assumes "str_size s \<le> 0xffffffff"
  shows "mp_read_into (enc_str s @ rest) d = MpOk (OString (wire_str s), None, rest)"
proof -
  have key: "mp_read_key (enc_str s @ rest) = MpOk (wire_str s, rest)" by (rule mp_read_key_str [OF assms])
  have *: "mp_read_into (enc_str s @ rest) d = mp_scalar OString (mp_read_key (enc_str s @ rest))"
    using fix_count_32 [of "str_size s"] byte_range_excl(1) [of "0xa0 OR of_nat (str_size s)"]
    by (simp add: enc_str_def enc_count_def mp_read_into_def mp_read_key_def mp_read_ext_def mp_with_len_def
        mp_scalar_def)
  show ?thesis unfolding * key by (simp add: mp_scalar_def)
qed

definition new_container :: "bool \<Rightarrow> nat \<Rightarrow> object" where
  "new_container is_map n = (if is_map then ODict (replicate n (None, ONil)) else OArray (replicate n ONil))"

definition open_frame :: "bool \<Rightarrow> nat \<Rightarrow> mp_dec_frame" where
  "open_frame is_map n =
     \<lparr>md_container = new_container is_map n, md_remaining = n, md_idx = 0, md_is_map = is_map,
      md_awaiting_value = False\<rparr>"

lemma mp_open_eq:
  "mp_open inp h n m d =
     (if n > length inp - h then MpIncomplete
      else if d \<ge> kMarshalDepthCap
      then MpError (kErrorTypeValidation, ''msgpack nesting exceeds '' @ show_nat kMarshalDepthCap)
      else MpOk (new_container m n, Some (open_frame m n), drop h inp))"
  by (simp add: mp_open_def Let_def open_frame_def new_container_def)

lemma mp_read_into_header:
  assumes "n \<le> 0xffffffff" "n \<le> length rest" "d < kMarshalDepthCap"
  shows "mp_read_into (enc_count n 0x90 0xdc 0xdd @ rest) d =
      MpOk (new_container False n, Some (open_frame False n), rest)"
    and "mp_read_into (enc_count n 0x80 0xde 0xdf @ rest) d =
      MpOk (new_container True n, Some (open_frame True n), rest)"
  using assms fix_count_16 [of n] byte_range_excl(2) [of "0x80 OR of_nat n"]
    byte_range_excl(3) [of "0x90 OR of_nat n"]
  by (simp_all add: enc_count_def mp_read_into_def mp_read_ext_def mp_with_len_be mp_open_eq not_le [symmetric])

lemma enc_count_nonempty [simp]: "enc_count n f a b \<noteq> []"
  by (simp add: enc_count_def)

lemma enc_obj_nonempty: "0 < length (enc_obj x)"
  by (cases x) (simp_all add: enc_str_def mp_emit_int_def Let_def)

lemma enc_items_length: "length xs \<le> length (concat (map enc_obj xs))"
proof (induction xs)
  case (Cons x xs)
  then show ?case using enc_obj_nonempty [of x] by (simp del: length_greater_0_conv)
qed simp

lemma enc_pairs_length:
  "length kvs \<le> length (concat (map (\<lambda>kv. enc_str (fst kv) @ enc_obj (snd kv)) kvs))"
proof (induction kvs)
  case (Cons kv kvs)
  then show ?case using enc_obj_nonempty [of "snd kv"] by (simp del: length_greater_0_conv)
qed simp

fun obj_pairs :: "object \<Rightarrow> (mstring \<times> object) list" where
  "obj_pairs (OArray xs) = map (Pair None) xs"
| "obj_pairs (ODict kvs) = kvs"
| "obj_pairs _ = []"

lemma obj_pairs_simps [simp]: "map snd (obj_pairs x) = obj_children x"
  by (cases x) (simp_all add: comp_def)

lemma length_obj_pairs [simp]: "length (obj_pairs x) = length (obj_children x)"
  by (cases x) simp_all

fun is_dict :: "object \<Rightarrow> bool" where
  "is_dict (ODict kvs) = True"
| "is_dict _ = False"

definition enc_pair :: "bool \<Rightarrow> mstring \<times> object \<Rightarrow> byte list" where
  "enc_pair m kv = (if m then enc_str (fst kv) else []) @ enc_obj (snd kv)"

lemma enc_pair_simps:
  "enc_pair True = (\<lambda>kv. enc_str (fst kv) @ enc_obj (snd kv))" "enc_pair False (k, x) = enc_obj x"
  by (auto simp: enc_pair_def)

definition enc_rest :: "object \<Rightarrow> nat \<Rightarrow> byte list" where
  "enc_rest x i = concat (map (enc_pair (is_dict x)) (drop i (obj_pairs x)))"

definition enc_header :: "object \<Rightarrow> byte list" where
  "enc_header x = (if is_dict x then enc_count (length (obj_children x)) 0x80 0xde 0xdf
                   else enc_count (length (obj_children x)) 0x90 0xdc 0xdd)"

lemma enc_obj_container: "is_container x \<Longrightarrow> enc_obj x = enc_header x @ enc_rest x 0"
  by (cases x) (simp_all add: enc_header_def enc_rest_def enc_pair_simps comp_def)

lemma enc_rest_step:
  "i < length (obj_children x) \<Longrightarrow>
   enc_rest x i = (if is_dict x then enc_str (obj_key x i) else []) @ enc_obj (obj_children x ! i)
                  @ enc_rest x (Suc i)"
  by (cases x) (auto simp: enc_rest_def enc_pair_def Cons_nth_drop_Suc [symmetric])

lemma enc_rest_0_length: "length (obj_children x) \<le> length (enc_rest x 0)"
  using enc_items_length enc_pairs_length by (cases x) (simp_all add: enc_rest_def enc_pair_simps comp_def)

lemma wire_ok_child:
  "wire_ok x \<Longrightarrow> i < length (obj_children x) \<Longrightarrow> wire_ok (obj_children x ! i)"
  "wire_ok x \<Longrightarrow> i < length (obj_children x) \<Longrightarrow> str_size (obj_key x i) \<le> 0xffffffff"
  "wire_ok x \<Longrightarrow> length (obj_children x) \<le> 0xffffffff"
  by (cases x; auto simp: list_all_length)+

lemma mp_read_into_leaf:
  assumes "\<not> is_container y" "wire_ok y"
  shows "mp_read_into (enc_obj y @ rest) d = MpOk (wire_value y, None, rest)"
proof (cases y)
  case (OFloat v)
  then show ?thesis by (simp add: mp_read_number_tags mp_scalar_def)
qed (use assms in \<open>simp_all add: mp_read_int mp_read_into_str\<close>, simp_all add: mp_read_into_def)

lemma mp_read_into_container:
  assumes "is_container y" "wire_ok y" "d < kMarshalDepthCap"
  shows "mp_read_into (enc_obj y @ rest) d =
    MpOk (new_container (is_dict y) (length (obj_children y)),
          Some (open_frame (is_dict y) (length (obj_children y))), enc_rest y 0 @ rest)"
  using mp_read_into_header [of "length (obj_children y)" "enc_rest y 0 @ rest" d] assms
    wire_ok_child(3) [of y] enc_rest_0_length [of y]
  by (simp add: enc_obj_container enc_header_def)

text \<open>The frame that is filling a copy of \<open>x\<close> with the first \<open>i\<close> children done.\<close>

definition fill_frame :: "object \<Rightarrow> object \<Rightarrow> nat \<Rightarrow> mp_dec_frame" where
  "fill_frame x c i =
     \<lparr>md_container = c, md_remaining = length (obj_children x), md_idx = i, md_is_map = is_dict x,
      md_awaiting_value = False\<rparr>"

definition dec_plug :: "mp_dec_frame list \<Rightarrow> object \<Rightarrow> byte list \<Rightarrow> (object \<times> byte list) mp_result" where
  "dec_plug fs v rest = (case fs of [] \<Rightarrow> MpOk (v, rest) | g # gs \<Rightarrow> dec_loop (mp_store g v # gs) rest)"

definition dec_key :: "object \<Rightarrow> object \<Rightarrow> nat \<Rightarrow> object" where
  "dec_key x c i = obj_set_key c i (wire_str (obj_key x i))"

lemma dec_loop_value:
  assumes "i < length (obj_children x)" "wire_ok x" "same_shape x c"
  shows "dec_loop (fill_frame x c i # fs) (enc_rest x i @ rest) =
    (case mp_read_into (enc_obj (obj_children x ! i) @ enc_rest x (Suc i) @ rest) (Suc (length fs)) of
       MpOk (v, Some g, r) \<Rightarrow> dec_loop (g # fill_frame x (dec_key x c i) (Suc i) # fs) r
     | MpOk (v, None, r) \<Rightarrow> dec_loop (fill_frame x (obj_set (dec_key x c i) i v) (Suc i) # fs) r
     | MpIncomplete \<Rightarrow> MpIncomplete
     | MpError e \<Rightarrow> MpError e)"
proof (cases "is_dict x")
  case True
  have "mp_read_key (enc_rest x i @ rest) =
      MpOk (wire_str (obj_key x i), enc_obj (obj_children x ! i) @ enc_rest x (Suc i) @ rest)"
    using mp_read_key_str [OF wire_ok_child(2) [OF assms(2,1)]] True by (simp add: enc_rest_step [OF assms(1)])
  then have "dec_loop (fill_frame x c i # fs) (enc_rest x i @ rest) =
      dec_loop (fill_frame x (dec_key x c i) i\<lparr>md_awaiting_value := True\<rparr> # fs)
        (enc_obj (obj_children x ! i) @ enc_rest x (Suc i) @ rest)"
    using assms(1) True by (subst dec_loop.simps) (simp add: fill_frame_def dec_key_def)
  also have "\<dots> =
    (case mp_read_into (enc_obj (obj_children x ! i) @ enc_rest x (Suc i) @ rest) (Suc (length fs)) of
       MpOk (v, Some g, r) \<Rightarrow> dec_loop (g # fill_frame x (dec_key x c i) (Suc i) # fs) r
     | MpOk (v, None, r) \<Rightarrow> dec_loop (fill_frame x (obj_set (dec_key x c i) i v) (Suc i) # fs) r
     | MpIncomplete \<Rightarrow> MpIncomplete
     | MpError e \<Rightarrow> MpError e)"
    using assms(1) True
    by (subst dec_loop.simps)
      (simp add: fill_frame_def mp_store_def Let_def split: mp_result.splits option.splits)
  finally show ?thesis .
next
  case False
  then have "obj_set_key c i k = c" for k using assms(3) by (cases x; cases c) simp_all
  then show ?thesis
    using assms(1) False
    by (subst dec_loop.simps)
      (simp add: fill_frame_def dec_key_def mp_store_def Let_def enc_rest_step
        split: mp_result.splits option.splits)
qed

lemma copy_rest_wire_step:
  assumes "same_shape x c" "i < length (obj_children x)"
  shows "copy_rest (wire_value x) (obj_set (dec_key x c i) i (wire_value (obj_children x ! i))) (Suc i)
       = copy_rest (wire_value x) c i"
  using assms
  by (cases x; cases c)
    (auto simp: dec_key_def take_update_Suc Cons_nth_drop_Suc drop_map nth_Cons_Suc
      simp del: take_Suc_conv_app_nth, (simp flip: Cons_nth_drop_Suc)+)

lemma wire_children [simp]: "obj_children (wire_value x) = map wire_value (obj_children x)"
  by (cases x) (simp_all add: comp_def)

lemma same_shape_wire [simp]: "same_shape (wire_value x) c = same_shape x c"
  by (cases x; cases c) simp_all

lemma same_shape_new: "is_container x \<Longrightarrow> same_shape x (new_container (is_dict x) (length (obj_children x)))"
  by (cases x) (simp_all add: new_container_def)

lemma copy_rest_new:
  "is_container x \<Longrightarrow> copy_rest x (new_container (is_dict x) (length (obj_children x))) 0 = x"
  by (cases x) (simp_all add: new_container_def)

lemma is_dict_wire [simp]: "is_dict (wire_value x) = is_dict x"
  by (cases x) simp_all

lemma mp_store_fill: "mp_store (fill_frame x c (Suc i)) v = fill_frame x (obj_set c i v) (Suc i)"
  by (simp add: mp_store_def fill_frame_def)

lemma open_frame_fill:
  "open_frame (is_dict x) (length (obj_children x)) =
   fill_frame x (new_container (is_dict x) (length (obj_children x))) 0"
  by (simp add: open_frame_def fill_frame_def)

lemma same_shape_is_container: "same_shape x c \<Longrightarrow> is_container x"
  by (cases x; cases c) simp_all

lemma dec_loop_fills:
  "wire_ok x \<Longrightarrow> same_shape x c \<Longrightarrow>
   Suc (kids_depth (drop i (obj_children x))) + length fs \<le> kMarshalDepthCap \<Longrightarrow>
   dec_loop (fill_frame x c i # fs) (enc_rest x i @ rest) = dec_plug fs (copy_rest (wire_value x) c i) rest"
proof (induction "kids_nodes (drop i (obj_children x))" arbitrary: x c i fs rest rule: less_induct)
  case less
  show ?case
  proof (cases "i < length (obj_children x)")
    case False
    then have "enc_rest x i = []" by (simp add: enc_rest_def)
    moreover have "copy_rest (wire_value x) c i = c" using False less.prems by (intro copy_rest_done) simp_all
    ultimately show ?thesis
      using False by (subst dec_loop.simps) (cases fs; simp add: fill_frame_def dec_plug_def)
  next
    case True
    let ?y = "obj_children x ! i"
    let ?r = "enc_rest x (Suc i) @ rest"
    note y = wire_ok_child(1) [OF less.prems(1) True]
    have d: "obj_depth ?y + Suc (length fs) \<le> kMarshalDepthCap"
      "Suc (kids_depth (drop (Suc i) (obj_children x))) + length fs \<le> kMarshalDepthCap"
      using less.prems(3) True by (simp_all add: kids_drop(1))
    have next_child: "dec_loop (fill_frame x (obj_set (dec_key x c i) i (wire_value ?y)) (Suc i) # fs) ?r
        = dec_plug fs (copy_rest (wire_value x) c i) rest"
      using less.hyps [of "Suc i" x "obj_set (dec_key x c i) i (wire_value ?y)" fs rest] less.prems d(2) True
      by (simp add: kids_drop(2) dec_key_def copy_rest_wire_step [unfolded dec_key_def])
    show ?thesis
    proof (cases "is_container ?y")
      case False
      show ?thesis
        unfolding dec_loop_value [OF True less.prems(1,2)] mp_read_into_leaf [OF False y]
        using next_child by simp
    next
      case c: True
      have cap: "Suc (length fs) < kMarshalDepthCap" using d(1) c by (simp add: obj_depth_container)
      have "dec_loop (fill_frame ?y (new_container (is_dict ?y) (length (obj_children ?y))) 0
              # fill_frame x (dec_key x c i) (Suc i) # fs) (enc_rest ?y 0 @ ?r)
          = dec_plug (fill_frame x (dec_key x c i) (Suc i) # fs) (wire_value ?y) ?r"
        using less.hyps [of 0 ?y "new_container (is_dict ?y) (length (obj_children ?y))"
            "fill_frame x (dec_key x c i) (Suc i) # fs" ?r] y c d(1) True
          copy_rest_new [of "wire_value ?y"]
        by (simp add: same_shape_new obj_depth_container obj_nodes_container kids_drop(2))
      then show ?thesis
        unfolding dec_loop_value [OF True less.prems(1,2)] mp_read_into_container [OF c y cap]
        using next_child by (simp add: open_frame_fill dec_plug_def mp_store_fill)
    qed
  qed
qed

lemma msgpack_decode_encoded:
  assumes "obj_depth x \<le> kMarshalDepthCap" "wire_ok x"
  shows "msgpack_to_object (enc_obj x @ rest) = MpOk (wire_value x, rest)"
proof (cases "is_container x")
  case True
  then show ?thesis
    using dec_loop_fills [of x "new_container (is_dict x) (length (obj_children x))" 0 "[]" rest] assms
      mp_read_into_container [of x 0 rest] copy_rest_new [of "wire_value x"]
    by (simp add: msgpack_to_object_def open_frame_fill same_shape_new obj_depth_container dec_plug_def
        kMarshalDepthCap_def)
next
  case False
  then show ?thesis using mp_read_into_leaf [OF False assms(2)] by (simp add: msgpack_to_object_def)
qed

section \<open>Truncated and extended input\<close>

text \<open>Further bytes only change an \<open>Incomplete\<close>; \<open>ext\<close> appends them to the unread rest.\<close>

definition ext :: "'b list \<Rightarrow> ('a \<times> 'b list) mp_result \<Rightarrow> ('a \<times> 'b list) mp_result" where
  "ext m r = (case r of MpOk (v, rest) \<Rightarrow> MpOk (v, rest @ m) | MpIncomplete \<Rightarrow> MpIncomplete | MpError e \<Rightarrow> MpError e)"

definition ext_slot :: "byte list \<Rightarrow> mp_slot \<Rightarrow> mp_slot" where
  "ext_slot m r =
     (case r of MpOk (v, fr, rest) \<Rightarrow> MpOk (v, fr, rest @ m) | MpIncomplete \<Rightarrow> MpIncomplete | MpError e \<Rightarrow> MpError e)"

lemma ext_simps [simp]:
  "ext m (MpOk (v, rest)) = MpOk (v, rest @ m)" "ext m MpIncomplete = MpIncomplete" "ext m (MpError e) = MpError e"
  "ext_slot m (MpOk (w, fr, rest')) = MpOk (w, fr, rest' @ m)" "ext_slot m MpIncomplete = MpIncomplete"
  "ext_slot m (MpError e) = MpError e"
  by (simp_all add: ext_def ext_slot_def)

lemma mp_be_append: "n \<le> length inp \<Longrightarrow> mp_be (inp @ m) n = mp_be inp n"
  by (simp add: mp_be_def)

lemma mp_take_uint_ext:
  "mp_take_uint inp n \<noteq> MpIncomplete \<Longrightarrow> mp_take_uint (inp @ m) n = ext m (mp_take_uint inp n)"
  by (auto simp: mp_take_uint_def mp_be_append)

lemma mp_take_str_ext:
  "mp_take_str inp h n \<noteq> MpIncomplete \<Longrightarrow> mp_take_str (inp @ m) h n = ext m (mp_take_str inp h n)"
  by (auto simp: mp_take_str_def)

lemma mp_open_ext:
  "h \<le> length inp \<Longrightarrow> mp_open inp h n b d \<noteq> MpIncomplete \<Longrightarrow>
   mp_open (inp @ m) h n b d = ext_slot m (mp_open inp h n b d)"
  by (auto simp: mp_open_eq split: if_splits)

lemma mp_scalar_ext:
  "(r \<noteq> MpIncomplete \<Longrightarrow> r' = ext m r) \<Longrightarrow> mp_scalar mk r \<noteq> MpIncomplete \<Longrightarrow>
   mp_scalar mk r' = ext_slot m (mp_scalar mk r)"
  by (cases r) (auto simp: mp_scalar_def)

lemma mp_scalar_str_ext:
  "mp_scalar mk (mp_take_str inp h n) \<noteq> MpIncomplete \<Longrightarrow>
   mp_scalar mk (mp_take_str (inp @ m) h n) = ext_slot m (mp_scalar mk (mp_take_str inp h n))"
  by (rule mp_scalar_ext) (simp_all add: mp_take_str_ext)

lemma mp_scalar_uint_ext:
  "mp_scalar mk (mp_take_uint inp n) \<noteq> MpIncomplete \<Longrightarrow>
   mp_scalar mk (mp_take_uint (inp @ m) n) = ext_slot m (mp_scalar mk (mp_take_uint inp n))"
  by (rule mp_scalar_ext) (simp_all add: mp_take_uint_ext)

lemma mp_read_number_ext:
  "mp_read_number b inp \<noteq> MpIncomplete \<Longrightarrow>
   mp_read_number b (inp @ m) = ext_slot m (mp_read_number b inp)"
  unfolding mp_read_number_def by (auto intro!: mp_scalar_uint_ext split: if_splits)

lemma mp_with_len_ext:
  "(\<And>n. w < length inp \<Longrightarrow> k (w + 1) n \<noteq> MpIncomplete \<Longrightarrow> k' (w + 1) n = e (k (w + 1) n)) \<Longrightarrow>
   mp_with_len inp w k \<noteq> MpIncomplete \<Longrightarrow> mp_with_len (inp @ m) w k' = e (mp_with_len inp w k)"
  by (auto simp: mp_with_len_def mp_be_append split: if_splits)

lemma mp_len_str_ext:
  "mp_with_len inp w (\<lambda>h n. mp_scalar OString (mp_take_str inp h n)) \<noteq> MpIncomplete \<Longrightarrow>
   mp_with_len (inp @ m) w (\<lambda>h n. mp_scalar OString (mp_take_str (inp @ m) h n)) =
   ext_slot m (mp_with_len inp w (\<lambda>h n. mp_scalar OString (mp_take_str inp h n)))"
  by (rule mp_with_len_ext) (simp_all add: mp_scalar_str_ext)

lemma mp_len_key_ext:
  "mp_with_len inp w (mp_take_str inp) \<noteq> MpIncomplete \<Longrightarrow>
   mp_with_len (inp @ m) w (mp_take_str (inp @ m)) = ext m (mp_with_len inp w (mp_take_str inp))"
  by (rule mp_with_len_ext) (simp_all add: mp_take_str_ext)

lemma mp_len_open_ext:
  "mp_with_len inp w (\<lambda>h n. mp_open inp h n b d) \<noteq> MpIncomplete \<Longrightarrow>
   mp_with_len (inp @ m) w (\<lambda>h n. mp_open (inp @ m) h n b d) =
   ext_slot m (mp_with_len inp w (\<lambda>h n. mp_open inp h n b d))"
  by (rule mp_with_len_ext) (simp_all add: mp_open_ext)

lemmas mp_exts = mp_scalar_str_ext mp_read_number_ext mp_len_str_ext mp_len_key_ext mp_len_open_ext

lemma mp_read_ext_ext:
  "mp_read_ext b inp d \<noteq> MpIncomplete \<Longrightarrow> mp_read_ext b (inp @ m) d = ext_slot m (mp_read_ext b inp d)"
  unfolding mp_read_ext_def by (auto intro!: mp_exts split: if_splits)

lemma mp_read_into_ext:
  "mp_read_into inp d \<noteq> MpIncomplete \<Longrightarrow> mp_read_into (inp @ m) d = ext_slot m (mp_read_into inp d)"
proof (cases inp)
  case (Cons b rest)
  assume "mp_read_into inp d \<noteq> MpIncomplete"
  then show ?thesis
    unfolding mp_read_into_def Cons append_Cons list.case
    using mp_scalar_str_ext [of OString "b # rest" 1 _ m] mp_open_ext [of 1 "b # rest" _ _ _ m]
      mp_read_ext_ext [of b "b # rest" d m]
    by (auto split: if_splits)
qed (simp add: mp_read_into_def)

lemma mp_read_key_ext:
  "mp_read_key inp \<noteq> MpIncomplete \<Longrightarrow> mp_read_key (inp @ m) = ext m (mp_read_key inp)"
proof (cases inp)
  case (Cons b rest)
  assume "mp_read_key inp \<noteq> MpIncomplete"
  then show ?thesis
    unfolding mp_read_key_def Cons append_Cons list.case
    using mp_take_str_ext [of "b # rest" 1 _ m] mp_len_key_ext [of "b # rest" _ m]
    by (auto split: if_splits)
qed (simp add: mp_read_key_def)

lemma dec_loop_ext:
  "dec_loop stack inp \<noteq> MpIncomplete \<Longrightarrow> dec_loop stack (inp @ m) = ext m (dec_loop stack inp)"
proof (induction stack inp rule: dec_loop.induct)
  case (1 stack inp)
  show ?case
  proof (cases stack)
    case Nil
    then show ?thesis using 1(5) by (simp add: dec_loop.simps [of "[]"])
  next
    case (Cons f fs)
    note ih = "1.IH" [OF Cons]
    note unf = dec_loop.simps [of "f # xs" for xs]
    consider (pop) "md_remaining f \<le> md_idx f"
      | (key) "\<not> md_remaining f \<le> md_idx f" "md_is_map f \<and> \<not> md_awaiting_value f"
      | (val) "\<not> md_remaining f \<le> md_idx f" "\<not> (md_is_map f \<and> \<not> md_awaiting_value f)"
      by blast
    then show ?thesis
    proof cases
      case pop
      then show ?thesis using ih(1) 1(5) Cons by (cases fs) (simp_all add: unf)
    next
      case key
      have ni: "mp_read_key inp \<noteq> MpIncomplete" using 1(5) key Cons by (auto simp: unf)
      then show ?thesis
        using ih(2) [OF key] 1(5) key Cons mp_read_key_ext [OF ni, of m]
        by (cases "mp_read_key inp") (auto simp: unf)
    next
      case val
      have ni: "mp_read_into inp (length stack) \<noteq> MpIncomplete" using 1(5) val Cons by (auto simp: unf Let_def)
      then show ?thesis
        using ih(3,4) [OF val refl] 1(5) val Cons mp_read_into_ext [OF ni, of m]
        by (cases "mp_read_into inp (length stack)") (auto simp: unf Let_def split: option.splits)
    qed
  qed
qed

lemma msgpack_to_object_ext:
  "msgpack_to_object inp \<noteq> MpIncomplete \<Longrightarrow> msgpack_to_object (inp @ m) = ext m (msgpack_to_object inp)"
proof -
  assume a: "msgpack_to_object inp \<noteq> MpIncomplete"
  then have "mp_read_into inp 0 \<noteq> MpIncomplete" by (auto simp: msgpack_to_object_def)
  then show ?thesis
    using a mp_read_into_ext [of inp 0 m]
    by (cases "mp_read_into inp 0") (auto simp: msgpack_to_object_def dec_loop_ext split: option.splits)
qed

section \<open>Bounds on what is decoded\<close>

lemma kids_nodes_append [simp]: "kids_nodes (xs @ ys) = kids_nodes xs + kids_nodes ys"
  by (induction xs) simp_all

text \<open>Levels are counted from the bottom of the stack; only the top frame has no open child.\<close>

fun dec_inv :: "bool \<Rightarrow> mp_dec_frame list \<Rightarrow> bool" where
  "dec_inv tp [] = True"
| "dec_inv tp (f # fs) =
     (is_container (md_container f) \<and> md_remaining f = length (obj_children (md_container f))
      \<and> md_idx f \<le> md_remaining f \<and> (tp \<or> 0 < md_idx f)
      \<and> kids_depth (obj_children (md_container f)) + Suc (length fs) \<le> kMarshalDepthCap \<and> dec_inv False fs)"

fun dec_done :: "bool \<Rightarrow> mp_dec_frame list \<Rightarrow> nat" where
  "dec_done tp [] = 0"
| "dec_done tp (f # fs) =
     Suc (kids_nodes (take (if tp then md_idx f else md_idx f - 1) (obj_children (md_container f))))
     + dec_done False fs"

lemma kids_depth_replicate [simp]: "kids_depth (replicate n ONil) = 0"
  by (induction n) simp_all

lemma new_container_props [simp]:
  "is_container (new_container m n)" "obj_children (new_container m n) = replicate n ONil"
  by (simp_all add: new_container_def)

lemma mp_store_props [simp]:
  "md_remaining (mp_store g v) = md_remaining g" "md_idx (mp_store g v) = md_idx g"
  "md_container (mp_store g v) = obj_set (md_container g) (md_idx g - 1) v"
  by (simp_all add: mp_store_def)

lemma dec_inv_store:
  assumes "dec_inv False (g # gs)" "obj_depth v + Suc (length gs) \<le> kMarshalDepthCap"
  shows "dec_inv True (mp_store g v # gs)"
    "dec_done True (mp_store g v # gs) + 1 = dec_done False (g # gs) + obj_nodes v + 1"
proof -
  show "dec_inv True (mp_store g v # gs)"
    using assms kids_depth_update [of "obj_children (md_container g)" "md_idx g - 1" v] by (auto simp: max_def split: if_splits)
  obtain i where i: "md_idx g = Suc i" using assms(1) by (cases "md_idx g") auto
  with assms(1) have "i < length (obj_children (md_container g))" by simp
  then show "dec_done True (mp_store g v # gs) + 1 = dec_done False (g # gs) + obj_nodes v + 1"
    using i by (simp add: take_update_Suc del: take_Suc_conv_app_nth)
qed

lemma mp_read_into_props:
  "mp_read_into inp d = MpOk (v, fr, rest) \<Longrightarrow>
   (case fr of None \<Rightarrow> \<not> is_container v
    | Some g \<Rightarrow> (\<exists>m n. g = open_frame m n) \<and> d < kMarshalDepthCap)"
  by (cases inp;
      (auto simp: mp_read_into_def mp_read_ext_def mp_read_number_def mp_scalar_MpOk mp_with_len_MpOk mp_open_eq
        split: if_splits; blast))

lemma dec_loop_bounds:
  "dec_loop stack inp = MpOk (v, rest) \<Longrightarrow> dec_inv True stack \<Longrightarrow>
   obj_depth v \<le> kMarshalDepthCap \<and> obj_nodes v + length rest \<le> dec_done True stack + length inp"
proof (induction stack inp rule: dec_loop.induct)
  case (1 stack inp)
  show ?case
  proof (cases stack)
    case Nil
    then show ?thesis using "1.prems" by (simp add: dec_loop.simps [of "[]"])
  next
    case (Cons f fs)
    note ih = "1.IH" [OF Cons]
    note unf = dec_loop.simps [of "f # xs" for xs]
    have inv: "dec_inv True (f # fs)" using "1.prems" Cons by simp
    consider (pop) "md_remaining f \<le> md_idx f"
      | (key) "\<not> md_remaining f \<le> md_idx f" "md_is_map f \<and> \<not> md_awaiting_value f"
      | (val) "\<not> md_remaining f \<le> md_idx f" "\<not> (md_is_map f \<and> \<not> md_awaiting_value f)"
      by blast
    then show ?thesis
    proof cases
      case pop
      let ?c = "md_container f"
      have c: "obj_nodes ?c = Suc (kids_nodes (take (md_idx f) (obj_children ?c)))"
        "obj_depth ?c + length fs \<le> kMarshalDepthCap"
        using inv pop by (simp_all add: obj_nodes_container obj_depth_container)
      show ?thesis
      proof (cases fs)
        case Nil
        then show ?thesis using "1.prems" c pop Cons by (simp add: unf)
      next
        case f2: (Cons g gs)
        have "dec_inv True (mp_store g ?c # gs)" "dec_done True (mp_store g ?c # gs) = dec_done True (f # fs)"
          using dec_inv_store [of g gs ?c] inv c f2 by simp_all
        then show ?thesis using ih(1) [OF pop f2] "1.prems" pop Cons f2 by (simp add: unf)
      qed
    next
      case key
      obtain k r where r: "mp_read_key inp = MpOk (k, r)"
        using "1.prems" key Cons by (cases "mp_read_key inp") (auto simp: unf)
      then show ?thesis
        using ih(2) [OF key r refl] "1.prems" key Cons inv mp_read_key_shorter [OF r] by (simp add: unf)
    next
      case val
      obtain w fr r where r: "mp_read_into inp (length stack) = MpOk (w, fr, r)"
        using "1.prems" val Cons by (cases "mp_read_into inp (length stack)") (auto simp: unf Let_def)
      let ?f = "f\<lparr>md_idx := md_idx f + 1, md_awaiting_value := False\<rparr>"
      have f: "dec_inv False (?f # fs)" "dec_done False (?f # fs) = dec_done True (f # fs)"
        using inv val by simp_all
      show ?thesis
      proof (cases fr)
        case None
        then have w: "obj_depth w = 0" "obj_nodes w = 1"
          using mp_read_into_props [OF r] by (simp_all add: obj_depth_container obj_nodes_container)
        then show ?thesis
          using ih(3) [OF val refl r refl refl None] "1.prems" val Cons inv None mp_read_into_shorter [OF r] r
            dec_inv_store [OF f(1), of w] f(2)
          by (simp add: unf Let_def)
      next
        case (Some g)
        then obtain m n where g: "g = open_frame m n" "length stack < kMarshalDepthCap"
          using mp_read_into_props [OF r] by auto
        then have "dec_inv True (g # ?f # fs)" "dec_done True (g # ?f # fs) = Suc (dec_done True (f # fs))"
          using f Cons by (simp_all add: open_frame_def)
        then show ?thesis
          using ih(4) [OF val refl r refl refl Some] "1.prems" val Cons Some mp_read_into_shorter [OF r] r
          by (simp add: unf Let_def)
      qed
    qed
  qed
qed

lemma msgpack_to_object_bounds:
  assumes "msgpack_to_object inp = MpOk (v, rest)"
  shows "obj_depth v \<le> kMarshalDepthCap \<and> obj_nodes v + length rest \<le> length inp"
proof -
  obtain w fr r where r: "mp_read_into inp 0 = MpOk (w, fr, r)"
    using assms by (cases "mp_read_into inp 0") (auto simp: msgpack_to_object_def)
  show ?thesis
  proof (cases fr)
    case None
    then show ?thesis
      using assms r mp_read_into_props [OF r] mp_read_into_shorter [OF r]
      by (simp add: msgpack_to_object_def obj_depth_container obj_nodes_container)
  next
    case (Some g)
    then obtain m n where "g = open_frame m n" using mp_read_into_props [OF r] by auto
    then show ?thesis
      using dec_loop_bounds [of "[g]" r v rest] assms r Some mp_read_into_shorter [OF r]
      by (simp add: msgpack_to_object_def open_frame_def kMarshalDepthCap_def)
  qed
qed

section \<open>Properties\<close>

text \<open>The objects that come back as they were: no Session, and no empty string that has a data pointer.\<close>

fun wire_exact :: "object \<Rightarrow> bool" where
  "wire_exact (OString s) = (s \<noteq> Some [])"
| "wire_exact (OSession _) = False"
| "wire_exact (OArray xs) = list_all wire_exact xs"
| "wire_exact (ODict kvs) = list_all (\<lambda>kv. fst kv \<noteq> Some [] \<and> wire_exact (snd kv)) kvs"
| "wire_exact _ = True"

lemma wire_str_same: "wire_str s = s \<longleftrightarrow> s \<noteq> Some []"
  by (cases s) (auto simp: wire_str_def)

lemma map_same: "map f xs = xs \<longleftrightarrow> (\<forall>x \<in> set xs. f x = x)"
  by (induction xs) auto

lemma wire_value_same: "wire_value x = x \<longleftrightarrow> wire_exact x"
proof (induction x rule: wire_exact.induct)
  case (4 kvs)
  have "(\<lambda>kv. (wire_str (fst kv), wire_value (snd kv))) kv = kv \<longleftrightarrow> fst kv \<noteq> Some [] \<and> wire_exact (snd kv)"
    if "kv \<in> set kvs" for kv
    using 4 [OF that] by (cases kv) (simp add: wire_str_same)
  then show ?case by (auto simp: map_same list_all_iff)
qed (auto simp: wire_str_same map_same list_all_iff)

text \<open>C3. The round trip of \<open>msgpack_encode\<close> and \<open>msgpack_to_object\<close>. The encoder takes exactly the objects
  within the depth cap whose sizes and counts fit 32 bits, and appends bytes that decode, whatever follows
  them, to \<open>wire_value\<close> of the object: the object itself except that a Session becomes Nil and an empty
  string comes back without its data pointer. So an object comes back unchanged exactly when it has
  neither.\<close>

theorem msgpack_roundtrip:
  "(case msgpack_encode buf x of
      None \<Rightarrow> \<not> (obj_depth x \<le> kMarshalDepthCap \<and> wire_ok x)
    | Some buf' \<Rightarrow> obj_depth x \<le> kMarshalDepthCap \<and> wire_ok x
        \<and> take (length (mb_data buf)) (mb_data buf') = mb_data buf
        \<and> msgpack_to_object (drop (length (mb_data buf)) (mb_data buf') @ extra) = MpOk (wire_value x, extra))
   \<and> (wire_value x = x \<longleftrightarrow> wire_exact x)"
  using msgpack_encode_data [of buf x] msgpack_decode_encoded [of x extra] wire_value_same [of x]
  by (auto split: option.split if_splits)

text \<open>Every strict prefix of an encoded value is reported as incomplete, never as a
  value and never as an error, so a reader that retries with more bytes loses nothing.\<close>

theorem msgpack_prefix_incomplete:
  assumes "msgpack_encode MSGPACK_BUFFER_INIT x = Some buf" "n < length (mb_data buf)"
  shows "msgpack_to_object (take n (mb_data buf)) = MpIncomplete"
proof (rule ccontr)
  let ?e = "mb_data buf"
  assume "msgpack_to_object (take n ?e) \<noteq> MpIncomplete"
  from msgpack_to_object_ext [OF this, of "drop n ?e"]
  have "msgpack_to_object ?e = ext (drop n ?e) (msgpack_to_object (take n ?e))" by simp
  moreover have "msgpack_to_object ?e = MpOk (wire_value x, [])"
    using msgpack_encode_data [of MSGPACK_BUFFER_INIT x] msgpack_decode_encoded [of x "[]"] assms(1)
    by (auto simp: MSGPACK_BUFFER_INIT_def split: if_splits)
  ultimately show False using assms(2) by (cases "msgpack_to_object (take n ?e)") auto
qed

definition sample_wire :: "byte list" where
  "sample_wire = [0x82, 0xa1, 0x6b, 0x92, 0xa1, 0x76, 0xc0, 0xa1, 0x6e, 0x07]"

lemma sample_encoded:
  "map_option mb_data (msgpack_encode MSGPACK_BUFFER_INIT sample_object) = Some sample_wire"
  unfolding msgpack_encode_data
  by (simp add: sample_object_def kMarshalDepthCap_def MSGPACK_BUFFER_INIT_def sample_wire_def enc_count_def
      enc_str_def mp_emit_int_def Let_def byte_of_char_def)

theorem msgpack_prefix_incomplete_witness:
  "\<exists>buf. msgpack_encode MSGPACK_BUFFER_INIT sample_object = Some buf
     \<and> msgpack_to_object (take 7 (mb_data buf)) = MpIncomplete"
proof -
  obtain buf where b: "msgpack_encode MSGPACK_BUFFER_INIT sample_object = Some buf" "mb_data buf = sample_wire"
    using sample_encoded by auto
  have "msgpack_to_object (take 7 (mb_data buf)) = MpIncomplete"
    by (rule msgpack_prefix_incomplete [OF b(1)]) (simp add: b(2) sample_wire_def)
  with b(1) show ?thesis by blast
qed

text \<open>A verdict other than incomplete is final: bytes arriving later change neither a
  decoded value nor a decoding error, and stay unread.\<close>

theorem msgpack_verdict_final:
  assumes "msgpack_to_object inp \<noteq> MpIncomplete"
  shows "msgpack_to_object (inp @ extra) = ext extra (msgpack_to_object inp)"
  using assms by (rule msgpack_to_object_ext)

theorem msgpack_verdict_final_witness:
  "msgpack_to_object ([0xc1] @ [0x00]) = ext [0x00] (msgpack_to_object [0xc1])"
  by (rule msgpack_verdict_final) (simp add: msgpack_to_object_def mp_read_into_def mp_read_ext_def)

text \<open>Whatever the bytes, a decoded value is nested at most \<open>kMarshalDepthCap\<close> deep
  (so no walk over it overflows its stack) and has at most one node per consumed byte (so a
  lying count cannot exhaust memory), and decoding consumes at least one byte.\<close>

theorem msgpack_decoded_bounded:
  assumes "msgpack_to_object inp = MpOk (v, rest)"
  shows "obj_depth v \<le> kMarshalDepthCap \<and> obj_nodes v + length rest \<le> length inp \<and> length rest < length inp"
  using msgpack_to_object_bounds [OF assms] obj_nodes_pos [of v] by linarith

theorem msgpack_decoded_bounded_witness:
  "\<exists>v. msgpack_to_object (sample_wire @ [0xc0]) = MpOk (v, [0xc0]) \<and> obj_depth v \<le> kMarshalDepthCap
     \<and> obj_nodes v + 1 \<le> length sample_wire + 1"
proof -
  obtain buf where "msgpack_encode MSGPACK_BUFFER_INIT sample_object = Some buf" "mb_data buf = sample_wire"
    using sample_encoded by auto
  then have "enc_obj sample_object = sample_wire" "wire_ok sample_object" "obj_depth sample_object \<le> kMarshalDepthCap"
    using msgpack_encode_data [of MSGPACK_BUFFER_INIT sample_object]
    by (auto simp: MSGPACK_BUFFER_INIT_def split: if_splits)
  then have d: "msgpack_to_object (sample_wire @ [0xc0]) = MpOk (wire_value sample_object, [0xc0])"
    using msgpack_decode_encoded [of sample_object "[0xc0]"] by simp
  from msgpack_decoded_bounded [OF d] d show ?thesis by auto
qed

end
