(* ===== verification/Rpc.thy ===== *)
theory Rpc
  imports Api MsgpackProps
begin

text \<open>
  The msgpack-RPC channel of \<open>mua --embed\<close> (\<open>rpc.c\<close>). libuv is the two pipe handles and the read
  callbacks it makes: \<open>uv_close\<close> on a handle that is not open aborts the process. A response is
  recorded in \<open>rs_written\<close> when \<open>uv_write\<close> is called; whether that call succeeds only decides who
  frees the bytes. An outer \<open>None\<close> is an abort, from libuv or from a failed assertion.
\<close>

definition kRpcReadChunk :: nat where "kRpcReadChunk = 65536"
definition kRpcMaxMessage :: nat where "kRpcMaxMessage = 16 * 2 ^ 20"

section \<open>The server\<close>

datatype uv_pipe = PipeNone | PipeOpen | PipeClosing

record rpc_server =
  rs_in :: uv_pipe
  rs_out :: uv_pipe
  rs_buf :: "byte list"
  rs_cap :: nat
  rs_stopping :: bool
  rs_written :: "byte list list"

definition pipe_close :: "uv_pipe \<Rightarrow> uv_pipe option" where
  "pipe_close p = (if p = PipeOpen then Some PipeClosing else None)"

definition close_if_open :: "uv_pipe \<Rightarrow> uv_pipe option" where
  "close_if_open p = (if p \<noteq> PipeClosing then pipe_close p else Some p)"

definition begin_stop :: "rpc_server \<Rightarrow> rpc_server option" where
  "begin_stop s =
     (if rs_stopping s then Some s
      else let s = s\<lparr>rs_stopping := True\<rparr> in map_option (\<lambda>p. s\<lparr>rs_in := p\<rparr>) (pipe_close (rs_in s)))"

section \<open>Responses\<close>

text \<open>The four elements after the array header; \<open>uv_buf_init\<close> keeps the low 32 bits of the size.\<close>

definition encode_all :: "mp_buffer option \<Rightarrow> object list \<Rightarrow> mp_buffer option" where
  "encode_all b xs = foldl (\<lambda>b x. Option.bind b (\<lambda>b. msgpack_encode b x)) b xs"

definition uv_bytes :: "mp_buffer \<Rightarrow> byte list" where
  "uv_bytes b = take (length (mb_data b) mod 2 ^ 32) (mb_data b)"

definition write_response :: "rpc_server \<Rightarrow> u64 \<Rightarrow> object \<Rightarrow> object \<Rightarrow> rpc_server option" where
  "write_response s msgid err result =
     map_option (\<lambda>b. s\<lparr>rs_written := rs_written s @ [uv_bytes b]\<rparr>)
       (encode_all (msgpack_encode_array_header MSGPACK_BUFFER_INIT 4)
          [OInteger 1, OInteger msgid, err, result])"

fun error_code :: "error_type \<Rightarrow> u64" where
  "error_code kErrorTypeException = 0"
| "error_code kErrorTypeValidation = 1"

text \<open>\<open>NIL\<close> without an error, else the pair of the type and the message.\<close>

definition error_object :: "error option \<Rightarrow> object" where
  "error_object err =
     (case err of
        None \<Rightarrow> ONil
      | Some (ty, msg) \<Rightarrow> OArray [OInteger (error_code ty), OString (Some (cstr msg))])"

definition call_method :: "mstring \<Rightarrow> object \<Rightarrow> mua_state \<Rightarrow> (error option \<times> object \<times> mua_state) option" where
  "call_method name params m =
     (case api_dispatch_find name of
        None \<Rightarrow> usage_error (''unknown method: '' @ cstr (str_bytes name)) m
      | Some fn \<Rightarrow>
          (case params of
             OArray args \<Rightarrow> fn args m
           | _ \<Rightarrow> usage_error ''params must be an array'' m))"

definition dispatch_and_respond ::
    "u64 \<Rightarrow> mstring \<Rightarrow> object \<Rightarrow> rpc_server \<times> mua_state \<Rightarrow> (rpc_server \<times> mua_state) option" where
  "dispatch_and_respond msgid name params sm =
     (case call_method name params (snd sm) of
        None \<Rightarrow> None
      | Some (err, result, m) \<Rightarrow>
          map_option (\<lambda>s. (s, m)) (write_response (fst sm) msgid (error_object err) result))"

definition dispatch_notify :: "mstring \<Rightarrow> object \<Rightarrow> rpc_server \<times> mua_state \<Rightarrow> (rpc_server \<times> mua_state) option" where
  "dispatch_notify name params sm =
     (case (api_dispatch_find name, params) of
        (Some fn, OArray args) \<Rightarrow> map_option (\<lambda>(err, result, m). (fst sm, m)) (fn args (snd sm))
      | _ \<Rightarrow> Some sm)"

section \<open>Frames\<close>

definition close_channel :: "rpc_server \<times> mua_state \<Rightarrow> (rpc_server \<times> mua_state) option" where
  "close_channel sm = map_option (\<lambda>s. (s, snd sm)) (begin_stop (fst sm))"

definition handle_frame :: "object \<Rightarrow> rpc_server \<times> mua_state \<Rightarrow> (rpc_server \<times> mua_state) option" where
  "handle_frame frame sm =
     (case frame of
        OArray a \<Rightarrow>
          if length a = 4 \<and> a ! 0 = OInteger 0
          then (case (a ! 1, a ! 2) of
                  (OInteger msgid, OString name) \<Rightarrow> dispatch_and_respond msgid name (a ! 3) sm
                | _ \<Rightarrow> close_channel sm)
          else if length a = 3 \<and> a ! 0 = OInteger 2
          then (case a ! 1 of
                  OString name \<Rightarrow> dispatch_notify name (a ! 2) sm
                | _ \<Rightarrow> close_channel sm)
          else close_channel sm
      | _ \<Rightarrow> close_channel sm)"

text \<open>The doubling loop is that of \<open>mp_reserve\<close>.\<close>

definition rpc_append :: "byte list \<Rightarrow> rpc_server \<Rightarrow> rpc_server" where
  "rpc_append bytes s =
     (let need = length (rs_buf s) + length bytes;
          s = (if need > rs_cap s
               then s\<lparr>rs_cap := mp_double (if rs_cap s \<noteq> 0 then rs_cap s else kRpcReadChunk) need\<rparr> else s)
      in s\<lparr>rs_buf := rs_buf s @ bytes\<rparr>)"

lemma begin_stop_buf: "begin_stop s = Some s' \<Longrightarrow> rs_buf s' = rs_buf s"
  by (auto simp: begin_stop_def Let_def split: if_splits)

lemma handle_frame_buf: "handle_frame frame sm = Some sm' \<Longrightarrow> rs_buf (fst sm') = rs_buf (fst sm)"
  by (auto simp: handle_frame_def close_channel_def dispatch_and_respond_def dispatch_notify_def write_response_def
      dest: begin_stop_buf split: object.splits option.splits if_splits prod.splits)

lemma msgpack_to_object_shorter: "msgpack_to_object inp = MpOk (v, rest) \<Longrightarrow> length rest < length inp"
  using msgpack_to_object_bounds [of inp v rest] obj_nodes_pos [of v] by linarith

definition rpc_consume :: "byte list \<Rightarrow> rpc_server \<times> mua_state \<Rightarrow> rpc_server \<times> mua_state" where
  "rpc_consume rest sm =
     (let s = fst sm; consumed = length (rs_buf s) - length rest
      in (s\<lparr>rs_buf := drop consumed (rs_buf s)\<rparr>, snd sm))"

function rpc_drain :: "rpc_server \<times> mua_state \<Rightarrow> (rpc_server \<times> mua_state) option" where
  "rpc_drain sm =
     (if rs_stopping (fst sm) \<or> rs_buf (fst sm) = [] then Some sm
      else (case msgpack_to_object (rs_buf (fst sm)) of
              MpIncomplete \<Rightarrow> if length (rs_buf (fst sm)) > kRpcMaxMessage then close_channel sm else Some sm
            | MpError e \<Rightarrow> close_channel sm
            | MpOk (frame, rest) \<Rightarrow>
                (case handle_frame frame sm of
                   None \<Rightarrow> None
                 | Some sm' \<Rightarrow> rpc_drain (rpc_consume rest sm'))))"
  by auto

termination rpc_drain
  by (relation "measure (\<lambda>sm. length (rs_buf (fst sm)))")
    (auto simp: rpc_consume_def Let_def dest!: handle_frame_buf msgpack_to_object_shorter)

declare rpc_drain.simps [simp del]

section \<open>Serving\<close>

text \<open>A read callback: \<open>ReadEnd\<close> is a negative \<open>nread\<close>, an end of file or a read error.\<close>

datatype rpc_read = ReadData "byte list" | ReadEnd

definition read_cb :: "rpc_read \<Rightarrow> rpc_server \<times> mua_state \<Rightarrow> (rpc_server \<times> mua_state) option" where
  "read_cb r sm =
     (case r of
        ReadEnd \<Rightarrow> close_channel sm
      | ReadData bytes \<Rightarrow>
          if bytes \<noteq> [] then rpc_drain (rpc_append bytes (fst sm), snd sm) else Some sm)"

text \<open>The loop: a stopped pipe delivers no more reads, and a \<open>SIGINT\<close> ends the list early.\<close>

fun rpc_reads :: "rpc_read list \<Rightarrow> rpc_server \<times> mua_state \<Rightarrow> (rpc_server \<times> mua_state) option" where
  "rpc_reads [] sm = Some sm"
| "rpc_reads (r # rs) sm =
     (if rs_stopping (fst sm) then Some sm
      else case read_cb r sm of None \<Rightarrow> None | Some sm \<Rightarrow> rpc_reads rs sm)"

text \<open>The outcomes of libuv's setup calls.\<close>

record rpc_setup =
  su_init_in :: bool
  su_init_out :: bool
  su_open_in :: bool
  su_open_out :: bool
  su_read_start :: bool

definition server_init :: rpc_server where
  "server_init = \<lparr>rs_in = PipeNone, rs_out = PipeNone, rs_buf = [], rs_cap = 0, rs_stopping = False, rs_written = []\<rparr>"

definition close_pipes :: "rpc_server \<Rightarrow> rpc_server option" where
  "close_pipes s =
     (case close_if_open (rs_in s) of
        None \<Rightarrow> None
      | Some p \<Rightarrow>
          (case close_if_open (rs_out s) of
             None \<Rightarrow> None
           | Some q \<Rightarrow> Some (s\<lparr>rs_in := p, rs_out := q\<rparr>)))"

text \<open>The exit code, the server and the global state; \<open>buf\<close> is freed on the way out.\<close>

definition rpc_serve :: "rpc_setup \<Rightarrow> rpc_read list \<Rightarrow> mua_state \<Rightarrow> (int \<times> rpc_server \<times> mua_state) option" where
  "rpc_serve su reads m =
     (let s = server_init in
      if \<not> su_init_in su then Some (1, s, m)
      else
        let s = s\<lparr>rs_in := PipeOpen\<rparr> in
        if \<not> su_init_out su
        then map_option (\<lambda>p. (1, s\<lparr>rs_in := p\<rparr>, m)) (pipe_close (rs_in s))
        else
          let s = s\<lparr>rs_out := PipeOpen\<rparr> in
          if \<not> su_open_in su \<or> \<not> su_open_out su \<or> \<not> su_read_start su
          then map_option (\<lambda>s. (1, s\<lparr>rs_buf := []\<rparr>, m)) (close_pipes s)
          else (case rpc_reads reads (s, m) of
                  None \<Rightarrow> None
                | Some (s, m) \<Rightarrow> map_option (\<lambda>s. (0, s\<lparr>rs_buf := []\<rparr>, m)) (close_pipes s)))"

end
