(* ===== verification/RpcProps.thy ===== *)
theory RpcProps
  imports Rpc
begin

text \<open>
  Properties of the RPC channel: whatever the reads deliver, the server neither aborts nor leaves a
  handle open; how the stream is cut into reads does not matter; and the requests are answered one
  by one, in order, with frames that decode back to their identifier and one of error and result.
\<close>

section \<open>Counts in a decoded value\<close>

text \<open>Every string size and every count is at most \<open>n\<close>.\<close>

fun sizes_le :: "nat \<Rightarrow> object \<Rightarrow> bool" where
  "sizes_le n (OString s) = (str_size s \<le> n)"
| "sizes_le n (OArray xs) = (length xs \<le> n \<and> (\<forall>x \<in> set xs. sizes_le n x))"
| "sizes_le n (ODict kvs) = (length kvs \<le> n \<and> (\<forall>kv \<in> set kvs. str_size (fst kv) \<le> n \<and> sizes_le n (snd kv)))"
| "sizes_le n _ = True"

lemma sizes_wire_ok: "sizes_le n x \<Longrightarrow> n \<le> 0xffffffff \<Longrightarrow> wire_ok x"
  by (induction n x rule: sizes_le.induct) (auto simp: list_all_iff)

lemma sizes_le_mono: "sizes_le n x \<Longrightarrow> n \<le> k \<Longrightarrow> sizes_le k x"
  by (induction n x rule: sizes_le.induct) auto

lemma ball_update: "(\<forall>x \<in> set xs. P x) \<Longrightarrow> (i < length xs \<Longrightarrow> P y) \<Longrightarrow> \<forall>x \<in> set (xs[i := y]). P x"
  by (cases "i < length xs") (auto dest!: set_update_subset_insert [THEN subsetD] simp: list_update_beyond)

lemma sizes_le_set: "sizes_le n c \<Longrightarrow> sizes_le n v \<Longrightarrow> sizes_le n (obj_set c i v)"
  by (cases c; simp; rule ball_update; auto)

lemma sizes_le_set_key: "sizes_le n c \<Longrightarrow> str_size k \<le> n \<Longrightarrow> sizes_le n (obj_set_key c i k)"
  by (cases c; simp; rule ball_update; auto)

lemma mp_take_str_size: "mp_take_str inp h n = MpOk (s, rest) \<Longrightarrow> str_size s \<le> length inp"
  by (auto simp: mp_take_str_def str_size_def split: if_splits)

definition slot_sized :: "nat \<Rightarrow> mp_slot \<Rightarrow> bool" where
  "slot_sized n r =
     (case r of MpOk (v, fr, rest) \<Rightarrow> sizes_le n v \<and> (\<forall>f. fr = Some f \<longrightarrow> md_container f = v) | _ \<Rightarrow> True)"

lemma mp_open_sized: "slot_sized (length inp) (mp_open inp h n m d)"
  by (auto simp: slot_sized_def mp_open_def Let_def str_size_def)

lemma mp_str_sized: "slot_sized (length inp) (mp_scalar OString (mp_take_str inp h n))"
  by (auto simp: slot_sized_def mp_scalar_def split: mp_result.split dest: mp_take_str_size)

lemma mp_uint_sized: "(\<And>u. sizes_le k (mk u)) \<Longrightarrow> slot_sized k (mp_scalar mk (mp_take_uint inp n))"
  by (auto simp: slot_sized_def mp_scalar_def split: mp_result.split)

lemma mp_with_len_sized: "(\<And>h n. slot_sized l (k h n)) \<Longrightarrow> slot_sized l (mp_with_len inp w k)"
  by (simp add: mp_with_len_def slot_sized_def)

lemma mp_read_into_sized: "slot_sized (length inp) (mp_read_into inp d)"
proof (cases inp)
  case (Cons b rest)
  have "slot_sized (length inp) (mp_read_number b inp)"
    unfolding mp_read_number_def by (simp add: mp_uint_sized)
  then have "slot_sized (length inp) (mp_read_ext b inp d)"
    unfolding mp_read_ext_def
    by (simp add: mp_with_len_sized mp_str_sized mp_open_sized) (simp add: slot_sized_def)
  then show ?thesis
    using mp_str_sized [of inp] mp_open_sized [of inp]
    unfolding mp_read_into_def Cons list.case by (simp add: slot_sized_def)
qed (simp add: mp_read_into_def slot_sized_def)

lemma mp_read_into_sizes:
  "mp_read_into inp d = MpOk (v, fr, rest) \<Longrightarrow>
   sizes_le (length inp) v \<and> (\<forall>f. fr = Some f \<longrightarrow> md_container f = v)"
  using mp_read_into_sized [of inp d] by (simp add: slot_sized_def)

lemma mp_read_key_size: "mp_read_key inp = MpOk (k, rest) \<Longrightarrow> str_size k \<le> length inp"
  by (cases inp) (auto simp: mp_read_key_def mp_with_len_MpOk dest!: mp_take_str_size split: if_splits)

lemma dec_loop_sizes:
  "dec_loop stack inp = MpOk (v, rest) \<Longrightarrow> length inp \<le> n \<Longrightarrow>
   (\<forall>f \<in> set stack. sizes_le n (md_container f)) \<Longrightarrow> sizes_le n v"
proof (induction stack inp rule: dec_loop.induct)
  case (1 stack inp)
  show ?case
  proof (cases stack)
    case Nil
    then show ?thesis using "1.prems" by (simp add: dec_loop.simps [of "[]"])
  next
    case (Cons f fs)
    note ih = "1.IH" [OF Cons]
    note unf = dec_loop.simps [of "f # xs" for xs]
    consider (pop) "md_remaining f \<le> md_idx f"
      | (key) "\<not> md_remaining f \<le> md_idx f" "md_is_map f \<and> \<not> md_awaiting_value f"
      | (val) "\<not> md_remaining f \<le> md_idx f" "\<not> (md_is_map f \<and> \<not> md_awaiting_value f)"
      by blast
    then show ?thesis
    proof cases
      case pop
      then show ?thesis
        using ih(1) "1.prems" Cons by (cases fs) (auto simp: unf sizes_le_set)
    next
      case key
      obtain k r where r: "mp_read_key inp = MpOk (k, r)"
        using "1.prems" key Cons by (cases "mp_read_key inp") (auto simp: unf)
      then show ?thesis
        using ih(2) [OF key r refl] "1.prems" key Cons mp_read_key_shorter [OF r] mp_read_key_size [OF r]
        by (simp add: unf sizes_le_set_key)
    next
      case val
      obtain w fr r where r: "mp_read_into inp (length stack) = MpOk (w, fr, r)"
        using "1.prems" val Cons by (cases "mp_read_into inp (length stack)") (auto simp: unf Let_def)
      have w: "sizes_le n w" "\<forall>g. fr = Some g \<longrightarrow> md_container g = w"
        using mp_read_into_sizes [OF r] sizes_le_mono [of "length inp" w n] "1.prems"(2) by simp_all
      show ?thesis
      proof (cases fr)
        case None
        then show ?thesis
          using ih(3) [OF val refl r refl refl None] "1.prems" val Cons mp_read_into_shorter [OF r] r w
          by (simp add: unf Let_def sizes_le_set)
      next
        case (Some g)
        then show ?thesis
          using ih(4) [OF val refl r refl refl Some] "1.prems" val Cons mp_read_into_shorter [OF r] r w
          by (simp add: unf Let_def)
      qed
    qed
  qed
qed

lemma msgpack_to_object_sizes:
  assumes "msgpack_to_object inp = MpOk (v, rest)"
  shows "sizes_le (length inp) v"
proof -
  obtain w fr r where r: "mp_read_into inp 0 = MpOk (w, fr, r)"
    using assms by (cases "mp_read_into inp 0") (auto simp: msgpack_to_object_def)
  then show ?thesis
    using assms mp_read_into_sizes [OF r] mp_read_into_shorter [OF r] dec_loop_sizes [of "[f]" r v rest "length inp" for f]
    by (cases fr) (auto simp: msgpack_to_object_def)
qed


section \<open>The unread rest\<close>

text \<open>\<open>unread inp r\<close>: what a reader leaves is a suffix of what it was given.\<close>

definition unread :: "byte list \<Rightarrow> mp_slot \<Rightarrow> bool" where
  "unread inp r = (case r of MpOk (v, fr, rest) \<Rightarrow> (\<exists>k. rest = drop k inp) | _ \<Rightarrow> True)"

lemma mp_scalar_unread:
  "unread inp (mp_scalar mk (mp_take_uint inp n))" "unread inp (mp_scalar OString (mp_take_str inp h n))"
  by (auto simp: unread_def mp_scalar_def mp_take_uint_def mp_take_str_def)

lemma mp_open_unread: "unread inp (mp_open inp h n m d)"
  by (auto simp: unread_def mp_open_def Let_def)

lemma mp_with_len_unread: "(\<And>h n. unread inp (k h n)) \<Longrightarrow> unread inp (mp_with_len inp w k)"
  by (simp add: mp_with_len_def unread_def)

lemma mp_read_into_unread: "unread inp (mp_read_into inp d)"
proof (cases inp)
  case (Cons b rest)
  have "unread inp (mp_read_number b inp)"
    unfolding mp_read_number_def by (simp add: mp_scalar_unread)
  then have "unread inp (mp_read_ext b inp d)"
    unfolding mp_read_ext_def
    by (simp add: mp_with_len_unread mp_scalar_unread mp_open_unread) (simp add: unread_def)
  moreover have "\<exists>k. rest = drop k (c # rest)" for c by (rule exI [of _ 1]) simp
  ultimately show ?thesis
    using mp_scalar_unread [of "b # rest"] mp_open_unread [of "b # rest"]
    unfolding mp_read_into_def Cons list.case by (simp add: unread_def)
qed (simp add: mp_read_into_def unread_def)

lemma mp_take_str_unread: "mp_take_str inp h n = MpOk (k, rest) \<Longrightarrow> \<exists>n. rest = drop n inp"
  by (auto simp: mp_take_str_def split: if_splits)

lemma mp_read_key_unread: "mp_read_key inp = MpOk (k, rest) \<Longrightarrow> \<exists>n. rest = drop n inp"
  by (cases inp) (auto simp: mp_read_key_def mp_with_len_def dest: mp_take_str_unread split: if_splits)

lemma dec_loop_unread: "dec_loop stack inp = MpOk (v, rest) \<Longrightarrow> \<exists>n. rest = drop n inp"
proof (induction stack inp rule: dec_loop.induct)
  case (1 stack inp)
  show ?case
  proof (cases stack)
    case Nil
    then show ?thesis using "1.prems" by (simp add: dec_loop.simps [of "[]"])
  next
    case (Cons f fs)
    note ih = "1.IH" [OF Cons]
    note unf = dec_loop.simps [of "f # xs" for xs]
    consider (pop) "md_remaining f \<le> md_idx f"
      | (key) "\<not> md_remaining f \<le> md_idx f" "md_is_map f \<and> \<not> md_awaiting_value f"
      | (val) "\<not> md_remaining f \<le> md_idx f" "\<not> (md_is_map f \<and> \<not> md_awaiting_value f)"
      by blast
    then show ?thesis
    proof cases
      case pop
      show ?thesis
      proof (cases fs)
        case Nil
        then show ?thesis using "1.prems" pop Cons by (auto simp: unf intro: exI [of _ 0])
      next
        case (Cons g gs)
        then show ?thesis using ih(1) [OF pop] "1.prems" pop \<open>stack = f # fs\<close> by (simp add: unf)
      qed
    next
      case key
      obtain k r where r: "mp_read_key inp = MpOk (k, r)"
        using "1.prems" key Cons by (cases "mp_read_key inp") (auto simp: unf)
      then show ?thesis
        using ih(2) [OF key r refl] "1.prems" key Cons mp_read_key_unread [OF r] by (auto simp: unf)
    next
      case val
      obtain w fr r where r: "mp_read_into inp (length stack) = MpOk (w, fr, r)"
        using "1.prems" val Cons by (cases "mp_read_into inp (length stack)") (auto simp: unf Let_def)
      then obtain n where n: "r = drop n inp" using mp_read_into_unread [of inp "length stack"] by (auto simp: unread_def)
      have "\<exists>k. rest = drop k r"
      proof (cases fr)
        case None
        then show ?thesis using ih(3) [OF val refl r refl refl None] "1.prems" val Cons r by (simp add: unf Let_def)
      next
        case (Some g)
        then show ?thesis using ih(4) [OF val refl r refl refl Some] "1.prems" val Cons r by (simp add: unf Let_def)
      qed
      then show ?thesis using n by auto
    qed
  qed
qed

lemma msgpack_to_object_rest:
  assumes "msgpack_to_object inp = MpOk (v, rest)"
  shows "drop (length inp - length rest) inp = rest"
proof -
  obtain w fr r where r: "mp_read_into inp 0 = MpOk (w, fr, r)"
    using assms by (cases "mp_read_into inp 0") (auto simp: msgpack_to_object_def)
  then obtain n where n: "r = drop n inp" using mp_read_into_unread [of inp 0] by (auto simp: unread_def)
  have "\<exists>k. rest = drop k r"
    using assms r dec_loop_unread by (cases fr) (auto simp: msgpack_to_object_def intro: exI [of _ 0])
  with n obtain k where "rest = drop k inp" by auto
  then show ?thesis by (cases "k \<le> length inp") simp_all
qed

section \<open>The API never fails\<close>

text \<open>What can be copied and written to the wire, and a state whose values all can.\<close>

definition sendable :: "object \<Rightarrow> bool" where
  "sendable v \<longleftrightarrow> obj_depth v \<le> kMarshalDepthCap \<and> wire_ok v"

definition api_ok :: "mua_state \<Rightarrow> bool" where
  "api_ok m \<longleftrightarrow> options_ok (ms_options m)
     \<and> (\<forall>v. Some v \<in> set (ms_options m) \<longrightarrow> sendable v)
     \<and> (\<forall>kv \<in> set (ms_vars m). sendable (snd kv))
     \<and> (\<forall>s. ms_session m = Some s \<longrightarrow>
          wire_ok (obj_of_cjson (session_messages s)) \<and> length (ss_id s) \<le> 0xffffffff)"

text \<open>Arguments as they come out of the receive buffer.\<close>

definition arg_ok :: "object \<Rightarrow> bool" where
  "arg_ok v \<longleftrightarrow> obj_depth v \<le> kMarshalDepthCap \<and> sizes_le (kRpcMaxMessage + kRpcReadChunk) v"

definition msg_ok :: "error option \<Rightarrow> bool" where
  "msg_ok err \<longleftrightarrow> (case err of None \<Rightarrow> True | Some (ty, msg) \<Rightarrow> length msg \<le> 0xffffffff)"

definition answer_ok :: "error option \<times> object \<times> mua_state \<Rightarrow> bool" where
  "answer_ok r = (case r of (err, result, m) \<Rightarrow>
     api_ok m \<and> sendable result \<and> msg_ok err \<and> (err \<noteq> None \<longrightarrow> result = ONil))"

lemma kRpc_bound: "kRpcMaxMessage + kRpcReadChunk \<le> 2 ^ 25"
  by (simp add: kRpcMaxMessage_def kRpcReadChunk_def)

lemma arg_sendable: "arg_ok v \<Longrightarrow> sendable v"
  using sizes_wire_ok [of "kRpcMaxMessage + kRpcReadChunk" v] kRpc_bound by (simp add: arg_ok_def sendable_def)

lemma arg_name: "arg_ok (OString name) \<Longrightarrow> length (cstr (str_bytes name)) \<le> 2 ^ 25"
  using kRpc_bound cstr_length [of "str_bytes name"] by (simp add: arg_ok_def str_size_def)

lemma sendable_nil [simp]: "sendable ONil"
  by (simp add: sendable_def)

lemma sendable_copies: "sendable v \<Longrightarrow> api_copy_object (Some v) = Some v"
  by (simp add: sendable_def api_copy_object_eq)

lemma length_show_nat: "length (show_nat n) \<le> n + 1"
proof (induction n rule: show_nat.induct)
  case (1 n)
  then show ?case by (cases "n < 10") (simp_all add: show_nat.simps [of n])
qed

lemma length_show_int: "length (show_int i) \<le> nat \<bar>i\<bar> + 2"
  using length_show_nat [of "nat (- i)"] length_show_nat [of "nat i"] by (simp add: show_int_def)

lemma option_def_bounds:
  "d \<in> set option_defs \<Longrightarrow>
   length (od_name d) \<le> 16 \<and> nat \<bar>od_int_min d\<bar> \<le> 100 \<and> nat \<bar>od_int_max d\<bar> \<le> 100"
  by (auto simp: option_defs_def str_option_def int_option_def bool_option_def MUA_STEP_CAP_MAX_def MUA_STEP_CAP_MIN_def)

lemma length_type_name: "length (type_name ty) \<le> 10"
  by (cases ty) simp_all

lemma options_set_answer:
  assumes "api_ok m" "arg_ok (OString name)" "arg_ok v"
  shows "\<exists>err opts. options_set (ms_options m) name v = Some (err, opts)
    \<and> api_ok (m\<lparr>ms_options := opts\<rparr>) \<and> msg_ok err"
proof (cases "option_index name")
  case None
  then show ?thesis
    using assms(1) arg_name [OF assms(2)] by (simp add: options_set_def unknown_option_def msg_ok_def)
next
  case (Some idx)
  let ?d = "option_defs ! idx"
  have d: "?d \<in> set option_defs" using option_index_Some [OF Some] by simp
  have len: "length (od_name ?d) + length (type_name (od_type ?d)) \<le> 26"
      "length (show_int (od_int_min ?d)) + length (show_int (od_int_max ?d)) \<le> 204"
    using option_def_bounds [OF d] length_type_name [of "od_type ?d"] length_show_int [of "od_int_min ?d"]
      length_show_int [of "od_int_max ?d"] by linarith+
  have ok: "options_ok (ms_options m)" using assms(1) by (simp add: api_ok_def)
  consider (accept) j where "option_index name = Some j" "slot_ok (option_defs ! j) (Some v)"
      "options_set (ms_options m) name v = Some (None, (ms_options m)[j := Some v])"
    | (refuse) e where "options_set (ms_options m) name v = Some (Some e, ms_options m)"
    by (rule options_set_cases [OF ok refl, of name v]) blast+
  then show ?thesis
  proof cases
    case (accept j)
    then have "api_ok (m\<lparr>ms_options := (ms_options m)[j := Some v]\<rparr>)"
      using assms(1) options_ok_update [OF ok, of j "Some v"] arg_sendable [OF assms(3)]
      by (auto simp: api_ok_def dest!: set_update_subset_insert [THEN subsetD])
    then show ?thesis using accept by (simp add: msg_ok_def)
  next
    case (refuse e)
    then have "msg_ok (Some e)"
      using Some len d by (auto simp: options_set_def Let_def msg_ok_def split: if_splits option.splits)
    then show ?thesis using refuse assms(1) by simp
  qed
qed

lemma options_get_answer:
  assumes "api_ok m" "arg_ok (OString name)"
  shows "\<exists>err v. options_get (ms_options m) name = Some (err, v)
    \<and> sendable v \<and> msg_ok err \<and> (err \<noteq> None \<longrightarrow> v = ONil)"
proof (cases "option_index name")
  case None
  then show ?thesis using arg_name [OF assms(2)] by (simp add: options_get_def unknown_option_def msg_ok_def)
next
  case (Some idx)
  have ok: "options_ok (ms_options m)" using assms(1) by (simp add: api_ok_def)
  have idx: "idx < length (ms_options m)" using option_index_Some [OF Some] options_ok_length [OF ok] by simp
  show ?thesis
  proof (cases "ms_options m ! idx")
    case None
    have "option_defs ! idx \<in> set option_defs" using option_index_Some [OF Some] by simp
    then have "sendable (default_object (option_defs ! idx))"
      by (auto simp: option_defs_def str_option_def int_option_def bool_option_def default_object_def
          sendable_def cstr_to_string_def MUA_DEFAULT_SYSTEM_PROMPT_def cstr_def str_size_def)
    then show ?thesis using Some None by (simp add: options_get_def msg_ok_def)
  next
    case (Some v)
    then have "sendable v" using assms(1) nth_mem [OF idx] by (simp add: api_ok_def)
    then show ?thesis
      using Some \<open>option_index name = Some idx\<close> by (simp add: options_get_def sendable_copies msg_ok_def)
  qed
qed

lemma remove_entry_subset: "set (remove_entry vs j) \<subseteq> set vs"
proof (cases vs rule: rev_cases)
  case (snoc ys y)
  then show ?thesis
    by (auto simp: remove_entry_def Let_def list_update_append nth_append
        dest!: in_set_takeD set_update_subset_insert [THEN subsetD])
qed (simp add: remove_entry_def)

lemma var_index_less: "var_index vs name = Some j \<Longrightarrow> j < length vs"
  using var_index_from_Some [of vs 0 name j] by (simp add: var_index_def)

lemma variables_set_answer:
  assumes "api_ok m" "arg_ok v"
  shows "\<exists>err vs. variables_set (ms_vars m) name v = Some (err, vs) \<and> api_ok (m\<lparr>ms_vars := vs\<rparr>) \<and> msg_ok err"
proof -
  have v: "sendable v" by (rule arg_sendable [OF assms(2)])
  have "length (show_nat MUA_VAR_MAX) \<le> MUA_VAR_MAX + 1" by (rule length_show_nat)
  then have full: "msg_ok (Some (kErrorTypeValidation, ''too many variables (max '' @ show_nat MUA_VAR_MAX @ '')''))"
    by (simp add: msg_ok_def MUA_VAR_MAX_def)
  show ?thesis
    using assms(1) v full remove_entry_subset [of "ms_vars m"]
    by (auto simp: variables_set_def api_ok_def sendable_copies msg_ok_def split: option.split
        dest!: set_update_subset_insert [THEN subsetD])
qed

lemma variables_get_answer:
  assumes "api_ok m"
  shows "\<exists>v. variables_get (ms_vars m) name = Some v \<and> sendable v"
proof (cases "var_index (ms_vars m) name")
  case (Some j)
  then have "sendable (snd (ms_vars m ! j))"
    using assms nth_mem [OF var_index_less [OF Some]] by (simp add: api_ok_def)
  then show ?thesis using Some by (simp add: variables_get_def sendable_copies)
qed (simp add: variables_get_def)

lemma obj_depth_of_cjson: "obj_depth (obj_of_cjson x) = cj_depth x"
proof (induction x rule: obj_of_cjson.induct)
  case (1 xs)
  then have "foldr (\<lambda>x. max (obj_depth x)) (map obj_of_cjson xs) 0 = foldr (\<lambda>x. max (cj_depth x)) xs 0"
    by (induction xs) simp_all
  then show ?case by simp
next
  case (2 kvs)
  then have "foldr (\<lambda>kv. max (obj_depth (snd kv))) (map (\<lambda>kv. (Some (cstr (fst kv)), obj_of_cjson (snd kv))) kvs) 0
      = foldr (\<lambda>kv. max (cj_depth (snd kv))) kvs 0"
    by (induction kvs) simp_all
  then show ?case by simp
next
  case (4 d)
  then show ?case by (simp add: obj_of_number_def split: option.split)
qed simp_all

lemma session_resolve_cases:
  obtains (unknown) msg where "session_resolve m handle = Inl (kErrorTypeValidation, msg)"
      "length msg \<le> nat \<bar>handle\<bar> + 30"
  | (current) s where "session_resolve m handle = Inr s" "ms_session m = Some s"
  using length_show_int [of handle] by (cases "ms_session m"; cases "handle = 0") (auto simp: session_resolve_def)

lemma sess_handle_cases:
  obtains (usage) msg where "sess_handle args = Inl (kErrorTypeValidation, msg)" "length msg \<le> 100"
  | (handle) h where "sess_handle args = Inr h" "nat \<bar>h\<bar> \<le> 2 ^ 31"
proof (cases args rule: list.exhaust)
  case Nil
  then show ?thesis using handle [of 0] by (simp add: sess_handle_def)
next
  case (Cons a as)
  show ?thesis
  proof (cases "as = [] \<and> (\<exists>i. a = OInteger i)")
    case True
    then obtain i where i: "args = [OInteger i]" using Cons by auto
    show ?thesis
      using handle [of "sint (ucast i :: 32 word)"] sint_lt [of "ucast i :: 32 word"] sint_ge [of "ucast i :: 32 word"]
      by (simp add: i sess_handle_def)
  next
    case False
    then show ?thesis using usage Cons by (cases a; cases as) (simp_all add: sess_handle_def)
  qed
qed

lemma usage_answer: "api_ok m \<Longrightarrow> length msg \<le> 0xffffffff \<Longrightarrow> \<exists>r. usage_error msg m = Some r \<and> answer_ok r"
  by (simp add: usage_error_def answer_ok_def msg_ok_def)

lemma sess_messages_answer:
  assumes "api_ok m"
  shows "\<exists>r. dispatch_sess_get_messages args m = Some r \<and> answer_ok r"
proof (cases rule: sess_handle_cases [of args])
  case (usage msg)
  then show ?thesis using assms by (simp add: dispatch_sess_get_messages_def answer_ok_def msg_ok_def)
next
  case (handle h)
  show ?thesis
  proof (cases rule: session_resolve_cases [of m h])
    case (unknown msg)
    then show ?thesis
      using assms handle by (simp add: dispatch_sess_get_messages_def mua_sess_get_messages_def answer_ok_def msg_ok_def)
  next
    case (current s)
    have "length (show_nat kMarshalDepthCap) \<le> 33" using length_show_nat [of kMarshalDepthCap] by (simp add: kMarshalDepthCap_def)
    moreover have "wire_ok (OArray (map obj_of_cjson (ss_messages s)))"
      using assms current by (simp add: api_ok_def session_messages_def)
    ultimately show ?thesis
      using assms current(1) handle obj_depth_of_cjson [of "CArray (ss_messages s)"]
      by (simp add: dispatch_sess_get_messages_def mua_sess_get_messages_def cjson_to_object_eq session_messages_def
          nesting_error_def answer_ok_def msg_ok_def sendable_def)
  qed
qed

lemma sess_id_answer:
  assumes "api_ok m"
  shows "\<exists>r. dispatch_sess_get_id args m = Some r \<and> answer_ok r"
proof (cases rule: sess_handle_cases [of args])
  case (usage msg)
  then show ?thesis using assms by (simp add: dispatch_sess_get_id_def answer_ok_def msg_ok_def)
next
  case (handle h)
  show ?thesis
  proof (cases rule: session_resolve_cases [of m h])
    case (unknown msg)
    then show ?thesis
      using assms handle by (simp add: dispatch_sess_get_id_def mua_sess_get_id_def answer_ok_def msg_ok_def)
  next
    case (current s)
    then have "length (cstr (ss_id s)) \<le> 0xffffffff"
      using assms cstr_length [of "ss_id s"] by (simp add: api_ok_def)
    then show ?thesis
      using assms current(1) handle
      by (simp add: dispatch_sess_get_id_def mua_sess_get_id_def answer_ok_def msg_ok_def sendable_def
          cstr_to_string_def str_size_def)
  qed
qed

lemma set_option_answer:
  assumes "api_ok m" "\<forall>a \<in> set args. arg_ok a"
  shows "\<exists>r. dispatch_set_option args m = Some r \<and> answer_ok r"
proof (cases "\<exists>n v. args = [OString n, v]")
  case True
  then obtain n v where a: "args = [OString n, v]" by blast
  then obtain err opts where "options_set (ms_options m) n v = Some (err, opts)"
      "api_ok (m\<lparr>ms_options := opts\<rparr>)" "msg_ok err"
    using options_set_answer [OF assms(1), of n v] assms(2) by auto
  then show ?thesis by (simp add: a dispatch_set_option_def mua_set_option_def answer_ok_def)
next
  case False
  then have "dispatch_set_option args m = usage_error ''mua_set_option expects (string name, value)'' m"
    by (auto simp: dispatch_set_option_def split: list.split object.split)
  then show ?thesis using usage_answer [OF assms(1)] by simp
qed

lemma set_var_answer:
  assumes "api_ok m" "\<forall>a \<in> set args. arg_ok a"
  shows "\<exists>r. dispatch_set_var args m = Some r \<and> answer_ok r"
proof (cases "\<exists>n v. args = [OString n, v]")
  case True
  then obtain n v where a: "args = [OString n, v]" by blast
  then obtain err vs where "variables_set (ms_vars m) n v = Some (err, vs)" "api_ok (m\<lparr>ms_vars := vs\<rparr>)" "msg_ok err"
    using variables_set_answer [OF assms(1), of v n] assms(2) by auto
  then show ?thesis by (simp add: a dispatch_set_var_def mua_set_var_def answer_ok_def)
next
  case False
  then have "dispatch_set_var args m = usage_error ''mua_set_var expects (string name, value)'' m"
    by (auto simp: dispatch_set_var_def split: list.split object.split)
  then show ?thesis using usage_answer [OF assms(1)] by simp
qed

lemma get_option_answer:
  assumes "api_ok m" "\<forall>a \<in> set args. arg_ok a"
  shows "\<exists>r. dispatch_get_option args m = Some r \<and> answer_ok r"
proof (cases "\<exists>n. args = [OString n]")
  case True
  then obtain n where a: "args = [OString n]" by blast
  then obtain err v where "options_get (ms_options m) n = Some (err, v)" "sendable v" "msg_ok err"
      "err \<noteq> None \<longrightarrow> v = ONil"
    using options_get_answer [OF assms(1), of n] assms(2) by auto
  then show ?thesis using assms(1) by (simp add: a dispatch_get_option_def mua_get_option_def answer_ok_def)
next
  case False
  then have "dispatch_get_option args m = usage_error ''mua_get_option expects (string name)'' m"
    by (auto simp: dispatch_get_option_def split: list.split object.split)
  then show ?thesis using usage_answer [OF assms(1)] by simp
qed

lemma get_var_answer:
  assumes "api_ok m" "\<forall>a \<in> set args. arg_ok a"
  shows "\<exists>r. dispatch_get_var args m = Some r \<and> answer_ok r"
proof (cases "\<exists>n. args = [OString n]")
  case True
  then obtain n where a: "args = [OString n]" by blast
  then obtain v where "variables_get (ms_vars m) n = Some v" "sendable v"
    using variables_get_answer [OF assms(1), of n] by auto
  then show ?thesis using assms(1) by (simp add: a dispatch_get_var_def mua_get_var_def answer_ok_def msg_ok_def)
next
  case False
  then have "dispatch_get_var args m = usage_error ''mua_get_var expects (string name)'' m"
    by (auto simp: dispatch_get_var_def split: list.split object.split)
  then show ?thesis using usage_answer [OF assms(1)] by simp
qed

lemma dispatch_answer:
  assumes "api_dispatch_find name = Some fn" "api_ok m" "\<forall>a \<in> set args. arg_ok a"
  shows "\<exists>r. fn args m = Some r \<and> answer_ok r"
proof -
  have "fn \<in> {dispatch_set_option, dispatch_get_option, dispatch_set_var, dispatch_get_var,
      dispatch_sess_get_messages, dispatch_sess_get_id}"
    using assms(1) by (auto simp: api_dispatch_find_def g_api_table_def split: if_splits)
  then show ?thesis
    using set_option_answer [OF assms(2,3)] get_option_answer [OF assms(2,3)] set_var_answer [OF assms(2,3)]
      get_var_answer [OF assms(2,3)] sess_messages_answer [OF assms(2)] sess_id_answer [OF assms(2)]
    by blast
qed

lemma arg_ok_items: "arg_ok (OArray xs) \<Longrightarrow> x \<in> set xs \<Longrightarrow> arg_ok x"
  by (induction xs) (auto simp: arg_ok_def)

lemma call_method_answer:
  assumes "api_ok m" "arg_ok (OString name)" "arg_ok params"
  shows "\<exists>r. call_method name params m = Some r \<and> answer_ok r"
proof (cases "api_dispatch_find name")
  case None
  then show ?thesis
    using usage_answer [OF assms(1), of "''unknown method: '' @ cstr (str_bytes name)"] arg_name [OF assms(2)]
    by (simp add: call_method_def)
next
  case (Some fn)
  then show ?thesis
    using dispatch_answer [OF Some assms(1)] usage_answer [OF assms(1), of "''params must be an array''"] assms(3)
    by (cases params) (simp_all add: call_method_def arg_ok_items)
qed

section \<open>The channel as a function of the byte stream\<close>

datatype rpc_frame = Request u64 mstring object | Notification mstring object | Malformed

definition classify :: "object \<Rightarrow> rpc_frame" where
  "classify frame =
     (case frame of
        OArray [OInteger t, OInteger msgid, OString name, params] \<Rightarrow>
          if t = 0 then Request msgid name params else Malformed
      | OArray [OInteger t, OString name, params] \<Rightarrow>
          if t = 2 then Notification name params else Malformed
      | _ \<Rightarrow> Malformed)"

text \<open>The well-formed frames of a stream, and its unread rest unless the channel is closed.\<close>

function frames_of :: "byte list \<Rightarrow> rpc_frame list \<times> byte list option" where
  "frames_of inp =
     (if inp = [] then ([], Some [])
      else case msgpack_to_object inp of
             MpIncomplete \<Rightarrow> ([], Some inp)
           | MpError e \<Rightarrow> ([], None)
           | MpOk (frame, rest) \<Rightarrow>
               if classify frame = Malformed then ([], None)
               else (case frames_of rest of (fs, fate) \<Rightarrow> (classify frame # fs, fate)))"
  by auto

termination frames_of
  by (relation "measure length") (auto dest: msgpack_to_object_shorter)

declare frames_of.simps [simp del]

definition response :: "u64 \<Rightarrow> error option \<Rightarrow> object \<Rightarrow> byte list" where
  "response msgid err result = 0x94 # concat (map enc_obj [OInteger 1, OInteger msgid, error_object err, result])"

text \<open>libuv is given a 32-bit length.\<close>

definition sent :: "byte list \<Rightarrow> byte list" where
  "sent bytes = take (length bytes mod 2 ^ 32) bytes"

text \<open>The responses to a frame and the state after it.\<close>

fun serve_frame :: "rpc_frame \<Rightarrow> mua_state \<Rightarrow> (byte list list \<times> mua_state) option" where
  "serve_frame (Request msgid name params) m =
     map_option (\<lambda>(err, result, m). ([sent (response msgid err result)], m)) (call_method name params m)"
| "serve_frame (Notification name params) m = map_option (\<lambda>(err, result, m). ([], m)) (call_method name params m)"
| "serve_frame Malformed m = None"

fun serve_frames :: "rpc_frame list \<Rightarrow> mua_state \<Rightarrow> (byte list list \<times> mua_state) option" where
  "serve_frames [] m = Some ([], m)"
| "serve_frames (f # fs) m =
     (case serve_frame f m of
        None \<Rightarrow> None
      | Some (out, m) \<Rightarrow> map_option (\<lambda>(outs, m). (out @ outs, m)) (serve_frames fs m))"

lemma serve_frames_append:
  "serve_frames (fs @ gs) m =
   (case serve_frames fs m of
      None \<Rightarrow> None
    | Some (out, m) \<Rightarrow> map_option (\<lambda>(outs, m). (out @ outs, m)) (serve_frames gs m))"
  by (induction fs arbitrary: m) (auto split: option.split simp: option.map_comp comp_def split_def option.map_id [unfolded id_def])

section \<open>One frame\<close>

lemma encode_all_data:
  "\<forall>x \<in> set xs. sendable x \<Longrightarrow>
   \<exists>b'. encode_all (Some b) xs = Some b' \<and> mb_data b' = mb_data b @ concat (map enc_obj xs)"
proof (induction xs arbitrary: b)
  case (Cons x xs)
  then obtain c where c: "msgpack_encode b x = Some c" "mb_data c = mb_data b @ enc_obj x"
    using msgpack_encode_data [of b x] by (auto simp: sendable_def split: if_splits)
  then show ?case using Cons.IH [of c] Cons.prems by (auto simp: encode_all_def)
qed (simp add: encode_all_def)

lemma header_4: "\<exists>b. msgpack_encode_array_header MSGPACK_BUFFER_INIT 4 = Some b \<and> mb_data b = [0x94]"
  by (simp add: msgpack_encode_array_header_def mp_emit_count_def MSGPACK_BUFFER_INIT_def Let_def)

lemma sendable_error: "msg_ok err \<Longrightarrow> sendable (error_object err)"
  using cstr_length [of "snd (the err)"]
  by (auto simp: error_object_def sendable_def msg_ok_def kMarshalDepthCap_def str_size_def split: option.split)

lemma sendable_integer [simp]: "sendable (OInteger i)"
  by (simp add: sendable_def)

lemma write_response_sends:
  assumes "sendable result" "msg_ok err"
  shows "write_response s msgid (error_object err) result
    = Some (s\<lparr>rs_written := rs_written s @ [sent (response msgid err result)]\<rparr>)"
proof -
  obtain b where b: "msgpack_encode_array_header MSGPACK_BUFFER_INIT 4 = Some b" "mb_data b = [0x94]"
    using header_4 by blast
  obtain b' where "encode_all (Some b) [OInteger 1, OInteger msgid, error_object err, result] = Some b'"
      "mb_data b' = response msgid err result"
    using encode_all_data [of "[OInteger 1, OInteger msgid, error_object err, result]" b] assms b(2)
    by (auto simp: sendable_error response_def)
  then show ?thesis by (simp add: write_response_def b(1) uv_bytes_def sent_def)
qed

lemma handle_frame_classify:
  "handle_frame frame sm =
   (case classify frame of
      Request msgid name params \<Rightarrow> dispatch_and_respond msgid name params sm
    | Notification name params \<Rightarrow> dispatch_notify name params sm
    | Malformed \<Rightarrow> close_channel sm)"
proof (cases frame)
  case (OArray a)
  consider "length a < 3" | x y z where "a = [x, y, z]" | x y z w where "a = [x, y, z, w]" | "4 < length a"
    by (cases a rule: remdups_adj.cases; cases "tl (tl a)"; cases "tl (tl (tl a))"; cases "tl (tl (tl (tl a)))") auto
  then show ?thesis
  proof cases
    case 1
    then show ?thesis using OArray
      by (auto simp: handle_frame_def classify_def split: list.split object.split)
  next
    case 4
    then show ?thesis using OArray
      by (auto simp: handle_frame_def classify_def split: list.split object.split)
  next
    case (2 x y z)
    then show ?thesis using OArray
      by (cases x; cases y; cases z) (auto simp: handle_frame_def classify_def)
  next
    case (3 x y z w)
    then show ?thesis using OArray
      by (cases x; cases y; cases z) (auto simp: handle_frame_def classify_def)
  qed
qed (simp_all add: handle_frame_def classify_def)

section \<open>Answers\<close>

fun is_request :: "rpc_frame \<Rightarrow> bool" where
  "is_request (Request msgid name params) = True"
| "is_request f = False"

text \<open>The response frame, decoded element by element as the client does.\<close>

definition decodes :: "byte list \<Rightarrow> object list \<Rightarrow> bool" where
  "decodes bytes xs \<longleftrightarrow>
     foldl (\<lambda>r x. case r of Some inp \<Rightarrow> (case msgpack_to_object inp of
                                          MpOk (y, rest) \<Rightarrow> if y = x then Some rest else None
                                        | _ \<Rightarrow> None)
                          | None \<Rightarrow> None) (Some bytes) xs = Some []"

definition one_of :: "object \<Rightarrow> object \<Rightarrow> bool" where
  "one_of err result \<longleftrightarrow>
     err = ONil \<or> result = ONil \<and> (\<exists>ty msg. err = OArray [OInteger (error_code ty), OString msg])"

definition answers :: "rpc_frame \<Rightarrow> byte list \<Rightarrow> bool" where
  "answers f bytes \<longleftrightarrow>
     (case f of
        Request msgid name params \<Rightarrow>
          (\<exists>full err result. bytes = sent (0x94 # full) \<and> decodes full [OInteger 1, OInteger msgid, err, result]
             \<and> one_of err result)
      | _ \<Rightarrow> False)"

lemma decodes_encoded: "\<forall>x \<in> set xs. sendable x \<Longrightarrow> decodes (concat (map enc_obj xs)) (map wire_value xs)"
proof (induction xs)
  case (Cons x xs)
  then show ?case
    using msgpack_decode_encoded [of x "concat (map enc_obj xs)"] by (simp add: decodes_def sendable_def)
qed (simp add: decodes_def)

lemma response_answers:
  assumes "sendable result" "msg_ok err" "err \<noteq> None \<longrightarrow> result = ONil"
  shows "answers (Request msgid name params) (sent (response msgid err result))"
proof -
  let ?xs = "[OInteger 1, OInteger msgid, error_object err, result]"
  have "decodes (concat (map enc_obj ?xs)) (map wire_value ?xs)"
    by (rule decodes_encoded) (use assms in \<open>simp add: sendable_error\<close>)
  moreover have "one_of (wire_value (error_object err)) (wire_value result)"
    using assms(3) by (auto simp: one_of_def error_object_def split: option.split)
  ultimately show ?thesis unfolding answers_def response_def by (auto intro!: exI)
qed

section \<open>Serving a frame\<close>

text \<open>A frame of the receive buffer has arguments of bounded size.\<close>

lemma classifyD:
  "classify frame = Request msgid name params \<Longrightarrow> frame = OArray [OInteger 0, OInteger msgid, OString name, params]"
  "classify frame = Notification name params \<Longrightarrow> frame = OArray [OInteger 2, OString name, params]"
  by (auto simp: classify_def split: object.splits list.splits if_splits)

lemma classify_args:
  assumes "arg_ok frame"
  shows "classify frame = Request msgid name params \<Longrightarrow> arg_ok (OString name) \<and> arg_ok params"
    "classify frame = Notification name params \<Longrightarrow> arg_ok (OString name) \<and> arg_ok params"
proof -
  have items: "\<forall>x \<in> set xs. arg_ok x" if "frame = OArray xs" for xs
    using assms arg_ok_items that by blast
  show "classify frame = Request msgid name params \<Longrightarrow> arg_ok (OString name) \<and> arg_ok params"
    using items [OF classifyD(1)] by simp
  show "classify frame = Notification name params \<Longrightarrow> arg_ok (OString name) \<and> arg_ok params"
    using items [OF classifyD(2)] by simp
qed

lemma handle_frame_serves:
  assumes "api_ok m" "arg_ok frame" "classify frame \<noteq> Malformed"
  obtains out m' where "serve_frame (classify frame) m = Some (out, m')" "api_ok m'"
    "handle_frame frame (s, m) = Some (s\<lparr>rs_written := rs_written s @ out\<rparr>, m')"
    "list_all2 answers (filter is_request [classify frame]) out"
proof (cases "classify frame")
  case (Request msgid name params)
  then obtain err result m' where r: "call_method name params m = Some (err, result, m')"
      "answer_ok (err, result, m')"
    using call_method_answer [OF assms(1)] classify_args(1) [OF assms(2) Request] by force
  then show thesis
    using that [of "[sent (response msgid err result)]" m'] Request write_response_sends [of result err s msgid]
      response_answers [of result err]
    by (simp add: handle_frame_classify dispatch_and_respond_def answer_ok_def)
next
  case (Notification name params)
  then obtain err result m' where r: "call_method name params m = Some (err, result, m')"
      "answer_ok (err, result, m')"
    using call_method_answer [OF assms(1)] classify_args(2) [OF assms(2) Notification] by force
  then have "dispatch_notify name params (s, m) = Some (s, m')"
    by (auto simp: dispatch_notify_def call_method_def usage_error_def split: option.splits object.splits)
  then show thesis
    using that [of "[]" m'] Notification r by (simp add: handle_frame_classify answer_ok_def)
qed (use assms(3) in simp)

section \<open>Draining the buffer\<close>

definition serving :: "rpc_server \<Rightarrow> bool" where
  "serving s \<longleftrightarrow> rs_in s = (if rs_stopping s then PipeClosing else PipeOpen) \<and> rs_out s = PipeOpen"

lemma close_channel_stops:
  "serving s \<Longrightarrow> \<exists>s'. close_channel (s, m) = Some (s', m) \<and> serving s' \<and> rs_stopping s' \<and> rs_written s' = rs_written s"
  by (auto simp: close_channel_def begin_stop_def pipe_close_def serving_def Let_def)

text \<open>What a drain does to a running server: the frames are served, and the channel stays open
  exactly when a rest within the limit is left.\<close>

definition drained :: "rpc_server \<times> mua_state \<Rightarrow> (rpc_server \<times> mua_state) option \<Rightarrow> bool" where
  "drained sm r \<longleftrightarrow>
     (\<exists>out s' m'. r = Some (s', m') \<and> serving s' \<and> api_ok m'
        \<and> serve_frames (fst (frames_of (rs_buf (fst sm)))) (snd sm) = Some (out, m')
        \<and> rs_written s' = rs_written (fst sm) @ out
        \<and> list_all2 answers (filter is_request (fst (frames_of (rs_buf (fst sm))))) out
        \<and> (case snd (frames_of (rs_buf (fst sm))) of
             None \<Rightarrow> rs_stopping s'
           | Some rest \<Rightarrow> rs_stopping s' = (kRpcMaxMessage < length rest) \<and> (\<not> rs_stopping s' \<longrightarrow> rs_buf s' = rest)))"

lemma rpc_drain_drains:
  assumes "serving s" "\<not> rs_stopping s" "api_ok m" "length (rs_buf s) \<le> kRpcMaxMessage + kRpcReadChunk"
  shows "drained (s, m) (rpc_drain (s, m))"
  using assms
proof (induction "length (rs_buf s)" arbitrary: s m rule: less_induct)
  case less
  note unf = rpc_drain.simps [of "(s, m)"] frames_of.simps [of "rs_buf s"]
  note close = close_channel_stops [OF less.prems(1), of m]
  show ?case
  proof (cases "rs_buf s = []")
    case True
    then show ?thesis using less.prems by (simp add: drained_def unf frames_of.simps [of "[]"])
  next
    case ne: False
    show ?thesis
    proof (cases "msgpack_to_object (rs_buf s)")
      case (MpOk p)
      obtain frame rest where p: "msgpack_to_object (rs_buf s) = MpOk (frame, rest)" using MpOk by (cases p) simp
      have arg: "arg_ok frame"
        using msgpack_to_object_bounds [OF p] msgpack_to_object_sizes [OF p] less.prems(4)
        by (simp add: arg_ok_def sizes_le_mono)
      show ?thesis
      proof (cases "classify frame = Malformed")
        case True
        then have "handle_frame frame (s, m) = close_channel (s, m)" by (simp add: handle_frame_classify)
        with close obtain s' where s': "handle_frame frame (s, m) = Some (s', m)" "serving s'" "rs_stopping s'"
          "rs_written s' = rs_written s" by auto
        then have "rpc_drain (s, m) = rpc_drain (rpc_consume rest (s', m))"
          using less.prems(2) ne p by (simp add: unf)
        also have "\<dots> = Some (rpc_consume rest (s', m))"
          using s'(3) by (subst rpc_drain.simps) (simp add: rpc_consume_def Let_def)
        finally show ?thesis
          using s' ne p True less.prems(3) by (simp add: drained_def unf rpc_consume_def Let_def serving_def)
      next
        case False
        obtain out m' where h: "serve_frame (classify frame) m = Some (out, m')" "api_ok m'"
            "handle_frame frame (s, m) = Some (s\<lparr>rs_written := rs_written s @ out\<rparr>, m')"
            "list_all2 answers (filter is_request [classify frame]) out"
          by (rule handle_frame_serves [OF less.prems(3) arg False, of s])
        let ?s = "s\<lparr>rs_written := rs_written s @ out, rs_buf := rest\<rparr>"
        have "drop (length (rs_buf s) - length rest) (rs_buf s) = rest"
          by (rule msgpack_to_object_rest [OF p])
        then have eq: "rpc_drain (s, m) = rpc_drain (?s, m')"
          using less.prems(2) ne p h(3) by (simp add: unf rpc_consume_def Let_def)
        have "drained (?s, m') (rpc_drain (?s, m'))"
          by (rule less.hyps) (use less.prems msgpack_to_object_shorter [OF p] h(2) in \<open>simp_all add: serving_def\<close>)
        moreover obtain fs fate where "frames_of rest = (fs, fate)" by fastforce
        ultimately show ?thesis
          using ne p False h(1) list_all2_appendI [OF h(4)]
          by (cases "is_request (classify frame)") (auto simp: eq drained_def unf(2) simp del: not_less)
      qed
    next
      case MpIncomplete
      then show ?thesis using less.prems ne close by (auto simp: drained_def unf)
    next
      case (MpError e)
      then show ?thesis using less.prems ne close by (auto simp: drained_def unf)
    qed
  qed
qed

section \<open>The stream of reads\<close>

lemma frames_of_append:
  "frames_of (xs @ ys) =
   (case frames_of xs of
      (fs, None) \<Rightarrow> (fs, None)
    | (fs, Some rest) \<Rightarrow> (case frames_of (rest @ ys) of (gs, fate) \<Rightarrow> (fs @ gs, fate)))"
proof (induction "length xs" arbitrary: xs rule: less_induct)
  case less
  show ?case
  proof (cases "xs = []")
    case True
    then show ?thesis by (simp add: frames_of.simps [of "[]"] split: prod.split)
  next
    case ne: False
    show ?thesis
    proof (cases "msgpack_to_object xs")
      case (MpOk p)
      obtain frame rest where p: "msgpack_to_object xs = MpOk (frame, rest)" using MpOk by (cases p) simp
      have "msgpack_to_object (xs @ ys) = MpOk (frame, rest @ ys)"
        using msgpack_to_object_ext [of xs ys] p by simp
      then show ?thesis
        using less.hyps [OF msgpack_to_object_shorter [OF p]] ne p
        by (simp add: frames_of.simps [of xs] frames_of.simps [of "xs @ ys"] split: prod.split option.split)
    next
      case MpIncomplete
      then show ?thesis using ne by (simp add: frames_of.simps [of xs] split: prod.split)
    next
      case (MpError e)
      then show ?thesis
        using ne msgpack_to_object_ext [of xs ys]
        by (simp add: frames_of.simps [of xs] frames_of.simps [of "xs @ ys"])
    qed
  qed
qed

text \<open>No message of the stream is still incomplete beyond the limit.\<close>

definition frames_fit :: "byte list \<Rightarrow> bool" where
  "frames_fit inp \<longleftrightarrow> (\<forall>n rest. snd (frames_of (take n inp)) = Some rest \<longrightarrow> length rest \<le> kRpcMaxMessage)"

text \<open>The channel after the bytes \<open>inp\<close>: every frame in them is served, and the rest is buffered.\<close>

definition channel_at :: "mua_state \<Rightarrow> byte list \<Rightarrow> rpc_server \<times> mua_state \<Rightarrow> bool" where
  "channel_at m0 inp sm \<longleftrightarrow>
     serving (fst sm) \<and> api_ok (snd sm)
     \<and> serve_frames (fst (frames_of inp)) m0 = Some (rs_written (fst sm), snd sm)
     \<and> list_all2 answers (filter is_request (fst (frames_of inp))) (rs_written (fst sm))
     \<and> (case snd (frames_of inp) of
          None \<Rightarrow> rs_stopping (fst sm)
        | Some rest \<Rightarrow> \<not> rs_stopping (fst sm) \<and> rs_buf (fst sm) = rest)"

lemma rpc_append_frame [simp]:
  "rs_in (rpc_append bytes s) = rs_in s" "rs_out (rpc_append bytes s) = rs_out s"
  "rs_stopping (rpc_append bytes s) = rs_stopping s" "rs_written (rpc_append bytes s) = rs_written s"
  "rs_buf (rpc_append bytes s) = rs_buf s @ bytes"
  by (simp_all add: rpc_append_def Let_def)

lemma channel_at_read:
  assumes "channel_at m0 inp sm" "length c \<le> kRpcReadChunk" "frames_fit (inp @ c)"
  shows "\<exists>sm'. rpc_reads [ReadData c] sm = Some sm' \<and> channel_at m0 (inp @ c) sm'"
proof (cases "snd (frames_of inp)")
  case None
  obtain fs where "frames_of inp = (fs, None)" using None by (cases "frames_of inp") simp
  then have "frames_of (inp @ c) = (fs, None)" by (simp add: frames_of_append [of inp c])
  then show ?thesis using assms(1) None \<open>frames_of inp = (fs, None)\<close> by (auto simp: channel_at_def)
next
  case (Some rest)
  obtain s m where sm: "sm = (s, m)" by fastforce
  obtain fs where fs: "frames_of inp = (fs, Some rest)" using Some by (cases "frames_of inp") simp
  obtain gs fate where gs: "frames_of (rest @ c) = (gs, fate)" by fastforce
  have run: "\<not> rs_stopping s" "rs_buf s = rest" "serving s" "api_ok m" "serve_frames fs m0 = Some (rs_written s, m)"
      "list_all2 answers (filter is_request fs) (rs_written s)"
    using assms(1) by (simp_all add: channel_at_def sm fs)
  have fit: "length r \<le> kRpcMaxMessage" if "snd (frames_of (take n (inp @ c))) = Some r" for n r
    using assms(3) that unfolding frames_fit_def by blast
  show ?thesis
  proof (cases "c = []")
    case True
    then show ?thesis using assms(1) run(1) by (simp add: read_cb_def sm)
  next
    case False
    have rest: "length rest \<le> kRpcMaxMessage" using fit [of "length inp" rest] fs by simp
    have "drained (rpc_append c s, m) (rpc_drain (rpc_append c s, m))"
      by (rule rpc_drain_drains) (use run rest assms(2) in \<open>simp_all add: serving_def\<close>)
    moreover have "length r \<le> kRpcMaxMessage" if "fate = Some r" for r
      using fit [of "length (inp @ c)" r] that fs gs by (simp add: frames_of_append [of inp c])
    ultimately show ?thesis
      using run False fs gs
      by (auto simp: sm drained_def channel_at_def read_cb_def frames_of_append [of inp c] serve_frames_append
          intro: list_all2_appendI split: option.splits)
  qed
qed

lemma rpc_reads_append: "rpc_reads (rs @ rs') sm = Option.bind (rpc_reads rs sm) (rpc_reads rs')"
proof (induction rs arbitrary: sm)
  case (Cons r rs)
  have "rs_stopping (fst sm) \<Longrightarrow> rpc_reads rs' sm = Some sm" by (cases rs') simp_all
  then show ?case using Cons by (cases "read_cb r sm") simp_all
qed simp

lemma frames_fit_prefix: "frames_fit (xs @ ys) \<Longrightarrow> frames_fit xs"
  unfolding frames_fit_def
proof (intro allI impI)
  fix n rest
  assume "\<forall>n rest. snd (frames_of (take n (xs @ ys))) = Some rest \<longrightarrow> length rest \<le> kRpcMaxMessage"
    "snd (frames_of (take n xs)) = Some rest"
  moreover have "take (min n (length xs)) (xs @ ys) = take n xs" by (simp add: min_def)
  ultimately show "length rest \<le> kRpcMaxMessage" by metis
qed

lemma channel_at_reads:
  assumes "channel_at m0 inp sm" "\<forall>c \<in> set chunks. length c \<le> kRpcReadChunk" "frames_fit (inp @ concat chunks)"
  shows "\<exists>sm'. rpc_reads (map ReadData chunks) sm = Some sm' \<and> channel_at m0 (inp @ concat chunks) sm'"
  using assms
proof (induction chunks arbitrary: inp sm)
  case (Cons c cs)
  have "frames_fit (inp @ c)" using Cons.prems(3) frames_fit_prefix [of "inp @ c" "concat cs"] by simp
  then obtain sm1 where "rpc_reads [ReadData c] sm = Some sm1" "channel_at m0 (inp @ c) sm1"
    using channel_at_read [OF Cons.prems(1), of c] Cons.prems(2) by auto
  moreover from this obtain sm' where "rpc_reads (map ReadData cs) sm1 = Some sm'" "channel_at m0 ((inp @ c) @ concat cs) sm'"
    using Cons.IH [of "inp @ c" sm1] Cons.prems by auto
  ultimately show ?case using rpc_reads_append [of "[ReadData c]" "map ReadData cs" sm] by simp
qed auto

definition server_open :: rpc_server where
  "server_open = server_init\<lparr>rs_in := PipeOpen, rs_out := PipeOpen\<rparr>"

lemma channel_at_open: "api_ok m \<Longrightarrow> channel_at m [] (server_open, m)"
  by (simp add: channel_at_def server_open_def server_init_def serving_def frames_of.simps [of "[]"])

lemma frames_of_rest: "snd (frames_of inp) = Some rest \<Longrightarrow> length rest \<le> length inp"
proof (induction "length inp" arbitrary: inp rule: less_induct)
  case less
  show ?case
  proof (cases "msgpack_to_object inp")
    case (MpOk p)
    obtain frame r where p: "msgpack_to_object inp = MpOk (frame, r)" using MpOk by (cases p) simp
    note shorter = msgpack_to_object_shorter [OF p]
    then show ?thesis
      using less.prems less.hyps [OF shorter] p
      by (cases "frames_of r") (auto simp: frames_of.simps [of inp] split: if_splits)
  qed (use less.prems in \<open>auto simp: frames_of.simps [of inp] split: if_splits\<close>)
qed

lemma frames_fit_short: "length inp \<le> kRpcMaxMessage \<Longrightarrow> frames_fit inp"
  unfolding frames_fit_def using frames_of_rest by (metis (no_types, lifting) le_trans length_take min.cobounded1)

text \<open>A session handle is cut to 32 bits before it is looked at: this one means the current session.\<close>

lemma sess_handle_wraps: "sess_handle [OInteger 0x100000000] = Inr 0"
  by (simp add: sess_handle_def)

section \<open>Stopping\<close>

text \<open>Between two reads a running server holds at most one message's worth of bytes.\<close>

definition rpc_inv :: "rpc_server \<times> mua_state \<Rightarrow> bool" where
  "rpc_inv sm \<longleftrightarrow>
     serving (fst sm) \<and> api_ok (snd sm) \<and> (\<not> rs_stopping (fst sm) \<longrightarrow> length (rs_buf (fst sm)) \<le> kRpcMaxMessage)"

definition reads_ok :: "rpc_read list \<Rightarrow> bool" where
  "reads_ok reads \<longleftrightarrow> (\<forall>bytes. ReadData bytes \<in> set reads \<longrightarrow> length bytes \<le> kRpcReadChunk)"

lemma read_cb_inv:
  assumes "rpc_inv sm" "\<not> rs_stopping (fst sm)" "reads_ok [r]"
  shows "\<exists>sm'. read_cb r sm = Some sm' \<and> rpc_inv sm'"
proof -
  obtain s m where sm: "sm = (s, m)" by fastforce
  show ?thesis
  proof (cases r)
    case (ReadData bytes)
    have "drained (rpc_append bytes s, m) (rpc_drain (rpc_append bytes s, m))"
      by (rule rpc_drain_drains) (use assms ReadData in \<open>simp_all add: sm rpc_inv_def serving_def reads_ok_def\<close>)
    then show ?thesis
      using assms(1) by (auto simp: sm ReadData read_cb_def drained_def rpc_inv_def split: option.splits)
  next
    case ReadEnd
    then show ?thesis
      using close_channel_stops [of s m] assms(1) by (auto simp: sm read_cb_def rpc_inv_def)
  qed
qed

lemma rpc_reads_inv:
  "rpc_inv sm \<Longrightarrow> reads_ok reads \<Longrightarrow> \<exists>sm'. rpc_reads reads sm = Some sm' \<and> rpc_inv sm'"
proof (induction reads arbitrary: sm)
  case (Cons r reads)
  show ?case
  proof (cases "rs_stopping (fst sm)")
    case False
    then obtain sm1 where "read_cb r sm = Some sm1" "rpc_inv sm1"
      using read_cb_inv [OF Cons.prems(1) False, of r] Cons.prems(2) by (auto simp: reads_ok_def)
    then show ?thesis using Cons.IH [of sm1] Cons.prems(2) False by (simp add: reads_ok_def)
  qed (use Cons.prems in simp)
qed auto

lemma rpc_inv_open: "api_ok m \<Longrightarrow> rpc_inv (server_open, m)"
  by (simp add: rpc_inv_def server_open_def server_init_def serving_def)

lemma close_pipes_serving:
  "serving s \<Longrightarrow> close_pipes s = Some (s\<lparr>rs_in := PipeClosing, rs_out := PipeClosing\<rparr>)"
  by (auto simp: close_pipes_def close_if_open_def pipe_close_def serving_def)

section \<open>Properties\<close>

text \<open>C6. The channel refines a function of the byte stream, when no frame of it is over the cap of 16 MiB on the
  buffer: however libuv cuts the input into reads,
  a server that has read it has sent exactly the responses to the frames in the stream, in order, its
  stores are as after those calls, it has stopped if and only if the stream is malformed there, and
  else its buffer holds exactly the incomplete last message.\<close>

theorem rpc_refines_stream:
  assumes "api_ok m" "\<forall>c \<in> set chunks. length c \<le> kRpcReadChunk" "frames_fit (concat chunks)"
  shows "\<exists>s m'. rpc_reads (map ReadData chunks) (server_open, m) = Some (s, m')
    \<and> serve_frames (fst (frames_of (concat chunks))) m = Some (rs_written s, m')
    \<and> (case snd (frames_of (concat chunks)) of
         None \<Rightarrow> rs_stopping s | Some rest \<Rightarrow> \<not> rs_stopping s \<and> rs_buf s = rest)"
  using channel_at_reads [OF channel_at_open [OF assms(1)], of chunks] assms(2,3)
  by (auto simp: channel_at_def split: option.splits)

text \<open>C7. Every request is answered exactly once and in the order of arrival, notifications never:
  the k-th frame written decodes to the array of 1, the identifier of the k-th request, an error and
  a result, one of the two nil and the error a pair of its type and message. Unknown methods,
  arguments of the wrong shape and failing calls included.\<close>

theorem rpc_answers_in_order:
  assumes "api_ok m" "\<forall>c \<in> set chunks. length c \<le> kRpcReadChunk" "frames_fit (concat chunks)"
  shows "\<exists>s m'. rpc_reads (map ReadData chunks) (server_open, m) = Some (s, m')
    \<and> list_all2 answers (filter is_request (fst (frames_of (concat chunks)))) (rs_written s)"
  using channel_at_reads [OF channel_at_open [OF assms(1)], of chunks] assms(2,3)
  by (auto simp: channel_at_def)

text \<open>C35. Whatever bytes arrive, in whatever reads, and whichever setup call fails, \<open>rpc_serve\<close>
  returns: no assertion fails and no handle is closed twice; on return every pipe that was initialised
  has been closed, the exit code is 0 exactly when the channel was attached, and the stores still hold
  only well-formed values.\<close>

theorem rpc_serve_returns:
  assumes "api_ok m" "reads_ok reads"
  shows "\<exists>code s m'. rpc_serve su reads m = Some (code, s, m') \<and> api_ok m'
    \<and> code = (if su_init_in su \<and> su_init_out su \<and> su_open_in su \<and> su_open_out su \<and> su_read_start su then 0 else 1)
    \<and> rs_in s = (if su_init_in su then PipeClosing else PipeNone)
    \<and> rs_out s = (if su_init_in su \<and> su_init_out su then PipeClosing else PipeNone)"
proof -
  have open_eq: "server_init\<lparr>rs_in := PipeOpen, rs_out := PipeOpen\<rparr> = server_open"
    by (simp add: server_open_def)
  obtain s m' where run: "rpc_reads reads (server_open, m) = Some (s, m')" "rpc_inv (s, m')"
    using rpc_reads_inv [OF rpc_inv_open [OF assms(1)] assms(2)] by auto
  have "serving server_open" using rpc_inv_open [OF assms(1)] by (simp add: rpc_inv_def)
  then show ?thesis
    using assms(1) run close_pipes_serving [of server_open] close_pipes_serving [of s]
    by (simp add: rpc_serve_def Let_def open_eq rpc_inv_def pipe_close_def) (auto simp: server_init_def)
qed

text \<open>A request for an unknown method, cut in two reads.\<close>

definition sample_state :: mua_state where
  "sample_state = \<lparr>ms_options = g_options_init, ms_vars = [], ms_tools = [], ms_autocmds = autocmds_init, ms_session = None\<rparr>"

definition sample_chunks :: "byte list list" where
  "sample_chunks = [[0x94, 0x00, 0x07], [0xa1, 0x78, 0xc0]]"

lemma sample_state_ok: "api_ok sample_state"
  using options_init_ok by (auto simp: api_ok_def sample_state_def g_options_init_def)

lemma sample_chunks_ok:
  "\<forall>c \<in> set sample_chunks. length c \<le> kRpcReadChunk" "frames_fit (concat sample_chunks)"
  by (simp_all add: sample_chunks_def kRpcReadChunk_def frames_fit_short kRpcMaxMessage_def)

lemma sample_frames: "frames_of (concat sample_chunks) = ([Request 7 (Some ''x'') ONil], Some [])"
proof -
  let ?frame = "OArray [OInteger 0, OInteger 7, OString (Some ''x''), ONil]"
  have "concat sample_chunks = enc_obj ?frame @ []"
    by (simp add: sample_chunks_def enc_count_def enc_str_def mp_emit_int_def MSGPACK_BUFFER_INIT_def Let_def byte_of_char_def)
  then have "msgpack_to_object (concat sample_chunks) = MpOk (?frame, [])"
    using msgpack_decode_encoded [of ?frame "[]"] by (simp add: kMarshalDepthCap_def wire_str_def)
  then show ?thesis
    by (simp add: frames_of.simps [of "concat sample_chunks"] frames_of.simps [of "[]"] classify_def)
      (simp add: sample_chunks_def)
qed

theorem rpc_refines_stream_witness:
  "\<exists>s m'. rpc_reads (map ReadData sample_chunks) (server_open, sample_state) = Some (s, m')
    \<and> rs_buf s = [] \<and> rs_written s = [sent (response 7 (Some (kErrorTypeValidation, ''unknown method: x'')) ONil)]"
proof -
  have "serve_frames [Request 7 (Some ''x'') ONil] sample_state
      = Some ([sent (response 7 (Some (kErrorTypeValidation, ''unknown method: x'')) ONil)], sample_state)"
    by (simp add: call_method_def usage_error_def api_dispatch_find_def g_api_table_def)
  then show ?thesis
    using rpc_refines_stream [OF sample_state_ok sample_chunks_ok] sample_frames by auto
qed

theorem rpc_answers_in_order_witness:
  "\<exists>s m'. rpc_reads (map ReadData sample_chunks) (server_open, sample_state) = Some (s, m')
    \<and> list_all2 answers [Request 7 (Some ''x'') ONil] (rs_written s)"
  using rpc_answers_in_order [OF sample_state_ok sample_chunks_ok] sample_frames by simp

theorem rpc_serve_returns_witness:
  "\<exists>s m'. rpc_serve \<lparr>su_init_in = True, su_init_out = True, su_open_in = True, su_open_out = False, su_read_start = True\<rparr>
     [ReadData [0xc1], ReadEnd] sample_state = Some (1, s, m') \<and> rs_out s = PipeClosing"
proof -
  have "reads_ok [ReadData [0xc1], ReadEnd]" by (simp add: reads_ok_def kRpcReadChunk_def)
  from rpc_serve_returns [OF sample_state_ok this,
      of "\<lparr>su_init_in = True, su_init_out = True, su_open_in = True, su_open_out = False, su_read_start = True\<rparr>"]
  show ?thesis by auto
qed

end
