(* ===== verification/Render.thy ===== *)
theory Render
  imports Memory
begin

text \<open>
  The streaming Markdown renderer (\<open>render.c\<close>): bytes in, bytes with SGR sequences out. Every
  output verb appends to a capped buffer; the functions return whether all their appends
  succeeded, with the output so far. A line \<open>(p, n)\<close> of the code is the string \<open>p\<close> here.
\<close>

definition ESC :: char where "ESC = CHR 0x1B"

definition SGR_BOLD_ON :: string where "SGR_BOLD_ON = ESC # ''[1m''"
definition SGR_BOLD_OFF :: string where "SGR_BOLD_OFF = ESC # ''[22m''"
definition SGR_ITALIC_ON :: string where "SGR_ITALIC_ON = ESC # ''[3m''"
definition SGR_ITALIC_OFF :: string where "SGR_ITALIC_OFF = ESC # ''[23m''"
definition SGR_CODE_ON :: string where "SGR_CODE_ON = ESC # ''[36m''"
definition SGR_CODE_OFF :: string where "SGR_CODE_OFF = ESC # ''[39m''"
definition SGR_DIM_ON :: string where "SGR_DIM_ON = ESC # ''[2m''"
definition SGR_DIM_OFF :: string where "SGR_DIM_OFF = ESC # ''[22m''"

definition kRenderLineMax :: nat where "kRenderLineMax = 2 ^ 20"

definition STAR :: char where "STAR = CHR 0x2A"
definition TICK :: char where "TICK = CHR 0x60"
definition BACKSLASH :: char where "BACKSLASH = CHR 0x5C"
definition NEWLINE :: char where "NEWLINE = CHR 0x0A"

lemma markers_distinct [simp]:
  "TICK \<noteq> BACKSLASH" "STAR \<noteq> BACKSLASH" "STAR \<noteq> TICK" "TICK \<noteq> STAR"
  by (simp_all add: TICK_def STAR_def BACKSLASH_def)

section \<open>Emitting\<close>

text \<open>A chain of appends joined by \<open>&&\<close>.\<close>

fun put_all :: "string list \<Rightarrow> buf \<Rightarrow> bool \<times> buf" where
  "put_all [] out = (True, out)"
| "put_all (s # ss) out = (case buf_append out s of None \<Rightarrow> (False, out) | Some out \<Rightarrow> put_all ss out)"

function find_char :: "string \<Rightarrow> nat \<Rightarrow> char \<Rightarrow> nat" where
  "find_char p i ch = (if i < length p then if p ! i = ch then i else find_char p (i + 1) ch else length p)"
  by auto
termination find_char by (relation "measure (\<lambda>(p, i, ch). length p - i)") auto

declare find_char.simps [simp del]

section \<open>Inline spans\<close>

definition star_end :: "string \<Rightarrow> nat \<Rightarrow> nat" where
  "star_end p k = k + length (takeWhile (\<lambda>c. c = STAR) (drop k p))"

lemma star_end_progress: "k < length p \<Longrightarrow> p ! k = STAR \<Longrightarrow> k < star_end p k \<and> star_end p k \<le> length p"
  using length_takeWhile_le [of "\<lambda>c. c = STAR" "drop k p"]
  by (simp add: star_end_def Cons_nth_drop_Suc [symmetric] takeWhile.simps)

text \<open>The search for the closing run: its position, or the length of the line.\<close>

function emph_close :: "string \<Rightarrow> nat \<Rightarrow> nat \<Rightarrow> nat" where
  "emph_close p run scan =
     (if scan \<ge> length p then length p
      else if p ! scan \<noteq> STAR then emph_close p run (scan + 1)
      else if star_end p scan - scan \<ge> run then scan
      else emph_close p run (star_end p scan))"
  by auto
termination emph_close
proof (relation "measure (\<lambda>(p, run, scan). length p - scan)", goal_cases)
  case (3 p run scan)
  then show ?case using star_end_progress [of scan p] by auto
qed auto

declare emph_close.simps [simp del]

definition emphasis :: "string \<Rightarrow> nat \<Rightarrow> buf \<Rightarrow> bool \<times> nat \<times> buf" where
  "emphasis p i out =
     (let run = (if i + 1 < length p \<and> p ! (i + 1) = STAR then 2 else 1);
          close = emph_close p run (i + run)
      in if close = length p
         then (case put_all [take run (drop i p)] out of (ok, out) \<Rightarrow> (ok, i + run, out))
         else (case put_all [if run = 2 then SGR_BOLD_ON else SGR_ITALIC_ON,
                             take (close - (i + run)) (drop (i + run) p),
                             if run = 2 then SGR_BOLD_OFF else SGR_ITALIC_OFF] out of
                 (ok, out) \<Rightarrow> (ok, close + run, out)))"

lemma emph_close_bounds:
  "emph_close p run scan \<le> length p \<and> (emph_close p run scan < length p \<longrightarrow> scan \<le> emph_close p run scan)"
proof (induction p run scan rule: emph_close.induct)
  case (1 p run scan)
  show ?case
  proof (cases "scan < length p")
    case True
    show ?thesis
    proof (cases "p ! scan = STAR")
      case star: True
      then have "scan < star_end p scan" using star_end_progress [OF True star] by simp
      then show ?thesis using "1.IH"(2) True star by (subst (1 2 3) emph_close.simps) auto
    next
      case False
      then show ?thesis using "1.IH"(1) True by (subst (1 2 3) emph_close.simps) auto
    qed
  qed (subst (1 2 3) emph_close.simps, simp)
qed

lemma emphasis_progress: "emphasis p i out = (ok, j, out') \<Longrightarrow> i < j"
  using emph_close_bounds [of p 1 "i + 1"] emph_close_bounds [of p 2 "i + 2"]
  by (cases "i + 1 < length p \<and> p ! (i + 1) = STAR")
    (auto simp: emphasis_def Let_def simp del: put_all.simps split: if_splits prod.splits)

lemma find_char_bounds: "i \<le> length p \<Longrightarrow> i \<le> find_char p i ch \<and> find_char p i ch \<le> length p"
proof (induction p i ch rule: find_char.induct)
  case (1 p i ch)
  then show ?case by (subst (1 2) find_char.simps) force
qed

function inline_pass :: "string \<Rightarrow> nat \<Rightarrow> buf \<Rightarrow> bool \<times> buf" where
  "inline_pass p i out =
     (if i \<ge> length p then (True, out)
      else let c = p ! i in
        if c = BACKSLASH \<and> i + 1 < length p
        then (case put_all [[p ! (i + 1)]] out of
                (False, out) \<Rightarrow> (False, out) | (True, out) \<Rightarrow> inline_pass p (i + 2) out)
        else if c = TICK
        then (let j = find_char p (i + 1) TICK in
              if j < length p
              then (case put_all [SGR_CODE_ON, take (j - (i + 1)) (drop (i + 1) p), SGR_CODE_OFF] out of
                      (False, out) \<Rightarrow> (False, out) | (True, out) \<Rightarrow> inline_pass p (j + 1) out)
              else (case put_all [[c]] out of
                      (False, out) \<Rightarrow> (False, out) | (True, out) \<Rightarrow> inline_pass p (i + 1) out))
        else if c = STAR
        then (case emphasis p i out of
                (False, j, out) \<Rightarrow> (False, out) | (True, j, out) \<Rightarrow> inline_pass p j out)
        else (case put_all [[c]] out of
                (False, out) \<Rightarrow> (False, out) | (True, out) \<Rightarrow> inline_pass p (i + 1) out))"
  by auto
termination inline_pass
proof (relation "measure (\<lambda>(p, i, out). length p - i)", goal_cases)
  case (3 p i out c j)
  then show ?case using find_char_bounds [of "i + 1" p TICK] by auto
next
  case (5 p i out c x y j out')
  then have "i < j" using emphasis_progress [of p i out x j out'] by simp
  then show ?case using 5 by (cases y) simp
qed auto

declare inline_pass.simps [simp del]

section \<open>Lines\<close>

definition is_fence :: "string \<Rightarrow> bool" where
  "is_fence p =
     (let q = dropWhile (\<lambda>c. c = CHR '' '') p
      in length q \<ge> 3 \<and> (take 3 q = [TICK, TICK, TICK] \<or> take 3 q = ''~~~''))"

definition block_prefix :: "string \<Rightarrow> nat" where
  "block_prefix p =
     (let i = length (takeWhile (\<lambda>c. c = CHR '' '' \<or> c = CHR 0x09) p) in
      if i \<ge> length p then 0
      else if p ! i = CHR ''>'' then (if i + 1 < length p \<and> p ! (i + 1) = CHR '' '' then i + 2 else i + 1)
      else if (p ! i = CHR ''-'' \<or> p ! i = STAR \<or> p ! i = CHR ''+'') \<and> i + 1 < length p \<and> p ! (i + 1) = CHR '' ''
      then i + 2
      else
        let j = i + length (takeWhile is_c_digit (drop i p)) in
        if j > i \<and> j + 1 < length p \<and> (p ! j = CHR ''.'' \<or> p ! j = CHR '')'') \<and> p ! (j + 1) = CHR '' ''
        then j + 2 else 0)"

definition normal_line :: "string \<Rightarrow> buf \<Rightarrow> bool \<times> buf" where
  "normal_line p out =
     (let i = length (takeWhile (\<lambda>c. c = CHR '' '') (take 3 p));
          hashes = length (takeWhile (\<lambda>c. c = CHR ''#'') (take 6 (drop i p)))
      in if hashes > 0 \<and> (i + hashes = length p \<or> p ! (i + hashes) = CHR '' '')
         then let start = i + hashes;
                  start = (if start < length p \<and> p ! start = CHR '' '' then start + 1 else start)
              in put_all [SGR_BOLD_ON, drop start p, SGR_BOLD_OFF] out
         else let prefix = block_prefix p in
              case (if prefix > 0 then put_all [take prefix p] out else (True, out)) of
                (False, out) \<Rightarrow> (False, out)
              | (True, out) \<Rightarrow> inline_pass (drop prefix p) 0 out)"

section \<open>The renderer\<close>

record renderer =
  rn_line :: buf
  rn_in_fence :: bool
  rn_line_overflowed :: bool
  rn_ended_newline :: bool

definition style_line :: "renderer \<Rightarrow> string \<Rightarrow> buf \<Rightarrow> bool \<times> renderer \<times> buf" where
  "style_line r p out =
     (if is_fence p
      then (case put_all [SGR_DIM_ON, p, SGR_DIM_OFF] out of
              (ok, out) \<Rightarrow> (ok, r\<lparr>rn_in_fence := \<not> rn_in_fence r\<rparr>, out))
      else if rn_in_fence r
      then (case put_all [SGR_CODE_ON, p, SGR_CODE_OFF] out of (ok, out) \<Rightarrow> (ok, r, out))
      else (case normal_line p out of (ok, out) \<Rightarrow> (ok, r, out)))"

definition render_init :: renderer where
  "render_init = \<lparr>rn_line = buf_init kRenderLineMax, rn_in_fence = False, rn_line_overflowed = False,
                  rn_ended_newline = True\<rparr>"

text \<open>The body of the loop of \<open>render_feed\<close>.\<close>

definition render_newline :: "renderer \<Rightarrow> buf \<Rightarrow> bool \<times> renderer \<times> buf" where
  "render_newline r out =
     (case (if rn_line_overflowed r then (True, r, out) else style_line r (buf_data (rn_line r)) out) of
        (False, r, out) \<Rightarrow> (False, r, out)
      | (True, r, out) \<Rightarrow>
          let r = r\<lparr>rn_line := buf_reset (rn_line r), rn_line_overflowed := False\<rparr>
          in case put_all [[NEWLINE]] out of
               (False, out) \<Rightarrow> (False, r, out)
             | (True, out) \<Rightarrow> (True, r\<lparr>rn_ended_newline := True\<rparr>, out))"

definition render_char :: "renderer \<Rightarrow> char \<Rightarrow> buf \<Rightarrow> bool \<times> renderer \<times> buf" where
  "render_char r c out =
     (if c = NEWLINE then render_newline r out
      else if rn_line_overflowed r
      then (case put_all [[c]] out of
              (False, out) \<Rightarrow> (False, r, out)
            | (True, out) \<Rightarrow> (True, r\<lparr>rn_ended_newline := False\<rparr>, out))
      else (case buf_append (rn_line r) [c] of
              Some line \<Rightarrow> (True, r\<lparr>rn_line := line\<rparr>, out)
            | None \<Rightarrow>
                (case put_all [buf_data (rn_line r), [c]] out of
                   (False, out) \<Rightarrow> (False, r, out)
                 | (True, out) \<Rightarrow>
                     (True, r\<lparr>rn_line := buf_reset (rn_line r), rn_line_overflowed := True,
                              rn_ended_newline := False\<rparr>, out))))"

fun render_feed :: "renderer \<Rightarrow> string \<Rightarrow> buf \<Rightarrow> bool \<times> renderer \<times> buf" where
  "render_feed r [] out = (True, r, out)"
| "render_feed r (c # cs) out =
     (case render_char r c out of
        (False, r, out) \<Rightarrow> (False, r, out)
      | (True, r, out) \<Rightarrow> render_feed r cs out)"

definition render_flush :: "renderer \<Rightarrow> buf \<Rightarrow> bool \<times> renderer \<times> buf" where
  "render_flush r out =
     (case (if \<not> rn_line_overflowed r \<and> buf_size (rn_line r) > 0
            then (case style_line r (buf_data (rn_line r)) out of
                    (ok, r, out) \<Rightarrow> (ok, if ok then r\<lparr>rn_ended_newline := False\<rparr> else r, out))
            else (True, r, out)) of
        (False, r, out) \<Rightarrow> (False, r, out)
      | (True, r, out) \<Rightarrow>
          (True, r\<lparr>rn_line := buf_reset (rn_line r), rn_line_overflowed := False, rn_in_fence := False\<rparr>, out))"

definition render_free :: "renderer \<Rightarrow> renderer" where
  "render_free r = r\<lparr>rn_line := buf_free (rn_line r)\<rparr>"

end
