(* ===== verification/RenderProps.thy ===== *)
theory RenderProps
  imports Render "HOL-Library.Sublist"
begin

text \<open>
  Properties of the renderer: the pieces each operation appends as a function of the line, the
  streaming renderer as a function of the whole text, and what its SGR sequences leave behind.
\<close>

section \<open>The pieces of a line\<close>

lemma put_all_append:
  "put_all (xs @ ys) out = (case put_all xs out of (False, out) \<Rightarrow> (False, out) | (True, out) \<Rightarrow> put_all ys out)"
  by (induction xs arbitrary: out) (auto split: option.split)

definition emph_pieces :: "string \<Rightarrow> nat \<Rightarrow> string list \<times> nat" where
  "emph_pieces p i =
     (let run = (if i + 1 < length p \<and> p ! (i + 1) = STAR then 2 else 1);
          close = emph_close p run (i + run)
      in if close = length p then ([take run (drop i p)], i + run)
         else ([if run = 2 then SGR_BOLD_ON else SGR_ITALIC_ON,
                take (close - (i + run)) (drop (i + run) p),
                if run = 2 then SGR_BOLD_OFF else SGR_ITALIC_OFF], close + run))"

lemma emphasis_pieces:
  "emphasis p i out = (case put_all (fst (emph_pieces p i)) out of (ok, out) \<Rightarrow> (ok, snd (emph_pieces p i), out))"
  by (simp add: emphasis_def emph_pieces_def Let_def del: put_all.simps)

lemma emph_pieces_progress: "i < snd (emph_pieces p i)"
proof -
  obtain ok out where "put_all (fst (emph_pieces p i)) (buf_init 0) = (ok, out)" by fastforce
  then have "emphasis p i (buf_init 0) = (ok, snd (emph_pieces p i), out)" by (simp add: emphasis_pieces)
  then show ?thesis by (rule emphasis_progress)
qed

definition tick_pieces :: "string \<Rightarrow> nat \<Rightarrow> string list \<times> nat" where
  "tick_pieces p i =
     (let j = find_char p (i + 1) TICK in
      if j < length p then ([SGR_CODE_ON, take (j - (i + 1)) (drop (i + 1) p), SGR_CODE_OFF], j + 1)
      else ([[p ! i]], i + 1))"

definition span_pieces :: "string \<Rightarrow> nat \<Rightarrow> string list \<times> nat" where
  "span_pieces p i =
     (if p ! i = BACKSLASH \<and> i + 1 < length p then ([[p ! (i + 1)]], i + 2)
      else if p ! i = TICK then tick_pieces p i
      else if p ! i = STAR then emph_pieces p i
      else ([[p ! i]], i + 1))"

lemma span_pieces_progress: "i < length p \<Longrightarrow> i < snd (span_pieces p i)"
  using emph_pieces_progress find_char_bounds [of "i + 1" p TICK]
  by (auto simp: span_pieces_def tick_pieces_def Let_def)

function inline_pieces :: "string \<Rightarrow> nat \<Rightarrow> string list" where
  "inline_pieces p i =
     (if i \<ge> length p then [] else fst (span_pieces p i) @ inline_pieces p (snd (span_pieces p i)))"
  by auto
termination inline_pieces
proof (relation "measure (\<lambda>(p, i). length p - i)", goal_cases)
  case (2 p i)
  then show ?case using span_pieces_progress [of i p] by simp
qed simp

declare inline_pieces.simps [simp del]

lemma inline_pass_span:
  assumes "i < length p"
  shows "inline_pass p i out =
     (case put_all (fst (span_pieces p i)) out of
        (False, out) \<Rightarrow> (False, out) | (True, out) \<Rightarrow> inline_pass p (snd (span_pieces p i)) out)"
proof -
  consider (escape) "p ! i = BACKSLASH \<and> i + 1 < length p"
    | (tick) "\<not> (p ! i = BACKSLASH \<and> i + 1 < length p)" "p ! i = TICK"
    | (star) "\<not> (p ! i = BACKSLASH \<and> i + 1 < length p)" "p ! i \<noteq> TICK" "p ! i = STAR"
    | (literal) "\<not> (p ! i = BACKSLASH \<and> i + 1 < length p)" "p ! i \<noteq> TICK" "p ! i \<noteq> STAR"
    by blast
  then show ?thesis
  proof cases
    case escape
    then show ?thesis
      using assms by (subst inline_pass.simps) (simp add: span_pieces_def Let_def del: put_all.simps split: prod.split bool.split)
  next
    case tick
    then have "span_pieces p i = tick_pieces p i" by (simp add: span_pieces_def)
    moreover have "inline_pass p i out =
        (case put_all (fst (tick_pieces p i)) out of
           (False, out) \<Rightarrow> (False, out) | (True, out) \<Rightarrow> inline_pass p (snd (tick_pieces p i)) out)"
    proof (cases "find_char p (i + 1) TICK < length p")
      case True
      then have "tick_pieces p i = ([SGR_CODE_ON, take (find_char p (i + 1) TICK - (i + 1)) (drop (i + 1) p), SGR_CODE_OFF],
          find_char p (i + 1) TICK + 1)" by (simp add: tick_pieces_def Let_def)
      then show ?thesis
        using assms [folded not_le] tick True by (subst inline_pass.simps) (simp only: Let_def if_True if_False fst_conv snd_conv simp_thms)
    next
      case False
      then have "tick_pieces p i = ([[p ! i]], i + 1)" by (simp add: tick_pieces_def Let_def)
      then show ?thesis
        using assms [folded not_le] tick False by (subst inline_pass.simps) (simp only: Let_def if_True if_False fst_conv snd_conv simp_thms)
    qed
    ultimately show ?thesis by (simp only:)
  next
    case star
    obtain ok out' where "put_all (fst (emph_pieces p i)) out = (ok, out')" by fastforce
    with star show ?thesis
      using assms by (subst inline_pass.simps) (simp add: span_pieces_def emphasis_pieces Let_def split: bool.split)
  next
    case literal
    then have "span_pieces p i = ([[p ! i]], i + 1)" by (auto simp: span_pieces_def)
    then show ?thesis
      using assms [folded not_le] literal
      by (subst inline_pass.simps) (simp only: Let_def if_False fst_conv snd_conv)
  qed
qed

lemma inline_pass_pieces: "inline_pass p i out = put_all (inline_pieces p i) out"
proof (induction p i arbitrary: out rule: inline_pieces.induct)
  case (1 p i)
  show ?case
  proof (cases "i < length p")
    case True
    then show ?thesis
      using 1 by (subst inline_pieces.simps) (auto simp: inline_pass_span put_all_append split: prod.split bool.split)
  next
    case False
    then show ?thesis by (simp add: inline_pass.simps [of p i] inline_pieces.simps [of p i])
  qed
qed

definition normal_pieces :: "string \<Rightarrow> string list" where
  "normal_pieces p =
     (let i = length (takeWhile (\<lambda>c. c = CHR '' '') (take 3 p));
          hashes = length (takeWhile (\<lambda>c. c = CHR ''#'') (take 6 (drop i p)))
      in if hashes > 0 \<and> (i + hashes = length p \<or> p ! (i + hashes) = CHR '' '')
         then let start = i + hashes;
                  start = (if start < length p \<and> p ! start = CHR '' '' then start + 1 else start)
              in [SGR_BOLD_ON, drop start p, SGR_BOLD_OFF]
         else take (block_prefix p) p # inline_pieces (drop (block_prefix p) p) 0)"

lemma put_nothing: "put_all ([] # ss) out = put_all ss out"
  by (simp add: buf_append_def)

lemma normal_line_pieces: "normal_line p out = put_all (normal_pieces p) out"
proof -
  have "(case if 0 < n then put_all [take n p] out else (True, out) of
       (False, out) \<Rightarrow> (False, out) | (True, out) \<Rightarrow> inline_pass (drop n p) 0 out)
     = put_all (take n p # inline_pieces (drop n p) 0) out" for n
    using put_all_append [of "[take n p]" "inline_pieces (drop n p) 0" out]
    by (cases "n = 0") (simp_all add: inline_pass_pieces put_nothing del: put_all.simps split: prod.split bool.split)
  then show ?thesis
    by (simp add: normal_line_def normal_pieces_def Let_def del: put_all.simps)
qed

definition line_pieces :: "bool \<Rightarrow> string \<Rightarrow> string list" where
  "line_pieces fence p =
     (if is_fence p then [SGR_DIM_ON, p, SGR_DIM_OFF]
      else if fence then [SGR_CODE_ON, p, SGR_CODE_OFF] else normal_pieces p)"

definition fence_after :: "bool \<Rightarrow> string \<Rightarrow> bool" where
  "fence_after fence p = (fence \<noteq> is_fence p)"

lemma style_line_pieces:
  "style_line r p out =
   (case put_all (line_pieces (rn_in_fence r) p) out of
      (ok, out) \<Rightarrow> (ok, r\<lparr>rn_in_fence := fence_after (rn_in_fence r) p\<rparr>, out))"
  by (simp add: style_line_def line_pieces_def fence_after_def normal_line_pieces del: put_all.simps split: prod.split)

section \<open>The stream as a function of the text\<close>

text \<open>Each line styled as a whole, unless it is longer than the line buffer.\<close>

definition line_text :: "bool \<Rightarrow> string \<Rightarrow> string" where
  "line_text fence l = (if kRenderLineMax < length l then l else concat (line_pieces fence l))"

definition line_fence :: "bool \<Rightarrow> string \<Rightarrow> bool" where
  "line_fence fence l = (if kRenderLineMax < length l then fence else fence_after fence l)"

function render_text :: "bool \<Rightarrow> string \<Rightarrow> string" where
  "render_text fence s =
     (let l = takeWhile (\<lambda>c. c \<noteq> NEWLINE) s in
      if l = s then (if s = [] then [] else line_text fence l)
      else line_text fence l @ [NEWLINE] @ render_text (line_fence fence l) (drop (length l + 1) s))"
  by auto
termination render_text by (relation "measure (\<lambda>(fence, s). length s)") (auto intro!: diff_less length_pos_if_in_set)

declare render_text.simps [simp del]

lemma split_newline:
  assumes "takeWhile (\<lambda>c. c \<noteq> NEWLINE) s \<noteq> s"
  shows "s = takeWhile (\<lambda>c. c \<noteq> NEWLINE) s @ NEWLINE # drop (length (takeWhile (\<lambda>c. c \<noteq> NEWLINE) s) + 1) s"
  using assms by (induction s) auto

text \<open>A renderer at the start of a line.\<close>

definition at_line_start :: "renderer \<Rightarrow> bool" where
  "at_line_start r \<longleftrightarrow> buf_ok (rn_line r) \<and> buf_max (rn_line r) = kRenderLineMax \<and> buf_data (rn_line r) = []
     \<and> \<not> rn_line_overflowed r"

definition appended :: "buf \<Rightarrow> string \<Rightarrow> buf \<Rightarrow> bool" where
  "appended out s out' \<longleftrightarrow> buf_ok out' \<and> buf_data out' = buf_data out @ s \<and> buf_max out' = buf_max out"

lemma put_all_appends:
  "buf_ok out \<Longrightarrow> buf_size out + length (concat ss) \<le> buf_max out \<Longrightarrow>
   \<exists>out'. put_all ss out = (True, out') \<and> appended out (concat ss) out'"
proof (induction ss arbitrary: out)
  case (Cons s ss)
  obtain c where c: "buf_append out s = Some (out\<lparr>buf_data := buf_data out @ s, buf_cap := c\<rparr>)"
      "buf_ok (out\<lparr>buf_data := buf_data out @ s, buf_cap := c\<rparr>)"
    using buf_append_fits [OF Cons.prems(1), of s] Cons.prems(2) by auto
  then show ?case
    using Cons.IH [OF c(2)] Cons.prems(2) by (auto simp: appended_def buf_size_def)
qed (simp add: appended_def)

lemma appended_trans: "appended out s out1 \<Longrightarrow> appended out1 t out2 \<Longrightarrow> appended out (s @ t) out2"
  by (simp add: appended_def)

lemma render_feed_append:
  "render_feed r (xs @ ys) out =
   (case render_feed r xs out of (False, r, out) \<Rightarrow> (False, r, out) | (True, r, out) \<Rightarrow> render_feed r ys out)"
  by (induction xs arbitrary: r out) (auto split: prod.split bool.split)

lemma feed_short_line:
  assumes "buf_ok (rn_line r)" "buf_max (rn_line r) = kRenderLineMax" "\<not> rn_line_overflowed r" "NEWLINE \<notin> set l"
    "length (buf_data (rn_line r)) + length l \<le> kRenderLineMax"
  shows "\<exists>line. render_feed r l out = (True, r\<lparr>rn_line := line\<rparr>, out) \<and> appended (rn_line r) l line"
  using assms
proof (induction l arbitrary: r)
  case Nil
  then show ?case by (intro exI [of _ "rn_line r"]) (simp add: appended_def)
next
  case (Cons c l)
  obtain k where k: "buf_append (rn_line r) [c] = Some (rn_line r\<lparr>buf_data := buf_data (rn_line r) @ [c], buf_cap := k\<rparr>)"
      "buf_ok (rn_line r\<lparr>buf_data := buf_data (rn_line r) @ [c], buf_cap := k\<rparr>)"
    using buf_append_fits [OF Cons.prems(1), of "[c]"] Cons.prems(2,5) by (auto simp: buf_size_def)
  then show ?case
    using Cons.IH [of "r\<lparr>rn_line := rn_line r\<lparr>buf_data := buf_data (rn_line r) @ [c], buf_cap := k\<rparr>\<rparr>"] Cons.prems
    by (auto simp: render_char_def appended_def)
qed

lemma feed_raw:
  assumes "rn_line_overflowed r" "NEWLINE \<notin> set l" "buf_ok out" "buf_size out + length l \<le> buf_max out"
  shows "\<exists>out'. render_feed r l out = (True, if l = [] then r else r\<lparr>rn_ended_newline := False\<rparr>, out') \<and> appended out l out'"
  using assms
proof (induction l arbitrary: r out)
  case (Cons c l)
  obtain out1 where o: "put_all [[c]] out = (True, out1)" "appended out [c] out1"
    using put_all_appends [OF Cons.prems(3), of "[[c]]"] Cons.prems(4) by auto
  then obtain out2 where "render_feed (r\<lparr>rn_ended_newline := False\<rparr>) l out1 = (True, r\<lparr>rn_ended_newline := False\<rparr>, out2)"
      "appended out1 l out2"
    using Cons.IH [of "r\<lparr>rn_ended_newline := False\<rparr>" out1] Cons.prems by (auto simp: appended_def buf_size_def)
  then show ?case
    using o Cons.prems appended_trans [OF o(2)] by (auto simp: render_char_def simp del: put_all.simps)
qed (simp add: appended_def)

lemma feed_long_line:
  assumes "at_line_start r" "NEWLINE \<notin> set l" "kRenderLineMax < length l" "buf_ok out" "buf_size out + length l \<le> buf_max out"
  shows "\<exists>line out'. render_feed r l out = (True, r\<lparr>rn_line := line, rn_line_overflowed := True, rn_ended_newline := False\<rparr>, out')
    \<and> buf_ok line \<and> buf_max line = kRenderLineMax \<and> buf_data line = [] \<and> appended out l out'"
proof -
  define a where "a = take kRenderLineMax l"
  obtain c b where l: "l = a @ c # b" "length a = kRenderLineMax"
    using assms(3) id_take_nth_drop [of kRenderLineMax l] by (auto simp: a_def)
  obtain line where f: "render_feed r a out = (True, r\<lparr>rn_line := line\<rparr>, out)" "appended (rn_line r) a line"
    using feed_short_line [of r a out] assms(1,2) l by (auto simp: at_line_start_def)
  have full: "buf_append line [c] = None"
    by (rule buf_append_refuses) (use f(2) assms(1) l(2) in \<open>simp_all add: appended_def at_line_start_def buf_size_def\<close>)
  obtain out1 where o: "put_all [a, [c]] out = (True, out1)" "appended out (a @ [c]) out1"
    using put_all_appends [OF assms(4), of "[a, [c]]"] assms(5) l(1) by auto
  let ?r = "r\<lparr>rn_line := buf_reset line, rn_line_overflowed := True, rn_ended_newline := False\<rparr>"
  have step: "render_char (r\<lparr>rn_line := line\<rparr>) c out = (True, ?r, out1)"
    using full o(1) f(2) assms(1,2) l(1)
    by (auto simp: render_char_def appended_def at_line_start_def simp del: put_all.simps)
  obtain out2 where "render_feed ?r b out1 = (True, if b = [] then ?r else ?r\<lparr>rn_ended_newline := False\<rparr>, out2)"
      "appended out1 b out2"
    using feed_raw [of ?r b out1] assms(2,5) l(1) o(2) by (auto simp: appended_def buf_size_def)
  moreover have "buf_ok (buf_reset line)" "buf_max (buf_reset line) = kRenderLineMax" "buf_data (buf_reset line) = []"
    using f(2) assms(1) buf_reset_ok by (auto simp: appended_def at_line_start_def buf_reset_def)
  ultimately show ?thesis
    using f(1) step appended_trans [OF o(2)] l(1)
    by (intro exI [of _ "buf_reset line"] exI [of _ out2]) (simp add: render_feed_append)
qed

text \<open>A line without its newline: buffered, or already written raw.\<close>

definition line_pending :: "renderer \<Rightarrow> buf \<Rightarrow> string \<Rightarrow> renderer \<Rightarrow> buf \<Rightarrow> bool" where
  "line_pending r out l r' out' \<longleftrightarrow>
     buf_ok (rn_line r') \<and> buf_max (rn_line r') = kRenderLineMax \<and> rn_in_fence r' = rn_in_fence r
     \<and> rn_line_overflowed r' = (kRenderLineMax < length l)
     \<and> (if kRenderLineMax < length l
        then buf_data (rn_line r') = [] \<and> \<not> rn_ended_newline r' \<and> appended out l out'
        else buf_data (rn_line r') = l \<and> rn_ended_newline r' = rn_ended_newline r \<and> out' = out)"

lemma feed_line:
  assumes "at_line_start r" "NEWLINE \<notin> set l" "buf_ok out" "buf_size out + length (line_text (rn_in_fence r) l) \<le> buf_max out"
  shows "\<exists>r' out'. render_feed r l out = (True, r', out') \<and> line_pending r out l r' out'"
proof (cases "kRenderLineMax < length l")
  case True
  then show ?thesis
    using feed_long_line [OF assms(1,2) True assms(3)] assms(4) by (auto simp: line_text_def line_pending_def)
next
  case False
  then show ?thesis
    using feed_short_line [of r l out] assms(1,2) by (auto simp: at_line_start_def line_pending_def appended_def)
qed

text \<open>Styling the buffered line, if it is styled at all.\<close>

lemma style_pending:
  assumes "line_pending r out l r1 out1" "\<not> kRenderLineMax < length l" "buf_ok out"
    "buf_size out + length (line_text (rn_in_fence r) l) \<le> buf_max out"
  obtains out' where "style_line r1 l out1 = (True, r1\<lparr>rn_in_fence := line_fence (rn_in_fence r) l\<rparr>, out')"
    "appended out (line_text (rn_in_fence r) l) out'"
  using assms put_all_appends [OF assms(3), of "line_pieces (rn_in_fence r) l"]
  by (auto simp: style_line_pieces line_pending_def line_text_def line_fence_def)

lemma feed_newline:
  assumes "line_pending r out l r1 out1" "buf_ok out"
    "buf_size out + length (line_text (rn_in_fence r) l) + 1 \<le> buf_max out"
  shows "\<exists>r' out'. render_char r1 NEWLINE out1 = (True, r', out') \<and> at_line_start r' \<and> rn_ended_newline r'
    \<and> rn_in_fence r' = line_fence (rn_in_fence r) l \<and> appended out (line_text (rn_in_fence r) l @ [NEWLINE]) out'"
proof -
  let ?f = "line_fence (rn_in_fence r) l" and ?t = "line_text (rn_in_fence r) l"
  obtain out2 where o: "(if rn_line_overflowed r1 then (True, r1, out1) else style_line r1 (buf_data (rn_line r1)) out1)
      = (True, r1\<lparr>rn_in_fence := ?f\<rparr>, out2)" "appended out ?t out2"
  proof (cases "kRenderLineMax < length l")
    case True
    then show thesis using assms(1) by (intro that [of out1]) (auto simp: line_pending_def line_text_def line_fence_def)
  next
    case False
    then obtain out' where "style_line r1 l out1 = (True, r1\<lparr>rn_in_fence := ?f\<rparr>, out')" "appended out ?t out'"
      using style_pending [OF assms(1) False assms(2)] assms(3) by auto
    then show thesis using assms(1) False by (intro that [of out']) (auto simp: line_pending_def)
  qed
  obtain out3 where "put_all [[NEWLINE]] out2 = (True, out3)" "appended out2 [NEWLINE] out3"
    using put_all_appends [of out2 "[[NEWLINE]]"] o(2) assms(3) by (auto simp: appended_def buf_size_def)
  then show ?thesis
    using o assms(1) appended_trans [OF o(2)] buf_reset_ok
    by (auto simp: render_char_def render_newline_def Let_def at_line_start_def line_pending_def buf_reset_def
        simp del: put_all.simps)
qed

text \<open>Feeding a text and flushing, in one piece and in chunks.\<close>

definition render_all :: "renderer \<Rightarrow> string \<Rightarrow> buf \<Rightarrow> bool \<times> renderer \<times> buf" where
  "render_all r s out =
     (case render_feed r s out of (False, r, out) \<Rightarrow> (False, r, out) | (True, r, out) \<Rightarrow> render_flush r out)"

fun render_chunks :: "renderer \<Rightarrow> string list \<Rightarrow> buf \<Rightarrow> bool \<times> renderer \<times> buf" where
  "render_chunks r [] out = render_flush r out"
| "render_chunks r (c # cs) out =
     (case render_feed r c out of (False, r, out) \<Rightarrow> (False, r, out) | (True, r, out) \<Rightarrow> render_chunks r cs out)"

lemma render_chunks_concat: "render_chunks r cs out = render_all r (concat cs) out"
proof (induction cs arbitrary: r out)
  case (Cons c cs)
  then show ?case by (simp add: render_all_def render_feed_append split: prod.split bool.split)
qed (simp add: render_all_def)

lemma flush_line:
  assumes "line_pending r out l r1 out1" "l \<noteq> []" "buf_ok out"
    "buf_size out + length (line_text (rn_in_fence r) l) \<le> buf_max out"
  shows "\<exists>r' out'. render_flush r1 out1 = (True, r', out') \<and> at_line_start r' \<and> \<not> rn_in_fence r'
    \<and> \<not> rn_ended_newline r' \<and> appended out (line_text (rn_in_fence r) l) out'"
proof (cases "kRenderLineMax < length l")
  case True
  then show ?thesis
    using assms(1) buf_reset_ok
    by (auto simp: render_flush_def line_pending_def line_text_def at_line_start_def buf_reset_def)
next
  case False
  then obtain out' where "style_line r1 l out1 = (True, r1\<lparr>rn_in_fence := line_fence (rn_in_fence r) l\<rparr>, out')"
      "appended out (line_text (rn_in_fence r) l) out'"
    using style_pending [OF assms(1) False assms(3,4)] by auto
  then show ?thesis
    using assms(1,2) False buf_reset_ok
    by (auto simp: render_flush_def line_pending_def at_line_start_def buf_reset_def buf_size_def)
qed

lemma render_all_text:
  assumes "at_line_start r" "buf_ok out" "buf_size out + length (render_text (rn_in_fence r) s) \<le> buf_max out"
  shows "\<exists>r' out'. render_all r s out = (True, r', out') \<and> at_line_start r' \<and> \<not> rn_in_fence r'
    \<and> rn_ended_newline r' = (if s = [] then rn_ended_newline r else last s = NEWLINE)
    \<and> appended out (render_text (rn_in_fence r) s) out'"
  using assms
proof (induction "length s" arbitrary: r out s rule: less_induct)
  case less
  define l where "l = takeWhile (\<lambda>c. c \<noteq> NEWLINE) s"
  have nl: "NEWLINE \<notin> set l" by (auto simp: l_def dest: set_takeWhileD)
  note unf = render_text.simps [of "rn_in_fence r" s, folded l_def, unfolded Let_def]
  show ?case
  proof (cases "l = s")
    case True
    show ?thesis
    proof (cases "s = []")
      case True
      then show ?thesis
        using less.prems buf_reset_ok [of "rn_line r"]
        by (auto simp: render_all_def render_flush_def at_line_start_def buf_size_def buf_reset_def
            appended_def render_text.simps [of _ "[]"])
    next
      case False
      have "last s \<noteq> NEWLINE" using nl False \<open>l = s\<close> last_in_set by metis
      obtain r1 out1 where "render_feed r s out = (True, r1, out1)" "line_pending r out s r1 out1"
        using feed_line [OF less.prems(1) nl less.prems(2)] less.prems(3) unf \<open>l = s\<close> False by auto
      then show ?thesis
        using flush_line [of r out s r1 out1] less.prems unf \<open>l = s\<close> False \<open>last s \<noteq> NEWLINE\<close>
        by (auto simp: render_all_def)
    qed
  next
    case False
    define t where "t = drop (length l + 1) s"
    have s: "s = l @ NEWLINE # t" using split_newline [of s] False by (simp add: l_def t_def)
    then have rendered: "render_text (rn_in_fence r) s
        = line_text (rn_in_fence r) l @ [NEWLINE] @ render_text (line_fence (rn_in_fence r) l) t"
      using unf False by (simp add: t_def)
    obtain r1 out1 where l1: "render_feed r l out = (True, r1, out1)" "line_pending r out l r1 out1"
      using feed_line [OF less.prems(1) nl less.prems(2)] less.prems(3) rendered by auto
    obtain r2 out2 where n: "render_char r1 NEWLINE out1 = (True, r2, out2)" "at_line_start r2" "rn_ended_newline r2"
        "rn_in_fence r2 = line_fence (rn_in_fence r) l" "appended out (line_text (rn_in_fence r) l @ [NEWLINE]) out2"
      using feed_newline [OF l1(2) less.prems(2)] less.prems(3) rendered by auto
    have "length t < length s" by (simp add: s)
    from less.hyps [OF this n(2), of out2] obtain r' out' where
        "render_all r2 t out2 = (True, r', out')" "at_line_start r'" "\<not> rn_in_fence r'"
        "rn_ended_newline r' = (if t = [] then rn_ended_newline r2 else last t = NEWLINE)"
        "appended out2 (render_text (rn_in_fence r2) t) out'"
      using less.prems(3) rendered n by (auto simp: appended_def buf_size_def)
    moreover have "render_all r s out = render_all r2 t out2"
      using l1(1) n(1) by (simp add: s render_all_def render_feed_append)
    ultimately show ?thesis
      using n appended_trans [OF n(5)] rendered by (auto simp: s)
  qed
qed

section \<open>Draining the output between chunks\<close>

lemma put_all_within: "put_all ss out = (True, out') \<Longrightarrow> buf_ok out \<Longrightarrow> buf_size out + length (concat ss) \<le> buf_max out"
proof (induction ss arbitrary: out)
  case (Cons s ss)
  then obtain out1 where a: "buf_append out s = Some out1" "put_all ss out1 = (True, out')"
    by (auto split: option.splits)
  have fits: "buf_size out + length s \<le> buf_max out"
    using buf_append_refuses [OF Cons.prems(2), of s] a(1) by fastforce
  then have "buf_ok out1" "buf_size out1 = buf_size out + length s" "buf_max out1 = buf_max out"
    using buf_append_fits [OF Cons.prems(2) fits] a(1) by (auto simp: buf_size_def)
  then show ?case using Cons.IH [OF a(2)] by simp
qed (simp add: buf_ok_def)

text \<open>\<open>small\<close> holds what \<open>big\<close> holds after \<open>p\<close>.\<close>

definition out_suffix :: "string \<Rightarrow> buf \<Rightarrow> buf \<Rightarrow> bool" where
  "out_suffix p big small \<longleftrightarrow> buf_ok big \<and> buf_ok small \<and> buf_max small = buf_max big \<and> buf_data big = p @ buf_data small"

lemma put_all_suffix:
  assumes "put_all ss big = (True, big')" "out_suffix p big small"
  shows "\<exists>small'. put_all ss small = (True, small') \<and> out_suffix p big' small'"
proof -
  have ok: "buf_ok big" "buf_ok small" using assms(2) by (simp_all add: out_suffix_def)
  note fits = put_all_within [OF assms(1) ok(1)]
  obtain small' where "put_all ss small = (True, small')" "appended small (concat ss) small'"
    using put_all_appends [OF ok(2), of ss] fits assms(2) by (auto simp: out_suffix_def buf_size_def)
  moreover have "appended big (concat ss) big'" using put_all_appends [OF ok(1) fits] assms(1) by auto
  ultimately show ?thesis using assms(2) by (auto simp: out_suffix_def appended_def)
qed

lemma style_line_suffix:
  assumes "style_line r l big = (True, r', big')" "out_suffix p big small"
  shows "\<exists>small'. style_line r l small = (True, r', small') \<and> out_suffix p big' small'"
proof -
  obtain b where b: "put_all (line_pieces (rn_in_fence r) l) big = (True, b)" "big' = b"
    "r' = r\<lparr>rn_in_fence := fence_after (rn_in_fence r) l\<rparr>"
    using assms(1) by (auto simp: style_line_pieces simp del: put_all.simps split: prod.splits)
  then show ?thesis
    using put_all_suffix [OF b(1) assms(2)] by (auto simp: style_line_pieces simp del: put_all.simps)
qed

lemma render_newline_suffix:
  assumes "render_newline r big = (True, r', big')" "out_suffix p big small"
  shows "\<exists>small'. render_newline r small = (True, r', small') \<and> out_suffix p big' small'"
proof -
  obtain r1 big1 where s: "(if rn_line_overflowed r then (True, r, big) else style_line r (buf_data (rn_line r)) big) = (True, r1, big1)"
    using assms(1) by (auto simp: render_newline_def simp del: put_all.simps split: prod.splits bool.splits)
  then obtain small1 where small1: "out_suffix p big1 small1"
      "(if rn_line_overflowed r then (True, r, small) else style_line r (buf_data (rn_line r)) small) = (True, r1, small1)"
    using assms(2) style_line_suffix [of r "buf_data (rn_line r)" big r1 big1 p small] by (auto split: if_splits)
  obtain big2 where big2: "put_all [[NEWLINE]] big1 = (True, big2)"
    "big' = big2" "r' = r1\<lparr>rn_line := buf_reset (rn_line r1), rn_line_overflowed := False, rn_ended_newline := True\<rparr>"
    using assms(1) s by (auto simp: render_newline_def Let_def simp del: put_all.simps split: prod.splits bool.splits)
  then show ?thesis
    using put_all_suffix [OF big2(1) small1(1)] small1(2)
    by (auto simp: render_newline_def Let_def simp del: put_all.simps)
qed

lemma render_char_suffix:
  assumes "render_char r c big = (True, r', big')" "out_suffix p big small"
  shows "\<exists>small'. render_char r c small = (True, r', small') \<and> out_suffix p big' small'"
proof (cases "c = NEWLINE")
  case True
  then show ?thesis using assms render_newline_suffix by (simp add: render_char_def)
next
  case False
  note raw = put_all_suffix [OF _ assms(2)]
  show ?thesis
    using False assms
    by (auto simp: render_char_def simp del: put_all.simps dest!: raw split: if_splits option.splits prod.splits bool.splits)
qed

lemma render_feed_suffix:
  "render_feed r s big = (True, r', big') \<Longrightarrow> out_suffix p big small \<Longrightarrow>
   \<exists>small'. render_feed r s small = (True, r', small') \<and> out_suffix p big' small'"
proof (induction s arbitrary: r big small)
  case (Cons c s)
  obtain r1 big1 where c: "render_char r c big = (True, r1, big1)" "render_feed r1 s big1 = (True, r', big')"
    using Cons.prems(1) by (auto split: prod.splits bool.splits)
  obtain small1 where "render_char r c small = (True, r1, small1)" "out_suffix p big1 small1"
    using render_char_suffix [OF c(1) Cons.prems(2)] by blast
  then show ?case using Cons.IH [OF c(2)] by auto
qed simp

lemma render_flush_suffix:
  assumes "render_flush r big = (True, r', big')" "out_suffix p big small"
  shows "\<exists>small'. render_flush r small = (True, r', small') \<and> out_suffix p big' small'"
proof (cases "\<not> rn_line_overflowed r \<and> buf_size (rn_line r) > 0")
  case False
  then show ?thesis using assms by (auto simp: render_flush_def)
next
  case True
  then obtain r1 where "style_line r (buf_data (rn_line r)) big = (True, r1, big')"
      "r' = r1\<lparr>rn_ended_newline := False, rn_line := buf_reset (rn_line r1), rn_line_overflowed := False, rn_in_fence := False\<rparr>"
    using assms(1) by (auto simp: render_flush_def split: prod.splits bool.splits if_splits)
  then show ?thesis using style_line_suffix [of r "buf_data (rn_line r)" big r1 big' p small] assms(2) True by (auto simp: render_flush_def)
qed

section \<open>How much a line grows\<close>

lemma feed_overflow:
  assumes "at_line_start r" "NEWLINE \<notin> set l" "length l \<le> kRenderLineMax" "buf_ok out"
    "buf_max out < buf_size out + length (concat (line_pieces (rn_in_fence r) l))"
  shows "\<not> fst (render_feed r (l @ [NEWLINE]) out)"
proof -
  obtain line where line: "render_feed r l out = (True, r\<lparr>rn_line := line\<rparr>, out)" "appended (rn_line r) l line"
    using feed_short_line [of r l out] assms(1-3) by (auto simp: at_line_start_def)
  obtain ok out' where put: "put_all (line_pieces (rn_in_fence r) l) out = (ok, out')" by fastforce
  then have "\<not> ok" using put_all_within [of _ out out'] assms(4,5) by fastforce
  then show ?thesis
    using line put assms(1)
    by (simp add: render_feed_append render_char_def render_newline_def style_line_pieces at_line_start_def
        appended_def Let_def del: put_all.simps)
qed

definition ticks_line :: "nat \<Rightarrow> string" where
  "ticks_line n = CHR ''a'' # replicate (2 * n) TICK"

lemma ticks_nth: "0 < i \<Longrightarrow> i \<le> 2 * n \<Longrightarrow> ticks_line n ! i = TICK"
  by (cases i) (simp_all add: ticks_line_def)

lemma ticks_pieces:
  assumes "2 * k + 1 < length (ticks_line n)"
  shows "span_pieces (ticks_line n) (2 * k + 1) = ([SGR_CODE_ON, [], SGR_CODE_OFF], 2 * (k + 1) + 1)"
proof -
  have "2 * k + 2 \<le> 2 * n" using assms by (simp add: ticks_line_def)
  then have "find_char (ticks_line n) (2 * k + 2) TICK = 2 * k + 2"
    using ticks_nth [of "2 * k + 2" n] by (subst find_char.simps) (simp add: ticks_line_def)
  then show ?thesis
    using ticks_nth [of "2 * k + 1" n] assms
    by (simp add: span_pieces_def tick_pieces_def Let_def) (simp add: ticks_line_def)
qed

lemma ticks_inline: "k \<le> n \<Longrightarrow> length (concat (inline_pieces (ticks_line n) (2 * k + 1))) = 10 * (n - k)"
proof (induction "n - k" arbitrary: k)
  case 0
  then have "inline_pieces (ticks_line n) (2 * k + 1) = []"
    by (subst inline_pieces.simps) (simp add: ticks_line_def)
  then show ?case using 0 by simp
next
  case (Suc m)
  then have "2 * k + 1 < length (ticks_line n)" by (simp add: ticks_line_def)
  then show ?case
    using Suc(1) [of "k + 1"] Suc(2) ticks_pieces [of k n]
    by (subst inline_pieces.simps) (simp add: SGR_CODE_ON_def SGR_CODE_OFF_def del: mult_Suc_right)
qed

lemma ticks_line_length: "length (concat (line_pieces False (ticks_line n))) = 10 * n + 1"
proof -
  have "\<not> is_fence (ticks_line n)" by (simp add: is_fence_def ticks_line_def Let_def TICK_def)
  moreover have "block_prefix (ticks_line n) = 0" by (simp add: block_prefix_def ticks_line_def Let_def STAR_def is_c_digit_def)
  moreover have "inline_pieces (ticks_line n) 0 = [CHR ''a''] # inline_pieces (ticks_line n) 1"
    by (subst inline_pieces.simps)
      (simp add: span_pieces_def ticks_line_def TICK_def STAR_def BACKSLASH_def)
  ultimately show ?thesis
    using ticks_inline [of 0 n]
    by (simp add: line_pieces_def normal_pieces_def Let_def) (simp add: ticks_line_def)
qed

section \<open>What a terminal shows\<close>

record sgr =
  sg_bold :: bool
  sg_faint :: bool
  sg_italic :: bool
  sg_colour :: bool

definition plain :: sgr where
  "plain = \<lparr>sg_bold = False, sg_faint = False, sg_italic = False, sg_colour = False\<rparr>"

definition sgr_apply :: "string \<Rightarrow> sgr \<Rightarrow> sgr" where
  "sgr_apply code st =
     (if code = ''1'' then st\<lparr>sg_bold := True\<rparr>
      else if code = ''2'' then st\<lparr>sg_faint := True\<rparr>
      else if code = ''22'' then st\<lparr>sg_bold := False, sg_faint := False\<rparr>
      else if code = ''3'' then st\<lparr>sg_italic := True\<rparr>
      else if code = ''23'' then st\<lparr>sg_italic := False\<rparr>
      else if code = ''36'' then st\<lparr>sg_colour := True\<rparr>
      else if code = ''39'' then st\<lparr>sg_colour := False\<rparr>
      else st)"

text \<open>The cells shown, each with its attributes, and the attributes at the end.\<close>

function terminal :: "sgr \<Rightarrow> string \<Rightarrow> (char \<times> sgr) list \<times> sgr" where
  "terminal st [] = ([], st)"
| "terminal st (c # cs) =
     (let ds = takeWhile is_c_digit (tl cs); rest = drop (length ds) (tl cs) in
      if c = ESC \<and> cs \<noteq> [] \<and> hd cs = CHR ''['' \<and> rest \<noteq> [] \<and> hd rest = CHR ''m''
      then terminal (sgr_apply ds st) (tl rest)
      else (case terminal st cs of (cells, st') \<Rightarrow> ((c, st) # cells, st')))"
  by pat_completeness auto
termination terminal by (relation "measure (\<lambda>(st, s). length s)") auto

declare terminal.simps(2) [simp del]

definition then_shows :: "(char \<times> sgr) list \<Rightarrow> (char \<times> sgr) list \<times> sgr \<Rightarrow> (char \<times> sgr) list \<times> sgr" where
  "then_shows cells r = (cells @ fst r, snd r)"

lemma then_shows_simps [simp]:
  "then_shows [] r = r" "then_shows xs (then_shows ys r) = then_shows (xs @ ys) r"
  "fst (then_shows xs r) = xs @ fst r" "snd (then_shows xs r) = snd r"
  by (simp_all add: then_shows_def)

lemma terminal_text:
  "ESC \<notin> set t \<Longrightarrow> terminal st (t @ x) = then_shows (map (\<lambda>c. (c, st)) t) (terminal st x)"
  by (induction t) (auto simp: terminal.simps(2) then_shows_def Let_def split: prod.split)

lemma terminal_sgr [simp]:
  "terminal st (SGR_BOLD_ON @ x) = terminal (st\<lparr>sg_bold := True\<rparr>) x"
  "terminal st (SGR_BOLD_OFF @ x) = terminal (st\<lparr>sg_bold := False, sg_faint := False\<rparr>) x"
  "terminal st (SGR_ITALIC_ON @ x) = terminal (st\<lparr>sg_italic := True\<rparr>) x"
  "terminal st (SGR_ITALIC_OFF @ x) = terminal (st\<lparr>sg_italic := False\<rparr>) x"
  "terminal st (SGR_CODE_ON @ x) = terminal (st\<lparr>sg_colour := True\<rparr>) x"
  "terminal st (SGR_CODE_OFF @ x) = terminal (st\<lparr>sg_colour := False\<rparr>) x"
  "terminal st (SGR_DIM_ON @ x) = terminal (st\<lparr>sg_faint := True\<rparr>) x"
  "terminal st (SGR_DIM_OFF @ x) = terminal (st\<lparr>sg_bold := False, sg_faint := False\<rparr>) x"
  by (simp_all add: SGR_BOLD_ON_def SGR_BOLD_OFF_def SGR_ITALIC_ON_def SGR_ITALIC_OFF_def SGR_CODE_ON_def
      SGR_CODE_OFF_def SGR_DIM_ON_def SGR_DIM_OFF_def terminal.simps(2) is_c_digit_def sgr_apply_def)

text \<open>The pieces show a subsequence of \<open>t\<close> and leave the attributes plain.\<close>

definition shows_within :: "string list \<Rightarrow> string \<Rightarrow> bool" where
  "shows_within ps t \<longleftrightarrow>
     (\<exists>cells. (\<forall>x. terminal plain (concat ps @ x) = then_shows cells (terminal plain x)) \<and> subseq (map fst cells) t)"

lemma shows_within_text: "ESC \<notin> set t \<Longrightarrow> shows_within [t] t"
  unfolding shows_within_def
  by (intro exI [of _ "map (\<lambda>c. (c, plain)) t"]) (simp add: terminal_text comp_def)

lemma shows_within_Nil: "shows_within [] t"
  unfolding shows_within_def by (intro exI [of _ "[]"]) simp

lemma shows_within_append: "shows_within ps t \<Longrightarrow> shows_within qs u \<Longrightarrow> shows_within (ps @ qs) (t @ u)"
proof -
  assume "shows_within ps t" "shows_within qs u"
  then obtain c d where "\<forall>x. terminal plain (concat ps @ x) = then_shows c (terminal plain x)" "subseq (map fst c) t"
    "\<forall>x. terminal plain (concat qs @ x) = then_shows d (terminal plain x)" "subseq (map fst d) u"
    unfolding shows_within_def by blast
  then show ?thesis
    unfolding shows_within_def by (intro exI [of _ "c @ d"]) (simp add: list_emb_append_mono)
qed

lemma shows_within_mono: "shows_within ps t \<Longrightarrow> subseq t u \<Longrightarrow> shows_within ps u"
  unfolding shows_within_def by (meson subseq_order.trans)

lemma shows_within_span:
  assumes "ESC \<notin> set t"
  shows "shows_within [SGR_BOLD_ON, t, SGR_BOLD_OFF] t" "shows_within [SGR_ITALIC_ON, t, SGR_ITALIC_OFF] t"
    "shows_within [SGR_CODE_ON, t, SGR_CODE_OFF] t" "shows_within [SGR_DIM_ON, t, SGR_DIM_OFF] t"
proof -
  have p: "plain\<lparr>sg_bold := False, sg_faint := False\<rparr> = plain" "plain\<lparr>sg_italic := False\<rparr> = plain"
    "plain\<lparr>sg_colour := False\<rparr> = plain" "plain\<lparr>sg_faint := False, sg_bold := False\<rparr> = plain"
    by (simp_all add: plain_def)
  show "shows_within [SGR_BOLD_ON, t, SGR_BOLD_OFF] t"
    unfolding shows_within_def
    by (intro exI [of _ "map (\<lambda>c. (c, plain\<lparr>sg_bold := True\<rparr>)) t"]) (simp add: terminal_text assms comp_def p)
  show "shows_within [SGR_ITALIC_ON, t, SGR_ITALIC_OFF] t"
    unfolding shows_within_def
    by (intro exI [of _ "map (\<lambda>c. (c, plain\<lparr>sg_italic := True\<rparr>)) t"]) (simp add: terminal_text assms comp_def p)
  show "shows_within [SGR_CODE_ON, t, SGR_CODE_OFF] t"
    unfolding shows_within_def
    by (intro exI [of _ "map (\<lambda>c. (c, plain\<lparr>sg_colour := True\<rparr>)) t"]) (simp add: terminal_text assms comp_def p)
  show "shows_within [SGR_DIM_ON, t, SGR_DIM_OFF] t"
    unfolding shows_within_def
    by (intro exI [of _ "map (\<lambda>c. (c, plain\<lparr>sg_faint := True\<rparr>)) t"]) (simp add: terminal_text assms comp_def p)
qed

section \<open>Spans are closed\<close>

text \<open>\<open>cut p i j\<close> is the part of the line from \<open>i\<close> to \<open>j\<close>.\<close>

definition cut :: "string \<Rightarrow> nat \<Rightarrow> nat \<Rightarrow> string" where
  "cut p i j = take (j - i) (drop i p)"

lemma cut_split: "i \<le> a \<Longrightarrow> a \<le> j \<Longrightarrow> cut p i j = cut p i a @ cut p a j"
  using take_add [of "a - i" "j - a" "drop i p"] by (simp add: cut_def)

lemma subseq_cut: "i \<le> a \<Longrightarrow> a \<le> b \<Longrightarrow> b \<le> j \<Longrightarrow> subseq (cut p a b) (cut p i j)"
  using cut_split [of i a j p] cut_split [of a b j p] by (simp add: list_emb_append2 list_emb_prefix)

lemma ESC_cut: "ESC \<notin> set p \<Longrightarrow> ESC \<notin> set (cut p i j)"
  by (auto simp: cut_def dest: in_set_takeD in_set_dropD)

lemma cut_one: "i < length p \<Longrightarrow> cut p i (i + 1) = [p ! i]"
  by (simp add: cut_def take_Suc_conv_app_nth)

lemma emph_pieces_shows:
  assumes "ESC \<notin> set p" "i < length p"
  shows "shows_within (fst (emph_pieces p i)) (cut p i (snd (emph_pieces p i)))"
proof -
  define run :: nat where "run = (if i + 1 < length p \<and> p ! (i + 1) = STAR then 2 else 1)"
  define close where "close = emph_close p run (i + run)"
  have e: "emph_pieces p i =
      (if close = length p then ([cut p i (i + run)], i + run)
       else ([if run = 2 then SGR_BOLD_ON else SGR_ITALIC_ON, cut p (i + run) close,
              if run = 2 then SGR_BOLD_OFF else SGR_ITALIC_OFF], close + run))"
    unfolding emph_pieces_def Let_def run_def [symmetric] close_def [symmetric] cut_def by simp
  show ?thesis
  proof (cases "close = length p")
    case True
    then show ?thesis using shows_within_text [OF ESC_cut [OF assms(1)]] by (simp add: e)
  next
    case False
    then have "i + run \<le> close" using emph_close_bounds [of p run "i + run"] by (simp add: close_def)
    then have "subseq (cut p (i + run) close) (cut p i (close + run))" by (intro subseq_cut) simp_all
    moreover have "shows_within (fst (emph_pieces p i)) (cut p (i + run) close)"
      using False shows_within_span(1,2) [OF ESC_cut [OF assms(1)]] by (simp add: e)
    ultimately show ?thesis using False shows_within_mono by (simp add: e)
  qed
qed

lemma span_pieces_shows:
  assumes "ESC \<notin> set p" "i < length p"
  shows "shows_within (fst (span_pieces p i)) (cut p i (snd (span_pieces p i)))"
proof -
  have one: "shows_within [[p ! k]] (cut p k (k + 1))" if "k < length p" for k
    using shows_within_text [of "[p ! k]"] that nth_mem [OF that] assms(1) by (metis cut_one empty_iff empty_set set_ConsD)
  have escape: "shows_within [[p ! (i + 1)]] (cut p i (i + 2))" if "i + 1 < length p"
    using one [OF that] subseq_cut [of i "i + 1" "i + 2" "i + 2" p] shows_within_mono by (simp add: add.assoc)
  let ?j = "find_char p (i + 1) TICK"
  have tick: "shows_within [SGR_CODE_ON, cut p (i + 1) ?j, SGR_CODE_OFF] (cut p i (?j + 1))"
    using find_char_bounds [of "i + 1" p TICK] assms(2)
    by (intro shows_within_mono [OF shows_within_span(3) [OF ESC_cut [OF assms(1)]] subseq_cut]) simp_all
  show ?thesis
    using one [OF assms(2)] escape tick emph_pieces_shows [OF assms]
    by (auto simp: span_pieces_def tick_pieces_def Let_def cut_def)
qed

lemma inline_pieces_shows: "ESC \<notin> set p \<Longrightarrow> shows_within (inline_pieces p i) (drop i p)"
proof (induction p i rule: inline_pieces.induct)
  case (1 p i)
  show ?case
  proof (cases "i < length p")
    case True
    let ?j = "snd (span_pieces p i)"
    have "drop i p = cut p i ?j @ drop ?j p"
      using span_pieces_progress [OF True] append_take_drop_id [of "?j - i" "drop i p"] by (simp add: cut_def)
    moreover have "shows_within (inline_pieces p ?j) (drop ?j p)" using 1 True by simp
    ultimately show ?thesis
      using shows_within_append [OF span_pieces_shows [OF "1.prems" True]] True
      by (simp add: inline_pieces.simps [of p i])
  next
    case False
    then show ?thesis by (simp add: inline_pieces.simps [of p i] shows_within_Nil)
  qed
qed

lemma line_pieces_shows:
  assumes "ESC \<notin> set p"
  shows "shows_within (line_pieces fence p) p"
proof -
  have drop: "ESC \<notin> set (drop n p)" and take: "ESC \<notin> set (take n p)" for n
    using assms by (auto dest: in_set_dropD in_set_takeD)
  have "shows_within (take n p # inline_pieces (drop n p) 0) p" for n
    using shows_within_append [OF shows_within_text [OF take [of n]] inline_pieces_shows [OF drop [of n], of 0]] by simp
  moreover have "shows_within [SGR_BOLD_ON, drop n p, SGR_BOLD_OFF] p" for n
    by (rule shows_within_mono [OF shows_within_span(1) [OF drop]]) (metis append_take_drop_id list_emb_append2 subseq_order.refl)
  ultimately have "shows_within (normal_pieces p) p"
    by (simp add: normal_pieces_def Let_def)
  then show ?thesis
    using shows_within_span(3,4) [OF assms] by (simp add: line_pieces_def)
qed

lemma line_text_shows: "ESC \<notin> set l \<Longrightarrow> shows_within [line_text fence l] l"
  using line_pieces_shows [of l fence] shows_within_text [of l] by (simp add: line_text_def shows_within_def)

text \<open>A text with newlines: every cell of a newline is plain, and all newlines are there.\<close>

lemma render_text_shows:
  assumes "ESC \<notin> set s"
  shows "\<exists>cells. (\<forall>x. terminal plain (render_text fence s @ x) = then_shows cells (terminal plain x))
    \<and> subseq (map fst cells) s \<and> (\<forall>(c, a) \<in> set cells. c = NEWLINE \<longrightarrow> a = plain)
    \<and> count_list (map fst cells) NEWLINE = count_list s NEWLINE"
  using assms
proof (induction fence s rule: render_text.induct)
  case (1 fence s)
  define l where "l = takeWhile (\<lambda>c. c \<noteq> NEWLINE) s"
  have nl: "NEWLINE \<notin> set l" by (auto simp: l_def dest: set_takeWhileD)
  have "ESC \<notin> set l" using "1.prems" by (auto simp: l_def dest: set_takeWhileD)
  then obtain d where d: "\<forall>x. terminal plain (line_text fence l @ x) = then_shows d (terminal plain x)" "subseq (map fst d) l"
    using line_text_shows [of l fence] unfolding shows_within_def concat.simps append_Nil2 by blast
  have nd: "NEWLINE \<notin> set (map fst d)" using nl by (auto elim!: list_emb_set [OF d(2)] simp del: set_map)
  show ?case
  proof (cases "l = s")
    case True
    show ?thesis
    proof (cases "s = []")
      case True
      then show ?thesis by (intro exI [of _ "[]"]) (simp add: render_text.simps [of fence "[]"])
    next
      case False
      then have "render_text fence s = line_text fence s"
        using True by (simp add: render_text.simps [of fence s] l_def [symmetric] Let_def)
      moreover have "count_list (map fst d) NEWLINE = count_list s NEWLINE" using nd nl True by (simp add: count_notin)
      ultimately show ?thesis using d nd True by (intro exI [of _ d]) (auto simp: image_iff)
    qed
  next
    case False
    define t where "t = drop (length l + 1) s"
    have s: "s = l @ NEWLINE # t" using split_newline [of s] False by (simp add: l_def t_def)
    obtain e where e: "\<forall>x. terminal plain (render_text (line_fence fence l) t @ x) = then_shows e (terminal plain x)"
        "subseq (map fst e) t" "\<forall>(c, a) \<in> set e. c = NEWLINE \<longrightarrow> a = plain"
        "count_list (map fst e) NEWLINE = count_list t NEWLINE"
      using "1.IH" [OF refl, folded l_def t_def, OF False] "1.prems" s by auto
    have rendered: "render_text fence s = line_text fence l @ [NEWLINE] @ render_text (line_fence fence l) t"
      using False by (simp add: render_text.simps [of fence s] l_def [symmetric] t_def Let_def)
    have "terminal plain (NEWLINE # x) = then_shows [(NEWLINE, plain)] (terminal plain x)" for x
      using terminal_text [of "[NEWLINE]" plain x] by (simp add: NEWLINE_def ESC_def)
    then have "\<forall>x. terminal plain (render_text fence s @ x) = then_shows (d @ (NEWLINE, plain) # e) (terminal plain x)"
      using d(1) e(1) by (simp add: rendered)
    moreover have "subseq (map fst (d @ (NEWLINE, plain) # e)) s"
      using d(2) e(2) by (simp add: s list_emb_append_mono)
    moreover have "count_list (map fst (d @ (NEWLINE, plain) # e)) NEWLINE = count_list s NEWLINE"
      using nd nl e(4) by (simp add: s count_list_0_iff count_notin)
    ultimately show ?thesis
      using nd e(3) by (intro exI [of _ "d @ (NEWLINE, plain) # e"]) (auto simp: image_iff split: prod.splits)
  qed
qed

section \<open>Properties\<close>

lemma at_line_start_init: "at_line_start render_init"
  using buf_init_ok [of kRenderLineMax]
  by (simp add: at_line_start_def render_init_def kRenderLineMax_def) (simp add: buf_init_def)

lemma render_chunks_text:
  assumes "buf_ok out" "buf_size out + length (render_text False (concat chunks)) \<le> buf_max out"
  shows "\<exists>r' out'. render_chunks render_init chunks out = (True, r', out') \<and> \<not> rn_in_fence r'
    \<and> rn_ended_newline r' = (concat chunks = [] \<or> last (concat chunks) = NEWLINE)
    \<and> buf_data out' = buf_data out @ render_text False (concat chunks)"
proof -
  have init: "\<not> rn_in_fence render_init" "rn_ended_newline render_init" by (simp_all add: render_init_def)
  show ?thesis
    using render_all_text [OF at_line_start_init assms(1), of "concat chunks"] assms(2) init
    by (auto simp: render_chunks_concat appended_def simp del: concat_eq_Nil_conv split: if_splits)
qed

text \<open>C21. The streaming renderer refines a function of the whole text: however the provider cuts it
  into chunks, feeding them and flushing appends each line styled as a whole (a line beyond the buffer
  raw), the fence state carried from line to line; \<open>ended_newline\<close> then says whether the text was empty
  or ended in a newline, and the next turn starts outside a fence.\<close>

theorem render_refines_text:
  assumes "buf_ok out" "buf_size out + length (render_text False (concat chunks)) \<le> buf_max out"
  shows "\<exists>r' out'. render_chunks render_init chunks out = (True, r', out') \<and> \<not> rn_in_fence r'
    \<and> rn_ended_newline r' = (concat chunks = [] \<or> last (concat chunks) = NEWLINE)
    \<and> buf_data out' = buf_data out @ render_text False (concat chunks)"
  by (rule render_chunks_text [OF assms])

text \<open>No styling leaks: for a text without escape characters, a terminal that interprets the SGR
  sequences of the output shows a subsequence of the text (only marker characters are dropped, nothing
  is reordered or invented) with all of its newlines; every newline is shown with plain attributes, so
  each span is closed on its line, and the attributes are plain at the end.\<close>

theorem render_spans_closed:
  assumes "ESC \<notin> set (concat chunks)" "buf_ok out" "buf_data out = []"
    "length (render_text False (concat chunks)) \<le> buf_max out"
  shows "\<exists>r' out' cells. render_chunks render_init chunks out = (True, r', out')
    \<and> terminal plain (buf_data out') = (cells, plain)
    \<and> subseq (map fst cells) (concat chunks)
    \<and> count_list (map fst cells) NEWLINE = count_list (concat chunks) NEWLINE
    \<and> (\<forall>(c, a) \<in> set cells. c = NEWLINE \<longrightarrow> a = plain)"
proof -
  obtain cells where cells: "\<forall>x. terminal plain (render_text False (concat chunks) @ x) = then_shows cells (terminal plain x)"
      "subseq (map fst cells) (concat chunks)" "\<forall>(c, a) \<in> set cells. c = NEWLINE \<longrightarrow> a = plain"
      "count_list (map fst cells) NEWLINE = count_list (concat chunks) NEWLINE"
    using render_text_shows [OF assms(1)] by blast
  have "terminal plain (render_text False (concat chunks)) = (cells, plain)"
    using cells(1) [rule_format, of "[]"] by (simp add: then_shows_def)
  moreover obtain r' out' where "render_chunks render_init chunks out = (True, r', out')"
      "buf_data out' = render_text False (concat chunks)"
    using render_chunks_text [OF assms(2), of chunks] assms(3,4) by (auto simp: buf_size_def)
  ultimately show ?thesis using cells(2-4) by auto
qed

text \<open>A heading in two chunks.\<close>

lemma sample_heading: "render_text False ''# hi'' = SGR_BOLD_ON @ ''hi'' @ SGR_BOLD_OFF"
  by (simp add: render_text.simps [of False "''# hi''"] NEWLINE_def Let_def line_text_def kRenderLineMax_def
      line_pieces_def is_fence_def normal_pieces_def TICK_def)

lemma sample_out: "buf_ok (buf_init 100)" "buf_size (buf_init 100) = 0" "buf_max (buf_init 100) = 100"
    "buf_data (buf_init 100) = []"
  by (simp_all add: buf_ok_def buf_init_def buf_size_def)

lemma sample_heading_length: "length (render_text False ''# hi'') = 11"
  by (simp add: sample_heading SGR_BOLD_ON_def SGR_BOLD_OFF_def)

theorem render_refines_text_witness:
  "\<exists>r' out'. render_chunks render_init [''# h'', ''i''] (buf_init 100) = (True, r', out')
    \<and> buf_data out' = SGR_BOLD_ON @ ''hi'' @ SGR_BOLD_OFF \<and> \<not> rn_ended_newline r'"
proof -
  have "buf_size (buf_init 100) + length (render_text False (concat [''# h'', ''i''])) \<le> buf_max (buf_init 100)"
    by (simp add: sample_out sample_heading_length)
  from render_refines_text [OF sample_out(1) this] show ?thesis
    by (auto simp: sample_heading sample_out NEWLINE_def)
qed

theorem render_spans_closed_witness:
  "\<exists>r' out' cells. render_chunks render_init [''# h'', ''i''] (buf_init 100) = (True, r', out')
    \<and> terminal plain (buf_data out') = (cells, plain) \<and> subseq (map fst cells) ''# hi''"
proof -
  have "ESC \<notin> set (concat [''# h'', ''i''])" "length (render_text False (concat [''# h'', ''i''])) \<le> buf_max (buf_init 100)"
    by (simp_all add: ESC_def sample_out sample_heading_length)
  from render_spans_closed [OF this(1) sample_out(1,4) this(2)] show ?thesis by auto
qed

end
