(* ===== verification/Lua.thy ===== *)
theory Lua
  imports Api
begin

text \<open>
  Marshalling between Lua values and Objects (\<open>lua/bridge.c\<close>). The Lua library is a parameter: its
  values, tables and the height of its stack are data here. A table is named by a number and holds its
  entries in the order \<open>lua_next\<close> visits them, so a table may contain itself. Numbers are doubles.
\<close>

datatype lua_value =
    LuaNil | LuaBool bool | LuaNumber dbl | LuaString string | LuaTable nat | LuaFunction nat
  | LuaOther string

type_synonym lua_entries = "(lua_value \<times> lua_value) list"

text \<open>
  \<open>lw_top\<close> is the number of values on the stack, \<open>lw_free\<close> a bound of the table names in use,
  \<open>lw_refs\<close> the registry references of callbacks.
\<close>

record lua_world =
  lw_tables :: "nat \<Rightarrow> lua_entries"
  lw_free :: nat
  lw_top :: nat
  lw_refs :: "lua_ref \<rightharpoonup> nat"
  lw_mua :: mua_state

datatype pcall_result = PcallError lua_value | PcallValue lua_value

text \<open>
  What the code relies on of the library: the text of a number, the limit of \<open>lua_checkstack\<close>, where a
  new key goes in a table, the reference \<open>luaL_ref\<close> picks, and what a callback does.
\<close>

record lua_lib =
  ll_number :: "dbl \<Rightarrow> string"
  ll_max_stack :: nat
  ll_place :: "lua_entries \<Rightarrow> lua_value \<times> lua_value \<Rightarrow> lua_entries"
  ll_ref :: "(lua_ref \<rightharpoonup> nat) \<Rightarrow> lua_ref"
  ll_call :: "nat \<Rightarrow> lua_value \<Rightarrow> lua_world \<Rightarrow> pcall_result \<times> lua_world"

definition lua_checkstack :: "lua_lib \<Rightarrow> nat \<Rightarrow> nat \<Rightarrow> bool" where
  "lua_checkstack lib height n \<longleftrightarrow> height + n \<le> ll_max_stack lib"

definition rawget :: "(nat \<Rightarrow> lua_entries) \<Rightarrow> nat \<Rightarrow> lua_value \<Rightarrow> lua_value" where
  "rawget tables t k = (case map_of (tables t) k of Some v \<Rightarrow> v | None \<Rightarrow> LuaNil)"

definition lua_tolstring :: "lua_lib \<Rightarrow> lua_value \<Rightarrow> string option" where
  "lua_tolstring lib v =
     (case v of LuaString s \<Rightarrow> Some s | LuaNumber d \<Rightarrow> Some (ll_number lib d) | _ \<Rightarrow> None)"

fun lua_typename :: "lua_value \<Rightarrow> string" where
  "lua_typename LuaNil = ''nil''"
| "lua_typename (LuaBool b) = ''boolean''"
| "lua_typename (LuaNumber d) = ''number''"
| "lua_typename (LuaString s) = ''string''"
| "lua_typename (LuaTable t) = ''table''"
| "lua_typename (LuaFunction f) = ''function''"
| "lua_typename (LuaOther ty) = ty"

section \<open>From Lua to Objects\<close>

text \<open>The copies go to an arena, whose blocks are never \<open>NULL\<close>.\<close>

definition scalarize :: "lua_value \<Rightarrow> object" where
  "scalarize v =
     (case v of
        LuaBool b \<Rightarrow> OBoolean b
      | LuaNumber d \<Rightarrow> obj_of_number d
      | LuaString s \<Rightarrow> OString (Some s)
      | _ \<Rightarrow> ONil)"

datatype table_kind = kTableArray | kTableDict | kTableInvalid

text \<open>The loop over the keys: the count, the two flags and the greatest integer key; \<open>None\<close> is the
  early return at a key that is neither a string nor a number.\<close>

definition classify_key :: "lua_value \<Rightarrow> nat \<times> bool \<times> bool \<times> nat \<Rightarrow> (nat \<times> bool \<times> bool \<times> nat) option" where
  "classify_key k acc =
     (case acc of (cnt, all_string, all_posint, max_int) \<Rightarrow>
        case k of
          LuaString _ \<Rightarrow> Some (cnt + 1, all_string, False, max_int)
        | LuaNumber d \<Rightarrow>
            let ki = dbl_to_int64 d in
            if d = dbl_of_int ki \<and> ki \<ge> 1
            then Some (cnt + 1, False, all_posint, if nat ki > max_int then nat ki else max_int)
            else Some (cnt + 1, False, False, max_int)
        | _ \<Rightarrow> None)"

fun classify_keys :: "lua_value list \<Rightarrow> nat \<times> bool \<times> bool \<times> nat \<Rightarrow> (nat \<times> bool \<times> bool \<times> nat) option" where
  "classify_keys [] acc = Some acc"
| "classify_keys (k # ks) acc = (case classify_key k acc of None \<Rightarrow> None | Some acc \<Rightarrow> classify_keys ks acc)"

definition classify_table :: "lua_entries \<Rightarrow> table_kind \<times> nat" where
  "classify_table es =
     (case classify_keys (map fst es) (0, True, True, 0) of
        None \<Rightarrow> (kTableInvalid, 0)
      | Some (cnt, all_string, all_posint, max_int) \<Rightarrow>
          (if cnt = 0 then kTableArray
           else if all_string then kTableDict
           else if all_posint \<and> max_int = cnt then kTableArray
           else kTableInvalid, cnt))"

definition lua_key_string :: "lua_value \<Rightarrow> mstring" where
  "lua_key_string k = (case k of LuaString s \<Rightarrow> Some s | _ \<Rightarrow> None)"

definition table_init :: "lua_entries \<Rightarrow> error + object" where
  "table_init es =
     (case classify_table es of
        (kTableInvalid, _) \<Rightarrow> Inl (kErrorTypeValidation, ''cannot store a table with mixed, holed, or non-string keys'')
      | (kTableArray, cnt) \<Rightarrow> Inr (OArray (replicate cnt ONil))
      | (kTableDict, _) \<Rightarrow> Inr (ODict (map (\<lambda>e. (lua_key_string (fst e), ONil)) es)))"

text \<open>\<open>pf_table\<close> is the table at the frame's stack index.\<close>

record pop_frame =
  pf_container :: object
  pf_next :: nat
  pf_table :: nat

definition pop_key :: "pop_frame \<Rightarrow> lua_value" where
  "pop_key f =
     (case pf_container f of
        OArray xs \<Rightarrow> LuaNumber (dbl_of_int (int (pf_next f + 1)))
      | c \<Rightarrow> LuaString (str_bytes (obj_key c (pf_next f))))"

definition cannot_store :: "lua_value \<Rightarrow> error" where
  "cannot_store v = (kErrorTypeValidation, ''cannot store a '' @ lua_typename v)"

definition stack_reading :: error where
  "stack_reading = (kErrorTypeException, ''lua stack exhausted reading a value'')"

definition nesting_cyclic :: error where
  "nesting_cyclic =
     (kErrorTypeValidation, ''table nesting exceeds '' @ show_nat kMarshalDepthCap @ '' (cyclic table?)'')"

text \<open>
  The loop, on a stack with \<open>base\<close> values below the root's children: below the top frame the table of
  every frame but the root's is on it. The result is the verdict and the height of the stack. Frames are
  popped into their parents, whose slot is the element before \<open>pf_next\<close>.
\<close>

partial_function (option) pop_loop ::
    "lua_lib \<Rightarrow> (nat \<Rightarrow> lua_entries) \<Rightarrow> nat \<Rightarrow> pop_frame list \<Rightarrow> ((error + object) \<times> nat) option" where
  "pop_loop lib tables base stack =
     (case stack of
        [] \<Rightarrow> None
      | f # fs \<Rightarrow>
          let height = base + length fs; i = pf_next f; f' = f\<lparr>pf_next := i + 1\<rparr> in
          if length (obj_children (pf_container f)) \<le> i
          then (case fs of
                  [] \<Rightarrow> Some (Inr (pf_container f), height)
                | g # gs \<Rightarrow>
                    pop_loop lib tables base
                      (g\<lparr>pf_container := obj_set (pf_container g) (pf_next g - 1) (pf_container f)\<rparr> # gs))
          else if \<not> lua_checkstack lib height 4 then Some (Inl stack_reading, height)
          else (case rawget tables (pf_table f) (pop_key f) of
                  LuaTable c \<Rightarrow>
                    if kMarshalDepthCap \<le> length stack then Some (Inl nesting_cyclic, height + 1)
                    else (case table_init (tables c) of
                            Inl e \<Rightarrow> Some (Inl e, height + 1)
                          | Inr slot \<Rightarrow>
                              pop_loop lib tables base
                                (\<lparr>pf_container = slot, pf_next = 0, pf_table = c\<rparr> # f' # fs))
                | LuaFunction g \<Rightarrow> Some (Inl (cannot_store (LuaFunction g)), height)
                | LuaOther ty \<Rightarrow> Some (Inl (cannot_store (LuaOther ty)), height)
                | v \<Rightarrow> pop_loop lib tables base (f'\<lparr>pf_container := obj_set (pf_container f) i (scalarize v)\<rparr> # fs)))"

definition lua_pop_object ::
    "lua_lib \<Rightarrow> (nat \<Rightarrow> lua_entries) \<Rightarrow> nat \<Rightarrow> lua_value \<Rightarrow> ((error + object) \<times> nat) option" where
  "lua_pop_object lib tables height v =
     (if \<not> lua_checkstack lib height 4 then Some (Inl stack_reading, height)
      else (case v of
              LuaTable t \<Rightarrow>
                (case table_init (tables t) of
                   Inl e \<Rightarrow> Some (Inl e, height)
                 | Inr obj \<Rightarrow> pop_loop lib tables height [\<lparr>pf_container = obj, pf_next = 0, pf_table = t\<rparr>])
            | LuaFunction g \<Rightarrow> Some (Inl (cannot_store v), height)
            | LuaOther ty \<Rightarrow> Some (Inl (cannot_store v), height)
            | _ \<Rightarrow> Some (Inr (scalarize v), height)))"

section \<open>From Objects to Lua\<close>

definition push_scalar :: "object \<Rightarrow> lua_value" where
  "push_scalar obj =
     (case obj of
        OBoolean b \<Rightarrow> LuaBool b
      | OInteger i \<Rightarrow> LuaNumber (dbl_of_int (sint i))
      | OFloat d \<Rightarrow> LuaNumber d
      | OString s \<Rightarrow> LuaString (str_bytes s)
      | _ \<Rightarrow> LuaNil)"

text \<open>\<open>lua_rawset\<close>: a nil value removes the key.\<close>

definition set_entry :: "lua_lib \<Rightarrow> lua_entries \<Rightarrow> lua_value \<Rightarrow> lua_value \<Rightarrow> lua_entries" where
  "set_entry lib es k v =
     (if v = LuaNil then filter (\<lambda>e. fst e \<noteq> k) es
      else if k \<in> fst ` set es then map (\<lambda>e. if fst e = k then (k, v) else e) es
      else ll_place lib es (k, v))"

definition rawset :: "lua_lib \<Rightarrow> nat \<Rightarrow> lua_value \<Rightarrow> lua_value \<Rightarrow> lua_world \<Rightarrow> lua_world" where
  "rawset lib t k v w = w\<lparr>lw_tables := (lw_tables w)(t := set_entry lib (lw_tables w t) k v)\<rparr>"

definition lua_newtable :: "lua_world \<Rightarrow> nat \<times> lua_world" where
  "lua_newtable w =
     (lw_free w, w\<lparr>lw_tables := (lw_tables w)(lw_free w := []), lw_free := lw_free w + 1\<rparr>)"

record push_frame =
  uf_container :: object
  uf_table :: nat
  uf_next :: nat

definition push_key :: "push_frame \<Rightarrow> lua_value" where
  "push_key f =
     (case uf_container f of
        OArray xs \<Rightarrow> LuaNumber (dbl_of_int (int (uf_next f + 1)))
      | c \<Rightarrow> LuaString (str_bytes (obj_key c (uf_next f))))"

definition stack_writing :: error where
  "stack_writing = (kErrorTypeException, ''lua stack exhausted writing a value'')"

text \<open>As above, one table of each frame is on the stack above \<open>base\<close>; the result is the verdict and
  the world with the height of the stack.\<close>

partial_function (option) push_loop ::
    "lua_lib \<Rightarrow> nat \<Rightarrow> push_frame list \<Rightarrow> lua_world \<Rightarrow> (error option \<times> lua_world) option" where
  "push_loop lib base stack w =
     (case stack of
        [] \<Rightarrow> Some (None, w\<lparr>lw_top := base + 1\<rparr>)
      | f # fs \<Rightarrow>
          let height = base + length stack; i = uf_next f; f' = f\<lparr>uf_next := i + 1\<rparr>;
              kids = obj_children (uf_container f) in
          if length kids \<le> i then push_loop lib base fs w
          else if \<not> lua_checkstack lib height 6 then Some (Some stack_writing, w\<lparr>lw_top := height\<rparr>)
          else if is_container (kids ! i)
          then if kMarshalDepthCap \<le> length stack
               then Some (Some (kErrorTypeException, ''object nesting exceeds '' @ show_nat kMarshalDepthCap),
                          w\<lparr>lw_top := height\<rparr>)
               else (case lua_newtable w of
                       (t, w) \<Rightarrow>
                         push_loop lib base (\<lparr>uf_container = kids ! i, uf_table = t, uf_next = 0\<rparr> # f' # fs)
                           (rawset lib (uf_table f) (push_key f) (LuaTable t) w))
          else push_loop lib base (f' # fs) (rawset lib (uf_table f) (push_key f) (push_scalar (kids ! i)) w))"

text \<open>The value pushed, and the world.\<close>

definition object_to_lua :: "lua_lib \<Rightarrow> object \<Rightarrow> lua_world \<Rightarrow> ((error + lua_value) \<times> lua_world) option" where
  "object_to_lua lib obj w =
     (if \<not> lua_checkstack lib (lw_top w) 4 then Some (Inl stack_writing, w)
      else if \<not> is_container obj then Some (Inr (push_scalar obj), w\<lparr>lw_top := lw_top w + 1\<rparr>)
      else (case lua_newtable w of
              (t, w') \<Rightarrow>
                (case push_loop lib (lw_top w) [\<lparr>uf_container = obj, uf_table = t, uf_next = 0\<rparr>] w' of
                   None \<Rightarrow> None
                 | Some (Some e, w'') \<Rightarrow> Some (Inl e, w'')
                 | Some (None, w'') \<Rightarrow> Some (Inr (LuaTable t), w''))))"

end
