(* ===== verification/Bridge.thy ===== *)
theory Bridge
  imports Lua
begin

text \<open>
  The functions the bridge gives Lua and the calls it makes into Lua (\<open>lua/bridge.c\<close>): API dispatch,
  registration of callbacks, tool callbacks and the autocmd hooks. A callback is arbitrary Lua code: it
  may change any table and call the API. The library keeps the height of the stack across a protected
  call; the heights here are those of the code's own pushes and pops. Metatables on a payload table are
  not modelled. An outer \<open>None\<close> is a failed assertion.
\<close>

definition kMaxApiArgs :: nat where "kMaxApiArgs = 8"

text \<open>What a C function called from Lua does; \<open>LuaArgError\<close> is a \<open>luaL_check\<close> failure.\<close>

datatype lua_result = LuaRaise string | LuaArgError nat | LuaReturn "lua_value list"

definition set_top :: "nat \<Rightarrow> lua_world \<Rightarrow> lua_world" where
  "set_top h w = w\<lparr>lw_top := h\<rparr>"

definition set_mua :: "mua_state \<Rightarrow> lua_world \<Rightarrow> lua_world" where
  "set_mua m w = w\<lparr>lw_mua := m\<rparr>"

definition lua_setfield :: "lua_lib \<Rightarrow> nat \<Rightarrow> string \<Rightarrow> lua_value \<Rightarrow> lua_world \<Rightarrow> lua_world" where
  "lua_setfield lib t k v w = rawset lib t (LuaString k) v w"

section \<open>API dispatch\<close>

fun pop_args :: "lua_lib \<Rightarrow> (nat \<Rightarrow> lua_entries) \<Rightarrow> nat \<Rightarrow> lua_value list \<Rightarrow> (error + object list) option" where
  "pop_args lib tables h [] = Some (Inr [])"
| "pop_args lib tables h (v # vs) =
     (case lua_pop_object lib tables h v of
        None \<Rightarrow> None
      | Some (Inl e, _) \<Rightarrow> Some (Inl e)
      | Some (Inr x, _) \<Rightarrow>
          (case pop_args lib tables h vs of
             None \<Rightarrow> None
           | Some (Inl e) \<Rightarrow> Some (Inl e)
           | Some (Inr xs) \<Rightarrow> Some (Inr (x # xs))))"

text \<open>A C function has a stack of its own, which holds its arguments at the start.\<close>

definition l_api_dispatch :: "lua_lib \<Rightarrow> nat \<Rightarrow> lua_value list \<Rightarrow> lua_world \<Rightarrow> (lua_result \<times> lua_world) option" where
  "l_api_dispatch lib idx args w =
     (let argc = length args in
      if argc > kMaxApiArgs then Some (LuaRaise (fst (g_api_table ! idx) @ '': too many arguments''), w)
      else (case pop_args lib (lw_tables w) argc args of
              None \<Rightarrow> None
            | Some (Inl e) \<Rightarrow> Some (LuaRaise (snd e), w)
            | Some (Inr items) \<Rightarrow>
                (case snd (g_api_table ! idx) items (lw_mua w) of
                   None \<Rightarrow> None
                 | Some (Some e, result, m) \<Rightarrow> Some (LuaRaise (snd e), set_mua m w)
                 | Some (None, result, m) \<Rightarrow>
                     (case object_to_lua lib result (set_top argc (set_mua m w)) of
                        None \<Rightarrow> None
                      | Some (Inl e, w') \<Rightarrow> Some (LuaRaise (snd e), set_top (lw_top w) w')
                      | Some (Inr v, w') \<Rightarrow> Some (LuaReturn [v], set_top (lw_top w) w')))))"

section \<open>Registering callbacks\<close>

definition lua_arg :: "lua_value list \<Rightarrow> nat \<Rightarrow> lua_value" where
  "lua_arg args n = (if n \<le> length args then args ! (n - 1) else LuaNil)"

definition lua_toboolean :: "lua_value \<Rightarrow> bool" where
  "lua_toboolean v \<longleftrightarrow> v \<noteq> LuaNil \<and> v \<noteq> LuaBool False"

definition luaL_ref :: "lua_lib \<Rightarrow> nat \<Rightarrow> lua_world \<Rightarrow> lua_ref \<times> lua_world" where
  "luaL_ref lib f w = (let r = ll_ref lib (lw_refs w) in (r, w\<lparr>lw_refs := (lw_refs w)(r \<mapsto> f)\<rparr>))"

definition mua_lua_unref :: "lua_ref \<Rightarrow> lua_world \<Rightarrow> lua_world" where
  "mua_lua_unref r w = w\<lparr>lw_refs := (lw_refs w)(r := None)\<rparr>"

definition tool_schema :: "lua_lib \<Rightarrow> lua_value list \<Rightarrow> lua_world \<Rightarrow> (error + object) option" where
  "tool_schema lib args w =
     (if lua_arg args 3 = LuaNil then Some (Inr ONil)
      else map_option fst (lua_pop_object lib (lw_tables w) (length args) (lua_arg args 3)))"

definition l_mua_register_tool :: "lua_lib \<Rightarrow> lua_value list \<Rightarrow> lua_world \<Rightarrow> (lua_result \<times> lua_world) option" where
  "l_mua_register_tool lib args w =
     (case lua_tolstring lib (lua_arg args 1) of
        None \<Rightarrow> Some (LuaArgError 1, w)
      | Some name \<Rightarrow>
          (case (if lua_arg args 2 = LuaNil then Some [] else lua_tolstring lib (lua_arg args 2)) of
             None \<Rightarrow> Some (LuaArgError 2, w)
           | Some desc \<Rightarrow>
               (case lua_arg args 5 of
                  LuaFunction f \<Rightarrow>
                    (case tool_schema lib args w of
                       None \<Rightarrow> None
                     | Some (Inl e) \<Rightarrow> Some (LuaRaise (snd e), w)
                     | Some (Inr schema) \<Rightarrow>
                         let mutating = (if lua_arg args 4 = LuaNil then True else lua_toboolean (lua_arg args 4)) in
                         (case luaL_ref lib f w of
                            (callback, w) \<Rightarrow>
                              (case mua_register_tool (Some name) (Some desc) schema mutating callback (lw_mua w) of
                                 None \<Rightarrow> None
                               | Some (Some e, m) \<Rightarrow> Some (LuaRaise (snd e), mua_lua_unref callback (set_mua m w))
                               | Some (None, m) \<Rightarrow> Some (LuaReturn [], set_mua m w))))
                | _ \<Rightarrow> Some (LuaArgError 5, w))))"

definition l_mua_create_autocmd :: "lua_lib \<Rightarrow> lua_value list \<Rightarrow> lua_world \<Rightarrow> lua_result \<times> lua_world" where
  "l_mua_create_autocmd lib args w =
     (case lua_tolstring lib (lua_arg args 1) of
        None \<Rightarrow> (LuaArgError 1, w)
      | Some event \<Rightarrow>
          (case lua_arg args 2 of
             LuaFunction f \<Rightarrow>
               (case luaL_ref lib f w of
                  (callback, w) \<Rightarrow>
                    (case mua_create_autocmd (Some event) callback (lw_mua w) of
                       (Some e, i, m) \<Rightarrow> (LuaRaise (snd e), mua_lua_unref callback (set_mua m w))
                     | (None, i, m) \<Rightarrow> (LuaReturn [LuaNumber (dbl_of_int i)], set_mua m w)))
           | _ \<Rightarrow> (LuaArgError 2, w)))"

definition l_mua_clear_autocmds :: "lua_world \<Rightarrow> lua_result \<times> lua_world" where
  "l_mua_clear_autocmds w =
     (case mua_clear_autocmds (lw_mua w) of
        (released, m) \<Rightarrow> (LuaReturn [], fold mua_lua_unref released (set_mua m w)))"

section \<open>Tool callbacks\<close>

text \<open>\<open>lua_pcall\<close> of the value behind a reference; calling an absent one is an error.\<close>

definition call_ref :: "lua_lib \<Rightarrow> lua_ref \<Rightarrow> lua_value \<Rightarrow> lua_world \<Rightarrow> pcall_result \<times> lua_world" where
  "call_ref lib r arg w =
     (case lw_refs w r of
        None \<Rightarrow> (PcallError (LuaString ''attempt to call a nil value''), w)
      | Some f \<Rightarrow> (case ll_call lib f arg w of (res, w') \<Rightarrow> (res, set_top (lw_top w) w')))"

definition owned_string :: "string \<Rightarrow> object" where
  "owned_string s = OString (api_string_dup (Some s))"

definition owned_cstr :: "string \<Rightarrow> object" where
  "owned_cstr s = owned_string (cstr s)"

text \<open>The result marshalled from the value on top of the stack, which is then dropped.\<close>

definition tool_result_value ::
    "lua_lib \<Rightarrow> lua_value \<Rightarrow> lua_world \<Rightarrow> (object \<times> bool \<times> lua_world) option" where
  "tool_result_value lib v w =
     (case v of
        LuaString s \<Rightarrow> Some (owned_string s, False, set_top (lw_top w - 1) w)
      | LuaNil \<Rightarrow> Some (owned_string [], False, set_top (lw_top w - 1) w)
      | _ \<Rightarrow>
          (case lua_pop_object lib (lw_tables w) (lw_top w) v of
             None \<Rightarrow> None
           | Some (Inl e, h) \<Rightarrow> Some (owned_cstr (snd e), True, set_top (h - 1) w)
           | Some (Inr built, h) \<Rightarrow>
               map_option (\<lambda>copy. (copy, False, set_top (h - 1) w)) (api_copy_object (Some built))))"

definition mua_lua_tool_invoke ::
    "lua_lib \<Rightarrow> lua_ref \<Rightarrow> object \<Rightarrow> lua_world \<Rightarrow> (object \<times> bool \<times> lua_world) option" where
  "mua_lua_tool_invoke lib callback args w =
     (if \<not> lua_checkstack lib (lw_top w) 4
      then Some (owned_cstr ''tool callback: lua stack exhausted'', True, w)
      else (case object_to_lua lib args (set_top (lw_top w + 1) w) of
              None \<Rightarrow> None
            | Some (Inl e, w') \<Rightarrow> Some (owned_cstr (snd e), True, set_top (lw_top w' - 1) w')
            | Some (Inr v, w') \<Rightarrow>
                (case call_ref lib callback v w' of
                   (PcallError e, w') \<Rightarrow>
                     Some (case lua_tolstring lib e of
                             Some msg \<Rightarrow> owned_string msg | None \<Rightarrow> owned_cstr ''tool callback raised'',
                           True, set_top (lw_top w) w')
                 | (PcallValue r, w') \<Rightarrow> tool_result_value lib r (set_top (lw_top w + 1) w'))))"

section \<open>Autocmd hooks\<close>

definition autocmd_payload :: "lua_lib \<Rightarrow> string \<Rightarrow> lua_world \<Rightarrow> nat \<times> lua_world" where
  "autocmd_payload lib event_name w =
     (case lua_newtable w of
        (t, w) \<Rightarrow> (t, lua_setfield lib t ''event'' (LuaString event_name) (set_top (lw_top w + 1) w)))"

definition hook_count :: "autocmd_event \<Rightarrow> lua_world \<Rightarrow> nat" where
  "hook_count ev w = autocmd_count (ms_autocmds (lw_mua w)) ev"

definition hook_ref :: "autocmd_event \<Rightarrow> nat \<Rightarrow> lua_world \<Rightarrow> lua_ref" where
  "hook_ref ev i w = autocmd_ref_at (ms_autocmds (lw_mua w)) ev i"

definition autocmd_fire :: "lua_lib \<Rightarrow> autocmd_event \<Rightarrow> nat \<Rightarrow> lua_world \<Rightarrow> lua_world" where
  "autocmd_fire lib ev t w =
     foldl (\<lambda>w i. snd (call_ref lib (hook_ref ev i w) (LuaTable t) w)) w [0..<hook_count ev w]"

text \<open>The events without a result: the payload's fields, the dispatch, and the pop of the payload.\<close>

definition fire_event :: "lua_lib \<Rightarrow> autocmd_event \<Rightarrow> string \<Rightarrow> (string \<times> lua_value) list \<Rightarrow> lua_world \<Rightarrow> lua_world" where
  "fire_event lib ev name entries w =
     (if hook_count ev w = 0 \<or> \<not> lua_checkstack lib (lw_top w) 4 then w
      else (case autocmd_payload lib name w of
              (t, w') \<Rightarrow>
                set_top (lw_top w)
                  (autocmd_fire lib ev t (fold (\<lambda>kv. lua_setfield lib t (fst kv) (snd kv)) entries w'))))"

definition mua_lua_autocmd_session :: "lua_lib \<Rightarrow> autocmd_event \<Rightarrow> string \<Rightarrow> lua_world \<Rightarrow> lua_world" where
  "mua_lua_autocmd_session lib ev session_id w =
     fire_event lib ev (if ev = kAutocmdSessionStart then ''SessionStart'' else ''SessionEnd'')
       [(''session'', LuaString session_id)] w"

definition mua_lua_autocmd_stream_delta :: "lua_lib \<Rightarrow> string \<Rightarrow> lua_world \<Rightarrow> lua_world" where
  "mua_lua_autocmd_stream_delta lib delta w =
     fire_event lib kAutocmdStreamDelta ''StreamDelta'' [(''text'', LuaString delta)] w"

definition mua_lua_autocmd_tool_post :: "lua_lib \<Rightarrow> string \<Rightarrow> bool \<Rightarrow> string \<Rightarrow> lua_world \<Rightarrow> lua_world" where
  "mua_lua_autocmd_tool_post lib name is_error content w =
     fire_event lib kAutocmdToolPost ''ToolPost''
       [(''tool'', LuaString name), (''content'', LuaString content), (''error'', LuaBool is_error)] w"

text \<open>A failed marshalling leaves the field's values on the stack; the caller pops one of them.\<close>

definition capture_tool_pre_args :: "lua_lib \<Rightarrow> nat \<Rightarrow> lua_world \<Rightarrow> (object \<times> lua_world) option" where
  "capture_tool_pre_args lib t w =
     (case lua_pop_object lib (lw_tables w) (lw_top w + 1) (rawget (lw_tables w) t (LuaString ''args'')) of
        None \<Rightarrow> None
      | Some (Inl e, h) \<Rightarrow> Some (ONil, set_top (h - 1) w)
      | Some (Inr built, h) \<Rightarrow>
          map_option (\<lambda>copy. (copy, set_top (h - 1) w)) (api_copy_object (Some built)))"

record tool_pre =
  tp_vetoed :: bool
  tp_reason :: "string option"
  tp_rewritten :: bool
  tp_approved :: bool

text \<open>One return value of a ToolPre hook.\<close>

definition tool_pre_return :: "lua_lib \<Rightarrow> nat \<Rightarrow> lua_value \<Rightarrow> tool_pre \<times> lua_world \<Rightarrow> tool_pre \<times> lua_world" where
  "tool_pre_return lib t v pw =
     (case pw of (p, w) \<Rightarrow>
        case v of
          LuaString s \<Rightarrow> (p\<lparr>tp_reason := Some (xstrndup s (length s)), tp_vetoed := True\<rparr>, w)
        | LuaBool b \<Rightarrow> (if b then p\<lparr>tp_approved := True\<rparr> else p\<lparr>tp_vetoed := True\<rparr>, w)
        | LuaTable a \<Rightarrow> (p\<lparr>tp_rewritten := True\<rparr>, lua_setfield lib t ''args'' (LuaTable a) w)
        | _ \<Rightarrow> (p, w))"

fun tool_pre_hooks :: "lua_lib \<Rightarrow> nat \<Rightarrow> nat list \<Rightarrow> tool_pre \<times> lua_world \<Rightarrow> tool_pre \<times> lua_world" where
  "tool_pre_hooks lib t [] pw = pw"
| "tool_pre_hooks lib t (i # is) (p, w) =
     (if tp_vetoed p then (p, w)
      else (case call_ref lib (hook_ref kAutocmdToolPre i w) (LuaTable t) w of
              (PcallError e, w) \<Rightarrow> tool_pre_hooks lib t is (p, w)
            | (PcallValue v, w) \<Rightarrow> tool_pre_hooks lib t is (tool_pre_return lib t v (p, w))))"

record tool_pre_verdict =
  tv_vetoed :: bool
  tv_reason :: "string option"
  tv_rewrite :: object
  tv_approve :: bool

definition tool_pre_none :: tool_pre_verdict where
  "tool_pre_none = \<lparr>tv_vetoed = False, tv_reason = None, tv_rewrite = ONil, tv_approve = False\<rparr>"

definition tool_pre_payload :: "lua_lib \<Rightarrow> string \<Rightarrow> object \<Rightarrow> lua_world \<Rightarrow> (nat \<times> lua_world) option" where
  "tool_pre_payload lib name args w =
     (case autocmd_payload lib ''ToolPre'' w of
        (t, w) \<Rightarrow>
          let w = lua_setfield lib t ''tool'' (LuaString name) w in
          (case object_to_lua lib args w of
             None \<Rightarrow> None
           | Some (Inr v, w') \<Rightarrow> Some (t, lua_setfield lib t ''args'' v (set_top (lw_top w) w'))
           | Some (Inl e, w') \<Rightarrow> Some (t, lua_setfield lib t ''args'' LuaNil (set_top (lw_top w) w'))))"

definition mua_lua_autocmd_tool_pre ::
    "lua_lib \<Rightarrow> string \<Rightarrow> object \<Rightarrow> lua_world \<Rightarrow> (tool_pre_verdict \<times> lua_world) option" where
  "mua_lua_autocmd_tool_pre lib name args w =
     (let n = hook_count kAutocmdToolPre w in
      if n = 0 \<or> \<not> lua_checkstack lib (lw_top w) 6 then Some (tool_pre_none, w)
      else (case tool_pre_payload lib name args w of
              None \<Rightarrow> None
            | Some (t, w') \<Rightarrow>
                (case tool_pre_hooks lib t [0..<n]
                        (\<lparr>tp_vetoed = False, tp_reason = None, tp_rewritten = False, tp_approved = False\<rparr>, w') of
                   (p, w') \<Rightarrow>
                     map_option
                       (\<lambda>(rewrite, w').
                          (\<lparr>tv_vetoed = tp_vetoed p, tv_reason = tp_reason p, tv_rewrite = rewrite,
                            tv_approve = tp_approved p \<and> \<not> tp_vetoed p\<rparr>, set_top (lw_top w' - 1) w'))
                       (if \<not> tp_vetoed p \<and> tp_rewritten p then capture_tool_pre_args lib t w' else Some (ONil, w')))))"

text \<open>The flags swallowed and rewritten.\<close>

fun prompt_pre_hooks :: "lua_lib \<Rightarrow> nat \<Rightarrow> nat list \<Rightarrow> bool \<times> bool \<times> lua_world \<Rightarrow> bool \<times> bool \<times> lua_world" where
  "prompt_pre_hooks lib t [] pw = pw"
| "prompt_pre_hooks lib t (i # is) (swallowed, rewritten, w) =
     (if swallowed then (swallowed, rewritten, w)
      else (case call_ref lib (hook_ref kAutocmdUserPromptPre i w) (LuaTable t) w of
              (PcallError e, w) \<Rightarrow> prompt_pre_hooks lib t is (swallowed, rewritten, w)
            | (PcallValue (LuaString s), w) \<Rightarrow>
                prompt_pre_hooks lib t is (swallowed, True, lua_setfield lib t ''prompt'' (LuaString s) w)
            | (PcallValue v, w) \<Rightarrow> prompt_pre_hooks lib t is (v = LuaBool False, rewritten, w)))"

definition mua_lua_autocmd_user_prompt_pre ::
    "lua_lib \<Rightarrow> string \<Rightarrow> lua_world \<Rightarrow> bool \<times> string option \<times> lua_world" where
  "mua_lua_autocmd_user_prompt_pre lib prompt w =
     (let n = hook_count kAutocmdUserPromptPre w in
      if n = 0 \<or> \<not> lua_checkstack lib (lw_top w) 6 then (False, None, w)
      else (case autocmd_payload lib ''UserPromptPre'' w of
              (t, w') \<Rightarrow>
                (case prompt_pre_hooks lib t [0..<n]
                        (False, False, lua_setfield lib t ''prompt'' (LuaString prompt) w') of
                   (swallowed, rewritten, w') \<Rightarrow>
                     (swallowed,
                      if \<not> swallowed \<and> rewritten
                      then Some (case lua_tolstring lib (rawget (lw_tables w') t (LuaString ''prompt'')) of
                                   Some s \<Rightarrow> xstrndup s (length s) | None \<Rightarrow> [])
                      else None,
                      set_top (lw_top w) w'))))"

end
