(* ===== verification/BridgeProps.thy ===== *)
theory BridgeProps
  imports Bridge "HOL-Library.Multiset"
begin

text \<open>
  Properties of the Lua bridge: reading a Lua value as an Object is a recursion that ends on every
  table, cyclic ones included; the registry holds a reference exactly when one of the stores owns it;
  and a tool callback that returns an unstorable nested table costs a stack slot.
\<close>

section \<open>Reading a value, recursively\<close>

definition pop_leaf :: "lua_value \<Rightarrow> error + object" where
  "pop_leaf v =
     (case v of
        LuaFunction g \<Rightarrow> Inl (cannot_store v)
      | LuaOther ty \<Rightarrow> Inl (cannot_store v)
      | _ \<Rightarrow> Inr (scalarize v))"

text \<open>The children from \<open>i\<close> on; \<open>h\<close> is the height of the stack at their table's frame.\<close>

function fill_from ::
    "lua_lib \<Rightarrow> (nat \<Rightarrow> lua_value \<Rightarrow> (error + object) \<times> nat) \<Rightarrow> (pop_frame \<Rightarrow> lua_value) \<Rightarrow> nat \<Rightarrow> pop_frame
      \<Rightarrow> (error + object) \<times> nat" where
  "fill_from lib child get h f =
     (if length (obj_children (pf_container f)) \<le> pf_next f then (Inr (pf_container f), h)
      else if \<not> lua_checkstack lib h 4 then (Inl stack_reading, h)
      else (case child h (get f) of
              (Inl e, h') \<Rightarrow> (Inl e, h')
            | (Inr x, _) \<Rightarrow>
                fill_from lib child get h
                  (f\<lparr>pf_next := pf_next f + 1, pf_container := obj_set (pf_container f) (pf_next f) x\<rparr>)))"
  by auto
termination fill_from
  by (relation "measure (\<lambda>(lib, child, get, h, f). length (obj_children (pf_container f)) - pf_next f)") auto

declare fill_from.simps [simp del]

text \<open>A child value with \<open>n\<close> further levels allowed; its own table stays on the stack on failure.\<close>

primrec read_child :: "lua_lib \<Rightarrow> (nat \<Rightarrow> lua_entries) \<Rightarrow> nat \<Rightarrow> nat \<Rightarrow> lua_value \<Rightarrow> (error + object) \<times> nat" where
  "read_child lib tables 0 = (\<lambda>h v.
     (case v of LuaTable c \<Rightarrow> (Inl nesting_cyclic, h + 1) | _ \<Rightarrow> (pop_leaf v, h)))"
| "read_child lib tables (Suc n) = (\<lambda>h v.
     (case v of
        LuaTable c \<Rightarrow>
          (case table_init (tables c) of
             Inl e \<Rightarrow> (Inl e, h + 1)
           | Inr slot \<Rightarrow>
               fill_from lib (read_child lib tables n) (\<lambda>f. rawget tables (pf_table f) (pop_key f)) (h + 1)
                 \<lparr>pf_container = slot, pf_next = 0, pf_table = c\<rparr>)
      | _ \<Rightarrow> (pop_leaf v, h)))"

definition read_frame :: "lua_lib \<Rightarrow> (nat \<Rightarrow> lua_entries) \<Rightarrow> nat \<Rightarrow> nat \<Rightarrow> pop_frame \<Rightarrow> (error + object) \<times> nat" where
  "read_frame lib tables n = fill_from lib (read_child lib tables n) (\<lambda>f. rawget tables (pf_table f) (pop_key f))"

definition read_value :: "lua_lib \<Rightarrow> (nat \<Rightarrow> lua_entries) \<Rightarrow> nat \<Rightarrow> lua_value \<Rightarrow> (error + object) \<times> nat" where
  "read_value lib tables h v =
     (if \<not> lua_checkstack lib h 4 then (Inl stack_reading, h)
      else (case v of
              LuaTable t \<Rightarrow>
                (case table_init (tables t) of
                   Inl e \<Rightarrow> (Inl e, h)
                 | Inr slot \<Rightarrow> read_frame lib tables (kMarshalDepthCap - 1) h \<lparr>pf_container = slot, pf_next = 0, pf_table = t\<rparr>)
            | _ \<Rightarrow> (pop_leaf v, h)))"

lemma read_frame_step:
  "read_frame lib tables n h f =
     (if length (obj_children (pf_container f)) \<le> pf_next f then (Inr (pf_container f), h)
      else if \<not> lua_checkstack lib h 4 then (Inl stack_reading, h)
      else (case read_child lib tables n h (rawget tables (pf_table f) (pop_key f)) of
              (Inl e, h') \<Rightarrow> (Inl e, h')
            | (Inr x, _) \<Rightarrow>
                read_frame lib tables n h
                  (f\<lparr>pf_next := pf_next f + 1, pf_container := obj_set (pf_container f) (pf_next f) x\<rparr>)))"
  unfolding read_frame_def by (subst fill_from.simps) simp

lemma read_child_leaf: "(\<forall>c. v \<noteq> LuaTable c) \<Longrightarrow> read_child lib tables n h v = (pop_leaf v, h)"
  by (cases n; cases v) simp_all

text \<open>The loop does with its top frame what the recursion does, and stores the value in the frame below.\<close>

lemma pop_loop_frame:
  "n + Suc (length fs) = kMarshalDepthCap \<Longrightarrow>
   pop_loop lib tables base (f # fs) =
     (case read_frame lib tables n (base + length fs) f of
        (Inl e, h) \<Rightarrow> Some (Inl e, h)
      | (Inr x, h) \<Rightarrow>
          (case fs of
             [] \<Rightarrow> Some (Inr x, h)
           | g # gs \<Rightarrow> pop_loop lib tables base (g\<lparr>pf_container := obj_set (pf_container g) (pf_next g - 1) x\<rparr> # gs)))"
proof (induction n arbitrary: f fs rule: less_induct)
  case outer: (less n)
  show ?case
  proof (induction "length (obj_children (pf_container f)) - pf_next f" arbitrary: f rule: less_induct)
    case inner: less
    let ?i = "pf_next f" and ?h = "base + length fs"
    let ?v = "rawget tables (pf_table f) (pop_key f)"
    let ?next = "\<lambda>x. f\<lparr>pf_next := ?i + 1, pf_container := obj_set (pf_container f) ?i x\<rparr>"
    note unf = pop_loop.simps [of lib tables base "f # fs"] read_frame_step [of lib tables n ?h f]
    show ?case
    proof (cases "length (obj_children (pf_container f)) \<le> ?i \<or> \<not> lua_checkstack lib ?h 4")
      case True
      then show ?thesis by (auto simp: unf Let_def)
    next
      case False
      have ih: "pop_loop lib tables base (?next x # fs) =
         (case read_frame lib tables n ?h (?next x) of
            (Inl e, h) \<Rightarrow> Some (Inl e, h)
          | (Inr y, h) \<Rightarrow>
              (case fs of
                 [] \<Rightarrow> Some (Inr y, h)
               | g # gs \<Rightarrow> pop_loop lib tables base (g\<lparr>pf_container := obj_set (pf_container g) (pf_next g - 1) y\<rparr> # gs)))"
        for x
        by (rule inner.hyps) (use False in auto)
      show ?thesis
      proof (cases "\<exists>c. ?v = LuaTable c")
        case False2: False
        then show ?thesis
          using False ih [of "scalarize ?v"] by (cases ?v) (simp_all add: unf read_child_leaf pop_leaf_def Let_def)
      next
        case True
        then obtain c where c: "?v = LuaTable c" by blast
        show ?thesis
        proof (cases n)
          case 0
          then show ?thesis
            using False c outer.prems
            by (simp add: unf(1) read_frame_step [of lib tables 0 ?h f] Let_def)
        next
          case (Suc m)
          show ?thesis
          proof (cases "table_init (tables c)")
            case (Inl e)
            then show ?thesis
              using False c outer.prems Suc
              by (simp add: unf(1) read_frame_step [of lib tables "Suc m" ?h f] Let_def)
          next
            case (Inr slot)
            let ?g = "\<lparr>pf_container = slot, pf_next = 0, pf_table = c\<rparr>"
            have sub: "pop_loop lib tables base (?g # f\<lparr>pf_next := ?i + 1\<rparr> # fs) =
              (case read_frame lib tables m (?h + 1) ?g of
                 (Inl e, h) \<Rightarrow> Some (Inl e, h)
               | (Inr x, h) \<Rightarrow> pop_loop lib tables base (?next x # fs))"
              using outer.IH [of m "f\<lparr>pf_next := ?i + 1\<rparr> # fs" ?g] Suc outer.prems by (simp split: prod.split sum.split)
            have pl: "pop_loop lib tables base (f # fs) = pop_loop lib tables base (?g # f\<lparr>pf_next := ?i + 1\<rparr> # fs)"
              using False c Inr outer.prems Suc by (simp add: unf(1) Let_def)
            have "read_child lib tables n ?h ?v = read_frame lib tables m (?h + 1) ?g"
              using c Inr Suc by (simp add: read_frame_def)
            then have rf: "read_frame lib tables n ?h f =
              (case read_frame lib tables m (?h + 1) ?g of
                 (Inl e, h) \<Rightarrow> (Inl e, h)
               | (Inr x, h) \<Rightarrow> read_frame lib tables n ?h (?next x))"
              using False by (simp only: unf(2) if_False not_True_eq_False de_Morgan_disj not_not)
            show ?thesis unfolding pl sub rf using ih by (simp split: prod.split sum.split)
          qed
        qed
      qed
    qed
  qed
qed

lemma lua_pop_object_reads: "lua_pop_object lib tables h v = Some (read_value lib tables h v)"
  using pop_loop_frame [of "kMarshalDepthCap - 1" "[]" lib tables h]
  by (cases v)
    (auto simp: lua_pop_object_def read_value_def pop_leaf_def kMarshalDepthCap_def split: sum.split prod.split)

section \<open>Bounds of what is read\<close>

text \<open>With \<open>n\<close> levels from height \<open>h\<close> on: a value read is at most that deep; a failure leaves at most
  \<open>l\<close> of the levels' tables on the stack.\<close>

definition read_bounds :: "nat \<Rightarrow> nat \<Rightarrow> nat \<Rightarrow> (error + object) \<times> nat \<Rightarrow> bool" where
  "read_bounds n l h res =
     (case res of
        (Inl e, h') \<Rightarrow> h \<le> h' \<and> h' \<le> h + l
      | (Inr x, h') \<Rightarrow> obj_depth x \<le> n)"

lemma read_bounds_simps [simp]:
  "read_bounds n l h (Inl e, h') \<longleftrightarrow> h \<le> h' \<and> h' \<le> h + l"
  "read_bounds n l h (Inr x, h') \<longleftrightarrow> obj_depth x \<le> n"
  by (simp_all add: read_bounds_def)

lemma scalarize_depth [simp]: "obj_depth (scalarize v) = 0"
  by (cases v) (auto simp: scalarize_def obj_of_number_def split: option.split)

lemma pop_leaf_bounds [simp]: "read_bounds n l h (pop_leaf v, h)"
  by (cases v) (simp_all add: pop_leaf_def)

lemma kids_depth_all: "kids_depth xs \<le> n \<longleftrightarrow> (\<forall>x\<in>set xs. obj_depth x \<le> n)"
  by (induction xs) auto

lemma table_init_fresh: "table_init es = Inr x \<Longrightarrow> kids_depth (obj_children x) = 0"
  using kids_depth_all [of "obj_children x" 0]
  by (auto simp: table_init_def split: prod.splits table_kind.splits)

lemma fill_from_bounds:
  assumes child: "\<And>v. read_bounds n l h (child h v)"
  shows "kids_depth (obj_children (pf_container f)) \<le> n \<Longrightarrow> read_bounds (Suc n) l h (fill_from lib child get h f)"
proof (induction "length (obj_children (pf_container f)) - pf_next f" arbitrary: f rule: less_induct)
  case less
  have root: "obj_depth (pf_container f) \<le> Suc n"
    using less.prems by (cases "is_container (pf_container f)") (simp_all add: obj_depth_container)
  show ?case
  proof (cases "length (obj_children (pf_container f)) \<le> pf_next f \<or> \<not> lua_checkstack lib h 4")
    case True
    then show ?thesis using root by (auto simp: fill_from.simps [of lib child get h f])
  next
    case False
    show ?thesis
    proof (cases "child h (get f)")
      case (Pair r h')
      show ?thesis
      proof (cases r)
        case (Inl e)
        then show ?thesis
          using False Pair child [of "get f"] by (simp add: fill_from.simps [of lib child get h f])
      next
        case (Inr x)
        have "read_bounds (Suc n) l h (fill_from lib child get h
          (f\<lparr>pf_next := pf_next f + 1, pf_container := obj_set (pf_container f) (pf_next f) x\<rparr>))"
          by (rule less.hyps)
            (use False less.prems child [of "get f"] Pair Inr
               kids_depth_update [of "obj_children (pf_container f)" "pf_next f" x] in auto)
        then show ?thesis using False Pair Inr by (simp add: fill_from.simps [of lib child get h f])
      qed
    qed
  qed
qed

lemma fill_from_height: "fill_from lib child get h f = (Inr x, h') \<Longrightarrow> h' = h"
proof (induction lib child get h f rule: fill_from.induct)
  case (1 lib child get h f)
  then show ?case
    by (subst (asm) fill_from.simps) (auto split: if_splits prod.splits sum.splits)
qed

lemma read_bounds_above: "read_bounds n l (h + 1) res \<Longrightarrow> read_bounds n (l + 1) h res"
  by (auto simp: read_bounds_def split: sum.splits prod.splits)

lemma read_child_bounds: "read_bounds n (n + 1) h (read_child lib tables n h v)"
proof (induction n arbitrary: h v)
  case 0
  show ?case by (cases v) auto
next
  case (Suc n)
  show ?case
  proof (cases "\<exists>c. v = LuaTable c")
    case False
    then show ?thesis by (cases v) auto
  next
    case True
    then obtain c where v: "v = LuaTable c" by blast
    show ?thesis
    proof (cases "table_init (tables c)")
      case (Inr slot)
      then show ?thesis
        using read_bounds_above [OF fill_from_bounds [where child = "read_child lib tables n", OF Suc.IH]]
          table_init_fresh [OF Inr] by (simp add: v)
    qed (simp add: v)
  qed
qed

lemma read_value_bounds: "read_bounds kMarshalDepthCap kMarshalDepthCap h (read_value lib tables h v)"
proof (cases "\<exists>c. v = LuaTable c")
  case False
  then show ?thesis by (cases v) (auto simp: read_value_def)
next
  case True
  then obtain c where v: "v = LuaTable c" by blast
  show ?thesis
  proof (cases "table_init (tables c)")
    case (Inr slot)
    then show ?thesis
      using fill_from_bounds
          [where child = "read_child lib tables (kMarshalDepthCap - 1)", OF read_child_bounds [of "kMarshalDepthCap - 1"]]
        table_init_fresh [OF Inr]
      by (simp add: v read_value_def read_frame_def kMarshalDepthCap_def)
  qed (simp add: v read_value_def)
qed

lemma read_value_height: "read_value lib tables h v = (Inr x, h') \<Longrightarrow> h' = h"
  by (cases v)
    (auto simp: read_value_def read_frame_def split: if_splits sum.splits dest: fill_from_height)

lemma lua_pop_object_returns:
  obtains (ok) x where "lua_pop_object lib tables h v = Some (Inr x, h)" "obj_depth x \<le> kMarshalDepthCap"
  | (fails) e h' where "lua_pop_object lib tables h v = Some (Inl e, h')" "h \<le> h'" "h' \<le> h + kMarshalDepthCap"
  using read_value_bounds [of h lib tables v] read_value_height [of lib tables h v]
  by (cases "read_value lib tables h v" rule: prod.exhaust; cases "fst (read_value lib tables h v)")
    (auto simp: lua_pop_object_reads)

section \<open>Writing an Object\<close>

definition push_work :: "push_frame list \<Rightarrow> nat" where
  "push_work stack =
     sum_list (map (\<lambda>f. Suc (2 * kids_nodes (drop (uf_next f) (obj_children (uf_container f))))) stack)"

definition same_lua :: "lua_world \<Rightarrow> lua_world \<Rightarrow> bool" where
  "same_lua w w' \<longleftrightarrow> lw_refs w' = lw_refs w \<and> lw_mua w' = lw_mua w"

lemma same_lua_steps [simp]:
  "same_lua w w" "same_lua w (set_top h w') = same_lua w w'" "same_lua w (rawset lib t k v w') = same_lua w w'"
  "same_lua w (w'\<lparr>lw_top := h\<rparr>) = same_lua w w'" "same_lua w (snd (lua_newtable w')) = same_lua w w'"
  by (simp_all add: same_lua_def set_top_def rawset_def lua_newtable_def)

lemma push_loop_returns:
  assumes "length stack \<le> kMarshalDepthCap" "same_lua w0 w"
  shows "\<exists>r w'. push_loop lib base stack w = Some (r, w') \<and> same_lua w0 w' \<and>
    (case r of None \<Rightarrow> lw_top w' = base + 1
     | Some e \<Rightarrow> base < lw_top w' \<and> lw_top w' \<le> base + kMarshalDepthCap)"
  using assms
proof (induction "push_work stack" arbitrary: stack w rule: less_induct)
  case less
  show ?case
  proof (cases stack)
    case Nil
    then show ?thesis using less.prems by (simp add: push_loop.simps)
  next
    case (Cons f fs)
    let ?kids = "obj_children (uf_container f)" and ?i = "uf_next f"
    note unf = push_loop.simps [of lib base "f # fs" w]
    show ?thesis
    proof (cases "?i < length ?kids")
      case False
      have "push_work fs < push_work stack" by (simp add: push_work_def Cons)
      from less.hyps [OF this, of w] show ?thesis using False less.prems by (simp add: unf Cons Let_def)
    next
      case True
      then have kids: "kids_nodes (drop ?i ?kids) = obj_nodes (?kids ! ?i) + kids_nodes (drop (Suc ?i) ?kids)"
        by (simp flip: Cons_nth_drop_Suc)
      show ?thesis
      proof (cases "\<not> lua_checkstack lib (base + length stack) 6 \<or>
          is_container (?kids ! ?i) \<and> kMarshalDepthCap \<le> length stack")
        case True2: True
        then show ?thesis using True less.prems by (auto simp: unf Cons Let_def)
      next
        case room: False
        show ?thesis
        proof (cases "is_container (?kids ! ?i)")
          case leaf: False
          let ?stack = "f\<lparr>uf_next := ?i + 1\<rparr> # fs"
          have "push_work ?stack < push_work stack" by (simp add: push_work_def Cons kids)
          from less.hyps [OF this, of "rawset lib (uf_table f) (push_key f) (push_scalar (?kids ! ?i)) w"]
          show ?thesis using True room leaf less.prems by (simp add: unf Cons Let_def)
        next
          case sub: True
          obtain t w1 where t: "lua_newtable w = (t, w1)" by fastforce
          then have w1: "same_lua w0 w1" using less.prems same_lua_steps(5) [of w0 w] by simp
          let ?stack = "\<lparr>uf_container = ?kids ! ?i, uf_table = t, uf_next = 0\<rparr> # f\<lparr>uf_next := ?i + 1\<rparr> # fs"
          have "push_work ?stack < push_work stack"
            using sub by (simp add: push_work_def Cons kids obj_nodes_container)
          from less.hyps [OF this, of "rawset lib (uf_table f) (push_key f) (LuaTable t) w1"]
          show ?thesis using True room sub less.prems w1 t by (simp add: unf Cons Let_def)
        qed
      qed
    qed
  qed
qed

lemma object_to_lua_returns:
  obtains (ok) v w' where "object_to_lua lib x w = Some (Inr v, w')" "lw_top w' = lw_top w + 1" "same_lua w w'"
  | (fails) e w' where "object_to_lua lib x w = Some (Inl e, w')" "lw_top w \<le> lw_top w'"
      "lw_top w' \<le> lw_top w + kMarshalDepthCap" "same_lua w w'"
proof (cases "\<not> lua_checkstack lib (lw_top w) 4 \<or> \<not> is_container x")
  case True
  then show ?thesis
    using that(1) [of "push_scalar x" "w\<lparr>lw_top := lw_top w + 1\<rparr>"] that(2) [of stack_writing w]
    by (cases "lua_checkstack lib (lw_top w) 4") (simp_all add: object_to_lua_def)
next
  case False
  obtain t w1 where t: "lua_newtable w = (t, w1)" by fastforce
  then have w1: "same_lua w w1" using same_lua_steps(5) [of w w] by simp
  have "length [\<lparr>uf_container = x, uf_table = t, uf_next = 0\<rparr>] \<le> kMarshalDepthCap"
    by (simp add: kMarshalDepthCap_def)
  from push_loop_returns [OF this w1, of lib "lw_top w"] obtain r w' where
    r: "push_loop lib (lw_top w) [\<lparr>uf_container = x, uf_table = t, uf_next = 0\<rparr>] w1 = Some (r, w')" "same_lua w w'"
      "case r of None \<Rightarrow> lw_top w' = lw_top w + 1
       | Some e \<Rightarrow> lw_top w < lw_top w' \<and> lw_top w' \<le> lw_top w + kMarshalDepthCap"
    by blast
  show ?thesis
  proof (cases r)
    case None
    then show ?thesis using False t r that(1) [of "LuaTable t" w'] by (simp add: object_to_lua_def)
  next
    case (Some e)
    then show ?thesis using False t r that(2) [of e w'] by (simp add: object_to_lua_def)
  qed
qed

section \<open>Tool callbacks\<close>

text \<open>C24. A value read from Lua (a tool's result, a hook's rewritten arguments, an API argument): the
  loop ends on every table, one that contains itself included, and what it reads can be copied, so the
  copy's assertion never fails. A value read leaves the stack as it was; a failure leaves up to one table
  per level on it.\<close>

theorem lua_value_read:
  "\<exists>r h'. lua_pop_object lib tables h v = Some (r, h') \<and>
     (case r of
        Inr x \<Rightarrow> h' = h \<and> obj_depth x \<le> kMarshalDepthCap \<and> api_copy_object (Some x) = Some x
      | Inl e \<Rightarrow> h \<le> h' \<and> h' \<le> h + kMarshalDepthCap)"
  by (rule lua_pop_object_returns [of lib tables h v]) (simp_all add: api_copy_object_eq)

lemma call_ref_top: "lw_top (snd (call_ref lib r v w)) = lw_top w"
  by (simp add: call_ref_def set_top_def split: option.split prod.split)

lemma tool_result_value_returns:
  assumes "0 < lw_top w"
  obtains (ok) content w' where "tool_result_value lib v w = Some (content, False, w')" "lw_top w' = lw_top w - 1"
  | (fails) content w' where "tool_result_value lib v w = Some (content, True, w')" "lw_top w - 1 \<le> lw_top w'"
      "lw_top w' \<le> lw_top w - 1 + kMarshalDepthCap"
proof (cases "v = LuaNil \<or> (\<exists>s. v = LuaString s)")
  case True
  then show ?thesis using that(1) by (auto simp: tool_result_value_def set_top_def)
next
  case False
  then have t: "tool_result_value lib v w =
    (case lua_pop_object lib (lw_tables w) (lw_top w) v of
       None \<Rightarrow> None
     | Some (Inl e, h) \<Rightarrow> Some (owned_cstr (snd e), True, set_top (h - 1) w)
     | Some (Inr built, h) \<Rightarrow> map_option (\<lambda>copy. (copy, False, set_top (h - 1) w)) (api_copy_object (Some built)))"
    by (cases v) (simp_all add: tool_result_value_def)
  show ?thesis
  proof (rule lua_pop_object_returns [of lib "lw_tables w" "lw_top w" v])
    fix x
    assume "lua_pop_object lib (lw_tables w) (lw_top w) v = Some (Inr x, lw_top w)" "obj_depth x \<le> kMarshalDepthCap"
    then show thesis using that(1) [of x "set_top (lw_top w - 1) w"] t by (simp add: api_copy_object_eq set_top_def)
  next
    fix e h'
    assume "lua_pop_object lib (lw_tables w) (lw_top w) v = Some (Inl e, h')" "lw_top w \<le> h'"
      "h' \<le> lw_top w + kMarshalDepthCap"
    then show thesis using that(2) [of "owned_cstr (snd e)" "set_top (h' - 1) w"] t assms by (simp add: set_top_def)
  qed
qed

text \<open>A call of a Lua tool always returns a result, whatever its arguments and its callback do: no
  assertion of it fails. A result that is not an error leaves the Lua stack as it was; an error leaves at
  most one value per nesting level on it.\<close>

theorem tool_invoke_total:
  "\<exists>content err w'. mua_lua_tool_invoke lib callback args w = Some (content, err, w') \<and>
     lw_top w \<le> lw_top w' \<and> lw_top w' \<le> lw_top w + kMarshalDepthCap \<and> (err \<or> lw_top w' = lw_top w)"
proof (cases "lua_checkstack lib (lw_top w) 4")
  case False
  then show ?thesis by (auto simp: mua_lua_tool_invoke_def)
next
  case True
  show ?thesis
  proof (rule object_to_lua_returns [of lib args "set_top (lw_top w + 1) w"], goal_cases)
    case (1 v w1)
    obtain res w2 where c: "call_ref lib callback v w1 = (res, w2)" by fastforce
    show ?case
    proof (cases res)
      case (PcallError e)
      then show ?thesis using True 1 c by (auto simp: mua_lua_tool_invoke_def set_top_def)
    next
      case (PcallValue r)
      let ?w = "set_top (lw_top w + 1) w2"
      have "\<exists>content err w'. tool_result_value lib r ?w = Some (content, err, w') \<and>
        lw_top w \<le> lw_top w' \<and> lw_top w' \<le> lw_top w + kMarshalDepthCap \<and> (err \<or> lw_top w' = lw_top w)"
        by (rule tool_result_value_returns [of ?w lib r]) (auto simp: set_top_def)
      moreover have "mua_lua_tool_invoke lib callback args w = tool_result_value lib r ?w"
        unfolding mua_lua_tool_invoke_def 1(1) using True c PcallValue by simp
      ultimately show ?thesis by simp
    qed
  next
    case (2 e w1)
    have "mua_lua_tool_invoke lib callback args w = Some (owned_cstr (snd e), True, set_top (lw_top w1 - 1) w1)"
      using True 2(1) by (simp add: mua_lua_tool_invoke_def)
    moreover have "lw_top w \<le> lw_top w1 - 1" "lw_top w1 - 1 \<le> lw_top w + kMarshalDepthCap"
      using 2(2,3) by (simp_all add: set_top_def)
    ultimately show ?case by (auto simp: set_top_def)
  qed
qed

text \<open>A callback that returns a table holding a table with a function in it.\<close>

definition returns_function_inside :: "lua_lib \<Rightarrow> lua_ref \<Rightarrow> nat \<Rightarrow> nat \<Rightarrow> lua_world \<Rightarrow> bool" where
  "returns_function_inside lib callback t c w \<longleftrightarrow>
     (\<exists>f g k k'. lw_refs w callback = Some f \<and> (\<forall>arg w. ll_call lib f arg w = (PcallValue (LuaTable t), w)) \<and>
        lw_tables w t = [(LuaString k, LuaTable c)] \<and> lw_tables w c = [(LuaString k', LuaFunction g)] \<and>
        t < lw_free w \<and> c < lw_free w)"

lemma read_inner_function:
  assumes "tables t = [(LuaString k, LuaTable c)]" "tables c = [(LuaString k', LuaFunction g)]"
    and room: "h + 4 \<le> ll_max_stack lib"
  shows "\<exists>e. lua_pop_object lib tables h (LuaTable t) = Some (Inl e, h + 1)"
proof -
  obtain m where cap: "kMarshalDepthCap - Suc 0 = Suc m"
    using that [of 30] by (simp add: kMarshalDepthCap_def)
  have init: "table_init [(LuaString a, v)] = Inr (ODict [(Some a, ONil)])" for a v
    by (simp add: table_init_def classify_table_def classify_key_def lua_key_string_def)
  let ?f = "\<lambda>a d. \<lparr>pf_container = ODict [(Some a, ONil)], pf_next = 0, pf_table = d\<rparr>"
  have "\<exists>e. read_frame lib tables m (h + 1) (?f k' c) = (Inl e, h + 1)"
    using assms(2)
    by (simp add: read_frame_step [of lib tables m "Suc h" "?f k' c"] rawget_def pop_key_def read_child_leaf pop_leaf_def)
  then have inner: "\<exists>e. read_child lib tables (Suc m) h (LuaTable c) = (Inl e, h + 1)"
    using assms(2) by (simp add: init flip: read_frame_def)
  have "\<exists>e. read_frame lib tables (Suc m) h (?f k t) = (Inl e, h + 1)"
    using assms(1) inner room
    by (auto simp: read_frame_step [of lib tables "Suc m" h "?f k t"] rawget_def pop_key_def lua_checkstack_def
        simp del: read_child.simps)
  then show ?thesis
    using assms(1) room by (simp add: lua_pop_object_reads read_value_def init cap lua_checkstack_def)
qed

lemma tool_invoke_leaks:
  assumes cb: "returns_function_inside lib callback t c w" and room: "lw_top w + 5 \<le> ll_max_stack lib"
  shows "\<exists>content w'. mua_lua_tool_invoke lib callback (ODict []) w = Some (content, True, w') \<and>
    lw_top w' = lw_top w + 1 \<and> returns_function_inside lib callback t c w'"
proof -
  from cb obtain f g k k' where f: "lw_refs w callback = Some f"
      "\<And>arg w. ll_call lib f arg w = (PcallValue (LuaTable t), w)"
      "lw_tables w t = [(LuaString k, LuaTable c)]" "lw_tables w c = [(LuaString k', LuaFunction g)]"
      "t < lw_free w" "c < lw_free w"
    unfolding returns_function_inside_def by blast
  let ?tab = "(lw_tables w)(lw_free w := [])"
  let ?w = "w\<lparr>lw_tables := ?tab, lw_free := lw_free w + 1, lw_top := lw_top w + 2\<rparr>"
  have args: "object_to_lua lib (ODict []) (set_top (lw_top w + 1) w) = Some (Inr (LuaTable (lw_free w)), ?w)"
    using room by (simp add: object_to_lua_def lua_checkstack_def set_top_def lua_newtable_def push_loop.simps)
  obtain e where e: "lua_pop_object lib ?tab (lw_top w + 1) (LuaTable t) = Some (Inl e, lw_top w + 2)"
    using read_inner_function [of ?tab t k c k' g "lw_top w + 1" lib] f room by auto
  have "mua_lua_tool_invoke lib callback (ODict []) w =
      Some (owned_cstr (snd e), True, set_top (lw_top w + 1) ?w)"
    unfolding mua_lua_tool_invoke_def args using room f(1,2) e
    by (simp add: lua_checkstack_def call_ref_def tool_result_value_def set_top_def)
  then show ?thesis using f by (auto simp: returns_function_inside_def set_top_def)
qed

primrec tool_calls :: "lua_lib \<Rightarrow> lua_ref \<Rightarrow> object \<Rightarrow> nat \<Rightarrow> lua_world \<Rightarrow> lua_world option" where
  "tool_calls lib callback args 0 w = Some w"
| "tool_calls lib callback args (Suc n) w =
     (case mua_lua_tool_invoke lib callback args w of
        None \<Rightarrow> None
      | Some (content, err, w') \<Rightarrow> tool_calls lib callback args n w')"

lemma tool_calls_leak:
  "returns_function_inside lib callback t c w \<Longrightarrow> lw_top w + n + 4 \<le> ll_max_stack lib \<Longrightarrow>
   \<exists>w'. tool_calls lib callback (ODict []) n w = Some w' \<and> lw_top w' = lw_top w + n"
proof (induction n arbitrary: w)
  case (Suc n)
  then obtain content w' where w': "mua_lua_tool_invoke lib callback (ODict []) w = Some (content, True, w')"
      "lw_top w' = lw_top w + 1" "returns_function_inside lib callback t c w'"
    using tool_invoke_leaks [of lib callback t c w] by auto
  then show ?case using Suc.IH [of w'] Suc.prems by auto
qed simp

text \<open>C26. The stack is not restored when a result cannot be stored because of a value inside a nested
  table (\<open>bridge.c\<close> pops one value, the nested table's remains): each call of such a callback costs one
  slot. When the slots are used up every call of every Lua tool answers with a stack error, its callback
  not called, and the ToolPre hooks are passed over: a call that they would veto is not vetoed.\<close>

theorem tool_calls_exhaust_stack:
  assumes "returns_function_inside lib callback t c w" "lw_top w + n + 4 = ll_max_stack lib"
  shows "\<exists>w'. tool_calls lib callback (ODict []) n w = Some w' \<and>
    (\<forall>r args. mua_lua_tool_invoke lib r args w' =
       Some (OString (Some ''lua stack exhausted writing a value''), True, w')) \<and>
    (\<forall>name args. mua_lua_autocmd_tool_pre lib name args w' = Some (tool_pre_none, w'))"
proof -
  obtain w' where w': "tool_calls lib callback (ODict []) n w = Some w'" "lw_top w' = lw_top w + n"
    using tool_calls_leak [OF assms(1), of n] assms(2) by auto
  then have "mua_lua_tool_invoke lib r args w' =
      Some (OString (Some ''lua stack exhausted writing a value''), True, w')" for r args
    using assms(2)
    by (simp add: mua_lua_tool_invoke_def lua_checkstack_def object_to_lua_def set_top_def stack_writing_def
        owned_cstr_def owned_string_def cstr_def)
  moreover have "mua_lua_autocmd_tool_pre lib name args w' = Some (tool_pre_none, w')" for name args
    using w' assms(2) by (simp add: mua_lua_autocmd_tool_pre_def Let_def lua_checkstack_def)
  ultimately show ?thesis using w' by blast
qed

section \<open>Who holds a callback\<close>

definition owned_refs :: "mua_state \<Rightarrow> lua_ref list" where
  "owned_refs m = map td_callback (ms_tools m) @ map ac_callback (g_autocmds (ms_autocmds m))"

text \<open>The registry holds the callbacks of the two stores, each once.\<close>

definition refs_owned :: "lua_world \<Rightarrow> bool" where
  "refs_owned w \<longleftrightarrow> distinct (owned_refs (lw_mua w)) \<and> dom (lw_refs w) = set (owned_refs (lw_mua w))"

text \<open>What Lua code does to the bridge, between changes of its tables.\<close>

datatype bridge_op =
  SetTables "nat \<Rightarrow> lua_entries" | RegisterTool "lua_value list" | CreateAutocmd "lua_value list" | ClearAutocmds

fun bridge_step :: "lua_lib \<Rightarrow> bridge_op \<Rightarrow> lua_world \<Rightarrow> lua_world option" where
  "bridge_step lib (SetTables tables) w = Some (w\<lparr>lw_tables := tables\<rparr>)"
| "bridge_step lib (RegisterTool args) w = map_option snd (l_mua_register_tool lib args w)"
| "bridge_step lib (CreateAutocmd args) w = Some (snd (l_mua_create_autocmd lib args w))"
| "bridge_step lib ClearAutocmds w = Some (snd (l_mua_clear_autocmds w))"

fun bridge_run :: "lua_lib \<Rightarrow> bridge_op list \<Rightarrow> lua_world \<Rightarrow> lua_world option" where
  "bridge_run lib [] w = Some w"
| "bridge_run lib (op # ops) w = (case bridge_step lib op w of None \<Rightarrow> None | Some w' \<Rightarrow> bridge_run lib ops w')"

lemma tool_schema_cases:
  obtains (fails) e where "tool_schema lib args w = Some (Inl e)"
  | (ok) x where "tool_schema lib args w = Some (Inr x)" "obj_depth x \<le> kMarshalDepthCap"
proof (cases "lua_arg args 3 = LuaNil")
  case True
  then show ?thesis using that(2) [of ONil] by (simp add: tool_schema_def)
next
  case False
  show ?thesis
    by (rule lua_pop_object_returns [of lib "lw_tables w" "length args" "lua_arg args 3"])
      (use False that in \<open>simp_all add: tool_schema_def\<close>)
qed

lemma register_total:
  assumes "obj_depth schema \<le> kMarshalDepthCap"
  obtains (refused) e where "mua_register_tool name descr schema mut cb m = Some (Some e, m)"
  | (added) m' where "mua_register_tool name descr schema mut cb m = Some (None, m')"
      "mset (owned_refs m') = add_mset cb (mset (owned_refs m))"
proof -
  have "mua_register_tool name descr schema mut cb m = Some (Some (kErrorTypeValidation, ''tool schema must be a table''), m)
    \<or> (\<exists>node. mua_register_tool name descr schema mut cb m =
          (case tools_register (ms_tools m) name descr node mut cb of
             (err, tools) \<Rightarrow> Some (err, m\<lparr>ms_tools := tools\<rparr>)))"
    using assms by (cases schema) (auto simp: mua_register_tool_def Let_def object_to_cjson_eq)
  then show ?thesis
  proof
    assume "\<exists>node. mua_register_tool name descr schema mut cb m =
          (case tools_register (ms_tools m) name descr node mut cb of
             (err, tools) \<Rightarrow> Some (err, m\<lparr>ms_tools := tools\<rparr>))"
    then obtain node where node: "mua_register_tool name descr schema mut cb m =
        (case tools_register (ms_tools m) name descr node mut cb of
           (err, tools) \<Rightarrow> Some (err, m\<lparr>ms_tools := tools\<rparr>))"
      by blast
    obtain err tools where "tools_register (ms_tools m) name descr node mut cb = (err, tools)" by fastforce
    then have n: "mua_register_tool name descr schema mut cb m = Some (err, m\<lparr>ms_tools := tools\<rparr>)"
        "tools_register (ms_tools m) name descr node mut cb = (err, tools)"
      using node by simp_all
    from n(2) show ?thesis by (cases rule: tools_registerE) (use n(1) that in \<open>auto simp: owned_refs_def\<close>)
  qed (use that(1) in blast)
qed

lemma create_cases:
  obtains (refused) e i where "mua_create_autocmd event cb m = (Some e, i, m)"
  | (added) m' i where "mua_create_autocmd event cb m = (None, i, m')"
      "mset (owned_refs m') = add_mset cb (mset (owned_refs m))"
  by (cases "autocmd_event_from_name event")
    (force simp: mua_create_autocmd_def autocmd_create_def Let_def owned_refs_def split: if_splits prod.splits)+

definition fresh_refs :: "lua_lib \<Rightarrow> bool" where
  "fresh_refs lib \<longleftrightarrow> (\<forall>refs. finite (dom refs) \<longrightarrow> ll_ref lib refs \<notin> dom refs)"

lemma refs_owned_add:
  assumes "refs_owned w" "fresh_refs lib" "luaL_ref lib f w = (r, w')"
  shows "refs_owned (mua_lua_unref r (set_mua (lw_mua w) w'))" "lw_mua w' = lw_mua w"
    "mset (owned_refs m) = add_mset r (mset (owned_refs (lw_mua w))) \<Longrightarrow> refs_owned (set_mua m w')"
proof -
  have "finite (dom (lw_refs w))" using assms(1) by (simp add: refs_owned_def)
  then have "ll_ref lib (lw_refs w) \<notin> dom (lw_refs w)" using assms(2) by (simp add: fresh_refs_def)
  then have r: "r \<notin> set (owned_refs (lw_mua w))" "w' = w\<lparr>lw_refs := (lw_refs w)(r \<mapsto> f)\<rparr>"
    using assms(1,3) by (auto simp: luaL_ref_def Let_def refs_owned_def)
  then show "refs_owned (mua_lua_unref r (set_mua (lw_mua w) w'))" "lw_mua w' = lw_mua w"
    using assms(1) by (auto simp: refs_owned_def mua_lua_unref_def set_mua_def)
  assume m: "mset (owned_refs m) = add_mset r (mset (owned_refs (lw_mua w)))"
  then have "mset (owned_refs m) = mset (r # owned_refs (lw_mua w))" by simp
  from mset_eq_imp_distinct_iff [OF this] mset_eq_setD [OF this]
  show "refs_owned (set_mua m w')" using assms(1) r by (simp add: refs_owned_def set_mua_def)
qed

lemma unref_all:
  "lw_refs (fold mua_lua_unref rs w) = (lw_refs w) |` (- set rs) \<and> lw_mua (fold mua_lua_unref rs w) = lw_mua w"
  by (induction rs arbitrary: w) (auto simp: mua_lua_unref_def restrict_map_def fun_eq_iff)

lemma register_keeps_refs:
  assumes "refs_owned w" "fresh_refs lib"
  shows "\<exists>r w'. l_mua_register_tool lib args w = Some (r, w') \<and> refs_owned w'"
proof -
  let ?descr = "if lua_arg args 2 = LuaNil then Some [] else lua_tolstring lib (lua_arg args 2)"
  let ?mut = "if lua_arg args 4 = LuaNil then True else lua_toboolean (lua_arg args 4)"
  show ?thesis
  proof (cases "lua_tolstring lib (lua_arg args 1) = None \<or> ?descr = None \<or> (\<forall>f. lua_arg args 5 \<noteq> LuaFunction f)")
    case True
    then consider "lua_tolstring lib (lua_arg args 1) = None"
      | name where "lua_tolstring lib (lua_arg args 1) = Some name" "?descr = None"
      | name d where "lua_tolstring lib (lua_arg args 1) = Some name" "?descr = Some d"
          "\<forall>f. lua_arg args 5 \<noteq> LuaFunction f"
      by (metis not_None_eq)
    then show ?thesis
    proof cases
      case (3 name d)
      then show ?thesis
        using assms(1) by (cases "lua_arg args 5") (simp_all add: l_mua_register_tool_def)
    qed (use assms(1) in \<open>simp_all add: l_mua_register_tool_def\<close>)
  next
    case False
    then obtain name descr f where a: "lua_tolstring lib (lua_arg args 1) = Some name" "?descr = Some descr"
        "lua_arg args 5 = LuaFunction f"
      by (metis not_None_eq)
    obtain r w1 where r: "luaL_ref lib f w = (r, w1)" by fastforce
    note add = refs_owned_add [OF assms r]
    show ?thesis
    proof (rule tool_schema_cases [of lib args w])
      fix x assume x: "tool_schema lib args w = Some (Inr x)" "obj_depth x \<le> kMarshalDepthCap"
      show ?thesis
        by (rule register_total [OF x(2), of "Some name" "Some descr" ?mut r "lw_mua w1"])
          (use a x r add in \<open>simp_all add: l_mua_register_tool_def set_mua_def\<close>)
    qed (use assms a r add in \<open>simp add: l_mua_register_tool_def\<close>)
  qed
qed

lemma create_keeps_refs:
  assumes "refs_owned w" "fresh_refs lib"
  shows "refs_owned (snd (l_mua_create_autocmd lib args w))"
proof (cases "lua_tolstring lib (lua_arg args 1) = None \<or> (\<forall>f. lua_arg args 2 \<noteq> LuaFunction f)")
  case True
  then show ?thesis
    using assms(1) by (auto simp: l_mua_create_autocmd_def split: option.split lua_value.split)
next
  case False
  then obtain event f where a: "lua_tolstring lib (lua_arg args 1) = Some event" "lua_arg args 2 = LuaFunction f"
    by auto
  obtain r w1 where r: "luaL_ref lib f w = (r, w1)" by fastforce
  show ?thesis
    by (rule create_cases [of "Some event" r "lw_mua w1"])
      (use a r refs_owned_add [OF assms r] in \<open>simp_all add: l_mua_create_autocmd_def set_mua_def\<close>)
qed

lemma clear_keeps_refs: "refs_owned w \<Longrightarrow> refs_owned (snd (l_mua_clear_autocmds w))"
  by (auto simp: refs_owned_def l_mua_clear_autocmds_def mua_clear_autocmds_def autocmd_clear_def unref_all
      set_mua_def owned_refs_def)

lemma bridge_step_keeps:
  "refs_owned w \<Longrightarrow> fresh_refs lib \<Longrightarrow> \<exists>w'. bridge_step lib op w = Some w' \<and> refs_owned w'"
  using register_keeps_refs [of w lib] create_keeps_refs [of w lib] clear_keeps_refs [of w]
  by (cases op) (force simp: refs_owned_def)+

lemma bridge_run_keeps:
  "refs_owned w \<Longrightarrow> fresh_refs lib \<Longrightarrow> \<exists>w'. bridge_run lib ops w = Some w' \<and> refs_owned w'"
proof (induction ops arbitrary: w)
  case (Cons op ops)
  then show ?case using bridge_step_keeps [of w lib op] by auto
qed simp

text \<open>Whatever Lua code registers, in whatever order, and whatever it does to its tables between:
  no assertion fails, the registry holds exactly the callbacks of the registered tools and of the
  autocmds, and no reference is held twice. A refused registration keeps no callback, and a clear
  releases the autocmds' callbacks and those alone.\<close>

theorem bridge_refs_owned:
  assumes "\<forall>refs. finite (dom refs) \<longrightarrow> ll_ref lib refs \<notin> dom refs" "lw_refs w = Map.empty"
    "ms_tools (lw_mua w) = []" "g_autocmds (ms_autocmds (lw_mua w)) = []"
  shows "\<exists>w'. bridge_run lib ops w = Some w' \<and> distinct (owned_refs (lw_mua w'))
    \<and> dom (lw_refs w') = set (owned_refs (lw_mua w'))"
  using bridge_run_keeps [of w lib ops] assms by (auto simp: refs_owned_def owned_refs_def fresh_refs_def)

section \<open>The ToolPre verdict\<close>

fun is_veto :: "pcall_result \<Rightarrow> bool" where
  "is_veto (PcallValue (LuaString s)) = True"
| "is_veto (PcallValue (LuaBool b)) = (\<not> b)"
| "is_veto _ = False"

definition is_approval :: "pcall_result \<Rightarrow> bool" where
  "is_approval r \<longleftrightarrow> r = PcallValue (LuaBool True)"

fun is_rewrite :: "pcall_result \<Rightarrow> bool" where
  "is_rewrite (PcallValue (LuaTable t)) = True"
| "is_rewrite _ = False"

fun chain_args :: "lua_lib \<Rightarrow> nat \<Rightarrow> pcall_result \<Rightarrow> lua_world \<Rightarrow> lua_world" where
  "chain_args lib t (PcallValue (LuaTable a)) w = lua_setfield lib t ''args'' (LuaTable a) w"
| "chain_args lib t _ w = w"

text \<open>The answers of the hooks in order, up to the first veto: an answer that is a table replaces the
  arguments the next hook sees.\<close>

fun hook_answers :: "lua_lib \<Rightarrow> nat \<Rightarrow> nat list \<Rightarrow> lua_world \<Rightarrow> pcall_result list \<times> lua_world" where
  "hook_answers lib t [] w = ([], w)"
| "hook_answers lib t (i # is) w =
     (case call_ref lib (hook_ref kAutocmdToolPre i w) (LuaTable t) w of
        (r, w) \<Rightarrow>
          if is_veto r then ([r], w)
          else (case hook_answers lib t is (chain_args lib t r w) of (rs, w) \<Rightarrow> (r # rs, w)))"

definition veto_reason :: "pcall_result list \<Rightarrow> string option" where
  "veto_reason rs = (case rev rs of PcallValue (LuaString s) # _ \<Rightarrow> Some (cstr s) | _ \<Rightarrow> None)"

lemma veto_reason_Cons [simp]: "rs \<noteq> [] \<Longrightarrow> veto_reason (r # rs) = veto_reason rs"
  by (cases rs rule: rev_cases) (simp_all add: veto_reason_def)

lemma tool_pre_hooks_vetoed: "tp_vetoed p \<Longrightarrow> tool_pre_hooks lib t is (p, w) = (p, w)"
  by (cases "is") simp_all

lemma tool_pre_hooks_answers:
  assumes "\<not> tp_vetoed p" "tp_reason p = None" "hook_answers lib t is w = (rs, w')"
  shows "tool_pre_hooks lib t is (p, w) =
    (\<lparr>tp_vetoed = list_ex is_veto rs, tp_reason = veto_reason rs,
      tp_rewritten = (tp_rewritten p \<or> list_ex is_rewrite rs),
      tp_approved = (tp_approved p \<or> list_ex is_approval rs)\<rparr>, w')"
  using assms
proof (induction "is" arbitrary: p w rs)
  case Nil
  then show ?case by (cases p) (simp add: veto_reason_def)
next
  case (Cons i "is")
  obtain r w1 where c: "call_ref lib (hook_ref kAutocmdToolPre i w) (LuaTable t) w = (r, w1)" by fastforce
  show ?case
  proof (cases "is_veto r")
    case True
    then show ?thesis
      using Cons.prems c
      by (cases r rule: is_veto.cases)
        (auto simp: tool_pre_return_def tool_pre_hooks_vetoed veto_reason_def is_approval_def xstrndup_def)
  next
    case False
    obtain rs' where rs': "hook_answers lib t is (chain_args lib t r w1) = (rs', w')" "rs = r # rs'"
      using Cons.prems(3) c False by (auto split: prod.splits)
    have no: "veto_reason (r # rs') = veto_reason rs'"
    proof (cases "rs' = []")
      case True
      then show ?thesis using False by (cases r rule: is_veto.cases) (auto simp: veto_reason_def)
    qed simp
    show ?thesis
      using Cons.prems(1,2) c False rs' no Cons.IH
      by (cases r rule: is_veto.cases) (auto simp: tool_pre_return_def is_approval_def)
  qed
qed

lemma hook_answers_veto_last: "hook_answers lib t is w = (rs, w') \<Longrightarrow> \<not> list_ex is_veto (butlast rs)"
  by (induction lib t "is" w arbitrary: rs w' rule: hook_answers.induct)
    (auto split: prod.splits if_splits)

lemma tool_pre_payload_total: "\<exists>t w'. tool_pre_payload lib name args w = Some (t, w')"
proof -
  obtain t w1 where "autocmd_payload lib ''ToolPre'' w = (t, w1)" by fastforce
  then show ?thesis
    by (rule_tac object_to_lua_returns [of lib args "lua_setfield lib t ''tool'' (LuaString name) w1"])
      (auto simp: tool_pre_payload_def Let_def)
qed

lemma capture_total:
  "\<exists>x w'. capture_tool_pre_args lib t w = Some (x, w') \<and> obj_depth x \<le> kMarshalDepthCap"
  by (rule lua_pop_object_returns
        [of lib "lw_tables w" "lw_top w + 1" "rawget (lw_tables w) t (LuaString ''args'')"])
    (auto simp: capture_tool_pre_args_def api_copy_object_eq)

lemma tool_pre_answers:
  assumes "0 < hook_count kAutocmdToolPre w" "lua_checkstack lib (lw_top w) 6"
  obtains t w1 rs w2 v w' where
    "tool_pre_payload lib name args w = Some (t, w1)"
    "hook_answers lib t [0..<hook_count kAutocmdToolPre w] w1 = (rs, w2)"
    "mua_lua_autocmd_tool_pre lib name args w = Some (v, w')"
    "tv_vetoed v \<longleftrightarrow> rs \<noteq> [] \<and> is_veto (last rs)" "\<not> list_ex is_veto (butlast rs)"
    "tv_approve v \<longleftrightarrow> PcallValue (LuaBool True) \<in> set rs \<and> \<not> tv_vetoed v"
    "tv_reason v = veto_reason rs" "tv_rewrite v \<noteq> ONil \<longrightarrow> list_ex is_rewrite rs \<and> \<not> tv_vetoed v"
    "obj_depth (tv_rewrite v) \<le> kMarshalDepthCap"
proof -
  obtain t w1 where t: "tool_pre_payload lib name args w = Some (t, w1)"
    using tool_pre_payload_total by blast
  obtain rs w2 where rs: "hook_answers lib t [0..<hook_count kAutocmdToolPre w] w1 = (rs, w2)" by fastforce
  obtain x w3 where x: "capture_tool_pre_args lib t w2 = Some (x, w3)" "obj_depth x \<le> kMarshalDepthCap"
    using capture_total by blast
  have last: "\<not> list_ex is_veto (butlast rs)" by (rule hook_answers_veto_last [OF rs])
  then have veto: "list_ex is_veto rs \<longleftrightarrow> rs \<noteq> [] \<and> is_veto (last rs)"
    by (cases rs rule: rev_cases) simp_all
  have approve: "list_ex is_approval rs \<longleftrightarrow> PcallValue (LuaBool True) \<in> set rs"
    by (auto simp: list_ex_iff is_approval_def)
  let ?keep = "\<not> list_ex is_veto rs \<and> list_ex is_rewrite rs"
  have verdict: "mua_lua_autocmd_tool_pre lib name args w =
    Some (\<lparr>tv_vetoed = list_ex is_veto rs, tv_reason = veto_reason rs, tv_rewrite = (if ?keep then x else ONil),
           tv_approve = (list_ex is_approval rs \<and> \<not> list_ex is_veto rs)\<rparr>,
          if ?keep then set_top (lw_top w3 - 1) w3 else set_top (lw_top w2 - 1) w2)"
    using assms t x
    by (simp add: mua_lua_autocmd_tool_pre_def Let_def tool_pre_hooks_answers [OF _ _ rs])
  show ?thesis
    by (rule that, rule t, rule rs, rule verdict) (use last veto approve x(2) in auto)
qed

text \<open>The verdict of the ToolPre hooks, each of which answers in turn until one vetoes: a veto (a
  string or \<open>false\<close>) refuses the call even when an earlier hook approved it, its string is the
  reason, no later hook runs and no rewrite is kept; a hook that raises counts as none. The call is
  approved when a hook answered \<open>true\<close> and none vetoed. The verdict is always given.\<close>

theorem tool_pre_verdict:
  assumes "0 < hook_count kAutocmdToolPre w" "lua_checkstack lib (lw_top w) 6"
  shows "\<exists>t w1 rs w2 v w'.
    tool_pre_payload lib name args w = Some (t, w1)
    \<and> hook_answers lib t [0..<hook_count kAutocmdToolPre w] w1 = (rs, w2)
    \<and> mua_lua_autocmd_tool_pre lib name args w = Some (v, w')
    \<and> (tv_vetoed v \<longleftrightarrow> rs \<noteq> [] \<and> is_veto (last rs)) \<and> \<not> list_ex is_veto (butlast rs)
    \<and> (tv_approve v \<longleftrightarrow> PcallValue (LuaBool True) \<in> set rs \<and> \<not> tv_vetoed v)
    \<and> tv_reason v = veto_reason rs
    \<and> (tv_rewrite v \<noteq> ONil \<longrightarrow> list_ex is_rewrite rs \<and> \<not> tv_vetoed v)"
  by (rule tool_pre_answers [OF assms, of name args]) blast

section \<open>Witnesses\<close>

definition bridge_world :: "autocmd_entry list \<Rightarrow> (lua_ref \<rightharpoonup> nat) \<Rightarrow> (nat \<Rightarrow> lua_entries) \<Rightarrow> lua_world" where
  "bridge_world hooks refs tables =
     \<lparr>lw_tables = tables, lw_free = 2, lw_top = 0, lw_refs = refs,
      lw_mua = \<lparr>ms_options = g_options_init, ms_vars = [], ms_tools = [],
        ms_autocmds = \<lparr>g_autocmds = hooks, g_next_id = 1 + int (length hooks)\<rparr>, ms_session = None\<rparr>\<rparr>"

text \<open>\<open>answers\<close> gives the value each function returns.\<close>

definition bridge_lib :: "nat \<Rightarrow> (nat \<Rightarrow> lua_value) \<Rightarrow> lua_lib" where
  "bridge_lib limit answers =
     \<lparr>ll_number = (\<lambda>d. []), ll_max_stack = limit, ll_place = (\<lambda>es e. es @ [e]),
      ll_ref = (\<lambda>refs. Max (insert 0 (dom refs)) + 1), ll_call = (\<lambda>f v w. (PcallValue (answers f), w))\<rparr>"

definition inner_tables :: "nat \<Rightarrow> lua_entries" where
  "inner_tables t = (if t = 0 then [(LuaString ''a'', LuaTable 1)] else [(LuaString ''b'', LuaFunction 7)])"

theorem tool_calls_exhaust_stack_witness:
  "\<exists>w'. tool_calls (bridge_lib 8 (\<lambda>f. LuaTable 0)) 1 (ODict []) 4
      (bridge_world [] [1 \<mapsto> 5] inner_tables) = Some w' \<and>
    (\<forall>r args. mua_lua_tool_invoke (bridge_lib 8 (\<lambda>f. LuaTable 0)) r args w' =
       Some (OString (Some ''lua stack exhausted writing a value''), True, w')) \<and>
    (\<forall>name args. mua_lua_autocmd_tool_pre (bridge_lib 8 (\<lambda>f. LuaTable 0)) name args w' = Some (tool_pre_none, w'))"
  by (rule tool_calls_exhaust_stack [where t = 0 and c = 1])
    (simp_all add: returns_function_inside_def bridge_lib_def bridge_world_def inner_tables_def)

lemma bridge_lib_fresh: "finite (dom refs) \<Longrightarrow> ll_ref (bridge_lib limit answers) refs \<notin> dom refs"
proof
  assume "finite (dom refs)" and "ll_ref (bridge_lib limit answers) refs \<in> dom refs"
  then show False using Max_ge [of "insert 0 (dom refs)" "ll_ref (bridge_lib limit answers) refs"]
    by (simp add: bridge_lib_def)
qed

theorem bridge_refs_owned_witness:
  "\<exists>w'. bridge_run (bridge_lib 100 (\<lambda>f. LuaNil))
      [CreateAutocmd [LuaString ''ToolPre'', LuaFunction 3],
       RegisterTool [LuaString ''t'', LuaNil, LuaNil, LuaNil, LuaFunction 4], ClearAutocmds]
      (bridge_world [] Map.empty (\<lambda>t. [])) = Some w' \<and> distinct (owned_refs (lw_mua w'))
    \<and> dom (lw_refs w') = set (owned_refs (lw_mua w'))"
  by (rule bridge_refs_owned) (use bridge_lib_fresh in \<open>simp_all add: bridge_world_def\<close>)

definition two_hooks :: lua_world where
  "two_hooks =
     bridge_world
       [\<lparr>ac_id = 1, ac_event = kAutocmdToolPre, ac_callback = 1\<rparr>, \<lparr>ac_id = 2, ac_event = kAutocmdToolPre, ac_callback = 2\<rparr>]
       [1 \<mapsto> 5, 2 \<mapsto> 6] (\<lambda>t. [])"

definition yes_then_no :: "nat \<Rightarrow> lua_value" where
  "yes_then_no f = (if f = 5 then LuaBool True else LuaString ''no'')"

theorem tool_pre_verdict_witness:
  "\<exists>t w1 rs w2 v w'.
    tool_pre_payload (bridge_lib 100 yes_then_no) ''bash'' (ODict []) two_hooks = Some (t, w1)
    \<and> hook_answers (bridge_lib 100 yes_then_no) t [0..<hook_count kAutocmdToolPre two_hooks] w1 = (rs, w2)
    \<and> mua_lua_autocmd_tool_pre (bridge_lib 100 yes_then_no) ''bash'' (ODict []) two_hooks = Some (v, w')
    \<and> (tv_vetoed v \<longleftrightarrow> rs \<noteq> [] \<and> is_veto (last rs)) \<and> \<not> list_ex is_veto (butlast rs)
    \<and> (tv_approve v \<longleftrightarrow> PcallValue (LuaBool True) \<in> set rs \<and> \<not> tv_vetoed v)
    \<and> tv_reason v = veto_reason rs
    \<and> (tv_rewrite v \<noteq> ONil \<longrightarrow> list_ex is_rewrite rs \<and> \<not> tv_vetoed v)"
  by (rule tool_pre_verdict)
    (simp_all add: two_hooks_def bridge_world_def hook_count_def autocmd_count_def lua_checkstack_def bridge_lib_def)

end
