(* ===== verification/Models.thy ===== *)
theory Models
  imports Provider
begin

text \<open>
  The model catalogue (\<open>provider/models.c\<close>): one fetch of the provider's list of models, cached for the
  process, from which the context window of a model is looked up. The HTTP client and the loop are given
  by the callbacks they make in each turn of the loop; the clean-up of the dedicated client is the list
  of callbacks it still makes. Log lines and the wiping of the key are not modelled.
\<close>

definition kModelsBodyCap :: nat where "kModelsBodyCap = 8 * 1024 * 1024"
definition kModelsMaxLoopTurns :: nat where "kModelsMaxLoopTurns = 100000"
definition kModelsCacheMax :: nat where "kModelsCacheMax = 4096"

section \<open>The cache\<close>

record catalog_entry =
  ce_id :: string
  ce_window :: int

record model_cache =
  g_catalog :: "catalog_entry list"
  g_catalog_fetched :: bool

definition models_cache_free :: "model_cache \<Rightarrow> model_cache" where
  "models_cache_free m = m\<lparr>g_catalog := [], g_catalog_fetched := False\<rparr>"

definition models_cache_init :: model_cache where
  "models_cache_init = \<lparr>g_catalog = [], g_catalog_fetched = False\<rparr>"

definition entry_window :: "cjson \<Rightarrow> int" where
  "entry_window m =
     (let top_ctx = (case json_get_obj m ''top_provider'' of
                       None \<Rightarrow> 0
                     | Some tp \<Rightarrow> (case json_get_int tp ''context_length'' of Some n \<Rightarrow> n | None \<Rightarrow> 0));
          own_ctx = (case json_get_int m ''context_length'' of Some n \<Rightarrow> n | None \<Rightarrow> 0)
      in if top_ctx > 0 then top_ctx else if own_ctx > 0 then own_ctx else 0)"

fun find_from :: "catalog_entry list \<Rightarrow> string \<Rightarrow> nat \<Rightarrow> nat option" where
  "find_from [] i n = None"
| "find_from (e # es) i n = (if ce_id e = i then Some n else find_from es i (n + 1))"

definition find_entry :: "model_cache \<Rightarrow> string \<Rightarrow> nat option" where
  "find_entry m i = find_from (g_catalog m) i 0"

fun add_entries :: "cjson list \<Rightarrow> catalog_entry list \<Rightarrow> catalog_entry list" where
  "add_entries [] es = es"
| "add_entries (m # ms) es =
     (if length es < kModelsCacheMax
      then (case json_get_cstr m ''id'' of
              None \<Rightarrow> add_entries ms es
            | Some i \<Rightarrow> add_entries ms (es @ [\<lparr>ce_id = i, ce_window = entry_window m\<rparr>]))
      else es)"

definition models_cache_populate :: "json_parser \<Rightarrow> mstring \<Rightarrow> model_cache \<Rightarrow> model_cache" where
  "models_cache_populate cparse body m =
     (let m = (models_cache_free m)\<lparr>g_catalog_fetched := True\<rparr> in
      case json_parse cparse body kModelsBodyCap of
        Inl e \<Rightarrow> m
      | Inr doc \<Rightarrow>
          (case json_get_arr doc ''data'' of
             None \<Rightarrow> m
           | Some entries \<Rightarrow> m\<lparr>g_catalog := add_entries entries []\<rparr>))"

definition models_cache_window :: "model_cache \<Rightarrow> string option \<Rightarrow> int" where
  "models_cache_window m model_id =
     (case model_id of
        None \<Rightarrow> 0
      | Some i \<Rightarrow> (case find_entry m i of Some n \<Rightarrow> ce_window (g_catalog m ! n) | None \<Rightarrow> 0))"

section \<open>The fetch\<close>

text \<open>The bytes of a buffer as a String: its data are \<open>NULL\<close> until the first allocation.\<close>

definition buf_string :: "buf \<Rightarrow> mstring" where
  "buf_string b = (if buf_cap b = 0 then None else Some (buf_data b))"

record models_fetch =
  mf_body :: buf
  mf_status :: int
  mf_done :: bool
  mf_ok :: bool

datatype fetch_event = FetchStatus int | FetchChunk string | FetchComplete bool int

definition models_on_status :: "int \<Rightarrow> models_fetch \<Rightarrow> models_fetch" where
  "models_on_status status f = f\<lparr>mf_status := status\<rparr>"

definition models_on_chunk :: "string \<Rightarrow> models_fetch \<Rightarrow> bool \<times> models_fetch" where
  "models_on_chunk bytes f =
     (case buf_append (mf_body f) bytes of
        None \<Rightarrow> (False, f)
      | Some body \<Rightarrow> (True, f\<lparr>mf_body := body\<rparr>))"

text \<open>\<open>curl_ok\<close> is \<open>result == CURLE_OK\<close>.\<close>

definition models_on_complete :: "bool \<Rightarrow> int \<Rightarrow> models_fetch \<Rightarrow> models_fetch" where
  "models_on_complete curl_ok http_status f =
     (let status = (if http_status \<noteq> 0 then http_status else mf_status f)
      in f\<lparr>mf_ok := curl_ok \<and> status = 200, mf_done := True\<rparr>)"

fun fetch_step :: "models_fetch \<Rightarrow> fetch_event \<Rightarrow> models_fetch" where
  "fetch_step f (FetchStatus status) = models_on_status status f"
| "fetch_step f (FetchChunk bytes) = snd (models_on_chunk bytes f)"
| "fetch_step f (FetchComplete curl_ok http_status) = models_on_complete curl_ok http_status f"

text \<open>
  \<open>me_turns\<close> gives, for each turn of the loop, the callbacks made in it and whether it left active
  handles; \<open>me_close\<close> the callbacks made by the close of the client.
\<close>

record models_env =
  me_agent_http :: bool
  me_client :: "error option"
  me_request :: "error option"
  me_turns :: "nat \<Rightarrow> fetch_event list \<times> bool"
  me_close :: "fetch_event list"

definition build_models_url :: "(string \<Rightarrow> string option) \<Rightarrow> string" where
  "build_models_url getenv =
     (let base = (case getenv ''OPENROUTER_BASE_URL'' of
                    None \<Rightarrow> MUA_OPENROUTER_BASE_URL
                  | Some b \<Rightarrow> if b = [] then MUA_OPENROUTER_BASE_URL else b)
      in take (trim_slashes base (length base)) base @ ''/models'')"

text \<open>The loop of at most \<open>n\<close> further turns, \<open>i\<close> done.\<close>

fun fetch_loop :: "(nat \<Rightarrow> fetch_event list \<times> bool) \<Rightarrow> nat \<Rightarrow> nat \<Rightarrow> models_fetch \<Rightarrow> models_fetch" where
  "fetch_loop turns i 0 f = f"
| "fetch_loop turns i (Suc n) f =
     (if mf_done f then f
      else (case turns i of
              (events, active) \<Rightarrow>
                let f = foldl fetch_step f events in
                if \<not> active \<and> \<not> mf_done f then f else fetch_loop turns (i + 1) n f))"

text \<open>The verdict, the body, and the request made: its URL and headers.\<close>

definition fetch_catalog_body ::
    "(string \<Rightarrow> string option) \<Rightarrow> models_env \<Rightarrow> string option \<Rightarrow> buf
      \<Rightarrow> bool \<times> buf \<times> (string \<times> string list) option" where
  "fetch_catalog_body getenv env api_key out =
     (if \<not> me_agent_http env \<or> api_key = None \<or> api_key = Some [] then (False, out, None)
      else if me_client env \<noteq> None then (False, out, None)
      else
        let f = \<lparr>mf_body = out, mf_status = 0, mf_done = False, mf_ok = False\<rparr>;
            auth = ''Authorization: Bearer '' @ the api_key;
            request = (build_models_url getenv, [auth, ''Accept: application/json'']);
            f = (if me_request env \<noteq> None then f else fetch_loop (me_turns env) 0 kModelsMaxLoopTurns f);
            f = foldl fetch_step f (me_close env)
        in (mf_ok f, mf_body f, Some request))"

definition resolve_model_id :: "string option \<Rightarrow> string" where
  "resolve_model_id model_id =
     (case model_id of None \<Rightarrow> MUA_DEFAULT_MODEL | Some i \<Rightarrow> if i = [] then MUA_DEFAULT_MODEL else i)"

text \<open>The window, the cache, and the request made, if any.\<close>

definition models_context_length ::
    "json_parser \<Rightarrow> (string \<Rightarrow> string option) \<Rightarrow> models_env \<Rightarrow> string option \<Rightarrow> string option \<Rightarrow> model_cache
      \<Rightarrow> int \<times> model_cache \<times> (string \<times> string list) option" where
  "models_context_length cparse getenv env model_id api_key m =
     (let i = resolve_model_id model_id in
      case find_entry m i of
        Some n \<Rightarrow> (ce_window (g_catalog m ! n), m, None)
      | None \<Rightarrow>
          if g_catalog_fetched m then (0, m, None)
          else
            (case fetch_catalog_body getenv env api_key (buf_init kModelsBodyCap) of
               (ok, body, request) \<Rightarrow>
                 let m = (if ok then models_cache_populate cparse (buf_string body) m else m) in
                 (case find_entry m i of
                    Some n \<Rightarrow> (ce_window (g_catalog m ! n), m, request)
                  | None \<Rightarrow> (0, m, request))))"

end
