(* ===== verification/ModelsProps.thy ===== *)
theory ModelsProps
  imports Models
begin

text \<open>
  Properties of the model catalogue: what a lookup answers as a function of the fetched document, and
  that a process fetches the catalogue successfully at most once.
\<close>

section \<open>The catalogue as a map\<close>

definition catalog_pairs :: "cjson list \<Rightarrow> (string \<times> int) list" where
  "catalog_pairs ms =
     concat (map (\<lambda>m. case json_get_cstr m ''id'' of None \<Rightarrow> [] | Some i \<Rightarrow> [(i, entry_window m)]) ms)"

definition entry_pair :: "catalog_entry \<Rightarrow> string \<times> int" where
  "entry_pair e = (ce_id e, ce_window e)"

lemma add_entries_pairs:
  "length es \<le> kModelsCacheMax \<Longrightarrow>
   map entry_pair (add_entries ms es) = take kModelsCacheMax (map entry_pair es @ catalog_pairs ms)"
proof (induction ms es rule: add_entries.induct)
  case (2 m ms es)
  then show ?case
    by (cases "length es < kModelsCacheMax")
      (auto simp: catalog_pairs_def entry_pair_def take_Cons' split: option.split)
qed (simp add: catalog_pairs_def)

definition cached :: "model_cache \<Rightarrow> (string \<times> int) list" where
  "cached m = map entry_pair (g_catalog m)"

lemma find_from_bounds: "find_from es i n = Some k \<Longrightarrow> n \<le> k"
  by (induction es arbitrary: n) (fastforce split: if_splits)+

lemma find_from_map:
  "map_of (map entry_pair es) i = map_option (\<lambda>k. ce_window (es ! (k - n))) (find_from es i n)"
proof (induction es arbitrary: n)
  case (Cons e es)
  show ?case
  proof (cases "find_from es i (n + 1)")
    case None
    then show ?thesis using Cons.IH [of "n + 1"] by (simp add: entry_pair_def)
  next
    case (Some a)
    then show ?thesis
      using Cons.IH [of "n + 1"] find_from_bounds [OF Some] by (auto simp: entry_pair_def nth_Cons')
  qed
qed simp

lemma find_entry_map: "map_of (cached m) i = map_option (\<lambda>k. ce_window (g_catalog m ! k)) (find_entry m i)"
  using find_from_map [of "g_catalog m" i 0] by (simp add: cached_def find_entry_def)

lemma find_entry_window:
  "(case find_entry m i of Some k \<Rightarrow> (ce_window (g_catalog m ! k), x) | None \<Rightarrow> y)
   = (case map_of (cached m) i of Some w \<Rightarrow> (w, x) | None \<Rightarrow> y)"
  by (simp add: find_entry_map split: option.split)

definition catalog_of :: "json_parser \<Rightarrow> mstring \<Rightarrow> (string \<times> int) list" where
  "catalog_of cparse body =
     (case json_parse cparse body kModelsBodyCap of
        Inl e \<Rightarrow> []
      | Inr doc \<Rightarrow> (case json_get_arr doc ''data'' of None \<Rightarrow> [] | Some ms \<Rightarrow> take kModelsCacheMax (catalog_pairs ms)))"

lemma populate_cached:
  "cached (models_cache_populate cparse body m) = catalog_of cparse body"
  "g_catalog_fetched (models_cache_populate cparse body m)"
  by (simp_all add: models_cache_populate_def models_cache_free_def Let_def cached_def catalog_of_def
      add_entries_pairs split: sum.split option.split)

lemma entry_window_nonneg: "0 \<le> entry_window m"
  by (simp add: entry_window_def Let_def)

lemma catalog_of_bounds: "length (catalog_of cparse body) \<le> kModelsCacheMax \<and> (\<forall>(i, w) \<in> set (catalog_of cparse body). 0 \<le> w)"
  by (auto simp: catalog_of_def catalog_pairs_def entry_window_nonneg dest!: in_set_takeD
      split: sum.splits option.splits)

section \<open>Runs of lookups\<close>

text \<open>The cache as its map and the flag; a cache not fetched is empty.\<close>

definition cache_ok :: "model_cache \<Rightarrow> bool" where
  "cache_ok m \<longleftrightarrow> (g_catalog_fetched m \<or> g_catalog m = [])
     \<and> length (cached m) \<le> kModelsCacheMax \<and> (\<forall>(i, w) \<in> set (cached m). 0 \<le> w)"

definition window_in :: "(string \<times> int) list \<Rightarrow> string option \<Rightarrow> int" where
  "window_in ps model_id = (case map_of ps (resolve_model_id model_id) of Some w \<Rightarrow> w | None \<Rightarrow> 0)"

lemma lookup_cases:
  assumes "cache_ok m" "models_context_length cparse getenv env model_id api_key m = (w, m', request)"
  obtains (hit) "g_catalog_fetched m" "m' = m" "request = None" "w = window_in (cached m) model_id"
  | (failed) "\<not> g_catalog_fetched m" "m' = m" "w = 0"
  | (fetched) body where "\<not> g_catalog_fetched m"
      "fetch_catalog_body getenv env api_key (buf_init kModelsBodyCap) = (True, body, request)"
      "g_catalog_fetched m'" "cached m' = catalog_of cparse (buf_string body)"
      "w = window_in (cached m') model_id"
proof (cases "g_catalog_fetched m")
  case True
  then show ?thesis
    using assms(2) hit by (auto simp: models_context_length_def Let_def find_entry_map window_in_def split: option.splits)
next
  case False
  then have "find_entry m (resolve_model_id model_id) = None"
    using assms(1) by (simp add: cache_ok_def find_entry_def)
  moreover obtain ok body r where f: "fetch_catalog_body getenv env api_key (buf_init kModelsBodyCap) = (ok, body, r)"
    by (metis prod_cases3)
  ultimately have l: "models_context_length cparse getenv env model_id api_key m =
    (let m1 = (if ok then models_cache_populate cparse (buf_string body) m else m) in
     case find_entry m1 (resolve_model_id model_id) of
       Some n \<Rightarrow> (ce_window (g_catalog m1 ! n), m1, r) | None \<Rightarrow> (0, m1, r))"
    and none: "find_entry m (resolve_model_id model_id) = None"
    using False by (simp_all add: models_context_length_def)
  show ?thesis
  proof (cases ok)
    case False
    then show ?thesis using l none assms(2) that(2) \<open>\<not> g_catalog_fetched m\<close> by (simp add: Let_def)
  next
    case True
    define m1 where "m1 = models_cache_populate cparse (buf_string body) m"
    have "m' = m1" "request = r" "w = window_in (cached m1) model_id"
      using l True assms(2)
      by (auto simp: Let_def m1_def [symmetric] window_in_def find_entry_map split: option.splits)
    then show ?thesis
      using that(3) [of body] f True \<open>\<not> g_catalog_fetched m\<close> populate_cached [of cparse "buf_string body" m]
      by (simp add: m1_def)
  qed
qed

lemma window_in_nonneg: "\<forall>(i, w) \<in> set ps. 0 \<le> w \<Longrightarrow> 0 \<le> window_in ps model_id"
  by (auto simp: window_in_def dest: map_of_SomeD split: option.split)

lemma lookup_keeps:
  assumes "cache_ok m" "models_context_length cparse getenv env model_id api_key m = (w, m', request)"
  shows "cache_ok m' \<and> 0 \<le> w"
proof (rule lookup_cases [OF assms])
  assume "m' = m" "w = window_in (cached m) model_id"
  then show ?thesis using assms(1) window_in_nonneg by (simp add: cache_ok_def)
next
  assume "m' = m" "w = 0"
  then show ?thesis using assms(1) by simp
next
  fix body
  assume c: "g_catalog_fetched m'" "cached m' = catalog_of cparse (buf_string body)" "w = window_in (cached m') model_id"
  then show ?thesis
    using catalog_of_bounds [of cparse "buf_string body"] window_in_nonneg [of "cached m'" model_id]
    by (simp add: cache_ok_def)
qed

text \<open>A run of lookups: the answers and the requests made.\<close>

fun lookups ::
    "json_parser \<Rightarrow> (string \<Rightarrow> string option) \<Rightarrow> (models_env \<times> string option \<times> string option) list \<Rightarrow> model_cache
      \<Rightarrow> (int \<times> bool) list \<times> model_cache" where
  "lookups cparse getenv [] m = ([], m)"
| "lookups cparse getenv ((env, model_id, api_key) # qs) m =
     (case models_context_length cparse getenv env model_id api_key m of
        (w, m', request) \<Rightarrow>
          (case lookups cparse getenv qs m' of (ws, m'') \<Rightarrow> ((w, request \<noteq> None) # ws, m'')))"

lemma lookups_cached:
  "cache_ok m \<Longrightarrow> g_catalog_fetched m \<Longrightarrow>
   lookups cparse getenv qs m = (map (\<lambda>(env, model_id, api_key). (window_in (cached m) model_id, False)) qs, m)"
proof (induction qs)
  case (Cons q qs)
  obtain env model_id api_key where q: "q = (env, model_id, api_key)" by (metis prod_cases3)
  obtain w m' r where l: "models_context_length cparse getenv env model_id api_key m = (w, m', r)"
    by (metis prod_cases3)
  show ?case by (rule lookup_cases [OF Cons.prems(1) l]) (use Cons q l in simp_all)
qed simp

text \<open>The lookups \<open>qs\<close> gave \<open>ws\<close>: 0 until one of them fetched a document, then its windows, with no
  further request.\<close>

definition fetched_run ::
    "json_parser \<Rightarrow> (string \<Rightarrow> string option) \<Rightarrow> (models_env \<times> string option \<times> string option) list
      \<Rightarrow> (int \<times> bool) list \<Rightarrow> model_cache \<Rightarrow> bool" where
  "fetched_run cparse getenv qs ws m \<longleftrightarrow>
     (\<exists>pre env model_id api_key body request post.
       qs = pre @ (env, model_id, api_key) # post
       \<and> fetch_catalog_body getenv env api_key (buf_init kModelsBodyCap) = (True, body, request)
       \<and> cached m = catalog_of cparse (buf_string body)
       \<and> map fst ws = replicate (length pre) 0
           @ map (\<lambda>(env, model_id, api_key). window_in (cached m) model_id) ((env, model_id, api_key) # post)
       \<and> (\<forall>(w, requested) \<in> set (drop (length pre + 1) ws). \<not> requested))"

lemma fetched_run_Cons:
  assumes "fetched_run cparse getenv qs ws m"
  shows "fetched_run cparse getenv (q # qs) ((0, r) # ws) m"
proof -
  from assms obtain pre env model_id api_key body request post where
    "qs = pre @ (env, model_id, api_key) # post"
    "fetch_catalog_body getenv env api_key (buf_init kModelsBodyCap) = (True, body, request)"
    "cached m = catalog_of cparse (buf_string body)"
    "map fst ws = replicate (length pre) 0
       @ map (\<lambda>(env, model_id, api_key). window_in (cached m) model_id) ((env, model_id, api_key) # post)"
    "\<forall>(w, requested) \<in> set (drop (length pre + 1) ws). \<not> requested"
    unfolding fetched_run_def by blast
  then show ?thesis
    unfolding fetched_run_def
    by (intro exI [of _ "q # pre"] exI [of _ env] exI [of _ model_id] exI [of _ api_key] exI [of _ body]
        exI [of _ request] exI [of _ post]) simp
qed

lemma fetched_run_now:
  assumes "fetch_catalog_body getenv env api_key (buf_init kModelsBodyCap) = (True, body, r)"
    "cached m = catalog_of cparse (buf_string body)"
  shows "fetched_run cparse getenv ((env, model_id, api_key) # qs)
    ((window_in (cached m) model_id, b) # map (\<lambda>(env, model_id, api_key). (window_in (cached m) model_id, False)) qs) m"
  unfolding fetched_run_def
  by (rule exI [of _ "[]"], intro exI [of _ env] exI [of _ model_id] exI [of _ api_key] exI [of _ body]
      exI [of _ r] exI [of _ qs]) (use assms in \<open>auto simp: comp_def split_beta\<close>)

lemma lookups_run:
  assumes m: "cache_ok m" "\<not> g_catalog_fetched m" and "lookups cparse getenv qs m = (ws, m')"
  shows "if g_catalog_fetched m' then fetched_run cparse getenv qs ws m' else map fst ws = replicate (length qs) 0"
  using assms(3)
proof (induction qs arbitrary: ws)
  case (Cons q qs)
  obtain env model_id api_key where q: "q = (env, model_id, api_key)" by (metis prod_cases3)
  obtain w m1 r where l: "models_context_length cparse getenv env model_id api_key m = (w, m1, r)"
    by (metis prod_cases3)
  show ?case
  proof (rule lookup_cases [OF m(1) l])
    assume f: "m1 = m" "w = 0"
    then obtain ws' where "ws = (0, r \<noteq> None) # ws'" "lookups cparse getenv qs m = (ws', m')"
      using Cons.prems l q by (auto split: prod.splits)
    then show ?thesis using Cons.IH [of ws'] fetched_run_Cons by auto
  next
    fix body
    assume c: "fetch_catalog_body getenv env api_key (buf_init kModelsBodyCap) = (True, body, r)"
      "g_catalog_fetched m1" "cached m1 = catalog_of cparse (buf_string body)" "w = window_in (cached m1) model_id"
    have "cache_ok m1" using lookup_keeps [OF m(1) l] by simp
    then show ?thesis
      using Cons.prems l q c fetched_run_now [OF c(1,3), where qs = qs and model_id = model_id and b = "r \<noteq> None"] lookups_cached [of m1 cparse getenv qs]
      by simp
  qed (use m in simp)
qed (use m in simp)

text \<open>C29. Every run of lookups, as a function of the responses: until a fetch succeeds each lookup answers
  0; from the first successful fetch on no request is made and each answer is the window that the
  fetched document gives the model (the default model when none is named): that of its first entry
  among the first \<open>kModelsCacheMax\<close> with an id, 0 when there is none.\<close>

theorem models_answers:
  "case lookups cparse getenv qs models_cache_init of (ws, m) \<Rightarrow>
     if g_catalog_fetched m then fetched_run cparse getenv qs ws m else map fst ws = replicate (length qs) 0"
proof -
  have "cache_ok models_cache_init" "\<not> g_catalog_fetched models_cache_init"
    by (simp_all add: cache_ok_def models_cache_init_def cached_def)
  from lookups_run [OF this] show ?thesis by (simp split: prod.split)
qed

end
