(* ===== verification/Loop.thy ===== *)
theory Loop
  imports Prelude
begin

text \<open>
  The event loop of the process (\<open>loop.c\<close>) and the log (\<open>log.c\<close>). libuv is the callbacks it runs in each
  of its turns; a handle is only counted, as open or as closing. An interrupt callback and its user data
  are a number.
\<close>

record loop_state =
  lo_initialized :: bool
  lo_sigint_count :: int
  lo_interrupt_cb :: "nat option"
  lo_interrupts :: "nat list"
  lo_stop :: bool
  lo_open :: nat
  lo_closing :: nat

definition uv_stop :: "loop_state \<Rightarrow> loop_state" where
  "uv_stop st = st\<lparr>lo_stop := True\<rparr>"

definition sigint_cb :: "loop_state \<Rightarrow> loop_state" where
  "sigint_cb st =
     (let st = st\<lparr>lo_sigint_count := lo_sigint_count st + 1\<rparr> in
      case lo_interrupt_cb st of
        Some cb \<Rightarrow>
          if lo_sigint_count st = 1 then st\<lparr>lo_interrupts := lo_interrupts st @ [cb]\<rparr> else uv_stop st
      | None \<Rightarrow> uv_stop st)"

text \<open>The outcomes of \<open>uv_loop_init\<close>, \<open>uv_signal_init\<close> and \<open>uv_signal_start\<close>; a failed init closes what it opened.\<close>

definition loop_init :: "bool \<times> bool \<times> bool \<Rightarrow> loop_state \<Rightarrow> bool \<times> loop_state" where
  "loop_init outcomes st =
     (case outcomes of
        (loop_ok, signal_ok, started) \<Rightarrow>
          if lo_initialized st then (True, st)
          else if \<not> loop_ok then (False, st)
          else if \<not> signal_ok then (False, st)
          else if \<not> started then (False, st)
          else (True, st\<lparr>lo_initialized := True, lo_sigint_count := 0, lo_interrupt_cb := None, lo_stop := False,
                        lo_open := 1, lo_closing := 0\<rparr>))"

text \<open>\<open>None\<close> is the failed assertion.\<close>

definition loop_get :: "loop_state \<Rightarrow> loop_state option" where
  "loop_get st = (if lo_initialized st then Some st else None)"

definition loop_set_interrupt_cb :: "nat option \<Rightarrow> loop_state \<Rightarrow> loop_state" where
  "loop_set_interrupt_cb cb st = st\<lparr>lo_interrupt_cb := cb, lo_sigint_count := 0\<rparr>"

text \<open>
  \<open>uv_run\<close>: it runs turns of callbacks until there is none left or the stop flag is set, which it checks
  between turns and clears at the end. What the other callbacks do is their own components' matter.
\<close>

datatype loop_event = LoopSigint | LoopOther

fun run_callback :: "loop_event \<Rightarrow> loop_state \<Rightarrow> loop_state" where
  "run_callback LoopSigint st = sigint_cb st"
| "run_callback LoopOther st = st"

fun run_turns :: "loop_event list list \<Rightarrow> loop_state \<Rightarrow> loop_event list list \<times> loop_state" where
  "run_turns [] st = ([], st)"
| "run_turns (t # ts) st = (if lo_stop st then (t # ts, st) else run_turns ts (fold run_callback t st))"

definition uv_run :: "loop_event list list \<Rightarrow> loop_state \<Rightarrow> loop_event list list \<times> loop_state" where
  "uv_run ts st = (case run_turns ts st of (rest, st) \<Rightarrow> (rest, st\<lparr>lo_stop := False\<rparr>))"

definition loop_run :: "loop_event list list \<Rightarrow> loop_state \<Rightarrow> loop_event list list \<times> loop_state" where
  "loop_run ts st = uv_run ts st"

definition loop_run_nowait :: "loop_event list \<Rightarrow> loop_state \<Rightarrow> loop_state" where
  "loop_run_nowait t st = snd (uv_run [t] st)"

definition loop_run_once :: "loop_event list \<Rightarrow> loop_state \<Rightarrow> loop_state" where
  "loop_run_once t st = snd (uv_run [t] st)"

definition loop_stop :: "loop_state \<Rightarrow> loop_state" where
  "loop_stop st = uv_stop st"

text \<open>
  The drain: a turn runs the callbacks of the closing handles, which may close \<open>k\<close> others. \<open>uv_loop_close\<close>
  is busy while any handle is left.
\<close>

definition close_turn :: "nat \<Rightarrow> loop_state \<Rightarrow> loop_state" where
  "close_turn k st = st\<lparr>lo_open := lo_open st - k, lo_closing := min k (lo_open st)\<rparr>"

fun close_passes :: "nat \<Rightarrow> nat list \<Rightarrow> loop_state \<Rightarrow> bool \<times> loop_state" where
  "close_passes 0 ks st = (False, st)"
| "close_passes (Suc n) ks st =
     (if lo_open st = 0 \<and> lo_closing st = 0 then (True, st)
      else case ks of [] \<Rightarrow> close_passes n [] (close_turn 0 st) | k # ks \<Rightarrow> close_passes n ks (close_turn k st))"

definition loop_close :: "nat list \<Rightarrow> loop_state \<Rightarrow> bool \<times> loop_state" where
  "loop_close ks st =
     (if \<not> lo_initialized st then (True, st)
      else case close_passes 16 ks (st\<lparr>lo_open := lo_open st - 1, lo_closing := lo_closing st + 1\<rparr>) of
             (ok, st) \<Rightarrow> (ok, st\<lparr>lo_initialized := False\<rparr>))"

section \<open>The log\<close>

datatype log_level = kLogDebug | kLogInfo | kLogWarn | kLogError

fun level_int :: "log_level \<Rightarrow> int" where
  "level_int kLogDebug = 0"
| "level_int kLogInfo = 1"
| "level_int kLogWarn = 2"
| "level_int kLogError = 3"

definition kLogOff :: int where "kLogOff = 4"

definition log_levels :: "(string \<times> int) list" where
  "log_levels = [(''debug'', 0), (''info'', 1), (''warn'', 2), (''error'', 3)]"

text \<open>The threshold, from the value of \<open>MUA_LOG\<close>.\<close>

definition log_init :: "string option \<Rightarrow> int" where
  "log_init env =
     (case env of
        None \<Rightarrow> kLogOff
      | Some v \<Rightarrow> (case map_of log_levels v of Some level \<Rightarrow> level | None \<Rightarrow> kLogOff))"

definition log_enabled :: "int \<Rightarrow> log_level \<Rightarrow> bool" where
  "log_enabled threshold level \<longleftrightarrow> threshold \<le> level_int level"

fun log_tag :: "log_level \<Rightarrow> string" where
  "log_tag kLogDebug = ''DBG''"
| "log_tag kLogInfo = ''INF''"
| "log_tag kLogWarn = ''WRN''"
| "log_tag kLogError = ''ERR''"

text \<open>What goes to standard error, \<open>message\<close> being the formatted text.\<close>

definition log_msg :: "int \<Rightarrow> log_level \<Rightarrow> string \<Rightarrow> string" where
  "log_msg threshold level message =
     (if \<not> log_enabled threshold level then []
      else ''mua: '' @ log_tag level @ '' '' @ message @ [CHR 0x0A])"

section \<open>Interrupts\<close>

definition sigints :: "loop_event list list \<Rightarrow> nat" where
  "sigints ts = count_list (concat ts) LoopSigint"

lemma sigints_simps [simp]:
  "sigints [] = 0" "sigints (t # ts) = count_list t LoopSigint + sigints ts"
  by (simp_all add: sigints_def)

text \<open>The loop with a callback registered, after \<open>n\<close> signals.\<close>

definition signalled :: "nat option \<Rightarrow> nat \<Rightarrow> loop_state \<Rightarrow> loop_state" where
  "signalled cb n st = st\<lparr>lo_interrupt_cb := cb, lo_sigint_count := int n,
     lo_interrupts := lo_interrupts st @ (case cb of Some f \<Rightarrow> if n = 0 then [] else [f] | None \<Rightarrow> []),
     lo_stop := lo_stop st \<or> n > (if cb = None then 0 else 1)\<rparr>"

lemma sigint_signalled: "sigint_cb (signalled cb n st) = signalled cb (n + 1) st"
  by (cases cb) (auto simp: sigint_cb_def signalled_def uv_stop_def)

lemma turn_signalled: "fold run_callback t (signalled cb n st) = signalled cb (n + count_list t LoopSigint) st"
proof (induction t arbitrary: n)
  case (Cons e t)
  then show ?case by (cases e) (simp_all add: sigint_signalled)
qed simp

lemma turns_signalled:
  assumes "run_turns ts (signalled cb n st) = (rest, st')" "\<not> lo_stop st"
  shows "\<exists>ran. ts = ran @ rest \<and> st' = signalled cb (n + sigints ran) st
    \<and> (rest \<noteq> [] \<longrightarrow> n + sigints ran > (if cb = None then 0 else 1))
    \<and> (ran \<noteq> [] \<longrightarrow> n + sigints (butlast ran) \<le> (if cb = None then 0 else 1))"
  using assms(1)
proof (induction ts arbitrary: n)
  case (Cons t ts)
  let ?limit = "if cb = None then 0 else 1 :: nat"
  show ?case
  proof (cases "n > ?limit")
    case True
    then have "lo_stop (signalled cb n st)" by (simp add: signalled_def)
    then show ?thesis using Cons.prems True by (intro exI [of _ "[]"]) auto
  next
    case False
    then have "\<not> lo_stop (signalled cb n st)" using assms(2) by (simp add: signalled_def)
    then have "run_turns ts (signalled cb (n + count_list t LoopSigint) st) = (rest, st')"
      using Cons.prems by (simp add: turn_signalled)
    from Cons.IH [OF this] obtain ran where "ts = ran @ rest"
        "st' = signalled cb (n + count_list t LoopSigint + sigints ran) st"
        "rest \<noteq> [] \<longrightarrow> n + count_list t LoopSigint + sigints ran > ?limit"
        "ran \<noteq> [] \<longrightarrow> n + count_list t LoopSigint + sigints (butlast ran) \<le> ?limit" by blast
    then show ?thesis using False by (intro exI [of _ "t # ran"]) (auto simp: add.assoc)
  qed
qed (auto intro: exI [of _ "[]"])

text \<open>Interrupts: after a callback is set, a run of the loop calls it at the first signal and for none of
  the later ones; the loop leaves turns undone only when it was told to by a second signal, or by the
  first with no callback, and then right after that turn; the next run is not affected.\<close>

theorem loop_interrupts:
  assumes "\<not> lo_stop st" "loop_run ts (loop_set_interrupt_cb cb st) = (rest, st')"
  shows "\<exists>ran. ts = ran @ rest \<and> \<not> lo_stop st'
    \<and> lo_interrupts st' = lo_interrupts st @ (case cb of Some f \<Rightarrow> if sigints ran = 0 then [] else [f] | None \<Rightarrow> [])
    \<and> (rest \<noteq> [] \<longrightarrow> sigints ran > (if cb = None then 0 else 1))
    \<and> (ran \<noteq> [] \<longrightarrow> sigints (butlast ran) \<le> (if cb = None then 0 else 1))"
proof -
  have "loop_set_interrupt_cb cb st = signalled cb 0 st"
    using assms(1) by (cases cb) (simp_all add: loop_set_interrupt_cb_def signalled_def)
  then obtain st1 where run: "run_turns ts (signalled cb 0 st) = (rest, st1)" "st' = st1\<lparr>lo_stop := False\<rparr>"
    using assms(2) by (auto simp: loop_run_def uv_run_def split: prod.splits)
  obtain ran where "ts = ran @ rest" "st1 = signalled cb (0 + sigints ran) st"
      "rest \<noteq> [] \<longrightarrow> 0 + sigints ran > (if cb = None then 0 else 1)"
      "ran \<noteq> [] \<longrightarrow> 0 + sigints (butlast ran) \<le> (if cb = None then 0 else 1)"
    using turns_signalled [OF run(1) assms(1)] by blast
  then show ?thesis using run(2) by (intro exI [of _ ran]) (simp add: signalled_def)
qed

definition loop_zero :: loop_state where
  "loop_zero = \<lparr>lo_initialized = False, lo_sigint_count = 0, lo_interrupt_cb = None, lo_interrupts = [], lo_stop = False,
     lo_open = 0, lo_closing = 0\<rparr>"

theorem loop_interrupts_witness:
  "\<exists>ran. [[LoopSigint], [LoopOther, LoopSigint], [LoopOther]] = ran @ [[LoopOther]]
    \<and> fst (loop_run [[LoopSigint], [LoopOther, LoopSigint], [LoopOther]] (loop_set_interrupt_cb (Some 7) loop_zero)) = [[LoopOther]]
    \<and> lo_interrupts (snd (loop_run [[LoopSigint], [LoopOther, LoopSigint], [LoopOther]] (loop_set_interrupt_cb (Some 7) loop_zero))) = [7]"
proof -
  let ?ts = "[[LoopSigint], [LoopOther, LoopSigint], [LoopOther]]"
  let ?run = "loop_run ?ts (loop_set_interrupt_cb (Some 7) loop_zero)"
  have run: "?run = ([[LoopOther]], snd ?run)"
    by (simp add: loop_zero_def loop_set_interrupt_cb_def loop_run_def uv_run_def sigint_cb_def uv_stop_def)
  have "\<not> lo_stop loop_zero" "lo_interrupts loop_zero = []" by (simp_all add: loop_zero_def)
  with loop_interrupts [OF this(1) run] obtain ran where "?ts = ran @ [[LoopOther]]"
      "lo_interrupts (snd ?run) = (if sigints ran = 0 then [] else [7])" "1 < sigints ran" by auto
  then show ?thesis using run by (metis fst_conv not_one_less_zero)
qed

section \<open>The end of the loop\<close>

lemma close_passes_drains:
  "fst (close_passes n ks st) \<longleftrightarrow>
     (if lo_closing st = 0 \<and> lo_open st = 0 then 0 < n
      else 1 < n \<and> lo_open st \<le> sum_list (take (n - 2) ks))"
proof (induction n arbitrary: ks st)
  case (Suc n)
  show ?case
  proof (cases "lo_open st = 0 \<and> lo_closing st = 0")
    case False
    show ?thesis
    proof (cases ks)
      case Nil
      then have pass: "close_passes (Suc n) ks st = close_passes n [] (close_turn 0 st)" using False by auto
      show ?thesis using Nil False unfolding pass Suc.IH by (auto simp: close_turn_def simp del: close_passes.simps)
    next
      case (Cons k ks')
      then have pass: "close_passes (Suc n) ks st = close_passes n ks' (close_turn k st)" using False by auto
      have "n = 0 \<or> n = 1 \<or> (\<exists>m. n = Suc (Suc m))" by (cases n; cases "n - 1") auto
      then show ?thesis using Cons False unfolding pass Suc.IH by (auto simp: close_turn_def simp del: close_passes.simps)
    qed
  qed simp
qed simp

lemma close_passes_frame: "lo_initialized (snd (close_passes n ks st)) = lo_initialized st"
proof (induction n arbitrary: ks st)
  case (Suc n)
  then show ?case by (cases ks) (simp_all add: close_turn_def)
qed simp

text \<open>The teardown of the loop never hangs and says the truth: it succeeds exactly when all handles but its
  own are closed, directly or in a chain of close callbacks, within fourteen turns; whatever the outcome,
  the loop can be initialised again.\<close>

theorem loop_close_bounded:
  assumes "lo_initialized st"
  shows "(fst (loop_close ks st) \<longleftrightarrow> lo_open st - 1 \<le> sum_list (take 14 ks)) \<and> \<not> lo_initialized (snd (loop_close ks st))"
proof -
  let ?st = "st\<lparr>lo_open := lo_open st - 1, lo_closing := lo_closing st + 1\<rparr>"
  have "fst (close_passes 16 ks ?st) \<longleftrightarrow> lo_open st - 1 \<le> sum_list (take 14 ks)"
    unfolding close_passes_drains by simp
  then show ?thesis using assms unfolding loop_close_def by (auto split: prod.split)
qed

theorem loop_close_bounded_witness:
  "fst (loop_close [1, 2] (loop_zero\<lparr>lo_initialized := True, lo_open := 4\<rparr>))
    \<and> \<not> fst (loop_close [1, 1] (loop_zero\<lparr>lo_initialized := True, lo_open := 4\<rparr>))"
  using loop_close_bounded [of "loop_zero\<lparr>lo_initialized := True, lo_open := 4\<rparr>"] by simp

end
