(* ===== verification/Frontend.thy ===== *)
theory Frontend
  imports Bridge Render Models Agent Rpc Loop
begin

text \<open>
  The command line front end (\<open>main.c\<close>): arguments, the callbacks of a turn and its exit code, the gate
  that the ToolPre hooks compose with, the read-eval loop, and start and teardown of a run. Standard
  output is what was written to it, given which writes succeed; the bytes of a write that fails are not
  counted. Standard error is a list of lines. A turn runs the model of \<open>agent.c\<close> under the loop of
  \<open>loop.c\<close>, on the callbacks and signals its script gives; the gate of the turn is the composed one, on the
  Lua world and the standard input that the script says it meets.
\<close>

definition kExitOk :: int where "kExitOk = 0"
definition kExitFailure :: int where "kExitFailure = 1"
definition kExitUsage :: int where "kExitUsage = 64"
definition kExitInterrupted :: int where "kExitInterrupted = 130"

definition kReplLine :: nat where "kReplLine = 8192"
definition kReplDrainMax :: nat where "kReplDrainMax = 2 ^ 20"
definition kToolArgPreview :: nat where "kToolArgPreview = 120"
definition kRenderOutMax :: nat where "kRenderOutMax = 2 ^ 22"

section \<open>Arguments\<close>

record mua_args =
  ma_version :: bool
  ma_help :: bool
  ma_yes :: bool
  ma_resume :: bool
  ma_embed :: bool
  ma_prompt :: "string option"
  ma_model :: "string option"

definition mua_args_zero :: mua_args where
  "mua_args_zero = \<lparr>ma_version = False, ma_help = False, ma_yes = False, ma_resume = False, ma_embed = False,
     ma_prompt = None, ma_model = None\<rparr>"

definition missing_argument :: "string \<Rightarrow> string" where
  "missing_argument arg = ''mua: missing argument for '' @ arg"

text \<open>The loop over \<open>argv\<close>: a line for standard error, or the arguments.\<close>

fun parse_loop :: "string list \<Rightarrow> mua_args \<Rightarrow> string + mua_args" where
  "parse_loop [] out = Inr out"
| "parse_loop (arg # rest) out =
     (if arg = ''--version'' then parse_loop rest (out\<lparr>ma_version := True\<rparr>)
      else if arg = ''-h'' \<or> arg = ''--help'' then parse_loop rest (out\<lparr>ma_help := True\<rparr>)
      else if arg = ''-y'' \<or> arg = ''--yes'' then parse_loop rest (out\<lparr>ma_yes := True\<rparr>)
      else if arg = ''-r'' \<or> arg = ''--resume'' then parse_loop rest (out\<lparr>ma_resume := True\<rparr>)
      else if arg = ''--embed'' then parse_loop rest (out\<lparr>ma_embed := True\<rparr>)
      else if arg = ''-p'' \<or> arg = ''--prompt''
      then (case rest of
              [] \<Rightarrow> Inl (missing_argument arg)
            | v # rest \<Rightarrow> parse_loop rest (out\<lparr>ma_prompt := Some v\<rparr>))
      else if arg = ''-m'' \<or> arg = ''--model''
      then (case rest of
              [] \<Rightarrow> Inl (missing_argument arg)
            | v # rest \<Rightarrow> parse_loop rest (out\<lparr>ma_model := Some v\<rparr>))
      else Inl (''mua: unknown argument: '' @ arg))"

definition parse_args :: "string list \<Rightarrow> string + mua_args" where
  "parse_args argv = parse_loop (drop 1 argv) mua_args_zero"

section \<open>The callbacks of a turn\<close>

datatype gate_policy = ApproveAll | AutoRefuse | Interactive

text \<open>
  \<open>tc_live\<close> is \<open>turn != NULL\<close>, \<open>tc_outcome\<close> is \<open>None\<close> for \<open>kOutcomeUnset\<close>. \<open>tc_stdout_ok\<close> says which
  writes succeed, by their number; \<open>tc_shown\<close> and \<open>tc_lines\<close> are what was written; \<open>tc_cancels\<close> counts the
  calls of \<open>agent_turn_cancel\<close>.
\<close>

record turn_ctx =
  tc_live :: bool
  tc_outcome :: "turn_outcome option"
  tc_wrote_any :: bool
  tc_last_was_newline :: bool
  tc_failed_write :: bool
  tc_base_gate :: gate_policy
  tc_render_on :: bool
  tc_rndr :: renderer
  tc_out :: buf
  tc_stdout_ok :: "nat \<Rightarrow> bool"
  tc_writes :: nat
  tc_shown :: string
  tc_lines :: "string list"
  tc_cancels :: nat

definition stdout_write :: "string \<Rightarrow> turn_ctx \<Rightarrow> bool \<times> turn_ctx" where
  "stdout_write bytes ctx =
     (if tc_stdout_ok ctx (tc_writes ctx)
      then (True, ctx\<lparr>tc_writes := tc_writes ctx + 1, tc_shown := tc_shown ctx @ bytes\<rparr>)
      else (False, ctx\<lparr>tc_writes := tc_writes ctx + 1\<rparr>))"

definition stderr_line :: "string \<Rightarrow> turn_ctx \<Rightarrow> turn_ctx" where
  "stderr_line s ctx = ctx\<lparr>tc_lines := tc_lines ctx @ [s]\<rparr>"

definition drain_out :: "turn_ctx \<Rightarrow> bool \<times> turn_ctx" where
  "drain_out ctx =
     (if buf_size (tc_out ctx) = 0 then (True, ctx)
      else (case stdout_write (buf_data (tc_out ctx)) ctx of
              (False, ctx) \<Rightarrow> (False, ctx)
            | (True, ctx) \<Rightarrow> (True, ctx\<lparr>tc_wrote_any := True, tc_out := buf_reset (tc_out ctx)\<rparr>)))"

definition write_failed :: "turn_ctx \<Rightarrow> turn_ctx" where
  "write_failed ctx = ctx\<lparr>tc_failed_write := True, tc_cancels := tc_cancels ctx + 1\<rparr>"

text \<open>The text shown, styled or raw; \<open>False\<close> when the turn was canceled instead.\<close>

definition show_text :: "string \<Rightarrow> turn_ctx \<Rightarrow> bool \<times> turn_ctx" where
  "show_text text ctx =
     (if tc_render_on ctx
      then (case render_feed (tc_rndr ctx) text (tc_out ctx) of
              (fed, rndr, out) \<Rightarrow>
                (case (if fed then drain_out (ctx\<lparr>tc_rndr := rndr, tc_out := out\<rparr>)
                       else (False, ctx\<lparr>tc_rndr := rndr, tc_out := out\<rparr>)) of
                   (False, ctx) \<Rightarrow> (False, write_failed ctx)
                 | (True, ctx) \<Rightarrow> (True, ctx)))
      else (case stdout_write text ctx of
              (False, ctx) \<Rightarrow> (False, write_failed ctx)
            | (True, ctx) \<Rightarrow> (True, ctx\<lparr>tc_wrote_any := True, tc_last_was_newline := (last text = LF)\<rparr>)))"

definition on_text :: "lua_lib \<Rightarrow> string \<Rightarrow> turn_ctx \<times> lua_world \<Rightarrow> turn_ctx \<times> lua_world" where
  "on_text lib text cw =
     (case cw of (ctx, w) \<Rightarrow>
        if tc_failed_write ctx \<or> text = [] then (ctx, w)
        else (case show_text text ctx of
                (False, ctx) \<Rightarrow> (ctx, w)
              | (True, ctx) \<Rightarrow> (ctx, mua_lua_autocmd_stream_delta lib text w)))"

definition on_tool_start :: "(cjson \<Rightarrow> string) \<Rightarrow> string \<Rightarrow> cjson \<Rightarrow> turn_ctx \<Rightarrow> turn_ctx" where
  "on_tool_start cprint name args ctx =
     (let preview = str_bytes (json_print cprint args) in
      stderr_line (''mua: -> '' @ name @ '' '' @ take kToolArgPreview preview
        @ (if length preview > kToolArgPreview then ''...'' else [])) ctx)"

definition on_tool_result :: "lua_lib \<Rightarrow> string \<Rightarrow> tool_result \<Rightarrow> turn_ctx \<times> lua_world \<Rightarrow> turn_ctx \<times> lua_world" where
  "on_tool_result lib name result cw =
     (case cw of (ctx, w) \<Rightarrow>
        (stderr_line (''mua: <- '' @ name @ '': '' @ (if tr_is_error result then ''error'' else ''ok'')) ctx,
         mua_lua_autocmd_tool_post lib name (tr_is_error result) (tr_content result) w))"

definition on_notice :: "string \<Rightarrow> turn_ctx \<Rightarrow> turn_ctx" where
  "on_notice msg ctx = stderr_line (''mua: '' @ msg) ctx"

definition outcome_line :: "turn_outcome \<Rightarrow> error option \<Rightarrow> string option" where
  "outcome_line outcome err =
     (case outcome of
        kTurnDone \<Rightarrow> None
      | kTurnFailed \<Rightarrow> Some (''mua: '' @ (case err of Some e \<Rightarrow> snd e | None \<Rightarrow> ''failed''))
      | kTurnStepCap \<Rightarrow> Some ''mua: step cap reached''
      | kTurnContextLimit \<Rightarrow> Some ''mua: context window budget reached''
      | kTurnInterrupted \<Rightarrow> Some ''mua: interrupted'')"

definition flush_pending :: "turn_ctx \<Rightarrow> turn_ctx" where
  "flush_pending ctx =
     (if tc_render_on ctx \<and> \<not> tc_failed_write ctx
      then (case render_flush (tc_rndr ctx) (tc_out ctx) of
              (flushed, rndr, out) \<Rightarrow>
                (case (if flushed then drain_out (ctx\<lparr>tc_rndr := rndr, tc_out := out\<rparr>)
                       else (False, ctx\<lparr>tc_rndr := rndr, tc_out := out\<rparr>)) of
                   (ok, ctx) \<Rightarrow> if ok then ctx else ctx\<lparr>tc_failed_write := True\<rparr>))
      else ctx)"

definition on_finish :: "turn_outcome \<Rightarrow> error option \<Rightarrow> turn_ctx \<Rightarrow> turn_ctx" where
  "on_finish outcome err ctx =
     (let ctx = flush_pending (ctx\<lparr>tc_outcome := Some outcome\<rparr>);
          ended = (if tc_render_on ctx then rn_ended_newline (tc_rndr ctx) else tc_last_was_newline ctx);
          ctx = (if outcome = kTurnDone \<and> tc_wrote_any ctx \<and> \<not> ended \<and> \<not> tc_failed_write ctx
                 then snd (stdout_write [LF] ctx) else ctx);
          ctx = (if \<not> tc_failed_write ctx
                 then (case outcome_line outcome err of Some s \<Rightarrow> stderr_line s ctx | None \<Rightarrow> ctx) else ctx)
      in ctx\<lparr>tc_live := False\<rparr>)"

text \<open>The callback that an output of the turn stands for.\<close>

fun turn_callback ::
    "lua_lib \<Rightarrow> (cjson \<Rightarrow> string) \<Rightarrow> agent_output \<Rightarrow> turn_ctx \<times> lua_world \<Rightarrow> turn_ctx \<times> lua_world" where
  "turn_callback lib cprint (AText text) cw = on_text lib text cw"
| "turn_callback lib cprint (AToolStart name args) cw = apfst (on_tool_start cprint name args) cw"
| "turn_callback lib cprint (AToolResult name result) cw = on_tool_result lib name result cw"
| "turn_callback lib cprint (ANotice msg) cw = apfst (on_notice msg) cw"
| "turn_callback lib cprint (AFinish outcome err) cw = apfst (on_finish outcome err) cw"
| "turn_callback lib cprint (AWarn msg) cw = cw"

section \<open>The session of a run\<close>

text \<open>What the session store meets: the environment, the clock, the file system; the writes of a repair.\<close>

record session_world =
  sw_env :: os_env
  sw_now :: "(string \<times> int) option"
  sw_opens :: "string \<Rightarrow> errno option"
  sw_writes :: write_oracle
  sw_entries :: "errno + (string list \<times> errno option)"
  sw_files :: "string \<Rightarrow> file_env"
  sw_repair :: "nat \<Rightarrow> write_oracle"

definition strstr :: "string \<Rightarrow> string \<Rightarrow> bool" where
  "strstr hay needle \<longleftrightarrow> list_ex (\<lambda>k. take (length needle) (drop k hay) = needle) [0..<length hay + 1]"

definition fresh_session :: "agent_lib \<Rightarrow> session_world \<Rightarrow> error + session_state" where
  "fresh_session alib sw = session_new (al_cprint alib) (sw_env sw) (sw_now sw) (sw_opens sw) (sw_writes sw)"

definition setup_session :: "agent_lib \<Rightarrow> session_world \<Rightarrow> bool \<Rightarrow> error + session_state" where
  "setup_session alib sw resume =
     (if \<not> resume then fresh_session alib sw
      else (case session_load_latest (al_cparse alib) (sw_env sw) (sw_entries sw) (sw_files sw) of
              Inl e \<Rightarrow> if strstr (snd e) ''no sessions to resume'' then fresh_session alib sw else Inl e
            | Inr sess \<Rightarrow>
                (case agent_repair_session alib (sw_repair sw) sess of
                   (Some e, sess) \<Rightarrow> Inl e
                 | (None, sess) \<Rightarrow> Inr sess)))"

section \<open>The composed gate\<close>

text \<open>
  The decision, the rewritten arguments and the refusal. \<open>base\<close> is the chosen policy, which rewrites
  nothing. A rewrite that is not a JSON object is dropped. The outer \<open>None\<close> is a failed assertion.
\<close>

definition gate_rewrite :: "object \<Rightarrow> cjson option option" where
  "gate_rewrite rewrite =
     (if rewrite = ONil then Some None
      else (case object_to_cjson (Some rewrite) of
              None \<Rightarrow> None
            | Some (CObject kvs) \<Rightarrow> Some (Some (CObject kvs))
            | Some _ \<Rightarrow> Some None))"

definition gate_with_autocmds ::
    "lua_lib \<Rightarrow> (tool_def \<Rightarrow> cjson \<Rightarrow> gate_decision \<times> string option) \<Rightarrow> tool_def \<Rightarrow> cjson \<Rightarrow> lua_world
      \<Rightarrow> ((gate_decision \<times> cjson option \<times> string option) \<times> lua_world) option" where
  "gate_with_autocmds lib base tool args w =
     (let ask = (\<lambda>rewrite. case base tool (case rewrite of Some a \<Rightarrow> a | None \<Rightarrow> args) of
                             (decision, refusal) \<Rightarrow> (decision, rewrite, refusal)) in
      if autocmd_count (ms_autocmds (lw_mua w)) kAutocmdToolPre = 0 then Some (ask None, w)
      else (case cjson_to_object args of
              None \<Rightarrow> None
            | Some (Inl e) \<Rightarrow> Some (ask None, w)
            | Some (Inr obj) \<Rightarrow>
                (case mua_lua_autocmd_tool_pre lib (td_name tool) obj w of
                   None \<Rightarrow> None
                 | Some (v, w) \<Rightarrow>
                     if tv_vetoed v
                     then Some ((kGateRefuse, None,
                                 Some (case tv_reason v of Some r \<Rightarrow> r | None \<Rightarrow> ''vetoed by a ToolPre hook'')), w)
                     else (case gate_rewrite (tv_rewrite v) of
                             None \<Rightarrow> None
                           | Some rewrite \<Rightarrow>
                               if tv_approve v then Some ((kGateApprove, rewrite, None), w)
                               else Some (ask rewrite, w)))))"

text \<open>The policy function of an \<open>AgentGateFn\<close>; \<open>prompt\<close> is whether a signal interrupts the read, and the input.\<close>

definition base_gate ::
    "(cjson \<Rightarrow> string) \<Rightarrow> gate_policy \<Rightarrow> bool \<times> string \<Rightarrow> tool_def \<Rightarrow> cjson \<Rightarrow> gate_decision \<times> string option" where
  "base_gate cprint gate prompt tool args =
     (case gate of
        ApproveAll \<Rightarrow> agent_gate_approve_all tool args
      | AutoRefuse \<Rightarrow> agent_gate_auto_refuse tool args
      | Interactive \<Rightarrow>
          (case agent_gate_interactive cprint (fst prompt) (snd prompt) tool args of (decision, refusal, _) \<Rightarrow> (decision, refusal)))"

section \<open>One turn\<close>

text \<open>
  What the loop runs: a callback of the turn with the environment it meets, a SIGINT with the environment
  that a cancel meets and whether a timer started by it starts, and the look at the stop flag between
  two turns of the loop.
\<close>

datatype loop_entry = Fires agent_env agent_event | Sigint agent_env bool | Poll

text \<open>
  A script of a turn: whether standard output is a terminal, which writes to it succeed, the writes of
  the user message and the two timer calls of the start, the signals that wait when it starts, and what
  the loop then runs. For the \<open>k\<close>th entry: what Lua code does to its world, and for the gate of the call
  with an index, what Lua code has done by then and the standard input.
\<close>

record turn_script =
  sc_tty :: bool
  sc_stdout_ok :: "nat \<Rightarrow> bool"
  sc_writes :: write_oracle
  sc_timers :: "bool \<times> bool"
  sc_pending :: "loop_event list"
  sc_events :: "loop_entry list"
  sc_lua :: "nat \<Rightarrow> lua_world \<Rightarrow> lua_world"
  sc_meets :: "nat \<Rightarrow> nat \<Rightarrow> lua_world \<Rightarrow> lua_world"
  sc_prompts :: "nat \<Rightarrow> nat \<Rightarrow> bool \<times> string"
  sc_input :: nat

definition turn_ctx_init :: "gate_policy \<Rightarrow> bool \<Rightarrow> (nat \<Rightarrow> bool) \<Rightarrow> turn_ctx" where
  "turn_ctx_init gate render_on stdout_ok =
     \<lparr>tc_live = False, tc_outcome = None, tc_wrote_any = False, tc_last_was_newline = False,
      tc_failed_write = False, tc_base_gate = gate, tc_render_on = render_on, tc_rndr = render_init,
      tc_out = buf_init kRenderOutMax, tc_stdout_ok = stdout_ok, tc_writes = 0, tc_shown = [], tc_lines = [],
      tc_cancels = 0\<rparr>"

definition cbs_main :: agent_callbacks where
  "cbs_main = \<lparr>cb_on_text = True, cb_on_tool_start = True, cb_on_tool_result = True, cb_on_notice = True,
     cb_gate = True, cb_on_finish = True\<rparr>"

definition fresh_output :: "agent_turn \<Rightarrow> agent_turn \<Rightarrow> agent_output list" where
  "fresh_output t t' = drop (length (at_out t)) (at_out t')"

text \<open>The current session is the one the turn appends to.\<close>

definition sync_session :: "agent_turn \<Rightarrow> lua_world \<Rightarrow> lua_world" where
  "sync_session t w = w\<lparr>lw_mua := session_set_current (Some (at_session t)) (lw_mua w)\<rparr>"

text \<open>The tools and the gate of an entry, with the worlds and the input the gate meets, by the index of the call.\<close>

type_synonym gate_fn = "nat \<Rightarrow> tool_def \<Rightarrow> cjson \<Rightarrow> gate_decision \<times> cjson option \<times> string option \<times> bool"

record gate_met =
  gm_tools :: tool_table
  gm_world :: "nat \<Rightarrow> lua_world"
  gm_prompt :: "nat \<Rightarrow> bool \<times> string"
  gm_gate :: gate_fn

text \<open>
  \<open>gate_with_autocmds\<close> as the turn's gate, and what the entry \<open>k\<close> finds: the tools registered in its Lua
  world, and the gate. No hook cancels the turn; a signal does so at a later entry. What a gate and its
  hooks change in the Lua world is part of \<open>sc_lua\<close>. \<open>None\<close> does not occur (\<open>gate_decides\<close> of \<open>RunProps\<close>).
\<close>

definition composed_gate ::
    "lua_lib \<Rightarrow> (cjson \<Rightarrow> string) \<Rightarrow> gate_policy \<Rightarrow> (nat \<Rightarrow> lua_world) \<Rightarrow> (nat \<Rightarrow> bool \<times> string) \<Rightarrow> gate_fn" where
  "composed_gate lib cprint gate world prompt idx tool args =
     (case gate_with_autocmds lib (base_gate cprint gate (prompt idx)) tool args (world idx) of
        Some ((decision, rewrite, refusal), _) \<Rightarrow> (decision, rewrite, refusal, False)
      | None \<Rightarrow> (kGateRefuse, None, None, False))"

definition turn_gate :: "lua_lib \<Rightarrow> (cjson \<Rightarrow> string) \<Rightarrow> turn_script \<Rightarrow> gate_policy \<Rightarrow> nat \<Rightarrow> lua_world \<Rightarrow> gate_met" where
  "turn_gate lib cprint sc gate k w =
     (let world = (\<lambda>idx. sc_meets sc k idx w) in
      \<lparr>gm_tools = ms_tools (lw_mua w), gm_world = world, gm_prompt = sc_prompts sc k, gm_gate = composed_gate lib cprint gate world (sc_prompts sc k)\<rparr>)"

definition with_gate :: "gate_met \<Rightarrow> agent_env \<Rightarrow> agent_env" where
  "with_gate g env = env\<lparr>ae_tools := gm_tools g, ae_gate := gm_gate g\<rparr>"

text \<open>
  \<open>finish_turn\<close> takes the turn's interrupt callback from the loop. A SIGINT calls it (\<open>agent_turn_cancel\<close>)
  or stops the loop. \<open>None\<close>: the callback cannot happen.
\<close>

definition sync_interrupt :: "agent_turn \<Rightarrow> loop_state \<Rightarrow> loop_state" where
  "sync_interrupt t lo =
     (if \<not> at_interrupt t \<and> lo_interrupt_cb lo \<noteq> None then loop_set_interrupt_cb None lo else lo)"

fun loop_step ::
    "agent_lib \<Rightarrow> (agent_env \<Rightarrow> agent_env) \<Rightarrow> loop_entry \<Rightarrow> loop_state \<times> agent_turn \<Rightarrow> (loop_state \<times> agent_turn) option" where
  "loop_step alib f (Fires env e) (lo, t) = map_option (\<lambda>t'. (sync_interrupt t' lo, t')) (agent_step alib t (f env, e))"
| "loop_step alib f (Sigint env ok) (lo, t) =
     (let lo' = sigint_cb lo in
      if lo_interrupts lo' = lo_interrupts lo then Some (lo', t)
      else map_option (\<lambda>t'. (sync_interrupt t' lo', t')) (agent_step alib t (f env, AEvCancel ok)))"
| "loop_step alib f Poll lt = Some lt"

text \<open>
  \<open>loop_run\<close>: the entries that were left when the stop flag was seen, the state, the gates of the entries
  run, the context and the Lua world. \<open>None\<close>: an assertion failed, or the script is not a run of the loop,
  which neither runs what cannot happen nor returns while the turn is unfinished and the flag not set.
\<close>

fun turn_loop ::
    "lua_lib \<Rightarrow> agent_lib \<Rightarrow> turn_script \<Rightarrow> gate_policy \<Rightarrow> nat \<Rightarrow> loop_entry list \<Rightarrow> loop_state \<times> agent_turn
      \<Rightarrow> turn_ctx \<times> lua_world
      \<Rightarrow> (loop_entry list \<times> (loop_state \<times> agent_turn) \<times> gate_met list \<times> turn_ctx \<times> lua_world) option" where
  "turn_loop lib alib sc gate k [] lt cw =
     (if at_finished (snd lt) \<or> lo_stop (fst lt) then Some ([], lt, [], cw) else None)"
| "turn_loop lib alib sc gate k (e # es) lt cw =
     (if e = Poll \<and> lo_stop (fst lt) then Some (es, lt, [], cw)
      else
        let g = turn_gate lib (al_cprint alib) sc gate k (snd cw) in
        case loop_step alib (with_gate g) e lt of
          None \<Rightarrow> None
        | Some lt' \<Rightarrow>
            if at_aborted (snd lt') then None
            else map_option (\<lambda>(left, lt, gs, cw). (left, lt, g # gs, cw))
                   (turn_loop lib alib sc gate (k + 1) es lt'
                      (fold (turn_callback lib (al_cprint alib)) (fresh_output (snd lt) (snd lt'))
                         (apsnd (\<lambda>w. sync_session (snd lt') (sc_lua sc k w)) cw))))"

definition turn_exit :: "turn_ctx \<Rightarrow> int \<times> bool" where
  "turn_exit ctx =
     (case tc_outcome ctx of
        None \<Rightarrow> (kExitInterrupted, True)
      | Some outcome \<Rightarrow>
          (if tc_failed_write ctx then kExitFailure
           else if outcome = kTurnDone then kExitOk
           else if outcome = kTurnInterrupted then kExitInterrupted else kExitFailure, False))"

text \<open>
  The exit code, whether the turn was stopped hard, the session, the context, the world and how the loop
  ended; \<open>uv_run\<close> clears the stop flag when it returns. A start that succeeds has set the interrupt callback,
  one that fails at the start of its timer has set and removed it.
\<close>

record loop_end =
  le_loop :: loop_state
  le_turn :: "agent_turn option"
  le_gates :: "gate_met list"

definition stop_cleared :: "loop_state \<Rightarrow> loop_state" where
  "stop_cleared lo = lo\<lparr>lo_stop := False\<rparr>"

definition run_one_turn ::
    "lua_lib \<Rightarrow> agent_lib \<Rightarrow> turn_script \<Rightarrow> gate_policy \<Rightarrow> agent_opts \<Rightarrow> string \<Rightarrow> session_state \<Rightarrow> loop_state \<Rightarrow> lua_world
      \<Rightarrow> (int \<times> bool \<times> session_state \<times> turn_ctx \<times> lua_world \<times> loop_end) option" where
  "run_one_turn lib alib sc gate opts text sess lo w =
     (let mua_o = ms_options (lw_mua w);
          ctx = turn_ctx_init gate (sc_tty sc \<and> options_markdown mua_o) (sc_stdout_ok sc);
          lo = loop_run_nowait (sc_pending sc) lo
      in case agent_turn_start alib mua_o (sc_writes sc) (sc_timers sc) (Some opts) (Some sess) (Some cbs_main)
                (cstr_to_string (Some text)) of
           None \<Rightarrow> None
         | Some (Inl e, sess') \<Rightarrow>
             Some (kExitFailure, False, case sess' of Some s \<Rightarrow> s | None \<Rightarrow> sess,
                   stderr_line (''mua: '' @ snd e) ctx, w,
                   \<lparr>le_loop = (if snd e = ''agent: step timer start failed'' then loop_set_interrupt_cb None lo else lo),
                     le_turn = None, le_gates = []\<rparr>)
         | Some (Inr t, _) \<Rightarrow>
             (case turn_loop lib alib sc gate 0 (sc_events sc) (loop_set_interrupt_cb (Some 0) lo, t)
                     (ctx\<lparr>tc_live := True\<rparr>, sync_session t w) of
                None \<Rightarrow> None
              | Some (left, (lo, t), gates, ctx, w) \<Rightarrow>
                  (case turn_exit ctx of
                     (code, hard_stop) \<Rightarrow>
                       Some (code, hard_stop, at_session t, ctx, w,
                             \<lparr>le_loop = stop_cleared lo, le_turn = Some t, le_gates = gates\<rparr>))))"

section \<open>The read-eval loop\<close>

text \<open>
  Standard input is a list of segments: a signal interrupts the read at the end of each but the last,
  and what \<open>fgets\<close> had read of an unfinished line is lost.
\<close>

datatype prompt_read = PromptLine string | PromptEof | PromptInterrupted

fun read_prompt :: "string list \<Rightarrow> prompt_read \<times> string list" where
  "read_prompt [] = (PromptEof, [])"
| "read_prompt (seg # rest) =
     (if rest \<noteq> [] \<and> LF \<notin> set seg \<and> length seg < kReplLine - 1 then (PromptInterrupted, rest)
      else (case fgets kReplLine seg of
              None \<Rightarrow> (PromptEof, seg # rest)
            | Some (line, seg) \<Rightarrow> (PromptLine line, seg # rest)))"

definition drain_line :: "string list \<Rightarrow> string list" where
  "drain_line input = (case input of [] \<Rightarrow> [] | seg # rest \<Rightarrow> gate_drain kReplDrainMax seg # rest)"

text \<open>What the prompts of the tools of a turn read.\<close>

definition skip_input :: "nat \<Rightarrow> string list \<Rightarrow> string list" where
  "skip_input n input = (case input of [] \<Rightarrow> [] | seg # rest \<Rightarrow> drop n seg # rest)"

datatype repl_line = ReplTooLong | ReplEmpty | ReplQuit | ReplText string

definition classify_line :: "string \<Rightarrow> repl_line" where
  "classify_line buf =
     (let line = cstr buf; len = length line in
      if \<not> (len > 0 \<and> last line = LF) \<and> len = kReplLine - 1 then ReplTooLong
      else
        let line = (if len > 0 \<and> last line = LF then take (len - 1) line else line) in
        if line = [] then ReplEmpty
        else if line = ''exit'' \<or> line = ''quit'' then ReplQuit
        else ReplText line)"

definition cstr_eq_nullable :: "mstring \<Rightarrow> mstring \<Rightarrow> bool" where
  "cstr_eq_nullable a b \<longleftrightarrow> (if a = None \<or> b = None then a = b else cstr (str_bytes a) = cstr (str_bytes b))"

definition xstrdup_or_null :: "mstring \<Rightarrow> mstring" where
  "xstrdup_or_null s = map_option cstr s"

definition resolve_turn_model :: "string option \<Rightarrow> mua_state \<Rightarrow> mstring" where
  "resolve_turn_model cli_model m = (case cli_model of Some c \<Rightarrow> Some c | None \<Rightarrow> options_model_borrow (ms_options m))"

text \<open>
  What a run meets: the model catalogue's HTTP client and the script of the turn, by the number of
  lookups and of turns before, and what the loop runs at the end of \<open>run_agent\<close>. The run's state keeps of
  every turn its arguments, the gates of its entries, the calls it started (\<open>on_tool_start\<close>) and what it
  called back after \<open>run_one_turn\<close> had returned; and the turn that a hard stop has left alive.
\<close>

record run_world =
  rw_version :: string
  rw_lib :: lua_lib
  rw_alib :: agent_lib
  rw_models :: "nat \<Rightarrow> models_env"
  rw_scripts :: "nat \<Rightarrow> turn_script"
  rw_final :: "loop_entry list"

record turn_args =
  ta_gate :: gate_policy
  ta_model :: mstring
  ta_context_length :: int
  ta_text :: string
  ta_gates :: "gate_met list"
  ta_started :: "(string \<times> cjson) list"
  ta_late :: "agent_output list"

record run_state =
  rs_lua :: lua_world
  rs_session :: session_state
  rs_cache :: model_cache
  rs_lookups :: nat
  rs_turns :: "turn_args list"
  rs_shown :: string
  rs_lines :: "string list"
  rs_loop :: loop_state
  rs_live :: "agent_turn option"

definition run_line :: "string \<Rightarrow> run_state \<Rightarrow> run_state" where
  "run_line s st = st\<lparr>rs_lines := rs_lines st @ [s]\<rparr>"

definition lookup_context ::
    "run_world \<Rightarrow> mstring \<Rightarrow> string \<Rightarrow> run_state \<Rightarrow> int \<times> run_state" where
  "lookup_context rw model api_key st =
     (case models_context_length (al_cparse (rw_alib rw)) (al_getenv (rw_alib rw)) (rw_models rw (rs_lookups st))
             (map_option cstr model) (Some api_key) (rs_cache st) of
        (len, cache, request) \<Rightarrow> (len, st\<lparr>rs_cache := cache, rs_lookups := rs_lookups st + 1\<rparr>))"

fun started_calls :: "agent_output list \<Rightarrow> (string \<times> cjson) list" where
  "started_calls [] = []"
| "started_calls (AToolStart name args # outs) = (name, args) # started_calls outs"
| "started_calls (_ # outs) = started_calls outs"

definition turn_record :: "gate_policy \<Rightarrow> mstring \<Rightarrow> int \<Rightarrow> string \<Rightarrow> loop_end \<Rightarrow> turn_args" where
  "turn_record gate model context_length text le =
     \<lparr>ta_gate = gate, ta_model = model, ta_context_length = context_length, ta_text = text, ta_gates = le_gates le,
      ta_started = (case le_turn le of Some t \<Rightarrow> started_calls (at_out t) | None \<Rightarrow> []), ta_late = []\<rparr>"

definition take_turn ::
    "run_world \<Rightarrow> gate_policy \<Rightarrow> mstring \<Rightarrow> string \<Rightarrow> int \<Rightarrow> string \<Rightarrow> run_state \<Rightarrow> (int \<times> bool \<times> run_state) option" where
  "take_turn rw gate model api_key context_length text st =
     map_option
       (\<lambda>(code, hard_stop, sess, ctx, w, le).
          (code, hard_stop,
           st\<lparr>rs_lua := w, rs_session := sess, rs_shown := rs_shown st @ tc_shown ctx,
              rs_lines := rs_lines st @ tc_lines ctx,
              rs_turns := rs_turns st @ [turn_record gate model context_length text le],
              rs_loop := le_loop le, rs_live := (if hard_stop then le_turn le else None)\<rparr>))
       (run_one_turn (rw_lib rw) (rw_alib rw) (rw_scripts rw (length (rs_turns st))) gate
          \<lparr>ao_http = True, ao_model = map_option cstr model, ao_api_key = Some api_key,
           ao_context_length = context_length\<rparr>
          text (rs_session st) (rs_loop st) (rs_lua st))"

definition prompt_hooks :: "run_world \<Rightarrow> string \<Rightarrow> run_state \<Rightarrow> string option \<times> run_state" where
  "prompt_hooks rw prompt st =
     (case mua_lua_autocmd_user_prompt_pre (rw_lib rw) prompt (rs_lua st) of
        (swallowed, rewrite, w) \<Rightarrow>
          (if swallowed then None else Some (case rewrite of Some t \<Rightarrow> t | None \<Rightarrow> prompt), st\<lparr>rs_lua := w\<rparr>))"

definition input_left :: "string list \<Rightarrow> nat" where
  "input_left input = sum_list (map (\<lambda>seg. Suc (length seg)) input)"

lemma gate_drain_length: "length (gate_drain n input) \<le> length input"
  by (induction n input rule: gate_drain.induct) auto

lemma read_prompt_consumes:
  "read_prompt input = (r, input') \<Longrightarrow> r \<noteq> PromptEof \<Longrightarrow> input_left input' < input_left input"
  by (cases input) (auto simp: input_left_def fgets_def kReplLine_def Let_def min_def split: if_splits option.splits)

lemma drain_line_left: "input_left (drain_line input) \<le> input_left input"
  by (cases input) (simp_all add: input_left_def drain_line_def gate_drain_length)

lemma skip_input_left: "input_left (skip_input n input) \<le> input_left input"
  by (cases input) (simp_all add: input_left_def skip_input_def)

text \<open>The loop; \<open>ctx_model\<close> is the model \<open>context_length\<close> was looked up for.\<close>

function repl_loop ::
    "run_world \<Rightarrow> gate_policy \<Rightarrow> string option \<Rightarrow> string \<Rightarrow> bool \<Rightarrow> mstring \<Rightarrow> int \<Rightarrow> string list \<Rightarrow> run_state
      \<Rightarrow> (int \<times> string list \<times> run_state) option" where
  "repl_loop rw gate cli_model api_key ctx_len_locked ctx_model context_length input st =
     (case read_prompt input of
        (PromptEof, input') \<Rightarrow> Some (kExitOk, input', st)
      | (PromptInterrupted, input') \<Rightarrow>
          repl_loop rw gate cli_model api_key ctx_len_locked ctx_model context_length input' st
      | (PromptLine buf, input') \<Rightarrow>
          (case classify_line buf of
             ReplTooLong \<Rightarrow>
               repl_loop rw gate cli_model api_key ctx_len_locked ctx_model context_length (drain_line input')
                 (run_line ''mua: input too long; ignored'' st)
           | ReplEmpty \<Rightarrow> repl_loop rw gate cli_model api_key ctx_len_locked ctx_model context_length input' st
           | ReplQuit \<Rightarrow> Some (kExitOk, input', st)
           | ReplText line \<Rightarrow>
               (case prompt_hooks rw line st of
                  (None, st) \<Rightarrow>
                    repl_loop rw gate cli_model api_key ctx_len_locked ctx_model context_length input' st
                | (Some text, st) \<Rightarrow>
                    let model = resolve_turn_model cli_model (lw_mua (rs_lua st)) in
                    (case (if \<not> ctx_len_locked \<and> \<not> cstr_eq_nullable model ctx_model
                           then (case lookup_context rw model api_key st of
                                   (len, st) \<Rightarrow> (xstrdup_or_null model, len, st))
                           else (ctx_model, context_length, st)) of
                       (ctx_model, context_length, st) \<Rightarrow>
                         (case take_turn rw gate model api_key context_length text st of
                            None \<Rightarrow> None
                          | Some (code, hard_stop, st) \<Rightarrow>
                              if hard_stop then Some (code, input', st)
                              else repl_loop rw gate cli_model api_key ctx_len_locked ctx_model context_length
                                     (skip_input (sc_input (rw_scripts rw (length (rs_turns st) - 1))) input') st)))))"
  by pat_completeness auto
termination repl_loop
  by (relation "measure (\<lambda>(rw, gate, cli_model, api_key, locked, ctx_model, len, input, st). input_left input)")
    (auto dest!: read_prompt_consumes [OF sym]
      intro: le_less_trans [OF drain_line_left] le_less_trans [OF skip_input_left])

declare repl_loop.simps [simp del]

section \<open>A run\<close>

definition gate_policy_for :: "bool \<Rightarrow> gate_policy \<Rightarrow> gate_policy" where
  "gate_policy_for yes otherwise = (if yes then ApproveAll else otherwise)"

definition run_repl ::
    "run_world \<Rightarrow> string option \<Rightarrow> string \<Rightarrow> int \<Rightarrow> bool \<Rightarrow> bool \<Rightarrow> string list \<Rightarrow> run_state
      \<Rightarrow> (int \<times> string list \<times> run_state) option" where
  "run_repl rw cli_model api_key context_length ctx_len_locked yes input st =
     repl_loop rw (gate_policy_for yes Interactive) cli_model api_key ctx_len_locked
       (xstrdup_or_null (resolve_turn_model cli_model (lw_mua (rs_lua st)))) context_length input
       (run_line (''mua '' @ rw_version rw @ '' -- type 'exit' or Ctrl-D to quit'') st)"

text \<open>The context window at the start: \<open>MUA_CONTEXT_LENGTH\<close>, else the catalogue's; and whether it is locked.\<close>

definition startup_context ::
    "run_world \<Rightarrow> mstring \<Rightarrow> string \<Rightarrow> run_state \<Rightarrow> int \<times> bool \<times> run_state" where
  "startup_context rw model api_key st =
     (case al_getenv (rw_alib rw) ''MUA_CONTEXT_LENGTH'' of
        Some env_ctx \<Rightarrow>
          if env_ctx \<noteq> []
          then (case strtol env_ctx of
                  Some (v, []) \<Rightarrow> if v \<ge> 0 then v else 0
                | _ \<Rightarrow> 0, True, st)
          else (case lookup_context rw model api_key st of (len, st) \<Rightarrow> (len, False, st))
      | None \<Rightarrow> (case lookup_context rw model api_key st of (len, st) \<Rightarrow> (len, False, st)))"

definition run_prompt ::
    "run_world \<Rightarrow> mua_args \<Rightarrow> string \<Rightarrow> string \<Rightarrow> int \<Rightarrow> run_state \<Rightarrow> (int \<times> run_state) option" where
  "run_prompt rw args prompt api_key context_length st =
     (case prompt_hooks rw prompt st of
        (None, st) \<Rightarrow> Some (kExitOk, st)
      | (Some text, st) \<Rightarrow>
          map_option (\<lambda>(code, hard_stop, st). (code, st))
            (take_turn rw (gate_policy_for (ma_yes args) AutoRefuse)
               (resolve_turn_model (ma_model args) (lw_mua (rs_lua st))) api_key context_length text st))"

definition session_hook :: "run_world \<Rightarrow> autocmd_event \<Rightarrow> run_state \<Rightarrow> run_state" where
  "session_hook rw ev st = st\<lparr>rs_lua := mua_lua_autocmd_session (rw_lib rw) ev (ss_id (rs_session st)) (rs_lua st)\<rparr>"

definition set_current :: "session_state option \<Rightarrow> run_state \<Rightarrow> run_state" where
  "set_current sess st = st\<lparr>rs_lua := set_mua (session_set_current sess (lw_mua (rs_lua st))) (rs_lua st)\<rparr>"

text \<open>With a session: the context window, the SessionStart hooks, the prompt or the loop, SessionEnd.\<close>

definition run_session ::
    "run_world \<Rightarrow> mua_args \<Rightarrow> string \<Rightarrow> string list \<Rightarrow> run_state \<Rightarrow> (int \<times> run_state) option" where
  "run_session rw args api_key input st =
     (case startup_context rw (resolve_turn_model (ma_model args) (lw_mua (rs_lua st))) api_key st of
        (context_length, locked, st) \<Rightarrow>
          let st = session_hook rw kAutocmdSessionStart (set_current (Some (rs_session st)) st) in
          (case (case ma_prompt args of
                   Some prompt \<Rightarrow> run_prompt rw args prompt api_key context_length st
                 | None \<Rightarrow>
                     map_option (\<lambda>(code, input, st). (code, st))
                       (run_repl rw (ma_model args) api_key context_length locked (ma_yes args) input st)) of
             None \<Rightarrow> None
           | Some (code, st) \<Rightarrow> Some (code, set_current None (session_hook rw kAutocmdSessionEnd st))))"

definition run_start :: "lua_world \<Rightarrow> session_state \<Rightarrow> run_state" where
  "run_start w sess =
     \<lparr>rs_lua = w, rs_session = sess, rs_cache = models_cache_init, rs_lookups = 0, rs_turns = [], rs_shown = [],
      rs_lines = [], rs_loop = snd (loop_init (True, True, True) loop_zero), rs_live = None\<rparr>"

text \<open>
  The end of \<open>run_agent\<close>: \<open>session_free\<close>, \<open>http_client_close\<close> and one more \<open>loop_run\<close>. A turn that a hard
  stop has left alive is still the user data of the loop's handles, so this run, the completions of the
  closing client included, goes on with it; its callbacks then use the context of \<open>run_one_turn\<close>, which
  has returned. No other turn calls anything back.
\<close>

fun final_run :: "agent_lib \<Rightarrow> loop_entry list \<Rightarrow> loop_state \<times> agent_turn \<Rightarrow> (loop_state \<times> agent_turn) option" where
  "final_run alib [] lt = (if at_finished (snd lt) \<or> lo_stop (fst lt) then Some lt else None)"
| "final_run alib (e # es) lt =
     (if e = Poll \<and> lo_stop (fst lt) then Some lt
      else case loop_step alib (\<lambda>env. env) e lt of
             None \<Rightarrow> None
           | Some lt \<Rightarrow> if at_aborted (snd lt) then None else final_run alib es lt)"

definition late_output :: "agent_output list \<Rightarrow> turn_args list \<Rightarrow> turn_args list" where
  "late_output outs ts = (if ts = [] then [] else butlast ts @ [(last ts)\<lparr>ta_late := outs\<rparr>])"

definition run_close :: "run_world \<Rightarrow> run_state \<Rightarrow> run_state option" where
  "run_close rw st =
     (case rs_live st of
        None \<Rightarrow> Some st
      | Some t \<Rightarrow>
          map_option
            (\<lambda>(lo, t'). st\<lparr>rs_turns := late_output (fresh_output t t') (rs_turns st), rs_loop := lo\<rparr>)
            (final_run (rw_alib rw) (rw_final rw) (rs_loop st, t)))"

text \<open>\<open>http\<close>: the outcome of \<open>http_client_new\<close>. The exit code, the turns taken, the world.\<close>

definition run_agent ::
    "run_world \<Rightarrow> session_world \<Rightarrow> error option \<Rightarrow> mua_args \<Rightarrow> string list \<Rightarrow> lua_world
      \<Rightarrow> (int \<times> turn_args list \<times> lua_world) option" where
  "run_agent rw sw http args input w =
     (case al_getenv (rw_alib rw) ''OPENROUTER_API_KEY'' of
        None \<Rightarrow> Some (kExitFailure, [], w)
      | Some api_key \<Rightarrow>
          if api_key = [] \<or> http \<noteq> None then Some (kExitFailure, [], w)
          else (case setup_session (rw_alib rw) sw (ma_resume args) of
                  Inl e \<Rightarrow> Some (kExitFailure, [], w)
                | Inr sess \<Rightarrow>
                    Option.bind (run_session rw args api_key input (run_start w sess))
                      (\<lambda>(code, st). map_option (\<lambda>st. (code, rs_turns st, rs_lua st)) (run_close rw st))))"

text \<open>The outcomes of the start and the end of a process; \<open>pw_source\<close> is what \<open>init.lua\<close> does.\<close>

record process_world =
  pw_loop_init :: bool
  pw_lua_init :: bool
  pw_source :: "lua_world \<Rightarrow> bool \<times> lua_world"
  pw_rpc :: "rpc_setup \<times> rpc_read list"
  pw_http :: "error option"
  pw_session :: session_world
  pw_loop_close :: bool
  pw_sigpipe :: bool
  pw_version_printed :: bool

definition rpc_run :: "rpc_setup \<times> rpc_read list \<Rightarrow> lua_world \<Rightarrow> (int \<times> turn_args list \<times> lua_world) option" where
  "rpc_run rpc w =
     map_option (\<lambda>(code, s, m). (code, [], set_mua m w)) (rpc_serve (fst rpc) (snd rpc) (lw_mua w))"

definition run_served ::
    "run_world \<Rightarrow> process_world \<Rightarrow> mua_args \<Rightarrow> string list \<Rightarrow> lua_world \<Rightarrow> (int \<times> turn_args list \<times> lua_world) option" where
  "run_served rw pw args input w =
     (if \<not> pw_lua_init pw then Some (kExitFailure, [], w)
      else (case pw_source pw w of
              (False, w) \<Rightarrow> Some (kExitFailure, [], w)
            | (True, w) \<Rightarrow>
                if ma_embed args then rpc_run (pw_rpc pw) w
                else run_agent rw (pw_session pw) (pw_http pw) args input w))"

text \<open>\<open>tools_teardown\<close>, \<open>autocmd_teardown\<close> and \<open>options_free\<close>.\<close>

definition run_teardown :: "lua_world \<Rightarrow> lua_world" where
  "run_teardown w =
     (case tools_teardown (ms_tools (lw_mua w)) of
        (tool_refs, tools) \<Rightarrow>
          (case autocmd_clear (ms_autocmds (lw_mua w)) of
             (hook_refs, autocmds) \<Rightarrow>
               set_mua ((lw_mua w)\<lparr>ms_tools := tools, ms_autocmds := autocmds,
                                  ms_options := options_free (ms_options (lw_mua w))\<rparr>)
                 (fold mua_lua_unref (tool_refs @ hook_refs) w)))"

definition run ::
    "run_world \<Rightarrow> process_world \<Rightarrow> mua_args \<Rightarrow> string list \<Rightarrow> lua_world \<Rightarrow> (int \<times> turn_args list \<times> lua_world) option" where
  "run rw pw args input w =
     (if \<not> pw_loop_init pw then Some (kExitFailure, [], w)
      else map_option
             (\<lambda>(code, turns, w).
                (if \<not> pw_loop_close pw \<and> code = kExitOk then kExitFailure else code, turns, run_teardown w))
             (run_served rw pw args input w))"

definition mua_main ::
    "run_world \<Rightarrow> process_world \<Rightarrow> string list \<Rightarrow> string list \<Rightarrow> lua_world \<Rightarrow> (int \<times> turn_args list \<times> lua_world) option" where
  "mua_main rw pw argv input w =
     (case parse_args argv of
        Inl msg \<Rightarrow> Some (kExitUsage, [], w)
      | Inr args \<Rightarrow>
          if ma_help args then Some (kExitOk, [], w)
          else if ma_version args then Some (if pw_version_printed pw then kExitOk else kExitFailure, [], w)
          else if \<not> pw_sigpipe pw then Some (kExitFailure, [], w)
          else run rw pw args input w)"

end
