(* ===== verification/FrontendProps.thy ===== *)
theory FrontendProps
  imports Frontend AgentProps RenderProps BridgeProps ModelsProps "HOL-Library.Sublist"
begin

text \<open>
  Properties of a turn of the front end: the calls it starts are those its gates approved; what it writes to standard output and its exit code, as a
  function of what the agent calls back with, with and without the renderer; and a line of the model's
  text that makes the turn fail.
\<close>

section \<open>The outputs of a turn only grow, and its gate approves what it starts\<close>

text \<open>The calls of tools that a gate approves, with the arguments it leaves. A turn with a gate starts no other.\<close>

definition approved :: "tool_table \<Rightarrow> gate_fn \<Rightarrow> (string \<times> cjson) set" where
  "approved tools gate = {(td_name tool, case rewrite of Some a \<Rightarrow> a | None \<Rightarrow> args) | name idx tool args rewrite refusal c.
     tools_lookup tools name = Some tool \<and> gate idx tool args = (kGateApprove, rewrite, refusal, c)}"

definition out_grows :: "agent_env \<Rightarrow> agent_turn \<Rightarrow> agent_turn \<Rightarrow> bool" where
  "out_grows env t t' \<longleftrightarrow> prefix (at_out t) (at_out t') \<and> at_cb t' = at_cb t
     \<and> (cb_gate (at_cb t) \<longrightarrow> set (started_calls (at_out t')) \<subseteq> set (started_calls (at_out t)) \<union> approved (ae_tools env) (ae_gate env))"

lemma started_calls_append [simp]: "started_calls (xs @ ys) = started_calls xs @ started_calls ys"
  by (induction xs rule: started_calls.induct) simp_all

lemma out_grows_refl: "out_grows env t t"
  by (simp add: out_grows_def)

lemma grows_trans: "out_grows env t t' \<Longrightarrow> out_grows env t' t'' \<Longrightarrow> out_grows env t t''"
  unfolding out_grows_def using prefix_order.trans by auto

lemma grows_same: "at_out t' = at_out t \<Longrightarrow> at_cb t' = at_cb t \<Longrightarrow> out_grows env t t'"
  by (simp add: out_grows_def)

lemma grows_call_back:
  "\<forall>name args. out \<noteq> AToolStart name args \<Longrightarrow> out_grows env t (call_back is_set out t)"
  by (cases out) (auto simp: out_grows_def call_back_def)

lemma grows_start:
  "(cb_gate (at_cb t) \<Longrightarrow> (name, args) \<in> approved (ae_tools env) (ae_gate env)) \<Longrightarrow> out_grows env t (call_back is_set (AToolStart name args) t)"
  by (auto simp: out_grows_def call_back_def)

lemma grows_finish: "out_grows env t (finish_turn outcome err t)"
  by (simp add: out_grows_def finish_turn_def)

lemma append_message_out: "append_message lib env msg t = (err, t') \<Longrightarrow> at_out t' = at_out t \<and> at_cb t' = at_cb t"
  by (auto simp: append_message_def split: prod.splits)

lemma append_tool_message_out: "append_tool_message lib env idx content t = (err, t') \<Longrightarrow> at_out t' = at_out t \<and> at_cb t' = at_cb t"
  unfolding append_tool_message_def by (rule append_message_out)

lemma grows_tool_completed: "out_grows env t (tool_completed lib env result t)"
proof -
  obtain err t1 where a: "append_tool_message lib env (at_tool_index t) (tr_content result) t = (err, t1)" by fastforce
  note out = append_tool_message_out [OF a]
  show ?thesis
    using a out by (cases err) (auto simp: tool_completed_def call_back_def Let_def out_grows_def)
qed

lemma grows_tool_done: "out_grows env t (tool_done lib env result t)"
  using grows_tool_completed [of env "t\<lparr>at_exec := None\<rparr>"] by (auto simp: tool_done_def Let_def out_grows_def)

lemma out_grows_frame [simp]:
  "out_grows env t (t'\<lparr>at_aborted := b\<rparr>) = out_grows env t t'" "out_grows env t (t'\<lparr>at_exec := e\<rparr>) = out_grows env t t'"
  "out_grows env t (t'\<lparr>at_in_driver := b\<rparr>) = out_grows env t t'" "out_grows env t (t'\<lparr>at_stream := st\<rparr>) = out_grows env t t'"
  "out_grows env t (t'\<lparr>at_freed := b\<rparr>) = out_grows env t t'" "out_grows env t (t'\<lparr>at_timer := tm\<rparr>) = out_grows env t t'"
  "out_grows env (t\<lparr>at_exec := e\<rparr>) t' = out_grows env t t'" "out_grows env (t\<lparr>at_in_driver := b\<rparr>) t' = out_grows env t t'"
  "out_grows env (t\<lparr>at_stream := st\<rparr>) t' = out_grows env t t'" "out_grows env (t\<lparr>at_tool_index := n\<rparr>) t' = out_grows env t t'"
  "out_grows env (t\<lparr>at_timer := tm\<rparr>) t' = out_grows env t t'" "out_grows env (t\<lparr>at_canceling := b\<rparr>) t' = out_grows env t t'"
  "out_grows env (t\<lparr>at_cancel_requested := b\<rparr>) t' = out_grows env t t'" "out_grows env (t\<lparr>at_step := m\<rparr>) t' = out_grows env t t'"
  "out_grows env (t\<lparr>at_requests := rs\<rparr>) t' = out_grows env t t'" "out_grows env (t\<lparr>at_context_warned := b\<rparr>) t' = out_grows env t t'"
  "out_grows env (t\<lparr>at_calls := cs, at_tool_count := n, at_tool_index := k\<rparr>) t' = out_grows env t t'"
  "out_grows env (t\<lparr>at_last_total_tokens := m\<rparr>) t' = out_grows env t t'" "out_grows env t (t'\<lparr>at_canceling := b\<rparr>) = out_grows env t t'"
  by (simp_all add: out_grows_def)

lemma grows_from: "at_out t1 = at_out t \<and> at_cb t1 = at_cb t \<Longrightarrow> out_grows env t t' = out_grows env t1 t'"
  by (simp add: out_grows_def)

lemma gate_call_approved:
  assumes "gate_call env idx def args t = (r, t1)"
  shows "at_out t1 = at_out t \<and> at_cb t1 = at_cb t"
    and "tools_lookup (ae_tools env) name = Some def \<Longrightarrow> r = Inr a \<Longrightarrow> cb_gate (at_cb t1) \<Longrightarrow> (td_name def, a) \<in> approved (ae_tools env) (ae_gate env)"
proof -
  show "at_out t1 = at_out t \<and> at_cb t1 = at_cb t" using gate_call_frame [OF assms] by auto
  then show "(td_name def, a) \<in> approved (ae_tools env) (ae_gate env)" if "tools_lookup (ae_tools env) name = Some def" "r = Inr a" "cb_gate (at_cb t1)"
  proof -
    obtain decision rewrite refusal c where gate: "ae_gate env idx def args = (decision, rewrite, refusal, c)"
      by (metis prod_cases4)
    have "decision = kGateApprove \<and> a = (case rewrite of Some a \<Rightarrow> a | None \<Rightarrow> args)"
      using assms that(2,3) gate \<open>at_out t1 = at_out t \<and> at_cb t1 = at_cb t\<close>
      by (cases decision) (simp_all add: gate_call_def Let_def split: if_splits)
    then show ?thesis unfolding approved_def using gate that(1) by blast
  qed
qed

lemma grows_start_tool:
  assumes "start_tool lib env idx t = (w, t')"
  shows "out_grows env t t'"
proof -
  have done1: "out_grows env t (tool_completed lib env r t1)" if "gate_call env idx def args t = (x, t1)" for def args x r t1
    using grows_tool_completed [of env t1] by (simp add: grows_from [OF gate_call_approved(1) [OF that]])
  have started: "out_grows env t (call_back c (AToolStart (td_name def) a) t1)"
    if "gate_call env idx def args t = (Inr a, t1)" "tools_lookup (ae_tools env) name = Some def" for c name def args a t1
    using grows_start [OF gate_call_approved(2) [OF that(1,2)]] by (simp add: grows_from [OF gate_call_approved(1) [OF that(1)]])
  have done2: "out_grows env t (tool_done lib env r (call_back c (AToolStart (td_name def) a) t1))"
    if "gate_call env idx def args t = (Inr a, t1)" "tools_lookup (ae_tools env) name = Some def" for c name def args a r t1
    using grows_tool_done started [OF that] grows_trans by blast
  show ?thesis
    using assms
    by (auto simp: start_tool_def synthetic_result_def Let_def
        intro: done1 done2 started grows_tool_completed split: option.splits sum.splits prod.splits)
qed

lemma grows_answer_rest: "out_grows env t (answer_rest lib env n t)"
proof (induction n arbitrary: t)
  case (Suc n)
  obtain err t1 where a: "append_tool_message lib env (at_tool_index t) ''[interrupted]'' t = (err, t1)" by fastforce
  show ?case
    using a grows_from [OF append_tool_message_out [OF a]] Suc.IH [of "t1\<lparr>at_tool_index := at_tool_index t1 + 1\<rparr>"]
    by (cases err) (auto simp: log_warn_def out_grows_def)
qed (simp add: out_grows_refl)

lemma grows_synthetics: "out_grows env t (finish_with_synthetics lib env t)"
  unfolding finish_with_synthetics_def by (rule grows_trans [OF grows_answer_rest grows_finish])

lemma grows_next_step: "out_grows env t (next_step env t)"
  using grows_finish [of env "t\<lparr>at_step := at_step t + 1\<rparr>"] by (auto simp: next_step_def Let_def grows_same)

lemma grows_drive_end: "out_grows env t (drive_end lib env t)"
  using grows_finish [of env "t\<lparr>at_in_driver := False\<rparr>"] grows_synthetics [of env "t\<lparr>at_in_driver := False\<rparr>"]
    grows_next_step [of env "t\<lparr>at_in_driver := False\<rparr>"]
  by (simp add: drive_end_def Let_def)

lemma grows_drive_loop: "out_grows env t (drive_loop lib env t)"
proof (induction lib env t rule: drive_loop.induct)
  case (1 lib env t)
  show ?case
  proof (cases "at_aborted t \<or> at_finished t \<or> at_exec t \<noteq> None \<or> drive_over t")
    case True
    then show ?thesis using out_grows_refl grows_drive_end by (auto simp: drive_loop.simps [of lib env t])
  next
    case False
    obtain w t1 where s: "start_tool lib env (at_tool_index t) t = (w, t1)" by fastforce
    note g = grows_start_tool [OF s]
    show ?thesis
      using False s g "1.IH" grows_trans [OF g]
      by (cases w) (auto simp: drive_loop.simps [of lib env t])
  qed
qed

lemma grows_drive_tools: "out_grows env t (drive_tools lib env t)"
  using grows_drive_loop [of env "t\<lparr>at_in_driver := True\<rparr>"] by (simp add: drive_tools_def)

lemma grows_agent_tool_done: "out_grows env t (agent_tool_done lib env result t)"
  using grows_tool_done [of env t] grows_trans [OF grows_tool_done grows_drive_tools]
  by (simp add: agent_tool_done_def Let_def)

lemma grows_on_done: "out_grows env t (provider_on_done lib env message u t)"
proof -
  define t1 where "t1 = maybe_warn_context
    (if total_tokens u > 0 then t\<lparr>at_stream := None, at_last_total_tokens := total_tokens u\<rparr> else t\<lparr>at_stream := None\<rparr>)"
  have t1: "out_grows env t t1"
    unfolding t1_def maybe_warn_context_def Let_def
    by (auto simp: out_grows_def call_back_def)
  obtain err t2 where a: "append_message lib env message t1 = (err, t2)" by fastforce
  have t2: "out_grows env t t2" using t1 append_message_out [OF a] by (simp add: out_grows_def)
  show ?thesis
    using a grows_trans [OF t2 grows_finish] grows_trans [OF t2]
      grows_drive_tools [of env "t2\<lparr>at_calls := cs, at_tool_count := n, at_tool_index := k\<rparr>" lib for cs n k]
      grows_synthetics [of env "t2\<lparr>at_calls := cs, at_tool_count := n, at_tool_index := k, at_canceling := True\<rparr>" lib for cs n k]
    by (auto simp: provider_on_done_def t1_def [symmetric] Let_def out_grows_def split: option.splits)
qed

lemma grows_on_error: "out_grows env t (provider_on_error e t)"
  using grows_finish [of env "t\<lparr>at_stream := None\<rparr>"] by (simp add: provider_on_error_def Let_def)

lemma grows_deliver: "out_grows env t (provider_deliver lib env os t)"
proof (induction lib env os t rule: provider_deliver.induct)
  case (2 lib env s os t)
  have "out_grows env t (provider_on_text s t)" by (simp add: provider_on_text_def grows_call_back)
  from grows_trans [OF this "2.IH"] show ?case by simp
next
  case (3 lib env msg reason u os t)
  from grows_trans [OF grows_on_done "3.IH"] show ?case by simp
next
  case (4 lib env e os t)
  from grows_trans [OF grows_on_error "4.IH"] show ?case by simp
qed (simp add: out_grows_refl)

lemma grows_issue_request: "issue_request lib env t = (err, t') \<Longrightarrow> out_grows env t t'"
  using grows_deliver [of env "t\<lparr>at_requests := rs\<rparr>" for rs]
  by (auto simp: issue_request_def Let_def intro: grows_same split: sum.splits)

lemma grows_step_timer: "out_grows env t (step_timer_cb lib env t)"
proof -
  obtain err t1 where r: "issue_request lib env t = (err, t1)" by fastforce
  note g = grows_issue_request [OF r]
  show ?thesis
    using r g grows_trans [OF g grows_finish] grows_finish by (cases err) (auto simp: step_timer_cb_def)
qed

lemma grows_cancel: "out_grows env t (agent_turn_cancel lib env ok t)"
  using grows_deliver [of env "t\<lparr>at_cancel_requested := True, at_stream := st\<rparr>" for st]
  by (auto simp: agent_turn_cancel_def Let_def intro: grows_same split: option.split)

lemma agent_step_grows: "agent_step lib t (env, ev) = Some t' \<Longrightarrow> out_grows env t t'"
proof -
  assume step: "agent_step lib t (env, ev) = Some t'"
  show ?thesis
  proof (cases ev)
    case AEvTimer
    then show ?thesis
      using step grows_step_timer [of env "t\<lparr>at_timer := StepIdle\<rparr>"] by (auto split: if_splits)
  next
    case (AEvStream x)
    then show ?thesis
      using step grows_deliver [of env "t\<lparr>at_stream := st\<rparr>" for st] by (auto split: option.splits if_splits)
  next
    case (AEvExec x)
    then show ?thesis
      using step grows_agent_tool_done [of env "t\<lparr>at_exec := w\<rparr>" for w]
      by (auto intro: grows_same split: option.splits list.splits if_splits)
  next
    case (AEvCancel ok)
    then show ?thesis using step grows_cancel by (auto split: if_splits)
  next
    case AEvTimerClosed
    then show ?thesis using step by (auto intro: grows_same split: if_splits)
  qed
qed

section \<open>What a turn shows\<close>

text \<open>The agent's part of a run of the loop: the entries run, as many as there are gates, each with the gate it met.\<close>

fun entries_run ::
    "agent_lib \<Rightarrow> gate_met list \<Rightarrow> loop_entry list \<Rightarrow> loop_state \<times> agent_turn \<Rightarrow> (loop_state \<times> agent_turn) option" where
  "entries_run alib [] es lt = Some lt"
| "entries_run alib (g # gs) [] lt = None"
| "entries_run alib (g # gs) (e # es) lt =
     (case loop_step alib (with_gate g) e lt of
        None \<Rightarrow> None
      | Some lt' \<Rightarrow> if at_aborted (snd lt') then None else entries_run alib gs es lt')"

lemma entries_run_Cons:
  assumes "entries_run alib (g # gs) es lt = Some lt'"
  obtains e es' lt1 where "es = e # es'" "loop_step alib (with_gate g) e lt = Some lt1" "\<not> at_aborted (snd lt1)"
    "entries_run alib gs es' lt1 = Some lt'"
  using assms by (cases es) (auto split: option.splits if_splits)

lemma loop_step_turn:
  assumes "loop_step alib f e (lo, t) = Some (lo', t')"
  obtains (same) "t' = t" | (step) env ev where "agent_step alib t (f env, ev) = Some t'"
proof (cases e)
  case (Fires env ev)
  then show ?thesis using assms step by auto
next
  case (Sigint env ok)
  then show ?thesis
    using assms same step [of env "AEvCancel ok"] by (auto simp: Let_def simp del: agent_step.simps split: if_splits)
qed (use assms same in simp)

lemma loop_step_grows:
  "loop_step alib (with_gate g) e (lo, t) = Some (lo', t') \<Longrightarrow>
   prefix (at_out t) (at_out t') \<and> at_cb t' = at_cb t
   \<and> (cb_gate (at_cb t) \<longrightarrow> set (started_calls (at_out t')) \<subseteq> set (started_calls (at_out t)) \<union> approved (gm_tools g) (gm_gate g))"
  by (erule loop_step_turn) (auto dest!: agent_step_grows simp: out_grows_def with_gate_def)

lemma fresh_output_split: "prefix (at_out t) (at_out t') \<Longrightarrow> at_out t' = at_out t @ fresh_output t t'"
  by (auto simp: fresh_output_def prefix_def)

lemma entries_run_reach:
  assumes "entries_run alib gs es (lo, t) = Some (lo', t')" "agent_reach alib t0 t" "\<not> at_aborted t"
  shows "agent_reach alib t0 t' \<and> \<not> at_aborted t'"
  using assms
proof (induction gs arbitrary: es lo t)
  case (Cons g gs)
  obtain e es' lo1 t1 where e: "loop_step alib (with_gate g) e (lo, t) = Some (lo1, t1)" "\<not> at_aborted t1"
      "entries_run alib gs es' (lo1, t1) = Some (lo', t')"
    by (rule entries_run_Cons [OF Cons.prems(1)]) (metis prod.collapse)
  have "agent_reach alib t0 t1"
    by (rule loop_step_turn [OF e(1)]) (use Cons.prems(2,3) in \<open>auto intro: turn_event\<close>)
  then show ?case using Cons.IH [OF e(3)] e(2) by simp
qed simp

lemma entries_run_grows:
  assumes "entries_run alib gs es (lo, t) = Some (lo', t')"
  shows "prefix (at_out t) (at_out t') \<and> at_cb t' = at_cb t \<and> (cb_gate (at_cb t) \<longrightarrow>
    set (started_calls (at_out t')) \<subseteq> set (started_calls (at_out t)) \<union> (\<Union>g \<in> set gs. approved (gm_tools g) (gm_gate g)))"
  using assms
proof (induction gs arbitrary: es lo t)
  case (Cons g gs)
  obtain e es' lo1 t1 where e: "loop_step alib (with_gate g) e (lo, t) = Some (lo1, t1)"
      "entries_run alib gs es' (lo1, t1) = Some (lo', t')"
    by (rule entries_run_Cons [OF Cons.prems]) (metis prod.collapse)
  show ?case using loop_step_grows [OF e(1)] Cons.IH [OF e(2)] prefix_order.trans by auto
qed simp

text \<open>The contexts' components that do not depend on Lua.\<close>

fun ctx_callback :: "(cjson \<Rightarrow> string) \<Rightarrow> agent_output \<Rightarrow> turn_ctx \<Rightarrow> turn_ctx" where
  "ctx_callback cprint (AText text) ctx =
     (if tc_failed_write ctx \<or> text = [] then ctx else snd (show_text text ctx))"
| "ctx_callback cprint (AToolStart name args) ctx = on_tool_start cprint name args ctx"
| "ctx_callback cprint (AToolResult name result) ctx =
     stderr_line (''mua: <- '' @ name @ '': '' @ (if tr_is_error result then ''error'' else ''ok'')) ctx"
| "ctx_callback cprint (ANotice msg) ctx = on_notice msg ctx"
| "ctx_callback cprint (AFinish outcome err) ctx = on_finish outcome err ctx"
| "ctx_callback cprint (AWarn msg) ctx = ctx"

lemma turn_callback_ctx: "fst (turn_callback lib cprint x cw) = ctx_callback cprint x (fst cw)"
  by (cases x; cases cw) (auto simp: on_text_def on_tool_result_def split: prod.split bool.split)

lemma fold_callback_ctx: "fst (fold (turn_callback lib cprint) xs cw) = fold (ctx_callback cprint) xs (fst cw)"
  by (induction xs arbitrary: cw) (simp_all add: turn_callback_ctx)

lemma turn_loop_run:
  assumes "turn_loop lib alib sc gate k es lt cw = Some (left, lt', gs, ctx, w)"
  shows "entries_run alib gs es lt = Some lt' \<and> (at_finished (snd lt') \<or> lo_stop (fst lt'))
    \<and> (length gs = length es \<or> lo_stop (fst lt'))
    \<and> (\<forall>g \<in> set gs. \<exists>k w. g = turn_gate lib (al_cprint alib) sc gate k w)
    \<and> (\<exists>new. at_out (snd lt') = at_out (snd lt) @ new \<and> ctx = fold (ctx_callback (al_cprint alib)) new (fst cw))"
  using assms
proof (induction es arbitrary: k lt cw gs)
  case Nil
  then show ?case by (auto split: if_splits)
next
  case (Cons e es)
  let ?g = "turn_gate lib (al_cprint alib) sc gate k (snd cw)"
  consider (stop) "lo_stop (fst lt)" "gs = []" "lt' = lt" "ctx = fst cw"
    | (run) lt1 gs1 where "loop_step alib (with_gate ?g) e lt = Some lt1" "\<not> at_aborted (snd lt1)" "gs = ?g # gs1"
      "turn_loop lib alib sc gate (k + 1) es lt1 (fold (turn_callback lib (al_cprint alib)) (fresh_output (snd lt) (snd lt1))
         (apsnd (\<lambda>w. sync_session (snd lt1) (sc_lua sc k w)) cw)) = Some (left, lt', gs1, ctx, w)"
    using Cons.prems by (auto simp: Let_def split: if_splits option.splits)
  then show ?case
  proof cases
    case run
    have "at_out (snd lt1) = at_out (snd lt) @ fresh_output (snd lt) (snd lt1)"
      using loop_step_grows [of alib ?g e "fst lt" "snd lt" "fst lt1" "snd lt1"] run(1) fresh_output_split by simp
    then show ?thesis using Cons.IH [OF run(4)] run(1-3) by (auto simp: fold_callback_ctx)
  qed simp
qed

text \<open>The text a turn delivers.\<close>

definition texts_of :: "agent_output list \<Rightarrow> string" where
  "texts_of outs = concat (map (\<lambda>x. case x of AText s \<Rightarrow> s | _ \<Rightarrow> []) outs)"

lemma texts_of_simps [simp]:
  "texts_of [] = []" "texts_of (AText s # outs) = s @ texts_of outs"
  "\<forall>s. x \<noteq> AText s \<Longrightarrow> texts_of (x # outs) = texts_of outs" "texts_of (xs @ ys) = texts_of xs @ texts_of ys"
  by (simp_all add: texts_of_def split: agent_output.split)

text \<open>The text fits the buffer of styled output.\<close>

definition styled_ok :: "string \<Rightarrow> bool" where
  "styled_ok t \<longleftrightarrow> (\<exists>r big. render_feed render_init t (buf_init kRenderOutMax) = (True, r, big))"

lemma styled_ok_prefix: "styled_ok (t @ u) \<Longrightarrow> styled_ok t"
  unfolding styled_ok_def render_feed_append by (auto split: prod.splits bool.splits)

text \<open>The context after the text \<open>t\<close>, every write having succeeded.\<close>

definition ctx_shows :: "turn_ctx \<Rightarrow> string \<Rightarrow> bool" where
  "ctx_shows ctx t \<longleftrightarrow> \<not> tc_failed_write ctx \<and> tc_outcome ctx = None \<and> (\<forall>n. tc_stdout_ok ctx n)
     \<and> (if tc_render_on ctx
        then (\<exists>big. render_feed render_init t (buf_init kRenderOutMax) = (True, tc_rndr ctx, big)
                \<and> out_suffix (tc_shown ctx) big (tc_out ctx) \<and> buf_data (tc_out ctx) = [])
             \<and> (tc_wrote_any ctx \<longleftrightarrow> tc_shown ctx \<noteq> [])
        else tc_shown ctx = t \<and> (tc_wrote_any ctx \<longleftrightarrow> t \<noteq> []) \<and> (tc_last_was_newline ctx \<longleftrightarrow> t \<noteq> [] \<and> last t = LF))"

lemma ctx_shows_lines: "ctx_shows (stderr_line s ctx) t = ctx_shows ctx t"
  by (simp add: ctx_shows_def stderr_line_def)

lemma out_suffix_ok: "out_suffix p big small \<Longrightarrow> buf_ok small"
  by (simp add: out_suffix_def)

lemma drained:
  assumes "out_suffix (tc_shown ctx) big (tc_out ctx)" "\<forall>n. tc_stdout_ok ctx n" "tc_wrote_any ctx \<longleftrightarrow> tc_shown ctx \<noteq> []"
  obtains ctx' where "drain_out ctx = (True, ctx')" "out_suffix (tc_shown ctx') big (tc_out ctx')" "buf_data (tc_out ctx') = []"
    "tc_wrote_any ctx' \<longleftrightarrow> tc_shown ctx' \<noteq> []" "tc_shown ctx' = buf_data big" "tc_rndr ctx' = tc_rndr ctx"
    "tc_failed_write ctx' = tc_failed_write ctx" "tc_outcome ctx' = tc_outcome ctx" "tc_stdout_ok ctx' = tc_stdout_ok ctx"
    "tc_render_on ctx' = tc_render_on ctx"
proof (cases "buf_data (tc_out ctx) = []")
  case True
  then show ?thesis using assms by (intro that [of ctx]) (auto simp: drain_out_def buf_size_def out_suffix_def)
next
  case False
  let ?ctx = "ctx\<lparr>tc_writes := tc_writes ctx + 1, tc_shown := tc_shown ctx @ buf_data (tc_out ctx), tc_wrote_any := True,
    tc_out := buf_reset (tc_out ctx)\<rparr>"
  have "buf_ok (buf_reset (tc_out ctx))" using assms(1) by (auto simp: out_suffix_def intro: buf_reset_ok)
  then show ?thesis
    using False assms by (intro that [of ?ctx]) (auto simp: drain_out_def buf_size_def stdout_write_def out_suffix_def buf_reset_def)
qed

lemma show_text_shows:
  assumes "ctx_shows ctx t" "s \<noteq> []" "tc_render_on ctx \<Longrightarrow> styled_ok (t @ s)"
  shows "ctx_shows (snd (show_text s ctx)) (t @ s) \<and> tc_render_on (snd (show_text s ctx)) = tc_render_on ctx"
proof (cases "tc_render_on ctx")
  case False
  then show ?thesis using assms(1,2) by (auto simp: ctx_shows_def show_text_def stdout_write_def)
next
  case True
  then obtain big where big: "render_feed render_init t (buf_init kRenderOutMax) = (True, tc_rndr ctx, big)"
      "out_suffix (tc_shown ctx) big (tc_out ctx)" "buf_data (tc_out ctx) = []"
    using assms(1) by (auto simp: ctx_shows_def)
  then obtain r big1 where r: "render_feed (tc_rndr ctx) s big = (True, r, big1)"
    using assms(3) [OF True] by (auto simp: styled_ok_def render_feed_append split: prod.splits bool.splits)
  then obtain small where small: "render_feed (tc_rndr ctx) s (tc_out ctx) = (True, r, small)" "out_suffix (tc_shown ctx) big1 small"
    using render_feed_suffix [OF r big(2)] by blast
  let ?ctx = "ctx\<lparr>tc_rndr := r, tc_out := small\<rparr>"
  have "render_feed render_init (t @ s) (buf_init kRenderOutMax) = (True, r, big1)"
    using big(1) r by (simp add: render_feed_append)
  moreover obtain ctx' where "drain_out ?ctx = (True, ctx')" "out_suffix (tc_shown ctx') big1 (tc_out ctx')"
      "buf_data (tc_out ctx') = []" "tc_wrote_any ctx' \<longleftrightarrow> tc_shown ctx' \<noteq> []" "tc_rndr ctx' = r"
      "\<not> tc_failed_write ctx'" "tc_outcome ctx' = None" "\<forall>n. tc_stdout_ok ctx' n" "tc_render_on ctx'"
    by (rule drained [of ?ctx big1]) (use small(2) assms(1) True in \<open>auto simp: ctx_shows_def\<close>)
  ultimately show ?thesis using True small(1) by (simp add: show_text_def ctx_shows_def)
qed

lemma fold_shows:
  assumes "ctx_shows ctx t" "no_finish outs" "tc_render_on ctx \<Longrightarrow> styled_ok (t @ texts_of outs)"
  shows "ctx_shows (fold (ctx_callback cprint) outs ctx) (t @ texts_of outs)
    \<and> tc_render_on (fold (ctx_callback cprint) outs ctx) = tc_render_on ctx"
  using assms
proof (induction outs arbitrary: ctx t)
  case (Cons x outs)
  have no: "no_finish outs" using Cons.prems(2) by simp
  have same: "ctx_shows (fold (ctx_callback cprint) outs (stderr_line m ctx)) (t @ texts_of outs)
      \<and> tc_render_on (fold (ctx_callback cprint) outs (stderr_line m ctx)) = tc_render_on ctx"
    if "\<forall>s. x \<noteq> AText s" for m
    using Cons.IH [of "stderr_line m ctx" t] Cons.prems(1,3) no that
    by (simp add: ctx_shows_lines) (simp add: stderr_line_def)
  show ?case
  proof (cases x)
    case (AText s)
    show ?thesis
    proof (cases "s = []")
      case True
      then show ?thesis using Cons AText by simp
    next
      case False
      then have "tc_render_on ctx \<Longrightarrow> styled_ok (t @ s)"
        using Cons.prems(3) AText styled_ok_prefix [of "t @ s" "texts_of outs"] by simp
      from show_text_shows [OF Cons.prems(1) False this]
      show ?thesis
        using Cons.IH [of "snd (show_text s ctx)" "t @ s"] Cons.prems AText False no by (simp add: ctx_shows_def)
    qed
  next
    case (AFinish oc err)
    then show ?thesis using Cons.prems(2) by (simp add: is_finish_def)
  next
    case (AWarn m)
    then show ?thesis using Cons.IH [of ctx t] Cons.prems(1,3) no by simp
  qed (use same in \<open>simp_all add: on_tool_start_def on_notice_def Let_def\<close>)
qed simp

text \<open>What standard output holds at the end of a turn that finishes with \<open>outcome\<close>.\<close>

definition shown_text :: "bool \<Rightarrow> string \<Rightarrow> turn_outcome \<Rightarrow> string" where
  "shown_text render_on t outcome =
     (let body = (if render_on then render_text False t else t)
      in body @ (if outcome = kTurnDone \<and> body \<noteq> [] \<and> last t \<noteq> LF then [LF] else []))"

lemma render_text_Nil: "render_text fence [] = []"
  by (simp add: render_text.simps [of _ "[]"])

lemma fits_styled:
  assumes "length (render_text False t) \<le> kRenderOutMax"
  obtains r big r' big' where "render_feed render_init t (buf_init kRenderOutMax) = (True, r, big)"
    "render_flush r big = (True, r', big')" "buf_data big' = render_text False t"
    "rn_ended_newline r' \<longleftrightarrow> t = [] \<or> last t = NEWLINE"
proof -
  have "buf_ok (buf_init kRenderOutMax)" by (rule buf_init_ok) (simp add: kRenderOutMax_def)
  moreover have "buf_size (buf_init kRenderOutMax) + length (render_text (rn_in_fence render_init) t) \<le> buf_max (buf_init kRenderOutMax)"
    using assms by (simp add: buf_init_def buf_size_def render_init_def)
  ultimately obtain r' big' where all: "render_all render_init t (buf_init kRenderOutMax) = (True, r', big')"
      "rn_ended_newline r' = (if t = [] then rn_ended_newline render_init else last t = NEWLINE)"
      "appended (buf_init kRenderOutMax) (render_text (rn_in_fence render_init) t) big'"
    using render_all_text [OF at_line_start_init] by blast
  obtain ok r big where feed: "render_feed render_init t (buf_init kRenderOutMax) = (ok, r, big)" by (metis prod_cases3)
  then have "ok" "render_flush r big = (True, r', big')"
    using all(1) by (cases ok; simp add: render_all_def)+
  moreover have "buf_data big' = render_text False t" "rn_ended_newline r' \<longleftrightarrow> t = [] \<or> last t = NEWLINE"
    using all(2,3) by (simp_all add: appended_def render_init_def buf_init_def)
  ultimately show ?thesis using that feed by simp
qed

lemma finish_shows:
  assumes "ctx_shows ctx t" "tc_render_on ctx \<Longrightarrow> length (render_text False t) \<le> kRenderOutMax"
  shows "tc_shown (on_finish outcome err ctx) = shown_text (tc_render_on ctx) t outcome
    \<and> tc_outcome (on_finish outcome err ctx) = Some outcome \<and> \<not> tc_failed_write (on_finish outcome err ctx)"
proof (cases "tc_render_on ctx")
  case False
  then show ?thesis
    using assms(1)
    by (auto simp: ctx_shows_def on_finish_def flush_pending_def Let_def shown_text_def stdout_write_def stderr_line_def
        split: option.split)
next
  case True
  obtain r big r' big' where f: "render_feed render_init t (buf_init kRenderOutMax) = (True, r, big)"
    "render_flush r big = (True, r', big')" "buf_data big' = render_text False t"
    "rn_ended_newline r' \<longleftrightarrow> t = [] \<or> last t = NEWLINE"
    by (rule fits_styled [OF assms(2) [OF True]])
  then have c: "r = tc_rndr ctx" "out_suffix (tc_shown ctx) big (tc_out ctx)" "buf_data (tc_out ctx) = []"
    using assms(1) True by (auto simp: ctx_shows_def)
  then obtain small where small: "render_flush r (tc_out ctx) = (True, r', small)" "out_suffix (tc_shown ctx) big' small"
    using render_flush_suffix [OF f(2)] by blast
  let ?ctx = "ctx\<lparr>tc_outcome := Some outcome, tc_rndr := r', tc_out := small\<rparr>"
  obtain ctx' where ctx': "drain_out ?ctx = (True, ctx')" "tc_wrote_any ctx' \<longleftrightarrow> tc_shown ctx' \<noteq> []"
      "tc_shown ctx' = render_text False t" "tc_rndr ctx' = r'" "\<not> tc_failed_write ctx'" "tc_outcome ctx' = Some outcome"
      "\<forall>n. tc_stdout_ok ctx' n" "tc_render_on ctx'"
    by (rule drained [of ?ctx big']) (use small(2) assms(1) True f(3) in \<open>auto simp: ctx_shows_def\<close>)
  have "flush_pending (ctx\<lparr>tc_outcome := Some outcome\<rparr>) = ctx'"
    using True small(1) c(1) ctx'(1) assms(1) by (simp add: flush_pending_def ctx_shows_def)
  moreover have "LF = NEWLINE" by (simp add: NEWLINE_def)
  ultimately show ?thesis
    using ctx' True f(4) render_text_Nil
    by (auto simp: on_finish_def Let_def shown_text_def stdout_write_def stderr_line_def split: option.split)
qed

lemma stdout_write_outcome [simp]: "tc_outcome (snd (stdout_write s ctx)) = tc_outcome ctx"
  by (simp add: stdout_write_def)

lemma drain_out_outcome: "tc_outcome (snd (drain_out ctx)) = tc_outcome ctx"
  by (simp add: drain_out_def stdout_write_def)

lemma show_text_outcome: "tc_outcome (snd (show_text s ctx)) = tc_outcome ctx"
proof -
  have d: "drain_out c = (b, c') \<Longrightarrow> tc_outcome c' = tc_outcome c" for b c c' using drain_out_outcome [of c] by simp
  have w: "stdout_write s ctx = (b, c') \<Longrightarrow> tc_outcome c' = tc_outcome ctx" for b c' using stdout_write_outcome [of s ctx] by simp
  show ?thesis
    by (auto simp: show_text_def write_failed_def split: prod.split bool.split if_splits dest: d w)
qed

lemma on_finish_outcome: "tc_outcome (on_finish outcome err ctx) = Some outcome"
proof -
  have flush: "tc_outcome (flush_pending c) = tc_outcome c" for c
    by (auto simp: flush_pending_def drain_out_def stdout_write_def split: prod.split)
  show ?thesis by (auto simp: on_finish_def Let_def flush stderr_line_def split: option.split)
qed

lemma ctx_callback_outcome: "\<not> is_finish x \<Longrightarrow> tc_outcome (ctx_callback cprint x ctx) = tc_outcome ctx"
  by (cases x) (simp_all add: show_text_outcome on_tool_start_def on_notice_def stderr_line_def is_finish_def Let_def)

lemma fold_outcome: "no_finish outs \<Longrightarrow> tc_outcome (fold (ctx_callback cprint) outs ctx) = tc_outcome ctx"
  by (induction outs arbitrary: ctx) (simp_all add: ctx_callback_outcome)

lemma started_turn:
  "agent_turn_start lib mua_o os timers opts session cb user = Some (Inr t, s) \<Longrightarrow>
   at_out t = [] \<and> \<not> at_aborted t \<and> Some (at_cb t) = cb"
  by (auto simp: agent_turn_start_def Let_def split: option.splits prod.splits if_splits)

lemma ctx_shows_init: "\<forall>n. ok n \<Longrightarrow> ctx_shows ((turn_ctx_init gate on ok)\<lparr>tc_live := True\<rparr>) []"
proof -
  have "buf_ok (buf_init kRenderOutMax)" by (rule buf_init_ok) (simp add: kRenderOutMax_def)
  then show "\<forall>n. ok n \<Longrightarrow> ?thesis"
    by (auto simp: ctx_shows_def turn_ctx_init_def out_suffix_def) (simp add: buf_init_def)
qed

text \<open>The loop as a turn meets it: the signals that waited have been run, and the turn's callback is registered.\<close>

definition armed :: "turn_script \<Rightarrow> loop_state \<Rightarrow> loop_state" where
  "armed sc lo = loop_set_interrupt_cb (Some 0) (loop_run_nowait (sc_pending sc) lo)"

lemma run_one_turn_agent:
  assumes "run_one_turn lib alib sc gate opts text sess lo w = Some (code, hard_stop, sess', ctx, w', le)"
    "agent_turn_start alib (ms_options (lw_mua w)) (sc_writes sc) (sc_timers sc) (Some opts) (Some sess)
       (Some cbs_main) (cstr_to_string (Some text)) = Some (Inr t0, s0)"
  obtains t lo' where "entries_run alib (le_gates le) (sc_events sc) (armed sc lo, t0) = Some (lo', t)"
    "le_turn le = Some t" "le_loop le = stop_cleared lo'" "at_finished t \<or> lo_stop lo'"
    "length (le_gates le) = length (sc_events sc) \<or> lo_stop lo'"
    "\<forall>g \<in> set (le_gates le). \<exists>k w. g = turn_gate lib (al_cprint alib) sc gate k w"
    "sess' = at_session t" "turn_exit ctx = (code, hard_stop)"
    "ctx = fold (ctx_callback (al_cprint alib)) (at_out t)
       ((turn_ctx_init gate (sc_tty sc \<and> options_markdown (ms_options (lw_mua w))) (sc_stdout_ok sc))\<lparr>tc_live := True\<rparr>)"
proof -
  let ?ctx = "(turn_ctx_init gate (sc_tty sc \<and> options_markdown (ms_options (lw_mua w))) (sc_stdout_ok sc))\<lparr>tc_live := True\<rparr>"
  obtain left lo' t gs where t: "turn_loop lib alib sc gate 0 (sc_events sc) (armed sc lo, t0) (?ctx, sync_session t0 w)
        = Some (left, (lo', t), gs, ctx, w')"
      "turn_exit ctx = (code, hard_stop)" "sess' = at_session t"
      "le = \<lparr>le_loop = stop_cleared lo', le_turn = Some t, le_gates = gs\<rparr>"
    using assms by (auto simp: run_one_turn_def armed_def Let_def split: option.splits prod.splits)
  from turn_loop_run [OF t(1)] show ?thesis using that [of lo' t] t(2-) started_turn [OF assms(2)] by auto
qed

definition outcome_code :: "turn_outcome \<Rightarrow> int" where
  "outcome_code outcome =
     (case outcome of kTurnDone \<Rightarrow> kExitOk | kTurnInterrupted \<Rightarrow> kExitInterrupted | _ \<Rightarrow> kExitFailure)"

text \<open>C10. What a turn prints, and its exit code, in terms of the callbacks of the agent: when every write
  succeeds, standard output is exactly the model's text (piped output, byte for byte) or the text rendered
  as a whole (on a terminal with \<open>markdown\<close> set, whatever the chunks were, up to the size of the buffer of
  styled output), and one newline more when a completed turn did not end in one. The code is 0 for a completed turn,
  130 for an interrupted one and for a loop stopped before the turn finished, 1 otherwise; the session
  kept is the agent's.\<close>

theorem turn_output:
  assumes "run_one_turn lib alib sc gate opts text sess lo w = Some (code, hard_stop, sess', ctx, w', le)"
    "agent_turn_start alib (ms_options (lw_mua w)) (sc_writes sc) (sc_timers sc) (Some opts) (Some sess)
       (Some cbs_main) (cstr_to_string (Some text)) = Some (Inr t0, s0)"
    "parser_ok (al_cparse alib)" "options_ok (ms_options (lw_mua w))" "ss_count sess = length (ss_messages sess)"
    "\<forall>n. sc_stdout_ok sc n" "render_on = (sc_tty sc \<and> options_markdown (ms_options (lw_mua w)))"
  shows "\<exists>t lo'. entries_run alib (le_gates le) (sc_events sc) (armed sc lo, t0) = Some (lo', t) \<and> le_turn le = Some t
    \<and> (length (le_gates le) = length (sc_events sc) \<or> lo_stop lo') \<and> sess' = at_session t \<and>
    (if at_finished t
     then \<exists>outs outcome err. at_out t = outs @ [AFinish outcome err] \<and> \<not> hard_stop \<and>
       ((render_on \<longrightarrow> length (render_text False (texts_of outs)) \<le> kRenderOutMax) \<longrightarrow>
          code = outcome_code outcome \<and> tc_shown ctx = shown_text render_on (texts_of outs) outcome)
     else hard_stop \<and> code = kExitInterrupted)"
proof -
  let ?ctx = "(turn_ctx_init gate render_on (sc_stdout_ok sc))\<lparr>tc_live := True\<rparr>"
  obtain t lo' where run: "entries_run alib (le_gates le) (sc_events sc) (armed sc lo, t0) = Some (lo', t)"
      "le_turn le = Some t" "length (le_gates le) = length (sc_events sc) \<or> lo_stop lo'" "sess' = at_session t"
    and t: "turn_exit ctx = (code, hard_stop)" "ctx = fold (ctx_callback (al_cprint alib)) (at_out t) ?ctx"
    by (rule run_one_turn_agent [OF assms(1,2)]) (use assms(7) in simp)
  have reach: "agent_reach alib t0 t"
    using entries_run_reach [OF run(1) turn_started] started_turn [OF assms(2)] by simp
  note ok = turn_reach_ok [OF assms(3,4,5,2) reach, unfolded agent_ok_def]
  have init: "ctx_shows ?ctx []" "tc_render_on ?ctx = render_on" "tc_outcome ?ctx = None"
    using ctx_shows_init [OF assms(6)] by (simp_all add: turn_ctx_init_def)
  show ?thesis
  proof (cases "at_finished t")
    case False
    then have "no_finish (at_out t)" using ok by (auto simp: agent_phase_defs)
    then have "tc_outcome ctx = None" using t(2) init(3) fold_outcome by simp
    then show ?thesis using run t(1) False by (auto simp: turn_exit_def)
  next
    case True
    then obtain outs outcome err where out: "at_out t = outs @ [AFinish outcome err]" "no_finish outs"
      using ok by (auto simp: agent_phase_defs)
    let ?ctx1 = "fold (ctx_callback (al_cprint alib)) outs ?ctx"
    have ctx: "ctx = on_finish outcome err ?ctx1" using t(2) out(1) by simp
    have "tc_outcome ctx = Some outcome"
      by (simp add: ctx on_finish_outcome)
    moreover have "code = outcome_code outcome \<and> tc_shown ctx = shown_text render_on (texts_of outs) outcome"
      if fits: "render_on \<Longrightarrow> length (render_text False (texts_of outs)) \<le> kRenderOutMax"
    proof -
      have "styled_ok (texts_of outs)" if "render_on"
        by (rule fits_styled [OF fits [OF that]]) (auto simp: styled_ok_def)
      then have "ctx_shows ?ctx1 (texts_of outs)" "tc_render_on ?ctx1 = render_on"
        using fold_shows [OF init(1) out(2)] init(2) by simp_all
      then have "tc_shown ctx = shown_text render_on (texts_of outs) outcome" "tc_outcome ctx = Some outcome"
          "\<not> tc_failed_write ctx"
        using finish_shows [of ?ctx1 "texts_of outs" outcome err] fits ctx by simp_all
      then show ?thesis using t(1) by (cases outcome) (simp_all add: turn_exit_def outcome_code_def)
    qed
    ultimately show ?thesis using run t(1) True out(1) by (auto simp: turn_exit_def)
  qed
qed

text \<open>C30. A line of the model's text can end the turn on a terminal although every write would succeed: a
  code span of no characters, two bytes, becomes ten, so a line of back-ticks of 0.8 MiB and more, which
  the line buffer holds, overflows the buffer of styled output; nothing of it is shown, the failure is
  taken for a closed standard output, the turn is canceled and its exit code is 1.\<close>

theorem backtick_line_fails_turn:
  assumes "419431 \<le> n" "2 * n < kRenderLineMax"
  shows "case on_text lib (CHR ''a'' # replicate (2 * n) (CHR 0x60) @ [LF])
                (turn_ctx_init gate True (\<lambda>k. True), w) of
           (ctx, w') \<Rightarrow> tc_failed_write ctx \<and> tc_cancels ctx = 1 \<and> tc_writes ctx = 0 \<and> w' = w
             \<and> fst (turn_exit (on_finish outcome err ctx)) = kExitFailure"
proof -
  let ?l = "ticks_line n" and ?ctx = "turn_ctx_init gate True (\<lambda>k. True)"
  have line: "CHR ''a'' # replicate (2 * n) (CHR 0x60) @ [LF] = ?l @ [NEWLINE]"
    by (simp add: ticks_line_def TICK_def NEWLINE_def)
  have "buf_ok (buf_init kRenderOutMax)" by (rule buf_init_ok) (simp add: kRenderOutMax_def)
  moreover have "NEWLINE \<notin> set ?l" by (simp add: ticks_line_def NEWLINE_def TICK_def)
  moreover have "length ?l \<le> kRenderLineMax" using assms(2) by (simp add: ticks_line_def)
  moreover have "buf_max (buf_init kRenderOutMax)
      < buf_size (buf_init kRenderOutMax) + length (concat (line_pieces (rn_in_fence render_init) ?l))"
    using assms(1) ticks_line_length [of n] by (simp add: buf_init_def buf_size_def render_init_def kRenderOutMax_def)
  ultimately have "\<not> fst (render_feed render_init (?l @ [NEWLINE]) (buf_init kRenderOutMax))"
    by (intro feed_overflow [OF at_line_start_init])
  then obtain r out where "render_feed (tc_rndr ?ctx) (?l @ [NEWLINE]) (tc_out ?ctx) = (False, r, out)"
    by (cases "render_feed render_init (?l @ [NEWLINE]) (buf_init kRenderOutMax)") (simp add: turn_ctx_init_def)
  then have "show_text (?l @ [NEWLINE]) ?ctx = (False, write_failed (?ctx\<lparr>tc_rndr := r, tc_out := out\<rparr>))"
    by (simp add: show_text_def) (simp add: turn_ctx_init_def)
  then show ?thesis
    unfolding line
    by (simp add: on_text_def turn_exit_def on_finish_def flush_pending_def write_failed_def Let_def)
      (simp add: turn_ctx_init_def)
qed

theorem backtick_line_fails_turn_witness:
  "fst (turn_exit (on_finish kTurnInterrupted None
     (fst (on_text (bridge_lib 8 (\<lambda>f. LuaNil)) (CHR ''a'' # replicate (2 * 500000) (CHR 0x60) @ [LF])
             (turn_ctx_init ApproveAll True (\<lambda>k. True), two_hooks))))) = kExitFailure"
  using backtick_line_fails_turn [where n = 500000 and lib = "bridge_lib 8 (\<lambda>f. LuaNil)" and gate = ApproveAll
      and w = two_hooks and outcome = kTurnInterrupted and err = None]
  by (simp add: kRenderLineMax_def split: prod.splits)

section \<open>A turn interrupted before its first request\<close>

definition sample_script :: turn_script where
  "sample_script = \<lparr>sc_tty = False, sc_stdout_ok = (\<lambda>_. True), sc_writes = (\<lambda>_ n. Wrote n), sc_timers = (True, True),
     sc_pending = [LoopSigint], sc_events = [Sigint (sample_env True) True, Poll, Fires (sample_env True) AEvTimer],
     sc_lua = (\<lambda>_ w. w), sc_meets = (\<lambda>_ _ w. w), sc_prompts = (\<lambda>_ _. (False, [])), sc_input = 0\<rparr>"

lemma sample_start_main:
  "agent_turn_start sample_lib (ms_options (lw_mua (bridge_world [] Map.empty (\<lambda>t. [])))) (sc_writes sample_script)
     (sc_timers sample_script) (Some sample_opts) (Some sample_session) (Some cbs_main) (cstr_to_string (Some ''hi''))
   = sample_start"
  by (simp add: sample_start_def bridge_world_def sample_script_def cbs_main_def sample_cb_def cstr_to_string_def cstr_def)

lemma armed_loop [simp]:
  "lo_interrupt_cb (armed sc lo) = Some 0" "lo_sigint_count (armed sc lo) = 0" "\<not> lo_stop (armed sc lo)"
  by (simp_all add: armed_def loop_set_interrupt_cb_def loop_run_nowait_def uv_run_def split: prod.split)

text \<open>A turn that has just started, an interrupt of it, and the step timer that meets the interrupt.\<close>

definition ready_turn :: "agent_turn \<Rightarrow> bool" where
  "ready_turn t \<longleftrightarrow> at_timer t = StepArmed \<and> \<not> at_finished t \<and> \<not> at_aborted t \<and> at_out t = [] \<and> at_stream t = None
     \<and> at_exec t = None \<and> \<not> at_freed t \<and> at_interrupt t"

lemma started_ready:
  "agent_turn_start lib mua_o os timers opts session cb user = Some (Inr t, s) \<Longrightarrow> ready_turn t"
  by (auto simp: agent_turn_start_def ready_turn_def Let_def split: option.splits prod.splits if_splits)

definition interrupted_turn :: "agent_turn \<Rightarrow> agent_turn" where
  "interrupted_turn t = finish_turn kTurnInterrupted None (t\<lparr>at_canceling := True, at_timer := StepIdle\<rparr>)"

lemma interrupt_ready:
  assumes "ready_turn t"
  shows "agent_step lib t (env, AEvCancel ok) = Some (t\<lparr>at_canceling := True\<rparr>)"
    "agent_step lib (t\<lparr>at_canceling := True\<rparr>) (env, AEvTimer) = Some (interrupted_turn t)"
    "at_finished (interrupted_turn t)" "\<not> at_aborted (interrupted_turn t)"
    "at_out (interrupted_turn t) = [AFinish kTurnInterrupted None]"
  using assms
  by (simp_all add: ready_turn_def agent_turn_cancel_def step_timer_cb_def finish_turn_def interrupted_turn_def Let_def)

lemma sigint_armed:
  "sigint_cb (armed sc lo) = (armed sc lo)\<lparr>lo_sigint_count := 1, lo_interrupts := lo_interrupts (armed sc lo) @ [0]\<rparr>"
  by (simp add: sigint_cb_def Let_def)

lemma sample_turn_loop:
  assumes "ready_turn t0" "sc_events sc = [Sigint env True, Poll, Fires env' AEvTimer]"
  obtains lo' gs cw' where
    "turn_loop lib alib sc gate k (sc_events sc) (armed sc lo, t0) cw = Some ([], (lo', interrupted_turn t0), gs, cw')"
    "length gs = 3" "hd gs = turn_gate lib (al_cprint alib) sc gate k (snd cw)"
  using assms interrupt_ready [OF assms(1)]
  by (auto simp: sigint_armed sync_interrupt_def ready_turn_def Let_def simp del: agent_step.simps)

definition sample_loop :: loop_state where
  "sample_loop = snd (loop_init (True, True, True) loop_zero)"

theorem turn_output_witness:
  "\<exists>sess' ctx w' le. run_one_turn (bridge_lib 8 (\<lambda>f. LuaNil)) sample_lib sample_script ApproveAll sample_opts ''hi'' sample_session
      sample_loop (bridge_world [] Map.empty (\<lambda>t. [])) = Some (kExitInterrupted, False, sess', ctx, w', le) \<and> tc_shown ctx = []"
proof -
  let ?lib = "bridge_lib 8 (\<lambda>f. LuaNil)" and ?w = "bridge_world [] Map.empty (\<lambda>t. [])"
  obtain t0 s0 where t0: "sample_start = Some (Inr t0, s0)" using sample_started by blast
  have ready: "ready_turn t0" by (rule started_ready [OF t0 [unfolded sample_start_def]])
  let ?t = "interrupted_turn t0"
  have events: "sc_events sample_script = [Sigint (sample_env True) True, Poll, Fires (sample_env True) AEvTimer]"
    by (simp add: sample_script_def)
  obtain lo' gs cw' where loop: "turn_loop ?lib sample_lib sample_script ApproveAll 0 (sc_events sample_script) (armed sample_script sample_loop, t0)
      ((turn_ctx_init ApproveAll (sc_tty sample_script \<and> options_markdown (ms_options (lw_mua ?w))) (sc_stdout_ok sample_script))\<lparr>tc_live := True\<rparr>,
       sync_session t0 ?w) = Some ([], (lo', ?t), gs, cw')"
    by (rule sample_turn_loop [OF ready events])
  obtain ctx w' where cw': "cw' = (ctx, w')" by fastforce
  let ?le = "\<lparr>le_loop = stop_cleared lo', le_turn = Some ?t, le_gates = gs\<rparr>"
  have run: "run_one_turn ?lib sample_lib sample_script ApproveAll sample_opts ''hi'' sample_session sample_loop ?w
      = Some (fst (turn_exit ctx), snd (turn_exit ctx), at_session ?t, ctx, w', ?le)" (is "_ = Some (?code, ?hard_stop, ?sess', _)")
    using loop cw' unfolding run_one_turn_def Let_def sample_start_main t0 armed_def by (simp split: prod.split)
  have "options_ok (ms_options (lw_mua ?w))" using options_init_ok by (simp add: bridge_world_def)
  moreover have "\<forall>n. sc_stdout_ok sample_script n" by (simp add: sample_script_def)
  ultimately obtain t' where "le_turn ?le = Some t'" "if at_finished t'
     then \<exists>outs outcome err. at_out t' = outs @ [AFinish outcome err] \<and> \<not> ?hard_stop \<and>
       ((False \<longrightarrow> length (render_text False (texts_of outs)) \<le> kRenderOutMax) \<longrightarrow>
          ?code = outcome_code outcome \<and> tc_shown ctx = shown_text False (texts_of outs) outcome)
     else ?hard_stop \<and> ?code = kExitInterrupted"
    using turn_output [OF run, unfolded sample_start_main, OF t0 sample_parser_ok _ sample_session_ok, of False]
    by (auto simp: sample_script_def)
  then have "\<not> ?hard_stop \<and> ?code = kExitInterrupted \<and> tc_shown ctx = []"
    using interrupt_ready [OF ready] by (auto simp: outcome_code_def shown_text_def)
  then show ?thesis using run by auto
qed

end
