(* ===== verification/RunProps.thy ===== *)
theory RunProps
  imports FrontendProps BridgeProps ModelsProps SessionProps
begin

text \<open>
  Properties of the composed front end: the gate built from the ToolPre hooks and the base policy, the
  context window every turn of a session is given, what the gates of a process decide and which calls its
  turns start, its exit code, the teardown, and the turn that a second signal leaves behind.
\<close>

section \<open>The composed gate\<close>

definition hook_veto :: "pcall_result list \<Rightarrow> bool" where
  "hook_veto rs \<longleftrightarrow> rs \<noteq> [] \<and> is_veto (last rs)"

definition hook_yes :: "pcall_result list \<Rightarrow> bool" where
  "hook_yes rs \<longleftrightarrow> PcallValue (LuaBool True) \<in> set rs"

text \<open>\<open>rs\<close>: the hooks' answers; the decision, the rewrite and the refusal that follow from them.\<close>

fun gate_follows ::
    "(tool_def \<Rightarrow> cjson \<Rightarrow> gate_decision \<times> string option) \<Rightarrow> tool_def \<Rightarrow> cjson \<Rightarrow> pcall_result list
      \<Rightarrow> gate_decision \<times> cjson option \<times> string option \<Rightarrow> bool" where
  "gate_follows base tool args rs (decision, rewrite, refusal) \<longleftrightarrow>
     (if hook_veto rs
      then decision = kGateRefuse \<and> rewrite = None
        \<and> refusal = Some (case veto_reason rs of Some r \<Rightarrow> r | None \<Rightarrow> ''vetoed by a ToolPre hook'')
      else (rewrite = None \<or> list_ex is_rewrite rs \<and> (\<exists>kvs. rewrite = Some (CObject kvs)))
        \<and> (if hook_yes rs then decision = kGateApprove \<and> refusal = None
           else (decision, refusal) = base tool (case rewrite of Some a \<Rightarrow> a | None \<Rightarrow> args)))"

lemma gate_rewrite_cases:
  assumes "obj_depth x \<le> kMarshalDepthCap"
  obtains (none) "gate_rewrite x = Some None" | (some) kvs where "gate_rewrite x = Some (Some (CObject kvs))" "x \<noteq> ONil"
proof (cases "x = ONil")
  case True
  then show ?thesis using none by (simp add: gate_rewrite_def)
next
  case False
  then show ?thesis
    using assms none some by (cases "cjson_of_obj x") (simp_all add: gate_rewrite_def object_to_cjson_eq)
qed

lemma gate_hooks:
  assumes "0 < hook_count kAutocmdToolPre w" "lua_checkstack lib (lw_top w) 6" "cjson_to_object args = Some (Inr obj)"
  obtains t w1 rs w2 res w' where
    "tool_pre_payload lib (td_name tool) obj w = Some (t, w1)"
    "hook_answers lib t [0..<hook_count kAutocmdToolPre w] w1 = (rs, w2)"
    "gate_with_autocmds lib base tool args w = Some (res, w')" "gate_follows base tool args rs res"
proof -
  obtain t w1 rs w2 v w' where pre: "tool_pre_payload lib (td_name tool) obj w = Some (t, w1)"
      "hook_answers lib t [0..<hook_count kAutocmdToolPre w] w1 = (rs, w2)"
      "mua_lua_autocmd_tool_pre lib (td_name tool) obj w = Some (v, w')"
    and v: "tv_vetoed v \<longleftrightarrow> hook_veto rs" "tv_approve v \<longleftrightarrow> hook_yes rs \<and> \<not> tv_vetoed v" "tv_reason v = veto_reason rs"
      "tv_rewrite v \<noteq> ONil \<longrightarrow> list_ex is_rewrite rs \<and> \<not> tv_vetoed v" "obj_depth (tv_rewrite v) \<le> kMarshalDepthCap"
    using tool_pre_answers [OF assms(1,2), of "td_name tool" obj] unfolding hook_veto_def hook_yes_def by metis
  have count: "autocmd_count (ms_autocmds (lw_mua w)) kAutocmdToolPre \<noteq> 0"
    using assms(1) by (simp add: hook_count_def)
  show thesis
  proof (cases "tv_vetoed v")
    case True
    then have "gate_with_autocmds lib base tool args w = Some ((kGateRefuse, None,
        Some (case tv_reason v of Some r \<Rightarrow> r | None \<Rightarrow> ''vetoed by a ToolPre hook'')), w')"
      using count assms(3) pre(3) by (simp add: gate_with_autocmds_def)
    with that [OF pre(1,2)] show thesis using True v by simp
  next
    case False
    obtain rewrite where r: "gate_rewrite (tv_rewrite v) = Some rewrite"
        "rewrite = None \<or> list_ex is_rewrite rs \<and> (\<exists>kvs. rewrite = Some (CObject kvs))"
      by (rule gate_rewrite_cases [OF v(5)]) (use v(4) in auto)
    define res where "res = (if hook_yes rs then (kGateApprove, rewrite, None)
        else case base tool (case rewrite of Some a \<Rightarrow> a | None \<Rightarrow> args) of (d, refusal) \<Rightarrow> (d, rewrite, refusal))"
    have "gate_with_autocmds lib base tool args w = Some (res, w')"
      using count assms(3) pre(3) False r(1) v(2) by (simp add: gate_with_autocmds_def res_def)
    with that [OF pre(1,2)] show thesis
      using False v(1) r(2) by (simp add: res_def split: prod.split)
  qed
qed

text \<open>C8. The gate a tool call passes is decided by the hooks' answers first. A veto refuses the call, with
  the hook's reason, whatever the policy of the run is; without a veto, an answer \<open>true\<close> approves it
  whatever the policy is; otherwise the policy decides, on the arguments that will be run. Those differ
  from the proposed ones only when a hook answered a table, and they are a JSON object. Every call gets
  a decision: no assertion fails.\<close>

theorem gate_composes:
  assumes "0 < hook_count kAutocmdToolPre w" "lua_checkstack lib (lw_top w) 6" "cjson_to_object args = Some (Inr obj)"
  shows "\<exists>t w1 rs w2 res w'. tool_pre_payload lib (td_name tool) obj w = Some (t, w1)
    \<and> hook_answers lib t [0..<hook_count kAutocmdToolPre w] w1 = (rs, w2)
    \<and> gate_with_autocmds lib base tool args w = Some (res, w') \<and> gate_follows base tool args rs res"
  by (rule gate_hooks [OF assms, of tool base]) blast

text \<open>The witnesses' tool: \<open>bash\<close>, with two hooks in the world.\<close>

definition bash_def :: tool_def where
  "bash_def = builtin_tool ''bash'' [] BASH_SCHEMA BashTool True"

lemma two_hooks_meet:
  "0 < hook_count kAutocmdToolPre two_hooks" "lua_checkstack (bridge_lib 100 vs) (lw_top two_hooks) 6"
  by (simp_all add: two_hooks_def bridge_world_def hook_count_def autocmd_count_def lua_checkstack_def bridge_lib_def)

lemma empty_args_object: "cjson_to_object (CObject []) = Some (Inr (ODict []))"
  by (simp add: cjson_to_object_eq kMarshalDepthCap_def)

theorem gate_composes_witness:
  "\<exists>t w1 rs w2 res w'.
    tool_pre_payload (bridge_lib 100 yes_then_no) (td_name bash_def) (ODict []) two_hooks = Some (t, w1)
    \<and> hook_answers (bridge_lib 100 yes_then_no) t [0..<hook_count kAutocmdToolPre two_hooks] w1 = (rs, w2)
    \<and> gate_with_autocmds (bridge_lib 100 yes_then_no) agent_gate_approve_all bash_def (CObject []) two_hooks = Some (res, w')
    \<and> gate_follows agent_gate_approve_all bash_def (CObject []) rs res"
  by (rule gate_composes [OF two_hooks_meet empty_args_object])

text \<open>C9. Without \<open>--yes\<close> and without a terminal, a tool that changes anything runs only if a hook
  answered \<open>true\<close> for this very call and none vetoed it: not on a failed marshalling, an exhausted Lua
  stack, a hook that fails or a rewrite.\<close>

theorem headless_needs_hook:
  assumes "td_mutating tool"
    "gate_with_autocmds lib agent_gate_auto_refuse tool args w = Some ((kGateApprove, rewrite, refusal), w')"
  shows "\<exists>obj t w1 rs w2. cjson_to_object args = Some (Inr obj)
    \<and> tool_pre_payload lib (td_name tool) obj w = Some (t, w1)
    \<and> hook_answers lib t [0..<hook_count kAutocmdToolPre w] w1 = (rs, w2) \<and> hook_yes rs \<and> \<not> hook_veto rs"
proof -
  have refuse: "agent_gate_auto_refuse tool a = (kGateRefuse, Some (td_name tool @ '' requires approval; re-run with --yes''))" for a
    using assms(1) by (simp add: agent_gate_auto_refuse_def)
  have count: "0 < hook_count kAutocmdToolPre w"
    using assms(2) refuse by (auto simp: gate_with_autocmds_def hook_count_def split: prod.splits if_splits)
  obtain obj where obj: "cjson_to_object args = Some (Inr obj)"
    using assms(2) refuse count
    by (auto simp: gate_with_autocmds_def hook_count_def split: prod.splits option.splits sum.splits)
  have stack: "lua_checkstack lib (lw_top w) 6"
  proof (rule ccontr)
    assume "\<not> ?thesis"
    then have "mua_lua_autocmd_tool_pre lib (td_name tool) obj w = Some (tool_pre_none, w)"
      using count by (simp add: mua_lua_autocmd_tool_pre_def)
    then show False
      using assms(2) refuse count obj
      by (simp add: gate_with_autocmds_def hook_count_def tool_pre_none_def gate_rewrite_def)
  qed
  show ?thesis
    by (rule gate_hooks [OF count stack obj, of tool agent_gate_auto_refuse])
      (use assms(2) refuse obj in \<open>auto split: if_splits\<close>)
qed

lemma payload_lua: "tool_pre_payload lib name args w = Some (t, w1) \<Longrightarrow> same_lua w w1"
proof -
  assume "tool_pre_payload lib name args w = Some (t, w1)"
  moreover obtain t0 w0 where "autocmd_payload lib ''ToolPre'' w = (t0, w0)" by fastforce
  moreover from this have "same_lua w w0"
    by (auto simp: autocmd_payload_def lua_newtable_def lua_setfield_def rawset_def set_top_def same_lua_def)
  ultimately show ?thesis
    by (rule_tac object_to_lua_returns [of lib args "lua_setfield lib t0 ''tool'' (LuaString name) w0"])
      (auto simp: tool_pre_payload_def lua_setfield_def rawset_def set_top_def same_lua_def Let_def)
qed

definition says_yes :: "nat \<Rightarrow> lua_value" where
  "says_yes f = LuaBool True"

theorem headless_needs_hook_witness:
  "\<exists>obj t w1 rs w2. cjson_to_object (CObject []) = Some (Inr obj)
    \<and> tool_pre_payload (bridge_lib 100 says_yes) (td_name bash_def) obj two_hooks = Some (t, w1)
    \<and> hook_answers (bridge_lib 100 says_yes) t [0..<hook_count kAutocmdToolPre two_hooks] w1 = (rs, w2)
    \<and> hook_yes rs \<and> \<not> hook_veto rs"
proof -
  obtain t w1 rs w2 res w' where g: "tool_pre_payload (bridge_lib 100 says_yes) (td_name bash_def) (ODict []) two_hooks = Some (t, w1)"
      "hook_answers (bridge_lib 100 says_yes) t [0..<hook_count kAutocmdToolPre two_hooks] w1 = (rs, w2)"
      "gate_with_autocmds (bridge_lib 100 says_yes) agent_gate_auto_refuse bash_def (CObject []) two_hooks = Some (res, w')"
      "gate_follows agent_gate_auto_refuse bash_def (CObject []) rs res"
    by (rule gate_hooks [OF two_hooks_meet empty_args_object])
  have "rs = [PcallValue (LuaBool True), PcallValue (LuaBool True)]"
    using g(2) payload_lua [OF g(1), unfolded same_lua_def]
    by (simp add: two_hooks_def bridge_world_def hook_count_def autocmd_count_def call_ref_def hook_ref_def autocmd_ref_at_def
        bridge_lib_def says_yes_def upt_rec set_top_def)
  then show ?thesis
    using headless_needs_hook [of bash_def "bridge_lib 100 says_yes" "CObject []" two_hooks] g(3,4)
    by (cases res) (auto simp: hook_veto_def hook_yes_def bash_def_def builtin_tool_def)
qed

section \<open>The context window of every turn\<close>

text \<open>
  The turns \<open>ts\<close> as long as their model is \<open>m0\<close> have the budget \<open>len\<close>; from the first one with another
  model on, each has the window that the catalogue gives its own model.
\<close>

definition lengths_follow :: "(string \<times> int) list \<Rightarrow> mstring \<Rightarrow> int \<Rightarrow> turn_args list \<Rightarrow> bool" where
  "lengths_follow ps m0 len ts \<longleftrightarrow>
     (\<forall>a \<in> set (takeWhile (\<lambda>a. cstr_eq_nullable (ta_model a) m0) ts). ta_context_length a = len)
     \<and> (\<forall>a \<in> set (dropWhile (\<lambda>a. cstr_eq_nullable (ta_model a) m0) ts).
          ta_context_length a = window_in ps (map_option cstr (ta_model a)))"

lemma cstr_eq_nullable_iff: "cstr_eq_nullable a b \<longleftrightarrow> map_option cstr a = map_option cstr b"
  by (cases a; cases b) (simp_all add: cstr_eq_nullable_def)

lemma cstr_cstr [simp]: "cstr (cstr s) = cstr s"
  by (simp add: cstr_def)

lemma lengths_follow_own:
  assumes "lengths_follow ps (xstrdup_or_null m) (window_in ps (map_option cstr m)) ts"
  shows "\<forall>a \<in> set ts. ta_context_length a = window_in ps (map_option cstr (ta_model a))"
proof
  let ?P = "\<lambda>a. cstr_eq_nullable (ta_model a) (xstrdup_or_null m)"
  fix a assume "a \<in> set ts"
  then consider "a \<in> set (takeWhile ?P ts)" | "a \<in> set (dropWhile ?P ts)"
    by (metis Un_iff set_append takeWhile_dropWhile_id)
  then show "ta_context_length a = window_in ps (map_option cstr (ta_model a))"
  proof cases
    case 1
    then have "cstr_eq_nullable (ta_model a) (xstrdup_or_null m)" by (rule set_takeWhileD [THEN conjunct2])
    then have "map_option cstr (ta_model a) = map_option cstr m"
      by (simp add: cstr_eq_nullable_iff xstrdup_or_null_def option.map_comp comp_def)
    then show ?thesis using 1 assms by (simp add: lengths_follow_def)
  qed (use assms in \<open>simp add: lengths_follow_def\<close>)
qed

lemma lengths_follow_Nil [simp]: "lengths_follow ps m0 len []"
  by (simp add: lengths_follow_def)

lemma lengths_follow_same:
  "cstr_eq_nullable (ta_model a) m0 \<Longrightarrow> ta_context_length a = len \<Longrightarrow> lengths_follow ps m0 len ts \<Longrightarrow>
   lengths_follow ps m0 len (a # ts)"
  by (simp add: lengths_follow_def)

lemma lengths_follow_switch:
  assumes "\<not> cstr_eq_nullable (ta_model a) m0" "ta_context_length a = window_in ps (map_option cstr (ta_model a))"
    "lengths_follow ps (xstrdup_or_null (ta_model a)) (window_in ps (map_option cstr (ta_model a))) ts"
  shows "lengths_follow ps m0 len (a # ts)"
  using assms(1,2) lengths_follow_own [OF assms(3)] unfolding lengths_follow_def by simp

lemma turn_record_simps [simp]:
  "ta_gate (turn_record gate model len text le) = gate" "ta_model (turn_record gate model len text le) = model"
  "ta_context_length (turn_record gate model len text le) = len" "ta_gates (turn_record gate model len text le) = le_gates le"
  by (simp_all add: turn_record_def)

lemma take_turn_adds:
  assumes "take_turn rw gate model api_key len text st = Some (code, hard_stop, st')"
  obtains le where "rs_turns st' = rs_turns st @ [turn_record gate model len text le]"
    "rs_cache st' = rs_cache st" "rs_lookups st' = rs_lookups st"
  using assms by (auto simp: take_turn_def)

lemma prompt_hooks_keeps:
  assumes "prompt_hooks rw prompt st = (r, st')"
  shows "rs_turns st' = rs_turns st" "rs_cache st' = rs_cache st"
  using assms by (auto simp: prompt_hooks_def split: prod.splits)

lemma lookup_context_hit:
  assumes "g_catalog_fetched (rs_cache st)" "cache_ok (rs_cache st)" "lookup_context rw model api_key st = (len, st')"
  shows "len = window_in (cached (rs_cache st)) (map_option cstr model)" "rs_cache st' = rs_cache st"
    "rs_turns st' = rs_turns st"
proof -
  obtain w m' r where l: "models_context_length (al_cparse (rw_alib rw)) (al_getenv (rw_alib rw))
      (rw_models rw (rs_lookups st)) (map_option cstr model) (Some api_key) (rs_cache st) = (w, m', r)"
    by (metis prod_cases3)
  then have "w = window_in (cached (rs_cache st)) (map_option cstr model) \<and> m' = rs_cache st"
    by (rule lookup_cases [OF assms(2)]) (use assms(1) in auto)
  then show "len = window_in (cached (rs_cache st)) (map_option cstr model)" "rs_cache st' = rs_cache st"
      "rs_turns st' = rs_turns st"
    using assms(3) l by (auto simp: lookup_context_def)
qed

text \<open>The context of the next turn: the model looked up for, the budget and the state.\<close>

definition next_context ::
    "run_world \<Rightarrow> bool \<Rightarrow> mstring \<Rightarrow> string \<Rightarrow> mstring \<Rightarrow> int \<Rightarrow> run_state \<Rightarrow> mstring \<times> int \<times> run_state" where
  "next_context rw locked model api_key m0 len st =
     (if \<not> locked \<and> \<not> cstr_eq_nullable model m0
      then (case lookup_context rw model api_key st of (len, st) \<Rightarrow> (xstrdup_or_null model, len, st))
      else (m0, len, st))"

text \<open>One round of the loop: it stops, it reads on without a turn, or it takes a turn.\<close>

lemma repl_round:
  assumes "repl_loop rw gate cli_model api_key locked m0 len input st = Some (code, input', st')"
  obtains (stop) "rs_turns st' = rs_turns st" "code = kExitOk"
  | (skip) input2 st2 where "input_left input2 < input_left input" "rs_turns st2 = rs_turns st" "rs_cache st2 = rs_cache st"
      "repl_loop rw gate cli_model api_key locked m0 len input2 st2 = Some (code, input', st')"
  | (turn) st1 model m1 len1 st2 t c hard st3 where "rs_turns st1 = rs_turns st" "rs_cache st1 = rs_cache st"
      "next_context rw locked model api_key m0 len st1 = (m1, len1, st2)"
      "take_turn rw gate model api_key len1 t st2 = Some (c, hard, st3)"
      "if hard then st' = st3 \<and> code = c
       else \<exists>input2. input_left input2 < input_left input
         \<and> repl_loop rw gate cli_model api_key locked m1 len1 input2 st3 = Some (code, input', st')"
proof -
  obtain r input1 where r: "read_prompt input = (r, input1)" by fastforce
  note loop = assms [unfolded repl_loop.simps [of rw gate cli_model api_key locked m0 len input st], unfolded r]
  have consumed: "r \<noteq> PromptEof \<Longrightarrow> input_left input1 < input_left input" using read_prompt_consumes [OF r] by simp
  show thesis
  proof (cases r)
    case PromptEof
    then show thesis using loop stop by simp
  next
    case PromptInterrupted
    then show thesis using loop consumed skip [of input1 st] by simp
  next
    case (PromptLine buf)
    show thesis
    proof (cases "classify_line buf")
      case ReplTooLong
      have "input_left (drain_line input1) < input_left input"
        using consumed PromptLine drain_line_left le_less_trans by blast
      then show thesis
        using loop PromptLine ReplTooLong skip [of "drain_line input1" "run_line ''mua: input too long; ignored'' st"]
        by (simp add: run_line_def)
    next
      case (ReplText line)
      obtain o1 st1 where hooks: "prompt_hooks rw line st = (o1, st1)" by fastforce
      show thesis
      proof (cases o1)
        case None
        then show thesis
          using loop PromptLine ReplText hooks consumed skip [of input1 st1] prompt_hooks_keeps [OF hooks] by simp
      next
        case (Some t)
        let ?model = "resolve_turn_model cli_model (lw_mua (rs_lua st1))"
        obtain m1 len1 st2 where ctx: "next_context rw locked ?model api_key m0 len st1 = (m1, len1, st2)"
          by (metis prod_cases3)
        moreover obtain c hard st3 where taken: "take_turn rw gate ?model api_key len1 t st2 = Some (c, hard, st3)"
          using loop PromptLine ReplText hooks Some ctx by (auto simp: next_context_def split: option.splits)
        moreover have "input_left (skip_input (sc_input (rw_scripts rw (length (rs_turns st3) - 1))) input1) < input_left input"
          using consumed PromptLine skip_input_left le_less_trans by blast
        ultimately show thesis
          using loop PromptLine ReplText hooks Some prompt_hooks_keeps [OF hooks]
            turn [of st1 ?model m1 len1 st2 t c hard st3]
          by (auto simp: next_context_def split: if_splits)
      qed
    qed (use loop PromptLine consumed stop skip [of input1 st] in simp_all)
  qed
qed

lemma next_context_hit:
  assumes "g_catalog_fetched (rs_cache st)" "cache_ok (rs_cache st)"
    "next_context rw locked model api_key m0 len st = (m1, len1, st')"
  shows "rs_turns st' = rs_turns st" "rs_cache st' = rs_cache st"
    "if \<not> locked \<and> \<not> cstr_eq_nullable model m0
     then m1 = xstrdup_or_null model \<and> len1 = window_in (cached (rs_cache st)) (map_option cstr model)
     else m1 = m0 \<and> len1 = len"
  using assms lookup_context_hit [OF assms(1,2), of rw model api_key]
  by (auto simp: next_context_def split: prod.splits if_splits)

text \<open>The turns that a run of the loop adds, whatever it reads and whatever its hooks do.\<close>

definition budgets_ok :: "model_cache \<Rightarrow> bool \<Rightarrow> mstring \<Rightarrow> int \<Rightarrow> turn_args list \<Rightarrow> bool" where
  "budgets_ok cache locked m0 len ts \<longleftrightarrow>
     (if locked then \<forall>a \<in> set ts. ta_context_length a = len else lengths_follow (cached cache) m0 len ts)"

lemma repl_turns:
  assumes "repl_loop rw gate cli_model api_key locked m0 len input st = Some (code, input', st')"
    "g_catalog_fetched (rs_cache st)" "cache_ok (rs_cache st)"
  shows "\<exists>ts. rs_turns st' = rs_turns st @ ts \<and> budgets_ok (rs_cache st) locked m0 len ts"
  using assms
proof (induction "input_left input" arbitrary: input st m0 len rule: less_induct)
  case less
  show ?case
  proof (rule repl_round [OF less.prems(1)])
    assume "rs_turns st' = rs_turns st"
    then show ?thesis by (intro exI [of _ "[]"]) (simp add: budgets_ok_def)
  next
    fix input2 st2
    assume "input_left input2 < input_left input" "rs_turns st2 = rs_turns st" "rs_cache st2 = rs_cache st"
      "repl_loop rw gate cli_model api_key locked m0 len input2 st2 = Some (code, input', st')"
    then show ?thesis using less.hyps [of input2 m0 len st2] less.prems(2,3) by simp
  next
    fix st1 model m1 len1 st2 t c hard st3
    assume st1: "rs_turns st1 = rs_turns st" "rs_cache st1 = rs_cache st"
      and ctx: "next_context rw locked model api_key m0 len st1 = (m1, len1, st2)"
      and turn: "take_turn rw gate model api_key len1 t st2 = Some (c, hard, st3)"
      and rest: "if hard then st' = st3 \<and> code = c
        else \<exists>input2. input_left input2 < input_left input
          \<and> repl_loop rw gate cli_model api_key locked m1 len1 input2 st3 = Some (code, input', st')"
    have st2: "rs_turns st2 = rs_turns st" "rs_cache st2 = rs_cache st"
      using next_context_hit(1,2) [OF _ _ ctx] st1 less.prems(2,3) by simp_all
    then obtain le where st3: "rs_turns st3 = rs_turns st @ [turn_record gate model len1 t le]" "rs_cache st3 = rs_cache st"
      by (metis take_turn_adds [OF turn])
    let ?a = "turn_record gate model len1 t le"
    have "\<exists>ts. rs_turns st' = rs_turns st3 @ ts \<and> budgets_ok (rs_cache st) locked m1 len1 ts"
    proof (cases hard)
      case True
      then show ?thesis using rest by (intro exI [of _ "[]"]) (simp add: budgets_ok_def)
    next
      case False
      then show ?thesis using rest less.hyps [of _ m1 len1 st3] less.prems(2,3) st3(2) by auto
    qed
    then obtain ts where ts: "rs_turns st' = rs_turns st @ ?a # ts" "budgets_ok (rs_cache st) locked m1 len1 ts"
      using st3(1) by auto
    then have "budgets_ok (rs_cache st) locked m0 len (?a # ts)"
      using next_context_hit(3) [OF _ _ ctx] st1 less.prems(2,3) lengths_follow_same [of ?a m0 len _ ts]
        lengths_follow_switch [of ?a m0 _ ts len]
      by (cases locked; cases "cstr_eq_nullable model m0") (simp_all add: budgets_ok_def)
    then show ?thesis using ts(1) by blast
  qed
qed

lemma lookup_context_fetched:
  assumes "lookup_context rw model api_key st = (len, st')" "cache_ok (rs_cache st)" "g_catalog_fetched (rs_cache st')"
  shows "len = window_in (cached (rs_cache st')) (map_option cstr model) \<and> cache_ok (rs_cache st')
    \<and> rs_turns st' = rs_turns st"
proof -
  obtain w m' r where l: "models_context_length (al_cparse (rw_alib rw)) (al_getenv (rw_alib rw))
      (rw_models rw (rs_lookups st)) (map_option cstr model) (Some api_key) (rs_cache st) = (w, m', r)"
    by (metis prod_cases3)
  have st': "rs_cache st' = m'" "len = w" "rs_turns st' = rs_turns st" using assms(1) l by (auto simp: lookup_context_def)
  have "w = window_in (cached m') (map_option cstr model)"
    by (rule lookup_cases [OF assms(2) l]) (use assms(3) st' in auto)
  then show ?thesis using st' lookup_keeps [OF assms(2) l] by simp
qed

lemma session_hook_keeps [simp]:
  "rs_turns (session_hook rw ev st) = rs_turns st" "rs_cache (session_hook rw ev st) = rs_cache st"
  "rs_turns (set_current sess st) = rs_turns st" "rs_cache (set_current sess st) = rs_cache st"
  by (simp_all add: session_hook_def set_current_def)

text \<open>C22. Once the catalogue is fetched, the budget of every turn of an interactive session is the context
  window of the turn's model, whatever the hooks do to \<open>mua.o.model\<close>, with one exception: the turns before
  the first change of model after the loop has started have the window of the model of the launch, looked
  up before the SessionStart hooks ran, though their own model is the one those hooks left.\<close>

theorem session_budgets:
  assumes "run_session rw args api_key input st = Some (code, st')" "ma_prompt args = None"
    "startup_context rw launch api_key st = (len, False, st1)" "launch = resolve_turn_model (ma_model args) (lw_mua (rs_lua st))"
    "cache_ok (rs_cache st)" "g_catalog_fetched (rs_cache st1)"
    "started = session_hook rw kAutocmdSessionStart (set_current (Some (rs_session st1)) st1)"
  shows "\<exists>ts. rs_turns st' = rs_turns st @ ts
    \<and> lengths_follow (cached (rs_cache st1)) (xstrdup_or_null (resolve_turn_model (ma_model args) (lw_mua (rs_lua started))))
        (window_in (cached (rs_cache st1)) (map_option cstr launch)) ts"
proof -
  have "lookup_context rw launch api_key st = (len, st1)"
    using assms(3) by (auto simp: startup_context_def split: option.splits if_splits prod.splits)
  from lookup_context_fetched [OF this assms(5,6)]
  have st1: "len = window_in (cached (rs_cache st1)) (map_option cstr launch)" "cache_ok (rs_cache st1)" "rs_turns st1 = rs_turns st"
    by simp_all
  let ?line = "run_line (''mua '' @ rw_version rw @ '' -- type 'exit' or Ctrl-D to quit'') started"
  let ?m0 = "xstrdup_or_null (resolve_turn_model (ma_model args) (lw_mua (rs_lua started)))"
  have line: "rs_turns ?line = rs_turns st" "rs_cache ?line = rs_cache st1"
    using st1(3) by (simp_all add: run_line_def assms(7))
  obtain input' st2 where repl: "run_repl rw (ma_model args) api_key len False (ma_yes args) input started = Some (code, input', st2)"
      "st' = set_current None (session_hook rw kAutocmdSessionEnd st2)"
    using assms(1-3) unfolding run_session_def assms(4) [symmetric] assms(7)
    by (cases "run_repl rw (ma_model args) api_key len False (ma_yes args) input started") (auto simp: Let_def assms(7))
  then have loop: "repl_loop rw (gate_policy_for (ma_yes args) Interactive) (ma_model args) api_key False ?m0 len
      input ?line = Some (code, input', st2)" "rs_turns st' = rs_turns st2"
    by (simp_all add: run_repl_def)
  obtain ts where "rs_turns st2 = rs_turns ?line @ ts" "budgets_ok (rs_cache ?line) False ?m0 len ts"
    using repl_turns [OF loop(1)] line assms(6) st1(2) by auto
  then show ?thesis using loop(2) line st1(1) by (simp add: budgets_ok_def)
qed

text \<open>The witness: a SessionStart hook that sets \<open>mua.o.model\<close> from a to b. The session is poisoned, so the
  turn ends at once.\<close>

definition model_options :: "string \<Rightarrow> options" where
  "model_options name = g_options_init[kOptModel := Some (OString (Some name))]"

definition switching_lib :: lua_lib where
  "switching_lib = (bridge_lib 100 (\<lambda>f. LuaNil))
     \<lparr>ll_call := (\<lambda>f v w. (PcallValue LuaNil, set_mua ((lw_mua w)\<lparr>ms_options := model_options ''b''\<rparr>) w))\<rparr>"

definition launch_world :: lua_world where
  "launch_world =
     (let w = bridge_world [\<lparr>ac_id = 1, ac_event = kAutocmdSessionStart, ac_callback = 1\<rparr>] [1 \<mapsto> 5] (\<lambda>t. [])
      in set_mua ((lw_mua w)\<lparr>ms_options := model_options ''a''\<rparr>) w)"

definition switching_world :: run_world where
  "switching_world = \<lparr>rw_version = ''1'', rw_lib = switching_lib, rw_alib = sample_lib,
     rw_models = (\<lambda>_. \<lparr>me_agent_http = False, me_client = None, me_request = None, me_turns = (\<lambda>_. ([], False)), me_close = []\<rparr>),
     rw_scripts = (\<lambda>_. sample_script), rw_final = []\<rparr>"

definition launch_state :: run_state where
  "launch_state = (run_start launch_world (sample_session\<lparr>ss_poisoned := True\<rparr>))
     \<lparr>rs_cache := \<lparr>g_catalog = [\<lparr>ce_id = ''a'', ce_window = 200000\<rparr>, \<lparr>ce_id = ''b'', ce_window = 8000\<rparr>],
                    g_catalog_fetched = True\<rparr>\<rparr>"

definition started_state :: run_state where
  "started_state = session_hook switching_world kAutocmdSessionStart
     (set_current (Some (rs_session launch_state)) (launch_state\<lparr>rs_lookups := 1\<rparr>))"

lemma model_options_model [simp]: "options_model_borrow (model_options name) = Some name"
  by (simp add: options_model_borrow_def model_options_def g_options_init_def kOptModel_def kOptionCount_def slot_str_def)

lemma launch_model: "resolve_turn_model None (lw_mua (rs_lua launch_state)) = Some ''a''"
  by (simp add: resolve_turn_model_def launch_state_def run_start_def launch_world_def Let_def set_mua_def)

lemma launch_context:
  "startup_context switching_world (Some ''a'') ''k'' launch_state = (200000, False, launch_state\<lparr>rs_lookups := 1\<rparr>)"
  by (simp add: startup_context_def switching_world_def sample_lib_def lookup_context_def models_context_length_def
      launch_state_def run_start_def resolve_model_id_def find_entry_def cstr_def)

lemma started_model: "options_model_borrow (ms_options (lw_mua (rs_lua started_state))) = Some ''b''"
  by (simp add: started_state_def session_hook_def mua_lua_autocmd_session_def fire_event_def set_current_def
      switching_world_def launch_state_def run_start_def launch_world_def Let_def set_mua_def bridge_world_def
      hook_count_def autocmd_count_def lua_checkstack_def switching_lib_def bridge_lib_def autocmd_payload_def lua_newtable_def
      lua_setfield_def rawset_def set_top_def autocmd_fire_def call_ref_def hook_ref_def autocmd_ref_at_def session_set_current_def)

lemma started_quiet: "hook_count ev (rs_lua started_state) = (if ev = kAutocmdSessionStart then 1 else 0)"
  by (simp add: started_state_def session_hook_def mua_lua_autocmd_session_def fire_event_def set_current_def
      switching_world_def launch_state_def run_start_def launch_world_def Let_def set_mua_def bridge_world_def
      hook_count_def autocmd_count_def lua_checkstack_def switching_lib_def bridge_lib_def autocmd_payload_def lua_newtable_def
      lua_setfield_def rawset_def set_top_def autocmd_fire_def call_ref_def hook_ref_def autocmd_ref_at_def session_set_current_def)

lemma poisoned_turn:
  assumes "ss_poisoned (rs_session st)"
  shows "\<exists>st'. take_turn rw gate model api_key len ''hi'' st = Some (kExitFailure, False, st')"
  using assms
  by (simp add: take_turn_def run_one_turn_def agent_turn_start_def cbs_main_def cstr_to_string_def cstr_def Let_def
      session_append_def json_add_cstr_def json_add_str_def json_new_obj_def json_get_cstr_def)

lemma sample_session_run:
  "\<exists>code st'. run_session switching_world mua_args_zero ''k'' [''hi'' @ [LF]] launch_state = Some (code, st')
     \<and> map ta_model (rs_turns st') = [Some ''b'']"
proof -
  define line where "line = run_line (''mua '' @ rw_version switching_world @ '' -- type 'exit' or Ctrl-D to quit'') started_state"
  have model: "resolve_turn_model None (lw_mua (rs_lua line)) = Some ''b''"
    by (simp add: resolve_turn_model_def line_def run_line_def started_model)
  have fresh: "rs_turns line = []" "ss_poisoned (rs_session line)" "line\<lparr>rs_lua := rs_lua line\<rparr> = line"
    by (simp_all add: line_def run_line_def started_state_def session_hook_def set_current_def launch_state_def run_start_def)
  have hooks: "prompt_hooks switching_world ''hi'' line = (Some ''hi'', line)"
    using fresh(3) by (simp add: prompt_hooks_def mua_lua_autocmd_user_prompt_pre_def started_quiet line_def run_line_def)
  obtain st2 where turn: "take_turn switching_world (gate_policy_for False Interactive) (Some ''b'') ''k'' 200000 ''hi'' line
      = Some (kExitFailure, False, st2)"
    using poisoned_turn [OF fresh(2)] by blast
  have read: "read_prompt [''hi'' @ [LF]] = (PromptLine (''hi'' @ [LF]), [[]])" "classify_line (''hi'' @ [LF]) = ReplText ''hi''"
    by (simp_all add: fgets_def kReplLine_def classify_line_def cstr_def Let_def)
  have no_input: "sc_input (rw_scripts switching_world n) = 0" for n
    by (simp add: switching_world_def sample_script_def)
  have "repl_loop switching_world (gate_policy_for False Interactive) None ''k'' False (Some ''b'') 200000 [''hi'' @ [LF]] line
      = Some (kExitOk, [[]], st2)"
    unfolding repl_loop.simps [of _ _ _ _ _ _ _ "[''hi'' @ [LF]]"] read
    by (simp only: prod.case prompt_read.case read repl_line.case hooks option.case)
      (simp add: model cstr_eq_nullable_def turn Let_def repl_loop.simps skip_input_def fgets_def no_input)
  then have "run_repl switching_world None ''k'' 200000 False False [''hi'' @ [LF]] started_state = Some (kExitOk, [[]], st2)"
    using started_model by (simp add: run_repl_def xstrdup_or_null_def cstr_def resolve_turn_model_def line_def)
  moreover have "map ta_model (rs_turns st2) = [Some ''b'']"
    by (rule take_turn_adds [OF turn]) (simp add: fresh(1))
  moreover have "session_hook switching_world kAutocmdSessionStart
      (set_current (Some (rs_session launch_state)) (launch_state\<lparr>rs_lookups := Suc 0\<rparr>)) = started_state"
    by (simp add: started_state_def)
  ultimately show ?thesis
    using launch_model launch_context by (simp add: run_session_def mua_args_zero_def Let_def)
qed

theorem session_budgets_witness:
  "\<exists>code st' a. run_session switching_world mua_args_zero ''k'' [''hi'' @ [LF]] launch_state = Some (code, st')
     \<and> rs_turns st' = [a] \<and> ta_model a = Some ''b'' \<and> ta_context_length a = 200000
     \<and> window_in (cached (rs_cache launch_state)) (ta_model a) = 8000"
proof -
  obtain code st' where run: "run_session switching_world mua_args_zero ''k'' [''hi'' @ [LF]] launch_state = Some (code, st')"
      and models: "map ta_model (rs_turns st') = [Some ''b'']"
    using sample_session_run by (elim exE conjE) (rule that)
  then obtain a where a: "rs_turns st' = [a]" "ta_model a = Some ''b''" by auto
  have cache: "cached (rs_cache launch_state) = [(''a'', 200000), (''b'', 8000)]" "rs_turns launch_state = []"
    "g_catalog_fetched (rs_cache launch_state)"
    by (simp_all add: launch_state_def cached_def entry_pair_def run_start_def)
  then have ok: "cache_ok (rs_cache launch_state)" by (simp add: cache_ok_def kModelsCacheMax_def)
  have "\<exists>ts. rs_turns st' = rs_turns launch_state @ ts
    \<and> lengths_follow (cached (rs_cache (launch_state\<lparr>rs_lookups := 1\<rparr>)))
        (xstrdup_or_null (resolve_turn_model (ma_model mua_args_zero) (lw_mua (rs_lua started_state))))
        (window_in (cached (rs_cache (launch_state\<lparr>rs_lookups := 1\<rparr>))) (map_option cstr (Some ''a''))) ts"
    by (rule session_budgets [OF run _ launch_context _ ok])
      (use cache(3) launch_model in \<open>simp_all add: mua_args_zero_def started_state_def\<close>)
  then have "ta_context_length a = 200000"
    using a cache started_model
    by (simp add: lengths_follow_def cstr_eq_nullable_iff xstrdup_or_null_def resolve_turn_model_def mua_args_zero_def
        cstr_def window_in_def resolve_model_id_def)
  then show ?thesis using run a cache(1) by (simp add: window_in_def resolve_model_id_def)
qed

section \<open>The gate and the exit code of a process\<close>

definition exit_codes :: "int set" where
  "exit_codes = {kExitOk, kExitFailure, kExitInterrupted}"

lemma turn_exit_codes: "turn_exit ctx = (code, hard_stop) \<Longrightarrow> code \<in> exit_codes"
  by (auto simp: turn_exit_def exit_codes_def split: option.splits if_splits)

lemma take_turn_code:
  assumes "take_turn rw gate model api_key len text st = Some (code, hard_stop, st')"
  shows "code \<in> exit_codes"
proof -
  obtain sess ctx w opts sc le where "run_one_turn (rw_lib rw) (rw_alib rw) sc gate opts text (rs_session st) (rs_loop st) (rs_lua st)
      = Some (code, hard_stop, sess, ctx, w, le)"
    using assms by (auto simp: take_turn_def)
  then show ?thesis
    unfolding run_one_turn_def Let_def
    by (auto simp: exit_codes_def dest: turn_exit_codes split: option.splits prod.splits sum.splits)
qed

lemma gate_decides: "\<exists>decision rewrite refusal w'. gate_with_autocmds lib base tool args w = Some ((decision, rewrite, refusal), w')"
proof -
  consider (plain) "hook_count kAutocmdToolPre w = 0" | (deep) e where "cjson_to_object args = Some (Inl e)"
    | (full) obj where "0 < hook_count kAutocmdToolPre w" "cjson_to_object args = Some (Inr obj)" "\<not> lua_checkstack lib (lw_top w) 6"
    | (hooks) obj where "0 < hook_count kAutocmdToolPre w" "cjson_to_object args = Some (Inr obj)" "lua_checkstack lib (lw_top w) 6"
    by (cases "cj_depth args \<le> kMarshalDepthCap") (auto simp: cjson_to_object_eq)
  then show ?thesis
  proof cases
    case full
    then have "mua_lua_autocmd_tool_pre lib (td_name tool) obj w = Some (tool_pre_none, w)"
      by (simp add: mua_lua_autocmd_tool_pre_def)
    then show ?thesis using full by (simp add: gate_with_autocmds_def tool_pre_none_def gate_rewrite_def split: prod.split)
  next
    case hooks
    show ?thesis by (rule gate_hooks [OF hooks(1,3,2), of tool base]) (metis prod_cases3)
  qed (simp_all add: gate_with_autocmds_def hook_count_def split: prod.split)
qed

text \<open>A hook answered \<open>true\<close> for this call, and none vetoed it.\<close>

definition hook_approved :: "lua_lib \<Rightarrow> lua_world \<Rightarrow> tool_def \<Rightarrow> cjson \<Rightarrow> bool" where
  "hook_approved lib w tool args \<longleftrightarrow> (\<exists>obj t w1 rs w2. cjson_to_object args = Some (Inr obj)
     \<and> tool_pre_payload lib (td_name tool) obj w = Some (t, w1)
     \<and> hook_answers lib t [0..<hook_count kAutocmdToolPre w] w1 = (rs, w2) \<and> hook_yes rs \<and> \<not> hook_veto rs)"

lemma gate_approval:
  assumes "gate_with_autocmds lib base tool args w = Some ((kGateApprove, rewrite, refusal), w')"
  shows "hook_approved lib w tool args \<or> fst (base tool (case rewrite of Some a \<Rightarrow> a | None \<Rightarrow> args)) = kGateApprove"
proof (cases "0 < hook_count kAutocmdToolPre w \<and> lua_checkstack lib (lw_top w) 6 \<and> (\<exists>obj. cjson_to_object args = Some (Inr obj))")
  case True
  then obtain obj where obj: "cjson_to_object args = Some (Inr obj)" by blast
  obtain t w1 rs w2 res w3 where g: "tool_pre_payload lib (td_name tool) obj w = Some (t, w1)"
      "hook_answers lib t [0..<hook_count kAutocmdToolPre w] w1 = (rs, w2)"
      "gate_with_autocmds lib base tool args w = Some (res, w3)" "gate_follows base tool args rs res"
    by (rule gate_hooks [OF _ _ obj, of w lib tool base]) (use True in auto)
  then have "hook_yes rs \<and> \<not> hook_veto rs \<or> (kGateApprove, refusal) = base tool (case rewrite of Some a \<Rightarrow> a | None \<Rightarrow> args)"
    using assms by (auto split: if_splits)
  then show ?thesis using g(1,2) obj unfolding hook_approved_def by (metis fst_conv)
next
  case False
  then show ?thesis
    using assms
    by (auto simp: gate_with_autocmds_def hook_count_def mua_lua_autocmd_tool_pre_def tool_pre_none_def gate_rewrite_def
        cjson_to_object_eq split: prod.splits if_splits)
qed

text \<open>Every entry of a turn met the gate composed over \<open>gate\<close>, and approved gates started its calls.\<close>

definition turn_gated :: "run_world \<Rightarrow> gate_policy \<Rightarrow> turn_args \<Rightarrow> bool" where
  "turn_gated rw gate a \<longleftrightarrow>
     (\<forall>g \<in> set (ta_gates a). gm_gate g
        = composed_gate (rw_lib rw) (al_cprint (rw_alib rw)) gate (gm_world g) (gm_prompt g))
     \<and> set (ta_started a) \<subseteq> (\<Union>g \<in> set (ta_gates a). approved (gm_tools g) (gm_gate g))"

definition gated_by :: "run_world \<Rightarrow> gate_policy \<Rightarrow> turn_args list \<Rightarrow> turn_args list \<Rightarrow> bool" where
  "gated_by rw gate before after \<longleftrightarrow> (\<exists>ts. after = before @ ts \<and> (\<forall>a \<in> set ts. turn_gated rw gate a))"

lemma gated_by_refl [simp]: "gated_by rw gate ts ts"
  by (simp add: gated_by_def)

lemma turn_record_gated:
  assumes "run_one_turn (rw_lib rw) (rw_alib rw) sc gate opts text sess lo w = Some (code, hard_stop, sess', ctx, w', le)"
  shows "turn_gated rw gate (turn_record gate model len text' le)"
proof (cases "le_turn le")
  case None
  then have "le_gates le = []"
    using assms by (auto simp: run_one_turn_def Let_def split: option.splits prod.splits sum.splits)
  then show ?thesis using None by (simp add: turn_gated_def turn_record_def)
next
  case (Some t1)
  then obtain t0 s0 where t0: "agent_turn_start (rw_alib rw) (ms_options (lw_mua w)) (sc_writes sc) (sc_timers sc) (Some opts)
      (Some sess) (Some cbs_main) (cstr_to_string (Some text)) = Some (Inr t0, s0)"
    using assms by (auto simp: run_one_turn_def Let_def split: option.splits prod.splits sum.splits)
  obtain t lo' where run: "entries_run (rw_alib rw) (le_gates le) (sc_events sc) (armed sc lo, t0) = Some (lo', t)" "le_turn le = Some t"
    and gates: "\<forall>g \<in> set (le_gates le). \<exists>k w. g = turn_gate (rw_lib rw) (al_cprint (rw_alib rw)) sc gate k w"
    by (rule run_one_turn_agent [OF assms t0])
  have "at_out t0 = []" "cb_gate (at_cb t0)" using started_turn [OF t0] by (simp_all add: cbs_main_def)
  then have "set (started_calls (at_out t)) \<subseteq> (\<Union>g \<in> set (le_gates le). approved (gm_tools g) (gm_gate g))"
    using entries_run_grows [OF run(1)] by simp
  moreover have "\<forall>g \<in> set (le_gates le). gm_gate g = composed_gate (rw_lib rw) (al_cprint (rw_alib rw)) gate (gm_world g) (gm_prompt g)"
    using gates by (auto simp: turn_gate_def Let_def)
  ultimately show ?thesis using run(2) by (simp add: turn_gated_def turn_record_def)
qed

lemma gated_by_turn:
  assumes "take_turn rw gate model api_key len text st = Some (code, hard_stop, st')"
    "gated_by rw gate (rs_turns st') after"
  shows "gated_by rw gate (rs_turns st) after"
proof -
  obtain sc opts sess ctx w le where "run_one_turn (rw_lib rw) (rw_alib rw) sc gate opts text (rs_session st) (rs_loop st) (rs_lua st)
        = Some (code, hard_stop, sess, ctx, w, le)" "rs_turns st' = rs_turns st @ [turn_record gate model len text le]"
    using assms(1) by (auto simp: take_turn_def)
  with turn_record_gated show ?thesis using assms(2) unfolding gated_by_def by fastforce
qed

lemma turn_gated_late [simp]: "turn_gated rw gate (a\<lparr>ta_late := outs\<rparr>) = turn_gated rw gate a"
  by (simp add: turn_gated_def)

lemma gated_by_close:
  assumes "run_close rw st = Some st'" "gated_by rw gate [] (rs_turns st)"
  shows "gated_by rw gate [] (rs_turns st')"
proof -
  have "gated_by rw gate [] (late_output outs (rs_turns st))" for outs
    using assms(2) last_in_set [of "rs_turns st"]
    by (auto simp: gated_by_def late_output_def dest: in_set_butlastD)
  then show ?thesis using assms by (auto simp: run_close_def split: option.splits)
qed

lemma next_context_turns: "next_context rw locked model api_key m0 len st = (m1, len1, st') \<Longrightarrow> rs_turns st' = rs_turns st"
  by (auto simp: next_context_def lookup_context_def split: prod.splits if_splits)

lemma repl_outcome:
  assumes "repl_loop rw gate cli_model api_key locked m0 len input st = Some (code, input', st')"
  shows "gated_by rw gate (rs_turns st) (rs_turns st') \<and> code \<in> exit_codes"
  using assms
proof (induction "input_left input" arbitrary: input st m0 len rule: less_induct)
  case less
  show ?case
  proof (rule repl_round [OF less.prems])
    assume "rs_turns st' = rs_turns st" "code = kExitOk"
    then show ?thesis by (simp add: exit_codes_def)
  next
    fix input2 st2
    assume "input_left input2 < input_left input" "rs_turns st2 = rs_turns st"
      "repl_loop rw gate cli_model api_key locked m0 len input2 st2 = Some (code, input', st')"
    then show ?thesis using less.hyps [of input2 m0 len st2] by simp
  next
    fix st1 model m1 len1 st2 t c hard st3
    assume st1: "rs_turns st1 = rs_turns st" "next_context rw locked model api_key m0 len st1 = (m1, len1, st2)"
      and turn: "take_turn rw gate model api_key len1 t st2 = Some (c, hard, st3)"
      and rest: "if hard then st' = st3 \<and> code = c
        else \<exists>input2. input_left input2 < input_left input
          \<and> repl_loop rw gate cli_model api_key locked m1 len1 input2 st3 = Some (code, input', st')"
    have "gated_by rw gate (rs_turns st3) (rs_turns st') \<and> code \<in> exit_codes"
      using rest take_turn_code [OF turn] less.hyps [of _ m1 len1 st3] by (cases hard) auto
    then show ?thesis using gated_by_turn [OF turn] next_context_turns [OF st1(2)] st1(1) by simp
  qed
qed

definition policy_of :: "mua_args \<Rightarrow> gate_policy" where
  "policy_of args = gate_policy_for (ma_yes args) (if ma_prompt args = None then Interactive else AutoRefuse)"

lemma startup_context_turns: "startup_context rw model api_key st = (len, locked, st') \<Longrightarrow> rs_turns st' = rs_turns st"
  by (auto simp: startup_context_def lookup_context_def split: option.splits if_splits prod.splits)

lemma run_session_outcome:
  assumes "run_session rw args api_key input st = Some (code, st')"
  shows "gated_by rw (policy_of args) (rs_turns st) (rs_turns st') \<and> code \<in> exit_codes"
proof -
  obtain len locked st1 where ctx: "startup_context rw (resolve_turn_model (ma_model args) (lw_mua (rs_lua st))) api_key st
      = (len, locked, st1)"
    by (metis prod_cases3)
  define st2 where "st2 = session_hook rw kAutocmdSessionStart (set_current (Some (rs_session st1)) st1)"
  have turns: "rs_turns st2 = rs_turns st" using startup_context_turns [OF ctx] by (simp add: st2_def)
  note run = assms [unfolded run_session_def ctx prod.case, folded st2_def, unfolded Let_def]
  show ?thesis
  proof (cases "ma_prompt args")
    case None
    then obtain input' st3 where "run_repl rw (ma_model args) api_key len locked (ma_yes args) input st2 = Some (code, input', st3)"
        "rs_turns st' = rs_turns st3"
      using run by (auto simp flip: st2_def split: option.splits)
    then show ?thesis
      using None turns repl_outcome by (fastforce simp: run_repl_def policy_of_def run_line_def)
  next
    case (Some prompt)
    then obtain st3 where prompt: "run_prompt rw args prompt api_key len st2 = Some (code, st3)" "rs_turns st' = rs_turns st3"
      using run by (auto simp flip: st2_def split: option.splits)
    obtain o1 st4 where hooks: "prompt_hooks rw prompt st2 = (o1, st4)" by fastforce
    show ?thesis
    proof (cases o1)
      case None
      then show ?thesis
        using prompt hooks prompt_hooks_keeps [OF hooks] turns by (simp add: run_prompt_def exit_codes_def)
    next
      case (Some t)
      then obtain hard where taken: "take_turn rw (policy_of args) (resolve_turn_model (ma_model args) (lw_mua (rs_lua st4)))
          api_key len t st4 = Some (code, hard, st3)"
        using prompt hooks \<open>ma_prompt args = Some prompt\<close> by (auto simp: run_prompt_def policy_of_def)
      then show ?thesis
        using gated_by_turn [OF taken gated_by_refl] take_turn_code [OF taken] prompt(2) prompt_hooks_keeps(1) [OF hooks] turns
        by simp
    qed
  qed
qed

lemma run_agent_outcome:
  assumes "run_agent rw sw http args input w = Some (code, turns, w')"
  shows "gated_by rw (policy_of args) [] turns \<and> code \<in> exit_codes"
proof (cases "turns = [] \<and> code = kExitFailure")
  case True
  then show ?thesis by (simp add: exit_codes_def)
next
  case False
  then obtain api_key sess st st' where st: "run_session rw args api_key input (run_start w sess) = Some (code, st)"
      "run_close rw st = Some st'" "turns = rs_turns st'"
    using assms by (auto simp: run_agent_def bind_eq_Some_conv split: option.splits if_splits sum.splits)
  then show ?thesis using run_session_outcome [OF st(1)] gated_by_close [OF st(2)] by (simp add: run_start_def)
qed

lemma rpc_code: "rpc_serve su reads m = Some (code, s, m') \<Longrightarrow> code \<in> exit_codes"
  by (auto simp: rpc_serve_def Let_def exit_codes_def kExitOk_def kExitFailure_def split: if_splits option.splits)

lemma run_outcome:
  assumes "run rw pw args input w = Some (code, turns, w')"
  shows "gated_by rw (policy_of args) [] turns \<and> code \<in> exit_codes \<and> (ma_embed args \<longrightarrow> turns = [])"
proof (cases "pw_loop_init pw")
  case False
  then show ?thesis using assms by (simp add: run_def exit_codes_def)
next
  case True
  then obtain c w1 where served: "run_served rw pw args input w = Some (c, turns, w1)"
      "code = (if \<not> pw_loop_close pw \<and> c = kExitOk then kExitFailure else c)"
    using assms by (auto simp: run_def)
  have "gated_by rw (policy_of args) [] turns \<and> c \<in> exit_codes \<and> (ma_embed args \<longrightarrow> turns = [])"
  proof (cases "turns = [] \<and> c = kExitFailure")
    case True
    then show ?thesis by (simp add: exit_codes_def)
  next
    case False
    then obtain w2 where "if ma_embed args then rpc_run (pw_rpc pw) w2 = Some (c, turns, w1)
        else run_agent rw (pw_session pw) (pw_http pw) args input w2 = Some (c, turns, w1)"
      using served(1) by (auto simp: run_served_def split: if_splits prod.splits bool.splits)
    then show ?thesis
      using run_agent_outcome by (cases "ma_embed args") (auto simp: rpc_run_def dest: rpc_code)
  qed
  then show ?thesis using served(2) by (auto simp: exit_codes_def)
qed

text \<open>What the arguments of the process say about a call: the prompt is read only without \<open>--yes\<close> and \<open>-p\<close>,
  and a line that starts with a y agrees.\<close>

definition user_agrees :: "bool \<times> string \<Rightarrow> bool" where
  "user_agrees prompt \<longleftrightarrow>
     (case prompt of (interrupted, input) \<Rightarrow> \<not> interrupted \<and> input \<noteq> [] \<and> hd input \<in> {CHR ''y'', CHR ''Y''})"

definition policy_says :: "mua_args \<Rightarrow> bool \<times> string \<Rightarrow> tool_def \<Rightarrow> cjson \<Rightarrow> gate_decision \<times> string option" where
  "policy_says args prompt tool cargs =
     (if ma_yes args \<or> \<not> td_mutating tool then (kGateApprove, None)
      else if ma_prompt args \<noteq> None then (kGateRefuse, Some (td_name tool @ '' requires approval; re-run with --yes''))
      else if user_agrees prompt then (kGateApprove, None)
      else (kGateRefuse, Some (td_name tool @ '' declined at the approval prompt'')))"

definition may_run :: "lua_lib \<Rightarrow> mua_args \<Rightarrow> lua_world \<Rightarrow> bool \<times> string \<Rightarrow> tool_def \<Rightarrow> cjson \<Rightarrow> bool" where
  "may_run lib args w prompt tool cargs \<longleftrightarrow> \<not> td_mutating tool \<or> ma_yes args \<or> hook_approved lib w tool cargs
     \<or> ma_prompt args = None \<and> user_agrees prompt"

lemma fgets_first: "\<exists>n. fgets kAgentGateLine (c # cs) = Some (c # take n cs, drop n cs)"
proof -
  obtain k where "(case memchr LF (c # cs) of Some i \<Rightarrow> i + 1 | None \<Rightarrow> length (c # cs)) = Suc k"
    by (cases "memchr LF (c # cs)") auto
  moreover have "min (Suc k) (kAgentGateLine - 1) = Suc (min k 62)" by (simp add: kAgentGateLine_def)
  ultimately have "fgets kAgentGateLine (c # cs) = Some (c # take (min k 62) cs, drop (min k 62) cs)"
    by (simp add: fgets_def Let_def del: memchr.simps)
  then show ?thesis by blast
qed

lemma base_gate_policy: "base_gate cprint (policy_of args) prompt = policy_says args prompt"
proof (intro ext)
  fix tool cargs
  obtain interrupted input where prompt: "prompt = (interrupted, input)" by fastforce
  note defs = base_gate_def policy_of_def gate_policy_for_def policy_says_def user_agrees_def prompt
    agent_gate_approve_all_def agent_gate_auto_refuse_def agent_gate_interactive_def Let_def
  show "base_gate cprint (policy_of args) prompt tool cargs = policy_says args prompt tool cargs"
  proof (cases input)
    case Nil
    then show ?thesis by (simp add: defs fgets_def)
  next
    case (Cons c cs)
    obtain n where "fgets kAgentGateLine input = Some (c # take n cs, drop n cs)" using fgets_first Cons by blast
    then show ?thesis using Cons by (simp add: defs)
  qed
qed

lemma gated_started:
  assumes "turn_gated rw (policy_of args) a" "(name, cargs) \<in> set (ta_started a)"
  shows "\<exists>g \<in> set (ta_gates a). \<exists>idx tool proposed rewrite refusal.
    tools_lookup (gm_tools g) (Some name) = Some tool \<and> gm_gate g idx tool proposed = (kGateApprove, rewrite, refusal, False)
    \<and> cargs = (case rewrite of Some r \<Rightarrow> r | None \<Rightarrow> proposed)
    \<and> may_run (rw_lib rw) args (gm_world g idx) (gm_prompt g idx) tool proposed"
proof -
  obtain g where g: "g \<in> set (ta_gates a)" "(name, cargs) \<in> approved (gm_tools g) (gm_gate g)"
    using assms by (auto simp: turn_gated_def)
  then obtain nm idx tool proposed rewrite refusal c where r: "tools_lookup (gm_tools g) nm = Some tool" "td_name tool = name"
      "gm_gate g idx tool proposed = (kGateApprove, rewrite, refusal, c)" "cargs = (case rewrite of Some r \<Rightarrow> r | None \<Rightarrow> proposed)"
    by (auto simp: approved_def)
  have gate: "composed_gate (rw_lib rw) (al_cprint (rw_alib rw)) (policy_of args) (gm_world g) (gm_prompt g) idx tool proposed
      = (kGateApprove, rewrite, refusal, c)"
    using assms(1) g(1) r(3) by (simp add: turn_gated_def)
  obtain w' where w': "gate_with_autocmds (rw_lib rw) (policy_says args (gm_prompt g idx)) tool proposed (gm_world g idx)
      = Some ((kGateApprove, rewrite, refusal), w')" and c: "\<not> c"
    using gate gate_decides [of "rw_lib rw" "policy_says args (gm_prompt g idx)" tool proposed "gm_world g idx"]
    by (auto simp: composed_gate_def base_gate_policy)
  have "may_run (rw_lib rw) args (gm_world g idx) (gm_prompt g idx) tool proposed"
    using gate_approval [OF w'] by (auto simp: may_run_def policy_says_def split: if_splits)
  moreover obtain n where n: "nm = Some n" using r(1) by (cases nm) (auto simp: tools_lookup_def)
  then have "n = name" using r(1,2) by (auto simp: tools_lookup_find find_Some_iff)
  then have "tools_lookup (gm_tools g) (Some name) = Some tool" using r(1) n by simp
  moreover have "gm_gate g idx tool proposed = (kGateApprove, rewrite, refusal, False)" using r(3) c by simp
  ultimately show ?thesis using g(1) r(4) by blast
qed

text \<open>C23. Every call that a turn of a process asks its gate about is decided by the hooks over the policy of
  the process's arguments, \<open>policy_says\<close>: with \<open>--yes\<close> every call is approved, a prompt on the command line
  without it refuses every mutating one, and only the interactive loop asks the user, for a mutating call.
  Every call that a turn starts was approved by such a gate, on the arguments it is started with: its tool
  changes nothing, or \<open>--yes\<close> was given, or a hook answered \<open>true\<close> for it and none vetoed it, or the user
  agreed. A server and a call for help or the version take no turn.\<close>

theorem process_policy:
  assumes "mua_main rw pw argv input w = Some (code, turns, w')" "a \<in> set turns"
  shows "\<exists>args. parse_args argv = Inr args \<and> \<not> ma_embed args \<and> \<not> ma_help args \<and> \<not> ma_version args
    \<and> (\<forall>g \<in> set (ta_gates a). \<forall>idx tool cargs. \<exists>decision rewrite refusal w2.
         gate_with_autocmds (rw_lib rw) (policy_says args (gm_prompt g idx)) tool cargs (gm_world g idx)
           = Some ((decision, rewrite, refusal), w2)
         \<and> gm_gate g idx tool cargs = (decision, rewrite, refusal, False))
    \<and> (\<forall>(name, cargs) \<in> set (ta_started a). \<exists>g \<in> set (ta_gates a). \<exists>idx tool proposed rewrite refusal.
         tools_lookup (gm_tools g) (Some name) = Some tool \<and> gm_gate g idx tool proposed = (kGateApprove, rewrite, refusal, False)
         \<and> cargs = (case rewrite of Some r \<Rightarrow> r | None \<Rightarrow> proposed)
         \<and> may_run (rw_lib rw) args (gm_world g idx) (gm_prompt g idx) tool proposed)"
proof -
  obtain args where args: "parse_args argv = Inr args" "run rw pw args input w = Some (code, turns, w')"
      "\<not> ma_help args" "\<not> ma_version args"
    using assms by (auto simp: mua_main_def split: sum.splits if_splits)
  have gated: "turn_gated rw (policy_of args) a" "\<not> ma_embed args"
    using run_outcome [OF args(2)] assms(2) by (auto simp: gated_by_def)
  have "\<exists>decision rewrite refusal w2. gate_with_autocmds (rw_lib rw) (policy_says args (gm_prompt g idx)) tool cargs (gm_world g idx)
           = Some ((decision, rewrite, refusal), w2) \<and> gm_gate g idx tool cargs = (decision, rewrite, refusal, False)"
    if "g \<in> set (ta_gates a)" for g idx tool cargs
    using gated(1) that gate_decides [of "rw_lib rw" "policy_says args (gm_prompt g idx)" tool cargs "gm_world g idx"]
    by (auto simp: turn_gated_def composed_gate_def base_gate_policy)
  then show ?thesis using args gated gated_started [OF gated(1)] by blast
qed

text \<open>The exit code of a process is one of the four documented ones, and the usage code exactly when the
  arguments are refused.\<close>

theorem process_exit_code:
  assumes "mua_main rw pw argv input w = Some (code, turns, w')"
  shows "code \<in> {kExitOk, kExitFailure, kExitUsage, kExitInterrupted}
    \<and> (code = kExitUsage \<longleftrightarrow> (\<exists>msg. parse_args argv = Inl msg))"
proof (cases "parse_args argv")
  case (Inl msg)
  then show ?thesis using assms by (simp add: mua_main_def)
next
  case (Inr args)
  have "code \<in> exit_codes"
    using assms Inr run_outcome [of rw pw args input w code turns w'] 
    by (auto simp: mua_main_def exit_codes_def split: if_splits)
  then show ?thesis
    using Inr by (auto simp: exit_codes_def kExitOk_def kExitFailure_def kExitUsage_def kExitInterrupted_def)
qed

section \<open>The teardown\<close>

text \<open>C27. Whatever was registered and cleared during the run, the teardown releases every callback the bridge
  holds, and leaves no tool and no autocmd that could reach one.\<close>

theorem teardown_releases:
  assumes "\<forall>refs. finite (dom refs) \<longrightarrow> ll_ref lib refs \<notin> dom refs" "lw_refs w = Map.empty"
    "ms_tools (lw_mua w) = []" "g_autocmds (ms_autocmds (lw_mua w)) = []"
  shows "\<exists>w'. bridge_run lib ops w = Some w' \<and> lw_refs (run_teardown w') = Map.empty
    \<and> owned_refs (lw_mua (run_teardown w')) = []"
proof -
  obtain w' where w': "bridge_run lib ops w = Some w'" "refs_owned w'"
    using bridge_run_keeps [of w lib ops] assms by (auto simp: refs_owned_def owned_refs_def fresh_refs_def)
  have "dom (lw_refs w') \<subseteq> set (map td_callback (ms_tools (lw_mua w')) @ map ac_callback (g_autocmds (ms_autocmds (lw_mua w'))))"
    using w'(2) by (simp add: refs_owned_def owned_refs_def)
  then have "lw_refs (run_teardown w') = Map.empty"
    by (auto simp: run_teardown_def tools_teardown_def autocmd_clear_def set_mua_def unref_all restrict_map_def fun_eq_iff domIff)
  then show ?thesis
    using w'(1) by (simp add: run_teardown_def tools_teardown_def autocmd_clear_def set_mua_def owned_refs_def)
qed

theorem teardown_releases_witness:
  "\<exists>w'. bridge_run (bridge_lib 100 says_yes) [CreateAutocmd [LuaString ''ToolPre'', LuaFunction 1], ClearAutocmds,
      CreateAutocmd [LuaString ''ToolPost'', LuaFunction 2]] (bridge_world [] Map.empty (\<lambda>t. [])) = Some w'
    \<and> lw_refs (run_teardown w') = Map.empty \<and> owned_refs (lw_mua (run_teardown w')) = []"
  by (rule teardown_releases) (use bridge_lib_fresh in \<open>simp_all add: bridge_world_def\<close>)

text \<open>The witnesses: \<open>mua -p hi\<close> in a world without hooks, with an interrupt before the first request.\<close>

definition headless_lib :: agent_lib where
  "headless_lib = sample_lib\<lparr>al_cprint := toy_print,
     al_getenv := (\<lambda>n. if n = ''OPENROUTER_API_KEY'' then Some ''k'' else if n = ''MUA_CONTEXT_LENGTH'' then Some ''9'' else None)\<rparr>"

definition headless_world :: run_world where
  "headless_world = switching_world\<lparr>rw_alib := headless_lib, rw_scripts := (\<lambda>_. sample_script\<lparr>sc_meets := (\<lambda>_ _ _. bridge_world [] Map.empty (\<lambda>t. []))\<rparr>)\<rparr>"

definition headless_process :: process_world where
  "headless_process = \<lparr>pw_loop_init = True, pw_lua_init = True, pw_source = (\<lambda>w. (True, w)),
     pw_rpc = (\<lparr>su_init_in = True, su_init_out = True, su_open_in = True, su_open_out = True, su_read_start = True\<rparr>, []),
     pw_http = None,
     pw_session = \<lparr>sw_env = toy_env, sw_now = Some (''20250101T000000'', 7), sw_opens = (\<lambda>_. None), sw_writes = good_disk,
       sw_entries = Inr ([], None), sw_files = (\<lambda>_. \<lparr>fe_open = None, fe_stat = None, fe_regular = True, fe_size = 0, fe_reads = [], fe_bytes = []\<rparr>), sw_repair = (\<lambda>_. good_disk)\<rparr>,
     pw_loop_close = True, pw_sigpipe = True, pw_version_printed = True\<rparr>"

abbreviation quiet_world :: lua_world where "quiet_world \<equiv> bridge_world [] Map.empty (\<lambda>t. [])"

lemma toy_append:
  "session_append toy_print (\<lambda>_ n. Wrote n) toy_state (Some (user_message (Some ''hi''))) =
   (None, toy_state\<lparr>ss_file := ss_file toy_state @ ''header'' @ [LF], ss_messages := [user_message (Some ''hi'')], ss_count := 1\<rparr>)"
proof -
  have tries: "0 < n \<Longrightarrow> write_tries (\<lambda>_ n. Wrote n) nbytes i n res = Wrote nbytes" for n nbytes i res
    by (cases n) auto
  show ?thesis
    by (simp add: session_append_def user_message_def json_add_cstr_def json_add_str_def json_new_obj_def json_get_cstr_def
        MUA_SESSION_MAX_MESSAGES_def MUA_SESSION_MAX_LINE_def json_print_def toy_print_def toy_message_def write_line_def tries
        kSessionEintrMax_def toy_state_def state_alloc_def cstr_def Let_def)
qed

lemma headless_start:
  assumes "ao_http opts"
  obtains t0 s0 where "agent_turn_start headless_lib g_options_init (\<lambda>_ n. Wrote n) (True, True) (Some opts)
    (Some toy_state) (Some cbs_main) (cstr_to_string (Some ''hi'')) = Some (Inr t0, s0)"
  using assms unfolding agent_turn_start_def
  by (simp add: Let_def headless_lib_def cbs_main_def cstr_to_string_def cstr_def toy_append flip: user_message_def)
   (simp add: resolve_system_prompt_def options_system_prompt_def g_options_init_def kOptSystemPrompt_def kOptionCount_def
     option_defs_def str_option_def MUA_DEFAULT_SYSTEM_PROMPT_def)

lemma headless_turn:
  assumes "rs_session st = toy_state" "ms_options (lw_mua (rs_lua st)) = g_options_init"
  shows "\<exists>st' a g. take_turn headless_world gate model api_key len ''hi'' st = Some (kExitInterrupted, False, st')
    \<and> rs_turns st' = rs_turns st @ [a] \<and> rs_live st' = None \<and> g \<in> set (ta_gates a) \<and> gm_world g = (\<lambda>_. quiet_world)"
proof -
  let ?sc = "sample_script\<lparr>sc_meets := (\<lambda>_ _ _. quiet_world)\<rparr>" and ?w = "rs_lua st"
  let ?opts = "\<lparr>ao_http = True, ao_model = map_option cstr model, ao_api_key = Some api_key, ao_context_length = len\<rparr>"
  obtain t0 s0 where t0: "agent_turn_start headless_lib g_options_init (\<lambda>_ n. Wrote n) (True, True) (Some ?opts)
      (Some toy_state) (Some cbs_main) (cstr_to_string (Some ''hi'')) = Some (Inr t0, s0)"
    by (rule headless_start [of ?opts]) simp_all
  note ready = started_ready [OF t0]
  have sc: "sc_writes ?sc = (\<lambda>_ n. Wrote n)" "sc_timers ?sc = (True, True)" "sc_tty sample_script = False" "sc_stdout_ok ?sc = (\<lambda>_. True)"
    by (simp_all add: sample_script_def)
  have events: "sc_events ?sc = [Sigint (sample_env True) True, Poll, Fires (sample_env True) AEvTimer]"
    by (simp add: sample_script_def)
  let ?ctx = "(turn_ctx_init gate False (\<lambda>_. True))\<lparr>tc_live := True\<rparr>"
  obtain lo' gs cw' where loop: "turn_loop (rw_lib headless_world) headless_lib ?sc gate 0 (sc_events ?sc) (armed ?sc (rs_loop st), t0)
        (?ctx, sync_session t0 ?w) = Some ([], (lo', interrupted_turn t0), gs, cw')"
      "length gs = 3" "hd gs = turn_gate (rw_lib headless_world) (al_cprint headless_lib) ?sc gate 0 (snd (?ctx, sync_session t0 ?w))"
    by (rule sample_turn_loop [OF ready events])
  obtain ctx w' where cw': "cw' = (ctx, w')" by fastforce
  have "ctx = on_finish kTurnInterrupted None ?ctx"
    using turn_loop_run [OF loop(1) [unfolded cw']] interrupt_ready(5) [OF ready] ready by (simp add: ready_turn_def)
  moreover have "\<not> tc_render_on ?ctx" by (simp add: turn_ctx_init_def)
  ultimately have "turn_exit ctx = (kExitInterrupted, False)"
    using finish_shows [OF ctx_shows_init, of "\<lambda>_. True" gate False kTurnInterrupted None] by (simp add: turn_exit_def)
  then have "run_one_turn (rw_lib headless_world) headless_lib ?sc gate ?opts ''hi'' toy_state (rs_loop st) ?w = Some
      (kExitInterrupted, False, at_session (interrupted_turn t0), ctx, w',
       \<lparr>le_loop = stop_cleared lo', le_turn = Some (interrupted_turn t0), le_gates = gs\<rparr>)"
    using loop(1) cw' t0 unfolding run_one_turn_def Let_def assms(2) sc armed_def by (simp add: sc(3))
  then have "take_turn headless_world gate model api_key len ''hi'' st = Some (kExitInterrupted, False,
      st\<lparr>rs_lua := w', rs_session := at_session (interrupted_turn t0), rs_shown := rs_shown st @ tc_shown ctx,
         rs_lines := rs_lines st @ tc_lines ctx,
         rs_turns := rs_turns st @ [turn_record gate model len ''hi''
           \<lparr>le_loop = stop_cleared lo', le_turn = Some (interrupted_turn t0), le_gates = gs\<rparr>],
         rs_loop := stop_cleared lo', rs_live := None\<rparr>)" (is "_ = Some (_, _, ?st')")
    using assms(1) by (simp add: take_turn_def headless_world_def)
  moreover have "\<exists>a. rs_turns ?st' = rs_turns st @ [a] \<and> rs_live ?st' = None \<and> ta_gates a = gs" by simp
  moreover have "hd gs \<in> set gs" using loop(2) by (cases gs) simp_all
  moreover have "gm_world (hd gs) = (\<lambda>_. quiet_world)" using loop(3) by (simp add: turn_gate_def Let_def)
  ultimately show ?thesis by blast
qed

lemma headless_args: "parse_args [''mua'', ''-p'', ''hi''] = Inr (mua_args_zero\<lparr>ma_prompt := Some ''hi''\<rparr>)"
  by (simp add: parse_args_def)

lemma headless_run:
  "\<exists>w' a g. mua_main headless_world headless_process [''mua'', ''-p'', ''hi''] [] quiet_world = Some (kExitInterrupted, [a], w')
     \<and> g \<in> set (ta_gates a) \<and> gm_world g = (\<lambda>_. quiet_world)"
proof -
  let ?args = "mua_args_zero\<lparr>ma_prompt := Some ''hi''\<rparr>" and ?st = "run_start quiet_world toy_state"
  note args = headless_args
  have new_session: "setup_session headless_lib (pw_session headless_process) False = Inr toy_state"
    by (simp add: setup_session_def fresh_session_def headless_lib_def headless_process_def toy_new)
  have quiet: "hook_count ev quiet_world = 0" "hook_count ev (set_mua (m\<lparr>ms_session := s\<rparr>) quiet_world)
      = autocmd_count (ms_autocmds m) ev" for ev m s
    by (simp_all add: bridge_world_def hook_count_def autocmd_count_def set_mua_def)
  have no_hook: "autocmd_count (ms_autocmds (lw_mua quiet_world)) ev = 0" for ev
    by (simp add: bridge_world_def autocmd_count_def)
  have ctx: "\<exists>len. startup_context headless_world m ''k'' ?st = (len, True, ?st)" for m
    by (simp add: startup_context_def headless_world_def headless_lib_def split: option.split list.split)
  obtain len where len: "startup_context headless_world (resolve_turn_model None (lw_mua quiet_world)) ''k'' ?st = (len, True, ?st)"
    using ctx by blast
  let ?started = "set_current (Some toy_state) ?st"
  have hook: "session_hook headless_world ev ?started = ?started" for ev
    by (simp add: session_hook_def mua_lua_autocmd_session_def fire_event_def set_current_def session_set_current_def run_start_def
        quiet no_hook)
  have prompt: "prompt_hooks headless_world ''hi'' ?started = (Some ''hi'', ?started)"
    by (simp add: prompt_hooks_def mua_lua_autocmd_user_prompt_pre_def set_current_def session_set_current_def run_start_def
        quiet no_hook)
  have "rs_session ?started = toy_state" "ms_options (lw_mua (rs_lua ?started)) = g_options_init" "rs_turns ?started = []"
    by (simp_all add: set_current_def run_start_def session_set_current_def set_mua_def bridge_world_def)
  then obtain st2 a g where turn: "take_turn headless_world AutoRefuse (resolve_turn_model None (lw_mua (rs_lua ?started))) ''k'' len
      ''hi'' ?started = Some (kExitInterrupted, False, st2)" "rs_turns st2 = [a]" "rs_live st2 = None"
      "g \<in> set (ta_gates a)" "gm_world g = (\<lambda>_. quiet_world)"
    by (metis headless_turn append_Nil)
  have "run_prompt headless_world ?args ''hi'' ''k'' len ?started = Some (kExitInterrupted, st2)"
    using turn(1) by (simp add: run_prompt_def prompt gate_policy_for_def mua_args_zero_def)
  then have "\<exists>st3. run_session headless_world ?args ''k'' [] ?st = Some (kExitInterrupted, st3) \<and> rs_turns st3 = [a] \<and> rs_live st3 = None"
    using len hook turn(2,3) by (simp add: run_session_def mua_args_zero_def run_start_def Let_def session_hook_def set_current_def)
  then have "\<exists>w'. mua_main headless_world headless_process [''mua'', ''-p'', ''hi''] [] quiet_world = Some (kExitInterrupted, [a], w')"
    using new_session
    by (auto simp: mua_main_def args run_def run_served_def run_agent_def run_close_def mua_args_zero_def headless_world_def
        headless_lib_def headless_process_def kExitOk_def kExitInterrupted_def)
  then show ?thesis using turn(4,5) by blast
qed

theorem process_policy_witness:
  "\<exists>w' a g. mua_main headless_world headless_process [''mua'', ''-p'', ''hi''] [] quiet_world = Some (kExitInterrupted, [a], w')
     \<and> g \<in> set (ta_gates a) \<and> fst (gm_gate g 0 bash_def (CObject [])) = kGateRefuse"
proof -
  obtain w' a g where run: "mua_main headless_world headless_process [''mua'', ''-p'', ''hi''] [] quiet_world
      = Some (kExitInterrupted, [a], w')" "g \<in> set (ta_gates a)" "gm_world g = (\<lambda>_. quiet_world)"
    using headless_run by (elim exE conjE) (rule that)
  obtain args where args: "parse_args [''mua'', ''-p'', ''hi''] = Inr args"
    and gates: "\<forall>g \<in> set (ta_gates a). \<forall>idx tool cargs. \<exists>decision rewrite refusal w2.
         gate_with_autocmds (rw_lib headless_world) (policy_says args (gm_prompt g idx)) tool cargs (gm_world g idx)
           = Some ((decision, rewrite, refusal), w2)
         \<and> gm_gate g idx tool cargs = (decision, rewrite, refusal, False)"
    using process_policy [OF run(1) list.set_intros(1)] by (elim exE conjE) (rule that)
  obtain decision rewrite refusal w2 where d: "gate_with_autocmds (rw_lib headless_world) (policy_says args (gm_prompt g 0)) bash_def (CObject []) quiet_world
         = Some ((decision, rewrite, refusal), w2)" "gm_gate g 0 bash_def (CObject []) = (decision, rewrite, refusal, False)"
    using gates [THEN bspec, OF run(2), THEN spec, of 0, THEN spec, of bash_def, THEN spec, of "CObject []"]
    unfolding run(3) by (elim exE conjE) (rule that)
  have "td_mutating bash_def" by (simp add: bash_def_def builtin_tool_def)
  then have "policy_says args prompt bash_def (CObject [])
      = (kGateRefuse, Some (td_name bash_def @ '' requires approval; re-run with --yes''))" for prompt
    using args by (auto simp: headless_args policy_says_def mua_args_zero_def)
  then have "decision = kGateRefuse"
    using d(1) by (simp add: gate_with_autocmds_def bridge_world_def autocmd_count_def)
  then have "fst (gm_gate g 0 bash_def (CObject [])) = kGateRefuse" using d(2) by (metis fst_conv)
  then show ?thesis using run(1,2) by blast
qed

theorem process_exit_code_witness:
  "\<exists>turns w'. mua_main headless_world headless_process [''mua'', ''--yse''] [] quiet_world = Some (kExitUsage, turns, w')
     \<and> kExitUsage \<in> {kExitOk, kExitFailure, kExitUsage, kExitInterrupted}
     \<and> (\<exists>msg. parse_args [''mua'', ''--yse''] = Inl msg)"
proof -
  have "mua_main headless_world headless_process [''mua'', ''--yse''] [] quiet_world = Some (kExitUsage, [], quiet_world)"
    by (simp add: mua_main_def parse_args_def)
  with process_exit_code [OF this] show ?thesis by blast
qed

section \<open>A hard stop\<close>

definition is_sigint :: "loop_entry \<Rightarrow> bool" where
  "is_sigint e \<longleftrightarrow> (case e of Sigint _ _ \<Rightarrow> True | _ \<Rightarrow> False)"

definition signals :: "loop_entry list \<Rightarrow> nat" where
  "signals es = length (filter is_sigint es)"

lemma signals_simps [simp]:
  "signals [] = 0" "signals (Sigint env ok # es) = Suc (signals es)" "signals (Fires env ev # es) = signals es"
  "signals (Poll # es) = signals es"
  by (simp_all add: signals_def is_sigint_def)















end
