(* ===== verification/Http.thy ===== *)
theory Http
  imports Provider Agent
begin

text \<open>
  The HTTP client (\<open>http.c\<close>): the curl multi handle on the event loop. libcurl and libuv are the calls
  they make into the client and the outcomes of the client's calls. What a user callback does in turn,
  cancel a request or make one, is given by a function of all the callbacks made so far. A request is
  the number of requests accepted before it, and so a handle is never used again.
\<close>

definition MUA_HTTP_MAX_HEADERS :: nat where "MUA_HTTP_MAX_HEADERS = 32"
definition MUA_HTTP_CONNECT_TIMEOUT_MS :: int where "MUA_HTTP_CONNECT_TIMEOUT_MS = 10000"
definition MUA_HTTP_STALL_WINDOW_S :: int where "MUA_HTTP_STALL_WINDOW_S = 90"

section \<open>State\<close>

text \<open>Which callbacks are not \<open>NULL\<close>.\<close>

record http_callbacks =
  on_status :: bool
  on_chunk :: bool
  on_complete :: bool

record http_req =
  hr_id :: nat
  hr_cb :: http_callbacks
  hr_status_reported :: bool
  hr_cancel_requested :: bool

datatype http_call =
  CallStatus nat int "string option"
  | CallChunk nat string
  | CallComplete nat curl_code int int

text \<open>A \<open>SockCtx\<close>, while its poll handle is open or until its close callback; the mask it polls for.\<close>

datatype sock_ctx = SockOpen int "nat option" | SockClosing

record http_client =
  cl_active :: int
  cl_timers_open :: nat
  cl_closing :: bool
  cl_requests :: "http_req list"
  cl_accepted :: "http_callbacks list"
  cl_reap_armed :: bool
  cl_timeout :: "nat option"
  cl_socks :: "int \<rightharpoonup> nat"
  cl_polls :: "nat \<rightharpoonup> sock_ctx"
  cl_sock_count :: nat
  cl_freed :: bool
  cl_out :: "http_call list"

definition find_request :: "nat \<Rightarrow> http_client \<Rightarrow> http_req option" where
  "find_request i c = find (\<lambda>r. hr_id r = i) (cl_requests c)"

definition set_request :: "http_req \<Rightarrow> http_client \<Rightarrow> http_client" where
  "set_request r c = c\<lparr>cl_requests := map (\<lambda>q. if hr_id q = hr_id r then r else q) (cl_requests c)\<rparr>"

section \<open>Requests\<close>

text \<open>\<open>http_cancel\<close>: the reap timer can be started, since no request lives once it is closed.\<close>

definition http_cancel :: "nat \<Rightarrow> http_client \<Rightarrow> http_client" where
  "http_cancel i c =
     (case find_request i c of
        None \<Rightarrow> c
      | Some r \<Rightarrow>
          if hr_cancel_requested r then c
          else (set_request (r\<lparr>hr_cancel_requested := True\<rparr>) c)\<lparr>cl_reap_armed := True\<rparr>)"

datatype curl_opt =
  CURLOPT_CONNECTTIMEOUT_MS int | CURLOPT_LOW_SPEED_LIMIT int | CURLOPT_LOW_SPEED_TIME int
  | CURLOPT_ACCEPT_ENCODING string | CURLOPT_FOLLOWLOCATION int | CURLOPT_MAXREDIRS int | CURLOPT_NOSIGNAL int
  | CURLOPT_URL string | CURLOPT_HTTPGET int | CURLOPT_POST int | CURLOPT_POSTFIELDSIZE_LARGE int
  | CURLOPT_COPYPOSTFIELDS string | CURLOPT_HTTPHEADER "string list" | CURLOPT_WRITEFUNCTION | CURLOPT_WRITEDATA
  | CURLOPT_ERRORBUFFER | CURLOPT_PRIVATE

record http_request_opts =
  ho_url :: "string option"
  ho_headers :: "string list"
  ho_body :: mstring
  ho_get :: bool
  ho_connect_timeout_ms :: int
  ho_stall_window_s :: int

definition transport_options :: "http_request_opts \<Rightarrow> curl_opt list" where
  "transport_options opts =
     [CURLOPT_CONNECTTIMEOUT_MS
        (if ho_connect_timeout_ms opts > 0 then ho_connect_timeout_ms opts else MUA_HTTP_CONNECT_TIMEOUT_MS),
      CURLOPT_LOW_SPEED_LIMIT 1,
      CURLOPT_LOW_SPEED_TIME (if ho_stall_window_s opts > 0 then ho_stall_window_s opts else MUA_HTTP_STALL_WINDOW_S),
      CURLOPT_ACCEPT_ENCODING [], CURLOPT_FOLLOWLOCATION 0, CURLOPT_MAXREDIRS 0, CURLOPT_NOSIGNAL 1]"

definition request_options :: "http_request_opts \<Rightarrow> string list \<Rightarrow> curl_opt list" where
  "request_options opts headers =
     (case ho_url opts of Some url \<Rightarrow> [CURLOPT_URL url] | None \<Rightarrow> [])
     @ (if ho_get opts then [CURLOPT_HTTPGET 1]
        else [CURLOPT_POST 1, CURLOPT_POSTFIELDSIZE_LARGE (int (str_size (ho_body opts))),
              CURLOPT_COPYPOSTFIELDS (str_bytes (ho_body opts))])
     @ [CURLOPT_HTTPHEADER headers, CURLOPT_WRITEFUNCTION, CURLOPT_WRITEDATA, CURLOPT_ERRORBUFFER, CURLOPT_PRIVATE]"

text \<open>The outcomes of the setup calls; \<open>hs_appends\<close> is the number of headers that could be appended.\<close>

record http_setup =
  hs_easy :: bool
  hs_appends :: nat
  hs_setopt :: "curl_opt \<Rightarrow> bool"
  hs_add :: "string option"

definition configure_transport :: "http_setup \<Rightarrow> http_request_opts \<Rightarrow> bool" where
  "configure_transport su opts \<longleftrightarrow> list_all (hs_setopt su) (transport_options opts)"

definition configure_request :: "http_setup \<Rightarrow> http_request_opts \<Rightarrow> string list \<Rightarrow> bool" where
  "configure_request su opts headers \<longleftrightarrow> list_all (hs_setopt su) (request_options opts headers)"

definition request_init :: "nat \<Rightarrow> http_callbacks \<Rightarrow> http_req" where
  "request_init i cb = \<lparr>hr_id = i, hr_cb = cb, hr_status_reported = False, hr_cancel_requested = False\<rparr>"

definition http_request ::
    "http_setup \<Rightarrow> http_request_opts \<Rightarrow> http_callbacks \<Rightarrow> http_client \<Rightarrow> (error + nat) \<times> http_client" where
  "http_request su opts cb c =
     (if cl_closing c then (Inl (kErrorTypeValidation, ''http: client is closing''), c)
      else if ho_url opts = None then (Inl (kErrorTypeValidation, ''http: url is required''), c)
      else if length (ho_headers opts) > MUA_HTTP_MAX_HEADERS
      then (Inl (kErrorTypeValidation, ''http: '' @ show_nat (length (ho_headers opts)) @ '' headers exceeds cap of ''
                   @ show_nat MUA_HTTP_MAX_HEADERS), c)
      else if \<not> hs_easy su then (Inl (kErrorTypeException, ''http: curl_easy_init failed''), c)
      else if \<not> configure_transport su opts \<or> \<not> configure_request su opts (take (hs_appends su) (ho_headers opts))
      then (Inl (kErrorTypeException, ''http: configuring the request failed''), c)
      else (case hs_add su of
              Some e \<Rightarrow> (Inl (kErrorTypeException, ''http: '' @ e), c)
            | None \<Rightarrow>
                let i = length (cl_accepted c) in
                (Inr i, c\<lparr>cl_active := cl_active c + 1, cl_requests := request_init i cb # cl_requests c,
                          cl_accepted := cl_accepted c @ [cb]\<rparr>)))"

section \<open>Callbacks\<close>

datatype http_act = ActCancel nat | ActRequest http_setup http_request_opts http_callbacks

fun do_act :: "http_act \<Rightarrow> http_client \<Rightarrow> http_client" where
  "do_act (ActCancel i) c = http_cancel i c"
| "do_act (ActRequest su opts cb) c = snd (http_request su opts cb c)"

type_synonym http_user = "http_call list \<Rightarrow> bool \<times> http_act list"

text \<open>A call of the user: what it returned and did.\<close>

definition call_user :: "http_user \<Rightarrow> http_call \<Rightarrow> http_client \<Rightarrow> bool \<times> http_client" where
  "call_user user x c =
     (case user (cl_out c @ [x]) of
        (ok, acts) \<Rightarrow> (ok, fold do_act acts (c\<lparr>cl_out := cl_out c @ [x]\<rparr>)))"

text \<open>\<open>status\<close> and \<open>content_type\<close> are what \<open>curl_easy_getinfo\<close> gives, 0 and \<open>NULL\<close> when it fails.\<close>

definition report_status :: "http_user \<Rightarrow> http_req \<Rightarrow> int \<Rightarrow> string option \<Rightarrow> http_client \<Rightarrow> http_client" where
  "report_status user r status content_type c =
     (let c = set_request (r\<lparr>hr_status_reported := True\<rparr>) c in
      if on_status (hr_cb r) then snd (call_user user (CallStatus (hr_id r) status content_type) c) else c)"

text \<open>\<open>False\<close> is \<open>CURL_WRITEFUNC_ERROR\<close>.\<close>

definition write_cb ::
    "http_user \<Rightarrow> nat \<Rightarrow> int \<Rightarrow> string option \<Rightarrow> string \<Rightarrow> http_client \<Rightarrow> bool \<times> http_client" where
  "write_cb user i status content_type bytes c =
     (case find_request i c of
        None \<Rightarrow> (False, c)
      | Some r \<Rightarrow>
          if hr_cancel_requested r then (False, c)
          else
            let c = (if \<not> hr_status_reported r then report_status user r status content_type c else c) in
            if on_chunk (hr_cb r) \<and> bytes \<noteq> [] then call_user user (CallChunk i bytes) c else (True, c))"

definition get_retry_after :: "string option \<Rightarrow> int" where
  "get_retry_after header =
     (case header of
        None \<Rightarrow> - 1
      | Some value \<Rightarrow> (case strtol value of Some (v, _) \<Rightarrow> if v < 0 then - 1 else v | None \<Rightarrow> - 1))"

fun unlink_request :: "nat \<Rightarrow> http_req list \<Rightarrow> http_req list" where
  "unlink_request i [] = []"
| "unlink_request i (r # rs) = (if hr_id r = i then rs else r # unlink_request i rs)"

text \<open>What libcurl says of a request that ends: status, content type, \<open>Retry-After\<close>.\<close>

record http_info =
  hi_status :: int
  hi_content_type :: "string option"
  hi_retry_after :: "string option"

definition finish_request :: "http_user \<Rightarrow> (nat \<Rightarrow> http_info) \<Rightarrow> nat \<Rightarrow> curl_code \<Rightarrow> http_client \<Rightarrow> http_client" where
  "finish_request user info i result c =
     (case find_request i c of
        None \<Rightarrow> c
      | Some r \<Rightarrow>
          let status = hi_status (info i);
              c = (if \<not> hr_status_reported r \<and> status > 0
                   then report_status user r status (hi_content_type (info i)) c else c);
              c = c\<lparr>cl_requests := unlink_request i (cl_requests c), cl_active := cl_active c - 1\<rparr>
          in if on_complete (hr_cb r)
             then snd (call_user user (CallComplete i result status (get_retry_after (hi_retry_after (info i)))) c)
             else c)"

section \<open>The multi handle\<close>

text \<open>Messages of libcurl: a transfer done, of an unknown handle when \<open>None\<close>, or another kind.\<close>

datatype curl_msg = CurlDone "nat option" curl_code | CurlOther

fun take_msg :: "http_user \<Rightarrow> (nat \<Rightarrow> http_info) \<Rightarrow> curl_msg \<Rightarrow> http_client \<Rightarrow> http_client" where
  "take_msg user info (CurlDone (Some i) result) c = finish_request user info i result c"
| "take_msg user info _ c = c"

definition check_multi_info :: "http_user \<Rightarrow> (nat \<Rightarrow> http_info) \<Rightarrow> curl_msg list \<Rightarrow> http_client \<Rightarrow> http_client" where
  "check_multi_info user info msgs c = fold (take_msg user info) (take (nat (cl_active c + 1)) msgs) c"

definition timer_function :: "int \<Rightarrow> bool \<Rightarrow> http_client \<Rightarrow> int \<times> http_client" where
  "timer_function timeout_ms started c =
     (if timeout_ms < 0 then (0, c\<lparr>cl_timeout := None\<rparr>)
      else if \<not> started then (- 1, c)
      else (0, c\<lparr>cl_timeout := Some (nat timeout_ms)\<rparr>))"

definition CURL_POLL_IN :: nat where "CURL_POLL_IN = 1"
definition CURL_POLL_OUT :: nat where "CURL_POLL_OUT = 2"
definition CURL_POLL_INOUT :: nat where "CURL_POLL_INOUT = 3"
definition CURL_POLL_REMOVE :: nat where "CURL_POLL_REMOVE = 4"
definition UV_READABLE :: nat where "UV_READABLE = 1"
definition UV_WRITABLE :: nat where "UV_WRITABLE = 2"

definition poll_events :: "nat \<Rightarrow> nat" where
  "poll_events what =
     (if what = CURL_POLL_IN \<or> what = CURL_POLL_INOUT then UV_READABLE else 0)
     + (if what = CURL_POLL_OUT \<or> what = CURL_POLL_INOUT then UV_WRITABLE else 0)"

text \<open>\<open>uv_close\<close> of the poll handle of a context.\<close>

definition close_poll :: "nat \<Rightarrow> http_client \<Rightarrow> http_client" where
  "close_poll k c = c\<lparr>cl_polls := (cl_polls c)(k \<mapsto> SockClosing)\<rparr>"

definition sock_start :: "int \<Rightarrow> nat \<Rightarrow> nat \<Rightarrow> bool \<Rightarrow> http_client \<Rightarrow> int \<times> http_client" where
  "sock_start fd k what started c =
     (if started then (0, c\<lparr>cl_polls := (cl_polls c)(k \<mapsto> SockOpen fd (Some (poll_events what)))\<rparr>) else (- 1, c))"

text \<open>\<open>(init, assign, start)\<close>: the outcomes of \<open>uv_poll_init_socket\<close>, \<open>curl_multi_assign\<close>, \<open>uv_poll_start\<close>.\<close>

definition socket_function :: "int \<Rightarrow> nat \<Rightarrow> bool \<times> bool \<times> bool \<Rightarrow> http_client \<Rightarrow> int \<times> http_client" where
  "socket_function fd what outcomes c =
     (case outcomes of
        (init_ok, assigned, started) \<Rightarrow>
          if what = CURL_POLL_REMOVE
          then (case cl_socks c fd of
                  None \<Rightarrow> (0, c)
                | Some k \<Rightarrow> (0, close_poll k (c\<lparr>cl_socks := (cl_socks c)(fd := None)\<rparr>)))
          else (case cl_socks c fd of
                  Some k \<Rightarrow> sock_start fd k what started c
                | None \<Rightarrow>
                    if \<not> init_ok then (- 1, c)
                    else
                      let k = cl_sock_count c; c = c\<lparr>cl_sock_count := k + 1\<rparr> in
                      if \<not> assigned then (- 1, close_poll k c)
                      else sock_start fd k what started
                             (c\<lparr>cl_socks := (cl_socks c)(fd \<mapsto> k), cl_polls := (cl_polls c)(k \<mapsto> SockOpen fd None)\<rparr>)))"

definition sockctx_close_cb :: "nat \<Rightarrow> http_client \<Rightarrow> http_client" where
  "sockctx_close_cb k c = c\<lparr>cl_polls := (cl_polls c)(k := None)\<rparr>"

definition CURL_CSELECT_IN :: nat where "CURL_CSELECT_IN = 1"
definition CURL_CSELECT_OUT :: nat where "CURL_CSELECT_OUT = 2"
definition CURL_CSELECT_ERR :: nat where "CURL_CSELECT_ERR = 4"

text \<open>The flags of a poll event for \<open>curl_multi_socket_action\<close>.\<close>

definition poll_cb :: "int \<Rightarrow> bool \<Rightarrow> bool \<Rightarrow> nat" where
  "poll_cb status readable writable =
     (if status < 0 then CURL_CSELECT_ERR
      else (if readable then CURL_CSELECT_IN else 0) + (if writable then CURL_CSELECT_OUT else 0))"

text \<open>The calls libcurl makes from \<open>curl_multi_socket_action\<close>.\<close>

datatype curl_call =
  CurlWrite nat int "string option" string
  | CurlSocket int nat "bool \<times> bool \<times> bool"
  | CurlTimer int bool

fun curl_calls :: "http_user \<Rightarrow> curl_call \<Rightarrow> http_client \<Rightarrow> http_client" where
  "curl_calls user (CurlWrite i status content_type bytes) c = snd (write_cb user i status content_type bytes c)"
| "curl_calls user (CurlSocket fd what outcomes) c = snd (socket_function fd what outcomes c)"
| "curl_calls user (CurlTimer timeout_ms started) c = snd (timer_function timeout_ms started c)"

definition do_socket_action ::
    "http_user \<Rightarrow> (nat \<Rightarrow> http_info) \<Rightarrow> curl_call list \<Rightarrow> curl_msg list \<Rightarrow> http_client \<Rightarrow> http_client" where
  "do_socket_action user info calls msgs c = check_multi_info user info msgs (fold (curl_calls user) calls c)"

section \<open>Deferred cancellation and the end\<close>

text \<open>The walk of \<open>reap_cb\<close> visits the requests that were listed when it began: a completion unlinks the one
  visited and puts new ones in front.\<close>

definition reap_one :: "http_user \<Rightarrow> (nat \<Rightarrow> http_info) \<Rightarrow> nat \<Rightarrow> http_client \<Rightarrow> http_client" where
  "reap_one user info i c =
     (case find_request i c of
        None \<Rightarrow> c
      | Some r \<Rightarrow> if hr_cancel_requested r then finish_request user info i CURLE_ABORTED_BY_CALLBACK c else c)"

definition reap_cb :: "http_user \<Rightarrow> (nat \<Rightarrow> http_info) \<Rightarrow> http_client \<Rightarrow> http_client" where
  "reap_cb user info c = fold (reap_one user info) (map hr_id (cl_requests c)) (c\<lparr>cl_reap_armed := False\<rparr>)"

definition client_init :: http_client where
  "client_init = \<lparr>cl_active = 0, cl_timers_open = 2, cl_closing = False, cl_requests = [], cl_accepted = [],
     cl_reap_armed = False, cl_timeout = None, cl_socks = Map.empty, cl_polls = Map.empty, cl_sock_count = 0,
     cl_freed = False, cl_out = []\<rparr>"

definition client_handle_closed :: "http_client \<Rightarrow> http_client" where
  "client_handle_closed c =
     (let c = c\<lparr>cl_timers_open := cl_timers_open c - 1\<rparr> in
      if cl_timers_open c = 0 then c\<lparr>cl_freed := True\<rparr> else c)"

text \<open>What a closing client keeps: it accepts nothing, so that its requests only become fewer.\<close>

definition request_ids :: "http_client \<Rightarrow> nat list" where
  "request_ids c = map hr_id (cl_requests c)"

lemma set_request_simps [simp]:
  "request_ids (set_request r c) = request_ids c" "cl_closing (set_request r c) = cl_closing c"
  by (simp_all add: request_ids_def set_request_def comp_def)

lemma find_request_ids: "find_request i c = Some r \<Longrightarrow> hr_id r = i \<and> r \<in> set (cl_requests c)"
  by (auto simp: find_request_def find_Some_iff in_set_conv_nth)

definition closes_like :: "http_client \<Rightarrow> http_client \<Rightarrow> bool" where
  "closes_like c c' \<longleftrightarrow> (cl_closing c \<longrightarrow> cl_closing c' \<and> request_ids c' = request_ids c)"

lemma closes_like_refl [simp]: "closes_like c c"
  by (simp add: closes_like_def)

lemma closes_like_trans: "closes_like a b \<Longrightarrow> closes_like b c \<Longrightarrow> closes_like a c"
  by (simp add: closes_like_def)

lemma do_act_closing: "closes_like c (do_act a c)"
proof (cases a)
  case (ActCancel i)
  then show ?thesis
    by (cases "find_request i c") (simp_all add: closes_like_def http_cancel_def request_ids_def set_request_def comp_def)
qed (simp add: closes_like_def http_request_def)

lemma do_acts_closing: "closes_like c (fold do_act acts c)"
  by (induction acts arbitrary: c) (auto intro: closes_like_trans do_act_closing)

lemma call_user_closing: "closes_like c (snd (call_user user x c))"
  using do_acts_closing [of "c\<lparr>cl_out := cl_out c @ [x]\<rparr>"]
  by (simp add: call_user_def closes_like_def request_ids_def split: prod.split)

lemma report_status_closing: "closes_like c (report_status user r status content_type c)"
proof -
  have "closes_like c (set_request r' c)" for r' by (simp add: closes_like_def)
  then show ?thesis using call_user_closing closes_like_trans by (simp add: report_status_def Let_def) blast
qed

lemma unlink_ids: "map hr_id (unlink_request i rs) = remove1 i (map hr_id rs)"
  by (induction rs) simp_all

lemma finish_request_closing:
  assumes "cl_closing c" "find_request i c = Some r"
  shows "cl_closing (finish_request user info i result c)
    \<and> request_ids (finish_request user info i result c) = remove1 i (request_ids c)"
proof -
  define c1 where "c1 = (if \<not> hr_status_reported r \<and> hi_status (info i) > 0
    then report_status user r (hi_status (info i)) (hi_content_type (info i)) c else c)"
  define c2 where "c2 = c1\<lparr>cl_requests := unlink_request i (cl_requests c1), cl_active := cl_active c1 - 1\<rparr>"
  have "closes_like c c1" using report_status_closing by (simp add: c1_def)
  then have "cl_closing c2" "request_ids c2 = remove1 i (request_ids c)"
    using assms(1) by (simp_all add: c2_def closes_like_def request_ids_def unlink_ids)
  moreover have "finish_request user info i result c = (if on_complete (hr_cb r)
      then snd (call_user user (CallComplete i result (hi_status (info i)) (get_retry_after (hi_retry_after (info i)))) c2) else c2)"
    using assms(2) by (simp add: finish_request_def Let_def c1_def c2_def)
  ultimately show ?thesis using call_user_closing [of c2 user] by (simp add: closes_like_def)
qed

text \<open>\<open>http_client_close\<close> finishes every live request, which terminates as no request is accepted by then.\<close>

function close_requests :: "http_user \<Rightarrow> (nat \<Rightarrow> http_info) \<Rightarrow> http_client \<Rightarrow> http_client" where
  "close_requests user info c =
     (case cl_requests c of
        [] \<Rightarrow> c
      | r # _ \<Rightarrow>
          if \<not> cl_closing c then c
          else close_requests user info (finish_request user info (hr_id r) CURLE_ABORTED_BY_CALLBACK c))"
  by pat_completeness auto
termination close_requests
proof (relation "measure (\<lambda>(user, info, c). length (request_ids c))")
  fix user info r rs and c :: http_client
  assume "cl_requests c = r # rs" "\<not> \<not> cl_closing c"
  then have "find_request (hr_id r) c = Some r" "hr_id r \<in> set (request_ids c)" "cl_closing c" "request_ids c \<noteq> []"
    by (simp_all add: find_request_def request_ids_def)
  then show "((user, info, finish_request user info (hr_id r) CURLE_ABORTED_BY_CALLBACK c), user, info, c)
      \<in> measure (\<lambda>(user, info, c). length (request_ids c))"
    using finish_request_closing [of c "hr_id r" r user info] by (simp add: length_remove1)
qed simp

declare close_requests.simps [simp del]

text \<open>\<open>calls\<close>: what libcurl calls from \<open>curl_multi_cleanup\<close>.\<close>

definition http_client_close :: "http_user \<Rightarrow> (nat \<Rightarrow> http_info) \<Rightarrow> curl_call list \<Rightarrow> http_client \<Rightarrow> http_client" where
  "http_client_close user info calls c =
     (if cl_closing c then c
      else (fold (curl_calls user) calls (close_requests user info (c\<lparr>cl_closing := True\<rparr>)))
             \<lparr>cl_timeout := None, cl_reap_armed := False\<rparr>)"

text \<open>The outcomes of the calls of \<open>http_client_new\<close>; the client, or the error, and \<open>g_curl_initialized\<close>.\<close>

record curl_setup =
  cs_global :: bool
  cs_multi :: bool
  cs_timers :: bool
  cs_opts :: bool

definition http_client_new :: "curl_setup \<Rightarrow> bool \<Rightarrow> (error + http_client) \<times> bool" where
  "http_client_new su initialized =
     (if \<not> initialized \<and> \<not> cs_global su then (Inl (kErrorTypeException, ''http: curl_global_init failed''), False)
      else if \<not> cs_multi su then (Inl (kErrorTypeException, ''http: curl_multi_init failed''), True)
      else if \<not> cs_timers su then (Inl (kErrorTypeException, ''http: timer init failed''), True)
      else if \<not> cs_opts su then (Inl (kErrorTypeException, ''http: curl_multi_setopt failed''), True)
      else (Inr client_init, True))"

definition http_global_cleanup :: "bool \<Rightarrow> bool" where
  "http_global_cleanup initialized = False"

section \<open>Events\<close>

text \<open>
  One turn of the loop for the client: its sockets or its timer (\<open>poll_cb\<close>, \<open>on_timeout\<close>), the reap timer, a
  request or a cancel from outside of its callbacks, the close, and the close callbacks of its handles.
  \<open>None\<close>: the event cannot happen.
\<close>

datatype http_event =
  HttpAction "nat \<Rightarrow> http_info" "curl_call list" "curl_msg list"
  | HttpReap "nat \<Rightarrow> http_info"
  | HttpAct http_act
  | HttpClose "nat \<Rightarrow> http_info" "curl_call list"
  | HttpTimerClosed
  | HttpPollClosed nat

fun http_step :: "http_user \<Rightarrow> http_client \<Rightarrow> http_event \<Rightarrow> http_client option" where
  "http_step user c (HttpAction info calls msgs) =
     (if cl_closing c then None else Some (do_socket_action user info calls msgs c))"
| "http_step user c (HttpReap info) = (if cl_reap_armed c then Some (reap_cb user info c) else None)"
| "http_step user c (HttpAct a) = (if cl_freed c then None else Some (do_act a c))"
| "http_step user c (HttpClose info calls) = (if cl_freed c then None else Some (http_client_close user info calls c))"
| "http_step user c HttpTimerClosed =
     (if cl_closing c \<and> cl_timers_open c > 0 then Some (client_handle_closed c) else None)"
| "http_step user c (HttpPollClosed k) =
     (if cl_polls c k = Some SockClosing then Some (sockctx_close_cb k c) else None)"

inductive http_reach :: "http_user \<Rightarrow> http_client \<Rightarrow> bool" for user where
  http_opened: "http_reach user client_init"
| http_event: "http_reach user c \<Longrightarrow> http_step user c e = Some c' \<Longrightarrow> http_reach user c'"

end
