(* ===== verification/HttpProps.thy ===== *)
theory HttpProps
  imports Http Callbacks
begin

text \<open>
  Properties of the HTTP client: the callbacks of every request, in order and to the end; that a cancel and
  a close end the requests; and that every socket context is closed once.
\<close>

section \<open>The callbacks of a request\<close>

fun call_id :: "http_call \<Rightarrow> nat" where
  "call_id (CallStatus i s t) = i"
| "call_id (CallChunk i bytes) = i"
| "call_id (CallComplete i result s retry) = i"

fun is_status :: "http_call \<Rightarrow> bool" where
  "is_status (CallStatus i s t) = True"
| "is_status _ = False"

fun is_chunk :: "http_call \<Rightarrow> bool" where
  "is_chunk (CallChunk i bytes) \<longleftrightarrow> bytes \<noteq> []"
| "is_chunk _ = False"

fun is_complete :: "http_call \<Rightarrow> bool" where
  "is_complete (CallComplete i result s retry) = True"
| "is_complete _ = False"

definition calls_of :: "nat \<Rightarrow> http_client \<Rightarrow> http_call list" where
  "calls_of i c = filter (\<lambda>x. call_id x = i) (cl_out c)"

text \<open>The status at most once and first, then chunks; \<open>reported\<close> says whether the status is behind.\<close>

definition opens_with :: "http_callbacks \<Rightarrow> bool \<Rightarrow> http_call list \<Rightarrow> bool" where
  "opens_with cb reported xs \<longleftrightarrow>
     (\<exists>st cs. xs = st @ cs \<and> length st \<le> 1 \<and> list_all is_status st \<and> list_all is_chunk cs
        \<and> (st \<noteq> [] \<longleftrightarrow> reported \<and> on_status cb) \<and> (cs \<noteq> [] \<longrightarrow> reported \<and> on_chunk cb))"

definition finished_with :: "http_callbacks \<Rightarrow> http_call list \<Rightarrow> bool" where
  "finished_with cb xs \<longleftrightarrow>
     (\<exists>reported ts. opens_with cb reported ts
        \<and> (if on_complete cb then \<exists>x. is_complete x \<and> xs = ts @ [x] else xs = ts))"

lemma opens_Nil: "opens_with cb False []"
  by (simp add: opens_with_def)

lemma opens_status:
  assumes "opens_with cb False xs" "on_status cb" "is_status x"
  shows "opens_with cb True (xs @ [x])"
proof -
  have "xs = []" using assms(1) by (auto simp: opens_with_def)
  then show ?thesis
    unfolding opens_with_def by (intro exI [of _ "[x]"] exI [of _ "[]"]) (use assms(2,3) in simp)
qed

lemma opens_silent: "opens_with cb False xs \<Longrightarrow> \<not> on_status cb \<Longrightarrow> opens_with cb True xs"
  by (auto simp: opens_with_def)

lemma opens_chunk:
  assumes "opens_with cb True xs" "on_chunk cb" "is_chunk x"
  shows "opens_with cb True (xs @ [x])"
proof -
  from assms(1) obtain st cs where "xs = st @ cs" "length st \<le> 1" "list_all is_status st" "list_all is_chunk cs"
      "st \<noteq> [] \<longleftrightarrow> on_status cb"
    by (auto simp: opens_with_def)
  with assms(2,3) show ?thesis
    unfolding opens_with_def by (intro exI [of _ st] exI [of _ "cs @ [x]"]) simp
qed

section \<open>The invariant\<close>

text \<open>A live request: one whose cancel is pending has the reap timer armed, unless it is one of \<open>S\<close>.\<close>

definition live_ok :: "nat set \<Rightarrow> http_client \<Rightarrow> http_req \<Rightarrow> bool" where
  "live_ok S c r \<longleftrightarrow>
     hr_id r < length (cl_accepted c) \<and> hr_cb r = cl_accepted c ! hr_id r
     \<and> opens_with (hr_cb r) (hr_status_reported r) (calls_of (hr_id r) c)
     \<and> (hr_cancel_requested r \<longrightarrow> cl_reap_armed c \<or> hr_id r \<in> S)"

definition http_inv :: "nat set \<Rightarrow> http_client \<Rightarrow> bool" where
  "http_inv S c \<longleftrightarrow>
     distinct (request_ids c) \<and> cl_active c = int (length (cl_requests c))
     \<and> (\<forall>x \<in> set (cl_out c). call_id x < length (cl_accepted c))
     \<and> (\<forall>r \<in> set (cl_requests c). live_ok S c r)
     \<and> (\<forall>i < length (cl_accepted c). i \<notin> set (request_ids c) \<longrightarrow> finished_with (cl_accepted c ! i) (calls_of i c))"

lemma http_invD:
  assumes "http_inv S c"
  shows "distinct (request_ids c)" "r \<in> set (cl_requests c) \<Longrightarrow> live_ok S c r"
    "i < length (cl_accepted c) \<Longrightarrow> i \<notin> set (request_ids c) \<Longrightarrow> finished_with (cl_accepted c ! i) (calls_of i c)"
    "x \<in> set (cl_out c) \<Longrightarrow> call_id x < length (cl_accepted c)"
  using assms by (simp_all add: http_inv_def)

lemma http_inv_init: "http_inv S client_init"
  by (simp add: http_inv_def client_init_def request_ids_def)

lemma request_ids_mem: "i \<in> set (request_ids c) \<longleftrightarrow> (\<exists>r \<in> set (cl_requests c). hr_id r = i)"
  by (auto simp: request_ids_def)

lemma find_request_iff:
  assumes "distinct (request_ids c)"
  shows "find_request i c = Some r \<longleftrightarrow> r \<in> set (cl_requests c) \<and> hr_id r = i"
proof -
  have "find (\<lambda>r. hr_id r = i) rs = Some r \<longleftrightarrow> r \<in> set rs \<and> hr_id r = i" if "distinct (map hr_id rs)" for rs
    using that by (induction rs) auto
  then show ?thesis using assms by (simp add: find_request_def request_ids_def)
qed

lemma find_request_None: "find_request i c = None \<longleftrightarrow> i \<notin> set (request_ids c)"
  by (auto simp: find_request_def find_None_iff request_ids_mem)

lemma set_request_mem:
  assumes "distinct (request_ids c)" "r \<in> set (cl_requests c)" "hr_id r' = hr_id r"
  shows "set (cl_requests (set_request r' c)) = insert r' (set (cl_requests c) - {r})"
proof -
  have "q = r" if "q \<in> set (cl_requests c)" "hr_id q = hr_id r" for q
    using find_request_iff [OF assms(1), of "hr_id r"] that assms(2) by (metis option.inject)
  then show ?thesis using assms(2,3) by (auto simp: set_request_def image_iff)
qed

text \<open>What a step does to the requests it does not finish: \<open>r\<close> lives on, its cancel at most newly pending.\<close>

definition lives_on :: "http_client \<Rightarrow> http_client \<Rightarrow> bool" where
  "lives_on c c' \<longleftrightarrow>
     (\<forall>r \<in> set (cl_requests c). \<exists>r' \<in> set (cl_requests c'). hr_id r' = hr_id r \<and> hr_cb r' = hr_cb r
        \<and> hr_status_reported r' = hr_status_reported r)"

lemma lives_on_refl [simp]: "lives_on c c"
  by (auto simp: lives_on_def)

lemma lives_on_trans: "lives_on a b \<Longrightarrow> lives_on b c \<Longrightarrow> lives_on a c"
  unfolding lives_on_def by metis

lemma calls_of_set_request [simp]: "calls_of i (set_request r c) = calls_of i c"
  by (simp add: calls_of_def set_request_def)

lemma set_request_frame [simp]:
  "cl_accepted (set_request r c) = cl_accepted c" "cl_out (set_request r c) = cl_out c"
  "cl_active (set_request r c) = cl_active c" "length (cl_requests (set_request r c)) = length (cl_requests c)"
  "cl_reap_armed (set_request r c) = cl_reap_armed c"
  by (simp_all add: set_request_def)

lemma calls_of_append:
  "calls_of i (c\<lparr>cl_out := cl_out c @ xs\<rparr>) = calls_of i c @ filter (\<lambda>x. call_id x = i) xs"
  by (simp add: calls_of_def)

text \<open>A live request exchanged for one that differs in its flags, with calls made for it.\<close>

lemma http_inv_update:
  assumes "http_inv S c" "r \<in> set (cl_requests c)" "hr_id r' = hr_id r" "hr_cb r' = hr_cb r"
    "list_all (\<lambda>x. call_id x = hr_id r) xs"
    "opens_with (hr_cb r) (hr_status_reported r') (calls_of (hr_id r) c @ xs)"
    "hr_cancel_requested r' \<longrightarrow> hr_cancel_requested r \<or> cl_reap_armed c"
  shows "http_inv S ((set_request r' c)\<lparr>cl_out := cl_out c @ xs\<rparr>)" (is "http_inv S ?c")
proof -
  have d: "distinct (request_ids c)" using assms(1) by (simp add: http_inv_def)
  have same: "q = r" if "q \<in> set (cl_requests c)" "hr_id q = hr_id r" for q
    using find_request_iff [OF d, of "hr_id r"] that assms(2) by (metis option.inject)
  have mem: "set (cl_requests ?c) = insert r' (set (cl_requests c) - {r})"
    using set_request_mem [OF d assms(2,3)] by simp
  have calls: "calls_of i ?c = (if i = hr_id r then calls_of i c @ xs else calls_of i c)" for i
  proof -
    have "filter (\<lambda>x. call_id x = i) xs = (if i = hr_id r then xs else [])"
      using assms(5) by (induction xs) auto
    then show ?thesis by (simp add: calls_of_def)
  qed
  note r = http_invD(2) [OF assms(1,2), unfolded live_ok_def]
  have ids: "request_ids ?c = request_ids c" by (simp add: request_ids_def set_request_def comp_def)
  have live: "hr_id r \<in> set (request_ids c)" using assms(2) by (auto simp: request_ids_mem)
  have "live_ok S ?c q" if "q \<in> set (cl_requests ?c)" for q
  proof (cases "q = r'")
    case True
    then show ?thesis using r assms(3-7) by (auto simp: calls live_ok_def)
  next
    case False
    then have q: "q \<in> set (cl_requests c)" "q \<noteq> r" using that mem by auto
    then have "calls_of (hr_id q) ?c = calls_of (hr_id q) c" using same calls by metis
    then show ?thesis using http_invD(2) [OF assms(1) q(1)] by (auto simp: live_ok_def)
  qed
  moreover have "finished_with (cl_accepted c ! i) (calls_of i ?c)"
    if "i < length (cl_accepted c)" "i \<notin> set (request_ids c)" for i
    using assms(1) that live by (auto simp: http_inv_def calls)
  moreover have "\<forall>x \<in> set (cl_out ?c). call_id x < length (cl_accepted c)"
    using assms(1,5) r by (auto simp: http_inv_def list_all_iff)
  ultimately show ?thesis
    using assms(1) ids by (simp add: http_inv_def)
qed

lemma set_request_same:
  assumes "distinct (request_ids c)" "r \<in> set (cl_requests c)"
  shows "set_request r c = c"
proof -
  have "q = r" if "q \<in> set (cl_requests c)" "hr_id q = hr_id r" for q
    using find_request_iff [OF assms(1), of "hr_id r"] that assms(2) by (metis option.inject)
  then have "map (\<lambda>q. if hr_id q = hr_id r then r else q) (cl_requests c) = cl_requests c"
    by (intro map_idI) auto
  then show ?thesis by (simp add: set_request_def)
qed

lemma http_cancel_keeps:
  assumes "http_inv S c"
  shows "http_inv S (http_cancel i c) \<and> lives_on c (http_cancel i c)"
proof (cases "find_request i c")
  case None
  then show ?thesis using assms by (simp add: http_cancel_def)
next
  case (Some r)
  have d: "distinct (request_ids c)" using assms by (simp add: http_inv_def)
  then have r: "r \<in> set (cl_requests c)" "hr_id r = i" using Some find_request_iff by auto
  let ?r = "r\<lparr>hr_cancel_requested := True\<rparr>" and ?c = "c\<lparr>cl_reap_armed := True\<rparr>"
  have "http_inv S ?c" using assms by (auto simp: http_inv_def live_ok_def request_ids_def calls_of_def)
  then have "http_inv S ((set_request ?r ?c)\<lparr>cl_out := cl_out ?c @ []\<rparr>)"
    by (rule http_inv_update [of S ?c r]) (use r assms in \<open>auto simp: http_inv_def live_ok_def calls_of_def\<close>)
  moreover have "(set_request ?r ?c)\<lparr>cl_out := cl_out ?c @ []\<rparr> = (set_request ?r c)\<lparr>cl_reap_armed := True\<rparr>" by (simp add: set_request_def)
  moreover have "lives_on c ((set_request ?r c)\<lparr>cl_reap_armed := True\<rparr>)"
    using set_request_mem [OF d r(1), of ?r] r by (auto simp: lives_on_def)
  ultimately show ?thesis using Some assms by (simp add: http_cancel_def)
qed

lemma http_request_keeps:
  assumes "http_inv S c"
  shows "http_inv S (snd (http_request su opts cb c)) \<and> lives_on c (snd (http_request su opts cb c))"
proof -
  let ?i = "length (cl_accepted c)"
  let ?c = "c\<lparr>cl_active := cl_active c + 1, cl_requests := request_init ?i cb # cl_requests c,
    cl_accepted := cl_accepted c @ [cb]\<rparr>"
  have none: "calls_of ?i c = []"
    using assms by (fastforce simp: http_inv_def live_ok_def calls_of_def filter_empty_conv)
  have old: "j < ?i" if "j \<in> set (request_ids c)" for j using assms that by (auto simp: http_inv_def live_ok_def request_ids_mem)
  have "http_inv S ?c"
    using assms none old
    by (auto simp: http_inv_def live_ok_def request_ids_def request_init_def calls_of_def nth_append opens_Nil less_Suc_eq)
  moreover have "lives_on c ?c" by (auto simp: lives_on_def)
  ultimately show ?thesis using assms by (auto simp: http_request_def Let_def split: option.split)
qed

lemma do_acts_keep: "http_inv S c \<Longrightarrow> http_inv S (fold do_act acts c) \<and> lives_on c (fold do_act acts c)"
proof (induction acts arbitrary: c)
  case (Cons a acts)
  have "http_inv S (do_act a c) \<and> lives_on c (do_act a c)"
    using http_cancel_keeps http_request_keeps Cons.prems by (cases a) auto
  then show ?case using Cons.IH lives_on_trans by fastforce
qed simp

lemma call_user_keeps:
  assumes "http_inv S (c\<lparr>cl_out := cl_out c @ [x]\<rparr>)"
  shows "http_inv S (snd (call_user user x c)) \<and> lives_on c (snd (call_user user x c))"
  using do_acts_keep [OF assms] by (simp add: call_user_def lives_on_def split: prod.split)

lemma http_inv_status:
  assumes "http_inv S c" "r \<in> set (cl_requests c)" "\<not> hr_status_reported r" "on_status (hr_cb r)"
    "is_status x" "call_id x = hr_id r" "c1 = set_request (r\<lparr>hr_status_reported := True\<rparr>) c"
  shows "http_inv S (c1\<lparr>cl_out := cl_out c1 @ [x]\<rparr>)"
proof -
  have "opens_with (hr_cb r) False (calls_of (hr_id r) c)"
    using http_invD(2) [OF assms(1,2)] assms(3) by (auto simp: live_ok_def)
  then have "http_inv S ((set_request (r\<lparr>hr_status_reported := True\<rparr>) c)\<lparr>cl_out := cl_out c @ [x]\<rparr>)"
    by (intro http_inv_update [OF assms(1,2)]) (use opens_status assms(4-6) in simp_all)
  then show ?thesis by (simp add: assms(7))
qed

lemma http_inv_chunk:
  assumes "http_inv S c" "r \<in> set (cl_requests c)" "hr_status_reported r" "on_chunk (hr_cb r)" "is_chunk x"
    "call_id x = hr_id r"
  shows "http_inv S (c\<lparr>cl_out := cl_out c @ [x]\<rparr>)"
proof -
  have "opens_with (hr_cb r) True (calls_of (hr_id r) c)"
    using http_invD(2) [OF assms(1,2)] assms(3) by (auto simp: live_ok_def)
  then have "http_inv S ((set_request r c)\<lparr>cl_out := cl_out c @ [x]\<rparr>)"
    by (intro http_inv_update [OF assms(1,2)]) (use opens_chunk assms(3-6) in simp_all)
  then show ?thesis using set_request_same [OF http_invD(1) [OF assms(1)] assms(2)] by simp
qed

lemma report_status_keeps:
  assumes "http_inv S c" "r \<in> set (cl_requests c)" "\<not> hr_status_reported r"
  shows "http_inv S (report_status user r status content_type c)
    \<and> (\<exists>r' \<in> set (cl_requests (report_status user r status content_type c)).
         hr_id r' = hr_id r \<and> hr_cb r' = hr_cb r \<and> hr_status_reported r')"
proof -
  let ?r = "r\<lparr>hr_status_reported := True\<rparr>" and ?x = "CallStatus (hr_id r) status content_type"
  let ?c = "set_request ?r c"
  have d: "distinct (request_ids c)" using assms(1) by (simp add: http_inv_def)
  have mem: "?r \<in> set (cl_requests ?c)" using set_request_mem [OF d assms(2), of ?r] by simp
  have opens: "opens_with (hr_cb r) False (calls_of (hr_id r) c)"
    using http_invD(2) [OF assms(1,2)] assms(3) by (auto simp: live_ok_def)
  show ?thesis
  proof (cases "on_status (hr_cb r)")
    case False
    have "?c = ?c\<lparr>cl_out := cl_out c @ []\<rparr>" by (simp add: set_request_def)
    also have "http_inv S \<dots>"
      by (rule http_inv_update [OF assms(1,2)]) (use opens_silent [OF opens False] in simp_all)
    finally have "http_inv S ?c" .
    then show ?thesis using False mem by (auto simp: report_status_def intro: bexI [of _ ?r])
  next
    case True
    have "http_inv S (snd (call_user user ?x ?c)) \<and> lives_on ?c (snd (call_user user ?x ?c))"
      using call_user_keeps http_inv_status [OF assms True, of ?x ?c] by simp
    then show ?thesis
      using True mem unfolding lives_on_def by (fastforce simp: report_status_def)
  qed
qed

lemma write_cb_keeps:
  assumes "http_inv S c"
  shows "http_inv S (snd (write_cb user i status content_type bytes c))"
proof (cases "find_request i c")
  case None
  then show ?thesis using assms by (simp add: write_cb_def)
next
  case (Some r)
  define c1 where "c1 = (if \<not> hr_status_reported r then report_status user r status content_type c else c)"
  have "r \<in> set (cl_requests c)" "hr_id r = i"
    using Some assms find_request_iff by (auto simp: http_inv_def)
  then obtain r1 where c1: "http_inv S c1" "r1 \<in> set (cl_requests c1)" "hr_id r1 = i" "hr_cb r1 = hr_cb r" "hr_status_reported r1"
    using assms report_status_keeps [OF assms, of r user status content_type]
    by (cases "hr_status_reported r") (auto simp: c1_def)
  have "http_inv S (snd (call_user user (CallChunk i bytes) c1))" if "on_chunk (hr_cb r)" "bytes \<noteq> []"
    using call_user_keeps http_inv_chunk [OF c1(1,2,5), of "CallChunk i bytes"] c1(3,4) that by simp
  then show ?thesis using Some assms c1(1) by (simp add: write_cb_def Let_def flip: c1_def)
qed

lemma unlink_mem:
  "distinct (map hr_id rs) \<Longrightarrow> set (unlink_request i rs) = {q \<in> set rs. hr_id q \<noteq> i}"
  by (induction rs) (auto simp: image_iff)

lemma unlink_length: "i \<in> set (map hr_id rs) \<Longrightarrow> length rs = Suc (length (unlink_request i rs))"
  by (induction rs) auto

text \<open>The end of a request: unlinked, and completed if its owner listens.\<close>

lemma http_inv_unlink:
  assumes "http_inv S c" "r \<in> set (cl_requests c)" "hr_id r = i"
    "if on_complete (hr_cb r) then \<exists>x. xs = [x] \<and> is_complete x \<and> call_id x = i else xs = []"
  shows "http_inv (S - {i})
    (c\<lparr>cl_requests := unlink_request i (cl_requests c), cl_active := cl_active c - 1, cl_out := cl_out c @ xs\<rparr>)"
    (is "http_inv _ ?c")
proof -
  note d = http_invD(1) [OF assms(1)]
  have mem: "set (cl_requests ?c) = {q \<in> set (cl_requests c). hr_id q \<noteq> i}"
    using unlink_mem d by (simp add: request_ids_def)
  have ids: "request_ids ?c = remove1 i (request_ids c)" by (simp add: request_ids_def unlink_ids)
  have live: "i \<in> set (request_ids c)" using assms(2,3) by (auto simp: request_ids_mem)
  have xs: "list_all (\<lambda>x. call_id x = i) xs" using assms(4) by (auto split: if_splits)
  have calls: "calls_of j ?c = (if j = i then calls_of j c @ xs else calls_of j c)" for j
  proof -
    have "filter (\<lambda>x. call_id x = j) xs = (if j = i then xs else [])"
      using xs by (induction xs) auto
    then show ?thesis by (simp add: calls_of_def)
  qed
  note r = http_invD(2) [OF assms(1,2), unfolded live_ok_def assms(3)]
  have "live_ok (S - {i}) ?c q" if "q \<in> set (cl_requests ?c)" for q
    using http_invD(2) [OF assms(1), of q] that unfolding mem by (auto simp: live_ok_def calls)
  moreover have "finished_with (cl_accepted c ! j) (calls_of j ?c)"
    if "j < length (cl_accepted c)" "j \<notin> set (request_ids ?c)" for j
  proof (cases "j = i")
    case True
    then show ?thesis using r assms(4) by (auto simp: finished_with_def calls split: if_splits)
  next
    case False
    then show ?thesis using that http_invD(3) [OF assms(1), of j] by (simp add: ids calls)
  qed
  moreover have "\<forall>x \<in> set (cl_out ?c). call_id x < length (cl_accepted c)"
    using http_invD(4) [OF assms(1)] xs r by (auto simp: list_all_iff)
  moreover have "cl_active ?c = int (length (cl_requests ?c))" "distinct (request_ids ?c)"
    using assms(1) live unlink_length [of i "cl_requests c"] unfolding ids by (simp_all add: http_inv_def request_ids_def)
  ultimately show ?thesis by (simp add: http_inv_def)
qed

lemma finish_request_keeps:
  assumes "http_inv S c"
  shows "http_inv (S - {i}) (finish_request user info i result c)"
proof (cases "find_request i c")
  case None
  then have "r \<in> set (cl_requests c) \<Longrightarrow> hr_id r \<noteq> i" for r by (auto simp: find_request_None request_ids_mem)
  then have "http_inv (S - {i}) c" using assms by (auto simp: http_inv_def live_ok_def)
  then show ?thesis using None by (simp add: finish_request_def)
next
  case (Some r)
  let ?info = "info i"
  define c1 where "c1 = (if \<not> hr_status_reported r \<and> hi_status ?info > 0
    then report_status user r (hi_status ?info) (hi_content_type ?info) c else c)"
  let ?c2 = "c1\<lparr>cl_requests := unlink_request i (cl_requests c1), cl_active := cl_active c1 - 1\<rparr>"
  let ?x = "CallComplete i result (hi_status ?info) (get_retry_after (hi_retry_after ?info))"
  have "r \<in> set (cl_requests c)" "hr_id r = i" using Some find_request_iff http_invD(1) [OF assms] by auto
  then obtain r1 where c1: "http_inv S c1" "r1 \<in> set (cl_requests c1)" "hr_id r1 = i" "hr_cb r1 = hr_cb r"
    using assms report_status_keeps [OF assms, of r user "hi_status ?info" "hi_content_type ?info"]
    by (cases "\<not> hr_status_reported r \<and> hi_status ?info > 0") (auto simp: c1_def)
  have fin: "finish_request user info i result c = (if on_complete (hr_cb r) then snd (call_user user ?x ?c2) else ?c2)"
    using Some by (simp add: finish_request_def Let_def c1_def)
  show ?thesis
  proof (cases "on_complete (hr_cb r)")
    case True
    then have "http_inv (S - {i}) (?c2\<lparr>cl_out := cl_out ?c2 @ [?x]\<rparr>)"
      using http_inv_unlink [OF c1(1-3), of "[?x]"] c1(4) by simp
    then show ?thesis using call_user_keeps [of "S - {i}" ?c2] True fin by simp
  next
    case False
    then show ?thesis using http_inv_unlink [OF c1(1-3), of "[]"] c1(4) fin by simp
  qed
qed

text \<open>The parts of the client that the requests do not depend on.\<close>

definition same_requests :: "http_client \<Rightarrow> http_client \<Rightarrow> bool" where
  "same_requests c c' \<longleftrightarrow>
     cl_requests c' = cl_requests c \<and> cl_active c' = cl_active c \<and> cl_accepted c' = cl_accepted c \<and> cl_out c' = cl_out c
     \<and> (cl_reap_armed c \<longrightarrow> cl_reap_armed c')"

lemma same_requests_inv:
  assumes "same_requests c c'" "http_inv S c"
  shows "http_inv S c'"
  using assms by (auto simp: same_requests_def http_inv_def live_ok_def calls_of_def request_ids_def)

lemma socket_same_requests: "same_requests c (snd (socket_function fd what outcomes c))"
  by (auto simp: socket_function_def sock_start_def close_poll_def same_requests_def Let_def split: option.split prod.split)

lemma timer_same_requests: "same_requests c (snd (timer_function timeout_ms started c))"
  by (simp add: timer_function_def same_requests_def)

lemma curl_calls_keep: "http_inv S c \<Longrightarrow> http_inv S (fold (curl_calls user) calls c)"
proof (induction calls arbitrary: c)
  case (Cons x calls)
  have "http_inv S (curl_calls user x c)"
    using Cons.prems write_cb_keeps same_requests_inv [OF socket_same_requests] same_requests_inv [OF timer_same_requests]
    by (cases x) simp_all
  then show ?case using Cons.IH by simp
qed simp

lemma http_inv_mono: "http_inv S c \<Longrightarrow> S \<subseteq> T \<Longrightarrow> http_inv T c"
  by (auto simp: http_inv_def live_ok_def)

lemma finish_request_inv: "http_inv S c \<Longrightarrow> http_inv S (finish_request user info i result c)"
  using finish_request_keeps http_inv_mono by blast

lemma check_multi_info_keeps:
  assumes "http_inv S c"
  shows "http_inv S (check_multi_info user info msgs c)"
proof -
  have "http_inv S (fold (take_msg user info) ms d)" if "http_inv S d" for ms d
    using that
  proof (induction ms arbitrary: d)
    case (Cons m ms)
    have "http_inv S (take_msg user info m d)"
      using Cons.prems finish_request_inv by (cases "(user, info, m, d)" rule: take_msg.cases) simp_all
    then show ?case using Cons.IH by simp
  qed simp
  then show ?thesis using assms by (simp add: check_multi_info_def)
qed

lemma reap_one_keeps:
  assumes "http_inv (insert i S) c"
  shows "http_inv S (reap_one user info i c)"
proof (cases "\<exists>r. find_request i c = Some r \<and> hr_cancel_requested r")
  case True
  then have "reap_one user info i c = finish_request user info i CURLE_ABORTED_BY_CALLBACK c"
    by (auto simp: reap_one_def)
  then show ?thesis
    using finish_request_keeps [OF assms, of i] http_inv_mono [of "insert i S - {i}" _ S] by auto
next
  case False
  then have same: "reap_one user info i c = c" by (auto simp: reap_one_def split: option.split)
  have "live_ok S c r" if "r \<in> set (cl_requests c)" for r
  proof (cases "hr_id r = i")
    case True
    then have "find_request i c = Some r" using find_request_iff http_invD(1) [OF assms] that by blast
    then show ?thesis using http_invD(2) [OF assms that] False by (auto simp: live_ok_def)
  next
    case False
    then show ?thesis using http_invD(2) [OF assms that] by (auto simp: live_ok_def)
  qed
  then show ?thesis using assms same by (simp add: http_inv_def)
qed

lemma reap_keeps:
  assumes "http_inv {} c"
  shows "http_inv {} (reap_cb user info c)"
proof -
  have "http_inv {} (fold (reap_one user info) is d)" if "http_inv (set is) d" for d and "is" :: "nat list"
    using that reap_one_keeps by (induction "is" arbitrary: d) auto
  moreover have "http_inv (set (request_ids c)) (c\<lparr>cl_reap_armed := False\<rparr>)"
    using assms by (auto simp: http_inv_def live_ok_def request_ids_def calls_of_def)
  ultimately show ?thesis by (simp add: reap_cb_def request_ids_def)
qed

lemma close_requests_keeps:
  "http_inv S c \<Longrightarrow> cl_closing c \<Longrightarrow>
   http_inv S (close_requests user info c) \<and> cl_closing (close_requests user info c) \<and> cl_requests (close_requests user info c) = []"
proof (induction user info c rule: close_requests.induct)
  case (1 user info c)
  show ?case
  proof (cases "cl_requests c")
    case Nil
    then show ?thesis using "1.prems" by (simp add: close_requests.simps)
  next
    case (Cons r rs)
    then have "find_request (hr_id r) c = Some r" by (simp add: find_request_def)
    then show ?thesis
      using "1.IH" [OF Cons] "1.prems" finish_request_inv [OF "1.prems"(1)] finish_request_closing [OF "1.prems"(2)] Cons
      by (simp add: close_requests.simps [of user info c])
  qed
qed

section \<open>What becomes of the other requests\<close>

text \<open>
  From \<open>c\<close> to \<open>c'\<close>: callbacks were added, no request came back, and those not in \<open>X\<close> live on, with
  their cancel.
\<close>

definition evolves :: "nat set \<Rightarrow> http_client \<Rightarrow> http_client \<Rightarrow> bool" where
  "evolves X c c' \<longleftrightarrow>
     (\<exists>new. cl_out c' = cl_out c @ new) \<and> (\<exists>more. cl_accepted c' = cl_accepted c @ more)
     \<and> set (request_ids c') \<subseteq> set (request_ids c) \<union> {length (cl_accepted c)..}
     \<and> (\<forall>r \<in> set (cl_requests c). hr_id r \<in> X
          \<or> (\<exists>r' \<in> set (cl_requests c'). hr_id r' = hr_id r \<and> (hr_cancel_requested r \<longrightarrow> hr_cancel_requested r')))"

lemma evolves_refl [simp]: "evolves X c c"
  by (auto simp: evolves_def)

lemma evolves_trans:
  assumes "evolves X a b" "evolves X b c"
  shows "evolves X a c"
proof -
  have "\<exists>new. cl_out c = cl_out a @ new" "\<exists>more. cl_accepted c = cl_accepted a @ more"
    using assms by (auto simp: evolves_def)
  moreover have "set (request_ids c) \<subseteq> set (request_ids a) \<union> {length (cl_accepted a)..}"
    using assms unfolding evolves_def by fastforce
  moreover have "hr_id r \<in> X \<or> (\<exists>r' \<in> set (cl_requests c). hr_id r' = hr_id r \<and> (hr_cancel_requested r \<longrightarrow> hr_cancel_requested r'))"
    if r: "r \<in> set (cl_requests a)" for r
  proof (cases "hr_id r \<in> X")
    case False
    then obtain r1 where "r1 \<in> set (cl_requests b)" "hr_id r1 = hr_id r" "hr_cancel_requested r \<longrightarrow> hr_cancel_requested r1"
      using assms(1) r unfolding evolves_def by blast
    then show ?thesis using assms(2) False unfolding evolves_def by metis
  qed simp
  ultimately show ?thesis using assms by (simp add: evolves_def)
qed

lemma evolves_gone:
  "evolves X c c' \<Longrightarrow> i \<notin> set (request_ids c) \<Longrightarrow> i < length (cl_accepted c) \<Longrightarrow>
   i \<notin> set (request_ids c') \<and> i < length (cl_accepted c')"
  unfolding evolves_def by fastforce

lemma evolves_mono: "evolves X a b \<Longrightarrow> X \<subseteq> Y \<Longrightarrow> evolves Y a b"
  by (auto simp: evolves_def)

lemma evolves_set_request:
  assumes "hr_cancel_requested r' \<or> \<not> hr_cancel_requested r" "find_request (hr_id r') c = Some r" "distinct (request_ids c)"
  shows "evolves X c (set_request r' c)"
proof -
  have r: "r \<in> set (cl_requests c)" "hr_id r' = hr_id r"
    using assms(2) find_request_iff [OF assms(3)] by auto
  show ?thesis
    using assms(1) r(2) set_request_mem [OF assms(3) r] by (auto simp: evolves_def)
qed

lemma evolves_act: "distinct (request_ids c) \<Longrightarrow> evolves X c (do_act a c)"
proof (cases a)
  case (ActCancel i)
  assume d: "distinct (request_ids c)"
  have "evolves X c ((set_request (r\<lparr>hr_cancel_requested := True\<rparr>) c)\<lparr>cl_reap_armed := True\<rparr>)"
    if "find_request i c = Some r" for r
  proof -
    have "hr_id r = i" using that find_request_iff [OF d] by auto
    then have "evolves X c (set_request (r\<lparr>hr_cancel_requested := True\<rparr>) c)"
      using evolves_set_request [of "r\<lparr>hr_cancel_requested := True\<rparr>" r c] that d by simp
    then show ?thesis by (simp add: evolves_def request_ids_def)
  qed
  then show ?thesis using ActCancel by (auto simp: http_cancel_def split: option.split)
next
  case (ActRequest su opts cb)
  then show ?thesis
    by (auto simp: http_request_def evolves_def request_ids_def request_init_def Let_def split: option.split)
qed

lemma evolves_acts: "http_inv S c \<Longrightarrow> evolves X c (fold do_act acts c)"
proof (induction acts arbitrary: c)
  case (Cons a acts)
  have "http_inv S (do_act a c)" using do_acts_keep [OF Cons.prems, of "[a]"] by simp
  then show ?case using Cons.IH evolves_act [OF http_invD(1) [OF Cons.prems]] evolves_trans by fastforce
qed simp

lemma evolves_call:
  assumes "http_inv S (c\<lparr>cl_out := cl_out c @ [x]\<rparr>)"
  shows "evolves X c (snd (call_user user x c))"
proof -
  have "evolves X c (c\<lparr>cl_out := cl_out c @ [x]\<rparr>)" by (auto simp: evolves_def request_ids_def)
  then show ?thesis using evolves_acts [OF assms] evolves_trans by (simp add: call_user_def split: prod.split)
qed

lemma evolves_report:
  assumes "http_inv S c" "r \<in> set (cl_requests c)" "\<not> hr_status_reported r"
  shows "evolves X c (report_status user r status content_type c)"
proof -
  let ?r = "r\<lparr>hr_status_reported := True\<rparr>" and ?x = "CallStatus (hr_id r) status content_type"
  note d = http_invD(1) [OF assms(1)]
  have set: "evolves X c (set_request ?r c)"
    using evolves_set_request [of ?r r c] find_request_iff [OF d] assms(2) d by simp
  show ?thesis
  proof (cases "on_status (hr_cb r)")
    case True
    have "evolves X (set_request ?r c) (snd (call_user user ?x (set_request ?r c)))"
      using evolves_call http_inv_status [OF assms True, of ?x "set_request ?r c"] by simp
    then show ?thesis using set evolves_trans True by (auto simp: report_status_def)
  qed (use set in \<open>simp add: report_status_def\<close>)
qed

lemma evolves_write:
  assumes "http_inv S c"
  shows "evolves X c (snd (write_cb user i status content_type bytes c))"
proof (cases "find_request i c")
  case (Some r)
  define c1 where "c1 = (if \<not> hr_status_reported r then report_status user r status content_type c else c)"
  have r: "r \<in> set (cl_requests c)" "hr_id r = i" using Some find_request_iff [OF http_invD(1) [OF assms]] by auto
  then obtain r1 where c1: "http_inv S c1" "r1 \<in> set (cl_requests c1)" "hr_id r1 = i" "hr_cb r1 = hr_cb r" "hr_status_reported r1"
    using assms report_status_keeps [OF assms, of r user status content_type]
    by (cases "hr_status_reported r") (auto simp: c1_def)
  have "evolves X c c1" using evolves_report [OF assms r(1)] by (simp add: c1_def)
  moreover have "evolves X c1 (snd (call_user user (CallChunk i bytes) c1))" if "on_chunk (hr_cb r)" "bytes \<noteq> []"
    using evolves_call http_inv_chunk [OF c1(1,2,5), of "CallChunk i bytes"] c1(3,4) that by simp
  ultimately show ?thesis using Some evolves_trans by (simp add: write_cb_def Let_def flip: c1_def)
qed (simp add: write_cb_def)

lemma evolves_finish:
  assumes "http_inv S c"
  shows "evolves {i} c (finish_request user info i result c)
    \<and> (i < length (cl_accepted c) \<longrightarrow> i \<notin> set (request_ids (finish_request user info i result c)))"
proof (cases "find_request i c")
  case None
  then have "finish_request user info i result c = c" by (simp add: finish_request_def)
  then show ?thesis using None by (simp add: find_request_None)
next
  case (Some r)
  let ?info = "info i"
  define c1 where "c1 = (if \<not> hr_status_reported r \<and> hi_status ?info > 0
    then report_status user r (hi_status ?info) (hi_content_type ?info) c else c)"
  let ?c2 = "c1\<lparr>cl_requests := unlink_request i (cl_requests c1), cl_active := cl_active c1 - 1\<rparr>"
  let ?x = "CallComplete i result (hi_status ?info) (get_retry_after (hi_retry_after ?info))"
  let ?c3 = "if on_complete (hr_cb r) then snd (call_user user ?x ?c2) else ?c2"
  have r: "r \<in> set (cl_requests c)" "hr_id r = i" using Some find_request_iff http_invD(1) [OF assms] by auto
  then obtain r1 where c1: "http_inv S c1" "r1 \<in> set (cl_requests c1)" "hr_id r1 = i" "hr_cb r1 = hr_cb r"
    using assms report_status_keeps [OF assms, of r user "hi_status ?info" "hi_content_type ?info"]
    by (cases "\<not> hr_status_reported r \<and> hi_status ?info > 0") (auto simp: c1_def)
  note d = http_invD(1) [OF c1(1)]
  have mem: "set (cl_requests ?c2) = {q \<in> set (cl_requests c1). hr_id q \<noteq> i}"
    using unlink_mem d by (simp add: request_ids_def)
  then have "evolves {i} c1 ?c2" "i \<notin> set (request_ids ?c2)"
    by (auto simp: evolves_def request_ids_mem)
  moreover have "evolves {i} c c1" using evolves_report [OF assms r(1)] by (simp add: c1_def)
  moreover have "evolves {i} ?c2 ?c3"
    using evolves_call [of "S - {i}" ?c2 ?x] http_inv_unlink [OF c1(1-3), of "[?x]"] c1(4) by simp
  moreover have "finish_request user info i result c = ?c3"
    using Some by (simp add: finish_request_def Let_def c1_def)
  moreover have "i < length (cl_accepted ?c2)" using http_invD(2) [OF c1(1,2)] c1(3) by (auto simp: live_ok_def)
  ultimately show ?thesis
    using evolves_trans [of "{i}" c c1 ?c2] evolves_trans [of "{i}" c ?c2 ?c3] by (auto simp: evolves_def)
qed

lemma evolves_same: "same_requests c c' \<Longrightarrow> evolves X c c'"
  by (auto simp: same_requests_def evolves_def request_ids_def)

lemma evolves_curl_calls: "http_inv S c \<Longrightarrow> evolves X c (fold (curl_calls user) calls c)"
proof (induction calls arbitrary: c)
  case (Cons x calls)
  have "evolves X c (curl_calls user x c)"
    using evolves_write [OF Cons.prems] evolves_same [OF socket_same_requests] evolves_same [OF timer_same_requests]
    by (cases x) simp_all
  moreover have "http_inv S (curl_calls user x c)" using curl_calls_keep [OF Cons.prems, of user "[x]"] by simp
  ultimately show ?case using Cons.IH evolves_trans by fastforce
qed simp

lemma evolves_msgs: "http_inv S c \<Longrightarrow> evolves UNIV c (fold (take_msg user info) msgs c)"
proof (induction msgs arbitrary: c)
  case (Cons m msgs)
  have "evolves UNIV c (take_msg user info m c) \<and> http_inv S (take_msg user info m c)"
    using evolves_mono [OF evolves_finish [THEN conjunct1]] finish_request_inv Cons.prems
    by (cases "(user, info, m, c)" rule: take_msg.cases) auto
  then show ?case using Cons.IH evolves_trans by fastforce
qed simp

lemma evolves_reap_one:
  assumes "http_inv S c"
  shows "evolves {i} c (reap_one user info i c)"
  using evolves_finish [OF assms] by (auto simp: reap_one_def split: option.split)

text \<open>A request whose cancel is pending when the walk comes to it does not survive the walk.\<close>

lemma reap_ends:
  assumes "http_inv (set js) c" "r \<in> set (cl_requests c)" "hr_cancel_requested r" "hr_id r \<in> set js"
  shows "hr_id r \<notin> set (request_ids (fold (reap_one user info) js c))"
  using assms
proof (induction js arbitrary: c r)
  case (Cons j js)
  have keep: "http_inv (set js) (reap_one user info j c)" using reap_one_keeps Cons.prems(1) by simp
  have gone: "i \<notin> set (request_ids (fold (reap_one user info) ks d))"
    if "i \<notin> set (request_ids d)" "i < length (cl_accepted d)" "http_inv (set ks) d" for i ks d
    using that
  proof (induction ks arbitrary: d)
    case (Cons k ks)
    have "evolves {k} d (reap_one user info k d)" "http_inv (set ks) (reap_one user info k d)"
      using evolves_reap_one Cons.prems(3) reap_one_keeps by auto
    then show ?case using Cons.IH [of "reap_one user info k d"] Cons.prems(1,2) evolves_gone by simp
  qed simp
  show ?case
  proof (cases "hr_id r = j")
    case True
    have "find_request j c = Some r" using find_request_iff http_invD(1) [OF Cons.prems(1)] Cons.prems(2) True by blast
    then have "reap_one user info j c = finish_request user info j CURLE_ABORTED_BY_CALLBACK c"
      using Cons.prems(3) by (simp add: reap_one_def)
    moreover have "j < length (cl_accepted c)" using http_invD(2) [OF Cons.prems(1,2)] True by (auto simp: live_ok_def)
    ultimately show ?thesis
      using evolves_finish [OF Cons.prems(1), of j user info CURLE_ABORTED_BY_CALLBACK] gone [OF _ _ keep] True
        evolves_gone by (auto simp: evolves_def)
  next
    case False
    then obtain r' where "r' \<in> set (cl_requests (reap_one user info j c))" "hr_id r' = hr_id r" "hr_cancel_requested r'"
      using evolves_reap_one [OF Cons.prems(1), of j user info] Cons.prems(2,3) by (auto simp: evolves_def)
    then show ?thesis using Cons.IH [OF keep, of r'] Cons.prems(4) False by auto
  qed
qed simp

section \<open>Handles\<close>

text \<open>The handles are the business of the sockets' and the timers' callbacks alone.\<close>

definition handles :: "http_client \<Rightarrow> (int \<rightharpoonup> nat) \<times> (nat \<rightharpoonup> sock_ctx) \<times> nat" where
  "handles c = (cl_socks c, cl_polls c, cl_sock_count c)"

definition life :: "http_client \<Rightarrow> bool \<times> nat \<times> bool" where
  "life c = (cl_closing c, cl_timers_open c, cl_freed c)"

definition parts :: "http_client \<Rightarrow> ((int \<rightharpoonup> nat) \<times> (nat \<rightharpoonup> sock_ctx) \<times> nat) \<times> bool \<times> nat \<times> bool" where
  "parts c = (handles c, life c)"

lemmas parts_defs = parts_def handles_def life_def

lemma parts_act [simp]: "parts (do_act a c) = parts c"
  by (cases a) (auto simp: parts_defs http_cancel_def set_request_def http_request_def Let_def split: option.split)

lemma parts_acts [simp]: "parts (fold do_act acts c) = parts c"
  by (induction acts arbitrary: c) simp_all

lemma parts_call [simp]: "parts (snd (call_user user x c)) = parts c"
  using parts_acts [of _ "c\<lparr>cl_out := cl_out c @ [x]\<rparr>"] by (simp add: call_user_def parts_defs split: prod.split)

lemma parts_set_request [simp]: "parts (set_request r c) = parts c"
  by (simp add: parts_defs set_request_def)

lemma parts_report [simp]: "parts (report_status user r status content_type c) = parts c"
  by (simp add: report_status_def Let_def)

lemma parts_write [simp]: "parts (snd (write_cb user i status content_type bytes c)) = parts c"
  by (simp add: write_cb_def Let_def split: option.split)

lemma parts_unlink [simp]: "parts (c\<lparr>cl_requests := rs, cl_active := n\<rparr>) = parts c"
  by (simp add: parts_defs)

lemma parts_finish [simp]: "parts (finish_request user info i result c) = parts c"
  by (simp add: finish_request_def Let_def split: option.split)

lemma parts_msgs [simp]: "parts (check_multi_info user info msgs c) = parts c"
proof -
  have "parts (take_msg user info m d) = parts d" for m d
    by (cases "(user, info, m, d)" rule: take_msg.cases) simp_all
  then have "parts (fold (take_msg user info) ms d) = parts d" for ms d
    by (induction ms arbitrary: d) simp_all
  then show ?thesis by (simp add: check_multi_info_def)
qed

lemma parts_reap [simp]: "parts (reap_cb user info c) = parts c"
proof -
  have "parts (reap_one user info i d) = parts d" for i d
    by (simp add: reap_one_def split: option.split)
  then have "parts (fold (reap_one user info) is d) = parts d" for "is" d
    by (induction "is" arbitrary: d) simp_all
  then show ?thesis by (simp add: reap_cb_def) (simp add: parts_defs)
qed

lemma parts_close_requests [simp]: "parts (close_requests user info c) = parts c"
proof (induction user info c rule: close_requests.induct)
  case (1 user info c)
  then show ?case
    by (subst close_requests.simps) (auto split: list.split)
qed

lemma life_curl_calls [simp]: "life (fold (curl_calls user) calls c) = life c"
proof -
  have "life (curl_calls user x d) = life d" for x d
  proof (cases x)
    case (CurlWrite i status content_type bytes)
    then show ?thesis using parts_write [of user i status content_type bytes d] by (simp add: parts_def)
  qed (auto simp: life_def socket_function_def sock_start_def close_poll_def timer_function_def Let_def
      split: option.split prod.split)
  then show ?thesis by (induction calls arbitrary: c) simp_all
qed

text \<open>The open poll handles are those libcurl has, one for each socket; the rest wait for their close callback.\<close>

fun polls_for :: "sock_ctx option \<Rightarrow> int option" where
  "polls_for (Some (SockOpen fd m)) = Some fd"
| "polls_for _ = None"

definition handles_ok :: "http_client \<Rightarrow> bool" where
  "handles_ok c \<longleftrightarrow>
     (\<forall>fd k. cl_socks c fd = Some k \<longleftrightarrow> polls_for (cl_polls c k) = Some fd)
     \<and> (\<forall>k. k \<ge> cl_sock_count c \<longrightarrow> cl_polls c k = None)"

lemma handles_okD:
  assumes "handles_ok c"
  shows "cl_socks c fd = Some k \<longleftrightarrow> polls_for (cl_polls c k) = Some fd" "k \<ge> cl_sock_count c \<Longrightarrow> cl_polls c k = None"
  using assms unfolding handles_ok_def by blast+

lemma handles_ok_open:
  assumes "handles_ok c" "cl_socks c fd = Some k"
  shows "k < cl_sock_count c" "polls_for (cl_polls c k) = Some fd"
proof -
  show poll: "polls_for (cl_polls c k) = Some fd" using handles_okD(1) [OF assms(1), of fd k] assms(2) by simp
  show "k < cl_sock_count c"
  proof (rule ccontr)
    assume "\<not> ?thesis"
    then show False using handles_okD(2) [OF assms(1), of k] poll by simp
  qed
qed

lemma handles_okI: "handles c' = handles c \<Longrightarrow> handles_ok c \<Longrightarrow> handles_ok c'"
  by (simp add: handles_ok_def handles_def)

lemma sock_start_ok:
  assumes "handles_ok c" "cl_socks c fd = Some k"
  shows "handles_ok (snd (sock_start fd k what started c))"
  using handles_okD [OF assms(1)] handles_ok_open [OF assms] by (simp add: handles_ok_def sock_start_def)

lemma close_poll_ok:
  assumes "handles_ok c" "cl_socks c fd = Some k"
  shows "handles_ok (close_poll k (c\<lparr>cl_socks := (cl_socks c)(fd := None)\<rparr>))"
proof -
  note k = handles_ok_open [OF assms]
  have "((cl_socks c)(fd := None)) fd' = Some j \<longleftrightarrow> polls_for (((cl_polls c)(k \<mapsto> SockClosing)) j) = Some fd'" for fd' j
    using handles_okD(1) [OF assms(1), of fd' j] k(2) assms(2) by auto
  then show ?thesis
    using handles_okD(2) [OF assms(1)] k(1) by (simp add: handles_ok_def close_poll_def)
qed

lemma socket_function_ok:
  assumes "handles_ok c"
  shows "handles_ok (snd (socket_function fd what outcomes c))"
proof (cases "cl_socks c fd")
  case (Some k)
  then show ?thesis
    using sock_start_ok [OF assms Some] close_poll_ok [OF assms Some] by (simp add: socket_function_def split: prod.split)
next
  case None
  let ?k = "cl_sock_count c"
  have fresh: "cl_polls c ?k = None" using handles_okD(2) [OF assms] by simp
  have free: "cl_socks c fd' \<noteq> Some ?k" for fd' using handles_okD(1) [OF assms, of fd' ?k] fresh by simp
  have none: "polls_for (cl_polls c j) \<noteq> Some fd" for j using handles_okD(1) [OF assms, of fd j] None by simp
  have "handles_ok (close_poll ?k (c\<lparr>cl_sock_count := ?k + 1\<rparr>))"
    using handles_okD [OF assms] fresh free by (simp add: handles_ok_def close_poll_def)
  moreover have "handles_ok (c\<lparr>cl_sock_count := ?k + 1, cl_socks := (cl_socks c)(fd \<mapsto> ?k),
      cl_polls := (cl_polls c)(?k \<mapsto> SockOpen fd None)\<rparr>)" (is "handles_ok ?c")
    using handles_okD [OF assms] free none by (auto simp: handles_ok_def)
  ultimately show ?thesis
    using sock_start_ok [of ?c fd ?k] assms None by (auto simp: socket_function_def Let_def split: prod.split)
qed

lemma curl_calls_handles: "handles_ok c \<Longrightarrow> handles_ok (fold (curl_calls user) calls c)"
proof (induction calls arbitrary: c)
  case (Cons x calls)
  have "handles_ok (curl_calls user x c)"
  proof (cases x)
    case (CurlWrite i status content_type bytes)
    then show ?thesis
      using parts_write [of user i status content_type bytes c] handles_okI [OF _ Cons.prems] by (simp add: parts_def)
  next
    case (CurlTimer ms started)
    then show ?thesis using Cons.prems by (simp add: timer_function_def handles_ok_def)
  qed (use socket_function_ok Cons.prems in simp)
  then show ?case using Cons.IH by simp
qed simp

section \<open>Reachable clients\<close>

definition http_ok :: "http_client \<Rightarrow> bool" where
  "http_ok c \<longleftrightarrow>
     http_inv {} c \<and> handles_ok c \<and> (cl_closing c \<longrightarrow> cl_requests c = [])
     \<and> (if cl_closing c then cl_timers_open c \<le> 2 else cl_timers_open c = 2)
     \<and> (cl_freed c \<longleftrightarrow> cl_timers_open c = 0)"

lemma http_ok_init: "http_ok client_init"
  using http_inv_init by (simp add: http_ok_def) (simp add: client_init_def handles_ok_def)

lemma parts_ok:
  assumes "parts c' = parts c" "http_ok c" "http_inv {} c'" "cl_closing c \<longrightarrow> cl_requests c' = []"
  shows "http_ok c'"
  using assms handles_okI [of c' c] by (auto simp: http_ok_def parts_def life_def)

lemma action_ok:
  assumes "http_ok c" "\<not> cl_closing c"
  shows "http_ok (do_socket_action user info calls msgs c) \<and> evolves UNIV c (do_socket_action user info calls msgs c)"
proof -
  let ?c1 = "fold (curl_calls user) calls c"
  have inv: "http_inv {} ?c1" using curl_calls_keep assms(1) by (simp add: http_ok_def)
  then have "http_ok ?c1"
    using assms curl_calls_handles life_curl_calls [of user calls c] by (auto simp: http_ok_def life_def)
  then have "http_ok (do_socket_action user info calls msgs c)"
    using parts_ok [OF parts_msgs] check_multi_info_keeps [OF inv] assms(2) life_curl_calls [of user calls c]
    by (simp add: do_socket_action_def life_def)
  moreover have "evolves UNIV c ?c1" using evolves_curl_calls [of "{}" c] assms(1) by (simp add: http_ok_def)
  ultimately show ?thesis
    using evolves_msgs [OF inv] evolves_trans by (auto simp: do_socket_action_def check_multi_info_def)
qed

lemma evolves_reap:
  assumes "http_inv {} c"
  shows "evolves UNIV c (reap_cb user info c)"
proof -
  have "evolves UNIV d (fold (reap_one user info) is d)" if "http_inv (set is) d" for d "is"
    using that
  proof (induction "is" arbitrary: d)
    case (Cons i "is")
    have "evolves UNIV d (reap_one user info i d)"
      by (rule evolves_mono [OF evolves_reap_one [OF Cons.prems]]) simp
    moreover have "http_inv (set is) (reap_one user info i d)" using Cons.prems reap_one_keeps by simp
    ultimately show ?case using evolves_trans [OF _ Cons.IH] by simp
  qed simp
  moreover have "http_inv (set (request_ids c)) (c\<lparr>cl_reap_armed := False\<rparr>)"
    using assms by (auto simp: http_inv_def live_ok_def request_ids_def calls_of_def)
  ultimately have "evolves UNIV (c\<lparr>cl_reap_armed := False\<rparr>) (reap_cb user info c)"
    by (simp add: reap_cb_def request_ids_def)
  then show ?thesis by (simp add: evolves_def request_ids_def)
qed

lemma close_ok:
  assumes "http_ok c"
  shows "http_ok (http_client_close user info calls c) \<and> evolves UNIV c (http_client_close user info calls c)
    \<and> cl_closing (http_client_close user info calls c)"
proof (cases "cl_closing c")
  case True
  then show ?thesis using assms by (simp add: http_client_close_def)
next
  case False
  let ?c1 = "c\<lparr>cl_closing := True\<rparr>"
  let ?c2 = "close_requests user info ?c1"
  let ?c3 = "fold (curl_calls user) calls ?c2"
  have "http_inv {} ?c1"
    using assms by (auto simp: http_ok_def http_inv_def live_ok_def request_ids_def calls_of_def)
  from close_requests_keeps [OF this, of user info]
  have c2: "http_inv {} ?c2" "cl_closing ?c2" "cl_requests ?c2 = []" by simp_all
  have "evolves UNIV d (close_requests user info d)" if "http_inv {} d" "cl_closing d" for d
    using that
  proof (induction user info d rule: close_requests.induct)
    case (1 user info d)
    show ?case
    proof (cases "cl_requests d")
      case Nil
      then show ?thesis by (simp add: close_requests.simps)
    next
      case (Cons r rs)
      then have "find_request (hr_id r) d = Some r" by (simp add: find_request_def)
      then show ?thesis
        using "1.IH" [OF Cons] "1.prems" finish_request_inv [OF "1.prems"(1)] finish_request_closing [OF "1.prems"(2)] Cons
          evolves_mono [OF evolves_finish [OF "1.prems"(1), THEN conjunct1]] evolves_trans
        by (simp add: close_requests.simps [of user info d]) blast
    qed
  qed
  then have "evolves UNIV ?c1 ?c2" using \<open>http_inv {} ?c1\<close> by simp
  then have "evolves UNIV c ?c2" by (simp add: evolves_def request_ids_def)
  then have ev: "evolves UNIV c ?c3" using evolves_curl_calls [OF c2(1)] evolves_trans by blast
  have dead: "curl_calls user x d = d \<or> same_requests d (curl_calls user x d)" if "cl_requests d = []" for x d
    using that socket_same_requests timer_same_requests by (cases x) (auto simp: write_cb_def find_request_def)
  have none: "cl_requests (fold (curl_calls user) xs d) = []" if "cl_requests d = []" for xs d
    using that
  proof (induction xs arbitrary: d)
    case (Cons x xs)
    then have "cl_requests (curl_calls user x d) = []" using dead [of d x] by (auto simp: same_requests_def)
    then show ?case using Cons.IH by simp
  qed simp
  have "parts ?c2 = parts ?c1" by simp
  then have life: "life ?c3 = (True, 2, False)" and "handles_ok ?c2"
    using assms False life_curl_calls [of user calls ?c2]
    by (simp_all add: parts_def life_def handles_def http_ok_def handles_ok_def)
  then have "http_ok ?c3"
    using curl_calls_keep [OF c2(1)] curl_calls_handles none [OF c2(3)] by (simp add: http_ok_def life_def)
  then have "http_ok (?c3\<lparr>cl_timeout := None, cl_reap_armed := False\<rparr>)"
    using none [OF c2(3)]
    by (auto simp: http_ok_def http_inv_def handles_ok_def request_ids_def calls_of_def life_def)
  then show ?thesis
    using False ev life by (simp add: http_client_close_def evolves_def request_ids_def life_def)
qed

lemma http_step_ok:
  assumes "http_ok c" "http_step user c e = Some c'"
  shows "http_ok c' \<and> evolves UNIV c c'"
proof (cases e)
  case (HttpAction info calls msgs)
  then show ?thesis using assms action_ok by (auto split: if_splits)
next
  case (HttpReap info)
  have inv: "http_inv {} c" using assms(1) by (simp add: http_ok_def)
  have "cl_closing c \<longrightarrow> cl_requests (reap_cb user info c) = []"
    using assms(1) by (simp add: http_ok_def reap_cb_def)
  then show ?thesis
    using assms HttpReap parts_ok [OF parts_reap assms(1) reap_keeps [OF inv]] evolves_reap [OF inv] by (auto split: if_splits)
next
  case (HttpAct a)
  have inv: "http_inv {} c" using assms(1) by (simp add: http_ok_def)
  have "cl_closing c \<longrightarrow> cl_requests (do_act a c) = []"
    using do_act_closing [of c a] assms(1) by (auto simp: closes_like_def http_ok_def request_ids_def)
  moreover have "http_inv {} (do_act a c)" using do_acts_keep [OF inv, of "[a]"] by simp
  ultimately show ?thesis
    using assms HttpAct parts_ok [OF parts_act assms(1)] evolves_act [OF http_invD(1) [OF inv]] by (auto split: if_splits)
next
  case (HttpClose info calls)
  then show ?thesis using assms close_ok [OF assms(1)] by (auto split: if_splits)
next
  case HttpTimerClosed
  then show ?thesis
    using assms by (auto simp: client_handle_closed_def http_ok_def http_inv_def live_ok_def handles_ok_def request_ids_def
        calls_of_def evolves_def Let_def split: if_splits)
next
  case (HttpPollClosed k)
  then have "polls_for (cl_polls c k) = None" "c' = sockctx_close_cb k c" using assms(2) by (auto split: if_splits)
  then show ?thesis
    using assms(1) by (auto simp: sockctx_close_cb_def http_ok_def http_inv_def live_ok_def handles_ok_def request_ids_def
        calls_of_def evolves_def)
qed

lemma http_reach_ok: "http_reach user c \<Longrightarrow> http_ok c"
  by (induction rule: http_reach.induct) (use http_ok_init http_step_ok in blast)+

section \<open>Properties\<close>

lemma early_calls: "is_status x \<Longrightarrow> \<not> is_complete x" "is_chunk x \<Longrightarrow> \<not> is_complete x"
  by (cases x; simp)+

lemma opens_no_complete: "opens_with cb reported xs \<Longrightarrow> list_all (\<lambda>x. \<not> is_complete x) xs"
  using early_calls by (auto simp: opens_with_def list_all_iff)

lemma calls_shape:
  assumes "http_ok c"
  obtains ts where "list_all (\<lambda>x. \<not> is_complete x) ts" "calls_of i c = ts \<or> (\<exists>t. is_complete t \<and> calls_of i c = ts @ [t])"
proof (cases "i < length (cl_accepted c)")
  case False
  then have "calls_of i c = []"
    using assms by (fastforce simp: http_ok_def http_inv_def calls_of_def filter_empty_conv)
  then show ?thesis using that [of "[]"] by simp
next
  case True
  have inv: "http_inv {} c" using assms by (simp add: http_ok_def)
  show ?thesis
  proof (cases "i \<in> set (request_ids c)")
    case True
    then obtain r where r: "r \<in> set (cl_requests c)" "hr_id r = i" by (auto simp: request_ids_mem)
    then obtain reported where "opens_with (cl_accepted c ! i) reported (calls_of i c)"
      using http_invD(2) [OF inv r(1)] by (auto simp: live_ok_def)
    then show ?thesis by (rule that [of "calls_of i c", OF opens_no_complete]) simp
  next
    case False
    then obtain reported ts where "opens_with (cl_accepted c ! i) reported ts"
        "calls_of i c = ts \<or> (\<exists>t. is_complete t \<and> calls_of i c = ts @ [t])"
      using http_invD(3) [OF inv \<open>i < length _\<close>] by (auto simp: finished_with_def split: if_splits)
    then show ?thesis using that opens_no_complete by blast
  qed
qed

interpretation http_calls: one_shot http_ok "http_step user" "calls_of i" is_complete for user i
proof
  show "http_ok c \<Longrightarrow> http_step user c e = Some c' \<Longrightarrow> http_ok c'" for c e c' using http_step_ok by blast
  show "\<exists>new. calls_of i c' = calls_of i c @ new" if "http_ok c" "http_step user c e = Some c'" for c e c'
    using http_step_ok [OF that] by (auto simp: evolves_def calls_of_def)
  show "\<exists>ts. list_all (\<lambda>x. \<not> is_complete x) ts \<and> (calls_of i c = ts \<or> (\<exists>t. is_complete t \<and> calls_of i c = ts @ [t]))"
    if "http_ok c" for c
    by (rule calls_shape [OF that, of i]) blast
qed


lemma calls_finished:
  assumes "http_ok c" "i < length (cl_accepted c)" "i \<notin> set (request_ids c)" "on_complete (cl_accepted c ! i)"
  shows "http_calls.closed i c"
  using http_invD(3) [of "{}" c i] assms by (auto simp: http_ok_def finished_with_def http_calls.closed_def)

definition all_callbacks :: http_callbacks where
  "all_callbacks = \<lparr>on_status = True, on_chunk = True, on_complete = True\<rparr>"

lemma calls_parts:
  assumes "http_ok c" "i < length (cl_accepted c)" "cl_accepted c ! i = all_callbacks"
  obtains reported st cs ended where "calls_of i c = st @ cs @ ended" "length st \<le> 1" "list_all is_status st" "list_all is_chunk cs"
    "cs \<noteq> [] \<longrightarrow> st \<noteq> []" "if i \<in> set (request_ids c) then ended = [] else \<exists>x. is_complete x \<and> ended = [x]"
proof -
  have inv: "http_inv {} c" using assms(1) by (simp add: http_ok_def)
  have cb: "on_status (cl_accepted c ! i)" "on_complete (cl_accepted c ! i)" using assms(3) by (simp_all add: all_callbacks_def)
  obtain reported xs ended where xs: "opens_with (cl_accepted c ! i) reported xs" "calls_of i c = xs @ ended"
      "if i \<in> set (request_ids c) then ended = [] else \<exists>x. is_complete x \<and> ended = [x]"
  proof (cases "i \<in> set (request_ids c)")
    case True
    then obtain r where r: "r \<in> set (cl_requests c)" "hr_id r = i" by (auto simp: request_ids_mem)
    then have "opens_with (cl_accepted c ! i) (hr_status_reported r) (calls_of i c)"
      using http_invD(2) [OF inv r(1)] by (auto simp: live_ok_def)
    then show ?thesis by (rule that [of _ _ "[]"]) (simp_all add: True)
  next
    case False
    then obtain reported xs x where "opens_with (cl_accepted c ! i) reported xs" "is_complete x" "calls_of i c = xs @ [x]"
      using http_invD(3) [OF inv assms(2)] cb(2) by (auto simp: finished_with_def)
    then show ?thesis using that [of reported xs "[x]"] False by simp
  qed
  then obtain st cs where "xs = st @ cs" "length st \<le> 1" "list_all is_status st" "list_all is_chunk cs"
      "st \<noteq> [] \<longleftrightarrow> reported" "cs \<noteq> [] \<longrightarrow> reported"
    using cb(1) by (auto simp: opens_with_def)
  then show ?thesis using that xs(2,3) by simp
qed

text \<open>C31. The callbacks of an accepted request, in every reachable state of the client and whatever the
  callbacks do: its status at most once and before any bytes, then the bytes, and one completion exactly
  when the request has left the client, after which no event brings another.\<close>

theorem http_calls_back_once:
  assumes "http_reach user c" "i < length (cl_accepted c)" "cl_accepted c ! i = all_callbacks"
  shows "\<exists>st cs ended. calls_of i c = st @ cs @ ended \<and> length st \<le> 1 \<and> list_all is_status st \<and> list_all is_chunk cs
    \<and> (cs \<noteq> [] \<longrightarrow> st \<noteq> [])
    \<and> (if i \<in> set (request_ids c) then ended = []
       else (\<exists>x. is_complete x \<and> ended = [x])
         \<and> (\<forall>e c'. http_step user c e = Some c' \<longrightarrow> calls_of i c' = calls_of i c \<and> i \<notin> set (request_ids c')))"
proof -
  note ok = http_reach_ok [OF assms(1)]
  have last: "calls_of i c' = calls_of i c \<and> i \<notin> set (request_ids c')"
    if gone: "i \<notin> set (request_ids c)" and step: "http_step user c e = Some c'" for e c'
  proof -
    have ev: "evolves UNIV c c'" using http_step_ok [OF ok step] by simp
    then obtain new where new: "calls_of i c' = calls_of i c @ new" by (auto simp: evolves_def calls_of_def)
    moreover have "http_calls.fresh_outs i c c' = []"
      using http_calls.closed_silent [OF ok calls_finished [OF ok assms(2) gone] step] assms(3) by (simp add: all_callbacks_def)
    ultimately show ?thesis using evolves_gone [OF ev gone assms(2)] by (simp add: http_calls.fresh_outs_def)
  qed
  show ?thesis
  proof (rule calls_parts [OF ok assms(2,3)])
    fix st cs ended
    assume "calls_of i c = st @ cs @ ended" "length st \<le> 1" "list_all is_status st" "list_all is_chunk cs" "cs \<noteq> [] \<longrightarrow> st \<noteq> []"
      "if i \<in> set (request_ids c) then ended = [] else \<exists>x. is_complete x \<and> ended = [x]"
    then show ?thesis by (intro exI [of _ st] exI [of _ cs] exI [of _ ended] conjI) (use last in \<open>simp_all split: if_splits\<close>)
  qed
qed

text \<open>A client that accepts one request with the given callbacks, whose transfer gives a body and ends.\<close>

definition sample_setup :: http_setup where
  "sample_setup = \<lparr>hs_easy = True, hs_appends = 0, hs_setopt = (\<lambda>opt. True), hs_add = None\<rparr>"

definition sample_opts :: http_request_opts where
  "sample_opts = \<lparr>ho_url = Some ''u'', ho_headers = [], ho_body = None, ho_get = True, ho_connect_timeout_ms = 0, ho_stall_window_s = 0\<rparr>"

definition sample_info :: "nat \<Rightarrow> http_info" where
  "sample_info i = \<lparr>hi_status = 200, hi_content_type = None, hi_retry_after = None\<rparr>"

definition sample_user :: http_user where
  "sample_user = (\<lambda>calls. (True, []))"

definition sample_client :: http_client where
  "sample_client = client_init\<lparr>cl_active := 1, cl_requests := [request_init 0 all_callbacks], cl_accepted := [all_callbacks]\<rparr>"

definition sample_answered :: http_client where
  "sample_answered = client_init\<lparr>cl_accepted := [all_callbacks],
     cl_out := [CallStatus 0 200 None, CallChunk 0 ''b'', CallComplete 0 CURLE_OK 200 (- 1)]\<rparr>"

lemma sample_client_reach: "http_reach user sample_client"
proof -
  have "http_step user client_init (HttpAct (ActRequest sample_setup sample_opts all_callbacks)) = Some sample_client"
    by (simp add: client_init_def sample_setup_def sample_opts_def sample_client_def http_request_def configure_transport_def
        configure_request_def MUA_HTTP_MAX_HEADERS_def Let_def list_all_iff)
  then show ?thesis by (rule http_event [OF http_opened])
qed

lemma sample_answered_reach: "http_reach sample_user sample_answered"
proof -
  have "http_step sample_user sample_client
      (HttpAction sample_info [CurlWrite 0 200 None ''b''] [CurlDone (Some 0) CURLE_OK]) = Some sample_answered"
    by (simp add: sample_client_def sample_answered_def client_init_def do_socket_action_def check_multi_info_def write_cb_def
        find_request_def request_init_def report_status_def set_request_def call_user_def sample_user_def all_callbacks_def
        finish_request_def sample_info_def get_retry_after_def Let_def)
  then show ?thesis by (rule http_event [OF sample_client_reach])
qed

theorem http_calls_back_once_witness:
  "\<exists>st cs ended. calls_of 0 sample_answered = st @ cs @ ended \<and> length st \<le> 1 \<and> list_all is_status st \<and> list_all is_chunk cs
    \<and> (cs \<noteq> [] \<longrightarrow> st \<noteq> [])
    \<and> (if 0 \<in> set (request_ids sample_answered) then ended = []
       else (\<exists>x. is_complete x \<and> ended = [x])
         \<and> (\<forall>e c'. http_step sample_user sample_answered e = Some c' \<longrightarrow>
              calls_of 0 c' = calls_of 0 sample_answered \<and> 0 \<notin> set (request_ids c')))"
  by (rule http_calls_back_once [OF sample_answered_reach]) (simp_all add: sample_answered_def)

section \<open>Cancel and close\<close>

lemma find_request_cancel:
  assumes "http_ok c" "i \<in> set (request_ids c)"
  obtains r where "r \<in> set (cl_requests (http_cancel i c))" "hr_id r = i" "hr_cancel_requested r"
proof -
  have inv: "http_inv {} c" using assms(1) by (simp add: http_ok_def)
  note d = http_invD(1) [OF inv]
  obtain r where r: "r \<in> set (cl_requests c)" "hr_id r = i" using assms(2) by (auto simp: request_ids_mem)
  then have find: "find_request i c = Some r" using find_request_iff [OF d] by simp
  show ?thesis
  proof (cases "hr_cancel_requested r")
    case True
    then show ?thesis using that [of r] r find by (simp add: http_cancel_def)
  next
    case False
    then have "r\<lparr>hr_cancel_requested := True\<rparr> \<in> set (cl_requests (http_cancel i c))"
      using set_request_mem [OF d r(1), of "r\<lparr>hr_cancel_requested := True\<rparr>"] find by (simp add: http_cancel_def)
    then show ?thesis using that r(2) by simp
  qed
qed

lemma cancel_reaped:
  assumes "http_ok c" "i \<in> set (request_ids c)"
  shows "cl_reap_armed (http_cancel i c)" "i \<notin> set (request_ids (reap_cb user info (http_cancel i c)))"
    "finished_with (cl_accepted c ! i) (calls_of i (reap_cb user info (http_cancel i c)))"
proof -
  let ?c = "http_cancel i c"
  have inv: "http_inv {} ?c" using http_cancel_keeps assms(1) by (simp add: http_ok_def)
  obtain r where r: "r \<in> set (cl_requests ?c)" "hr_id r = i" "hr_cancel_requested r" by (rule find_request_cancel [OF assms])
  then show "cl_reap_armed ?c" using http_invD(2) [OF inv r(1)] by (simp add: live_ok_def)
  have "http_inv (set (request_ids ?c)) (?c\<lparr>cl_reap_armed := False\<rparr>)"
    using inv by (auto simp: http_inv_def live_ok_def request_ids_def calls_of_def)
  then show gone: "i \<notin> set (request_ids (reap_cb user info ?c))"
    using reap_ends [of "request_ids ?c" "?c\<lparr>cl_reap_armed := False\<rparr>" r user info] r by (auto simp: reap_cb_def request_ids_def)
  have acc: "i < length (cl_accepted ?c)" "cl_accepted ?c = cl_accepted c"
    using http_invD(2) [OF inv r(1)] r(2) by (auto simp: live_ok_def http_cancel_def set_request_def split: option.splits if_splits)
  have ev: "evolves UNIV ?c (reap_cb user info ?c)" using evolves_reap [OF inv] .
  then obtain more where more: "cl_accepted (reap_cb user info ?c) = cl_accepted c @ more"
    using acc(2) by (auto simp: evolves_def)
  have "http_inv {} (reap_cb user info ?c)" by (rule reap_keeps [OF inv])
  from http_invD(3) [OF this _ gone] show "finished_with (cl_accepted c ! i) (calls_of i (reap_cb user info ?c))"
    using acc more by (simp add: nth_append)
qed


text \<open>C32. A cancelled request ends: the cancel arms the reap timer, and the timer's callback, whatever the
  callbacks do, takes the request off the client with its completion called once and last.\<close>

theorem http_cancel_ends:
  assumes "http_reach user c" "i \<in> set (request_ids c)" "cl_accepted c ! i = all_callbacks"
  shows "\<exists>c'. http_step user (http_cancel i c) (HttpReap info) = Some c' \<and> i \<notin> set (request_ids c')
    \<and> (\<exists>xs x. calls_of i c' = xs @ [x] \<and> is_complete x \<and> list_all (\<lambda>x. \<not> is_complete x) xs)"
proof -
  let ?c = "reap_cb user info (http_cancel i c)"
  note reaped = cancel_reaped [OF http_reach_ok [OF assms(1)] assms(2)]
  obtain reported xs x where "opens_with all_callbacks reported xs" "is_complete x" "calls_of i ?c = xs @ [x]"
    using reaped(3) [of user info] assms(3) by (auto simp: finished_with_def all_callbacks_def)
  then show ?thesis using reaped(1) reaped(2) [of user info] opens_no_complete by auto
qed

theorem http_cancel_ends_witness:
  "\<exists>c'. http_step sample_user (http_cancel 0 sample_client) (HttpReap sample_info) = Some c' \<and> 0 \<notin> set (request_ids c')
    \<and> (\<exists>xs x. calls_of 0 c' = xs @ [x] \<and> is_complete x \<and> list_all (\<lambda>x. \<not> is_complete x) xs)"
  by (rule http_cancel_ends [OF sample_client_reach])
     (simp_all add: sample_client_def request_ids_def request_init_def)

text \<open>A closing client makes no more callbacks.\<close>

definition http_silent :: "http_client \<Rightarrow> bool" where
  "http_silent c \<longleftrightarrow> cl_closing c \<and> cl_requests c = [] \<and> \<not> cl_reap_armed c"

lemma silent_step:
  assumes "http_silent c" "http_step user c e = Some c'"
  shows "http_silent c' \<and> cl_out c' = cl_out c \<and> cl_accepted c' = cl_accepted c"
proof (cases e)
  case (HttpAct a)
  then show ?thesis
    using assms
    by (cases a) (auto simp: http_silent_def http_cancel_def find_request_def http_request_def split: if_splits)
qed (use assms in \<open>auto simp: http_silent_def http_client_close_def client_handle_closed_def sockctx_close_cb_def Let_def
       split: if_splits\<close>)

inductive http_runs :: "http_user \<Rightarrow> http_client \<Rightarrow> http_client \<Rightarrow> bool" for user where
  http_runs_refl: "http_runs user c c"
| http_runs_step: "http_runs user c c' \<Longrightarrow> http_step user c' e = Some c'' \<Longrightarrow> http_runs user c c''"

lemma silent_run:
  "http_runs user c c' \<Longrightarrow> http_silent c \<Longrightarrow> http_silent c' \<and> cl_out c' = cl_out c \<and> cl_accepted c' = cl_accepted c"
  by (induction rule: http_runs.induct) (use silent_step in fastforce)+

lemma reach_run: "http_runs user c c' \<Longrightarrow> http_reach user c \<Longrightarrow> http_reach user c'"
  by (induction rule: http_runs.induct) (auto intro: http_event)

lemma closing_silent:
  assumes "http_ok c" "\<not> cl_closing c"
  shows "http_silent (http_client_close user info calls c)"
proof -
  have "\<not> cl_reap_armed (http_client_close user info calls c)" using assms(2) by (simp add: http_client_close_def)
  then show ?thesis using close_ok [OF assms(1), of user info calls] by (simp add: http_silent_def http_ok_def)
qed

text \<open>C33. The end of a client: \<open>http_client_close\<close> finishes every request, so that each one accepted has had its
  completion, once and last; whatever happens afterwards nothing is called back or accepted, and the
  client is freed when both of its timers have been closed, at which point no event but a close callback
  of a socket is left.\<close>

theorem http_close_ends:
  assumes "http_reach user c" "\<not> cl_closing c" "http_runs user (http_client_close user info calls c) c'"
    "i < length (cl_accepted c')" "cl_accepted c' ! i = all_callbacks"
  shows "cl_requests c' = [] \<and> calls_of i c' = calls_of i (http_client_close user info calls c)
    \<and> (\<exists>xs x. calls_of i c' = xs @ [x] \<and> is_complete x \<and> list_all (\<lambda>x. \<not> is_complete x) xs)
    \<and> (cl_freed c' \<longleftrightarrow> cl_timers_open c' = 0)
    \<and> (\<not> cl_freed c' \<longrightarrow> (\<exists>c''. http_step user c' HttpTimerClosed = Some c'' \<and> cl_timers_open c'' < cl_timers_open c'))
    \<and> (cl_freed c' \<longrightarrow> (\<forall>e c''. http_step user c' e = Some c'' \<longrightarrow> (\<exists>k. e = HttpPollClosed k)))"
proof -
  let ?c = "http_client_close user info calls c"
  note ok = http_reach_ok [OF assms(1)]
  have silent: "http_silent c'" "cl_out c' = cl_out ?c"
    using silent_run [OF assms(3) closing_silent [OF ok assms(2)]] by simp_all
  have "\<not> cl_freed c" using ok assms(2) by (simp add: http_ok_def)
  then have "http_step user c (HttpClose info calls) = Some ?c" by simp
  then have "http_reach user c'" using http_event [OF assms(1)] reach_run [OF assms(3)] by blast
  then have ok': "http_ok c'" by (rule http_reach_ok)
  have none: "i \<notin> set (request_ids c')" using silent(1) by (simp add: http_silent_def request_ids_def)
  show ?thesis
  proof (rule calls_parts [OF ok' assms(4,5)])
    fix reported st cs ended
    assume "calls_of i c' = st @ cs @ ended" and parts: "list_all is_status st" "list_all is_chunk cs"
      "if i \<in> set (request_ids c') then ended = [] else \<exists>x. is_complete x \<and> ended = [x]"
    moreover obtain x where "is_complete x" "ended = [x]" using parts(3) none by auto
    moreover have "list_all (\<lambda>x. \<not> is_complete x) (st @ cs)"
      using parts(1,2) early_calls by (auto simp: list_all_iff)
    ultimately have "\<exists>xs x. calls_of i c' = xs @ [x] \<and> is_complete x \<and> list_all (\<lambda>x. \<not> is_complete x) xs"
      by (intro exI [of _ "st @ cs"] exI [of _ x]) simp
    moreover have "\<exists>k. e = HttpPollClosed k" if "cl_freed c'" "http_step user c' e = Some c''" for e c''
      using that silent(1) ok' by (cases e) (auto simp: http_silent_def http_ok_def split: if_splits)
    moreover have "\<exists>c''. http_step user c' HttpTimerClosed = Some c'' \<and> cl_timers_open c'' < cl_timers_open c'" if "\<not> cl_freed c'"
      using that silent(1) ok' by (auto simp: http_silent_def http_ok_def client_handle_closed_def Let_def)
    ultimately show ?thesis
      using silent ok' by (auto simp: http_silent_def http_ok_def calls_of_def)
  qed
qed

theorem http_close_ends_witness:
  "let c' = http_client_close sample_user sample_info [] sample_client in
   cl_requests c' = [] \<and> calls_of 0 c' = calls_of 0 (http_client_close sample_user sample_info [] sample_client)
    \<and> (\<exists>xs x. calls_of 0 c' = xs @ [x] \<and> is_complete x \<and> list_all (\<lambda>x. \<not> is_complete x) xs)
    \<and> (cl_freed c' \<longleftrightarrow> cl_timers_open c' = 0)
    \<and> (\<not> cl_freed c' \<longrightarrow> (\<exists>c''. http_step sample_user c' HttpTimerClosed = Some c'' \<and> cl_timers_open c'' < cl_timers_open c'))
    \<and> (cl_freed c' \<longrightarrow> (\<forall>e c''. http_step sample_user c' e = Some c'' \<longrightarrow> (\<exists>k. e = HttpPollClosed k)))"
proof -
  let ?c = "http_client_close sample_user sample_info [] sample_client"
  have "cl_accepted ?c = [all_callbacks]"
    by (simp add: http_client_close_def sample_client_def client_init_def close_requests.simps finish_request_def find_request_def
        request_init_def report_status_def set_request_def call_user_def sample_user_def all_callbacks_def sample_info_def
        get_retry_after_def Let_def)
  then show ?thesis
    unfolding Let_def by (intro http_close_ends [OF sample_client_reach _ http_runs_refl]) (simp_all add: sample_client_def client_init_def)
qed

text \<open>The socket contexts: in every reachable state the open poll handles are those libcurl holds, one for
  each socket it watches, every other one waits for its close callback, and a handle is closed only once.\<close>

lemma http_socket_contexts:
  assumes "http_reach user c"
  shows "(cl_socks c fd = Some k \<longleftrightarrow> (\<exists>m. cl_polls c k = Some (SockOpen fd m)))
    \<and> (http_step user c (HttpPollClosed k) = Some c' \<longrightarrow> cl_polls c' k = None \<and> cl_socks c' = cl_socks c
         \<and> (\<forall>fd. cl_socks c fd \<noteq> Some k))"
proof -
  have "handles_ok c" using http_reach_ok [OF assms] by (simp add: http_ok_def)
  moreover have "polls_for p = Some fd \<longleftrightarrow> (\<exists>m. p = Some (SockOpen fd m))" for p fd by (cases p rule: polls_for.cases) auto
  ultimately show ?thesis by (auto simp: handles_ok_def sockctx_close_cb_def split: if_splits)
qed

end
