(* ===== verification/LuaState.thy ===== *)
theory LuaState
  imports Bridge Paths
begin

text \<open>
  The Lua state of the process (\<open>lua/state.c\<close>) and what the bridge puts in it (\<open>mua_lua_bridge_init\<close> of
  \<open>lua/bridge.c\<close>): creation, the module path, the global \<open>mua\<close>, \<open>init.lua\<close>. The state is a \<open>lua_world\<close>;
  the code it loads is arbitrary. An outer \<open>None\<close> is a failed assertion or a Lua error outside of a
  protected call, which ends the process.
\<close>

text \<open>The C functions that become Lua values.\<close>

datatype lua_cfunction = ApiFn nat | RegisterTool | CreateAutocmd | ClearAutocmds

text \<open>
  The library at the start: \<open>luaL_newstate\<close> and \<open>luaL_openlibs\<close>, the table of globals, the function value
  of a C function, what \<open>require('mua')\<close> and the chunk of a file do, and the traceback of a message.
\<close>

record lua_setup =
  ls_new :: "lua_world option"
  ls_globals :: nat
  ls_function :: "lua_cfunction \<Rightarrow> nat"
  ls_require :: "lua_world \<Rightarrow> lua_value option \<times> lua_world"
  ls_load :: "string \<Rightarrow> lua_world \<Rightarrow> (lua_value + (lua_world \<Rightarrow> lua_value option \<times> lua_world))"
  ls_traceback :: "lua_value \<Rightarrow> string"

definition getglobal :: "lua_setup \<Rightarrow> string \<Rightarrow> lua_world \<Rightarrow> lua_value" where
  "getglobal su name w = rawget (lw_tables w) (ls_globals su) (LuaString name)"

definition prepend_runtime_path :: "lua_lib \<Rightarrow> lua_setup \<Rightarrow> string \<Rightarrow> lua_world \<Rightarrow> lua_world option" where
  "prepend_runtime_path lib su runtime_dir w =
     (case getglobal su ''package'' w of
        LuaTable package \<Rightarrow>
          let old_path = lua_tolstring lib (rawget (lw_tables w) package (LuaString ''path'')) in
          Some (lua_setfield lib package ''path''
                  (LuaString (runtime_dir @ ''/lua/?.lua;'' @ runtime_dir @ ''/lua/?/init.lua;''
                     @ (case old_path of Some p \<Rightarrow> cstr p | None \<Rightarrow> []))) w)
      | _ \<Rightarrow> None)"

definition bespoke_functions :: "(string \<times> lua_cfunction) list" where
  "bespoke_functions =
     [(''mua_register_tool'', RegisterTool), (''mua_create_autocmd'', CreateAutocmd),
      (''mua_clear_autocmds'', ClearAutocmds)]"

text \<open>The entries of \<open>mua.api\<close>, in the order they are set.\<close>

definition api_functions :: "(string \<times> lua_cfunction) list" where
  "api_functions =
     map (\<lambda>i. (fst (g_api_table ! i), ApiFn i)) [0..<length g_api_table] @ bespoke_functions"

definition set_function :: "lua_lib \<Rightarrow> lua_setup \<Rightarrow> nat \<Rightarrow> string \<times> lua_cfunction \<Rightarrow> lua_world \<Rightarrow> lua_world" where
  "set_function lib su t f w = lua_setfield lib t (fst f) (LuaFunction (ls_function su (snd f))) w"

text \<open>The result, the lines on standard error and the world.\<close>

definition mua_lua_bridge_init :: "lua_lib \<Rightarrow> lua_setup \<Rightarrow> lua_world \<Rightarrow> bool \<times> string list \<times> lua_world" where
  "mua_lua_bridge_init lib su w =
     (case lua_newtable w of
        (mua, w) \<Rightarrow>
          (case lua_newtable w of
             (api, w) \<Rightarrow>
               let w = fold (set_function lib su api) api_functions w;
                   w = lua_setfield lib mua ''api'' (LuaTable api) w;
                   w = lua_setfield lib (ls_globals su) ''mua'' (LuaTable mua) w
               in (case ls_require su w of
                     (None, w) \<Rightarrow> (True, [], w)
                   | (Some e, w) \<Rightarrow>
                       (False,
                        [''mua: failed to load mua runtime: '' @ (case lua_tolstring lib e of Some s \<Rightarrow> cstr s | None \<Rightarrow> ''?'')],
                        w))))"

text \<open>\<open>g_lua\<close> is the state, \<open>mua\<close> the stores of the process.\<close>

definition mua_lua_init ::
    "lua_lib \<Rightarrow> lua_setup \<Rightarrow> os_env \<Rightarrow> string \<Rightarrow> mua_state \<Rightarrow> lua_world option
       \<Rightarrow> (bool \<times> string list \<times> lua_world option) option" where
  "mua_lua_init lib su env runtime_path mua g_lua =
     (if g_lua \<noteq> None then Some (True, [], g_lua)
      else (case ls_new su of
              None \<Rightarrow> Some (False, [], None)
            | Some w \<Rightarrow>
                (case prepend_runtime_path lib su (paths_runtime_dir env runtime_path) (set_mua mua w) of
                   None \<Rightarrow> None
                 | Some w \<Rightarrow>
                     (case mua_lua_bridge_init lib su w of
                        (False, lines, w) \<Rightarrow> Some (False, lines, None)
                      | (True, lines, w) \<Rightarrow> Some (True, lines, Some w)))))"

definition mua_lua_state :: "lua_world option \<Rightarrow> lua_world option" where
  "mua_lua_state g_lua = g_lua"

text \<open>The message handler: the error value becomes its traceback.\<close>

definition traceback_handler :: "lua_setup \<Rightarrow> lua_value \<Rightarrow> lua_value" where
  "traceback_handler su e = LuaString (ls_traceback su e)"

text \<open>The chunk of \<open>init.lua\<close>, an error of the loader as it is, one of the run through the handler.\<close>

definition run_init_lua :: "lua_setup \<Rightarrow> string \<Rightarrow> lua_world \<Rightarrow> lua_value option \<times> lua_world" where
  "run_init_lua su init_path w =
     (case ls_load su init_path w of
        Inl e \<Rightarrow> (Some e, w)
      | Inr chunk \<Rightarrow> (case chunk w of (None, w) \<Rightarrow> (None, w) | (Some e, w) \<Rightarrow> (Some (traceback_handler su e), w)))"

definition mua_lua_source_init ::
    "lua_lib \<Rightarrow> lua_setup \<Rightarrow> os_env \<Rightarrow> lua_world option \<Rightarrow> (bool \<times> string list \<times> lua_world) option" where
  "mua_lua_source_init lib su env g_lua =
     (case g_lua of
        None \<Rightarrow> None
      | Some w \<Rightarrow>
          (case paths_config_dir env of
             None \<Rightarrow> Some (True, [], w)
           | Some config_dir \<Rightarrow>
               let init_path = paths_join config_dir ''init.lua'' in
               (case os_stat env init_path of
                  Inl e \<Rightarrow> Some (True, [], w)
                | Inr dir \<Rightarrow>
                    (case run_init_lua su init_path w of
                       (None, w) \<Rightarrow> Some (True, [], w)
                     | (Some e, w) \<Rightarrow>
                         Some (True,
                           [''mua: error in init.lua: ''
                              @ (case lua_tolstring lib e of Some s \<Rightarrow> cstr s | None \<Rightarrow> ''(non-string error)'')], w)))))"

definition mua_lua_teardown :: "lua_world option \<Rightarrow> lua_world option" where
  "mua_lua_teardown g_lua = None"

section \<open>What Lua code finds\<close>

text \<open>A new key of a table: the library puts it somewhere, and the other keys keep their values.\<close>

definition places :: "lua_lib \<Rightarrow> bool" where
  "places lib \<longleftrightarrow> (\<forall>es k v. k \<notin> fst ` set es \<longrightarrow> map_of (ll_place lib es (k, v)) = (map_of es)(k \<mapsto> v))"

lemma map_of_update: "k \<in> fst ` set es \<Longrightarrow> map_of (map (\<lambda>e. if fst e = k then (k, v) else e) es) = (map_of es)(k \<mapsto> v)"
proof (induction es)
  case (Cons e es)
  have "map_of (map (\<lambda>e. if fst e = k then (k, v) else e) es) = map_of es" if "k \<notin> fst ` set es"
    using that by (intro arg_cong [of _ _ map_of] map_idI) force
  then show ?case using Cons by (cases "k \<in> fst ` set es") (auto simp: fun_eq_iff)
qed simp

lemma rawget_setfield:
  assumes "places lib" "v \<noteq> LuaNil"
  shows "rawget (lw_tables (lua_setfield lib t k v w)) t' k' =
    (if t' = t \<and> k' = LuaString k then v else rawget (lw_tables w) t' k')"
  using assms map_of_update [of "LuaString k" "lw_tables w t" v]
  by (auto simp: lua_setfield_def rawset_def set_entry_def rawget_def places_def)

lemma setfield_frame [simp]:
  "lw_free (lua_setfield lib t k v w) = lw_free w" "lw_mua (lua_setfield lib t k v w) = lw_mua w"
  "lw_top (lua_setfield lib t k v w) = lw_top w"
  by (simp_all add: lua_setfield_def rawset_def)

lemma set_functions_frame [simp]:
  "lw_free (fold (set_function lib su t) fs w) = lw_free w" "lw_mua (fold (set_function lib su t) fs w) = lw_mua w"
  "lw_top (fold (set_function lib su t) fs w) = lw_top w"
  by (induction fs arbitrary: w) (simp_all add: set_function_def)

fun function_at :: "(string \<times> lua_cfunction) list \<Rightarrow> lua_value \<Rightarrow> lua_cfunction option" where
  "function_at fs (LuaString name) = map_of fs name"
| "function_at fs _ = None"

lemma rawget_set_functions:
  assumes "places lib" "distinct (map fst fs)"
  shows "rawget (lw_tables (fold (set_function lib su t) fs w)) t' k' =
    (case if t' = t then function_at fs k' else None of
       Some f \<Rightarrow> LuaFunction (ls_function su f) | None \<Rightarrow> rawget (lw_tables w) t' k')"
  using assms(2)
proof (induction fs arbitrary: w)
  case Nil
  then show ?case by (cases "([] :: (string \<times> lua_cfunction) list, k')" rule: function_at.cases) simp_all
next
  case (Cons f fs)
  have step: "rawget (lw_tables (set_function lib su t f w)) t' k' =
      (if t' = t \<and> k' = LuaString (fst f) then LuaFunction (ls_function su (snd f)) else rawget (lw_tables w) t' k')"
    using rawget_setfield [OF assms(1)] by (simp add: set_function_def)
  have "map_of fs (fst f) = None" using Cons.prems by (simp add: map_of_eq_None_iff)
  then show ?case
    using Cons.IH [of "set_function lib su t f w"] Cons.prems step
    by (cases "(f # fs, k')" rule: function_at.cases) (auto split: option.split)
qed

lemma api_names_distinct: "distinct (map fst api_functions)"
  by (simp add: api_functions_def bespoke_functions_def g_api_table_def upt_rec)

text \<open>The interface that Lua code is promised, name by name, and the API function behind each number.\<close>

definition api_contract :: "(string \<times> lua_cfunction) list" where
  "api_contract =
     [(''mua_set_option'', ApiFn 0), (''mua_get_option'', ApiFn 1), (''mua_set_var'', ApiFn 2), (''mua_get_var'', ApiFn 3),
      (''mua_sess_get_messages'', ApiFn 4), (''mua_sess_get_id'', ApiFn 5), (''mua_register_tool'', RegisterTool),
      (''mua_create_autocmd'', CreateAutocmd), (''mua_clear_autocmds'', ClearAutocmds)]"

definition contract_fn :: "nat \<Rightarrow> api_fn option" where
  "contract_fn = map_of [(0, dispatch_set_option), (1, dispatch_get_option), (2, dispatch_set_var), (3, dispatch_get_var),
     (4, dispatch_sess_get_messages), (5, dispatch_sess_get_id)]"

lemma api_functions_contract: "api_functions = api_contract"
  by (simp add: api_functions_def bespoke_functions_def api_contract_def g_api_table_def upt_rec)

text \<open>C28. The interface that Lua code finds: when the bridge asks for the runtime, the global \<open>mua\<close> is a table whose
  \<open>api\<close> holds the nine functions of \<open>api_contract\<close> under their names, and nothing else. The first six call the
  entry of the dispatch table whose name they have, the function that RPC finds under this name too; the
  other three are the bridge's own. The stores and the stack are untouched.\<close>

theorem lua_api_exposed:
  assumes "places lib" "lw_free w \<noteq> ls_globals su" "lw_free w + 1 \<noteq> ls_globals su"
  shows "\<exists>w' mua api. mua_lua_bridge_init lib su w = (case ls_require su w' of (None, w1) \<Rightarrow> (True, [], w1)
      | (Some e, w1) \<Rightarrow> (False, [''mua: failed to load mua runtime: '' @ (case lua_tolstring lib e of Some s \<Rightarrow> cstr s | None \<Rightarrow> ''?'')], w1))
    \<and> getglobal su ''mua'' w' = LuaTable mua \<and> rawget (lw_tables w') mua (LuaString ''api'') = LuaTable api
    \<and> (\<forall>k. rawget (lw_tables w') api k
         = (case function_at api_contract k of Some f \<Rightarrow> LuaFunction (ls_function su f) | None \<Rightarrow> LuaNil))
    \<and> (\<forall>(name, f) \<in> set api_contract. \<forall>i. f = ApiFn i \<longrightarrow>
         (\<exists>fn. contract_fn i = Some fn \<and> g_api_table ! i = (name, fn) \<and> api_dispatch_find (Some name) = Some fn))
    \<and> lw_mua w' = lw_mua w \<and> lw_top w' = lw_top w"
proof -
  let ?mua = "lw_free w" and ?api = "lw_free w + 1"
  define w2 where "w2 = snd (lua_newtable (snd (lua_newtable w)))"
  define w' where "w' = lua_setfield lib (ls_globals su) ''mua'' (LuaTable ?mua)
    (lua_setfield lib ?mua ''api'' (LuaTable ?api) (fold (set_function lib su ?api) api_functions w2))"
  note get = rawget_setfield [OF assms(1)] rawget_set_functions [OF assms(1) api_names_distinct]
  have "rawget (lw_tables w2) ?api k = LuaNil" for k by (simp add: w2_def lua_newtable_def rawget_def)
  then have "\<forall>k. rawget (lw_tables w') ?api k
      = (case function_at api_contract k of Some f \<Rightarrow> LuaFunction (ls_function su f) | None \<Rightarrow> LuaNil)"
    using assms(3) by (simp add: w'_def get flip: api_functions_contract split: option.split)
  moreover have "getglobal su ''mua'' w' = LuaTable ?mua" by (simp add: w'_def getglobal_def get)
  moreover have "rawget (lw_tables w') ?mua (LuaString ''api'') = LuaTable ?api"
    using assms(2) by (simp add: w'_def get)
  moreover have "lw_mua w' = lw_mua w" "lw_top w' = lw_top w" by (simp_all add: w'_def w2_def lua_newtable_def)
  moreover have "\<forall>(name, f) \<in> set api_contract. \<forall>i. f = ApiFn i \<longrightarrow>
      (\<exists>fn. contract_fn i = Some fn \<and> g_api_table ! i = (name, fn) \<and> api_dispatch_find (Some name) = Some fn)"
    by (simp add: api_contract_def contract_fn_def g_api_table_def api_dispatch_find_def)
  moreover have "mua_lua_bridge_init lib su w = (case ls_require su w' of (None, w1) \<Rightarrow> (True, [], w1)
      | (Some e, w1) \<Rightarrow> (False, [''mua: failed to load mua runtime: '' @ (case lua_tolstring lib e of Some s \<Rightarrow> cstr s | None \<Rightarrow> ''?'')], w1))"
    by (simp add: mua_lua_bridge_init_def w'_def w2_def lua_newtable_def Let_def)
  ultimately show ?thesis by blast
qed

definition sample_lua_lib :: lua_lib where
  "sample_lua_lib = \<lparr>ll_number = (\<lambda>d. []), ll_max_stack = 100, ll_place = (\<lambda>es e. es @ [e]), ll_ref = (\<lambda>refs. 0),
     ll_call = (\<lambda>f v w. (PcallValue LuaNil, w))\<rparr>"

definition sample_lua_setup :: lua_setup where
  "sample_lua_setup = \<lparr>ls_new = None, ls_globals = 0, ls_function = (\<lambda>f. 0), ls_require = (\<lambda>w. (None, w)),
     ls_load = (\<lambda>path w. Inl LuaNil), ls_traceback = (\<lambda>e. [])\<rparr>"

theorem lua_api_exposed_witness:
  "\<forall>w. \<exists>w' mua api. mua_lua_bridge_init sample_lua_lib sample_lua_setup (w\<lparr>lw_free := 1\<rparr>) = (True, [], w')
    \<and> getglobal sample_lua_setup ''mua'' w' = LuaTable mua \<and> rawget (lw_tables w') mua (LuaString ''api'') = LuaTable api
    \<and> rawget (lw_tables w') api (LuaString ''mua_get_option'') = LuaFunction (ls_function sample_lua_setup (ApiFn 1))
    \<and> rawget (lw_tables w') api (LuaString ''mua_quit'') = LuaNil"
proof
  fix w
  have "places sample_lua_lib"
    unfolding places_def
  proof (intro allI impI)
    fix es :: lua_entries and k v
    assume "k \<notin> fst ` set es"
    then have "map_of es k = None" by (simp add: map_of_eq_None_iff)
    then show "map_of (ll_place sample_lua_lib es (k, v)) = (map_of es)(k \<mapsto> v)"
      by (auto simp: sample_lua_lib_def map_add_def fun_eq_iff split: option.split)
  qed
  then obtain w' mua api where w': "mua_lua_bridge_init sample_lua_lib sample_lua_setup (w\<lparr>lw_free := 1\<rparr>) = (True, [], w')"
      "getglobal sample_lua_setup ''mua'' w' = LuaTable mua" "rawget (lw_tables w') mua (LuaString ''api'') = LuaTable api"
      "\<forall>k. rawget (lw_tables w') api k
         = (case function_at api_contract k of Some f \<Rightarrow> LuaFunction (ls_function sample_lua_setup f) | None \<Rightarrow> LuaNil)"
    using lua_api_exposed [of sample_lua_lib "w\<lparr>lw_free := 1\<rparr>" sample_lua_setup]
    by (simp add: sample_lua_setup_def) metis
  moreover have "function_at api_contract (LuaString ''mua_get_option'') = Some (ApiFn 1)"
      "function_at api_contract (LuaString ''mua_quit'') = None"
    by (simp_all add: api_contract_def)
  ultimately show "\<exists>w' mua api. mua_lua_bridge_init sample_lua_lib sample_lua_setup (w\<lparr>lw_free := 1\<rparr>) = (True, [], w')
    \<and> getglobal sample_lua_setup ''mua'' w' = LuaTable mua \<and> rawget (lw_tables w') mua (LuaString ''api'') = LuaTable api
    \<and> rawget (lw_tables w') api (LuaString ''mua_get_option'') = LuaFunction (ls_function sample_lua_setup (ApiFn 1))
    \<and> rawget (lw_tables w') api (LuaString ''mua_quit'') = LuaNil"
    by (intro exI conjI) (assumption | simp)+
qed

text \<open>\<open>init.lua\<close> never stops the program: sourcing it succeeds whatever the file does, an error in it is one line
  on standard error.\<close>

lemma source_init_succeeds:
  "\<exists>lines w'. mua_lua_source_init lib su env (Some w) = Some (True, lines, w') \<and> length lines \<le> 1"
  by (auto simp: mua_lua_source_init_def Let_def split: option.splits sum.splits prod.splits)

end
