(* ===== verification/CjsonParse.thy ===== *)
theory CjsonParse
  imports Json
begin

unbundle bit_operations_syntax

text \<open>
  The parser of the bundled cJSON library (\<open>cjson/cJSON.c\<close>). A buffer is its bytes and an offset; a read or
  a write out of bounds is the outer \<open>None\<close>, a failed parse the inner one, with the buffer as the code
  leaves it. A string of a tree is the C string at its \<open>valuestring\<close>, so that it ends at a NUL. The node is
  the result instead of being filled in place; \<open>valueint\<close> is a function of \<open>valuedouble\<close>, and allocation
  does not fail (\<open>json_init\<close> of \<open>json.c\<close>). The floating point of the C library is a parameter.
\<close>

text \<open>
  \<open>strtod\<close> with the number of bytes it read, \<open>sprintf\<close> with 15 and 17 digits, \<open>sscanf\<close> and the comparison
  \<open>compare_double\<close> of two doubles.
\<close>

record cjson_lib =
  cn_strtod :: "string \<Rightarrow> dbl \<times> nat"
  cn_print15 :: "dbl \<Rightarrow> string"
  cn_print17 :: "dbl \<Rightarrow> string"
  cn_sscanf :: "string \<Rightarrow> dbl option"
  cn_compare :: "dbl \<Rightarrow> dbl \<Rightarrow> bool"

abbreviation DQUOTE :: char where "DQUOTE \<equiv> CHR 0x22"
abbreviation BSLASH :: char where "BSLASH \<equiv> CHR 0x5C"

text \<open>The limit of nestings is the one the build defines (\<open>CMakeLists.txt\<close>), not the default of \<open>cJSON.h\<close>.\<close>

definition CJSON_NESTING_LIMIT :: nat where "CJSON_NESTING_LIMIT = 64"

section \<open>The buffer\<close>

record parse_buffer =
  pb_content :: string
  pb_offset :: nat
  pb_depth :: nat

definition can_read :: "parse_buffer \<Rightarrow> nat \<Rightarrow> bool" where
  "can_read b n \<longleftrightarrow> pb_offset b + n \<le> length (pb_content b)"

definition can_access_at_index :: "parse_buffer \<Rightarrow> nat \<Rightarrow> bool" where
  "can_access_at_index b index \<longleftrightarrow> pb_offset b + index < length (pb_content b)"

text \<open>A byte of the buffer, if it is there.\<close>

definition byte_at :: "string \<Rightarrow> nat \<Rightarrow> char option" where
  "byte_at s i = (if i < length s then Some (s ! i) else None)"

text \<open>\<open>can_access_at_index(b, 0) && buffer_at_offset(b)[0] == c\<close>\<close>

definition next_is :: "parse_buffer \<Rightarrow> char \<Rightarrow> bool" where
  "next_is b c \<longleftrightarrow> byte_at (pb_content b) (pb_offset b) = Some c"

definition next_starts_number :: "parse_buffer \<Rightarrow> bool" where
  "next_starts_number b \<longleftrightarrow>
     (case byte_at (pb_content b) (pb_offset b) of Some c \<Rightarrow> c \<in> set ''-0123456789'' | None \<Rightarrow> False)"

text \<open>\<open>can_read\<close> and \<open>strncmp\<close> with a word.\<close>

definition reads_word :: "parse_buffer \<Rightarrow> string \<Rightarrow> bool" where
  "reads_word b w \<longleftrightarrow> can_read b (length w) \<and> take (length w) (drop (pb_offset b) (pb_content b)) = w"

definition advance :: "nat \<Rightarrow> parse_buffer \<Rightarrow> parse_buffer" where
  "advance n b = b\<lparr>pb_offset := pb_offset b + n\<rparr>"

definition step_back :: "parse_buffer \<Rightarrow> parse_buffer" where
  "step_back b = b\<lparr>pb_offset := pb_offset b - 1\<rparr>"

definition is_blank :: "char \<Rightarrow> bool" where
  "is_blank c \<longleftrightarrow> of_char c \<le> (32 :: nat)"

text \<open>The loop, and the step back from the end.\<close>

definition buffer_skip_whitespace :: "parse_buffer \<Rightarrow> parse_buffer" where
  "buffer_skip_whitespace b =
     (if \<not> can_access_at_index b 0 then b
      else
        let offset = pb_offset b + length (takeWhile is_blank (drop (pb_offset b) (pb_content b))) in
        b\<lparr>pb_offset := (if offset = length (pb_content b) then offset - 1 else offset)\<rparr>)"

definition skip_utf8_bom :: "parse_buffer \<Rightarrow> parse_buffer" where
  "skip_utf8_bom b =
     (if can_access_at_index b 4 \<and> take 3 (drop (pb_offset b) (pb_content b)) = [CHR 0xEF, CHR 0xBB, CHR 0xBF]
      then advance 3 b else b)"

type_synonym parse_result = "(cjson option \<times> parse_buffer) option"

section \<open>Numbers\<close>

definition is_number_char :: "char \<Rightarrow> bool" where
  "is_number_char c \<longleftrightarrow> c \<in> set ''0123456789+-eE.''"

definition parse_number :: "cjson_lib \<Rightarrow> parse_buffer \<Rightarrow> parse_result" where
  "parse_number lib b =
     (let number_c_string = takeWhile is_number_char (take 63 (drop (pb_offset b) (pb_content b))) in
      case cn_strtod lib number_c_string of
        (number, end_offset) \<Rightarrow>
          if end_offset = 0 then Some (None, b) else Some (Some (CNumber number), advance end_offset b))"

section \<open>Strings\<close>

fun hex_digit :: "char \<Rightarrow> nat option" where
  "hex_digit c =
     (let n = of_char c :: nat in
      if of_char (CHR ''0'') \<le> n \<and> n \<le> of_char (CHR ''9'') then Some (n - of_char (CHR ''0''))
      else if of_char (CHR ''A'') \<le> n \<and> n \<le> of_char (CHR ''F'') then Some (10 + n - of_char (CHR ''A''))
      else if of_char (CHR ''a'') \<le> n \<and> n \<le> of_char (CHR ''f'') then Some (10 + n - of_char (CHR ''a''))
      else None)"

text \<open>The loop over the digits; an invalid one makes the result 0.\<close>

fun hex_loop :: "nat \<Rightarrow> string \<Rightarrow> nat" where
  "hex_loop h [] = h"
| "hex_loop h (c # cs) = (case hex_digit c of None \<Rightarrow> 0 | Some d \<Rightarrow> hex_loop (h * 16 + d) cs)"

definition parse_hex4 :: "string \<Rightarrow> nat" where
  "parse_hex4 input = hex_loop 0 (take 4 input)"

text \<open>The last \<open>n\<close> bytes of a code point, from the back, and what is left of it.\<close>

fun utf8_loop :: "nat \<Rightarrow> nat \<Rightarrow> string \<Rightarrow> nat \<times> string" where
  "utf8_loop 0 codepoint out = (codepoint, out)"
| "utf8_loop (Suc n) codepoint out =
     utf8_loop n (codepoint div 64) (char_of ((codepoint OR 0x80) AND 0xBF) # out)"

definition utf8_encode :: "nat \<Rightarrow> string option" where
  "utf8_encode codepoint =
     (let encode = (\<lambda>n mark. case utf8_loop (n - 1) codepoint [] of
                       (cp, out) \<Rightarrow> Some (char_of (if n > 1 then (cp OR mark) AND 0xFF else cp AND 0x7F) # out))
      in if codepoint < 0x80 then encode 1 0
         else if codepoint < 0x800 then encode 2 0xC0
         else if codepoint < 0x10000 then encode 3 0xE0
         else if codepoint \<le> 0x10FFFF then encode 4 0xF0
         else None)"

text \<open>The bytes written and the length of the sequence at \<open>p\<close>; \<open>e\<close> is the end of the literal.\<close>

definition utf16_literal_to_utf8 :: "string \<Rightarrow> nat \<Rightarrow> nat \<Rightarrow> (string \<times> nat) option" where
  "utf16_literal_to_utf8 s p e =
     (if e - p < 6 then None
      else
        let first_code = parse_hex4 (drop (p + 2) s) in
        if 0xDC00 \<le> first_code \<and> first_code \<le> 0xDFFF then None
        else if 0xD800 \<le> first_code \<and> first_code \<le> 0xDBFF
        then
          if e - (p + 6) < 6 then None
          else if s ! (p + 6) \<noteq> BSLASH \<or> s ! (p + 7) \<noteq> CHR ''u'' then None
          else
            let second_code = parse_hex4 (drop (p + 8) s) in
            if second_code < 0xDC00 \<or> second_code > 0xDFFF then None
            else map_option (\<lambda>out. (out, 12))
                   (utf8_encode (0x10000 + (push_bit 10 (first_code AND 0x3FF) OR (second_code AND 0x3FF))))
        else map_option (\<lambda>out. (out, 6)) (utf8_encode first_code))"

text \<open>An escape at \<open>p\<close> whose second byte is \<open>c\<close>: the bytes written and its length; \<open>None\<close> is invalid.\<close>

definition parse_escape :: "string \<Rightarrow> nat \<Rightarrow> nat \<Rightarrow> char \<Rightarrow> (string \<times> nat) option" where
  "parse_escape s p e c =
     (if c = CHR ''b'' then Some ([CHR 0x08], 2)
      else if c = CHR ''f'' then Some ([CHR 0x0C], 2)
      else if c = CHR ''n'' then Some ([CHR 0x0A], 2)
      else if c = CHR ''r'' then Some ([CHR 0x0D], 2)
      else if c = CHR ''t'' then Some ([CHR 0x09], 2)
      else if c = DQUOTE \<or> c = BSLASH \<or> c = CHR ''/'' then Some ([c], 2)
      else if c = CHR ''u'' then utf16_literal_to_utf8 s p e
      else None)"

lemma parse_escape_advances: "parse_escape s p e c = Some (out, n) \<Longrightarrow> 2 \<le> n"
  by (auto simp: parse_escape_def utf16_literal_to_utf8_def Let_def split: if_splits)

text \<open>
  The search for the closing quote in the bytes after the opening one: its distance and the number of
  escapes passed. \<open>None\<close>: the string does not end.
\<close>

fun string_end :: "string \<Rightarrow> nat \<Rightarrow> nat \<Rightarrow> (nat \<times> nat) option" where
  "string_end [] n skipped = None"
| "string_end (c # cs) n skipped =
     (if c = DQUOTE then Some (n, skipped)
      else if c = BSLASH then (case cs of [] \<Rightarrow> None | _ # cs \<Rightarrow> string_end cs (n + 2) (skipped + 1))
      else string_end cs (n + 1) skipped)"

text \<open>
  The loop through the literal from \<open>p\<close> to its end \<open>e\<close>: whether it succeeded, the bytes written and the
  position it stopped at; \<open>None\<close> is a read behind the end of the buffer.
\<close>

function string_loop :: "string \<Rightarrow> nat \<Rightarrow> nat \<Rightarrow> string \<Rightarrow> (bool \<times> string \<times> nat) option" where
  "string_loop s p e out =
     (if e \<le> p then Some (True, out, p)
      else if s ! p \<noteq> BSLASH then string_loop s (p + 1) e (out @ [s ! p])
      else if e - p < 1 then Some (False, out, p)
      else case byte_at s (p + 1) of
             None \<Rightarrow> None
           | Some c \<Rightarrow>
               (case parse_escape s p e c of
                  None \<Rightarrow> Some (False, out, p)
                | Some (bytes, n) \<Rightarrow> string_loop s (p + n) e (out @ bytes)))"
  by pat_completeness auto
termination string_loop
  by (relation "measure (\<lambda>(s, p, e, out). e - p)") (auto dest: parse_escape_advances)

declare string_loop.simps [simp del]

text \<open>
  \<open>parse_string\<close>, giving the bytes at the string's address. The output has room for the literal without its
  escapes and two bytes more; the terminator goes behind the bytes written.
\<close>

definition parse_string :: "parse_buffer \<Rightarrow> (string option \<times> parse_buffer) option" where
  "parse_string b =
     (let s = pb_content b; start = pb_offset b + 1; fail = b\<lparr>pb_offset := start\<rparr> in
      case byte_at s (pb_offset b) of
        None \<Rightarrow> None
      | Some c \<Rightarrow>
          if c \<noteq> DQUOTE then Some (None, fail)
          else (case string_end (drop start s) 0 0 of
                  None \<Rightarrow> Some (None, fail)
                | Some (n, skipped) \<Rightarrow>
                    let input_end = start + n; allocation = (input_end - pb_offset b) - skipped + 1 in
                    (case string_loop s start input_end [] of
                       None \<Rightarrow> None
                     | Some (ok, out, p) \<Rightarrow>
                         if allocation < length out + (if ok then 1 else 0) then None
                         else if \<not> ok then Some (None, b\<lparr>pb_offset := p\<rparr>)
                         else Some (Some out, b\<lparr>pb_offset := input_end + 1\<rparr>))))"

section \<open>Values\<close>

text \<open>
  The functions call each other through \<open>rec\<close>: a value, or the loops over the items of an array and the
  members of an object, with what they have so far; their buffer is in front of the next one.
\<close>

datatype parse_call = ParseValue | ParseItems "cjson list" | ParseMembers "(string \<times> cjson) list"

type_synonym parse_rec = "parse_call \<Rightarrow> parse_buffer \<Rightarrow> parse_result"

definition parse_items :: "parse_rec \<Rightarrow> cjson list \<Rightarrow> parse_buffer \<Rightarrow> parse_result" where
  "parse_items rec xs b =
     (case rec ParseValue (buffer_skip_whitespace (advance 1 b)) of
        None \<Rightarrow> None
      | Some (None, b) \<Rightarrow> Some (None, b)
      | Some (Some x, b) \<Rightarrow>
          let b = buffer_skip_whitespace b; xs = xs @ [x] in
          if next_is b (CHR '','') then rec (ParseItems xs) b
          else if \<not> next_is b (CHR '']'') then Some (None, b)
          else Some (Some (CArray xs), advance 1 (b\<lparr>pb_depth := pb_depth b - 1\<rparr>)))"

definition parse_array :: "parse_rec \<Rightarrow> parse_buffer \<Rightarrow> parse_result" where
  "parse_array rec b =
     (if CJSON_NESTING_LIMIT \<le> pb_depth b then Some (None, b)
      else
        let b = b\<lparr>pb_depth := pb_depth b + 1\<rparr> in
        case byte_at (pb_content b) (pb_offset b) of
          None \<Rightarrow> None
        | Some c \<Rightarrow>
            if c \<noteq> CHR ''['' then Some (None, b)
            else
              let b = buffer_skip_whitespace (advance 1 b) in
              if next_is b (CHR '']'') then Some (Some (CArray []), advance 1 (b\<lparr>pb_depth := pb_depth b - 1\<rparr>))
              else if \<not> can_access_at_index b 0 then Some (None, step_back b)
              else rec (ParseItems []) (step_back b))"

text \<open>The value of a member; then the name, which comes first.\<close>

definition parse_member_value ::
    "parse_rec \<Rightarrow> (string \<times> cjson) list \<Rightarrow> string \<Rightarrow> parse_buffer \<Rightarrow> parse_result" where
  "parse_member_value rec kvs name b =
     (case rec ParseValue (buffer_skip_whitespace (advance 1 b)) of
        None \<Rightarrow> None
      | Some (None, b) \<Rightarrow> Some (None, b)
      | Some (Some x, b) \<Rightarrow>
          let b = buffer_skip_whitespace b; kvs = kvs @ [(cstr name, x)] in
          if next_is b (CHR '','') then rec (ParseMembers kvs) b
          else if \<not> next_is b (CHR ''}'') then Some (None, b)
          else Some (Some (CObject kvs), advance 1 (b\<lparr>pb_depth := pb_depth b - 1\<rparr>)))"

definition parse_members :: "parse_rec \<Rightarrow> (string \<times> cjson) list \<Rightarrow> parse_buffer \<Rightarrow> parse_result" where
  "parse_members rec kvs b =
     (if \<not> can_access_at_index b 1 then Some (None, b)
      else (case parse_string (buffer_skip_whitespace (advance 1 b)) of
              None \<Rightarrow> None
            | Some (None, b) \<Rightarrow> Some (None, b)
            | Some (Some name, b) \<Rightarrow>
                let b = buffer_skip_whitespace b in
                if \<not> next_is b (CHR '':'') then Some (None, b) else parse_member_value rec kvs name b))"

definition parse_object :: "parse_rec \<Rightarrow> parse_buffer \<Rightarrow> parse_result" where
  "parse_object rec b =
     (if CJSON_NESTING_LIMIT \<le> pb_depth b then Some (None, b)
      else
        let b = b\<lparr>pb_depth := pb_depth b + 1\<rparr> in
        if \<not> next_is b (CHR ''{'') then Some (None, b)
        else
          let b = buffer_skip_whitespace (advance 1 b) in
          if next_is b (CHR ''}'') then Some (Some (CObject []), advance 1 (b\<lparr>pb_depth := pb_depth b - 1\<rparr>))
          else if \<not> can_access_at_index b 0 then Some (None, step_back b)
          else rec (ParseMembers []) (step_back b))"

definition parse_value :: "cjson_lib \<Rightarrow> parse_rec \<Rightarrow> parse_buffer \<Rightarrow> parse_result" where
  "parse_value lib rec b =
     (if reads_word b ''null'' then Some (Some CNull, advance 4 b)
      else if reads_word b ''false'' then Some (Some (CBool False), advance 5 b)
      else if reads_word b ''true'' then Some (Some (CBool True), advance 4 b)
      else if next_is b DQUOTE
      then map_option (\<lambda>(s, b). (map_option (\<lambda>s. CString (cstr s)) s, b)) (parse_string b)
      else if next_starts_number b then parse_number lib b
      else if next_is b (CHR ''['') then parse_array rec b
      else if next_is b (CHR ''{'') then parse_object rec b
      else Some (None, b))"

text \<open>The recursion, with fuel for two calls for each byte.\<close>

fun parse_task :: "nat \<Rightarrow> cjson_lib \<Rightarrow> parse_rec" where
  "parse_task 0 lib task b = None"
| "parse_task (Suc fuel) lib task b =
     (case task of
        ParseValue \<Rightarrow> parse_value lib (parse_task fuel lib) b
      | ParseItems xs \<Rightarrow> parse_items (parse_task fuel lib) xs b
      | ParseMembers kvs \<Rightarrow> parse_members (parse_task fuel lib) kvs b)"

definition parse_fuel :: "string \<Rightarrow> nat" where
  "parse_fuel s = 2 * length s + 2"

text \<open>
  \<open>cJSON_ParseWithLengthOpts\<close> without and with the terminator required: the tree and the offset behind it,
  or the offset of the failure.
\<close>

definition error_position :: "parse_buffer \<Rightarrow> nat" where
  "error_position b = (if pb_offset b < length (pb_content b) then pb_offset b else length (pb_content b) - 1)"

definition cJSON_ParseWithLengthOpts :: "cjson_lib \<Rightarrow> string \<Rightarrow> bool \<Rightarrow> (nat + (cjson \<times> nat)) option" where
  "cJSON_ParseWithLengthOpts lib s require_null_terminated =
     (if s = [] then Some (Inl 0)
      else (case parse_task (parse_fuel s) lib ParseValue
                   (buffer_skip_whitespace (skip_utf8_bom \<lparr>pb_content = s, pb_offset = 0, pb_depth = 0\<rparr>)) of
              None \<Rightarrow> None
            | Some (None, b) \<Rightarrow> Some (Inl (error_position b))
            | Some (Some item, b) \<Rightarrow>
                if \<not> require_null_terminated then Some (Inr (item, pb_offset b))
                else
                  let b = buffer_skip_whitespace b in
                  if \<not> next_is b NUL then Some (Inl (error_position b)) else Some (Inr (item, pb_offset b))))"

definition cJSON_ParseWithLength :: "cjson_lib \<Rightarrow> string \<Rightarrow> (nat + (cjson \<times> nat)) option" where
  "cJSON_ParseWithLength lib s = cJSON_ParseWithLengthOpts lib s False"

text \<open>The terminator of the argument is part of the buffer.\<close>

definition cJSON_ParseWithOpts :: "cjson_lib \<Rightarrow> string \<Rightarrow> bool \<Rightarrow> (nat + (cjson \<times> nat)) option" where
  "cJSON_ParseWithOpts lib s require_null_terminated =
     cJSON_ParseWithLengthOpts lib (cstr s @ [NUL]) require_null_terminated"

definition cJSON_Parse :: "cjson_lib \<Rightarrow> string \<Rightarrow> (nat + (cjson \<times> nat)) option" where
  "cJSON_Parse lib s = cJSON_ParseWithOpts lib s False"

text \<open>The parser as \<open>json_parse\<close> calls it.\<close>

definition cjson_parser :: "cjson_lib \<Rightarrow> json_parser" where
  "cjson_parser lib s = (case cJSON_ParseWithLengthOpts lib s False of Some r \<Rightarrow> r | None \<Rightarrow> Inl 0)"

text \<open>A C library for the examples: it knows the natural numbers.\<close>

definition sample_strtod :: "string \<Rightarrow> dbl \<times> nat" where
  "sample_strtod s =
     (let ds = takeWhile (\<lambda>c. c \<in> set ''0123456789'') s in
      (dbl_of_int (foldl (\<lambda>n c. n * 10 + (of_char c - 48)) 0 ds), length ds))"

definition sample_cjson_lib :: cjson_lib where
  "sample_cjson_lib = \<lparr>cn_strtod = sample_strtod, cn_print15 = (\<lambda>d. ''0''), cn_print17 = (\<lambda>d. ''0''),
     cn_sscanf = (\<lambda>s. None), cn_compare = (=)\<rparr>"

end
