(* ===== verification/CjsonParseProps.thy ===== *)
theory CjsonParseProps
  imports CjsonParse
begin

text \<open>
  The parser reads and writes in bounds and returns, whatever the document: strings first, with the room
  for their output, then the recursion.
\<close>

section \<open>The buffer\<close>

lemma buffer_moves [simp]:
  "pb_content (advance n b) = pb_content b" "pb_depth (advance n b) = pb_depth b" "pb_offset (advance n b) = pb_offset b + n"
  "pb_content (step_back b) = pb_content b" "pb_depth (step_back b) = pb_depth b" "pb_offset (step_back b) = pb_offset b - 1"
  by (simp_all add: advance_def step_back_def)

lemma skip_frame [simp]:
  "pb_content (buffer_skip_whitespace b) = pb_content b" "pb_depth (buffer_skip_whitespace b) = pb_depth b"
  by (simp_all add: buffer_skip_whitespace_def Let_def)

lemma skip_bounds:
  "pb_offset b \<le> pb_offset (buffer_skip_whitespace b)"
  "pb_offset b \<le> length (pb_content b) \<Longrightarrow> pb_offset (buffer_skip_whitespace b) \<le> length (pb_content b)"
  "pb_offset b < length (pb_content b) \<Longrightarrow> pb_offset (buffer_skip_whitespace b) < length (pb_content b)"
proof -
  let ?n = "length (takeWhile is_blank (drop (pb_offset b) (pb_content b)))"
  have n: "?n \<le> length (pb_content b) - pb_offset b"
    using length_takeWhile_le [of is_blank "drop (pb_offset b) (pb_content b)"] by simp
  show "pb_offset b \<le> pb_offset (buffer_skip_whitespace b)"
    using n by (auto simp: buffer_skip_whitespace_def can_access_at_index_def Let_def)
  show "pb_offset b \<le> length (pb_content b) \<Longrightarrow> pb_offset (buffer_skip_whitespace b) \<le> length (pb_content b)"
    using n by (auto simp: buffer_skip_whitespace_def can_access_at_index_def Let_def)
  show "pb_offset b < length (pb_content b) \<Longrightarrow> pb_offset (buffer_skip_whitespace b) < length (pb_content b)"
    using n by (auto simp: buffer_skip_whitespace_def can_access_at_index_def Let_def)
qed

lemma next_is_in: "next_is b c \<Longrightarrow> pb_offset b < length (pb_content b)"
  by (auto simp: next_is_def byte_at_def split: if_splits)

section \<open>Escapes\<close>

lemma hex_digit_less: "hex_digit c = Some d \<Longrightarrow> d < 16"
  by (auto simp: Let_def split: if_splits)

lemma hex_loop_less: "h < 16 ^ k \<Longrightarrow> hex_loop h cs < 16 ^ (k + length cs)"
proof (induction cs arbitrary: h k)
  case (Cons c cs)
  show ?case
  proof (cases "hex_digit c")
    case (Some d)
    have "h * 16 + d < 16 ^ Suc k" using Cons.prems hex_digit_less [OF Some] by simp
    from Cons.IH [OF this] show ?thesis using Some by (simp del: hex_digit.simps)
  qed (simp del: hex_digit.simps)
qed simp

lemma parse_hex4_less: "parse_hex4 s < 0x10000"
proof -
  have "hex_loop 0 (take 4 s) < 16 ^ (0 + length (take 4 s))" by (rule hex_loop_less) simp
  also have "\<dots> \<le> 16 ^ 4" by (rule power_increasing) simp_all
  finally show ?thesis by (simp add: parse_hex4_def)
qed

lemma utf8_loop_length: "utf8_loop n cp out = (cp', out') \<Longrightarrow> length out' = n + length out"
  by (induction n cp out rule: utf8_loop.induct) auto

lemma utf8_encode_length:
  "utf8_encode cp = Some out \<Longrightarrow> length out \<le> 4 \<and> (cp < 0x10000 \<longrightarrow> length out \<le> 3)"
  by (auto simp: utf8_encode_def Let_def dest!: utf8_loop_length split: if_splits prod.splits)

lemma utf16_bounds:
  assumes "utf16_literal_to_utf8 s p e = Some (out, n)"
  shows "n \<le> e - p \<and> (n = 6 \<and> length out \<le> 3 \<or> n = 12 \<and> length out \<le> 4)"
proof -
  have "\<exists>cp. utf8_encode cp = Some out \<and> (n = 6 \<and> cp < 0x10000 \<and> 6 \<le> e - p \<or> n = 12 \<and> 12 \<le> e - p)"
    using assms parse_hex4_less [of "drop (p + 2) s"]
    by (simp add: utf16_literal_to_utf8_def Let_def split: if_splits) (use le_diff_conv in auto)
  then show ?thesis using utf8_encode_length [of _ out] by auto
qed

text \<open>What an escape writes, against the room it leaves.\<close>

lemma parse_escape_bounds:
  assumes "parse_escape s p e c = Some (out, n)"
  shows "n = 2 \<and> length out = 1 \<or> n \<le> e - p \<and> (n = 6 \<and> length out \<le> 3 \<or> n = 12 \<and> length out \<le> 4)"
proof (cases "c = CHR ''u''")
  case True
  then have "parse_escape s p e c = utf16_literal_to_utf8 s p e" by (simp add: parse_escape_def)
  then have "utf16_literal_to_utf8 s p e = Some (out, n)" using assms by simp
  then show ?thesis by (rule utf16_bounds [THEN disjI2])
next
  case False
  then have "\<exists>d. (out, n) = ([d], 2)"
    using assms unfolding parse_escape_def by (simp only: if_False split: if_split_asm) blast+
  then show ?thesis by auto
qed

section \<open>The room of a string\<close>

text \<open>
  The search for the end takes the bytes in pairs at a backslash. From a position, where \<open>inside\<close> says that
  its first byte is the second of a pair: the pairs that start later, and whether the last one is cut.
\<close>

fun pairs :: "bool \<Rightarrow> string \<Rightarrow> nat" where
  "pairs inside [] = 0"
| "pairs True (c # cs) = pairs False cs"
| "pairs False (c # cs) = (if c = BSLASH then Suc (pairs True cs) else pairs False cs)"

fun cut_pair :: "bool \<Rightarrow> string \<Rightarrow> bool" where
  "cut_pair inside [] = inside"
| "cut_pair True (c # cs) = cut_pair False cs"
| "cut_pair False (c # cs) = cut_pair (c = BSLASH) cs"

lemma pairs_append: "pairs i (xs @ ys) = pairs i xs + pairs (cut_pair i xs) ys"
  by (induction i xs rule: pairs.induct) auto

lemma cut_pair_append: "cut_pair i (xs @ ys) = cut_pair (cut_pair i xs) ys"
  by (induction i xs rule: cut_pair.induct) auto

lemma pairs_half: "2 * pairs i xs \<le> length xs + (if i then 0 else 1)"
  by (induction i xs rule: pairs.induct) auto

lemma string_end_split:
  assumes "string_end cs n k = Some (m, k')"
  shows "\<exists>lit rest. cs = lit @ DQUOTE # rest \<and> m = n + length lit \<and> k' = k + pairs False lit \<and> \<not> cut_pair False lit"
  using assms
proof (induction cs n k rule: string_end.induct)
  case (2 c cs n k)
  show ?case
  proof (cases "c = DQUOTE")
    case True
    then show ?thesis using "2.prems" by (intro exI [of _ "[]"] exI [of _ cs]) simp
  next
    case c: False
    show ?thesis
    proof (cases "c = BSLASH")
      case True
      then obtain d ds where ds: "cs = d # ds" "string_end ds (n + 2) (k + 1) = Some (m, k')"
        using "2.prems" by (auto split: list.splits)
      obtain lit rest where "ds = lit @ DQUOTE # rest" "m = n + 2 + length lit" "k' = k + 1 + pairs False lit" "\<not> cut_pair False lit"
        using "2.IH"(1) [OF c True ds] by blast
      then show ?thesis using ds(1) True by (intro exI [of _ "c # d # lit"] exI [of _ rest]) simp
    next
      case False
      then obtain lit rest where "cs = lit @ DQUOTE # rest" "m = n + 1 + length lit" "k' = k + pairs False lit" "\<not> cut_pair False lit"
        using "2.IH"(2) [OF c False] "2.prems" c by auto
      then show ?thesis using False by (intro exI [of _ "c # lit"] exI [of _ rest]) simp
    qed
  qed
qed simp

lemma string_loop_room:
  assumes "e < length s" "p \<le> e" "\<not> cut_pair i (take (e - p) (drop p s))"
  shows "\<exists>ok out' p'. string_loop s p e out = Some (ok, out', p') \<and> (ok \<or> p \<le> p' \<and> p' < e)
    \<and> length out' + pairs i (take (e - p) (drop p s)) \<le> length out + (e - p)"
  using assms
proof (induction s p e out arbitrary: i rule: string_loop.induct)
  case (1 s p e out)
  let ?xs = "take (e - p) (drop p s)"
  note simps = string_loop.simps [of s p e out]
  have room: "pairs i ?xs \<le> e - p"
  proof -
    have "2 * pairs i ?xs \<le> e - p + 1" using pairs_half [of i ?xs] "1.prems" by (simp split: if_splits)
    moreover have "e - p = 1 \<Longrightarrow> pairs i ?xs \<le> 1" using calculation by simp
    ultimately show ?thesis using "1.prems"(2) by (cases "e = p") auto
  qed
  show ?case
  proof (cases "e \<le> p")
    case True
    then have "string_loop s p e out = Some (True, out, p)" using simps by simp
    then show ?thesis using True by auto
  next
    case pe: False
    then have xs: "?xs = s ! p # take (e - (p + 1)) (drop (p + 1) s)"
      using "1.prems"(1) by (metis Cons_nth_drop_Suc Suc_diff_Suc Suc_eq_plus1 not_le order.strict_trans take_Suc_Cons)
    show ?thesis
    proof (cases "s ! p = BSLASH")
      case False
      have "pairs i ?xs = pairs False (take (e - (p + 1)) (drop (p + 1) s))"
          "cut_pair i ?xs = cut_pair False (take (e - (p + 1)) (drop (p + 1) s))"
        unfolding xs using False by (cases i; simp)+
      moreover have "string_loop s p e out = string_loop s (p + 1) e (out @ [s ! p])" using simps pe False by simp
      ultimately show ?thesis using "1.IH"(1) [OF pe False "1.prems"(1), of False] "1.prems"(3) pe by fastforce
    next
      case True
      obtain c where c: "byte_at s (p + 1) = Some c" using pe "1.prems"(1) by (simp add: byte_at_def)
      show ?thesis
      proof (cases "parse_escape s p e c")
        case None
        then have "string_loop s p e out = Some (False, out, p)" using simps pe True c by simp
        then show ?thesis using pe room by auto
      next
        case (Some r)
        then obtain bytes n where r: "parse_escape s p e c = Some (bytes, n)" by (cases r) simp
        have step: "string_loop s p e out = string_loop s (p + n) e (out @ bytes)" using simps pe True c r by simp
        show ?thesis
        proof (cases "p + n \<le> e")
          case le: True
          let ?a = "take n ?xs" and ?b = "take (e - (p + n)) (drop (p + n) s)"
          have split: "?xs = ?a @ ?b"
            by (metis add.commute append_take_drop_id diff_diff_left drop_drop drop_take)
          have "length ?a = n" using le "1.prems"(1) by simp
          then have "2 * pairs i ?a \<le> n + 1" using pairs_half [of i ?a] by (simp split: if_splits)
          moreover have "n = 2 \<Longrightarrow> pairs i ?a \<le> 1" using calculation by simp
          ultimately have "length bytes + pairs i ?a \<le> n" using parse_escape_bounds [OF r] by auto
          moreover have cut: "\<not> cut_pair (cut_pair i ?a) ?b" using "1.prems"(3) cut_pair_append [of i ?a ?b] split by metis
          have "\<not> s ! p \<noteq> BSLASH" "\<not> e - p < 1" using True pe by simp_all
          from "1.IH"(2) [OF pe this c r refl "1.prems"(1) le cut] obtain ok out' p' where
            "string_loop s (p + n) e (out @ bytes) = Some (ok, out', p')" "ok \<or> p + n \<le> p' \<and> p' < e"
            "length out' + pairs (cut_pair i ?a) ?b \<le> length (out @ bytes) + (e - (p + n))" by blast
          moreover have "pairs i ?xs = pairs i ?a + pairs (cut_pair i ?a) ?b" using pairs_append [of i ?a ?b] split by metis
          ultimately show ?thesis using step le by (intro exI [of _ ok] exI [of _ out'] exI [of _ p']) auto
        next
          case gt: False
          then have n: "n = 2" "length bytes = 1" "e = p + 1" using parse_escape_bounds [OF r] pe by auto
          then have "?xs = [BSLASH]" using xs True by simp
          then have "i" using "1.prems"(3) by (cases i) simp_all
          moreover have "string_loop s (p + n) e (out @ bytes) = Some (True, out @ bytes, p + n)"
            using gt by (simp add: string_loop.simps)
          ultimately show ?thesis using step n \<open>?xs = [BSLASH]\<close> by auto
        qed
      qed
    qed
  qed
qed

lemma parse_string_ok:
  assumes "pb_offset b < length (pb_content b)"
  shows "\<exists>r b'. parse_string b = Some (r, b') \<and> pb_content b' = pb_content b \<and> pb_depth b' = pb_depth b
    \<and> pb_offset b < pb_offset b' \<and> pb_offset b' \<le> length (pb_content b)"
proof -
  let ?s = "pb_content b" and ?start = "pb_offset b + 1"
  have head: "byte_at ?s (pb_offset b) = Some (?s ! pb_offset b)" using assms by (simp add: byte_at_def)
  show ?thesis
  proof (cases "?s ! pb_offset b = DQUOTE \<and> string_end (drop ?start ?s) 0 0 \<noteq> None")
    case False
    then have "parse_string b = Some (None, b\<lparr>pb_offset := ?start\<rparr>)" using head by (cases "string_end (drop ?start ?s) 0 0") (auto simp: parse_string_def Let_def)
    then show ?thesis using assms by simp
  next
    case True
    then obtain n skipped where n: "string_end (drop ?start ?s) 0 0 = Some (n, skipped)" by auto
    then obtain lit rest where lit: "drop ?start ?s = lit @ DQUOTE # rest" "n = length lit" "skipped = pairs False lit" "\<not> cut_pair False lit"
      using string_end_split by fastforce
    let ?e = "?start + n"
    have e: "?e < length ?s" using arg_cong [OF lit(1), of length] lit(2) by simp
    have take: "take (?e - ?start) (drop ?start ?s) = lit" using lit(1,2) by simp
    obtain ok out p where loop: "string_loop ?s ?start ?e [] = Some (ok, out, p)" "ok \<or> ?start \<le> p \<and> p < ?e"
        "length out + pairs False lit \<le> n"
      using string_loop_room [OF e, of ?start False "[]"] take lit(4) by auto
    then have "parse_string b = Some (if ok then (Some out, b\<lparr>pb_offset := ?e + 1\<rparr>) else (None, b\<lparr>pb_offset := p\<rparr>))"
      using True head n lit(3) by (auto simp: parse_string_def Let_def)
    then show ?thesis using loop(2) e by (cases ok) auto
  qed
qed


section \<open>The recursion\<close>

text \<open>What \<open>strtod\<close> promises.\<close>

definition strtod_ok :: "cjson_lib \<Rightarrow> bool" where
  "strtod_ok lib \<longleftrightarrow> (\<forall>s. snd (cn_strtod lib s) \<le> length s)"

text \<open>The strings of a tree, keys included, are C strings.\<close>

fun cj_clean :: "cjson \<Rightarrow> bool" where
  "cj_clean (CString s) \<longleftrightarrow> NUL \<notin> set s"
| "cj_clean (CArray xs) \<longleftrightarrow> list_all cj_clean xs"
| "cj_clean (CObject kvs) \<longleftrightarrow> list_all (\<lambda>kv. NUL \<notin> set (fst kv) \<and> cj_clean (snd kv)) kvs"
| "cj_clean _ \<longleftrightarrow> True"

definition fits :: "nat \<Rightarrow> cjson \<Rightarrow> bool" where
  "fits depth x \<longleftrightarrow> cj_clean x \<and> cj_depth x + depth \<le> CJSON_NESTING_LIMIT"

text \<open>From \<open>b\<close>, the parse returns within the buffer; a value has moved on and is at \<open>depth\<close>.\<close>

definition parses :: "parse_buffer \<Rightarrow> nat \<Rightarrow> parse_result \<Rightarrow> bool" where
  "parses b depth r \<longleftrightarrow>
     (\<exists>v b'. r = Some (v, b') \<and> pb_content b' = pb_content b \<and> pb_offset b' \<le> length (pb_content b)
        \<and> (\<forall>x. v = Some x \<longrightarrow> pb_offset b < pb_offset b' \<and> pb_depth b' = depth \<and> fits depth x))"

lemma parses_fail: "pb_content b' = pb_content b \<Longrightarrow> pb_offset b' \<le> length (pb_content b) \<Longrightarrow> parses b d (Some (None, b'))"
  by (simp add: parses_def)

lemma parses_value:
  "pb_content b' = pb_content b \<Longrightarrow> pb_offset b' \<le> length (pb_content b) \<Longrightarrow> pb_offset b < pb_offset b' \<Longrightarrow>
   pb_depth b' = d \<Longrightarrow> fits d x \<Longrightarrow> parses b d (Some (Some x, b'))"
  by (simp add: parses_def)

lemma parses_later:
  "parses b1 d r \<Longrightarrow> pb_content b1 = pb_content b \<Longrightarrow> pb_offset b \<le> pb_offset b1 \<Longrightarrow> parses b d r"
  by (fastforce simp: parses_def)

lemma parses_cases:
  assumes "parses b d r"
  obtains b' where "r = Some (None, b')" "pb_content b' = pb_content b" "pb_offset b' \<le> length (pb_content b)"
    | x b' where "r = Some (Some x, b')" "pb_content b' = pb_content b" "pb_offset b' \<le> length (pb_content b)"
      "pb_offset b < pb_offset b'" "pb_depth b' = d" "fits d x"
proof -
  from assms obtain v b' where r: "r = Some (v, b')" "pb_content b' = pb_content b" "pb_offset b' \<le> length (pb_content b)"
    "\<forall>x. v = Some x \<longrightarrow> pb_offset b < pb_offset b' \<and> pb_depth b' = d \<and> fits d x" by (auto simp: parses_def)
  then show ?thesis using that by (cases v) auto
qed

text \<open>What a call needs, the depth it returns at, and its fuel.\<close>

fun call_ok :: "parse_call \<Rightarrow> parse_buffer \<Rightarrow> bool" where
  "call_ok ParseValue b \<longleftrightarrow> pb_offset b \<le> length (pb_content b) \<and> pb_depth b \<le> CJSON_NESTING_LIMIT"
| "call_ok (ParseItems xs) b \<longleftrightarrow> pb_offset b < length (pb_content b) \<and> 0 < pb_depth b
     \<and> pb_depth b \<le> CJSON_NESTING_LIMIT \<and> list_all (fits (pb_depth b)) xs"
| "call_ok (ParseMembers kvs) b \<longleftrightarrow> pb_offset b < length (pb_content b) \<and> 0 < pb_depth b
     \<and> pb_depth b \<le> CJSON_NESTING_LIMIT \<and> list_all (\<lambda>kv. NUL \<notin> set (fst kv) \<and> fits (pb_depth b) (snd kv)) kvs"

fun call_depth :: "parse_call \<Rightarrow> parse_buffer \<Rightarrow> nat" where
  "call_depth ParseValue b = pb_depth b"
| "call_depth _ b = pb_depth b - 1"

fun call_fuel :: "parse_call \<Rightarrow> parse_buffer \<Rightarrow> nat" where
  "call_fuel ParseValue b = 2 * (length (pb_content b) - pb_offset b) + 2"
| "call_fuel _ b = 2 * (length (pb_content b) - pb_offset b) + 1"

definition rec_ok :: "nat \<Rightarrow> parse_rec \<Rightarrow> bool" where
  "rec_ok n rec \<longleftrightarrow> (\<forall>task b. call_ok task b \<longrightarrow> call_fuel task b \<le> n \<longrightarrow> parses b (call_depth task b) (rec task b))"

lemma rec_okD: "rec_ok n rec \<Longrightarrow> call_ok task b \<Longrightarrow> call_fuel task b \<le> n \<Longrightarrow> parses b (call_depth task b) (rec task b)"
  by (simp add: rec_ok_def)

lemma fits_items:
  "list_all (fits d) xs \<Longrightarrow> 0 < d \<Longrightarrow> d \<le> CJSON_NESTING_LIMIT \<Longrightarrow> fits (d - 1) (CArray xs)"
  by (induction xs) (auto simp: fits_def)

lemma fits_members:
  "list_all (\<lambda>kv. NUL \<notin> set (fst kv) \<and> fits d (snd kv)) kvs \<Longrightarrow> 0 < d \<Longrightarrow> d \<le> CJSON_NESTING_LIMIT \<Longrightarrow> fits (d - 1) (CObject kvs)"
  by (induction kvs) (auto simp: fits_def)

text \<open>After an element: the next one, or the end.\<close>

lemma after_element:
  assumes "pb_content b' = pb_content b" "pb_offset b' \<le> length (pb_content b)" "pb_offset b < pb_offset b'"
  defines "b1 \<equiv> buffer_skip_whitespace b'"
  shows "pb_content b1 = pb_content b" "pb_offset b1 \<le> length (pb_content b)" "pb_offset b < pb_offset b1" "pb_depth b1 = pb_depth b'"
    "next_is b1 c \<Longrightarrow> pb_offset b1 < length (pb_content b)"
  using skip_bounds [of b'] assms(1-3) next_is_in [of b1 c] by (auto simp: b1_def)

lemma before_element:
  assumes "pb_offset b < length (pb_content b)"
  defines "b1 \<equiv> buffer_skip_whitespace (advance 1 b)"
  shows "pb_content b1 = pb_content b" "pb_offset b1 \<le> length (pb_content b)" "pb_offset b < pb_offset b1" "pb_depth b1 = pb_depth b"
  using skip_bounds [of "advance 1 b"] assms(1) by (auto simp: b1_def)

lemma parse_items_ok:
  assumes rec: "rec_ok n rec" and ok: "call_ok (ParseItems xs) b" and fuel: "call_fuel (ParseItems xs) b \<le> Suc n"
  shows "parses b (pb_depth b - 1) (parse_items rec xs b)"
proof -
  have b: "pb_offset b < length (pb_content b)" using ok by simp
  let ?b1 = "buffer_skip_whitespace (advance 1 b)"
  note b1 = before_element [OF b]
  have "parses ?b1 (pb_depth b) (rec ParseValue ?b1)"
    using rec_okD [OF rec, of ParseValue ?b1] b1 ok fuel by simp
  then show ?thesis
  proof (cases rule: parses_cases)
    case (1 b2)
    then show ?thesis using b1 by (simp add: parse_items_def parses_fail)
  next
    case (2 x b2)
    let ?b3 = "buffer_skip_whitespace b2" and ?xs = "xs @ [x]"
    have b2: "pb_content b2 = pb_content b" "pb_offset b2 \<le> length (pb_content b)" "pb_offset b < pb_offset b2"
      using 2 b1 by simp_all
    note b3 = after_element [OF b2]
    have xs: "list_all (fits (pb_depth b)) ?xs" using ok 2 by simp
    show ?thesis
    proof (cases "next_is ?b3 (CHR '','')")
      case True
      have "parses ?b3 (pb_depth ?b3 - 1) (rec (ParseItems ?xs) ?b3)"
        using rec_okD [OF rec, of "ParseItems ?xs" ?b3] b3(1,3,4) b3(5) [OF True] 2 ok fuel xs by simp
      then have "parses b (pb_depth b - 1) (rec (ParseItems ?xs) ?b3)"
        using parses_later b3(1,3,4) 2 by simp
      then show ?thesis using 2 True by (simp add: parse_items_def Let_def)
    next
      case not_comma: False
      show ?thesis
      proof (cases "next_is ?b3 (CHR '']'')")
        case True
        have "fits (pb_depth b - 1) (CArray ?xs)" using fits_items xs ok by simp
        then show ?thesis
          using 2 not_comma True b3 b3(5) [OF True] by (simp add: parse_items_def Let_def parses_value)
      next
        case False
        then show ?thesis using 2 not_comma b3 by (simp add: parse_items_def Let_def parses_fail)
      qed
    qed
  qed
qed

lemma parse_array_ok:
  assumes rec: "rec_ok n rec" and b: "pb_offset b < length (pb_content b)" "pb_depth b \<le> CJSON_NESTING_LIMIT"
    and fuel: "call_fuel ParseValue b \<le> Suc n"
  shows "parses b (pb_depth b) (parse_array rec b)"
proof (cases "CJSON_NESTING_LIMIT \<le> pb_depth b \<or> pb_content b ! pb_offset b \<noteq> CHR ''[''")
  case True
  then show ?thesis using b by (auto simp: parse_array_def byte_at_def Let_def parses_fail)
next
  case False
  let ?b0 = "b\<lparr>pb_depth := pb_depth b + 1\<rparr>"
  let ?b1 = "buffer_skip_whitespace (advance 1 ?b0)"
  have b1: "pb_content ?b1 = pb_content b" "pb_offset ?b1 \<le> length (pb_content b)" "pb_offset b < pb_offset ?b1"
      "pb_depth ?b1 = pb_depth b + 1"
    using before_element [of ?b0] b by simp_all
  have head: "byte_at (pb_content b) (pb_offset b) = Some (CHR ''['')" using False b by (simp add: byte_at_def)
  show ?thesis
  proof (cases "next_is ?b1 (CHR '']'')")
    case True
    moreover have "fits (pb_depth b) (CArray [])" using False by (simp add: fits_def)
    ultimately show ?thesis
      using False head b1 next_is_in [OF True] by (simp add: parse_array_def Let_def parses_value)
  next
    case not_empty: False
    show ?thesis
    proof (cases "can_access_at_index ?b1 0")
      case True
      have "parses (step_back ?b1) (pb_depth b) (rec (ParseItems []) (step_back ?b1))"
        using rec_okD [OF rec, of "ParseItems []" "step_back ?b1"] True b1 False fuel
        by (simp add: can_access_at_index_def)
      then have "parses b (pb_depth b) (rec (ParseItems []) (step_back ?b1))"
        by (rule parses_later) (use b1 in simp_all)
      then show ?thesis using False head not_empty True by (simp add: parse_array_def Let_def)
    next
      case False
      then show ?thesis
        using \<open>\<not> (_ \<or> _)\<close> head not_empty b1 by (simp add: parse_array_def Let_def parses_fail)
    qed
  qed
qed


lemma parse_member_value_ok:
  assumes rec: "rec_ok n rec" and b: "pb_offset b < length (pb_content b)" "0 < pb_depth b" "pb_depth b \<le> CJSON_NESTING_LIMIT"
    and kvs: "list_all (\<lambda>kv. NUL \<notin> set (fst kv) \<and> fits (pb_depth b) (snd kv)) kvs"
    and fuel: "2 * (length (pb_content b) - pb_offset b) \<le> n"
  shows "parses b (pb_depth b - 1) (parse_member_value rec kvs name b)"
proof -
  let ?b1 = "buffer_skip_whitespace (advance 1 b)"
  note b1 = before_element [OF b(1)]
  have "parses ?b1 (pb_depth b) (rec ParseValue ?b1)"
    using rec_okD [OF rec, of ParseValue ?b1] b1 b fuel by simp
  then show ?thesis
  proof (cases rule: parses_cases)
    case (1 b2)
    then show ?thesis using b1 by (simp add: parse_member_value_def parses_fail)
  next
    case (2 x b2)
    let ?b3 = "buffer_skip_whitespace b2" and ?kvs = "kvs @ [(cstr name, x)]"
    have b2: "pb_content b2 = pb_content b" "pb_offset b2 \<le> length (pb_content b)" "pb_offset b < pb_offset b2"
      using 2 b1 by simp_all
    note b3 = after_element [OF b2]
    have kvs': "list_all (\<lambda>kv. NUL \<notin> set (fst kv) \<and> fits (pb_depth b) (snd kv)) ?kvs" using kvs 2 by simp
    show ?thesis
    proof (cases "next_is ?b3 (CHR '','')")
      case True
      have "parses ?b3 (pb_depth ?b3 - 1) (rec (ParseMembers ?kvs) ?b3)"
        using rec_okD [OF rec, of "ParseMembers ?kvs" ?b3] b3(1,3,4) b3(5) [OF True] 2 b fuel kvs' by simp
      then have "parses b (pb_depth b - 1) (rec (ParseMembers ?kvs) ?b3)"
        using parses_later b3(1,3,4) 2 by simp
      then show ?thesis using 2 True by (simp add: parse_member_value_def Let_def)
    next
      case not_comma: False
      show ?thesis
      proof (cases "next_is ?b3 (CHR ''}'')")
        case True
        have "fits (pb_depth b - 1) (CObject ?kvs)" using fits_members kvs' b by simp
        then show ?thesis
          using 2 not_comma True b3 b3(5) [OF True] by (simp add: parse_member_value_def Let_def parses_value)
      next
        case False
        then show ?thesis using 2 not_comma b3 by (simp add: parse_member_value_def Let_def parses_fail)
      qed
    qed
  qed
qed

lemma parse_members_ok:
  assumes rec: "rec_ok n rec" and ok: "call_ok (ParseMembers kvs) b" and fuel: "call_fuel (ParseMembers kvs) b \<le> Suc n"
  shows "parses b (pb_depth b - 1) (parse_members rec kvs b)"
proof (cases "can_access_at_index b 1")
  case False
  then show ?thesis using ok by (simp add: parse_members_def parses_fail)
next
  case True
  let ?b1 = "buffer_skip_whitespace (advance 1 b)"
  have b1: "pb_content ?b1 = pb_content b" "pb_offset ?b1 < length (pb_content b)" "pb_offset b < pb_offset ?b1" "pb_depth ?b1 = pb_depth b"
    using True before_element [of b] ok skip_bounds(3) [of "advance 1 b"] by (simp_all add: can_access_at_index_def)
  then obtain r b2 where b2: "parse_string ?b1 = Some (r, b2)" "pb_content b2 = pb_content b" "pb_depth b2 = pb_depth b"
      "pb_offset ?b1 < pb_offset b2" "pb_offset b2 \<le> length (pb_content b)"
    using parse_string_ok [of ?b1] by auto
  then have "pb_offset b < pb_offset b2" using b1 by simp
  note b3 = after_element [OF b2(2,5) this]
  show ?thesis
  proof (cases r)
    case None
    then show ?thesis using True b2 by (simp add: parse_members_def parses_fail)
  next
    case (Some name)
    let ?b3 = "buffer_skip_whitespace b2"
    show ?thesis
    proof (cases "next_is ?b3 (CHR '':'')")
      case True
      have "parses ?b3 (pb_depth ?b3 - 1) (parse_member_value rec kvs name ?b3)"
        by (rule parse_member_value_ok [OF rec]) (use b3 b3(5) [OF True] b2 ok fuel in simp_all)
      then have "parses b (pb_depth b - 1) (parse_member_value rec kvs name ?b3)"
        using parses_later b3(1,3,4) b2 by simp
      then show ?thesis using \<open>can_access_at_index b 1\<close> b2 Some True by (simp add: parse_members_def Let_def)
    next
      case False
      then show ?thesis using True \<open>can_access_at_index b 1\<close> b2 Some b3 by (simp add: parse_members_def Let_def parses_fail)
    qed
  qed
qed

lemma parse_object_ok:
  assumes rec: "rec_ok n rec" and b: "pb_offset b < length (pb_content b)" "pb_depth b \<le> CJSON_NESTING_LIMIT"
    and fuel: "call_fuel ParseValue b \<le> Suc n"
  shows "parses b (pb_depth b) (parse_object rec b)"
proof (cases "CJSON_NESTING_LIMIT \<le> pb_depth b \<or> \<not> next_is (b\<lparr>pb_depth := pb_depth b + 1\<rparr>) (CHR ''{'')")
  case True
  then show ?thesis using b by (auto simp: parse_object_def Let_def parses_fail)
next
  case False
  let ?b0 = "b\<lparr>pb_depth := pb_depth b + 1\<rparr>"
  let ?b1 = "buffer_skip_whitespace (advance 1 ?b0)"
  have b1: "pb_content ?b1 = pb_content b" "pb_offset ?b1 \<le> length (pb_content b)" "pb_offset b < pb_offset ?b1"
      "pb_depth ?b1 = pb_depth b + 1"
    using before_element [of ?b0] b by simp_all
  have head: "\<not> CJSON_NESTING_LIMIT \<le> pb_depth b" "next_is ?b0 (CHR ''{'')" using False by simp_all
  show ?thesis
  proof (cases "next_is ?b1 (CHR ''}'')")
    case True
    moreover have "fits (pb_depth b) (CObject [])" using head by (simp add: fits_def)
    ultimately show ?thesis
      using head b1 next_is_in [OF True] by (simp add: parse_object_def Let_def parses_value)
  next
    case not_empty: False
    show ?thesis
    proof (cases "can_access_at_index ?b1 0")
      case True
      have "parses (step_back ?b1) (pb_depth b) (rec (ParseMembers []) (step_back ?b1))"
        using rec_okD [OF rec, of "ParseMembers []" "step_back ?b1"] True b1 head fuel
        by (simp add: can_access_at_index_def)
      then have "parses b (pb_depth b) (rec (ParseMembers []) (step_back ?b1))"
        by (rule parses_later) (use b1 in simp_all)
      then show ?thesis using head not_empty True by (simp add: parse_object_def Let_def)
    next
      case False
      then show ?thesis using head not_empty b1 by (simp add: parse_object_def Let_def parses_fail)
    qed
  qed
qed

lemma reads_word_fits:
  assumes "reads_word b w" "w \<noteq> []" "pb_depth b \<le> CJSON_NESTING_LIMIT" "cj_clean x" "cj_depth x = 0"
  shows "parses b (pb_depth b) (Some (Some x, advance (length w) b))"
  using assms by (intro parses_value) (auto simp: reads_word_def can_read_def fits_def)

lemma parse_number_ok:
  assumes "strtod_ok lib" "pb_offset b \<le> length (pb_content b)" "pb_depth b \<le> CJSON_NESTING_LIMIT"
  shows "parses b (pb_depth b) (parse_number lib b)"
proof -
  let ?cs = "takeWhile is_number_char (take 63 (drop (pb_offset b) (pb_content b)))"
  have "snd (cn_strtod lib ?cs) \<le> length ?cs" using assms(1) by (simp add: strtod_ok_def)
  also have "length ?cs \<le> length (pb_content b) - pb_offset b"
    using length_takeWhile_le [of is_number_char "take 63 (drop (pb_offset b) (pb_content b))"] by simp
  finally show ?thesis
    using assms(2,3) by (auto simp: parse_number_def Let_def fits_def split: prod.split intro!: parses_fail parses_value)
qed

lemma parse_value_ok:
  assumes rec: "rec_ok n rec" and lib: "strtod_ok lib" and ok: "call_ok ParseValue b"
    and fuel: "call_fuel ParseValue b \<le> Suc n"
  shows "parses b (pb_depth b) (parse_value lib rec b)"
proof -
  have word: "parses b (pb_depth b) (Some (Some x, advance (length w) b))"
    if "reads_word b w" "w \<noteq> []" "cj_clean x" "cj_depth x = 0" for w x
    using reads_word_fits [OF that(1,2) _ that(3,4)] ok by simp
  have string: "parses b (pb_depth b)
      (map_option (\<lambda>(s, b). (map_option (\<lambda>s. CString (cstr s)) s, b)) (parse_string b))" if quote: "next_is b DQUOTE"
  proof -
    obtain r b' where "parse_string b = Some (r, b')" "pb_content b' = pb_content b" "pb_depth b' = pb_depth b"
        "pb_offset b < pb_offset b'" "pb_offset b' \<le> length (pb_content b)"
      using parse_string_ok [OF next_is_in [OF quote]] by blast
    then show ?thesis using ok by (cases r) (auto simp: fits_def intro!: parses_fail parses_value)
  qed
  have b: "pb_offset b \<le> length (pb_content b)" "pb_depth b \<le> CJSON_NESTING_LIMIT" using ok by simp_all
  have null: "parses b (pb_depth b) (Some (Some CNull, advance 4 b))" if "reads_word b ''null''"
    using word [OF that, of CNull] by (simp add: eval_nat_numeral)
  have "false": "parses b (pb_depth b) (Some (Some (CBool False), advance 5 b))" if "reads_word b ''false''"
    using word [OF that, of "CBool False"] by (simp add: eval_nat_numeral)
  have "true": "parses b (pb_depth b) (Some (Some (CBool True), advance 4 b))" if "reads_word b ''true''"
    using word [OF that, of "CBool True"] by (simp add: eval_nat_numeral)
  have choose: "parses b (pb_depth b) (if c then r else r')"
    if "c \<Longrightarrow> parses b (pb_depth b) r" "parses b (pb_depth b) r'" for c r r'
    using that by simp
  show ?thesis
    unfolding parse_value_def
    by (intro choose null "false" "true" string parse_number_ok [OF lib b] parse_array_ok [OF rec _ b(2) fuel]
        parse_object_ok [OF rec _ b(2) fuel] parses_fail refl b(1)) (simp_all add: next_is_in)
qed

lemma parse_task_ok: "strtod_ok lib \<Longrightarrow> rec_ok n (parse_task n lib)"
proof (induction n)
  case 0
  have "\<not> call_fuel task b \<le> 0" for task b by (cases task) simp_all
  then show ?case unfolding rec_ok_def by blast
next
  case (Suc n)
  then have rec: "rec_ok n (parse_task n lib)" by simp
  show ?case
    unfolding rec_ok_def
  proof (intro allI impI)
    fix task b
    assume "call_ok task b" "call_fuel task b \<le> Suc n"
    then show "parses b (call_depth task b) (parse_task (Suc n) lib task b)"
      using parse_value_ok [OF rec Suc.prems] parse_items_ok [OF rec] parse_members_ok [OF rec] by (cases task) simp_all
  qed
qed

lemma bom_bounds:
  "pb_content (skip_utf8_bom b) = pb_content b" "pb_depth (skip_utf8_bom b) = pb_depth b"
  "pb_offset b \<le> length (pb_content b) \<Longrightarrow> pb_offset (skip_utf8_bom b) \<le> length (pb_content b)"
  by (auto simp: skip_utf8_bom_def can_access_at_index_def)

lemma parse_document:
  assumes "strtod_ok lib" "s \<noteq> []"
  defines "b \<equiv> buffer_skip_whitespace (skip_utf8_bom \<lparr>pb_content = s, pb_offset = 0, pb_depth = 0\<rparr>)"
  shows "parses b 0 (parse_task (parse_fuel s) lib ParseValue b)"
proof -
  have b: "pb_content b = s" "pb_depth b = 0" "pb_offset b \<le> length s"
    using bom_bounds [of "\<lparr>pb_content = s, pb_offset = 0, pb_depth = 0\<rparr>"]
      skip_bounds(2) [of "skip_utf8_bom \<lparr>pb_content = s, pb_offset = 0, pb_depth = 0\<rparr>"] by (simp_all add: b_def)
  have "call_fuel ParseValue b \<le> parse_fuel s" using b by (simp add: parse_fuel_def)
  then show ?thesis using rec_okD [OF parse_task_ok [OF assms(1)], of ParseValue b] b by simp
qed

lemma cjson_parse_safe:
  assumes "strtod_ok lib"
  shows "\<exists>r. cJSON_ParseWithLengthOpts lib s require_null_terminated = Some r
    \<and> (case r of
         Inl position \<Rightarrow> position \<le> length s
       | Inr (item, parse_end) \<Rightarrow> cj_clean item \<and> cj_depth item \<le> CJSON_NESTING_LIMIT \<and> 0 < parse_end \<and> parse_end \<le> length s)"
proof (cases "s = []")
  case True
  then show ?thesis by (simp add: cJSON_ParseWithLengthOpts_def)
next
  case False
  let ?b = "buffer_skip_whitespace (skip_utf8_bom \<lparr>pb_content = s, pb_offset = 0, pb_depth = 0\<rparr>)"
  have content: "pb_content ?b = s" by (simp add: bom_bounds)
  show ?thesis
    using parse_document [OF assms False]
  proof (cases rule: parses_cases)
    case (1 b')
    then show ?thesis using False content by (auto simp: cJSON_ParseWithLengthOpts_def error_position_def)
  next
    case (2 x b')
    then have x: "cj_clean x" "cj_depth x \<le> CJSON_NESTING_LIMIT" by (simp_all add: fits_def)
    have "pb_offset b' \<le> pb_offset (buffer_skip_whitespace b')" "pb_offset (buffer_skip_whitespace b') \<le> length s"
      using skip_bounds(1,2) [of b'] 2 content by simp_all
    then show ?thesis
      using False 2 x content
      by (auto simp: cJSON_ParseWithLengthOpts_def error_position_def Let_def)
  qed
qed

text \<open>C13. The parser is safe and returns on every document: no byte is read outside of it and none written outside
  of the room reserved for a string; a tree has C strings only and at most 64 nestings, the limit the build
  sets, and ends within the document, as does the position of an error.\<close>

theorem cjson_parse_total:
  assumes "strtod_ok lib"
  shows "\<exists>r. cJSON_ParseWithLengthOpts lib s require_null_terminated = Some r
    \<and> (case r of
         Inl position \<Rightarrow> position \<le> length s
       | Inr (item, parse_end) \<Rightarrow> cj_clean item \<and> cj_depth item \<le> 64 \<and> 0 < parse_end \<and> parse_end \<le> length s)"
  by (rule cjson_parse_safe [OF assms, unfolded CJSON_NESTING_LIMIT_def])

lemma sample_strtod_ok: "strtod_ok sample_cjson_lib"
  by (simp add: strtod_ok_def sample_cjson_lib_def sample_strtod_def Let_def length_takeWhile_le)

lemmas parse_steps = cJSON_ParseWithLengthOpts_def parse_fuel_def skip_utf8_bom_def can_access_at_index_def numeral_eq_Suc
  buffer_skip_whitespace_def is_blank_def parse_value_def reads_word_def can_read_def next_is_def byte_at_def
  next_starts_number_def parse_array_def parse_items_def parse_object_def parse_number_def is_number_char_def
  sample_cjson_lib_def sample_strtod_def Let_def advance_def step_back_def CJSON_NESTING_LIMIT_def

theorem cjson_parse_total_witness:
  "(\<exists>item. cJSON_ParseWithLengthOpts sample_cjson_lib ''[7, {}]x'' False = Some (Inr (item, 7)) \<and> cj_clean item)
   \<and> (\<exists>position. cJSON_ParseWithLengthOpts sample_cjson_lib ''[7, '' False = Some (Inl position) \<and> position \<le> 4)"
proof
  have "cJSON_ParseWithLengthOpts sample_cjson_lib ''[7, {}]x'' False
      = Some (Inr (CArray [CNumber (dbl_of_int 7), CObject []], 7))" by (simp add: parse_steps)
  then show "\<exists>item. cJSON_ParseWithLengthOpts sample_cjson_lib ''[7, {}]x'' False = Some (Inr (item, 7)) \<and> cj_clean item"
    using cjson_parse_total [OF sample_strtod_ok, of "''[7, {}]x''" False] by auto
next
  have "cJSON_ParseWithLengthOpts sample_cjson_lib ''[7, '' False = Some (Inl 3)"
    by (simp add: parse_steps error_position_def)
  then show "\<exists>position. cJSON_ParseWithLengthOpts sample_cjson_lib ''[7, '' False = Some (Inl position) \<and> position \<le> 4"
    using cjson_parse_total [OF sample_strtod_ok, of "''[7, ''" False] by auto
qed

end
