(* ===== verification/CjsonPrint.thy ===== *)
theory CjsonPrint
  imports CjsonParse
begin

text \<open>
  The printer of the bundled cJSON library. Its buffer is the bytes before the offset, the C string at the
  offset when there is one, and the size allocated; a write behind that size, or a \<open>strlen\<close> where no string
  has been terminated, is the outer \<open>None\<close>. Then the text it prints, as a function of the tree.
\<close>

definition INT_MAX :: nat where "INT_MAX = 2147483647"

record printbuffer =
  pr_text :: string
  pr_tail :: "string option"
  pr_length :: nat
  pr_depth :: nat
  pr_format :: bool

type_synonym print_result = "(bool \<times> printbuffer) option"

text \<open>The new buffer has the bytes up to the offset, and the one at it.\<close>

definition grow :: "nat \<Rightarrow> printbuffer \<Rightarrow> printbuffer" where
  "grow n p = p\<lparr>pr_length := n, pr_tail := (if pr_tail p = Some [] then Some [] else None)\<rparr>"

definition ensure :: "printbuffer \<Rightarrow> nat \<Rightarrow> printbuffer option" where
  "ensure p needed =
     (if 0 < pr_length p \<and> pr_length p \<le> length (pr_text p) then None
      else if INT_MAX < needed then None
      else
        let needed = needed + length (pr_text p) + 1 in
        if needed \<le> pr_length p then Some p
        else if INT_MAX div 2 < needed then (if needed \<le> INT_MAX then Some (grow INT_MAX p) else None)
        else Some (grow (needed * 2) p))"

text \<open>
  Writes: in front of the offset, without and with a terminator, and behind it, as \<open>strcpy\<close> does;
  \<open>ensured\<close> reserves first and fails when the buffer cannot grow.
\<close>

definition put :: "string \<Rightarrow> printbuffer \<Rightarrow> print_result" where
  "put s p =
     (if length (pr_text p) + length s \<le> pr_length p
      then Some (True, p\<lparr>pr_text := pr_text p @ s, pr_tail := None\<rparr>) else None)"

definition put_terminated :: "string \<Rightarrow> printbuffer \<Rightarrow> print_result" where
  "put_terminated s p =
     (if length (pr_text p) + length s + 1 \<le> pr_length p
      then Some (True, p\<lparr>pr_text := pr_text p @ s, pr_tail := Some []\<rparr>) else None)"

definition strcpy :: "string \<Rightarrow> printbuffer \<Rightarrow> print_result" where
  "strcpy s p =
     (if length (pr_text p) + length s + 1 \<le> pr_length p
      then Some (True, p\<lparr>pr_tail := Some s\<rparr>) else None)"

definition ensured :: "nat \<Rightarrow> (printbuffer \<Rightarrow> print_result) \<Rightarrow> printbuffer \<Rightarrow> print_result" where
  "ensured needed f p = (case ensure p needed of None \<Rightarrow> Some (False, p) | Some p \<Rightarrow> f p)"

definition update_offset :: "printbuffer \<Rightarrow> print_result" where
  "update_offset p =
     (case pr_tail p of
        None \<Rightarrow> None
      | Some t \<Rightarrow> Some (True, p\<lparr>pr_text := pr_text p @ t, pr_tail := Some []\<rparr>))"

text \<open>One step and, if it succeeded, the next.\<close>

definition then_print :: "(printbuffer \<Rightarrow> print_result) \<Rightarrow> (printbuffer \<Rightarrow> print_result) \<Rightarrow> printbuffer \<Rightarrow> print_result" where
  "then_print f g p =
     (case f p of None \<Rightarrow> None | Some (ok, p) \<Rightarrow> if ok then g p else Some (False, p))"

definition skip_print :: "printbuffer \<Rightarrow> print_result" where
  "skip_print p = Some (True, p)"

definition nest :: "printbuffer \<Rightarrow> printbuffer" where
  "nest p = p\<lparr>pr_depth := pr_depth p + 1\<rparr>"

definition unnest :: "printbuffer \<Rightarrow> printbuffer" where
  "unnest p = p\<lparr>pr_depth := pr_depth p - 1\<rparr>"

section \<open>Numbers\<close>

text \<open>\<open>valueint\<close>, the saturated conversion.\<close>

definition valueint :: "dbl \<Rightarrow> int" where
  "valueint d =
     (if int INT_MAX \<le> dbl_trunc d then int INT_MAX
      else if dbl_trunc d \<le> - int INT_MAX - 1 then - int INT_MAX - 1
      else dbl_trunc d)"

definition number_text :: "cjson_lib \<Rightarrow> dbl \<Rightarrow> string" where
  "number_text lib d =
     (if dbl_exp d = 2047 then ''null''
      else if dbl_integer d = Some (valueint d) then show_int (valueint d)
      else
        let text15 = cn_print15 lib d in
        case cn_sscanf lib text15 of
          None \<Rightarrow> cn_print17 lib d
        | Some test \<Rightarrow> if cn_compare lib test d then text15 else cn_print17 lib d)"

text \<open>The text is formatted in an array of 26 bytes.\<close>

definition print_number :: "cjson_lib \<Rightarrow> dbl \<Rightarrow> printbuffer \<Rightarrow> print_result" where
  "print_number lib d p =
     (let text = number_text lib d in
      if 26 < length text + 1 then None else ensured (length text + 1) (put_terminated text) p)"

section \<open>Strings\<close>

definition has_short_escape :: "char \<Rightarrow> bool" where
  "has_short_escape c \<longleftrightarrow> c \<in> {DQUOTE, BSLASH, CHR 0x08, CHR 0x0C, CHR 0x0A, CHR 0x0D, CHR 0x09}"

text \<open>The additional bytes an escaped character needs, and the character with its escape.\<close>

definition escape_extra :: "char \<Rightarrow> nat" where
  "escape_extra c = (if has_short_escape c then 1 else if of_char c < (32 :: nat) then 5 else 0)"

definition escape_characters :: "string \<Rightarrow> nat" where
  "escape_characters s = sum_list (map escape_extra s)"

definition hex_char :: "nat \<Rightarrow> char" where
  "hex_char n = (if n < 10 then char_of (48 + n) else char_of (87 + n))"

text \<open>\<open>sprintf\<close> with \<open>u%04x\<close> of a byte.\<close>

definition print_u04x :: "char \<Rightarrow> string" where
  "print_u04x c = ''u00'' @ [hex_char (of_char c div 16), hex_char (of_char c mod 16)]"

definition escape_char :: "char \<Rightarrow> string" where
  "escape_char c =
     (if of_char c > (31 :: nat) \<and> c \<noteq> DQUOTE \<and> c \<noteq> BSLASH then [c]
      else BSLASH #
        (if c = BSLASH then [BSLASH]
         else if c = DQUOTE then [DQUOTE]
         else if c = CHR 0x08 then ''b''
         else if c = CHR 0x0C then ''f''
         else if c = CHR 0x0A then ''n''
         else if c = CHR 0x0D then ''r''
         else if c = CHR 0x09 then ''t''
         else print_u04x c))"

definition escape_string :: "string \<Rightarrow> string" where
  "escape_string s = concat (map escape_char s)"

text \<open>
  \<open>print_string_ptr\<close> of a string of a tree, which is not \<open>NULL\<close>. The closing quote is placed at the length
  computed before; if the bytes written did not end there, one would be left unwritten or overwritten.
\<close>

definition print_string_ptr :: "string \<Rightarrow> printbuffer \<Rightarrow> print_result" where
  "print_string_ptr input p =
     (let escapes = escape_characters input; output_length = length input + escapes in
      ensured (output_length + 3)
        (\<lambda>p. if escapes = 0 then strcpy (DQUOTE # input @ [DQUOTE]) p
             else if length (escape_string input) \<noteq> output_length then None
             else strcpy (DQUOTE # escape_string input @ [DQUOTE]) p) p)"

section \<open>Values\<close>

definition print_array_open :: "printbuffer \<Rightarrow> print_result" where
  "print_array_open = ensured 1 (\<lambda>p. put ''['' (nest p))"

definition print_comma :: "printbuffer \<Rightarrow> print_result" where
  "print_comma p =
     (if pr_format p then ensured 3 (put_terminated '', '') p else ensured 2 (put_terminated '','') p)"

definition print_array_close :: "printbuffer \<Rightarrow> print_result" where
  "print_array_close = ensured 2 (\<lambda>p. strcpy '']'' (unnest p))"

definition print_object_open :: "printbuffer \<Rightarrow> print_result" where
  "print_object_open p =
     (if pr_format p then ensured 3 (\<lambda>p. put [CHR ''{'', CHR 0x0A] (nest p)) p
      else ensured 2 (\<lambda>p. put ''{'' (nest p)) p)"

definition tabs :: "nat \<Rightarrow> string" where
  "tabs n = replicate n (CHR 0x09)"

definition print_key :: "string \<Rightarrow> printbuffer \<Rightarrow> print_result" where
  "print_key key =
     then_print (\<lambda>p. if pr_format p then ensured (pr_depth p) (put (tabs (pr_depth p))) p else skip_print p)
       (then_print (print_string_ptr key)
         (then_print update_offset
           (\<lambda>p. if pr_format p then ensured 2 (put [CHR '':'', CHR 0x09]) p else ensured 1 (put '':'') p)))"

definition print_member_end :: "bool \<Rightarrow> printbuffer \<Rightarrow> print_result" where
  "print_member_end comma p =
     (let text = (if comma then '','' else []) @ (if pr_format p then [CHR 0x0A] else []) in
      ensured (length text + 1) (put_terminated text) p)"

definition print_object_close :: "printbuffer \<Rightarrow> print_result" where
  "print_object_close p =
     (if pr_format p then ensured (pr_depth p + 1) (\<lambda>p. strcpy (tabs (pr_depth p - 1) @ ''}'') (unnest p)) p
      else ensured 2 (\<lambda>p. strcpy ''}'' (unnest p)) p)"

fun print_value :: "cjson_lib \<Rightarrow> cjson \<Rightarrow> printbuffer \<Rightarrow> print_result"
  and print_elements :: "cjson_lib \<Rightarrow> cjson list \<Rightarrow> printbuffer \<Rightarrow> print_result"
  and print_members :: "cjson_lib \<Rightarrow> (string \<times> cjson) list \<Rightarrow> printbuffer \<Rightarrow> print_result"
where
  "print_value lib CNull = ensured 5 (strcpy ''null'')"
| "print_value lib (CBool b) = (if b then ensured 5 (strcpy ''true'') else ensured 6 (strcpy ''false''))"
| "print_value lib (CNumber d) = print_number lib d"
| "print_value lib (CString s) = print_string_ptr s"
| "print_value lib (CArray xs) = then_print print_array_open (then_print (print_elements lib xs) print_array_close)"
| "print_value lib (CObject kvs) = then_print print_object_open (then_print (print_members lib kvs) print_object_close)"
| "print_elements lib [] = skip_print"
| "print_elements lib (x # xs) =
     then_print (print_value lib x)
       (then_print update_offset (then_print (if xs = [] then skip_print else print_comma) (print_elements lib xs)))"
| "print_members lib [] = skip_print"
| "print_members lib ((key, x) # kvs) =
     then_print (print_key key)
       (then_print (print_value lib x)
         (then_print update_offset (then_print (print_member_end (kvs \<noteq> [])) (print_members lib kvs))))"

text \<open>\<open>print\<close>: the text, \<open>None\<close> inside being the \<open>NULL\<close> of a failure; the final copy does not fail.\<close>

definition cjson_print :: "cjson_lib \<Rightarrow> cjson \<Rightarrow> bool \<Rightarrow> string option option" where
  "cjson_print lib item format =
     (case then_print (print_value lib item) update_offset
             \<lparr>pr_text = [], pr_tail = None, pr_length = 256, pr_depth = 0, pr_format = format\<rparr> of
        None \<Rightarrow> None
      | Some (ok, p) \<Rightarrow> Some (if ok then Some (take (min (pr_length p) (length (pr_text p) + 1)) (pr_text p)) else None))"

definition cJSON_Print :: "cjson_lib \<Rightarrow> cjson \<Rightarrow> string option option" where
  "cJSON_Print lib item = cjson_print lib item True"

definition cJSON_PrintUnformatted :: "cjson_lib \<Rightarrow> cjson \<Rightarrow> string option option" where
  "cJSON_PrintUnformatted lib item = cjson_print lib item False"

section \<open>The text\<close>

definition quoted :: "string \<Rightarrow> string" where
  "quoted s = DQUOTE # escape_string s @ [DQUOTE]"

fun json_text :: "cjson_lib \<Rightarrow> bool \<Rightarrow> nat \<Rightarrow> cjson \<Rightarrow> string"
  and elements_text :: "cjson_lib \<Rightarrow> bool \<Rightarrow> nat \<Rightarrow> cjson list \<Rightarrow> string"
  and members_text :: "cjson_lib \<Rightarrow> bool \<Rightarrow> nat \<Rightarrow> (string \<times> cjson) list \<Rightarrow> string"
where
  "json_text lib fmt d CNull = ''null''"
| "json_text lib fmt d (CBool b) = (if b then ''true'' else ''false'')"
| "json_text lib fmt d (CNumber x) = number_text lib x"
| "json_text lib fmt d (CString s) = quoted s"
| "json_text lib fmt d (CArray xs) = ''['' @ elements_text lib fmt (d + 1) xs @ '']''"
| "json_text lib fmt d (CObject kvs) =
     ''{'' @ (if fmt then [CHR 0x0A] else []) @ members_text lib fmt (d + 1) kvs @ (if fmt then tabs d else []) @ ''}''"
| "elements_text lib fmt d [] = []"
| "elements_text lib fmt d (x # xs) =
     json_text lib fmt d x @ (if xs = [] then [] else if fmt then '', '' else '','') @ elements_text lib fmt d xs"
| "members_text lib fmt d [] = []"
| "members_text lib fmt d ((key, x) # kvs) =
     (if fmt then tabs d else []) @ quoted key @ (if fmt then [CHR '':'', CHR 0x09] else '':'') @ json_text lib fmt d x
       @ (if kvs = [] then [] else '','') @ (if fmt then [CHR 0x0A] else []) @ members_text lib fmt d kvs"

end
