(* ===== verification/CjsonPrintProps.thy ===== *)
theory CjsonPrintProps
  imports CjsonPrint
begin

text \<open>
  The printer writes within its buffer, and prints the text of the tree unless that is as long as the
  largest \<open>int\<close>.
\<close>

section \<open>Steps\<close>

definition room :: "printbuffer \<Rightarrow> bool" where
  "room p \<longleftrightarrow> length (pr_text p) + (case pr_tail p of Some t \<Rightarrow> length t | None \<Rightarrow> 0) < pr_length p"

definition flushed :: "printbuffer \<Rightarrow> bool" where
  "flushed p \<longleftrightarrow> pr_tail p = None \<or> pr_tail p = Some []"

definition terminated :: "printbuffer \<Rightarrow> bool" where
  "terminated p \<longleftrightarrow> pr_tail p \<noteq> None"

definition whole :: "printbuffer \<Rightarrow> string" where
  "whole p = pr_text p @ (case pr_tail p of Some t \<Rightarrow> t | None \<Rightarrow> [])"

text \<open>The result of a step at \<open>p\<close> that adds \<open>s\<close>: it fails only if the text gets too long.\<close>

definition gives :: "printbuffer \<Rightarrow> string \<Rightarrow> nat \<Rightarrow> (printbuffer \<Rightarrow> bool) \<Rightarrow> print_result \<Rightarrow> bool" where
  "gives p s depth post r \<longleftrightarrow>
     (\<exists>p'. r = Some (True, p') \<and> room p' \<and> post p' \<and> whole p' = pr_text p @ s \<and> pr_depth p' = depth \<and> pr_format p' = pr_format p)
     \<or> (\<exists>p'. r = Some (False, p') \<and> INT_MAX < length (pr_text p) + length s + 2)"

lemma gives_cases:
  assumes "gives p s depth post r"
  obtains p' where "r = Some (True, p')" "room p'" "post p'" "whole p' = pr_text p @ s" "pr_depth p' = depth" "pr_format p' = pr_format p"
    | p' where "r = Some (False, p')" "INT_MAX < length (pr_text p) + length s + 2"
  using assms by (auto simp: gives_def)

definition writes ::
    "(bool \<Rightarrow> nat \<Rightarrow> string) \<Rightarrow> (nat \<Rightarrow> nat) \<Rightarrow> (printbuffer \<Rightarrow> bool) \<Rightarrow> (printbuffer \<Rightarrow> print_result) \<Rightarrow> bool" where
  "writes s dd post f \<longleftrightarrow>
     (\<forall>p. room p \<longrightarrow> flushed p \<longrightarrow> gives p (s (pr_format p) (pr_depth p)) (dd (pr_depth p)) post (f p))"

lemma writesI:
  "(\<And>p. room p \<Longrightarrow> flushed p \<Longrightarrow> gives p (s (pr_format p) (pr_depth p)) (dd (pr_depth p)) post (f p)) \<Longrightarrow> writes s dd post f"
  by (simp add: writes_def)

lemma writesD: "writes s dd post f \<Longrightarrow> room p \<Longrightarrow> flushed p \<Longrightarrow> gives p (s (pr_format p) (pr_depth p)) (dd (pr_depth p)) post (f p)"
  by (simp add: writes_def)

lemma flushed_whole: "flushed p \<Longrightarrow> whole p = pr_text p"
  by (auto simp: flushed_def whole_def)

lemma ensure_cases:
  assumes "room p" "flushed p"
  obtains "ensure p n = None" "INT_MAX < length (pr_text p) + n + 1"
    | p' where "ensure p n = Some p'" "flushed p'" "pr_text p' = pr_text p" "pr_depth p' = pr_depth p"
      "pr_format p' = pr_format p" "length (pr_text p) + n + 1 \<le> pr_length p'"
proof -
  have len: "length (pr_text p) < pr_length p" using assms by (auto simp: room_def flushed_def)
  show ?thesis
  proof (cases "ensure p n")
    case None
    then show ?thesis using len by (intro that(1)) (auto simp: ensure_def Let_def split: if_splits)
  next
    case (Some p')
    show ?thesis
      by (rule that(2) [OF Some])
         (use Some assms(2) in \<open>auto simp: ensure_def grow_def flushed_def Let_def split: if_splits\<close>)
  qed
qed

lemma ensured_gives:
  assumes "room p" "flushed p" "n \<le> length s + 1"
    and "\<And>p'. flushed p' \<Longrightarrow> pr_text p' = pr_text p \<Longrightarrow> pr_depth p' = pr_depth p \<Longrightarrow> pr_format p' = pr_format p
      \<Longrightarrow> length (pr_text p) + n + 1 \<le> pr_length p' \<Longrightarrow> gives p s d post (f p')"
  shows "gives p s d post (ensured n f p)"
proof (rule ensure_cases [OF assms(1,2), of n])
  assume "ensure p n = None" "INT_MAX < length (pr_text p) + n + 1"
  then show ?thesis using assms(3) by (simp add: ensured_def gives_def)
next
  fix p'
  assume p': "ensure p n = Some p'" "flushed p'" "pr_text p' = pr_text p" "pr_depth p' = pr_depth p"
    "pr_format p' = pr_format p" "length (pr_text p) + n + 1 \<le> pr_length p'"
  then show ?thesis using assms(4) [OF p'(2-6)] by (simp add: ensured_def)
qed

text \<open>The three writes, after a change of the depth.\<close>

lemma put_gives:
  assumes "pr_text p' = pr_text p" "pr_format p' = pr_format p" "length (pr_text p) + length s < pr_length p'" "pr_depth p' = d"
  shows "gives p s d flushed (put s p')" "gives p s d flushed (put_terminated s p')" "gives p s d terminated (put_terminated s p')"
    "gives p s d terminated (strcpy s p')"
  using assms
  by (simp_all add: gives_def put_def put_terminated_def strcpy_def room_def flushed_def terminated_def whole_def)

lemma writes_fixed:
  assumes "length s \<le> n" "n \<le> length s + 1"
  shows "writes (\<lambda>fmt d. s) (\<lambda>d. d) flushed (ensured n (put s))"
    "writes (\<lambda>fmt d. s) (\<lambda>d. d) flushed (ensured n (put_terminated s))"
    "writes (\<lambda>fmt d. s) (\<lambda>d. d) terminated (ensured n (put_terminated s))"
    "writes (\<lambda>fmt d. s) (\<lambda>d. d) terminated (ensured n (strcpy s))"
    "writes (\<lambda>fmt d. s) Suc flushed (ensured n (\<lambda>p. put s (nest p)))"
    "writes (\<lambda>fmt d. s) (\<lambda>d. d - 1) terminated (ensured n (\<lambda>p. strcpy s (unnest p)))"
  using assms by (auto intro!: writesI ensured_gives put_gives simp: nest_def unnest_def)

lemma writes_then:
  assumes f: "writes s dd flushed f" and g: "writes s' dd' post g"
  shows "writes (\<lambda>fmt d. s fmt d @ s' fmt (dd d)) (\<lambda>d. dd' (dd d)) post (then_print f g)"
proof (rule writesI)
  fix p
  assume p: "room p" "flushed p"
  from writesD [OF f p]
  show "gives p (s (pr_format p) (pr_depth p) @ s' (pr_format p) (dd (pr_depth p))) (dd' (dd (pr_depth p))) post (then_print f g p)"
  proof (cases rule: gives_cases)
    case (1 p1)
    then have flat: "pr_text p1 = pr_text p @ s (pr_format p) (pr_depth p)" using flushed_whole by simp
    from writesD [OF g 1(2,3)] show ?thesis
      by (cases rule: gives_cases) (use 1 flat in \<open>simp_all add: then_print_def gives_def\<close>)
  next
    case (2 p1)
    then show ?thesis by (simp add: then_print_def gives_def)
  qed
qed

lemma writes_update:
  assumes f: "writes s dd terminated f"
  shows "writes s dd flushed (then_print f update_offset)"
proof (rule writesI)
  fix p
  assume p: "room p" "flushed p"
  from writesD [OF f p]
  show "gives p (s (pr_format p) (pr_depth p)) (dd (pr_depth p)) flushed (then_print f update_offset p)"
  proof (cases rule: gives_cases)
    case (1 p1)
    then obtain t where t: "pr_tail p1 = Some t" by (auto simp: terminated_def)
    then have eq: "pr_text p1 @ t = pr_text p @ s (pr_format p) (pr_depth p)" using 1 by (simp add: whole_def)
    have "length (pr_text p1) + length t < pr_length p1" using 1(2) t by (simp add: room_def)
    then have "length (pr_text p) + length (s (pr_format p) (pr_depth p)) < pr_length p1"
      using arg_cong [OF eq, of length] by simp
    moreover have "then_print f update_offset p
        = Some (True, p1\<lparr>pr_text := pr_text p @ s (pr_format p) (pr_depth p), pr_tail := Some []\<rparr>)"
      using 1(1) t eq by (simp add: then_print_def update_offset_def)
    ultimately show ?thesis using 1(5,6) by (simp add: gives_def room_def flushed_def whole_def)
  next
    case (2 p1)
    then show ?thesis by (simp add: then_print_def gives_def)
  qed
qed

lemma then_print_assoc: "then_print (then_print f g) h = then_print f (then_print g h)"
  by (rule ext) (simp add: then_print_def split: option.split prod.split)

lemma writes_update_then:
  assumes "writes s dd terminated f" "writes s' dd' post g"
  shows "writes (\<lambda>fmt d. s fmt d @ s' fmt (dd d)) (\<lambda>d. dd' (dd d)) post (then_print f (then_print update_offset g))"
  using writes_then [OF writes_update [OF assms(1)] assms(2)] by (simp add: then_print_assoc)

lemma writes_skip: "writes (\<lambda>fmt d. []) (\<lambda>d. d) flushed skip_print"
  by (rule writesI) (simp add: gives_def skip_print_def flushed_whole)

lemma writes_eq: "writes s dd post f \<Longrightarrow> s = s' \<Longrightarrow> dd = dd' \<Longrightarrow> writes s' dd' post f"
  by simp

lemma writes_by_format:
  assumes "\<And>fmt. writes (s fmt) dd post (f fmt)"
  shows "writes (\<lambda>fmt. s fmt fmt) dd post (\<lambda>p. f (pr_format p) p)"
  using assms by (simp add: writes_def)


section \<open>Numbers and strings\<close>

text \<open>What \<open>sprintf\<close> promises of a double.\<close>

definition printf_ok :: "cjson_lib \<Rightarrow> bool" where
  "printf_ok lib \<longleftrightarrow> (\<forall>d. length (cn_print15 lib d) \<le> 25 \<and> length (cn_print17 lib d) \<le> 25)"

lemma show_nat_digits: "n < 10 ^ k \<Longrightarrow> 0 < k \<Longrightarrow> length (show_nat n) \<le> k"
proof (induction k arbitrary: n)
  case (Suc k)
  show ?case
  proof (cases "n < 10")
    case True
    then show ?thesis by (simp add: show_nat.simps [of n])
  next
    case False
    then have "0 < k" using Suc.prems by (cases k) simp_all
    moreover have "n div 10 < 10 ^ k" using Suc.prems by (simp add: less_mult_imp_div_less mult.commute)
    ultimately have "length (show_nat (n div 10)) \<le> k" using Suc.IH by simp
    then show ?thesis using False by (simp add: show_nat.simps [of n])
  qed
qed simp

lemma valueint_range: "- int INT_MAX - 1 \<le> valueint d" "valueint d \<le> int INT_MAX"
  by (auto simp: valueint_def INT_MAX_def)

lemma number_text_length:
  assumes "printf_ok lib"
  shows "length (number_text lib d) \<le> 25"
proof -
  have "length (show_nat (nat i)) \<le> 10" if "i \<le> 2147483648" for i :: int
    using that by (intro show_nat_digits) simp_all
  from this [of "valueint d"] this [of "- valueint d"] have "length (show_int (valueint d)) \<le> 11"
    using valueint_range [of d] by (simp add: show_int_def INT_MAX_def)
  then show ?thesis
    using assms by (auto simp: number_text_def printf_ok_def Let_def split: option.split)
qed

lemma writes_number:
  assumes "printf_ok lib"
  shows "writes (\<lambda>fmt d. number_text lib x) (\<lambda>d. d) terminated (print_number lib x)"
proof -
  have "print_number lib x = ensured (length (number_text lib x) + 1) (put_terminated (number_text lib x))"
    using number_text_length [OF assms, of x] by (auto simp: print_number_def Let_def fun_eq_iff)
  then show ?thesis using writes_fixed(3) by simp
qed

lemma of_char_31: "of_char c > (31 :: nat) \<longleftrightarrow> \<not> of_char c < (32 :: nat)"
  by auto

lemma escape_char_length: "length (escape_char c) = 1 + escape_extra c"
proof (cases "has_short_escape c")
  case True
  then show ?thesis by (auto simp: escape_char_def escape_extra_def has_short_escape_def)
next
  case False
  then show ?thesis
    by (auto simp: escape_char_def escape_extra_def has_short_escape_def of_char_31 print_u04x_def)
qed

lemma escape_char_plain: "escape_extra c = 0 \<Longrightarrow> escape_char c = [c]"
  by (auto simp: escape_char_def escape_extra_def has_short_escape_def split: if_splits)

lemma escape_string_length: "length (escape_string s) = length s + escape_characters s"
  by (induction s) (simp_all add: escape_string_def escape_characters_def escape_char_length)

lemma escape_string_plain: "escape_characters s = 0 \<Longrightarrow> escape_string s = s"
  by (induction s) (simp_all add: escape_string_def escape_characters_def escape_char_plain)

lemma writes_string: "writes (\<lambda>fmt d. quoted s) (\<lambda>d. d) terminated (print_string_ptr s)"
proof -
  have "print_string_ptr s = ensured (length s + escape_characters s + 3) (strcpy (quoted s))"
  proof (cases "escape_characters s = 0")
    case True
    then show ?thesis using escape_string_plain [of s] by (simp add: print_string_ptr_def quoted_def Let_def fun_eq_iff)
  next
    case False
    then show ?thesis by (simp add: print_string_ptr_def quoted_def escape_string_length Let_def fun_eq_iff)
  qed
  moreover have "length (quoted s) = length s + escape_characters s + 2" by (simp add: quoted_def escape_string_length)
  ultimately show ?thesis using writes_fixed(4) [of "quoted s" "length s + escape_characters s + 3"] by simp
qed


section \<open>Values\<close>

lemma writes_at_format:
  assumes "writes (s True) dd post (f True)" "writes (s False) dd post (f False)"
  shows "writes (\<lambda>fmt. s fmt fmt) dd post (\<lambda>p. f (pr_format p) p)"
  using assms by (auto simp: writes_def) (metis (full_types))+

lemma writes_comma: "writes (\<lambda>fmt d. if fmt then '', '' else '','') (\<lambda>d. d) flushed print_comma"
  by (rule writesI) (auto simp: print_comma_def intro!: ensured_gives put_gives)

lemma writes_array_open: "writes (\<lambda>fmt d. ''['') Suc flushed print_array_open"
  unfolding print_array_open_def by (rule writes_fixed) simp_all

lemma writes_array_close: "writes (\<lambda>fmt d. '']'') (\<lambda>d. d - 1) terminated print_array_close"
  unfolding print_array_close_def by (rule writes_fixed) simp_all

lemma writes_object_open: "writes (\<lambda>fmt d. ''{'' @ (if fmt then [CHR 0x0A] else [])) Suc flushed print_object_open"
  by (rule writesI) (auto simp: print_object_open_def nest_def intro!: ensured_gives put_gives)

lemma writes_object_close:
  "writes (\<lambda>fmt d. (if fmt then tabs (d - 1) else []) @ ''}'') (\<lambda>d. d - 1) terminated print_object_close"
  by (rule writesI) (auto simp: print_object_close_def unnest_def tabs_def intro!: ensured_gives put_gives)

lemma writes_indent:
  "writes (\<lambda>fmt d. if fmt then tabs d else []) (\<lambda>d. d) flushed
     (\<lambda>p. if pr_format p then ensured (pr_depth p) (put (tabs (pr_depth p))) p else skip_print p)"
  using writesD [OF writes_skip] by (intro writesI) (auto simp: tabs_def intro!: ensured_gives put_gives)

lemma writes_colon:
  "writes (\<lambda>fmt d. if fmt then [CHR '':'', CHR 0x09] else '':'') (\<lambda>d. d) flushed
     (\<lambda>p. if pr_format p then ensured 2 (put [CHR '':'', CHR 0x09]) p else ensured 1 (put '':'') p)"
  by (intro writesI) (auto intro!: ensured_gives put_gives)

lemma writes_key:
  "writes (\<lambda>fmt d. (if fmt then tabs d else []) @ quoted key @ (if fmt then [CHR '':'', CHR 0x09] else '':''))
     (\<lambda>d. d) flushed (print_key key)"
  unfolding print_key_def by (rule writes_then [OF writes_indent writes_update_then [OF writes_string writes_colon]])

lemma writes_member_end:
  "writes (\<lambda>fmt d. (if comma then '','' else []) @ (if fmt then [CHR 0x0A] else [])) (\<lambda>d. d) flushed (print_member_end comma)"
  by (intro writesI) (auto simp: print_member_end_def Let_def intro!: ensured_gives put_gives)

lemma writes_value:
  "printf_ok lib \<Longrightarrow> writes (\<lambda>fmt d. json_text lib fmt d v) (\<lambda>d. d) terminated (print_value lib v)"
  "printf_ok lib \<Longrightarrow> writes (\<lambda>fmt d. elements_text lib fmt d xs) (\<lambda>d. d) flushed (print_elements lib xs)"
  "printf_ok lib \<Longrightarrow> writes (\<lambda>fmt d. members_text lib fmt d kvs) (\<lambda>d. d) flushed (print_members lib kvs)"
proof (induction lib v and lib xs and lib kvs rule: print_value_print_elements_print_members.induct)
  case (5 lib xs)
  have "writes (\<lambda>fmt d. ''['' @ elements_text lib fmt (Suc d) xs @ '']'') (\<lambda>d. Suc d - 1) terminated (print_value lib (CArray xs))"
    using writes_then [OF writes_array_open writes_then [OF 5(1) [OF 5(2)] writes_array_close]] by simp
  then show ?case by simp
next
  case (6 lib kvs)
  show ?case
    unfolding print_value.simps
    by (rule writes_eq [OF writes_then [OF writes_object_open writes_then [OF 6(1) [OF 6(2)] writes_object_close]]]) (simp_all add: fun_eq_iff)
next
  case (8 lib x xs)
  have "writes (\<lambda>fmt d. if xs = [] then [] else if fmt then '', '' else '','') (\<lambda>d. d) flushed (if xs = [] then skip_print else print_comma)"
    using writes_skip writes_comma by simp
  from writes_update_then [OF 8(1) [OF 8(3)] writes_then [OF this 8(2) [OF 8(3)]]] show ?case by simp
next
  case (10 lib key x kvs)
  from writes_then [OF writes_key writes_update_then [OF 10(1) [OF 10(3)] writes_then [OF writes_member_end 10(2) [OF 10(3)]]]]
  show ?case unfolding print_members.simps by (rule writes_eq) (simp_all add: fun_eq_iff)
qed (use writes_fixed writes_skip writes_number writes_string in simp_all)

lemma cjson_print_gives:
  assumes "printf_ok lib"
  shows "\<exists>r. cjson_print lib v fmt = Some r
    \<and> (r = Some (json_text lib fmt 0 v) \<or> r = None \<and> INT_MAX < length (json_text lib fmt 0 v) + 2)"
proof -
  let ?p = "\<lparr>pr_text = [], pr_tail = None, pr_length = 256, pr_depth = 0, pr_format = fmt\<rparr>"
  have p: "room ?p" "flushed ?p" by (simp_all add: room_def flushed_def)
  from writesD [OF writes_update [OF writes_value(1) [OF assms, of v]] p] show ?thesis
  proof (cases rule: gives_cases)
    case (1 p')
    then have "pr_text p' = json_text lib fmt 0 v" "length (pr_text p') < pr_length p'"
      using flushed_whole by (auto simp: room_def)
    then show ?thesis using 1 by (simp add: cjson_print_def)
  qed (simp add: cjson_print_def)
qed

text \<open>C14. The printer, formatted or not, is safe on every tree: it writes within its buffer and measures only terminated
  strings. What it gives is the text of the tree, unless that has nearly as many bytes as an \<open>int\<close> can count.\<close>

theorem cjson_print_text:
  assumes "printf_ok lib"
  shows "\<exists>r. cjson_print lib v fmt = Some r
    \<and> (r = Some (json_text lib fmt 0 v) \<or> r = None \<and> INT_MAX < length (json_text lib fmt 0 v) + 2)"
  by (rule cjson_print_gives [OF assms])

lemma sample_printf_ok: "printf_ok sample_cjson_lib"
  by (simp add: printf_ok_def sample_cjson_lib_def)

theorem cjson_print_text_witness:
  "cJSON_Print sample_cjson_lib (CObject [(''k'', CArray [CBool True, CNull]), (''s'', CString [CHR 0x0A, BSLASH])])
   = Some (Some (''{'' @ [CHR 0x0A, CHR 0x09] @ ''\"k\":'' @ [CHR 0x09] @ ''[true, null],'' @ [CHR 0x0A, CHR 0x09] @ ''\"s\":''
       @ [CHR 0x09, DQUOTE, BSLASH, CHR ''n'', BSLASH, BSLASH, DQUOTE, CHR 0x0A] @ ''}''))"
proof -
  let ?v = "CObject [(''k'', CArray [CBool True, CNull]), (''s'', CString [CHR 0x0A, BSLASH])]"
  let ?t = "''{'' @ [CHR 0x0A, CHR 0x09] @ ''\"k\":'' @ [CHR 0x09] @ ''[true, null],'' @ [CHR 0x0A, CHR 0x09] @ ''\"s\":''
       @ [CHR 0x09, DQUOTE, BSLASH, CHR ''n'', BSLASH, BSLASH, DQUOTE, CHR 0x0A] @ ''}''"
  have t: "json_text sample_cjson_lib True 0 ?v = ?t"
    by (simp add: quoted_def escape_string_def escape_char_def tabs_def numeral_eq_Suc)
  show ?thesis
    using cjson_print_text [OF sample_printf_ok, of ?v True] unfolding t by (simp add: cJSON_Print_def INT_MAX_def)
qed

end
