(* ===== verification/CjsonText.thy ===== *)
theory CjsonText
  imports CjsonParseProps CjsonPrintProps
begin

text \<open>
  What the printer prints, the parser reads back, and no shorter part of it when it is an object. The
  numbers are up to the C library: \<open>number_ok\<close> says that \<open>strtod\<close> reads the text of one back.
\<close>

section \<open>The bytes left\<close>

definition rest :: "parse_buffer \<Rightarrow> string" where
  "rest b = drop (pb_offset b) (pb_content b)"

lemma rest_in: "rest b = c # s \<Longrightarrow> pb_offset b < length (pb_content b) \<and> pb_content b ! pb_offset b = c"
  unfolding rest_def by (metis drop_all hd_drop_conv_nth list.sel(1) list.simps(3) not_le)

lemma rest_length: "length (rest b) = length (pb_content b) - pb_offset b"
  by (simp add: rest_def)

lemma rest_advance [simp]: "rest (advance n b) = drop n (rest b)"
  by (simp add: rest_def advance_def add.commute)

lemma rest_depth [simp]: "rest (b\<lparr>pb_depth := d\<rparr>) = rest b"
  by (simp add: rest_def)

lemma next_is_rest: "next_is b c \<longleftrightarrow> (\<exists>s. rest b = c # s)"
proof (cases "rest b")
  case Nil
  then show ?thesis by (simp add: next_is_def byte_at_def rest_def)
next
  case (Cons d s)
  then show ?thesis using rest_in [OF Cons] by (auto simp: next_is_def byte_at_def)
qed

lemma next_starts_number_rest: "next_starts_number b \<longleftrightarrow> (\<exists>c s. rest b = c # s \<and> c \<in> set ''-0123456789'')"
proof (cases "rest b")
  case Nil
  then show ?thesis by (simp add: next_starts_number_def byte_at_def rest_def)
next
  case (Cons d s)
  then show ?thesis using rest_in [OF Cons] by (auto simp: next_starts_number_def byte_at_def)
qed

lemma reads_word_rest:
  assumes "w \<noteq> []"
  shows "reads_word b w \<longleftrightarrow> (\<exists>s. rest b = w @ s)"
proof -
  have "can_read b (length w) \<longleftrightarrow> length w \<le> length (rest b)"
    using assms by (cases w) (auto simp: can_read_def rest_def)
  moreover have "take (length w) (rest b) = w \<longleftrightarrow> (\<exists>s. rest b = w @ s)"
    by (metis append_eq_conv_conj append_take_drop_id)
  moreover have "length w \<le> length (rest b)" if "rest b = w @ s" for s using that by simp
  ultimately show ?thesis unfolding reads_word_def rest_def by blast
qed

lemma can_access_rest: "can_access_at_index b n \<longleftrightarrow> n < length (rest b)"
  by (auto simp: can_access_at_index_def rest_def)

lemma skip_nonblank: "rest b = c # s \<Longrightarrow> \<not> is_blank c \<Longrightarrow> buffer_skip_whitespace b = b"
  using rest_in [of b c s] by (simp add: buffer_skip_whitespace_def rest_def Let_def)

lemma skip_end: "rest b = [] \<Longrightarrow> buffer_skip_whitespace b = b"
  by (simp add: buffer_skip_whitespace_def can_access_rest)

section \<open>Strings\<close>

lemma hex_chars:
  assumes "m < 16"
  shows "hex_digit (hex_char m) = Some m \<and> hex_char m \<noteq> BSLASH \<and> hex_char m \<noteq> DQUOTE"
proof -
  have code: "(of_char (hex_char m) :: nat) = (if m < 10 then 48 + m else 87 + m)" using assms by (simp add: hex_char_def)
  then have "hex_char m \<noteq> BSLASH" "hex_char m \<noteq> DQUOTE" using assms by (auto split: if_splits)
  moreover have "hex_digit (hex_char m) = Some m" using code assms by simp
  ultimately show ?thesis by blast
qed

lemma char_nibbles: "(of_char c :: nat) div 16 < 16" "(of_char c :: nat) mod 16 < 16"
proof -
  have "(of_char c :: nat) < 256" by (rule nat_of_char_less_256)
  then have "(of_char c :: nat) < 16 * 16" by simp
  then show "(of_char c :: nat) div 16 < 16" by (rule less_mult_imp_div_less)
qed simp

lemma escape_end:
  "\<exists>k'. string_end (escape_char c @ cs) n k = string_end cs (n + length (escape_char c)) k'"
proof (cases "of_char c > (31 :: nat) \<and> c \<noteq> DQUOTE \<and> c \<noteq> BSLASH")
  case True
  then show ?thesis by (auto simp: escape_char_def)
next
  case False
  let ?h = "hex_char (of_char c div 16)" and ?l = "hex_char (of_char c mod 16)"
  have hex: "?h \<noteq> BSLASH" "?h \<noteq> DQUOTE" "?l \<noteq> BSLASH" "?l \<noteq> DQUOTE"
    using hex_chars [OF char_nibbles(1) [of c]] hex_chars [OF char_nibbles(2) [of c]] by blast+
  have "\<exists>t. escape_char c = BSLASH # t \<and> (t = print_u04x c \<or> (\<exists>d. t = [d]))"
    unfolding escape_char_def using False by (simp only: if_False) (simp split: if_split)
  then obtain t where t: "escape_char c = BSLASH # t" "t = print_u04x c \<or> (\<exists>d. t = [d])" by blast
  from t(2) show ?thesis
  proof
    assume "t = print_u04x c"
    then show ?thesis using t(1) hex by (simp add: print_u04x_def) blast
  next
    assume "\<exists>d. t = [d]"
    then show ?thesis using t(1) by auto
  qed
qed

lemma string_end_escaped: "\<exists>k'. string_end (escape_string s @ DQUOTE # t) n k = Some (n + length (escape_string s), k')"
proof (induction s arbitrary: n k)
  case (Cons c s)
  obtain k' where "string_end (escape_char c @ escape_string s @ DQUOTE # t) n k
      = string_end (escape_string s @ DQUOTE # t) (n + length (escape_char c)) k'"
    using escape_end by blast
  then show ?case using Cons [of "n + length (escape_char c)" k'] by (auto simp: escape_string_def)
qed (simp add: escape_string_def)

text \<open>The escape of a control character is read back.\<close>

lemma utf8_ascii: "n < 128 \<Longrightarrow> utf8_encode n = Some [char_of n]"
proof -
  assume n: "n < 128"
  have "n AND 127 = n" using n take_bit_eq_mask [of 7 n] by (simp add: mask_eq_exp_minus_1 take_bit_eq_mod)
  then show ?thesis using n by (simp add: utf8_encode_def)
qed

lemma parse_u04x:
  assumes "drop p s = BSLASH # print_u04x c @ t" "of_char c < (32 :: nat)" "p + 6 \<le> e"
  shows "parse_escape s p e (CHR ''u'') = Some ([c], 6)"
proof -
  have "drop (p + 2) s = CHR ''0'' # CHR ''0'' # hex_char (of_char c div 16) # hex_char (of_char c mod 16) # t"
    using arg_cong [OF assms(1), of "drop 2"] by (simp add: print_u04x_def add.commute)
  moreover have "hex_digit (CHR ''0'') = Some 0" by simp
  ultimately have "parse_hex4 (drop (p + 2) s) = of_char c"
    using hex_chars [OF char_nibbles(1) [of c]] hex_chars [OF char_nibbles(2) [of c]]
    by (simp add: parse_hex4_def del: hex_digit.simps)
  moreover have "utf8_encode (of_char c) = Some [c]" using utf8_ascii [of "of_char c"] assms(2) by simp
  ultimately show ?thesis
    using assms(2,3) by (simp add: parse_escape_def utf16_literal_to_utf8_def Let_def)
qed


lemma drop_byte: "drop p s = c # t \<Longrightarrow> p < length s \<and> s ! p = c \<and> drop (p + 1) s = t"
  by (metis Suc_eq_plus1 drop_all hd_drop_conv_nth list.sel(1,3) list.simps(3) not_le tl_drop drop_Suc)

lemma short_escape:
  assumes "has_short_escape c"
  shows "\<exists>d. escape_char c = [BSLASH, d] \<and> (\<forall>s p e. parse_escape s p e d = Some ([c], 2))"
  using assms by (auto simp: has_short_escape_def escape_char_def parse_escape_def)

lemma escape_char_cases:
  obtains "escape_char c = [c]" "c \<noteq> BSLASH" | "has_short_escape c"
    | "escape_char c = BSLASH # print_u04x c" "of_char c < (32 :: nat)"
proof (cases "of_char c > (31 :: nat) \<and> c \<noteq> DQUOTE \<and> c \<noteq> BSLASH")
  case True
  then show ?thesis by (intro that(1)) (simp_all add: escape_char_def)
next
  case False
  show ?thesis
  proof (cases "has_short_escape c")
    case no: False
    then have "c \<noteq> DQUOTE" "c \<noteq> BSLASH" "c \<noteq> CHR 0x08" "c \<noteq> CHR 0x0C" "c \<noteq> CHR 0x0A" "c \<noteq> CHR 0x0D" "c \<noteq> CHR 0x09"
      by (simp_all add: has_short_escape_def)
    then have "escape_char c = BSLASH # print_u04x c" "of_char c < (32 :: nat)"
      using False by (simp_all add: escape_char_def)
    then show ?thesis by (rule that(3))
  qed (rule that(2))
qed

lemma loop_char:
  assumes "drop p s = escape_char c @ t" "p + length (escape_char c) \<le> e" "e < length s"
  shows "string_loop s p e out = string_loop s (p + length (escape_char c)) e (out @ [c])"
proof (cases rule: escape_char_cases [of c])
  case 1
  then show ?thesis using assms drop_byte [of p s c t] by (simp add: string_loop.simps [of s p e out])
next
  case 2
  then obtain d where d: "escape_char c = [BSLASH, d]" "\<And>s p e. parse_escape s p e d = Some ([c], 2)"
    using short_escape by blast
  have "p < length s \<and> s ! p = BSLASH \<and> drop (p + 1) s = d # t" using drop_byte [of p s BSLASH "d # t"] assms(1) d(1) by simp
  moreover from this have "byte_at s (p + 1) = Some d" using drop_byte [of "p + 1" s d t] by (simp add: byte_at_def)
  ultimately show ?thesis using assms(2) d by (simp add: string_loop.simps [of s p e out])
next
  case 3
  have "p < length s \<and> s ! p = BSLASH \<and> drop (p + 1) s = print_u04x c @ t"
    using drop_byte [of p s BSLASH "print_u04x c @ t"] assms(1) 3(1) by simp
  moreover from this have "byte_at s (p + 1) = Some (CHR ''u'')"
    using drop_byte [of "p + 1" s "CHR ''u''" "tl (print_u04x c) @ t"] by (simp add: byte_at_def print_u04x_def)
  moreover have "parse_escape s p e (CHR ''u'') = Some ([c], 6)"
    using parse_u04x [of p s c t e] assms(1,2) 3 by (simp add: print_u04x_def)
  moreover have "length (escape_char c) = 6" using 3(1) by (simp add: print_u04x_def)
  ultimately show ?thesis using assms(2) by (simp add: string_loop.simps [of s p e out])
qed

lemma loop_escaped:
  "drop p s = escape_string u @ t \<Longrightarrow> e = p + length (escape_string u) \<Longrightarrow> e < length s \<Longrightarrow>
   string_loop s p e out = Some (True, out @ u, e)"
proof (induction u arbitrary: p out)
  case Nil
  then show ?case by (simp add: escape_string_def string_loop.simps [of s p p])
next
  case (Cons c u)
  have p: "drop p s = escape_char c @ escape_string u @ t" using Cons.prems(1) by (simp add: escape_string_def)
  have "drop (p + length (escape_char c)) s = escape_string u @ t"
    using arg_cong [OF p, of "drop (length (escape_char c))"] by (simp add: add.commute)
  moreover have e: "e = p + length (escape_char c) + length (escape_string u)" using Cons.prems(2) by (simp add: escape_string_def)
  ultimately have "string_loop s (p + length (escape_char c)) e (out @ [c]) = Some (True, (out @ [c]) @ u, e)"
    using Cons.IH Cons.prems(3) by blast
  then show ?case using loop_char [OF p, of e out] e Cons.prems(3) by simp
qed

lemma parse_string_quoted:
  assumes "rest b = quoted u @ t"
  shows "parse_string b = Some (Some u, advance (length (quoted u)) b)"
proof -
  let ?s = "pb_content b" and ?o = "pb_offset b"
  have o: "drop ?o ?s = DQUOTE # escape_string u @ DQUOTE # t" using assms by (simp add: rest_def quoted_def)
  then have head: "byte_at ?s ?o = Some DQUOTE" and tail: "drop (?o + 1) ?s = escape_string u @ DQUOTE # t"
    using drop_byte [OF o] by (simp_all add: byte_at_def)
  have in_bounds: "?o < length ?s" using drop_byte [OF o] by simp
  obtain k where k: "string_end (escape_string u @ DQUOTE # t) 0 0 = Some (length (escape_string u), k)"
    using string_end_escaped [of u t 0 0] by auto
  let ?e = "?o + 1 + length (escape_string u)"
  have "?e < length ?s" using arg_cong [OF tail, of length] by simp
  then have loop: "string_loop ?s (?o + 1) ?e [] = Some (True, u, ?e)" using loop_escaped [OF tail refl] by simp
  obtain r b' where "parse_string b = Some (r, b')" using parse_string_ok [OF in_bounds] by blast
  then have "\<not> ?e - ?o - k + 1 < length u + 1"
    using head tail k loop by (auto simp: parse_string_def Let_def split: if_splits)
  then show ?thesis
    using head tail k loop by (simp add: parse_string_def Let_def advance_def quoted_def)
qed


section \<open>Values\<close>

definition number_ok :: "cjson_lib \<Rightarrow> dbl \<Rightarrow> bool" where
  "number_ok lib d \<longleftrightarrow>
     (let t = number_text lib d in
      list_all is_number_char t \<and> length t \<le> 63 \<and> (\<exists>c u. t = c # u \<and> c \<in> set ''-0123456789'')
      \<and> cn_strtod lib t = (d, length t))"

fun printable :: "cjson_lib \<Rightarrow> cjson \<Rightarrow> bool" where
  "printable lib (CString s) \<longleftrightarrow> NUL \<notin> set s"
| "printable lib (CNumber d) \<longleftrightarrow> number_ok lib d"
| "printable lib (CArray xs) \<longleftrightarrow> list_all (printable lib) xs"
| "printable lib (CObject kvs) \<longleftrightarrow> list_all (\<lambda>kv. NUL \<notin> set (fst kv) \<and> printable lib (snd kv)) kvs"
| "printable lib _ \<longleftrightarrow> True"

abbreviation compact :: "cjson_lib \<Rightarrow> cjson \<Rightarrow> string" where
  "compact lib v \<equiv> json_text lib False 0 v"

text \<open>Without formatting the depth does not matter.\<close>

lemma text_depth:
  "json_text lib False d v = json_text lib False 0 v"
  "elements_text lib False d xs = elements_text lib False 0 xs"
  "members_text lib False d kvs = members_text lib False 0 kvs"
proof (induction lib v and lib xs and lib kvs arbitrary: d and d and d
    rule: print_value_print_elements_print_members.induct)
  case (5 lib xs)
  then show ?case by (metis json_text.simps(5))
next
  case (6 lib kvs)
  have "members_text lib False (d + 1) kvs = members_text lib False (0 + 1) kvs" using 6 by metis
  then show ?case by simp
next
  case (8 lib x xs)
  have "json_text lib False d x = json_text lib False 0 x" "elements_text lib False d xs = elements_text lib False 0 xs"
    using 8 by blast+
  then show ?case by simp
next
  case (10 lib key x kvs)
  have "json_text lib False d x = json_text lib False 0 x" "members_text lib False d kvs = members_text lib False 0 kvs"
    using 10 by blast+
  then show ?case by simp
qed simp_all

lemma compact_containers:
  "compact lib (CArray xs) = ''['' @ elements_text lib False 0 xs @ '']''"
  "compact lib (CObject kvs) = ''{'' @ members_text lib False 0 kvs @ ''}''"
  using text_depth(2) [of lib 1 xs] text_depth(3) [of lib 1 kvs] by simp_all

definition starts_value :: "char \<Rightarrow> bool" where
  "starts_value c \<longleftrightarrow> c \<in> set ''-0123456789ntf[{'' \<or> c = DQUOTE"

lemma starts_value_other: "starts_value c \<Longrightarrow> \<not> is_blank c \<and> c \<noteq> CHR '']'' \<and> c \<noteq> CHR ''}''"
  by (auto simp: starts_value_def is_blank_def)

lemma text_head:
  assumes "printable lib v"
  obtains c u where "compact lib v = c # u" "starts_value c"
proof -
  have "\<exists>c u. compact lib v = c # u \<and> starts_value c"
    using assms
    by (cases v) (auto simp: number_ok_def Let_def quoted_def starts_value_def simp del: json_text.simps(5,6)
        simp: compact_containers)
  then show ?thesis using that by blast
qed

text \<open>What may follow a value: not a character of a number.\<close>

definition stops :: "string \<Rightarrow> bool" where
  "stops t \<longleftrightarrow> t = [] \<or> \<not> is_number_char (hd t)"

lemma parse_number_text:
  assumes "number_ok lib d" "rest b = number_text lib d @ t" "stops t"
  shows "parse_number lib b = Some (Some (CNumber d), advance (length (number_text lib d)) b)"
proof -
  let ?n = "number_text lib d"
  have n: "list_all is_number_char ?n" "length ?n \<le> 63" "?n \<noteq> []" "cn_strtod lib ?n = (d, length ?n)"
    using assms(1) by (auto simp: number_ok_def Let_def)
  have "takeWhile is_number_char (take 63 (rest b)) = ?n"
  proof -
    have "take 63 (rest b) = ?n @ take (63 - length ?n) t" using n(2) assms(2) by simp
    moreover have "takeWhile is_number_char (take k t) = []" for k
      using assms(3) by (cases t; cases k) (auto simp: stops_def)
    ultimately show ?thesis using n(1) by (simp add: takeWhile_append2 list_all_iff)
  qed
  then show ?thesis using n(3,4) by (simp add: parse_number_def rest_def Let_def)
qed

lemma value_literals:
  "rest b = ''null'' @ t \<Longrightarrow> parse_value lib rec b = Some (Some CNull, advance 4 b)"
  "rest b = ''true'' @ t \<Longrightarrow> parse_value lib rec b = Some (Some (CBool True), advance 4 b)"
  "rest b = ''false'' @ t \<Longrightarrow> parse_value lib rec b = Some (Some (CBool False), advance 5 b)"
  by (simp_all add: parse_value_def reads_word_rest)

lemma value_string:
  assumes "rest b = quoted u @ t" "NUL \<notin> set u"
  shows "parse_value lib rec b = Some (Some (CString u), advance (length (quoted u)) b)"
proof -
  have "rest b = DQUOTE # escape_string u @ DQUOTE # t" using assms(1) by (simp add: quoted_def)
  then show ?thesis
    using parse_string_quoted [OF assms(1)] assms(2)
    by (simp add: parse_value_def reads_word_rest next_is_rest)
qed

lemma value_number:
  assumes "number_ok lib d" "rest b = number_text lib d @ t" "stops t"
  shows "parse_value lib rec b = Some (Some (CNumber d), advance (length (number_text lib d)) b)"
proof -
  obtain c u where c: "rest b = c # u" "c \<in> set ''-0123456789''" using assms(1,2) by (auto simp: number_ok_def Let_def)
  then have "\<not> reads_word b ''null''" "\<not> reads_word b ''true''" "\<not> reads_word b ''false''" "\<not> next_is b DQUOTE" "next_starts_number b"
    by (auto simp: reads_word_rest next_is_rest next_starts_number_rest)
  then show ?thesis using parse_number_text [OF assms] by (simp add: parse_value_def)
qed

lemma value_array: "rest b = CHR ''['' # t \<Longrightarrow> parse_value lib rec b = parse_array rec b"
  by (simp add: parse_value_def reads_word_rest next_is_rest next_starts_number_rest)

lemma value_object: "rest b = CHR ''{'' # t \<Longrightarrow> parse_value lib rec b = parse_object rec b"
  by (simp add: parse_value_def reads_word_rest next_is_rest next_starts_number_rest)


section \<open>The round trip\<close>

definition reads_value :: "cjson_lib \<Rightarrow> cjson \<Rightarrow> bool" where
  "reads_value lib v \<longleftrightarrow>
     (\<forall>fuel b t. rest b = compact lib v @ t \<longrightarrow> stops t \<longrightarrow> pb_depth b + cj_depth v \<le> CJSON_NESTING_LIMIT
        \<longrightarrow> 2 * length (rest b) + 2 \<le> fuel
        \<longrightarrow> parse_task fuel lib ParseValue b = Some (Some v, advance (length (compact lib v)) b))"

lemma reads_valueD:
  "reads_value lib v \<Longrightarrow> rest b = compact lib v @ t \<Longrightarrow> stops t \<Longrightarrow> pb_depth b + cj_depth v \<le> CJSON_NESTING_LIMIT \<Longrightarrow>
   2 * length (rest b) + 2 \<le> fuel \<Longrightarrow> parse_task fuel lib ParseValue b = Some (Some v, advance (length (compact lib v)) b)"
  by (simp add: reads_value_def)

definition reads_items :: "cjson_lib \<Rightarrow> cjson list \<Rightarrow> bool" where
  "reads_items lib xs \<longleftrightarrow>
     (\<forall>fuel b c ys t. xs \<noteq> [] \<longrightarrow> rest b = c # elements_text lib False 0 xs @ CHR '']'' # t \<longrightarrow> 0 < pb_depth b
        \<longrightarrow> (\<forall>x \<in> set xs. pb_depth b + cj_depth x \<le> CJSON_NESTING_LIMIT) \<longrightarrow> 2 * length (rest b) + 1 \<le> fuel
        \<longrightarrow> parse_task fuel lib (ParseItems ys) b
            = Some (Some (CArray (ys @ xs)),
                    advance (length (elements_text lib False 0 xs) + 2) (b\<lparr>pb_depth := pb_depth b - 1\<rparr>)))"

definition reads_members :: "cjson_lib \<Rightarrow> (string \<times> cjson) list \<Rightarrow> bool" where
  "reads_members lib kvs \<longleftrightarrow>
     (\<forall>fuel b c ys t. kvs \<noteq> [] \<longrightarrow> rest b = c # members_text lib False 0 kvs @ CHR ''}'' # t \<longrightarrow> 0 < pb_depth b
        \<longrightarrow> (\<forall>kv \<in> set kvs. pb_depth b + cj_depth (snd kv) \<le> CJSON_NESTING_LIMIT) \<longrightarrow> 2 * length (rest b) + 1 \<le> fuel
        \<longrightarrow> parse_task fuel lib (ParseMembers ys) b
            = Some (Some (CObject (ys @ kvs)),
                    advance (length (members_text lib False 0 kvs) + 2) (b\<lparr>pb_depth := pb_depth b - 1\<rparr>)))"

lemma reads_itemsD:
  "reads_items lib xs \<Longrightarrow> xs \<noteq> [] \<Longrightarrow> rest b = c # elements_text lib False 0 xs @ CHR '']'' # t \<Longrightarrow> 0 < pb_depth b \<Longrightarrow>
   \<forall>x \<in> set xs. pb_depth b + cj_depth x \<le> CJSON_NESTING_LIMIT \<Longrightarrow> 2 * length (rest b) + 1 \<le> fuel \<Longrightarrow>
   parse_task fuel lib (ParseItems ys) b
   = Some (Some (CArray (ys @ xs)), advance (length (elements_text lib False 0 xs) + 2) (b\<lparr>pb_depth := pb_depth b - 1\<rparr>))"
  unfolding reads_items_def by blast

lemma reads_membersD:
  "reads_members lib kvs \<Longrightarrow> kvs \<noteq> [] \<Longrightarrow> rest b = c # members_text lib False 0 kvs @ CHR ''}'' # t \<Longrightarrow> 0 < pb_depth b \<Longrightarrow>
   \<forall>kv \<in> set kvs. pb_depth b + cj_depth (snd kv) \<le> CJSON_NESTING_LIMIT \<Longrightarrow> 2 * length (rest b) + 1 \<le> fuel \<Longrightarrow>
   parse_task fuel lib (ParseMembers ys) b
   = Some (Some (CObject (ys @ kvs)), advance (length (members_text lib False 0 kvs) + 2) (b\<lparr>pb_depth := pb_depth b - 1\<rparr>))"
  unfolding reads_members_def by blast

lemma advance_advance [simp]: "advance m (advance n b) = advance (n + m) b"
  by (simp add: advance_def)

lemma advance_depth: "(advance n b)\<lparr>pb_depth := d\<rparr> = advance n (b\<lparr>pb_depth := d\<rparr>)"
  by (simp add: advance_def)

lemma punctuation [simp]:
  "\<not> is_blank (CHR '','')" "\<not> is_blank (CHR '']'')" "\<not> is_blank (CHR ''}'')" "\<not> is_blank (CHR '':'')" "\<not> is_blank DQUOTE"
  "stops (CHR '','' # t)" "stops (CHR '']'' # t)" "stops (CHR ''}'' # t)"
  by (simp_all add: is_blank_def stops_def is_number_char_def)

lemma reads_items_step:
  assumes v: "printable lib x" "reads_value lib x" and xs: "list_all (printable lib) xs" "reads_items lib xs"
  shows "reads_items lib (x # xs)"
  unfolding reads_items_def
proof (intro allI impI)
  fix fuel b c ys t
  let ?x = "compact lib x" and ?b1 = "advance 1 b"
  assume r: "rest b = c # elements_text lib False 0 (x # xs) @ CHR '']'' # t" and d: "0 < pb_depth b"
    "\<forall>y \<in> set (x # xs). pb_depth b + cj_depth y \<le> CJSON_NESTING_LIMIT" and fuel: "2 * length (rest b) + 1 \<le> fuel"
  obtain n where n: "fuel = Suc n" using fuel by (cases fuel) simp_all
  obtain h u where h: "?x = h # u" "starts_value h" by (rule text_head [OF v(1)])
  let ?more = "(if xs = [] then [] else '','') @ elements_text lib False 0 xs @ CHR '']'' # t"
  have r1: "rest ?b1 = ?x @ ?more" using r by simp
  have skip1: "buffer_skip_whitespace ?b1 = ?b1"
    using r1 h starts_value_other by (intro skip_nonblank [of _ h "u @ ?more"]) simp_all
  have stops: "stops ?more" by simp
  have parsed: "parse_task n lib ParseValue ?b1 = Some (Some x, advance (1 + length ?x) b)"
    using reads_valueD [OF v(2) r1 stops, of n] d fuel n r by simp
  let ?b2 = "advance (1 + length ?x) b"
  have r2: "rest ?b2 = ?more" by (simp add: r)
  show "parse_task fuel lib (ParseItems ys) b
      = Some (Some (CArray (ys @ x # xs)),
              advance (length (elements_text lib False 0 (x # xs)) + 2) (b\<lparr>pb_depth := pb_depth b - 1\<rparr>))"
  proof (cases "xs = []")
    case True
    then have "rest ?b2 = CHR '']'' # t" using r2 by simp
    moreover from this have "buffer_skip_whitespace ?b2 = ?b2" by (rule skip_nonblank) simp
    ultimately show ?thesis
      using True n skip1 parsed by (simp add: parse_items_def Let_def next_is_rest advance_depth)
  next
    case False
    then have r2': "rest ?b2 = CHR '','' # elements_text lib False 0 xs @ CHR '']'' # t" using r2 by simp
    then have skip2: "buffer_skip_whitespace ?b2 = ?b2" by (rule skip_nonblank) simp
    have "length (rest ?b2) < length (rest b)" using r h by simp
    then have "2 * length (rest ?b2) + 1 \<le> n" using fuel n by simp
    then have "parse_task n lib (ParseItems (ys @ [x])) ?b2
        = Some (Some (CArray ((ys @ [x]) @ xs)),
                advance (length (elements_text lib False 0 xs) + 2) (?b2\<lparr>pb_depth := pb_depth ?b2 - 1\<rparr>))"
      by (intro reads_itemsD [OF xs(2) False r2']) (use d in simp_all)
    then show ?thesis
      using False n skip1 parsed skip2 r2' by (simp add: parse_items_def Let_def next_is_rest advance_depth add.commute add.left_commute)
  qed
qed


lemma reads_members_step:
  assumes k: "NUL \<notin> set key" and v: "printable lib x" "reads_value lib x"
    and kvs: "list_all (\<lambda>kv. NUL \<notin> set (fst kv) \<and> printable lib (snd kv)) kvs" "reads_members lib kvs"
  shows "reads_members lib ((key, x) # kvs)"
  unfolding reads_members_def
proof (intro allI impI)
  fix fuel b c ys t
  let ?x = "compact lib x" and ?k = "quoted key" and ?b1 = "advance 1 b"
  assume r: "rest b = c # members_text lib False 0 ((key, x) # kvs) @ CHR ''}'' # t" and d: "0 < pb_depth b"
    "\<forall>kv \<in> set ((key, x) # kvs). pb_depth b + cj_depth (snd kv) \<le> CJSON_NESTING_LIMIT" and fuel: "2 * length (rest b) + 1 \<le> fuel"
  obtain n where n: "fuel = Suc n" using fuel by (cases fuel) simp_all
  obtain h u where h: "?x = h # u" "starts_value h" by (rule text_head [OF v(1)])
  let ?more = "(if kvs = [] then [] else '','') @ members_text lib False 0 kvs @ CHR ''}'' # t"
  have r1: "rest ?b1 = ?k @ CHR '':'' # ?x @ ?more" using r by simp
  then have "rest ?b1 = DQUOTE # (escape_string key @ [DQUOTE]) @ CHR '':'' # ?x @ ?more" by (simp add: quoted_def)
  then have skip1: "buffer_skip_whitespace ?b1 = ?b1" by (rule skip_nonblank) simp
  have key: "parse_string ?b1 = Some (Some key, advance (1 + length ?k) b)" using parse_string_quoted [OF r1] by simp
  let ?b2 = "advance (1 + length ?k) b"
  have r2: "rest ?b2 = CHR '':'' # ?x @ ?more" by (simp add: r)
  then have skip2: "buffer_skip_whitespace ?b2 = ?b2" by (rule skip_nonblank) simp
  let ?b3 = "advance (2 + length ?k) b"
  have r3: "rest ?b3 = ?x @ ?more" by (simp add: r)
  have skip3: "buffer_skip_whitespace ?b3 = ?b3"
    using r3 h starts_value_other by (intro skip_nonblank [of _ h "u @ ?more"]) simp_all
  have stops: "stops ?more" by simp
  have parsed: "parse_task n lib ParseValue ?b3 = Some (Some x, advance (2 + length ?k + length ?x) b)"
    using reads_valueD [OF v(2) r3 stops, of n] d fuel n r by simp
  let ?b4 = "advance (2 + length ?k + length ?x) b"
  have r4: "rest ?b4 = ?more" by (simp add: r)
  have can: "can_access_at_index b 1" by (simp add: can_access_rest r quoted_def)
  have head: "parse_members (parse_task n lib) ys b = parse_member_value (parse_task n lib) ys key ?b2"
    using can skip1 key skip2 r2 by (simp add: parse_members_def Let_def next_is_rest)
  have next3: "advance 1 ?b2 = ?b3" by simp
  show "parse_task fuel lib (ParseMembers ys) b
      = Some (Some (CObject (ys @ (key, x) # kvs)),
              advance (length (members_text lib False 0 ((key, x) # kvs)) + 2) (b\<lparr>pb_depth := pb_depth b - 1\<rparr>))"
  proof (cases "kvs = []")
    case True
    then have "rest ?b4 = CHR ''}'' # t" using r4 by simp
    moreover from this have "buffer_skip_whitespace ?b4 = ?b4" by (rule skip_nonblank) simp
    ultimately show ?thesis
      using True n skip3 parsed k
      by (simp add: head parse_member_value_def Let_def next_is_rest advance_depth next3 cstr_id add.commute add.left_commute)
  next
    case False
    then have r4': "rest ?b4 = CHR '','' # members_text lib False 0 kvs @ CHR ''}'' # t" using r4 by simp
    then have skip4: "buffer_skip_whitespace ?b4 = ?b4" by (rule skip_nonblank) simp
    have "length (rest ?b4) < length (rest b)" using r h by simp
    then have "2 * length (rest ?b4) + 1 \<le> n" using fuel n by simp
    then have "parse_task n lib (ParseMembers (ys @ [(key, x)])) ?b4
        = Some (Some (CObject ((ys @ [(key, x)]) @ kvs)),
                advance (length (members_text lib False 0 kvs) + 2) (?b4\<lparr>pb_depth := pb_depth ?b4 - 1\<rparr>))"
      by (intro reads_membersD [OF kvs(2) False r4']) (use d in simp_all)
    then show ?thesis
      using False n skip3 parsed skip4 r4' k
      by (simp add: head parse_member_value_def Let_def next_is_rest advance_depth next3 cstr_id add.commute add.left_commute)
  qed
qed


lemma back_in_front [simp]: "step_back (advance (Suc 0) b) = b"
  by (simp add: step_back_def advance_def)

lemma array_depth: "x \<in> set xs \<Longrightarrow> cj_depth x < cj_depth (CArray xs)"
  by (induction xs) (auto simp: less_Suc_eq_le)

lemma object_depth: "kv \<in> set kvs \<Longrightarrow> cj_depth (snd kv) < cj_depth (CObject kvs)"
  by (induction kvs) (auto simp: less_Suc_eq_le)

lemma reads_array:
  assumes "list_all (printable lib) xs" "reads_items lib xs"
  shows "reads_value lib (CArray xs)"
  unfolding reads_value_def
proof (intro allI impI)
  fix fuel b t
  assume r: "rest b = compact lib (CArray xs) @ t" and d: "pb_depth b + cj_depth (CArray xs) \<le> CJSON_NESTING_LIMIT"
    and fuel: "2 * length (rest b) + 2 \<le> fuel"
  obtain n where n: "fuel = Suc n" using fuel by (cases fuel) simp_all
  let ?d = "b\<lparr>pb_depth := pb_depth b + 1\<rparr>"
  have r': "rest b = CHR ''['' # elements_text lib False 0 xs @ CHR '']'' # t" using r by (simp only: compact_containers) simp
  have head: "byte_at (pb_content b) (pb_offset b) = Some (CHR ''['')" using rest_in [OF r'] by (simp add: byte_at_def)
  have limit: "\<not> CJSON_NESTING_LIMIT \<le> pb_depth b" using d by simp
  have size: "length (compact lib (CArray xs)) = length (elements_text lib False 0 xs) + 2"
    by (simp only: compact_containers) simp
  show "parse_task fuel lib ParseValue b = Some (Some (CArray xs), advance (length (compact lib (CArray xs))) b)"
  proof (cases xs)
    case Nil
    then have "rest (advance 1 ?d) = CHR '']'' # t" using r' by simp
    moreover from this have "buffer_skip_whitespace (advance 1 ?d) = advance 1 ?d" by (rule skip_nonblank) simp
    ultimately show ?thesis
      using n value_array [OF r'] limit head Nil size
      by (simp add: parse_array_def Let_def next_is_rest advance_depth del: json_text.simps)
  next
    case (Cons x xs')
    then obtain h u where h: "compact lib x = h # u" "starts_value h" using text_head [of lib x] assms(1) by auto
    then have r1: "rest (advance 1 ?d) = h # tl (elements_text lib False 0 xs @ CHR '']'' # t)" using r' Cons by simp
    have skip: "buffer_skip_whitespace (advance 1 ?d) = advance 1 ?d"
      by (rule skip_nonblank [OF r1]) (use starts_value_other [OF h(2)] in simp)
    have "parse_task n lib (ParseItems []) ?d
        = Some (Some (CArray ([] @ xs)), advance (length (elements_text lib False 0 xs) + 2) (?d\<lparr>pb_depth := pb_depth ?d - 1\<rparr>))"
    proof (rule reads_itemsD [OF assms(2)])
      show "rest ?d = CHR ''['' # elements_text lib False 0 xs @ CHR '']'' # t" using r' by simp
      show "\<forall>x \<in> set xs. pb_depth ?d + cj_depth x \<le> CJSON_NESTING_LIMIT"
      proof
        fix y assume "y \<in> set xs"
        then show "pb_depth ?d + cj_depth y \<le> CJSON_NESTING_LIMIT" using array_depth [of y xs] d by simp
      qed
    qed (use Cons fuel n in simp_all)
    then show ?thesis
      using n value_array [OF r'] limit head size skip r1 starts_value_other [OF h(2)]
      by (simp add: parse_array_def Let_def next_is_rest can_access_rest del: json_text.simps)
  qed
qed

lemma reads_object:
  assumes "list_all (\<lambda>kv. NUL \<notin> set (fst kv) \<and> printable lib (snd kv)) kvs" "reads_members lib kvs"
  shows "reads_value lib (CObject kvs)"
  unfolding reads_value_def
proof (intro allI impI)
  fix fuel b t
  assume r: "rest b = compact lib (CObject kvs) @ t" and d: "pb_depth b + cj_depth (CObject kvs) \<le> CJSON_NESTING_LIMIT"
    and fuel: "2 * length (rest b) + 2 \<le> fuel"
  obtain n where n: "fuel = Suc n" using fuel by (cases fuel) simp_all
  let ?d = "b\<lparr>pb_depth := pb_depth b + 1\<rparr>"
  have r': "rest b = CHR ''{'' # members_text lib False 0 kvs @ CHR ''}'' # t" using r by (simp only: compact_containers) simp
  have head: "next_is ?d (CHR ''{'')" using r' by (simp add: next_is_rest)
  have limit: "\<not> CJSON_NESTING_LIMIT \<le> pb_depth b" using d by simp
  have size: "length (compact lib (CObject kvs)) = length (members_text lib False 0 kvs) + 2"
    by (simp only: compact_containers) simp
  show "parse_task fuel lib ParseValue b = Some (Some (CObject kvs), advance (length (compact lib (CObject kvs))) b)"
  proof (cases kvs)
    case Nil
    then have "rest (advance 1 ?d) = CHR ''}'' # t" using r' by simp
    moreover from this have "buffer_skip_whitespace (advance 1 ?d) = advance 1 ?d" by (rule skip_nonblank) simp
    ultimately show ?thesis
      using n value_object [OF r'] limit head Nil size
      by (simp add: parse_object_def Let_def next_is_rest advance_depth del: json_text.simps)
  next
    case (Cons kv kvs')
    then have r1: "rest (advance 1 ?d) = DQUOTE # tl (members_text lib False 0 kvs @ CHR ''}'' # t)"
      using r' by (cases kv) (simp add: quoted_def)
    then have skip: "buffer_skip_whitespace (advance 1 ?d) = advance 1 ?d" by (rule skip_nonblank) simp
    have "parse_task n lib (ParseMembers []) ?d
        = Some (Some (CObject ([] @ kvs)), advance (length (members_text lib False 0 kvs) + 2) (?d\<lparr>pb_depth := pb_depth ?d - 1\<rparr>))"
    proof (rule reads_membersD [OF assms(2)])
      show "rest ?d = CHR ''{'' # members_text lib False 0 kvs @ CHR ''}'' # t" using r' by simp
      show "\<forall>kv \<in> set kvs. pb_depth ?d + cj_depth (snd kv) \<le> CJSON_NESTING_LIMIT"
      proof
        fix y assume "y \<in> set kvs"
        then show "pb_depth ?d + cj_depth (snd y) \<le> CJSON_NESTING_LIMIT" using object_depth [of y kvs] d by simp
      qed
    qed (use Cons fuel n in simp_all)
    then show ?thesis
      using n value_object [OF r'] limit head size skip r1
      by (simp add: parse_object_def Let_def next_is_rest can_access_rest del: json_text.simps)
  qed
qed


lemma reads_printable:
  "printable lib v \<Longrightarrow> reads_value lib v"
  "list_all (printable lib) xs \<Longrightarrow> reads_items lib xs"
  "list_all (\<lambda>kv. NUL \<notin> set (fst kv) \<and> printable lib (snd kv)) kvs \<Longrightarrow> reads_members lib kvs"
proof (induction lib v and lib xs and lib kvs rule: print_value_print_elements_print_members.induct)
  case (1 lib)
  show ?case
    unfolding reads_value_def
  proof (intro allI impI)
    fix fuel b t
    assume "rest b = compact lib CNull @ t" "2 * length (rest b) + 2 \<le> fuel"
    then show "parse_task fuel lib ParseValue b = Some (Some CNull, advance (length (compact lib CNull)) b)"
      using value_literals(1) [of b t] by (cases fuel) simp_all
  qed
next
  case (2 lib x)
  show ?case
    unfolding reads_value_def
  proof (intro allI impI)
    fix fuel b t
    assume "rest b = compact lib (CBool x) @ t" "2 * length (rest b) + 2 \<le> fuel"
    then show "parse_task fuel lib ParseValue b = Some (Some (CBool x), advance (length (compact lib (CBool x))) b)"
      using value_literals(2,3) [of b t] by (cases fuel; cases x) simp_all
  qed
next
  case (3 lib d)
  show ?case
    unfolding reads_value_def
  proof (intro allI impI)
    fix fuel b t
    assume "rest b = compact lib (CNumber d) @ t" "stops t" "2 * length (rest b) + 2 \<le> fuel"
    then show "parse_task fuel lib ParseValue b = Some (Some (CNumber d), advance (length (compact lib (CNumber d))) b)"
      using value_number [of lib d b t] 3 by (cases fuel) simp_all
  qed
next
  case (4 lib s)
  show ?case
    unfolding reads_value_def
  proof (intro allI impI)
    fix fuel b t
    assume "rest b = compact lib (CString s) @ t" "2 * length (rest b) + 2 \<le> fuel"
    then show "parse_task fuel lib ParseValue b = Some (Some (CString s), advance (length (compact lib (CString s))) b)"
      using value_string [of b s t] 4 by (cases fuel) simp_all
  qed
next
  case (5 lib xs)
  then show ?case using reads_array by simp
next
  case (6 lib kvs)
  then show ?case using reads_object by simp
next
  case (8 lib x xs)
  then show ?case using reads_items_step by simp
next
  case (10 lib key x kvs)
  then show ?case using reads_members_step by simp
qed (simp_all add: reads_items_def reads_members_def)

lemma compact_no_bom:
  assumes "printable lib v"
  shows "skip_utf8_bom \<lparr>pb_content = compact lib v, pb_offset = 0, pb_depth = 0\<rparr>
    = \<lparr>pb_content = compact lib v, pb_offset = 0, pb_depth = 0\<rparr>"
proof -
  obtain h u where "compact lib v = h # u" "starts_value h" by (rule text_head [OF assms])
  moreover have "h \<noteq> CHR 0xEF" using calculation(2) by (auto simp: starts_value_def)
  ultimately show ?thesis by (simp add: skip_utf8_bom_def)
qed

lemma parse_compact:
  assumes "printable lib v" "cj_depth v \<le> CJSON_NESTING_LIMIT"
  shows "cJSON_ParseWithLengthOpts lib (compact lib v) False = Some (Inr (v, length (compact lib v)))"
proof -
  let ?b = "\<lparr>pb_content = compact lib v, pb_offset = 0, pb_depth = 0\<rparr>"
  obtain h u where h: "compact lib v = h # u" "starts_value h" by (rule text_head [OF assms(1)])
  have r: "rest ?b = compact lib v @ []" by (simp add: rest_def)
  have "buffer_skip_whitespace ?b = ?b"
    by (rule skip_nonblank [of _ h u]) (use r h starts_value_other in simp_all)
  moreover have "parse_task (parse_fuel (compact lib v)) lib ParseValue ?b = Some (Some v, advance (length (compact lib v)) ?b)"
    by (rule reads_valueD [OF reads_printable(1) [OF assms(1)] r])
       (use assms(2) in \<open>simp_all add: stops_def parse_fuel_def rest_def\<close>)
  ultimately show ?thesis using h(1) compact_no_bom [OF assms(1)] by (simp add: cJSON_ParseWithLengthOpts_def)
qed

end
