(* ===== verification/CjsonPrefix.thy ===== *)
theory CjsonPrefix
  imports CjsonText
begin

text \<open>
  A document goes on behind a value without changing it: what the parser reads in a buffer, it reads in any
  extension of it, a number only if it has been delimited. So no strict part of the text of an object parses.
\<close>

definition ext :: "string \<Rightarrow> parse_buffer \<Rightarrow> parse_buffer" where
  "ext u b = b\<lparr>pb_content := pb_content b @ u\<rparr>"

lemma buffer_ext_simps [simp]:
  "pb_content (ext u b) = pb_content b @ u" "pb_offset (ext u b) = pb_offset b" "pb_depth (ext u b) = pb_depth b"
  "advance n (ext u b) = ext u (advance n b)" "step_back (ext u b) = ext u (step_back b)"
  "(ext u b)\<lparr>pb_depth := d\<rparr> = ext u (b\<lparr>pb_depth := d\<rparr>)" "(ext u b)\<lparr>pb_offset := n\<rparr> = ext u (b\<lparr>pb_offset := n\<rparr>)"
  by (simp_all add: ext_def advance_def step_back_def)

lemma rest_ext: "pb_offset b \<le> length (pb_content b) \<Longrightarrow> rest (ext u b) = rest b @ u"
  by (simp add: rest_def)

lemma rest_bound: "rest b = c # s \<Longrightarrow> pb_offset b < length (pb_content b)"
  using rest_in by blast

lemma next_is_ext: "pb_offset b < length (pb_content b) \<Longrightarrow> next_is (ext u b) c \<longleftrightarrow> next_is b c"
  by (simp add: next_is_def byte_at_def nth_append)

section \<open>Blanks\<close>

definition starts :: "parse_buffer \<Rightarrow> bool" where
  "starts b \<longleftrightarrow> (\<exists>c s. rest b = c # s \<and> \<not> is_blank c)"

lemma skip_cases:
  obtains "rest b = []" "buffer_skip_whitespace b = b"
    | c where "rest b \<noteq> []" "rest (buffer_skip_whitespace b) = [c]" "is_blank c" "\<forall>c \<in> set (rest b). is_blank c"
    | n c s where "buffer_skip_whitespace b = advance n b" "n < length (rest b)" "drop n (rest b) = c # s" "\<not> is_blank c"
      "n = length (takeWhile is_blank (rest b))"
proof -
  let ?n = "length (takeWhile is_blank (rest b))"
  show ?thesis
  proof (cases "rest b = []")
    case True
    then show ?thesis using skip_end that(1) by blast
  next
    case ne: False
    then have access: "can_access_at_index b 0" by (simp add: can_access_rest)
    show ?thesis
    proof (cases "\<forall>c \<in> set (rest b). is_blank c")
      case True
      then have "takeWhile is_blank (drop (pb_offset b) (pb_content b)) = drop (pb_offset b) (pb_content b)"
        by (simp add: rest_def takeWhile_eq_all_conv)
      from arg_cong [OF this, of length]
      have "length (takeWhile is_blank (drop (pb_offset b) (pb_content b))) = length (pb_content b) - pb_offset b" by simp
      moreover have len: "length (rest b) = length (pb_content b) - pb_offset b" "0 < length (rest b)"
        using ne rest_length [of b] length_greater_0_conv [of "rest b"] by blast+
      ultimately have "buffer_skip_whitespace b = b\<lparr>pb_offset := length (pb_content b) - 1\<rparr>"
        using access by (simp add: buffer_skip_whitespace_def Let_def)
      moreover have "drop (length (pb_content b) - 1) (pb_content b) = [last (rest b)]"
      proof -
        have "pb_content b \<noteq> []" "last (rest b) = last (pb_content b)" using ne by (auto simp: rest_def last_drop)
        then show ?thesis by (metis append_butlast_last_id append_eq_conv_conj length_butlast)
      qed
      ultimately have "rest (buffer_skip_whitespace b) = [last (rest b)]" by (simp add: rest_def)
      then show ?thesis using that(2) ne True by simp
    next
      case False
      then have "takeWhile is_blank (rest b) \<noteq> rest b" by (simp add: takeWhile_eq_all_conv)
      then have less: "?n < length (rest b)"
        using length_takeWhile_le [of is_blank "rest b"] takeWhile_dropWhile_id [of is_blank "rest b"]
        by (metis append_eq_conv_conj le_neq_implies_less take_all_iff order_refl)
      then have "buffer_skip_whitespace b = advance ?n b"
        using access by (auto simp: buffer_skip_whitespace_def advance_def rest_def Let_def)
      moreover have "drop ?n (rest b) = rest b ! ?n # drop (Suc ?n) (rest b)" "\<not> is_blank (rest b ! ?n)"
        using less nth_length_takeWhile [OF less] by (simp_all add: Cons_nth_drop_Suc)
      ultimately show ?thesis using that(3) less by blast
    qed
  qed
qed

lemma skip_idem: "buffer_skip_whitespace (buffer_skip_whitespace b) = buffer_skip_whitespace b"
proof (cases rule: skip_cases [of b])
  case (2 c)
  have "rest (buffer_skip_whitespace b) = [c]" by (rule 2(2))
  then have "takeWhile is_blank (rest (buffer_skip_whitespace b)) = [c]" "can_access_at_index (buffer_skip_whitespace b) 0"
    using 2(3) by (simp_all add: can_access_rest)
  moreover have "pb_offset (buffer_skip_whitespace b) + 1 = length (pb_content b)"
    using arg_cong [OF 2(2), of length] rest_bound [OF 2(2)] by (simp add: rest_length)
  ultimately show ?thesis
    by (subst buffer_skip_whitespace_def) (simp add: rest_def Let_def)
next
  case (3 n c s)
  have "rest (advance n b) = c # s" using 3(3) by simp
  from skip_nonblank [OF this 3(4)] show ?thesis using 3(1) by (simp only:)
qed simp

lemma skip_ext:
  assumes "starts (buffer_skip_whitespace b)"
  shows "buffer_skip_whitespace (ext u b) = ext u (buffer_skip_whitespace b)"
proof (cases rule: skip_cases [of b])
  case 1
  then show ?thesis using assms by (simp add: starts_def)
next
  case (2 c)
  then show ?thesis using assms by (auto simp: starts_def)
next
  case (3 n c s)
  then have "pb_offset b < length (pb_content b)" using rest_length [of b] by simp
  then have r: "rest (ext u b) = rest b @ u" by (simp add: rest_ext)
  have "takeWhile is_blank (rest b @ u) = takeWhile is_blank (rest b)"
    using 3(2,3,4) by (metis in_set_dropD list.set_intros(1) takeWhile_append1)
  moreover have c: "c \<in> set (rest b)" using 3(3) by (metis in_set_dropD list.set_intros(1))
  show ?thesis
  proof (cases rule: skip_cases [of "ext u b"])
    case 1
    then show ?thesis using r c by simp
  next
    case (2 d)
    then show ?thesis using r c 3(4) by auto
  next
    case (3 m d t)
    then show ?thesis using r \<open>takeWhile _ _ = _\<close> \<open>n = _\<close> \<open>_ = advance n b\<close> by simp
  qed
qed

section \<open>Strings and numbers\<close>

lemma string_end_ext: "string_end cs n k = Some r \<Longrightarrow> string_end (cs @ u) n k = Some r"
  by (induction cs n k rule: string_end.induct) (auto split: if_splits list.splits)

lemma hex4_ext: "p + 4 \<le> length s \<Longrightarrow> parse_hex4 (drop p (s @ u)) = parse_hex4 (drop p s)"
  by (simp add: parse_hex4_def)

lemma escape_ext: "e \<le> length s \<Longrightarrow> parse_escape (s @ u) p e c = parse_escape s p e c"
proof -
  assume e: "e \<le> length s"
  have "utf16_literal_to_utf8 (s @ u) p e = utf16_literal_to_utf8 s p e"
  proof (cases "e - p < 6")
    case True
    then show ?thesis by (simp add: utf16_literal_to_utf8_def)
  next
    case False
    then have first: "parse_hex4 (drop (p + 2) (s @ u)) = parse_hex4 (drop (p + 2) s)" using hex4_ext [of "p + 2"] e by simp
    show ?thesis
    proof (cases "e - (p + 6) < 6")
      case True
      then show ?thesis unfolding utf16_literal_to_utf8_def first by (simp only: True if_True)
    next
      case no: False
      then have "p + 6 < length s" "p + 7 < length s" "(p + 8) + 4 \<le> length s" using e by linarith+
      then have "parse_hex4 (drop (p + 8) (s @ u)) = parse_hex4 (drop (p + 8) s)" "(s @ u) ! (p + 6) = s ! (p + 6)" "(s @ u) ! (p + 7) = s ! (p + 7)"
        using hex4_ext [of "p + 8" s u] by (simp_all only: nth_append if_True)
      then show ?thesis unfolding utf16_literal_to_utf8_def first by (simp only:)
    qed
  qed
  then show ?thesis unfolding parse_escape_def by (simp only:)
qed

lemma string_loop_ext: "e < length s \<Longrightarrow> string_loop (s @ u) p e out = string_loop s p e out"
proof (induction s p e out rule: string_loop.induct)
  case (1 s p e out)
  have esc: "parse_escape (s @ u) p e c = parse_escape s p e c" for c using escape_ext "1.prems" by simp
  show ?case
  proof (cases "e \<le> p")
    case True
    then show ?thesis by (simp add: string_loop.simps [of _ p e out])
  next
    case False
    then have at: "(s @ u) ! p = s ! p" "byte_at (s @ u) (p + 1) = byte_at s (p + 1)"
      using "1.prems" by (simp_all add: nth_append byte_at_def)
    show ?thesis
      using "1.IH" False "1.prems" at esc
      by (simp add: string_loop.simps [of _ p e out] split: option.split prod.split)
  qed
qed

lemma parse_string_ext:
  assumes "parse_string b = Some (Some out, b')"
  shows "parse_string (ext u b) = Some (Some out, ext u b')" "next_is b DQUOTE"
    "pb_content b' = pb_content b" "pb_offset b' \<le> length (pb_content b)"
proof -
  let ?s = "pb_content b" and ?o = "pb_offset b"
  have head: "byte_at ?s ?o = Some DQUOTE" using assms by (auto simp: parse_string_def Let_def split: option.splits if_splits)
  then show "next_is b DQUOTE" by (simp add: next_is_def)
  have o: "?o < length ?s" using head by (simp add: byte_at_def split: if_splits)
  obtain n k where n: "string_end (drop (?o + 1) ?s) 0 0 = Some (n, k)"
    using assms head by (auto simp: parse_string_def Let_def split: option.splits)
  then obtain lit t where lit: "drop (?o + 1) ?s = lit @ DQUOTE # t" "n = length lit" using string_end_split by fastforce
  have e: "?o + 1 + n < length ?s" using arg_cong [OF lit(1), of length] lit(2) by simp
  have "string_end (drop (?o + 1) (?s @ u)) 0 0 = Some (n, k)" using string_end_ext [OF n] o by simp
  moreover have "byte_at (?s @ u) ?o = Some DQUOTE" using head by (simp add: byte_at_def nth_append split: if_splits)
  ultimately show "parse_string (ext u b) = Some (Some out, ext u b')"
    using assms head n string_loop_ext [OF e]
    by (auto simp: parse_string_def Let_def split: option.splits if_splits)
  show "pb_content b' = ?s" "pb_offset b' \<le> length ?s"
    using assms head n e by (auto simp: parse_string_def Let_def split: option.splits if_splits)
qed

lemma takeWhile_take_ext:
  assumes "k < length xs" "\<not> P (xs ! k)"
  shows "takeWhile P (take m (xs @ u)) = takeWhile P (take m xs)"
proof (cases "m \<le> length xs")
  case False
  then have "take m (xs @ u) = xs @ take (m - length xs) u" "take m xs = xs" by simp_all
  then show ?thesis using assms by (metis nth_mem takeWhile_append1)
qed simp

lemma parse_number_rest:
  "parse_number lib b =
     (case cn_strtod lib (takeWhile is_number_char (take 63 (rest b))) of
        (number, end_offset) \<Rightarrow> if end_offset = 0 then Some (None, b) else Some (Some (CNumber number), advance end_offset b))"
  by (simp add: parse_number_def rest_def Let_def)

lemma parse_number_ext:
  assumes "strtod_ok lib" "parse_number lib b = Some (Some x, b')" "pb_offset b \<le> length (pb_content b)"
  shows "pb_content b' = pb_content b" "pb_offset b' \<le> length (pb_content b)"
    "rest b' = c # s \<Longrightarrow> \<not> is_number_char c \<Longrightarrow> parse_number lib (ext u b) = Some (Some x, ext u b')"
proof -
  let ?cs = "takeWhile is_number_char (take 63 (rest b))"
  obtain d k where k: "cn_strtod lib ?cs = (d, k)" "k \<noteq> 0" "x = CNumber d" "b' = advance k b"
    using assms(2) by (auto simp: parse_number_def rest_def Let_def split: prod.splits if_splits)
  have le: "k \<le> length ?cs" using assms(1) k(1) by (metis snd_conv strtod_ok_def)
  moreover have "length ?cs \<le> length (rest b)" using length_takeWhile_le [of is_number_char "take 63 (rest b)"] by simp
  ultimately show "pb_content b' = pb_content b" "pb_offset b' \<le> length (pb_content b)"
    using k(4) assms(3) rest_length [of b] by simp_all
  assume c: "rest b' = c # s" "\<not> is_number_char c"
  then have "drop k (rest b) = c # s" using k(4) by simp
  then have "k < length (rest b)" "rest b ! k = c" using drop_byte [of k "rest b" c s] by blast+
  then have cs: "takeWhile is_number_char (take 63 (rest b @ u)) = ?cs" using takeWhile_take_ext [of k "rest b" is_number_char 63 u] c(2) by blast
  then show "parse_number lib (ext u b) = Some (Some x, ext u b')"
    unfolding parse_number_rest rest_ext [OF assms(3), of u] cs k(1) using k(2,3,4) by simp
qed

section \<open>Values\<close>

fun is_number :: "cjson \<Rightarrow> bool" where
  "is_number (CNumber d) = True"
| "is_number _ = False"

text \<open>A value is settled when no more bytes can belong to it.\<close>

definition settled :: "cjson \<Rightarrow> parse_buffer \<Rightarrow> bool" where
  "settled x b \<longleftrightarrow> (is_number x \<longrightarrow> (\<exists>c s. rest b = c # s \<and> \<not> is_number_char c))"

lemma settledI: "\<not> is_number x \<Longrightarrow> settled x b"
  by (simp add: settled_def)

lemma starts_bound: "starts b \<Longrightarrow> pb_offset b < length (pb_content b)"
  unfolding starts_def using rest_bound by blast

lemma next_is_starts: "next_is b c \<Longrightarrow> \<not> is_blank c \<Longrightarrow> starts b"
  unfolding starts_def next_is_rest by blast

lemma settled_before:
  assumes "next_is (buffer_skip_whitespace b) c" "\<not> is_blank c" "\<not> is_number_char c"
  shows "settled x b"
proof (cases rule: skip_cases [of b])
  case 1
  then show ?thesis using assms(1) by (simp add: next_is_rest)
next
  case (2 d)
  then show ?thesis using assms(1,2) by (simp add: next_is_rest)
next
  case (3 n d s)
  then have d: "d = c" using assms(1) by (simp add: next_is_rest)
  show ?thesis
  proof (cases "rest b")
    case Nil
    then show ?thesis using 3(2) by simp
  next
    case (Cons h t)
    have "\<not> is_number_char h"
    proof (cases "is_blank h")
      case True
      then show ?thesis by (auto simp: is_blank_def is_number_char_def)
    next
      case False
      then have "n = 0" using 3(5) Cons by simp
      then show ?thesis using 3(3) Cons d assms(3) by simp
    qed
    then show ?thesis using Cons by (simp add: settled_def)
  qed
qed

text \<open>Where the bytes of a call begin, and what it means that \<open>rec'\<close> reads them in an extension of the buffer.\<close>

fun call_start :: "parse_call \<Rightarrow> parse_buffer \<Rightarrow> parse_buffer" where
  "call_start ParseValue b = b"
| "call_start _ b = buffer_skip_whitespace (advance 1 b)"

definition goes_on :: "string \<Rightarrow> bool \<Rightarrow> parse_buffer \<Rightarrow> cjson \<Rightarrow> parse_buffer \<Rightarrow> parse_result \<Rightarrow> bool" where
  "goes_on u number b x b' r \<longleftrightarrow>
     pb_content b' = pb_content b \<and> pb_offset b' \<le> length (pb_content b) \<and> (is_number x \<longrightarrow> number)
     \<and> (settled x b' \<longrightarrow> r = Some (Some x, ext u b'))"

definition rec_ext :: "string \<Rightarrow> parse_rec \<Rightarrow> parse_rec \<Rightarrow> bool" where
  "rec_ext u rec rec' \<longleftrightarrow>
     (\<forall>task b x b'. rec task b = Some (Some x, b') \<longrightarrow>
        starts (call_start task b) \<and> goes_on u (task = ParseValue) b x b' (rec' task (ext u b)))"

lemma rec_extD:
  "rec_ext u rec rec' \<Longrightarrow> rec task b = Some (Some x, b') \<Longrightarrow>
   starts (call_start task b) \<and> goes_on u (task = ParseValue) b x b' (rec' task (ext u b))"
  unfolding rec_ext_def by blast

lemma separators:
  "\<not> is_blank (CHR '','')" "\<not> is_blank (CHR '':'')" "\<not> is_blank (CHR '']'')" "\<not> is_blank (CHR ''}'')"
  "\<not> is_number_char (CHR '','')" "\<not> is_number_char (CHR '']'')" "\<not> is_number_char (CHR ''}'')" "\<not> is_blank DQUOTE"
  "\<not> is_blank (CHR ''['')" "\<not> is_blank (CHR ''{'')"
  by (simp_all add: is_blank_def is_number_char_def)

lemma skip_content [simp]: "pb_content (buffer_skip_whitespace b) = pb_content b"
  by (simp add: buffer_skip_whitespace_def Let_def)

text \<open>A value that is followed by a separators character.\<close>

lemma value_then:
  assumes "rec_ext u rec rec'" "rec ParseValue (buffer_skip_whitespace (advance 1 b)) = Some (Some x, b1)"
    "next_is (buffer_skip_whitespace b1) c" "c = CHR '','' \<or> c = CHR '']'' \<or> c = CHR ''}''"
  shows "starts (buffer_skip_whitespace (advance 1 b))" "pb_content b1 = pb_content b"
    "rec' ParseValue (buffer_skip_whitespace (advance 1 (ext u b))) = Some (Some x, ext u b1)"
    "buffer_skip_whitespace (ext u b1) = ext u (buffer_skip_whitespace b1)"
    "next_is (ext u (buffer_skip_whitespace b1)) d \<longleftrightarrow> next_is (buffer_skip_whitespace b1) d"
    "pb_offset (buffer_skip_whitespace b1) < length (pb_content b)"
proof -
  have c: "\<not> is_blank c" "\<not> is_number_char c" using assms(4) separators by blast+
  note r = rec_extD [OF assms(1,2)]
  then show s: "starts (buffer_skip_whitespace (advance 1 b))" by simp
  show content: "pb_content b1 = pb_content b" using r by (simp add: goes_on_def)
  have "settled x b1" by (rule settled_before [OF assms(3) c])
  then show "rec' ParseValue (buffer_skip_whitespace (advance 1 (ext u b))) = Some (Some x, ext u b1)"
    using r skip_ext [OF s] by (simp add: goes_on_def)
  have s1: "starts (buffer_skip_whitespace b1)" by (rule next_is_starts [OF assms(3) c(1)])
  then show "buffer_skip_whitespace (ext u b1) = ext u (buffer_skip_whitespace b1)" by (rule skip_ext)
  show "next_is (ext u (buffer_skip_whitespace b1)) d \<longleftrightarrow> next_is (buffer_skip_whitespace b1) d"
    using next_is_ext starts_bound [OF s1] by simp
  show "pb_offset (buffer_skip_whitespace b1) < length (pb_content b)" using starts_bound [OF s1] content by simp
qed

lemma goes_on_next:
  "goes_on u n b1 x b' r \<Longrightarrow> pb_content b1 = pb_content b \<Longrightarrow> (n \<longrightarrow> m) \<Longrightarrow> goes_on u m b x b' r"
  by (simp add: goes_on_def)

lemma goes_on_end:
  "pb_content b' = pb_content b \<Longrightarrow> pb_offset b' \<le> length (pb_content b) \<Longrightarrow> \<not> is_number x \<Longrightarrow> r = Some (Some x, ext u b') \<Longrightarrow>
   goes_on u n b x b' r"
  by (simp add: goes_on_def)

lemma parse_items_ext:
  assumes "rec_ext u rec rec'" "parse_items rec xs b = Some (Some x, b')"
  shows "starts (buffer_skip_whitespace (advance 1 b)) \<and> goes_on u False b x b' (parse_items rec' xs (ext u b))"
proof -
  obtain y b1 where y: "rec ParseValue (buffer_skip_whitespace (advance 1 b)) = Some (Some y, b1)"
    using assms(2) by (auto simp: parse_items_def split: option.splits)
  show ?thesis
  proof (cases "next_is (buffer_skip_whitespace b1) (CHR '','')")
    case True
    note t = value_then [OF assms(1) y True disjI1 [OF refl]]
    have r: "rec (ParseItems (xs @ [y])) (buffer_skip_whitespace b1) = Some (Some x, b')"
      using assms(2) y True by (simp add: parse_items_def Let_def)
    have "parse_items rec' xs (ext u b) = rec' (ParseItems (xs @ [y])) (ext u (buffer_skip_whitespace b1))"
      using t(3,4,5) True by (simp add: parse_items_def Let_def)
    then show ?thesis using rec_extD [OF assms(1) r] t(1,2) goes_on_next [of u False "buffer_skip_whitespace b1"] by simp
  next
    case no: False
    then have close: "next_is (buffer_skip_whitespace b1) (CHR '']'')"
        and x: "x = CArray (xs @ [y])" "b' = advance 1 ((buffer_skip_whitespace b1)\<lparr>pb_depth := pb_depth (buffer_skip_whitespace b1) - 1\<rparr>)"
      using assms(2) y by (auto simp: parse_items_def Let_def split: if_splits)
    note t = value_then [OF assms(1) y close disjI2 [OF disjI1 [OF refl]]]
    have "parse_items rec' xs (ext u b) = Some (Some x, ext u b')"
      using t(3,4,5) no close x by (simp add: parse_items_def Let_def)
    moreover have "pb_content b' = pb_content b" "pb_offset b' \<le> length (pb_content b)"
      using t(2,6) x(2) by (simp_all add: advance_def)
    ultimately show ?thesis using t(1) x(1) goes_on_end by simp
  qed
qed

lemma parse_member_value_ext:
  assumes "rec_ext u rec rec'" "parse_member_value rec kvs name b = Some (Some x, b')"
  shows "goes_on u False b x b' (parse_member_value rec' kvs name (ext u b))"
proof -
  let ?kvs = "\<lambda>y. kvs @ [(cstr name, y)]"
  obtain y b1 where y: "rec ParseValue (buffer_skip_whitespace (advance 1 b)) = Some (Some y, b1)"
    using assms(2) by (auto simp: parse_member_value_def split: option.splits)
  show ?thesis
  proof (cases "next_is (buffer_skip_whitespace b1) (CHR '','')")
    case True
    note t = value_then [OF assms(1) y True disjI1 [OF refl]]
    have r: "rec (ParseMembers (?kvs y)) (buffer_skip_whitespace b1) = Some (Some x, b')"
      using assms(2) y True by (simp add: parse_member_value_def Let_def)
    have "parse_member_value rec' kvs name (ext u b) = rec' (ParseMembers (?kvs y)) (ext u (buffer_skip_whitespace b1))"
      using t(3,4,5) True by (simp add: parse_member_value_def Let_def)
    then show ?thesis using rec_extD [OF assms(1) r] t(2) goes_on_next [of u False "buffer_skip_whitespace b1"] by simp
  next
    case no: False
    then have close: "next_is (buffer_skip_whitespace b1) (CHR ''}'')"
        and x: "x = CObject (?kvs y)" "b' = advance 1 ((buffer_skip_whitespace b1)\<lparr>pb_depth := pb_depth (buffer_skip_whitespace b1) - 1\<rparr>)"
      using assms(2) y by (auto simp: parse_member_value_def Let_def split: if_splits)
    note t = value_then [OF assms(1) y close disjI2 [OF disjI2 [OF refl]]]
    have "parse_member_value rec' kvs name (ext u b) = Some (Some x, ext u b')"
      using t(3,4,5) no close x by (simp add: parse_member_value_def Let_def)
    moreover have "pb_content b' = pb_content b" "pb_offset b' \<le> length (pb_content b)"
      using t(2,6) x(2) by (simp_all add: advance_def)
    ultimately show ?thesis using x(1) goes_on_end by simp
  qed
qed

lemma parse_members_ext:
  assumes "rec_ext u rec rec'" "parse_members rec kvs b = Some (Some x, b')"
  shows "starts (buffer_skip_whitespace (advance 1 b)) \<and> goes_on u False b x b' (parse_members rec' kvs (ext u b))"
proof -
  let ?b0 = "buffer_skip_whitespace (advance 1 b)"
  have access: "can_access_at_index b 1" using assms(2) by (auto simp: parse_members_def split: if_splits)
  then obtain name b1 where name: "parse_string ?b0 = Some (Some name, b1)"
    using assms(2) by (auto simp: parse_members_def split: option.splits)
  let ?b2 = "buffer_skip_whitespace b1"
  have colon: "next_is ?b2 (CHR '':'')" and m: "parse_member_value rec kvs name ?b2 = Some (Some x, b')"
    using assms(2) access name by (auto simp: parse_members_def Let_def split: if_splits)
  note str = parse_string_ext [OF name]
  have s: "starts ?b0" "starts ?b2" using next_is_starts str(2) colon separators by blast+
  have "can_access_at_index (ext u b) 1" using access by (simp add: can_access_at_index_def)
  moreover have "next_is (ext u ?b2) (CHR '':'')" using next_is_ext [OF starts_bound [OF s(2)]] colon by blast
  ultimately have "parse_members rec' kvs (ext u b) = parse_member_value rec' kvs name (ext u ?b2)"
    using str(1) skip_ext [OF s(1)] skip_ext [OF s(2)] by (simp add: parse_members_def Let_def)
  moreover have "pb_content ?b2 = pb_content b" using str(3) by simp
  ultimately show ?thesis using parse_member_value_ext [OF assms(1) m] s(1) goes_on_next [of u False ?b2 x b'] by simp
qed

text \<open>The opening of an array or an object: blanks, and a step back in front of the first item.\<close>

lemma step_advance: "0 < pb_offset b \<Longrightarrow> advance 1 (step_back b) = b"
  by (simp add: advance_def step_back_def)

lemma skip_offset_pos: "0 < pb_offset b \<Longrightarrow> 0 < pb_offset (buffer_skip_whitespace b)"
  using skip_bounds(1) [of b] by linarith

lemma start_back:
  assumes "0 < pb_offset b" "task \<noteq> ParseValue"
  shows "call_start task (step_back (buffer_skip_whitespace b)) = buffer_skip_whitespace b"
proof -
  have "advance 1 (step_back (buffer_skip_whitespace b)) = buffer_skip_whitespace b"
    by (rule step_advance [OF skip_offset_pos [OF assms(1)]])
  then show ?thesis using assms(2) skip_idem by (cases task) (simp_all only: call_start.simps not_True_eq_False simp_thms)
qed

lemma parse_array_ext:
  assumes "rec_ext u rec rec'" "parse_array rec b = Some (Some x, b')"
  shows "starts b \<and> goes_on u False b x b' (parse_array rec' (ext u b))"
proof -
  let ?b1 = "b\<lparr>pb_depth := pb_depth b + 1\<rparr>"
  let ?b2 = "buffer_skip_whitespace (advance 1 ?b1)"
  have depth: "\<not> CJSON_NESTING_LIMIT \<le> pb_depth b" and open_byte: "byte_at (pb_content b) (pb_offset b) = Some (CHR ''['')"
    using assms(2) by (auto simp: parse_array_def Let_def split: if_splits option.splits)
  have start: "starts b" using open_byte next_is_starts [of b "CHR ''[''"] separators by (simp add: next_is_def)
  have open_ext: "byte_at (pb_content b @ u) (pb_offset b) = Some (CHR ''['')"
    using open_byte by (simp add: byte_at_def nth_append split: if_splits)
  show ?thesis
  proof (cases "next_is ?b2 (CHR '']'')")
    case True
    have s: "starts ?b2" by (rule next_is_starts [OF True separators(3)])
    have x: "x = CArray []" "b' = advance 1 (?b2\<lparr>pb_depth := pb_depth ?b2 - 1\<rparr>)"
      using assms(2) depth open_byte True by (auto simp: parse_array_def Let_def)
    have "parse_array rec' (ext u b) = Some (Some x, ext u b')"
      using depth open_ext skip_ext [OF s] True x next_is_ext [OF starts_bound [OF s]] by (simp add: parse_array_def Let_def)
    moreover have "pb_content b' = pb_content b" "pb_offset b' \<le> length (pb_content b)"
      using x(2) starts_bound [OF s] by (simp_all add: advance_def)
    ultimately show ?thesis using start x(1) goes_on_end by simp
  next
    case False
    then have r: "rec (ParseItems []) (step_back ?b2) = Some (Some x, b')" and access: "can_access_at_index ?b2 0"
      using assms(2) depth open_byte by (auto simp: parse_array_def Let_def split: if_splits)
    have "0 < pb_offset (advance 1 ?b1)" by (simp add: advance_def)
    then have s: "starts ?b2" using rec_extD [OF assms(1) r] start_back [of "advance 1 ?b1" "ParseItems []"] by (simp only: parse_call.simps simp_thms)
    have "can_access_at_index (ext u ?b2) 0" using access by (simp add: can_access_at_index_def)
    then have "parse_array rec' (ext u b) = rec' (ParseItems []) (ext u (step_back ?b2))"
      using depth open_ext skip_ext [OF s] False next_is_ext [OF starts_bound [OF s]] by (simp add: parse_array_def Let_def)
    moreover have "pb_content (step_back ?b2) = pb_content b" by (simp add: step_back_def)
    ultimately show ?thesis using start rec_extD [OF assms(1) r] goes_on_next [of u False "step_back ?b2"] by simp
  qed
qed

lemma parse_object_ext:
  assumes "rec_ext u rec rec'" "parse_object rec b = Some (Some x, b')"
  shows "starts b \<and> goes_on u False b x b' (parse_object rec' (ext u b))"
proof -
  let ?b1 = "b\<lparr>pb_depth := pb_depth b + 1\<rparr>"
  let ?b2 = "buffer_skip_whitespace (advance 1 ?b1)"
  have depth: "\<not> CJSON_NESTING_LIMIT \<le> pb_depth b" and open1: "next_is ?b1 (CHR ''{'')"
    using assms(2) by (auto simp: parse_object_def Let_def split: if_splits)
  then have open_byte: "next_is b (CHR ''{'')" by (simp add: next_is_def)
  have start: "starts b" by (rule next_is_starts [OF open_byte separators(10)])
  have open_ext: "next_is (ext u ?b1) (CHR ''{'')"
    using next_is_ext [of ?b1] starts_bound [OF start] open1 by simp
  show ?thesis
  proof (cases "next_is ?b2 (CHR ''}'')")
    case True
    have s: "starts ?b2" by (rule next_is_starts [OF True separators(4)])
    have x: "x = CObject []" "b' = advance 1 (?b2\<lparr>pb_depth := pb_depth ?b2 - 1\<rparr>)"
      using assms(2) depth open1 True by (auto simp: parse_object_def Let_def)
    have "parse_object rec' (ext u b) = Some (Some x, ext u b')"
      using depth open_ext skip_ext [OF s] True x next_is_ext [OF starts_bound [OF s]] by (simp add: parse_object_def Let_def)
    moreover have "pb_content b' = pb_content b" "pb_offset b' \<le> length (pb_content b)"
      using x(2) starts_bound [OF s] by (simp_all add: advance_def)
    ultimately show ?thesis using start x(1) goes_on_end by simp
  next
    case False
    then have r: "rec (ParseMembers []) (step_back ?b2) = Some (Some x, b')" and access: "can_access_at_index ?b2 0"
      using assms(2) depth open1 by (auto simp: parse_object_def Let_def split: if_splits)
    have "0 < pb_offset (advance 1 ?b1)" by (simp add: advance_def)
    then have s: "starts ?b2" using rec_extD [OF assms(1) r] start_back [of "advance 1 ?b1" "ParseMembers []"] by (simp only: parse_call.simps simp_thms)
    have "can_access_at_index (ext u ?b2) 0" using access by (simp add: can_access_at_index_def)
    then have "parse_object rec' (ext u b) = rec' (ParseMembers []) (ext u (step_back ?b2))"
      using depth open_ext skip_ext [OF s] False next_is_ext [OF starts_bound [OF s]] by (simp add: parse_object_def Let_def)
    moreover have "pb_content (step_back ?b2) = pb_content b" by (simp add: step_back_def)
    ultimately show ?thesis using start rec_extD [OF assms(1) r] goes_on_next [of u False "step_back ?b2"] by simp
  qed
qed

text \<open>Which branch the first byte selects.\<close>

lemma not_word: "rest b = c # s \<Longrightarrow> c \<noteq> d \<Longrightarrow> \<not> reads_word b (d # w)"
  by (simp add: reads_word_rest)

lemma value_branch:
  assumes "rest b = c # s"
  shows "c = DQUOTE \<Longrightarrow> parse_value lib rec b = map_option (\<lambda>(s, b). (map_option (\<lambda>s. CString (cstr s)) s, b)) (parse_string b)"
    "c \<in> set ''-0123456789'' \<Longrightarrow> parse_value lib rec b = parse_number lib b"
proof -
  have words: "\<not> reads_word b ''null'' \<and> \<not> reads_word b ''false'' \<and> \<not> reads_word b ''true''"
    if "c \<noteq> CHR ''n''" "c \<noteq> CHR ''f''" "c \<noteq> CHR ''t''"
    using not_word [OF assms that(1)] not_word [OF assms that(2)] not_word [OF assms that(3)] by blast
  have at: "next_is b d \<longleftrightarrow> d = c" "next_starts_number b \<longleftrightarrow> c \<in> set ''-0123456789''" for d
    using assms by (auto simp: next_is_rest next_starts_number_rest)
  show "c = DQUOTE \<Longrightarrow> parse_value lib rec b = map_option (\<lambda>(s, b). (map_option (\<lambda>s. CString (cstr s)) s, b)) (parse_string b)"
    using words at by (simp add: parse_value_def)
  show "c \<in> set ''-0123456789'' \<Longrightarrow> parse_value lib rec b = parse_number lib b"
    using words at by (auto simp: parse_value_def)
qed

lemma word_ext:
  assumes "reads_word b w" "w = d # t" "\<not> is_blank d"
  shows "starts b" "reads_word (ext u b) w" "pb_offset b + length w \<le> length (pb_content b)"
proof -
  obtain s where s: "rest b = w @ s" using assms(1,2) reads_word_rest [of w b] by auto
  then show "starts b" using assms(2,3) by (simp add: starts_def)
  show "pb_offset b + length w \<le> length (pb_content b)" using assms(1) by (simp add: reads_word_def can_read_def)
  then have "rest (ext u b) = w @ s @ u" using s rest_ext [of b u] by simp
  then show "reads_word (ext u b) w" using assms(2) reads_word_rest [of w "ext u b"] by auto
qed

lemma word_goes_on:
  assumes "reads_word b w" "w = d # t" "\<not> is_blank d" "\<not> is_number x"
    "reads_word (ext u b) w \<Longrightarrow> r = Some (Some x, advance (length w) (ext u b))"
  shows "starts b \<and> goes_on u n b x (advance (length w) b) r"
proof -
  note w = word_ext [OF assms(1,2,3)]
  have "pb_content (advance (length w) b) = pb_content b" "pb_offset (advance (length w) b) \<le> length (pb_content b)"
    using w(3) by (simp_all add: advance_def)
  moreover have "r = Some (Some x, ext u (advance (length w) b))" using assms(5) [OF w(2)] by simp
  ultimately show ?thesis using w(1) goes_on_end assms(4) by blast
qed

lemma parse_value_ext:
  assumes "strtod_ok lib" "rec_ext u rec rec'" "parse_value lib rec b = Some (Some x, b')"
  shows "starts b \<and> goes_on u True b x b' (parse_value lib rec' (ext u b))"
proof -
  have lit: "\<not> is_blank (CHR ''n'')" "\<not> is_blank (CHR ''f'')" "\<not> is_blank (CHR ''t'')" by (simp_all add: is_blank_def)
  have other: "starts b \<and> goes_on u True b x b' (parse_value lib rec' (ext u b))"
    if no: "\<not> reads_word b ''null''" "\<not> reads_word b ''false''" "\<not> reads_word b ''true''"
  proof -
    have v: "parse_value lib rec b =
      (if next_is b DQUOTE then map_option (\<lambda>(s, b). (map_option (\<lambda>s. CString (cstr s)) s, b)) (parse_string b)
       else if next_starts_number b then parse_number lib b
       else if next_is b (CHR ''['') then parse_array rec b
       else if next_is b (CHR ''{'') then parse_object rec b else Some (None, b))"
      using no by (simp add: parse_value_def)
    show ?thesis
    proof (cases "rest b")
      case Nil
      then show ?thesis using assms(3) v by (simp add: next_is_rest next_starts_number_rest)
    next
      case (Cons c s)
      have bound: "pb_offset b < length (pb_content b)" by (rule rest_bound [OF Cons])
      then have ce: "rest (ext u b) = c # s @ u" using Cons rest_ext [of b u] by simp
      note branch = value_branch [OF Cons, of lib rec] and branch' = value_branch [OF ce, of lib rec']
      consider "c = DQUOTE" | "c \<in> set ''-0123456789''" | "c = CHR ''[''" | "c = CHR ''{''"
        using assms(3) v Cons by (auto simp: next_is_rest next_starts_number_rest split: if_splits)
      then show ?thesis
      proof cases
        case 1
        then obtain out where out: "parse_string b = Some (Some out, b')" "x = CString (cstr out)"
          using assms(3) branch(1) by auto
        have "starts b" using next_is_starts [OF parse_string_ext(2) [OF out(1)] separators(8)] .
        moreover have "parse_value lib rec' (ext u b) = Some (Some x, ext u b')"
          using branch'(1) [OF 1] parse_string_ext(1) [OF out(1)] out(2) by simp
        ultimately show ?thesis using parse_string_ext(3,4) [OF out(1)] out(2) goes_on_end by simp
      next
        case 2
        have number: "parse_number lib b = Some (Some x, b')" using assms(3) branch(2) [OF 2] by simp
        note num = parse_number_ext [OF assms(1) this less_imp_le [OF bound]]
        have x: "is_number x" using number by (auto simp: parse_number_def Let_def split: prod.splits if_splits)
        have "\<not> is_blank c" using 2 by (auto simp: is_blank_def)
        then have "starts b" using Cons by (simp add: starts_def)
        moreover have "settled x b' \<longrightarrow> parse_value lib rec' (ext u b) = Some (Some x, ext u b')"
          using branch'(2) [OF 2] num(3) x by (auto simp: settled_def)
        ultimately show ?thesis using num(1,2) by (simp add: goes_on_def)
      next
        case 3
        then have "parse_array rec b = Some (Some x, b')" using assms(3) value_array Cons by simp
        from parse_array_ext [OF assms(2) this] show ?thesis using value_array [of "ext u b"] ce 3 goes_on_next [of u False b] by simp
      next
        case 4
        then have "parse_object rec b = Some (Some x, b')" using assms(3) value_object Cons by simp
        from parse_object_ext [OF assms(2) this] show ?thesis using value_object [of "ext u b"] ce 4 goes_on_next [of u False b] by simp
      qed
    qed
  qed
  show ?thesis
  proof (cases "reads_word b ''null''")
    case True
    then have x: "x = CNull" "b' = advance (length ''null'') b" using assms(3) by (auto simp: parse_value_def eval_nat_numeral)
    show ?thesis
      unfolding x(2) by (rule word_goes_on [OF True refl lit(1)]) (simp_all add: parse_value_def x(1))
  next
    case n: False
    show ?thesis
    proof (cases "reads_word b ''false''")
      case True
      then have x: "x = CBool False" "b' = advance (length ''false'') b" using assms(3) n by (auto simp: parse_value_def eval_nat_numeral)
      have "\<not> reads_word (ext u b) ''null''" if "reads_word (ext u b) ''false''"
        using that by (auto simp: reads_word_rest)
      then show ?thesis
        unfolding x(2) by (intro word_goes_on [OF True refl lit(2)]) (simp_all add: parse_value_def x(1))
    next
      case f: False
      show ?thesis
      proof (cases "reads_word b ''true''")
        case True
        then have x: "x = CBool True" "b' = advance (length ''true'') b" using assms(3) n f by (auto simp: parse_value_def eval_nat_numeral)
        have "\<not> reads_word (ext u b) ''null'' \<and> \<not> reads_word (ext u b) ''false''" if "reads_word (ext u b) ''true''"
          using that by (auto simp: reads_word_rest)
        then show ?thesis
          unfolding x(2) by (intro word_goes_on [OF True refl lit(3)]) (simp_all add: parse_value_def x(1))
      qed (rule other [OF n f])
    qed
  qed
qed

lemma parse_task_ext:
  assumes "strtod_ok lib"
  shows "n \<le> m \<Longrightarrow> rec_ext u (parse_task n lib) (parse_task m lib)"
proof (induction n arbitrary: m)
  case 0
  then show ?case by (simp add: rec_ext_def)
next
  case (Suc n)
  then obtain m' where m: "m = Suc m'" "n \<le> m'" by (cases m) auto
  note rec = Suc.IH [OF m(2)]
  show ?case
    unfolding rec_ext_def
  proof (intro allI impI)
    fix task b x b'
    assume r: "parse_task (Suc n) lib task b = Some (Some x, b')"
    show "starts (call_start task b) \<and> goes_on u (task = ParseValue) b x b' (parse_task m lib task (ext u b))"
      using r m(1) parse_value_ext [OF assms rec] parse_items_ext [OF rec] parse_members_ext [OF rec] by (cases task) simp_all
  qed
qed

section \<open>Documents\<close>

lemma accepted_nonempty: "cJSON_ParseWithLengthOpts lib s False = Some (Inr r) \<Longrightarrow> s \<noteq> []"
  by (auto simp: cJSON_ParseWithLengthOpts_def)

abbreviation whole_buffer :: "string \<Rightarrow> parse_buffer" where
  "whole_buffer s \<equiv> \<lparr>pb_content = s, pb_offset = 0, pb_depth = 0\<rparr>"

lemma object_document:
  assumes "s = CHR ''{'' # r"
  shows "cJSON_ParseWithLengthOpts lib s False = Some (Inr (x, e)) \<longleftrightarrow>
    (\<exists>b'. parse_task (parse_fuel s) lib ParseValue (whole_buffer s) = Some (Some x, b') \<and> pb_offset b' = e)"
proof -
  have "rest (whole_buffer s) = CHR ''{'' # r" using assms by (simp add: rest_def)
  from skip_nonblank [OF this separators(10)] have "buffer_skip_whitespace (skip_utf8_bom (whole_buffer s)) = whole_buffer s"
    using assms by (simp add: skip_utf8_bom_def)
  then show ?thesis using assms by (auto simp: cJSON_ParseWithLengthOpts_def split: option.splits)
qed

lemma object_not_number:
  assumes "strtod_ok lib" "s = CHR ''{'' # r" "parse_task (parse_fuel s) lib ParseValue (whole_buffer s) = Some (Some x, b')"
  shows "\<not> is_number x"
proof -
  have "rest (whole_buffer s) = CHR ''{'' # r" using assms(2) by (simp add: rest_def)
  then have "parse_object (parse_task (2 * length s + 1) lib) (whole_buffer s) = Some (Some x, b')"
    using assms(3) value_object by (simp add: parse_fuel_def)
  from parse_object_ext [OF parse_task_ext [OF assms(1) order_refl] this] show ?thesis by (simp add: goes_on_def)
qed

lemma document_ext:
  assumes "strtod_ok lib" "s = CHR ''{'' # r" "cJSON_ParseWithLengthOpts lib s False = Some (Inr (x, e))"
  shows "cJSON_ParseWithLengthOpts lib (s @ u) False = Some (Inr (x, e)) \<and> e \<le> length s"
proof -
  obtain b' where task: "parse_task (parse_fuel s) lib ParseValue (whole_buffer s) = Some (Some x, b')" "pb_offset b' = e"
    using assms(2,3) object_document by blast
  have "parse_fuel s \<le> parse_fuel (s @ u)" by (simp add: parse_fuel_def)
  from rec_extD [OF parse_task_ext [OF assms(1) this, of u] task(1)]
  have ext: "goes_on u True (whole_buffer s) x b' (parse_task (parse_fuel (s @ u)) lib ParseValue (ext u (whole_buffer s)))" by simp
  moreover have "settled x b'" by (rule settledI [OF object_not_number [OF assms(1,2) task(1)]])
  moreover have "ext u (whole_buffer s) = whole_buffer (s @ u)" by (simp add: ext_def)
  ultimately have "parse_task (parse_fuel (s @ u)) lib ParseValue (whole_buffer (s @ u)) = Some (Some x, ext u b')"
    by (simp add: goes_on_def)
  moreover have "s @ u = CHR ''{'' # (r @ u)" using assms(2) by simp
  ultimately show ?thesis using object_document [of "s @ u" "r @ u"] task(2) ext by (auto simp: goes_on_def)
qed

text \<open>No strict part of the text of an object is a document.\<close>

lemma compact_prefix:
  assumes "strtod_ok lib" "printable lib (CObject kvs)" "cj_depth (CObject kvs) \<le> CJSON_NESTING_LIMIT"
    "n < length (compact lib (CObject kvs))"
  shows "\<exists>e. cjson_parser lib (take n (compact lib (CObject kvs))) = Inl e"
proof (rule ccontr)
  define t where "t = compact lib (CObject kvs)"
  define p where "p = take n t"
  assume "\<not> (\<exists>e. cjson_parser lib (take n (compact lib (CObject kvs))) = Inl e)"
  then have "\<not> (\<exists>e. cjson_parser lib p = Inl e)" unfolding p_def t_def .
  then obtain x e where "cjson_parser lib p = Inr (x, e)" by (metis old.sum.exhaust prod.exhaust)
  then have ok: "cJSON_ParseWithLengthOpts lib p False = Some (Inr (x, e))"
    by (simp add: cjson_parser_def split: option.splits)
  have "t = CHR ''{'' # tl t" by (simp add: t_def)
  then have "p = CHR ''{'' # tl p" using accepted_nonempty [OF ok] unfolding p_def by (cases n; cases t) simp_all
  from document_ext [OF assms(1) this ok, of "drop n t"]
  have "cJSON_ParseWithLengthOpts lib t False = Some (Inr (x, e))" "e \<le> length p" by (simp_all add: p_def)
  moreover have "cJSON_ParseWithLengthOpts lib t False = Some (Inr (CObject kvs, length t))"
    unfolding t_def by (rule parse_compact [OF assms(2,3)])
  moreover have "length p < length t" using assms(4) by (simp add: p_def t_def)
  ultimately show False by simp
qed

end
