(* ===== verification/CjsonSession.thy ===== *)
theory CjsonSession
  imports CjsonPrefix SessionProps ProviderProps
begin

text \<open>
  The bundled library under the adapter and the session store: what the theorems on sessions and on
  streams assume of a JSON library holds for it, given the number formatting of the C library.
\<close>

text \<open>The printer as \<open>json_print\<close> calls it; it never fails below \<open>INT_MAX\<close> bytes.\<close>

definition cjson_text :: "cjson_lib \<Rightarrow> cjson \<Rightarrow> string" where
  "cjson_text lib v = (case cJSON_PrintUnformatted lib v of Some (Some t) \<Rightarrow> t | _ \<Rightarrow> [])"

lemma cjson_print_eq:
  assumes "printf_ok lib" "length (json_text lib fmt 0 v) + 2 \<le> INT_MAX"
  shows "cjson_print lib v fmt = Some (Some (json_text lib fmt 0 v))"
  using cjson_print_gives [OF assms(1), of v fmt] assms(2) by auto

lemma cjson_text_compact:
  "printf_ok lib \<Longrightarrow> length (compact lib v) + 2 \<le> INT_MAX \<Longrightarrow> cjson_text lib v = compact lib v"
  by (simp add: cjson_text_def cJSON_PrintUnformatted_def cjson_print_eq)

section \<open>The bytes of a text\<close>

definition plain_byte :: "char \<Rightarrow> bool" where
  "plain_byte c \<longleftrightarrow> of_char c > (31 :: nat)"

lemma hex_char_plain: "n < 16 \<Longrightarrow> plain_byte (hex_char n)"
  by (simp add: hex_char_def plain_byte_def)

lemma escape_char_visible: "list_all plain_byte (escape_char c)"
proof (cases rule: escape_char_cases [of c])
  case 1
  then have "of_char c > (31 :: nat)" by (auto simp: escape_char_def split: if_splits)
  then show ?thesis using 1 by (simp add: plain_byte_def)
next
  case 2
  then show ?thesis by (auto simp: has_short_escape_def escape_char_def plain_byte_def)
next
  case 3
  then show ?thesis using char_nibbles [of c] by (simp add: print_u04x_def hex_char_plain) (simp add: plain_byte_def)
qed

lemma quoted_plain: "list_all plain_byte (quoted s)"
proof -
  have "list_all plain_byte (escape_string s)"
    using escape_char_visible by (induction s) (simp_all add: escape_string_def)
  then show ?thesis by (simp add: quoted_def plain_byte_def)
qed

lemma number_plain: "list_all is_number_char t \<Longrightarrow> list_all plain_byte t"
  by (erule list.pred_mono_strong) (auto simp: is_number_char_def plain_byte_def)

lemma text_plain:
  "printable lib v \<Longrightarrow> list_all plain_byte (json_text lib False d v)"
  "list_all (printable lib) xs \<Longrightarrow> list_all plain_byte (elements_text lib False d xs)"
  "list_all (\<lambda>kv. NUL \<notin> set (fst kv) \<and> printable lib (snd kv)) kvs \<Longrightarrow> list_all plain_byte (members_text lib False d kvs)"
proof (induction lib False d v and lib False d xs and lib False d kvs rule: json_text_elements_text_members_text.induct)
  case (3 lib d x)
  then show ?case using number_plain by (simp add: number_ok_def Let_def)
next
  case (6 lib d kvs)
  then show ?case by (simp add: plain_byte_def)
qed (simp_all add: quoted_plain plain_byte_def)

section \<open>The hypotheses of the other parts\<close>

lemma cjson_text_ok:
  assumes "strtod_ok lib" "printf_ok lib" "printable lib (CObject kvs)" "cj_depth (CObject kvs) \<le> CJSON_NESTING_LIMIT"
    "length (compact lib (CObject kvs)) + 2 \<le> INT_MAX"
  shows "text_ok (cjson_parser lib) (cjson_text lib) (CObject kvs)"
proof -
  let ?t = "compact lib (CObject kvs)"
  have t: "cjson_text lib (CObject kvs) = ?t" by (rule cjson_text_compact [OF assms(2,5)])
  have plain: "list_all plain_byte ?t" by (rule text_plain(1) [OF assms(3)])
  have "\<not> plain_byte NUL" "\<not> plain_byte LF" by (simp_all add: plain_byte_def)
  then have "NUL \<notin> set ?t" "LF \<notin> set ?t" using plain unfolding list_all_iff by blast+
  moreover have "cjson_parser lib ?t = Inr (CObject kvs, length ?t)"
    using parse_compact [OF assms(3,4)] by (simp add: cjson_parser_def)
  moreover have "case cjson_parser lib (take n ?t) of Inl _ \<Rightarrow> True | Inr _ \<Rightarrow> False" if "n < length ?t" for n
    using compact_prefix [OF assms(1,3,4) that] by auto
  moreover have "?t \<noteq> []" by simp
  ultimately show ?thesis unfolding text_ok_def t by blast
qed

lemma cj_clean_nul_free: "cj_clean x \<Longrightarrow> nul_free x"
  by (induction x rule: cj_clean.induct) (auto simp: list_all_iff)

lemma cjson_parser_ok:
  assumes "strtod_ok lib"
  shows "parser_ok (cjson_parser lib)"
  unfolding parser_ok_def
proof (intro allI impI)
  fix s node n
  assume "cjson_parser lib s = Inr (node, n)"
  then have "cJSON_ParseWithLengthOpts lib s False = Some (Inr (node, n))" by (simp add: cjson_parser_def split: option.splits)
  then have "cj_clean node" using cjson_parse_safe [OF assms, of s False] by auto
  then show "nul_free node" by (rule cj_clean_nul_free)
qed

section \<open>Values and conversations across a text\<close>

text \<open>C12. Round trip through text: an Object that JSON can carry exactly, of any shape within the depth cap, comes back
  unchanged when its tree is printed and the text parsed by the bundled library, and read as an Object
  again. Of the C library it takes that the numbers in it are read back as they are printed.\<close>

theorem object_text_roundtrip:
  assumes "printf_ok lib" "json_exact x" "obj_depth x \<le> kMarshalDepthCap"
    and "object_to_cjson (Some x) = Some node" "printable lib node"
    and "length (compact lib node) \<le> max_size" "max_size + 2 \<le> INT_MAX"
  shows "\<exists>node'. json_parse (cjson_parser lib) (json_print (cjson_text lib) node) max_size = Inr node'
    \<and> cjson_to_object node' = Some (Inr x)"
proof -
  let ?t = "compact lib node"
  have node: "cjson_to_object node = Some (Inr x)" using json_object_roundtrip [OF assms(2,3)] assms(4) by simp
  then have depth: "cj_depth node \<le> CJSON_NESTING_LIMIT"
    unfolding cjson_to_object_eq by (simp add: kMarshalDepthCap_def CJSON_NESTING_LIMIT_def split: if_splits)
  have "\<not> plain_byte NUL" by (simp add: plain_byte_def)
  then have "NUL \<notin> set ?t" using text_plain(1) [OF assms(5)] unfolding list_all_iff by blast
  then have "json_print (cjson_text lib) node = Some ?t"
    using cjson_text_compact [OF assms(1), of node] assms(6,7) by (simp add: json_print_def)
  moreover have "cjson_parser lib ?t = Inr (node, length ?t)"
    using parse_compact [OF assms(5) depth] by (simp add: cjson_parser_def)
  ultimately have "json_parse (cjson_parser lib) (json_print (cjson_text lib) node) max_size = Inr node"
    using assms(6) by (simp add: json_parse_def)
  then show ?thesis using node by blast
qed

text \<open>An integer that an \<open>int\<close> holds is printed in decimal.\<close>

lemma number_text_int:
  assumes "\<bar>n\<bar> \<le> int INT_MAX"
  shows "number_text lib (dbl_of_int n) = show_int n"
proof -
  have "dbl_integer (dbl_of_int n) = Some n"
    using dbl_of_int_exact [of n] assms
    by (auto simp: dbl_exact_int_def EXACT_INT_MAX_def INT_MAX_def split: option.splits if_splits)
  moreover from this have "dbl_exp (dbl_of_int n) \<noteq> 2047" "valueint (dbl_of_int n) = n"
    using dbl_trunc_integer assms by (auto simp: valueint_def)
  ultimately show ?thesis by (simp add: number_text_def)
qed

lemma sample_number_ok: "number_ok sample_cjson_lib (dbl_of_int 7)" "number_ok sample_cjson_lib (dbl_of_int 1)"
proof -
  have "show_int 7 = ''7''" "show_int 1 = ''1''" by code_simp+
  then have "number_text sample_cjson_lib (dbl_of_int 7) = ''7''" "number_text sample_cjson_lib (dbl_of_int 1) = ''1''"
    by (simp_all add: number_text_int INT_MAX_def)
  then show "number_ok sample_cjson_lib (dbl_of_int 7)" "number_ok sample_cjson_lib (dbl_of_int 1)"
    by (simp_all add: number_ok_def sample_cjson_lib_def sample_strtod_def is_number_char_def)
qed

theorem object_text_roundtrip_witness:
  "\<exists>node'. json_parse (cjson_parser sample_cjson_lib)
       (Some (''{\"k\":['' @ ''7,true,'' @ [DQUOTE, BSLASH, CHR ''n'', DQUOTE] @ '']}'')) 100 = Inr node'
     \<and> cjson_to_object node' = Some (Inr (ODict [(Some ''k'', OArray [OInteger 7, OBoolean True, OString (Some [CHR 0x0A])])]))"
proof -
  let ?x = "ODict [(Some ''k'', OArray [OInteger 7, OBoolean True, OString (Some [CHR 0x0A])])]"
  let ?node = "CObject [(''k'', CArray [CNumber (dbl_of_int 7), CBool True, CString [CHR 0x0A]])]"
  have "show_int 7 = ''7''" by code_simp
  then have t: "compact sample_cjson_lib ?node = ''{\"k\":['' @ ''7,true,'' @ [DQUOTE, BSLASH, CHR ''n'', DQUOTE] @ '']}''"
    by (simp add: quoted_def escape_string_def escape_char_def number_text_int INT_MAX_def)
  have exact: "json_exact ?x" "obj_depth ?x \<le> kMarshalDepthCap"
    by (simp_all add: text_exact_def EXACT_INT_MAX_def kMarshalDepthCap_def)
  have node: "object_to_cjson (Some ?x) = Some ?node"
    using exact(2) by (simp add: object_to_cjson_eq key_text_def xstrndup_def cstr_def)
  have "printable sample_cjson_lib ?node" using sample_number_ok(1) by simp
  from object_text_roundtrip [OF sample_printf_ok exact node this, of 100]
  have "\<exists>node'. json_parse (cjson_parser sample_cjson_lib) (json_print (cjson_text sample_cjson_lib) ?node) 100 = Inr node'
      \<and> cjson_to_object node' = Some (Inr ?x)" unfolding t by (simp add: INT_MAX_def)
  moreover have "cjson_text sample_cjson_lib ?node = compact sample_cjson_lib ?node"
    by (rule cjson_text_compact [OF sample_printf_ok]) (simp only: t, simp add: INT_MAX_def)
  ultimately show ?thesis unfolding t by (simp add: json_print_def cstr_def)
qed

text \<open>The header of a session file is short enough.\<close>

lemma escape_string_bound: "length (escape_string s) \<le> 6 * length s"
proof (induction s)
  case (Cons c s)
  have "length (escape_char c) \<le> 6" by (simp add: escape_char_def print_u04x_def)
  then show ?case using Cons by (simp add: escape_string_def)
qed (simp add: escape_string_def)

lemma escape_plain: "(\<And>c. c \<in> set s \<Longrightarrow> plain_byte c \<and> c \<noteq> DQUOTE \<and> c \<noteq> BSLASH) \<Longrightarrow> escape_string s = s"
proof (induction s)
  case (Cons c s)
  then have "escape_char c = [c]" by (auto simp: escape_char_def plain_byte_def)
  then show ?case using Cons by (simp add: escape_string_def)
qed (simp add: escape_string_def)

lemma header_object:
  "session_header sid created = CObject [(''type'', CString ''session''), (''version'', CNumber (dbl_of_int 1)),
     (''id'', CString (cstr sid)), (''created'', CNumber (dbl_of_int created))]"
  by (simp add: session_header_def json_new_obj_def json_add_cstr_def json_add_int_def cstr_def)

lemma header_text:
  "compact lib (session_header sid created) =
     ''{'' @ quoted ''type'' @ '':'' @ quoted ''session'' @ '','' @ quoted ''version'' @ '':'' @ number_text lib (dbl_of_int 1)
       @ '','' @ quoted ''id'' @ '':'' @ quoted (cstr sid) @ '','' @ quoted ''created'' @ '':''
       @ number_text lib (dbl_of_int created) @ ''}''"
  by (simp add: header_object)

lemma header_ok:
  assumes "strtod_ok lib" "printf_ok lib" "number_ok lib (dbl_of_int 1)" "number_ok lib (dbl_of_int created)"
    "NUL \<notin> set sid" "length sid \<le> kSessionIdLen"
  shows "text_ok (cjson_parser lib) (cjson_text lib) (session_header sid created)"
    "length (cjson_text lib (session_header sid created)) \<le> MUA_SESSION_MAX_LINE"
proof -
  have sid: "cstr sid = sid" using assms(5) by (simp add: cstr_id)
  have "length (quoted sid) \<le> 6 * kSessionIdLen + 2" using escape_string_bound [of sid] assms(6) by (simp add: quoted_def)
  moreover have "length (number_text lib (dbl_of_int 1)) \<le> 25" "length (number_text lib (dbl_of_int created)) \<le> 25"
    by (rule number_text_length [OF assms(2)])+
  moreover have "length (quoted ''type'') = 6" "length (quoted ''session'') = 9" "length (quoted ''version'') = 9"
      "length (quoted ''id'') = 4" "length (quoted ''created'') = 9"
    by (simp_all add: quoted_def escape_string_def escape_char_def)
  ultimately have len: "length (compact lib (session_header sid created)) \<le> 300"
    unfolding header_text sid by (simp add: kSessionIdLen_def)
  have "text_ok (cjson_parser lib) (cjson_text lib) (session_header sid created)"
    using len unfolding header_object
    by (intro cjson_text_ok assms(1,2)) (use assms(3-5) sid in \<open>simp_all add: CJSON_NESTING_LIMIT_def INT_MAX_def\<close>)
  then show "text_ok (cjson_parser lib) (cjson_text lib) (session_header sid created)" .
  have "cjson_text lib (session_header sid created) = compact lib (session_header sid created)"
    using len by (intro cjson_text_compact assms(2)) (simp add: INT_MAX_def)
  then show "length (cjson_text lib (session_header sid created)) \<le> MUA_SESSION_MAX_LINE"
    using len by (simp only: MUA_SESSION_MAX_LINE_def)
qed

text \<open>A tree the library carries in a line of a session: an object of at most 64 nestings, within the sizes of C.\<close>

definition carries :: "cjson_lib \<Rightarrow> cjson \<Rightarrow> bool" where
  "carries lib m \<longleftrightarrow> (case m of CObject _ \<Rightarrow> True | _ \<Rightarrow> False) \<and> printable lib m
     \<and> cj_depth m \<le> 64 \<and> length (compact lib m) + 2 \<le> INT_MAX"

text \<open>C2. A conversation is kept with the bundled library as with an ideal one: after a session has been created and any
  objects of at most 64 nestings appended, whatever the writes do, reading the file yields exactly the
  acknowledged messages, and at most one more only after a write failed. Of the C library it takes that the
  numbers are read back as they are printed.\<close>

theorem session_reload_cjson:
  assumes "strtod_ok lib" "printf_ok lib" "number_ok lib (dbl_of_int 1)" "number_ok lib (dbl_of_int created)"
    and "session_new (cjson_text lib) env (Some (stamp, created)) opens disk = Inr s0"
    and "NUL \<notin> set (ss_id s0)" "ss_id s0 \<noteq> []" "length (ss_id s0) \<le> kSessionIdLen"
    and "\<forall>(os, m) \<in> set ops. carries lib m"
    and "session_run (cjson_text lib) s0 ops = s"
    and "delivered rs (length (ss_file s)) 0 = Some (ss_file s)" "path \<noteq> []"
  shows "\<exists>s' xs. session_load (cjson_parser lib) (file_of rs (ss_file s)) (Some path) = Inr s'
    \<and> ss_id s' = ss_id s0 \<and> ss_messages s' = ss_messages s @ xs \<and> length xs \<le> 1
    \<and> (ss_poisoned s \<or> (xs = [] \<and> \<not> ss_needs_heal s'))"
proof (rule session_reload_keeps_acknowledged [OF assms(5) _ assms(10-12)])
  have "text_ok (cjson_parser lib) (cjson_text lib) m" if "(os, m) \<in> set ops" for os m
  proof -
    have m: "carries lib m" using assms(9) that by auto
    then obtain kvs where "m = CObject kvs" by (auto simp: carries_def split: cjson.splits)
    then show ?thesis using m cjson_text_ok [OF assms(1,2), of kvs] by (simp only: carries_def CJSON_NESTING_LIMIT_def)
  qed
  then show "run_ok (cjson_parser lib) (cjson_text lib) (session_header (ss_id s0) created) (ss_id s0) ops"
    using header_ok [OF assms(1-4,6,8)] assms(6-8) by (auto simp: run_ok_def)
qed

text \<open>A session with one message, written and read back.\<close>

definition sample_line :: string where
  "sample_line = ''{\"role\":\"user\"}''"

definition sample_header :: string where
  "sample_header = ''{\"type\":\"session\",\"version\":1,\"id\":\"20250101T000000_00\",\"created\":7}''"

lemma sample_stored_texts:
  "cjson_text sample_cjson_lib toy_message = sample_line"
  "cjson_text sample_cjson_lib (session_header ''20250101T000000_00'' 7) = sample_header"
  "carries sample_cjson_lib toy_message"
proof -
  have plain: "escape_string ''role'' = ''role''" "escape_string ''user'' = ''user''" "escape_string ''type'' = ''type''"
    "escape_string ''session'' = ''session''" "escape_string ''version'' = ''version''" "escape_string ''id'' = ''id''"
    "escape_string ''20250101T000000_00'' = ''20250101T000000_00''" "escape_string ''created'' = ''created''"
    by (rule escape_plain, auto simp: plain_byte_def)+
  have "show_int 7 = ''7''" "show_int 1 = ''1''" by code_simp+
  then have h: "compact sample_cjson_lib (session_header ''20250101T000000_00'' 7) = sample_header"
    by (simp add: header_text plain quoted_def number_text_int INT_MAX_def sample_header_def cstr_def)
  have m: "compact sample_cjson_lib toy_message = sample_line"
    by (simp add: toy_message_def plain quoted_def sample_line_def)
  have "length sample_line = 15" "length sample_header = 68" by (simp_all add: sample_line_def sample_header_def)
  then have len: "length sample_line + 2 \<le> INT_MAX" "length sample_header + 2 \<le> INT_MAX" by (simp_all add: INT_MAX_def)
  show "cjson_text sample_cjson_lib toy_message = sample_line"
    using cjson_text_compact [OF sample_printf_ok len(1) [folded m]] m by simp
  show "cjson_text sample_cjson_lib (session_header ''20250101T000000_00'' 7) = sample_header"
    using cjson_text_compact [OF sample_printf_ok len(2) [folded h]] h by simp
  show "carries sample_cjson_lib toy_message"
    unfolding carries_def m using len by (simp add: toy_message_def CJSON_NESTING_LIMIT_def)
qed

lemma sample_cstr: "cstr sample_line = sample_line" "cstr sample_header = sample_header"
  by (simp_all add: sample_line_def sample_header_def cstr_def)

definition sample_stored :: session_state where
  "sample_stored = toy_state\<lparr>ss_file := sample_header @ [LF]\<rparr>"

lemma sample_stored_new:
  "session_new (cjson_text sample_cjson_lib) toy_env (Some (''20250101T000000'', 7)) (\<lambda>_. None) good_disk = Inr sample_stored"
proof -
  have n: "show_nat 0 = ''0''" by code_simp
  have tries: "write_tries good_disk n 0 kSessionEintrMax r = Wrote n" for n r
    by (simp add: kSessionEintrMax_def good_disk_def numeral_eq_Suc)
  have ops: "open_fresh (\<lambda>_. None) dir ''20250101T000000'' = Inr ''20250101T000000_00.jsonl''" for dir
    by (simp add: open_fresh_def kSessionIdAttempts_def numeral_eq_Suc show_nat2_def n kSessionNameLen_def)
  have dir: "sessions_dir toy_env = Inr ''d/sessions''"
    by (simp add: sessions_dir_def paths_state_dir_def xdg_dir_def nonempty_getenv_def toy_env_def paths_join_def
        paths_ensure_dir_def mkdir_one_def xstrdup_def cstr_def Let_def upt_rec numeral_eq_Suc)
  have j: "paths_join ''d/sessions'' ''20250101T000000_00.jsonl'' = ''d/sessions/20250101T000000_00.jsonl''"
    by (simp add: paths_join_def Let_def)
  show ?thesis
    by (simp add: session_new_def dir ops j Let_def write_header_def json_print_def sample_stored_texts sample_cstr write_line_def
        tries kSessionIdLen_def sample_stored_def toy_state_def state_alloc_def)
qed

lemma sample_stored_run:
  "session_run (cjson_text sample_cjson_lib) sample_stored [(good_disk, toy_message)] =
     sample_stored\<lparr>ss_file := sample_header @ [LF] @ sample_line @ [LF], ss_messages := [toy_message], ss_count := 1\<rparr>"
proof -
  have tries: "write_tries good_disk n 0 kSessionEintrMax r = Wrote n" for n r
    by (simp add: kSessionEintrMax_def good_disk_def numeral_eq_Suc)
  have role: "\<not> (case toy_message of CObject _ \<Rightarrow> json_get_cstr toy_message ''role'' = None | _ \<Rightarrow> True)"
    by (simp add: toy_message_def json_get_cstr_def)
  have "length sample_line = 15" by (simp add: sample_line_def)
  then have "session_append (cjson_text sample_cjson_lib) good_disk sample_stored (Some toy_message) =
     (None, sample_stored\<lparr>ss_file := sample_header @ [LF] @ sample_line @ [LF], ss_messages := [toy_message], ss_count := 1\<rparr>)"
    using role
    by (simp add: session_append_def sample_stored_def toy_state_def state_alloc_def MUA_SESSION_MAX_MESSAGES_def
        MUA_SESSION_MAX_LINE_def json_print_def sample_stored_texts sample_cstr write_line_def tries Let_def)
  then show ?thesis by simp
qed

theorem session_reload_cjson_witness:
  "\<exists>s'. session_load (cjson_parser sample_cjson_lib)
       (file_of [Got (sample_header @ [LF] @ sample_line @ [LF])] (sample_header @ [LF] @ sample_line @ [LF])) (Some ''p'') = Inr s'
     \<and> ss_messages s' = [toy_message]"
proof -
  let ?f = "sample_header @ [LF] @ sample_line @ [LF]"
  have rd: "delivered [Got ?f] (length ?f) 0 = Some ?f"
    by (simp add: sample_line_def sample_header_def kSessionReadChunk_def Let_def)
  have id: "ss_id sample_stored = ''20250101T000000_00''" by (simp add: sample_stored_def toy_state_def)
  have "\<not> ss_poisoned (session_run (cjson_text sample_cjson_lib) sample_stored [(good_disk, toy_message)])"
    unfolding sample_stored_run by (simp add: sample_stored_def toy_state_def state_alloc_def)
  moreover have "\<exists>s' xs. session_load (cjson_parser sample_cjson_lib) (file_of [Got ?f] ?f) (Some ''p'') = Inr s'
    \<and> ss_id s' = ss_id sample_stored
    \<and> ss_messages s' = ss_messages (session_run (cjson_text sample_cjson_lib) sample_stored [(good_disk, toy_message)]) @ xs
    \<and> length xs \<le> 1
    \<and> (ss_poisoned (session_run (cjson_text sample_cjson_lib) sample_stored [(good_disk, toy_message)]) \<or> (xs = [] \<and> \<not> ss_needs_heal s'))"
    using session_reload_cjson [OF sample_strtod_ok sample_printf_ok sample_number_ok(2,1) sample_stored_new _ _ _ _ refl,
        of "[(good_disk, toy_message)]" "[Got ?f]" "''p''"] sample_stored_texts(3) rd
    unfolding sample_stored_run by (simp add: id kSessionIdLen_def)
  ultimately show ?thesis unfolding sample_stored_run by auto
qed

end
