(* ===== verification/CjsonTree.thy ===== *)
theory CjsonTree
  imports CjsonPrint "HOL-Library.Monad_Syntax"
begin

text \<open>
  The trees of the bundled cJSON library as they lie in memory: nodes with their links, strings, ownership.
  A pointer is an address or \<open>None\<close>; the heap maps the live addresses to nodes and to strings. An access to
  an address that is not live, a dereferenced \<open>NULL\<close> and a second release are \<open>None\<close>. The type flags are
  the type and two booleans; \<open>valueint\<close> is a function of \<open>valuedouble\<close> (\<open>CjsonPrint\<close>). Allocation does not
  fail, the order of the addresses it gives carries no meaning, and keys and strings are not \<open>NULL\<close>.
\<close>

type_synonym addr = nat

datatype cj_type = TInvalid | TFalse | TTrue | TNull | TNumber | TString | TArray | TObject | TRaw

record cj_node =
  nd_next :: "addr option"
  nd_prev :: "addr option"
  nd_child :: "addr option"
  nd_type :: cj_type
  nd_reference :: bool
  nd_const :: bool
  nd_valuestring :: "addr option"
  nd_valuedouble :: dbl
  nd_string :: "addr option"

record cj_heap =
  ch_nodes :: "addr \<Rightarrow> cj_node option"
  ch_strings :: "addr \<Rightarrow> string option"
  ch_fresh :: addr

definition write_node :: "addr \<Rightarrow> (cj_node \<Rightarrow> cj_node) \<Rightarrow> cj_heap \<Rightarrow> cj_heap option" where
  "write_node a f h =
     (case ch_nodes h a of None \<Rightarrow> None | Some n \<Rightarrow> Some (h\<lparr>ch_nodes := (ch_nodes h)(a \<mapsto> f n)\<rparr>))"

definition release_node :: "addr \<Rightarrow> cj_heap \<Rightarrow> cj_heap option" where
  "release_node a h = (case ch_nodes h a of None \<Rightarrow> None | Some n \<Rightarrow> Some (h\<lparr>ch_nodes := (ch_nodes h)(a := None)\<rparr>))"

definition release_string :: "addr \<Rightarrow> cj_heap \<Rightarrow> cj_heap option" where
  "release_string a h = (case ch_strings h a of None \<Rightarrow> None | Some s \<Rightarrow> Some (h\<lparr>ch_strings := (ch_strings h)(a := None)\<rparr>))"

section \<open>Creation\<close>

definition zero_node :: cj_node where
  "zero_node = \<lparr>nd_next = None, nd_prev = None, nd_child = None, nd_type = TInvalid, nd_reference = False,
     nd_const = False, nd_valuestring = None, nd_valuedouble = 0, nd_string = None\<rparr>"

text \<open>\<open>cJSON_New_Item\<close>, with the fields that its caller sets next.\<close>

definition cJSON_New_Item :: "(cj_node \<Rightarrow> cj_node) \<Rightarrow> cj_heap \<Rightarrow> addr \<times> cj_heap" where
  "cJSON_New_Item f h =
     (ch_fresh h, h\<lparr>ch_nodes := (ch_nodes h)(ch_fresh h \<mapsto> f zero_node), ch_fresh := ch_fresh h + 1\<rparr>)"

definition cJSON_strdup :: "string \<Rightarrow> cj_heap \<Rightarrow> addr \<times> cj_heap" where
  "cJSON_strdup s h =
     (ch_fresh h, h\<lparr>ch_strings := (ch_strings h)(ch_fresh h \<mapsto> s), ch_fresh := ch_fresh h + 1\<rparr>)"

definition cJSON_CreateNull :: "cj_heap \<Rightarrow> addr \<times> cj_heap" where
  "cJSON_CreateNull = cJSON_New_Item (nd_type_update (\<lambda>_. TNull))"

definition cJSON_CreateTrue :: "cj_heap \<Rightarrow> addr \<times> cj_heap" where
  "cJSON_CreateTrue = cJSON_New_Item (nd_type_update (\<lambda>_. TTrue))"

definition cJSON_CreateFalse :: "cj_heap \<Rightarrow> addr \<times> cj_heap" where
  "cJSON_CreateFalse = cJSON_New_Item (nd_type_update (\<lambda>_. TFalse))"

definition cJSON_CreateBool :: "bool \<Rightarrow> cj_heap \<Rightarrow> addr \<times> cj_heap" where
  "cJSON_CreateBool b = cJSON_New_Item (nd_type_update (\<lambda>_. if b then TTrue else TFalse))"

definition cJSON_CreateNumber :: "dbl \<Rightarrow> cj_heap \<Rightarrow> addr \<times> cj_heap" where
  "cJSON_CreateNumber num = cJSON_New_Item (\<lambda>n. n\<lparr>nd_type := TNumber, nd_valuedouble := num\<rparr>)"

definition cJSON_CreateString :: "string \<Rightarrow> cj_heap \<Rightarrow> addr \<times> cj_heap" where
  "cJSON_CreateString s h =
     (case cJSON_strdup s h of (a, h) \<Rightarrow> cJSON_New_Item (\<lambda>n. n\<lparr>nd_type := TString, nd_valuestring := Some a\<rparr>) h)"

definition cJSON_CreateStringReference :: "addr \<Rightarrow> cj_heap \<Rightarrow> addr \<times> cj_heap" where
  "cJSON_CreateStringReference string =
     cJSON_New_Item (\<lambda>n. n\<lparr>nd_type := TString, nd_reference := True, nd_valuestring := Some string\<rparr>)"

definition cJSON_CreateObjectReference :: "addr option \<Rightarrow> cj_heap \<Rightarrow> addr \<times> cj_heap" where
  "cJSON_CreateObjectReference child =
     cJSON_New_Item (\<lambda>n. n\<lparr>nd_type := TObject, nd_reference := True, nd_child := child\<rparr>)"

definition cJSON_CreateArrayReference :: "addr option \<Rightarrow> cj_heap \<Rightarrow> addr \<times> cj_heap" where
  "cJSON_CreateArrayReference child =
     cJSON_New_Item (\<lambda>n. n\<lparr>nd_type := TArray, nd_reference := True, nd_child := child\<rparr>)"

definition cJSON_CreateRaw :: "string \<Rightarrow> cj_heap \<Rightarrow> addr \<times> cj_heap" where
  "cJSON_CreateRaw raw h =
     (case cJSON_strdup raw h of (a, h) \<Rightarrow> cJSON_New_Item (\<lambda>n. n\<lparr>nd_type := TRaw, nd_valuestring := Some a\<rparr>) h)"

definition cJSON_CreateArray :: "cj_heap \<Rightarrow> addr \<times> cj_heap" where
  "cJSON_CreateArray = cJSON_New_Item (nd_type_update (\<lambda>_. TArray))"

definition cJSON_CreateObject :: "cj_heap \<Rightarrow> addr \<times> cj_heap" where
  "cJSON_CreateObject = cJSON_New_Item (nd_type_update (\<lambda>_. TObject))"

text \<open>A shallow copy that owns neither its child nor its string, and has no key.\<close>

definition create_reference :: "addr option \<Rightarrow> cj_heap \<Rightarrow> (addr option \<times> cj_heap) option" where
  "create_reference item h =
     (case item of
        None \<Rightarrow> Some (None, h)
      | Some p \<Rightarrow>
          do {
            n \<leftarrow> ch_nodes h p;
            let (r, h) = cJSON_New_Item (\<lambda>_. n\<lparr>nd_string := None, nd_reference := True, nd_next := None, nd_prev := None\<rparr>) h;
            Some (Some r, h)
          })"

section \<open>Release\<close>

partial_function (option) cJSON_Delete :: "addr option \<Rightarrow> cj_heap \<Rightarrow> cj_heap option" where
  "cJSON_Delete item h =
     (case item of
        None \<Rightarrow> Some h
      | Some p \<Rightarrow>
          do {
            n \<leftarrow> ch_nodes h p;
            h \<leftarrow> (if \<not> nd_reference n then cJSON_Delete (nd_child n) h else Some h);
            h \<leftarrow> (case nd_valuestring n of Some s \<Rightarrow> if \<not> nd_reference n then release_string s h else Some h | None \<Rightarrow> Some h);
            h \<leftarrow> (case nd_string n of Some s \<Rightarrow> if \<not> nd_const n then release_string s h else Some h | None \<Rightarrow> Some h);
            h \<leftarrow> release_node p h;
            cJSON_Delete (nd_next n) h
          })"

section \<open>Reading\<close>

partial_function (option) count_children :: "addr option \<Rightarrow> cj_heap \<Rightarrow> nat \<Rightarrow> nat option" where
  "count_children child h count =
     (case child of None \<Rightarrow> Some count | Some p \<Rightarrow> Option.bind (ch_nodes h p) (\<lambda>n. count_children (nd_next n) h (count + 1)))"

text \<open>The conversion of a size to \<open>int\<close>.\<close>

definition c_int :: "nat \<Rightarrow> int" where
  "c_int n = sint (word_of_nat n :: 32 word)"

definition cJSON_GetArraySize :: "addr option \<Rightarrow> cj_heap \<Rightarrow> int option" where
  "cJSON_GetArraySize array h =
     (case array of
        None \<Rightarrow> Some 0
      | Some a \<Rightarrow> Option.bind (ch_nodes h a) (\<lambda>n. map_option c_int (count_children (nd_child n) h 0)))"

fun item_from :: "nat \<Rightarrow> addr option \<Rightarrow> cj_heap \<Rightarrow> addr option option" where
  "item_from index None h = Some None"
| "item_from 0 (Some p) h = Some (Some p)"
| "item_from (Suc index) (Some p) h = Option.bind (ch_nodes h p) (\<lambda>n. item_from index (nd_next n) h)"

definition get_array_item :: "addr option \<Rightarrow> nat \<Rightarrow> cj_heap \<Rightarrow> addr option option" where
  "get_array_item array index h =
     (case array of None \<Rightarrow> Some None | Some a \<Rightarrow> Option.bind (ch_nodes h a) (\<lambda>n. item_from index (nd_child n) h))"

definition cJSON_GetArrayItem :: "addr option \<Rightarrow> int \<Rightarrow> cj_heap \<Rightarrow> addr option option" where
  "cJSON_GetArrayItem array index h = (if index < 0 then Some None else get_array_item array (nat index) h)"

definition char_lower :: "char \<Rightarrow> char" where
  "char_lower c = (if of_char (CHR ''A'') \<le> (of_char c :: nat) \<and> (of_char c :: nat) \<le> of_char (CHR ''Z'') then char_of (of_char c + 32 :: nat) else c)"

text \<open>
  The walk of \<open>get_object_item\<close>: case sensitive it stops at an item without a key, which is not the
  one looked for; insensitive it passes such items.
\<close>

partial_function (option) member_from :: "bool \<Rightarrow> string \<Rightarrow> addr option \<Rightarrow> cj_heap \<Rightarrow> addr option option" where
  "member_from case_sensitive name current h =
     (case current of
        None \<Rightarrow> Some None
      | Some p \<Rightarrow>
          do {
            n \<leftarrow> ch_nodes h p;
            case nd_string n of
              None \<Rightarrow> if case_sensitive then Some None else member_from case_sensitive name (nd_next n) h
            | Some a \<Rightarrow>
                do {
                  s \<leftarrow> ch_strings h a;
                  if (if case_sensitive then s = name else map char_lower s = map char_lower name) then Some (Some p)
                  else member_from case_sensitive name (nd_next n) h
                }
          })"

definition get_object_item :: "addr option \<Rightarrow> string \<Rightarrow> bool \<Rightarrow> cj_heap \<Rightarrow> addr option option" where
  "get_object_item object name case_sensitive h =
     (case object of
        None \<Rightarrow> Some None
      | Some a \<Rightarrow> Option.bind (ch_nodes h a) (\<lambda>n. member_from case_sensitive name (nd_child n) h))"

definition cJSON_GetObjectItem :: "addr option \<Rightarrow> string \<Rightarrow> cj_heap \<Rightarrow> addr option option" where
  "cJSON_GetObjectItem object string = get_object_item object string False"

definition cJSON_GetObjectItemCaseSensitive :: "addr option \<Rightarrow> string \<Rightarrow> cj_heap \<Rightarrow> addr option option" where
  "cJSON_GetObjectItemCaseSensitive object string = get_object_item object string True"

definition cJSON_HasObjectItem :: "addr option \<Rightarrow> string \<Rightarrow> cj_heap \<Rightarrow> bool option" where
  "cJSON_HasObjectItem object string h = map_option (\<lambda>p. p \<noteq> None) (cJSON_GetObjectItem object string h)"

section \<open>Adding\<close>

definition suffix_object :: "addr \<Rightarrow> addr \<Rightarrow> cj_heap \<Rightarrow> cj_heap option" where
  "suffix_object prev item h =
     do {
       h \<leftarrow> write_node prev (nd_next_update (\<lambda>_. Some item)) h;
       write_node item (nd_prev_update (\<lambda>_. Some prev)) h
     }"

definition add_item_to_array :: "addr option \<Rightarrow> addr option \<Rightarrow> cj_heap \<Rightarrow> (bool \<times> cj_heap) option" where
  "add_item_to_array array item h =
     (case (array, item) of
        (Some a, Some i) \<Rightarrow>
          if a = i then Some (False, h)
          else
            do {
              n \<leftarrow> ch_nodes h a;
              h \<leftarrow> (case nd_child n of
                     None \<Rightarrow>
                       do {
                         h \<leftarrow> write_node a (nd_child_update (\<lambda>_. Some i)) h;
                         h \<leftarrow> write_node i (nd_prev_update (\<lambda>_. Some i)) h;
                         write_node i (nd_next_update (\<lambda>_. None)) h
                       }
                   | Some child \<Rightarrow>
                       do {
                         c \<leftarrow> ch_nodes h child;
                         case nd_prev c of
                           None \<Rightarrow> Some h
                         | Some last_item \<Rightarrow>
                             do {
                               h \<leftarrow> suffix_object last_item i h;
                               n \<leftarrow> ch_nodes h a;
                               first \<leftarrow> nd_child n;
                               write_node first (nd_prev_update (\<lambda>_. Some i)) h
                             }
                       });
              Some (True, h)
            }
      | _ \<Rightarrow> Some (False, h))"

definition cJSON_AddItemToArray :: "addr option \<Rightarrow> addr option \<Rightarrow> cj_heap \<Rightarrow> (bool \<times> cj_heap) option" where
  "cJSON_AddItemToArray = add_item_to_array"

text \<open>The key is copied, or taken as it is when it is constant; the old key is released unless it was constant.\<close>

definition add_item_to_object ::
    "addr option \<Rightarrow> string \<Rightarrow> addr option \<Rightarrow> addr option \<Rightarrow> cj_heap \<Rightarrow> (bool \<times> cj_heap) option" where
  "add_item_to_object object string constant_key item h =
     (case (object, item) of
        (Some ob, Some i) \<Rightarrow>
          if ob = i then Some (False, h)
          else
            do {
              let (new_key, h) = (case constant_key of Some a \<Rightarrow> (a, h) | None \<Rightarrow> cJSON_strdup string h);
              n \<leftarrow> ch_nodes h i;
              h \<leftarrow> (case nd_string n of Some old \<Rightarrow> if \<not> nd_const n then release_string old h else Some h | None \<Rightarrow> Some h);
              h \<leftarrow> write_node i (\<lambda>n. n\<lparr>nd_string := Some new_key, nd_const := constant_key \<noteq> None\<rparr>) h;
              add_item_to_array (Some ob) (Some i) h
            }
      | _ \<Rightarrow> Some (False, h))"

definition cJSON_AddItemToObject :: "addr option \<Rightarrow> string \<Rightarrow> addr option \<Rightarrow> cj_heap \<Rightarrow> (bool \<times> cj_heap) option" where
  "cJSON_AddItemToObject object string item = add_item_to_object object string None item"

definition cJSON_AddItemToObjectCS :: "addr option \<Rightarrow> addr \<Rightarrow> addr option \<Rightarrow> cj_heap \<Rightarrow> (bool \<times> cj_heap) option" where
  "cJSON_AddItemToObjectCS object string item = add_item_to_object object [] (Some string) item"

definition cJSON_AddItemReferenceToArray :: "addr option \<Rightarrow> addr option \<Rightarrow> cj_heap \<Rightarrow> (bool \<times> cj_heap) option" where
  "cJSON_AddItemReferenceToArray array item h =
     (if array = None then Some (False, h)
      else do { (r, h) \<leftarrow> create_reference item h; add_item_to_array array r h })"

definition cJSON_AddItemReferenceToObject :: "addr option \<Rightarrow> string \<Rightarrow> addr option \<Rightarrow> cj_heap \<Rightarrow> (bool \<times> cj_heap) option" where
  "cJSON_AddItemReferenceToObject object string item h =
     (if object = None then Some (False, h)
      else do { (r, h) \<leftarrow> create_reference item h; add_item_to_object object string None r h })"

text \<open>The \<open>cJSON_Add...ToObject\<close> functions, over the function that creates the item.\<close>

definition add_created :: "(cj_heap \<Rightarrow> addr \<times> cj_heap) \<Rightarrow> addr option \<Rightarrow> string \<Rightarrow> cj_heap \<Rightarrow> (addr option \<times> cj_heap) option" where
  "add_created create object name h =
     (case create h of
        (i, h) \<Rightarrow>
          do {
            (ok, h) \<leftarrow> add_item_to_object object name None (Some i) h;
            if ok then Some (Some i, h) else do { h \<leftarrow> cJSON_Delete (Some i) h; Some (None, h) }
          })"

definition cJSON_AddNullToObject :: "addr option \<Rightarrow> string \<Rightarrow> cj_heap \<Rightarrow> (addr option \<times> cj_heap) option" where
  "cJSON_AddNullToObject = add_created cJSON_CreateNull"

definition cJSON_AddTrueToObject :: "addr option \<Rightarrow> string \<Rightarrow> cj_heap \<Rightarrow> (addr option \<times> cj_heap) option" where
  "cJSON_AddTrueToObject = add_created cJSON_CreateTrue"

definition cJSON_AddFalseToObject :: "addr option \<Rightarrow> string \<Rightarrow> cj_heap \<Rightarrow> (addr option \<times> cj_heap) option" where
  "cJSON_AddFalseToObject = add_created cJSON_CreateFalse"

definition cJSON_AddRawToObject :: "addr option \<Rightarrow> string \<Rightarrow> string \<Rightarrow> cj_heap \<Rightarrow> (addr option \<times> cj_heap) option" where
  "cJSON_AddRawToObject object name raw = add_created (cJSON_CreateRaw raw) object name"

definition cJSON_AddBoolToObject :: "addr option \<Rightarrow> string \<Rightarrow> bool \<Rightarrow> cj_heap \<Rightarrow> (addr option \<times> cj_heap) option" where
  "cJSON_AddBoolToObject object name b = add_created (cJSON_CreateBool b) object name"

definition cJSON_AddNumberToObject :: "addr option \<Rightarrow> string \<Rightarrow> dbl \<Rightarrow> cj_heap \<Rightarrow> (addr option \<times> cj_heap) option" where
  "cJSON_AddNumberToObject object name d = add_created (cJSON_CreateNumber d) object name"

definition cJSON_AddStringToObject :: "addr option \<Rightarrow> string \<Rightarrow> string \<Rightarrow> cj_heap \<Rightarrow> (addr option \<times> cj_heap) option" where
  "cJSON_AddStringToObject object name s = add_created (cJSON_CreateString s) object name"

definition cJSON_AddObjectToObject :: "addr option \<Rightarrow> string \<Rightarrow> cj_heap \<Rightarrow> (addr option \<times> cj_heap) option" where
  "cJSON_AddObjectToObject = add_created cJSON_CreateObject"

definition cJSON_AddArrayToObject :: "addr option \<Rightarrow> string \<Rightarrow> cj_heap \<Rightarrow> (addr option \<times> cj_heap) option" where
  "cJSON_AddArrayToObject = add_created cJSON_CreateArray"

section \<open>Editing\<close>

definition cJSON_DetachItemViaPointer :: "addr option \<Rightarrow> addr option \<Rightarrow> cj_heap \<Rightarrow> (addr option \<times> cj_heap) option" where
  "cJSON_DetachItemViaPointer parent item h =
     (case (parent, item) of
        (Some a, Some i) \<Rightarrow>
          do {
            n \<leftarrow> ch_nodes h a;
            it \<leftarrow> ch_nodes h i;
            h \<leftarrow> (if nd_child n \<noteq> Some i
                  then do { p \<leftarrow> nd_prev it; write_node p (nd_next_update (\<lambda>_. nd_next it)) h } else Some h);
            it \<leftarrow> ch_nodes h i;
            h \<leftarrow> (case nd_next it of Some q \<Rightarrow> write_node q (nd_prev_update (\<lambda>_. nd_prev it)) h | None \<Rightarrow> Some h);
            it \<leftarrow> ch_nodes h i;
            h \<leftarrow> (if nd_child n = Some i then write_node a (nd_child_update (\<lambda>_. nd_next it)) h
                  else if nd_next it = None
                  then do { first \<leftarrow> nd_child n; write_node first (nd_prev_update (\<lambda>_. nd_prev it)) h } else Some h);
            h \<leftarrow> write_node i (\<lambda>it. it\<lparr>nd_prev := None, nd_next := None\<rparr>) h;
            Some (Some i, h)
          }
      | _ \<Rightarrow> Some (None, h))"

definition cJSON_DetachItemFromArray :: "addr option \<Rightarrow> int \<Rightarrow> cj_heap \<Rightarrow> (addr option \<times> cj_heap) option" where
  "cJSON_DetachItemFromArray array which h =
     (if which < 0 then Some (None, h)
      else do { item \<leftarrow> get_array_item array (nat which) h; cJSON_DetachItemViaPointer array item h })"

definition cJSON_DeleteItemFromArray :: "addr option \<Rightarrow> int \<Rightarrow> cj_heap \<Rightarrow> cj_heap option" where
  "cJSON_DeleteItemFromArray array which h =
     do { (item, h) \<leftarrow> cJSON_DetachItemFromArray array which h; cJSON_Delete item h }"

definition detach_from_object :: "bool \<Rightarrow> addr option \<Rightarrow> string \<Rightarrow> cj_heap \<Rightarrow> (addr option \<times> cj_heap) option" where
  "detach_from_object case_sensitive object string h =
     do { item \<leftarrow> get_object_item object string case_sensitive h; cJSON_DetachItemViaPointer object item h }"

definition cJSON_DetachItemFromObject :: "addr option \<Rightarrow> string \<Rightarrow> cj_heap \<Rightarrow> (addr option \<times> cj_heap) option" where
  "cJSON_DetachItemFromObject = detach_from_object False"

definition cJSON_DetachItemFromObjectCaseSensitive :: "addr option \<Rightarrow> string \<Rightarrow> cj_heap \<Rightarrow> (addr option \<times> cj_heap) option" where
  "cJSON_DetachItemFromObjectCaseSensitive = detach_from_object True"

definition cJSON_DeleteItemFromObject :: "addr option \<Rightarrow> string \<Rightarrow> cj_heap \<Rightarrow> cj_heap option" where
  "cJSON_DeleteItemFromObject object string h =
     do { (item, h) \<leftarrow> cJSON_DetachItemFromObject object string h; cJSON_Delete item h }"

definition cJSON_DeleteItemFromObjectCaseSensitive :: "addr option \<Rightarrow> string \<Rightarrow> cj_heap \<Rightarrow> cj_heap option" where
  "cJSON_DeleteItemFromObjectCaseSensitive object string h =
     do { (item, h) \<leftarrow> cJSON_DetachItemFromObjectCaseSensitive object string h; cJSON_Delete item h }"

definition cJSON_InsertItemInArray :: "addr option \<Rightarrow> int \<Rightarrow> addr option \<Rightarrow> cj_heap \<Rightarrow> (bool \<times> cj_heap) option" where
  "cJSON_InsertItemInArray array which newitem h =
     (case newitem of
        None \<Rightarrow> Some (False, h)
      | Some i \<Rightarrow>
          if which < 0 then Some (False, h)
          else
            do {
              found \<leftarrow> get_array_item array (nat which) h;
              case (array, found) of
                (Some a, Some after) \<Rightarrow>
                  do {
                    n \<leftarrow> ch_nodes h a;
                    af \<leftarrow> ch_nodes h after;
                    if nd_child n \<noteq> Some after \<and> nd_prev af = None then Some (False, h)
                    else
                      do {
                        h \<leftarrow> write_node i (\<lambda>it. it\<lparr>nd_next := Some after, nd_prev := nd_prev af\<rparr>) h;
                        h \<leftarrow> write_node after (nd_prev_update (\<lambda>_. Some i)) h;
                        h \<leftarrow> (if nd_child n = Some after then write_node a (nd_child_update (\<lambda>_. Some i)) h
                              else do { p \<leftarrow> nd_prev af; write_node p (nd_next_update (\<lambda>_. Some i)) h });
                        Some (True, h)
                      }
                  }
              | _ \<Rightarrow> add_item_to_array array newitem h
            })"

definition cJSON_ReplaceItemViaPointer :: "addr option \<Rightarrow> addr option \<Rightarrow> addr option \<Rightarrow> cj_heap \<Rightarrow> (bool \<times> cj_heap) option" where
  "cJSON_ReplaceItemViaPointer parent item replacement h =
     (case parent of
        None \<Rightarrow> Some (False, h)
      | Some a \<Rightarrow>
          do {
            n \<leftarrow> ch_nodes h a;
            case (nd_child n, replacement, item) of
              (Some child, Some r, Some i) \<Rightarrow>
                if r = i then Some (True, h)
                else
                  do {
                    it \<leftarrow> ch_nodes h i;
                    h \<leftarrow> write_node r (\<lambda>rn. rn\<lparr>nd_next := nd_next it, nd_prev := nd_prev it\<rparr>) h;
                    h \<leftarrow> (case nd_next it of Some q \<Rightarrow> write_node q (nd_prev_update (\<lambda>_. Some r)) h | None \<Rightarrow> Some h);
                    h \<leftarrow> (if child = i
                          then
                            do {
                              c \<leftarrow> ch_nodes h child;
                              h \<leftarrow> (if nd_prev c = Some child then write_node r (nd_prev_update (\<lambda>_. Some r)) h else Some h);
                              write_node a (nd_child_update (\<lambda>_. Some r)) h
                            }
                          else
                            do {
                              rn \<leftarrow> ch_nodes h r;
                              h \<leftarrow> (case nd_prev rn of Some p \<Rightarrow> write_node p (nd_next_update (\<lambda>_. Some r)) h | None \<Rightarrow> Some h);
                              if nd_next rn = None then write_node child (nd_prev_update (\<lambda>_. Some r)) h else Some h
                            });
                    h \<leftarrow> write_node i (\<lambda>it. it\<lparr>nd_next := None, nd_prev := None\<rparr>) h;
                    h \<leftarrow> cJSON_Delete (Some i) h;
                    Some (True, h)
                  }
            | _ \<Rightarrow> Some (False, h)
          })"

definition cJSON_ReplaceItemInArray :: "addr option \<Rightarrow> int \<Rightarrow> addr option \<Rightarrow> cj_heap \<Rightarrow> (bool \<times> cj_heap) option" where
  "cJSON_ReplaceItemInArray array which newitem h =
     (if which < 0 then Some (False, h)
      else do { item \<leftarrow> get_array_item array (nat which) h; cJSON_ReplaceItemViaPointer array item newitem h })"

definition replace_item_in_object ::
    "addr option \<Rightarrow> string \<Rightarrow> addr option \<Rightarrow> bool \<Rightarrow> cj_heap \<Rightarrow> (bool \<times> cj_heap) option" where
  "replace_item_in_object object string replacement case_sensitive h =
     (case replacement of
        None \<Rightarrow> Some (False, h)
      | Some r \<Rightarrow>
          do {
            n \<leftarrow> ch_nodes h r;
            h \<leftarrow> (case nd_string n of Some old \<Rightarrow> if \<not> nd_const n then release_string old h else Some h | None \<Rightarrow> Some h);
            let (key, h) = cJSON_strdup string h;
            h \<leftarrow> write_node r (\<lambda>n. n\<lparr>nd_string := Some key, nd_const := False\<rparr>) h;
            item \<leftarrow> get_object_item object string case_sensitive h;
            cJSON_ReplaceItemViaPointer object item (Some r) h
          })"

definition cJSON_ReplaceItemInObject :: "addr option \<Rightarrow> string \<Rightarrow> addr option \<Rightarrow> cj_heap \<Rightarrow> (bool \<times> cj_heap) option" where
  "cJSON_ReplaceItemInObject object string newitem = replace_item_in_object object string newitem False"

definition cJSON_ReplaceItemInObjectCaseSensitive ::
    "addr option \<Rightarrow> string \<Rightarrow> addr option \<Rightarrow> cj_heap \<Rightarrow> (bool \<times> cj_heap) option" where
  "cJSON_ReplaceItemInObjectCaseSensitive object string newitem = replace_item_in_object object string newitem True"

section \<open>Copying\<close>

text \<open>
  \<open>cJSON_Duplicate\<close> with recursion, and its loop over the children: the new item, its last child so far
  and the child to copy next.
\<close>

datatype dup_call = DupItem addr | DupLoop addr "addr option" "addr option"

definition dup_node :: "addr \<Rightarrow> cj_heap \<Rightarrow> (addr \<times> cj_heap) option" where
  "dup_node p h =
     do {
       n \<leftarrow> ch_nodes h p;
       (vs, h) \<leftarrow> (case nd_valuestring n of
                    None \<Rightarrow> Some (None, h)
                  | Some a \<Rightarrow> do { s \<leftarrow> ch_strings h a; let (b, h) = cJSON_strdup s h; Some (Some b, h) });
       (key, h) \<leftarrow> (case nd_string n of
                     None \<Rightarrow> Some (None, h)
                   | Some a \<Rightarrow>
                       if nd_const n then Some (Some a, h)
                       else do { s \<leftarrow> ch_strings h a; let (b, h) = cJSON_strdup s h; Some (Some b, h) });
       Some (cJSON_New_Item (\<lambda>z. z\<lparr>nd_type := nd_type n, nd_const := nd_const n, nd_valuedouble := nd_valuedouble n,
                              nd_valuestring := vs, nd_string := key\<rparr>) h)
     }"

partial_function (option) dup_task :: "dup_call \<Rightarrow> cj_heap \<Rightarrow> (addr \<times> cj_heap) option" where
  "dup_task task h =
     (case task of
        DupItem p \<Rightarrow>
          do {
            n \<leftarrow> ch_nodes h p;
            (new, h) \<leftarrow> dup_node p h;
            dup_task (DupLoop new None (nd_child n)) h
          }
      | DupLoop new last_child child \<Rightarrow>
          (case child of
             None \<Rightarrow>
               do {
                 n \<leftarrow> ch_nodes h new;
                 h \<leftarrow> (case nd_child n of Some first \<Rightarrow> write_node first (nd_prev_update (\<lambda>_. last_child)) h | None \<Rightarrow> Some h);
                 Some (new, h)
               }
           | Some c \<Rightarrow>
               do {
                 (copy, h) \<leftarrow> dup_task (DupItem c) h;
                 h \<leftarrow> (case last_child of
                        Some l \<Rightarrow> suffix_object l copy h
                      | None \<Rightarrow> write_node new (nd_child_update (\<lambda>_. Some copy)) h);
                 n \<leftarrow> ch_nodes h c;
                 dup_task (DupLoop new (Some copy) (nd_next n)) h
               }))"

definition cJSON_Duplicate :: "addr option \<Rightarrow> bool \<Rightarrow> cj_heap \<Rightarrow> (addr option \<times> cj_heap) option" where
  "cJSON_Duplicate item recurse h =
     (case item of
        None \<Rightarrow> Some (None, h)
      | Some p \<Rightarrow>
          do {
            (new, h) \<leftarrow> (if recurse then dup_task (DupItem p) h else dup_node p h);
            Some (Some new, h)
          })"

end
