(* ===== verification/CjsonTreeProps.thy ===== *)
theory CjsonTreeProps
  imports CjsonTree
begin

text \<open>
  Trees of nodes that own their keys, strings and children, as a data type with addresses; where such a tree
  lies in a heap (\<open>tree_in\<close>) and the operations on it. A reference owns nothing below it.
\<close>

section \<open>Trees with addresses\<close>

datatype cval = VNull | VBool bool | VNumber dbl | VString addr string | VArray | VObject
  | VRef cj_type "addr option" "addr option" dbl

datatype ctree = CT (ct_addr: addr) (ct_key: "(addr \<times> string) option") (ct_val: cval) (ct_kids: "ctree list")

definition first_addr :: "ctree list \<Rightarrow> addr option \<Rightarrow> addr option" where
  "first_addr ts nx = (case ts of [] \<Rightarrow> nx | t # _ \<Rightarrow> Some (ct_addr t))"

definition last_addr :: "ctree list \<Rightarrow> addr option \<Rightarrow> addr option" where
  "last_addr ts pv = (if ts = [] then pv else Some (ct_addr (last ts)))"

fun val_type :: "cval \<Rightarrow> cj_type" where
  "val_type VNull = TNull"
| "val_type (VBool b) = (if b then TTrue else TFalse)"
| "val_type (VNumber d) = TNumber"
| "val_type (VString a s) = TString"
| "val_type VArray = TArray"
| "val_type VObject = TObject"
| "val_type (VRef ty ch vs d) = ty"

fun val_double :: "cval \<Rightarrow> dbl" where
  "val_double (VNumber d) = d"
| "val_double (VRef ty ch vs d) = d"
| "val_double _ = 0"

fun val_string :: "cval \<Rightarrow> addr option" where
  "val_string (VString a s) = Some a"
| "val_string (VRef ty ch vs d) = vs"
| "val_string _ = None"

fun val_child :: "cval \<Rightarrow> ctree list \<Rightarrow> addr option" where
  "val_child (VRef ty ch vs d) kids = ch"
| "val_child _ kids = first_addr kids None"

fun is_ref :: "cval \<Rightarrow> bool" where
  "is_ref (VRef ty ch vs d) = True"
| "is_ref _ = False"

definition node_of :: "(addr \<times> string) option \<Rightarrow> cval \<Rightarrow> ctree list \<Rightarrow> addr option \<Rightarrow> addr option \<Rightarrow> cj_node" where
  "node_of k v kids nx pv = \<lparr>nd_next = nx, nd_prev = pv, nd_child = val_child v kids, nd_type = val_type v,
     nd_reference = is_ref v, nd_const = False, nd_valuestring = val_string v, nd_valuedouble = val_double v,
     nd_string = map_option fst k\<rparr>"

lemma node_of_simps [simp]:
  "nd_next (node_of k v kids nx pv) = nx" "nd_prev (node_of k v kids nx pv) = pv"
  "nd_child (node_of k v kids nx pv) = val_child v kids" "nd_type (node_of k v kids nx pv) = val_type v"
  "nd_reference (node_of k v kids nx pv) = is_ref v" "\<not> nd_const (node_of k v kids nx pv)"
  "nd_valuestring (node_of k v kids nx pv) = val_string v" "nd_valuedouble (node_of k v kids nx pv) = val_double v"
  "nd_string (node_of k v kids nx pv) = map_option fst k"
  "(node_of k v kids nx pv)\<lparr>nd_next := nx'\<rparr> = node_of k v kids nx' pv"
  "(node_of k v kids nx pv)\<lparr>nd_prev := pv'\<rparr> = node_of k v kids nx pv'"
  by (simp_all add: node_of_def)

text \<open>The strings a node owns.\<close>

definition own_strings :: "(addr \<times> string) option \<Rightarrow> cval \<Rightarrow> (addr \<times> string) list" where
  "own_strings k v =
     (case v of VString a s \<Rightarrow> [(a, s)] | _ \<Rightarrow> []) @ (case k of Some b \<Rightarrow> [b] | None \<Rightarrow> [])"

definition strings_in :: "cj_heap \<Rightarrow> (addr \<times> string) list \<Rightarrow> bool" where
  "strings_in h bs \<longleftrightarrow> (\<forall>(a, s) \<in> set bs. ch_strings h a = Some s)"

fun addrs :: "ctree \<Rightarrow> addr list" where
  "addrs (CT a k v kids) = a # concat (map addrs kids)"

fun saddrs :: "ctree \<Rightarrow> addr list" where
  "saddrs (CT a k v kids) = map fst (own_strings k v) @ concat (map saddrs kids)"

abbreviation forest_addrs :: "ctree list \<Rightarrow> addr list" where
  "forest_addrs ts \<equiv> concat (map addrs ts)"

abbreviation forest_saddrs :: "ctree list \<Rightarrow> addr list" where
  "forest_saddrs ts \<equiv> concat (map saddrs ts)"

fun tree_in :: "cj_heap \<Rightarrow> ctree \<Rightarrow> addr option \<Rightarrow> addr option \<Rightarrow> bool"
  and seg_in :: "cj_heap \<Rightarrow> addr option \<Rightarrow> ctree list \<Rightarrow> addr option \<Rightarrow> bool"
where
  "tree_in h (CT a k v kids) nx pv \<longleftrightarrow>
     ch_nodes h a = Some (node_of k v kids nx pv) \<and> strings_in h (own_strings k v)
     \<and> seg_in h (last_addr kids None) kids None"
| "seg_in h pv [] nx \<longleftrightarrow> True"
| "seg_in h pv (t # ts) nx \<longleftrightarrow> tree_in h t (first_addr ts nx) pv \<and> seg_in h (Some (ct_addr t)) ts nx"

text \<open>Only arrays and objects have children, and all addresses are different.\<close>

fun shaped :: "ctree \<Rightarrow> bool" where
  "shaped (CT a k v kids) \<longleftrightarrow> (kids \<noteq> [] \<longrightarrow> v = VArray \<or> v = VObject) \<and> list_all shaped kids"

definition forest_ok :: "ctree list \<Rightarrow> bool" where
  "forest_ok ts \<longleftrightarrow> list_all shaped ts \<and> distinct (forest_addrs ts) \<and> distinct (forest_saddrs ts)"

section \<open>Segments\<close>

lemma first_addr_simps [simp]: "first_addr [] nx = nx" "first_addr (t # ts) nx = Some (ct_addr t)"
  by (simp_all add: first_addr_def)

lemma first_addr_append [simp]: "first_addr (xs @ ys) nx = first_addr xs (first_addr ys nx)"
  by (cases xs) simp_all

lemma last_addr_simps [simp]:
  "last_addr [] pv = pv" "last_addr (xs @ [t]) pv = Some (ct_addr t)" "last_addr (t # ts) pv = last_addr ts (Some (ct_addr t))"
  by (simp_all add: last_addr_def)

lemma last_addr_append [simp]: "last_addr (xs @ ys) pv = last_addr ys (last_addr xs pv)"
  by (simp add: last_addr_def)

lemma seg_append [simp]:
  "seg_in h pv (xs @ ys) nx \<longleftrightarrow> seg_in h pv xs (first_addr ys nx) \<and> seg_in h (last_addr xs pv) ys nx"
  by (induction xs arbitrary: pv) auto

lemma tree_in_node: "tree_in h t nx pv \<Longrightarrow> ch_nodes h (ct_addr t) = Some (node_of (ct_key t) (ct_val t) (ct_kids t) nx pv)"
  by (cases t) simp

lemma addr_in [simp]: "ct_addr t \<in> set (addrs t)"
  by (cases t) simp

lemma forest_induct [case_names Nil Cons]:
  assumes "P []" "\<And>a k v kids ts. P kids \<Longrightarrow> P ts \<Longrightarrow> P (CT a k v kids # ts)"
  shows "P ts"
proof -
  have step: "P ts \<Longrightarrow> P (t # ts)" for t ts
  proof (induction t arbitrary: ts)
    case (CT a k v kids)
    have "set us \<subseteq> set kids \<Longrightarrow> P us" for us
      by (induction us) (use assms(1) CT.IH in auto)
    then show ?case using assms(2) CT.prems by blast
  qed
  show ?thesis by (induction ts) (use assms(1) step in auto)
qed

text \<open>What a heap has outside of a forest does not matter to it.\<close>

definition agree :: "cj_heap \<Rightarrow> cj_heap \<Rightarrow> addr set \<Rightarrow> addr set \<Rightarrow> bool" where
  "agree h h' A S \<longleftrightarrow> (\<forall>a \<in> A. ch_nodes h' a = ch_nodes h a) \<and> (\<forall>a \<in> S. ch_strings h' a = ch_strings h a)"

lemma agreeD: "agree h h' A S \<Longrightarrow> a \<in> A \<Longrightarrow> ch_nodes h' a = ch_nodes h a"
  by (simp add: agree_def)

lemma agree_mono: "agree h h' A S \<Longrightarrow> A' \<subseteq> A \<Longrightarrow> S' \<subseteq> S \<Longrightarrow> agree h h' A' S'"
  by (auto simp: agree_def)

lemma strings_agree: "agree h h' A S \<Longrightarrow> fst ` set bs \<subseteq> S \<Longrightarrow> strings_in h' bs = strings_in h bs"
  by (force simp: strings_in_def agree_def)

lemma seg_agree:
  "agree h h' (set (forest_addrs ts)) (set (forest_saddrs ts)) \<Longrightarrow> seg_in h' pv ts nx = seg_in h pv ts nx"
proof (induction ts arbitrary: pv nx rule: forest_induct)
  case (Cons a k v kids ts)
  have a: "ch_nodes h' a = ch_nodes h a" using agreeD [OF Cons.prems, of a] by simp
  have s: "strings_in h' (own_strings k v) = strings_in h (own_strings k v)"
    by (rule strings_agree [OF Cons.prems]) auto
  have "agree h h' (set (forest_addrs kids)) (set (forest_saddrs kids))"
    "agree h h' (set (forest_addrs ts)) (set (forest_saddrs ts))"
    by (rule agree_mono [OF Cons.prems]; auto)+
  then show ?case using Cons.IH a s by simp
qed simp

lemma tree_agree: "agree h h' (set (addrs t)) (set (saddrs t)) \<Longrightarrow> tree_in h' t nx pv = tree_in h t nx pv"
  using seg_agree [of h h' "[t]" pv nx] by simp

section \<open>Release\<close>

definition drop_forest :: "ctree list \<Rightarrow> cj_heap \<Rightarrow> cj_heap" where
  "drop_forest ts h = h\<lparr>ch_nodes := ch_nodes h |` (- set (forest_addrs ts)),
     ch_strings := ch_strings h |` (- set (forest_saddrs ts))\<rparr>"

lemma drop_nil [simp]: "drop_forest [] h = h"
  by (simp add: drop_forest_def restrict_map_def)

lemma drop_agree:
  "A \<inter> set (forest_addrs ts) = {} \<Longrightarrow> S \<inter> set (forest_saddrs ts) = {} \<Longrightarrow> agree h (drop_forest ts h) A S"
  by (auto simp: agree_def drop_forest_def restrict_map_def)

lemma forest_ok_Cons:
  "forest_ok (CT a k v kids # ts) \<longleftrightarrow>
     (kids \<noteq> [] \<longrightarrow> v = VArray \<or> v = VObject) \<and> forest_ok kids \<and> forest_ok ts
     \<and> a \<notin> set (forest_addrs kids) \<and> a \<notin> set (forest_addrs ts)
     \<and> set (forest_addrs kids) \<inter> set (forest_addrs ts) = {}
     \<and> distinct (map fst (own_strings k v))
     \<and> fst ` set (own_strings k v) \<inter> set (forest_saddrs kids) = {}
     \<and> fst ` set (own_strings k v) \<inter> set (forest_saddrs ts) = {}
     \<and> set (forest_saddrs kids) \<inter> set (forest_saddrs ts) = {}"
  by (auto simp: forest_ok_def)

text \<open>The release of the strings of a node, as the code does it.\<close>

lemma free_own:
  assumes "strings_in h (own_strings k v)" "distinct (map fst (own_strings k v))"
  shows "Option.bind (case val_string v of Some s \<Rightarrow> if \<not> is_ref v then release_string s h else Some h | None \<Rightarrow> Some h)
      (\<lambda>h. case map_option fst k of Some s \<Rightarrow> release_string s h | None \<Rightarrow> Some h)
    = Some (h\<lparr>ch_strings := ch_strings h |` (- fst ` set (own_strings k v))\<rparr>)"
  using assms
  by (cases v; cases k)
    (auto simp: own_strings_def strings_in_def release_string_def restrict_map_def fun_eq_iff split: option.splits)

lemma shaped_children:
  assumes "kids \<noteq> [] \<longrightarrow> v = VArray \<or> v = VObject" "seg_in h pv kids None"
    "seg_in h pv kids None \<Longrightarrow> cJSON_Delete (first_addr kids None) h = Some (drop_forest kids h)"
  shows "(if \<not> is_ref v then cJSON_Delete (val_child v kids) h else Some h) = Some (drop_forest kids h)"
proof (cases "is_ref v")
  case True
  then have "kids = []" using assms(1) by auto
  then show ?thesis using True by simp
next
  case False
  then have "val_child v kids = first_addr kids None" by (cases v) auto
  then show ?thesis using False assms(2,3) by simp
qed

lemma delete_forest:
  "seg_in h pv ts None \<Longrightarrow> forest_ok ts \<Longrightarrow> cJSON_Delete (first_addr ts None) h = Some (drop_forest ts h)"
proof (induction ts arbitrary: h pv rule: forest_induct)
  case Nil
  then show ?case by (simp add: cJSON_Delete.simps [of None])
next
  case (Cons a k v kids ts)
  let ?n = "node_of k v kids (first_addr ts None) pv" and ?bs = "own_strings k v"
  let ?h1 = "drop_forest kids h"
  let ?h2 = "?h1\<lparr>ch_strings := ch_strings ?h1 |` (- fst ` set ?bs)\<rparr>"
  let ?h3 = "?h2\<lparr>ch_nodes := (ch_nodes ?h2)(a := None)\<rparr>"
  have n: "ch_nodes h a = Some ?n" and s: "strings_in h ?bs" and kids: "seg_in h (last_addr kids None) kids None"
    and ts: "seg_in h (Some a) ts None" using Cons.prems(1) by simp_all
  note ok = Cons.prems(2) [unfolded forest_ok_Cons]
  have del: "(if \<not> is_ref v then cJSON_Delete (val_child v kids) h else Some h) = Some ?h1"
    by (rule shaped_children [OF conjunct1 [OF ok] kids]) (rule Cons.IH(1), assumption, use ok in simp)
  have "agree h ?h1 {a} (fst ` set ?bs)" by (rule drop_agree) (use ok in auto)
  then have n1: "ch_nodes ?h1 a = Some ?n" and s1: "strings_in ?h1 ?bs"
    using n s agreeD strings_agree [of h ?h1 "{a}" "fst ` set ?bs" ?bs] by auto
  obtain h' where free: "(case val_string v of Some s \<Rightarrow> if \<not> is_ref v then release_string s ?h1 else Some ?h1 | None \<Rightarrow> Some ?h1) = Some h'"
      "(case map_option fst k of Some s \<Rightarrow> release_string s h' | None \<Rightarrow> Some h') = Some ?h2"
    using free_own [OF s1] ok unfolding bind_eq_Some_conv by blast
  have "release_node a ?h2 = Some ?h3" using n1 by (simp add: release_node_def)
  moreover have "agree h ?h3 (set (forest_addrs ts)) (set (forest_saddrs ts))"
  proof -
    have "b \<notin> set (forest_addrs kids) \<and> b \<noteq> a" if "b \<in> set (forest_addrs ts)" for b using that ok by blast
    moreover have "b \<notin> set (forest_saddrs kids) \<and> b \<notin> fst ` set ?bs" if "b \<in> set (forest_saddrs ts)" for b using that ok by blast
    ultimately show ?thesis by (simp add: agree_def drop_forest_def restrict_map_def del: set_concat set_map)
  qed
  from seg_agree [OF this, of "Some a" None] ts have "seg_in ?h3 (Some a) ts None" by simp
  from Cons.IH(2) [OF this] have "cJSON_Delete (first_addr ts None) ?h3 = Some (drop_forest ts ?h3)" using ok by simp
  moreover have "drop_forest ts ?h3 = drop_forest (CT a k v kids # ts) h"
    by (auto simp: drop_forest_def restrict_map_def fun_eq_iff)
  ultimately show ?case
    unfolding first_addr_simps ctree.sel cJSON_Delete.simps [of "Some a" h]
    by (simp only: option.case n bind.bind_lunit node_of_simps del free if_True if_False not_False_eq_True)
qed

text \<open>A tree of its own: at the end of a list of one.\<close>

lemma delete_tree:
  "tree_in h t None pv \<Longrightarrow> forest_ok [t] \<Longrightarrow> cJSON_Delete (Some (ct_addr t)) h = Some (drop_forest [t] h)"
  using delete_forest [of h pv "[t]"] by simp

section \<open>Links\<close>

definition upd :: "addr \<Rightarrow> (cj_node \<Rightarrow> cj_node) \<Rightarrow> cj_heap \<Rightarrow> cj_heap" where
  "upd a f h = h\<lparr>ch_nodes := (ch_nodes h)(a := map_option f (ch_nodes h a))\<rparr>"

lemma write_upd: "ch_nodes h a \<noteq> None \<Longrightarrow> write_node a f h = Some (upd a f h)"
  by (auto simp: write_node_def upd_def)

lemma upd_nodes [simp]:
  "ch_nodes (upd a f h) b = (if b = a then map_option f (ch_nodes h a) else ch_nodes h b)"
  "ch_strings (upd a f h) = ch_strings h" "ch_fresh (upd a f h) = ch_fresh h"
  by (simp_all add: upd_def)

lemma upd_agree: "a \<notin> A \<Longrightarrow> agree h (upd a f h) A S"
  by (auto simp: agree_def)

lemma seg_upd [simp]: "a \<notin> set (forest_addrs ts) \<Longrightarrow> seg_in (upd a f h) pv ts nx = seg_in h pv ts nx"
  by (rule seg_agree [OF upd_agree])

lemma tree_upd [simp]: "a \<notin> set (addrs t) \<Longrightarrow> tree_in (upd a f h) t nx pv = tree_in h t nx pv"
  by (rule tree_agree [OF upd_agree])

lemma strings_upd [simp]: "strings_in (upd a f h) bs = strings_in h bs"
  by (simp add: strings_in_def)

lemma tree_links:
  assumes "tree_in h t nx pv" "distinct (addrs t)"
  shows "tree_in (upd (ct_addr t) (nd_next_update (\<lambda>_. nx')) h) t nx' pv"
    "tree_in (upd (ct_addr t) (nd_prev_update (\<lambda>_. pv')) h) t nx pv'"
  using assms by (cases t; simp)+

lemma set_next:
  assumes "seg_in h pv (ts @ [t]) nx" "distinct (forest_addrs (ts @ [t]))"
  shows "seg_in (upd (ct_addr t) (nd_next_update (\<lambda>_. nx')) h) pv (ts @ [t]) nx'"
proof -
  have "ct_addr t \<notin> set (forest_addrs ts)" using assms(2) addr_in [of t] by (auto simp del: addr_in)
  then show ?thesis using assms tree_links(1) [of h t nx] by simp
qed

lemma set_prev:
  assumes "seg_in h pv (t # ts) nx" "distinct (forest_addrs (t # ts))"
  shows "seg_in (upd (ct_addr t) (nd_prev_update (\<lambda>_. pv')) h) pv' (t # ts) nx"
proof -
  have "ct_addr t \<notin> set (forest_addrs ts)" using assms(2) addr_in [of t] by (auto simp del: addr_in)
  then show ?thesis using assms tree_links(2) [of h t _ pv] by simp
qed

section \<open>Lists of children\<close>

definition changes :: "cj_heap \<Rightarrow> cj_heap \<Rightarrow> addr set \<Rightarrow> bool" where
  "changes h h' A \<longleftrightarrow> (\<forall>a. a \<notin> A \<longrightarrow> ch_nodes h' a = ch_nodes h a) \<and> ch_strings h' = ch_strings h \<and> ch_fresh h' = ch_fresh h"

lemma changes_refl [simp]: "changes h h A"
  by (simp add: changes_def)

lemma changes_upd: "changes h0 h A \<Longrightarrow> a \<in> A \<Longrightarrow> changes h0 (upd a f h) A"
  by (auto simp: changes_def)

lemma changes_tree: "changes h h' A \<Longrightarrow> set (addrs t) \<inter> A = {} \<Longrightarrow> tree_in h' t nx pv = tree_in h t nx pv"
  by (rule tree_agree) (auto simp: agree_def changes_def)

abbreviation container :: "cval \<Rightarrow> bool" where
  "container v \<equiv> v = VArray \<or> v = VObject"

lemma container_child: "container v \<Longrightarrow> val_child v kids = first_addr kids None"
  by auto

lemma container_node:
  "container v \<Longrightarrow> (node_of k v kids nx pv)\<lparr>nd_child := first_addr kids' None\<rparr> = node_of k v kids' nx pv"
  "container v \<Longrightarrow> first_addr kids None = first_addr kids' None \<Longrightarrow> node_of k v kids nx pv = node_of k v kids' nx pv"
  by (auto simp: node_of_def)

lemma disjoint_addr: "distinct (forest_addrs (xs @ [t] @ ys)) \<Longrightarrow> ct_addr t \<notin> set (forest_addrs xs) \<and> ct_addr t \<notin> set (forest_addrs ys)"
  using addr_in [of t] by (auto simp del: addr_in)

lemma seg_member: "seg_in h pv (xs @ [t] @ ys) nx \<Longrightarrow> tree_in h t (first_addr ys nx) (last_addr xs pv)"
  by simp

text \<open>\<open>add_item_to_array\<close> appends.\<close>

lemma add_item_appends:
  assumes "tree_in h (CT a k v kids) nx pv" "container v" "tree_in h t None pvt"
    and "distinct (forest_addrs [CT a k v kids, t])"
  shows "\<exists>h'. add_item_to_array (Some a) (Some (ct_addr t)) h = Some (True, h') \<and> tree_in h' (CT a k v (kids @ [t])) nx pv
    \<and> changes h h' (set (addrs (CT a k v kids)) \<union> {ct_addr t})"
proof -
  let ?i = "ct_addr t"
  let ?A = "set (addrs (CT a k v kids)) \<union> {?i}"
  have i: "?i \<noteq> a" "?i \<notin> set (forest_addrs kids)" using assms(4) addr_in [of t] by (auto simp del: addr_in)
  have a: "a \<notin> set (forest_addrs kids)" "a \<notin> set (addrs t)" "distinct (forest_addrs kids)" "distinct (addrs t)"
    using assms(4) by auto
  have apart: "set (forest_addrs kids) \<inter> set (addrs t) = {}" using assms(4) by auto
  have na: "ch_nodes h a = Some (node_of k v kids nx pv)" and strs: "strings_in h (own_strings k v)"
    and seg: "seg_in h (last_addr kids None) kids None" using assms(1) by simp_all
  have ni: "ch_nodes h ?i \<noteq> None" using tree_in_node [OF assms(3)] by simp
  show ?thesis
  proof (cases kids)
    case Nil
    let ?h1 = "upd a (nd_child_update (\<lambda>_. Some ?i)) h"
    let ?h2 = "upd ?i (nd_prev_update (\<lambda>_. Some ?i)) ?h1"
    let ?h3 = "upd ?i (nd_next_update (\<lambda>_. None)) ?h2"
    have "tree_in ?h1 t None pvt" using assms(3) a(2) by simp
    from tree_links(2) [OF this a(4)] have "tree_in ?h2 t None (Some ?i)" .
    from tree_links(1) [OF this a(4)] have t3: "tree_in ?h3 t None (Some ?i)" .
    have "ch_nodes ?h3 a = Some (node_of k v [t] nx pv)"
      using na Nil i(1) container_node(1) [OF assms(2), of "[t]" k kids nx pv] by simp
    then have "tree_in ?h3 (CT a k v (kids @ [t])) nx pv" using t3 strs Nil by simp
    moreover have "add_item_to_array (Some a) (Some ?i) h = Some (True, ?h3)"
      using na ni i(1) Nil assms(2) by (auto simp: add_item_to_array_def write_upd)
    moreover have "changes h ?h3 ?A" by (intro changes_upd changes_refl) simp_all
    ultimately show ?thesis by blast
  next
    case (Cons f fs)
    obtain ks l where kl: "kids = ks @ [l]" using Cons by (metis list.distinct(1) rev_exhaust)
    let ?h1 = "upd (ct_addr l) (nd_next_update (\<lambda>_. Some ?i)) h"
    let ?h2 = "upd ?i (nd_prev_update (\<lambda>_. Some (ct_addr l))) ?h1"
    let ?h3 = "upd (ct_addr f) (nd_prev_update (\<lambda>_. Some ?i)) ?h2"
    have last: "last_addr kids pvl = Some (ct_addr l)" for pvl using kl by simp
    have in_kids: "ct_addr l \<in> set (forest_addrs kids)" "ct_addr f \<in> set (forest_addrs kids)"
      using kl by simp (simp add: Cons)
    have "x \<notin> set (addrs t) \<and> x \<noteq> a \<and> x \<noteq> ?i" if "x \<in> set (forest_addrs kids)" for x
      using that apart a(1) i(2) by blast
    from this [OF in_kids(1)] this [OF in_kids(2)]
    have out: "ct_addr l \<notin> set (addrs t)" "ct_addr f \<notin> set (addrs t)" "ct_addr l \<noteq> a" "ct_addr f \<noteq> a"
        "ct_addr l \<noteq> ?i" "ct_addr f \<noteq> ?i" by simp_all
    have "seg_in ?h1 (Some (ct_addr l)) kids (Some ?i)"
      using set_next [of h _ ks l None "Some ?i"] seg a(3) last unfolding kl by simp
    then have "seg_in ?h2 (Some (ct_addr l)) kids (Some ?i)" using i(2) seg_upd by blast
    then have seg3: "seg_in ?h3 (Some ?i) kids (Some ?i)"
      using set_prev [of ?h2 _ f fs "Some ?i" "Some ?i"] a(3) unfolding Cons by blast
    have "tree_in ?h1 t None pvt" using assms(3) out(1) tree_upd by blast
    from tree_links(2) [OF this a(4)] have "tree_in ?h2 t None (Some (ct_addr l))" .
    then have t3: "tree_in ?h3 t None (Some (ct_addr l))" using out(2) tree_upd by blast
    have "ch_nodes ?h3 a = Some (node_of k v (kids @ [t]) nx pv)"
      using na i(1) out container_node(2) [OF assms(2), of kids "kids @ [t]"] Cons by simp
    then have "tree_in ?h3 (CT a k v (kids @ [t])) nx pv" using t3 seg3 strs last by simp
    moreover have "add_item_to_array (Some a) (Some ?i) h = Some (True, ?h3)"
    proof -
      have nf: "ch_nodes h (ct_addr f) = Some (node_of (ct_key f) (ct_val f) (ct_kids f) (first_addr fs None) (Some (ct_addr l)))"
        using seg last tree_in_node unfolding Cons by simp
      have nl: "ch_nodes h (ct_addr l) \<noteq> None" using seg tree_in_node [of h l] unfolding kl by auto
      have "suffix_object (ct_addr l) ?i h = Some ?h2" using nl ni out(5) by (simp add: suffix_object_def write_upd)
      moreover have "ch_nodes ?h2 a = ch_nodes h a" "ch_nodes ?h2 (ct_addr f) \<noteq> None" using out i(1) nf nl by auto
      moreover have "nd_child (node_of k v kids nx pv) = Some (ct_addr f)" using assms(2) Cons by auto
      ultimately show ?thesis using na nf i(1) by (simp add: add_item_to_array_def write_upd)
    qed
    moreover have "changes h ?h3 ?A" by (intro changes_upd changes_refl) (use in_kids in simp_all)
    ultimately show ?thesis by blast
  qed
qed

end
