(* ===== verification/CjsonOwned.thy ===== *)
theory CjsonOwned
  imports CjsonTreeProps "HOL-Library.Multiset"
begin

text \<open>
  Ownership: what a heap has beyond another one is a list of trees that lie in it, have no address in common
  and use none of the other heap's. Creation adds a tree to the list, adding an item to an array or an object
  moves one tree into another, release takes one away; at the empty list the two heaps are the same.
\<close>

definition heap_ok :: "cj_heap \<Rightarrow> bool" where
  "heap_ok h \<longleftrightarrow> (\<forall>a \<ge> ch_fresh h. ch_nodes h a = None \<and> ch_strings h a = None)"

definition built :: "cj_heap \<Rightarrow> cj_heap \<Rightarrow> ctree list \<Rightarrow> bool" where
  "built h0 h ts \<longleftrightarrow>
     heap_ok h0 \<and> heap_ok h \<and> forest_ok ts \<and> (\<forall>t \<in> set ts. tree_in h t None None)
     \<and> (\<forall>a. ch_nodes h0 a = (if a \<in> set (forest_addrs ts) then None else ch_nodes h a))
     \<and> (\<forall>a. ch_strings h0 a = (if a \<in> set (forest_saddrs ts) then None else ch_strings h a))"

lemma builtD:
  assumes "built h0 h ts"
  shows "heap_ok h" "forest_ok ts" "t \<in> set ts \<Longrightarrow> tree_in h t None None"
    "ch_nodes h0 a = (if a \<in> set (forest_addrs ts) then None else ch_nodes h a)"
    "ch_strings h0 a = (if a \<in> set (forest_saddrs ts) then None else ch_strings h a)"
  using assms by (simp_all add: built_def)

lemma built_start: "heap_ok h \<Longrightarrow> built h h []"
  by (simp add: built_def forest_ok_def)

lemma built_end: "built h0 h [] \<Longrightarrow> ch_nodes h = ch_nodes h0 \<and> ch_strings h = ch_strings h0"
  by (auto simp: built_def fun_eq_iff)

text \<open>The trees of the smaller heap stay where they are.\<close>

lemma seg_live:
  "seg_in h pv ts nx \<Longrightarrow> (\<forall>a \<in> set (forest_addrs ts). ch_nodes h a \<noteq> None) \<and> (\<forall>a \<in> set (forest_saddrs ts). ch_strings h a \<noteq> None)"
proof (induction ts arbitrary: pv nx rule: forest_induct)
  case (Cons a k v kids ts)
  have "ch_strings h b \<noteq> None" if "b \<in> fst ` set (own_strings k v)" for b
    using Cons.prems that by (force simp: strings_in_def)
  then show ?case using Cons.IH Cons.prems by auto
qed simp

lemma tree_live:
  assumes "tree_in h t nx pv"
  shows "a \<in> set (addrs t) \<Longrightarrow> ch_nodes h a \<noteq> None" "a \<in> set (saddrs t) \<Longrightarrow> ch_strings h a \<noteq> None"
  using seg_live [of h pv "[t]" nx] assms by simp_all

lemma built_keeps: "built h0 h ts \<Longrightarrow> tree_in h0 t nx pv \<Longrightarrow> tree_in h t nx pv"
proof -
  assume b: "built h0 h ts" and t: "tree_in h0 t nx pv"
  have "ch_nodes h a = ch_nodes h0 a" if "a \<in> set (addrs t)" for a
    using tree_live(1) [OF t that] builtD(4) [OF b, of a] by (simp split: if_splits)
  moreover have "ch_strings h a = ch_strings h0 a" if "a \<in> set (saddrs t)" for a
    using tree_live(2) [OF t that] builtD(5) [OF b, of a] by (simp split: if_splits)
  ultimately show ?thesis using t tree_agree [of h0 h t nx pv] by (simp add: agree_def)
qed

text \<open>Fresh addresses.\<close>

lemma fresh_out:
  assumes "heap_ok h" "tree_in h t nx pv"
  shows "ch_fresh h \<notin> set (addrs t)" "ch_fresh h \<notin> set (saddrs t)"
proof -
  have "ch_nodes h (ch_fresh h) = None" "ch_strings h (ch_fresh h) = None" using assms(1) by (simp_all add: heap_ok_def)
  then show "ch_fresh h \<notin> set (addrs t)" "ch_fresh h \<notin> set (saddrs t)" using tree_live [OF assms(2)] by blast+
qed

lemma fresh_forest:
  assumes "heap_ok h" "\<forall>t \<in> set ts. tree_in h t None None"
  shows "ch_fresh h \<notin> set (forest_addrs ts)" "ch_fresh h \<notin> set (forest_saddrs ts)"
  using assms fresh_out [OF assms(1)] by auto

section \<open>Creation\<close>

text \<open>A node without children that owns no string.\<close>

lemma built_new:
  assumes "built h0 h ts" "f zero_node = node_of None v [] None None" "own_strings None v = []"
  shows "built h0 (snd (cJSON_New_Item f h)) (CT (fst (cJSON_New_Item f h)) None v [] # ts)"
proof -
  let ?h = "snd (cJSON_New_Item f h)" and ?a = "ch_fresh h"
  note b = builtD [OF assms(1)]
  have trees: "\<forall>t \<in> set ts. tree_in h t None None" using b(3) by blast
  note out = fresh_forest [OF b(1) trees]
  have keep: "tree_in ?h t None None" if "t \<in> set ts" for t
  proof -
    have "agree h ?h (set (addrs t)) (set (saddrs t))" using out that by (auto simp: agree_def cJSON_New_Item_def)
    then show ?thesis using tree_agree trees that by blast
  qed
  have "ch_nodes h0 ?a = None" using b(1) b(4) [of ?a] out by (simp add: heap_ok_def)
  then show ?thesis
    using assms b(1,2,4,5) keep out
    by (auto simp: built_def heap_ok_def forest_ok_def cJSON_New_Item_def strings_in_def)
qed

lemma zero_is: "zero_node\<lparr>nd_type := TObject\<rparr> = node_of None VObject [] None None"
  "zero_node\<lparr>nd_type := TArray\<rparr> = node_of None VArray [] None None"
  "zero_node\<lparr>nd_type := TNull\<rparr> = node_of None VNull [] None None"
  "zero_node\<lparr>nd_type := if x then TTrue else TFalse\<rparr> = node_of None (VBool x) [] None None"
  "zero_node\<lparr>nd_type := TNumber, nd_valuedouble := d\<rparr> = node_of None (VNumber d) [] None None"
  "zero_node\<lparr>nd_type := TString, nd_valuestring := Some b\<rparr> = node_of None (VString b s) [] None None"
  "zero_node\<lparr>nd_type := TArray, nd_reference := True, nd_child := ch\<rparr> = node_of None (VRef TArray ch None 0) [] None None"
  by (simp_all add: zero_node_def node_of_def)

text \<open>A string, for a node that does not exist yet.\<close>

lemma strdup_keeps:
  assumes "heap_ok h" "tree_in h t nx pv"
  shows "tree_in (snd (cJSON_strdup s h)) t nx pv"
proof -
  have "agree h (snd (cJSON_strdup s h)) (set (addrs t)) (set (saddrs t))"
    using fresh_out [OF assms] by (auto simp: agree_def cJSON_strdup_def)
  from tree_agree [OF this] assms(2) show ?thesis by blast
qed

lemma built_string:
  assumes "built h0 h ts"
  shows "\<exists>b. built h0 (snd (cJSON_CreateString s h)) (CT (fst (cJSON_CreateString s h)) None (VString b s) [] # ts)"
proof -
  let ?h = "snd (cJSON_CreateString s h)" and ?b = "ch_fresh h" and ?a = "Suc (ch_fresh h)"
  note b = builtD [OF assms(1)]
  have trees: "\<forall>t \<in> set ts. tree_in h t None None" using b(3) by blast
  note out = fresh_forest [OF b(1) trees]
  have a: "?a \<notin> set (forest_addrs ts)"
    using trees b(1) tree_live(1) by (force simp: heap_ok_def)
  have keep: "tree_in ?h t None None" if "t \<in> set ts" for t
  proof -
    have "agree h ?h (set (addrs t)) (set (saddrs t))"
      using out a that by (auto simp: agree_def cJSON_CreateString_def cJSON_New_Item_def cJSON_strdup_def)
    then show ?thesis using tree_agree trees that by blast
  qed
  have none: "ch_nodes h0 ?a = None" "ch_strings h0 ?b = None"
    using b(1) b(4) [of ?a] b(5) [of ?b] out a by (simp_all add: heap_ok_def)
  have "built h0 ?h (CT (fst (cJSON_CreateString s h)) None (VString ?b s) [] # ts)"
    using assms b(1,2,4,5) keep out a none zero_is(6) [of ?b s]
    by (auto simp: built_def heap_ok_def forest_ok_def cJSON_CreateString_def cJSON_New_Item_def cJSON_strdup_def
        strings_in_def own_strings_def)
  then show ?thesis by blast
qed

section \<open>Release\<close>

lemma forest_split: "forest_ok (t # ts) \<Longrightarrow> forest_ok [t] \<and> forest_ok ts
    \<and> set (addrs t) \<inter> set (forest_addrs ts) = {} \<and> set (saddrs t) \<inter> set (forest_saddrs ts) = {}"
  by (auto simp: forest_ok_def)

lemma built_delete:
  assumes "built h0 h (t # ts)"
  shows "\<exists>h'. cJSON_Delete (Some (ct_addr t)) h = Some h' \<and> built h0 h' ts"
proof -
  note b = builtD [OF assms]
  note f = forest_split [OF b(2)]
  have del: "cJSON_Delete (Some (ct_addr t)) h = Some (drop_forest [t] h)"
    by (rule delete_tree [OF b(3)]) (use f in simp_all)
  have keep: "tree_in (drop_forest [t] h) u None None" if "u \<in> set ts" for u
  proof -
    have "agree h (drop_forest [t] h) (set (addrs u)) (set (saddrs u))"
      by (rule drop_agree) (use f that in auto)
    then show ?thesis using tree_agree b(3) [of u] that by simp
  qed
  have "built h0 (drop_forest [t] h) ts"
    using assms keep f b(1,4,5)
    by (auto simp: built_def heap_ok_def drop_forest_def restrict_map_def)
  then show ?thesis using del by blast
qed

section \<open>Edits\<close>

lemma forest_mset:
  "mset ts = mset us \<Longrightarrow> mset (forest_addrs ts) = mset (forest_addrs us) \<and> mset (forest_saddrs ts) = mset (forest_saddrs us)"
proof -
  have sum: "mset (concat (map f xs)) = (\<Sum>t \<in># mset xs. mset (f t))" for f :: "ctree \<Rightarrow> addr list" and xs
    by (induction xs) simp_all
  assume "mset ts = mset us"
  then show ?thesis unfolding sum by simp
qed

lemma forest_ok_mset:
  assumes "forest_ok ts" "list_all shaped us" "mset (forest_addrs ts) = mset (forest_addrs us)"
    "mset (forest_saddrs ts) = mset (forest_saddrs us)"
  shows "forest_ok us"
  using assms mset_eq_imp_distinct_iff unfolding forest_ok_def by blast

lemma changes_mono: "changes h h' A \<Longrightarrow> A \<subseteq> B \<Longrightarrow> changes h h' B"
  by (auto simp: changes_def)

text \<open>A change within some of the trees, which become others of the same addresses.\<close>

lemma built_edit:
  assumes "built h0 h (us @ ts)" "changes h h' (set (forest_addrs us))" "\<And>u. u \<in> set us' \<Longrightarrow> tree_in h' u None None"
    "list_all shaped us'" "mset (forest_addrs us') = mset (forest_addrs us)" "mset (forest_saddrs us') = mset (forest_saddrs us)"
  shows "built h0 h' (us' @ ts)"
proof -
  note b = builtD [OF assms(1)]
  have sets: "set (forest_addrs us') = set (forest_addrs us)" "set (forest_saddrs us') = set (forest_saddrs us)"
    using assms(5,6) by (metis set_mset_mset)+
  have ok: "forest_ok (us' @ ts)"
    using b(2) assms(4-6) by (intro forest_ok_mset [OF b(2)]) (simp_all add: forest_ok_def)
  have keep: "tree_in h' t None None" if "t \<in> set ts" for t
  proof -
    have "set (addrs t) \<inter> set (forest_addrs us) = {}" using b(2) that by (force simp: forest_ok_def)
    then show ?thesis using changes_tree [OF assms(2)] b(3) [of t] that by simp
  qed
  have fresh: "heap_ok h'"
    unfolding heap_ok_def
  proof (intro allI impI)
    fix a
    assume a: "ch_fresh h' \<le> a"
    then have "ch_nodes h a = None" "ch_strings h a = None" using b(1) assms(2) by (simp_all add: heap_ok_def changes_def)
    moreover have "a \<notin> set (forest_addrs us)"
    proof
      assume "a \<in> set (forest_addrs us)"
      then obtain u where "u \<in> set us" "a \<in> set (addrs u)" by auto
      then have "ch_nodes h a \<noteq> None" by (intro tree_live(1) [OF b(3) [of u]]) simp_all
      then show False using \<open>ch_nodes h a = None\<close> by blast
    qed
    ultimately show "ch_nodes h' a = None \<and> ch_strings h' a = None" using assms(2) by (simp add: changes_def)
  qed
  have nodes: "ch_nodes h0 a = (if a \<in> set (forest_addrs (us' @ ts)) then None else ch_nodes h' a)" for a
    using b(4) [of a] sets(1) assms(2) by (auto simp: changes_def)
  have strings: "ch_strings h0 a = (if a \<in> set (forest_saddrs (us' @ ts)) then None else ch_strings h' a)" for a
    using b(5) [of a] sets(2) assms(2) by (auto simp: changes_def)
  show ?thesis
    using assms(1,3) ok keep fresh nodes strings unfolding built_def by (auto simp only: set_append Un_iff)
qed

lemma built_mset: "built h0 h ts \<Longrightarrow> mset ts = mset us \<Longrightarrow> built h0 h us"
proof -
  assume b: "built h0 h ts" and m: "mset ts = mset us"
  have shaped: "list_all shaped us" using builtD(2) [OF b] mset_eq_setD [OF m] by (simp add: forest_ok_def list_all_iff)
  have trees: "tree_in h u None None" if "u \<in> set us" for u using builtD(3) [OF b] mset_eq_setD [OF m] that by simp
  have "built h0 h (ts @ [])" using b by simp
  from built_edit [OF this changes_refl trees shaped] forest_mset [OF m] show ?thesis by simp
qed

lemma built_swap: "built h0 h (t # u # ts) \<Longrightarrow> built h0 h (u # t # ts)"
  by (erule built_mset) simp

lemma shaped_snoc: "shaped (CT a k v kids) \<Longrightarrow> container v \<Longrightarrow> shaped t \<Longrightarrow> shaped (CT a k v (kids @ [t]))"
  by auto

lemma built_add:
  assumes "built h0 h (CT a k v kids # t # ts)" "container v"
  shows "\<exists>h'. add_item_to_array (Some a) (Some (ct_addr t)) h = Some (True, h') \<and> built h0 h' (CT a k v (kids @ [t]) # ts)"
proof -
  let ?p = "CT a k v kids"
  have in_h: "tree_in h ?p None None" "tree_in h t None None" using builtD(3) [OF assms(1)] by (simp_all del: tree_in.simps)
  have ok: "forest_ok (?p # t # ts)" by (rule builtD(2) [OF assms(1)])
  then have "distinct (forest_addrs [?p, t])" by (auto simp: forest_ok_def)
  from add_item_appends [OF in_h(1) assms(2) in_h(2) this] obtain h' where
    h': "add_item_to_array (Some a) (Some (ct_addr t)) h = Some (True, h')" "tree_in h' (CT a k v (kids @ [t])) None None"
      "changes h h' (set (addrs ?p) \<union> {ct_addr t})" by blast
  have c: "changes h h' (set (forest_addrs [?p, t]))" by (rule changes_mono [OF h'(3)]) auto
  have "built h0 h ([?p, t] @ ts)" using assms(1) by simp
  then have "built h0 h' ([CT a k v (kids @ [t])] @ ts)"
  proof (rule built_edit [OF _ c])
    show "list_all shaped [CT a k v (kids @ [t])]" using ok assms(2) by (auto simp: forest_ok_def)
  qed (use h'(2) in \<open>simp_all del: tree_in.simps\<close>)
  then show ?thesis using h'(1) by simp
qed

text \<open>An item without a key gets one and goes into an object.\<close>

lemma built_key:
  fixes name :: string
  assumes "built h0 h (CT i None v kids # ts)"
  defines "h' \<equiv> upd i (\<lambda>n. n\<lparr>nd_string := Some (ch_fresh h), nd_const := False\<rparr>) (snd (cJSON_strdup name h))"
  shows "built h0 h' (CT i (Some (ch_fresh h, name)) v kids # ts)"
proof -
  let ?b = "ch_fresh h" and ?h1 = "snd (cJSON_strdup name h)"
  let ?t = "CT i None v kids" and ?u = "CT i (Some (?b, name)) v kids"
  note b = builtD [OF assms(1)]
  have in_h: "tree_in h t None None" if "t \<in> set (?t # ts)" for t using b(3) that by simp
  have ok: "forest_ok (?t # ts)" by (rule b(2))
  have out: "?b \<notin> set (forest_saddrs (?t # ts))" using fresh_forest(2) [OF b(1)] in_h by blast
  have in1: "tree_in ?h1 t None None" if "t \<in> set (?t # ts)" for t by (rule strdup_keeps [OF b(1) in_h [OF that]])
  have i: "i \<notin> set (forest_addrs kids)" "i \<notin> set (forest_addrs ts)" using ok by (auto simp: forest_ok_def)
  have keep: "tree_in h' t None None" if "t \<in> set ts" for t
    using in1 [of t] i(2) that unfolding h'_def by (intro iffD2 [OF tree_upd]) auto
  have node: "(node_of None v kids None None)\<lparr>nd_string := Some ?b, nd_const := False\<rparr> = node_of (Some (?b, name)) v kids None None"
    by (simp add: node_of_def)
  have strs: "strings_in ?h1 (own_strings (Some (?b, name)) v)"
    using in1 [of ?t] by (auto simp: own_strings_def strings_in_def cJSON_strdup_def)
  have new: "tree_in h' ?u None None"
    using in1 [of ?t] i(1) strs unfolding h'_def by (simp add: node)
  have "ch_strings h0 ?b = None" using b(1) b(5) [of ?b] out by (simp add: heap_ok_def)
  then show ?thesis
    using assms(1) ok b(1,4,5) keep new out i
    unfolding built_def h'_def
    by (auto simp: heap_ok_def forest_ok_def cJSON_strdup_def own_strings_def simp del: tree_in.simps)
qed

lemma built_add_object:
  assumes "built h0 h (CT a k VObject kids # CT i None v ks # ts)"
  shows "\<exists>h' b. add_item_to_object (Some a) name None (Some i) h = Some (True, h')
    \<and> built h0 h' (CT a k VObject (kids @ [CT i (Some (b, name)) v ks]) # ts)"
proof -
  let ?f = "\<lambda>n. n\<lparr>nd_string := Some (ch_fresh h), nd_const := False\<rparr>"
  define h1 where "h1 = snd (cJSON_strdup name h)"
  have neq: "a \<noteq> i" using builtD(2) [OF assms] by (auto simp: forest_ok_def)
  have n: "ch_nodes h i = Some (node_of None v ks None None)" using builtD(3) [OF assms, of "CT i None v ks"] by simp
  have "built h0 h (CT i None v ks # CT a k VObject kids # ts)" by (rule built_swap [OF assms])
  from built_swap [OF built_key [OF this, of name, folded h1_def]] have
    "built h0 (upd i ?f h1) (CT a k VObject kids # CT i (Some (ch_fresh h, name)) v ks # ts)" .
  from built_add [OF this] obtain h' where h':
    "add_item_to_array (Some a) (Some i) (upd i ?f h1) = Some (True, h')"
    "built h0 h' (CT a k VObject (kids @ [CT i (Some (ch_fresh h, name)) v ks]) # ts)" by auto
  have dup: "cJSON_strdup name h = (ch_fresh h, h1)" "ch_nodes h1 i = ch_nodes h i" by (simp_all add: h1_def cJSON_strdup_def)
  have "write_node i ?f h1 = Some (upd i ?f h1)" using n dup(2) by (simp add: write_upd)
  then have "add_item_to_object (Some a) name None (Some i) h = Some (True, h')"
    using neq n dup h'(1) by (simp add: add_item_to_object_def)
  then show ?thesis using h'(2) by blast
qed

lemma built_add_created:
  assumes "built h0 (snd (create h)) (CT (fst (create h)) None v [] # CT a k VObject kids # ts)"
  shows "\<exists>h' b. add_created create (Some a) name h = Some (Some (fst (create h)), h')
    \<and> built h0 h' (CT a k VObject (kids @ [CT (fst (create h)) (Some (b, name)) v []]) # ts)"
  using built_add_object [OF built_swap [OF assms], of name]
  by (auto simp: add_created_def split: prod.split)

text \<open>A reference to a node that is there.\<close>

lemma built_reference:
  assumes "built h0 h ts" "tree_in h t nx pv"
  shows "\<exists>r h'. create_reference (Some (ct_addr t)) h = Some (Some r, h')
    \<and> built h0 h' (CT r None (VRef (val_type (ct_val t)) (val_child (ct_val t) (ct_kids t)) (val_string (ct_val t))
        (val_double (ct_val t))) [] # ts)"
proof -
  let ?n = "node_of (ct_key t) (ct_val t) (ct_kids t) nx pv"
  let ?v = "VRef (val_type (ct_val t)) (val_child (ct_val t) (ct_kids t)) (val_string (ct_val t)) (val_double (ct_val t))"
  let ?f = "\<lambda>_ :: cj_node. ?n\<lparr>nd_string := None, nd_reference := True, nd_next := None, nd_prev := None\<rparr>"
  have n: "ch_nodes h (ct_addr t) = Some ?n" by (rule tree_in_node [OF assms(2)])
  have "?f zero_node = node_of None ?v [] None None" by (simp add: node_of_def)
  from built_new [OF assms(1) this] have "built h0 (snd (cJSON_New_Item ?f h)) (CT (fst (cJSON_New_Item ?f h)) None ?v [] # ts)"
    by (simp add: own_strings_def)
  moreover have "create_reference (Some (ct_addr t)) h = Some (Some (fst (cJSON_New_Item ?f h)), snd (cJSON_New_Item ?f h))"
    using n by (simp add: create_reference_def split: prod.split)
  ultimately show ?thesis by blast
qed

section \<open>Reading\<close>

text \<open>That a node in a heap shows a value to whoever walks from it, borrowed children included.\<close>

fun reads :: "cj_heap \<Rightarrow> addr \<Rightarrow> cjson \<Rightarrow> bool"
  and sees_array :: "cj_heap \<Rightarrow> addr option \<Rightarrow> cjson list \<Rightarrow> bool"
  and sees_object :: "cj_heap \<Rightarrow> addr option \<Rightarrow> (string \<times> cjson) list \<Rightarrow> bool"
where
  "reads h p CNull \<longleftrightarrow> (\<exists>n. ch_nodes h p = Some n \<and> nd_type n = TNull)"
| "reads h p (CBool b) \<longleftrightarrow> (\<exists>n. ch_nodes h p = Some n \<and> nd_type n = (if b then TTrue else TFalse))"
| "reads h p (CNumber d) \<longleftrightarrow> (\<exists>n. ch_nodes h p = Some n \<and> nd_type n = TNumber \<and> nd_valuedouble n = d)"
| "reads h p (CString s) \<longleftrightarrow>
     (\<exists>n a. ch_nodes h p = Some n \<and> nd_type n = TString \<and> nd_valuestring n = Some a \<and> ch_strings h a = Some s)"
| "reads h p (CArray xs) \<longleftrightarrow> (\<exists>n. ch_nodes h p = Some n \<and> nd_type n = TArray \<and> sees_array h (nd_child n) xs)"
| "reads h p (CObject kvs) \<longleftrightarrow> (\<exists>n. ch_nodes h p = Some n \<and> nd_type n = TObject \<and> sees_object h (nd_child n) kvs)"
| "sees_array h q [] \<longleftrightarrow> q = None"
| "sees_array h q (x # xs) \<longleftrightarrow> (\<exists>p n. q = Some p \<and> reads h p x \<and> ch_nodes h p = Some n \<and> sees_array h (nd_next n) xs)"
| "sees_object h q [] \<longleftrightarrow> q = None"
| "sees_object h q ((k, x) # kvs) \<longleftrightarrow>
     (\<exists>p n a. q = Some p \<and> reads h p x \<and> ch_nodes h p = Some n \<and> nd_string n = Some a \<and> ch_strings h a = Some k
        \<and> sees_object h (nd_next n) kvs)"

text \<open>What a node shows depends on what a reference copies.\<close>

lemma reads_copy:
  assumes "reads h p x" "ch_nodes h p = Some n" "ch_nodes h r = Some m" "nd_type m = nd_type n" "nd_child m = nd_child n"
    "nd_valuestring m = nd_valuestring n" "nd_valuedouble m = nd_valuedouble n"
  shows "reads h r x"
  using assms by (cases x) auto

lemma seg_sees_array:
  assumes "seg_in h pv ts None" "list_all2 (\<lambda>t x. reads h (ct_addr t) x) ts xs"
  shows "sees_array h (first_addr ts None) xs"
  using assms(2,1) by (induction arbitrary: pv rule: list_all2_induct) (auto dest: tree_in_node)

definition key_of :: "ctree \<Rightarrow> string" where
  "key_of t = (case ct_key t of Some (a, s) \<Rightarrow> s | None \<Rightarrow> [])"

lemma tree_key: "tree_in h t nx pv \<Longrightarrow> ct_key t = Some (a, s) \<Longrightarrow> ch_strings h a = Some s"
  by (cases t) (auto simp: strings_in_def own_strings_def)

lemma seg_sees_object:
  assumes "seg_in h pv ts None" "list_all2 (\<lambda>t kv. reads h (ct_addr t) (snd kv) \<and> (\<exists>a. ct_key t = Some (a, fst kv))) ts kvs"
  shows "sees_object h (first_addr ts None) kvs"
  using assms(2,1)
proof (induction arbitrary: pv rule: list_all2_induct)
  case (Cons t ts kv kvs)
  obtain a where a: "ct_key t = Some (a, fst kv)" using Cons.hyps(1) by blast
  have t: "tree_in h t (first_addr ts None) pv" using Cons.prems by simp
  have "ch_strings h a = Some (fst kv)" by (rule tree_key [OF t a])
  then show ?case using Cons a tree_in_node [OF t] by (cases kv) auto
qed simp

text \<open>The value of a tree without references.\<close>

fun value_of :: "ctree \<Rightarrow> cjson" where
  "value_of (CT a k v kids) =
     (case v of
        VBool b \<Rightarrow> CBool b
      | VNumber d \<Rightarrow> CNumber d
      | VString b s \<Rightarrow> CString s
      | VArray \<Rightarrow> CArray (map value_of kids)
      | VObject \<Rightarrow> CObject (map (\<lambda>t. (key_of t, value_of t)) kids)
      | _ \<Rightarrow> CNull)"

fun plain_tree :: "ctree \<Rightarrow> bool" where
  "plain_tree (CT a k v kids) \<longleftrightarrow>
     \<not> is_ref v \<and> (v = VObject \<longrightarrow> list_all (\<lambda>t. ct_key t \<noteq> None) kids) \<and> list_all plain_tree kids"

lemma tree_reads: "tree_in h t nx pv \<Longrightarrow> plain_tree t \<Longrightarrow> reads h (ct_addr t) (value_of t)"
proof (induction t arbitrary: nx pv)
  case (CT a k v kids)
  have seg: "seg_in h (last_addr kids None) kids None" using CT.prems(1) by simp
  have kids: "reads h (ct_addr t) (value_of t)" if t: "t \<in> set kids" for t
  proof -
    obtain xs ys where "kids = xs @ [t] @ ys" using split_list [OF t] by auto
    then have "tree_in h t (first_addr ys None) (last_addr xs (last_addr kids None))" using seg by simp
    then show ?thesis using CT.IH [OF t] CT.prems(2) t by (auto simp: list_all_iff)
  qed
  have "list_all2 (\<lambda>t x. reads h (ct_addr t) x) kids (map value_of kids)"
    using kids by (simp add: list_all2_conv_all_nth)
  from seg_sees_array [OF seg this] have arr: "sees_array h (first_addr kids None) (map value_of kids)" .
  have obj: "sees_object h (first_addr kids None) (map (\<lambda>t. (key_of t, value_of t)) kids)" if "v = VObject"
  proof (rule seg_sees_object [OF seg])
    have "\<exists>a. ct_key t = Some (a, key_of t)" if "t \<in> set kids" for t
      using CT.prems(2) \<open>v = VObject\<close> that by (auto simp: list_all_iff key_of_def)
    then show "list_all2 (\<lambda>t kv. reads h (ct_addr t) (snd kv) \<and> (\<exists>a. ct_key t = Some (a, fst kv))) kids
        (map (\<lambda>t. (key_of t, value_of t)) kids)"
      using kids by (simp add: list_all2_conv_all_nth)
  qed
  show ?case
  proof (cases v)
    case (VString b s)
    then show ?thesis using CT.prems(1) by (auto simp: strings_in_def own_strings_def)
  qed (use CT.prems arr obj in auto)
qed

end
