(* ===== verification/CjsonEdit.thy ===== *)
theory CjsonEdit
  imports CjsonOwned
begin

text \<open>
  The array operations of the bundled cJSON library as operations on lists: on a tree in memory they count
  its children, find one by its index, append one, take one out and release one.
\<close>

section \<open>Reading\<close>

lemma count_seg: "seg_in h pv ts None \<Longrightarrow> count_children (first_addr ts None) h n = Some (n + length ts)"
proof (induction ts arbitrary: pv n)
  case Nil
  then show ?case by (simp add: count_children.simps)
next
  case (Cons t ts)
  then have t: "tree_in h t (first_addr ts None) pv" by simp
  have "seg_in h (Some (ct_addr t)) ts None" using Cons.prems by simp
  from Cons.IH [OF this] show ?case using tree_in_node [OF t] by (simp add: count_children.simps [of "Some (ct_addr t)"])
qed

lemma item_seg:
  "seg_in h pv ts None \<Longrightarrow> item_from i (first_addr ts None) h = Some (if i < length ts then Some (ct_addr (ts ! i)) else None)"
proof (induction ts arbitrary: pv i)
  case (Cons t ts)
  then have t: "tree_in h t (first_addr ts None) pv" by simp
  have "seg_in h (Some (ct_addr t)) ts None" using Cons.prems by simp
  from Cons.IH [OF this] show ?case using tree_in_node [OF t] by (cases i) simp_all
qed simp

lemma tree_items:
  assumes "tree_in h (CT a k v kids) nx pv" "container v"
  shows "cJSON_GetArraySize (Some a) h = Some (c_int (length kids))"
    "get_array_item (Some a) i h = Some (if i < length kids then Some (ct_addr (kids ! i)) else None)"
proof -
  have n: "ch_nodes h a = Some (node_of k v kids nx pv)" and seg: "seg_in h (last_addr kids None) kids None"
    using assms(1) by simp_all
  show "cJSON_GetArraySize (Some a) h = Some (c_int (length kids))"
    using n count_seg [OF seg, of 0] container_child [OF assms(2)] by (simp add: cJSON_GetArraySize_def)
  show "get_array_item (Some a) i h = Some (if i < length kids then Some (ct_addr (kids ! i)) else None)"
    using n item_seg [OF seg, of i] container_child [OF assms(2)] by (simp add: get_array_item_def)
qed

text \<open>The case-sensitive search of a member is the search of its value.\<close>

lemma member_seg:
  "seg_in h pv ts None \<Longrightarrow> list_all (\<lambda>t. ct_key t \<noteq> None) ts \<Longrightarrow>
   member_from True name (first_addr ts None) h = Some (map_option ct_addr (find (\<lambda>t. key_of t = name) ts))"
proof (induction ts arbitrary: pv)
  case Nil
  then show ?case by (simp add: member_from.simps)
next
  case (Cons t ts)
  then have t: "tree_in h t (first_addr ts None) pv" and rest: "seg_in h (Some (ct_addr t)) ts None" by simp_all
  obtain b s where key: "ct_key t = Some (b, s)" using Cons.prems(2) by auto
  have "ch_strings h b = Some s" by (rule tree_key [OF t key])
  then show ?case using Cons.IH [OF rest] Cons.prems(2) tree_in_node [OF t] key
    by (simp add: member_from.simps [of True name "Some (ct_addr t)"] key_of_def)
qed

lemma object_lookup:
  assumes "tree_in h (CT a k VObject kids) nx pv" "plain_tree (CT a k VObject kids)"
  shows "\<exists>p. cJSON_GetObjectItemCaseSensitive (Some a) name h = Some p
    \<and> (case cj_get (value_of (CT a k VObject kids)) name of None \<Rightarrow> p = None | Some x \<Rightarrow> \<exists>q. p = Some q \<and> reads h q x)"
proof -
  have n: "ch_nodes h a = Some (node_of k VObject kids nx pv)" and seg: "seg_in h (last_addr kids None) kids None"
    using assms(1) by simp_all
  have found: "map_of (map (\<lambda>t. (key_of t, value_of t)) ts) name = map_option value_of (find (\<lambda>t. key_of t = name) ts)" for ts
    by (induction ts) simp_all
  have keys: "list_all (\<lambda>t. ct_key t \<noteq> None) kids" using assms(2) by simp
  have get: "cJSON_GetObjectItemCaseSensitive (Some a) name h = Some (map_option ct_addr (find (\<lambda>t. key_of t = name) kids))"
    using n member_seg [OF seg keys] by (simp add: cJSON_GetObjectItemCaseSensitive_def get_object_item_def)
  have "reads h (ct_addr t) (value_of t)" if "find (\<lambda>t. key_of t = name) kids = Some t" for t
  proof -
    have t: "t \<in> set kids" using that by (metis find_Some_iff nth_mem)
    then obtain xs ys where "kids = xs @ [t] @ ys" using split_list [of t kids] by auto
    then have "tree_in h t (first_addr ys None) (last_addr xs (last_addr kids None))" using seg by simp
    moreover have "plain_tree t" using assms(2) t by (simp add: list_all_iff)
    ultimately show ?thesis by (rule tree_reads)
  qed
  then show ?thesis unfolding get by (auto simp: found split: option.split)
qed

section \<open>Taking out\<close>

lemma first_addr_mem: "first_addr ts None = Some b \<Longrightarrow> b \<in> set (forest_addrs ts)"
  using addr_in by (cases ts) auto

definition unlink :: "cj_node \<Rightarrow> cj_node" where
  "unlink n = n\<lparr>nd_prev := None, nd_next := None\<rparr>"

lemma tree_unlink:
  assumes "tree_in h t nx pv" "distinct (addrs t)"
  shows "tree_in (upd (ct_addr t) unlink h) t None None"
  using assms by (cases t) (simp add: unlink_def)

lemma detach_only:
  assumes "tree_in h (CT a k v [t]) nx pv" "container v" "distinct (addrs (CT a k v [t]))"
  defines "h' \<equiv> upd (ct_addr t) unlink (upd a (nd_child_update (\<lambda>_. None)) h)"
  shows "cJSON_DetachItemViaPointer (Some a) (Some (ct_addr t)) h = Some (Some (ct_addr t), h')
    \<and> tree_in h' (CT a k v []) nx pv \<and> tree_in h' t None None"
proof -
  have na: "ch_nodes h a = Some (node_of k v [t] nx pv)" and strs: "strings_in h (own_strings k v)"
    and t: "tree_in h t None (Some (ct_addr t))" using assms(1) by simp_all
  have out: "a \<notin> set (addrs t)" "ct_addr t \<noteq> a" using assms(3) addr_in [of t] by (auto simp del: addr_in)
  have "tree_in (upd a (nd_child_update (\<lambda>_. None)) h) t None (Some (ct_addr t))" using t out(1) by simp
  from tree_unlink [OF this] have "tree_in h' t None None" using assms(3) unfolding h'_def by simp
  moreover have "cJSON_DetachItemViaPointer (Some a) (Some (ct_addr t)) h = Some (Some (ct_addr t), h')"
    using na tree_in_node [OF t] out assms(2)
    by (auto simp: cJSON_DetachItemViaPointer_def write_upd h'_def unlink_def [abs_def])
  moreover have "tree_in h' (CT a k v []) nx pv"
    using na strs out(2) container_node(1) [OF assms(2), of "[]" k "[t]"] by (simp add: h'_def)
  ultimately show ?thesis by simp
qed

lemma detach_first:
  assumes "tree_in h (CT a k v (t # y # ys)) nx pv" "container v" "distinct (addrs (CT a k v (t # y # ys)))"
  defines "h' \<equiv> upd (ct_addr t) unlink (upd a (nd_child_update (\<lambda>_. Some (ct_addr y)))
      (upd (ct_addr y) (nd_prev_update (\<lambda>_. last_addr (y # ys) None)) h))"
  shows "cJSON_DetachItemViaPointer (Some a) (Some (ct_addr t)) h = Some (Some (ct_addr t), h')
    \<and> tree_in h' (CT a k v (y # ys)) nx pv \<and> tree_in h' t None None"
proof -
  let ?l = "last_addr (y # ys) None"
  let ?h1 = "upd (ct_addr y) (nd_prev_update (\<lambda>_. ?l)) h"
  let ?h2 = "upd a (nd_child_update (\<lambda>_. Some (ct_addr y))) ?h1"
  have na: "ch_nodes h a = Some (node_of k v (t # y # ys) nx pv)" and strs: "strings_in h (own_strings k v)"
    and t: "tree_in h t (Some (ct_addr y)) ?l" and seg: "seg_in h (Some (ct_addr t)) (y # ys) None"
    using assms(1) by simp_all
  have dist: "distinct (forest_addrs (y # ys))" "distinct (addrs t)" using assms(3) by simp_all
  have a: "a \<notin> set (addrs t)" "a \<notin> set (forest_addrs (y # ys))" using assms(3) by auto
  have ty: "set (addrs t) \<inter> set (forest_addrs (y # ys)) = {}" using assms(3) by auto
  then have out: "ct_addr t \<notin> set (forest_addrs (y # ys))" "ct_addr y \<notin> set (addrs t)" "ct_addr t \<noteq> ct_addr y" "ct_addr t \<noteq> a"
      "ct_addr y \<noteq> a"
    using addr_in [of t] addr_in [of y] a by (auto simp del: addr_in)
  have "seg_in ?h1 ?l (y # ys) None" by (rule set_prev [OF seg dist(1)])
  then have s2: "seg_in h' ?l (y # ys) None" unfolding h'_def using a(2) out(1) seg_upd by blast
  have "tree_in ?h2 t (Some (ct_addr y)) ?l" using t a(1) out(2) tree_upd by blast
  from tree_unlink [OF this dist(2)] have t2: "tree_in h' t None None" unfolding h'_def .
  have "ch_nodes h' a = Some (node_of k v (y # ys) nx pv)"
    using na out container_node(1) [OF assms(2), of "y # ys" k "t # y # ys"] by (simp add: h'_def)
  then have "tree_in h' (CT a k v (y # ys)) nx pv" using s2 strs by (simp add: h'_def)
  moreover have "cJSON_DetachItemViaPointer (Some a) (Some (ct_addr t)) h = Some (Some (ct_addr t), h')"
  proof -
    have y: "ch_nodes h (ct_addr y) \<noteq> None" using seg tree_in_node [of h y] by auto
    show ?thesis
      using na tree_in_node [OF t] y out container_child [OF assms(2), of "t # y # ys"]
      by (simp add: cJSON_DetachItemViaPointer_def write_upd h'_def unlink_def [abs_def])
  qed
  ultimately show ?thesis using t2 by simp
qed


text \<open>A child after another one: the predecessor skips it.\<close>

lemma detach_middle:
  assumes "tree_in h (CT a k v (xs @ [x, t, y] @ ys)) nx pv" "container v" "distinct (addrs (CT a k v (xs @ [x, t, y] @ ys)))"
  defines "h' \<equiv> upd (ct_addr t) unlink (upd (ct_addr y) (nd_prev_update (\<lambda>_. Some (ct_addr x)))
      (upd (ct_addr x) (nd_next_update (\<lambda>_. Some (ct_addr y))) h))"
  shows "cJSON_DetachItemViaPointer (Some a) (Some (ct_addr t)) h = Some (Some (ct_addr t), h')
    \<and> tree_in h' (CT a k v (xs @ [x, y] @ ys)) nx pv \<and> tree_in h' t None None"
proof -
  let ?l = "last_addr (y # ys) None"
  let ?h1 = "upd (ct_addr x) (nd_next_update (\<lambda>_. Some (ct_addr y))) h"
  let ?h2 = "upd (ct_addr y) (nd_prev_update (\<lambda>_. Some (ct_addr x))) ?h1"
  have na: "ch_nodes h a = Some (node_of k v (xs @ [x, t, y] @ ys) nx pv)" and strs: "strings_in h (own_strings k v)"
    and front: "seg_in h ?l (xs @ [x]) (Some (ct_addr t))" and t: "tree_in h t (Some (ct_addr y)) (Some (ct_addr x))"
    and seg: "seg_in h (Some (ct_addr t)) (y # ys) None"
    using assms(1) by simp_all
  have dist: "distinct (forest_addrs (xs @ [x]))" "distinct (forest_addrs (y # ys))" "distinct (addrs t)"
    using assms(3) by auto
  have a: "a \<notin> set (addrs t)" "a \<notin> set (forest_addrs (xs @ [x]))" "a \<notin> set (forest_addrs (y # ys))" using assms(3) by auto
  have apart: "set (addrs t) \<inter> set (forest_addrs (xs @ [x])) = {}" "set (addrs t) \<inter> set (forest_addrs (y # ys)) = {}"
    "set (forest_addrs (xs @ [x])) \<inter> set (forest_addrs (y # ys)) = {}" using assms(3) by auto
  have mem: "ct_addr x \<in> set (forest_addrs (xs @ [x]))" "ct_addr y \<in> set (forest_addrs (y # ys))" by simp_all
  have out: "ct_addr t \<notin> set (forest_addrs (xs @ [x]))" "ct_addr t \<notin> set (forest_addrs (y # ys))"
      "ct_addr x \<notin> set (addrs t)" "ct_addr y \<notin> set (addrs t)" "ct_addr x \<notin> set (forest_addrs (y # ys))"
      "ct_addr y \<notin> set (forest_addrs (xs @ [x]))"
    using apart mem addr_in [of t] by (blast, blast, blast, blast, blast, blast)
  have neq: "ct_addr t \<noteq> a" "ct_addr x \<noteq> a" "ct_addr y \<noteq> a" "ct_addr t \<noteq> ct_addr x" "ct_addr t \<noteq> ct_addr y" "ct_addr x \<noteq> ct_addr y"
    using a mem addr_in [of t] out by metis+
  have "seg_in ?h1 ?l (xs @ [x]) (Some (ct_addr y))" by (rule set_next [OF front dist(1)])
  then have s1: "seg_in h' ?l (xs @ [x]) (Some (ct_addr y))" unfolding h'_def using out(1,6) seg_upd by blast
  have "seg_in ?h1 (Some (ct_addr t)) (y # ys) None" using seg out(5) seg_upd by blast
  from set_prev [OF this dist(2)] have "seg_in ?h2 (Some (ct_addr x)) (y # ys) None" .
  then have s2: "seg_in h' (Some (ct_addr x)) (y # ys) None" unfolding h'_def using out(2) seg_upd by blast
  have "tree_in ?h2 t (Some (ct_addr y)) (Some (ct_addr x))" using t out(3,4) tree_upd by blast
  from tree_unlink [OF this dist(3)] have t2: "tree_in h' t None None" unfolding h'_def .
  have same: "first_addr (xs @ [x, t, y] @ ys) None = first_addr (xs @ [x, y] @ ys) None" by (cases xs) simp_all
  have "ch_nodes h' a = Some (node_of k v (xs @ [x, y] @ ys) nx pv)"
    using na neq container_node(2) [OF assms(2) same] by (simp add: h'_def)
  moreover have "seg_in h' ?l ((xs @ [x]) @ (y # ys)) None" using s1 s2 by simp
  ultimately have "tree_in h' (CT a k v (xs @ [x, y] @ ys)) nx pv" using strs by (simp add: h'_def)
  moreover have "cJSON_DetachItemViaPointer (Some a) (Some (ct_addr t)) h = Some (Some (ct_addr t), h')"
  proof -
    have ns: "ch_nodes h (ct_addr x) \<noteq> None" "ch_nodes h (ct_addr y) \<noteq> None"
      using front seg tree_in_node [of h x] tree_in_node [of h y] by auto
    have "first_addr (xs @ [x, t, y] @ ys) None \<noteq> Some (ct_addr t)"
    proof -
      have "first_addr (xs @ [x, t, y] @ ys) None = first_addr (xs @ [x]) None" by (cases xs) simp_all
      then show ?thesis using out(1) first_addr_mem by metis
    qed
    then show ?thesis
      using na tree_in_node [OF t] ns neq container_child [OF assms(2), of "xs @ [x, t, y] @ ys"]
      by (simp add: cJSON_DetachItemViaPointer_def write_upd h'_def unlink_def [abs_def])
  qed
  ultimately show ?thesis using t2 by simp
qed


text \<open>The last child after others: its predecessor is the new last one, which the first child records.\<close>

lemma detach_last:
  assumes "tree_in h (CT a k v (f # fs @ [t])) nx pv" "container v" "distinct (addrs (CT a k v (f # fs @ [t])))"
    "x = last (f # fs)"
  defines "h' \<equiv> upd (ct_addr t) unlink (upd (ct_addr f) (nd_prev_update (\<lambda>_. Some (ct_addr x)))
      (upd (ct_addr x) (nd_next_update (\<lambda>_. None)) h))"
  shows "cJSON_DetachItemViaPointer (Some a) (Some (ct_addr t)) h = Some (Some (ct_addr t), h')
    \<and> tree_in h' (CT a k v (f # fs)) nx pv \<and> tree_in h' t None None"
proof -
  let ?h1 = "upd (ct_addr x) (nd_next_update (\<lambda>_. None)) h"
  let ?h2 = "upd (ct_addr f) (nd_prev_update (\<lambda>_. Some (ct_addr x))) ?h1"
  obtain xs where xs: "f # fs = xs @ [x]" using assms(4) by (metis append_butlast_last_id list.distinct(1))
  have last: "last_addr (f # fs) q = Some (ct_addr x)" for q using assms(4) by (simp add: last_addr_def)
  have na: "ch_nodes h a = Some (node_of k v (f # fs @ [t]) nx pv)" and strs: "strings_in h (own_strings k v)"
    using assms(1) by simp_all
  have "seg_in h (Some (ct_addr t)) ((f # fs) @ [t]) None" using assms(1) by simp
  then have front: "seg_in h (Some (ct_addr t)) (f # fs) (Some (ct_addr t))" and t: "tree_in h t None (Some (ct_addr x))"
    unfolding seg_append last by simp_all
  have "distinct (addrs (CT a k v ((f # fs) @ [t])))" using assms(3) by simp
  then have dist: "distinct (forest_addrs (f # fs))" "distinct (addrs t)"
    and a: "a \<notin> set (addrs t)" "a \<notin> set (forest_addrs (f # fs))"
    and apart: "set (addrs t) \<inter> set (forest_addrs (f # fs)) = {}"
    by auto
  have mem: "ct_addr x \<in> set (forest_addrs (f # fs))" "ct_addr f \<in> set (forest_addrs (f # fs))"
    unfolding xs by simp (simp flip: xs)
  have out: "ct_addr t \<notin> set (forest_addrs (f # fs))" "ct_addr x \<notin> set (addrs t)" "ct_addr f \<notin> set (addrs t)"
    using apart mem addr_in [of t] by (blast, blast, blast)
  have neq: "ct_addr t \<noteq> a" "ct_addr x \<noteq> a" "ct_addr f \<noteq> a" "ct_addr t \<noteq> ct_addr x" "ct_addr t \<noteq> ct_addr f"
    using a mem addr_in [of t] out by metis+
  have "seg_in ?h1 (Some (ct_addr t)) (f # fs) None"
    using set_next [of h "Some (ct_addr t)" xs x "Some (ct_addr t)" None] front dist(1) unfolding xs by blast
  from set_prev [OF this dist(1)] have "seg_in ?h2 (Some (ct_addr x)) (f # fs) None" .
  then have s2: "seg_in h' (Some (ct_addr x)) (f # fs) None" unfolding h'_def using out(1) seg_upd by blast
  have "tree_in ?h2 t None (Some (ct_addr x))" using t out(2,3) tree_upd by blast
  from tree_unlink [OF this dist(2)] have t2: "tree_in h' t None None" unfolding h'_def .
  have "ch_nodes h' a = Some (node_of k v (f # fs) nx pv)"
    using na neq container_node(2) [OF assms(2), of "f # fs @ [t]" "f # fs"] by (simp add: h'_def)
  then have "tree_in h' (CT a k v (f # fs)) nx pv" using s2 strs last by (simp add: h'_def)
  moreover have "cJSON_DetachItemViaPointer (Some a) (Some (ct_addr t)) h = Some (Some (ct_addr t), h')"
  proof -
    have "\<exists>nx pv. tree_in h f nx pv" using front by auto
    moreover have "\<exists>nx pv. tree_in h x nx pv" using front unfolding xs by auto
    ultimately have ns: "ch_nodes h (ct_addr x) \<noteq> None" "ch_nodes h (ct_addr f) \<noteq> None"
      using tree_in_node [of h f] tree_in_node [of h x] by auto
    show ?thesis
      using ns na tree_in_node [OF t] neq container_child [OF assms(2), of "f # fs @ [t]"]
      by (simp add: cJSON_DetachItemViaPointer_def write_upd h'_def unlink_def [abs_def])
  qed
  ultimately show ?thesis using t2 by simp
qed


lemma detach_item:
  assumes "tree_in h (CT a k v (xs @ [t] @ ys)) nx pv" "container v" "distinct (addrs (CT a k v (xs @ [t] @ ys)))"
  shows "\<exists>h'. (cJSON_DetachItemViaPointer (Some a) (Some (ct_addr t)) h = Some (Some (ct_addr t), h')
    \<and> tree_in h' (CT a k v (xs @ ys)) nx pv \<and> tree_in h' t None None)
    \<and> changes h h' (set (addrs (CT a k v (xs @ [t] @ ys))))" (is "\<exists>h'. ?Q h' \<and> changes h h' ?A")
proof (cases "xs = []")
  case True
  note xs = True
  show ?thesis
  proof (cases ys)
    case Nil
    have "changes h (upd (ct_addr t) unlink (upd a (nd_child_update (\<lambda>_. None)) h)) ?A"
      by (intro changes_upd changes_refl) simp_all
    then show ?thesis using detach_only [of h a k v t nx pv] assms unfolding xs Nil by auto
  next
    case (Cons y zs)
    have "changes h (upd (ct_addr t) unlink (upd a (nd_child_update (\<lambda>_. Some (ct_addr y)))
        (upd (ct_addr y) (nd_prev_update (\<lambda>_. last_addr (y # zs) None)) h))) ?A"
      unfolding Cons by (intro changes_upd changes_refl) simp_all
    then show ?thesis using detach_first [of h a k v t y zs nx pv] assms unfolding xs Cons by fastforce
  qed
next
  case False
  then obtain us x where us: "xs = us @ [x]" by (metis rev_exhaust)
  obtain f fs where fs: "xs = f # fs" using False by (cases xs) auto
  show ?thesis
  proof (cases ys)
    case Nil
    have x: "x = last (f # fs)" using us fs by (metis last_snoc)
    have "ct_addr f \<in> ?A" "ct_addr x \<in> ?A" by (simp add: fs) (simp add: us)
    then have "changes h (upd (ct_addr t) unlink (upd (ct_addr f) (nd_prev_update (\<lambda>_. Some (ct_addr x)))
        (upd (ct_addr x) (nd_next_update (\<lambda>_. None)) h))) ?A" (is "changes h ?h' ?A")
      by (intro changes_upd changes_refl) simp_all
    moreover have "?Q ?h'" using detach_last [of h a k v f fs t nx pv x] assms x unfolding fs Nil by simp
    ultimately show ?thesis by blast
  next
    case (Cons y zs)
    have "changes h (upd (ct_addr t) unlink (upd (ct_addr y) (nd_prev_update (\<lambda>_. Some (ct_addr x)))
        (upd (ct_addr x) (nd_next_update (\<lambda>_. Some (ct_addr y))) h))) ?A" (is "changes h ?h' ?A")
      unfolding us Cons by (intro changes_upd changes_refl) simp_all
    moreover have "?Q ?h'" using detach_middle [of h a k v us x t y zs nx pv] assms unfolding us Cons by simp
    ultimately show ?thesis by blast
  qed
qed

lemma built_detach:
  assumes "built h0 h (CT a k v (xs @ [t] @ ys) # ts)" "container v"
  shows "\<exists>h'. cJSON_DetachItemViaPointer (Some a) (Some (ct_addr t)) h = Some (Some (ct_addr t), h')
    \<and> built h0 h' (t # CT a k v (xs @ ys) # ts)"
proof -
  let ?p = "CT a k v (xs @ [t] @ ys)" and ?q = "CT a k v (xs @ ys)"
  have ok: "forest_ok (?p # ts)" by (rule builtD(2) [OF assms(1)])
  have in_h: "tree_in h ?p None None" using builtD(3) [OF assms(1)] by (simp del: tree_in.simps)
  have "distinct (addrs ?p)" using ok by (auto simp: forest_ok_def)
  from detach_item [OF in_h assms(2) this] obtain h' where
    h': "cJSON_DetachItemViaPointer (Some a) (Some (ct_addr t)) h = Some (Some (ct_addr t), h')" "tree_in h' ?q None None"
      "tree_in h' t None None" "changes h h' (set (addrs ?p))" by blast
  have c: "changes h h' (set (forest_addrs [?p]))" using h'(4) by simp
  have "built h0 h ([?p] @ ts)" using assms(1) by simp
  then have "built h0 h' ([t, ?q] @ ts)"
  proof (rule built_edit [OF _ c])
    show "list_all shaped [t, ?q]" using ok assms(2) by (auto simp: forest_ok_def)
  qed (use h'(2,3) in \<open>auto simp del: tree_in.simps\<close>)
  then show ?thesis using h'(1) by simp
qed

text \<open>\<open>cJSON_DeleteItemFromArray\<close> is the removal of an index, and nothing outside of the array.\<close>

definition remove_at :: "int \<Rightarrow> 'a list \<Rightarrow> 'a list" where
  "remove_at i xs = (if i < 0 then xs else take (nat i) xs @ drop (Suc (nat i)) xs)"

lemma built_delete_item:
  assumes "built h0 h (CT a k v kids # ts)" "container v"
  shows "\<exists>h'. cJSON_DeleteItemFromArray (Some a) i h = Some h' \<and> built h0 h' (CT a k v (remove_at i kids) # ts)"
proof -
  have in_h: "tree_in h (CT a k v kids) None None" using builtD(3) [OF assms(1)] by (simp del: tree_in.simps)
  have none: "cJSON_Delete None h = Some h" by (simp add: cJSON_Delete.simps)
  note item = tree_items(2) [OF in_h assms(2), of "nat i"]
  show ?thesis
  proof (cases "0 \<le> i \<and> nat i < length kids")
    case False
    then have "remove_at i kids = kids" by (auto simp: remove_at_def)
    then show ?thesis using False assms(1) none item
      by (auto simp: cJSON_DeleteItemFromArray_def cJSON_DetachItemFromArray_def cJSON_DetachItemViaPointer_def)
  next
    case True
    then have split: "kids = take (nat i) kids @ [kids ! nat i] @ drop (Suc (nat i)) kids" by (simp add: id_take_nth_drop)
    from assms(1) have "built h0 h (CT a k v (take (nat i) kids @ [kids ! nat i] @ drop (Suc (nat i)) kids) # ts)"
      using split by simp
    from built_detach [OF this assms(2)] obtain h1 where
      h1: "cJSON_DetachItemViaPointer (Some a) (Some (ct_addr (kids ! nat i))) h = Some (Some (ct_addr (kids ! nat i)), h1)"
        "built h0 h1 (kids ! nat i # CT a k v (remove_at i kids) # ts)" using True by (auto simp: remove_at_def)
    from built_delete [OF this(2)] obtain h2 where
      "cJSON_Delete (Some (ct_addr (kids ! nat i))) h1 = Some h2" "built h0 h2 (CT a k v (remove_at i kids) # ts)" by blast
    then show ?thesis using True item h1(1)
      by (auto simp: cJSON_DeleteItemFromArray_def cJSON_DetachItemFromArray_def)
  qed
qed


section \<open>Arrays as lists\<close>

text \<open>
  C16. A heap with an array, an item of its own and other trees. Counting gives the number of the
  children as an \<open>int\<close>, an index gives the child there and \<open>NULL\<close> outside of the range; adding the item appends it,
  deleting an index releases exactly the child there, its strings and its descendants, and both leave every
  other tree as it was. No operation leaves the heap.
\<close>

theorem array_is_list:
  assumes "built h0 h (CT a k VArray kids # t # ts)"
  shows "cJSON_GetArraySize (Some a) h = Some (c_int (length kids))
    \<and> (\<forall>i. cJSON_GetArrayItem (Some a) i h =
         Some (if 0 \<le> i \<and> nat i < length kids then Some (ct_addr (kids ! nat i)) else None))
    \<and> (\<exists>h'. cJSON_AddItemToArray (Some a) (Some (ct_addr t)) h = Some (True, h') \<and> built h0 h' (CT a k VArray (kids @ [t]) # ts))
    \<and> (\<forall>i. \<exists>h'. cJSON_DeleteItemFromArray (Some a) i h = Some h' \<and> built h0 h' (CT a k VArray (remove_at i kids) # t # ts))"
proof -
  have in_h: "tree_in h (CT a k VArray kids) None None" using builtD(3) [OF assms] by (simp del: tree_in.simps)
  show ?thesis
    using tree_items [OF in_h] built_add [OF assms] built_delete_item [OF assms]
    by (simp add: cJSON_GetArrayItem_def cJSON_AddItemToArray_def)
qed

definition sample_list :: cj_heap where
  "sample_list =
     \<lparr>ch_nodes = [0 \<mapsto> node_of None VArray [CT 1 None (VBool True) []] None None,
        1 \<mapsto> node_of None (VBool True) [] None (Some 1), 2 \<mapsto> node_of None (VString 3 ''x'') [] None None],
      ch_strings = [3 \<mapsto> ''x''], ch_fresh = 4\<rparr>"

lemma array_is_list_witness:
  "\<exists>h1 h2. cJSON_AddItemToArray (Some 0) (Some 2) sample_list = Some (True, h1)
     \<and> built \<lparr>ch_nodes = \<lambda>_. None, ch_strings = \<lambda>_. None, ch_fresh = 0\<rparr> h1
         [CT 0 None VArray [CT 1 None (VBool True) [], CT 2 None (VString 3 ''x'') []]]
     \<and> cJSON_DeleteItemFromArray (Some 0) 0 sample_list = Some h2
     \<and> built \<lparr>ch_nodes = \<lambda>_. None, ch_strings = \<lambda>_. None, ch_fresh = 0\<rparr> h2
         [CT 0 None VArray [], CT 2 None (VString 3 ''x'') []]"
proof -
  have "built \<lparr>ch_nodes = \<lambda>_. None, ch_strings = \<lambda>_. None, ch_fresh = 0\<rparr> sample_list
      [CT 0 None VArray [CT 1 None (VBool True) []], CT 2 None (VString 3 ''x'') []]"
    by (simp add: built_def heap_ok_def forest_ok_def sample_list_def own_strings_def strings_in_def)
  note * = array_is_list [OF this]
  have "remove_at 0 [CT 1 None (VBool True) []] = []" by (simp add: remove_at_def)
  then show ?thesis using * by (metis append.simps ctree.sel(1))
qed

end
