(* ===== verification/CjsonRequest.thy ===== *)
theory CjsonRequest
  imports CjsonEdit Agent
begin

text \<open>
  The request of a turn as it is built in memory: \<open>issue_request\<close> of \<open>agent.c\<close> puts a system message and
  references to the messages of the session into an array, \<open>build_body\<close> of \<open>provider/openrouter.c\<close> borrows
  the children of that array and of the tools for the print, and both are released. The theories above
  model the two functions on values; here they are seen to borrow without harm.
\<close>

section \<open>The code\<close>

text \<open>\<open>assert(item != NULL)\<close>\<close>

definition required :: "(addr option \<times> cj_heap) option \<Rightarrow> cj_heap option" where
  "required r = (case r of Some (Some i, h) \<Rightarrow> Some h | _ \<Rightarrow> None)"

definition node_add_cstr :: "addr \<Rightarrow> string \<Rightarrow> string \<Rightarrow> cj_heap \<Rightarrow> cj_heap option" where
  "node_add_cstr ob key val h = required (cJSON_AddStringToObject (Some ob) key (cstr val) h)"

definition node_add_int :: "addr \<Rightarrow> string \<Rightarrow> int \<Rightarrow> cj_heap \<Rightarrow> cj_heap option" where
  "node_add_int ob key val h = required (cJSON_AddNumberToObject (Some ob) key (dbl_of_int val) h)"

definition node_add_bool :: "addr \<Rightarrow> string \<Rightarrow> bool \<Rightarrow> cj_heap \<Rightarrow> cj_heap option" where
  "node_add_bool ob key val h = required (cJSON_AddBoolToObject (Some ob) key val h)"

partial_function (option) add_references :: "addr \<Rightarrow> addr option \<Rightarrow> cj_heap \<Rightarrow> cj_heap option" where
  "add_references array msg h =
     (case msg of
        None \<Rightarrow> Some h
      | Some m \<Rightarrow>
          do {
            (ok, h) \<leftarrow> cJSON_AddItemReferenceToArray (Some array) (Some m) h;
            n \<leftarrow> ch_nodes h m;
            add_references array (nd_next n) h
          })"

text \<open>The array of \<open>issue_request\<close>, \<open>NULL\<close> without a system prompt.\<close>

definition request_nodes :: "string option \<Rightarrow> addr \<Rightarrow> cj_heap \<Rightarrow> (addr option \<times> cj_heap) option" where
  "request_nodes system_prompt messages h =
     (case system_prompt of
        None \<Rightarrow> Some (None, h)
      | Some prompt \<Rightarrow>
          do {
            let (request_messages, h) = cJSON_CreateArray h;
            let (system, h) = cJSON_CreateObject h;
            h \<leftarrow> node_add_cstr system ''role'' ''system'' h;
            h \<leftarrow> node_add_cstr system ''content'' prompt h;
            (ok, h) \<leftarrow> cJSON_AddItemToArray (Some request_messages) (Some system) h;
            n \<leftarrow> ch_nodes h messages;
            h \<leftarrow> add_references request_messages (nd_child n) h;
            Some (Some request_messages, h)
          })"

definition add_borrowed :: "addr \<Rightarrow> string \<Rightarrow> addr option \<Rightarrow> cj_heap \<Rightarrow> cj_heap option" where
  "add_borrowed body key child h =
     do {
       let (r, h) = cJSON_CreateArrayReference child h;
       (ok, h) \<leftarrow> cJSON_AddItemToObject (Some body) key (Some r) h;
       Some h
     }"

text \<open>The object of \<open>build_body\<close>.\<close>

definition body_nodes :: "string option \<Rightarrow> int \<Rightarrow> addr \<Rightarrow> addr option \<Rightarrow> cj_heap \<Rightarrow> (addr \<times> cj_heap) option" where
  "body_nodes model max_tokens messages tools h =
     do {
       let (body, h) = cJSON_CreateObject h;
       h \<leftarrow> node_add_cstr body ''model'' (case model of Some m \<Rightarrow> m | None \<Rightarrow> MUA_DEFAULT_MODEL) h;
       h \<leftarrow> node_add_bool body ''stream'' True h;
       h \<leftarrow> (if max_tokens > 0 then node_add_int body ''max_tokens'' max_tokens h else Some h);
       m \<leftarrow> ch_nodes h messages;
       h \<leftarrow> add_borrowed body ''messages'' (nd_child m) h;
       h \<leftarrow> (case tools of
              None \<Rightarrow> Some h
            | Some t \<Rightarrow>
                do {
                  n \<leftarrow> ch_nodes h t;
                  if nd_child n \<noteq> None then add_borrowed body ''tools'' (nd_child n) h else Some h
                });
       Some (body, h)
     }"

text \<open>From the array to its release, with the body and the heap at the time of the print.\<close>

definition request_in_memory ::
    "string option \<Rightarrow> string option \<Rightarrow> int \<Rightarrow> addr \<Rightarrow> addr option \<Rightarrow> cj_heap \<Rightarrow> (addr \<times> cj_heap \<times> cj_heap) option" where
  "request_in_memory system_prompt model max_tokens messages tools h =
     do {
       (request_messages, h) \<leftarrow> request_nodes system_prompt messages h;
       (body, printed) \<leftarrow>
         body_nodes model max_tokens (case request_messages of Some r \<Rightarrow> r | None \<Rightarrow> messages) tools h;
       h \<leftarrow> cJSON_Delete (Some body) printed;
       h \<leftarrow> cJSON_Delete request_messages h;
       Some (body, printed, h)
     }"

section \<open>Building\<close>

lemma built_object: "built h0 h ts \<Longrightarrow> built h0 (snd (cJSON_CreateObject h)) (CT (fst (cJSON_CreateObject h)) None VObject [] # ts)"
  unfolding cJSON_CreateObject_def by (rule built_new) (simp_all add: zero_is own_strings_def)

lemma built_array: "built h0 h ts \<Longrightarrow> built h0 (snd (cJSON_CreateArray h)) (CT (fst (cJSON_CreateArray h)) None VArray [] # ts)"
  unfolding cJSON_CreateArray_def by (rule built_new) (simp_all add: zero_is own_strings_def)

text \<open>A member that a tree shows: its key and its value.\<close>

definition shows_member :: "string \<Rightarrow> cjson \<Rightarrow> ctree \<Rightarrow> bool" where
  "shows_member key x t \<longleftrightarrow> plain_tree t \<and> (\<exists>a. ct_key t = Some (a, key)) \<and> value_of t = x"

lemma required_created:
  assumes "built h0 (snd (create h)) (CT (fst (create h)) None v [] # CT a k VObject kids # ts)"
    "\<And>i b. shows_member name x (CT i (Some (b, name)) v [])"
  shows "\<exists>h' t. required (add_created create (Some a) name h) = Some h' \<and> shows_member name x t
    \<and> built h0 h' (CT a k VObject (kids @ [t]) # ts)"
  using built_add_created [where create = create and name = name, OF assms(1)] assms(2) by (fastforce simp: required_def)

lemma built_add_cstr:
  assumes "built h0 h (CT a k VObject kids # ts)"
  shows "\<exists>h' t. node_add_cstr a name s h = Some h' \<and> shows_member name (CString (cstr s)) t
    \<and> built h0 h' (CT a k VObject (kids @ [t]) # ts)"
proof -
  obtain b where "built h0 (snd (cJSON_CreateString (cstr s) h)) (CT (fst (cJSON_CreateString (cstr s) h)) None (VString b (cstr s)) [] # CT a k VObject kids # ts)"
    using built_string [OF assms] by blast
  then show ?thesis
    unfolding node_add_cstr_def cJSON_AddStringToObject_def by (rule required_created) (simp add: shows_member_def)
qed

lemma built_add_int:
  assumes "built h0 h (CT a k VObject kids # ts)"
  shows "\<exists>h' t. node_add_int a name n h = Some h' \<and> shows_member name (CNumber (dbl_of_int n)) t
    \<and> built h0 h' (CT a k VObject (kids @ [t]) # ts)"
proof -
  have "built h0 (snd (cJSON_CreateNumber (dbl_of_int n) h)) (CT (fst (cJSON_CreateNumber (dbl_of_int n) h)) None (VNumber (dbl_of_int n)) [] # CT a k VObject kids # ts)"
    unfolding cJSON_CreateNumber_def by (rule built_new [OF assms]) (simp_all add: zero_is own_strings_def)
  then show ?thesis
    unfolding node_add_int_def cJSON_AddNumberToObject_def by (rule required_created) (simp add: shows_member_def)
qed

lemma built_add_bool:
  assumes "built h0 h (CT a k VObject kids # ts)"
  shows "\<exists>h' t. node_add_bool a name x h = Some h' \<and> shows_member name (CBool x) t \<and> built h0 h' (CT a k VObject (kids @ [t]) # ts)"
proof -
  have "built h0 (snd (cJSON_CreateBool x h)) (CT (fst (cJSON_CreateBool x h)) None (VBool x) [] # CT a k VObject kids # ts)"
    unfolding cJSON_CreateBool_def by (rule built_new [OF assms]) (simp_all add: zero_is own_strings_def)
  then show ?thesis
    unfolding node_add_bool_def cJSON_AddBoolToObject_def by (rule required_created) (simp add: shows_member_def)
qed

text \<open>A borrowed member, which shows the children of another array.\<close>

definition borrowed :: "string \<Rightarrow> addr option \<Rightarrow> ctree \<Rightarrow> bool" where
  "borrowed key child t \<longleftrightarrow> (\<exists>i b. t = CT i (Some (b, key)) (VRef TArray child None 0) [])"

lemma built_add_borrowed:
  assumes "built h0 h (CT a k VObject kids # ts)"
  shows "\<exists>h' t. add_borrowed a key child h = Some h' \<and> borrowed key child t \<and> built h0 h' (CT a k VObject (kids @ [t]) # ts)"
proof -
  let ?r = "cJSON_CreateArrayReference child h"
  have "built h0 (snd ?r) (CT (fst ?r) None (VRef TArray child None 0) [] # CT a k VObject kids # ts)"
    unfolding cJSON_CreateArrayReference_def by (rule built_new [OF assms]) (simp_all add: zero_is own_strings_def)
  from built_add_object [OF built_swap [OF this], of key] obtain h' b where
    "add_item_to_object (Some a) key None (Some (fst ?r)) (snd ?r) = Some (True, h')"
    "built h0 h' (CT a k VObject (kids @ [CT (fst ?r) (Some (b, key)) (VRef TArray child None 0) []]) # ts)" by blast
  moreover from this have "add_borrowed a key child h = Some h'"
    by (cases ?r) (simp add: add_borrowed_def cJSON_AddItemToObject_def)
  ultimately show ?thesis unfolding borrowed_def by blast
qed

text \<open>The loop over the messages.\<close>

definition shell :: "ctree \<Rightarrow> ctree \<Rightarrow> bool" where
  "shell r m \<longleftrightarrow> (\<exists>i. r = CT i None (VRef (val_type (ct_val m)) (val_child (ct_val m) (ct_kids m)) (val_string (ct_val m))
      (val_double (ct_val m))) [])"

lemma built_references:
  "seg_in h0 pv ms None \<Longrightarrow> built h0 h [CT a k VArray kids] \<Longrightarrow>
   \<exists>h' rs. add_references a (first_addr ms None) h = Some h' \<and> list_all2 shell rs ms \<and> built h0 h' [CT a k VArray (kids @ rs)]"
proof (induction ms arbitrary: pv h kids)
  case Nil
  then show ?case by (auto simp: add_references.simps [of a None])
next
  case (Cons m ms)
  have m: "tree_in h0 m (first_addr ms None) pv" and ms: "seg_in h0 (Some (ct_addr m)) ms None" using Cons.prems(1) by simp_all
  from built_reference [OF Cons.prems(2) built_keeps [OF Cons.prems(2) m]] obtain r h1 where
    ref: "create_reference (Some (ct_addr m)) h = Some (Some r, h1)" and
    b1: "built h0 h1 [CT r None (VRef (val_type (ct_val m)) (val_child (ct_val m) (ct_kids m)) (val_string (ct_val m)) (val_double (ct_val m))) [],
      CT a k VArray kids]" (is "built h0 h1 [?s, _]") by blast
  from built_add [OF built_swap [OF b1]] obtain h2 where
    add: "add_item_to_array (Some a) (Some r) h1 = Some (True, h2)" and b2: "built h0 h2 [CT a k VArray (kids @ [?s])]" by auto
  from Cons.IH [OF ms b2] obtain h' rs where
    rest: "add_references a (first_addr ms None) h2 = Some h'" "list_all2 shell rs ms" "built h0 h' [CT a k VArray ((kids @ [?s]) @ rs)]"
    by blast
  have "ch_nodes h2 (ct_addr m) = Some (node_of (ct_key m) (ct_val m) (ct_kids m) (first_addr ms None) pv)"
    by (rule tree_in_node [OF built_keeps [OF b2 m]])
  then have "add_references a (Some (ct_addr m)) h = Some h'"
    using ref add rest(1) by (simp add: add_references.simps [of a "Some (ct_addr m)" h] cJSON_AddItemReferenceToArray_def)
  moreover have "shell ?s m" by (simp add: shell_def)
  ultimately show ?case using rest(2,3) by (intro exI [of _ h'] exI [of _ "?s # rs"]) simp
qed

lemma built_request:
  assumes "heap_ok h" "tree_in h (CT sa k VArray msgs) None None"
  shows "\<exists>r h' sys a b rs. request_nodes (Some prompt) sa h = Some (Some r, h')
    \<and> built h h' [CT r None VArray (CT sys None VObject [a, b] # rs)]
    \<and> shows_member ''role'' (CString ''system'') a \<and> shows_member ''content'' (CString (cstr prompt)) b \<and> list_all2 shell rs msgs"
proof -
  define r h1 where "r = fst (cJSON_CreateArray h)" and "h1 = snd (cJSON_CreateArray h)"
  define sys h2 where "sys = fst (cJSON_CreateObject h1)" and "h2 = snd (cJSON_CreateObject h1)"
  have "built h h2 [CT sys None VObject [], CT r None VArray []]"
    unfolding sys_def h2_def r_def h1_def by (intro built_object built_array built_start assms(1))
  from built_add_cstr [OF this, of "''role''" "''system''"] obtain h3 a where
    h3: "node_add_cstr sys ''role'' ''system'' h2 = Some h3" "shows_member ''role'' (CString ''system'') a"
      "built h h3 [CT sys None VObject ([] @ [a]), CT r None VArray []]" by (auto simp: cstr_def)
  from built_add_cstr [OF this(3), of "''content''" prompt] obtain h4 b where
    h4: "node_add_cstr sys ''content'' prompt h3 = Some h4" "shows_member ''content'' (CString (cstr prompt)) b"
      "built h h4 [CT sys None VObject (([] @ [a]) @ [b]), CT r None VArray []]" by blast
  from built_add [OF built_swap [OF this(3)]] obtain h5 where
    h5: "add_item_to_array (Some r) (Some sys) h4 = Some (True, h5)" "built h h5 [CT r None VArray ([] @ [CT sys None VObject [a, b]])]"
    by auto
  have "tree_in h5 (CT sa k VArray msgs) None None" by (rule built_keeps [OF h5(2) assms(2)])
  then have n: "ch_nodes h5 sa = Some (node_of k VArray msgs None None)" by simp
  have seg: "seg_in h (last_addr msgs None) msgs None" using assms(2) by simp
  from built_references [OF seg h5(2)] obtain h6 rs where
    h6: "add_references r (first_addr msgs None) h5 = Some h6" "list_all2 shell rs msgs"
      "built h h6 [CT r None VArray (([] @ [CT sys None VObject [a, b]]) @ rs)]" by blast
  have pairs: "cJSON_CreateArray h = (r, h1)" "cJSON_CreateObject h1 = (sys, h2)"
    by (simp_all add: r_def h1_def sys_def h2_def)
  have "request_nodes (Some prompt) sa h = Some (Some r, h6)"
    using h3(1) h4(1) h5(1) h6(1) n by (simp add: request_nodes_def pairs cJSON_AddItemToArray_def)
  then show ?thesis using h3(2) h4(2) h6(2,3) by (intro exI [of _ r] exI [of _ h6] exI [of _ sys] exI [of _ a] exI [of _ b] exI [of _ rs]) simp
qed

section \<open>What the print sees\<close>

lemma shell_reads:
  assumes "shell r m" "tree_in h r nx pv" "tree_in h m nx' pv'" "plain_tree m"
  shows "reads h (ct_addr r) (value_of m)"
  using reads_copy [OF tree_reads [OF assms(3,4)] tree_in_node [OF assms(3)] tree_in_node [OF assms(2)]] assms(1)
  by (auto simp: shell_def)

lemma seg_nth:
  assumes "seg_in h pv ts nx" "i < length ts"
  shows "\<exists>nx pv. tree_in h (ts ! i) nx pv"
proof -
  have "ts = take i ts @ [ts ! i] @ drop (Suc i) ts" using assms(2) by (simp add: Cons_nth_drop_Suc)
  then show ?thesis using assms(1) seg_append by (metis seg_in.simps(2))
qed

lemma plain_elements:
  assumes "seg_in h pv ts nx" "list_all plain_tree ts"
  shows "list_all2 (\<lambda>t x. reads h (ct_addr t) x) ts (map value_of ts)"
proof -
  have "reads h (ct_addr (ts ! i)) (value_of (ts ! i))" if "i < length ts" for i
    using seg_nth [OF assms(1) that] assms(2) that tree_reads by (auto simp: list_all_length)
  then show ?thesis by (simp add: list_all2_conv_all_nth)
qed

lemma shell_elements:
  assumes "seg_in h pv rs nx" "seg_in h pv' ms nx'" "list_all plain_tree ms" "list_all2 shell rs ms"
  shows "list_all2 (\<lambda>t x. reads h (ct_addr t) x) rs (map value_of ms)"
proof -
  have "reads h (ct_addr (rs ! i)) (value_of (ms ! i))" if "i < length ms" for i
    using seg_nth [OF assms(1), of i] seg_nth [OF assms(2) that] assms(3,4) that shell_reads
    by (auto simp: list_all_length list_all2_conv_all_nth)
  then show ?thesis using assms(4) by (simp add: list_all2_conv_all_nth)
qed

text \<open>An array in a heap that shows a list of values.\<close>

definition displays :: "cj_heap \<Rightarrow> addr \<Rightarrow> ctree list \<Rightarrow> cjson list \<Rightarrow> bool" where
  "displays h a elems xs \<longleftrightarrow>
     (\<exists>k. tree_in h (CT a k VArray elems) None None) \<and> list_all2 (\<lambda>t x. reads h (ct_addr t) x) elems xs"

definition lends :: "cj_heap \<Rightarrow> ctree \<Rightarrow> string \<times> cjson \<Rightarrow> bool" where
  "lends h t kv \<longleftrightarrow> (\<exists>a elems xs. displays h a elems xs \<and> borrowed (fst kv) (first_addr elems None) t \<and> snd kv = CArray xs)"

lemma lends_reads:
  assumes "lends h t kv" "tree_in h t nx pv"
  shows "reads h (ct_addr t) (snd kv) \<and> (\<exists>b. ct_key t = Some (b, fst kv))"
proof -
  obtain a elems xs where l: "displays h a elems xs" "borrowed (fst kv) (first_addr elems None) t" "snd kv = CArray xs"
    using assms(1) by (auto simp: lends_def)
  then obtain k where "seg_in h (last_addr elems None) elems None" "list_all2 (\<lambda>t x. reads h (ct_addr t) x) elems xs"
    by (auto simp: displays_def)
  from seg_sees_array [OF this] show ?thesis using l(2,3) assms(2) by (auto simp: borrowed_def)
qed

lemma member_reads:
  "shows_member key x t \<Longrightarrow> tree_in h t nx pv \<Longrightarrow> reads h (ct_addr t) x \<and> (\<exists>b. ct_key t = Some (b, key))"
  using tree_reads by (auto simp: shows_member_def)

lemma body_reads:
  assumes "tree_in h (CT body k VObject (ks @ bs)) None None" "list_all2 (\<lambda>t kv. shows_member (fst kv) (snd kv) t) ks kvs"
    "list_all2 (lends h) bs bkvs"
  shows "reads h body (CObject (kvs @ bkvs))"
proof -
  let ?ts = "ks @ bs"
  have seg: "seg_in h (last_addr ?ts None) ?ts None"
    and n: "ch_nodes h body = Some (node_of k VObject ?ts None None)" using assms(1) by (simp_all del: seg_append)
  have parts: "seg_in h (last_addr ?ts None) ks (first_addr bs None)" "seg_in h (last_addr ks (last_addr ?ts None)) bs None"
    using seg by simp_all
  let ?R = "\<lambda>t kv. reads h (ct_addr t) (snd kv) \<and> (\<exists>b. ct_key t = Some (b, fst kv))"
  have "?R (ks ! i) (kvs ! i)" if i: "i < length ks" for i
  proof -
    obtain nx pv where "tree_in h (ks ! i) nx pv" using seg_nth [OF parts(1) i] by blast
    then show ?thesis by (rule member_reads [OF list_all2_nthD [OF assms(2) i]])
  qed
  moreover have "?R (bs ! i) (bkvs ! i)" if i: "i < length bs" for i
  proof -
    obtain nx pv where "tree_in h (bs ! i) nx pv" using seg_nth [OF parts(2) i] by blast
    then show ?thesis by (rule lends_reads [OF list_all2_nthD [OF assms(3) i]])
  qed
  ultimately have "list_all2 ?R ks kvs" "list_all2 ?R bs bkvs"
    using assms(2,3) by (simp_all add: list_all2_conv_all_nth)
  from list_all2_appendI [OF this] have "list_all2 ?R ?ts (kvs @ bkvs)" .
  from seg_sees_object [OF seg this] show ?thesis using n by simp
qed

definition body_members :: "string option \<Rightarrow> int \<Rightarrow> (string \<times> cjson) list" where
  "body_members model max_tokens =
     [(''model'', CString (cstr (case model of Some m \<Rightarrow> m | None \<Rightarrow> MUA_DEFAULT_MODEL))), (''stream'', CBool True)]
       @ (if max_tokens > 0 then [(''max_tokens'', CNumber (dbl_of_int max_tokens))] else [])"

definition tools_member :: "ctree option \<Rightarrow> (string \<times> cjson) list" where
  "tools_member tools =
     (case tools of Some t \<Rightarrow> if ct_kids t \<noteq> [] then [(''tools'', CArray (map value_of (ct_kids t)))] else [] | None \<Rightarrow> [])"

lemma built_members:
  assumes "built h0 h R"
  shows "\<exists>body h1 ks.
    do {
      let (body, h) = cJSON_CreateObject h;
      h \<leftarrow> node_add_cstr body ''model'' (case model of Some m \<Rightarrow> m | None \<Rightarrow> MUA_DEFAULT_MODEL) h;
      h \<leftarrow> node_add_bool body ''stream'' True h;
      h \<leftarrow> (if max_tokens > 0 then node_add_int body ''max_tokens'' max_tokens h else Some h);
      Some (body, h)
    } = Some (body, h1) \<and> built h0 h1 (CT body None VObject ks # R)
    \<and> list_all2 (\<lambda>t kv. shows_member (fst kv) (snd kv) t) ks (body_members model max_tokens)"
proof -
  define body h1 where "body = fst (cJSON_CreateObject h)" and "h1 = snd (cJSON_CreateObject h)"
  let ?m = "case model of Some m \<Rightarrow> m | None \<Rightarrow> MUA_DEFAULT_MODEL"
  have pair: "cJSON_CreateObject h = (body, h1)" by (simp add: body_def h1_def)
  have "built h0 h1 (CT body None VObject [] # R)" unfolding body_def h1_def by (rule built_object [OF assms])
  from built_add_cstr [OF this, of "''model''" ?m] obtain h2 t1 where
    h2: "node_add_cstr body ''model'' ?m h1 = Some h2" "shows_member ''model'' (CString (cstr ?m)) t1"
      "built h0 h2 (CT body None VObject ([] @ [t1]) # R)" by blast
  from built_add_bool [OF this(3), of "''stream''" True] obtain h3 t2 where
    h3: "node_add_bool body ''stream'' True h2 = Some h3" "shows_member ''stream'' (CBool True) t2"
      "built h0 h3 (CT body None VObject (([] @ [t1]) @ [t2]) # R)" by blast
  show ?thesis
  proof (cases "max_tokens > 0")
    case True
    from built_add_int [OF h3(3), of "''max_tokens''" max_tokens] obtain h4 t3 where
      h4: "node_add_int body ''max_tokens'' max_tokens h3 = Some h4" "shows_member ''max_tokens'' (CNumber (dbl_of_int max_tokens)) t3"
        "built h0 h4 (CT body None VObject ((([] @ [t1]) @ [t2]) @ [t3]) # R)" by blast
    then show ?thesis using True h2 h3 pair
      by (intro exI [of _ body] exI [of _ h4] exI [of _ "[t1, t2, t3]"]) (simp add: body_members_def)
  next
    case False
    then show ?thesis using h2 h3 pair
      by (intro exI [of _ body] exI [of _ h3] exI [of _ "[t1, t2]"]) (simp add: body_members_def)
  qed
qed

lemma body_nodes_steps:
  "body_nodes model max_tokens messages tools h =
    do {
      (body, h) \<leftarrow> do {
        let (body, h) = cJSON_CreateObject h;
        h \<leftarrow> node_add_cstr body ''model'' (case model of Some m \<Rightarrow> m | None \<Rightarrow> MUA_DEFAULT_MODEL) h;
        h \<leftarrow> node_add_bool body ''stream'' True h;
        h \<leftarrow> (if max_tokens > 0 then node_add_int body ''max_tokens'' max_tokens h else Some h);
        Some (body, h)
      };
      m \<leftarrow> ch_nodes h messages;
      h \<leftarrow> add_borrowed body ''messages'' (nd_child m) h;
      h \<leftarrow> (case tools of
             None \<Rightarrow> Some h
           | Some t \<Rightarrow>
               do {
                 n \<leftarrow> ch_nodes h t;
                 if nd_child n \<noteq> None then add_borrowed body ''tools'' (nd_child n) h else Some h
               });
      Some (body, h)
    }"
  by (simp add: body_nodes_def Let_def split: prod.split)


text \<open>A plain array of the smaller heap is displayed in every later one.\<close>

lemma keeps_displays:
  assumes "built h0 h' ts" "tree_in h0 (CT a k VArray elems) None None" "list_all plain_tree elems"
  shows "displays h' a elems (map value_of elems)"
proof -
  have t: "tree_in h' (CT a k VArray elems) None None" by (rule built_keeps [OF assms(1,2)])
  then have "seg_in h' (last_addr elems None) elems None" by simp
  from plain_elements [OF this assms(3)] show ?thesis unfolding displays_def using t by blast
qed

lemma displays_node: "displays h a elems xs \<Longrightarrow> \<exists>n. ch_nodes h a = Some n \<and> nd_child n = first_addr elems None"
  by (auto simp: displays_def)

text \<open>A plain array as a tree of its own.\<close>

definition array_in :: "cj_heap \<Rightarrow> ctree \<Rightarrow> bool" where
  "array_in h t \<longleftrightarrow> tree_in h t None None \<and> ct_val t = VArray \<and> plain_tree t"

lemma built_tools:
  assumes "built h0 h (CT body None VObject kids # R)"
    "pred_option (array_in h0) tools"
  shows "\<exists>h' bs. (case map_option ct_addr tools of
      None \<Rightarrow> Some h
    | Some t \<Rightarrow>
        do {
          n \<leftarrow> ch_nodes h t;
          if nd_child n \<noteq> None then add_borrowed body ''tools'' (nd_child n) h else Some h
        }) = Some h'
    \<and> built h0 h' (CT body None VObject (kids @ bs) # R) \<and> list_all2 (lends h') bs (tools_member tools)"
proof (cases tools)
  case None
  then show ?thesis using assms(1) by (intro exI [of _ h] exI [of _ "[]"]) (simp add: tools_member_def)
next
  case (Some t)
  obtain a k v ks where t: "t = CT a k v ks" by (cases t)
  have plain: "tree_in h0 (CT a k VArray ks) None None" "list_all plain_tree ks" "v = VArray"
    using assms(2) Some t by (auto simp: array_in_def)
  from displays_node [OF keeps_displays [OF assms(1) plain(1,2)]] obtain n where
    n: "ch_nodes h a = Some n" "nd_child n = first_addr ks None" by blast
  show ?thesis
  proof (cases ks)
    case Nil
    then show ?thesis using Some t n assms(1) by (intro exI [of _ h] exI [of _ "[]"]) (simp add: tools_member_def)
  next
    case (Cons x xs)
    from built_add_borrowed [OF assms(1), of "''tools''" "first_addr ks None"] obtain h' b where
      h': "add_borrowed body ''tools'' (first_addr ks None) h = Some h'" "borrowed ''tools'' (first_addr ks None) b"
        "built h0 h' (CT body None VObject (kids @ [b]) # R)" by blast
    have "lends h' b (''tools'', CArray (map value_of ks))"
      unfolding lends_def using h'(2) keeps_displays [OF h'(3) plain(1,2)] by (auto intro!: exI)
    then show ?thesis using Some t n Cons h'
      by (intro exI [of _ h'] exI [of _ "[b]"]) (simp add: tools_member_def)
  qed
qed

lemma built_body:
  assumes "built h0 h R" "\<forall>h' B. built h0 h' (B # R) \<longrightarrow> displays h' messages elems xs"
    "pred_option (array_in h0) tools"
  shows "\<exists>body h' kids. body_nodes model max_tokens messages (map_option ct_addr tools) h = Some (body, h')
    \<and> built h0 h' (CT body None VObject kids # R)
    \<and> reads h' body (CObject (body_members model max_tokens @ (''messages'', CArray xs) # tools_member tools))"
proof -
  from built_members [OF assms(1), of model max_tokens] obtain body h1 ks where
    members: "do {
      let (body, h) = cJSON_CreateObject h;
      h \<leftarrow> node_add_cstr body ''model'' (case model of Some m \<Rightarrow> m | None \<Rightarrow> MUA_DEFAULT_MODEL) h;
      h \<leftarrow> node_add_bool body ''stream'' True h;
      h \<leftarrow> (if max_tokens > 0 then node_add_int body ''max_tokens'' max_tokens h else Some h);
      Some (body, h)
    } = Some (body, h1)" and
    b1: "built h0 h1 (CT body None VObject ks # R)" and
    ks: "list_all2 (\<lambda>t kv. shows_member (fst kv) (snd kv) t) ks (body_members model max_tokens)" by blast
  from displays_node [OF assms(2) [rule_format, OF b1]] obtain n where
    n: "ch_nodes h1 messages = Some n" "nd_child n = first_addr elems None" by blast
  from built_add_borrowed [OF b1, of "''messages''" "first_addr elems None"] obtain h2 m where
    h2: "add_borrowed body ''messages'' (first_addr elems None) h1 = Some h2" "borrowed ''messages'' (first_addr elems None) m"
      "built h0 h2 (CT body None VObject (ks @ [m]) # R)" by blast
  from built_tools [OF h2(3) assms(3)] obtain h' bs where
    tools: "(case map_option ct_addr tools of
      None \<Rightarrow> Some h2
    | Some t \<Rightarrow>
        do {
          n \<leftarrow> ch_nodes h2 t;
          if nd_child n \<noteq> None then add_borrowed body ''tools'' (nd_child n) h2 else Some h2
        }) = Some h'" and
    b': "built h0 h' (CT body None VObject ((ks @ [m]) @ bs) # R)" and
    bs: "list_all2 (lends h') bs (tools_member tools)" by blast
  have run: "body_nodes model max_tokens messages (map_option ct_addr tools) h = Some (body, h')"
    unfolding body_nodes_steps members using n h2(1) tools by simp
  have "lends h' m (''messages'', CArray xs)" unfolding lends_def using assms(2) [rule_format, OF b'] h2(2) by (auto intro!: exI)
  then have "list_all2 (lends h') (m # bs) ((''messages'', CArray xs) # tools_member tools)" using bs by simp
  moreover have "tree_in h' (CT body None VObject (ks @ m # bs)) None None" using builtD(3) [OF b'] by (simp del: tree_in.simps)
  ultimately have "reads h' body (CObject (body_members model max_tokens @ (''messages'', CArray xs) # tools_member tools))"
    by (intro body_reads [OF _ ks])
  then show ?thesis using run b' by blast
qed


section \<open>The request\<close>

lemma request_displays:
  assumes "tree_in h0 (CT sa k VArray msgs) None None" "list_all plain_tree msgs"
    "shows_member ''role'' (CString ''system'') a" "shows_member ''content'' x b" "list_all2 shell rs msgs"
    "built h0 h (B # [CT r None VArray (CT sys None VObject [a, b] # rs)])"
  shows "displays h r (CT sys None VObject [a, b] # rs)
    (CObject [(''role'', CString ''system''), (''content'', x)] # map value_of msgs)"
proof -
  let ?sys = "CT sys None VObject [a, b]"
  have r: "tree_in h (CT r None VArray (?sys # rs)) None None" using builtD(3) [OF assms(6)] by (simp del: tree_in.simps)
  have s: "tree_in h (CT sa k VArray msgs) None None" by (rule built_keeps [OF assms(6,1)])
  have parts: "tree_in h ?sys (first_addr rs None) (last_addr (?sys # rs) None)" "seg_in h (Some sys) rs None"
    using r by simp_all
  have seg: "seg_in h (last_addr msgs None) msgs None" using s by simp
  have plain: "plain_tree ?sys" using assms(3,4) by (auto simp: shows_member_def)
  have val: "value_of ?sys = CObject [(''role'', CString ''system''), (''content'', x)]"
    using assms(3,4) by (auto simp: shows_member_def key_of_def)
  from tree_reads [OF parts(1) plain] have "reads h sys (CObject [(''role'', CString ''system''), (''content'', x)])"
    unfolding val by simp
  then show ?thesis
    unfolding displays_def using r shell_elements [OF parts(2) seg assms(2,5)] by (auto simp del: tree_in.simps)
qed

lemma request_runs:
  assumes "heap_ok h" "tree_in h (CT sa k VArray msgs) None None" "list_all plain_tree msgs"
    "pred_option (array_in h) tools"
  shows "\<exists>body printed h'. request_in_memory prompt model max_tokens sa (map_option ct_addr tools) h = Some (body, printed, h')
    \<and> reads printed body (CObject (body_members model max_tokens @ (''messages'', CArray
        ((case prompt of None \<Rightarrow> [] | Some p \<Rightarrow> [CObject [(''role'', CString ''system''), (''content'', CString (cstr p))]])
          @ map value_of msgs)) # tools_member tools))
    \<and> ch_nodes h' = ch_nodes h \<and> ch_strings h' = ch_strings h"
proof (cases prompt)
  case None
  have "\<forall>h' B. built h h' (B # []) \<longrightarrow> displays h' sa msgs (map value_of msgs)"
    using keeps_displays [OF _ assms(2,3)] by blast
  from built_body [where tools = tools, OF built_start [OF assms(1)] this assms(4), where model = model and max_tokens = max_tokens]
  obtain body h1 kids where
    body: "body_nodes model max_tokens sa (map_option ct_addr tools) h = Some (body, h1)"
      "built h h1 [CT body None VObject kids]"
      "reads h1 body (CObject (body_members model max_tokens @ (''messages'', CArray (map value_of msgs)) # tools_member tools))"
    by blast
  from built_delete [OF body(2)] obtain h2 where h2: "cJSON_Delete (Some body) h1 = Some h2" "built h h2 []" by auto
  have "cJSON_Delete None h2 = Some h2" by (simp add: cJSON_Delete.simps)
  then have "request_in_memory prompt model max_tokens sa (map_option ct_addr tools) h = Some (body, h1, h2)"
    using None body(1) h2(1) by (simp add: request_in_memory_def request_nodes_def)
  then show ?thesis using None body(3) built_end [OF h2(2)] by auto
next
  case (Some p)
  from built_request [OF assms(1,2), of p] obtain r h1 sys a b rs where
    req: "request_nodes (Some p) sa h = Some (Some r, h1)" and
    b1: "built h h1 [CT r None VArray (CT sys None VObject [a, b] # rs)]" (is "built h h1 ?R") and
    sh: "shows_member ''role'' (CString ''system'') a" "shows_member ''content'' (CString (cstr p)) b" "list_all2 shell rs msgs"
    by blast
  have "\<forall>h' B. built h h' (B # ?R) \<longrightarrow> displays h' r (CT sys None VObject [a, b] # rs)
      (CObject [(''role'', CString ''system''), (''content'', CString (cstr p))] # map value_of msgs)"
    using request_displays [OF assms(2,3) sh] by blast
  from built_body [where tools = tools, OF b1 this assms(4), where model = model and max_tokens = max_tokens] obtain body h2 kids where
    body: "body_nodes model max_tokens r (map_option ct_addr tools) h1 = Some (body, h2)"
      "built h h2 (CT body None VObject kids # ?R)"
      "reads h2 body (CObject (body_members model max_tokens @ (''messages'', CArray
        (CObject [(''role'', CString ''system''), (''content'', CString (cstr p))] # map value_of msgs)) # tools_member tools))"
    by blast
  from built_delete [OF body(2)] obtain h3 where h3: "cJSON_Delete (Some body) h2 = Some h3" "built h h3 ?R" by auto
  from built_delete [OF h3(2)] obtain h4 where h4: "cJSON_Delete (Some r) h3 = Some h4" "built h h4 []" by auto
  have "request_in_memory prompt model max_tokens sa (map_option ct_addr tools) h = Some (body, h2, h4)"
    using Some req body(1) h3(1) h4(1) by (simp add: request_in_memory_def)
  then show ?thesis using Some body(3) built_end [OF h4(2)] by auto
qed


lemma body_object_value:
  assumes "op_tools opts = map_option value_of tools" "pred_option (\<lambda>t. ct_val t = VArray) tools"
  shows "body_object opts = CObject (body_members (op_model opts) (op_max_tokens opts)
    @ (''messages'', CArray (cj_children (op_messages opts))) # tools_member tools)"
proof -
  have "cj_children (value_of t) = map value_of (ct_kids t)" if "ct_val t = VArray" for t
    using that by (cases t) simp
  then show ?thesis
    using assms by (cases tools) (simp_all add: body_object_def body_members_def tools_member_def json_new_obj_def
        json_add_cstr_def json_add_bool_def json_add_int_def Let_def)
qed

text \<open>
  C15. A heap with the session's array of messages and the array of tools in it. The request is built, printed
  and released without an access outside the heap; the printed object shows the value that \<open>build_body\<close>
  prints, the borrowed messages and tools included, and afterwards every node and every string is as before.
\<close>

theorem request_borrows:
  assumes "heap_ok h" "array_in h session" "pred_option (array_in h) tools"
    "value_of session = session_messages (at_session t)" "op_messages opts = request_messages t"
    "op_tools opts = map_option value_of tools"
  shows "\<exists>body printed h'. request_in_memory (at_system_prompt t) (op_model opts) (op_max_tokens opts) (ct_addr session)
      (map_option ct_addr tools) h = Some (body, printed, h')
    \<and> reads printed body (body_object opts) \<and> ch_nodes h' = ch_nodes h \<and> ch_strings h' = ch_strings h"
proof -
  obtain sa k msgs where session: "session = CT sa k VArray msgs" using assms(2) by (cases session) (auto simp: array_in_def)
  then have s: "tree_in h (CT sa k VArray msgs) None None" "list_all plain_tree msgs"
    using assms(2) by (auto simp: array_in_def simp del: tree_in.simps)
  have msgs: "cj_children (op_messages opts) =
      (case at_system_prompt t of None \<Rightarrow> []
       | Some p \<Rightarrow> [CObject [(''role'', CString ''system''), (''content'', CString (cstr p))]]) @ map value_of msgs"
    using assms(4,5) session
    by (auto simp: request_messages_def session_messages_def Let_def json_add_cstr_def json_new_obj_def cstr_def split: option.split)
  have tools: "pred_option (\<lambda>t. ct_val t = VArray) tools" using assms(3) by (cases tools) (simp_all add: array_in_def)
  from request_runs [OF assms(1) s assms(3), of "at_system_prompt t" "op_model opts" "op_max_tokens opts"]
  show ?thesis unfolding body_object_value [OF assms(6) tools] msgs session by (simp del: append_assoc)
qed

text \<open>A session of one message, and one tool.\<close>

definition sample_message :: "ctree list" where
  "sample_message = [CT 2 (Some (4, ''content'')) (VString 3 ''hi'') []]"

definition sample_messages :: "ctree list" where
  "sample_messages = [CT 1 None VObject sample_message]"

definition sample_tools :: "ctree list" where
  "sample_tools = [CT 6 None VObject []]"

definition sample_heap :: cj_heap where
  "sample_heap =
     \<lparr>ch_nodes =
        [0 \<mapsto> node_of None VArray sample_messages None None, 1 \<mapsto> node_of None VObject sample_message None (Some 1),
         2 \<mapsto> node_of (Some (4, ''content'')) (VString 3 ''hi'') [] None (Some 2),
         5 \<mapsto> node_of None VArray sample_tools None None, 6 \<mapsto> node_of None VObject [] None (Some 6)],
      ch_strings = [3 \<mapsto> ''hi'', 4 \<mapsto> ''content''], ch_fresh = 7\<rparr>"

lemma sample_heap_ok:
  "heap_ok sample_heap" "array_in sample_heap (CT 0 None VArray sample_messages)" "array_in sample_heap (CT 5 None VArray sample_tools)"
  by (simp_all add: heap_ok_def array_in_def sample_heap_def sample_messages_def sample_message_def sample_tools_def
      last_addr_def own_strings_def strings_in_def)

lemma request_borrows_witness:
  "\<forall>t sess. \<exists>body printed h'.
     request_in_memory (Some ''be brief'') None 0 0 (Some 5) sample_heap = Some (body, printed, h')
     \<and> reads printed body (body_object
         \<lparr>op_model = None, op_max_tokens = 0,
          op_messages = request_messages (t\<lparr>at_system_prompt := Some ''be brief'',
            at_session := sess\<lparr>ss_messages := [CObject [(''content'', CString ''hi'')]]\<rparr>\<rparr>),
          op_tools = Some (CArray [CObject []]), op_api_key = None, op_base_url = None\<rparr>)
     \<and> ch_nodes h' = ch_nodes sample_heap \<and> ch_strings h' = ch_strings sample_heap"
proof (intro allI)
  fix t :: agent_turn and sess :: session_state
  let ?t = "t\<lparr>at_system_prompt := Some ''be brief'', at_session := sess\<lparr>ss_messages := [CObject [(''content'', CString ''hi'')]]\<rparr>\<rparr>"
  let ?opts = "\<lparr>op_model = None, op_max_tokens = 0, op_messages = request_messages ?t,
    op_tools = Some (CArray [CObject []]), op_api_key = None, op_base_url = None\<rparr>"
  show "\<exists>body printed h'. request_in_memory (Some ''be brief'') None 0 0 (Some 5) sample_heap = Some (body, printed, h')
     \<and> reads printed body (body_object ?opts) \<and> ch_nodes h' = ch_nodes sample_heap \<and> ch_strings h' = ch_strings sample_heap"
    using request_borrows [of sample_heap "CT 0 None VArray sample_messages" "Some (CT 5 None VArray sample_tools)" ?t ?opts]
      sample_heap_ok
    by (simp add: sample_messages_def sample_message_def sample_tools_def session_messages_def key_of_def)
qed

end
