(* ===== verification/Spec2Isabelle.thy ===== *)
theory Spec2Isabelle
  imports SseRefine SessionProps ToolsProps BashProps ProviderProps RepairProps RpcProps RenderProps BridgeProps
    ModelsProps FrontendProps RunProps HttpProps Loop LuaState CjsonSession CjsonRequest
begin

text \<open>
  A verification development for mua, a coding agent in C (\<open>src/mua\<close>): a command line program that
  sends a conversation to a language model over HTTP, streams the answer, runs the tools the model asks
  for and keeps the conversation in a file; Lua hooks take part in it, and \<open>--embed\<close> serves its API as
  MessagePack-RPC on the standard streams.

  \<^bold>\<open>How the parts interact.\<close> \<open>main.c\<close> resolves the session (\<open>session.c\<close>), looks up the model's
  context window (\<open>provider/models.c\<close>) and runs turns (\<open>agent.c\<close>). A turn appends the user's message
  to the session, streams a completion from the provider (\<open>provider/openrouter.c\<close>, over the decoder of
  \<open>sse.c\<close> and the JSON adapter of \<open>json.c\<close>), asks the gate about each tool call and executes it
  (\<open>tools.c\<close>), and starts over until the model asks for no tool. The gate composes the ToolPre hooks of
  the Lua bridge (\<open>lua/bridge.c\<close>, over \<open>autocmd.c\<close>) with the policy the arguments chose. Text goes
  through the renderer (\<open>render.c\<close>) when standard output is a terminal. Options and variables
  (\<open>options.c\<close>, \<open>variables.c\<close>) are reached from Lua and from RPC (\<open>rpc.c\<close>, \<open>msgpack.c\<close>,
  \<open>api\<close>) through the same dispatch table. Values crossing these borders are Objects
  (\<open>api/private/helpers.c\<close>); buffers are the capped ones of \<open>memory.c\<close>.

  \<^bold>\<open>Which theory models what.\<close> The definitions carry the names of the C functions; a function of C
  that is too long for one definition is split at its loops and switches. State is a record passed
  along, one per struct or group of statics; errors are \<open>Inl\<close> or an error option; a failed assertion or
  a dereferenced \<open>NULL\<close> is the outer \<open>None\<close>. Sizes are natural numbers with the caps of the code,
  which are checked where the code checks them; 64-bit values that wrap or are sent are words.
  \<^item> \<open>Prelude\<close>: C strings and the strings that may be \<open>NULL\<close>, errors, the locale \<open>chunked_consumer\<close>.
    \<open>Memory\<close>: \<open>Buf\<close> and \<open>Arena\<close>. \<open>Double\<close>: \<open>double\<close> as bits. \<open>Objects\<close>: object trees, their copy
    and their release. \<open>Walk\<close>: the locale of the explicit-stack walks. \<open>Store\<close>: that of the key-value
    stores. \<open>Callbacks\<close>: that of the things which call back until a final call.
  \<^item> \<open>Json\<close>, \<open>Msgpack\<close>, \<open>Sse\<close>: \<open>json.c\<close>, \<open>msgpack.c\<close>, \<open>sse.c\<close>; \<open>MsgpackProps\<close>, \<open>SseRefine\<close>:
    round trip, bounds and prefixes of the codec, and the refinement of a decoder that reads one byte at
    a time, from which it follows that the cutting of the stream does not matter.
  \<^item> \<open>Options\<close>, \<open>Variables\<close>, \<open>Autocmd\<close>, \<open>Paths\<close>, \<open>Registry\<close> (the tool table of \<open>tools.c\<close>),
    \<open>Api\<close> (\<open>api/global.c\<close>, \<open>api/session.c\<close>, \<open>api/dispatch.c\<close> over the record \<open>mua_state\<close> of all
    stores): the stores, each with its invariant and what a read returns after writes.
  \<^item> \<open>Session\<close>, \<open>SessionProps\<close>: the file of the conversation; what was acknowledged is read back,
    whatever the reads and a torn last line.
  \<^item> \<open>Tools\<close>, \<open>ToolsProps\<close>, \<open>Bash\<close>, \<open>BashProps\<close>: read, write and edit, and the process tool with its
    three handles as a machine over the events of libuv: an invariant, a measure that every event but a
    read and a cancel decreases, the single result and its text.
  \<^item> \<open>Provider\<close>, \<open>ProviderProps\<close>: the stream as a machine over the events of the HTTP client and the
    retry timer: callbacks, retries, the assembled message.
  \<^item> \<open>Agent\<close>, \<open>AgentProps\<close>, \<open>RepairProps\<close>: the turn, with the stream, the tool and the session inside;
    one invariant over the phases of a turn gives the single \<open>on_finish\<close>, the answered tool calls and the
    budgets; the repair of a resumed session.
  \<^item> \<open>Rpc\<close>, \<open>RpcProps\<close>: the server; it refines a function of the byte stream.
  \<^item> \<open>Render\<close>, \<open>RenderProps\<close>: the renderer; it refines a styling of whole lines.
  \<^item> \<open>Lua\<close>, \<open>Bridge\<close>, \<open>BridgeProps\<close>: marshalling, the functions given to Lua and the calls of hooks and
    tools; the stack is its height, so that what the code leaves on it shows.
  \<^item> \<open>LuaState\<close>: the creation of the Lua state, the global \<open>mua\<close> and \<open>init.lua\<close>. \<open>Loop\<close>: the event loop's
    interrupts and teardown, the log.
  \<^item> \<open>Models\<close>, \<open>ModelsProps\<close>: the catalogue of context windows.
  \<^item> \<open>Http\<close>, \<open>HttpProps\<close>: the client on the curl multi handle, as a machine over the calls of libcurl, the
    reap timer and the close callbacks; every request is completed once, also when it is cancelled or the
    client is closed, whatever its callbacks do.
  \<^item> \<open>CjsonParse\<close>, \<open>CjsonPrint\<close>: the parser and the printer of the bundled library (\<open>cjson/cJSON.c\<close>), with their
    buffers, where a read or a write out of bounds is \<open>None\<close>. \<open>CjsonParseProps\<close>: every document is parsed
    or refused within bounds. \<open>CjsonPrintProps\<close>: the printer computes \<open>json_text\<close>. \<open>CjsonText\<close>: what is printed
    is read back. \<open>CjsonPrefix\<close>: what is read of a buffer is read of every extension of it, so no strict part
    of the text of an object is accepted. \<open>CjsonSession\<close>: the library under the adapter and the session.
  \<^item> \<open>CjsonTree\<close>: the trees of the library in memory, a heap of nodes and strings with the operations that
    create, release, search, link and copy them. \<open>CjsonTreeProps\<close>: a tree of values laid out in a heap, its
    release and its links. \<open>CjsonOwned\<close>: which trees a heap has beyond another one, and how each operation
    changes the list of them. \<open>CjsonEdit\<close>: arrays in memory are lists. \<open>CjsonRequest\<close>: the request of a turn as
    \<open>agent.c\<close> and \<open>provider/openrouter.c\<close> build it over the session's messages, against its value in \<open>Provider\<close>.
  \<^item> \<open>Frontend\<close>, \<open>FrontendProps\<close>, \<open>RunProps\<close>: \<open>main.c\<close>. A turn is run by \<open>turn_loop\<close>, which joins \<open>Loop\<close> and
    \<open>Agent\<close>: its script lists the callbacks and signals that the loop runs, each entry meets the composed gate
    of the turn on the Lua world of that moment, a first signal calls the turn's cancel and a second one stops
    the loop. \<open>run_agent\<close> ends with one more run of the loop (\<open>run_close\<close>), which goes on with a turn that was
    stopped hard. Proved: what a turn shows, the composed gate, the budget of every turn of a process, what its
    gates decide and which calls it starts, its exit code, its teardown, and what a hard stop leaves behind.

  \<^bold>\<open>Interfaces.\<close> \<open>chunked_consumer\<close> (interpreted by the SSE parser, the session loader, the scanner of the
  read tool and the capture of a process): a consumer of chunks that agrees with a byte step does not see
  how its input was cut. \<open>bounded_buffer\<close> (\<open>Buf\<close>). \<open>stack_walk\<close> (the five explicit-stack loops): the loop
  computes the recursive function, or fails exactly beyond the depth cap. \<open>kv_store\<close> (options, variables):
  reads return the last accepted write. \<open>one_shot\<close> (the bash tool, the provider's stream, each request
  of the HTTP client): one final callback, and none after it.

  \<^bold>\<open>Bounds and fuel.\<close> Loops of the code are recursions on their data; where they are not, a measure is
  given with the function (the walks: the nodes left; \<open>repl_loop\<close>: the bytes of input left). The parser of
  \<open>cJSON.c\<close> calls itself through a counter, two calls for each byte, which is enough for every document
  (\<open>cjson_parse_total\<close>); its limit of nestings is the 64 that \<open>CMakeLists.txt\<close> sets, not the default of the
  library. Other fuel is the code's own: caps such as \<open>kSessionEintrMax\<close>, \<open>kModelsMaxLoopTurns\<close> and \<open>kRpcMaxMessage\<close> are the
  constants of the source, and the walks' stacks of \<open>kMarshalDepthCap\<close> frames. The event loop is the list
  of the events it delivers: a step that cannot happen is \<open>None\<close>, and that some event is left until a
  component has finished is proved (\<open>turn_pending\<close>, \<open>bash_not_stuck\<close>).

  \<^bold>\<open>Parameters.\<close> libcurl, libuv, Lua, the C library's floating point and the system calls are not defined
  here. libuv, libcurl and the system are the events they deliver and the outcomes of their calls; Lua is
  the record \<open>lua_lib\<close>, whose call of a function may do anything to the world; the theorems that need it
  assume that \<open>luaL_ref\<close> returns an unused reference. The components above the JSON adapter take the parser
  and the printer of JSON as functions: the provider and the agent need that the strings of a tree are C
  strings (\<open>parser_ok\<close>), the session that a printed document is one line that parses back while no strict
  part of it does (\<open>text_ok\<close>). \<open>cjson_parser_ok\<close> and \<open>cjson_text_ok\<close> prove both of the bundled library, from
  \<open>strtod_ok\<close> (\<open>strtod\<close> ends within its argument), \<open>printf_ok\<close> (a number has at most 25 characters) and, for
  the numbers of the tree, \<open>number_ok\<close> (a number is read back as it was printed). Each hypothesis holds in a
  witness.

  \<^bold>\<open>Not modelled.\<close> The constructors kept for unit tests, allocation failure (it ends the process), the Lua
  code under \<open>runtime\<close>, and the part of \<open>cJSON.c\<close> that compares and minifies trees and makes arrays of C
  numbers. Outside of the five theories above trees are values (\<open>Json\<close>); of the operations in memory those
  that insert, replace and copy are defined only. A cancel made from inside a callback of the stream is
  recorded, not threaded back into the turn.
\<close>

end
